(* ===== verification/Prelude.thy ===== *)
theory Prelude
  imports Main "HOL-Library.Char_ord" "HOL-Library.List_Lexorder"
begin

text \<open>
  Prelude: the names, automation and generic lemmas that the component theories share.
  Go's fallible functions return a pair of a value and an error; here they return a sum,
  \<open>Inl\<close> the error and \<open>Inr\<close> the value. Go's \<open>int64\<close> arithmetic wraps: \<open>i64\<close> writes
  the wrap-around out. Go byte strings are Isabelle \<open>string\<close>s, one \<open>char\<close> per byte.
\<close>

type_synonym bytes = string

named_theorems json_simps \<open>facts that evaluate the JSON layer on known documents\<close>
named_theorems rules_simps \<open>facts about the rule engines' helper functions\<close>
named_theorems db_simps \<open>facts about the tables of the match service\<close>

subsection \<open>Machine integers\<close>

text \<open>The value an \<open>int64\<close> holds after an operation whose exact result is \<open>x\<close>.\<close>

definition i64 :: "int \<Rightarrow> int" where
  "i64 x = (x + 2 ^ 63) mod 2 ^ 64 - 2 ^ 63"

definition max_i64 :: int where
  "max_i64 = 2 ^ 63 - 1"

definition is_i64 :: "int \<Rightarrow> bool" where
  "is_i64 x \<longleftrightarrow> - (2 ^ 63) \<le> x \<and> x \<le> max_i64"

lemma i64_id: "is_i64 x \<Longrightarrow> i64 x = x"
  by (simp add: i64_def is_i64_def max_i64_def)

lemma i64_in_range: "is_i64 (i64 x)"
proof -
  have "0 \<le> (x + 9223372036854775808) mod 18446744073709551616"
    and "(x + 9223372036854775808) mod 18446744073709551616 < 18446744073709551616"
    by simp_all
  then show ?thesis
    by (simp add: is_i64_def i64_def max_i64_def)
qed

lemma i64_succ: "0 \<le> x \<Longrightarrow> x < max_i64 \<Longrightarrow> i64 (x + 1) = x + 1"
  by (rule i64_id) (simp add: is_i64_def)

lemma i64_succ_max: "i64 (max_i64 + 1) = - (2 ^ 63)"
  by (simp add: i64_def max_i64_def)

subsection \<open>Results\<close>

text \<open>Sequencing of fallible steps: the early return of \<open>if err != nil\<close>.\<close>

fun and_then :: "'e + 'a \<Rightarrow> ('a \<Rightarrow> 'e + 'b) \<Rightarrow> 'e + 'b" where
  "and_then (Inl e) f = Inl e"
| "and_then (Inr x) f = f x"

lemma and_then_Inr [simp]:
  "and_then r f = Inr y \<longleftrightarrow> (\<exists>x. r = Inr x \<and> f x = Inr y)"
  by (cases r) auto

lemma and_then_Inl:
  "and_then r f = Inl e \<longleftrightarrow> r = Inl e \<or> (\<exists>x. r = Inr x \<and> f x = Inl e)"
  by (cases r) auto

text \<open>Every error of a step replaced by one error: \<open>if err != nil { return other }\<close>.\<close>

fun or_fail :: "'a option \<Rightarrow> 'e \<Rightarrow> 'e + 'a" where
  "or_fail None e = Inl e"
| "or_fail (Some x) e = Inr x"

lemma or_fail_Inr [simp]: "or_fail r e = Inr x \<longleftrightarrow> r = Some x"
  by (cases r) auto

subsection \<open>Lists\<close>

text \<open>Left fold of a partial step: a Go loop with an early error return.\<close>

fun fold_option :: "('b \<Rightarrow> 'a \<Rightarrow> 'a option) \<Rightarrow> 'b list \<Rightarrow> 'a \<Rightarrow> 'a option" where
  "fold_option f [] a = Some a"
| "fold_option f (x # xs) a = (case f x a of None \<Rightarrow> None | Some b \<Rightarrow> fold_option f xs b)"

fun map_partial :: "('a \<Rightarrow> 'b option) \<Rightarrow> 'a list \<Rightarrow> 'b list option" where
  "map_partial f [] = Some []"
| "map_partial f (x # xs) =
     (case f x of None \<Rightarrow> None
      | Some y \<Rightarrow> (case map_partial f xs of None \<Rightarrow> None | Some ys \<Rightarrow> Some (y # ys)))"

lemma map_partial_map [simp]: "(\<And>x. x \<in> set xs \<Longrightarrow> f (g x) = Some (h x)) \<Longrightarrow>
   map_partial f (map g xs) = Some (map h xs)"
  by (induction xs) auto

lemma map_partial_length: "map_partial f xs = Some ys \<Longrightarrow> length ys = length xs"
  by (induction xs arbitrary: ys) (auto split: option.splits)

lemma count_list_update:
  "i < length xs \<Longrightarrow>
   count_list (xs[i := x]) y + (if xs ! i = y then 1 else 0) =
   count_list xs y + (if x = y then 1 else 0)"
proof (induction xs arbitrary: i)
  case (Cons a xs)
  show ?case
  proof (cases i)
    case (Suc k)
    with Cons.IH [of k] Cons.prems show ?thesis by (simp split: if_splits)
  qed simp
qed simp

lemma count_list_update_new:
  "i < length xs \<Longrightarrow> xs ! i \<noteq> y \<Longrightarrow> x = y \<Longrightarrow> count_list (xs[i := x]) y = Suc (count_list xs y)"
  using count_list_update [of i xs x y] by simp

lemma count_list_update_same:
  "i < length xs \<Longrightarrow> xs ! i \<noteq> y \<Longrightarrow> x \<noteq> y \<Longrightarrow> count_list (xs[i := x]) y = count_list xs y"
  using count_list_update [of i xs x y] by simp

lemma count_list_update_old:
  "i < length xs \<Longrightarrow> xs ! i = y \<Longrightarrow> x \<noteq> y \<Longrightarrow> Suc (count_list (xs[i := x]) y) = count_list xs y"
  using count_list_update [of i xs x y] by simp

lemma count_list_sum3:
  "set xs \<subseteq> {a, b, c} \<Longrightarrow> distinct [a, b, c] \<Longrightarrow>
   count_list xs a + count_list xs b + count_list xs c = length xs"
  by (induction xs) auto

lemma le_2_cases: "x \<le> (2::nat) \<longleftrightarrow> x = 0 \<or> x = 1 \<or> x = 2"
  by arith

lemma set_le_2: "\<forall>x\<in>set xs. x \<le> (2::nat) \<Longrightarrow> set xs \<subseteq> {0, 1, 2}"
  by (simp add: subset_iff le_2_cases)

lemma count_list_le_2:
  "\<forall>x\<in>set xs. x \<le> (2::nat) \<Longrightarrow> count_list xs 0 + count_list xs 1 + count_list xs 2 = length xs"
  by (intro count_list_sum3 set_le_2) simp_all

lemma find_key:
  "distinct (map k xs) \<Longrightarrow> x \<in> set xs \<Longrightarrow> find (\<lambda>y. k y = k x) xs = Some x"
  by (induction xs) (auto simp: image_iff)

end
