(* ===== verification/GoBytes.thy ===== *)
theory GoBytes
  imports Prelude
begin

text \<open>
  Go byte strings: UTF-8 decoding as \<open>unicode/utf8\<close> does it, the control-character test of
  \<open>unicode.IsControl\<close>, and decimal integers as \<open>strconv\<close> prints and parses them. These model the
  standard library the code calls. The lemmas are the facts its callers rely on: a valid
  string splits into valid runes, and parsing a printed integer returns it.
\<close>

abbreviation byte :: "char \<Rightarrow> nat" where
  "byte c \<equiv> of_char c"

abbreviation DQ :: char where "DQ \<equiv> CHR 0x22"
abbreviation BSL :: char where "BSL \<equiv> CHR 0x5C"

subsection \<open>UTF-8\<close>

definition cont :: "char \<Rightarrow> bool" where
  "cont c \<longleftrightarrow> 128 \<le> byte c \<and> byte c \<le> 191"

text \<open>
  The width of the rune at the head of a byte string, 0 when \<open>utf8.DecodeRune\<close> reports
  \<open>RuneError\<close> (or the string is empty). The second-byte ranges exclude overlong forms,
  surrogates and values above U+10FFFF.
\<close>

definition second_ok :: "nat \<Rightarrow> nat \<Rightarrow> bool" where
  "second_ok x y \<longleftrightarrow>
     (if x = 224 then 160 \<le> y \<and> y \<le> 191
      else if x = 237 then 128 \<le> y \<and> y \<le> 159
      else if x = 240 then 144 \<le> y \<and> y \<le> 191
      else if x = 244 then 128 \<le> y \<and> y \<le> 143
      else 128 \<le> y \<and> y \<le> 191)"

definition rune_width2 :: "nat \<Rightarrow> bytes \<Rightarrow> nat" where
  "rune_width2 x s =
     (if x < 128 then 1
      else if 194 \<le> x \<and> x \<le> 223 then (case s of [] \<Rightarrow> 0 | b # _ \<Rightarrow> if cont b then 2 else 0)
      else if 224 \<le> x \<and> x \<le> 239 then
        (case s of [] \<Rightarrow> 0 | b # s2 \<Rightarrow> (case s2 of [] \<Rightarrow> 0 | c # _ \<Rightarrow>
           if second_ok x (byte b) \<and> cont c then 3 else 0))
      else if 240 \<le> x \<and> x \<le> 244 then
        (case s of [] \<Rightarrow> 0 | b # s2 \<Rightarrow> (case s2 of [] \<Rightarrow> 0 | c # s3 \<Rightarrow> (case s3 of [] \<Rightarrow> 0 | d # _ \<Rightarrow>
           if second_ok x (byte b) \<and> cont c \<and> cont d then 4 else 0)))
      else 0)"

definition rune_width :: "bytes \<Rightarrow> nat" where
  "rune_width s = (case s of [] \<Rightarrow> 0 | a # t \<Rightarrow> rune_width2 (byte a) t)"

lemma rune_width_simps [simp]:
  "rune_width [] = 0" "rune_width (a # s) = rune_width2 (byte a) s"
  by (simp_all add: rune_width_def)

text \<open>\<open>utf8.Valid\<close>.\<close>

fun utf8_valid :: "bytes \<Rightarrow> bool" where
  "utf8_valid [] = True"
| "utf8_valid (a # s) =
     (if byte a < 128 then utf8_valid s
      else rune_width (a # s) \<noteq> 0 \<and> utf8_valid (drop (rune_width (a # s) - 1) s))"

lemma rune_width2_le: "rune_width2 x s \<le> Suc (length s)"
  by (auto simp: rune_width2_def split: list.split)

lemma rune_width_le: "rune_width s \<le> length s"
  by (cases s) (auto simp: rune_width2_le)

lemma rune_width2_take:
  assumes "rune_width2 x s \<noteq> 0"
  shows "rune_width2 x (take (rune_width2 x s - 1) s @ t) = rune_width2 x s"
proof -
  consider (one) "x < 128" | (two) "194 \<le> x" "x \<le> 223" | (three) "224 \<le> x" "x \<le> 239"
    | (four) "240 \<le> x" "x \<le> 244"
    using assms by (auto simp: rune_width2_def not_less split: if_splits)
  then show ?thesis
  proof cases
    case one
    then show ?thesis by (simp add: rune_width2_def)
  next
    case two
    with assms obtain b s' where "s = b # s'" and "cont b"
      by (cases s) (auto simp: rune_width2_def split: if_splits)
    with two show ?thesis by (simp add: rune_width2_def)
  next
    case three
    with assms obtain b c s' where "s = b # c # s'" and "second_ok x (byte b)" and "cont c"
      by (cases s; cases "tl s") (auto simp: rune_width2_def split: if_splits)
    with three show ?thesis by (simp add: rune_width2_def numeral_2_eq_2)
  next
    case four
    with assms obtain b c d s' where "s = b # c # d # s'" and "second_ok x (byte b)"
        and "cont c" and "cont d"
      by (cases s; cases "tl s"; cases "tl (tl s)") (auto simp: rune_width2_def split: if_splits)
    with four show ?thesis by (simp add: rune_width2_def numeral_3_eq_3)
  qed
qed

lemma rune_width_take:
  assumes "rune_width s \<noteq> 0"
  shows "rune_width (take (rune_width s) s @ t) = rune_width s"
proof (cases s)
  case Nil
  with assms show ?thesis by simp
next
  case (Cons a r)
  with assms rune_width2_take [of "byte a" r t] show ?thesis
    by (cases "rune_width2 (byte a) r") simp_all
qed

lemma rune_width_gt1: "\<not> byte a < 128 \<Longrightarrow> rune_width (a # s) \<noteq> 0 \<Longrightarrow> 1 < rune_width (a # s)"
  by (auto simp: rune_width2_def split: list.splits if_splits)

text \<open>
  \<open>unicode.IsControl\<close> over the runes of a valid UTF-8 string: the category Cc is
  U+0000 to U+001F, U+007F and U+0080 to U+009F, the last ones encoded as C2 80 to C2 9F.
  The byte C2 is always a leading byte in a valid string.
\<close>

fun has_control :: "bytes \<Rightarrow> bool" where
  "has_control [] = False"
| "has_control (a # s) =
     (byte a < 32 \<or> byte a = 127 \<or>
      (byte a = 194 \<and> (case s of b # _ \<Rightarrow> 128 \<le> byte b \<and> byte b \<le> 159 | [] \<Rightarrow> False)) \<or>
      has_control s)"

subsection \<open>Decimal integers\<close>

definition is_digit :: "char \<Rightarrow> bool" where
  "is_digit c \<longleftrightarrow> 48 \<le> byte c \<and> byte c \<le> 57"

definition digit_char :: "nat \<Rightarrow> char" where
  "digit_char n = char_of (48 + n)"

definition digit_val :: "char \<Rightarrow> nat" where
  "digit_val c = byte c - 48"

fun show_nat :: "nat \<Rightarrow> bytes" where
  "show_nat n = (if n < 10 then [digit_char n] else show_nat (n div 10) @ [digit_char (n mod 10)])"

declare show_nat.simps [simp del]

definition show_int :: "int \<Rightarrow> bytes" where
  "show_int x = (if x < 0 then CHR ''-'' # show_nat (nat (- x)) else show_nat (nat x))"

definition read_digits :: "bytes \<Rightarrow> nat" where
  "read_digits s = foldl (\<lambda>n c. 10 * n + digit_val c) 0 s"

text \<open>\<open>strconv.ParseInt(s, 10, 64)\<close> on the strings the JSON scanner hands it (no sign \<open>+\<close>).\<close>

definition parse_i64 :: "bytes \<Rightarrow> int option" where
  "parse_i64 s =
     (let neg = (case s of c # _ \<Rightarrow> c = CHR ''-'' | [] \<Rightarrow> False);
          ds = (if neg then tl s else s);
          v = (if neg then - int (read_digits ds) else int (read_digits ds))
      in if ds \<noteq> [] \<and> list_all is_digit ds \<and> is_i64 v then Some v else None)"

lemma digit_char_props:
  assumes "n < 10"
  shows "is_digit (digit_char n)" and "digit_val (digit_char n) = n"
    and "byte (digit_char n) = 48 + n"
  using assms by (simp_all add: is_digit_def digit_val_def digit_char_def)

lemma show_nat_digits: "list_all is_digit (show_nat n)"
proof (induction n rule: show_nat.induct)
  case (1 n)
  then show ?case
    by (subst show_nat.simps) (auto simp: digit_char_props)
qed

lemma show_nat_nonempty [simp]: "show_nat n \<noteq> []"
  by (subst show_nat.simps) simp

lemma read_digits_append: "read_digits (xs @ [c]) = 10 * read_digits xs + digit_val c"
  by (simp add: read_digits_def)

lemma read_show_nat: "read_digits (show_nat n) = n"
proof (induction n rule: show_nat.induct)
  case (1 n)
  show ?case
  proof (cases "n < 10")
    case True
    then show ?thesis
      by (subst show_nat.simps) (simp add: read_digits_def digit_char_props)
  next
    case False
    with 1 have "read_digits (show_nat (n div 10)) = n div 10" by simp
    with False show ?thesis
      by (subst show_nat.simps) (simp add: read_digits_append digit_char_props)
  qed
qed

lemma hd_show_nat_digit: "is_digit (hd (show_nat n))"
  using show_nat_digits [of n] by (cases "show_nat n") auto

lemma minus_not_digit [simp]: "\<not> is_digit (CHR ''-'')"
  by (simp add: is_digit_def)

lemma parse_show_int: "is_i64 x \<Longrightarrow> parse_i64 (show_int x) = Some x"
proof (cases "x < 0")
  case True
  then show "is_i64 x \<Longrightarrow> parse_i64 (show_int x) = Some x"
    by (simp add: parse_i64_def show_int_def show_nat_digits read_show_nat)
next
  case False
  assume r: "is_i64 x"
  obtain c s where cs: "show_nat (nat x) = c # s" and d: "is_digit c"
    using hd_show_nat_digit [of "nat x"] by (cases "show_nat (nat x)") auto
  from d have "c \<noteq> CHR ''-''" by auto
  with False r cs show_nat_digits [of "nat x"] read_show_nat [of "nat x"] show ?thesis
    by (simp add: parse_i64_def show_int_def)
qed

lemma hd_show_nat_pos: "0 < n \<Longrightarrow> hd (show_nat n) \<noteq> CHR ''0''"
proof (induction n rule: show_nat.induct)
  case (1 n)
  show ?case
  proof (cases "n < 10")
    case True
    with 1 have "byte (digit_char n) \<noteq> byte (CHR ''0'')"
      by (simp add: digit_char_props)
    then have "digit_char n \<noteq> CHR ''0''" by auto
    with True show ?thesis by (subst show_nat.simps) simp
  next
    case False
    with 1 have "hd (show_nat (n div 10)) \<noteq> CHR ''0''" by simp
    with False show ?thesis by (subst show_nat.simps) simp
  qed
qed

lemma show_nat_0: "show_nat 0 = ''0''"
proof -
  have "char_of (of_char (CHR ''0'') :: nat) = CHR ''0''" by (rule char_of_char)
  then have "digit_char 0 = CHR ''0''" by (simp add: digit_char_def)
  then show ?thesis by (subst show_nat.simps) simp
qed

lemma length_show_nat: "n < 10 ^ k \<Longrightarrow> 0 < k \<Longrightarrow> length (show_nat n) \<le> k"
proof (induction k arbitrary: n)
  case (Suc k)
  show ?case
  proof (cases "n < 10")
    case True
    then show ?thesis by (subst show_nat.simps) simp
  next
    case False
    with Suc.prems have "0 < k" by (cases k) auto
    from Suc.prems have "n div 10 < 10 ^ k" by (simp add: less_mult_imp_div_less mult.commute)
    from this \<open>0 < k\<close> have le: "length (show_nat (n div 10)) \<le> k" by (rule Suc.IH)
    from le False show ?thesis by (subst show_nat.simps) simp
  qed
qed simp

lemma show_nat_inject: "show_nat m = show_nat n \<longleftrightarrow> m = n"
  by (metis read_show_nat)

lemma parse_i64_range: "parse_i64 s = Some x \<Longrightarrow> is_i64 x"
  by (auto simp: parse_i64_def Let_def split: if_splits)

end
