(* ===== verification/GoJson.thy ===== *)
theory GoJson
  imports GoBytes
begin

text \<open>
  The part of Go's \<open>encoding/json\<close> that the server uses, at the level of bytes: the scanner and
  decoder (\<open>json_parse\<close>), the marshaller (\<open>render\<close>), the strict member loop over
  \<open>Decoder.Token\<close> that every rule engine writes out (\<open>strict_object\<close>), and the decoding of a
  parsed value into typed fields (\<open>dec_string\<close>, \<open>dec_int\<close>, ...). Numbers keep their literal
  text, strings are decoded. The nesting limit of 10000 of the Go decoder is not modelled: every
  document the engines accept is shallow.

  The lemmas give the round trip: parsing a rendered value returns it, and the strict member
  loop of a rendered object returns the rendered members.
\<close>

datatype json =
    JNull
  | JBool bool
  | JNum bytes
  | JStr bytes
  | JArr "json list"
  | JObj "(bytes \<times> json) list"

subsection \<open>Scanning\<close>

definition is_ws :: "char \<Rightarrow> bool" where
  "is_ws c \<longleftrightarrow> c = CHR '' '' \<or> c = CHR 0x09 \<or> c = CHR 0x0A \<or> c = CHR 0x0D"

definition skip_ws :: "bytes \<Rightarrow> bytes" where
  "skip_ws s = dropWhile is_ws s"

definition hex_val :: "char \<Rightarrow> nat option" where
  "hex_val c =
     (let n = byte c in
      if 48 \<le> n \<and> n \<le> 57 then Some (n - 48)
      else if 97 \<le> n \<and> n \<le> 102 then Some (n - 87)
      else if 65 \<le> n \<and> n \<le> 70 then Some (n - 55)
      else None)"

text \<open>Four hexadecimal digits (\<open>getu4\<close> after the \<open>\u\<close>).\<close>

definition hex4 :: "bytes \<Rightarrow> (nat \<times> bytes) option" where
  "hex4 s =
     (if length s < 4 then None
      else case map_partial hex_val (take 4 s) of
        None \<Rightarrow> None
      | Some ds \<Rightarrow> Some (foldl (\<lambda>n d. 16 * n + d) 0 ds, drop 4 s))"

definition utf8_encode :: "nat \<Rightarrow> bytes" where
  "utf8_encode n =
     (if n < 128 then [char_of n]
      else if n < 2048 then [char_of (192 + n div 64), char_of (128 + n mod 64)]
      else if n < 65536 then
        [char_of (224 + n div 4096), char_of (128 + n div 64 mod 64), char_of (128 + n mod 64)]
      else
        [char_of (240 + n div 262144), char_of (128 + n div 4096 mod 64),
         char_of (128 + n div 64 mod 64), char_of (128 + n mod 64)])"

text \<open>U+FFFD, written for every invalid byte and unpaired surrogate.\<close>

definition replacement :: bytes where
  "replacement = utf8_encode 65533"

definition escape_val :: "char \<Rightarrow> char option" where
  "escape_val e =
     (if e = DQ \<or> e = BSL \<or> e = CHR ''/'' then Some e
      else if e = CHR ''b'' then Some (CHR 0x08)
      else if e = CHR ''f'' then Some (CHR 0x0C)
      else if e = CHR ''n'' then Some (CHR 0x0A)
      else if e = CHR ''r'' then Some (CHR 0x0D)
      else if e = CHR ''t'' then Some (CHR 0x09)
      else None)"

text \<open>The second half of a surrogate pair, if the input continues with one.\<close>

definition low_surrogate :: "bytes \<Rightarrow> (nat \<times> bytes) option" where
  "low_surrogate s =
     (if take 2 s = [BSL, CHR ''u''] then
        (case hex4 (drop 2 s) of
           None \<Rightarrow> None
         | Some (u, r) \<Rightarrow> if 56320 \<le> u \<and> u < 57344 then Some (u, r) else None)
      else None)"

definition unicode_unit :: "nat \<Rightarrow> bytes \<Rightarrow> bytes \<times> bytes" where
  "unicode_unit u r =
     (if 55296 \<le> u \<and> u < 57344 then
        (case (if u < 56320 then low_surrogate r else None) of
           Some (v, r') \<Rightarrow> (utf8_encode (65536 + (u - 55296) * 1024 + (v - 56320)), r')
         | None \<Rightarrow> (replacement, r))
      else (utf8_encode u, r))"

text \<open>One unit of a string literal: an escape or a rune, decoded, and the rest.\<close>

definition str_unit :: "char \<Rightarrow> bytes \<Rightarrow> (bytes \<times> bytes) option" where
  "str_unit a t =
     (if a = BSL then
        (case t of
           [] \<Rightarrow> None
         | e # r \<Rightarrow>
             if e = CHR ''u'' then
               (case hex4 r of None \<Rightarrow> None | Some (u, r') \<Rightarrow> Some (unicode_unit u r'))
             else (case escape_val e of None \<Rightarrow> None | Some c \<Rightarrow> Some ([c], r)))
      else if byte a < 32 then None
      else if byte a < 128 then Some ([a], t)
      else if rune_width (a # t) = 0 then Some (replacement, t)
      else Some (take (rune_width (a # t)) (a # t), drop (rune_width (a # t)) (a # t)))"

lemma hex4_length: "hex4 s = Some (u, r) \<Longrightarrow> length r < length s"
  by (auto simp: hex4_def split: if_splits option.splits)

lemma low_surrogate_length: "low_surrogate s = Some (u, r) \<Longrightarrow> length r \<le> length s"
  by (auto simp: low_surrogate_def split: if_splits option.splits prod.splits dest!: hex4_length)

lemma unicode_unit_length: "length (snd (unicode_unit u r)) \<le> length r"
  by (auto simp: unicode_unit_def split: option.splits prod.splits dest: low_surrogate_length)

lemma str_unit_length: "str_unit a t = Some (p, r) \<Longrightarrow> length r \<le> length t"
proof -
  assume u: "str_unit a t = Some (p, r)"
  have "length (snd (unicode_unit v q)) \<le> length q" for v q
    by (rule unicode_unit_length)
  with u show ?thesis
    by (auto simp: str_unit_def Let_def split: if_splits list.splits option.splits prod.splits
          dest!: hex4_length) (metis le_SucI le_trans less_imp_le snd_conv)
qed

text \<open>A string literal after its opening quote: the decoded text and the rest.\<close>

function jstr :: "bytes \<Rightarrow> (bytes \<times> bytes) option" where
  "jstr [] = None"
| "jstr (a # t) =
     (if a = DQ then Some ([], t)
      else case str_unit a t of
        None \<Rightarrow> None
      | Some (p, r) \<Rightarrow> (case jstr r of None \<Rightarrow> None | Some (q, r') \<Rightarrow> Some (p @ q, r')))"
  by pat_completeness auto
termination
  by (relation "measure length") (auto dest: str_unit_length)

text \<open>A number literal, kept as text, and the rest.\<close>

definition jfrac :: "bytes \<Rightarrow> (bytes \<times> bytes) option" where
  "jfrac s =
     (case s of
        [] \<Rightarrow> Some ([], [])
      | c # t \<Rightarrow>
          if c = CHR ''.'' then
            (if takeWhile is_digit t = [] then None
             else Some (c # takeWhile is_digit t, dropWhile is_digit t))
          else Some ([], s))"

definition jexp :: "bytes \<Rightarrow> (bytes \<times> bytes) option" where
  "jexp s =
     (case s of
        [] \<Rightarrow> Some ([], [])
      | c # t \<Rightarrow>
          if c = CHR ''e'' \<or> c = CHR ''E'' then
            (let sg = takeWhile (\<lambda>x. x = CHR ''+'' \<or> x = CHR ''-'') (take 1 t);
                 u = drop (length sg) t
             in if takeWhile is_digit u = [] then None
                else Some (c # sg @ takeWhile is_digit u, dropWhile is_digit u))
          else Some ([], s))"

definition jdigits :: "bytes \<Rightarrow> (bytes \<times> bytes) option" where
  "jdigits s =
     (case s of
        [] \<Rightarrow> None
      | c # t \<Rightarrow>
          if c = CHR ''0'' then Some ([c], t)
          else if is_digit c then Some (takeWhile is_digit s, dropWhile is_digit s)
          else None)"

definition jnum :: "bytes \<Rightarrow> (bytes \<times> bytes) option" where
  "jnum s =
     (let sg = (case s of [] \<Rightarrow> [] | c # t \<Rightarrow> if c = CHR ''-'' then [c] else []) in
      case jdigits (drop (length sg) s) of
        None \<Rightarrow> None
      | Some (ds, r) \<Rightarrow>
          (case jfrac r of
             None \<Rightarrow> None
           | Some (fs, r') \<Rightarrow>
               (case jexp r' of
                  None \<Rightarrow> None
                | Some (es, r'') \<Rightarrow> Some (sg @ ds @ fs @ es, r''))))"

definition strip :: "bytes \<Rightarrow> bytes \<Rightarrow> bytes option" where
  "strip w s = (if take (length w) s = w then Some (drop (length w) s) else None)"

text \<open>A literal that is not an object or an array.\<close>

definition jscalar :: "bytes \<Rightarrow> (json \<times> bytes) option" where
  "jscalar s =
     (case s of
        [] \<Rightarrow> None
      | a # t \<Rightarrow>
          if a = DQ then map_option (\<lambda>(x, r). (JStr x, r)) (jstr t)
          else if a = CHR ''t'' then map_option (Pair (JBool True)) (strip ''true'' s)
          else if a = CHR ''f'' then map_option (Pair (JBool False)) (strip ''false'' s)
          else if a = CHR ''n'' then map_option (Pair JNull) (strip ''null'' s)
          else map_option (\<lambda>(x, r). (JNum x, r)) (jnum s))"

text \<open>The member key and colon in front of a member value.\<close>

definition jkey :: "bytes \<Rightarrow> (bytes \<times> bytes) option" where
  "jkey s =
     (case s of
        [] \<Rightarrow> None
      | a # t \<Rightarrow>
          if a \<noteq> DQ then None
          else case jstr t of
            None \<Rightarrow> None
          | Some (k, r) \<Rightarrow>
              (case skip_ws r of
                 [] \<Rightarrow> None
               | c # r' \<Rightarrow> if c = CHR '':'' then Some (k, skip_ws r') else None))"

text \<open>
  The values themselves. The first argument bounds the recursion; \<open>2 * length s\<close> is always
  enough (lemma \<open>jval_fuel\<close> below).
\<close>

fun jval :: "nat \<Rightarrow> bytes \<Rightarrow> (json \<times> bytes) option"
and jelems :: "nat \<Rightarrow> bytes \<Rightarrow> (json list \<times> bytes) option"
and jmembers :: "nat \<Rightarrow> bytes \<Rightarrow> ((bytes \<times> json) list \<times> bytes) option" where
  "jval 0 s = None"
| "jval (Suc n) s =
     (if take 1 s = ''['' then
        (if take 1 (skip_ws (tl s)) = '']'' then Some (JArr [], tl (skip_ws (tl s)))
         else map_option (\<lambda>(x, r). (JArr x, r)) (jelems n (skip_ws (tl s))))
      else if take 1 s = ''{'' then
        (if take 1 (skip_ws (tl s)) = ''}'' then Some (JObj [], tl (skip_ws (tl s)))
         else map_option (\<lambda>(x, r). (JObj x, r)) (jmembers n (skip_ws (tl s))))
      else jscalar s)"
| "jelems 0 s = None"
| "jelems (Suc n) s =
     (case jval n s of
        None \<Rightarrow> None
      | Some (v, r) \<Rightarrow>
          if take 1 (skip_ws r) = '','' then
            map_option (\<lambda>(vs, r'). (v # vs, r')) (jelems n (skip_ws (tl (skip_ws r))))
          else if take 1 (skip_ws r) = '']'' then Some ([v], tl (skip_ws r))
          else None)"
| "jmembers 0 s = None"
| "jmembers (Suc n) s =
     (case jkey s of
        None \<Rightarrow> None
      | Some (k, s') \<Rightarrow>
          (case jval n s' of
             None \<Rightarrow> None
           | Some (v, r) \<Rightarrow>
               if take 1 (skip_ws r) = '','' then
                 map_option (\<lambda>(vs, r'). ((k, v) # vs, r')) (jmembers n (skip_ws (tl (skip_ws r))))
               else if take 1 (skip_ws r) = ''}'' then Some ([(k, v)], tl (skip_ws r))
               else None))"

text \<open>The first value of a stream (\<open>Decoder.Decode\<close>): the rest of the input is not looked at.\<close>

definition json_decode :: "bytes \<Rightarrow> (json \<times> bytes) option" where
  "json_decode s = jval (2 * length s) (skip_ws s)"

text \<open>A whole document (\<open>json.Unmarshal\<close> checks the syntax of all of its input first).\<close>

definition json_parse :: "bytes \<Rightarrow> json option" where
  "json_parse s =
     (case json_decode s of
        None \<Rightarrow> None
      | Some (v, r) \<Rightarrow> if skip_ws r = [] then Some v else None)"

subsection \<open>Marshalling\<close>

definition hex_digit :: "nat \<Rightarrow> char" where
  "hex_digit n = (if n < 10 then char_of (48 + n) else char_of (87 + n))"

text \<open>The ASCII bytes that are written as they are, with HTML escaping on.\<close>

definition html_safe :: "char \<Rightarrow> bool" where
  "html_safe c \<longleftrightarrow> 32 \<le> byte c \<and> byte c < 128 \<and> c \<noteq> DQ \<and> c \<noteq> BSL \<and>
     c \<noteq> CHR ''<'' \<and> c \<noteq> CHR ''>'' \<and> c \<noteq> CHR ''&''"

definition escape_ascii :: "char \<Rightarrow> bytes" where
  "escape_ascii c =
     (if c = DQ \<or> c = BSL then [BSL, c]
      else if byte c = 8 then [BSL, CHR ''b'']
      else if byte c = 12 then [BSL, CHR ''f'']
      else if byte c = 10 then [BSL, CHR ''n'']
      else if byte c = 13 then [BSL, CHR ''r'']
      else if byte c = 9 then [BSL, CHR ''t'']
      else [BSL, CHR ''u'', CHR ''0'', CHR ''0'', hex_digit (byte c div 16), hex_digit (byte c mod 16)])"

definition line_sep :: bytes where "line_sep = utf8_encode 8232"
definition para_sep :: bytes where "para_sep = utf8_encode 8233"

text \<open>What \<open>appendString\<close> writes for the rune at the head.\<close>

definition esc_unit :: "char \<Rightarrow> bytes \<Rightarrow> bytes" where
  "esc_unit a t =
     (let w = rune_width (a # t); u = take w (a # t) in
      if byte a < 128 then (if html_safe a then [a] else escape_ascii a)
      else if w = 0 then BSL # ''ufffd''
      else if u = line_sep then BSL # ''u2028''
      else if u = para_sep then BSL # ''u2029''
      else u)"

function esc :: "bytes \<Rightarrow> bytes" where
  "esc [] = []"
| "esc (a # t) = esc_unit a t @ esc (drop (rune_width (a # t) - 1) t)"
  by pat_completeness auto
termination
  by (relation "measure length") auto

definition quote :: "bytes \<Rightarrow> bytes" where
  "quote s = DQ # esc s @ [DQ]"

fun render :: "json \<Rightarrow> bytes"
and render_elems :: "json list \<Rightarrow> bytes"
and render_members :: "(bytes \<times> json) list \<Rightarrow> bytes" where
  "render JNull = ''null''"
| "render (JBool b) = (if b then ''true'' else ''false'')"
| "render (JNum l) = l"
| "render (JStr s) = quote s"
| "render (JArr js) = ''['' @ render_elems js @ '']''"
| "render (JObj kvs) = ''{'' @ render_members kvs @ ''}''"
| "render_elems [] = []"
| "render_elems (j # js) = render j @ (if js = [] then [] else '','' @ render_elems js)"
| "render_members [] = []"
| "render_members (kv # kvs) =
     quote (fst kv) @ '':'' @ render (snd kv) @ (if kvs = [] then [] else '','' @ render_members kvs)"

definition jint :: "int \<Rightarrow> json" where
  "jint x = JNum (show_int x)"

definition jptr :: "('a \<Rightarrow> json) \<Rightarrow> 'a option \<Rightarrow> json" where
  "jptr f p = (case p of None \<Rightarrow> JNull | Some x \<Rightarrow> f x)"

subsection \<open>The strict member loop\<close>

text \<open>
  The loop \<open>for decoder.More()\<close> over the members of an object: every key is allowed and new,
  the values are kept as raw bytes. The first argument bounds the number of members.
\<close>

fun obj_members ::
  "nat \<Rightarrow> bytes list \<Rightarrow> (bytes \<times> bytes) list \<Rightarrow> bytes \<Rightarrow> ((bytes \<times> bytes) list \<times> bytes) option"
where
  "obj_members 0 allowed seen s = None"
| "obj_members (Suc n) allowed seen s =
     (case jkey s of
        None \<Rightarrow> None
      | Some (k, s') \<Rightarrow>
          if k \<in> set (map fst seen) \<or> k \<notin> set allowed then None
          else (case jval (2 * length s') s' of
             None \<Rightarrow> None
           | Some (v, r) \<Rightarrow>
               let seen' = seen @ [(k, take (length s' - length r) s')] in
               if take 1 (skip_ws r) = '','' then
                 obj_members n allowed seen' (skip_ws (tl (skip_ws r)))
               else if take 1 (skip_ws r) = ''}'' then Some (seen', tl (skip_ws r))
               else None))"

definition strict_object :: "bytes list \<Rightarrow> bytes \<Rightarrow> (bytes \<times> bytes) list option" where
  "strict_object allowed data =
     (let s = skip_ws data; t = skip_ws (tl s) in
      if take 1 s = ''{'' then
        (case (if take 1 t = ''}'' then Some ([], tl t)
               else obj_members (length data) allowed [] t) of
           None \<Rightarrow> None
         | Some (fields, r) \<Rightarrow> if skip_ws r = [] then Some fields else None)
      else None)"

text \<open>
  The loop \<open>for decoder.More()\<close> over the elements of an array: an element beyond the limit, or one
  that \<open>d\<close> rejects, fails. The first argument bounds the number of elements.
\<close>

fun arr_elems ::
  "nat \<Rightarrow> nat \<Rightarrow> (bytes \<Rightarrow> 'a option) \<Rightarrow> 'a list \<Rightarrow> bytes \<Rightarrow> ('a list \<times> bytes) option"
where
  "arr_elems 0 limit d acc s = None"
| "arr_elems (Suc n) limit d acc s =
     (if length acc \<ge> limit then None
      else case jval (2 * length s) s of
        None \<Rightarrow> None
      | Some (v, r) \<Rightarrow>
          (case d (take (length s - length r) s) of
             None \<Rightarrow> None
           | Some x \<Rightarrow>
               if take 1 (skip_ws r) = '','' then
                 arr_elems n limit d (acc @ [x]) (skip_ws (tl (skip_ws r)))
               else if take 1 (skip_ws r) = '']'' then Some (acc @ [x], tl (skip_ws r))
               else None))"

definition strict_array :: "nat \<Rightarrow> (bytes \<Rightarrow> 'a option) \<Rightarrow> bytes \<Rightarrow> 'a list option" where
  "strict_array limit d data =
     (let s = skip_ws data; t = skip_ws (tl s) in
      if take 1 s = ''['' then
        (case (if take 1 t = '']'' then Some ([], tl t)
               else arr_elems (length data) limit d [] t) of
           None \<Rightarrow> None
         | Some (xs, r) \<Rightarrow> if skip_ws r = [] then Some xs else None)
      else None)"

subsection \<open>Typed decoding\<close>

text \<open>
  Member keys match a struct field exactly or, failing that, after case folding; the two
  non-ASCII runes that fold to an ASCII letter are U+017F and U+212A.
\<close>

definition upper :: "char \<Rightarrow> char" where
  "upper c = (if 97 \<le> byte c \<and> byte c \<le> 122 then char_of (byte c - 32) else c)"

function fold_name :: "bytes \<Rightarrow> bytes" where
  "fold_name [] = []"
| "fold_name (a # s) =
     (if take 2 (a # s) = utf8_encode 383 then CHR ''S'' # fold_name (drop 1 s)
      else if take 3 (a # s) = utf8_encode 8490 then CHR ''K'' # fold_name (drop 2 s)
      else upper a # fold_name s)"
  by pat_completeness auto
termination
  by (relation "measure length") auto

definition match_field :: "bytes list \<Rightarrow> bytes \<Rightarrow> bytes option" where
  "match_field names k =
     (if k \<in> set names then Some k else find (\<lambda>n. fold_name n = fold_name k) names)"

text \<open>The values that decoding an object stores into field \<open>n\<close>, in input order.\<close>

definition field_vals :: "bytes list \<Rightarrow> (bytes \<times> json) list \<Rightarrow> bytes \<Rightarrow> json list" where
  "field_vals names kvs n = map snd (filter (\<lambda>kv. match_field names (fst kv) = Some n) kvs)"

text \<open>
  A decoder takes the JSON value and the current Go value; \<open>None\<close> is a type error, which makes
  the whole \<open>Unmarshal\<close> fail. A JSON null leaves a non-pointer value as it is.
\<close>

fun dec_string :: "json \<Rightarrow> bytes \<Rightarrow> bytes option" where
  "dec_string (JStr s) cur = Some s"
| "dec_string JNull cur = Some cur"
| "dec_string _ cur = None"

fun dec_int :: "json \<Rightarrow> int \<Rightarrow> int option" where
  "dec_int (JNum l) cur = parse_i64 l"
| "dec_int JNull cur = Some cur"
| "dec_int _ cur = None"

fun dec_bool :: "json \<Rightarrow> bool \<Rightarrow> bool option" where
  "dec_bool (JBool b) cur = Some b"
| "dec_bool JNull cur = Some cur"
| "dec_bool _ cur = None"

fun dec_uint8 :: "json \<Rightarrow> nat \<Rightarrow> nat option" where
  "dec_uint8 (JNum l) cur =
     (case parse_i64 l of None \<Rightarrow> None
      | Some x \<Rightarrow> if l \<noteq> [] \<and> hd l \<noteq> CHR ''-'' \<and> x < 256 then Some (nat x) else None)"
| "dec_uint8 JNull cur = Some cur"
| "dec_uint8 _ cur = None"

definition dec_ptr :: "(json \<Rightarrow> 'a \<Rightarrow> 'a option) \<Rightarrow> 'a \<Rightarrow> json \<Rightarrow> 'a option \<Rightarrow> 'a option option" where
  "dec_ptr d zero j cur =
     (if j = JNull then Some None
      else map_option Some (d j (case cur of None \<Rightarrow> zero | Some x \<Rightarrow> x)))"

fun dec_slice :: "(json \<Rightarrow> 'a \<Rightarrow> 'a option) \<Rightarrow> 'a \<Rightarrow> json \<Rightarrow> 'a list \<Rightarrow> 'a list option" where
  "dec_slice d zero (JArr js) cur = map_partial (\<lambda>j. d j zero) js"
| "dec_slice d zero JNull cur = Some []"
| "dec_slice d zero _ cur = None"

text \<open>A fixed-size array: surplus elements are dropped, missing ones are zero.\<close>

fun dec_array :: "nat \<Rightarrow> (json \<Rightarrow> 'a \<Rightarrow> 'a option) \<Rightarrow> 'a \<Rightarrow> json \<Rightarrow> 'a list \<Rightarrow> 'a list option" where
  "dec_array n d zero (JArr js) cur =
     map_option (\<lambda>xs. xs @ replicate (n - length xs) zero)
       (map_partial (\<lambda>p. d (fst p) (snd p)) (zip (take n js) cur))"
| "dec_array n d zero JNull cur = Some cur"
| "dec_array n d zero _ cur = None"

fun obj_fields :: "json \<Rightarrow> (bytes \<times> json) list option" where
  "obj_fields (JObj kvs) = Some kvs"
| "obj_fields JNull = Some []"
| "obj_fields _ = None"

definition dec_field ::
  "bytes list \<Rightarrow> (bytes \<times> json) list \<Rightarrow> bytes \<Rightarrow> (json \<Rightarrow> 'a \<Rightarrow> 'a option) \<Rightarrow> 'a \<Rightarrow> 'a option" where
  "dec_field names kvs n d zero = fold_option d (field_vals names kvs n) zero"

text \<open>\<open>json.Unmarshal\<close> of a whole document into a fresh variable.\<close>

definition unmarshal :: "(json \<Rightarrow> 'a \<Rightarrow> 'a option) \<Rightarrow> 'a \<Rightarrow> bytes \<Rightarrow> 'a option" where
  "unmarshal d zero data =
     (case json_parse data of None \<Rightarrow> None | Some j \<Rightarrow> d j zero)"

text \<open>
  \<open>decodeInteger\<close> of the engines is written over the raw bytes; the character test it shares
  with the platform's \<open>strictJSONInteger\<close>: an optional sign, digits, no leading zero.
\<close>

definition plain_integer :: "bytes \<Rightarrow> bool" where
  "plain_integer raw \<longleftrightarrow>
     raw \<noteq> [] \<and>
     list_all is_digit (if hd raw = CHR ''-'' then tl raw else raw) \<and>
     \<not> (hd raw = CHR ''-'' \<and> length raw = 1) \<and>
     \<not> (length raw > 1 \<and> hd raw = CHR ''0'') \<and>
     \<not> (length raw > 2 \<and> hd raw = CHR ''-'' \<and> raw ! 1 = CHR ''0'')"

subsection \<open>Round trip of strings\<close>

lemma hex_val_digit: "n < 16 \<Longrightarrow> hex_val (hex_digit n) = Some n"
  by (auto simp: hex_val_def hex_digit_def Let_def)

lemma hex4_two:
  assumes "h < 16" and "l < 16"
  shows "hex4 (CHR ''0'' # CHR ''0'' # hex_digit h # hex_digit l # r) = Some (16 * h + l, r)"
proof -
  have "hex_val (CHR ''0'') = Some 0" by (simp add: hex_val_def)
  with assms show ?thesis by (simp add: hex4_def hex_val_digit)
qed

lemma utf8_encode_ascii: "byte a < 128 \<Longrightarrow> utf8_encode (byte a) = [a]"
  by (simp add: utf8_encode_def)

lemma utf8_encode_seps:
  "utf8_encode 8232 = line_sep" "utf8_encode 8233 = para_sep"
  by (simp_all add: line_sep_def para_sep_def)

text \<open>\<open>p\<close> is one unit of a string literal that decodes to \<open>x\<close>, whatever follows.\<close>

definition unit_of :: "bytes \<Rightarrow> bytes \<Rightarrow> bool" where
  "unit_of p x \<longleftrightarrow> (\<exists>b u. p = b # u \<and> b \<noteq> DQ \<and> (\<forall>r. str_unit b (u @ r) = Some (x, r)))"

lemma unit_of_jstr:
  "unit_of p x \<Longrightarrow> jstr s = Some (q, r) \<Longrightarrow> jstr (p @ s) = Some (x @ q, r)"
  by (auto simp: unit_of_def)

lemma unit_of_escape_ascii:
  assumes "byte a < 128" and "\<not> html_safe a"
  shows "unit_of (escape_ascii a) [a]"
proof -
  have eq: "byte a = byte c \<Longrightarrow> a = c" for c by (simp only: of_char_eq_iff)
  have named: "byte a = 8 \<Longrightarrow> a = CHR 0x08" "byte a = 12 \<Longrightarrow> a = CHR 0x0C"
    "byte a = 10 \<Longrightarrow> a = CHR 0x0A" "byte a = 13 \<Longrightarrow> a = CHR 0x0D" "byte a = 9 \<Longrightarrow> a = CHR 0x09"
    using eq [of "CHR 0x08"] eq [of "CHR 0x0C"] eq [of "CHR 0x0A"] eq [of "CHR 0x0D"]
      eq [of "CHR 0x09"] by simp_all
  have hx: "str_unit BSL (CHR ''u'' # CHR ''0'' # CHR ''0'' # hex_digit (byte a div 16) #
     hex_digit (byte a mod 16) # r) = Some ([a], r)" for r
    using assms(1) by (simp add: str_unit_def hex4_two unicode_unit_def utf8_encode_ascii)
  show ?thesis
  proof (cases "a \<in> {DQ, BSL} \<or> byte a \<in> {8, 12, 10, 13, 9}")
    case True
    then have "a \<in> {DQ, BSL, CHR 0x08, CHR 0x0C, CHR 0x0A, CHR 0x0D, CHR 0x09}"
      using named by blast
    moreover have "\<forall>a\<in>{DQ, BSL, CHR 0x08, CHR 0x0C, CHR 0x0A, CHR 0x0D, CHR 0x09}.
        \<exists>e. escape_ascii a = [BSL, e] \<and> e \<noteq> CHR ''u'' \<and> escape_val e = Some a"
      by (simp add: escape_ascii_def escape_val_def)
    ultimately obtain e where "escape_ascii a = [BSL, e]" "e \<noteq> CHR ''u''" "escape_val e = Some a"
      by blast
    then show ?thesis by (simp add: unit_of_def str_unit_def)
  next
    case False
    then have "escape_ascii a = BSL # [CHR ''u'', CHR ''0'', CHR ''0'',
         hex_digit (byte a div 16), hex_digit (byte a mod 16)]"
      by (simp add: escape_ascii_def)
    with hx show ?thesis by (simp add: unit_of_def)
  qed
qed

lemma unit_of_esc_unit:
  assumes "utf8_valid (a # t)"
  shows "unit_of (esc_unit a t) (take (rune_width (a # t)) (a # t))"
proof (cases "byte a < 128")
  case True
  then have w: "take (rune_width (a # t)) (a # t) = [a]" by (simp add: rune_width2_def)
  show ?thesis
  proof (cases "html_safe a")
    case True
    then have "str_unit a (r) = Some ([a], r)" for r
      by (auto simp: html_safe_def str_unit_def)
    with True \<open>byte a < 128\<close> w show ?thesis
      by (simp add: unit_of_def esc_unit_def Let_def html_safe_def)
  next
    case False
    with \<open>byte a < 128\<close> w unit_of_escape_ascii show ?thesis
      by (simp add: esc_unit_def Let_def)
  qed
next
  case False
  let ?w = "rune_width (a # t)" and ?u = "take (rune_width (a # t)) (a # t)"
  from False assms have nz: "?w \<noteq> 0" by simp
  have sep: "str_unit BSL (''u2028'' @ r) = Some (line_sep, r)"
    "str_unit BSL (''u2029'' @ r) = Some (para_sep, r)" for r
    by (simp_all add: str_unit_def hex4_def hex_val_def unicode_unit_def utf8_encode_seps)
  show ?thesis
  proof (cases "?u = line_sep \<or> ?u = para_sep")
    case True
    with sep nz False show ?thesis
      by (auto simp: unit_of_def esc_unit_def Let_def line_sep_def para_sep_def utf8_encode_def)
  next
    case other: False
    have u: "?u = a # take (?w - 1) t" using nz by (simp add: take_Cons')
    have "rune_width (?u @ r) = ?w" for r by (rule rune_width_take [OF nz])
    then have w: "rune_width (a # (take (?w - 1) t @ r)) = ?w" for r by (simp only: u append_Cons)
    have len: "length (take (?w - 1) t) = ?w - 1" using rune_width_le [of "a # t"] by simp
    have "str_unit a (take (?w - 1) t @ r) = Some (?u, r)" for r
    proof -
      have "take ?w (a # take (?w - 1) t @ r) = ?u" and "drop ?w (a # take (?w - 1) t @ r) = r"
        using nz len by (simp_all add: take_Cons' drop_Cons')
      with False nz w show ?thesis by (auto simp: str_unit_def simp del: rune_width_simps)
    qed
    moreover have "a \<noteq> DQ" using False by auto
    ultimately show ?thesis
      using other False nz u
      by (simp add: unit_of_def esc_unit_def Let_def del: rune_width_simps)
  qed
qed

lemma utf8_valid_drop:
  "utf8_valid (a # t) \<Longrightarrow> utf8_valid (drop (rune_width (a # t) - 1) t)"
  by (auto simp: rune_width2_def split: if_splits)

lemma utf8_valid_width: "utf8_valid (a # t) \<Longrightarrow> rune_width (a # t) \<noteq> 0"
  by (cases "byte a < 128") (simp_all add: rune_width2_def)

lemma jstr_esc: "utf8_valid s \<Longrightarrow> jstr (esc s @ DQ # r) = Some (s, r)"
proof (induction s rule: esc.induct)
  case 1
  then show ?case by simp
next
  case (2 a t)
  let ?w = "rune_width (a # t)"
  from 2 have "jstr (esc (drop (?w - 1) t) @ DQ # r) = Some (drop (?w - 1) t, r)"
    using utf8_valid_drop by blast
  with unit_of_esc_unit [OF "2.prems"]
  have "jstr (esc_unit a t @ esc (drop (?w - 1) t) @ DQ # r) =
      Some (take ?w (a # t) @ drop (?w - 1) t, r)"
    by (rule unit_of_jstr)
  moreover have "take ?w (a # t) @ drop (?w - 1) t = a # t"
    using utf8_valid_width [OF "2.prems"] by (cases ?w) simp_all
  ultimately show ?case by simp
qed

subsection \<open>Round trip of numbers\<close>

text \<open>A rest that does not extend a number literal.\<close>

definition delim :: "bytes \<Rightarrow> bool" where
  "delim r \<longleftrightarrow> (case r of [] \<Rightarrow> True
     | c # _ \<Rightarrow> \<not> is_digit c \<and> c \<noteq> CHR ''.'' \<and> c \<noteq> CHR ''e'' \<and> c \<noteq> CHR ''E'')"

lemma delim_simps [simp]:
  "delim []" "delim (CHR '','' # s)" "delim (CHR '']'' # s)" "delim (CHR ''}'' # s)"
  by (simp_all add: delim_def is_digit_def)

lemma takeWhile_digits: "list_all is_digit ds \<Longrightarrow> delim r \<Longrightarrow> takeWhile is_digit (ds @ r) = ds"
  by (induction ds) (auto simp: delim_def split: list.splits)

lemma dropWhile_digits: "list_all is_digit ds \<Longrightarrow> delim r \<Longrightarrow> dropWhile is_digit (ds @ r) = r"
  by (induction ds) (auto simp: delim_def split: list.splits)

lemma jdigits_show_nat: "delim r \<Longrightarrow> jdigits (show_nat n @ r) = Some (show_nat n, r)"
proof (cases "n = 0")
  case True
  then show ?thesis by (simp add: show_nat_0 jdigits_def)
next
  case False
  assume "delim r"
  obtain c s where cs: "show_nat n = c # s" by (cases "show_nat n") auto
  from cs False hd_show_nat_pos [of n] have "c \<noteq> CHR ''0''" by simp
  moreover from cs show_nat_digits [of n] have "is_digit c" "list_all is_digit (c # s)" by simp_all
  ultimately show ?thesis
    using cs takeWhile_digits [of "c # s" r] dropWhile_digits [of "c # s" r] \<open>delim r\<close>
    by (simp add: jdigits_def)
qed

lemma delim_frac_exp: "delim r \<Longrightarrow> jfrac r = Some ([], r)" "delim r \<Longrightarrow> jexp r = Some ([], r)"
  by (auto simp: delim_def jfrac_def jexp_def split: list.splits)

lemma jnum_show_int: "delim r \<Longrightarrow> jnum (show_int x @ r) = Some (show_int x, r)"
proof (cases "x < 0")
  case True
  assume "delim r"
  with True show ?thesis
    by (simp add: jnum_def show_int_def jdigits_show_nat delim_frac_exp)
next
  case False
  assume "delim r"
  obtain c s where cs: "show_nat (nat x) = c # s" and d: "is_digit c"
    using hd_show_nat_digit [of "nat x"] by (cases "show_nat (nat x)") auto
  from d have "c \<noteq> CHR ''-''" by auto
  with False \<open>delim r\<close> cs jdigits_show_nat [OF \<open>delim r\<close>, of "nat x"] show ?thesis
    by (simp add: jnum_def show_int_def delim_frac_exp)
qed


subsection \<open>Round trip of values\<close>

text \<open>The values that the engines marshal: integers, valid UTF-8 strings, and what is built of them.\<close>

fun wf_json :: "json \<Rightarrow> bool" where
  "wf_json JNull = True"
| "wf_json (JBool b) = True"
| "wf_json (JNum l) = (\<exists>x. l = show_int x)"
| "wf_json (JStr s) = utf8_valid s"
| "wf_json (JArr js) = (\<forall>j \<in> set js. wf_json j)"
| "wf_json (JObj kvs) = (\<forall>kv \<in> set kvs. utf8_valid (fst kv) \<and> wf_json (snd kv))"

lemma wf_jint [simp]: "wf_json (jint x)"
  by (auto simp: jint_def)

definition value_start :: "char \<Rightarrow> bool" where
  "value_start c \<longleftrightarrow> c \<in> {DQ, CHR ''['', CHR ''{'', CHR ''t'', CHR ''f'', CHR ''n'', CHR ''-''} \<or> is_digit c"

lemma show_int_cases:
  obtains s where "show_int x = CHR ''-'' # s" | c s where "show_int x = c # s" and "is_digit c"
proof (cases "x < 0")
  case True
  then show ?thesis using that by (simp add: show_int_def)
next
  case False
  obtain c s where "show_nat (nat x) = c # s" and "is_digit c"
    using hd_show_nat_digit [of "nat x"] by (cases "show_nat (nat x)") auto
  with False show ?thesis using that by (simp add: show_int_def)
qed

lemma render_head: "wf_json j \<Longrightarrow> \<exists>c s. render j = c # s \<and> value_start c"
proof (cases j)
  case (JNum l)
  assume "wf_json j"
  with JNum obtain x where "l = show_int x" by auto
  with JNum show ?thesis by (cases x rule: show_int_cases) (auto simp: value_start_def)
qed (auto simp: value_start_def quote_def)

lemma is_digit_chars [simp]:
  "\<not> is_digit (CHR '']'')" "\<not> is_digit (CHR ''}'')" "\<not> is_digit DQ" "\<not> is_digit (CHR ''['')"
  "\<not> is_digit (CHR ''{'')" "\<not> is_digit (CHR ''t'')" "\<not> is_digit (CHR ''f'')" "\<not> is_digit (CHR ''n'')"
  "\<not> is_digit (CHR '','')" "\<not> is_digit (CHR '':'')"
  by (simp_all add: is_digit_def)

lemma value_start_not:
  "value_start c \<Longrightarrow> \<not> is_ws c \<and> c \<noteq> CHR '']'' \<and> c \<noteq> CHR ''}''"
  by (auto simp: value_start_def is_ws_def is_digit_def)

lemma skip_ws_nonws [simp]: "\<not> is_ws c \<Longrightarrow> skip_ws (c # s) = c # s"
  by (simp add: skip_ws_def)

lemma is_ws_chars [simp]:
  "\<not> is_ws (CHR '','')" "\<not> is_ws (CHR '']'')" "\<not> is_ws (CHR ''}'')" "\<not> is_ws (CHR '':'')"
  "\<not> is_ws DQ" "\<not> is_ws (CHR ''{'')" "\<not> is_ws (CHR ''['')"
  by (simp_all add: is_ws_def)

lemma skip_ws_Nil [simp]: "skip_ws [] = []"
  by (simp add: skip_ws_def)

lemma skip_ws_render: "wf_json j \<Longrightarrow> skip_ws (render j @ r) = render j @ r"
  using render_head [of j] by (auto dest: value_start_not)

lemma jkey_member:
  assumes "utf8_valid k" and "wf_json v"
  shows "jkey (quote k @ '':'' @ render v @ r) = Some (k, render v @ r)"
  using assms jstr_esc [of k "'':'' @ render v @ r"]
  by (simp add: jkey_def quote_def skip_ws_render)

lemma jscalar_show_int: "delim r \<Longrightarrow> jscalar (show_int x @ r) = Some (JNum (show_int x), r)"
  using jnum_show_int [of r x]
  by (cases x rule: show_int_cases) (auto simp: jscalar_def)

lemma take1_show_int: "take 1 (show_int x @ r) \<noteq> ''[''" "take 1 (show_int x @ r) \<noteq> ''{''"
  by (cases x rule: show_int_cases; auto)+

lemma render_elems_head: "js \<noteq> [] \<Longrightarrow> \<forall>j\<in>set js. wf_json j \<Longrightarrow> \<exists>c s. render_elems js = c # s \<and> value_start c"
  using render_head by (cases js) fastforce+

lemma render_nonempty: "wf_json j \<Longrightarrow> 0 < length (render j)"
  using render_head [of j] by auto

lemma jval_render:
  "wf_json j \<Longrightarrow> delim r \<Longrightarrow> 2 * length (render j) \<le> n \<Longrightarrow> jval n (render j @ r) = Some (j, r)"
  "js \<noteq> [] \<Longrightarrow> \<forall>j\<in>set js. wf_json j \<Longrightarrow> 2 * length (render_elems js) + 1 \<le> n \<Longrightarrow>
     jelems n (render_elems js @ '']'' @ r) = Some (js, r)"
  "kvs \<noteq> [] \<Longrightarrow> \<forall>kv\<in>set kvs. utf8_valid (fst kv) \<and> wf_json (snd kv) \<Longrightarrow>
     2 * length (render_members kvs) + 1 \<le> n \<Longrightarrow>
     jmembers n (render_members kvs @ ''}'' @ r) = Some (kvs, r)"
proof (induction j and js and kvs arbitrary: r n and r n and r n
    rule: render_render_elems_render_members.induct)
  case 1
  then show ?case by (cases n) (auto simp: jscalar_def strip_def)
next
  case (2 b)
  then show ?case by (cases n; cases b) (auto simp: jscalar_def strip_def)
next
  case (3 l)
  then obtain x where l: "l = show_int x" by auto
  have "0 < length (render (JNum l))" using "3.prems"(1) by (rule render_nonempty)
  with "3.prems"(3) obtain m where n: "n = Suc m" by (cases n) auto
  have "jval (Suc m) (show_int x @ r) = jscalar (show_int x @ r)"
    by (simp only: jval.simps take1_show_int if_False)
  with l n show ?case using jscalar_show_int [OF "3.prems"(2)] by simp
next
  case (4 s)
  then show ?case using jstr_esc [of s r]
    by (cases n) (auto simp: jscalar_def quote_def)
next
  case (5 js)
  obtain m where n: "n = Suc m" using "5.prems"(3) by (cases n) simp_all
  show ?case
  proof (cases "js = []")
    case True
    with n show ?thesis by simp
  next
    case False
    then obtain c s where cs: "render_elems js = c # s" "value_start c"
      using render_elems_head [of js] "5.prems"(1) by auto
    have "jelems m (render_elems js @ '']'' @ r) = Some (js, r)"
      using False "5.prems" n by (intro "5.IH") auto
    with n cs value_start_not [OF cs(2)] show ?thesis by simp
  qed
next
  case (6 kvs)
  obtain m where n: "n = Suc m" using "6.prems"(3) by (cases n) simp_all
  show ?case
  proof (cases "kvs = []")
    case True
    with n show ?thesis by simp
  next
    case False
    then obtain s where cs: "render_members kvs = DQ # s"
      by (cases kvs) (auto simp: quote_def)
    have "jmembers m (render_members kvs @ ''}'' @ r) = Some (kvs, r)"
      using False "6.prems" n by (intro "6.IH") auto
    with n cs show ?thesis by simp
  qed
next
  case (8 j js)
  obtain m where n: "n = Suc m" using "8.prems"(3) by (cases n) simp_all
  show ?case
  proof (cases "js = []")
    case True
    have "jval m (render j @ '']'' @ r) = Some (j, '']'' @ r)"
      using "8.prems" n True by (intro "8.IH"(1)) auto
    with True n show ?thesis by simp
  next
    case False
    have v: "jval m (render j @ '','' @ render_elems js @ '']'' @ r) = Some (j, '','' @ render_elems js @ '']'' @ r)"
      using "8.prems" n False by (intro "8.IH"(1)) auto
    have t: "jelems m (render_elems js @ '']'' @ r) = Some (js, r)"
      using "8.prems" n False render_nonempty [of j] by (intro "8.IH"(2)) auto
    from False obtain c s where cs: "render_elems js = c # s" "value_start c"
      using render_elems_head [of js] "8.prems"(2) by auto
    with n False v t value_start_not [OF cs(2)] show ?thesis by simp
  qed
next
  case (10 kv kvs)
  obtain m where n: "n = Suc m" using "10.prems"(3) by (cases n) simp_all
  obtain k v where kv: "kv = (k, v)" by (cases kv)
  with "10.prems" have wf: "utf8_valid k" "wf_json v" by auto
  have key: "jkey (quote k @ '':'' @ render v @ q) = Some (k, render v @ q)" for q
    by (rule jkey_member [OF wf])
  show ?case
  proof (cases "kvs = []")
    case True
    have "jval m (render v @ ''}'' @ r) = Some (v, ''}'' @ r)"
      using "10.prems" n True kv wf by (intro "10.IH"(1) [unfolded kv, simplified]) auto
    with True n kv key show ?thesis by simp
  next
    case False
    have v: "jval m (render v @ '','' @ render_members kvs @ ''}'' @ r) = Some (v, '','' @ render_members kvs @ ''}'' @ r)"
      using "10.prems" n False kv wf by (intro "10.IH"(1) [unfolded kv, simplified]) auto
    have t: "jmembers m (render_members kvs @ ''}'' @ r) = Some (kvs, r)"
      using "10.prems" n False kv render_nonempty [of v] wf by (intro "10.IH"(2)) auto
    obtain s where "render_members kvs = DQ # s" using False
      by (cases kvs) (auto simp: quote_def)
    with n False v t key kv show ?thesis by simp
  qed
qed simp_all

theorem json_parse_render: "wf_json j \<Longrightarrow> json_parse (render j) = Some j"
  using jval_render(1) [of j "[]" "2 * length (render j)"] skip_ws_render [of j "[]"]
  by (simp add: json_parse_def json_decode_def)

theorem json_decode_render: "wf_json j \<Longrightarrow> json_decode (render j) = Some (j, [])"
  using jval_render(1) [of j "[]" "2 * length (render j)"] skip_ws_render [of j "[]"]
  by (simp add: json_decode_def)

subsection \<open>The strict member loop on rendered objects\<close>

definition raw_members :: "(bytes \<times> json) list \<Rightarrow> (bytes \<times> bytes) list" where
  "raw_members kvs = map (\<lambda>kv. (fst kv, render (snd kv))) kvs"

lemma obj_members_render:
  "kvs \<noteq> [] \<Longrightarrow> \<forall>kv\<in>set kvs. utf8_valid (fst kv) \<and> wf_json (snd kv) \<Longrightarrow>
   distinct (map fst seen @ map fst kvs) \<Longrightarrow> set (map fst kvs) \<subseteq> set allowed \<Longrightarrow>
   length kvs \<le> n \<Longrightarrow>
   obj_members n allowed seen (render_members kvs @ ''}'' @ r) = Some (seen @ raw_members kvs, r)"
proof (induction kvs arbitrary: n seen)
  case (Cons kv kvs)
  then obtain m where n: "n = Suc m" by (cases n) auto
  obtain k v where kv: "kv = (k, v)" by (cases kv)
  with Cons.prems have wf: "utf8_valid k" "wf_json v" by auto
  have key: "jkey (quote k @ '':'' @ render v @ q) = Some (k, render v @ q)" for q
    by (rule jkey_member [OF wf])
  have v: "delim q \<Longrightarrow> jval (2 * length (render v @ q)) (render v @ q) = Some (v, q)" for q
    using jval_render(1) wf(2) by simp
  from Cons.prems kv have new: "k \<notin> set (map fst seen)" "k \<in> set allowed" by auto
  show ?case
  proof (cases "kvs = []")
    case True
    with n kv key new v [of "''}'' @ r"] show ?thesis
      by (simp add: raw_members_def)
  next
    case False
    let ?rest = "render_members kvs @ ''}'' @ r"
    have "obj_members m allowed (seen @ [(k, render v)]) ?rest
        = Some ((seen @ [(k, render v)]) @ raw_members kvs, r)"
      using Cons.prems False kv n by (intro Cons.IH) auto
    moreover obtain s where "render_members kvs = DQ # s" using False
      by (cases kvs) (auto simp: quote_def)
    ultimately show ?thesis
      using n kv key new False v [of "'','' @ ?rest"] by (simp add: raw_members_def)
  qed
qed simp

lemma length_render_members: "length kvs \<le> length (render_members kvs)"
  by (induction kvs) (auto simp: quote_def)

theorem strict_object_render:
  assumes "\<forall>kv\<in>set kvs. utf8_valid (fst kv) \<and> wf_json (snd kv)"
    and "distinct (map fst kvs)" and "set (map fst kvs) \<subseteq> set allowed"
  shows "strict_object allowed (render (JObj kvs)) = Some (raw_members kvs)"
proof (cases "kvs = []")
  case True
  then show ?thesis by (simp add: strict_object_def raw_members_def)
next
  case False
  then obtain s where s: "render_members kvs = DQ # s"
    by (cases kvs) (auto simp: quote_def)
  have "obj_members (length (render (JObj kvs))) allowed [] (render_members kvs @ ''}'')
      = Some (raw_members kvs, [])"
    using obj_members_render [of kvs "[]" allowed "length (render (JObj kvs))" "[]"] assms False
      length_render_members [of kvs] by simp
  with s show ?thesis by (simp add: strict_object_def)
qed


lemma arr_elems_render:
  "js \<noteq> [] \<Longrightarrow> \<forall>j\<in>set js. wf_json j \<Longrightarrow> map_partial (\<lambda>j. d (render j)) js = Some xs \<Longrightarrow>
   length acc + length js \<le> limit \<Longrightarrow> length js \<le> n \<Longrightarrow>
   arr_elems n limit d acc (render_elems js @ '']'' @ r) = Some (acc @ xs, r)"
proof (induction js arbitrary: n acc xs)
  case (Cons j js)
  then obtain m where n: "n = Suc m" by (cases n) auto
  from Cons.prems obtain x ys where x: "d (render j) = Some x" and ys: "map_partial (\<lambda>j. d (render j)) js = Some ys"
    and xs: "xs = x # ys" by (auto split: option.splits)
  have wf: "wf_json j" using Cons.prems by simp
  have v: "delim q \<Longrightarrow> jval (2 * length (render j @ q)) (render j @ q) = Some (j, q)" for q
    using jval_render(1) wf by simp
  show ?case
  proof (cases "js = []")
    case True
    with n x xs ys Cons.prems v [of "'']'' @ r"] show ?thesis by simp
  next
    case False
    let ?rest = "render_elems js @ '']'' @ r"
    have "arr_elems m limit d (acc @ [x]) ?rest = Some ((acc @ [x]) @ ys, r)"
      using Cons.prems False ys n by (intro Cons.IH) auto
    moreover obtain c s where "render_elems js = c # s" "value_start c"
      using render_elems_head [OF False] Cons.prems by auto
    ultimately show ?thesis
      using n x xs False Cons.prems v [of "'','' @ ?rest"] value_start_not [of c] by simp
  qed
qed simp

lemma length_render_elems_ge: "\<forall>j\<in>set js. wf_json j \<Longrightarrow> length js \<le> length (render_elems js)"
proof (induction js)
  case (Cons j js)
  then show ?case using render_nonempty [of j] by (auto simp: Suc_le_eq)
qed simp

lemma strict_array_render [json_simps]:
  assumes "\<forall>j\<in>set js. wf_json j" and "map_partial (\<lambda>j. d (render j)) js = Some xs" and "length js \<le> limit"
  shows "strict_array limit d (render (JArr js)) = Some xs"
proof (cases "js = []")
  case True
  with assms show ?thesis by (simp add: strict_array_def)
next
  case False
  obtain c s where c: "render_elems js = c # s" "value_start c"
    using render_elems_head [OF False] assms(1) by auto
  have "arr_elems (length (render (JArr js))) limit d [] (render_elems js @ '']'') = Some (xs, [])"
    using arr_elems_render [of js d xs "[]" limit "length (render (JArr js))" "[]"] assms False
      length_render_elems_ge [OF assms(1)] by simp
  with c value_start_not [OF c(2)] show ?thesis by (simp add: strict_array_def)
qed

lemma arr_elems_all:
  assumes "\<And>raw x. d raw = Some x \<Longrightarrow> P x"
  shows "arr_elems n limit d acc s = Some (xs, r) \<Longrightarrow> list_all P acc \<Longrightarrow> list_all P xs \<and> length xs \<le> limit"
proof (induction n arbitrary: acc s)
  case (Suc n)
  from Suc.prems obtain v q x where v: "jval (2 * length s) s = Some (v, q)" "\<not> length acc \<ge> limit"
    and x: "d (take (length s - length q) s) = Some x"
    by (auto split: if_splits option.splits)
  have all: "list_all P (acc @ [x])" using Suc.prems(2) assms [OF x] by simp
  show ?case
  proof (cases "take 1 (skip_ws q) = '',''")
    case True
    with Suc.prems(1) v x have "arr_elems n limit d (acc @ [x]) (skip_ws (tl (skip_ws q))) = Some (xs, r)" by simp
    from Suc.IH [OF this all] show ?thesis .
  next
    case False
    with Suc.prems(1) v x have "xs = acc @ [x]" by (simp split: if_splits)
    with all v(2) show ?thesis by simp
  qed
qed simp

lemma strict_array_all:
  assumes "strict_array limit d data = Some xs" and "\<And>raw x. d raw = Some x \<Longrightarrow> P x"
  shows "list_all P xs \<and> length xs \<le> limit"
  using assms(1) arr_elems_all [of d P, OF assms(2)]
  by (auto simp: strict_array_def Let_def split: if_splits option.splits)

subsection \<open>Typed decoding of rendered values\<close>

lemma unmarshal_render [json_simps]: "wf_json j \<Longrightarrow> unmarshal d zero (render j) = d j zero"
  by (simp add: unmarshal_def json_parse_render)

lemma dec_int_jint [json_simps]: "is_i64 x \<Longrightarrow> dec_int (jint x) cur = Some x"
  by (simp add: jint_def parse_show_int)

lemma show_int_nonneg: "0 \<le> x \<Longrightarrow> show_int x = show_nat (nat x)"
  by (simp add: show_int_def)

lemma hd_show_int_nonneg: "0 \<le> x \<Longrightarrow> hd (show_int x) \<noteq> CHR ''-''"
  using hd_show_nat_digit [of "nat x"] by (auto simp: show_int_nonneg)

lemma show_int_nonempty [simp]: "show_int x \<noteq> []"
  by (simp add: show_int_def)

lemma dec_uint8_jint [json_simps]: "n < 256 \<Longrightarrow> dec_uint8 (jint (int n)) cur = Some n"
  using hd_show_int_nonneg [of "int n"] parse_show_int [of "int n"]
  by (simp add: jint_def is_i64_def max_i64_def)

lemma unmarshal_int [json_simps]: "is_i64 x \<Longrightarrow> unmarshal dec_int 0 (show_int x) = Some x"
  using unmarshal_render [of "jint x" dec_int 0] by (simp add: dec_int_jint) (simp add: jint_def)

lemma plain_integer_show: "plain_integer (show_int x)"
proof (cases "x < 0")
  case True
  obtain c s where cs: "show_nat (nat (- x)) = c # s" by (cases "show_nat (nat (- x))") auto
  with True hd_show_nat_pos [of "nat (- x)"] show_nat_digits [of "nat (- x)"] show ?thesis
    by (simp add: plain_integer_def show_int_def)
next
  case False
  obtain c s where cs: "show_nat (nat x) = c # s" by (cases "show_nat (nat x)") auto
  have "c \<noteq> CHR ''-''" using cs show_nat_digits [of "nat x"] by auto
  moreover have "s \<noteq> [] \<Longrightarrow> c \<noteq> CHR ''0''"
    using cs hd_show_nat_pos [of "nat x"] show_nat_0 by (cases "nat x = 0") auto
  ultimately show ?thesis
    using False cs show_nat_digits [of "nat x"] by (auto simp: plain_integer_def show_int_def)
qed

lemma dec_slice_map:
  "(\<And>x. x \<in> set xs \<Longrightarrow> d (f x) zero = Some x) \<Longrightarrow> dec_slice d zero (JArr (map f xs)) cur = Some xs"
  using map_partial_map [of xs "\<lambda>j. d j zero" f "\<lambda>x. x"] by simp

lemma dec_array_map:
  assumes "\<And>x c. x \<in> set xs \<Longrightarrow> d (f x) c = Some x" and "length xs = n" and "length cur = n"
  shows "dec_array n d zero (JArr (map f xs)) cur = Some xs"
proof -
  have "map_partial (\<lambda>p. d (fst p) (snd p)) (zip (map f xs) cur) = Some xs"
    using assms
  proof (induction xs arbitrary: cur n)
    case (Cons a xs)
    then obtain c cs where "cur = c # cs" by (cases cur) auto
    with Cons show ?case by auto
  qed simp
  with assms show ?thesis by simp
qed

lemma match_field_exact [json_simps]: "k \<in> set names \<Longrightarrow> match_field names k = Some k"
  by (simp add: match_field_def)

lemma field_vals_exact:
  assumes "set (map fst kvs) \<subseteq> set names"
  shows "field_vals names kvs n = map snd (filter (\<lambda>kv. fst kv = n) kvs)"
proof -
  have "filter (\<lambda>kv. match_field names (fst kv) = Some n) kvs = filter (\<lambda>kv. fst kv = n) kvs"
    using assms by (intro filter_cong) (auto simp: match_field_def)
  then show ?thesis by (simp add: field_vals_def)
qed

lemma filter_fst_unique:
  "distinct (map fst kvs) \<Longrightarrow> map_of kvs n = Some j \<Longrightarrow> filter (\<lambda>kv. fst kv = n) kvs = [(n, j)]"
proof (induction kvs)
  case (Cons kv kvs)
  then show ?case
    by (cases kv) (auto split: if_splits simp: filter_empty_conv)
qed simp

text \<open>Decoding one field of an object whose keys are exactly the field names.\<close>

lemma dec_field_exact:
  assumes "set (map fst kvs) \<subseteq> set names" and "distinct (map fst kvs)" and "map_of kvs n = Some j"
  shows "dec_field names kvs n d zero = d j zero"
  using assms
  by (simp add: dec_field_def field_vals_exact filter_fst_unique split: option.split)

subsection \<open>Length of rendered values\<close>

lemma length_esc_unit:
  "length (esc_unit a t) \<le> 6 * max 1 (rune_width (a # t))"
  by (auto simp: esc_unit_def Let_def escape_ascii_def)

lemma length_esc: "length (esc s) \<le> 6 * length s"
proof (induction s rule: esc.induct)
  case (2 a t)
  let ?w = "rune_width (a # t)"
  have "length (esc (a # t)) = length (esc_unit a t) + length (esc (drop (?w - 1) t))"
    by simp
  also have "\<dots> \<le> 6 * max 1 ?w + 6 * (length t - (?w - 1))"
    using length_esc_unit [of a t] 2 by (simp del: rune_width_simps)
  also have "\<dots> \<le> 6 * length (a # t)"
    using rune_width_le [of "a # t"] by (simp del: rune_width_simps)
  finally show ?case .
qed simp

lemma length_quote: "length (quote s) \<le> 6 * length s + 2"
  using length_esc [of s] by (simp add: quote_def)

lemma length_render_elems:
  "\<forall>j\<in>set js. length (render j) \<le> b \<Longrightarrow> length (render_elems js) \<le> (b + 1) * length js"
  by (induction js) auto

lemma length_show_int:
  assumes "\<bar>x\<bar> < 10 ^ k" and "0 < k"
  shows "length (show_int x) \<le> Suc k"
proof (cases "x < 0")
  case True
  with assms have "nat (- x) < 10 ^ k" by (simp add: nat_less_iff)
  with length_show_nat assms True show ?thesis by (simp add: show_int_def)
next
  case False
  with assms have "nat x < 10 ^ k" by (simp add: nat_less_iff)
  with length_show_nat [of "nat x" k] assms False show ?thesis by (simp add: show_int_def)
qed

lemma length_show_int_pos:
  assumes "0 \<le> x" and "x < 10 ^ k" and "0 < k"
  shows "length (show_int x) \<le> k"
proof -
  from assms have "nat x < 10 ^ k" by (simp add: nat_less_iff)
  with length_show_nat [of "nat x" k] assms show ?thesis by (simp add: show_int_def)
qed

subsection \<open>Enough fuel\<close>

lemma skip_ws_length: "length (skip_ws s) \<le> length s"
  by (simp add: skip_ws_def length_dropWhile_le)

lemma jstr_length: "jstr s = Some (q, r) \<Longrightarrow> length r < length s"
proof (induction s arbitrary: q r rule: jstr.induct)
  case (2 a t)
  show ?case
  proof (cases "a = DQ")
    case False
    with "2.prems" obtain p u v w where u: "str_unit a t = Some (p, u)" "jstr u = Some (v, w)" "r = w"
      by (auto split: option.splits)
    with "2.IH" [OF False u(1) refl u(2)] str_unit_length [OF u(1)] show ?thesis by simp
  qed (use "2.prems" in simp)
qed simp

lemma jdigits_length: "jdigits s = Some (d, r) \<Longrightarrow> length r < length s"
  by (auto simp: jdigits_def length_dropWhile_le le_imp_less_Suc split: list.splits if_splits)

lemma jfrac_length: "jfrac s = Some (d, r) \<Longrightarrow> length r \<le> length s"
  by (auto simp: jfrac_def length_dropWhile_le le_SucI split: list.splits if_splits)

lemma jexp_length: "jexp s = Some (d, r) \<Longrightarrow> length r \<le> length s"
proof -
  have "length (dropWhile is_digit (drop n t)) \<le> Suc (length t)" for n t
    using length_dropWhile_le [of is_digit "drop n t"] by simp
  then show "jexp s = Some (d, r) \<Longrightarrow> length r \<le> length s"
    by (auto simp: jexp_def Let_def split: list.splits if_splits)
qed

lemma jnum_length: "jnum s = Some (d, r) \<Longrightarrow> length r < length s"
  by (auto simp: jnum_def Let_def split: list.splits if_splits option.splits
      dest!: jdigits_length jfrac_length jexp_length)

lemma jscalar_length: "jscalar s = Some (v, r) \<Longrightarrow> length r < length s"
  by (auto simp: jscalar_def strip_def split: list.splits if_splits
      dest!: jstr_length jnum_length)

lemma jkey_length: "jkey s = Some (k, r) \<Longrightarrow> length r < length s"
proof -
  assume k: "jkey s = Some (k, r)"
  then obtain t q c u where s: "s = DQ # t" and t: "jstr t = Some (k, q)" and q: "skip_ws q = c # u"
    and r: "r = skip_ws u"
    by (auto simp: jkey_def split: list.splits if_splits option.splits)
  from jstr_length [OF t] skip_ws_length [of q] skip_ws_length [of u] q r s show ?thesis by simp
qed

lemma tl_skip_ws_length: "s \<noteq> [] \<Longrightarrow> length (skip_ws (tl s)) < length s"
  using skip_ws_length [of "tl s"] by (cases s) simp_all

lemma take1_nonempty: "take 1 s = [c] \<Longrightarrow> s \<noteq> []"
  by auto


lemma take1_tl: "take 1 (skip_ws s) = [c] \<Longrightarrow> length (skip_ws (tl (skip_ws s))) < length s"
  using skip_ws_length [of s] tl_skip_ws_length [of "skip_ws s"] take1_nonempty [of "skip_ws s" c]
  by simp

lemma take1_tl1: "take 1 (skip_ws s) = [c] \<Longrightarrow> length (tl (skip_ws s)) < length s"
  using skip_ws_length [of s] take1_nonempty [of "skip_ws s" c] by (cases "skip_ws s") auto

lemma take1_inner: "take 1 s = [c] \<Longrightarrow> length (skip_ws (tl s)) < length s"
  using tl_skip_ws_length [of s] take1_nonempty [of s c] by simp

lemma jval_length:
  "jval n s = Some (v, r) \<Longrightarrow> length r < length s"
  "jelems n s = Some (vs, r) \<Longrightarrow> length r < length s"
  "jmembers n s = Some (kvs, r) \<Longrightarrow> length r < length s"
proof (induction n s and n s and n s arbitrary: v r and vs r and kvs r
    rule: jval_jelems_jmembers.induct)
  case (2 n s)
  show ?case
  proof (cases "take 1 s = ''[''")
    case True
    note inner = take1_inner [OF True]
    show ?thesis
    proof (cases "take 1 (skip_ws (tl s)) = '']''")
      case True
      with \<open>take 1 s = ''[''\<close> "2.prems" take1_tl1 [OF True] inner skip_ws_length [of "tl s"]
      show ?thesis by auto
    next
      case False
      with \<open>take 1 s = ''[''\<close> "2.prems" obtain x where "jelems n (skip_ws (tl s)) = Some (x, r)"
        by auto
      from "2.IH"(1) [OF \<open>take 1 s = ''[''\<close> False this] inner show ?thesis by simp
    qed
  next
    case nb: False
    show ?thesis
    proof (cases "take 1 s = ''{''")
      case True
      note inner = take1_inner [OF True]
      show ?thesis
      proof (cases "take 1 (skip_ws (tl s)) = ''}''")
        case True
        with nb \<open>take 1 s = ''{''\<close> "2.prems" take1_tl1 [OF True] inner skip_ws_length [of "tl s"]
        show ?thesis by auto
      next
        case False
        with nb \<open>take 1 s = ''{''\<close> "2.prems" obtain x where "jmembers n (skip_ws (tl s)) = Some (x, r)"
          by auto
        from "2.IH"(2) [OF nb \<open>take 1 s = ''{''\<close> False this] inner show ?thesis by simp
      qed
    next
      case False
      with nb "2.prems" show ?thesis by (simp add: jscalar_length)
    qed
  qed
next
  case (4 n s)
  from "4.prems" obtain v q where v: "jval n s = Some (v, q)" by (auto split: option.splits)
  from "4.IH"(1) [OF v] have q: "length q < length s" .
  show ?case
  proof (cases "take 1 (skip_ws q) = '',''")
    case True
    with v "4.prems" obtain x where "jelems n (skip_ws (tl (skip_ws q))) = Some (x, r)"
      by (auto split: option.splits)
    from "4.IH"(2) [OF v refl True this] take1_tl [OF True] q show ?thesis by simp
  next
    case False
    with v "4.prems" have b: "take 1 (skip_ws q) = '']''" and "r = tl (skip_ws q)"
      by (auto split: if_splits)
    with take1_tl1 [OF b] q show ?thesis by simp
  qed
next
  case (6 n s)
  from "6.prems" obtain k s' where k: "jkey s = Some (k, s')" by (auto split: option.splits)
  with "6.prems" obtain v q where v: "jval n s' = Some (v, q)" by (auto split: option.splits)
  from "6.IH"(1) [OF k refl v] jkey_length [OF k] have q: "length q < length s" by simp
  show ?case
  proof (cases "take 1 (skip_ws q) = '',''")
    case True
    with k v "6.prems" obtain x where "jmembers n (skip_ws (tl (skip_ws q))) = Some (x, r)"
      by (auto split: option.splits)
    from "6.IH"(2) [OF k refl v refl True this] take1_tl [OF True] q show ?thesis by simp
  next
    case False
    with k v "6.prems" have b: "take 1 (skip_ws q) = ''}''" and "r = tl (skip_ws q)"
      by (auto split: if_splits)
    with take1_tl1 [OF b] q show ?thesis by simp
  qed
qed simp_all

text \<open>\<open>jval\<close> does not depend on its fuel once the fuel is twice the length of the input.\<close>

lemma jval_fuel:
  "2 * length s \<le> n \<Longrightarrow> 2 * length s \<le> m \<Longrightarrow> jval n s = jval m s"
  "2 * length s + 1 \<le> n \<Longrightarrow> 2 * length s + 1 \<le> m \<Longrightarrow> jelems n s = jelems m s"
  "2 * length s + 1 \<le> n \<Longrightarrow> 2 * length s + 1 \<le> m \<Longrightarrow> jmembers n s = jmembers m s"
proof (induction n s and n s and n s arbitrary: m and m and m rule: jval_jelems_jmembers.induct)
  case (1 s)
  then show ?case by (cases m) (auto simp: jscalar_def)
next
  case (2 n s)
  show ?case
  proof (cases m)
    case 0
    with "2.prems" show ?thesis by (auto simp: jscalar_def)
  next
    case (Suc m')
    have e: "take 1 s = ''['' \<Longrightarrow> take 1 (skip_ws (tl s)) \<noteq> '']'' \<Longrightarrow>
        jelems n (skip_ws (tl s)) = jelems m' (skip_ws (tl s))"
      using "2.IH"(1) [of m'] "2.prems" Suc take1_inner [of s "CHR ''[''"] by simp
    have o: "take 1 s = ''{'' \<Longrightarrow> take 1 (skip_ws (tl s)) \<noteq> ''}'' \<Longrightarrow>
        jmembers n (skip_ws (tl s)) = jmembers m' (skip_ws (tl s))"
      using "2.IH"(2) [of m'] "2.prems" Suc take1_inner [of s "CHR ''{''"] by simp
    show ?thesis by (simp only: Suc jval.simps e o simp_thms cong: if_cong)
  qed
next
  case (4 n s)
  obtain m' where m: "m = Suc m'" using "4.prems"(2) by (cases m) simp_all
  have v: "jval n s = jval m' s" using "4.IH"(1) [of m'] "4.prems" m by simp
  show ?case
  proof (cases "jval n s")
    case None
    with v m show ?thesis by simp
  next
    case (Some a)
    then obtain x q where s: "jval n s = Some (x, q)" by (cases a) simp
    have "take 1 (skip_ws q) = '','' \<Longrightarrow>
        jelems n (skip_ws (tl (skip_ws q))) = jelems m' (skip_ws (tl (skip_ws q)))"
      using "4.IH"(2) [OF s refl, of m'] "4.prems" m take1_tl [of q "CHR '',''"] jval_length(1) [OF s]
      by simp
    moreover have "jval m' s = Some (x, q)" using v s by simp
    ultimately show ?thesis using s m by (simp cong: if_cong)
  qed
next
  case (6 n s)
  obtain m' where m: "m = Suc m'" using "6.prems"(2) by (cases m) simp_all
  show ?case
  proof (cases "jkey s")
    case None
    with m show ?thesis by simp
  next
    case (Some b)
    then obtain k s' where k: "jkey s = Some (k, s')" by (cases b) simp
    have v: "jval n s' = jval m' s'"
      using "6.IH"(1) [OF k refl, of m'] "6.prems" m jkey_length [OF k] by simp
    show ?thesis
    proof (cases "jval n s'")
      case None
      with k v m show ?thesis by simp
    next
      case (Some a)
      then obtain x q where s: "jval n s' = Some (x, q)" by (cases a) simp
      have "take 1 (skip_ws q) = '','' \<Longrightarrow>
          jmembers n (skip_ws (tl (skip_ws q))) = jmembers m' (skip_ws (tl (skip_ws q)))"
        using "6.IH"(2) [OF k refl s refl, of m'] "6.prems" m take1_tl [of q "CHR '',''"]
          jval_length(1) [OF s] jkey_length [OF k]
        by simp
      moreover have "jval m' s' = Some (x, q)" using v s by simp
      ultimately show ?thesis using k s m by (simp cong: if_cong)
    qed
  qed
qed simp_all

subsection \<open>Rendered documents are valid UTF-8\<close>

lemma rune_width_append: "rune_width s \<noteq> 0 \<Longrightarrow> rune_width (s @ t) = rune_width s"
  using rune_width_take [of s "drop (rune_width s) s @ t"]
  by (metis append.assoc append_take_drop_id)

lemma utf8_valid_append: "utf8_valid s \<Longrightarrow> utf8_valid t \<Longrightarrow> utf8_valid (s @ t)"
proof (induction s rule: utf8_valid.induct)
  case (2 a s)
  show ?case
  proof (cases "byte a < 128")
    case True
    with 2 show ?thesis by simp
  next
    case False
    with "2.prems" have w: "rune_width (a # s) \<noteq> 0" by simp
    with rune_width_append [of "a # s" t] have e: "rune_width (a # s @ t) = rune_width (a # s)" by simp
    have "rune_width (a # s) - 1 \<le> length s" using rune_width_le [of "a # s"] by simp
    with False 2 w e show ?thesis by (simp del: rune_width_simps)
  qed
qed simp

lemma utf8_valid_ascii: "list_all (\<lambda>c. byte c < 128) s \<Longrightarrow> utf8_valid s"
  by (induction s) auto

lemma utf8_valid_take:
  assumes "rune_width (a # t) \<noteq> 0"
  shows "utf8_valid (take (rune_width (a # t)) (a # t))"
proof -
  let ?w = "rune_width (a # t)"
  have u: "take ?w (a # t) = a # take (?w - 1) t" using assms by (simp add: take_Cons')
  have "rune_width (take ?w (a # t)) = ?w"
    using rune_width_take [OF assms, of "[]"] by (simp del: rune_width_simps)
  then have w: "rune_width (a # take (?w - 1) t) = ?w" by (simp only: u)
  show ?thesis
  proof (cases "byte a < 128")
    case True
    then have "?w = 1" by (simp add: rune_width2_def)
    with True u show ?thesis by (simp del: rune_width_simps)
  next
    case False
    with assms w u show ?thesis by (simp del: rune_width_simps)
  qed
qed

lemma hex_digit_ascii: "n < 16 \<Longrightarrow> byte (hex_digit n) < 128"
  by (simp add: hex_digit_def)

lemma utf8_valid_esc_unit: "utf8_valid (esc_unit a t)"
proof (cases "byte a < 128")
  case True
  then show ?thesis
    by (auto simp: esc_unit_def Let_def escape_ascii_def hex_digit_ascii intro!: utf8_valid_ascii)
next
  case False
  then show ?thesis using utf8_valid_take [of a t]
    by (auto simp: esc_unit_def Let_def simp del: rune_width_simps)
qed

lemma utf8_valid_esc: "utf8_valid (esc s)"
  by (induction s rule: esc.induct) (auto simp: utf8_valid_append utf8_valid_esc_unit)

lemma utf8_valid_quote: "utf8_valid (quote s)"
  by (simp add: quote_def utf8_valid_append utf8_valid_esc)

lemma utf8_valid_show_nat: "utf8_valid (show_nat n)"
  using show_nat_digits [of n] by (intro utf8_valid_ascii) (auto simp: list_all_iff is_digit_def)

lemma utf8_valid_render:
  "wf_json j \<Longrightarrow> utf8_valid (render j)"
  "\<forall>j\<in>set js. wf_json j \<Longrightarrow> utf8_valid (render_elems js)"
  "\<forall>kv\<in>set kvs. wf_json (snd kv) \<Longrightarrow> utf8_valid (render_members kvs)"
  by (induction j and js and kvs rule: render_render_elems_render_members.induct)
    (auto simp: utf8_valid_append utf8_valid_quote utf8_valid_show_nat show_int_def)

lemma utf8_valid_render_obj:
  "\<forall>kv\<in>set kvs. utf8_valid (fst kv) \<and> wf_json (snd kv) \<Longrightarrow> utf8_valid (render (JObj kvs))"
  by (intro utf8_valid_render) auto

lemma map_of_raw_members [json_simps]:
  "map_of (raw_members kvs) k = map_option render (map_of kvs k)"
  by (induction kvs) (auto simp: raw_members_def)

lemma length_raw_members [json_simps]: "length (raw_members kvs) = length kvs"
  by (simp add: raw_members_def)

lemma length_render_members_le:
  "length (render_members kvs) \<le> (\<Sum>kv\<leftarrow>kvs. 6 * length (fst kv) + 4 + length (render (snd kv)))"
proof (induction kvs)
  case (Cons kv kvs)
  then show ?case using length_quote [of "fst kv"] by auto
qed simp

text \<open>Bounds and inversion of the typed decoders.\<close>

lemma fold_option_invariant:
  assumes "fold_option f xs a = Some b" and "P a" and "\<And>x a b. P a \<Longrightarrow> f x a = Some b \<Longrightarrow> P b"
  shows "P b"
  using assms by (induction xs arbitrary: a) (auto split: option.splits)

lemma dec_array_length:
  "dec_array n d zero j cur = Some xs \<Longrightarrow> length cur = n \<Longrightarrow> length xs = n"
  by (cases j) (auto dest!: map_partial_length)

lemma dec_field_array_length:
  "dec_field names kvs f (dec_array n d zero) (replicate n z) = Some xs \<Longrightarrow> length xs = n"
  unfolding dec_field_def
  by (erule fold_option_invariant [where P = "\<lambda>xs. length xs = n"]) (auto dest: dec_array_length)

lemma strict_object_Nil [simp]: "strict_object allowed [] = None"
  by (simp add: strict_object_def)

lemma render_obj_nonempty [simp]: "render (JObj kvs) \<noteq> []"
  by simp

lemma length_render_obj_le:
  "length (render (JObj kvs)) \<le> 2 + (\<Sum>kv\<leftarrow>kvs. 6 * length (fst kv) + 4 + length (render (snd kv)))"
  using length_render_members_le [of kvs] by simp

lemma dec_int_range: "dec_int j z = Some x \<Longrightarrow> is_i64 z \<Longrightarrow> is_i64 x"
  by (cases j) (auto dest: parse_i64_range)

lemma dec_field_int:
  "dec_field names kvs n dec_int z = Some x \<Longrightarrow> is_i64 z \<Longrightarrow> is_i64 x"
  unfolding dec_field_def
  by (erule fold_option_invariant [where P = is_i64], assumption) (rule dec_int_range)

end
