(* ===== verification/GameApi.thy ===== *)
theory GameApi
  imports GoJson "HOL-Library.Monad_Syntax"
begin

text \<open>
  The boundary between the match service and the rule engines
  (\<open>server/internal/games/gameapi/types.go\<close>): actions, durable events, opaque snapshots and the
  errors of all engines, with the actor check every engine repeats. The locale \<open>event_log\<close> is
  the contract of \<open>Rules\<close>: \<open>Rebuild\<close> folds a loop body over the persisted events, and the body
  accepts an event exactly when applying an action to the current snapshot produces it. Each
  engine interprets it; the event-sourcing law (a log rebuilds to a snapshot if and only if the
  snapshot is reached by playing that log) is proved here once.
\<close>

record action =
  act_type :: bytes
  act_payload :: bytes

record event =
  ev_revision :: int
  ev_type :: bytes
  ev_actor :: bytes
  ev_payload :: bytes

record snapshot =
  sn_revision :: int
  sn_state :: bytes

datatype game_error =
    ErrInvalidAction
  | ErrInvalidEvent
  | ErrInvalidSnapshot
  | GomokuNotYourTurn
  | GomokuCellOccupied
  | ReversiNotYourTurn
  | RpsInvalidFormat
  | RpsInvalidChoice
  | RpsChoiceLocked
  | RpsMatchFinished
  | CheckersNotYourTurn
  | CheckersInvalidPath
  | FlightNotYourTurn
  | FlightInvalidPhase
  | FlightInvalidMove
  | FlightRandomUnavailable

text \<open>\<open>validActorID\<close>: a non-empty valid UTF-8 string of at most 128 bytes without control characters.\<close>

definition validActorID :: "bytes \<Rightarrow> bool" where
  "validActorID a \<longleftrightarrow> \<not> (a = [] \<or> length a > 128 \<or> \<not> utf8_valid a) \<and> \<not> has_control a"

definition validOptionalActor :: "bytes option \<Rightarrow> bool" where
  "validOptionalActor a \<longleftrightarrow> (case a of None \<Rightarrow> True | Some x \<Rightarrow> validActorID x)"

definition valueOrEmpty :: "bytes option \<Rightarrow> bytes" where
  "valueOrEmpty v = (case v of None \<Rightarrow> '''' | Some x \<Rightarrow> x)"

text \<open>A nil slice or map read as an empty one.\<close>

definition valueOr :: "'a \<Rightarrow> 'a option \<Rightarrow> 'a" where
  "valueOr d v = (case v of None \<Rightarrow> d | Some x \<Rightarrow> x)"

lemma valueOr_simps [simp]: "valueOr d None = d" "valueOr d (Some x) = x"
  by (simp_all add: valueOr_def)

text \<open>
  \<open>decodeInteger\<close>: the raw bytes of a JSON value as an \<open>int\<close>, only in plain integer notation.
\<close>

definition decodeInteger :: "bytes \<Rightarrow> int option" where
  "decodeInteger raw =
     (if raw = [] \<or> raw = ''null'' then None
      else if \<not> plain_integer raw then None
      else unmarshal dec_int 0 raw)"

lemma validActorID_utf8: "validActorID a \<Longrightarrow> utf8_valid a"
  by (simp add: validActorID_def)

lemma validActorID_length: "validActorID a \<Longrightarrow> length a \<le> 128"
  by (simp add: validActorID_def)

lemma validActorID_nonempty [simp]: "\<not> validActorID []"
  by (simp add: validActorID_def)

lemma null_not_show_int: "show_int x \<noteq> ''null''"
  by (cases x rule: show_int_cases) (auto simp: is_digit_def)

lemma decodeInteger_show [json_simps]: "is_i64 x \<Longrightarrow> decodeInteger (show_int x) = Some x"
  by (simp add: decodeInteger_def plain_integer_show null_not_show_int unmarshal_int)

lemma decodeInteger_render [json_simps]: "is_i64 x \<Longrightarrow> decodeInteger (render (jint x)) = Some x"
  by (simp add: jint_def decodeInteger_show)

lemma is_i64_small [json_simps]: "0 \<le> x \<Longrightarrow> x < 1000000 \<Longrightarrow> is_i64 x"
  by (simp add: is_i64_def max_i64_def)

lemma length_render_jstr: "length (render (JStr s)) \<le> 6 * length s + 2"
  using length_quote [of s] by simp

lemma length_render_actor: "validActorID a \<Longrightarrow> length (render (JStr a)) \<le> 770"
  using length_quote [of a] validActorID_length [of a] by simp

lemma length_render_opt_actor:
  "validOptionalActor a \<Longrightarrow> length (render (jptr JStr a)) \<le> 770"
  using length_render_actor by (cases a) (auto simp: jptr_def validOptionalActor_def)

lemma wf_opt_actor: "validOptionalActor a \<Longrightarrow> wf_json (jptr JStr a)"
  by (cases a) (auto simp: jptr_def validOptionalActor_def validActorID_utf8)

lemma dec_ptr_string_jptr [json_simps]: "dec_ptr dec_string z (jptr JStr a) None = Some a"
  by (cases a) (simp_all add: dec_ptr_def jptr_def)

lemma dec_ptr_string_null [json_simps]: "dec_ptr dec_string z JNull None = Some None"
  by (simp add: dec_ptr_def)

subsection \<open>Event logs\<close>

text \<open>
  The loop of \<open>Rebuild\<close>: the body gets the zero-based index, the persisted event and the current
  snapshot, and returns the next snapshot or an error.
\<close>

fun rebuild_loop ::
  "(int \<Rightarrow> event \<Rightarrow> snapshot \<Rightarrow> game_error + snapshot) \<Rightarrow> int \<Rightarrow> event list \<Rightarrow> snapshot \<Rightarrow>
   game_error + snapshot" where
  "rebuild_loop body i [] s = Inr s"
| "rebuild_loop body i (e # es) s =
     (case body i e s of Inl err \<Rightarrow> Inl err | Inr s' \<Rightarrow> rebuild_loop body (i + 1) es s')"

lemma rebuild_loop_append:
  "rebuild_loop body i (es @ fs) s =
     (case rebuild_loop body i es s of Inl err \<Rightarrow> Inl err
      | Inr s' \<Rightarrow> rebuild_loop body (i + int (length es)) fs s')"
  by (induction es arbitrary: i s) (auto split: sum.split simp: algebra_simps)

text \<open>Playing a log: every event is produced by an accepted action on the snapshot before it.\<close>

inductive played ::
  "(snapshot \<Rightarrow> event \<Rightarrow> snapshot \<Rightarrow> bool) \<Rightarrow> snapshot \<Rightarrow> event list \<Rightarrow> snapshot \<Rightarrow> bool"
  for acc :: "snapshot \<Rightarrow> event \<Rightarrow> snapshot \<Rightarrow> bool" and s0 :: snapshot
where
  played_start: "played acc s0 [] s0"
| played_step: "played acc s0 es s \<Longrightarrow> acc s e s' \<Longrightarrow> played acc s0 (es @ [e]) s'"

inductive_simps played_Nil: "played acc s0 [] s"

lemma played_snoc:
  "played acc s0 (es @ [e]) s' \<longleftrightarrow> (\<exists>s. played acc s0 es s \<and> acc s e s')"
  by (auto elim: played.cases intro: played_step)

locale event_log =
  fixes init :: snapshot
    and body :: "int \<Rightarrow> event \<Rightarrow> snapshot \<Rightarrow> game_error + snapshot"
    and acc :: "snapshot \<Rightarrow> event \<Rightarrow> snapshot \<Rightarrow> bool"
  assumes init_revision: "sn_revision init = 0"
    and acc_revision: "acc s e s' \<Longrightarrow>
      ev_revision e = i64 (sn_revision s + 1) \<and> sn_revision s' = ev_revision e"
    and body_complete: "acc s e s' \<Longrightarrow> 0 \<le> sn_revision s \<Longrightarrow> sn_revision s < max_i64 \<Longrightarrow>
      body (sn_revision s) e s = Inr s'"
    and body_sound: "body i e s = Inr s' \<Longrightarrow> sn_revision s = i \<Longrightarrow> 0 \<le> i \<Longrightarrow> acc s e s'"
begin

lemma played_revision:
  "played acc init es s \<Longrightarrow> int (length es) \<le> max_i64 \<Longrightarrow> sn_revision s = int (length es)"
proof (induction rule: played.induct)
  case played_start
  show ?case by (simp add: init_revision)
next
  case (played_step es s e s')
  then have "sn_revision s = int (length es)" by simp
  moreover have "i64 (int (length es) + 1) = int (length es) + 1"
    using played_step.prems by (intro i64_succ) simp_all
  ultimately show ?case using acc_revision [OF played_step.hyps(2)] by simp
qed

lemma rebuild_complete:
  "played acc init es s \<Longrightarrow> int (length es) \<le> max_i64 \<Longrightarrow> rebuild_loop body 0 es init = Inr s"
proof (induction rule: played.induct)
  case played_start
  show ?case by simp
next
  case (played_step es s e s')
  then have IH: "rebuild_loop body 0 es init = Inr s" by simp
  have "sn_revision s = int (length es)"
    using played_revision [OF played_step.hyps(1)] played_step.prems by simp
  then have "body (int (length es)) e s = Inr s'"
    using body_complete [OF played_step.hyps(2)] played_step.prems by simp
  with IH show ?case by (simp add: rebuild_loop_append)
qed

lemma rebuild_sound:
  "rebuild_loop body 0 es init = Inr s \<Longrightarrow> int (length es) \<le> max_i64 \<Longrightarrow> played acc init es s"
proof (induction es arbitrary: s rule: rev_induct)
  case Nil
  then show ?case by (auto intro: played_start)
next
  case (snoc e es)
  from snoc.prems(1) obtain s1 where s1: "rebuild_loop body 0 es init = Inr s1"
    and b: "body (int (length es)) e s1 = Inr s"
    by (auto simp: rebuild_loop_append split: sum.splits)
  from snoc.prems(2) have len: "int (length es) \<le> max_i64" by simp
  from snoc.IH [OF s1 len] have p: "played acc init es s1" .
  from body_sound [OF b] played_revision [OF p len] have "acc s1 e s" by simp
  with p show ?case by (rule played_step)
qed

lemma rebuild_iff_played:
  "int (length es) \<le> max_i64 \<Longrightarrow> rebuild_loop body 0 es init = Inr s \<longleftrightarrow> played acc init es s"
  using rebuild_complete rebuild_sound by blast

lemma rebuild_prefix:
  "rebuild_loop body 0 (es @ fs) init = Inr s \<Longrightarrow> \<exists>s'. rebuild_loop body 0 es init = Inr s'"
  by (auto simp: rebuild_loop_append split: sum.splits)

end

end
