(* ===== verification/Gomoku.thy ===== *)
theory Gomoku
  imports GameApi
begin

text \<open>
  Gomoku (\<open>server/internal/games/gomoku/board.go\<close> and \<open>rules.go\<close>): the 15 x 15 board, the
  snapshot codec with its validation, and the rules \<open>Apply\<close> and \<open>Rebuild\<close>. A \<open>Color\<close> is the
  \<open>uint8\<close> 0, 1 or 2; a board is the list of its 225 cells.
\<close>

subsection \<open>The board\<close>

type_synonym color = nat

abbreviation Empty :: color where "Empty \<equiv> 0"
abbreviation Black :: color where "Black \<equiv> 1"
abbreviation White :: color where "White \<equiv> 2"

definition BoardSize :: int where "BoardSize = 15"
definition boardCells :: int where "boardCells = BoardSize * BoardSize"

record point =
  X :: int
  Y :: int

definition pt :: "int \<Rightarrow> int \<Rightarrow> point" where
  "pt x y = \<lparr>X = x, Y = y\<rparr>"

record board =
  cells :: "nat list"
  stones :: int

definition point_valid :: "point \<Rightarrow> bool" where
  "point_valid p \<longleftrightarrow> 0 \<le> X p \<and> X p < BoardSize \<and> 0 \<le> Y p \<and> Y p < BoardSize"

definition board_index :: "point \<Rightarrow> int" where
  "board_index p = (if \<not> point_valid p then -1 else Y p * BoardSize + X p)"

definition occupied :: "board \<Rightarrow> point \<Rightarrow> bool" where
  "occupied b p \<longleftrightarrow> (let i = board_index p in i \<ge> 0 \<and> cells b ! nat i \<noteq> Empty)"

text \<open>\<open>place\<close> returns whether it placed the stone, and the board after it.\<close>

definition place :: "board \<Rightarrow> point \<Rightarrow> color \<Rightarrow> bool \<times> board" where
  "place b p c =
     (let i = board_index p in
      if i < 0 \<or> cells b ! nat i \<noteq> Empty \<or> (c \<noteq> Black \<and> c \<noteq> White) then (False, b)
      else (True, b\<lparr>cells := (cells b)[nat i := c], stones := stones b + 1\<rparr>))"

definition color_at :: "board \<Rightarrow> point \<Rightarrow> color" where
  "color_at b p = (let i = board_index p in if i < 0 then Empty else cells b ! nat i)"

text \<open>
  \<open>run\<close> counts the stones of a colour from the origin, exclusive, along a direction. The loop
  leaves the board after at most 14 steps, so 15 units of fuel are enough (lemma \<open>run_fuel\<close>).
\<close>

fun run_loop :: "nat \<Rightarrow> board \<Rightarrow> point \<Rightarrow> point \<Rightarrow> color \<Rightarrow> int" where
  "run_loop 0 b p d c = 0"
| "run_loop (Suc n) b p d c =
     (if point_valid p \<and> color_at b p = c
      then 1 + run_loop n b (pt (X p + X d) (Y p + Y d)) d c else 0)"

definition run :: "board \<Rightarrow> point \<Rightarrow> point \<Rightarrow> color \<Rightarrow> int" where
  "run b origin d c = run_loop 15 b (pt (X origin + X d) (Y origin + Y d)) d c"

definition directions :: "point list" where
  "directions = [pt 1 0, pt 0 1, pt 1 1, pt 1 (-1)]"

definition wins :: "board \<Rightarrow> point \<Rightarrow> color \<Rightarrow> bool" where
  "wins b p c \<longleftrightarrow>
     list_ex (\<lambda>d. 1 + run b p d c + run b p (pt (- X d) (- Y d)) c \<ge> 5) directions"

definition hasFive :: "board \<Rightarrow> color \<Rightarrow> bool" where
  "hasFive b c \<longleftrightarrow>
     list_ex (\<lambda>i. cells b ! i = c \<and> wins b (pt (int i mod BoardSize) (int i div BoardSize)) c)
       [0..<length (cells b)]"

subsection \<open>Snapshots\<close>

definition GameID :: bytes where "GameID = ''gomoku''"
definition MoveRequested :: bytes where "MoveRequested = ''gomoku.move.requested''"
definition MoveAccepted :: bytes where "MoveAccepted = ''gomoku.move.accepted''"

record snapshotState =
  st_status :: bytes
  st_board :: "nat list"
  st_boardSize :: int
  st_black :: "bytes option"
  st_white :: "bytes option"
  st_next :: bytes
  st_winner :: "bytes option"
  st_result :: "bytes option"

definition colorString :: "color \<Rightarrow> bytes" where
  "colorString c = (if c = Black then ''black'' else if c = White then ''white'' else '''')"

definition colorNamed :: "bytes \<Rightarrow> color" where
  "colorNamed name =
     (if name = colorString Black then Black else if name = colorString White then White else Empty)"

definition opposite :: "color \<Rightarrow> color" where
  "opposite c = (if c = Black then White else if c = White then Black else Empty)"

definition actorForColor :: "snapshotState \<Rightarrow> color \<Rightarrow> bytes option" where
  "actorForColor st c = (if c = Black then st_black st else if c = White then st_white st else None)"

definition occupiedCells :: "nat list \<Rightarrow> int" where
  "occupiedCells cs = int (length (filter (\<lambda>c. c \<noteq> Empty) cs))"

definition state_members :: "snapshotState \<Rightarrow> (bytes \<times> json) list" where
  "state_members st =
     [(''status'', JStr (st_status st)),
      (''board'', JArr (map (\<lambda>c. jint (int c)) (st_board st))),
      (''boardSize'', jint (st_boardSize st)),
      (''blackUserId'', jptr JStr (st_black st)),
      (''whiteUserId'', jptr JStr (st_white st)),
      (''nextColor'', JStr (st_next st)),
      (''winnerUserId'', jptr JStr (st_winner st)),
      (''result'', jptr JStr (st_result st))]"

definition state_names :: "bytes list" where
  "state_names = [''status'', ''board'', ''boardSize'', ''blackUserId'', ''whiteUserId'',
     ''nextColor'', ''winnerUserId'', ''result'']"

definition marshalState :: "snapshotState \<Rightarrow> bytes" where
  "marshalState st = render (JObj (state_members st))"

text \<open>
  \<open>decoder.Decode(&state)\<close> with unknown fields disallowed. The keys have already passed
  \<open>decodeObject\<close>.
\<close>

definition decodeStruct :: "bytes \<Rightarrow> snapshotState option" where
  "decodeStruct data = do {
     (j, rest) \<leftarrow> json_decode data;
     kvs \<leftarrow> obj_fields j;
     (if list_all (\<lambda>k. match_field state_names k \<noteq> None) (map fst kvs) then Some () else None);
     status \<leftarrow> dec_field state_names kvs ''status'' dec_string '''';
     brd \<leftarrow> dec_field state_names kvs ''board'' (dec_array 225 dec_uint8 0) (replicate 225 0);
     size \<leftarrow> dec_field state_names kvs ''boardSize'' dec_int 0;
     black \<leftarrow> dec_field state_names kvs ''blackUserId'' (dec_ptr dec_string '''') None;
     white \<leftarrow> dec_field state_names kvs ''whiteUserId'' (dec_ptr dec_string '''') None;
     nxt \<leftarrow> dec_field state_names kvs ''nextColor'' dec_string '''';
     winner \<leftarrow> dec_field state_names kvs ''winnerUserId'' (dec_ptr dec_string '''') None;
     result \<leftarrow> dec_field state_names kvs ''result'' (dec_ptr dec_string '''') None;
     Some \<lparr>st_status = status, st_board = brd, st_boardSize = size, st_black = black,
           st_white = white, st_next = nxt, st_winner = winner, st_result = result\<rparr> }"

definition decodeObject :: "bytes \<Rightarrow> bytes list \<Rightarrow> (bytes \<times> bytes) list option" where
  "decodeObject data allowed = strict_object allowed data"

text \<open>The checks of \<open>decodeSnapshot\<close> on the decoded fields, in the order of the code.\<close>

definition validCounts :: "int \<Rightarrow> snapshotState \<Rightarrow> bool" where
  "validCounts revision st \<longleftrightarrow>
     (let blackCount = int (count_list (st_board st) Black);
          whiteCount = int (count_list (st_board st) White);
          moveCount = blackCount + whiteCount;
          expectedColor = (if blackCount > whiteCount then White else Black)
      in st_boardSize st = BoardSize
       \<and> list_all (\<lambda>c. c = Empty \<or> c = Black \<or> c = White) (st_board st)
       \<and> \<not> (moveCount \<noteq> revision \<or> blackCount < whiteCount \<or> blackCount > whiteCount + 1)
       \<and> validOptionalActor (st_black st) \<and> validOptionalActor (st_white st)
       \<and> \<not> (st_black st \<noteq> None \<and> st_white st \<noteq> None \<and> st_black st = st_white st)
       \<and> (blackCount > 0) = (st_black st \<noteq> None) \<and> (whiteCount > 0) = (st_white st \<noteq> None)
       \<and> st_next st = colorString expectedColor)"

definition validOutcome :: "snapshotState \<Rightarrow> bool" where
  "validOutcome st \<longleftrightarrow>
     (let blackCount = int (count_list (st_board st) Black);
          whiteCount = int (count_list (st_board st) White);
          moveCount = blackCount + whiteCount;
          b = \<lparr>cells = st_board st, stones = moveCount\<rparr>;
          blackHasFive = hasFive b Black;
          whiteHasFive = hasFive b White
      in if st_status st = ''active'' then
           \<not> (st_result st \<noteq> None \<or> st_winner st \<noteq> None \<or> moveCount = boardCells \<or> blackHasFive \<or> whiteHasFive)
         else if st_status st = ''finished'' then
           (case st_result st of
              None \<Rightarrow> False
            | Some res \<Rightarrow>
                if res = ''five'' then
                  (case st_winner st of
                     None \<Rightarrow> False
                   | Some w \<Rightarrow>
                       if w \<noteq> valueOrEmpty (st_black st) \<and> w \<noteq> valueOrEmpty (st_white st) then False
                       else if w = valueOrEmpty (st_black st) then
                         \<not> (blackCount \<noteq> whiteCount + 1 \<or> \<not> blackHasFive \<or> whiteHasFive)
                       else \<not> (blackCount \<noteq> whiteCount \<or> \<not> whiteHasFive \<or> blackHasFive))
                else if res = ''draw'' then
                  \<not> (moveCount \<noteq> boardCells \<or> st_winner st \<noteq> None \<or> blackHasFive \<or> whiteHasFive)
                else False)
         else False)"

definition decodeSnapshot :: "snapshot \<Rightarrow> game_error + snapshotState" where
  "decodeSnapshot sn =
     (if sn_revision sn < 0 \<or> length (sn_state sn) > 8192 \<or> \<not> utf8_valid (sn_state sn)
      then Inl ErrInvalidSnapshot
      else or_fail (do {
        fields \<leftarrow> decodeObject (sn_state sn) state_names;
        (if length fields = length state_names then Some () else None);
        rawBoard \<leftarrow> unmarshal (dec_slice dec_int 0) [] (the (map_of fields ''board''));
        (if int (length rawBoard) = boardCells then Some () else None);
        (if list_all (\<lambda>c. int Empty \<le> c \<and> c \<le> int White) rawBoard then Some () else None);
        st \<leftarrow> decodeStruct (sn_state sn);
        (if validCounts (sn_revision sn) st \<and> validOutcome st then Some st else None)
      }) ErrInvalidSnapshot)"

subsection \<open>Rules\<close>

definition initialState :: snapshotState where
  "initialState = \<lparr>st_status = ''active'', st_board = replicate 225 Empty, st_boardSize = BoardSize,
     st_black = None, st_white = None, st_next = colorString Black, st_winner = None, st_result = None\<rparr>"

definition initialSnapshot :: snapshot where
  "initialSnapshot = \<lparr>sn_revision = 0, sn_state = marshalState initialState\<rparr>"

definition decodeMove :: "bytes \<Rightarrow> point option" where
  "decodeMove payload =
     (if length payload > 1024 \<or> \<not> utf8_valid payload then None
      else do {
        fields \<leftarrow> decodeObject payload [''x'', ''y''];
        rx \<leftarrow> map_of fields ''x'';
        ry \<leftarrow> map_of fields ''y'';
        x \<leftarrow> decodeInteger rx;
        y \<leftarrow> decodeInteger ry;
        Some (pt x y) })"

definition accepted_members :: "point \<Rightarrow> color \<Rightarrow> bytes \<Rightarrow> (bytes \<times> json) list" where
  "accepted_members p c actor =
     [(''x'', jint (X p)), (''y'', jint (Y p)), (''color'', JStr (colorString c)), (''userId'', JStr actor)]"

definition acceptedMovePayload :: "point \<Rightarrow> color \<Rightarrow> bytes \<Rightarrow> bytes" where
  "acceptedMovePayload p c actor = render (JObj (accepted_members p c actor))"

definition decodeAcceptedMove :: "bytes \<Rightarrow> (point \<times> bytes \<times> bytes) option" where
  "decodeAcceptedMove payload =
     (if length payload > 1024 \<or> \<not> utf8_valid payload then None
      else do {
        fields \<leftarrow> decodeObject payload [''x'', ''y'', ''color'', ''userId''];
        rx \<leftarrow> map_of fields ''x'';
        ry \<leftarrow> map_of fields ''y'';
        rc \<leftarrow> map_of fields ''color'';
        ru \<leftarrow> map_of fields ''userId'';
        x \<leftarrow> decodeInteger rx;
        y \<leftarrow> decodeInteger ry;
        color \<leftarrow> unmarshal dec_string '''' rc;
        (if colorNamed color \<noteq> Empty then Some () else None);
        userID \<leftarrow> unmarshal dec_string '''' ru;
        (if validActorID userID then Some () else None);
        (if point_valid (pt x y) then Some (pt x y, color, userID) else None) })"

text \<open>The state part of \<open>applyMove\<close>: turn order, seat binding, placement and outcome.\<close>

definition bindActor :: "snapshotState \<Rightarrow> color \<Rightarrow> bytes \<Rightarrow> game_error + snapshotState" where
  "bindActor st c actor =
     (case actorForColor st c of
        Some expected \<Rightarrow> if expected \<noteq> actor then Inl GomokuNotYourTurn else Inr st
      | None \<Rightarrow>
          if actorForColor st (opposite c) = Some actor then Inl GomokuNotYourTurn
          else if c = Black then Inr (st\<lparr>st_black := Some actor\<rparr>)
          else Inr (st\<lparr>st_white := Some actor\<rparr>))"

definition settle :: "snapshotState \<Rightarrow> board \<Rightarrow> point \<Rightarrow> color \<Rightarrow> bytes \<Rightarrow> snapshotState" where
  "settle st b p c actor =
     (let st' = st\<lparr>st_board := cells b, st_next := colorString (opposite c)\<rparr> in
      if wins b p c then
        st'\<lparr>st_status := ''finished'', st_result := Some ''five'', st_winner := Some actor\<rparr>
      else if stones b = boardCells then
        st'\<lparr>st_status := ''finished'', st_result := Some ''draw'', st_winner := None\<rparr>
      else st')"

definition moveState :: "snapshotState \<Rightarrow> bytes \<Rightarrow> point \<Rightarrow> game_error + color \<times> snapshotState" where
  "moveState st actor p =
     (if st_status st \<noteq> ''active'' then Inl ErrInvalidAction
      else let c = colorNamed (st_next st) in
      if c = Empty then Inl ErrInvalidSnapshot
      else and_then (bindActor st c actor) (\<lambda>st1.
        let b = \<lparr>cells = st_board st1, stones = occupiedCells (st_board st1)\<rparr> in
        if occupied b p then Inl GomokuCellOccupied
        else case place b p c of (placed, b') \<Rightarrow>
          if \<not> placed then Inl ErrInvalidAction
          else Inr (c, settle st1 b' p c actor)))"

definition applyMove :: "snapshot \<Rightarrow> bytes \<Rightarrow> point \<Rightarrow> game_error + event \<times> snapshot" where
  "applyMove sn actor p =
     (case decodeSnapshot sn of
        Inl e \<Rightarrow> Inl ErrInvalidSnapshot
      | Inr st \<Rightarrow> and_then (moveState st actor p) (\<lambda>(c, st').
          let revision = i64 (sn_revision sn + 1) in
          Inr (\<lparr>ev_revision = revision, ev_type = MoveAccepted, ev_actor = actor,
                ev_payload = acceptedMovePayload p c actor\<rparr>,
               \<lparr>sn_revision = revision, sn_state = marshalState st'\<rparr>)))"

definition Apply :: "snapshot \<Rightarrow> bytes \<Rightarrow> action \<Rightarrow> game_error + event \<times> snapshot" where
  "Apply sn actor act =
     (if act_type act \<noteq> MoveRequested \<or> \<not> validActorID actor then Inl ErrInvalidAction
      else case decodeMove (act_payload act) of
        None \<Rightarrow> Inl ErrInvalidAction
      | Some p \<Rightarrow>
          if \<not> point_valid p then Inl ErrInvalidAction
          else let sn' = (if sn_state sn = [] \<and> sn_revision sn = 0 then initialSnapshot else sn) in
          if sn_revision sn' < 0 then Inl ErrInvalidSnapshot
          else applyMove sn' actor p)"

definition rebuildBody :: "int \<Rightarrow> event \<Rightarrow> snapshot \<Rightarrow> game_error + snapshot" where
  "rebuildBody i e sn =
     (if ev_revision e \<noteq> i + 1 \<or> ev_type e \<noteq> MoveAccepted \<or> \<not> validActorID (ev_actor e)
      then Inl ErrInvalidEvent
      else case decodeAcceptedMove (ev_payload e) of
        None \<Rightarrow> Inl ErrInvalidEvent
      | Some (p, color, userID) \<Rightarrow>
          (case decodeSnapshot sn of
             Inl _ \<Rightarrow> Inl ErrInvalidEvent
           | Inr st \<Rightarrow>
               if color \<noteq> st_next st \<or> userID \<noteq> ev_actor e then Inl ErrInvalidEvent
               else case applyMove sn (ev_actor e) p of
                 Inl _ \<Rightarrow> Inl ErrInvalidEvent
               | Inr (produced, nxt) \<Rightarrow>
                   if ev_revision produced \<noteq> ev_revision e \<or> ev_actor produced \<noteq> ev_actor e \<or>
                      ev_type produced \<noteq> ev_type e \<or> ev_payload produced \<noteq> ev_payload e
                   then Inl ErrInvalidEvent else Inr nxt))"

definition Rebuild :: "event list \<Rightarrow> game_error + snapshot" where
  "Rebuild events = rebuild_loop rebuildBody 0 events initialSnapshot"

subsection \<open>Lines of five\<close>

text \<open>
  The specification of a win: five stones of a colour in a row, \<open>k\<close> steps along a direction
  from an origin. \<open>wins\<close> scans from the last stone only, \<open>hasFive\<close> scans the whole board.
\<close>

definition shift :: "point \<Rightarrow> int \<Rightarrow> point \<Rightarrow> point" where
  "shift p k d = pt (X p + k * X d) (Y p + k * Y d)"

definition stone :: "board \<Rightarrow> color \<Rightarrow> point \<Rightarrow> bool" where
  "stone b c q \<longleftrightarrow> point_valid q \<and> color_at b q = c"

definition five :: "board \<Rightarrow> color \<Rightarrow> bool" where
  "five b c \<longleftrightarrow> (\<exists>q. \<exists>d\<in>set directions. \<forall>k\<in>{0..4}. stone b c (shift q k d))"

lemma go_pt_sel [simp]: "X (pt x y) = x" "Y (pt x y) = y"
  by (simp_all add: pt_def)

lemma pt_eq [simp]: "pt (X p) (Y p) = p" "pt x y = pt x' y' \<longleftrightarrow> x = x' \<and> y = y'"
  by (simp_all add: pt_def)

lemma shift_sel [simp]: "X (shift p k d) = X p + k * X d" "Y (shift p k d) = Y p + k * Y d"
  by (simp_all add: shift_def)

lemma shift_0 [simp]: "shift p 0 d = p"
  by (simp add: shift_def)

lemma shift_shift [simp]: "shift (shift p j d) k d = shift p (j + k) d"
  by (simp add: shift_def algebra_simps)

lemma shift_neg [simp]: "shift p k (pt (- X d) (- Y d)) = shift p (- k) d"
  by (simp add: shift_def)

lemma run_loop_ge:
  "int m \<le> run_loop n b p d c \<longleftrightarrow> m \<le> n \<and> (\<forall>k<m. stone b c (shift p (int k) d))"
proof (induction n arbitrary: p m)
  case 0
  show ?case by auto
next
  case (Suc n)
  show ?case
  proof (cases m)
    case 0
    have "0 \<le> run_loop n' b p' d c" for n' p' by (induction n' arbitrary: p') auto
    with 0 show ?thesis by (simp del: run_loop.simps)
  next
    case (Suc m')
    have sh: "shift p (int (Suc k)) d = shift (shift p 1 d) (int k) d" for k by simp
    have p1: "pt (X p + X d) (Y p + Y d) = shift p 1 d" by (simp add: shift_def)
    have all: "(\<forall>k<Suc m'. stone b c (shift p (int k) d)) \<longleftrightarrow>
        stone b c p \<and> (\<forall>k<m'. stone b c (shift (shift p 1 d) (int k) d))"
      unfolding All_less_Suc2 sh by simp
    show ?thesis
      using Suc.IH [of m' "shift p 1 d"] unfolding \<open>m = Suc m'\<close> all
      by (auto simp: p1 stone_def)
  qed
qed

lemma run_ge:
  "int m \<le> run b p d c \<longleftrightarrow> m \<le> 15 \<and> (\<forall>k\<in>{1..int m}. stone b c (shift p k d))"
proof -
  have p1: "pt (X p + X d) (Y p + Y d) = shift p 1 d" by (simp add: shift_def)
  have "(\<forall>k<m. stone b c (shift p (1 + int k) d)) \<longleftrightarrow> (\<forall>k\<in>{1..int m}. stone b c (shift p k d))"
  proof (intro iffI ballI allI impI)
    fix k assume a: "\<forall>k<m. stone b c (shift p (1 + int k) d)" and k: "k \<in> {1..int m}"
    from k have "nat (k - 1) < m" and "1 + int (nat (k - 1)) = k" by auto
    with a show "stone b c (shift p k d)" by metis
  qed simp
  then show ?thesis using run_loop_ge [of m 15 b "shift p 1 d" d c] by (simp add: run_def p1)
qed

lemma run_nonneg: "0 \<le> run b p d c"
  using run_ge [of 0 b p d c] by simp

text \<open>A stone on a line of five: \<open>wins\<close> at that stone finds the line.\<close>

lemma wins_iff:
  assumes "stone b c p"
  shows "wins b p c \<longleftrightarrow>
    (\<exists>d\<in>set directions. \<exists>j\<in>{0..4}. \<forall>k\<in>{0..4}. stone b c (shift p (k - j) d))"
proof -
  have "1 + run b p d c + run b p (pt (- X d) (- Y d)) c \<ge> 5 \<longleftrightarrow>
      (\<exists>j\<in>{0..4}. \<forall>k\<in>{0..4}. stone b c (shift p (k - j) d))" (is "?r \<longleftrightarrow> ?l") for d
  proof
    let ?r1 = "run b p d c" and ?r2 = "run b p (pt (- X d) (- Y d)) c"
    assume ?r
    define j where "j = min 4 ?r2"
    have j: "0 \<le> j" "j \<le> 4" "j \<le> ?r2" "4 - j \<le> ?r1"
      using run_nonneg [of b p "pt (- X d) (- Y d)" c] run_nonneg [of b p d c] \<open>?r\<close> by (auto simp: j_def)
    have f: "k \<in> {1..4 - j} \<Longrightarrow> stone b c (shift p k d)" for k
      using j run_ge [of "nat (4 - j)" b p d c] by auto
    have g: "k \<in> {1..j} \<Longrightarrow> stone b c (shift p (- k) d)" for k
      using j run_ge [of "nat j" b p "pt (- X d) (- Y d)" c] by auto
    have "stone b c (shift p (k - j) d)" if "k \<in> {0..4}" for k
      using f [of "k - j"] g [of "j - k"] that assms by (cases "k = j"; cases "k < j") auto
    with j show ?l by (intro bexI [of _ j]) simp_all
  next
    assume ?l
    then obtain j where j: "0 \<le> j" "j \<le> 4" and l: "\<And>k. k \<in> {0..4} \<Longrightarrow> stone b c (shift p (k - j) d)"
      by auto
    have "stone b c (shift p k d)" if "k \<in> {1..4 - j}" for k
      using l [of "k + j"] that j by simp
    then have "4 - j \<le> run b p d c" using run_ge [of "nat (4 - j)" b p d c] j by auto
    moreover have "stone b c (shift p (- k) d)" if "k \<in> {1..j}" for k
      using l [of "j - k"] that j by simp
    then have "j \<le> run b p (pt (- X d) (- Y d)) c"
      using run_ge [of "nat j" b p "pt (- X d) (- Y d)" c] j by auto
    ultimately show ?r by simp
  qed
  then show ?thesis by (auto simp: wins_def list_ex_iff)
qed

lemma wins_five: "stone b c p \<Longrightarrow> wins b p c \<Longrightarrow> five b c"
proof -
  assume "stone b c p" and "wins b p c"
  then obtain d j where "d \<in> set directions"
    and "\<forall>k\<in>{0..4}. stone b c (shift (shift p (- j) d) k d)"
    by (auto simp: wins_iff)
  then show ?thesis unfolding five_def by blast
qed

lemma five_wins:
  assumes "d \<in> set directions" and "\<forall>k\<in>{0..4}. stone b c (shift q k d)" and "j \<in> {0..4}"
  shows "wins b (shift q j d) c"
proof -
  have "stone b c (shift q j d)" using assms by simp
  then show ?thesis
    using assms unfolding wins_iff [OF \<open>stone b c (shift q j d)\<close>]
    by (intro bexI [of _ d] bexI [of _ j]) simp_all
qed

lemma index_point: "point_valid p \<Longrightarrow> pt (board_index p mod BoardSize) (board_index p div BoardSize) = p"
  by (simp add: board_index_def point_valid_def BoardSize_def)

lemma board_index_bounds: "point_valid p \<Longrightarrow> 0 \<le> board_index p \<and> board_index p < 225"
  by (simp add: board_index_def point_valid_def BoardSize_def)

lemma point_index: "i < 225 \<Longrightarrow> point_valid (pt (int i mod BoardSize) (int i div BoardSize)) \<and>
    board_index (pt (int i mod BoardSize) (int i div BoardSize)) = int i"
  by (auto simp: board_index_def point_valid_def BoardSize_def)

lemma hasFive_five:
  assumes "length (cells b) = 225"
  shows "hasFive b c \<longleftrightarrow> five b c"
proof
  assume "hasFive b c"
  then obtain i where i: "i < 225" "cells b ! i = c"
    and w: "wins b (pt (int i mod BoardSize) (int i div BoardSize)) c"
    using assms by (auto simp: hasFive_def list_ex_iff)
  have "stone b c (pt (int i mod BoardSize) (int i div BoardSize))"
    using i point_index [OF i(1)] by (simp add: stone_def color_at_def Let_def)
  from wins_five [OF this w] show "five b c" .
next
  assume "five b c"
  then obtain q d where d: "d \<in> set directions" and s: "\<forall>k\<in>{0..4}. stone b c (shift q k d)"
    by (auto simp: five_def)
  from five_wins [OF d s, of 0] have w: "wins b q c" by simp
  from s have "stone b c (shift q 0 d)" by (rule bspec) simp
  then have q: "point_valid q" "color_at b q = c" by (simp_all add: stone_def)
  with board_index_bounds [OF q(1)] have i: "nat (board_index q) < length (cells b)"
    "cells b ! nat (board_index q) = c" using assms by (auto simp: color_at_def Let_def)
  show "hasFive b c"
    unfolding hasFive_def list_ex_iff
    using i w index_point [OF q(1)] board_index_bounds [OF q(1)]
    by (intro bexI [of _ "nat (board_index q)"]) auto
qed

text \<open>Placing a stone on an empty cell.\<close>

lemma color_at_place:
  assumes "length (cells b) = 225" and "point_valid p" and "point_valid q"
  shows "color_at (b\<lparr>cells := (cells b)[nat (board_index p) := c], stones := n\<rparr>) q =
    (if q = p then c else color_at b q)"
proof -
  have "nat (board_index p) = nat (board_index q) \<longleftrightarrow> q = p"
    using board_index_bounds [OF assms(2)] board_index_bounds [OF assms(3)]
      index_point [OF assms(2)] index_point [OF assms(3)]
    by (metis eq_nat_nat_iff)
  then show ?thesis
    using assms board_index_bounds [OF assms(2)] board_index_bounds [OF assms(3)]
    by (auto simp: color_at_def Let_def nth_list_update)
qed

lemma stone_place:
  assumes "length (cells b) = 225" and "point_valid p" and "color_at b p = Empty"
    and "c \<noteq> Empty" and "c' \<noteq> Empty"
  shows "stone (b\<lparr>cells := (cells b)[nat (board_index p) := c], stones := n\<rparr>) c' q \<longleftrightarrow>
    stone b c' q \<or> (q = p \<and> c' = c)"
proof (cases "point_valid q")
  case True
  with color_at_place [OF assms(1,2) True] assms show ?thesis by (auto simp: stone_def)
qed (use assms in \<open>auto simp: stone_def\<close>)

lemma five_place_other:
  assumes "length (cells b) = 225" and "point_valid p" and "color_at b p = Empty"
    and "c \<noteq> Empty" and "c' \<noteq> Empty" and "c' \<noteq> c"
  shows "five (b\<lparr>cells := (cells b)[nat (board_index p) := c], stones := n\<rparr>) c' \<longleftrightarrow> five b c'"
  using assms by (simp add: five_def stone_place)

text \<open>The incremental test agrees with the scan of the whole board.\<close>

lemma five_place_wins:
  fixes n :: int
  assumes "length (cells b) = 225" and "point_valid p" and "color_at b p = Empty"
    and "c \<noteq> Empty" and "\<not> five b c"
  defines "b' \<equiv> b\<lparr>cells := (cells b)[nat (board_index p) := c], stones := n\<rparr>"
  shows "five b' c \<longleftrightarrow> wins b' p c"
proof
  have st: "stone b' c q \<longleftrightarrow> stone b c q \<or> q = p" for q
    unfolding b'_def using stone_place [OF assms(1-4,4)] by simp
  assume "five b' c"
  then obtain q d where d: "d \<in> set directions" and s: "\<forall>k\<in>{0..4}. stone b' c (shift q k d)"
    by (auto simp: five_def)
  with \<open>\<not> five b c\<close> have "\<exists>k\<in>{0..4}. \<not> stone b c (shift q k d)" by (auto simp: five_def)
  with s obtain k where "k \<in> {0..4}" and "shift q k d = p" unfolding st by blast
  with five_wins [OF d s] show "wins b' p c" by blast
next
  assume "wins b' p c"
  moreover have "stone b' c p" unfolding b'_def using stone_place [OF assms(1-4,4)] by simp
  ultimately show "five b' c" by (rule wins_five [rotated])
qed

lemma run_fuel:
  assumes "d \<in> set directions \<or> pt (- X d) (- Y d) \<in> set directions" and "15 \<le> n"
  shows "run_loop n b p d c = run_loop 15 b p d c"
proof -
  have d: "X d \<in> {1, -1} \<or> Y d \<in> {1, -1}"
    using assms(1) by (auto simp: directions_def pt_def)
  have 15: "\<not> (\<forall>k<m. stone b c (shift p (int k) d))" if "15 < m" for m
  proof
    assume s: "\<forall>k<m. stone b c (shift p (int k) d)"
    from s that have "stone b c (shift p (int 0) d)" and "stone b c (shift p (int 15) d)" by blast+
    with d show False by (auto simp: stone_def point_valid_def BoardSize_def)
  qed
  have "int m \<le> run_loop n b p d c \<longleftrightarrow> int m \<le> run_loop 15 b p d c" for m
    unfolding run_loop_ge using 15 [of m] assms(2) by (meson le_trans not_le)
  from this [of "nat (run_loop n b p d c)"] this [of "nat (run_loop 15 b p d c)"] show ?thesis
    using run_loop_ge [of 0 n b p d c] run_loop_ge [of 0 15 b p d c] by simp
qed

subsection \<open>The snapshot codec\<close>

definition valid_state :: "int \<Rightarrow> snapshotState \<Rightarrow> bool" where
  "valid_state rv st \<longleftrightarrow>
     0 \<le> rv \<and> length (st_board st) = 225 \<and> validCounts rv st \<and> validOutcome st"

lemma go_valid_state_board:
  "valid_state rv st \<Longrightarrow> length (st_board st) = 225 \<and> (\<forall>c\<in>set (st_board st). c \<le> 2)"
  by (auto simp: valid_state_def validCounts_def Let_def list_all_iff)

lemma valid_state_revision:
  assumes "valid_state rv st"
  shows "0 \<le> rv" and "rv \<le> 225"
proof -
  show "0 \<le> rv" using assms by (simp add: valid_state_def)
  have "set (st_board st) \<subseteq> {Empty, Black, White}"
    using go_valid_state_board [OF assms] set_le_2 by blast
  with count_list_sum3 [of "st_board st" Empty Black White] go_valid_state_board [OF assms]
  have "count_list (st_board st) Black + count_list (st_board st) White \<le> 225" by simp
  then show "rv \<le> 225"
    using assms by (auto simp: valid_state_def validCounts_def Let_def)
qed

lemma go_valid_state_actors:
  assumes "valid_state rv st"
  shows "validOptionalActor (st_black st)" and "validOptionalActor (st_white st)"
    and "st_winner st = None \<or> st_winner st = Some '''' \<or> st_winner st = st_black st \<or> st_winner st = st_white st"
proof -
  show "validOptionalActor (st_black st)" and "validOptionalActor (st_white st)"
    using assms by (auto simp: valid_state_def validCounts_def Let_def)
  have "validOutcome st" using assms by (simp add: valid_state_def)
  then show "st_winner st = None \<or> st_winner st = Some '''' \<or> st_winner st = st_black st \<or> st_winner st = st_white st"
    by (auto simp: validOutcome_def Let_def valueOrEmpty_def split: option.splits if_splits)
qed

lemma go_valid_state_strings:
  assumes "valid_state rv st"
  shows "st_status st \<in> {''active'', ''finished''}" and "st_next st \<in> {''black'', ''white''}"
    and "st_result st \<in> {None, Some ''five'', Some ''draw''}" and "st_boardSize st = 15"
proof -
  have o: "validOutcome st" and c: "validCounts rv st" using assms by (simp_all add: valid_state_def)
  from o show "st_status st \<in> {''active'', ''finished''}"
    and "st_result st \<in> {None, Some ''five'', Some ''draw''}"
    by (auto simp: validOutcome_def Let_def split: option.splits if_splits)
  from c show "st_next st \<in> {''black'', ''white''}" and "st_boardSize st = 15"
    by (auto simp: validCounts_def Let_def colorString_def BoardSize_def split: if_splits)
qed

lemma go_valid_state_winner_wf:
  assumes "valid_state rv st"
  shows "wf_json (jptr JStr (st_winner st))" and "length (render (jptr JStr (st_winner st))) \<le> 770"
proof -
  have [simp]: "wf_json (jptr JStr (Some ''''))" "length (render (jptr JStr (Some ''''))) \<le> 770"
    by (simp_all add: jptr_def quote_def)
  note a = go_valid_state_actors [OF assms]
  show "wf_json (jptr JStr (st_winner st))"
    using a(3) wf_opt_actor [OF a(1)] wf_opt_actor [OF a(2)] by (auto simp: jptr_def)
  show "length (render (jptr JStr (st_winner st))) \<le> 770"
    using a(3) length_render_opt_actor [OF a(1)] length_render_opt_actor [OF a(2)]
    by (auto simp: jptr_def quote_def)
qed

lemma go_small_string_wf: "s \<in> {''active'', ''finished'', ''black'', ''white''} \<Longrightarrow> utf8_valid s \<and> length s \<le> 8"
  by (auto intro: utf8_valid_ascii)

lemma go_members_wf:
  assumes "valid_state rv st"
  shows "\<forall>kv\<in>set (state_members st). utf8_valid (fst kv) \<and> wf_json (snd kv)"
proof -
  note s = go_valid_state_strings [OF assms] and a = go_valid_state_actors [OF assms]
  have "wf_json (jptr JStr (st_result st))" using s(3) by (auto simp: jptr_def utf8_valid_ascii)
  then show ?thesis
    using s(1,2) go_small_string_wf [of "st_status st"] go_small_string_wf [of "st_next st"]
      wf_opt_actor [OF a(1)] wf_opt_actor [OF a(2)] go_valid_state_winner_wf [OF assms]
    by (auto simp: state_members_def utf8_valid_ascii)
qed

lemma go_members_keys [json_simps]: "map fst (state_members st) = state_names" "distinct state_names"
  by (simp_all add: state_members_def state_names_def)

lemma go_members_of [json_simps]:
  "map_of (state_members st) ''status'' = Some (JStr (st_status st))"
  "map_of (state_members st) ''board'' = Some (JArr (map (\<lambda>c. jint (int c)) (st_board st)))"
  "map_of (state_members st) ''boardSize'' = Some (jint (st_boardSize st))"
  "map_of (state_members st) ''blackUserId'' = Some (jptr JStr (st_black st))"
  "map_of (state_members st) ''whiteUserId'' = Some (jptr JStr (st_white st))"
  "map_of (state_members st) ''nextColor'' = Some (JStr (st_next st))"
  "map_of (state_members st) ''winnerUserId'' = Some (jptr JStr (st_winner st))"
  "map_of (state_members st) ''result'' = Some (jptr JStr (st_result st))"
  by (simp_all add: state_members_def)

lemma go_length_marshal:
  assumes "valid_state rv st"
  shows "length (marshalState st) \<le> 8192"
proof -
  note s = go_valid_state_strings [OF assms] and a = go_valid_state_actors [OF assms]
  note b = go_valid_state_board [OF assms]
  have cell: "length (render (jint (int c))) \<le> 1" if "c \<in> set (st_board st)" for c
    using that b length_show_int_pos [of "int c" 1] by (auto simp: jint_def)
  have "length (render (JArr (map (\<lambda>c. jint (int c)) (st_board st)))) \<le> (1 + 1) * 225 + 2"
    using length_render_elems [of "map (\<lambda>c. jint (int c)) (st_board st)" 1] cell b by simp
  moreover have "length (render (jptr JStr (st_result st))) \<le> 26"
    using s(3) length_quote [of "''five''"] length_quote [of "''draw''"] by (auto simp: jptr_def)
  moreover have "length (render (JStr (st_status st))) \<le> 50" "length (render (JStr (st_next st))) \<le> 50"
    using length_render_jstr [of "st_status st"] length_render_jstr [of "st_next st"]
      go_small_string_wf [of "st_status st"] go_small_string_wf [of "st_next st"] s(1,2) by auto
  moreover have "length (render (jint (st_boardSize st))) \<le> 2"
    using length_show_int_pos [of 15 2] s(4) by (simp add: jint_def)
  moreover note length_render_opt_actor [OF a(1)] length_render_opt_actor [OF a(2)]
    go_valid_state_winner_wf(2) [OF assms] length_render_members_le [of "state_members st"]
  ultimately show ?thesis
    by (simp add: marshalState_def state_members_def del: render.simps(3,4,5))
qed

lemma go_member_field [json_simps]:
  "map_of (state_members st) n = Some j \<Longrightarrow> dec_field state_names (state_members st) n d z = d j z"
  by (intro dec_field_exact) (simp_all add: json_simps)

lemma go_decode_members:
  assumes "valid_state rv st"
  shows "decodeStruct (marshalState st) = Some st"
proof -
  note b = go_valid_state_board [OF assms]
  have "json_decode (marshalState st) = Some (JObj (state_members st), [])"
    unfolding marshalState_def using go_members_wf [OF assms] by (intro json_decode_render) simp
  moreover have "list_all (\<lambda>k. match_field state_names k \<noteq> None) state_names"
    by (simp add: list_all_iff json_simps)
  moreover have "dec_array 225 dec_uint8 0 (JArr (map (\<lambda>c. jint (int c)) (st_board st))) (replicate 225 0)
      = Some (st_board st)"
    using b by (intro dec_array_map) (auto intro!: dec_uint8_jint)
  ultimately show ?thesis
    using go_valid_state_strings(4) [OF assms]
    by (simp add: decodeStruct_def json_simps del: dec_array.simps)
qed

lemma go_decode_encode:
  assumes "valid_state rv st"
  shows "decodeSnapshot \<lparr>sn_revision = rv, sn_state = marshalState st\<rparr> = Inr st"
proof -
  note b = go_valid_state_board [OF assms]
  have m: "decodeObject (marshalState st) state_names = Some (raw_members (state_members st))"
    unfolding decodeObject_def marshalState_def using go_members_wf [OF assms]
    by (intro strict_object_render) (simp_all add: json_simps)
  have brd: "unmarshal (dec_slice dec_int 0) [] (render (JArr (map (\<lambda>c. jint (int c)) (st_board st))))
      = Some (map int (st_board st))"
  proof -
    have "dec_slice dec_int 0 (JArr (map jint (map int (st_board st)))) [] = Some (map int (st_board st))"
      using b by (intro dec_slice_map dec_int_jint is_i64_small) auto
    then show ?thesis by (subst unmarshal_render) (simp_all add: comp_def)
  qed
  have "utf8_valid (marshalState st)"
    unfolding marshalState_def using go_members_wf [OF assms] by (intro utf8_valid_render_obj) auto
  moreover have "length (state_members st) = length state_names"
    by (simp add: state_members_def state_names_def)
  moreover have "list_all (\<lambda>c. 0 \<le> c \<and> c \<le> 2) (map int (st_board st))"
    using b by (auto simp: list_all_iff)
  ultimately show ?thesis
    using assms go_length_marshal [OF assms] b
    by (simp add: decodeSnapshot_def m json_simps brd go_decode_members [OF assms] valid_state_def
        boardCells_def BoardSize_def del: dec_slice.simps render.simps)
qed

lemma go_decodeStruct_board: "decodeStruct s = Some st \<Longrightarrow> length (st_board st) = 225"
  by (clarsimp simp: decodeStruct_def split: if_splits bind_splits)
    (drule dec_field_array_length, simp)

lemma go_decode_valid:
  assumes "decodeSnapshot sn = Inr st"
  shows "valid_state (sn_revision sn) st" and "sn_state sn \<noteq> []"
proof -
  have d: "decodeStruct (sn_state sn) = Some st" and v: "validCounts (sn_revision sn) st" "validOutcome st"
    and r: "0 \<le> sn_revision sn" and o: "\<exists>f. decodeObject (sn_state sn) state_names = Some f"
    using assms by (auto simp: decodeSnapshot_def split: if_splits bind_splits)
  from go_decodeStruct_board [OF d] v r show "valid_state (sn_revision sn) st" by (simp add: valid_state_def)
  from o show "sn_state sn \<noteq> []" by (auto simp: decodeObject_def)
qed

subsection \<open>Moves preserve validity\<close>

abbreviation state_board :: "snapshotState \<Rightarrow> board" where
  "state_board st \<equiv> \<lparr>cells = st_board st, stones = occupiedCells (st_board st)\<rparr>"

lemma stones_irrelevant:
  "stone \<lparr>cells = cs, stones = m\<rparr> c q \<longleftrightarrow> stone \<lparr>cells = cs, stones = n\<rparr> c q"
  by (simp add: stone_def color_at_def Let_def)

lemma five_stones: "five \<lparr>cells = cs, stones = m\<rparr> c \<longleftrightarrow> five \<lparr>cells = cs, stones = n\<rparr> c"
  by (simp add: five_def stones_irrelevant [of cs m c _ n])

lemma occupiedCells_count:
  "\<forall>c\<in>set cs. c \<le> 2 \<Longrightarrow> occupiedCells cs = int (count_list cs Black) + int (count_list cs White)"
  unfolding occupiedCells_def by (induction cs) (auto simp: le_2_cases)

definition no_five :: "snapshotState \<Rightarrow> color \<Rightarrow> bool" where
  "no_five st c \<longleftrightarrow> \<not> five (state_board st) c"

text \<open>What an active valid state promises.\<close>

lemma go_valid_active:
  assumes "valid_state rv st" and "st_status st = ''active''"
  shows "no_five st Black" and "no_five st White" and "st_winner st = None" and "st_result st = None"
proof -
  have o: "validOutcome st" using assms by (simp add: valid_state_def)
  have l: "length (st_board st) = 225" using assms by (simp add: valid_state_def)
  with o assms(2) show "no_five st Black" and "no_five st White" and "st_winner st = None" and "st_result st = None"
    using five_stones [of "st_board st"] by (auto simp: validOutcome_def Let_def no_five_def hasFive_five)
qed

lemma go_bindActor_cases:
  assumes "bindActor st c actor = Inr st1" and "c = Black \<or> c = White"
  shows "st1 = (if c = Black then st\<lparr>st_black := Some actor\<rparr> else st\<lparr>st_white := Some actor\<rparr>)"
    and "actorForColor st (opposite c) \<noteq> Some actor \<or> actorForColor st c = Some actor"
    and "actorForColor st c = None \<or> actorForColor st c = Some actor"
  using assms by (auto simp: bindActor_def actorForColor_def opposite_def split: option.splits if_splits)

lemma validCounts_turn:
  assumes "validCounts rv st" and "st_next st = colorString c" and "c = Black \<or> c = White"
  shows "int (count_list (st_board st) Black) + int (count_list (st_board st) White) = rv"
    and "count_list (st_board st) Black =
      count_list (st_board st) White + (if c = White then 1 else 0)"
proof -
  let ?b = "count_list (st_board st) Black" and ?w = "count_list (st_board st) White"
  from assms(1) have *: "int ?b + int ?w = rv" "\<not> ?b < ?w" "\<not> int ?b > int ?w + 1"
    "st_next st = colorString (if int ?b > int ?w then White else Black)"
    by (simp_all add: validCounts_def Let_def)
  show "int ?b + int ?w = rv" by (rule *(1))
  have "c = White \<longleftrightarrow> int ?b > int ?w"
    using *(4) assms(2,3) by (cases "int ?b > int ?w") (auto simp: colorString_def)
  with *(2,3) show "?b = ?w + (if c = White then 1 else 0)" by (cases "c = White") simp_all
qed

text \<open>The counts after a stone of the colour that is to move.\<close>

lemma counts_after:
  assumes v: "valid_state rv st" and c: "colorNamed (st_next st) = c" "c \<noteq> Empty"
    and b: "bindActor st c actor = Inr st1" and a: "validActorID actor"
    and i: "i < 225" "st_board st ! i = Empty"
    and st': "st_board st' = (st_board st1)[i := c]" "st_next st' = colorString (opposite c)"
      "st_boardSize st' = st_boardSize st1" "st_black st' = st_black st1" "st_white st' = st_white st1"
  shows "validCounts (rv + 1) st'"
    and "int (count_list (st_board st') Black) + int (count_list (st_board st') White) = rv + 1"
    and "int (count_list (st_board st') Black) =
         int (count_list (st_board st') White) + (if c = Black then 1 else 0)"
    and "actorForColor st' c = Some actor"
    and "c = White \<Longrightarrow> st_black st' \<noteq> Some actor"
proof -
  have l: "length (st_board st) = 225" and cells: "\<forall>x\<in>set (st_board st). x \<le> 2"
    using go_valid_state_board [OF v] by auto
  have vc: "validCounts rv st" using v by (simp add: valid_state_def)
  have cc: "c = Black \<or> c = White" using c by (auto simp: colorNamed_def split: if_splits)
  note s1 = go_bindActor_cases [OF b cc]
  have brd: "st_board st' = (st_board st)[i := c]" using st'(1) s1(1) by (simp split: if_splits)
  have up: "count_list ((st_board st)[i := c]) c = Suc (count_list (st_board st) c)"
    using i l c by (intro count_list_update_new) auto
  have same: "x \<noteq> c \<Longrightarrow> x \<noteq> Empty \<Longrightarrow> count_list ((st_board st)[i := c]) x = count_list (st_board st) x" for x
    using i l by (intro count_list_update_same) auto
  have n: "st_next st = colorString c"
    using c by (auto simp: colorNamed_def split: if_splits)
  have new: "\<forall>x\<in>set ((st_board st)[i := c]). x \<le> 2"
    using cells cc set_update_subset_insert [of "st_board st" i c] by auto
  then have all: "list_all (\<lambda>x. x = Empty \<or> x = Black \<or> x = White) ((st_board st)[i := c])"
    by (simp add: list_all_iff le_2_cases)
  note turn = validCounts_turn [OF vc n cc]
  show cnt: "int (count_list (st_board st') Black) + int (count_list (st_board st') White) = rv + 1"
    using cc turn(1) up same [of Black] same [of White] unfolding brd by (elim disjE) simp_all
  show dif: "int (count_list (st_board st') Black) =
         int (count_list (st_board st') White) + (if c = Black then 1 else 0)"
    using cc turn(2) up same [of Black] same [of White] unfolding brd by (elim disjE) simp_all
  show "actorForColor st' c = Some actor"
    using cc s1(1) st'(4,5) by (auto simp: actorForColor_def)
  show ww: "c = White \<Longrightarrow> st_black st' \<noteq> Some actor"
    using s1 st'(4,5) vc by (auto simp: actorForColor_def opposite_def validCounts_def Let_def)
  show "validCounts (rv + 1) st'"
    using cc
  proof
    assume c: "c = Black"
    with st' s1 have k: "st_black st' = Some actor" "st_white st' = st_white st" by auto
    moreover have "st_white st \<noteq> Some actor"
      using c s1 vc by (auto simp: actorForColor_def opposite_def validCounts_def Let_def)
    ultimately show ?thesis
      using c cnt dif vc all a st' s1(1) brd up same [of White]
      by (auto simp: validCounts_def Let_def colorString_def opposite_def validOptionalActor_def)
  next
    assume c: "c = White"
    with st' s1 have k: "st_white st' = Some actor" "st_black st' = st_black st" by auto
    with c ww have "st_black st \<noteq> Some actor" by simp
    with k show ?thesis
      using c cnt dif vc all a st' s1(1) brd up same [of Black] n
      by (auto simp: validCounts_def Let_def colorString_def opposite_def validOptionalActor_def)
  qed
qed

lemma go_settle_sel:
  "st_board (settle st b p c actor) = cells b"
  "st_next (settle st b p c actor) = colorString (opposite c)"
  "st_boardSize (settle st b p c actor) = st_boardSize st"
  "st_black (settle st b p c actor) = st_black st"
  "st_white (settle st b p c actor) = st_white st"
  by (simp_all add: settle_def Let_def)

lemma place_empty:
  assumes "place b p c = (True, b')"
  shows "point_valid p" and "color_at b p = Empty" and "c = Black \<or> c = White"
    and "b' = b\<lparr>cells := (cells b)[nat (board_index p) := c], stones := stones b + 1\<rparr>"
  using assms by (auto simp: place_def Let_def board_index_def color_at_def split: if_splits)

lemma color_at_state: "point_valid p \<Longrightarrow> color_at \<lparr>cells = cs, stones = n\<rparr> p = cs ! nat (board_index p)"
  using board_index_bounds [of p] by (simp add: color_at_def Let_def)

lemma hasFive_cells:
  "length (cells b) = 225 \<Longrightarrow> hasFive \<lparr>cells = cells b, stones = m\<rparr> c \<longleftrightarrow> five b c"
  by (simp add: hasFive_five five_def stone_def color_at_def Let_def)

lemma go_settle_valid:
  assumes v: "valid_state rv st" and act: "st_status st = ''active''"
    and c: "colorNamed (st_next st) = c" and b: "bindActor st c actor = Inr st1"
    and a: "validActorID actor" and pl: "place (state_board st1) p c = (True, b')"
  shows "valid_state (rv + 1) (settle st1 b' p c actor)"
proof -
  let ?st = "settle st1 b' p c actor" and ?i = "nat (board_index p)"
  note pe = place_empty [OF pl]
  note s1 = go_bindActor_cases [OF b pe(3)]
  have brd: "st_board st1 = st_board st" "st_status st1 = ''active''" and
    res: "st_result st1 = None" "st_winner st1 = None"
    using s1(1) act go_valid_active [OF v act] by (auto split: if_splits)
  have l: "length (st_board st) = 225" and cells: "\<forall>x\<in>set (st_board st). x \<le> 2"
    using go_valid_state_board [OF v] by auto
  have i: "?i < 225" "st_board st ! ?i = Empty"
    using pe board_index_bounds [of p] by (auto simp: color_at_state brd)
  have cells': "cells b' = (st_board st)[?i := c]" using pe(4) brd by simp
  have c0: "c \<noteq> Empty" using pe(3) by auto
  note cnt = counts_after [OF v c c0 b a i, of ?st]
  have cnt1: "st_board ?st = (st_board st1)[?i := c]" by (simp add: go_settle_sel cells' brd)
  note cnt = cnt [OF cnt1 go_settle_sel(2-5)]
  have oc: "stones b' = rv + 1"
  proof -
    have "stones b' = occupiedCells (st_board st) + 1" using pe(4) brd by simp
    moreover have "validCounts rv st" using v by (simp add: valid_state_def)
    ultimately show ?thesis
      using occupiedCells_count [OF cells] by (auto simp: validCounts_def Let_def)
  qed
  have fc: "hasFive \<lparr>cells = cells b', stones = m\<rparr> c \<longleftrightarrow> wins b' p c" for m
  proof -
    have "hasFive \<lparr>cells = cells b', stones = m\<rparr> c \<longleftrightarrow> five b' c"
      using l cells' by (intro hasFive_cells) simp
    also have "\<dots> \<longleftrightarrow> wins b' p c"
      unfolding pe(4) using pe l brd c0 go_valid_active(1,2) [OF v act]
      by (intro five_place_wins) (auto simp: no_five_def)
    finally show ?thesis .
  qed
  have fo: "\<not> hasFive \<lparr>cells = cells b', stones = m\<rparr> c'" if "c' \<in> {Black, White}" "c' \<noteq> c" for m c'
  proof -
    have "hasFive \<lparr>cells = cells b', stones = m\<rparr> c' \<longleftrightarrow> five b' c'"
      using l cells' by (intro hasFive_cells) simp
    also have "\<dots> \<longleftrightarrow> five (state_board st1) c'"
      unfolding pe(4) using pe l brd c0 that by (intro five_place_other) auto
    finally show ?thesis using that go_valid_active(1,2) [OF v act] brd by (auto simp: no_five_def)
  qed
  have "validOutcome ?st"
  proof (cases "wins b' p c")
    case True
    then have s: "st_status ?st = ''finished''" "st_result ?st = Some ''five''" "st_winner ?st = Some actor"
      by (simp_all add: settle_def Let_def)
    have ne: "actor \<noteq> ''''" using a by auto
    from pe(3) show ?thesis
    proof
      assume c1: "c = Black"
      with cnt(4) have "st_black ?st = Some actor" by (simp add: actorForColor_def)
      then show ?thesis
        using s fc fo [of White] True cnt(3) c1
        by (simp add: validOutcome_def Let_def valueOrEmpty_def go_settle_sel(1))
    next
      assume c1: "c = White"
      with cnt(4) have w: "st_white ?st = Some actor" by (simp add: actorForColor_def)
      have "valueOrEmpty (st_black ?st) \<noteq> actor"
        using cnt(5) [OF c1] ne by (auto simp: valueOrEmpty_def split: option.splits)
      then show ?thesis
        using s fc fo [of Black] True cnt(3) c1 w
        by (auto simp add: validOutcome_def Let_def valueOrEmpty_def [of "Some _"] go_settle_sel(1))
    qed
  next
    case nowin: False
    then have nf: "\<not> hasFive \<lparr>cells = cells b', stones = m\<rparr> Black" "\<not> hasFive \<lparr>cells = cells b', stones = m\<rparr> White" for m
      using fc fo [of Black] fo [of White] pe(3) by auto
    show ?thesis
    proof (cases "stones b' = boardCells")
      case True
      with nowin have "st_status ?st = ''finished''" "st_result ?st = Some ''draw''" "st_winner ?st = None"
        by (simp_all add: settle_def Let_def)
      with nf True cnt(2) oc show ?thesis by (simp add: validOutcome_def Let_def go_settle_sel(1))
    next
      case False
      with nowin brd res have "st_status ?st = ''active''" "st_result ?st = None" "st_winner ?st = None"
        by (simp_all add: settle_def Let_def)
      with nf False cnt(2) oc show ?thesis by (simp add: validOutcome_def Let_def go_settle_sel(1))
    qed
  qed
  with cnt(1) l cells' v show ?thesis by (simp add: valid_state_def go_settle_sel(1))
qed

lemma moveState_valid:
  assumes "valid_state rv st" and "moveState st actor p = Inr (c, st')" and "validActorID actor"
  shows "valid_state (rv + 1) st'" and "c = Black \<or> c = White" and "colorString c = st_next st"
    and "point_valid p" and "st_status st = ''active''"
proof -
  from assms(2) show act: "st_status st = ''active''" by (auto simp: moveState_def split: if_splits)
  from assms(2) have c: "colorNamed (st_next st) = c" and
    "\<exists>st1. bindActor st c actor = Inr st1 \<and> (\<exists>b'. place (state_board st1) p c = (True, b') \<and>
       st' = settle st1 b' p c actor)"
    by (auto simp: moveState_def Let_def split: if_splits prod.splits)
  then obtain st1 b' where b: "bindActor st c actor = Inr st1"
    and pl: "place (state_board st1) p c = (True, b')" and st': "st' = settle st1 b' p c actor" by auto
  show "valid_state (rv + 1) st'"
    unfolding st' by (rule go_settle_valid [OF assms(1) act c b assms(3) pl])
  show cc: "c = Black \<or> c = White" by (rule place_empty(3) [OF pl])
  with c show "colorString c = st_next st" by (auto simp: colorNamed_def split: if_splits)
  show "point_valid p" by (rule place_empty(1) [OF pl])
qed

lemma go_applyMove_valid:
  assumes "applyMove sn actor p = Inr (e, sn')" and "validActorID actor"
  obtains st c st' where "decodeSnapshot sn = Inr st" and "moveState st actor p = Inr (c, st')"
    and "0 \<le> sn_revision sn" and "sn_revision sn < 225"
    and "e = \<lparr>ev_revision = sn_revision sn + 1, ev_type = MoveAccepted, ev_actor = actor,
          ev_payload = acceptedMovePayload p c actor\<rparr>"
    and "sn' = \<lparr>sn_revision = sn_revision sn + 1, sn_state = marshalState st'\<rparr>"
    and "decodeSnapshot sn' = Inr st'" and "valid_state (sn_revision sn + 1) st'"
proof -
  from assms(1) obtain st c st' where d: "decodeSnapshot sn = Inr st"
    and m: "moveState st actor p = Inr (c, st')"
    and r: "e = \<lparr>ev_revision = i64 (sn_revision sn + 1), ev_type = MoveAccepted, ev_actor = actor,
          ev_payload = acceptedMovePayload p c actor\<rparr>"
         "sn' = \<lparr>sn_revision = i64 (sn_revision sn + 1), sn_state = marshalState st'\<rparr>"
    by (auto simp: applyMove_def Let_def split: sum.splits)
  note v = go_decode_valid(1) [OF d]
  note v' = moveState_valid(1) [OF v m assms(2)]
  have b: "0 \<le> sn_revision sn" "sn_revision sn < 225"
    using valid_state_revision [OF v] valid_state_revision [OF v'] by auto
  then have i: "i64 (sn_revision sn + 1) = sn_revision sn + 1"
    by (intro i64_succ) (simp_all add: max_i64_def)
  show thesis
    using that [OF d m b] r i go_decode_encode [OF v'] v' by simp
qed

subsection \<open>Payloads\<close>

definition move_members :: "point \<Rightarrow> (bytes \<times> json) list" where
  "move_members p = [(''x'', jint (X p)), (''y'', jint (Y p))]"

lemma point_i64: "point_valid p \<Longrightarrow> is_i64 (X p) \<and> is_i64 (Y p)"
  by (auto simp: point_valid_def BoardSize_def intro: is_i64_small)

lemma length_coord:
  assumes "point_valid p"
  shows "length (render (jint (X p))) \<le> 2" and "length (render (jint (Y p))) \<le> 2"
  using assms length_show_int_pos [of "X p" 2] length_show_int_pos [of "Y p" 2]
  by (auto simp: point_valid_def BoardSize_def jint_def)

lemma decodeMove_members:
  assumes "point_valid p"
  shows "decodeMove (render (JObj (move_members p))) = Some p"
proof -
  have wf: "\<forall>kv\<in>set (move_members p). utf8_valid (fst kv) \<and> wf_json (snd kv)"
    by (simp add: move_members_def utf8_valid_ascii)
  have "strict_object [''x'', ''y''] (render (JObj (move_members p))) = Some (raw_members (move_members p))"
    using wf by (intro strict_object_render) (auto simp: move_members_def)
  moreover have "length (render (JObj (move_members p))) \<le> 1024"
    using length_render_members_le [of "move_members p"] length_coord [OF assms]
    by (simp add: move_members_def)
  ultimately show ?thesis
    using point_i64 [OF assms] utf8_valid_render_obj [OF wf]
    by (simp add: decodeMove_def decodeObject_def json_simps del: render.simps)
      (simp add: move_members_def json_simps del: render.simps)
qed

lemma go_decodeAccepted_members:
  assumes "point_valid p" and "c = Black \<or> c = White" and "validActorID actor"
  shows "decodeAcceptedMove (acceptedMovePayload p c actor) = Some (p, colorString c, actor)"
proof -
  let ?m = "accepted_members p c actor"
  have cs: "utf8_valid (colorString c)" "length (colorString c) = 5"
    using assms(2) by (auto simp: colorString_def intro: utf8_valid_ascii)
  have wf: "\<forall>kv\<in>set ?m. utf8_valid (fst kv) \<and> wf_json (snd kv)"
    using cs assms(3) by (auto simp: accepted_members_def utf8_valid_ascii validActorID_utf8)
  have "strict_object [''x'', ''y'', ''color'', ''userId''] (render (JObj ?m)) = Some (raw_members ?m)"
    using wf by (intro strict_object_render) (auto simp: accepted_members_def)
  moreover have "length (render (JObj ?m)) \<le> 1024"
    using length_render_members_le [of ?m] length_coord [OF assms(1)]
      length_render_jstr [of "colorString c"] cs(2) length_render_actor [OF assms(3)]
    by (simp add: accepted_members_def del: render.simps(4))
  moreover have "map_of ?m ''x'' = Some (jint (X p))" "map_of ?m ''y'' = Some (jint (Y p))"
    "map_of ?m ''color'' = Some (JStr (colorString c))" "map_of ?m ''userId'' = Some (JStr actor)"
    by (simp_all add: accepted_members_def)
  moreover have "colorNamed (colorString c) = c"
    using assms(2) by (auto simp: colorNamed_def colorString_def)
  ultimately show ?thesis
    using point_i64 [OF assms(1)] utf8_valid_render_obj [OF wf] cs assms validActorID_utf8 [OF assms(3)]
    by (auto simp add: decodeAcceptedMove_def acceptedMovePayload_def decodeObject_def json_simps
        simp del: render.simps)
qed

lemma decodeAccepted_valid:
  "decodeAcceptedMove payload = Some (p, color, u) \<Longrightarrow> point_valid p"
  by (auto simp: decodeAcceptedMove_def split: if_splits bind_splits)

subsection \<open>Apply and Rebuild\<close>

lemma go_valid_initial: "valid_state 0 initialState"
proof -
  have "\<not> five \<lparr>cells = replicate 225 Empty, stones = 0\<rparr> c" if "c \<noteq> Empty" for c
  proof
    assume "five \<lparr>cells = replicate 225 Empty, stones = 0\<rparr> c"
    then obtain q d where "\<forall>k\<in>{0..4}. stone \<lparr>cells = replicate 225 Empty, stones = 0\<rparr> c (shift q k d)"
      by (auto simp: five_def)
    then have s: "stone \<lparr>cells = replicate 225 Empty, stones = 0\<rparr> c (shift q 0 d)" by (rule bspec) simp
    then have "point_valid q" by (simp add: stone_def)
    with s board_index_bounds [of q] that show False
      by (auto simp: stone_def color_at_def Let_def)
  qed
  then have "\<not> hasFive \<lparr>cells = replicate 225 Empty, stones = 0\<rparr> c" if "c \<noteq> Empty" for c
    using that hasFive_five [of "\<lparr>cells = replicate 225 Empty, stones = 0\<rparr>" c] by simp
  moreover have "count_list (replicate n Empty) c = 0" if "c \<noteq> Empty" for c n
    using that by (induction n) auto
  ultimately show ?thesis
    by (simp add: valid_state_def initialState_def validCounts_def validOutcome_def Let_def
        validOptionalActor_def boardCells_def BoardSize_def list_all_iff)
qed

lemma go_decode_initial: "decodeSnapshot initialSnapshot = Inr initialState"
  unfolding initialSnapshot_def by (rule go_decode_encode [OF go_valid_initial])

lemma go_initial_nonempty: "sn_state initialSnapshot \<noteq> []"
  by (rule go_decode_valid(2) [OF go_decode_initial])

lemma go_Apply_applyMove:
  assumes "sn_state sn \<noteq> []"
  shows "Apply sn actor act = Inr r \<longleftrightarrow>
    act_type act = MoveRequested \<and> validActorID actor \<and>
    (\<exists>p. decodeMove (act_payload act) = Some p \<and> point_valid p \<and> applyMove sn actor p = Inr r)"
proof -
  have "applyMove sn actor p = Inr r \<Longrightarrow> \<not> sn_revision sn < 0" for p
    by (auto simp: applyMove_def decodeSnapshot_def split: sum.splits if_splits)
  with assms show ?thesis by (auto simp: Apply_def Let_def split: option.split)
qed

text \<open>An event that some action of some actor produces on a snapshot.\<close>

definition accepts :: "snapshot \<Rightarrow> event \<Rightarrow> snapshot \<Rightarrow> bool" where
  "accepts sn e sn' \<longleftrightarrow> sn_state sn \<noteq> [] \<and> (\<exists>actor act. Apply sn actor act = Inr (e, sn'))"

lemma go_accepts_applyMove:
  "accepts sn e sn' \<longleftrightarrow>
     sn_state sn \<noteq> [] \<and> (\<exists>actor p. validActorID actor \<and> point_valid p \<and> applyMove sn actor p = Inr (e, sn'))"
proof
  assume "accepts sn e sn'"
  then show "sn_state sn \<noteq> [] \<and> (\<exists>actor p. validActorID actor \<and> point_valid p \<and> applyMove sn actor p = Inr (e, sn'))"
    unfolding accepts_def by (metis go_Apply_applyMove)
next
  assume r: "sn_state sn \<noteq> [] \<and> (\<exists>actor p. validActorID actor \<and> point_valid p \<and> applyMove sn actor p = Inr (e, sn'))"
  then obtain actor p where "validActorID actor" "point_valid p" "applyMove sn actor p = Inr (e, sn')"
    by blast
  with r decodeMove_members [of p]
  have "Apply sn actor \<lparr>act_type = MoveRequested, act_payload = render (JObj (move_members p))\<rparr> = Inr (e, sn')"
    by (simp add: go_Apply_applyMove del: render.simps)
  with r show "accepts sn e sn'" by (auto simp: accepts_def)
qed

lemma go_rebuildBody_complete:
  assumes "accepts sn e sn'"
  shows "rebuildBody (sn_revision sn) e sn = Inr sn'"
proof -
  from assms obtain actor p where a: "validActorID actor" and m: "applyMove sn actor p = Inr (e, sn')"
    by (auto simp: go_accepts_applyMove)
  from m a show ?thesis
  proof (rule go_applyMove_valid)
    fix st c st'
    assume d: "decodeSnapshot sn = Inr st" and ms: "moveState st actor p = Inr (c, st')"
      and e: "e = \<lparr>ev_revision = sn_revision sn + 1, ev_type = MoveAccepted, ev_actor = actor,
          ev_payload = acceptedMovePayload p c actor\<rparr>"
    note mv = moveState_valid [OF go_decode_valid(1) [OF d] ms a]
    from go_decodeAccepted_members [OF mv(4,2) a]
    show "rebuildBody (sn_revision sn) e sn = Inr sn'"
      using a d m mv(3) by (simp add: rebuildBody_def e)
  qed
qed

lemma go_rebuildBody_sound:
  assumes "rebuildBody i e sn = Inr sn'"
  shows "accepts sn e sn'"
proof -
  from assms obtain p color u st produced where a: "validActorID (ev_actor e)"
    and d: "decodeAcceptedMove (ev_payload e) = Some (p, color, u)"
    and st: "decodeSnapshot sn = Inr st"
    and m: "applyMove sn (ev_actor e) p = Inr (produced, sn')"
    and eq: "produced = e"
    by (auto simp: rebuildBody_def split: if_splits option.splits sum.splits prod.splits)
  from go_decode_valid(2) [OF st] a decodeAccepted_valid [OF d] m eq show ?thesis
    by (auto simp: go_accepts_applyMove)
qed

lemma go_accepts_revision:
  assumes "accepts sn e sn'"
  shows "ev_revision e = i64 (sn_revision sn + 1) \<and> sn_revision sn' = ev_revision e"
proof -
  from assms obtain actor p where a: "validActorID actor" and m: "applyMove sn actor p = Inr (e, sn')"
    by (auto simp: go_accepts_applyMove)
  from m a show ?thesis
    by (rule go_applyMove_valid) (simp add: i64_succ max_i64_def)
qed

interpretation gomoku_log: event_log initialSnapshot rebuildBody accepts
proof
  show "sn_revision initialSnapshot = 0" by (simp add: initialSnapshot_def)
qed (auto simp: go_rebuildBody_complete go_rebuildBody_sound dest: go_accepts_revision)

subsection \<open>The abstract game\<close>

text \<open>
  The game as its players know it: a grid, the colour to move, who holds which colour, and the
  outcome (\<open>None\<close> while it runs, then the winner or \<open>Some None\<close> for a draw).
\<close>

record game =
  grid :: "point \<Rightarrow> color"
  turn :: color
  seat :: "color \<Rightarrow> bytes option"
  outcome :: "bytes option option"

definition line_of_five :: "(point \<Rightarrow> color) \<Rightarrow> color \<Rightarrow> bool" where
  "line_of_five g c \<longleftrightarrow> (\<exists>q. \<exists>d\<in>set directions. \<forall>k\<in>{0..4}. g (shift q k d) = c)"

definition spec_move :: "game \<Rightarrow> bytes \<Rightarrow> point \<Rightarrow> game \<Rightarrow> bool" where
  "spec_move g actor p g' \<longleftrightarrow>
     outcome g = None \<and> point_valid p \<and> grid g p = Empty \<and>
     (seat g (turn g) = Some actor \<or>
      seat g (turn g) = None \<and> seat g (opposite (turn g)) \<noteq> Some actor) \<and>
     g' = (let gr = (grid g)(p := turn g) in
       \<lparr>grid = gr, turn = opposite (turn g), seat = (seat g)(turn g := Some actor),
        outcome =
          (if line_of_five gr (turn g) then Some (Some actor)
           else if \<forall>q. point_valid q \<longrightarrow> gr q \<noteq> Empty then Some None else None)\<rparr>)"

definition abs_game :: "snapshotState \<Rightarrow> game" where
  "abs_game st =
     \<lparr>grid = color_at (state_board st), turn = colorNamed (st_next st), seat = actorForColor st,
      outcome = (if st_status st = ''active'' then None else Some (st_winner st))\<rparr>"

lemma color_at_invalid: "\<not> point_valid p \<Longrightarrow> color_at b p = Empty"
  by (simp add: color_at_def board_index_def)

lemma color_at_cells: "cells b = cells b' \<Longrightarrow> color_at b = color_at b'"
  by (simp add: color_at_def Let_def fun_eq_iff)

lemma five_line: "c \<noteq> Empty \<Longrightarrow> five b c \<longleftrightarrow> line_of_five (color_at b) c"
proof -
  assume "c \<noteq> Empty"
  then have "stone b c q \<longleftrightarrow> color_at b q = c" for q
    by (cases "point_valid q") (simp_all add: stone_def color_at_invalid)
  then show ?thesis by (simp add: five_def line_of_five_def)
qed

lemma grid_place:
  assumes "length (cells b) = 225" and "point_valid p"
  shows "color_at (b\<lparr>cells := (cells b)[nat (board_index p) := c], stones := n\<rparr>) = (color_at b)(p := c)"
proof
  fix q
  show "color_at (b\<lparr>cells := (cells b)[nat (board_index p) := c], stones := n\<rparr>) q = ((color_at b)(p := c)) q"
    by (cases "point_valid q")
      (use assms color_at_place [OF assms, of q] color_at_invalid [of q] in auto)
qed

lemma filter_all_length: "length (filter P xs) = length xs \<longleftrightarrow> (\<forall>x\<in>set xs. P x)"
proof (induction xs)
  case (Cons x xs)
  have "length (filter P xs) \<noteq> Suc (length xs)" by (metis Suc_n_not_le_n length_filter_le)
  with Cons show ?case by simp
qed simp

lemma filter_update_length:
  "i < length xs \<Longrightarrow> \<not> P (xs ! i) \<Longrightarrow> P x \<Longrightarrow>
   length (filter P (xs[i := x])) = Suc (length (filter P xs))"
proof (induction xs arbitrary: i)
  case (Cons a xs)
  then show ?case by (cases i) auto
qed simp

lemma full_iff:
  assumes "length cs = 225"
  shows "occupiedCells cs = 225 \<longleftrightarrow> (\<forall>q. point_valid q \<longrightarrow> color_at \<lparr>cells = cs, stones = n\<rparr> q \<noteq> Empty)"
proof -
  have "occupiedCells cs = 225 \<longleftrightarrow> (\<forall>x\<in>set cs. x \<noteq> Empty)"
    using filter_all_length [of "\<lambda>c. c \<noteq> Empty" cs] assms by (simp add: occupiedCells_def)
  also have "\<dots> \<longleftrightarrow> (\<forall>q. point_valid q \<longrightarrow> cs ! nat (board_index q) \<noteq> Empty)"
  proof
    assume "\<forall>x\<in>set cs. x \<noteq> Empty"
    then show "\<forall>q. point_valid q \<longrightarrow> cs ! nat (board_index q) \<noteq> Empty"
      using assms board_index_bounds by (simp add: nat_less_iff)
  next
    assume all: "\<forall>q. point_valid q \<longrightarrow> cs ! nat (board_index q) \<noteq> Empty"
    show "\<forall>x\<in>set cs. x \<noteq> Empty"
    proof
      fix x assume "x \<in> set cs"
      then obtain i where "i < 225" "x = cs ! i" using assms by (auto simp: in_set_conv_nth)
      with all point_index [of i] show "x \<noteq> Empty" by (metis nat_int)
    qed
  qed
  finally show ?thesis by (simp add: color_at_state)
qed

lemma place_iff:
  assumes "c = Black \<or> c = White"
  shows "place b p c = (True, b') \<longleftrightarrow> point_valid p \<and> color_at b p = Empty \<and>
    b' = b\<lparr>cells := (cells b)[nat (board_index p) := c], stones := stones b + 1\<rparr>"
  using assms board_index_bounds [of p]
  by (auto simp: place_def Let_def color_at_def board_index_def split: if_splits)

lemma occupied_iff: "occupied b p \<longleftrightarrow> point_valid p \<and> color_at b p \<noteq> Empty"
  using board_index_bounds [of p] by (auto simp: occupied_def Let_def color_at_def board_index_def)

lemma abs_game_sel:
  "grid (abs_game st) = color_at (state_board st)" "turn (abs_game st) = colorNamed (st_next st)"
  "seat (abs_game st) = actorForColor st"
  "outcome (abs_game st) = None \<longleftrightarrow> st_status st = ''active''"
  by (simp_all add: abs_game_def)

lemma bindActor_iff:
  assumes "actorForColor st c \<noteq> Some actor \<or> actorForColor st (opposite c) \<noteq> Some actor"
  shows "(\<exists>st1. bindActor st c actor = Inr st1) \<longleftrightarrow>
    actorForColor st c = Some actor \<or>
    actorForColor st c = None \<and> actorForColor st (opposite c) \<noteq> Some actor"
  using assms by (auto simp: bindActor_def split: option.splits)

lemma abs_settle:
  assumes v: "valid_state rv st" and act: "st_status st = ''active''"
    and c: "colorNamed (st_next st) = c" and b: "bindActor st c actor = Inr st1"
    and pl: "place (state_board st1) p c = (True, b')"
  shows "abs_game (settle st1 b' p c actor) =
    (let gr = (grid (abs_game st))(p := c) in
       \<lparr>grid = gr, turn = opposite c, seat = (seat (abs_game st))(c := Some actor),
        outcome =
          (if line_of_five gr c then Some (Some actor)
           else if \<forall>q. point_valid q \<longrightarrow> gr q \<noteq> Empty then Some None else None)\<rparr>)"
proof -
  let ?st = "settle st1 b' p c actor"
  note pe = place_empty [OF pl]
  note s1 = go_bindActor_cases [OF b pe(3)]
  have st1: "st_board st1 = st_board st" "st_status st1 = ''active''"
    "st_black st1 = (if c = Black then Some actor else st_black st)"
    "st_white st1 = (if c = White then Some actor else st_white st)"
    using s1(1) act pe(3) by auto
  have l: "length (st_board st) = 225" using go_valid_state_board [OF v] by simp
  have c0: "c \<noteq> Empty" using pe(3) by auto
  have b': "color_at b' = (color_at (state_board st))(p := c)"
    unfolding pe(4) using grid_place [where b = "state_board st1" and p = p and c = c] l pe(1) st1 by simp
  have gr: "color_at (state_board ?st) = (color_at (state_board st))(p := c)"
    using color_at_cells [of "state_board ?st" b'] b' by (simp add: go_settle_sel)
  have five: "wins b' p c \<longleftrightarrow> line_of_five ((color_at (state_board st))(p := c)) c"
  proof -
    have "five b' c \<longleftrightarrow> wins b' p c"
      unfolding pe(4) using pe l st1 c0 go_valid_active(1,2) [OF v act]
      by (intro five_place_wins) (auto simp: no_five_def)
    then show ?thesis using five_line [OF c0, of b'] b' by simp
  qed
  have full: "stones b' = boardCells \<longleftrightarrow>
      (\<forall>q. point_valid q \<longrightarrow> ((color_at (state_board st))(p := c)) q \<noteq> Empty)"
  proof -
    have i: "nat (board_index p) < length (st_board st)" using board_index_bounds [OF pe(1)] l by (simp add: nat_less_iff)
    have "st_board st ! nat (board_index p) = Empty" using pe(2) by (simp add: color_at_state pe(1) st1)
    then have "stones b' = occupiedCells (cells b')"
      unfolding pe(4) using i c0 st1(1)
      by (simp add: occupiedCells_def filter_update_length)
    then show ?thesis
      using full_iff [of "cells b'" "stones b'"] b' pe(4) l st1(1)
      by (cases b') (simp add: boardCells_def BoardSize_def)
  qed
  have "turn (abs_game ?st) = opposite c"
    using pe(3) by (auto simp: abs_game_def go_settle_sel colorNamed_def colorString_def opposite_def)
  moreover have "actorForColor ?st = (actorForColor st)(c := Some actor)"
    using pe(3) st1 by (auto simp: actorForColor_def go_settle_sel fun_eq_iff)
  moreover have "(if st_status ?st = ''active'' then None else Some (st_winner ?st)) =
    (if wins b' p c then Some (Some actor) else if stones b' = boardCells then Some None else None)"
    using st1 by (simp add: settle_def Let_def)
  ultimately show ?thesis
    by (simp add: abs_game_def gr five full Let_def)
qed


lemma place_occupied: "place b p c = (True, b') \<Longrightarrow> \<not> occupied b p"
  by (auto simp: occupied_def place_def Let_def split: if_splits)

lemma go_moveState_iff:
  "moveState st actor p = Inr (c, st') \<longleftrightarrow>
     st_status st = ''active'' \<and> c = colorNamed (st_next st) \<and> c \<noteq> Empty \<and>
     (\<exists>st1 b'. bindActor st c actor = Inr st1 \<and> place (state_board st1) p c = (True, b') \<and>
        st' = settle st1 b' p c actor)" (is "?m \<longleftrightarrow> ?s")
proof
  show "?m \<Longrightarrow> ?s"
    by (auto simp: moveState_def Let_def split: if_splits prod.splits)
next
  assume ?s
  then obtain st1 b' where "bindActor st c actor = Inr st1" and p: "place (state_board st1) p c = (True, b')"
    by blast
  with \<open>?s\<close> place_occupied [OF p] show ?m by (simp add: moveState_def Let_def)
qed

lemma moveState_spec:
  assumes v: "valid_state rv st"
  shows "(\<exists>c st'. moveState st actor p = Inr (c, st') \<and> abs_game st' = g') \<longleftrightarrow>
    spec_move (abs_game st) actor p g'"
proof -
  let ?c = "colorNamed (st_next st)"
  have c: "?c = Black \<or> ?c = White"
    using go_valid_state_strings(2) [OF v] by (auto simp: colorNamed_def colorString_def)
  have vc: "validCounts rv st" using v by (simp add: valid_state_def)
  have dist: "actorForColor st ?c \<noteq> Some actor \<or> actorForColor st (opposite ?c) \<noteq> Some actor"
    using vc c by (auto simp: actorForColor_def opposite_def validCounts_def Let_def)
  have "(\<exists>c st'. moveState st actor p = Inr (c, st') \<and> abs_game st' = g') \<longleftrightarrow>
    st_status st = ''active'' \<and>
    (\<exists>st1. bindActor st ?c actor = Inr st1 \<and>
      (\<exists>b'. place (state_board st1) p ?c = (True, b') \<and> abs_game (settle st1 b' p ?c actor) = g'))"
    using c unfolding go_moveState_iff by auto
  also have "\<dots> \<longleftrightarrow> spec_move (abs_game st) actor p g'"
  proof (cases "st_status st = ''active'' \<and> (\<exists>st1. bindActor st ?c actor = Inr st1)")
    case True
    then obtain st1 where act: "st_status st = ''active''" and b: "bindActor st ?c actor = Inr st1" by auto
    have "st_board st1 = st_board st" using go_bindActor_cases(1) [OF b c] by (auto split: if_splits)
    with act b bindActor_iff [OF dist] show ?thesis
      using abs_settle [OF v act refl b] c
      by (auto simp: spec_move_def abs_game_sel place_iff)
  next
    case False
    then show ?thesis using bindActor_iff [OF dist] by (auto simp: spec_move_def abs_game_sel)
  qed
  finally show ?thesis .
qed

subsection \<open>Properties\<close>

text \<open>
  C1. Snapshot round trip: the bytes that \<open>marshalState\<close> writes for a state decode to that state
  exactly when the state satisfies the snapshot invariants (piece counts, seats, turn, outcome and
  lines of five); so no valid state is ever rejected by the 8192-byte limit, and no state that
  breaks an invariant is ever accepted.
\<close>

theorem gomoku_codec:
  "decodeSnapshot \<lparr>sn_revision = rv, sn_state = marshalState st\<rparr> = Inr st \<longleftrightarrow> valid_state rv st"
  using go_decode_encode go_decode_valid(1) by fastforce

text \<open>
  The win test after a move looks only along the four lines through the last stone; it agrees
  with the scan of the whole board by which snapshots are validated, and both hold exactly when
  the board has a line of five, provided there was none before.
\<close>

lemma gomoku_win_test:
  assumes "length (cells b) = 225" and "\<not> hasFive b c" and "place b p c = (True, b')"
  shows "(wins b' p c \<longleftrightarrow> hasFive b' c) \<and> (hasFive b' c \<longleftrightarrow> line_of_five (color_at b') c)"
proof -
  note pe = place_empty [OF assms(3)]
  have l: "length (cells b') = 225" using pe(4) assms(1) by simp
  have c: "c \<noteq> Empty" using pe(3) by auto
  have "five b' c \<longleftrightarrow> wins b' p c"
    unfolding pe(4) using pe(1,2) assms(1,2) c by (intro five_place_wins) (auto simp: hasFive_five)
  with l five_line [OF c, of b'] show ?thesis by (simp add: hasFive_five)
qed

lemma gomoku_win_test_witness:
  defines "b \<equiv> \<lparr>cells = replicate 225 Empty, stones = 0\<rparr>"
  shows "\<exists>b'. (wins b' (pt 7 7) Black \<longleftrightarrow> hasFive b' Black) \<and>
    (hasFive b' Black \<longleftrightarrow> line_of_five (color_at b') Black)"
proof -
  have "point_valid (pt 7 7)" by (simp add: point_valid_def BoardSize_def)
  then have "\<exists>b'. place b (pt 7 7) Black = (True, b')"
    by (simp add: place_iff b_def color_at_state nat_less_iff board_index_bounds)
  then obtain b' where b': "place b (pt 7 7) Black = (True, b')" by auto
  have n: "\<not> hasFive b Black"
    using go_valid_active(1) [OF go_valid_initial] five_stones [of "replicate 225 Empty" 0 Black "occupiedCells (replicate 225 Empty)"]
    by (simp add: b_def hasFive_five no_five_def initialState_def)
  show ?thesis using gomoku_win_test [OF _ n b'] by (auto simp: b_def)
qed

lemma apply_refines:
  assumes "decodeSnapshot sn = Inr st" and "validActorID actor"
    and "decodeMove payload = Some p"
  shows "(\<exists>e sn' st'. Apply sn actor \<lparr>act_type = MoveRequested, act_payload = payload\<rparr> = Inr (e, sn') \<and>
      decodeSnapshot sn' = Inr st' \<and> abs_game st' = g') \<longleftrightarrow>
    spec_move (abs_game st) actor p g'"
proof -
  note v = go_decode_valid [OF assms(1)]
  have "(\<exists>e sn' st'. applyMove sn actor p = Inr (e, sn') \<and> decodeSnapshot sn' = Inr st' \<and>
      abs_game st' = g') \<longleftrightarrow> (\<exists>c st'. moveState st actor p = Inr (c, st') \<and> abs_game st' = g')" (is "?l \<longleftrightarrow> ?r")
  proof
    assume ?l
    then obtain e sn' st' where m: "applyMove sn actor p = Inr (e, sn')" and d: "decodeSnapshot sn' = Inr st'"
      and g: "abs_game st' = g'" by auto
    from m assms(2) show ?r by (rule go_applyMove_valid) (use assms(1) d g in auto)
  next
    assume ?r
    then obtain c st' where m: "moveState st actor p = Inr (c, st')" and g: "abs_game st' = g'" by auto
    then have "\<exists>e sn'. applyMove sn actor p = Inr (e, sn')"
      using assms(1) by (simp add: applyMove_def Let_def)
    then obtain e sn' where a: "applyMove sn actor p = Inr (e, sn')" by auto
    from a assms(2) have "decodeSnapshot sn' = Inr st'" by (rule go_applyMove_valid) (use assms(1) m in auto)
    with a g show ?l by auto
  qed
  moreover have "spec_move (abs_game st) actor p g' \<Longrightarrow> point_valid p" by (simp add: spec_move_def)
  ultimately show ?thesis
    using assms v(2) moveState_spec [OF v(1), of actor p g'] by (auto simp: go_Apply_applyMove)
qed

text \<open>
  C2. Refinement of the rules: on a snapshot that decodes, a well-formed move request succeeds
  exactly when the abstract game allows the move (the game runs, the cell is on the board and
  empty, the actor holds the colour to move or takes the free seat and does not hold the other
  one), and the snapshot it returns decodes to the abstract successor, with win and draw decided
  over the whole grid.
\<close>

theorem gomoku_apply_refines:
  assumes "decodeSnapshot sn = Inr st" and "validActorID actor"
    and "decodeMove payload = Some p"
  shows "(\<exists>e sn' st'. Apply sn actor \<lparr>act_type = MoveRequested, act_payload = payload\<rparr> = Inr (e, sn') \<and>
      decodeSnapshot sn' = Inr st' \<and> abs_game st' = g') \<longleftrightarrow>
    spec_move (abs_game st) actor p g'"
  by (rule apply_refines [OF assms])

lemma first_move:
  defines "g \<equiv> abs_game initialState"
  shows "\<exists>g'. spec_move g ''alice'' (pt 7 7) g'"
    and "validActorID ''alice''" and "decodeMove (render (JObj (move_members (pt 7 7)))) = Some (pt 7 7)"
proof -
  have p: "point_valid (pt 7 7)" by (simp add: point_valid_def BoardSize_def)
  then show "decodeMove (render (JObj (move_members (pt 7 7)))) = Some (pt 7 7)" by (rule decodeMove_members)
  have "color_at (state_board initialState) (pt 7 7) = Empty"
    using board_index_bounds [OF p] p by (simp add: color_at_state initialState_def nat_less_iff)
  with p show "\<exists>g'. spec_move g ''alice'' (pt 7 7) g'"
    by (auto simp: g_def spec_move_def abs_game_def initialState_def actorForColor_def colorNamed_def
        colorString_def opposite_def)
  show "validActorID ''alice''" by (simp add: validActorID_def)
qed

theorem gomoku_apply_refines_witness:
  "\<exists>g' e sn' st'. Apply initialSnapshot ''alice''
      \<lparr>act_type = MoveRequested, act_payload = render (JObj (move_members (pt 7 7)))\<rparr> = Inr (e, sn') \<and>
    decodeSnapshot sn' = Inr st' \<and> abs_game st' = g'"
  using gomoku_apply_refines [OF go_decode_initial first_move(2,3)] first_move(1) by blast

text \<open>
  Errors of \<open>Apply\<close>: on a snapshot that decodes, a well-formed request for a point of the
  board fails only as follows. A finished game answers \<open>ErrInvalidAction\<close>; an actor who neither
  holds the colour to move nor can take its free seat gets \<open>ErrNotYourTurn\<close>, before the cell is
  looked at; an occupied cell gets \<open>ErrCellOccupied\<close>. Everything else succeeds.
\<close>

lemma gomoku_apply_errors:
  assumes "decodeSnapshot sn = Inr st" and "validActorID actor"
    and "decodeMove payload = Some p" and "point_valid p"
  defines "mine \<equiv> actorForColor st (colorNamed (st_next st)) = Some actor \<or>
      actorForColor st (colorNamed (st_next st)) = None \<and>
      actorForColor st (opposite (colorNamed (st_next st))) \<noteq> Some actor"
  shows "Apply sn actor \<lparr>act_type = MoveRequested, act_payload = payload\<rparr> = Inl err \<longleftrightarrow>
    (if st_status st \<noteq> ''active'' then err = ErrInvalidAction
     else if \<not> mine then err = GomokuNotYourTurn
     else color_at (state_board st) p \<noteq> Empty \<and> err = GomokuCellOccupied)"
proof -
  let ?c = "colorNamed (st_next st)"
  note v = go_decode_valid [OF assms(1)]
  have c: "?c = Black \<or> ?c = White"
    using go_valid_state_strings(2) [OF v(1)] by (auto simp: colorNamed_def colorString_def)
  have vc: "validCounts (sn_revision sn) st" using v by (simp add: valid_state_def)
  have dist: "actorForColor st ?c \<noteq> Some actor \<or> actorForColor st (opposite ?c) \<noteq> Some actor"
    using vc c by (auto simp: actorForColor_def opposite_def validCounts_def Let_def)
  have ap: "Apply sn actor \<lparr>act_type = MoveRequested, act_payload = payload\<rparr> = applyMove sn actor p"
    using assms v valid_state_revision(1) [OF v(1)] by (simp add: Apply_def Let_def)
  have err: "applyMove sn actor p = Inl err \<longleftrightarrow> moveState st actor p = Inl err"
    using assms(1) by (auto simp: applyMove_def and_then_Inl Let_def split: prod.splits)
  have bind: "bindActor st ?c actor = Inl e \<longleftrightarrow> \<not> mine \<and> e = GomokuNotYourTurn" for e
    using dist by (auto simp: bindActor_def mine_def split: option.splits)
  have seated: "st_board st1 = st_board st" if "bindActor st ?c actor = Inr st1" for st1
    using go_bindActor_cases(1) [OF that c] by (auto split: if_splits)
  show ?thesis
  proof (cases "st_status st = ''active'' \<and> mine")
    case True
    then obtain st1 where b: "bindActor st ?c actor = Inr st1"
      using bindActor_iff [OF dist] by (auto simp: mine_def)
    have "occupied (state_board st) p \<longleftrightarrow> color_at (state_board st) p \<noteq> Empty"
      using assms(4) by (simp add: occupied_iff)
    moreover have "\<not> occupied (state_board st) p \<Longrightarrow> \<exists>b'. place (state_board st) p ?c = (True, b')"
      using c assms(4) by (simp add: place_iff occupied_iff)
    ultimately show ?thesis
      using True b c seated [OF b] unfolding ap err
      by (cases "occupied (state_board st) p") (auto simp: moveState_def Let_def)
  next
    case False
    have "st_status st = ''active'' \<Longrightarrow> moveState st actor p = Inl GomokuNotYourTurn"
      using False bind [of GomokuNotYourTurn] c by (elim disjE) (simp_all add: moveState_def)
    moreover have "st_status st \<noteq> ''active'' \<Longrightarrow> moveState st actor p = Inl ErrInvalidAction"
      by (simp add: moveState_def)
    ultimately show ?thesis using False unfolding ap err by auto
  qed
qed

lemma gomoku_apply_errors_witness:
  "Apply initialSnapshot ''alice''
      \<lparr>act_type = MoveRequested, act_payload = render (JObj (move_members (pt 7 7)))\<rparr> \<noteq> Inl GomokuNotYourTurn"
proof -
  have "point_valid (pt 7 7)" by (simp add: point_valid_def BoardSize_def)
  from gomoku_apply_errors [OF go_decode_initial first_move(2,3) this] show ?thesis
    by (simp add: initialState_def colorNamed_def colorString_def opposite_def actorForColor_def)
qed

text \<open>
  C3. Event sourcing: \<open>Rebuild\<close> accepts a log of events exactly when the log can be played, every
  event being the one that \<open>Apply\<close> returned for some action of some actor on the snapshot
  before it, and it returns the snapshot that play reached.
\<close>

theorem gomoku_rebuild_iff_played:
  "int (length es) \<le> max_i64 \<Longrightarrow> Rebuild es = Inr sn \<longleftrightarrow> played accepts initialSnapshot es sn"
  unfolding Rebuild_def by (rule gomoku_log.rebuild_iff_played)

lemma first_event: "\<exists>e sn'. accepts initialSnapshot e sn'"
  using apply_refines [OF go_decode_initial first_move(2,3)] first_move(1) go_initial_nonempty
  unfolding accepts_def by blast

theorem gomoku_rebuild_iff_played_witness: "\<exists>e sn. Rebuild [e] = Inr sn"
proof -
  obtain e sn where "accepts initialSnapshot e sn" using first_event by auto
  then have "played accepts initialSnapshot ([] @ [e]) sn"
    by (intro played_step [OF played_start])
  with gomoku_rebuild_iff_played [of "[e]" sn] show ?thesis by (auto simp: max_i64_def)
qed

text \<open>
  Invariant of all play: every snapshot that a log of accepted moves reaches decodes, satisfies
  the snapshot invariants, and carries the number of moves as its revision; no log is longer than
  the 225 cells of the board.
\<close>

lemma gomoku_reachable_valid:
  "played accepts initialSnapshot es sn \<Longrightarrow>
     sn_revision sn = int (length es) \<and> length es \<le> 225 \<and>
     (\<exists>st. decodeSnapshot sn = Inr st \<and> valid_state (int (length es)) st)"
proof (induction rule: played.induct)
  case played_start
  then show ?case using go_decode_initial go_valid_initial by (simp add: initialSnapshot_def)
next
  case (played_step es sn e sn')
  from played_step.hyps(2) obtain actor p where a: "validActorID actor"
    and m: "applyMove sn actor p = Inr (e, sn')" by (auto simp: go_accepts_applyMove)
  from m a show ?case
    by (rule go_applyMove_valid) (use played_step.IH in \<open>auto simp: add.commute\<close>)
qed

lemma gomoku_reachable_valid_witness: "\<exists>st. decodeSnapshot initialSnapshot = Inr st \<and> valid_state 0 st"
  using gomoku_reachable_valid [OF played_start] by simp

end
