(* ===== verification/Reversi.thy ===== *)
theory Reversi
  imports GameApi
begin

text \<open>
  Reversi (\<open>server/internal/games/reversi/rules.go\<close>): flips and legal moves, the snapshot codec
  with its validation, and the rules \<open>Apply\<close> and \<open>Rebuild\<close> with forced passes. A board is the
  list of its 64 cells, 0 empty, 1 black, 2 white.
\<close>

subsection \<open>The board\<close>

definition GameID :: bytes where "GameID = ''reversi''"
definition BoardSize :: int where "BoardSize = 8"
definition MoveRequested :: bytes where "MoveRequested = ''reversi.move.requested''"
definition MoveAccepted :: bytes where "MoveAccepted = ''reversi.move.accepted''"

record point =
  PX :: int
  PY :: int

definition pt :: "int \<Rightarrow> int \<Rightarrow> point" where
  "pt x y = \<lparr>PX = x, PY = y\<rparr>"

definition colorName :: "nat \<Rightarrow> bytes" where
  "colorName c = (if c = 1 then ''black'' else ''white'')"

definition colorValue :: "bytes \<Rightarrow> nat" where
  "colorValue c = (if c = ''black'' then 1 else if c = ''white'' then 2 else 0)"

definition inside :: "int \<Rightarrow> int \<Rightarrow> bool" where
  "inside x y \<longleftrightarrow> x \<ge> 0 \<and> x < 8 \<and> y \<ge> 0 \<and> y < 8"

definition cell :: "nat list \<Rightarrow> int \<Rightarrow> int \<Rightarrow> nat" where
  "cell b x y = b ! nat (y * 8 + x)"

text \<open>
  The inner loop of \<open>flips\<close>: the opponent's stones from a cell along a direction, and the cell the
  scan stops at. It leaves the board after at most 8 steps, the fuel \<open>flips\<close> gives it.
\<close>

fun scan :: "nat \<Rightarrow> nat list \<Rightarrow> nat \<Rightarrow> int \<Rightarrow> int \<Rightarrow> int \<Rightarrow> int \<Rightarrow> nat list \<times> int \<times> int" where
  "scan 0 b opp x y dx dy = ([], x, y)"
| "scan (Suc n) b opp x y dx dy =
     (if inside x y \<and> cell b x y = opp
      then (case scan n b opp (x + dx) (y + dy) dx dy of (line, ex, ey) \<Rightarrow> (nat (y * 8 + x) # line, ex, ey))
      else ([], x, y))"

definition line_flips :: "nat list \<Rightarrow> point \<Rightarrow> nat \<Rightarrow> int \<Rightarrow> int \<Rightarrow> nat list" where
  "line_flips b p c dx dy =
     (case scan 8 b (3 - c) (PX p + dx) (PY p + dy) dx dy of
        (line, x, y) \<Rightarrow> if length line > 0 \<and> inside x y \<and> cell b x y = c then line else [])"

definition flips :: "nat list \<Rightarrow> point \<Rightarrow> nat \<Rightarrow> nat list" where
  "flips b p c =
     (if PX p < 0 \<or> PX p \<ge> 8 \<or> PY p < 0 \<or> PY p \<ge> 8 \<or> cell b (PX p) (PY p) \<noteq> 0 then []
      else concat (map (\<lambda>dy. concat (map (\<lambda>dx.
        if dx = 0 \<and> dy = 0 then [] else line_flips b p c dx dy) [-1, 0, 1])) [-1, 0, 1]))"

definition legal :: "nat list \<Rightarrow> nat \<Rightarrow> point list" where
  "legal b c =
     concat (map (\<lambda>y. concat (map (\<lambda>x.
       if length (flips b (pt x y) c) > 0 then [pt x y] else []) [0, 1, 2, 3, 4, 5, 6, 7]))
       [0, 1, 2, 3, 4, 5, 6, 7])"

subsection \<open>Snapshots\<close>

record state =
  st_status :: bytes
  st_board :: "nat list"
  st_boardSize :: int
  st_black :: "bytes option"
  st_white :: "bytes option"
  st_next :: bytes
  st_winner :: "bytes option"
  st_result :: "bytes option"
  st_legal :: "point list"
  st_blackCount :: int
  st_whiteCount :: int
  st_passed :: "bytes option"
  st_last :: "point option"

definition counts :: "state \<Rightarrow> state" where
  "counts s = s\<lparr>st_blackCount := int (count_list (st_board s) 1),
     st_whiteCount := int (count_list (st_board s) 2)\<rparr>"

definition point_members :: "point \<Rightarrow> (bytes \<times> json) list" where
  "point_members p = [(''x'', jint (PX p)), (''y'', jint (PY p))]"

definition point_json :: "point \<Rightarrow> json" where
  "point_json p = JObj (point_members p)"

definition points_json :: "point list \<Rightarrow> json" where
  "points_json ps = JArr (map point_json ps)"

definition state_members :: "state \<Rightarrow> (bytes \<times> json) list" where
  "state_members s =
     [(''status'', JStr (st_status s)),
      (''board'', JArr (map (\<lambda>c. jint (int c)) (st_board s))),
      (''boardSize'', jint (st_boardSize s)),
      (''blackUserId'', jptr JStr (st_black s)),
      (''whiteUserId'', jptr JStr (st_white s)),
      (''nextColor'', JStr (st_next s)),
      (''winnerUserId'', jptr JStr (st_winner s)),
      (''result'', jptr JStr (st_result s)),
      (''legalMoves'', points_json (st_legal s)),
      (''blackCount'', jint (st_blackCount s)),
      (''whiteCount'', jint (st_whiteCount s)),
      (''passedColor'', jptr JStr (st_passed s)),
      (''lastMove'', jptr point_json (st_last s))]"

definition state_names :: "bytes list" where
  "state_names = [''status'', ''board'', ''boardSize'', ''blackUserId'', ''whiteUserId'',
     ''nextColor'', ''winnerUserId'', ''result'', ''legalMoves'', ''blackCount'', ''whiteCount'',
     ''passedColor'', ''lastMove'']"

definition marshalState :: "state \<Rightarrow> bytes" where
  "marshalState s = render (JObj (state_members s))"

definition dec_point :: "json \<Rightarrow> point \<Rightarrow> point option" where
  "dec_point j cur = do {
     kvs \<leftarrow> obj_fields j;
     x \<leftarrow> dec_field [''x'', ''y''] kvs ''x'' dec_int (PX cur);
     y \<leftarrow> dec_field [''x'', ''y''] kvs ''y'' dec_int (PY cur);
     Some (pt x y) }"

text \<open>\<open>json.Unmarshal(snapshot.State, &s)\<close>: unknown members would be ignored.\<close>

definition unmarshalState :: "bytes \<Rightarrow> state option" where
  "unmarshalState data = do {
     j \<leftarrow> json_parse data;
     kvs \<leftarrow> obj_fields j;
     status \<leftarrow> dec_field state_names kvs ''status'' dec_string '''';
     brd \<leftarrow> dec_field state_names kvs ''board'' (dec_array 64 dec_uint8 0) (replicate 64 0);
     size \<leftarrow> dec_field state_names kvs ''boardSize'' dec_int 0;
     black \<leftarrow> dec_field state_names kvs ''blackUserId'' (dec_ptr dec_string '''') None;
     white \<leftarrow> dec_field state_names kvs ''whiteUserId'' (dec_ptr dec_string '''') None;
     nxt \<leftarrow> dec_field state_names kvs ''nextColor'' dec_string '''';
     winner \<leftarrow> dec_field state_names kvs ''winnerUserId'' (dec_ptr dec_string '''') None;
     result \<leftarrow> dec_field state_names kvs ''result'' (dec_ptr dec_string '''') None;
     moves \<leftarrow> dec_field state_names kvs ''legalMoves'' (dec_slice dec_point (pt 0 0)) [];
     bc \<leftarrow> dec_field state_names kvs ''blackCount'' dec_int 0;
     wc \<leftarrow> dec_field state_names kvs ''whiteCount'' dec_int 0;
     passed \<leftarrow> dec_field state_names kvs ''passedColor'' (dec_ptr dec_string '''') None;
     last \<leftarrow> dec_field state_names kvs ''lastMove'' (dec_ptr dec_point (pt 0 0)) None;
     Some \<lparr>st_status = status, st_board = brd, st_boardSize = size, st_black = black,
           st_white = white, st_next = nxt, st_winner = winner, st_result = result,
           st_legal = moves, st_blackCount = bc, st_whiteCount = wc, st_passed = passed,
           st_last = last\<rparr> }"

definition initialBoard :: "nat list" where
  "initialBoard = (((replicate 64 0)[27 := 2, 36 := 2])[28 := 1, 35 := 1])"

definition initialState :: state where
  "initialState = counts \<lparr>st_status = ''active'', st_board = initialBoard, st_boardSize = 8,
     st_black = None, st_white = None, st_next = ''black'', st_winner = None, st_result = None,
     st_legal = legal initialBoard 1, st_blackCount = 0, st_whiteCount = 0, st_passed = None,
     st_last = None\<rparr>"

definition initial :: snapshot where
  "initial = \<lparr>sn_revision = 0, sn_state = marshalState initialState\<rparr>"

definition validSeats :: "state \<Rightarrow> bool" where
  "validSeats s \<longleftrightarrow>
     \<not> (st_boardSize s \<noteq> 8 \<or> \<not> validOptionalActor (st_black s) \<or> \<not> validOptionalActor (st_white s) \<or>
        st_black s \<noteq> None \<and> st_white s \<noteq> None \<and> st_black s = st_white s)"

definition validHistory :: "snapshot \<Rightarrow> state \<Rightarrow> bool" where
  "validHistory sn s \<longleftrightarrow>
     (if sn_revision sn = 0 then sn_state sn = sn_state initial
      else \<not> (st_black s = None \<or> (sn_revision sn \<ge> 2 \<and> st_white s = None) \<or> st_last s = None) \<and>
        (case st_last s of None \<Rightarrow> True
         | Some p \<Rightarrow> \<not> (PX p < 0 \<or> PX p \<ge> 8 \<or> PY p < 0 \<or> PY p \<ge> 8 \<or> cell (st_board s) (PX p) (PY p) = 0)))"

definition validPass :: "state \<Rightarrow> bool" where
  "validPass s \<longleftrightarrow>
     (case st_passed s of None \<Rightarrow> True
      | Some c \<Rightarrow> \<not> (st_status s \<noteq> ''active'' \<or> c = st_next s \<or> colorValue c = 0 \<or>
          length (legal (st_board s) (colorValue c)) \<noteq> 0))"

definition validCounts :: "int \<Rightarrow> state \<Rightarrow> bool" where
  "validCounts revision s \<longleftrightarrow>
     \<not> (st_blackCount s \<noteq> st_blackCount (counts s) \<or> st_whiteCount s \<noteq> st_whiteCount (counts s) \<or>
        i64 (st_blackCount s + st_whiteCount s) \<noteq> i64 (revision + 4))"

definition validOutcome :: "state \<Rightarrow> bool" where
  "validOutcome s \<longleftrightarrow>
     (let b = st_blackCount s; w = st_whiteCount s in
      if st_status s = ''active'' then
        (let c = colorValue (st_next s); want = legal (st_board s) c in
         \<not> (c = 0 \<or> st_result s \<noteq> None \<or> st_winner s \<noteq> None) \<and>
         \<not> (length want = 0 \<or> render (points_json want) \<noteq> render (points_json (st_legal s))))
      else if st_status s = ''finished'' then
        \<not> (st_next s \<noteq> '''' \<or> st_result s = None \<or> length (st_legal s) \<noteq> 0 \<or>
           length (legal (st_board s) 1) \<noteq> 0 \<or> length (legal (st_board s) 2) \<noteq> 0) \<and>
        (if b = w then \<not> (st_result s \<noteq> Some ''draw'' \<or> st_winner s \<noteq> None)
         else (let winner = (if w > b then st_white s else st_black s) in
           \<not> (st_result s \<noteq> Some ''majority'' \<or> winner = None \<or> st_winner s = None \<or>
              winner \<noteq> st_winner s)))
      else False)"

definition decodeSnapshot :: "snapshot \<Rightarrow> game_error + state" where
  "decodeSnapshot sn =
     or_fail (do {
       fields \<leftarrow> strict_object state_names (sn_state sn);
       (if length fields = length state_names \<and> \<not> sn_revision sn < 0 \<and> \<not> sn_revision sn > 60
        then Some () else None);
       brd \<leftarrow> unmarshal (dec_slice dec_int 0) [] (the (map_of fields ''board''));
       (if length brd = 64 \<and> list_all (\<lambda>c. \<not> (c < 0 \<or> c > 2)) brd then Some () else None);
       s \<leftarrow> unmarshalState (sn_state sn);
       (if validSeats s \<and> validHistory sn s \<and> validPass s \<and> validCounts (sn_revision sn) s \<and>
           validOutcome s
        then Some (counts s) else None)
     }) ErrInvalidSnapshot"

subsection \<open>Rules\<close>

text \<open>The turn after a move of colour \<open>c\<close>: the opponent moves, or passes, or the game is over.\<close>

definition nextTurn :: "state \<Rightarrow> nat \<Rightarrow> state" where
  "nextTurn s c =
     (let s1 = s\<lparr>st_passed := None, st_next := colorName (3 - c), st_legal := legal (st_board s) (3 - c)\<rparr> in
      if length (st_legal s1) = 0 then
        (let s2 = s1\<lparr>st_legal := legal (st_board s) c\<rparr> in
         if length (st_legal s2) > 0 then s2\<lparr>st_passed := Some (st_next s1), st_next := colorName c\<rparr>
         else s2\<lparr>st_status := ''finished'', st_next := '''',
            st_result := Some (if st_blackCount s \<noteq> st_whiteCount s then ''majority'' else ''draw''),
            st_winner := (if st_blackCount s \<noteq> st_whiteCount s
              then (if st_whiteCount s > st_blackCount s then st_white s else st_black s)
              else st_winner s)\<rparr>)
      else s1)"

definition moveState :: "state \<Rightarrow> bytes \<Rightarrow> point \<Rightarrow> game_error + state" where
  "moveState s actor p =
     (if st_status s \<noteq> ''active'' then Inl ErrInvalidAction
      else
        let c = colorValue (st_next s);
            own = (if c = 2 then st_white s else st_black s);
            other = (if c = 2 then st_black s else st_white s)
        in if own \<noteq> None \<and> own \<noteq> Some actor \<or> own = None \<and> other = Some actor
           then Inl ReversiNotYourTurn
           else let changed = flips (st_board s) p c in
             if length changed = 0 then Inl ErrInvalidAction
             else let s1 = (if c = 2 then s\<lparr>st_white := Some actor\<rparr> else s\<lparr>st_black := Some actor\<rparr>);
                      b1 = (st_board s)[nat (PY p * 8 + PX p) := c];
                      b2 = foldl (\<lambda>b i. b[i := c]) b1 changed
                  in Inr (nextTurn ((counts (s1\<lparr>st_board := b2\<rparr>))\<lparr>st_last := Some p\<rparr>) c))"

definition accepted_members :: "point \<Rightarrow> nat \<Rightarrow> bytes \<Rightarrow> (bytes \<times> json) list" where
  "accepted_members p c actor =
     [(''x'', jint (PX p)), (''y'', jint (PY p)), (''color'', JStr (colorName c)), (''userId'', JStr actor)]"

definition acceptedPayload :: "point \<Rightarrow> nat \<Rightarrow> bytes \<Rightarrow> bytes" where
  "acceptedPayload p c actor = render (JObj (accepted_members p c actor))"

definition decodeMove :: "bytes \<Rightarrow> point option" where
  "decodeMove payload =
     (if length payload > 1024 \<or> \<not> utf8_valid payload then None
      else do {
        fields \<leftarrow> strict_object [''x'', ''y''] payload;
        (if length fields = 2 then Some () else None);
        x \<leftarrow> decodeInteger (the (map_of fields ''x''));
        y \<leftarrow> decodeInteger (the (map_of fields ''y''));
        Some (pt x y) })"

definition Apply :: "snapshot \<Rightarrow> bytes \<Rightarrow> action \<Rightarrow> game_error + event \<times> snapshot" where
  "Apply sn actor act =
     (if act_type act \<noteq> MoveRequested \<or> \<not> validActorID actor then Inl ErrInvalidAction
      else case decodeMove (act_payload act) of
        None \<Rightarrow> Inl ErrInvalidAction
      | Some p \<Rightarrow>
          let sn' = (if sn_state sn = [] \<and> sn_revision sn = 0 then initial else sn) in
          and_then (decodeSnapshot sn') (\<lambda>s.
          and_then (moveState s actor p) (\<lambda>s'.
            let rv = i64 (sn_revision sn' + 1) in
            Inr (\<lparr>ev_revision = rv, ev_type = MoveAccepted, ev_actor = actor,
                  ev_payload = acceptedPayload p (colorValue (st_next s)) actor\<rparr>,
                 \<lparr>sn_revision = rv, sn_state = marshalState s'\<rparr>))))"

text \<open>The target of a move, read back from an accepted event by \<open>json.Unmarshal\<close>.\<close>

definition decodeAccepted :: "bytes \<Rightarrow> point option" where
  "decodeAccepted payload = do {
     j \<leftarrow> json_parse payload;
     kvs \<leftarrow> obj_fields j;
     x \<leftarrow> dec_field [''x'', ''y'', ''color'', ''userId''] kvs ''x'' dec_int 0;
     y \<leftarrow> dec_field [''x'', ''y'', ''color'', ''userId''] kvs ''y'' dec_int 0;
     c \<leftarrow> dec_field [''x'', ''y'', ''color'', ''userId''] kvs ''color'' dec_string '''';
     u \<leftarrow> dec_field [''x'', ''y'', ''color'', ''userId''] kvs ''userId'' dec_string '''';
     Some (pt x y) }"

definition rebuildBody :: "int \<Rightarrow> event \<Rightarrow> snapshot \<Rightarrow> game_error + snapshot" where
  "rebuildBody i e sn =
     (if ev_revision e \<noteq> i + 1 \<or> ev_type e \<noteq> MoveAccepted then Inl ErrInvalidEvent
      else case decodeAccepted (ev_payload e) of
        None \<Rightarrow> Inl ErrInvalidEvent
      | Some p \<Rightarrow>
          (case Apply sn (ev_actor e)
             \<lparr>act_type = MoveRequested, act_payload = render (point_json p)\<rparr> of
             Inl _ \<Rightarrow> Inl ErrInvalidEvent
           | Inr (produced, nxt) \<Rightarrow>
               if ev_payload produced \<noteq> ev_payload e then Inl ErrInvalidEvent else Inr nxt))"

definition Rebuild :: "event list \<Rightarrow> game_error + snapshot" where
  "Rebuild events = rebuild_loop rebuildBody 0 events initial"

subsection \<open>Flips are the outflanked stones\<close>

text \<open>
  The rule of the game: a stone of colour \<open>c\<close> on an empty cell \<open>p\<close> outflanks the cells that lie
  on a line between \<open>p\<close> and another stone of colour \<open>c\<close>, all of them the opponent's.
\<close>

definition holds :: "nat list \<Rightarrow> point \<Rightarrow> int \<Rightarrow> int \<Rightarrow> int \<Rightarrow> nat \<Rightarrow> bool" where
  "holds b p k dx dy c \<longleftrightarrow>
     inside (PX p + k * dx) (PY p + k * dy) \<and> cell b (PX p + k * dx) (PY p + k * dy) = c"

definition outflanked :: "nat list \<Rightarrow> point \<Rightarrow> nat \<Rightarrow> point \<Rightarrow> bool" where
  "outflanked b p c q \<longleftrightarrow>
     (\<exists>dx\<in>{-1, 0, 1}. \<exists>dy\<in>{-1, 0, 1}. (dx, dy) \<noteq> (0, 0) \<and>
       (\<exists>k m. 1 \<le> k \<and> k < m \<and> q = pt (PX p + k * dx) (PY p + k * dy) \<and>
         (\<forall>j\<in>{1..<m}. holds b p j dx dy (3 - c)) \<and> holds b p m dx dy c))"

lemma rv_pt_sel [simp]: "PX (pt x y) = x" "PY (pt x y) = y" "pt (PX p) (PY p) = p"
    "pt x y = pt x' y' \<longleftrightarrow> x = x' \<and> y = y'"
  by (simp_all add: pt_def)

lemma scan_spec:
  assumes "scan n b opp x y dx dy = (line, ex, ey)"
  shows "\<exists>k\<le>n. line = map (\<lambda>j. nat ((y + int j * dy) * 8 + (x + int j * dx))) [0..<k] \<and>
    ex = x + int k * dx \<and> ey = y + int k * dy \<and>
    (\<forall>j<k. inside (x + int j * dx) (y + int j * dy) \<and> cell b (x + int j * dx) (y + int j * dy) = opp) \<and>
    (k < n \<longrightarrow> \<not> (inside ex ey \<and> cell b ex ey = opp))"
  using assms
proof (induction n arbitrary: x y line)
  case (Suc n)
  show ?case
  proof (cases "inside x y \<and> cell b x y = opp")
    case True
    obtain l where s: "scan n b opp (x + dx) (y + dy) dx dy = (l, ex, ey)"
      and line: "line = nat (y * 8 + x) # l"
      using Suc.prems True by (auto split: prod.splits)
    from Suc.IH [OF s] obtain k where k: "k \<le> n"
      and l: "l = map (\<lambda>j. nat ((y + dy + int j * dy) * 8 + (x + dx + int j * dx))) [0..<k]"
      and e: "ex = x + dx + int k * dx" "ey = y + dy + int k * dy"
      and a: "\<forall>j<k. inside (x + dx + int j * dx) (y + dy + int j * dy) \<and>
          cell b (x + dx + int j * dx) (y + dy + int j * dy) = opp"
      and z: "k < n \<longrightarrow> \<not> (inside ex ey \<and> cell b ex ey = opp)" by auto
    have sh: "u + int (Suc j) * d = u + d + int j * d" for u d :: int and j by (simp add: algebra_simps)
    have up: "[0..<Suc k] = 0 # map Suc [0..<k]" by (simp add: map_Suc_upt upt_conv_Cons)
    have "line = map (\<lambda>j. nat ((y + int j * dy) * 8 + (x + int j * dx))) [0..<Suc k]"
      unfolding up line l by (simp add: algebra_simps)
    moreover have "\<forall>j<Suc k. inside (x + int j * dx) (y + int j * dy) \<and>
        cell b (x + int j * dx) (y + int j * dy) = opp"
      using True a unfolding All_less_Suc2 sh by simp
    ultimately show ?thesis
      using k e z by (intro exI [of _ "Suc k"]) (simp add: sh del: of_nat_Suc)
  next
    case False
    with Suc.prems show ?thesis by (intro exI [of _ 0]) auto
  qed
qed simp

lemma inside_bound:
  assumes "inside (PX p) (PY p)" and "inside (PX p + k * dx) (PY p + k * dy)"
    and "dx \<in> {-1, 0, 1}" and "dy \<in> {-1, 0, 1}" and "(dx, dy) \<noteq> (0, 0)"
  shows "k < 8"
  using assms by (auto simp: inside_def)

text \<open>The scan of one direction, as a bracket: the number \<open>m\<close> of the closing stone is unique.\<close>

lemma line_flips_iff:
  assumes p: "inside (PX p) (PY p)" and d: "dx \<in> {-1, 0, 1}" "dy \<in> {-1, 0, 1}" "(dx, dy) \<noteq> (0, 0)"
    and c: "c = 1 \<or> c = 2"
  shows "i \<in> set (line_flips b p c dx dy) \<longleftrightarrow>
    (\<exists>k m. 1 \<le> k \<and> k < m \<and> i = nat ((PY p + k * dy) * 8 + (PX p + k * dx)) \<and>
       (\<forall>j\<in>{1..<m}. holds b p j dx dy (3 - c)) \<and> holds b p m dx dy c)"
proof -
  obtain line ex ey where s: "scan 8 b (3 - c) (PX p + dx) (PY p + dy) dx dy = (line, ex, ey)"
    by (cases "scan 8 b (3 - c) (PX p + dx) (PY p + dy) dx dy") auto
  have sh: "u + d + int j * d = u + (int j + 1) * d" for u d :: int and j by (simp add: algebra_simps)
  from scan_spec [OF s] obtain n where n: "n \<le> 8"
    and line: "line = map (\<lambda>j. nat ((PY p + (int j + 1) * dy) * 8 + (PX p + (int j + 1) * dx))) [0..<n]"
    and e: "ex = PX p + (int n + 1) * dx" "ey = PY p + (int n + 1) * dy"
    and a: "\<And>j. j < n \<Longrightarrow> holds b p (int j + 1) dx dy (3 - c)"
    and z: "n < 8 \<longrightarrow> \<not> (inside ex ey \<and> cell b ex ey = 3 - c)"
    unfolding sh holds_def by auto
  have n8: "n < 8"
  proof (rule ccontr)
    assume "\<not> n < 8"
    with a [of 7] have "inside (PX p + 8 * dx) (PY p + 8 * dy)" by (simp add: holds_def)
    with inside_bound [OF p _ d, of 8] show False by simp
  qed
  then have z: "\<not> holds b p (int n + 1) dx dy (3 - c)" using z e by (simp add: holds_def)
  have all: "\<forall>j\<in>{1..<int n + 1}. holds b p j dx dy (3 - c)"
  proof
    fix j assume "j \<in> {1..<int n + 1}"
    then have "nat (j - 1) < n" and "int (nat (j - 1)) + 1 = j" by auto
    with a show "holds b p j dx dy (3 - c)" by metis
  qed
  have close: "length line > 0 \<and> inside ex ey \<and> cell b ex ey = c \<longleftrightarrow> n > 0 \<and> holds b p (int n + 1) dx dy c"
    by (simp add: line e holds_def)
  have mem: "i \<in> set line \<longleftrightarrow> (\<exists>k. 1 \<le> k \<and> k < int n + 1 \<and> i = nat ((PY p + k * dy) * 8 + (PX p + k * dx)))"
  proof
    assume "i \<in> set line"
    then obtain j where "j < n" "i = nat ((PY p + (int j + 1) * dy) * 8 + (PX p + (int j + 1) * dx))"
      by (auto simp: line)
    then show "\<exists>k. 1 \<le> k \<and> k < int n + 1 \<and> i = nat ((PY p + k * dy) * 8 + (PX p + k * dx))"
      by (intro exI [of _ "int j + 1"]) simp
  next
    assume "\<exists>k. 1 \<le> k \<and> k < int n + 1 \<and> i = nat ((PY p + k * dy) * 8 + (PX p + k * dx))"
    then obtain k where k: "1 \<le> k" "k < int n + 1" "i = nat ((PY p + k * dy) * 8 + (PX p + k * dx))" by auto
    then have "nat (k - 1) < n" "int (nat (k - 1)) + 1 = k" by auto
    with k show "i \<in> set line" unfolding line by (auto intro!: image_eqI [of _ _ "nat (k - 1)"])
  qed
  have uniq: "m = int n + 1" if "1 < m" "\<forall>j\<in>{1..<m}. holds b p j dx dy (3 - c)" "holds b p m dx dy c" for m
  proof (rule linorder_cases [of m "int n + 1"])
    assume "m < int n + 1"
    with all that have "holds b p m dx dy (3 - c)" by auto
    with that(3) c show ?thesis by (auto simp: holds_def)
  next
    assume "m > int n + 1"
    with that z show ?thesis by auto
  qed
  show ?thesis
  proof
    assume "i \<in> set (line_flips b p c dx dy)"
    then have i: "i \<in> set line" and "length line > 0 \<and> inside ex ey \<and> cell b ex ey = c"
      by (auto simp: line_flips_def s split: if_splits)
    with close all mem show "\<exists>k m. 1 \<le> k \<and> k < m \<and> i = nat ((PY p + k * dy) * 8 + (PX p + k * dx)) \<and>
       (\<forall>j\<in>{1..<m}. holds b p j dx dy (3 - c)) \<and> holds b p m dx dy c" by blast
  next
    assume "\<exists>k m. 1 \<le> k \<and> k < m \<and> i = nat ((PY p + k * dy) * 8 + (PX p + k * dx)) \<and>
       (\<forall>j\<in>{1..<m}. holds b p j dx dy (3 - c)) \<and> holds b p m dx dy c"
    then obtain k m where k: "1 \<le> k" "k < m" "i = nat ((PY p + k * dy) * 8 + (PX p + k * dx))"
      and m: "\<forall>j\<in>{1..<m}. holds b p j dx dy (3 - c)" "holds b p m dx dy c" by auto
    from uniq [OF _ m] k have "m = int n + 1" by simp
    with k m mem close show "i \<in> set (line_flips b p c dx dy)"
      by (auto simp: line_flips_def s)
  qed
qed

lemma flips_iff:
  assumes c: "c = 1 \<or> c = 2"
  shows "i \<in> set (flips b p c) \<longleftrightarrow> inside (PX p) (PY p) \<and> cell b (PX p) (PY p) = 0 \<and>
    (\<exists>q. outflanked b p c q \<and> i = nat (PY q * 8 + PX q))"
proof (cases "inside (PX p) (PY p) \<and> cell b (PX p) (PY p) = 0")
  case True
  let ?D = "{-1, 0, 1 :: int}"
  have "i \<in> set (flips b p c) \<longleftrightarrow>
      (\<exists>dx\<in>?D. \<exists>dy\<in>?D. (dx, dy) \<noteq> (0, 0) \<and> i \<in> set (line_flips b p c dx dy))"
    using True by (auto simp: flips_def inside_def)
  also have "\<dots> \<longleftrightarrow> (\<exists>dx\<in>?D. \<exists>dy\<in>?D. (dx, dy) \<noteq> (0, 0) \<and>
    (\<exists>k m. 1 \<le> k \<and> k < m \<and> i = nat ((PY p + k * dy) * 8 + (PX p + k * dx)) \<and>
       (\<forall>j\<in>{1..<m}. holds b p j dx dy (3 - c)) \<and> holds b p m dx dy c))"
    using line_flips_iff [OF conjunct1 [OF True] _ _ _ c] by (intro bex_cong conj_cong refl) blast
  also have "\<dots> \<longleftrightarrow> (\<exists>q. outflanked b p c q \<and> i = nat (PY q * 8 + PX q))"
  proof
    assume "\<exists>dx\<in>?D. \<exists>dy\<in>?D. (dx, dy) \<noteq> (0, 0) \<and>
      (\<exists>k m. 1 \<le> k \<and> k < m \<and> i = nat ((PY p + k * dy) * 8 + (PX p + k * dx)) \<and>
       (\<forall>j\<in>{1..<m}. holds b p j dx dy (3 - c)) \<and> holds b p m dx dy c)"
    then obtain dx dy k m where d: "dx \<in> ?D" "dy \<in> ?D" "(dx, dy) \<noteq> (0, 0)"
      and k: "1 \<le> k" "k < m" and i: "i = nat ((PY p + k * dy) * 8 + (PX p + k * dx))"
      and h: "\<forall>j\<in>{1..<m}. holds b p j dx dy (3 - c)" "holds b p m dx dy c" by blast
    have "outflanked b p c (pt (PX p + k * dx) (PY p + k * dy))"
      unfolding outflanked_def using d k h by blast
    with i show "\<exists>q. outflanked b p c q \<and> i = nat (PY q * 8 + PX q)"
      by (intro exI [of _ "pt (PX p + k * dx) (PY p + k * dy)"]) simp
  next
    assume "\<exists>q. outflanked b p c q \<and> i = nat (PY q * 8 + PX q)"
    then obtain q dx dy k m where i: "i = nat (PY q * 8 + PX q)"
      and d: "dx \<in> ?D" "dy \<in> ?D" "(dx, dy) \<noteq> (0, 0)"
      and k: "1 \<le> k" "k < m" and q: "q = pt (PX p + k * dx) (PY p + k * dy)"
      and h: "\<forall>j\<in>{1..<m}. holds b p j dx dy (3 - c)" "holds b p m dx dy c"
      unfolding outflanked_def by blast
    from i q have "i = nat ((PY p + k * dy) * 8 + (PX p + k * dx))" by simp
    with d k h show "\<exists>dx\<in>?D. \<exists>dy\<in>?D. (dx, dy) \<noteq> (0, 0) \<and>
      (\<exists>k m. 1 \<le> k \<and> k < m \<and> i = nat ((PY p + k * dy) * 8 + (PX p + k * dx)) \<and>
       (\<forall>j\<in>{1..<m}. holds b p j dx dy (3 - c)) \<and> holds b p m dx dy c)" by blast
  qed
  finally show ?thesis using True by simp
next
  case False
  then show ?thesis by (auto simp: flips_def inside_def)
qed

lemma inside_range: "inside x y \<longleftrightarrow> x \<in> {0, 1, 2, 3, 4, 5, 6, 7} \<and> y \<in> {0, 1, 2, 3, 4, 5, 6, 7}"
  by (auto simp: inside_def)

lemma set_concat_if:
  "q \<in> set (concat (map (\<lambda>y. concat (map (\<lambda>x. if P x y then [f x y] else []) xs)) ys)) \<longleftrightarrow>
     (\<exists>x\<in>set xs. \<exists>y\<in>set ys. P x y \<and> q = f x y)"
  by (auto split: if_splits)

lemma legal_iff: "q \<in> set (legal b c) \<longleftrightarrow> inside (PX q) (PY q) \<and> flips b q c \<noteq> []"
proof -
  have "q \<in> set (legal b c) \<longleftrightarrow>
      (\<exists>x\<in>{0, 1, 2, 3, 4, 5, 6, 7}. \<exists>y\<in>{0, 1, 2, 3, 4, 5, 6, 7}. length (flips b (pt x y) c) > 0 \<and> q = pt x y)"
    unfolding legal_def set_concat_if by (simp only: list.set)
  also have "\<dots> \<longleftrightarrow> (\<exists>x y. inside x y \<and> flips b (pt x y) c \<noteq> [] \<and> q = pt x y)"
    unfolding inside_range length_greater_0_conv by blast
  also have "\<dots> \<longleftrightarrow> inside (PX q) (PY q) \<and> flips b q c \<noteq> []"
    by (metis rv_pt_sel(1-3))
  finally show ?thesis .
qed

subsection \<open>The snapshot codec\<close>

definition valid_state :: "int \<Rightarrow> state \<Rightarrow> bool" where
  "valid_state rv s \<longleftrightarrow>
     0 \<le> rv \<and> rv \<le> 60 \<and> length (st_board s) = 64 \<and> (\<forall>c\<in>set (st_board s). c \<le> 2) \<and>
     counts s = s \<and> validSeats s \<and>
     validHistory \<lparr>sn_revision = rv, sn_state = marshalState s\<rparr> s \<and> validPass s \<and>
     validCounts rv s \<and> validOutcome s \<and> (\<forall>q\<in>set (st_legal s). inside (PX q) (PY q)) \<and>
     (\<forall>q. st_last s = Some q \<longrightarrow> inside (PX q) (PY q))"

lemma coord_i64: "inside x y \<Longrightarrow> is_i64 x \<and> is_i64 y"
  by (auto simp: inside_def intro: is_i64_small)

lemma wf_point [simp]: "wf_json (point_json p)"
  by (simp add: point_json_def point_members_def utf8_valid_ascii)

lemma dec_point_json [json_simps]:
  "is_i64 (PX p) \<Longrightarrow> is_i64 (PY p) \<Longrightarrow> dec_point (point_json p) cur = Some p"
proof -
  assume i: "is_i64 (PX p)" "is_i64 (PY p)"
  have "dec_field [''x'', ''y''] (point_members p) ''x'' dec_int z = dec_int (jint (PX p)) z"
    "dec_field [''x'', ''y''] (point_members p) ''y'' dec_int z = dec_int (jint (PY p)) z" for z
    by (rule dec_field_exact; simp add: point_members_def)+
  with i show ?thesis by (simp add: dec_point_def point_json_def json_simps)
qed

lemma state_strings:
  assumes "valid_state rv s"
  shows "st_status s \<in> {''active'', ''finished''}" and "st_next s \<in> {''black'', ''white'', ''''}"
    and "st_result s \<in> {None, Some ''draw'', Some ''majority''}"
    and "st_passed s \<in> {None, Some ''black'', Some ''white''}" and "st_boardSize s = 8"
    and "validOptionalActor (st_black s)" and "validOptionalActor (st_white s)"
    and "st_winner s \<in> {None, st_black s, st_white s}"
proof -
  have o: "validOutcome s" and se: "validSeats s" and p: "validPass s"
    using assms by (simp_all add: valid_state_def)
  from o show "st_status s \<in> {''active'', ''finished''}" and "st_result s \<in> {None, Some ''draw'', Some ''majority''}"
    and "st_winner s \<in> {None, st_black s, st_white s}"
    by (auto simp: validOutcome_def Let_def split: if_splits)
  from o show "st_next s \<in> {''black'', ''white'', ''''}"
    by (auto simp: validOutcome_def Let_def colorValue_def split: if_splits)
  from p show "st_passed s \<in> {None, Some ''black'', Some ''white''}"
    by (auto simp: validPass_def colorValue_def split: option.splits if_splits)
  from se show "st_boardSize s = 8" "validOptionalActor (st_black s)" "validOptionalActor (st_white s)"
    by (auto simp: validSeats_def)
qed

lemma wf_jptr_cases: "(\<And>x. p = Some x \<Longrightarrow> wf_json (f x)) \<Longrightarrow> wf_json (jptr f p)"
  by (cases p) (auto simp: jptr_def)

lemma rv_members_wf:
  assumes "valid_state rv s"
  shows "\<forall>kv\<in>set (state_members s). utf8_valid (fst kv) \<and> wf_json (snd kv)"
proof -
  note st = state_strings [OF assms]
  have "wf_json (JStr (st_status s))" "wf_json (JStr (st_next s))"
    using st(1,2) by (auto simp: utf8_valid_ascii)
  moreover have "wf_json (jptr JStr (st_result s))" "wf_json (jptr JStr (st_passed s))"
    using st(3,4) by (auto simp: jptr_def utf8_valid_ascii)
  moreover have "wf_json (jptr JStr (st_winner s))"
    using st(8) wf_opt_actor [OF st(6)] wf_opt_actor [OF st(7)] by (auto simp: jptr_def)
  moreover have "wf_json (jptr point_json (st_last s))" by (rule wf_jptr_cases) simp
  ultimately show ?thesis
    using wf_opt_actor [OF st(6)] wf_opt_actor [OF st(7)]
    by (simp add: state_members_def points_json_def utf8_valid_ascii)
qed

lemma rv_members_keys [json_simps]: "map fst (state_members s) = state_names" "distinct state_names"
  by (simp_all add: state_members_def state_names_def)

lemma rv_members_of [json_simps]:
  "map_of (state_members s) ''status'' = Some (JStr (st_status s))"
  "map_of (state_members s) ''board'' = Some (JArr (map (\<lambda>c. jint (int c)) (st_board s)))"
  "map_of (state_members s) ''boardSize'' = Some (jint (st_boardSize s))"
  "map_of (state_members s) ''blackUserId'' = Some (jptr JStr (st_black s))"
  "map_of (state_members s) ''whiteUserId'' = Some (jptr JStr (st_white s))"
  "map_of (state_members s) ''nextColor'' = Some (JStr (st_next s))"
  "map_of (state_members s) ''winnerUserId'' = Some (jptr JStr (st_winner s))"
  "map_of (state_members s) ''result'' = Some (jptr JStr (st_result s))"
  "map_of (state_members s) ''legalMoves'' = Some (points_json (st_legal s))"
  "map_of (state_members s) ''blackCount'' = Some (jint (st_blackCount s))"
  "map_of (state_members s) ''whiteCount'' = Some (jint (st_whiteCount s))"
  "map_of (state_members s) ''passedColor'' = Some (jptr JStr (st_passed s))"
  "map_of (state_members s) ''lastMove'' = Some (jptr point_json (st_last s))"
  by (simp_all add: state_members_def)

lemma rv_member_field [json_simps]:
  "map_of (state_members s) n = Some j \<Longrightarrow> dec_field state_names (state_members s) n d z = d j z"
  by (intro dec_field_exact) (simp_all add: json_simps)

lemma counts_small:
  assumes "valid_state rv s"
  shows "is_i64 (st_blackCount s)" and "is_i64 (st_whiteCount s)"
    and "st_blackCount s = int (count_list (st_board s) 1)"
    and "st_whiteCount s = int (count_list (st_board s) 2)"
proof -
  have c: "counts s = s" and l: "length (st_board s) = 64" using assms by (simp_all add: valid_state_def)
  have "st_blackCount (counts s) = int (count_list (st_board s) 1)"
    "st_whiteCount (counts s) = int (count_list (st_board s) 2)"
    by (simp_all add: counts_def)
  with c show b: "st_blackCount s = int (count_list (st_board s) 1)"
    "st_whiteCount s = int (count_list (st_board s) 2)" by simp_all
  have "count_list (st_board s) x < 1000000" for x using count_le_length [of "st_board s" x] l by simp
  then show "is_i64 (st_blackCount s)" "is_i64 (st_whiteCount s)"
    unfolding b by (simp_all add: is_i64_small)
qed

lemma unmarshal_members:
  assumes "valid_state rv s"
  shows "unmarshalState (marshalState s) = Some s"
proof -
  have b: "length (st_board s) = 64" "\<forall>c\<in>set (st_board s). c \<le> 2"
    and q: "\<forall>q\<in>set (st_legal s). inside (PX q) (PY q)" "\<forall>q. st_last s = Some q \<longrightarrow> inside (PX q) (PY q)"
    using assms by (simp_all add: valid_state_def)
  have "json_parse (marshalState s) = Some (JObj (state_members s))"
    unfolding marshalState_def using rv_members_wf [OF assms] by (intro json_parse_render) simp
  moreover have "dec_array 64 dec_uint8 0 (JArr (map (\<lambda>c. jint (int c)) (st_board s))) (replicate 64 0)
      = Some (st_board s)"
    using b by (intro dec_array_map) (auto intro!: dec_uint8_jint)
  moreover have "dec_slice dec_point (pt 0 0) (points_json (st_legal s)) [] = Some (st_legal s)"
    unfolding points_json_def using q(1) coord_i64 by (intro dec_slice_map dec_point_json) blast+
  moreover have "dec_ptr dec_point (pt 0 0) (jptr point_json (st_last s)) None = Some (st_last s)"
  proof (cases "st_last s")
    case (Some p)
    then have "point_json p \<noteq> JNull" and "dec_point (point_json p) (pt 0 0) = Some p"
      using q(2) Some coord_i64 [of "PX p" "PY p"] by (simp_all add: dec_point_json) (simp add: point_json_def)
    with Some show ?thesis by (simp add: dec_ptr_def jptr_def)
  qed (simp add: dec_ptr_def jptr_def)
  ultimately show ?thesis
    using state_strings(5) [OF assms] counts_small(1,2) [OF assms]
    by (simp add: unmarshalState_def json_simps del: dec_array.simps dec_slice.simps)
qed

lemma rv_decode_encode:
  assumes "valid_state rv s"
  shows "decodeSnapshot \<lparr>sn_revision = rv, sn_state = marshalState s\<rparr> = Inr s"
proof -
  have b: "length (st_board s) = 64" "\<forall>c\<in>set (st_board s). c \<le> 2"
    using assms by (simp_all add: valid_state_def)
  have m: "strict_object state_names (marshalState s) = Some (raw_members (state_members s))"
    unfolding marshalState_def using rv_members_wf [OF assms]
    by (intro strict_object_render) (simp_all add: json_simps)
  have brd: "unmarshal (dec_slice dec_int 0) [] (render (JArr (map (\<lambda>c. jint (int c)) (st_board s))))
      = Some (map int (st_board s))"
  proof -
    have "dec_slice dec_int 0 (JArr (map jint (map int (st_board s)))) [] = Some (map int (st_board s))"
      using b by (intro dec_slice_map dec_int_jint is_i64_small) auto
    then show ?thesis by (subst unmarshal_render) (simp_all add: comp_def)
  qed
  have "length (state_members s) = length state_names"
    by (simp add: state_members_def state_names_def)
  moreover have "list_all (\<lambda>c. \<not> (c < 0 \<or> c > 2)) (map int (st_board s))"
    using b by (auto simp: list_all_iff)
  ultimately show ?thesis
    using assms b
    by (simp add: decodeSnapshot_def m json_simps brd unmarshal_members [OF assms] valid_state_def
        del: dec_slice.simps render.simps)
qed

subsection \<open>The board after a move\<close>

definition moved :: "nat list \<Rightarrow> point \<Rightarrow> nat \<Rightarrow> nat list" where
  "moved b p c = foldl (\<lambda>b i. b[i := c]) (b[nat (PY p * 8 + PX p) := c]) (flips b p c)"

lemma foldl_update_length [simp]: "length (foldl (\<lambda>b i. b[i := c]) b is) = length b"
  by (induction "is" arbitrary: b) simp_all

lemma foldl_update_nth:
  "i < length b \<Longrightarrow> foldl (\<lambda>b i. b[i := c]) b is ! i = (if i \<in> set is then c else b ! i)"
  by (induction "is" arbitrary: b) (auto simp: nth_list_update)

lemma foldl_update_count:
  "\<forall>i\<in>set is. i < length b \<and> b ! i \<noteq> z \<Longrightarrow> c \<noteq> z \<Longrightarrow>
   count_list (foldl (\<lambda>b i. b[i := c]) b is) z = count_list b z"
proof (induction "is" arbitrary: b)
  case (Cons i "is")
  have "count_list (foldl (\<lambda>b i. b[i := c]) (b[i := c]) is) z = count_list (b[i := c]) z"
    using Cons.prems by (intro Cons.IH) (auto simp: nth_list_update)
  with Cons.prems show ?case by (simp add: count_list_update_same)
qed simp

lemma length_moved [simp]: "length (moved b p c) = length b"
  by (simp add: moved_def)

lemma inside_index: "inside x y \<Longrightarrow> nat (y * 8 + x) < 64"
  by (auto simp: inside_def)

lemma index_inject:
  assumes "inside x y" and "inside x' y'"
  shows "nat (y * 8 + x) = nat (y' * 8 + x') \<longleftrightarrow> x = x' \<and> y = y'"
proof
  assume "nat (y * 8 + x) = nat (y' * 8 + x')"
  moreover have "0 \<le> y * 8 + x" "0 \<le> y' * 8 + x'" using assms by (simp_all add: inside_def)
  ultimately have eq: "y * 8 + x = y' * 8 + x'" by linarith
  have "(y * 8 + x) div 8 = y" "(y' * 8 + x') div 8 = y'" using assms by (simp_all add: inside_def)
  with eq show "x = x' \<and> y = y'" by simp
qed simp

lemma point_eq: "(p :: point) = q \<longleftrightarrow> PX p = PX q \<and> PY p = PY q"
  by (cases p; cases q) auto

lemma outflanked_inside: "outflanked b p c q \<Longrightarrow> inside (PX q) (PY q) \<and> cell b (PX q) (PY q) = 3 - c"
  by (auto simp: outflanked_def holds_def)

lemma cell_moved:
  assumes l: "length b = 64" and c: "c = 1 \<or> c = 2" and p: "flips b p c \<noteq> []"
    and q: "inside (PX q) (PY q)"
  shows "cell (moved b p c) (PX q) (PY q) =
    (if q = p \<or> outflanked b p c q then c else cell b (PX q) (PY q))"
proof -
  from p obtain i where "i \<in> set (flips b p c)" by (meson last_in_set)
  then have ip: "inside (PX p) (PY p)" unfolding flips_iff [OF c] by simp
  have "nat (PY q * 8 + PX q) \<in> set (flips b p c) \<longleftrightarrow> outflanked b p c q"
  proof
    assume "nat (PY q * 8 + PX q) \<in> set (flips b p c)"
    then obtain r where r: "outflanked b p c r" "nat (PY q * 8 + PX q) = nat (PY r * 8 + PX r)"
      unfolding flips_iff [OF c] by auto
    with index_inject [OF q, of "PX r" "PY r"] outflanked_inside [OF r(1)] have "q = r"
      by (simp add: point_eq)
    with r show "outflanked b p c q" by simp
  next
    assume "outflanked b p c q"
    moreover have "cell b (PX p) (PY p) = 0" using \<open>i \<in> set (flips b p c)\<close> unfolding flips_iff [OF c] by simp
    ultimately show "nat (PY q * 8 + PX q) \<in> set (flips b p c)" unfolding flips_iff [OF c] using ip by auto
  qed
  moreover have "nat (PY q * 8 + PX q) = nat (PY p * 8 + PX p) \<longleftrightarrow> q = p"
    unfolding index_inject [OF q ip] point_eq ..
  moreover have "moved b p c ! nat (PY q * 8 + PX q) =
      (if nat (PY q * 8 + PX q) \<in> set (flips b p c) then c
       else if nat (PY q * 8 + PX q) = nat (PY p * 8 + PX p) then c else b ! nat (PY q * 8 + PX q))"
    using l inside_index [OF q] by (simp add: moved_def foldl_update_nth nth_list_update)
  ultimately show ?thesis unfolding cell_def by metis
qed

lemma rv_moved_counts:
  assumes l: "length b = 64" and c: "c = 1 \<or> c = 2" and p: "flips b p c \<noteq> []"
    and le: "\<forall>x\<in>set b. x \<le> 2"
  shows "count_list (moved b p c) 1 + count_list (moved b p c) 2
    = Suc (count_list b 1 + count_list b 2)" and "\<forall>x\<in>set (moved b p c). x \<le> 2"
    and "inside (PX p) (PY p)" and "cell (moved b p c) (PX p) (PY p) = c"
proof -
  from p obtain i where "i \<in> set (flips b p c)" by (meson last_in_set)
  then have ip: "inside (PX p) (PY p)" and e: "cell b (PX p) (PY p) = 0" unfolding flips_iff [OF c] by simp_all
  let ?i = "nat (PY p * 8 + PX p)"
  have i: "?i < length b" "b ! ?i = 0" using inside_index [OF ip] l e by (simp_all add: cell_def)
  have "\<forall>i\<in>set (flips b p c). i < length (b[?i := c]) \<and> b[?i := c] ! i \<noteq> 0"
  proof
    fix j assume "j \<in> set (flips b p c)"
    then obtain q where q: "outflanked b p c q" and j: "j = nat (PY q * 8 + PX q)"
      unfolding flips_iff [OF c] by auto
    then have "j < length b" "b ! j \<noteq> 0"
      using outflanked_inside [OF q] inside_index [of "PX q" "PY q"] l c by (auto simp: cell_def)
    then show "j < length (b[?i := c]) \<and> b[?i := c] ! j \<noteq> 0"
      using c by (cases "j = ?i") auto
  qed
  then have z: "count_list (moved b p c) 0 = count_list (b[?i := c]) 0"
    unfolding moved_def using c by (intro foldl_update_count) auto
  have z': "Suc (count_list (b[?i := c]) 0) = count_list b 0"
    using i c by (intro count_list_update_old) auto
  show le': "\<forall>x\<in>set (moved b p c). x \<le> 2"
  proof
    fix x assume "x \<in> set (moved b p c)"
    then obtain k where k: "k < length b" "x = moved b p c ! k" by (auto simp: in_set_conv_nth)
    with i(1) have "x = c \<or> x = b ! k"
      by (auto simp: moved_def foldl_update_nth nth_list_update split: if_splits)
    with le c k show "x \<le> 2" by auto
  qed
  show "count_list (moved b p c) 1 + count_list (moved b p c) 2 = Suc (count_list b 1 + count_list b 2)"
    using count_list_le_2 [OF le] count_list_le_2 [OF le'] z z' by simp
  show "inside (PX p) (PY p)" by (rule ip)
  show "cell (moved b p c) (PX p) (PY p) = c" using cell_moved [OF l c p ip] by simp
qed

lemma nextTurn_cases:
  obtains (opp) "legal (st_board s) (3 - c) \<noteq> []" and
      "nextTurn s c = s\<lparr>st_passed := None, st_next := colorName (3 - c), st_legal := legal (st_board s) (3 - c)\<rparr>"
  | (pass) "legal (st_board s) (3 - c) = []" and "legal (st_board s) c \<noteq> []" and
      "nextTurn s c = s\<lparr>st_passed := Some (colorName (3 - c)), st_next := colorName c, st_legal := legal (st_board s) c\<rparr>"
  | (over) "legal (st_board s) (3 - c) = []" and "legal (st_board s) c = []" and
      "nextTurn s c = s\<lparr>st_passed := None, st_next := '''', st_legal := [], st_status := ''finished'',
         st_result := Some (if st_blackCount s \<noteq> st_whiteCount s then ''majority'' else ''draw''),
         st_winner := (if st_blackCount s \<noteq> st_whiteCount s
              then (if st_whiteCount s > st_blackCount s then st_white s else st_black s)
              else st_winner s)\<rparr>"
proof -
  consider "legal (st_board s) (3 - c) \<noteq> []" | "legal (st_board s) (3 - c) = []" "legal (st_board s) c \<noteq> []"
    | "legal (st_board s) (3 - c) = []" "legal (st_board s) c = []" by blast
  then show thesis
  proof cases
    case 1
    show thesis by (rule opp [OF 1]) (simp add: nextTurn_def Let_def 1)
  next
    case 2
    show thesis by (rule pass [OF 2]) (simp add: nextTurn_def Let_def 2)
  next
    case 3
    show thesis by (rule over [OF 3]) (simp add: nextTurn_def Let_def 3)
  qed
qed

text \<open>Every case of \<open>nextTurn\<close> yields a state with a valid outcome.\<close>

lemma nextTurn_valid:
  assumes act: "st_status s = ''active''" "st_result s = None" "st_winner s = None"
    and c: "c = 1 \<or> c = 2" and black: "st_black s \<noteq> None"
    and white: "legal (st_board s) (3 - c) = [] \<Longrightarrow> st_white s \<noteq> None"
  shows "validOutcome (nextTurn s c)" and "validPass (nextTurn s c)"
    and "\<forall>q\<in>set (st_legal (nextTurn s c)). inside (PX q) (PY q)"
proof -
  have names: "colorValue (colorName c) = c" "colorValue (colorName (3 - c)) = 3 - c"
    "colorName (3 - c) \<noteq> colorName c" "3 - c \<noteq> 0" "c \<noteq> 0" "3 - c = 1 \<or> 3 - c = 2"
    using c by (auto simp: colorValue_def colorName_def)
  have "validOutcome (nextTurn s c) \<and> validPass (nextTurn s c) \<and>
    (\<forall>q\<in>set (st_legal (nextTurn s c)). inside (PX q) (PY q))"
  proof (cases rule: nextTurn_cases [of s c])
    case opp
    then show ?thesis using act names by (simp add: validOutcome_def validPass_def legal_iff)
  next
    case pass
    then show ?thesis using act names by (simp add: validOutcome_def validPass_def legal_iff)
  next
    case over
    then have "legal (st_board s) 1 = [] \<and> legal (st_board s) 2 = []" using c by auto
    with over show ?thesis using act black white by (auto simp: validOutcome_def validPass_def Let_def)
  qed
  then show "validOutcome (nextTurn s c)" and "validPass (nextTurn s c)"
    and "\<forall>q\<in>set (st_legal (nextTurn s c)). inside (PX q) (PY q)" by simp_all
qed

lemma nextTurn_sel [simp]:
  "st_board (nextTurn s c) = st_board s" "st_boardSize (nextTurn s c) = st_boardSize s"
  "st_black (nextTurn s c) = st_black s" "st_white (nextTurn s c) = st_white s"
  "st_blackCount (nextTurn s c) = st_blackCount s" "st_whiteCount (nextTurn s c) = st_whiteCount s"
  "st_last (nextTurn s c) = st_last s"
  by (simp_all add: nextTurn_def Let_def)

lemma counts_idem: "counts s = s \<longleftrightarrow> st_blackCount s = int (count_list (st_board s) 1) \<and>
    st_whiteCount s = int (count_list (st_board s) 2)"
  by (cases s) (auto simp: counts_def)

subsection \<open>Moves preserve validity\<close>

lemma legal_initial: "legal initialBoard 1 = [pt 3 2, pt 2 3, pt 5 4, pt 4 5]"
  by code_simp

lemma first_replies:
  "p \<in> set [pt 3 2, pt 2 3, pt 5 4, pt 4 5] \<Longrightarrow> legal (moved initialBoard p 1) 2 \<noteq> []"
proof -
  have "list_all (\<lambda>(p, q). inside (PX q) (PY q) \<and> flips (moved initialBoard p 1) q 2 \<noteq> [])
      [(pt 3 2, pt 2 2), (pt 2 3, pt 2 2), (pt 5 4, pt 5 5), (pt 4 5, pt 5 5)]"
    by code_simp
  then have "p \<in> set [pt 3 2, pt 2 3, pt 5 4, pt 4 5] \<Longrightarrow>
      \<exists>q. inside (PX q) (PY q) \<and> flips (moved initialBoard p 1) q 2 \<noteq> []"
    unfolding list.pred_inject prod.case list.set insert_iff empty_iff by blast
  then show "p \<in> set [pt 3 2, pt 2 3, pt 5 4, pt 4 5] \<Longrightarrow> ?thesis"
    by (metis legal_iff list.set(1) empty_iff)
qed

lemma initial_counts: "count_list initialBoard 1 = 2" "count_list initialBoard 2 = 2"
  "length initialBoard = 64" "list_all (\<lambda>c. c \<le> 2) initialBoard"
  by code_simp+

lemma rv_valid_initial: "valid_state 0 initialState"
  using initial_counts legal_initial
  by (simp add: valid_state_def initialState_def counts_idem validSeats_def validHistory_def initial_def
      validPass_def validCounts_def validOutcome_def validOptionalActor_def colorValue_def list_all_iff
      i64_def)
    (simp add: counts_def initial_counts inside_def)

lemma revision_zero:
  assumes "valid_state 0 s"
  shows "s = initialState"
proof -
  have "marshalState s = marshalState initialState"
    using assms by (simp add: valid_state_def validHistory_def initial_def)
  with unmarshal_members [OF assms] unmarshal_members [OF rv_valid_initial] show ?thesis by simp
qed

text \<open>The invariant of play: a valid state in which the second move is white's.\<close>

definition play_inv :: "int \<Rightarrow> state \<Rightarrow> bool" where
  "play_inv rv s \<longleftrightarrow> valid_state rv s \<and> (rv = 1 \<longrightarrow> st_next s = ''white'')"

lemma rv_moveState_iff:
  assumes "st_next s = ''black'' \<or> st_next s = ''white''"
  defines "c \<equiv> colorValue (st_next s)"
  defines "own \<equiv> (if c = 2 then st_white s else st_black s)"
    and "other \<equiv> (if c = 2 then st_black s else st_white s)"
  shows "moveState s actor p = Inr s' \<longleftrightarrow>
    st_status s = ''active'' \<and> (own = Some actor \<or> own = None \<and> other \<noteq> Some actor) \<and>
    flips (st_board s) p c \<noteq> [] \<and>
    s' = nextTurn (counts ((if c = 2 then s\<lparr>st_white := Some actor\<rparr> else s\<lparr>st_black := Some actor\<rparr>)
      \<lparr>st_board := moved (st_board s) p c\<rparr>)\<lparr>st_last := Some p\<rparr>) c"
  by (auto simp: moveState_def c_def own_def other_def Let_def moved_def)

lemma move_valid:
  assumes inv: "play_inv rv s" and m: "moveState s actor p = Inr s'" and a: "validActorID actor"
  shows "play_inv (rv + 1) s'"
proof -
  have v: "valid_state rv s" using inv by (simp add: play_inv_def)
  have act: "st_status s = ''active''" using m by (auto simp: moveState_def split: if_splits)
  have vo: "validOutcome s" using v by (simp add: valid_state_def)
  with act have nx: "st_next s = ''black'' \<or> st_next s = ''white''" and
    opn: "st_result s = None" "st_winner s = None"
    by (auto simp: validOutcome_def Let_def colorValue_def split: if_splits)
  define c where "c = colorValue (st_next s)"
  define s1 where "s1 = counts ((if c = 2 then s\<lparr>st_white := Some actor\<rparr> else s\<lparr>st_black := Some actor\<rparr>)
      \<lparr>st_board := moved (st_board s) p c\<rparr>)\<lparr>st_last := Some p\<rparr>"
  have c: "c = 1 \<or> c = 2" using nx by (auto simp: c_def colorValue_def)
  note mv = m [unfolded rv_moveState_iff [OF nx], folded c_def, folded s1_def]
  have fl: "flips (st_board s) p c \<noteq> []" and s': "s' = nextTurn s1 c" using mv by blast+
  have b: "length (st_board s) = 64" "\<forall>x\<in>set (st_board s). x \<le> 2" using v by (simp_all add: valid_state_def)
  note cnt = rv_moved_counts [OF b(1) c fl b(2)]
  have s1: "st_board s1 = moved (st_board s) p c" "st_status s1 = ''active''" "st_result s1 = None"
    "st_winner s1 = None" "st_boardSize s1 = st_boardSize s" "st_last s1 = Some p"
    "st_black s1 = (if c = 2 then st_black s else Some actor)"
    "st_white s1 = (if c = 2 then Some actor else st_white s)"
    "st_blackCount s1 = int (count_list (moved (st_board s) p c) 1)"
    "st_whiteCount s1 = int (count_list (moved (st_board s) p c) 2)"
    using act opn c by (auto simp: s1_def counts_def)
  have his: "validHistory \<lparr>sn_revision = rv, sn_state = marshalState s\<rparr> s" and rv: "0 \<le> rv" "rv \<le> 60"
    using v by (simp_all add: valid_state_def)
  have zero: "rv = 0 \<Longrightarrow> s = initialState" using revision_zero v by simp
  have c1: "rv = 0 \<Longrightarrow> c = 1" using zero by (simp add: c_def initialState_def counts_def colorValue_def)
  have c2: "rv = 1 \<Longrightarrow> c = 2" using inv by (simp add: play_inv_def c_def colorValue_def)
  have black: "st_black s1 \<noteq> None"
    using his c1 s1(7) rv by (cases "rv = 0") (auto simp: validHistory_def split: if_splits)
  have white: "rv \<ge> 1 \<Longrightarrow> st_white s1 \<noteq> None"
    using his c2 s1(8) by (cases "rv = 1") (auto simp: validHistory_def split: if_splits)
  have reply: "rv = 0 \<Longrightarrow> legal (st_board s1) 2 \<noteq> []"
  proof -
    assume r: "rv = 0"
    then have "st_board s = initialBoard" using zero by (simp add: initialState_def counts_def)
    moreover have "p \<in> set (legal (st_board s) 1)" unfolding legal_iff using cnt(3) fl c1 [OF r] by simp
    ultimately show ?thesis using first_replies [of p] legal_initial c1 [OF r] s1(1) by simp
  qed
  have "legal (st_board s1) (3 - c) = [] \<Longrightarrow> st_white s1 \<noteq> None"
    using reply c1 white rv by (cases "rv = 0") auto
  note nt = nextTurn_valid [OF s1(2-4) c black this, folded s']
  have old: "st_blackCount s + st_whiteCount s = rv + 4"
  proof -
    have "validCounts rv s" using v unfolding valid_state_def by blast
    then have "i64 (st_blackCount s + st_whiteCount s) = i64 (rv + 4)" unfolding validCounts_def by blast
    moreover have "i64 (rv + 4) = rv + 4" using rv by (intro i64_id is_i64_small) simp_all
    moreover have "i64 (st_blackCount s + st_whiteCount s) = st_blackCount s + st_whiteCount s"
    proof (rule i64_id)
      have "count_list (st_board s) x \<le> 64" for x using count_le_length [of "st_board s" x] b(1) by simp
      from this [of 1] this [of 2] have "0 \<le> st_blackCount s + st_whiteCount s"
        "st_blackCount s + st_whiteCount s \<le> 128" using counts_small(3,4) [OF v] by linarith+
      then show "is_i64 (st_blackCount s + st_whiteCount s)" by (intro is_i64_small) simp_all
    qed
    ultimately show ?thesis by simp
  qed
  then have new: "st_blackCount s1 + st_whiteCount s1 = rv + 1 + 4"
    using cnt(1) counts_small(3,4) [OF v] s1(9,10) by simp
  have "rv + 1 \<le> 60"
  proof -
    from count_list_le_2 [OF cnt(2)] b(1)
    have "count_list (moved (st_board s) p c) 1 + count_list (moved (st_board s) p c) 2 \<le> 64" by simp
    then show ?thesis using new s1(9,10) by simp
  qed
  moreover have "counts s' = s'" using s1 by (simp add: s' counts_idem)
  moreover have "validSeats s'"
    using v mv a c s1 by (auto simp: s' valid_state_def validSeats_def validOptionalActor_def split: option.splits)
  moreover have "validHistory \<lparr>sn_revision = rv + 1, sn_state = marshalState s'\<rparr> s'"
    using black white rv s1 cnt(3,4) c by (auto simp: s' validHistory_def inside_def)
  moreover have "validCounts (rv + 1) s'"
  proof -
    have "counts s' = s'" by fact
    with new show ?thesis by (simp add: validCounts_def s')
  qed
  ultimately have "valid_state (rv + 1) s'"
    using rv nt s1 cnt(2,3) b by (simp add: valid_state_def s')
  moreover have "rv = 0 \<Longrightarrow> st_next s' = ''white''"
    using reply c1 by (cases rule: nextTurn_cases [of s1 c]) (auto simp: s' colorName_def)
  ultimately show ?thesis using rv by (auto simp: play_inv_def)
qed

subsection \<open>Apply and Rebuild\<close>

lemma unmarshalState_board: "unmarshalState data = Some s \<Longrightarrow> length (st_board s) = 64"
  by (clarsimp simp: unmarshalState_def split: bind_splits) (drule dec_field_array_length, simp)

lemma rv_decode_valid:
  assumes "decodeSnapshot sn = Inr s"
  shows "validOutcome s" and "length (st_board s) = 64" and "0 \<le> sn_revision sn" and "sn_revision sn \<le> 60"
proof -
  from assms obtain s0 where s0: "unmarshalState (sn_state sn) = Some s0" "validCounts (sn_revision sn) s0"
    "validOutcome s0" "s = counts s0" and r: "0 \<le> sn_revision sn \<and> sn_revision sn \<le> 60"
    by (auto simp: decodeSnapshot_def split: bind_splits if_splits)
  have "counts s0 = s0"
    using s0(2) unfolding validCounts_def counts_idem by (simp add: counts_def)
  with s0 r unmarshalState_board [OF s0(1)] show "validOutcome s" and "length (st_board s) = 64"
    and "0 \<le> sn_revision sn" and "sn_revision sn \<le> 60" by simp_all
qed

lemma decode_active:
  assumes "decodeSnapshot sn = Inr s" and "st_status s = ''active''"
  shows "st_next s = ''black'' \<or> st_next s = ''white''"
  using rv_decode_valid(1) [OF assms(1)] assms(2)
  by (auto simp: validOutcome_def Let_def colorValue_def split: if_splits)

lemma flips_inside: "flips b p c \<noteq> [] \<Longrightarrow> inside (PX p) (PY p)"
  by (auto simp: flips_def inside_def split: if_splits)

lemma decodeMove_point:
  assumes "inside (PX p) (PY p)"
  shows "decodeMove (render (point_json p)) = Some p"
proof -
  have wf: "\<forall>kv\<in>set (point_members p). utf8_valid (fst kv) \<and> wf_json (snd kv)"
    by (simp add: point_members_def utf8_valid_ascii)
  have "strict_object [''x'', ''y''] (render (JObj (point_members p))) = Some (raw_members (point_members p))"
    using wf by (intro strict_object_render) (auto simp: point_members_def)
  moreover have "length (render (jint (PX p))) \<le> 1" "length (render (jint (PY p))) \<le> 1"
    using assms length_show_int_pos [of "PX p" 1] length_show_int_pos [of "PY p" 1]
    by (auto simp: inside_def jint_def)
  then have "length (render (JObj (point_members p))) \<le> 1024"
    using length_render_members_le [of "point_members p"] by (simp add: point_members_def)
  ultimately show ?thesis
    using coord_i64 [OF assms] utf8_valid_render_obj [OF wf]
    by (simp add: decodeMove_def point_json_def json_simps del: render.simps)
      (simp add: point_members_def json_simps del: render.simps)
qed

lemma decodeAccepted_payload:
  assumes "inside (PX p) (PY p)" and "validActorID actor"
  shows "decodeAccepted (acceptedPayload p c actor) = Some p"
proof -
  let ?m = "accepted_members p c actor" and ?n = "[''x'', ''y'', ''color'', ''userId'']"
  have wf: "\<forall>kv\<in>set ?m. utf8_valid (fst kv) \<and> wf_json (snd kv)"
    using assms(2) by (auto simp: accepted_members_def colorName_def utf8_valid_ascii validActorID_utf8)
  then have "json_parse (acceptedPayload p c actor) = Some (JObj ?m)"
    unfolding acceptedPayload_def by (intro json_parse_render) simp
  moreover have "dec_field ?n ?m n d z = d j z" if "map_of ?m n = Some j" for n d j and z :: int
    using that by (intro dec_field_exact) (simp_all add: accepted_members_def)
  moreover have "dec_field ?n ?m n d z = d j z" if "map_of ?m n = Some j" for n d j and z :: bytes
    using that by (intro dec_field_exact) (simp_all add: accepted_members_def)
  moreover have "map_of ?m ''x'' = Some (jint (PX p))" "map_of ?m ''y'' = Some (jint (PY p))"
    "map_of ?m ''color'' = Some (JStr (colorName c))" "map_of ?m ''userId'' = Some (JStr actor)"
    by (simp_all add: accepted_members_def)
  ultimately show ?thesis
    using coord_i64 [OF assms(1)] by (simp add: decodeAccepted_def json_simps)
qed

definition start :: "snapshot \<Rightarrow> snapshot" where
  "start sn = (if sn_state sn = [] \<and> sn_revision sn = 0 then initial else sn)"

lemma Apply_start:
  "Apply sn actor act =
     (if act_type act \<noteq> MoveRequested \<or> \<not> validActorID actor then Inl ErrInvalidAction
      else case decodeMove (act_payload act) of
        None \<Rightarrow> Inl ErrInvalidAction
      | Some p \<Rightarrow>
          and_then (decodeSnapshot (start sn)) (\<lambda>s.
          and_then (moveState s actor p) (\<lambda>s'.
            Inr (\<lparr>ev_revision = i64 (sn_revision sn + 1), ev_type = MoveAccepted, ev_actor = actor,
                  ev_payload = acceptedPayload p (colorValue (st_next s)) actor\<rparr>,
                 \<lparr>sn_revision = i64 (sn_revision sn + 1), sn_state = marshalState s'\<rparr>))))"
proof -
  have rv: "sn_revision (start sn) = sn_revision sn" by (simp add: start_def initial_def)
  show ?thesis unfolding Apply_def start_def [symmetric] Let_def rv ..
qed

lemma rv_Apply_iff:
  "Apply sn actor act = Inr r \<longleftrightarrow>
    act_type act = MoveRequested \<and> validActorID actor \<and>
    (\<exists>p s s'. decodeMove (act_payload act) = Some p \<and> decodeSnapshot (start sn) = Inr s \<and>
      moveState s actor p = Inr s' \<and>
      r = (\<lparr>ev_revision = sn_revision sn + 1, ev_type = MoveAccepted, ev_actor = actor,
            ev_payload = acceptedPayload p (colorValue (st_next s)) actor\<rparr>,
           \<lparr>sn_revision = sn_revision sn + 1, sn_state = marshalState s'\<rparr>))"
proof -
  have rv: "sn_revision (start sn) = sn_revision sn" by (simp add: start_def initial_def)
  have "decodeSnapshot (start sn) = Inr s \<Longrightarrow> i64 (sn_revision sn + 1) = sn_revision sn + 1" for s
    using rv_decode_valid(3,4) [of "start sn" s] rv by (intro i64_succ) (auto simp: max_i64_def)
  then show ?thesis
    unfolding Apply_start by (auto split: option.splits)
qed

lemma moveState_inside:
  assumes "moveState s actor p = Inr s'"
  shows "inside (PX p) (PY p)"
  using assms flips_inside by (auto simp: moveState_def Let_def split: if_splits)

definition accepts :: "snapshot \<Rightarrow> event \<Rightarrow> snapshot \<Rightarrow> bool" where
  "accepts sn e sn' \<longleftrightarrow> (\<exists>actor act. Apply sn actor act = Inr (e, sn'))"

lemma Apply_canonical:
  assumes "Apply sn actor act = Inr (e, sn')"
  shows "\<exists>p. decodeAccepted (ev_payload e) = Some p \<and> ev_actor e = actor \<and>
    Apply sn actor \<lparr>act_type = MoveRequested, act_payload = render (point_json p)\<rparr> = Inr (e, sn')"
  using assms unfolding rv_Apply_iff
  by (auto simp: decodeAccepted_payload decodeMove_point moveState_inside)

lemma rv_rebuildBody_complete:
  assumes "accepts sn e sn'"
  shows "rebuildBody (sn_revision sn) e sn = Inr sn'"
proof -
  from assms obtain actor act where a: "Apply sn actor act = Inr (e, sn')" by (auto simp: accepts_def)
  then have "ev_revision e = sn_revision sn + 1" "ev_type e = MoveAccepted" by (auto simp: rv_Apply_iff)
  with Apply_canonical [OF a] show ?thesis by (auto simp: rebuildBody_def)
qed

lemma rv_rebuildBody_sound:
  assumes "rebuildBody i e sn = Inr sn'" and "sn_revision sn = i"
  shows "accepts sn e sn'"
proof -
  from assms(1) obtain act produced where a: "Apply sn (ev_actor e) act = Inr (produced, sn')"
    and e: "ev_revision e = i + 1" "ev_type e = MoveAccepted" "ev_payload produced = ev_payload e"
    by (auto simp: rebuildBody_def split: if_splits option.splits sum.splits prod.splits)
  from a have "ev_revision produced = i + 1" "ev_type produced = MoveAccepted" "ev_actor produced = ev_actor e"
    using assms(2) by (auto simp: rv_Apply_iff)
  with e have "produced = e" by (cases produced; cases e) simp
  with a show ?thesis by (auto simp: accepts_def)
qed

lemma rv_accepts_revision:
  assumes "accepts sn e sn'"
  shows "ev_revision e = i64 (sn_revision sn + 1) \<and> sn_revision sn' = ev_revision e"
proof -
  from assms obtain actor act where "Apply sn actor act = Inr (e, sn')" by (auto simp: accepts_def)
  then show ?thesis by (auto simp: Apply_start split: if_splits option.splits)
qed

interpretation reversi_log: event_log initial rebuildBody accepts
proof
  show "sn_revision initial = 0" by (simp add: initial_def)
qed (auto simp: rv_rebuildBody_complete rv_rebuildBody_sound dest: rv_accepts_revision)

lemma rv_decode_initial: "decodeSnapshot initial = Inr initialState"
  unfolding initial_def by (rule rv_decode_encode [OF rv_valid_initial])

lemma marshal_nonempty: "marshalState s \<noteq> []"
  by (simp add: marshalState_def)

lemma rv_played_inv:
  "played accepts initial es sn \<Longrightarrow>
     \<exists>s. sn = \<lparr>sn_revision = int (length es), sn_state = marshalState s\<rparr> \<and> play_inv (int (length es)) s"
proof (induction rule: played.induct)
  case played_start
  show ?case using rv_valid_initial by (auto simp: initial_def play_inv_def)
next
  case (played_step es sn e sn')
  then obtain s where sn: "sn = \<lparr>sn_revision = int (length es), sn_state = marshalState s\<rparr>"
    and inv: "play_inv (int (length es)) s" by auto
  have "start sn = sn" using sn marshal_nonempty by (simp add: start_def)
  moreover have "decodeSnapshot sn = Inr s"
    unfolding sn using inv by (intro rv_decode_encode) (simp add: play_inv_def)
  moreover obtain actor act where "Apply sn actor act = Inr (e, sn')"
    using played_step.hyps(2) by (auto simp: accepts_def)
  ultimately obtain p s' where m: "moveState s actor p = Inr s'" and a: "validActorID actor"
    and sn': "sn' = \<lparr>sn_revision = int (length es) + 1, sn_state = marshalState s'\<rparr>"
    using sn by (auto simp: rv_Apply_iff)
  from move_valid [OF inv m a] sn' show ?case by (auto simp: add.commute)
qed

subsection \<open>Properties\<close>

text \<open>
  The scan of \<open>flips\<close> finds exactly the stones the rules of the game turn over: it returns an
  index if and only if the target is an empty cell of the board and the index is that of a cell
  outflanked in one of the eight directions, an unbroken line of opponent stones closed by an own
  stone.
\<close>

lemma reversi_flips:
  assumes "c = 1 \<or> c = 2"
  shows "i \<in> set (flips b p c) \<longleftrightarrow> inside (PX p) (PY p) \<and> cell b (PX p) (PY p) = 0 \<and>
    (\<exists>q. outflanked b p c q \<and> i = nat (PY q * 8 + PX q))"
  by (rule flips_iff [OF assms])

lemma reversi_flips_witness: "\<exists>q. outflanked initialBoard (pt 3 2) 1 q \<and> 27 = nat (PY q * 8 + PX q)"
proof -
  have "27 \<in> set (flips initialBoard (pt 3 2) 1)" by code_simp
  with reversi_flips [of 1 27 initialBoard "pt 3 2"] show ?thesis by simp
qed

definition may_move :: "state \<Rightarrow> bytes \<Rightarrow> bool" where
  "may_move s actor \<longleftrightarrow>
     (let own = (if st_next s = ''white'' then st_white s else st_black s);
          other = (if st_next s = ''white'' then st_black s else st_white s)
      in own = Some actor \<or> own = None \<and> other \<noteq> Some actor)"

text \<open>
  The turn order of the game after a move of colour \<open>c\<close> on the board that the move left, and how the game
  ends: an active game has no result and no winner, a finished one is a draw without a winner, or the
  majority decides.
\<close>

definition turn_after :: "nat \<Rightarrow> state \<Rightarrow> bool" where
  "turn_after c s' \<longleftrightarrow>
     (let b = st_board s'; blacks = count_list b 1; whites = count_list b 2 in
      if legal b (3 - c) \<noteq> [] then
        st_status s' = ''active'' \<and> st_next s' = colorName (3 - c) \<and> st_passed s' = None \<and>
        st_legal s' = legal b (3 - c) \<and> st_result s' = None \<and> st_winner s' = None
      else if legal b c \<noteq> [] then
        st_status s' = ''active'' \<and> st_next s' = colorName c \<and> st_passed s' = Some (colorName (3 - c)) \<and>
        st_legal s' = legal b c \<and> st_result s' = None \<and> st_winner s' = None
      else st_status s' = ''finished'' \<and> st_next s' = '''' \<and> st_legal s' = [] \<and> st_passed s' = None \<and>
        st_result s' = Some (if blacks = whites then ''draw'' else ''majority'') \<and>
        st_winner s' = (if blacks = whites then None else if whites < blacks then st_black s' else st_white s'))"

text \<open>What a move of colour \<open>c\<close> by the actor leaves of the seats, the counts and the last move.\<close>

definition seats_after :: "state \<Rightarrow> bytes \<Rightarrow> point \<Rightarrow> nat \<Rightarrow> state \<Rightarrow> bool" where
  "seats_after s actor p c s' \<longleftrightarrow>
     st_black s' = (if c = 1 then Some actor else st_black s) \<and> st_white s' = (if c = 2 then Some actor else st_white s) \<and>
     st_last s' = Some p \<and>
     st_blackCount s' = int (count_list (st_board s') 1) \<and> st_whiteCount s' = int (count_list (st_board s') 2)"

lemma turn_after_nextTurn:
  assumes "st_status s = ''active''" and "st_winner s = None" and "st_result s = None" and "c = 1 \<or> c = 2"
    and "counts s = s"
  shows "turn_after c (nextTurn s c)"
proof -
  have n: "st_blackCount s = int (count_list (st_board s) 1)" "st_whiteCount s = int (count_list (st_board s) 2)"
    using assms(5) unfolding counts_idem by simp_all
  show ?thesis
  proof (cases rule: nextTurn_cases [of s c])
    case opp
    then show ?thesis using assms by (simp add: turn_after_def Let_def)
  next
    case pass
    then show ?thesis using assms by (simp add: turn_after_def Let_def)
  next
    case over
    then show ?thesis using assms(2) n by (simp add: turn_after_def Let_def)
  qed
qed

lemma rv_apply_outcome:
  assumes "decodeSnapshot sn = Inr s" and "sn_state sn \<noteq> []" and "st_status s = ''active''"
    and "validActorID actor" and "decodeMove payload = Some p"
  defines "c \<equiv> colorValue (st_next s)"
    and "act \<equiv> \<lparr>act_type = MoveRequested, act_payload = payload\<rparr>"
  shows "((\<exists>r. Apply sn actor act = Inr r) \<longleftrightarrow>
      may_move s actor \<and> inside (PX p) (PY p) \<and> cell (st_board s) (PX p) (PY p) = 0 \<and>
      (\<exists>q. outflanked (st_board s) p c q)) \<and>
    (\<forall>e sn'. Apply sn actor act = Inr (e, sn') \<longrightarrow>
      (\<exists>s'. sn' = \<lparr>sn_revision = sn_revision sn + 1, sn_state = marshalState s'\<rparr> \<and>
        (\<forall>q. inside (PX q) (PY q) \<longrightarrow> cell (st_board s') (PX q) (PY q) =
          (if q = p \<or> outflanked (st_board s) p c q then c else cell (st_board s) (PX q) (PY q))) \<and>
        seats_after s actor p c s' \<and> turn_after c s' \<and>
        e = \<lparr>ev_revision = sn_revision sn + 1, ev_type = MoveAccepted, ev_actor = actor, ev_payload = acceptedPayload p c actor\<rparr>))"
proof -
  have st: "start sn = sn" using assms(2) by (simp add: start_def)
  note nx = decode_active [OF assms(1,3)]
  have c: "c = 1 \<or> c = 2" using nx by (auto simp: c_def colorValue_def)
  note dv = rv_decode_valid [OF assms(1)]
  have opn: "st_winner s = None" "st_result s = None" using dv(1) assms(3) by (auto simp: validOutcome_def Let_def)
  have mm: "may_move s actor \<longleftrightarrow>
      (if c = 2 then st_white s else st_black s) = Some actor \<or>
      (if c = 2 then st_white s else st_black s) = None \<and> (if c = 2 then st_black s else st_white s) \<noteq> Some actor"
    using nx by (auto simp: may_move_def c_def colorValue_def Let_def)
  have fl: "flips (st_board s) p c \<noteq> [] \<longleftrightarrow> inside (PX p) (PY p) \<and> cell (st_board s) (PX p) (PY p) = 0 \<and>
      (\<exists>q. outflanked (st_board s) p c q)"
    using flips_iff [OF c, of _ "st_board s" p] by (metis last_in_set list.set(1) empty_iff)
  have ap: "Apply sn actor act = Inr r \<longleftrightarrow> (\<exists>s'. moveState s actor p = Inr s' \<and>
      r = (\<lparr>ev_revision = sn_revision sn + 1, ev_type = MoveAccepted, ev_actor = actor,
            ev_payload = acceptedPayload p c actor\<rparr>,
           \<lparr>sn_revision = sn_revision sn + 1, sn_state = marshalState s'\<rparr>))" for r
    unfolding rv_Apply_iff st using assms by (simp add: c_def)
  note mv = rv_moveState_iff [OF nx, of actor p, folded c_def]
  show ?thesis
  proof (intro conjI allI impI)
    show "(\<exists>r. Apply sn actor act = Inr r) \<longleftrightarrow>
      may_move s actor \<and> inside (PX p) (PY p) \<and> cell (st_board s) (PX p) (PY p) = 0 \<and>
      (\<exists>q. outflanked (st_board s) p c q)"
      unfolding ap mv mm fl [symmetric] using assms(3) by blast
  next
    fix e sn' assume "Apply sn actor act = Inr (e, sn')"
    then obtain s' where m: "moveState s actor p = Inr s'"
      and sn': "sn' = \<lparr>sn_revision = sn_revision sn + 1, sn_state = marshalState s'\<rparr>"
      and e: "e = \<lparr>ev_revision = sn_revision sn + 1, ev_type = MoveAccepted, ev_actor = actor, ev_payload = acceptedPayload p c actor\<rparr>"
      unfolding ap by blast
    define s1 where "s1 = counts ((if c = 2 then s\<lparr>st_white := Some actor\<rparr> else s\<lparr>st_black := Some actor\<rparr>)
      \<lparr>st_board := moved (st_board s) p c\<rparr>)\<lparr>st_last := Some p\<rparr>"
    have f: "flips (st_board s) p c \<noteq> []" and s': "s' = nextTurn s1 c"
      using m unfolding mv s1_def by blast+
    have s1: "st_board s1 = moved (st_board s) p c" "st_status s1 = ''active''" "st_winner s1 = None" "st_result s1 = None" "counts s1 = s1"
      using assms(3) opn by (simp_all add: s1_def counts_def)
    have seats: "seats_after s actor p c s'"
      using c unfolding s' by (auto simp: seats_after_def s1_def counts_def)
    from s1 show "\<exists>s'. sn' = \<lparr>sn_revision = sn_revision sn + 1, sn_state = marshalState s'\<rparr> \<and>
        (\<forall>q. inside (PX q) (PY q) \<longrightarrow> cell (st_board s') (PX q) (PY q) =
          (if q = p \<or> outflanked (st_board s) p c q then c else cell (st_board s) (PX q) (PY q))) \<and>
        seats_after s actor p c s' \<and> turn_after c s' \<and>
        e = \<lparr>ev_revision = sn_revision sn + 1, ev_type = MoveAccepted, ev_actor = actor, ev_payload = acceptedPayload p c actor\<rparr>"
      using sn' e seats s' turn_after_nextTurn [of s1 c] cell_moved [OF dv(2) c f] c
      by (intro exI [of _ s'] conjI allI impI) simp_all
  qed
qed

text \<open>
  C4. What \<open>Apply\<close> does with a well-formed move request on a snapshot that decodes to an active state: it
  succeeds if and only if the actor may move the colour to play, the target is an empty cell of the board, and it
  outflanks at least one stone. The state it returns has the own colour on the target and on every
  outflanked cell and is unchanged elsewhere; the actor has the seat of the colour, the other seat is as before; the
  counts are those of the board. The opponent is to move, or the same colour after a forced pass, and the game has no
  result; when neither colour can move it is finished, a draw without a winner if both have as many
  stones, and else won by the majority. The event carries the move.
\<close>

theorem reversi_apply:
  assumes "decodeSnapshot sn = Inr s" and "sn_state sn \<noteq> []" and "st_status s = ''active''"
    and "validActorID actor" and "decodeMove payload = Some p"
  defines "c \<equiv> colorValue (st_next s)"
    and "act \<equiv> \<lparr>act_type = MoveRequested, act_payload = payload\<rparr>"
  shows "((\<exists>r. Apply sn actor act = Inr r) \<longleftrightarrow>
      may_move s actor \<and> inside (PX p) (PY p) \<and> cell (st_board s) (PX p) (PY p) = 0 \<and>
      (\<exists>q. outflanked (st_board s) p c q)) \<and>
    (\<forall>e sn'. Apply sn actor act = Inr (e, sn') \<longrightarrow>
      (\<exists>s'. sn' = \<lparr>sn_revision = sn_revision sn + 1, sn_state = marshalState s'\<rparr> \<and>
        (\<forall>q. inside (PX q) (PY q) \<longrightarrow> cell (st_board s') (PX q) (PY q) =
          (if q = p \<or> outflanked (st_board s) p c q then c else cell (st_board s) (PX q) (PY q))) \<and>
        seats_after s actor p c s' \<and> turn_after c s' \<and>
        e = \<lparr>ev_revision = sn_revision sn + 1, ev_type = MoveAccepted, ev_actor = actor, ev_payload = acceptedPayload p c actor\<rparr>))"
  using rv_apply_outcome [OF assms(1-5)] unfolding c_def act_def .

lemma opening_move:
  "sn_state initial \<noteq> []" "st_status initialState = ''active''" "validActorID ''alice''"
  "decodeMove (render (point_json (pt 3 2))) = Some (pt 3 2)"
  "may_move initialState ''alice''" "colorValue (st_next initialState) = 1"
  by (simp_all add: initial_def marshal_nonempty initialState_def counts_def validActorID_def
      decodeMove_point inside_def may_move_def colorValue_def)

lemma opening_outflanks: "\<exists>q. outflanked initialBoard (pt 3 2) 1 q"
proof -
  have "27 \<in> set (flips initialBoard (pt 3 2) 1)" by code_simp
  then show ?thesis unfolding flips_iff [OF disjI1 [OF refl]] by blast
qed

lemma opening_accepted:
  "\<exists>r. Apply initial ''alice'' \<lparr>act_type = MoveRequested, act_payload = render (point_json (pt 3 2))\<rparr> = Inr r"
proof -
  have "cell initialBoard 3 2 = 0" by code_simp
  moreover have "st_board initialState = initialBoard" by (simp add: initialState_def counts_def)
  ultimately show ?thesis
    using rv_apply_outcome [OF rv_decode_initial opening_move(1-4)] opening_move(5,6) opening_outflanks
    by (simp add: inside_def)
qed

theorem reversi_apply_witness:
  "\<exists>e s'. Apply initial ''alice'' \<lparr>act_type = MoveRequested, act_payload = render (point_json (pt 3 2))\<rparr> =
      Inr (e, \<lparr>sn_revision = 1, sn_state = marshalState s'\<rparr>) \<and>
    st_black s' = Some ''alice'' \<and> st_white s' = None \<and> turn_after 1 s'"
proof -
  let ?A = "Apply initial ''alice'' \<lparr>act_type = MoveRequested, act_payload = render (point_json (pt 3 2))\<rparr>"
  note k = reversi_apply [OF rv_decode_initial opening_move(1-4), unfolded opening_move(6)]
  have "cell initialBoard 3 2 = 0" by code_simp
  moreover have b: "st_board initialState = initialBoard" "st_white initialState = None"
    by (simp_all add: initialState_def counts_def)
  ultimately have "\<exists>r. ?A = Inr r" using k [THEN conjunct1] opening_move(5) opening_outflanks by (simp add: inside_def)
  then obtain e sn' where a: "?A = Inr (e, sn')" by auto
  from k [THEN conjunct2, rule_format, OF a] obtain s'
    where "sn' = \<lparr>sn_revision = sn_revision initial + 1, sn_state = marshalState s'\<rparr>"
      "seats_after initialState ''alice'' (pt 3 2) 1 s'" "turn_after 1 s'" by blast
  then show ?thesis using a b(2) by (intro exI [of _ e] exI [of _ s']) (simp add: seats_after_def initial_def)
qed

text \<open>
  Event sourcing: \<open>Rebuild\<close> accepts a log exactly when every event of it is the one \<open>Apply\<close>
  returned for some action on the snapshot before it, and returns the snapshot that play reached,
  although it compares only the payloads of the produced and the persisted events.
\<close>

lemma reversi_rebuild_iff_played:
  "int (length es) \<le> max_i64 \<Longrightarrow> Rebuild es = Inr sn \<longleftrightarrow> played accepts initial es sn"
  unfolding Rebuild_def by (rule reversi_log.rebuild_iff_played)

lemma reversi_rebuild_iff_played_witness: "\<exists>e sn. Rebuild [e] = Inr sn"
proof -
  obtain e sn where "accepts initial e sn"
    using opening_accepted unfolding accepts_def by fast
  then have "played accepts initial ([] @ [e]) sn"
    by (intro played_step [OF played_start])
  with reversi_rebuild_iff_played [of "[e]" sn] show ?thesis by (auto simp: max_i64_def)
qed

text \<open>
  Invariant of all play: a log of accepted moves has at most 60 events, and the snapshot it
  reaches decodes to a state with one disc more than its start per move, both seats bound from the
  second move on, and never stuck: an active game offers the player to move exactly the legal
  moves, of which there is one, and a finished game is one where neither colour can move.
\<close>

lemma reversi_reachable:
  assumes "played accepts initial es sn"
  shows "length es \<le> 60 \<and> sn_revision sn = int (length es) \<and>
    (\<exists>s. decodeSnapshot sn = Inr s \<and>
      count_list (st_board s) 1 + count_list (st_board s) 2 = length es + 4 \<and>
      (2 \<le> length es \<longrightarrow> st_black s \<noteq> None \<and> st_white s \<noteq> None \<and> st_black s \<noteq> st_white s) \<and>
      (if st_status s = ''active''
       then set (st_legal s) \<noteq> {} \<and>
         (\<forall>q\<in>set (st_legal s). flips (st_board s) q (colorValue (st_next s)) \<noteq> [])
       else legal (st_board s) 1 = [] \<and> legal (st_board s) 2 = []))"
proof -
  obtain s where sn: "sn = \<lparr>sn_revision = int (length es), sn_state = marshalState s\<rparr>"
    and v: "valid_state (int (length es)) s" using rv_played_inv [OF assms] by (auto simp: play_inv_def)
  have "validCounts (int (length es)) s" using v unfolding valid_state_def by blast
  then have "i64 (st_blackCount s + st_whiteCount s) = i64 (int (length es) + 4)" unfolding validCounts_def by blast
  moreover have rv: "int (length es) \<le> 60" using v by (simp add: valid_state_def)
  moreover have l: "length (st_board s) = 64" using v by (simp add: valid_state_def)
  have "is_i64 (st_blackCount s + st_whiteCount s)" "is_i64 (int (length es) + 4)"
    unfolding counts_small(3,4) [OF v]
    using count_le_length [of "st_board s" 1] count_le_length [of "st_board s" 2] l rv
    by (auto intro!: is_i64_small)
  ultimately have "st_blackCount s + st_whiteCount s = int (length es) + 4" by (simp add: i64_id)
  then have cnt: "count_list (st_board s) 1 + count_list (st_board s) 2 = length es + 4"
    unfolding counts_small(3,4) [OF v] by linarith
  have seats: "2 \<le> length es \<Longrightarrow> st_black s \<noteq> None \<and> st_white s \<noteq> None \<and> st_black s \<noteq> st_white s"
    using v by (auto simp: valid_state_def validHistory_def validSeats_def split: if_splits)
  have vo: "validOutcome s" and lg: "\<forall>q\<in>set (st_legal s). inside (PX q) (PY q)"
    using v by (simp_all add: valid_state_def)
  have fin: "if st_status s = ''active''
       then set (st_legal s) \<noteq> {} \<and> (\<forall>q\<in>set (st_legal s). flips (st_board s) q (colorValue (st_next s)) \<noteq> [])
       else legal (st_board s) 1 = [] \<and> legal (st_board s) 2 = []"
  proof (cases "st_status s = ''active''")
    case True
    let ?c = "colorValue (st_next s)"
    from True vo have "legal (st_board s) ?c \<noteq> []"
      and r: "render (points_json (legal (st_board s) ?c)) = render (points_json (st_legal s))"
      by (auto simp: validOutcome_def Let_def)
    moreover have "dec_slice dec_point (pt 0 0) (points_json ps) [] = Some ps"
      if "\<forall>q\<in>set ps. inside (PX q) (PY q)" for ps
      unfolding points_json_def using that coord_i64 by (intro dec_slice_map dec_point_json) blast+
    then have um: "unmarshal (dec_slice dec_point (pt 0 0)) [] (render (points_json ps)) = Some ps"
      if "\<forall>q\<in>set ps. inside (PX q) (PY q)" for ps
      using that by (subst unmarshal_render) (simp_all add: points_json_def)
    have "\<forall>q\<in>set (legal (st_board s) ?c). inside (PX q) (PY q)" by (simp add: legal_iff)
    from um [OF this] um [OF lg] have "st_legal s = legal (st_board s) ?c" unfolding r by (metis option.inject)
    ultimately show ?thesis using True by (simp add: legal_iff)
  next
    case False
    with vo show ?thesis by (auto simp: validOutcome_def Let_def split: if_splits)
  qed
  have "length es \<le> 60" using rv by linarith
  moreover have "decodeSnapshot sn = Inr s" unfolding sn by (rule rv_decode_encode [OF v])
  moreover have "sn_revision sn = int (length es)" by (simp add: sn)
  ultimately show ?thesis using cnt seats fin by blast
qed

lemma reversi_reachable_witness:
  "\<exists>s. decodeSnapshot initial = Inr s \<and> count_list (st_board s) 1 + count_list (st_board s) 2 = 4"
  using reversi_reachable [OF played_start] by auto

end
