(* ===== verification/GoMap.thy ===== *)
theory GoMap
  imports GameApi
begin

text \<open>
  Go maps with string keys. A map is the association list of its entries in ascending byte order
  of the keys, the order in which \<open>encoding/json\<close> writes it; a nil map is \<open>None\<close> where the code
  tells it from an empty one. The locale \<open>string_map\<close> is what the engines rely on: an update
  changes one key, keeps the representation, and adds at most one entry. Its facts about maps
  over a known set of players are proved from these laws, and the association lists provide them.
\<close>

type_synonym 'v gomap = "(bytes \<times> 'v) list"

fun mput :: "bytes \<Rightarrow> 'v \<Rightarrow> 'v gomap \<Rightarrow> 'v gomap" where
  "mput k v [] = [(k, v)]"
| "mput k v (kv # m) =
     (if k < fst kv then (k, v) # kv # m
      else if k = fst kv then (k, v) # m
      else kv # mput k v m)"

definition mget :: "'v gomap \<Rightarrow> bytes \<Rightarrow> 'v option" where
  "mget m k = map_of m k"

definition mok :: "'v gomap \<Rightarrow> bool" where
  "mok m \<longleftrightarrow> sorted_wrt (<) (map fst m)"

definition jmap :: "('v \<Rightarrow> json) \<Rightarrow> 'v gomap \<Rightarrow> json" where
  "jmap f m = JObj (map (\<lambda>kv. (fst kv, f (snd kv))) m)"

text \<open>
  Decoding into a map: the entries are added to the map the variable holds, every value decoded
  into a fresh element; null makes the map nil.
\<close>

fun dec_map :: "(json \<Rightarrow> 'v \<Rightarrow> 'v option) \<Rightarrow> 'v \<Rightarrow> json \<Rightarrow> 'v gomap option \<Rightarrow> 'v gomap option option" where
  "dec_map d zero (JObj kvs) cur =
     map_option Some
       (fold_option (\<lambda>kv m. map_option (\<lambda>v. mput (fst kv) v m) (d (snd kv) zero)) kvs
         (case cur of None \<Rightarrow> [] | Some m \<Rightarrow> m))"
| "dec_map d zero JNull cur = Some None"
| "dec_map d zero _ cur = None"

lemma keys_mput: "fst ` set (mput k v m) = insert k (fst ` set m)"
  by (induction m) auto

lemma mok_Cons: "mok (kv # m) \<longleftrightarrow> (\<forall>x\<in>fst ` set m. fst kv < x) \<and> mok m"
  by (auto simp: mok_def)

lemma mok_mput: "mok m \<Longrightarrow> mok (mput k v m)"
proof (induction m)
  case (Cons kv m)
  then have gt: "\<forall>x\<in>fst ` set m. fst kv < x" and m: "mok m" unfolding mok_Cons by blast+
  show ?case
  proof (cases "k < fst kv")
    case True
    then have "\<forall>x\<in>fst ` set m. k < x" using gt order.strict_trans by blast
    with True gt m show ?thesis by (simp add: mok_Cons)
  next
    case False
    show ?thesis
    proof (cases "k = fst kv")
      case True
      with gt m show ?thesis by (simp add: mok_Cons)
    next
      case neq: False
      with False have "fst kv < k" by simp
      with gt have "\<forall>x\<in>fst ` set (mput k v m). fst kv < x" by (simp add: keys_mput)
      moreover have "mok (mput k v m)" by (rule Cons.IH [OF m])
      ultimately show ?thesis using False neq by (simp only: mput.simps if_False mok_Cons simp_thms)
    qed
  qed
qed (simp add: mok_def)

lemma mget_mput: "mok m \<Longrightarrow> mget (mput k v m) k' = (if k' = k then Some v else mget m k')"
proof (induction m)
  case (Cons kv m)
  show ?case
  proof (cases "k = fst kv")
    case True
    then show ?thesis by (cases kv) (simp add: mget_def)
  next
    case False
    with Cons show ?thesis by (cases kv) (auto simp: mget_def mok_def)
  qed
qed (simp add: mget_def)

lemma mget_keys: "mget m k = None \<longleftrightarrow> k \<notin> fst ` set m"
  by (simp add: mget_def map_of_eq_None_iff)

lemma length_mput_new: "mget m k = None \<Longrightarrow> length (mput k v m) = Suc (length m)"
  by (induction m) (auto simp: mget_def split: if_splits)

locale string_map =
  fixes get :: "'m \<Rightarrow> bytes \<Rightarrow> 'v option"
    and put :: "bytes \<Rightarrow> 'v \<Rightarrow> 'm \<Rightarrow> 'm"
    and size_of :: "'m \<Rightarrow> nat"
    and ok :: "'m \<Rightarrow> bool"
  assumes ok_put: "ok m \<Longrightarrow> ok (put k v m)"
    and get_put: "ok m \<Longrightarrow> get (put k v m) k' = (if k' = k then Some v else get m k')"
    and size_keys: "ok m \<Longrightarrow> size_of m = card {k. get m k \<noteq> None}"
    and finite_keys: "finite {k. get m k \<noteq> None}"
begin

text \<open>A map whose keys are among two players has at most two entries.\<close>

lemma two_players:
  assumes "ok m" and "\<And>k. get m k \<noteq> None \<Longrightarrow> k = a \<or> k = b"
  shows "size_of m \<le> 2"
proof -
  have "{k. get m k \<noteq> None} \<subseteq> {a, b}" using assms(2) by auto
  then have "card {k. get m k \<noteq> None} \<le> card {a, b}" by (rule card_mono [rotated]) simp
  also have "\<dots> \<le> 2" by (simp add: card_insert_if)
  finally show ?thesis using size_keys [OF assms(1)] by simp
qed

lemma size_put: "ok m \<Longrightarrow> size_of (put k v m) = (if get m k = None then Suc (size_of m) else size_of m)"
proof -
  assume ok: "ok m"
  have "{k'. get (put k v m) k' \<noteq> None} = insert k {k'. get m k' \<noteq> None}"
    using get_put [OF ok] by auto
  then show ?thesis
    using size_keys [OF ok] size_keys [OF ok_put [OF ok]] finite_keys [of m] by (auto simp: insert_absorb)
qed

lemma put_put: "ok m \<Longrightarrow> get (put k v (put k w m)) = get (put k v m)"
  by (simp add: fun_eq_iff get_put ok_put)

lemma put_commute:
  "ok m \<Longrightarrow> k \<noteq> k' \<Longrightarrow> get (put k v (put k' w m)) = get (put k' w (put k v m))"
  by (simp add: fun_eq_iff get_put ok_put)

end

interpretation gm: string_map mget mput length mok
proof
  fix m :: "'v gomap"
  show "finite {k. mget m k \<noteq> None}"
    using finite_subset [of "{k. mget m k \<noteq> None}" "fst ` set m"] by (auto simp: mget_keys)
  assume ok: "mok m"
  have "{k. mget m k \<noteq> None} = set (map fst m)" by (auto simp: mget_keys)
  moreover have "distinct (map fst m)" using ok by (simp add: mok_def strict_sorted_iff)
  ultimately show "length m = card {k. mget m k \<noteq> None}" by (metis distinct_card length_map)
qed (simp_all add: mok_mput mget_mput)

text \<open>An entry for a known list of at most two keys.\<close>

lemma mget_set: "mok m \<Longrightarrow> (k, v) \<in> set m \<longleftrightarrow> mget m k = Some v"
  unfolding mget_def by (rule map_of_eq_Some_iff [symmetric]) (simp add: mok_def strict_sorted_iff)

lemma mput_last: "mok (m @ [(k, v)]) \<Longrightarrow> mput k v m = m @ [(k, v)]"
  by (induction m) (auto simp: mok_def dest: order.asym)

subsection \<open>Round trip\<close>

lemma fold_mput:
  assumes "\<And>kv. kv \<in> set m \<Longrightarrow> d (f (snd kv)) zero = Some (snd kv)" and "mok (m0 @ m)"
  shows "fold_option (\<lambda>kv m. map_option (\<lambda>v. mput (fst kv) v m) (d (snd kv) zero))
      (map (\<lambda>kv. (fst kv, f (snd kv))) m) m0 = Some (m0 @ m)"
  using assms
proof (induction m arbitrary: m0)
  case (Cons kv m)
  from Cons.prems(2) have ok: "mok (m0 @ [(fst kv, snd kv)])" "mok ((m0 @ [kv]) @ m)"
    by (auto simp: mok_def sorted_wrt_append)
  from Cons.IH [OF _ ok(2)] Cons.prems(1) mput_last [OF ok(1)] show ?case by simp
qed simp

lemma dec_map_jmap:
  assumes "\<And>v. v \<in> snd ` set m \<Longrightarrow> d (f v) zero = Some v" and "mok m"
  shows "dec_map d zero (jmap f m) None = Some (Some m)"
  using fold_mput [of m d f zero "[]"] assms by (simp add: jmap_def)

lemma wf_jmap: "(\<And>k v. (k, v) \<in> set m \<Longrightarrow> utf8_valid k \<and> wf_json (f v)) \<Longrightarrow> wf_json (jmap f m)"
  by (auto simp: jmap_def)

lemma length_jmap:
  assumes "\<And>k v. (k, v) \<in> set m \<Longrightarrow> length k \<le> a \<and> length (render (f v)) \<le> b"
  shows "length (render (jmap f m)) \<le> 2 + (6 * a + 4 + b) * length m"
proof -
  have "(\<Sum>kv\<leftarrow>map (\<lambda>kv. (fst kv, f (snd kv))) m. 6 * length (fst kv) + 4 + length (render (snd kv)))
      \<le> (6 * a + 4 + b) * length m"
    using assms
  proof (induction m)
    case (Cons kv m)
    obtain k v where kv: "kv = (k, v)" by (cases kv)
    with Cons.prems [of k v] have "6 * length k + 4 + length (render (f v)) \<le> 6 * a + 4 + b" by simp
    moreover have "(\<Sum>kv\<leftarrow>map (\<lambda>kv. (fst kv, f (snd kv))) m. 6 * length (fst kv) + 4 + length (render (snd kv)))
        \<le> (6 * a + 4 + b) * length m"
      by (rule Cons.IH, rule Cons.prems) simp
    ultimately show ?case using kv by simp
  qed simp
  then show ?thesis
    using length_render_members_le [of "map (\<lambda>kv. (fst kv, f (snd kv))) m"] by (simp add: jmap_def)
qed

text \<open>Every map that decoding builds is in order.\<close>

lemma fold_option_mok:
  assumes "fold_option (\<lambda>kv m. map_option (\<lambda>v. mput (fst kv) v m) (g kv)) kvs m0 = Some m" and "mok m0"
  shows "mok m"
  using assms by (rule fold_option_invariant) (auto simp: mok_mput)

lemma dec_map_mok:
  assumes "dec_map d zero j cur = Some (Some m)" and "\<And>m0. cur = Some m0 \<Longrightarrow> mok m0"
  shows "mok m"
proof (cases j)
  case (JObj kvs)
  with assms(1) have "fold_option (\<lambda>kv m. map_option (\<lambda>v. mput (fst kv) v m) (d (snd kv) zero)) kvs
      (case cur of None \<Rightarrow> [] | Some m \<Rightarrow> m) = Some m" by simp
  then show ?thesis
    by (rule fold_option_mok) (use assms(2) in \<open>auto simp: mok_def split: option.split\<close>)
qed (use assms(1) in simp_all)

lemma dec_field_map_mok:
  assumes "dec_field names kvs n (dec_map d zero) z = Some (Some m)" and "\<And>m0. z = Some m0 \<Longrightarrow> mok m0"
  shows "mok m"
proof -
  have "case Some m of None \<Rightarrow> True | Some m \<Rightarrow> mok m"
    using assms(1) unfolding dec_field_def
    by (rule fold_option_invariant [where P = "\<lambda>x. case x of None \<Rightarrow> True | Some m \<Rightarrow> mok m"])
      (use assms(2) dec_map_mok in \<open>fastforce split: option.splits\<close>)+
  then show ?thesis by simp
qed

subsection \<open>Slices that can be nil\<close>

text \<open>\<open>None\<close> is the nil slice, which JSON writes as null.\<close>

definition nslice_json :: "('a \<Rightarrow> json) \<Rightarrow> 'a list option \<Rightarrow> json" where
  "nslice_json f xs = jptr (\<lambda>xs. JArr (map f xs)) xs"

text \<open>null makes the slice nil.\<close>

fun dec_nslice :: "(json \<Rightarrow> 'a \<Rightarrow> 'a option) \<Rightarrow> 'a \<Rightarrow> json \<Rightarrow> 'a list option \<Rightarrow> 'a list option option" where
  "dec_nslice d zero (JArr js) cur = map_option Some (map_partial (\<lambda>j. d j zero) js)"
| "dec_nslice d zero JNull cur = Some None"
| "dec_nslice d zero _ cur = None"

lemma dec_nslice_json:
  assumes "\<And>x. x \<in> set (valueOr [] xs) \<Longrightarrow> d (f x) zero = Some x"
  shows "dec_nslice d zero (nslice_json f xs) cur = Some xs"
proof (cases xs)
  case (Some ys)
  have "map_partial (\<lambda>j. d j zero) (map f ys) = Some (map (\<lambda>x. x) ys)"
    by (rule map_partial_map) (use assms Some in simp)
  then show ?thesis using Some by (simp add: nslice_json_def jptr_def)
qed (simp add: nslice_json_def jptr_def)

lemma wf_nslice: "(\<And>x. wf_json (f x)) \<Longrightarrow> wf_json (nslice_json f xs)"
  by (cases xs) (simp_all add: nslice_json_def jptr_def)

end
