(* ===== verification/Rps.thy ===== *)
theory Rps
  imports GoMap
begin

text \<open>
  Rock-paper-scissors (\<open>server/internal/games/rps/rules.go\<close>): configuration, rounds, the reveal of
  two locked choices and the scores. The rules instance is its \<open>format\<close>; the unconfigured
  template has the empty format. Choices and scores are Go maps (\<open>GoMap\<close>).
\<close>

definition GameID :: bytes where "GameID = ''rps''"
definition ChoiceRequested :: bytes where "ChoiceRequested = ''rps.choice.requested''"
definition ChoiceLocked :: bytes where "ChoiceLocked = ''rps.choice.locked''"
definition RoundRevealed :: bytes where "RoundRevealed = ''rps.round.revealed''"
definition FormatSingleRound :: bytes where "FormatSingleRound = ''single_round''"
definition FormatBestOfThree :: bytes where "FormatBestOfThree = ''best_of_three''"
definition Rock :: bytes where "Rock = ''rock''"
definition Paper :: bytes where "Paper = ''paper''"
definition Scissors :: bytes where "Scissors = ''scissors''"

definition validFormat :: "bytes \<Rightarrow> bool" where
  "validFormat format \<longleftrightarrow> format = FormatSingleRound \<or> format = FormatBestOfThree"

definition validChoice :: "bytes \<Rightarrow> bool" where
  "validChoice choice \<longleftrightarrow> choice = Rock \<or> choice = Paper \<or> choice = Scissors"

definition compare :: "bytes \<Rightarrow> bytes \<Rightarrow> int" where
  "compare left right =
     (if left = right then 0
      else if left = Rock \<and> right = Scissors \<or> left = Paper \<and> right = Rock \<or>
              left = Scissors \<and> right = Paper then 1
      else -1)"

subsection \<open>State, events and their JSON\<close>

record reveal =
  rv_round :: int
  rv_choices :: "bytes gomap option"
  rv_winner :: "bytes option"
  rv_draw :: bool
  rv_scores :: "int gomap option"
  rv_matchWinner :: "bytes option"
  rv_result :: "bytes option"

record state =
  st_status :: bytes
  st_format :: bytes
  st_round :: int
  st_choices :: "bytes gomap option"
  st_scores :: "int gomap option"
  st_last :: "reveal option"
  st_winner :: "bytes option"
  st_result :: "bytes option"

record locked =
  lk_round :: int
  lk_user :: bytes
  lk_choice :: bytes

definition reveal_members :: "reveal \<Rightarrow> (bytes \<times> json) list" where
  "reveal_members r =
     [(''round'', jint (rv_round r)),
      (''choices'', jptr (jmap JStr) (rv_choices r)),
      (''roundWinnerUserId'', jptr JStr (rv_winner r)),
      (''draw'', JBool (rv_draw r)),
      (''scores'', jptr (jmap jint) (rv_scores r)),
      (''matchWinnerUserId'', jptr JStr (rv_matchWinner r)),
      (''result'', jptr JStr (rv_result r))]"

definition reveal_names :: "bytes list" where
  "reveal_names = [''round'', ''choices'', ''roundWinnerUserId'', ''draw'', ''scores'',
     ''matchWinnerUserId'', ''result'']"

definition state_members :: "state \<Rightarrow> (bytes \<times> json) list" where
  "state_members s =
     [(''status'', JStr (st_status s)),
      (''format'', JStr (st_format s)),
      (''round'', jint (st_round s)),
      (''choices'', jptr (jmap JStr) (st_choices s)),
      (''scores'', jptr (jmap jint) (st_scores s)),
      (''lastReveal'', jptr (\<lambda>r. JObj (reveal_members r)) (st_last s)),
      (''winnerUserId'', jptr JStr (st_winner s)),
      (''result'', jptr JStr (st_result s))]"

definition state_names :: "bytes list" where
  "state_names = [''status'', ''format'', ''round'', ''choices'', ''scores'', ''lastReveal'',
     ''winnerUserId'', ''result'']"

definition locked_members :: "locked \<Rightarrow> (bytes \<times> json) list" where
  "locked_members l =
     [(''round'', jint (lk_round l)), (''userId'', JStr (lk_user l)), (''choice'', JStr (lk_choice l))]"

definition locked_names :: "bytes list" where
  "locked_names = [''round'', ''userId'', ''choice'']"

text \<open>With \<open>DisallowUnknownFields\<close> a member that matches no field is an error, also in a nested struct.\<close>

definition known_fields :: "bool \<Rightarrow> bytes list \<Rightarrow> (bytes \<times> json) list \<Rightarrow> bool" where
  "known_fields strict names kvs \<longleftrightarrow>
     (strict \<longrightarrow> list_all (\<lambda>k. match_field names k \<noteq> None) (map fst kvs))"

definition dec_reveal :: "bool \<Rightarrow> json \<Rightarrow> reveal \<Rightarrow> reveal option" where
  "dec_reveal strict j cur = do {
     kvs \<leftarrow> obj_fields j;
     (if known_fields strict reveal_names kvs then Some () else None);
     rnd \<leftarrow> dec_field reveal_names kvs ''round'' dec_int (rv_round cur);
     ch \<leftarrow> dec_field reveal_names kvs ''choices'' (dec_map dec_string '''') (rv_choices cur);
     rw \<leftarrow> dec_field reveal_names kvs ''roundWinnerUserId'' (dec_ptr dec_string '''') (rv_winner cur);
     dr \<leftarrow> dec_field reveal_names kvs ''draw'' dec_bool (rv_draw cur);
     sc \<leftarrow> dec_field reveal_names kvs ''scores'' (dec_map dec_int 0) (rv_scores cur);
     mw \<leftarrow> dec_field reveal_names kvs ''matchWinnerUserId'' (dec_ptr dec_string '''') (rv_matchWinner cur);
     re \<leftarrow> dec_field reveal_names kvs ''result'' (dec_ptr dec_string '''') (rv_result cur);
     Some \<lparr>rv_round = rnd, rv_choices = ch, rv_winner = rw, rv_draw = dr, rv_scores = sc,
           rv_matchWinner = mw, rv_result = re\<rparr> }"

definition zero_reveal :: reveal where
  "zero_reveal = \<lparr>rv_round = 0, rv_choices = None, rv_winner = None, rv_draw = False,
     rv_scores = None, rv_matchWinner = None, rv_result = None\<rparr>"

definition dec_state :: "json \<Rightarrow> state option" where
  "dec_state j = do {
     kvs \<leftarrow> obj_fields j;
     (if known_fields True state_names kvs then Some () else None);
     status \<leftarrow> dec_field state_names kvs ''status'' dec_string '''';
     format \<leftarrow> dec_field state_names kvs ''format'' dec_string '''';
     rnd \<leftarrow> dec_field state_names kvs ''round'' dec_int 0;
     ch \<leftarrow> dec_field state_names kvs ''choices'' (dec_map dec_string '''') None;
     sc \<leftarrow> dec_field state_names kvs ''scores'' (dec_map dec_int 0) None;
     last \<leftarrow> dec_field state_names kvs ''lastReveal'' (dec_ptr (dec_reveal True) zero_reveal) None;
     winner \<leftarrow> dec_field state_names kvs ''winnerUserId'' (dec_ptr dec_string '''') None;
     result \<leftarrow> dec_field state_names kvs ''result'' (dec_ptr dec_string '''') None;
     Some \<lparr>st_status = status, st_format = format, st_round = rnd, st_choices = ch, st_scores = sc,
           st_last = last, st_winner = winner, st_result = result\<rparr> }"

definition encodeState :: "int \<Rightarrow> state \<Rightarrow> snapshot" where
  "encodeState revision current =
     \<lparr>sn_revision = revision, sn_state = render (JObj (state_members current))\<rparr>"

definition decodeObject :: "bytes \<Rightarrow> bytes list \<Rightarrow> (bytes \<times> bytes) list option" where
  "decodeObject data allowed =
     (if length data = 0 \<or> length data > 16384 \<or> \<not> utf8_valid data then None
      else strict_object allowed data)"

definition decodeConfig :: "bytes \<Rightarrow> game_error + bytes" where
  "decodeConfig config =
     or_fail (do {
       flds \<leftarrow> decodeObject config [''format''];
       (if length flds = 1 then Some () else None);
       format \<leftarrow> unmarshal dec_string '''' (the (map_of flds ''format''));
       (if validFormat format then Some format else None)
     }) RpsInvalidFormat"

definition Configure :: "bytes \<Rightarrow> game_error + bytes" where
  "Configure config = decodeConfig config"

definition decodeChoice :: "bytes \<Rightarrow> game_error + bytes" where
  "decodeChoice payload =
     (case decodeObject payload [''choice''] of
        None \<Rightarrow> Inl ErrInvalidAction
      | Some flds \<Rightarrow>
          if length flds \<noteq> 1 then Inl ErrInvalidAction
          else (case unmarshal dec_string '''' (the (map_of flds ''choice'')) of
             None \<Rightarrow> Inl RpsInvalidChoice
           | Some choice \<Rightarrow> if \<not> validChoice choice then Inl RpsInvalidChoice else Inr choice))"

definition decodeLocked :: "bytes \<Rightarrow> locked option" where
  "decodeLocked payload = do {
     flds \<leftarrow> decodeObject payload locked_names;
     (if length flds = 3 then Some () else None);
     j \<leftarrow> json_parse payload;
     kvs \<leftarrow> obj_fields j;
     rnd \<leftarrow> dec_field locked_names kvs ''round'' dec_int 0;
     user \<leftarrow> dec_field locked_names kvs ''userId'' dec_string '''';
     choice \<leftarrow> dec_field locked_names kvs ''choice'' dec_string '''';
     (if rnd < 1 \<or> \<not> validActorID user \<or> \<not> validChoice choice then None
      else Some \<lparr>lk_round = rnd, lk_user = user, lk_choice = choice\<rparr>) }"

definition decodeReveal :: "bytes \<Rightarrow> reveal option" where
  "decodeReveal payload = do {
     flds \<leftarrow> decodeObject payload reveal_names;
     (if length flds = length reveal_names then Some () else None);
     value \<leftarrow> unmarshal (dec_reveal False) zero_reveal payload;
     (if rv_round value < 1 \<or> length (valueOr [] (rv_choices value)) \<noteq> 2 \<or>
         length (valueOr [] (rv_scores value)) > 2 then None
      else if list_all (\<lambda>(userID, choice). \<not> (\<not> validActorID userID \<or> \<not> validChoice choice))
           (valueOr [] (rv_choices value)) then Some value else None) }"

definition decodeState :: "snapshot \<Rightarrow> bytes \<Rightarrow> state option" where
  "decodeState sn format =
     (if sn_revision sn < 0 \<or> length (sn_state sn) = 0 \<or> length (sn_state sn) > 16384 \<or>
         \<not> utf8_valid (sn_state sn) then None
      else do {
        (j, rest) \<leftarrow> json_decode (sn_state sn);
        current \<leftarrow> dec_state j;
        (if st_format current \<noteq> format \<or> \<not> validFormat (st_format current) \<or> st_round current < 1 \<or>
            st_choices current = None \<or> st_scores current = None \<or>
            length (valueOr [] (st_choices current)) > 2 \<or> length (valueOr [] (st_scores current)) > 2
         then None
         else if st_status current \<noteq> ''active'' \<and> st_status current \<noteq> ''finished'' then None
         else if \<not> list_all (\<lambda>(userID, choice). \<not> (\<not> validActorID userID \<or> \<not> validChoice choice))
                (valueOr [] (st_choices current)) then None
         else if \<not> list_all (\<lambda>(userID, score). \<not> (\<not> validActorID userID \<or> score < 0 \<or> score > 2))
                (valueOr [] (st_scores current)) then None
         else Some current) })"

subsection \<open>Rules\<close>

definition initialState :: "bytes \<Rightarrow> state" where
  "initialState format =
     \<lparr>st_status = ''active'', st_format = format, st_round = 1, st_choices = Some [],
      st_scores = Some [], st_last = None, st_winner = None, st_result = None\<rparr>"

definition initialSnapshot :: "bytes \<Rightarrow> game_error + snapshot" where
  "initialSnapshot format =
     (if \<not> validFormat format then Inl RpsInvalidFormat else Inr (encodeState 0 (initialState format)))"

text \<open>
  The end of a round: both choices are known. \<open>current\<close> holds the two choices; the keys of a map
  are iterated in any order and then sorted, here they are in order.
\<close>

definition roundWinnerOf :: "bytes gomap \<Rightarrow> bytes option" where
  "roundWinnerOf choices =
     (let left = fst (choices ! 0); right = fst (choices ! 1);
          comparison = compare (snd (choices ! 0)) (snd (choices ! 1))
      in if comparison > 0 then Some left else if comparison < 0 then Some right else None)"

definition scoreAfter :: "bytes option \<Rightarrow> int gomap \<Rightarrow> int gomap" where
  "scoreAfter roundWinner scores =
     (case roundWinner of None \<Rightarrow> scores
      | Some w \<Rightarrow> mput w (i64 ((case mget scores w of None \<Rightarrow> 0 | Some n \<Rightarrow> n) + 1)) scores)"

definition matchWinnerOf :: "bytes \<Rightarrow> bytes option \<Rightarrow> int gomap \<Rightarrow> bytes option" where
  "matchWinnerOf format roundWinner scores =
     (case roundWinner of None \<Rightarrow> None
      | Some w \<Rightarrow>
          if format = FormatSingleRound \<or> (case mget scores w of None \<Rightarrow> 0 | Some n \<Rightarrow> n) \<ge> 2
          then Some w else None)"

definition revealRound :: "bytes \<Rightarrow> state \<Rightarrow> bytes gomap \<Rightarrow> int gomap \<Rightarrow> reveal \<times> state" where
  "revealRound format current choices scores0 =
     (let roundWinner = roundWinnerOf choices;
          scores = scoreAfter roundWinner scores0;
          matchWinner = matchWinnerOf format roundWinner scores;
          result = (if matchWinner = None then None else Some ''rounds'');
          status = (if matchWinner = None then st_status current else ''finished'');
          revealed = \<lparr>rv_round = st_round current, rv_choices = Some choices, rv_winner = roundWinner,
            rv_draw = (roundWinner = None), rv_scores = Some scores, rv_matchWinner = matchWinner,
            rv_result = result\<rparr>
      in (revealed,
          current\<lparr>st_status := status,
            st_winner := (if matchWinner = None then st_winner current else matchWinner),
            st_result := (if matchWinner = None then st_result current else result),
            st_scores := Some scores, st_last := Some revealed, st_choices := Some [],
            st_round := (if status = ''active'' then i64 (st_round current + 1) else st_round current)\<rparr>))"

definition apply_choice :: "bytes \<Rightarrow> snapshot \<Rightarrow> bytes \<Rightarrow> bytes \<Rightarrow> game_error + event \<times> snapshot" where
  "apply_choice format sn actorID choice =
     (case decodeState sn format of
        None \<Rightarrow> Inl ErrInvalidSnapshot
      | Some current \<Rightarrow>
          if st_status current \<noteq> ''active'' then Inl RpsMatchFinished
          else if \<not> validChoice choice then Inl RpsInvalidChoice
          else
            let choices0 = valueOr [] (st_choices current);
                scores0 = valueOr [] (st_scores current)
            in if mget choices0 actorID \<noteq> None then Inl RpsChoiceLocked
            else
              let choices = mput actorID choice choices0;
                  revision = i64 (sn_revision sn + 1)
              in if length choices = 1 then
                Inr (\<lparr>ev_revision = revision, ev_type = ChoiceLocked, ev_actor = actorID,
                      ev_payload = render (JObj (locked_members
                        \<lparr>lk_round = st_round current, lk_user = actorID, lk_choice = choice\<rparr>))\<rparr>,
                     encodeState revision (current\<lparr>st_choices := Some choices\<rparr>))
              else if length choices \<noteq> 2 then Inl ErrInvalidSnapshot
              else (case revealRound format current choices scores0 of
                (revealed, next) \<Rightarrow>
                  Inr (\<lparr>ev_revision = revision, ev_type = RoundRevealed, ev_actor = actorID,
                        ev_payload = render (JObj (reveal_members revealed))\<rparr>,
                       encodeState revision next)))"

definition Apply :: "bytes \<Rightarrow> snapshot \<Rightarrow> bytes \<Rightarrow> action \<Rightarrow> game_error + event \<times> snapshot" where
  "Apply format sn actorID act =
     (if \<not> validFormat format \<or> act_type act \<noteq> ChoiceRequested \<or> \<not> validActorID actorID
      then Inl ErrInvalidAction
      else and_then (decodeChoice (act_payload act)) (\<lambda>choice.
        if sn_state sn = [] \<and> sn_revision sn = 0 then
          (case initialSnapshot format of
             Inl _ \<Rightarrow> Inl ErrInvalidSnapshot
           | Inr sn' \<Rightarrow> apply_choice format sn' actorID choice)
        else apply_choice format sn actorID choice))"

text \<open>The choice that a persisted event carries.\<close>

definition eventChoice :: "event \<Rightarrow> bytes option" where
  "eventChoice e =
     (if ev_type e = ChoiceLocked then
        (case decodeLocked (ev_payload e) of
           None \<Rightarrow> None
         | Some payload \<Rightarrow> if lk_user payload \<noteq> ev_actor e then None else Some (lk_choice payload))
      else if ev_type e = RoundRevealed then
        (case decodeReveal (ev_payload e) of
           None \<Rightarrow> None
         | Some payload \<Rightarrow>
             let choice = (case mget (valueOr [] (rv_choices payload)) (ev_actor e) of None \<Rightarrow> '''' | Some c \<Rightarrow> c)
             in if choice = '''' then None else Some choice)
      else None)"

definition rebuildBody :: "bytes \<Rightarrow> int \<Rightarrow> event \<Rightarrow> snapshot \<Rightarrow> game_error + snapshot" where
  "rebuildBody format i e sn =
     (if ev_revision e \<noteq> i + 1 \<or> \<not> validActorID (ev_actor e) then Inl ErrInvalidEvent
      else case eventChoice e of
        None \<Rightarrow> Inl ErrInvalidEvent
      | Some choice \<Rightarrow>
          (case apply_choice format sn (ev_actor e) choice of
             Inl _ \<Rightarrow> Inl ErrInvalidEvent
           | Inr (produced, nxt) \<Rightarrow>
               if ev_revision produced \<noteq> ev_revision e \<or> ev_type produced \<noteq> ev_type e \<or>
                  ev_actor produced \<noteq> ev_actor e \<or> ev_payload produced \<noteq> ev_payload e
               then Inl ErrInvalidEvent else Inr nxt))"

definition Rebuild :: "bytes \<Rightarrow> event list \<Rightarrow> game_error + snapshot" where
  "Rebuild format events =
     (case initialSnapshot format of
        Inl _ \<Rightarrow> Inl ErrInvalidSnapshot
      | Inr sn \<Rightarrow> rebuild_loop (rebuildBody format) 0 events sn)"

subsection \<open>Codecs\<close>

definition entries_ok :: "('v \<Rightarrow> bool) \<Rightarrow> 'v gomap \<Rightarrow> bool" where
  "entries_ok P m \<longleftrightarrow> mok m \<and> (\<forall>kv\<in>set m. validActorID (fst kv) \<and> P (snd kv))"

definition score_ok :: "int \<Rightarrow> bool" where
  "score_ok n \<longleftrightarrow> 0 \<le> n \<and> n \<le> 3"

definition reveal_ok :: "reveal \<Rightarrow> bool" where
  "reveal_ok r \<longleftrightarrow> is_i64 (rv_round r) \<and>
     (\<exists>ch. rv_choices r = Some ch \<and> entries_ok validChoice ch \<and> length ch \<le> 2) \<and>
     (\<exists>sc. rv_scores r = Some sc \<and> entries_ok score_ok sc \<and> length sc \<le> 3) \<and>
     validOptionalActor (rv_winner r) \<and> validOptionalActor (rv_matchWinner r) \<and>
     rv_result r \<in> {None, Some ''rounds''}"

definition state_ok :: "state \<Rightarrow> bool" where
  "state_ok s \<longleftrightarrow> st_status s \<in> {''active'', ''finished''} \<and> validFormat (st_format s) \<and>
     1 \<le> st_round s \<and> is_i64 (st_round s) \<and>
     (\<exists>ch. st_choices s = Some ch \<and> entries_ok validChoice ch \<and> length ch \<le> 2) \<and>
     (\<exists>sc. st_scores s = Some sc \<and> entries_ok (\<lambda>n. 0 \<le> n \<and> n \<le> 2) sc \<and> length sc \<le> 2) \<and>
     (\<forall>r. st_last s = Some r \<longrightarrow> reveal_ok r) \<and> validOptionalActor (st_winner s) \<and>
     st_result s \<in> {None, Some ''rounds''}"

lemma choice_string: "validChoice c \<Longrightarrow> utf8_valid c \<and> length c \<le> 8 \<and> c \<noteq> ''''"
  by (auto simp: validChoice_def Rock_def Paper_def Scissors_def utf8_valid_ascii)

lemma format_string: "validFormat c \<Longrightarrow> utf8_valid c \<and> length c \<le> 13"
  by (auto simp: validFormat_def FormatSingleRound_def FormatBestOfThree_def utf8_valid_ascii)

lemma i64_length: "is_i64 x \<Longrightarrow> length (render (jint x)) \<le> 20"
  using length_show_int [of x 19] by (auto simp: jint_def is_i64_def max_i64_def)

lemma choices_json:
  assumes "entries_ok validChoice m"
  shows "wf_json (jmap JStr m)" and "dec_map dec_string '''' (jmap JStr m) None = Some (Some m)"
    and "length m \<le> 2 \<Longrightarrow> length (render (jmap JStr m)) \<le> 1700"
proof -
  show "wf_json (jmap JStr m)"
    using assms choice_string validActorID_utf8 by (intro wf_jmap) (fastforce simp: entries_ok_def)
  show "dec_map dec_string '''' (jmap JStr m) None = Some (Some m)"
    using assms by (intro dec_map_jmap) (simp_all add: entries_ok_def)
  assume l: "length m \<le> 2"
  have "length k \<le> 128 \<and> length (render (JStr v)) \<le> 50" if "(k, v) \<in> set m" for k v
    using that assms length_render_jstr [of v] choice_string [of v] validActorID_length [of k]
    by (fastforce simp: entries_ok_def)
  then have "length (render (jmap JStr m)) \<le> 2 + (6 * 128 + 4 + 50) * length m"
    by (rule length_jmap)
  with l show "length (render (jmap JStr m)) \<le> 1700" by simp
qed

lemma scores_json:
  assumes "entries_ok is_i64 m"
  shows "wf_json (jmap jint m)" and "dec_map dec_int 0 (jmap jint m) None = Some (Some m)"
    and "length m \<le> 3 \<Longrightarrow> length (render (jmap jint m)) \<le> 2400"
proof -
  show "wf_json (jmap jint m)"
    using assms validActorID_utf8 by (intro wf_jmap) (fastforce simp: entries_ok_def)
  show "dec_map dec_int 0 (jmap jint m) None = Some (Some m)"
    using assms by (intro dec_map_jmap) (auto simp: entries_ok_def dec_int_jint)
  assume l: "length m \<le> 3"
  have "length k \<le> 128 \<and> length (render (jint v)) \<le> 20" if "(k, v) \<in> set m" for k v
    using that assms i64_length [of v] validActorID_length [of k] by (fastforce simp: entries_ok_def)
  then have "length (render (jmap jint m)) \<le> 2 + (6 * 128 + 4 + 20) * length m"
    by (rule length_jmap)
  with l show "length (render (jmap jint m)) \<le> 2400" by simp
qed

lemma entries_ok_mono: "entries_ok P m \<Longrightarrow> (\<And>v. P v \<Longrightarrow> Q v) \<Longrightarrow> entries_ok Q m"
  by (auto simp: entries_ok_def)

lemma score_i64: "score_ok n \<Longrightarrow> is_i64 n" "0 \<le> n \<and> n \<le> 2 \<Longrightarrow> is_i64 n"
  by (auto simp: score_ok_def intro!: is_i64_small)

lemma reveal_keys [json_simps]: "map fst (reveal_members r) = reveal_names" "distinct reveal_names"
  by (simp_all add: reveal_members_def reveal_names_def)

lemma state_keys [json_simps]: "map fst (state_members s) = state_names" "distinct state_names"
  by (simp_all add: state_members_def state_names_def)

lemma locked_keys [json_simps]: "map fst (locked_members l) = locked_names" "distinct locked_names"
  by (simp_all add: locked_members_def locked_names_def)

lemma reveal_of [json_simps]:
  "map_of (reveal_members r) ''round'' = Some (jint (rv_round r))"
  "map_of (reveal_members r) ''choices'' = Some (jptr (jmap JStr) (rv_choices r))"
  "map_of (reveal_members r) ''roundWinnerUserId'' = Some (jptr JStr (rv_winner r))"
  "map_of (reveal_members r) ''draw'' = Some (JBool (rv_draw r))"
  "map_of (reveal_members r) ''scores'' = Some (jptr (jmap jint) (rv_scores r))"
  "map_of (reveal_members r) ''matchWinnerUserId'' = Some (jptr JStr (rv_matchWinner r))"
  "map_of (reveal_members r) ''result'' = Some (jptr JStr (rv_result r))"
  by (simp_all add: reveal_members_def)

lemma rp_state_of [json_simps]:
  "map_of (state_members s) ''status'' = Some (JStr (st_status s))"
  "map_of (state_members s) ''format'' = Some (JStr (st_format s))"
  "map_of (state_members s) ''round'' = Some (jint (st_round s))"
  "map_of (state_members s) ''choices'' = Some (jptr (jmap JStr) (st_choices s))"
  "map_of (state_members s) ''scores'' = Some (jptr (jmap jint) (st_scores s))"
  "map_of (state_members s) ''lastReveal'' = Some (jptr (\<lambda>r. JObj (reveal_members r)) (st_last s))"
  "map_of (state_members s) ''winnerUserId'' = Some (jptr JStr (st_winner s))"
  "map_of (state_members s) ''result'' = Some (jptr JStr (st_result s))"
  by (simp_all add: state_members_def)

lemma locked_of [json_simps]:
  "map_of (locked_members l) ''round'' = Some (jint (lk_round l))"
  "map_of (locked_members l) ''userId'' = Some (JStr (lk_user l))"
  "map_of (locked_members l) ''choice'' = Some (JStr (lk_choice l))"
  by (simp_all add: locked_members_def)

lemma struct_field [json_simps]:
  "map_of (reveal_members r) n = Some j \<Longrightarrow> dec_field reveal_names (reveal_members r) n d z = d j z"
  "map_of (state_members s) n = Some j \<Longrightarrow> dec_field state_names (state_members s) n d z = d j z"
  "map_of (locked_members l) n = Some j \<Longrightarrow> dec_field locked_names (locked_members l) n d z = d j z"
  by (intro dec_field_exact; simp add: json_simps)+

lemma known_exact [json_simps]:
  "known_fields strict reveal_names (reveal_members r)" "known_fields strict state_names (state_members s)"
  by (simp_all add: known_fields_def json_simps list_all_iff)

lemma wf_result: "r \<in> {None, Some ''rounds''} \<Longrightarrow> wf_json (jptr JStr r) \<and> length (render (jptr JStr r)) \<le> 60"
  using length_render_jstr [of "''rounds''"] by (auto simp: jptr_def utf8_valid_ascii simp del: render.simps(4))

text \<open>What is needed to read a reveal back; the bounds on the sizes are apart.\<close>

definition reveal_wf :: "reveal \<Rightarrow> bool" where
  "reveal_wf r \<longleftrightarrow> is_i64 (rv_round r) \<and>
     (\<exists>ch. rv_choices r = Some ch \<and> entries_ok validChoice ch) \<and>
     (\<exists>sc. rv_scores r = Some sc \<and> entries_ok is_i64 sc) \<and>
     validOptionalActor (rv_winner r) \<and> validOptionalActor (rv_matchWinner r) \<and>
     rv_result r \<in> {None, Some ''rounds''}"

lemma reveal_ok_wf: "reveal_ok r \<Longrightarrow> reveal_wf r"
  using entries_ok_mono [OF _ score_i64(1)] by (auto simp: reveal_ok_def reveal_wf_def)

lemma reveal_members_wf:
  assumes "reveal_wf r"
  shows "\<forall>kv\<in>set (reveal_members r). utf8_valid (fst kv) \<and> wf_json (snd kv)"
proof -
  have "wf_json (jptr (jmap JStr) (rv_choices r))" "wf_json (jptr (jmap jint) (rv_scores r))"
    using assms choices_json(1) scores_json(1) by (auto simp: reveal_wf_def jptr_def)
  then show ?thesis
    using assms wf_opt_actor wf_result [of "rv_result r"]
    by (simp add: reveal_members_def reveal_wf_def utf8_valid_ascii)
qed

lemma dec_reveal_members:
  assumes "reveal_wf r"
  shows "dec_reveal strict (JObj (reveal_members r)) zero_reveal = Some r"
proof -
  from assms obtain ch sc where c: "rv_choices r = Some ch" "entries_ok validChoice ch"
    and s: "rv_scores r = Some sc" "entries_ok is_i64 sc" and i: "is_i64 (rv_round r)"
    by (auto simp: reveal_wf_def)
  then show ?thesis
    using choices_json(2) [OF c(2)] scores_json(2) [OF s(2)]
    by (simp add: dec_reveal_def json_simps zero_reveal_def jptr_def [of _ "Some _"])
qed

lemma length_reveal:
  assumes "reveal_ok r"
  shows "length (render (JObj (reveal_members r))) \<le> 7000"
proof -
  from assms obtain ch sc where c: "rv_choices r = Some ch" "entries_ok validChoice ch" "length ch \<le> 2"
    and s: "rv_scores r = Some sc" "entries_ok score_ok sc" "length sc \<le> 3" and i: "is_i64 (rv_round r)"
    and v: "validOptionalActor (rv_winner r)" "validOptionalActor (rv_matchWinner r)"
    "rv_result r \<in> {None, Some ''rounds''}"
    by (auto simp: reveal_ok_def)
  note s' = entries_ok_mono [OF s(2) score_i64(1)]
  have "length (render (jptr (jmap JStr) (rv_choices r))) \<le> 1700"
    "length (render (jptr (jmap jint) (rv_scores r))) \<le> 2400"
    using choices_json(3) [OF c(2,3)] scores_json(3) [OF s' s(3)] c(1) s(1) by (simp_all add: jptr_def)
  moreover have "length (render (JBool (rv_draw r))) \<le> 5" by simp
  moreover note i64_length [OF i] length_render_opt_actor [OF v(1)] length_render_opt_actor [OF v(2)]
    wf_result [OF v(3)] length_render_members_le [of "reveal_members r"]
  ultimately show ?thesis
    by (simp add: reveal_members_def del: render.simps(2))
qed

lemma decodeReveal_members:
  assumes "reveal_ok r" and "1 \<le> rv_round r" and "length (valueOr [] (rv_choices r)) = 2"
    and "length (valueOr [] (rv_scores r)) \<le> 2"
  shows "decodeReveal (render (JObj (reveal_members r))) = Some r"
proof -
  note wf = reveal_members_wf [OF reveal_ok_wf [OF assms(1)]]
  have "unmarshal (dec_reveal False) zero_reveal (render (JObj (reveal_members r))) = Some r"
    using wf dec_reveal_members [OF reveal_ok_wf [OF assms(1)]] by (subst unmarshal_render) auto
  moreover have "strict_object reveal_names (render (JObj (reveal_members r))) = Some (raw_members (reveal_members r))"
    using wf by (intro strict_object_render) (simp_all add: json_simps)
  moreover have "length (reveal_members r) = length reveal_names"
    by (simp add: reveal_members_def reveal_names_def)
  moreover have "list_all (\<lambda>(u, c). \<not> (\<not> validActorID u \<or> \<not> validChoice c)) (valueOr [] (rv_choices r))"
    using assms(1) by (fastforce simp: reveal_ok_def entries_ok_def list_all_iff)
  ultimately show ?thesis
    using assms length_reveal [OF assms(1)] utf8_valid_render_obj [OF wf]
    by (simp add: decodeReveal_def decodeObject_def json_simps del: render.simps)
qed

lemma decodeLocked_members:
  assumes "1 \<le> lk_round l" and "is_i64 (lk_round l)" and "validActorID (lk_user l)"
    and "validChoice (lk_choice l)"
  shows "decodeLocked (render (JObj (locked_members l))) = Some l"
proof -
  have wf: "\<forall>kv\<in>set (locked_members l). utf8_valid (fst kv) \<and> wf_json (snd kv)"
    using assms validActorID_utf8 choice_string by (simp add: locked_members_def utf8_valid_ascii)
  then have "json_parse (render (JObj (locked_members l))) = Some (JObj (locked_members l))"
    by (intro json_parse_render) simp
  moreover have "strict_object locked_names (render (JObj (locked_members l))) = Some (raw_members (locked_members l))"
    using wf by (intro strict_object_render) (simp_all add: json_simps)
  moreover have "length (locked_members l) = 3" by (simp add: locked_members_def)
  moreover have "length (render (JObj (locked_members l))) \<le> 16384"
    using length_render_members_le [of "locked_members l"] i64_length [OF assms(2)]
      length_render_actor [OF assms(3)] length_render_jstr [of "lk_choice l"] choice_string [OF assms(4)]
    by (simp add: locked_members_def del: render.simps(4))
  ultimately show ?thesis
    using assms utf8_valid_render_obj [OF wf]
    by (simp add: decodeLocked_def decodeObject_def json_simps del: render.simps)
qed

lemma state_members_wf:
  assumes "state_ok s"
  shows "\<forall>kv\<in>set (state_members s). utf8_valid (fst kv) \<and> wf_json (snd kv)"
proof -
  from assms obtain ch sc where c: "st_choices s = Some ch" "entries_ok validChoice ch"
    and sc: "st_scores s = Some sc" "entries_ok (\<lambda>n. 0 \<le> n \<and> n \<le> 2) sc"
    by (auto simp: state_ok_def)
  have "wf_json (jptr (jmap JStr) (st_choices s))" "wf_json (jptr (jmap jint) (st_scores s))"
    using choices_json(1) [OF c(2)] scores_json(1) [OF entries_ok_mono [OF sc(2) score_i64(2)]] c(1) sc(1)
    by (simp_all add: jptr_def)
  moreover have "wf_json (jptr (\<lambda>r. JObj (reveal_members r)) (st_last s))"
    using assms reveal_members_wf [OF reveal_ok_wf] by (cases "st_last s") (auto simp: jptr_def state_ok_def)
  ultimately show ?thesis
    using assms wf_opt_actor [of "st_winner s"] wf_result [of "st_result s"] format_string [of "st_format s"]
    by (auto simp add: state_members_def state_ok_def utf8_valid_ascii)
qed

lemma dec_state_members:
  assumes "state_ok s"
  shows "dec_state (JObj (state_members s)) = Some s"
proof -
  from assms obtain ch sc where c: "st_choices s = Some ch" "entries_ok validChoice ch"
    and sc: "st_scores s = Some sc" "entries_ok (\<lambda>n. 0 \<le> n \<and> n \<le> 2) sc"
    and rnd: "is_i64 (st_round s)" and last: "\<forall>r. st_last s = Some r \<longrightarrow> reveal_ok r"
    by (auto simp: state_ok_def)
  have "dec_map dec_string '''' (jptr (jmap JStr) (st_choices s)) None = Some (st_choices s)"
    "dec_map dec_int 0 (jptr (jmap jint) (st_scores s)) None = Some (st_scores s)"
    using choices_json(2) [OF c(2)] scores_json(2) [OF entries_ok_mono [OF sc(2) score_i64(2)]] c(1) sc(1)
    by (simp_all add: jptr_def)
  moreover have "dec_ptr (dec_reveal True) zero_reveal (jptr (\<lambda>r. JObj (reveal_members r)) (st_last s)) None
      = Some (st_last s)"
    using last dec_reveal_members [OF reveal_ok_wf]
    by (cases "st_last s") (simp_all add: jptr_def dec_ptr_def)
  ultimately show ?thesis
    using rnd by (simp add: dec_state_def json_simps)
qed

lemma length_state:
  assumes "state_ok s"
  shows "length (render (JObj (state_members s))) \<le> 16384"
proof -
  from assms obtain ch sc where c: "st_choices s = Some ch" "entries_ok validChoice ch" "length ch \<le> 2"
    and sc: "st_scores s = Some sc" "entries_ok (\<lambda>n. 0 \<le> n \<and> n \<le> 2) sc" "length sc \<le> 2"
    and rnd: "is_i64 (st_round s)" and last: "\<forall>r. st_last s = Some r \<longrightarrow> reveal_ok r"
    and w: "validOptionalActor (st_winner s)" "st_result s \<in> {None, Some ''rounds''}"
    and st: "st_status s \<in> {''active'', ''finished''}" "validFormat (st_format s)"
    by (auto simp: state_ok_def)
  note sc' = entries_ok_mono [OF sc(2) score_i64(2)]
  have "length (render (jptr (jmap JStr) (st_choices s))) \<le> 1700"
    "length (render (jptr (jmap jint) (st_scores s))) \<le> 2400"
    using choices_json(3) [OF c(2,3)] scores_json(3) [OF sc'] sc(3) c(1) sc(1) by (simp_all add: jptr_def)
  moreover have "length (render (jptr (\<lambda>r. JObj (reveal_members r)) (st_last s))) \<le> 7000"
    using last length_reveal by (cases "st_last s") (simp_all add: jptr_def del: render.simps(6))
  moreover have "length (render (JStr (st_status s))) \<le> 50" "length (render (JStr (st_format s))) \<le> 80"
    using length_render_jstr [of "st_status s"] length_render_jstr [of "st_format s"] st format_string [OF st(2)]
    by auto
  moreover note i64_length [OF rnd] length_render_opt_actor [OF w(1)] wf_result [OF w(2)]
    length_render_obj_le [of "state_members s"]
  ultimately show ?thesis
    by (simp add: state_members_def del: render.simps)
qed

lemma rp_decode_encode:
  assumes "state_ok s" and "0 \<le> rv"
  shows "decodeState (encodeState rv s) (st_format s) = Some s"
proof -
  note wf = state_members_wf [OF assms(1)]
  have d: "json_decode (render (JObj (state_members s))) = Some (JObj (state_members s), [])"
    using wf by (intro json_decode_render) simp
  have l: "list_all (\<lambda>(u, c). \<not> (\<not> validActorID u \<or> \<not> validChoice c)) (valueOr [] (st_choices s))"
    "list_all (\<lambda>(u, n). \<not> (\<not> validActorID u \<or> n < 0 \<or> n > 2)) (valueOr [] (st_scores s))"
    using assms by (fastforce simp: state_ok_def entries_ok_def list_all_iff)+
  have ok: "\<not> (\<not> validFormat (st_format s) \<or> st_round s < 1 \<or> st_choices s = None \<or> st_scores s = None \<or>
      length (valueOr [] (st_choices s)) > 2 \<or> length (valueOr [] (st_scores s)) > 2)"
    "st_status s = ''active'' \<or> st_status s = ''finished''"
    using assms(1) by (auto simp: state_ok_def)
  show ?thesis
    using assms(2) length_state [OF assms(1)] utf8_valid_render_obj [OF wf] l ok
    by (simp add: decodeState_def encodeState_def d dec_state_members [OF assms(1)] del: render.simps)
qed

text \<open>What a successful decoding promises.\<close>

lemma dec_state_maps:
  assumes "dec_state j = Some s"
  shows "st_choices s = Some ch \<Longrightarrow> mok ch" and "st_scores s = Some sc \<Longrightarrow> mok sc" and "is_i64 (st_round s)"
proof -
  from assms obtain kvs where
    "dec_field state_names kvs ''choices'' (dec_map dec_string '''') None = Some (st_choices s)"
    "dec_field state_names kvs ''scores'' (dec_map dec_int 0) None = Some (st_scores s)"
    "dec_field state_names kvs ''round'' dec_int 0 = Some (st_round s)"
    by (clarsimp simp: dec_state_def split: bind_splits if_splits)
  then show "st_choices s = Some ch \<Longrightarrow> mok ch" and "st_scores s = Some sc \<Longrightarrow> mok sc"
    and "is_i64 (st_round s)"
    using dec_field_map_mok [of state_names kvs "''choices''" dec_string "''''" None ch]
      dec_field_map_mok [of state_names kvs "''scores''" dec_int 0 None sc]
      dec_field_int [of state_names kvs "''round''" 0 "st_round s"]
    by (simp_all add: is_i64_small)
qed

lemma rp_decode_valid:
  assumes "decodeState sn format = Some s"
  shows "st_format s = format" and "validFormat format" and "1 \<le> st_round s" and "is_i64 (st_round s)"
    and "\<exists>ch. st_choices s = Some ch \<and> entries_ok validChoice ch \<and> length ch \<le> 2"
    and "\<exists>sc. st_scores s = Some sc \<and> entries_ok (\<lambda>n. 0 \<le> n \<and> n \<le> 2) sc \<and> length sc \<le> 2"
    and "st_status s = ''active'' \<or> st_status s = ''finished''" and "0 \<le> sn_revision sn"
    and "sn_state sn \<noteq> []"
proof -
  from assms obtain j where j: "dec_state j = Some s" and
    a: "st_format s = format" "validFormat format" "1 \<le> st_round s"
    "st_status s = ''active'' \<or> st_status s = ''finished''" "0 \<le> sn_revision sn" "sn_state sn \<noteq> []"
    and c: "st_choices s \<noteq> None" "length (valueOr [] (st_choices s)) \<le> 2"
      "list_all (\<lambda>(u, c). \<not> (\<not> validActorID u \<or> \<not> validChoice c)) (valueOr [] (st_choices s))"
    and sc: "st_scores s \<noteq> None" "length (valueOr [] (st_scores s)) \<le> 2"
      "list_all (\<lambda>(u, n). \<not> (\<not> validActorID u \<or> n < 0 \<or> n > 2)) (valueOr [] (st_scores s))"
    by (auto simp: decodeState_def split: if_splits bind_splits)
  show "st_format s = format" "validFormat format" "1 \<le> st_round s"
    "st_status s = ''active'' \<or> st_status s = ''finished''" "0 \<le> sn_revision sn" "sn_state sn \<noteq> []"
    by (fact a)+
  show "is_i64 (st_round s)" by (rule dec_state_maps(3) [OF j])
  show "\<exists>ch. st_choices s = Some ch \<and> entries_ok validChoice ch \<and> length ch \<le> 2"
    using c dec_state_maps(1) [OF j] by (cases "st_choices s") (auto simp: entries_ok_def list_all_iff)
  show "\<exists>sc. st_scores s = Some sc \<and> entries_ok (\<lambda>n. 0 \<le> n \<and> n \<le> 2) sc \<and> length sc \<le> 2"
    using sc dec_state_maps(2) [OF j] by (cases "st_scores s") (fastforce simp: entries_ok_def list_all_iff)+
qed

subsection \<open>A round\<close>

text \<open>The rule of the game, and what \<open>compare\<close> makes of it.\<close>

definition beats :: "bytes \<Rightarrow> bytes \<Rightarrow> bool" where
  "beats x y \<longleftrightarrow> (x, y) \<in> {(Rock, Scissors), (Paper, Rock), (Scissors, Paper)}"

lemma compare_beats:
  assumes "validChoice x" and "validChoice y"
  shows "compare x y > 0 \<longleftrightarrow> beats x y" and "compare x y < 0 \<longleftrightarrow> beats y x"
    and "compare x y = 0 \<longleftrightarrow> x = y"
  using assms by (auto simp: validChoice_def compare_def beats_def Rock_def Paper_def Scissors_def)

lemma beats_asym: "beats x y \<Longrightarrow> \<not> beats y x"
  by (auto simp: beats_def Rock_def Paper_def Scissors_def)

lemma roundWinner_two:
  assumes "a \<noteq> b" and "validChoice c" and "validChoice d"
  shows "roundWinnerOf (mput a c [(b, d)]) = (if beats c d then Some a else if beats d c then Some b else None)"
  using assms compare_beats [OF assms(2,3)] compare_beats [OF assms(3,2)] beats_asym [of c d]
  by (cases "a < b") (auto simp: roundWinnerOf_def Let_def)

lemma apply_choice_iff:
  assumes d: "decodeState sn fmt = Some s" and ch: "st_choices s = Some ch" and sc: "st_scores s = Some sc"
  shows "apply_choice fmt sn actor choice = Inr r \<longleftrightarrow>
    st_status s = ''active'' \<and> validChoice choice \<and> mget ch actor = None \<and>
    (ch = [] \<and> r = (\<lparr>ev_revision = i64 (sn_revision sn + 1), ev_type = ChoiceLocked, ev_actor = actor,
        ev_payload = render (JObj (locked_members \<lparr>lk_round = st_round s, lk_user = actor, lk_choice = choice\<rparr>))\<rparr>,
        encodeState (i64 (sn_revision sn + 1)) (s\<lparr>st_choices := Some [(actor, choice)]\<rparr>)) \<or>
     length ch = 1 \<and> r = (\<lparr>ev_revision = i64 (sn_revision sn + 1), ev_type = RoundRevealed, ev_actor = actor,
        ev_payload = render (JObj (reveal_members (fst (revealRound fmt s (mput actor choice ch) sc))))\<rparr>,
        encodeState (i64 (sn_revision sn + 1)) (snd (revealRound fmt s (mput actor choice ch) sc))))"
proof -
  have ok: "mok ch" using rp_decode_valid(5) [OF d] ch by (auto simp: entries_ok_def)
  have new: "mget ch actor = None \<Longrightarrow> length (mput actor choice ch) = Suc (length ch)"
    using gm.size_put [OF ok] by simp
  consider "ch = []" | "length ch = 1" | "length ch > 1" by (cases ch) (auto simp: Suc_lessI)
  then show ?thesis
    using new by cases (auto simp: apply_choice_def d ch sc Let_def mget_def split: prod.split if_splits)
qed

lemma score_entries:
  assumes "entries_ok (\<lambda>n. 0 \<le> n \<and> n \<le> 2) sc" and "validOptionalActor w"
  shows "entries_ok score_ok (scoreAfter w sc)" and "length (scoreAfter w sc) \<le> Suc (length sc)"
proof -
  have ok: "mok sc" using assms(1) by (simp add: entries_ok_def)
  have old: "mget sc k = Some n \<Longrightarrow> validActorID k \<and> 0 \<le> n \<and> n \<le> 2" for k n
    using assms(1) mget_set [OF ok, of k n] by (force simp: entries_ok_def)
  have "entries_ok score_ok (scoreAfter w sc) \<and> length (scoreAfter w sc) \<le> Suc (length sc)"
  proof (cases w)
    case None
    with assms(1) show ?thesis by (auto simp: scoreAfter_def entries_ok_def score_ok_def)
  next
    case (Some k)
    define n where "n = (case mget sc k of None \<Rightarrow> 0 | Some n \<Rightarrow> n)"
    have n: "0 \<le> n" "n \<le> 2" using old [of k] by (auto simp: n_def split: option.split)
    then have i: "i64 (n + 1) = n + 1" by (intro i64_succ) (simp_all add: max_i64_def)
    have w: "scoreAfter w sc = mput k (n + 1) sc" by (simp add: scoreAfter_def Some n_def [symmetric] i)
    have "validActorID (fst kv) \<and> score_ok (snd kv)" if "kv \<in> set (mput k (n + 1) sc)" for kv
    proof -
      have "mget (mput k (n + 1) sc) (fst kv) = Some (snd kv)"
        using that mget_set [OF mok_mput [OF ok], of "fst kv" "snd kv"] by simp
      then show ?thesis
        using old [of "fst kv" "snd kv"] n assms(2) Some
        by (auto simp: mget_mput [OF ok] score_ok_def validOptionalActor_def split: if_splits)
    qed
    then have "entries_ok score_ok (scoreAfter w sc)"
      unfolding w by (auto simp: entries_ok_def mok_mput [OF ok])
    moreover have "length (scoreAfter w sc) \<le> Suc (length sc)"
      unfolding w using gm.size_put [OF ok] by simp
    ultimately show ?thesis by simp
  qed
  then show "entries_ok score_ok (scoreAfter w sc)" and "length (scoreAfter w sc) \<le> Suc (length sc)" by simp_all
qed

lemma mput_entries:
  assumes "entries_ok P m" and "validActorID k" and "P v"
  shows "entries_ok P (mput k v m)"
proof -
  have ok: "mok m" using assms(1) by (simp add: entries_ok_def)
  have "validActorID (fst kv) \<and> P (snd kv)" if "kv \<in> set (mput k v m)" for kv
    using that mget_set [OF mok_mput [OF ok], of "fst kv" "snd kv"] mget_set [OF ok, of "fst kv" "snd kv"] assms
    by (auto simp: mget_mput [OF ok] entries_ok_def split: if_splits)
  then show ?thesis using mok_mput [OF ok] by (auto simp: entries_ok_def)
qed

text \<open>The reveal that ends a round, and its winner.\<close>

lemma reveal_facts:
  assumes d: "decodeState sn fmt = Some s" and ch: "st_choices s = Some [(b, c0)]" and sc: "st_scores s = Some sc"
    and ab: "a \<noteq> b" and a: "validActorID a" and c: "validChoice c"
  defines "w \<equiv> (if beats c c0 then Some a else if beats c0 c then Some b else None)"
    and "r \<equiv> fst (revealRound fmt s (mput a c [(b, c0)]) sc)"
  shows "r = \<lparr>rv_round = st_round s, rv_choices = Some (mput a c [(b, c0)]), rv_winner = w,
      rv_draw = (w = None), rv_scores = Some (scoreAfter w sc),
      rv_matchWinner = matchWinnerOf fmt w (scoreAfter w sc),
      rv_result = (if matchWinnerOf fmt w (scoreAfter w sc) = None then None else Some ''rounds'')\<rparr>"
    and "reveal_ok r" and "validActorID b" and "validChoice c0" and "validOptionalActor w"
    and "mget (mput a c [(b, c0)]) a = Some c"
proof -
  have e: "entries_ok validChoice [(b, c0)]" using rp_decode_valid(5) [OF d] ch by auto
  then show b: "validActorID b" "validChoice c0" by (auto simp: entries_ok_def)
  have w: "roundWinnerOf (mput a c [(b, c0)]) = w"
    unfolding w_def by (rule roundWinner_two [OF ab c b(2)])
  show r: "r = \<lparr>rv_round = st_round s, rv_choices = Some (mput a c [(b, c0)]), rv_winner = w,
      rv_draw = (w = None), rv_scores = Some (scoreAfter w sc),
      rv_matchWinner = matchWinnerOf fmt w (scoreAfter w sc),
      rv_result = (if matchWinnerOf fmt w (scoreAfter w sc) = None then None else Some ''rounds'')\<rparr>"
    by (simp add: r_def revealRound_def Let_def w del: mput.simps)
  show vw: "validOptionalActor w" using a b by (simp add: w_def validOptionalActor_def)
  have mw: "validOptionalActor (matchWinnerOf fmt w x)" for x
    using vw by (auto simp: matchWinnerOf_def validOptionalActor_def split: option.splits)
  have es: "entries_ok (\<lambda>n. 0 \<le> n \<and> n \<le> 2) sc" "length sc \<le> 2" using rp_decode_valid(6) [OF d] sc by auto
  show "reveal_ok r"
    using mput_entries [OF e a c] score_entries [OF es(1) vw] es(2) vw mw rp_decode_valid(4) [OF d] ab
    by (simp add: r reveal_ok_def)
  show "mget (mput a c [(b, c0)]) a = Some c" using ab by (simp add: mget_def)
qed

lemma decodeReveal_inv:
  assumes "reveal_ok r" and "decodeReveal (render (JObj (reveal_members r))) = Some v"
  shows "v = r"
proof -
  have "unmarshal (dec_reveal False) zero_reveal (render (JObj (reveal_members r))) = Some r"
    using reveal_members_wf [OF reveal_ok_wf [OF assms(1)]] dec_reveal_members [OF reveal_ok_wf [OF assms(1)]]
    by (subst unmarshal_render) auto
  with assms(2) show ?thesis by (auto simp: decodeReveal_def split: bind_splits if_splits)
qed

text \<open>The choice read back from an event is the one it was produced from.\<close>

lemma eventChoice_produced:
  assumes d: "decodeState sn fmt = Some s" and a: "validActorID actor"
    and p: "apply_choice fmt sn actor choice = Inr (e, sn')"
  shows "eventChoice e \<in> {None, Some choice}" and "ev_actor e = actor"
    and "(\<exists>sc. rv_scores (fst (revealRound fmt s
            (mput actor choice (valueOr [] (st_choices s))) (valueOr [] (st_scores s)))) = Some sc \<and> length sc \<le> 2) \<Longrightarrow>
         eventChoice e = Some choice"
proof -
  obtain ch sc where ch: "st_choices s = Some ch" and sc: "st_scores s = Some sc"
    using rp_decode_valid(5,6) [OF d] by auto
  note ap = p [unfolded apply_choice_iff [OF d ch sc]]
  then show act: "ev_actor e = actor" by auto
  have "eventChoice e \<in> {None, Some choice} \<and>
    ((\<exists>sc. rv_scores (fst (revealRound fmt s (mput actor choice ch) (valueOr [] (st_scores s)))) = Some sc \<and> length sc \<le> 2)
      \<longrightarrow> eventChoice e = Some choice)"
  proof (cases "ch = []")
    case True
    let ?l = "\<lparr>lk_round = st_round s, lk_user = actor, lk_choice = choice\<rparr>"
    have "decodeLocked (render (JObj (locked_members ?l))) = Some ?l"
      using rp_decode_valid(3,4) [OF d] a ap by (intro decodeLocked_members) simp_all
    then show ?thesis using ap True by (auto simp: eventChoice_def simp del: render.simps)
  next
    case False
    with ap have "length ch = 1" by auto
    then obtain b c0 where b: "ch = [(b, c0)]" by (cases ch) auto
    with ap have ab: "actor \<noteq> b" and c: "validChoice choice" by (auto simp: mget_def split: if_splits)
    let ?r = "fst (revealRound fmt s (mput actor choice ch) sc)"
    note rf = reveal_facts [OF d ch [unfolded b] sc ab a c, folded b]
    have e: "ev_type e = RoundRevealed" "ev_payload e = render (JObj (reveal_members ?r))"
      using ap b by auto
    have cc: "rv_choices ?r = Some (mput actor choice ch)" by (subst rf(1)) simp
    have ne: "RoundRevealed \<noteq> ChoiceLocked" "choice \<noteq> ''''"
      using choice_string [OF c] by (auto simp: RoundRevealed_def ChoiceLocked_def)
    have ec: "eventChoice e = (case decodeReveal (render (JObj (reveal_members ?r))) of None \<Rightarrow> None
         | Some p \<Rightarrow> let ch = (case mget (valueOr [] (rv_choices p)) actor of None \<Rightarrow> '''' | Some c \<Rightarrow> c)
             in if ch = '''' then None else Some ch)"
      by (simp only: eventChoice_def e act ne if_False if_True simp_thms)
    have "eventChoice e \<in> {None, Some choice}"
    proof (cases "decodeReveal (render (JObj (reveal_members ?r)))")
      case (Some v)
      with decodeReveal_inv [OF rf(2) Some] show ?thesis using ec cc rf(6) ne(2) b by (simp add: Let_def)
    qed (simp add: ec)
    moreover have "eventChoice e = Some choice" if "\<exists>sc. rv_scores ?r = Some sc \<and> length sc \<le> 2"
    proof -
      have "length (mput actor choice ch) = 2" using b ab by auto
      moreover have "1 \<le> rv_round ?r" using rp_decode_valid(3) [OF d] by (subst rf(1)) simp
      ultimately have "decodeReveal (render (JObj (reveal_members ?r))) = Some ?r"
        using rf(2) that cc by (intro decodeReveal_members) auto
      with ec cc rf(6) ne(2) b show ?thesis by (simp add: Let_def)
    qed
    ultimately show ?thesis using sc by simp
  qed
  then show "eventChoice e \<in> {None, Some choice}"
    and "(\<exists>sc. rv_scores (fst (revealRound fmt s
            (mput actor choice (valueOr [] (st_choices s))) (valueOr [] (st_scores s)))) = Some sc \<and> length sc \<le> 2) \<Longrightarrow>
         eventChoice e = Some choice" using ch by simp_all
qed

subsection \<open>Two players\<close>

definition need :: "bytes \<Rightarrow> int" where
  "need fmt = (if fmt = FormatSingleRound then 1 else 2)"

text \<open>
  The invariant of a match between \<open>a\<close> and \<open>b\<close>: every round takes two events, only winners of
  rounds have scores, and the match is over exactly when one of them has the wins it needs.
\<close>

definition two_inv :: "bytes \<Rightarrow> bytes \<Rightarrow> bytes \<Rightarrow> int \<Rightarrow> state \<Rightarrow> bool" where
  "two_inv a b fmt rv s \<longleftrightarrow>
     st_format s = fmt \<and> validFormat fmt \<and> 1 \<le> st_round s \<and>
     (\<forall>r. st_last s = Some r \<longrightarrow> reveal_ok r) \<and>
     (\<exists>ch sc. st_choices s = Some ch \<and> st_scores s = Some sc \<and> mok ch \<and> mok sc \<and>
       (\<forall>k c. mget ch k = Some c \<longrightarrow> k \<in> {a, b} \<and> validChoice c) \<and>
       (\<forall>k n. mget sc k = Some n \<longrightarrow> k \<in> {a, b} \<and> 1 \<le> n \<and> n \<le> need fmt) \<and>
       (if st_status s = ''active''
        then length ch \<le> 1 \<and> (\<forall>k n. mget sc k = Some n \<longrightarrow> n < need fmt) \<and> st_winner s = None \<and>
          st_result s = None \<and> rv = 2 * (st_round s - 1) + int (length ch)
        else st_status s = ''finished'' \<and> ch = [] \<and> st_result s = Some ''rounds'' \<and> rv = 2 * st_round s \<and>
          (\<exists>w\<in>{a, b}. st_winner s = Some w \<and> mget sc w = Some (need fmt) \<and>
            (\<forall>k n. k \<noteq> w \<longrightarrow> mget sc k = Some n \<longrightarrow> n < need fmt))))"

lemma two_state_ok:
  assumes "two_inv a b fmt rv s" and "validActorID a" and "validActorID b" and "rv \<le> max_i64"
  shows "state_ok s"
proof -
  from assms(1) obtain ch sc where f: "st_format s = fmt" "validFormat fmt" "1 \<le> st_round s"
    "\<forall>r. st_last s = Some r \<longrightarrow> reveal_ok r"
    and c: "st_choices s = Some ch" "mok ch" "\<And>k c. mget ch k = Some c \<Longrightarrow> k \<in> {a, b} \<and> validChoice c"
    and sc: "st_scores s = Some sc" "mok sc" "\<And>k n. mget sc k = Some n \<Longrightarrow> k \<in> {a, b} \<and> 1 \<le> n \<and> n \<le> need fmt"
    and st: "if st_status s = ''active''
        then length ch \<le> 1 \<and> (\<forall>k n. mget sc k = Some n \<longrightarrow> n < need fmt) \<and> st_winner s = None \<and>
          st_result s = None \<and> rv = 2 * (st_round s - 1) + int (length ch)
        else st_status s = ''finished'' \<and> ch = [] \<and> st_result s = Some ''rounds'' \<and> rv = 2 * st_round s \<and>
          (\<exists>w\<in>{a, b}. st_winner s = Some w \<and> mget sc w = Some (need fmt) \<and>
            (\<forall>k n. k \<noteq> w \<longrightarrow> mget sc k = Some n \<longrightarrow> n < need fmt))"
    unfolding two_inv_def by blast
  have "entries_ok validChoice ch"
    using c(2,3) assms(2,3) mget_set [OF c(2)] by (fastforce simp: entries_ok_def)
  moreover have "need fmt \<le> 2" by (simp add: need_def)
  then have "entries_ok (\<lambda>n. 0 \<le> n \<and> n \<le> 2) sc"
    using sc(2,3) assms(2,3) mget_set [OF sc(2)] by (fastforce simp: entries_ok_def)
  moreover have "length ch \<le> 2" "length sc \<le> 2"
    using gm.two_players [OF c(2), of a b] gm.two_players [OF sc(2), of a b] c(3) sc(3) by blast+
  moreover have "is_i64 (st_round s)"
    using f(3) assms(4) st by (auto simp: is_i64_def max_i64_def split: if_splits)
  moreover have "validOptionalActor (st_winner s)"
    using st assms(2,3) by (auto simp: validOptionalActor_def split: if_splits)
  moreover have "st_status s \<in> {''active'', ''finished''}" "st_result s \<in> {None, Some ''rounds''}"
    using st by (auto split: if_splits)
  ultimately show ?thesis
    unfolding state_ok_def using f c(1) sc(1) by blast
qed

lemma encodeState_sel [simp]: "sn_revision (encodeState rv s) = rv" "sn_state (encodeState rv s) \<noteq> []"
  by (simp_all add: encodeState_def)

lemma two_initial: "validFormat fmt \<Longrightarrow> two_inv a b fmt 0 (initialState fmt)"
  by (simp add: two_inv_def initialState_def mok_def mget_def)

text \<open>The scores after a round that \<open>w\<close> won.\<close>

lemma score_step:
  assumes ok: "mok sc" and lt': "\<forall>k n. mget sc k = Some n \<longrightarrow> k \<in> {a, b} \<and> 1 \<le> n \<and> n < need fmt"
    and w: "w \<in> {a, b}"
  shows "mok (scoreAfter (Some w) sc)"
    and "\<And>k n. mget (scoreAfter (Some w) sc) k = Some n \<Longrightarrow> k \<in> {a, b} \<and> 1 \<le> n \<and> n \<le> need fmt"
    and "\<And>k n. k \<noteq> w \<Longrightarrow> mget (scoreAfter (Some w) sc) k = Some n \<Longrightarrow> n < need fmt"
    and "matchWinnerOf fmt (Some w) (scoreAfter (Some w) sc) =
      (if mget (scoreAfter (Some w) sc) w = Some (need fmt) then Some w else None)"
    and "mget (scoreAfter (Some w) sc) w \<noteq> Some (need fmt) \<Longrightarrow>
      \<forall>k n. mget (scoreAfter (Some w) sc) k = Some n \<longrightarrow> n < need fmt"
proof -
  have lt: "\<And>k n. mget sc k = Some n \<Longrightarrow> k \<in> {a, b} \<and> 1 \<le> n \<and> n < need fmt" using lt' by blast
  define n0 where "n0 = (case mget sc w of None \<Rightarrow> 0 | Some n \<Rightarrow> n)"
  have n0: "0 \<le> n0" "n0 < need fmt"
    using lt [of w] by (auto simp: n0_def need_def split: option.split)
  then have i: "i64 (n0 + 1) = n0 + 1" by (intro i64_succ) (auto simp: max_i64_def need_def split: if_splits)
  have sa: "scoreAfter (Some w) sc = mput w (n0 + 1) sc" by (simp add: scoreAfter_def n0_def [symmetric] i)
  note g = mget_mput [OF ok, of w "n0 + 1"]
  show "mok (scoreAfter (Some w) sc)" unfolding sa by (rule mok_mput [OF ok])
  show "\<And>k n. mget (scoreAfter (Some w) sc) k = Some n \<Longrightarrow> k \<in> {a, b} \<and> 1 \<le> n \<and> n \<le> need fmt"
    unfolding sa g using n0 w lt by (fastforce split: if_splits)
  show lt2: "\<And>k n. k \<noteq> w \<Longrightarrow> mget (scoreAfter (Some w) sc) k = Some n \<Longrightarrow> n < need fmt"
    unfolding sa g using lt by simp
  show "matchWinnerOf fmt (Some w) (scoreAfter (Some w) sc) =
      (if mget (scoreAfter (Some w) sc) w = Some (need fmt) then Some w else None)"
    unfolding sa using n0 by (auto simp: g matchWinnerOf_def need_def)
  show "mget (scoreAfter (Some w) sc) w \<noteq> Some (need fmt) \<Longrightarrow>
      \<forall>k n. mget (scoreAfter (Some w) sc) k = Some n \<longrightarrow> n < need fmt"
    using lt2 n0 unfolding sa g by (fastforce split: if_splits)
qed

lemma two_step:
  assumes inv: "two_inv a b fmt rv s" and ids: "validActorID a" "validActorID b" "a \<noteq> b"
    and rv: "rv < max_i64" and p: "actor \<in> {a, b}"
    and ap: "apply_choice fmt (encodeState rv s) actor choice = Inr (e, sn')"
  shows "\<exists>s'. sn' = encodeState (rv + 1) s' \<and> two_inv a b fmt (rv + 1) s'"
    and "eventChoice e = Some choice"
proof -
  from inv obtain ch sc where f: "st_format s = fmt" "validFormat fmt" "1 \<le> st_round s"
    "\<forall>r. st_last s = Some r \<longrightarrow> reveal_ok r"
    and c: "st_choices s = Some ch" "mok ch" "\<And>k c. mget ch k = Some c \<Longrightarrow> k \<in> {a, b} \<and> validChoice c"
    and sc: "st_scores s = Some sc" "mok sc" "\<And>k n. mget sc k = Some n \<Longrightarrow> k \<in> {a, b} \<and> 1 \<le> n \<and> n \<le> need fmt"
    and st: "if st_status s = ''active''
        then length ch \<le> 1 \<and> (\<forall>k n. mget sc k = Some n \<longrightarrow> n < need fmt) \<and> st_winner s = None \<and>
          st_result s = None \<and> rv = 2 * (st_round s - 1) + int (length ch)
        else st_status s = ''finished'' \<and> ch = [] \<and> st_result s = Some ''rounds'' \<and> rv = 2 * st_round s \<and>
          (\<exists>w\<in>{a, b}. st_winner s = Some w \<and> mget sc w = Some (need fmt) \<and>
            (\<forall>k n. k \<noteq> w \<longrightarrow> mget sc k = Some n \<longrightarrow> n < need fmt))"
    unfolding two_inv_def by blast
  have rv0: "0 \<le> rv" using st f(3) by (auto split: if_splits)
  have ok: "state_ok s" using two_state_ok [OF inv ids(1,2)] rv by simp
  have d: "decodeState (encodeState rv s) fmt = Some s" using rp_decode_encode [OF ok rv0] f(1) by simp
  have act: "validActorID actor" using p ids by auto
  note ai = ap [unfolded apply_choice_iff [OF d c(1) sc(1)] encodeState_sel]
  have i: "i64 (rv + 1) = rv + 1" by (rule i64_succ [OF rv0 rv])
  from ai have active: "st_status s = ''active''" and vc: "validChoice choice" and new: "mget ch actor = None"
    by blast+
  with st have lt: "\<And>k n. mget sc k = Some n \<Longrightarrow> k \<in> {a, b} \<and> 1 \<le> n \<and> n < need fmt"
    and w0: "st_winner s = None" "st_result s = None" and rr: "rv = 2 * (st_round s - 1) + int (length ch)"
    using sc(3) by auto
  have "(\<exists>s'. sn' = encodeState (rv + 1) s' \<and> two_inv a b fmt (rv + 1) s') \<and> eventChoice e = Some choice"
  proof (cases "ch = []")
    case True
    have "sn' = encodeState (rv + 1) (s\<lparr>st_choices := Some [(actor, choice)]\<rparr>)"
      using ai True i by simp
    moreover have "two_inv a b fmt (rv + 1) (s\<lparr>st_choices := Some [(actor, choice)]\<rparr>)"
      using f sc lt w0 rr active True p vc
      by (auto simp: two_inv_def mok_def mget_def)
    moreover have "eventChoice e = Some choice"
    proof -
      let ?l = "\<lparr>lk_round = st_round s, lk_user = actor, lk_choice = choice\<rparr>"
      have "decodeLocked (render (JObj (locked_members ?l))) = Some ?l"
        using rp_decode_valid(3,4) [OF d] act vc by (intro decodeLocked_members) simp_all
      then show ?thesis using ai True by (auto simp: eventChoice_def simp del: render.simps)
    qed
    ultimately show ?thesis by blast
  next
    case False
    with ai have "length ch = 1" by auto
    then obtain o' c0 where b: "ch = [(o', c0)]" by (cases ch) auto
    with new have ao: "actor \<noteq> o'" by (auto simp: mget_def split: if_splits)
    have oo: "o' \<in> {a, b}" using c(3) [of o' c0] b by (simp add: mget_def)
    define w where "w = (if beats choice c0 then Some actor else if beats c0 choice then Some o' else None)"
    define s' where "s' = snd (revealRound fmt s (mput actor choice ch) sc)"
    define r where "r = fst (revealRound fmt s (mput actor choice ch) sc)"
    note rf = reveal_facts [OF d c(1) [unfolded b] sc(1) ao act vc, folded b, folded w_def r_def]
    have sn': "sn' = encodeState (rv + 1) s'" using ai False i by (simp add: s'_def)
    have rw: "roundWinnerOf (mput actor choice ch) = w"
      unfolding w_def b by (rule roundWinner_two [OF ao vc rf(4)])
    let ?mw = "matchWinnerOf fmt w (scoreAfter w sc)"
    have rnd: "i64 (st_round s + 1) = st_round s + 1"
      using f(3) rr rv b by (intro i64_succ) (auto simp: max_i64_def)
    have sel: "st_format s' = fmt" "st_choices s' = Some []" "st_scores s' = Some (scoreAfter w sc)"
      "st_last s' = Some r" "st_status s' = (if ?mw = None then ''active'' else ''finished'')"
      "st_winner s' = ?mw" "st_result s' = (if ?mw = None then None else Some ''rounds'')"
      "st_round s' = (if ?mw = None then st_round s + 1 else st_round s)"
      using active w0 f(1) rnd by (simp_all add: s'_def r_def revealRound_def Let_def rw del: mput.simps)
    have inv': "two_inv a b fmt (rv + 1) s' \<and> mok (scoreAfter w sc) \<and>
        (\<forall>k. mget (scoreAfter w sc) k \<noteq> None \<longrightarrow> k = a \<or> k = b)"
    proof (cases w)
      case None
      then have "?mw = None" "scoreAfter w sc = sc" by (simp_all add: matchWinnerOf_def scoreAfter_def)
      then show ?thesis
        unfolding two_inv_def sel using f rf(2) rr b sc lt
        by (auto simp: mok_def mget_def intro: order.strict_implies_order)
    next
      case (Some v)
      have v: "v \<in> {a, b}" using Some p oo by (auto simp: w_def split: if_splits)
      have lt': "\<forall>k n. mget sc k = Some n \<longrightarrow> k \<in> {a, b} \<and> 1 \<le> n \<and> n < need fmt" using lt by blast
      note ss = score_step [OF sc(2) lt' v, folded Some]
      show ?thesis
      proof (cases "mget (scoreAfter w sc) v = Some (need fmt)")
        case True
        with ss(4) have mw: "?mw = Some v" using Some by simp
        have "\<exists>u\<in>{a, b}. Some v = Some u \<and> mget (scoreAfter w sc) u = Some (need fmt) \<and>
            (\<forall>k n. k \<noteq> u \<longrightarrow> mget (scoreAfter w sc) k = Some n \<longrightarrow> n < need fmt)"
          using v True ss(3) by blast
        moreover have "rv + 1 = 2 * st_round s" using rr b by simp
        ultimately show ?thesis
          unfolding two_inv_def sel mw using f(2,3) rf(2) ss(1,2)
          by (simp add: mok_def mget_def [of "[]"]) blast
      next
        case False
        with ss(4) have mw: "?mw = None" using Some by simp
        have "rv + 1 = 2 * (st_round s + 1 - 1) + int (length ([] :: bytes gomap))" using rr b by simp
        then show ?thesis
          unfolding two_inv_def sel mw using f(2,3) rf(2) ss(1,2) ss(5) [OF False]
          by (simp add: mok_def mget_def [of "[]"]) blast
      qed
    qed
    then have "length (scoreAfter w sc) \<le> 2"
      by (intro gm.two_players [of _ a b]) auto
    moreover have "rv_scores r = Some (scoreAfter w sc)" by (subst rf(1)) simp
    ultimately have "eventChoice e = Some choice"
      using eventChoice_produced(3) [OF d act ap] c(1) sc(1) by (simp add: r_def)
    with inv' sn' show ?thesis by blast
  qed
  then show "\<exists>s'. sn' = encodeState (rv + 1) s' \<and> two_inv a b fmt (rv + 1) s'"
    and "eventChoice e = Some choice" by blast+
qed

subsection \<open>Apply and Rebuild\<close>

definition choice_members :: "bytes \<Rightarrow> (bytes \<times> json) list" where
  "choice_members c = [(''choice'', JStr c)]"

lemma decodeChoice_members:
  assumes "validChoice c"
  shows "decodeChoice (render (JObj (choice_members c))) = Inr c"
proof -
  have wf: "\<forall>kv\<in>set (choice_members c). utf8_valid (fst kv) \<and> wf_json (snd kv)"
    using choice_string [OF assms] by (simp add: choice_members_def utf8_valid_ascii)
  have "strict_object [''choice''] (render (JObj (choice_members c))) = Some (raw_members (choice_members c))"
    using wf by (intro strict_object_render) (simp_all add: choice_members_def)
  moreover have "length (render (JObj (choice_members c))) \<le> 16384"
    using length_render_obj_le [of "choice_members c"] length_render_jstr [of c] choice_string [OF assms]
    by (simp add: choice_members_def del: render.simps)
  ultimately show ?thesis
    using utf8_valid_render_obj [OF wf] assms choice_string [OF assms]
    by (simp add: decodeChoice_def decodeObject_def json_simps del: render.simps)
      (simp add: choice_members_def json_simps del: render.simps)
qed

lemma decodeChoice_valid: "decodeChoice payload = Inr c \<Longrightarrow> validChoice c"
  by (auto simp: decodeChoice_def split: option.splits if_splits)

lemma rp_Apply_iff:
  assumes "sn_state sn \<noteq> []"
  shows "Apply fmt sn actor act = Inr r \<longleftrightarrow>
    validFormat fmt \<and> act_type act = ChoiceRequested \<and> validActorID actor \<and>
    (\<exists>c. decodeChoice (act_payload act) = Inr c \<and> apply_choice fmt sn actor c = Inr r)"
  using assms by (auto simp: Apply_def)

text \<open>
  An event that some choice of some actor produces on a snapshot, and from which a choice can be
  read back. The second part only excludes a third player's score: \<open>two_players_play\<close> below.
\<close>

definition accepts :: "bytes \<Rightarrow> snapshot \<Rightarrow> event \<Rightarrow> snapshot \<Rightarrow> bool" where
  "accepts fmt sn e sn' \<longleftrightarrow> sn_state sn \<noteq> [] \<and> eventChoice e \<noteq> None \<and>
     (\<exists>actor act. Apply fmt sn actor act = Inr (e, sn'))"

lemma apply_choice_decodes:
  assumes "apply_choice fmt sn actor c = Inr (e, sn')"
  obtains s where "decodeState sn fmt = Some s" and "validChoice c" and "validFormat fmt"
    and "ev_revision e = i64 (sn_revision sn + 1)" and "sn_revision sn' = ev_revision e" and "ev_actor e = actor"
proof -
  from assms obtain s where s: "decodeState sn fmt = Some s"
    by (auto simp: apply_choice_def split: option.splits)
  obtain ch sc where ch: "st_choices s = Some ch" "st_scores s = Some sc"
    using rp_decode_valid(5,6) [OF s] by auto
  have "ev_revision e = i64 (sn_revision sn + 1) \<and> sn_revision sn' = ev_revision e \<and> ev_actor e = actor \<and> validChoice c"
    using assms [unfolded apply_choice_iff [OF s ch]] by auto
  with that [OF s] rp_decode_valid(2) [OF s] show thesis by simp
qed

lemma accepts_apply:
  "accepts fmt sn e sn' \<longleftrightarrow> eventChoice e \<noteq> None \<and> validActorID (ev_actor e) \<and>
     (\<exists>c. apply_choice fmt sn (ev_actor e) c = Inr (e, sn'))"
proof
  assume acc: "accepts fmt sn e sn'"
  then obtain actor c where "validActorID actor" and a: "apply_choice fmt sn actor c = Inr (e, sn')"
    by (auto simp: accepts_def rp_Apply_iff)
  from a have "ev_actor e = actor" by (rule apply_choice_decodes)
  with acc a \<open>validActorID actor\<close> show "eventChoice e \<noteq> None \<and> validActorID (ev_actor e) \<and>
     (\<exists>c. apply_choice fmt sn (ev_actor e) c = Inr (e, sn'))" by (auto simp: accepts_def)
next
  assume r: "eventChoice e \<noteq> None \<and> validActorID (ev_actor e) \<and>
     (\<exists>c. apply_choice fmt sn (ev_actor e) c = Inr (e, sn'))"
  then obtain c where a: "apply_choice fmt sn (ev_actor e) c = Inr (e, sn')" by blast
  from a obtain s where s: "decodeState sn fmt = Some s" and c: "validChoice c" "validFormat fmt"
    by (rule apply_choice_decodes)
  note ne = rp_decode_valid(9) [OF s]
  have "Apply fmt sn (ev_actor e) \<lparr>act_type = ChoiceRequested, act_payload = render (JObj (choice_members c))\<rparr> = Inr (e, sn')"
    unfolding rp_Apply_iff [OF ne] using r c a decodeChoice_members [OF c(1)] by (simp del: render.simps)
  with r ne show "accepts fmt sn e sn'" by (auto simp: accepts_def)
qed

lemma rp_rebuildBody_complete:
  assumes "accepts fmt sn e sn'" and "0 \<le> sn_revision sn" and "sn_revision sn < max_i64"
  shows "rebuildBody fmt (sn_revision sn) e sn = Inr sn'"
proof -
  from assms(1) obtain c where e: "eventChoice e \<noteq> None" "validActorID (ev_actor e)"
    and a: "apply_choice fmt sn (ev_actor e) c = Inr (e, sn')" by (auto simp: accepts_apply)
  from a obtain s where s: "decodeState sn fmt = Some s" and r: "ev_revision e = i64 (sn_revision sn + 1)"
    by (rule apply_choice_decodes)
  have "eventChoice e = Some c" using eventChoice_produced(1) [OF s e(2) a] e(1) by auto
  with a e r show ?thesis by (simp add: rebuildBody_def i64_succ assms(2,3))
qed

lemma rp_rebuildBody_sound:
  assumes "rebuildBody fmt i e sn = Inr sn'"
  shows "accepts fmt sn e sn'"
proof -
  from assms obtain c produced where e: "validActorID (ev_actor e)" "eventChoice e = Some c"
    and a: "apply_choice fmt sn (ev_actor e) c = Inr (produced, sn')"
    and eq: "produced = e"
    by (auto simp: rebuildBody_def split: if_splits option.splits sum.splits prod.splits)
  then show ?thesis unfolding accepts_apply by auto
qed

lemma rp_accepts_revision:
  "accepts fmt sn e sn' \<Longrightarrow> ev_revision e = i64 (sn_revision sn + 1) \<and> sn_revision sn' = ev_revision e"
  unfolding accepts_apply by (elim conjE exE, erule apply_choice_decodes) simp

interpretation rps_log: event_log "encodeState 0 (initialState fmt)" "rebuildBody fmt" "accepts fmt" for fmt
proof
  show "sn_revision (encodeState 0 (initialState fmt)) = 0" by simp
qed (auto simp: rp_rebuildBody_complete rp_rebuildBody_sound dest: rp_accepts_revision)

text \<open>A log that \<open>a\<close> and \<open>b\<close> alone played.\<close>

definition plays :: "bytes \<Rightarrow> bytes \<Rightarrow> bytes \<Rightarrow> snapshot \<Rightarrow> event \<Rightarrow> snapshot \<Rightarrow> bool" where
  "plays a b fmt sn e sn' \<longleftrightarrow> (\<exists>actor\<in>{a, b}. \<exists>act. Apply fmt sn actor act = Inr (e, sn'))"

lemma two_players_play:
  assumes "played (plays a b fmt) (encodeState 0 (initialState fmt)) es sn"
    and "validActorID a" and "validActorID b" and "a \<noteq> b" and "validFormat fmt"
    and "int (length es) \<le> max_i64"
  shows "played (accepts fmt) (encodeState 0 (initialState fmt)) es sn \<and>
    (\<exists>s. sn = encodeState (int (length es)) s \<and> two_inv a b fmt (int (length es)) s)"
  using assms(1,6)
proof (induction rule: played.induct)
  case played_start
  then show ?case using two_initial [OF assms(5)] by (auto intro: played.intros)
next
  case (played_step es sn e sn')
  then obtain s where p: "played (accepts fmt) (encodeState 0 (initialState fmt)) es sn"
    and sn: "sn = encodeState (int (length es)) s" and inv: "two_inv a b fmt (int (length es)) s" by auto
  from played_step.hyps(2) obtain actor c where act: "actor \<in> {a, b}"
    and ap: "apply_choice fmt (encodeState (int (length es)) s) actor c = Inr (e, sn')"
    unfolding plays_def sn by (auto simp: rp_Apply_iff)
  have lt: "int (length es) < max_i64" using played_step.prems by simp
  note st = two_step [OF inv assms(2-4) lt act ap]
  from ap have "ev_actor e = actor" by (rule apply_choice_decodes)
  then have "accepts fmt sn e sn'"
    unfolding accepts_apply sn using st(2) ap act assms(2,3) by auto
  with p have "played (accepts fmt) (encodeState 0 (initialState fmt)) (es @ [e]) sn'" by (rule played.intros)
  with st(1) show ?case by (simp add: add.commute)
qed

subsection \<open>Properties\<close>

text \<open>
  C5. The second choice of a round ends it: whatever the byte order of the two actors, the round
  goes to the actor whose choice beats the other's and is a draw for equal choices, the winner's
  score and nobody else's goes up by one, the published event can be read back, and the match ends
  with that winner exactly when the format is a single round or the score has reached two.
\<close>

theorem rps_round:
  assumes "decodeState sn fmt = Some s" and "st_choices s = Some [(b, c0)]" and "st_scores s = Some sc"
    and "validActorID a" and "a \<noteq> b" and "apply_choice fmt sn a c = Inr (e, sn')"
  defines "w \<equiv> (if beats c c0 then Some a else if beats c0 c then Some b else None)"
    and "won \<equiv> (\<lambda>k. case mget sc k of None \<Rightarrow> 0 | Some n \<Rightarrow> n)"
  shows "ev_type e = RoundRevealed \<and>
    (\<exists>r s'. ev_payload e = render (JObj (reveal_members r)) \<and>
      sn' = encodeState (i64 (sn_revision sn + 1)) s' \<and>
      rv_winner r = w \<and> (rv_draw r \<longleftrightarrow> c = c0) \<and> st_last s' = Some r \<and> st_choices s' = Some [] \<and>
      (\<exists>sc'. st_scores s' = Some sc' \<and> rv_scores r = Some sc' \<and>
        (\<forall>k. mget sc' k = (if w = Some k then Some (won k + 1) else mget sc k))) \<and>
      st_status s' = (case w of None \<Rightarrow> ''active'' | Some k \<Rightarrow>
        if fmt = FormatSingleRound \<or> won k + 1 \<ge> 2 then ''finished'' else ''active'') \<and>
      (st_status s' = ''finished'' \<longrightarrow> st_winner s' = w))"
proof -
  note ai = assms(6) [unfolded apply_choice_iff [OF assms(1-3)]]
  then have act: "st_status s = ''active''" and c: "validChoice c" by auto
  note rf = reveal_facts [OF assms(1-3) assms(5,4) c, folded w_def]
  define r where "r = fst (revealRound fmt s (mput a c [(b, c0)]) sc)"
  define s' where "s' = snd (revealRound fmt s (mput a c [(b, c0)]) sc)"
  have rw: "roundWinnerOf (mput a c [(b, c0)]) = w"
    unfolding w_def by (rule roundWinner_two [OF assms(5) c rf(4)])
  obtain es: "mok sc" and le: "\<And>k n. mget sc k = Some n \<Longrightarrow> 0 \<le> n \<and> n \<le> 2"
  proof -
    have e: "entries_ok (\<lambda>n. 0 \<le> n \<and> n \<le> 2) sc" using rp_decode_valid(6) [OF assms(1)] assms(3) by auto
    then have ok: "mok sc" by (simp add: entries_ok_def)
    have "mget sc k = Some n \<Longrightarrow> 0 \<le> n \<and> n \<le> 2" for k n
      using e mget_set [OF ok, of k n] by (fastforce simp: entries_ok_def)
    with ok that show thesis by blast
  qed
  have won: "0 \<le> won k" "won k \<le> 2" for k using le [of k] by (auto simp: won_def split: option.split)
  have i: "i64 (won k + 1) = won k + 1" for k using won [of k] by (intro i64_succ) (auto simp: max_i64_def)
  have sc': "mget (scoreAfter w sc) k = (if w = Some k then Some (won k + 1) else mget sc k)" for k
    using i [of k] by (cases w) (auto simp add: scoreAfter_def won_def mget_mput [OF es])
  have mw: "matchWinnerOf fmt w (scoreAfter w sc) = (case w of None \<Rightarrow> None | Some k \<Rightarrow>
      if fmt = FormatSingleRound \<or> won k + 1 \<ge> 2 then Some k else None)"
    using sc' by (cases w) (simp_all add: matchWinnerOf_def)
  have draw: "w = None \<longleftrightarrow> c = c0"
    using c rf(4) by (auto simp: w_def beats_def validChoice_def Rock_def Paper_def Scissors_def)
  have r: "rv_winner r = w" "rv_draw r \<longleftrightarrow> w = None" "rv_scores r = Some (scoreAfter w sc)"
    unfolding r_def by (subst rf(1), simp)+
  have s': "st_last s' = Some r" "st_choices s' = Some []" "st_scores s' = Some (scoreAfter w sc)"
    "st_status s' = (if matchWinnerOf fmt w (scoreAfter w sc) = None then ''active'' else ''finished'')"
    "matchWinnerOf fmt w (scoreAfter w sc) \<noteq> None \<Longrightarrow> st_winner s' = matchWinnerOf fmt w (scoreAfter w sc)"
    using act by (auto simp: s'_def r_def revealRound_def Let_def rw simp del: mput.simps)
  have "ev_type e = RoundRevealed" "ev_payload e = render (JObj (reveal_members r))"
    "sn' = encodeState (i64 (sn_revision sn + 1)) s'"
    using ai by (simp_all add: r_def s'_def)
  moreover have "st_status s' = (case w of None \<Rightarrow> ''active'' | Some k \<Rightarrow>
        if fmt = FormatSingleRound \<or> won k + 1 \<ge> 2 then ''finished'' else ''active'')"
    using s'(4) mw by (auto split: option.splits if_splits)
  moreover have "st_status s' = ''finished'' \<longrightarrow> st_winner s' = w"
    using s'(4,5) mw by (auto split: option.splits if_splits)
  moreover have "rv_draw r \<longleftrightarrow> c = c0" using r(2) draw by blast
  moreover have "\<forall>k. mget (scoreAfter w sc) k = (if w = Some k then Some (won k + 1) else mget sc k)"
    using sc' by blast
  ultimately show ?thesis
    using r(1,3) s'(1-3)
    by (intro conjI exI [of _ r] exI [of _ s'] exI [of _ "scoreAfter w sc"])
qed


definition sample_state :: state where
  "sample_state = (initialState FormatSingleRound)\<lparr>st_choices := Some [(''bob'', Rock)]\<rparr>"

lemma sample_decodes:
  "decodeState (encodeState 1 sample_state) FormatSingleRound = Some sample_state"
  "st_choices sample_state = Some [(''bob'', Rock)]" "st_scores sample_state = Some []"
  "st_status sample_state = ''active''" "validActorID ''alice''"
proof -
  have "state_ok sample_state"
    by (simp add: state_ok_def sample_state_def initialState_def validFormat_def entries_ok_def mok_def
        validActorID_def validChoice_def validOptionalActor_def is_i64_small)
  from rp_decode_encode [OF this, of 1] show "decodeState (encodeState 1 sample_state) FormatSingleRound = Some sample_state"
    by (simp add: sample_state_def initialState_def)
qed (simp_all add: sample_state_def initialState_def validActorID_def)

theorem rps_round_witness:
  "\<exists>e sn'. apply_choice FormatSingleRound (encodeState 1 sample_state) ''alice'' Paper = Inr (e, sn') \<and>
    ev_type e = RoundRevealed \<and> (\<exists>s'. sn' = encodeState 2 s' \<and> st_winner s' = Some ''alice'')"
proof -
  note sd = sample_decodes
  have v: "validChoice Paper" by (simp add: validChoice_def)
  have "\<exists>e sn'. apply_choice FormatSingleRound (encodeState 1 sample_state) ''alice'' Paper = Inr (e, sn')"
    unfolding apply_choice_iff [OF sd(1-3)] using sd(4) v by (auto simp: mget_def)
  then obtain e sn' where a: "apply_choice FormatSingleRound (encodeState 1 sample_state) ''alice'' Paper = Inr (e, sn')"
    by blast
  have "i64 2 = 2" by (rule i64_id) (simp add: is_i64_small)
  moreover have "beats Paper Rock" by (simp add: beats_def)
  ultimately show ?thesis
    using rps_round [OF sd(1-3,5) _ a] a by auto
qed

text \<open>
  What \<open>Apply\<close> refuses: on a state that decodes, with a well-formed request, a finished match
  answers \<open>ErrMatchFinished\<close>, an actor who has already locked a choice in this round gets
  \<open>ErrChoiceLocked\<close> and nothing changes, and no other error is possible while the round waits
  for a choice.
\<close>

lemma rps_apply_errors:
  assumes "decodeState sn fmt = Some s" and "st_choices s = Some ch" and "length ch \<le> 1"
    and "validActorID actor" and "decodeChoice payload = Inr c"
  shows "Apply fmt sn actor \<lparr>act_type = ChoiceRequested, act_payload = payload\<rparr> = Inl err \<longleftrightarrow>
    (if st_status s = ''finished'' then err = RpsMatchFinished
     else mget ch actor \<noteq> None \<and> err = RpsChoiceLocked)"
proof -
  note dv = rp_decode_valid [OF assms(1)]
  obtain sc where sc: "st_scores s = Some sc" using dv(6) by auto
  have ok: "mok ch" using dv(5) assms(2) by (auto simp: entries_ok_def)
  have c: "validChoice c" by (rule decodeChoice_valid [OF assms(5)])
  have new: "mget ch actor = None \<Longrightarrow> length (mput actor c ch) \<in> {1, 2}"
    using gm.size_put [OF ok] assms(3) by (cases ch) auto
  have "Apply fmt sn actor \<lparr>act_type = ChoiceRequested, act_payload = payload\<rparr> = apply_choice fmt sn actor c"
    using assms(4,5) dv(2,9) by (simp add: Apply_def)
  moreover have "apply_choice fmt sn actor c = Inl err \<longleftrightarrow>
    (if st_status s = ''finished'' then err = RpsMatchFinished
     else mget ch actor \<noteq> None \<and> err = RpsChoiceLocked)"
    using c new dv(7) assms(2) sc
    by (cases "st_status s = ''finished''"; cases "mget ch actor")
      (auto simp: apply_choice_def assms(1) Let_def split: prod.splits)
  ultimately show ?thesis by simp
qed

lemma rps_apply_errors_witness:
  "Apply FormatSingleRound (encodeState 1 sample_state) ''bob''
    \<lparr>act_type = ChoiceRequested, act_payload = render (JObj (choice_members Paper))\<rparr> = Inl RpsChoiceLocked"
proof -
  have b: "validActorID ''bob''" by (simp add: validActorID_def)
  have v: "validChoice Paper" by (simp add: validChoice_def)
  from rps_apply_errors [OF sample_decodes(1,2) _ b decodeChoice_members [OF v], of RpsChoiceLocked]
  show ?thesis using sample_decodes(4) by (simp add: mget_def del: render.simps)
qed

text \<open>
  Event sourcing: \<open>Rebuild\<close> accepts a log exactly when every event of it is one that \<open>Apply\<close>
  returned for a choice on the snapshot before it and that carries that choice readably.
\<close>

lemma rps_rebuild_iff_played:
  assumes "validFormat fmt" and "int (length es) \<le> max_i64"
  shows "Rebuild fmt es = Inr sn \<longleftrightarrow> played (accepts fmt) (encodeState 0 (initialState fmt)) es sn"
  using rps_log.rebuild_iff_played [OF assms(2)] assms(1) by (simp add: Rebuild_def initialSnapshot_def)

lemma rps_rebuild_iff_played_witness: "Rebuild FormatBestOfThree [] = Inr (encodeState 0 (initialState FormatBestOfThree))"
  using rps_rebuild_iff_played [of FormatBestOfThree "[]"]
  by (simp add: validFormat_def max_i64_def played_Nil)

text \<open>
  A match between two players: whatever choices \<open>a\<close> and \<open>b\<close> make in whatever order, the log
  they leave is accepted by \<open>Rebuild\<close>, and the snapshot decodes to a state where every complete
  round took two events, no score exceeds the wins the format needs, and the match is finished
  exactly when one of the two has them, who is the winner.
\<close>

lemma rps_two_players:
  assumes "played (plays a b fmt) (encodeState 0 (initialState fmt)) es sn"
    and "validActorID a" and "validActorID b" and "a \<noteq> b" and "validFormat fmt"
    and "int (length es) \<le> max_i64"
  shows "Rebuild fmt es = Inr sn \<and>
    (\<exists>s ch sc. decodeState sn fmt = Some s \<and> st_choices s = Some ch \<and> st_scores s = Some sc \<and>
      (\<forall>k n. mget sc k = Some n \<longrightarrow> k \<in> {a, b} \<and> 1 \<le> n \<and> n \<le> need fmt) \<and>
      (if st_status s = ''active''
       then int (length es) = 2 * (st_round s - 1) + int (length ch) \<and> length ch \<le> 1 \<and>
         (\<forall>k n. mget sc k = Some n \<longrightarrow> n < need fmt)
       else int (length es) = 2 * st_round s \<and>
         (\<exists>w\<in>{a, b}. st_winner s = Some w \<and> mget sc w = Some (need fmt))))"
proof -
  from two_players_play [OF assms] obtain s
    where p: "played (accepts fmt) (encodeState 0 (initialState fmt)) es sn"
    and sn: "sn = encodeState (int (length es)) s" and inv: "two_inv a b fmt (int (length es)) s" by auto
  have "Rebuild fmt es = Inr sn"
    using p rps_log.rebuild_iff_played [OF assms(6)] assms(5) by (simp add: Rebuild_def initialSnapshot_def)
  moreover have "decodeState sn fmt = Some s"
    using rp_decode_encode [OF two_state_ok [OF inv assms(2,3,6)], of "int (length es)"] inv
    by (simp add: sn two_inv_def)
  ultimately show ?thesis
    using inv unfolding two_inv_def by (auto split: if_splits)
qed

lemma rps_two_players_witness: "Rebuild FormatSingleRound [] = Inr (encodeState 0 (initialState FormatSingleRound))"
  using rps_two_players [of "''alice''" "''bob''" FormatSingleRound "[]", OF played_start]
  by (simp add: validFormat_def max_i64_def validActorID_def)

end
