(* ===== verification/ChineseCheckers.thy ===== *)
theory ChineseCheckers
  imports GameApi
begin

text \<open>
  Chinese checkers (\<open>server/internal/games/chinesecheckers/board.go\<close> and \<open>rules.go\<close>): the
  121-hole star and its geometry, move paths, the snapshot codec with its validation, and the rules
  \<open>Apply\<close> and \<open>Rebuild\<close>. A \<open>Color\<close> is the \<open>uint8\<close> 0, 1 or 2; a board is the list of its 121 cells.
  The horizontal coordinate counts half steps, so the six neighbours of a hole are two half steps
  away in its row and one half step away in the rows next to it.
\<close>

subsection \<open>The star\<close>

type_synonym color = nat

abbreviation Empty :: color where "Empty \<equiv> 0"
abbreviation Black :: color where "Black \<equiv> 1"
abbreviation White :: color where "White \<equiv> 2"

definition BoardCells :: int where "BoardCells = 121"

record point =
  X2 :: int
  Y :: int

definition pt :: "int \<Rightarrow> int \<Rightarrow> point" where
  "pt x y = \<lparr>X2 = x, Y = y\<rparr>"

definition rowLengths :: "nat list" where
  "rowLengths = [1, 2, 3, 4, 13, 12, 11, 10, 9, 10, 11, 12, 13, 4, 3, 2, 1]"

definition rowStarts :: "int list" where
  "rowStarts = [12, 11, 10, 9, 0, 1, 2, 3, 4, 3, 2, 1, 0, 9, 10, 11, 12]"

definition boardPoints :: "point list" where
  "boardPoints =
     concat (map (\<lambda>row. map (\<lambda>column. pt (rowStarts ! row + 2 * int column) (int row)) [0..<rowLengths ! row])
       [0..<length rowLengths])"

definition pointIndices :: "point \<Rightarrow> nat option" where
  "pointIndices = map_of (zip boardPoints [0..<length boardPoints])"

definition campIndices :: "color \<Rightarrow> nat list" where
  "campIndices c =
     (if c = White then [0, 1, 2, 3, 4, 5, 6, 7, 8, 9]
      else if c = Black then [111, 112, 113, 114, 115, 116, 117, 118, 119, 120]
      else [])"

definition isTargetCamp :: "int \<Rightarrow> color \<Rightarrow> bool" where
  "isTargetCamp i c =
     (if c = Black then i \<ge> 111 \<and> i < BoardCells
      else if c = White then i \<ge> 0 \<and> i \<le> 9
      else False)"

definition isNeutralCamp :: "int \<Rightarrow> bool" where
  "isNeutralCamp i =
     (if i < 0 \<or> i \<ge> BoardCells then False
      else let row = Y (boardPoints ! nat i) in
        if row < 4 \<or> row > 12 \<or> row = 8 then False
        else let rowOffset = int (sum_list (take (nat row) rowLengths));
                 column = i - rowOffset;
                 wingDepth = (if row \<ge> 4 \<and> row \<le> 7 then 8 - row
                   else if row \<ge> 9 \<and> row \<le> 12 then row - 8 else 0)
             in wingDepth > 0 \<and> (column < wingDepth \<or> column \<ge> int (rowLengths ! nat row) - wingDepth))"

definition adjacentDelta :: "int \<Rightarrow> int \<Rightarrow> bool" where
  "adjacentDelta x y \<longleftrightarrow>
     y = 0 \<and> (x = -2 \<or> x = 2) \<or> (y = -1 \<or> y = 1) \<and> (x = -1 \<or> x = 1)"

definition jumpDelta :: "int \<Rightarrow> int \<Rightarrow> bool" where
  "jumpDelta x y \<longleftrightarrow>
     y = 0 \<and> (x = -4 \<or> x = 4) \<or> (y = -2 \<or> y = 2) \<and> (x = -2 \<or> x = 2)"

text \<open>
  The loop over the hops of a path; \<open>single\<close> is \<open>len(path) == 2\<close>. The deltas of a jump are even, so
  the truncating division of Go and \<open>div\<close> agree on them.
\<close>

fun walk :: "bool \<Rightarrow> color \<Rightarrow> nat list \<Rightarrow> int \<Rightarrow> int list \<Rightarrow> bool" where
  "walk single c cs cur [] = True"
| "walk single c cs cur (nxt # rest) =
     (if cs ! nat nxt \<noteq> Empty then False
      else let f = boardPoints ! nat cur; t = boardPoints ! nat nxt;
               dx = X2 t - X2 f; dy = Y t - Y f;
               ok = (if adjacentDelta dx dy then single
                     else if jumpDelta dx dy then
                       (case pointIndices (pt (X2 f + dx div 2) (Y f + dy div 2)) of
                          None \<Rightarrow> False
                        | Some m \<Rightarrow> cs ! m \<noteq> Empty)
                     else False)
           in ok \<and> walk single c (cs[nat cur := Empty, nat nxt := c]) nxt rest)"

definition validMovePath :: "nat list \<Rightarrow> color \<Rightarrow> int list \<Rightarrow> bool" where
  "validMovePath cs c path =
     (if c \<noteq> Black \<and> c \<noteq> White \<or> length path < 2 \<or> int (length path) > BoardCells then False
      else if \<not> (list_all (\<lambda>i. \<not> (i < 0 \<or> i \<ge> BoardCells)) path \<and> distinct path) then False
      else let source = hd path; destination = last path in
        if cs ! nat source \<noteq> c \<or> cs ! nat destination \<noteq> Empty \<or> isNeutralCamp destination then False
        else if isTargetCamp source c \<and> \<not> isTargetCamp destination c then False
        else walk (length path = 2) c (cs[nat source := Empty]) source (tl path))"

definition hasCompletedCamp :: "nat list \<Rightarrow> color \<Rightarrow> bool" where
  "hasCompletedCamp cs c \<longleftrightarrow> list_all (\<lambda>i. cs ! i = c) (campIndices c) \<and> (c = Black \<or> c = White)"

definition initialBoard :: "nat list" where
  "initialBoard = map (\<lambda>i. if i \<le> 9 then Black else if 111 \<le> i then White else Empty) [0..<121]"

subsection \<open>Snapshots\<close>

definition GameID :: bytes where "GameID = ''chinese_checkers''"
definition MoveRequested :: bytes where "MoveRequested = ''chinese_checkers.move.requested''"
definition MoveAccepted :: bytes where "MoveAccepted = ''chinese_checkers.move.accepted''"

record snapshotState =
  st_status :: bytes
  st_board :: "nat list"
  st_black :: "bytes option"
  st_white :: "bytes option"
  st_next :: bytes
  st_winner :: "bytes option"
  st_result :: "bytes option"

definition colorString :: "color \<Rightarrow> bytes" where
  "colorString c = (if c = Black then ''black'' else if c = White then ''white'' else '''')"

definition colorNamed :: "bytes \<Rightarrow> color" where
  "colorNamed name =
     (if name = colorString Black then Black else if name = colorString White then White else Empty)"

definition opposite :: "color \<Rightarrow> color" where
  "opposite c = (if c = Black then White else if c = White then Black else Empty)"

definition actorForColor :: "snapshotState \<Rightarrow> color \<Rightarrow> bytes option" where
  "actorForColor st c = (if c = Black then st_black st else if c = White then st_white st else None)"

definition state_members :: "snapshotState \<Rightarrow> (bytes \<times> json) list" where
  "state_members st =
     [(''status'', JStr (st_status st)),
      (''board'', JArr (map (\<lambda>c. jint (int c)) (st_board st))),
      (''blackUserId'', jptr JStr (st_black st)),
      (''whiteUserId'', jptr JStr (st_white st)),
      (''nextColor'', JStr (st_next st)),
      (''winnerUserId'', jptr JStr (st_winner st)),
      (''result'', jptr JStr (st_result st))]"

definition state_names :: "bytes list" where
  "state_names = [''status'', ''board'', ''blackUserId'', ''whiteUserId'', ''nextColor'',
     ''winnerUserId'', ''result'']"

definition marshalState :: "snapshotState \<Rightarrow> bytes" where
  "marshalState st = render (JObj (state_members st))"

text \<open>\<open>decoder.Decode(&state)\<close> with unknown fields disallowed.\<close>

definition decodeStruct :: "bytes \<Rightarrow> snapshotState option" where
  "decodeStruct data = do {
     (j, rest) \<leftarrow> json_decode data;
     kvs \<leftarrow> obj_fields j;
     (if list_all (\<lambda>k. match_field state_names k \<noteq> None) (map fst kvs) then Some () else None);
     status \<leftarrow> dec_field state_names kvs ''status'' dec_string '''';
     brd \<leftarrow> dec_field state_names kvs ''board'' (dec_array 121 dec_uint8 0) (replicate 121 0);
     black \<leftarrow> dec_field state_names kvs ''blackUserId'' (dec_ptr dec_string '''') None;
     white \<leftarrow> dec_field state_names kvs ''whiteUserId'' (dec_ptr dec_string '''') None;
     nxt \<leftarrow> dec_field state_names kvs ''nextColor'' dec_string '''';
     winner \<leftarrow> dec_field state_names kvs ''winnerUserId'' (dec_ptr dec_string '''') None;
     result \<leftarrow> dec_field state_names kvs ''result'' (dec_ptr dec_string '''') None;
     Some \<lparr>st_status = status, st_board = brd, st_black = black, st_white = white,
           st_next = nxt, st_winner = winner, st_result = result\<rparr> }"

definition decodeObject :: "bytes \<Rightarrow> bytes list \<Rightarrow> (bytes \<times> bytes) list option" where
  "decodeObject data allowed = strict_object allowed data"

text \<open>The checks of \<open>decodeSnapshot\<close> on the decoded fields, in the order of the code.\<close>

definition validSeats :: "int \<Rightarrow> snapshotState \<Rightarrow> bool" where
  "validSeats rv st \<longleftrightarrow>
     list_all (\<lambda>c. c = Black \<or> c = White \<or> c = Empty) (st_board st)
     \<and> \<not> (count_list (st_board st) Black \<noteq> 10 \<or> count_list (st_board st) White \<noteq> 10 \<or>
          \<not> validOptionalActor (st_black st) \<or> \<not> validOptionalActor (st_white st))
     \<and> \<not> (st_black st \<noteq> None \<and> st_white st \<noteq> None \<and> st_black st = st_white st)
     \<and> \<not> (rv = 0 \<and> (st_black st \<noteq> None \<or> st_white st \<noteq> None) \<or>
          rv = 1 \<and> (st_black st = None \<or> st_white st \<noteq> None) \<or>
          rv \<ge> 2 \<and> (st_black st = None \<or> st_white st = None))
     \<and> st_next st = colorString (if rv mod 2 = 1 then White else Black)"

definition validOutcome :: "snapshotState \<Rightarrow> bool" where
  "validOutcome st \<longleftrightarrow>
     (let blackComplete = hasCompletedCamp (st_board st) Black;
          whiteComplete = hasCompletedCamp (st_board st) White in
      if st_status st = ''active'' then
        \<not> (st_winner st \<noteq> None \<or> st_result st \<noteq> None \<or> blackComplete \<or> whiteComplete)
      else if st_status st = ''finished'' then
        (case st_result st of
           None \<Rightarrow> False
         | Some res \<Rightarrow>
             if res = ''goal'' then
               (case st_winner st of
                  None \<Rightarrow> False
                | Some w \<Rightarrow>
                    if blackComplete = whiteComplete then False
                    else w = valueOrEmpty (actorForColor st (if whiteComplete then White else Black)))
             else if res = ''resignation'' then
               (case st_winner st of
                  None \<Rightarrow> False
                | Some w \<Rightarrow> \<not> (blackComplete \<or> whiteComplete \<or>
                    (w \<noteq> valueOrEmpty (st_black st) \<and> w \<noteq> valueOrEmpty (st_white st))))
             else False)
      else False)"

definition decodeSnapshot :: "snapshot \<Rightarrow> game_error + snapshotState" where
  "decodeSnapshot sn =
     (if sn_revision sn < 0 \<or> length (sn_state sn) > 8192 \<or> \<not> utf8_valid (sn_state sn)
      then Inl ErrInvalidSnapshot
      else or_fail (do {
        fields \<leftarrow> decodeObject (sn_state sn) state_names;
        (if length fields = length state_names then Some () else None);
        rawBoard \<leftarrow> unmarshal (dec_slice dec_int 0) [] (the (map_of fields ''board''));
        (if int (length rawBoard) = BoardCells then Some () else None);
        st \<leftarrow> decodeStruct (sn_state sn);
        (if validSeats (sn_revision sn) st \<and> validOutcome st then Some st else None)
      }) ErrInvalidSnapshot)"

subsection \<open>Rules\<close>

definition initialState :: snapshotState where
  "initialState = \<lparr>st_status = ''active'', st_board = initialBoard, st_black = None, st_white = None,
     st_next = colorString Black, st_winner = None, st_result = None\<rparr>"

definition initialSnapshot :: snapshot where
  "initialSnapshot = \<lparr>sn_revision = 0, sn_state = marshalState initialState\<rparr>"

definition pathInteger :: "bytes \<Rightarrow> int option" where
  "pathInteger raw =
     (case decodeInteger raw of
        None \<Rightarrow> None
      | Some v \<Rightarrow> if v < 0 \<or> v \<ge> BoardCells then None else Some v)"

definition decodePath :: "bytes \<Rightarrow> int list option" where
  "decodePath raw =
     (case strict_array 121 pathInteger raw of
        None \<Rightarrow> None
      | Some path \<Rightarrow> if length path < 2 then None else Some path)"

definition decodeMove :: "bytes \<Rightarrow> int list option" where
  "decodeMove payload =
     (if length payload > 2048 \<or> \<not> utf8_valid payload then None
      else do {
        fields \<leftarrow> decodeObject payload [''path''];
        raw \<leftarrow> map_of fields ''path'';
        decodePath raw })"

definition path_json :: "int list \<Rightarrow> json" where
  "path_json path = JArr (map jint path)"

definition accepted_members :: "int list \<Rightarrow> color \<Rightarrow> bytes \<Rightarrow> (bytes \<times> json) list" where
  "accepted_members path c actor =
     [(''path'', path_json path), (''color'', JStr (colorString c)), (''userId'', JStr actor)]"

definition acceptedMovePayload :: "int list \<Rightarrow> color \<Rightarrow> bytes \<Rightarrow> bytes" where
  "acceptedMovePayload path c actor = render (JObj (accepted_members path c actor))"

definition decodeAcceptedMove :: "bytes \<Rightarrow> (int list \<times> bytes \<times> bytes) option" where
  "decodeAcceptedMove payload =
     (if length payload > 2304 \<or> \<not> utf8_valid payload then None
      else do {
        fields \<leftarrow> decodeObject payload [''path'', ''color'', ''userId''];
        rp \<leftarrow> map_of fields ''path'';
        rc \<leftarrow> map_of fields ''color'';
        ru \<leftarrow> map_of fields ''userId'';
        path \<leftarrow> decodePath rp;
        color \<leftarrow> unmarshal dec_string '''' rc;
        (if colorNamed color \<noteq> Empty then Some () else None);
        userID \<leftarrow> unmarshal dec_string '''' ru;
        (if validActorID userID then Some (path, color, userID) else None) })"

text \<open>The state part of \<open>applyMove\<close>: turn order, seat binding, the path and the outcome.\<close>

definition bindActor :: "snapshotState \<Rightarrow> color \<Rightarrow> bytes \<Rightarrow> game_error + snapshotState" where
  "bindActor st c actor =
     (case actorForColor st c of
        Some expected \<Rightarrow> if expected \<noteq> actor then Inl CheckersNotYourTurn else Inr st
      | None \<Rightarrow>
          if actorForColor st (opposite c) = Some actor then Inl CheckersNotYourTurn
          else if c = Black then Inr (st\<lparr>st_black := Some actor\<rparr>)
          else Inr (st\<lparr>st_white := Some actor\<rparr>))"

definition moved :: "nat list \<Rightarrow> color \<Rightarrow> int list \<Rightarrow> nat list" where
  "moved cs c path = cs[nat (hd path) := Empty, nat (last path) := c]"

definition settle :: "snapshotState \<Rightarrow> color \<Rightarrow> int list \<Rightarrow> bytes \<Rightarrow> snapshotState" where
  "settle st c path actor =
     (let st' = st\<lparr>st_board := moved (st_board st) c path, st_next := colorString (opposite c)\<rparr> in
      if hasCompletedCamp (st_board st') c then
        st'\<lparr>st_status := ''finished'', st_winner := Some actor, st_result := Some ''goal''\<rparr>
      else st')"

definition moveState :: "snapshotState \<Rightarrow> bytes \<Rightarrow> int list \<Rightarrow> game_error + color \<times> snapshotState" where
  "moveState st actor path =
     (if st_status st \<noteq> ''active'' then Inl ErrInvalidAction
      else let c = colorNamed (st_next st) in
      if c = Empty then Inl ErrInvalidSnapshot
      else and_then (bindActor st c actor) (\<lambda>st1.
        if \<not> validMovePath (st_board st1) c path then Inl CheckersInvalidPath
        else Inr (c, settle st1 c path actor)))"

definition applyMove :: "snapshot \<Rightarrow> bytes \<Rightarrow> int list \<Rightarrow> game_error + event \<times> snapshot" where
  "applyMove sn actor path =
     (case decodeSnapshot sn of
        Inl e \<Rightarrow> Inl ErrInvalidSnapshot
      | Inr st \<Rightarrow> and_then (moveState st actor path) (\<lambda>(c, st').
          let revision = i64 (sn_revision sn + 1) in
          Inr (\<lparr>ev_revision = revision, ev_type = MoveAccepted, ev_actor = actor,
                ev_payload = acceptedMovePayload path c actor\<rparr>,
               \<lparr>sn_revision = revision, sn_state = marshalState st'\<rparr>)))"

definition Apply :: "snapshot \<Rightarrow> bytes \<Rightarrow> action \<Rightarrow> game_error + event \<times> snapshot" where
  "Apply sn actor act =
     (if act_type act \<noteq> MoveRequested \<or> \<not> validActorID actor then Inl ErrInvalidAction
      else case decodeMove (act_payload act) of
        None \<Rightarrow> Inl ErrInvalidAction
      | Some path \<Rightarrow>
          applyMove (if sn_state sn = [] \<and> sn_revision sn = 0 then initialSnapshot else sn) actor path)"

definition rebuildBody :: "int \<Rightarrow> event \<Rightarrow> snapshot \<Rightarrow> game_error + snapshot" where
  "rebuildBody i e sn =
     (if ev_revision e \<noteq> i + 1 \<or> ev_type e \<noteq> MoveAccepted \<or> \<not> validActorID (ev_actor e)
      then Inl ErrInvalidEvent
      else case decodeAcceptedMove (ev_payload e) of
        None \<Rightarrow> Inl ErrInvalidEvent
      | Some (path, color, userID) \<Rightarrow>
          if userID \<noteq> ev_actor e then Inl ErrInvalidEvent
          else (case decodeSnapshot sn of
             Inl _ \<Rightarrow> Inl ErrInvalidEvent
           | Inr st \<Rightarrow>
               if color \<noteq> st_next st then Inl ErrInvalidEvent
               else case applyMove sn (ev_actor e) path of
                 Inl _ \<Rightarrow> Inl ErrInvalidEvent
               | Inr (produced, nxt) \<Rightarrow>
                   if ev_revision produced \<noteq> ev_revision e \<or> ev_type produced \<noteq> ev_type e \<or>
                      ev_actor produced \<noteq> ev_actor e \<or> ev_payload produced \<noteq> ev_payload e
                   then Inl ErrInvalidEvent else Inr nxt))"

definition Rebuild :: "event list \<Rightarrow> game_error + snapshot" where
  "Rebuild events = rebuild_loop rebuildBody 0 events initialSnapshot"

subsection \<open>Geometry and move paths\<close>

lemma pt_sel [simp]: "X2 (pt x y) = x" "Y (pt x y) = y"
  by (simp_all add: pt_def)

lemma pt_eq_iff: "p = pt x y \<longleftrightarrow> X2 p = x \<and> Y p = y"
  by (cases p) (simp add: pt_def)

lemma length_boardPoints [simp]: "length boardPoints = 121"
  by code_simp

lemma distinct_boardPoints: "distinct boardPoints"
  by code_simp

lemma pointIndices_iff: "pointIndices p = Some m \<longleftrightarrow> m < 121 \<and> boardPoints ! m = p"
proof -
  have "pointIndices p = Some m \<longleftrightarrow> (p, m) \<in> set (zip boardPoints [0..<121])"
    unfolding pointIndices_def length_boardPoints
    by (rule map_of_eq_Some_iff) (simp add: distinct_boardPoints)
  also have "\<dots> \<longleftrightarrow> m < 121 \<and> boardPoints ! m = p" by (auto simp: set_zip)
  finally show ?thesis .
qed

text \<open>
  The rules of the game: two holes are neighbours when they are one step apart, and a piece that
  started on hole \<open>s\<close> jumps from a hole to another over an occupied hole half way, a neighbour of
  both.
\<close>

definition hole :: "int \<Rightarrow> point" where
  "hole i = boardPoints ! nat i"

definition neighbours :: "point \<Rightarrow> point \<Rightarrow> bool" where
  "neighbours p q \<longleftrightarrow>
     (X2 q - X2 p, Y q - Y p) \<in> {(2, 0), (-2, 0), (1, 1), (1, -1), (-1, 1), (-1, -1)}"

definition jumps :: "nat list \<Rightarrow> int \<Rightarrow> int \<Rightarrow> int \<Rightarrow> bool" where
  "jumps cs s i j \<longleftrightarrow>
     (\<exists>m. 0 \<le> m \<and> m < BoardCells \<and> m \<noteq> s \<and> cs ! nat m \<noteq> Empty \<and>
       neighbours (hole i) (hole m) \<and>
       X2 (hole j) - X2 (hole m) = X2 (hole m) - X2 (hole i) \<and>
       Y (hole j) - Y (hole m) = Y (hole m) - Y (hole i))"

definition legal_path :: "nat list \<Rightarrow> color \<Rightarrow> int list \<Rightarrow> bool" where
  "legal_path cs c path \<longleftrightarrow>
     (c = Black \<or> c = White) \<and> 2 \<le> length path \<and> distinct path \<and>
     (\<forall>i\<in>set path. 0 \<le> i \<and> i < BoardCells) \<and>
     cs ! nat (hd path) = c \<and> (\<forall>i\<in>set (tl path). cs ! nat i = Empty) \<and>
     \<not> isNeutralCamp (last path) \<and>
     (isTargetCamp (hd path) c \<longrightarrow> isTargetCamp (last path) c) \<and>
     (length path = 2 \<and> neighbours (hole (hd path)) (hole (last path)) \<or>
      successively (jumps cs (hd path)) path)"

definition hop :: "bool \<Rightarrow> nat list \<Rightarrow> int \<Rightarrow> int \<Rightarrow> bool" where
  "hop single b i j \<longleftrightarrow>
     (let dx = X2 (hole j) - X2 (hole i); dy = Y (hole j) - Y (hole i) in
      if adjacentDelta dx dy then single
      else jumpDelta dx dy \<and>
        (\<exists>m<121. boardPoints ! m = pt (X2 (hole i) + dx div 2) (Y (hole i) + dy div 2) \<and> b ! m \<noteq> Empty))"

lemma walk_hop:
  assumes "length cs = 121" and "distinct (cur # path)" and "\<forall>i\<in>set (cur # path). 0 \<le> i \<and> i < 121"
    and "c \<noteq> Empty" and "cs[nat cur := Empty] = b"
  shows "walk single c cs cur path \<longleftrightarrow> (\<forall>i\<in>set path. b ! nat i = Empty) \<and> successively (hop single b) (cur # path)"
  using assms
proof (induction path arbitrary: cs cur)
  case (Cons nxt rest)
  have n: "nat nxt \<noteq> nat cur" "nat nxt < 121" "nat cur < 121" using Cons.prems by (auto simp: eq_nat_nat_iff)
  have b: "b ! nat nxt = cs ! nat nxt" using Cons.prems(5) n by auto
  let ?cs = "cs[nat cur := Empty, nat nxt := c]"
  have up: "?cs[nat nxt := Empty] = b" if "b ! nat nxt = Empty"
    using that Cons.prems(5) n by (metis list_update_id list_update_overwrite)
  have IH: "walk single c ?cs nxt rest \<longleftrightarrow>
      (\<forall>i\<in>set rest. b ! nat i = Empty) \<and> successively (hop single b) (nxt # rest)" if "b ! nat nxt = Empty"
    using Cons.prems up [OF that] by (intro Cons.IH) auto
  have mid: "cs ! m \<noteq> Empty \<longleftrightarrow> b ! m \<noteq> Empty"
    if "boardPoints ! m = pt (X2 (hole cur) + dx div 2) (Y (hole cur) + dy div 2)" "jumpDelta dx dy" for m dx dy
  proof -
    have "m \<noteq> nat cur" using that by (auto simp: hole_def jumpDelta_def pt_eq_iff)
    then show ?thesis using Cons.prems(5) by auto
  qed
  have h: "(if adjacentDelta dx dy then single else if jumpDelta dx dy then
        (case pointIndices (pt (X2 (hole cur) + dx div 2) (Y (hole cur) + dy div 2)) of
          None \<Rightarrow> False | Some m \<Rightarrow> cs ! m \<noteq> Empty) else False) \<longleftrightarrow> hop single b cur nxt"
    if "dx = X2 (hole nxt) - X2 (hole cur)" "dy = Y (hole nxt) - Y (hole cur)" for dx dy
  proof -
    let ?p = "pt (X2 (hole cur) + dx div 2) (Y (hole cur) + dy div 2)"
    have "jumpDelta dx dy \<Longrightarrow> (case pointIndices ?p of None \<Rightarrow> False | Some m \<Rightarrow> cs ! m \<noteq> Empty) \<longleftrightarrow>
        (\<exists>m<121. boardPoints ! m = ?p \<and> b ! m \<noteq> Empty)"
      (is "_ \<Longrightarrow> ?l \<longleftrightarrow> ?r")
    proof -
      assume j: "jumpDelta dx dy"
      show "?l \<longleftrightarrow> ?r"
      proof (cases "pointIndices ?p")
        case None
        then have "\<not> (m < 121 \<and> boardPoints ! m = ?p)" for m by (simp add: pointIndices_iff [symmetric])
        with None show ?thesis by auto
      next
        case (Some m)
        then have m: "m < 121" "boardPoints ! m = ?p" by (simp_all add: pointIndices_iff)
        have u: "m' = m" if "m' < 121 \<and> boardPoints ! m' = ?p" for m'
          using that Some unfolding pointIndices_iff [symmetric] by simp
        show ?thesis
          unfolding Some option.case using m mid [OF m(2) j] u by blast
      qed
    qed
    then show ?thesis
      unfolding hop_def Let_def that [symmetric] by (cases "jumpDelta dx dy") (simp_all only: if_True if_False simp_thms)
  qed
  show ?case
    using IH h [OF refl refl] b by (auto simp: Let_def hole_def [symmetric])
qed simp

lemma adjacent_neighbours: "adjacentDelta (X2 q - X2 p) (Y q - Y p) \<longleftrightarrow> neighbours p q"
  by (auto simp: adjacentDelta_def neighbours_def)

lemma jump_half:
  "jumpDelta dx dy \<and> u = dx div 2 \<and> v = dy div 2 \<longleftrightarrow>
   (u, v) \<in> {(2, 0), (-2, 0), (1, 1), (1, -1), (-1, 1), (-1, -1)} \<and> dx = 2 * u \<and> dy = 2 * v"
  by (auto simp: jumpDelta_def)

lemma jump_middle:
  "jumpDelta (X2 q - X2 p) (Y q - Y p) \<and>
     m = pt (X2 p + (X2 q - X2 p) div 2) (Y p + (Y q - Y p) div 2) \<longleftrightarrow>
   neighbours p m \<and> X2 q - X2 m = X2 m - X2 p \<and> Y q - Y m = Y m - Y p"
proof -
  have "X2 m = X2 p + d \<longleftrightarrow> X2 m - X2 p = d" "Y m = Y p + d \<longleftrightarrow> Y m - Y p = d" for d by linarith+
  moreover have "X2 q - X2 m = X2 m - X2 p \<longleftrightarrow> X2 q - X2 p = 2 * (X2 m - X2 p)"
    "Y q - Y m = Y m - Y p \<longleftrightarrow> Y q - Y p = 2 * (Y m - Y p)" by auto
  ultimately show ?thesis
    using jump_half [of "X2 q - X2 p" "Y q - Y p" "X2 m - X2 p" "Y m - Y p"]
    by (simp only: pt_eq_iff neighbours_def)
qed

lemma hop_iff:
  assumes "0 \<le> s" "s < 121" "length cs = 121"
  shows "hop single (cs[nat s := Empty]) i j \<longleftrightarrow> neighbours (hole i) (hole j) \<and> single \<or> jumps cs s i j"
proof -
  let ?dx = "X2 (hole j) - X2 (hole i)" and ?dy = "Y (hole j) - Y (hole i)"
  let ?M = "\<lambda>m. boardPoints ! m = pt (X2 (hole i) + ?dx div 2) (Y (hole i) + ?dy div 2) \<and>
      cs[nat s := Empty] ! m \<noteq> Empty"
  have "jumpDelta ?dx ?dy \<and> (\<exists>m<121. ?M m) \<longleftrightarrow> jumps cs s i j"
  proof
    assume "jumpDelta ?dx ?dy \<and> (\<exists>m<121. ?M m)"
    then obtain m where m: "m < 121" "jumpDelta ?dx ?dy" "?M m" by blast
    then have "m \<noteq> nat s \<and> cs ! m \<noteq> Empty" using assms by (cases "m = nat s") (auto simp: nth_list_update)
    then show "jumps cs s i j"
      using m jump_middle [of "hole j" "hole i" "boardPoints ! m"] unfolding jumps_def
      by (intro exI [of _ "int m"]) (auto simp: BoardCells_def hole_def)
  next
    assume "jumps cs s i j"
    then obtain m where m: "0 \<le> m" "m < BoardCells" "m \<noteq> s" "cs ! nat m \<noteq> Empty"
      and h: "neighbours (hole i) (hole m)" "X2 (hole j) - X2 (hole m) = X2 (hole m) - X2 (hole i)"
        "Y (hole j) - Y (hole m) = Y (hole m) - Y (hole i)"
      unfolding jumps_def by blast
    have "cs[nat s := Empty] ! nat m \<noteq> Empty" using m assms by (auto simp: nth_list_update eq_nat_nat_iff)
    with m h jump_middle [of "hole j" "hole i" "hole m"]
    show "jumpDelta ?dx ?dy \<and> (\<exists>m<121. ?M m)"
      by (auto simp: BoardCells_def hole_def [of m] intro!: exI [of _ "nat m"])
  qed
  moreover have "jumpDelta ?dx ?dy \<Longrightarrow> \<not> neighbours (hole i) (hole j)"
    unfolding adjacent_neighbours [symmetric] by (auto simp: jumpDelta_def adjacentDelta_def)
  ultimately show ?thesis
    unfolding hop_def Let_def adjacent_neighbours by auto
qed

lemma validMovePath_conj:
  "validMovePath cs c path \<longleftrightarrow>
     (c = Black \<or> c = White) \<and> 2 \<le> length path \<and> int (length path) \<le> BoardCells \<and>
     (\<forall>i\<in>set path. 0 \<le> i \<and> i < BoardCells) \<and> distinct path \<and> cs ! nat (hd path) = c \<and>
     cs ! nat (last path) = Empty \<and> \<not> isNeutralCamp (last path) \<and>
     (isTargetCamp (hd path) c \<longrightarrow> isTargetCamp (last path) c) \<and>
     walk (length path = 2) c (cs[nat (hd path) := Empty]) (hd path) (tl path)"
proof -
  have e: "(if P then False else Q) \<longleftrightarrow> \<not> P \<and> Q" for P Q by simp
  have l: "length path < 2 \<longleftrightarrow> \<not> 2 \<le> length path" "int (length path) > BoardCells \<longleftrightarrow> \<not> int (length path) \<le> BoardCells"
    "i < 0 \<longleftrightarrow> \<not> 0 \<le> i" "i \<ge> BoardCells \<longleftrightarrow> \<not> i < BoardCells" for i
    by linarith+
  show ?thesis
    unfolding validMovePath_def Let_def list_all_iff e l de_Morgan_disj de_Morgan_conj not_not by argo
qed

lemma validMovePath_iff:
  assumes "length cs = 121"
  shows "validMovePath cs c path \<longleftrightarrow> legal_path cs c path"
proof (cases "(c = Black \<or> c = White) \<and> 2 \<le> length path \<and> distinct path \<and>
     (\<forall>i\<in>set path. 0 \<le> i \<and> i < BoardCells) \<and> cs ! nat (hd path) = c")
  case False
  then show ?thesis unfolding validMovePath_conj legal_path_def by blast
next
  case True
  then obtain s rest where path: "path = s # rest" by (cases path) auto
  with True have ne: "rest \<noteq> []" and r: "\<forall>i\<in>set (s # rest). 0 \<le> i \<and> i < 121" "distinct (s # rest)"
    by (auto simp: BoardCells_def)
  have c0: "c \<noteq> Empty" using True by auto
  have "card (set path) \<le> card {0..<BoardCells}" using True by (intro card_mono) auto
  then have len: "\<not> int (length path) > BoardCells" using True by (simp add: distinct_card BoardCells_def)
  let ?b = "cs[nat s := Empty]"
  have lst: "last path \<in> set (tl path)" using path ne by simp
  have same: "?b ! nat i = cs ! nat i" if "i \<in> set rest" for i
    using that r assms by (auto simp: nth_list_update eq_nat_nat_iff)
  have w: "walk (length path = 2) c ?b s rest \<longleftrightarrow>
      (\<forall>i\<in>set rest. cs ! nat i = Empty) \<and> successively (hop (length path = 2) ?b) path"
    using walk_hop [of ?b s rest c ?b "length path = 2"] assms r c0 same path by auto
  have hop: "hop (length path = 2) ?b = (\<lambda>i j. neighbours (hole i) (hole j) \<and> length path = 2 \<or> jumps cs s i j)"
    using hop_iff [of s cs "length path = 2"] r assms by (simp add: fun_eq_iff)
  have suc: "successively (hop (length path = 2) ?b) path \<longleftrightarrow>
      length path = 2 \<and> neighbours (hole (hd path)) (hole (last path)) \<or> successively (jumps cs (hd path)) path"
  proof (cases "length path = 2")
    case True
    then obtain t where "rest = [t]" using path by (cases rest) auto
    then show ?thesis unfolding hop by (simp add: path)
  next
    case False
    then show ?thesis unfolding hop by (simp add: path)
  qed
  show ?thesis
    using True len w lst suc unfolding validMovePath_conj legal_path_def path list.sel not_less by blast
qed

subsection \<open>The snapshot codec\<close>

definition valid_state :: "int \<Rightarrow> snapshotState \<Rightarrow> bool" where
  "valid_state rv st \<longleftrightarrow>
     0 \<le> rv \<and> length (st_board st) = 121 \<and> validSeats rv st \<and> validOutcome st"

lemma cc_valid_state_board:
  "valid_state rv st \<Longrightarrow> length (st_board st) = 121 \<and> (\<forall>c\<in>set (st_board st). c \<le> 2)"
  by (auto simp: valid_state_def validSeats_def list_all_iff)

lemma cc_valid_state_actors:
  assumes "valid_state rv st"
  shows "validOptionalActor (st_black st)" and "validOptionalActor (st_white st)"
    and "st_winner st = None \<or> st_winner st = Some '''' \<or> st_winner st = st_black st \<or> st_winner st = st_white st"
proof -
  show "validOptionalActor (st_black st)" and "validOptionalActor (st_white st)"
    using assms by (auto simp: valid_state_def validSeats_def)
  have "validOutcome st" using assms by (simp add: valid_state_def)
  then show "st_winner st = None \<or> st_winner st = Some '''' \<or> st_winner st = st_black st \<or> st_winner st = st_white st"
    by (auto simp: validOutcome_def actorForColor_def Let_def valueOrEmpty_def split: option.splits if_splits)
qed

lemma cc_valid_state_strings:
  assumes "valid_state rv st"
  shows "st_status st \<in> {''active'', ''finished''}" and "st_next st \<in> {''black'', ''white''}"
    and "st_result st \<in> {None, Some ''goal'', Some ''resignation''}"
proof -
  have o: "validOutcome st" and c: "validSeats rv st" using assms by (simp_all add: valid_state_def)
  from o show "st_status st \<in> {''active'', ''finished''}"
    and "st_result st \<in> {None, Some ''goal'', Some ''resignation''}"
    by (auto simp: validOutcome_def Let_def split: option.splits if_splits)
  from c show "st_next st \<in> {''black'', ''white''}"
    by (auto simp: validSeats_def colorString_def split: if_splits)
qed

lemma cc_valid_state_winner_wf:
  assumes "valid_state rv st"
  shows "wf_json (jptr JStr (st_winner st))" and "length (render (jptr JStr (st_winner st))) \<le> 770"
proof -
  have [simp]: "wf_json (jptr JStr (Some ''''))" "length (render (jptr JStr (Some ''''))) \<le> 770"
    by (simp_all add: jptr_def quote_def)
  note a = cc_valid_state_actors [OF assms]
  show "wf_json (jptr JStr (st_winner st))"
    using a(3) wf_opt_actor [OF a(1)] wf_opt_actor [OF a(2)] by (auto simp: jptr_def)
  show "length (render (jptr JStr (st_winner st))) \<le> 770"
    using a(3) length_render_opt_actor [OF a(1)] length_render_opt_actor [OF a(2)]
    by (auto simp: jptr_def quote_def)
qed

lemma cc_small_string_wf: "s \<in> {''active'', ''finished'', ''black'', ''white''} \<Longrightarrow> utf8_valid s \<and> length s \<le> 8"
  by (auto intro: utf8_valid_ascii)

lemma cc_members_wf:
  assumes "valid_state rv st"
  shows "\<forall>kv\<in>set (state_members st). utf8_valid (fst kv) \<and> wf_json (snd kv)"
proof -
  note s = cc_valid_state_strings [OF assms] and a = cc_valid_state_actors [OF assms]
  have "wf_json (jptr JStr (st_result st))" using s(3) by (auto simp: jptr_def utf8_valid_ascii)
  then show ?thesis
    using s(1,2) cc_small_string_wf [of "st_status st"] cc_small_string_wf [of "st_next st"]
      wf_opt_actor [OF a(1)] wf_opt_actor [OF a(2)] cc_valid_state_winner_wf [OF assms]
    by (auto simp: state_members_def utf8_valid_ascii)
qed

lemma cc_members_keys [json_simps]: "map fst (state_members st) = state_names" "distinct state_names"
  by (simp_all add: state_members_def state_names_def)

lemma cc_members_of [json_simps]:
  "map_of (state_members st) ''status'' = Some (JStr (st_status st))"
  "map_of (state_members st) ''board'' = Some (JArr (map (\<lambda>c. jint (int c)) (st_board st)))"
  "map_of (state_members st) ''blackUserId'' = Some (jptr JStr (st_black st))"
  "map_of (state_members st) ''whiteUserId'' = Some (jptr JStr (st_white st))"
  "map_of (state_members st) ''nextColor'' = Some (JStr (st_next st))"
  "map_of (state_members st) ''winnerUserId'' = Some (jptr JStr (st_winner st))"
  "map_of (state_members st) ''result'' = Some (jptr JStr (st_result st))"
  by (simp_all add: state_members_def)

lemma cc_length_marshal:
  assumes "valid_state rv st"
  shows "length (marshalState st) \<le> 8192"
proof -
  note s = cc_valid_state_strings [OF assms] and a = cc_valid_state_actors [OF assms]
  note b = cc_valid_state_board [OF assms]
  have cell: "length (render (jint (int c))) \<le> 1" if "c \<in> set (st_board st)" for c
    using that b length_show_int_pos [of "int c" 1] by (auto simp: jint_def)
  have "length (render (JArr (map (\<lambda>c. jint (int c)) (st_board st)))) \<le> (1 + 1) * 121 + 2"
    using length_render_elems [of "map (\<lambda>c. jint (int c)) (st_board st)" 1] cell b by simp
  moreover have "length (render (jptr JStr (st_result st))) \<le> 70"
    using s(3) length_quote [of "''goal''"] length_quote [of "''resignation''"] by (auto simp: jptr_def)
  moreover have "length (render (JStr (st_status st))) \<le> 50" "length (render (JStr (st_next st))) \<le> 50"
    using length_render_jstr [of "st_status st"] length_render_jstr [of "st_next st"]
      cc_small_string_wf [of "st_status st"] cc_small_string_wf [of "st_next st"] s(1,2) by auto
  moreover note length_render_opt_actor [OF a(1)] length_render_opt_actor [OF a(2)]
    cc_valid_state_winner_wf(2) [OF assms] length_render_members_le [of "state_members st"]
  ultimately show ?thesis
    by (simp add: marshalState_def state_members_def del: render.simps(3,4,5))
qed

lemma cc_member_field [json_simps]:
  "map_of (state_members st) n = Some j \<Longrightarrow> dec_field state_names (state_members st) n d z = d j z"
  by (intro dec_field_exact) (simp_all add: json_simps)

lemma cc_decode_members:
  assumes "valid_state rv st"
  shows "decodeStruct (marshalState st) = Some st"
proof -
  note b = cc_valid_state_board [OF assms]
  have "json_decode (marshalState st) = Some (JObj (state_members st), [])"
    unfolding marshalState_def using cc_members_wf [OF assms] by (intro json_decode_render) simp
  moreover have "list_all (\<lambda>k. match_field state_names k \<noteq> None) state_names"
    by (simp add: list_all_iff json_simps)
  moreover have "dec_array 121 dec_uint8 0 (JArr (map (\<lambda>c. jint (int c)) (st_board st))) (replicate 121 0)
      = Some (st_board st)"
    using b by (intro dec_array_map) (auto intro!: dec_uint8_jint)
  ultimately show ?thesis
    by (simp add: decodeStruct_def json_simps del: dec_array.simps)
qed

lemma cc_decode_encode:
  assumes "valid_state rv st"
  shows "decodeSnapshot \<lparr>sn_revision = rv, sn_state = marshalState st\<rparr> = Inr st"
proof -
  note b = cc_valid_state_board [OF assms]
  have m: "decodeObject (marshalState st) state_names = Some (raw_members (state_members st))"
    unfolding decodeObject_def marshalState_def using cc_members_wf [OF assms]
    by (intro strict_object_render) (simp_all add: json_simps)
  have brd: "unmarshal (dec_slice dec_int 0) [] (render (JArr (map (\<lambda>c. jint (int c)) (st_board st))))
      = Some (map int (st_board st))"
  proof -
    have "dec_slice dec_int 0 (JArr (map jint (map int (st_board st)))) [] = Some (map int (st_board st))"
      using b by (intro dec_slice_map dec_int_jint is_i64_small) auto
    then show ?thesis by (subst unmarshal_render) (simp_all add: comp_def)
  qed
  have "utf8_valid (marshalState st)"
    unfolding marshalState_def using cc_members_wf [OF assms] by (intro utf8_valid_render_obj) auto
  moreover have "length (state_members st) = length state_names"
    by (simp add: state_members_def state_names_def)
  ultimately show ?thesis
    using assms cc_length_marshal [OF assms] b
    by (simp add: decodeSnapshot_def m json_simps brd cc_decode_members [OF assms] valid_state_def
        BoardCells_def del: dec_slice.simps render.simps)
qed

lemma cc_decodeStruct_board: "decodeStruct s = Some st \<Longrightarrow> length (st_board st) = 121"
  by (clarsimp simp: decodeStruct_def split: if_splits bind_splits)
    (drule dec_field_array_length, simp)

lemma cc_decode_valid:
  assumes "decodeSnapshot sn = Inr st"
  shows "valid_state (sn_revision sn) st" and "sn_state sn \<noteq> []"
proof -
  have d: "decodeStruct (sn_state sn) = Some st" and v: "validSeats (sn_revision sn) st" "validOutcome st"
    and r: "0 \<le> sn_revision sn" and o: "\<exists>f. decodeObject (sn_state sn) state_names = Some f"
    using assms by (auto simp: decodeSnapshot_def split: if_splits bind_splits)
  from cc_decodeStruct_board [OF d] v r show "valid_state (sn_revision sn) st" by (simp add: valid_state_def)
  from o show "sn_state sn \<noteq> []" by (auto simp: decodeObject_def)
qed

subsection \<open>Moves\<close>

lemma cc_bindActor_cases:
  assumes "bindActor st c actor = Inr st1" and "c = Black \<or> c = White"
  shows "st1 = (if c = Black then st\<lparr>st_black := Some actor\<rparr> else st\<lparr>st_white := Some actor\<rparr>)"
    and "actorForColor st (opposite c) \<noteq> Some actor \<or> actorForColor st c = Some actor"
    and "actorForColor st c = None \<or> actorForColor st c = Some actor"
  using assms by (auto simp: bindActor_def actorForColor_def opposite_def split: option.splits if_splits)

lemma legal_path_ends:
  assumes "legal_path cs c path"
  shows "0 \<le> hd path" and "hd path < 121" and "0 \<le> last path" and "last path < 121"
    and "hd path \<noteq> last path" and "cs ! nat (hd path) = c" and "cs ! nat (last path) = Empty"
    and "c = Black \<or> c = White" and "nat (hd path) \<noteq> nat (last path)"
proof -
  have l2: "2 \<le> length path" and dst: "distinct path" and rg: "\<forall>i\<in>set path. 0 \<le> i \<and> i < BoardCells"
    and own: "cs ! nat (hd path) = c" and emp: "\<forall>i\<in>set (tl path). cs ! nat i = Empty"
    and c: "c = Black \<or> c = White"
    using assms unfolding legal_path_def by blast+
  obtain s rest where p: "path = s # rest" and ne: "rest \<noteq> []"
    using l2 by (cases path; cases "tl path") auto
  then have l: "last path \<in> set rest" and h: "hd path = s" by simp_all
  show "0 \<le> hd path" "hd path < 121" "0 \<le> last path" "last path < 121"
    using rg p l by (auto simp: BoardCells_def)
  moreover show "hd path \<noteq> last path" using dst p l h by auto
  ultimately show "nat (hd path) \<noteq> nat (last path)" by (simp add: eq_nat_nat_iff)
  show "cs ! nat (hd path) = c" "cs ! nat (last path) = Empty" "c = Black \<or> c = White"
    using own emp c p l by auto
qed

lemma cc_moved_counts:
  assumes "legal_path cs c path" and "length cs = 121"
  shows "count_list (moved cs c path) Black = count_list cs Black"
    and "count_list (moved cs c path) White = count_list cs White"
    and "length (moved cs c path) = 121"
    and "set (moved cs c path) \<subseteq> insert Empty (set cs)"
proof -
  note e = legal_path_ends [OF assms(1)]
  let ?i = "nat (hd path)" and ?j = "nat (last path)"
  have ij: "?i < 121" "?j < 121" using e by simp_all
  have "count_list (moved cs c path) x + (if Empty = x then 1 else 0) =
     count_list (cs[?i := Empty]) x + (if c = x then 1 else 0)" for x
    unfolding moved_def using count_list_update [of ?j "cs[?i := Empty]" c x] ij e assms(2) by simp
  moreover have "count_list (cs[?i := Empty]) x + (if c = x then 1 else 0) =
     count_list cs x + (if Empty = x then 1 else 0)" for x
    using count_list_update [of ?i cs Empty x] ij e assms(2) by simp
  ultimately have "x \<noteq> Empty \<Longrightarrow> count_list (moved cs c path) x = count_list cs x" for x by fastforce
  then show "count_list (moved cs c path) Black = count_list cs Black"
    and "count_list (moved cs c path) White = count_list cs White" by simp_all
  show "length (moved cs c path) = 121" using assms(2) by (simp add: moved_def)
  have "c \<in> set cs" using e ij assms(2) by (metis nth_mem)
  then show "set (moved cs c path) \<subseteq> insert Empty (set cs)"
    unfolding moved_def using set_update_subset_insert [of "cs[?i := Empty]" ?j c]
      set_update_subset_insert [of cs ?i Empty] by auto
qed

lemma moved_nth:
  assumes "legal_path cs c path" and "length cs = 121" and "i < 121"
  shows "moved cs c path ! i =
    (if i = nat (last path) then c else if i = nat (hd path) then Empty else cs ! i)"
  using legal_path_ends [OF assms(1)] assms(2,3) by (simp add: moved_def nth_list_update)

lemma moved_other:
  assumes "legal_path cs c path" and "length cs = 121" and "i < 121" and "d \<noteq> c" and "d \<noteq> Empty"
  shows "moved cs c path ! i = d \<longleftrightarrow> cs ! i = d"
  unfolding moved_nth [OF assms(1-3)] using legal_path_ends [OF assms(1)] assms(4,5) by auto

lemma campIndices_range: "i \<in> set (campIndices c) \<Longrightarrow> i < 121"
  by (auto simp: campIndices_def split: if_splits)

lemma completed_other:
  assumes "legal_path cs c path" and "length cs = 121" and "d \<noteq> c" and "d \<noteq> Empty"
  shows "hasCompletedCamp (moved cs c path) d \<longleftrightarrow> hasCompletedCamp cs d"
  using moved_other [OF assms(1,2) _ assms(3,4)] campIndices_range [of _ d]
  by (auto simp: hasCompletedCamp_def list_all_iff)

lemma cc_settle_sel:
  "st_board (settle st c path actor) = moved (st_board st) c path"
  "st_next (settle st c path actor) = colorString (opposite c)"
  "st_black (settle st c path actor) = st_black st"
  "st_white (settle st c path actor) = st_white st"
  "st_status (settle st c path actor) =
     (if hasCompletedCamp (moved (st_board st) c path) c then ''finished'' else st_status st)"
  "st_winner (settle st c path actor) =
     (if hasCompletedCamp (moved (st_board st) c path) c then Some actor else st_winner st)"
  "st_result (settle st c path actor) =
     (if hasCompletedCamp (moved (st_board st) c path) c then Some ''goal'' else st_result st)"
  by (simp_all add: settle_def Let_def)

lemma turn_color:
  assumes "validSeats rv st" and "0 \<le> rv" and "colorNamed (st_next st) = c"
  shows "c = (if rv mod 2 = 1 then White else Black)" and "st_next st = colorString c"
  using assms by (auto simp: validSeats_def colorNamed_def colorString_def split: if_splits)

lemma cc_valid_active:
  assumes "valid_state rv st" and "st_status st = ''active''"
  shows "\<not> hasCompletedCamp (st_board st) Black" and "\<not> hasCompletedCamp (st_board st) White"
    and "st_winner st = None" and "st_result st = None"
  using assms by (auto simp: valid_state_def validOutcome_def Let_def)

lemma seats_after:
  assumes v: "validSeats rv st" and rv: "0 \<le> rv" and c: "colorNamed (st_next st) = c"
    and b: "bindActor st c actor = Inr st1" and a: "validActorID actor"
    and lp: "legal_path (st_board st) c path" and l: "length (st_board st) = 121"
  shows "validSeats (rv + 1) (settle st1 c path actor)" and "st_board st1 = st_board st"
    and "actorForColor st1 c = Some actor"
proof -
  let ?st = "settle st1 c path actor"
  note t = turn_color [OF v rv c]
  have cc: "c = Black \<or> c = White" using t(1) by auto
  note s1 = cc_bindActor_cases [OF b cc]
  show brd: "st_board st1 = st_board st" using s1(1) by (simp split: if_splits)
  show "actorForColor st1 c = Some actor" using s1(1) cc by (auto simp: actorForColor_def)
  note m = cc_moved_counts [OF lp l]
  have "list_all (\<lambda>x. x = Black \<or> x = White \<or> x = Empty) (st_board ?st)"
    using m(4) v unfolding cc_settle_sel brd validSeats_def list_all_iff by blast
  moreover have "count_list (st_board ?st) Black = 10" "count_list (st_board ?st) White = 10"
    using v unfolding cc_settle_sel brd m(1,2) validSeats_def by blast+
  moreover have n: "st_next ?st = colorString (if (rv + 1) mod 2 = 1 then White else Black)"
  proof -
    have "(rv + 1) mod 2 = 1 \<longleftrightarrow> \<not> rv mod 2 = 1" by presburger
    then show ?thesis unfolding cc_settle_sel opposite_def t(1) by simp
  qed
  moreover have "validOptionalActor (st_black ?st)" "validOptionalActor (st_white ?st)"
    using v a s1(1) unfolding cc_settle_sel by (auto simp: validSeats_def validOptionalActor_def)
  moreover have "\<not> (st_black ?st \<noteq> None \<and> st_white ?st \<noteq> None \<and> st_black ?st = st_white ?st)"
    using v cc s1 unfolding cc_settle_sel
    by (auto simp: validSeats_def actorForColor_def opposite_def)
  moreover have "\<not> (rv + 1 = 0 \<and> (st_black ?st \<noteq> None \<or> st_white ?st \<noteq> None) \<or>
          rv + 1 = 1 \<and> (st_black ?st = None \<or> st_white ?st \<noteq> None) \<or>
          rv + 1 \<ge> 2 \<and> (st_black ?st = None \<or> st_white ?st = None))"
  proof (cases "rv = 0")
    case True
    with t(1) have "c = Black" by simp
    with True v s1(1) show ?thesis unfolding cc_settle_sel by (simp add: validSeats_def)
  next
    case False
    show ?thesis
    proof (cases "rv = 1")
      case True
      with t(1) have "c = White" by simp
      with True v s1(1) show ?thesis unfolding cc_settle_sel by (simp add: validSeats_def)
    next
      case False
      with \<open>rv \<noteq> 0\<close> rv have "2 \<le> rv" by simp
      with v s1(1) show ?thesis unfolding cc_settle_sel by (simp add: validSeats_def)
    qed
  qed
  ultimately show "validSeats (rv + 1) ?st" unfolding validSeats_def by blast
qed

lemma cc_settle_valid:
  assumes v: "valid_state rv st" and act: "st_status st = ''active''"
    and c: "colorNamed (st_next st) = c" and b: "bindActor st c actor = Inr st1"
    and a: "validActorID actor" and lp: "legal_path (st_board st) c path"
  shows "valid_state (rv + 1) (settle st1 c path actor)"
proof -
  let ?st = "settle st1 c path actor"
  have l: "length (st_board st) = 121" and vs: "validSeats rv st" and rv: "0 \<le> rv"
    using v by (simp_all add: valid_state_def)
  note sa = seats_after [OF vs rv c b a lp l]
  have cc: "c = Black \<or> c = White" using turn_color [OF vs rv c] by auto
  have st1: "st_status st1 = ''active''" "st_winner st1 = None" "st_result st1 = None"
    using cc_bindActor_cases(1) [OF b cc] act cc_valid_active [OF v act] by (auto split: if_splits)
  have opp: "\<not> hasCompletedCamp (moved (st_board st) c path) (opposite c)"
    using completed_other [OF lp l, of "opposite c"] cc cc_valid_active(1,2) [OF v act]
    by (auto simp: opposite_def)
  have "validOutcome ?st"
    unfolding validOutcome_def Let_def cc_settle_sel sa(2) st1
    using cc opp sa(3) by (auto simp: opposite_def actorForColor_def cc_settle_sel valueOrEmpty_def)
  with sa(1) cc_moved_counts(3) [OF lp l] rv show ?thesis
    by (simp add: valid_state_def cc_settle_sel sa(2))
qed

lemma moveState_iff:
  assumes "valid_state rv st"
  shows "moveState st actor path = Inr (c, st') \<longleftrightarrow>
     st_status st = ''active'' \<and> c = colorNamed (st_next st) \<and>
     (\<exists>st1. bindActor st c actor = Inr st1 \<and> legal_path (st_board st) c path \<and>
        st' = settle st1 c path actor)"
proof -
  have l: "length (st_board st) = 121" and vs: "validSeats rv st" and rv: "0 \<le> rv"
    using assms by (simp_all add: valid_state_def)
  have cc: "colorNamed (st_next st) = Black \<or> colorNamed (st_next st) = White"
    using turn_color [OF vs rv refl] by auto
  have brd: "st_board st1 = st_board st" if "bindActor st (colorNamed (st_next st)) actor = Inr st1" for st1
    using cc_bindActor_cases(1) [OF that cc] by (simp split: if_splits)
  let ?c = "colorNamed (st_next st)"
  show ?thesis
  proof (cases "bindActor st ?c actor")
    case (Inl err)
    then show ?thesis using cc by (auto simp: moveState_def Let_def)
  next
    case (Inr st1)
    have "moveState st actor path = Inr (c, st') \<longleftrightarrow> st_status st = ''active'' \<and> c = ?c \<and>
        validMovePath (st_board st1) ?c path \<and> st' = settle st1 ?c path actor"
      using cc Inr by (auto simp: moveState_def Let_def)
    then show ?thesis using Inr unfolding brd [OF Inr] validMovePath_iff [OF l] by auto
  qed
qed

lemma cc_applyMove_valid:
  assumes "applyMove sn actor path = Inr (e, sn')" and "validActorID actor" and "sn_revision sn < max_i64"
  obtains st c st' where "decodeSnapshot sn = Inr st" and "moveState st actor path = Inr (c, st')"
    and "0 \<le> sn_revision sn"
    and "e = \<lparr>ev_revision = sn_revision sn + 1, ev_type = MoveAccepted, ev_actor = actor,
          ev_payload = acceptedMovePayload path c actor\<rparr>"
    and "sn' = \<lparr>sn_revision = sn_revision sn + 1, sn_state = marshalState st'\<rparr>"
    and "decodeSnapshot sn' = Inr st'" and "valid_state (sn_revision sn + 1) st'"
proof -
  from assms(1) obtain st c st' where d: "decodeSnapshot sn = Inr st"
    and m: "moveState st actor path = Inr (c, st')"
    and r: "e = \<lparr>ev_revision = i64 (sn_revision sn + 1), ev_type = MoveAccepted, ev_actor = actor,
          ev_payload = acceptedMovePayload path c actor\<rparr>"
         "sn' = \<lparr>sn_revision = i64 (sn_revision sn + 1), sn_state = marshalState st'\<rparr>"
    by (auto simp: applyMove_def Let_def split: sum.splits)
  note v = cc_decode_valid(1) [OF d]
  have v': "valid_state (sn_revision sn + 1) st'"
    using m assms(2) cc_settle_valid [OF v] unfolding moveState_iff [OF v] by blast
  have rv: "0 \<le> sn_revision sn" using v by (simp add: valid_state_def)
  with assms(3) have i: "i64 (sn_revision sn + 1) = sn_revision sn + 1" by (intro i64_succ) simp_all
  show thesis
    using that [OF d m rv] r i cc_decode_encode [OF v'] v' by simp
qed

subsection \<open>Payloads\<close>

definition path_ok :: "int list \<Rightarrow> bool" where
  "path_ok path \<longleftrightarrow> 2 \<le> length path \<and> length path \<le> 121 \<and> (\<forall>i\<in>set path. 0 \<le> i \<and> i < BoardCells)"

lemma legal_path_ok: "legal_path cs c path \<Longrightarrow> path_ok path"
proof -
  assume l: "legal_path cs c path"
  then have "card (set path) \<le> card {0..<BoardCells}" by (intro card_mono) (auto simp: legal_path_def)
  moreover have "distinct path" "2 \<le> length path" "\<forall>i\<in>set path. 0 \<le> i \<and> i < BoardCells"
    using l unfolding legal_path_def by blast+
  ultimately show ?thesis by (simp add: path_ok_def distinct_card BoardCells_def)
qed

lemma path_integer: "0 \<le> i \<Longrightarrow> i < BoardCells \<Longrightarrow> pathInteger (render (jint i)) = Some i"
  by (simp add: pathInteger_def BoardCells_def decodeInteger_render is_i64_small del: render.simps)

lemma decodePath_render: "path_ok path \<Longrightarrow> decodePath (render (path_json path)) = Some path"
proof -
  assume p: "path_ok path"
  have "map_partial (\<lambda>j. pathInteger (render j)) (map jint path) = Some (map (\<lambda>i. i) path)"
    by (rule map_partial_map) (use p path_integer in \<open>auto simp: path_ok_def\<close>)
  then have "strict_array 121 pathInteger (render (path_json path)) = Some path"
    using p unfolding path_json_def by (intro strict_array_render) (auto simp: path_ok_def)
  with p show ?thesis by (simp add: decodePath_def path_ok_def del: render.simps)
qed

lemma length_path_json: "path_ok path \<Longrightarrow> length (render (path_json path)) \<le> 486"
proof -
  assume p: "path_ok path"
  have "length (render (jint i)) \<le> 3" if "i \<in> set path" for i
    using that p length_show_int_pos [of i 3] by (auto simp: path_ok_def BoardCells_def jint_def)
  then have "length (render (path_json path)) \<le> (3 + 1) * length path + 2"
    unfolding path_json_def using length_render_elems [of "map jint path" 3] by simp
  with p show ?thesis by (simp add: path_ok_def)
qed

lemma wf_path_json [simp]: "wf_json (path_json path)"
  by (simp add: path_json_def)

definition move_payload :: "int list \<Rightarrow> bytes" where
  "move_payload path = render (JObj [(''path'', path_json path)])"

lemma decodeMove_payload:
  assumes "path_ok path"
  shows "decodeMove (move_payload path) = Some path"
proof -
  let ?m = "[(''path'', path_json path)]"
  have wf: "\<forall>kv\<in>set ?m. utf8_valid (fst kv) \<and> wf_json (snd kv)" by (simp add: utf8_valid_ascii)
  have "strict_object [''path''] (render (JObj ?m)) = Some (raw_members ?m)"
    using wf by (intro strict_object_render) auto
  moreover have "length (render (JObj ?m)) \<le> 2048"
    using length_render_members_le [of ?m] length_path_json [OF assms] by simp
  ultimately show ?thesis
    using utf8_valid_render_obj [OF wf] decodePath_render [OF assms]
    by (simp add: decodeMove_def move_payload_def decodeObject_def json_simps del: render.simps)
qed

lemma cc_decodeAccepted_members:
  assumes "path_ok path" and "c = Black \<or> c = White" and "validActorID actor"
  shows "decodeAcceptedMove (acceptedMovePayload path c actor) = Some (path, colorString c, actor)"
proof -
  let ?m = "accepted_members path c actor"
  have cs: "utf8_valid (colorString c)" "length (colorString c) = 5"
    using assms(2) by (auto simp: colorString_def intro: utf8_valid_ascii)
  have wf: "\<forall>kv\<in>set ?m. utf8_valid (fst kv) \<and> wf_json (snd kv)"
    using cs assms(3) by (auto simp: accepted_members_def utf8_valid_ascii validActorID_utf8)
  have "strict_object [''path'', ''color'', ''userId''] (render (JObj ?m)) = Some (raw_members ?m)"
    using wf by (intro strict_object_render) (auto simp: accepted_members_def)
  moreover have "length (render (JObj ?m)) \<le> 2304"
    using length_render_members_le [of ?m] length_path_json [OF assms(1)]
      length_render_jstr [of "colorString c"] cs(2) length_render_actor [OF assms(3)]
    by (simp add: accepted_members_def del: render.simps(4))
  moreover have "map_of ?m ''path'' = Some (path_json path)"
    "map_of ?m ''color'' = Some (JStr (colorString c))" "map_of ?m ''userId'' = Some (JStr actor)"
    by (simp_all add: accepted_members_def)
  moreover have "colorNamed (colorString c) = c"
    using assms(2) by (auto simp: colorNamed_def colorString_def)
  ultimately show ?thesis
    using utf8_valid_render_obj [OF wf] cs assms validActorID_utf8 [OF assms(3)] decodePath_render [OF assms(1)]
    by (auto simp add: decodeAcceptedMove_def acceptedMovePayload_def decodeObject_def json_simps
        simp del: render.simps)
qed

lemma decodePath_ok: "decodePath raw = Some path \<Longrightarrow> path_ok path"
proof -
  assume "decodePath raw = Some path"
  then have s: "strict_array 121 pathInteger raw = Some path" and l: "2 \<le> length path"
    by (auto simp: decodePath_def split: option.splits if_splits)
  have "list_all (\<lambda>x. 0 \<le> x \<and> x < BoardCells) path \<and> length path \<le> 121"
    using s by (rule strict_array_all) (auto simp: pathInteger_def split: option.splits if_splits)
  with l show ?thesis by (auto simp: path_ok_def list_all_iff)
qed

subsection \<open>Apply and Rebuild\<close>

lemma valid_initial: "valid_state 0 initialState"
proof -
  have b: "length initialBoard = 121" "count_list initialBoard Black = 10" "count_list initialBoard White = 10"
    "list_all (\<lambda>c. c = Black \<or> c = White \<or> c = Empty) initialBoard"
    by code_simp+
  have "\<not> hasCompletedCamp initialBoard Black" "\<not> hasCompletedCamp initialBoard White" by code_simp+
  with b show ?thesis
    by (simp add: valid_state_def validSeats_def validOutcome_def initialState_def validOptionalActor_def)
qed

lemma decode_initial: "decodeSnapshot initialSnapshot = Inr initialState"
  unfolding initialSnapshot_def by (rule cc_decode_encode [OF valid_initial])

lemma cc_initial_nonempty: "sn_state initialSnapshot \<noteq> []"
  by (rule cc_decode_valid(2) [OF decode_initial])

lemma cc_Apply_applyMove:
  assumes "sn_state sn \<noteq> []"
  shows "Apply sn actor act = Inr r \<longleftrightarrow>
    act_type act = MoveRequested \<and> validActorID actor \<and>
    (\<exists>path. decodeMove (act_payload act) = Some path \<and> applyMove sn actor path = Inr r)"
  using assms by (auto simp: Apply_def split: option.split)

definition accepts :: "snapshot \<Rightarrow> event \<Rightarrow> snapshot \<Rightarrow> bool" where
  "accepts sn e sn' \<longleftrightarrow> sn_state sn \<noteq> [] \<and> (\<exists>actor act. Apply sn actor act = Inr (e, sn'))"

lemma applyMove_path_ok:
  "applyMove sn actor path = Inr r \<Longrightarrow> path_ok path"
proof -
  assume "applyMove sn actor path = Inr r"
  then obtain st c st' where d: "decodeSnapshot sn = Inr st" and m: "moveState st actor path = Inr (c, st')"
    by (auto simp: applyMove_def Let_def split: sum.splits)
  then show ?thesis using legal_path_ok unfolding moveState_iff [OF cc_decode_valid(1) [OF d]] by blast
qed

lemma cc_accepts_applyMove:
  "accepts sn e sn' \<longleftrightarrow>
     sn_state sn \<noteq> [] \<and> (\<exists>actor path. validActorID actor \<and> applyMove sn actor path = Inr (e, sn'))"
proof
  assume "accepts sn e sn'"
  then show "sn_state sn \<noteq> [] \<and> (\<exists>actor path. validActorID actor \<and> applyMove sn actor path = Inr (e, sn'))"
    unfolding accepts_def by (metis cc_Apply_applyMove)
next
  assume r: "sn_state sn \<noteq> [] \<and> (\<exists>actor path. validActorID actor \<and> applyMove sn actor path = Inr (e, sn'))"
  then obtain actor path where a: "validActorID actor" "applyMove sn actor path = Inr (e, sn')"
    by blast
  with r decodeMove_payload [OF applyMove_path_ok [OF a(2)]]
  have "Apply sn actor \<lparr>act_type = MoveRequested, act_payload = move_payload path\<rparr> = Inr (e, sn')"
    by (simp add: cc_Apply_applyMove)
  with r show "accepts sn e sn'" by (auto simp: accepts_def)
qed

lemma cc_rebuildBody_complete:
  assumes "accepts sn e sn'" and "sn_revision sn < max_i64"
  shows "rebuildBody (sn_revision sn) e sn = Inr sn'"
proof -
  from assms obtain actor path where a: "validActorID actor" and m: "applyMove sn actor path = Inr (e, sn')"
    by (auto simp: cc_accepts_applyMove)
  from m a assms(2) show ?thesis
  proof (rule cc_applyMove_valid)
    fix st c st'
    assume d: "decodeSnapshot sn = Inr st" and ms: "moveState st actor path = Inr (c, st')"
      and e: "e = \<lparr>ev_revision = sn_revision sn + 1, ev_type = MoveAccepted, ev_actor = actor,
          ev_payload = acceptedMovePayload path c actor\<rparr>"
    note v = cc_decode_valid(1) [OF d]
    have vs: "validSeats (sn_revision sn) st" "0 \<le> sn_revision sn" using v by (simp_all add: valid_state_def)
    have c: "c = colorNamed (st_next st)" using ms unfolding moveState_iff [OF v] by blast
    note t = turn_color [OF vs c [symmetric]]
    have "c = Black \<or> c = White" using t by auto
    from cc_decodeAccepted_members [OF applyMove_path_ok [OF m] this a]
    show "rebuildBody (sn_revision sn) e sn = Inr sn'"
      using a d m t(2) by (simp add: rebuildBody_def e)
  qed
qed

lemma cc_rebuildBody_sound:
  assumes "rebuildBody i e sn = Inr sn'"
  shows "accepts sn e sn'"
proof -
  from assms obtain path color u st produced where a: "validActorID (ev_actor e)"
    and st: "decodeSnapshot sn = Inr st"
    and m: "applyMove sn (ev_actor e) path = Inr (produced, sn')"
    and "ev_revision produced = ev_revision e" "ev_type produced = ev_type e"
      "ev_actor produced = ev_actor e" "ev_payload produced = ev_payload e"
    by (auto simp: rebuildBody_def split: if_splits option.splits sum.splits prod.splits)
  then have eq: "produced = e" by simp
  from cc_decode_valid(2) [OF st] a m eq show ?thesis by (auto simp: cc_accepts_applyMove)
qed

lemma cc_accepts_revision:
  assumes "accepts sn e sn'"
  shows "ev_revision e = i64 (sn_revision sn + 1) \<and> sn_revision sn' = ev_revision e"
proof -
  from assms obtain actor path where m: "applyMove sn actor path = Inr (e, sn')" by (auto simp: cc_accepts_applyMove)
  show ?thesis
  proof (cases "decodeSnapshot sn")
    case (Inr st)
    with m show ?thesis by (auto simp: applyMove_def Let_def)
  qed (use m in \<open>simp add: applyMove_def\<close>)
qed

interpretation checkers_log: event_log initialSnapshot rebuildBody accepts
proof
  show "sn_revision initialSnapshot = 0" by (simp add: initialSnapshot_def)
qed (auto simp: cc_rebuildBody_complete cc_rebuildBody_sound dest: cc_accepts_revision)

subsection \<open>Camps\<close>

text \<open>The pieces of a colour that have reached the camp they are bound for.\<close>

definition home_pieces :: "nat list \<Rightarrow> color \<Rightarrow> nat set" where
  "home_pieces cs c = {i. i < 121 \<and> isTargetCamp (int i) c \<and> cs ! i = c}"

definition camps_clear :: "nat list \<Rightarrow> bool" where
  "camps_clear cs \<longleftrightarrow> (\<forall>i<121. cs ! i \<noteq> Empty \<longrightarrow> \<not> isNeutralCamp (int i))"

lemma home_pieces_moved:
  assumes "legal_path cs c path" and "length cs = 121" and "d = Black \<or> d = White"
  shows "card (home_pieces cs d) \<le> card (home_pieces (moved cs c path) d)"
proof (cases "d = c")
  case False
  have "d \<noteq> Empty" using assms(3) by auto
  then have "home_pieces (moved cs c path) d = home_pieces cs d"
    using moved_other [OF assms(1,2) _ False] unfolding home_pieces_def by blast
  then show ?thesis by simp
next
  case d: True
  note e = legal_path_ends [OF assms(1)]
  let ?s = "nat (hd path)" and ?t = "nat (last path)"
  have nth: "i < 121 \<Longrightarrow> moved cs c path ! i = (if i = ?t then c else if i = ?s then Empty else cs ! i)" for i
    by (rule moved_nth [OF assms(1,2)])
  have fin: "finite (home_pieces b c)" for b by (simp add: home_pieces_def)
  have tc: "isTargetCamp (hd path) c \<longrightarrow> isTargetCamp (last path) c"
    using assms(1) unfolding legal_path_def by blast
  show ?thesis
  proof (cases "isTargetCamp (hd path) c")
    case True
    with tc e have t: "?t \<in> home_pieces (moved cs c path) c" using nth by (simp add: home_pieces_def)
    have nt: "?t \<notin> home_pieces cs c" using e by (auto simp: home_pieces_def)
    have s: "?s \<in> home_pieces cs c" using True e by (simp add: home_pieces_def)
    have "insert ?t (home_pieces cs c - {?s}) \<subseteq> home_pieces (moved cs c path) c"
      using t nth by (auto simp: home_pieces_def)
    then have "card (insert ?t (home_pieces cs c - {?s})) \<le> card (home_pieces (moved cs c path) c)"
      by (rule card_mono [OF fin])
    moreover have "card (insert ?t (home_pieces cs c - {?s})) = card (home_pieces cs c)"
      using s nt fin card_Suc_Diff1 [OF fin s] by simp
    ultimately show ?thesis by (simp add: d)
  next
    case False
    have "home_pieces cs c \<subseteq> home_pieces (moved cs c path) c"
    proof
      fix i assume i: "i \<in> home_pieces cs c"
      then have "i \<noteq> ?s" using False e by (auto simp: home_pieces_def)
      with i nth show "i \<in> home_pieces (moved cs c path) c" by (auto simp: home_pieces_def)
    qed
    then show ?thesis unfolding d by (rule card_mono [OF fin])
  qed
qed

lemma camps_clear_moved:
  assumes "legal_path cs c path" and "length cs = 121" and "camps_clear cs"
  shows "camps_clear (moved cs c path)"
  unfolding camps_clear_def
proof (intro allI impI)
  fix i :: nat assume i: "i < 121" and ne: "moved cs c path ! i \<noteq> Empty"
  show "\<not> isNeutralCamp (int i)"
  proof (cases "i = nat (last path)")
    case True
    then show ?thesis using assms(1) legal_path_ends [OF assms(1)] by (simp add: legal_path_def)
  next
    case False
    with ne have "cs ! i \<noteq> Empty" using moved_nth [OF assms(1,2) i] by (auto split: if_splits)
    with assms(3) i show ?thesis by (simp add: camps_clear_def)
  qed
qed

lemma initial_camps_clear: "camps_clear initialBoard"
proof -
  have "list_all (\<lambda>i. initialBoard ! i = Empty \<or> \<not> isNeutralCamp (int i)) [0..<121]" by code_simp
  then show ?thesis unfolding camps_clear_def list_all_iff set_upt by (metis atLeastLessThan_iff le0)
qed

lemma accepts_step:
  assumes "accepts sn e sn'" and "sn_revision sn < max_i64"
  obtains st st' st1 c actor path where "decodeSnapshot sn = Inr st" and "decodeSnapshot sn' = Inr st'"
    and "valid_state (sn_revision sn) st" and "bindActor st c actor = Inr st1"
    and "legal_path (st_board st) c path" and "st_board st' = moved (st_board st) c path"
    and "sn' = \<lparr>sn_revision = sn_revision sn + 1, sn_state = marshalState st'\<rparr>"
proof -
  from assms obtain actor path where a: "validActorID actor" and m: "applyMove sn actor path = Inr (e, sn')"
    by (auto simp: cc_accepts_applyMove)
  from m a assms(2) show thesis
  proof (rule cc_applyMove_valid)
    fix st c st'
    assume d: "decodeSnapshot sn = Inr st" and ms: "moveState st actor path = Inr (c, st')"
      and d': "decodeSnapshot sn' = Inr st'"
      and sn': "sn' = \<lparr>sn_revision = sn_revision sn + 1, sn_state = marshalState st'\<rparr>"
    note v = cc_decode_valid(1) [OF d]
    from ms obtain st1 where c: "c = colorNamed (st_next st)" and b: "bindActor st c actor = Inr st1"
      and lp: "legal_path (st_board st) c path" and st': "st' = settle st1 c path actor"
      unfolding moveState_iff [OF v] by blast
    have vs: "validSeats (sn_revision sn) st" "0 \<le> sn_revision sn" "length (st_board st) = 121"
      using v by (simp_all add: valid_state_def)
    have "st_board st' = moved (st_board st) c path"
      unfolding st' cc_settle_sel seats_after(2) [OF vs(1,2) c [symmetric] b a lp vs(3)] ..
    from that [OF d d' v b lp this sn'] show thesis .
  qed
qed

lemma cc_played_inv:
  "played accepts initialSnapshot es sn \<Longrightarrow> int (length es) \<le> max_i64 \<Longrightarrow>
     sn_revision sn = int (length es) \<and>
     (\<exists>st. decodeSnapshot sn = Inr st \<and> valid_state (int (length es)) st \<and> camps_clear (st_board st))"
proof (induction rule: played.induct)
  case played_start
  then show ?case
    using decode_initial valid_initial initial_camps_clear by (simp add: initialSnapshot_def initialState_def)
next
  case (played_step es sn e sn')
  then have IH: "sn_revision sn = int (length es)" "\<exists>st. decodeSnapshot sn = Inr st \<and> camps_clear (st_board st)"
    by auto
  have "sn_revision sn < max_i64" using IH(1) played_step.prems by simp
  from accepts_step [OF played_step.hyps(2) this] obtain st st' c path where
    d: "decodeSnapshot sn = Inr st" "decodeSnapshot sn' = Inr st'" and v: "valid_state (sn_revision sn) st"
    and lp: "legal_path (st_board st) c path" and b: "st_board st' = moved (st_board st) c path"
    and sn': "sn' = \<lparr>sn_revision = sn_revision sn + 1, sn_state = marshalState st'\<rparr>" by metis
  have l: "length (st_board st) = 121" using v by (simp add: valid_state_def)
  have cl: "camps_clear (st_board st)" using IH(2) d(1) by simp
  have "camps_clear (st_board st')" unfolding b by (rule camps_clear_moved [OF lp l cl])
  moreover have "sn_revision sn' = int (length (es @ [e]))" using sn' IH(1) by simp
  ultimately show ?case using d(2) cc_decode_valid(1) [OF d(2)] by simp
qed

subsection \<open>Properties\<close>

text \<open>
  C6. The check of a move path is the rule of the game: the loop of \<open>validMovePath\<close>, which moves
  the piece along a copy of the board, accepts a path exactly when it visits distinct holes from
  an own piece over empty ones, either one step to a neighbour or jumps only, each over a hole
  half way that is occupied before the move by another piece, does not end in a neutral camp, and
  does not leave the target camp.
\<close>

theorem checkers_path:
  "length cs = 121 \<Longrightarrow> validMovePath cs c path \<longleftrightarrow> legal_path cs c path"
  by (rule validMovePath_iff)

theorem checkers_path_witness: "legal_path initialBoard Black [6, 14] \<and> legal_path initialBoard Black [3, 14]"
proof -
  have "length initialBoard = 121" "validMovePath initialBoard Black [6, 14]" "validMovePath initialBoard Black [3, 14]"
    by code_simp+
  then show ?thesis using checkers_path by blast
qed

definition may_move :: "snapshotState \<Rightarrow> bytes \<Rightarrow> bool" where
  "may_move st actor \<longleftrightarrow>
     (let c = colorNamed (st_next st) in
      actorForColor st c = Some actor \<or>
      actorForColor st c = None \<and> actorForColor st (opposite c) \<noteq> Some actor)"

lemma bindActor_error: "bindActor st c actor = Inl err \<Longrightarrow> err = CheckersNotYourTurn"
  by (auto simp: bindActor_def split: option.splits if_splits)

lemma bindActor_may_move:
  assumes "valid_state rv st"
  shows "(\<exists>st1. bindActor st (colorNamed (st_next st)) actor = Inr st1) \<longleftrightarrow> may_move st actor"
proof -
  have "validSeats rv st" using assms by (simp add: valid_state_def)
  then show ?thesis
    by (auto simp: may_move_def Let_def bindActor_def validSeats_def split: option.splits)
qed

lemma cc_apply_outcome:
  assumes "decodeSnapshot sn = Inr st" and "st_status st = ''active''" and "sn_revision sn < max_i64"
    and "validActorID actor" and "decodeMove payload = Some path"
  defines "c \<equiv> colorNamed (st_next st)"
    and "res \<equiv> Apply sn actor \<lparr>act_type = MoveRequested, act_payload = payload\<rparr>"
  shows "if \<not> may_move st actor then res = Inl CheckersNotYourTurn
     else if \<not> legal_path (st_board st) c path then res = Inl CheckersInvalidPath
     else \<exists>e sn' st'. res = Inr (e, sn') \<and> sn_revision sn' = sn_revision sn + 1 \<and>
       decodeSnapshot sn' = Inr st' \<and>
       (\<forall>i<121. st_board st' ! i = (if i = nat (last path) then c
          else if i = nat (hd path) then Empty else st_board st ! i)) \<and>
       st_next st' = colorString (opposite c) \<and> actorForColor st' c = Some actor \<and>
       (if \<forall>i\<in>set (campIndices c). st_board st' ! i = c
        then st_status st' = ''finished'' \<and> st_winner st' = Some actor \<and> st_result st' = Some ''goal''
        else st_status st' = ''active'' \<and> st_winner st' = None \<and> st_result st' = None)"
proof -
  note v = cc_decode_valid [OF assms(1)]
  have vs: "validSeats (sn_revision sn) st" "0 \<le> sn_revision sn" "length (st_board st) = 121"
    using v by (simp_all add: valid_state_def)
  have ap: "res = applyMove sn actor path" using assms(4,5) v(2) by (simp add: res_def Apply_def)
  have cc: "c = Black \<or> c = White" using turn_color(1) [OF vs(1,2) refl] by (auto simp: c_def)
  show ?thesis
  proof (cases "bindActor st c actor")
    case (Inl err)
    then have "moveState st actor path = Inl CheckersNotYourTurn"
      using assms(2) cc bindActor_error [OF Inl] by (auto simp: moveState_def c_def)
    then have "res = Inl CheckersNotYourTurn" using assms(1) by (simp add: ap applyMove_def)
    moreover have "\<not> may_move st actor" using bindActor_may_move [OF v(1), of actor] Inl by (auto simp: c_def)
    ultimately show ?thesis by simp
  next
    case (Inr st1)
    then have may: "may_move st actor" using bindActor_may_move [OF v(1), of actor] by (auto simp: c_def)
    have brd: "st_board st1 = st_board st" using cc_bindActor_cases(1) [OF Inr cc] by (simp split: if_splits)
    show ?thesis
    proof (cases "legal_path (st_board st) c path")
      case False
      then have "moveState st actor path = Inl CheckersInvalidPath"
        using assms(2) cc Inr validMovePath_iff [OF vs(3)] by (auto simp: moveState_def c_def Let_def brd)
      then show ?thesis using assms(1) may False by (simp add: ap applyMove_def)
    next
      case True
      have ceq: "colorNamed (st_next st) = c" by (simp add: c_def)
      note sa = seats_after [OF vs(1,2) ceq Inr assms(4) True vs(3)]
      let ?st = "settle st1 c path actor"
      have m: "moveState st actor path = Inr (c, ?st)"
        using assms(2) Inr True unfolding moveState_iff [OF v(1)] c_def by blast
      then obtain e sn' where a: "applyMove sn actor path = Inr (e, sn')"
        using assms(1) by (simp add: applyMove_def Let_def)
      have r: "sn_revision sn' = sn_revision sn + 1 \<and> decodeSnapshot sn' = Inr ?st"
        using a assms(4,3) by (rule cc_applyMove_valid) (use assms(1) m in auto)
      have st1: "st_status st1 = ''active''" "st_winner st1 = None" "st_result st1 = None"
        using cc_bindActor_cases(1) [OF Inr cc] assms(2) cc_valid_active [OF v(1) assms(2)] by (auto split: if_splits)
      have hc: "(\<forall>i\<in>set (campIndices c). moved (st_board st) c path ! i = c) \<longleftrightarrow>
          hasCompletedCamp (moved (st_board st) c path) c"
        using cc by (auto simp: hasCompletedCamp_def list_all_iff)
      have act: "actorForColor ?st c = Some actor"
        using sa(3) cc by (auto simp: actorForColor_def cc_settle_sel)
      have b: "st_board ?st = moved (st_board st) c path" by (simp add: cc_settle_sel brd)
      have fin: "if \<forall>i\<in>set (campIndices c). st_board ?st ! i = c
        then st_status ?st = ''finished'' \<and> st_winner ?st = Some actor \<and> st_result ?st = Some ''goal''
        else st_status ?st = ''active'' \<and> st_winner ?st = None \<and> st_result ?st = None"
        unfolding b hc by (simp add: cc_settle_sel brd st1)
      have nth: "\<forall>i<121. st_board ?st ! i = (if i = nat (last path) then c
          else if i = nat (hd path) then Empty else st_board st ! i)"
        unfolding b using moved_nth [OF True vs(3)] by blast
      have res: "res = Inr (e, sn')" using a ap by simp
      show ?thesis
        unfolding if_not_P [of "\<not> may_move st actor", unfolded not_not, OF may]
          if_not_P [of "\<not> legal_path (st_board st) c path", unfolded not_not, OF True]
        by (intro exI conjI, rule res, rule r [THEN conjunct1], rule r [THEN conjunct2], rule nth,
          rule cc_settle_sel(2), rule act, rule fin)
    qed
  qed
qed

text \<open>
  C7. What \<open>Apply\<close> does to a snapshot that decodes to an active state, for a well-formed request:
  a player out of turn gets \<open>ErrNotYourTurn\<close>, a path against the rules \<open>ErrInvalidPath\<close>, and every
  other request succeeds with the next revision and a snapshot that decodes to the board with the
  piece moved from the first to the last hole of the path, the other colour to move, and the game
  finished in favour of the actor exactly when the ten pieces fill the target camp.
\<close>

theorem checkers_apply:
  assumes "decodeSnapshot sn = Inr st" and "st_status st = ''active''" and "sn_revision sn < max_i64"
    and "validActorID actor" and "decodeMove payload = Some path"
  defines "c \<equiv> colorNamed (st_next st)"
    and "res \<equiv> Apply sn actor \<lparr>act_type = MoveRequested, act_payload = payload\<rparr>"
  shows "if \<not> may_move st actor then res = Inl CheckersNotYourTurn
     else if \<not> legal_path (st_board st) c path then res = Inl CheckersInvalidPath
     else \<exists>e sn' st'. res = Inr (e, sn') \<and> sn_revision sn' = sn_revision sn + 1 \<and>
       decodeSnapshot sn' = Inr st' \<and>
       (\<forall>i<121. st_board st' ! i = (if i = nat (last path) then c
          else if i = nat (hd path) then Empty else st_board st ! i)) \<and>
       st_next st' = colorString (opposite c) \<and> actorForColor st' c = Some actor \<and>
       (if \<forall>i\<in>set (campIndices c). st_board st' ! i = c
        then st_status st' = ''finished'' \<and> st_winner st' = Some actor \<and> st_result st' = Some ''goal''
        else st_status st' = ''active'' \<and> st_winner st' = None \<and> st_result st' = None)"
  using cc_apply_outcome [OF assms(1-5)] unfolding c_def res_def .

lemma first_step:
  "decodeMove (move_payload [6, 14]) = Some [6, 14]" "validActorID ''alice''" "may_move initialState ''alice''"
  "legal_path initialBoard Black [6, 14]"
proof -
  have "length initialBoard = 121" "validMovePath initialBoard Black [6, 14]" by code_simp+
  then show lp: "legal_path initialBoard Black [6, 14]" using validMovePath_iff by blast
  show "decodeMove (move_payload [6, 14]) = Some [6, 14]"
    by (rule decodeMove_payload [OF legal_path_ok [OF lp]])
qed (simp_all add: validActorID_def may_move_def initialState_def actorForColor_def colorNamed_def colorString_def opposite_def)

lemma first_accepts: "\<exists>e sn'. accepts initialSnapshot e sn'"
proof -
  have s: "st_status initialState = ''active''" "sn_revision initialSnapshot < max_i64"
    "st_board initialState = initialBoard" "colorNamed (st_next initialState) = Black"
    by (simp_all add: initialState_def initialSnapshot_def max_i64_def colorNamed_def colorString_def)
  from cc_apply_outcome [OF decode_initial s(1,2) first_step(2,1)] show ?thesis
    using first_step(3,4) cc_initial_nonempty unfolding s(3,4) accepts_def
    by (simp only: simp_thms if_False if_True not_not) blast
qed

theorem checkers_apply_witness:
  "\<exists>e sn' st'. Apply initialSnapshot ''alice'' \<lparr>act_type = MoveRequested, act_payload = move_payload [6, 14]\<rparr> =
      Inr (e, sn') \<and> decodeSnapshot sn' = Inr st' \<and> st_board st' ! 14 = Black"
proof -
  have s: "st_status initialState = ''active''" "sn_revision initialSnapshot < max_i64"
    "st_board initialState = initialBoard" "colorNamed (st_next initialState) = Black"
    by (simp_all add: initialState_def initialSnapshot_def max_i64_def colorNamed_def colorString_def)
  let ?c = "Black" and ?path = "[6, 14] :: int list"
  from checkers_apply [OF decode_initial s(1,2) first_step(2,1)]
  obtain e sn' st' where r: "Apply initialSnapshot ''alice''
      \<lparr>act_type = MoveRequested, act_payload = move_payload [6, 14]\<rparr> = Inr (e, sn')"
    and d: "decodeSnapshot sn' = Inr st'"
    and b: "\<forall>i<121. st_board st' ! i = (if i = nat (last ?path) then ?c
          else if i = nat (hd ?path) then Empty else initialBoard ! i)"
    using first_step(3,4) unfolding s(3,4) by (simp only: simp_thms if_False if_True not_not) blast
  from b have "st_board st' ! 14 = Black" by simp
  with r d show ?thesis by blast
qed

text \<open>
  C8. Event sourcing: \<open>Rebuild\<close> accepts a log exactly when every event of it is the one \<open>Apply\<close>
  returned for some action on the snapshot before it, and returns the snapshot that play reached.
\<close>

theorem checkers_rebuild_iff_played:
  "int (length es) \<le> max_i64 \<Longrightarrow> Rebuild es = Inr sn \<longleftrightarrow> played accepts initialSnapshot es sn"
  unfolding Rebuild_def by (rule checkers_log.rebuild_iff_played)

theorem checkers_rebuild_iff_played_witness: "\<exists>e sn. Rebuild [e] = Inr sn"
proof -
  obtain e sn where "accepts initialSnapshot e sn" using first_accepts by blast
  then have "played accepts initialSnapshot ([] @ [e]) sn"
    by (intro played_step [OF played_start])
  with checkers_rebuild_iff_played [of "[e]" sn] show ?thesis by (auto simp: max_i64_def)
qed

text \<open>
  C9. Safety of all play: after any log of accepted moves each colour has its ten pieces on the
  board, no piece stands in a neutral camp, and a further move never lowers the number of pieces
  that either colour has in its target camp.
\<close>

theorem checkers_safety:
  assumes "played accepts initialSnapshot es sn" and "int (length es) < max_i64" and "accepts sn e sn'"
  shows "\<exists>st st'. decodeSnapshot sn = Inr st \<and> decodeSnapshot sn' = Inr st' \<and>
    count_list (st_board st) Black = 10 \<and> count_list (st_board st) White = 10 \<and>
    (\<forall>i<121. st_board st ! i \<noteq> Empty \<longrightarrow> \<not> isNeutralCamp (int i)) \<and>
    (\<forall>c\<in>{Black, White}. card (home_pieces (st_board st) c) \<le> card (home_pieces (st_board st') c))"
proof -
  have inv: "sn_revision sn = int (length es)"
      "\<exists>st. decodeSnapshot sn = Inr st \<and> camps_clear (st_board st)"
    using cc_played_inv [OF assms(1)] assms(2) by auto
  have "sn_revision sn < max_i64" using inv(1) assms(2) by simp
  from accepts_step [OF assms(3) this] obtain st st' c path where
    d: "decodeSnapshot sn = Inr st" "decodeSnapshot sn' = Inr st'" and v: "valid_state (sn_revision sn) st"
    and lp: "legal_path (st_board st) c path" and b: "st_board st' = moved (st_board st) c path" by metis
  have l: "length (st_board st) = 121" and vs: "validSeats (sn_revision sn) st"
    using v by (simp_all add: valid_state_def)
  have "camps_clear (st_board st)" using inv(2) d(1) by simp
  moreover have "count_list (st_board st) Black = 10" "count_list (st_board st) White = 10"
    using vs unfolding validSeats_def by blast+
  moreover have "\<forall>c\<in>{Black, White}. card (home_pieces (st_board st) c) \<le> card (home_pieces (st_board st') c)"
    unfolding b using home_pieces_moved [OF lp l] by simp
  ultimately show ?thesis using d unfolding camps_clear_def by blast
qed

theorem checkers_safety_witness:
  "\<exists>e sn' st'. accepts initialSnapshot e sn' \<and> decodeSnapshot sn' = Inr st' \<and>
     card (home_pieces initialBoard White) \<le> card (home_pieces (st_board st') White)"
proof -
  obtain e sn' where a: "accepts initialSnapshot e sn'" using first_accepts by blast
  have b: "st_board initialState = initialBoard" by (simp add: initialState_def)
  from checkers_safety [OF played_start _ a] decode_initial a show ?thesis
    by (auto simp: max_i64_def b)
qed

end
