(* ===== verification/FlightChess.thy ===== *)
theory FlightChess
  imports GoMap
begin

text \<open>
  The rule engine of aeroplane chess (\<open>server/internal/games/flightchess/rules.go\<close>): the course of a
  piece from the hangar to the goal with jumps, shortcuts and bounces, captures, rolls and moves as
  two phases of a turn, the snapshot codec, and \<open>Rebuild\<close> with the older rules that it replays for
  logs of earlier versions. A nil slice of pieces or indices is an empty list where the code only
  reads its length; \<open>encodeSnapshot\<close> writes none.
\<close>

subsection \<open>Constants and data\<close>

definition GameID :: bytes where "GameID = ''flight_chess''"
definition RollRequested :: bytes where "RollRequested = ''flight_chess.roll.requested''"
definition RollAccepted :: bytes where "RollAccepted = ''flight_chess.roll.accepted''"
definition MoveRequested :: bytes where "MoveRequested = ''flight_chess.move.requested''"
definition MoveAccepted :: bytes where "MoveAccepted = ''flight_chess.move.accepted''"
definition Black :: bytes where "Black = ''black''"
definition White :: bytes where "White = ''white''"
definition PieceCount :: int where "PieceCount = 4"
definition MainCellCount :: int where "MainCellCount = 52"
definition HomeCellCount :: int where "HomeCellCount = 5"

record Piece =
  Zone :: bytes
  Index :: int

record snapshotState =
  st_captures :: "int gomap"
  st_status :: bytes
  st_phase :: bytes
  st_black :: "bytes option"
  st_white :: "bytes option"
  st_next :: bytes
  st_dice :: int
  st_pieces :: "Piece list gomap"
  st_winner :: "bytes option"
  st_result :: "bytes option"

record acceptedRoll =
  ro_color :: bytes
  ro_user :: bytes
  ro_value :: int
  ro_movable :: "int list option"

record acceptedMove =
  mv_color :: bytes
  mv_user :: bytes
  mv_piece :: int
  mv_roll :: int
  mv_from :: Piece
  mv_to :: Piece
  mv_effect :: bytes
  mv_captured :: "int list option"

type_synonym resolution = "Piece \<times> bytes"

definition startIndices :: "bytes \<Rightarrow> int option" where
  "startIndices color = (if color = Black then Some 26 else if color = White then Some 0 else None)"

definition opposite :: "bytes \<Rightarrow> bytes" where
  "opposite color = (if color = Black then White else Black)"

definition indexed :: "'a list \<Rightarrow> (int \<times> 'a) list" where
  "indexed xs = zip (map int [0..<length xs]) xs"

definition pieces_of :: "snapshotState \<Rightarrow> bytes \<Rightarrow> Piece list" where
  "pieces_of st color = valueOr [] (mget (st_pieces st) color)"

definition hangar :: "Piece list" where
  "hangar = map (\<lambda>i. \<lparr>Zone = ''hangar'', Index = int i\<rparr>) [0..<nat PieceCount]"

definition initialState :: snapshotState where
  "initialState = \<lparr>st_captures = mput White 0 (mput Black 0 []), st_status = ''active'',
     st_phase = ''awaiting_roll'', st_black = None, st_white = None, st_next = Black, st_dice = 0,
     st_pieces = mput White hangar (mput Black hangar []), st_winner = None, st_result = None\<rparr>"

subsection \<open>The course\<close>

definition progressForIndex :: "bytes \<Rightarrow> int \<Rightarrow> int \<times> bool" where
  "progressForIndex color index =
     (case startIndices color of
        None \<Rightarrow> (0, False)
      | Some start \<Rightarrow>
          if index < 0 \<or> index \<ge> MainCellCount then (0, False)
          else let progress = (index - start + MainCellCount) mod MainCellCount + 1 in (progress, progress \<le> 50))"

definition indexForProgress :: "bytes \<Rightarrow> int \<Rightarrow> int" where
  "indexForProgress color progress = (valueOr 0 (startIndices color) + progress - 1) mod MainCellCount"

text \<open>The body of \<open>resolveMainProgress\<close> for a progress from 1 to 50.\<close>

definition mainResolution :: "bytes \<Rightarrow> int \<Rightarrow> resolution" where
  "mainResolution color progress =
     (let (resolved, effect) =
        (if progress = 18 then (30, ''shortcut'')
         else if progress mod 4 = 2 \<and> progress < 50 then
           (if progress + 4 = 18 then (30, ''jump_shortcut'') else (progress + 4, ''jump''))
         else (progress, ''none'')) in
      (\<lparr>Zone = ''main'', Index = indexForProgress color resolved\<rparr>, effect))"

definition resolveProgress :: "bytes \<Rightarrow> int \<Rightarrow> resolution option" where
  "resolveProgress color progress =
     (if progress \<le> 0 then None
      else if progress \<le> 50 then Some (mainResolution color progress)
      else if progress \<le> 50 + HomeCellCount then Some (\<lparr>Zone = ''home'', Index = progress - 51\<rparr>, ''none'')
      else if progress = 51 + HomeCellCount then Some (\<lparr>Zone = ''finished'', Index = 0\<rparr>, ''none'')
      else None)"

definition resolveMainProgress :: "bytes \<Rightarrow> int \<Rightarrow> resolution option" where
  "resolveMainProgress color progress =
     (if progress < 1 \<or> progress > 50 then resolveProgress color progress
      else Some (mainResolution color progress))"

definition resolveMove :: "bytes \<Rightarrow> Piece \<Rightarrow> int \<Rightarrow> resolution option" where
  "resolveMove color piece roll =
     (if roll < 1 \<or> roll > 6 then None
      else if Zone piece = ''hangar'' then
        (if roll \<noteq> 5 \<and> roll \<noteq> 6 then None else Some (\<lparr>Zone = ''launch'', Index = 0\<rparr>, ''none''))
      else if Zone piece = ''launch'' then resolveMainProgress color roll
      else if Zone piece = ''main'' then
        (let (progress, ok) = progressForIndex color (Index piece) in
         if \<not> ok then None else resolveProgress color (progress + roll))
      else if Zone piece = ''home'' then
        (let target = Index piece + roll;
             target = (if target > HomeCellCount then 2 * HomeCellCount - target else target) in
         if target < HomeCellCount then Some (\<lparr>Zone = ''home'', Index = target\<rparr>, ''none'')
         else if target = HomeCellCount then Some (\<lparr>Zone = ''finished'', Index = 0\<rparr>, ''none'')
         else None)
      else None)"

definition movablePieces :: "bytes \<Rightarrow> Piece list \<Rightarrow> int \<Rightarrow> int list" where
  "movablePieces color ps roll = map fst (filter (\<lambda>(i, p). resolveMove color p roll \<noteq> None) (indexed ps))"

definition landingCells :: "resolution \<Rightarrow> Piece list" where
  "landingCells r =
     (if Zone (fst r) \<noteq> ''main'' then []
      else let offsets = (if snd r = ''jump'' then [4, 0]
        else if snd r = ''shortcut'' then [12, 0]
        else if snd r = ''jump_shortcut'' then [16, 12, 0]
        else [0]) in
      map (\<lambda>offset. \<lparr>Zone = ''main'', Index = (Index (fst r) - offset + MainCellCount) mod MainCellCount\<rparr>) offsets)"

definition hit_by :: "Piece list \<Rightarrow> Piece \<Rightarrow> bool" where
  "hit_by destinations p \<longleftrightarrow>
     list_ex (\<lambda>destination. (Zone p = ''main'' \<or> Zone p = ''home'') \<and> p = destination) destinations"

definition captureAt :: "snapshotState \<Rightarrow> bytes \<Rightarrow> Piece list \<Rightarrow> snapshotState \<times> int list" where
  "captureAt st color destinations =
     (let ps = indexed (pieces_of st (opposite color)) in
      (st\<lparr>st_pieces := mput (opposite color)
           (map (\<lambda>(i, p). if hit_by destinations p then \<lparr>Zone = ''hangar'', Index = i\<rparr> else p) ps) (st_pieces st)\<rparr>,
       map fst (filter (\<lambda>(i, p). hit_by destinations p) ps)))"

definition allFinished :: "Piece list \<Rightarrow> bool" where
  "allFinished ps \<longleftrightarrow> int (length ps) = PieceCount \<and> list_all (\<lambda>p. Zone p = ''finished'') ps"

text \<open>
  \<open>rollDie\<close> on a source that delivers the given bytes and then fails: bytes from 252 on are
  discarded, at most 128 are read.
\<close>

fun rollDie :: "nat \<Rightarrow> nat list \<Rightarrow> int option" where
  "rollDie 0 source = None"
| "rollDie (Suc attempts) [] = None"
| "rollDie (Suc attempts) (b # source) =
     (if b < 252 then Some (int (b mod 6) + 1) else rollDie attempts source)"

subsection \<open>JSON\<close>

definition piece_members :: "Piece \<Rightarrow> (bytes \<times> json) list" where
  "piece_members p = [(''zone'', JStr (Zone p)), (''index'', jint (Index p))]"

definition piece_json :: "Piece \<Rightarrow> json" where
  "piece_json p = JObj (piece_members p)"

definition pieces_json :: "Piece list \<Rightarrow> json" where
  "pieces_json ps = JArr (map piece_json ps)"

definition state_members :: "snapshotState \<Rightarrow> (bytes \<times> json) list" where
  "state_members st =
     [(''captureCounts'', jmap jint (st_captures st)), (''status'', JStr (st_status st)),
      (''phase'', JStr (st_phase st)), (''blackUserId'', jptr JStr (st_black st)),
      (''whiteUserId'', jptr JStr (st_white st)), (''nextColor'', JStr (st_next st)),
      (''dice'', jint (st_dice st)), (''pieces'', jmap pieces_json (st_pieces st)),
      (''winnerUserId'', jptr JStr (st_winner st)), (''result'', jptr JStr (st_result st))]"

definition state_names :: "bytes list" where
  "state_names = [''captureCounts'', ''status'', ''phase'', ''blackUserId'', ''whiteUserId'', ''nextColor'',
     ''dice'', ''pieces'', ''winnerUserId'', ''result'']"

definition marshalState :: "snapshotState \<Rightarrow> bytes" where
  "marshalState st = render (JObj (state_members st))"

definition roll_members :: "acceptedRoll \<Rightarrow> (bytes \<times> json) list" where
  "roll_members r = [(''color'', JStr (ro_color r)), (''userId'', JStr (ro_user r)),
     (''value'', jint (ro_value r)), (''movablePieceIndices'', nslice_json jint (ro_movable r))]"

definition roll_names :: "bytes list" where
  "roll_names = [''color'', ''userId'', ''value'', ''movablePieceIndices'']"

definition marshalRoll :: "acceptedRoll \<Rightarrow> bytes" where
  "marshalRoll r = render (JObj (roll_members r))"

definition move_members :: "acceptedMove \<Rightarrow> (bytes \<times> json) list" where
  "move_members m = [(''color'', JStr (mv_color m)), (''userId'', JStr (mv_user m)),
     (''pieceIndex'', jint (mv_piece m)), (''roll'', jint (mv_roll m)), (''from'', piece_json (mv_from m)),
     (''to'', piece_json (mv_to m)), (''effect'', JStr (mv_effect m)),
     (''capturedPieceIndices'', nslice_json jint (mv_captured m))]"

definition move_names :: "bytes list" where
  "move_names = [''color'', ''userId'', ''pieceIndex'', ''roll'', ''from'', ''to'', ''effect'', ''capturedPieceIndices'']"

definition marshalMove :: "acceptedMove \<Rightarrow> bytes" where
  "marshalMove m = render (JObj (move_members m))"

definition requestedMovePayload :: "int \<Rightarrow> bytes" where
  "requestedMovePayload i = render (JObj [(''pieceIndex'', jint i)])"

definition piece_names :: "bytes list" where
  "piece_names = [''zone'', ''index'']"

definition zero_piece :: Piece where
  "zero_piece = \<lparr>Zone = '''', Index = 0\<rparr>"

definition dec_piece :: "json \<Rightarrow> Piece \<Rightarrow> Piece option" where
  "dec_piece j cur = do {
     kvs \<leftarrow> obj_fields j;
     z \<leftarrow> dec_field piece_names kvs ''zone'' dec_string (Zone cur);
     i \<leftarrow> dec_field piece_names kvs ''index'' dec_int (Index cur);
     Some \<lparr>Zone = z, Index = i\<rparr> }"

definition dec_state :: "bytes \<Rightarrow> snapshotState option" where
  "dec_state data = do {
     j \<leftarrow> json_parse data;
     kvs \<leftarrow> obj_fields j;
     captures \<leftarrow> dec_field state_names kvs ''captureCounts'' (dec_map dec_int 0) None;
     status \<leftarrow> dec_field state_names kvs ''status'' dec_string '''';
     phase \<leftarrow> dec_field state_names kvs ''phase'' dec_string '''';
     black \<leftarrow> dec_field state_names kvs ''blackUserId'' (dec_ptr dec_string '''') None;
     white \<leftarrow> dec_field state_names kvs ''whiteUserId'' (dec_ptr dec_string '''') None;
     nxt \<leftarrow> dec_field state_names kvs ''nextColor'' dec_string '''';
     dice \<leftarrow> dec_field state_names kvs ''dice'' dec_int 0;
     pieces \<leftarrow> dec_field state_names kvs ''pieces'' (dec_map (dec_slice dec_piece zero_piece) []) None;
     winner \<leftarrow> dec_field state_names kvs ''winnerUserId'' (dec_ptr dec_string '''') None;
     result \<leftarrow> dec_field state_names kvs ''result'' (dec_ptr dec_string '''') None;
     Some \<lparr>st_captures = valueOr [] captures, st_status = status, st_phase = phase, st_black = black,
       st_white = white, st_next = nxt, st_dice = dice, st_pieces = valueOr [] pieces, st_winner = winner,
       st_result = result\<rparr> }"

definition strictObject :: "bytes \<Rightarrow> bytes list \<Rightarrow> (bytes \<times> bytes) list option" where
  "strictObject data allowed =
     (if length data = 0 \<or> length data > 8192 \<or> \<not> utf8_valid data then None else strict_object allowed data)"

definition strictEmptyObject :: "bytes \<Rightarrow> bool" where
  "strictEmptyObject payload \<longleftrightarrow>
     (case strictObject payload [] of None \<Rightarrow> False | Some fs \<Rightarrow> length fs = 0)"

definition decodeRequestedMove :: "bytes \<Rightarrow> int option" where
  "decodeRequestedMove payload = do {
     fs \<leftarrow> strictObject payload [''pieceIndex''];
     (if length fs = 1 then Some () else None);
     raw \<leftarrow> map_of fs ''pieceIndex'';
     index \<leftarrow> unmarshal dec_int 0 raw;
     (if index < 0 \<or> index \<ge> PieceCount \<or> \<not> plain_integer raw then None else Some index) }"

definition validPiece :: "Piece \<Rightarrow> int \<Rightarrow> bool" where
  "validPiece piece slot \<longleftrightarrow>
     (if Zone piece = ''hangar'' then Index piece = slot
      else if Zone piece = ''launch'' \<or> Zone piece = ''finished'' then Index piece = 0
      else if Zone piece = ''main'' then Index piece \<ge> 0 \<and> Index piece < MainCellCount
      else if Zone piece = ''home'' then Index piece \<ge> 0 \<and> Index piece < HomeCellCount
      else False)"

definition validIndices :: "int list \<Rightarrow> bool" where
  "validIndices is \<longleftrightarrow> list_all (\<lambda>i. \<not> (i < 0 \<or> i \<ge> PieceCount)) is \<and> distinct is"

definition dec_roll :: "bytes \<Rightarrow> acceptedRoll option" where
  "dec_roll payload = do {
     j \<leftarrow> json_parse payload;
     kvs \<leftarrow> obj_fields j;
     c \<leftarrow> dec_field roll_names kvs ''color'' dec_string '''';
     u \<leftarrow> dec_field roll_names kvs ''userId'' dec_string '''';
     v \<leftarrow> dec_field roll_names kvs ''value'' dec_int 0;
     m \<leftarrow> dec_field roll_names kvs ''movablePieceIndices'' (dec_nslice dec_int 0) None;
     Some \<lparr>ro_color = c, ro_user = u, ro_value = v, ro_movable = m\<rparr> }"

definition decodeAcceptedRoll :: "bytes \<Rightarrow> acceptedRoll option" where
  "decodeAcceptedRoll payload = do {
     fs \<leftarrow> strictObject payload roll_names;
     (if length fs = length roll_names then Some () else None);
     r \<leftarrow> dec_roll payload;
     (if ro_color r \<noteq> Black \<and> ro_color r \<noteq> White \<or> \<not> validActorID (ro_user r) \<or> ro_value r < 1 \<or> ro_value r > 6 \<or>
         \<not> validIndices (valueOr [] (ro_movable r)) then None else Some r) }"

text \<open>
  The bytes of a member that \<open>strictObject\<close> returns have no space around them, so that the test of
  the trimmed penalty list is a test of the bytes.
\<close>

definition NormalizeLegacyRollPayload :: "bytes \<Rightarrow> bytes option" where
  "NormalizeLegacyRollPayload payload = do {
     fs \<leftarrow> strictObject payload (roll_names @ [''penalizedPieceIndices'']);
     (case map_of fs ''penalizedPieceIndices'' of
        None \<Rightarrow> Some payload
      | Some penalty \<Rightarrow>
          if length fs \<noteq> length roll_names + 1 \<or> penalty \<noteq> ''[]'' then None
          else do {
            r \<leftarrow> dec_roll payload;
            _ \<leftarrow> decodeAcceptedRoll (marshalRoll r);
            Some (marshalRoll r) }) }"

definition decodeAcceptedMove :: "bytes \<Rightarrow> acceptedMove option" where
  "decodeAcceptedMove payload = do {
     fs \<leftarrow> strictObject payload move_names;
     (if length fs = length move_names then Some () else None);
     j \<leftarrow> json_parse payload;
     kvs \<leftarrow> obj_fields j;
     c \<leftarrow> dec_field move_names kvs ''color'' dec_string '''';
     u \<leftarrow> dec_field move_names kvs ''userId'' dec_string '''';
     i \<leftarrow> dec_field move_names kvs ''pieceIndex'' dec_int 0;
     v \<leftarrow> dec_field move_names kvs ''roll'' dec_int 0;
     from \<leftarrow> dec_field move_names kvs ''from'' dec_piece zero_piece;
     to \<leftarrow> dec_field move_names kvs ''to'' dec_piece zero_piece;
     effect \<leftarrow> dec_field move_names kvs ''effect'' dec_string '''';
     cap \<leftarrow> dec_field move_names kvs ''capturedPieceIndices'' (dec_nslice dec_int 0) None;
     (if c \<noteq> Black \<and> c \<noteq> White \<or> \<not> validActorID u \<or> i < 0 \<or> i \<ge> PieceCount \<or> v < 1 \<or> v > 6 \<or>
         \<not> validPiece from i \<or> \<not> validPiece to i \<or>
         effect \<noteq> ''none'' \<and> effect \<noteq> ''jump'' \<and> effect \<noteq> ''shortcut'' \<and> effect \<noteq> ''jump_shortcut'' \<or>
         \<not> validIndices (valueOr [] cap)
      then None
      else Some \<lparr>mv_color = c, mv_user = u, mv_piece = i, mv_roll = v, mv_from = from, mv_to = to,
        mv_effect = effect, mv_captured = cap\<rparr>) }"

subsection \<open>Snapshots\<close>

definition valid_pieces :: "snapshotState \<Rightarrow> bytes \<Rightarrow> bool" where
  "valid_pieces st color \<longleftrightarrow>
     (case mget (st_pieces st) color of
        None \<Rightarrow> False
      | Some ps \<Rightarrow> int (length ps) = PieceCount \<and>
          list_all (\<lambda>(i, p). validPiece p i \<and> (Zone p = ''main'' \<longrightarrow> snd (progressForIndex color (Index p))))
            (indexed ps))"

definition valid_count :: "snapshotState \<Rightarrow> bytes \<Rightarrow> bool" where
  "valid_count st color \<longleftrightarrow>
     (case mget (st_captures st) color of None \<Rightarrow> False | Some count \<Rightarrow> \<not> (count < 0 \<or> count > 2048))"

definition valid_phase :: "snapshotState \<Rightarrow> bool" where
  "valid_phase st \<longleftrightarrow>
     (if st_phase st = ''awaiting_roll'' then st_dice st = 0
      else if st_phase st = ''awaiting_move'' then
        \<not> (st_dice st < 1 \<or> st_dice st > 6 \<or> length (movablePieces (st_next st) (pieces_of st (st_next st)) (st_dice st)) = 0)
      else False)"

definition valid_outcome :: "snapshotState \<Rightarrow> bool" where
  "valid_outcome st \<longleftrightarrow>
     (if st_status st = ''active'' then
        st_result st = None \<and> st_winner st = None \<and> \<not> allFinished (pieces_of st Black) \<and>
        \<not> allFinished (pieces_of st White)
      else if st_status st \<noteq> ''finished'' then False
      else (case (st_result st, st_winner st) of
         (Some result, Some winner) \<Rightarrow>
           result = ''goal'' \<and> st_phase st = ''awaiting_roll'' \<and>
           (winner = valueOrEmpty (st_black st) \<and> allFinished (pieces_of st Black) \<or>
            winner = valueOrEmpty (st_white st) \<and> allFinished (pieces_of st White))
       | _ \<Rightarrow> False))"

definition validState :: "snapshotState \<Rightarrow> bool" where
  "validState st \<longleftrightarrow>
     length (st_captures st) = 2 \<and> valid_count st Black \<and> valid_count st White \<and>
     (st_next st = Black \<or> st_next st = White) \<and>
     validOptionalActor (st_black st) \<and> validOptionalActor (st_white st) \<and>
     \<not> (st_black st \<noteq> None \<and> st_white st \<noteq> None \<and> st_black st = st_white st) \<and>
     length (st_pieces st) = 2 \<and> valid_pieces st Black \<and> valid_pieces st White \<and>
     valid_phase st \<and> valid_outcome st"

definition encodeSnapshot :: "int \<Rightarrow> snapshotState \<Rightarrow> snapshot option" where
  "encodeSnapshot revision st =
     (if revision < 0 \<or> \<not> validState st then None
      else Some \<lparr>sn_revision = revision, sn_state = marshalState st\<rparr>)"

text \<open>Capture counts that are present are an object with both colors and no null.\<close>

definition strict_counts :: "bytes \<Rightarrow> bool" where
  "strict_counts raw \<longleftrightarrow>
     (case strictObject raw [Black, White] of
        None \<Rightarrow> False
      | Some counts \<Rightarrow> length counts = 2 \<and>
          list_all (\<lambda>(k, v). case unmarshal (dec_ptr dec_int 0) None v of Some (Some n) \<Rightarrow> True | _ \<Rightarrow> False) counts)"

definition decodeSnapshot :: "snapshot \<Rightarrow> game_error + snapshotState" where
  "decodeSnapshot sn =
     (if sn_revision sn < 0 \<or> length (sn_state sn) = 0 \<or> length (sn_state sn) > 8192 \<or> \<not> utf8_valid (sn_state sn)
      then Inl ErrInvalidSnapshot
      else or_fail (do {
        fs \<leftarrow> strictObject (sn_state sn) state_names;
        (if length fs \<noteq> length state_names \<and>
            (length fs \<noteq> length state_names - 1 \<or> map_of fs ''captureCounts'' \<noteq> None)
         then None else Some ());
        st \<leftarrow> dec_state (sn_state sn);
        st \<leftarrow> (case map_of fs ''captureCounts'' of
            None \<Rightarrow> Some (st\<lparr>st_captures := mput White 0 (mput Black 0 [])\<rparr>)
          | Some raw \<Rightarrow> if strict_counts raw then Some st else None);
        (if validState st then Some st else None)
      }) ErrInvalidSnapshot)"

definition stateFromSnapshot :: "snapshot \<Rightarrow> game_error + snapshotState \<times> snapshot" where
  "stateFromSnapshot sn =
     (if sn_revision sn = 0 \<and> length (sn_state sn) = 0 then
        (case encodeSnapshot 0 initialState of
           None \<Rightarrow> Inl ErrInvalidSnapshot
         | Some encoded \<Rightarrow> Inr (initialState, encoded))
      else and_then (decodeSnapshot sn) (\<lambda>st. Inr (st, sn)))"

subsection \<open>Rules\<close>

definition bindAndValidateActor :: "snapshotState \<Rightarrow> bytes \<Rightarrow> game_error + snapshotState" where
  "bindAndValidateActor st actor =
     (let current = (if st_next st = White then st_white st else st_black st);
          other = (if st_next st = White then st_black st else st_white st) in
      case current of
        Some c \<Rightarrow> if c \<noteq> actor then Inl FlightNotYourTurn else Inr st
      | None \<Rightarrow>
          if other = Some actor then Inl FlightNotYourTurn
          else if st_next st = White then Inr (st\<lparr>st_white := Some actor\<rparr>)
          else Inr (st\<lparr>st_black := Some actor\<rparr>))"

definition destinations_of :: "resolution \<Rightarrow> bool \<Rightarrow> bool \<Rightarrow> Piece list" where
  "destinations_of r captureLandings captureCrossing =
     (if captureLandings then landingCells r else if Zone (fst r) = ''main'' then [fst r] else []) @
     (if captureCrossing \<and> (snd r = ''shortcut'' \<or> snd r = ''jump_shortcut'')
      then [\<lparr>Zone = ''home'', Index = 2\<rparr>] else [])"

text \<open>The state part of a move: the piece, the captures and their count, the end of the game, the turn.\<close>

definition move_piece :: "snapshotState \<Rightarrow> int \<Rightarrow> resolution \<Rightarrow> snapshotState" where
  "move_piece st i r =
     st\<lparr>st_pieces := mput (st_next st) ((pieces_of st (st_next st))[nat i := fst r]) (st_pieces st)\<rparr>"

definition finish_move :: "snapshotState \<Rightarrow> bytes \<Rightarrow> nat \<Rightarrow> snapshotState" where
  "finish_move st actor captured =
     (let color = st_next st;
          st' = st\<lparr>st_captures := mput color (valueOr 0 (mget (st_captures st) color) + int captured) (st_captures st),
            st_dice := 0, st_phase := ''awaiting_roll''\<rparr> in
      if allFinished (pieces_of st' color) then
        st'\<lparr>st_status := ''finished'', st_winner := Some actor, st_result := Some ''goal''\<rparr>
      else if st_dice st \<noteq> 6 then st'\<lparr>st_next := opposite color\<rparr>
      else st')"

definition applyMoveWithCrossing ::
  "snapshot \<Rightarrow> bytes \<Rightarrow> action \<Rightarrow> bool \<Rightarrow> bool \<Rightarrow> game_error + event \<times> snapshot" where
  "applyMoveWithCrossing sn actor act captureLandings captureCrossing =
     (if act_type act \<noteq> MoveRequested \<or> \<not> validActorID actor then Inl ErrInvalidAction
      else case decodeRequestedMove (act_payload act) of
        None \<Rightarrow> Inl ErrInvalidAction
      | Some pieceIndex \<Rightarrow>
          and_then (stateFromSnapshot sn) (\<lambda>(st, sn).
          if st_status st \<noteq> ''active'' \<or> st_phase st \<noteq> ''awaiting_move'' then Inl FlightInvalidPhase
          else and_then (bindAndValidateActor st actor) (\<lambda>st.
          if pieceIndex < 0 \<or> pieceIndex \<ge> PieceCount then Inl FlightInvalidMove
          else let from = pieces_of st (st_next st) ! nat pieceIndex in
          case resolveMove (st_next st) from (st_dice st) of
            None \<Rightarrow> Inl FlightInvalidMove
          | Some r \<Rightarrow>
              let st1 = move_piece st pieceIndex r;
                  (st2, captured) = captureAt st1 (st_next st) (destinations_of r captureLandings captureCrossing);
                  revision = i64 (sn_revision sn + 1) in
              (case encodeSnapshot revision (finish_move st2 actor (length captured)) of
                 None \<Rightarrow> Inl ErrInvalidSnapshot
               | Some nxt \<Rightarrow>
                   Inr (\<lparr>ev_revision = revision, ev_type = MoveAccepted, ev_actor = actor,
                     ev_payload = marshalMove \<lparr>mv_color = st_next st, mv_user = actor, mv_piece = pieceIndex,
                       mv_roll = st_dice st, mv_from = from, mv_to = fst r, mv_effect = snd r,
                       mv_captured = Some captured\<rparr>\<rparr>, nxt)))))"

definition Apply :: "snapshot \<Rightarrow> bytes \<Rightarrow> action \<Rightarrow> game_error + event \<times> snapshot" where
  "Apply sn actor act = applyMoveWithCrossing sn actor act True True"

definition applyMove :: "snapshot \<Rightarrow> bytes \<Rightarrow> action \<Rightarrow> bool \<Rightarrow> game_error + event \<times> snapshot" where
  "applyMove sn actor act captureLandings = applyMoveWithCrossing sn actor act captureLandings False"

text \<open>The pieces that a roll lets move, with the exclusions of the older rules.\<close>

definition rollMovable :: "bytes \<Rightarrow> Piece list \<Rightarrow> int \<Rightarrow> bool \<Rightarrow> bool \<Rightarrow> int list" where
  "rollMovable color ps value allowBounce allowFiveLaunch =
     (let movable = movablePieces color ps value in
      if \<not> allowBounce \<or> \<not> allowFiveLaunch then
        filter (\<lambda>i. let p = ps ! nat i in
          (allowBounce \<or> Zone p \<noteq> ''home'' \<or> Index p + value \<le> HomeCellCount) \<and>
          (allowFiveLaunch \<or> value \<noteq> 5 \<or> Zone p \<noteq> ''hangar'')) movable
      else movable)"

definition applyRollValueWithOptions ::
  "snapshot \<Rightarrow> bytes \<Rightarrow> int \<Rightarrow> bool \<Rightarrow> bool \<Rightarrow> game_error + event \<times> snapshot" where
  "applyRollValueWithOptions sn actor value allowBounce allowFiveLaunch =
     (if value < 1 \<or> value > 6 \<or> \<not> validActorID actor then Inl ErrInvalidAction
      else and_then (stateFromSnapshot sn) (\<lambda>(st, sn).
      if st_status st \<noteq> ''active'' \<or> st_phase st \<noteq> ''awaiting_roll'' then Inl FlightInvalidPhase
      else and_then (bindAndValidateActor st actor) (\<lambda>st.
      let color = st_next st;
          movable = rollMovable color (pieces_of st color) value allowBounce allowFiveLaunch;
          st' = (if movable \<noteq> [] then st\<lparr>st_phase := ''awaiting_move'', st_dice := value\<rparr>
                 else if value \<noteq> 6 then st\<lparr>st_next := opposite color\<rparr> else st);
          revision = i64 (sn_revision sn + 1) in
      (case encodeSnapshot revision st' of
         None \<Rightarrow> Inl ErrInvalidSnapshot
       | Some nxt \<Rightarrow>
           Inr (\<lparr>ev_revision = revision, ev_type = RollAccepted, ev_actor = actor,
             ev_payload = marshalRoll \<lparr>ro_color = color, ro_user = actor, ro_value = value,
               ro_movable = Some movable\<rparr>\<rparr>, nxt)))))"

definition applyRollValue :: "snapshot \<Rightarrow> bytes \<Rightarrow> int \<Rightarrow> game_error + event \<times> snapshot" where
  "applyRollValue sn actor value = applyRollValueWithOptions sn actor value True True"

definition ApplyRandom :: "snapshot \<Rightarrow> bytes \<Rightarrow> action \<Rightarrow> nat list option \<Rightarrow> game_error + event \<times> snapshot" where
  "ApplyRandom sn actor act randomSource =
     (case randomSource of
        None \<Rightarrow> Inl ErrInvalidAction
      | Some source \<Rightarrow>
          if act_type act \<noteq> RollRequested \<or> \<not> strictEmptyObject (act_payload act) \<or> \<not> validActorID actor
          then Inl ErrInvalidAction
          else case rollDie 128 source of
            None \<Rightarrow> Inl FlightRandomUnavailable
          | Some value \<Rightarrow> applyRollValue sn actor value)"

text \<open>
  \<open>Rebuild\<close>. The attempts of the older rules stop at the first that produces the persisted
  payload; otherwise the last of them counts.
\<close>

fun replay :: "bytes \<Rightarrow> (game_error + event \<times> snapshot) list \<Rightarrow> game_error + event \<times> snapshot \<Rightarrow>
    game_error + event \<times> snapshot" where
  "replay payload [] result = result"
| "replay payload (attempt # attempts) result =
     (case attempt of
        Inr (produced, nxt) \<Rightarrow>
          if ev_payload produced = payload then attempt else replay payload attempts attempt
      | Inl e \<Rightarrow> replay payload attempts attempt)"

definition with_legacy :: "bytes \<Rightarrow> game_error + event \<times> snapshot \<Rightarrow> (game_error + event \<times> snapshot) list \<Rightarrow>
    game_error + event \<times> snapshot" where
  "with_legacy payload result attempts =
     (case result of
        Inl e \<Rightarrow> result
      | Inr (produced, nxt) \<Rightarrow> if ev_payload produced \<noteq> payload then replay payload attempts result else result)"

definition settle_event :: "event \<Rightarrow> game_error + event \<times> snapshot \<Rightarrow> game_error + snapshot" where
  "settle_event e result =
     (case result of
        Inl err \<Rightarrow> Inl ErrInvalidEvent
      | Inr (produced, nxt) \<Rightarrow>
          if ev_revision produced \<noteq> ev_revision e \<or> ev_type produced \<noteq> ev_type e \<or>
             ev_actor produced \<noteq> ev_actor e \<or> ev_payload produced \<noteq> ev_payload e
          then Inl ErrInvalidEvent else Inr nxt)"

definition rebuildBody :: "int \<Rightarrow> event \<Rightarrow> snapshot \<Rightarrow> game_error + snapshot" where
  "rebuildBody i e sn =
     (if ev_revision e \<noteq> i + 1 \<or> \<not> validActorID (ev_actor e) then Inl ErrInvalidEvent
      else if ev_type e = RollAccepted then
        (case NormalizeLegacyRollPayload (ev_payload e) of
           None \<Rightarrow> Inl ErrInvalidEvent
         | Some payload \<Rightarrow>
             (case decodeAcceptedRoll payload of
                None \<Rightarrow> Inl ErrInvalidEvent
              | Some accepted \<Rightarrow>
                  if ro_user accepted \<noteq> ev_actor e then Inl ErrInvalidEvent
                  else settle_event (e\<lparr>ev_payload := payload\<rparr>)
                    (with_legacy payload (applyRollValue sn (ev_actor e) (ro_value accepted))
                      (map (\<lambda>(bounce, five). applyRollValueWithOptions sn (ev_actor e) (ro_value accepted) bounce five)
                        [(True, False), (False, True), (False, False)]))))
      else if ev_type e = MoveAccepted then
        (case decodeAcceptedMove (ev_payload e) of
           None \<Rightarrow> Inl ErrInvalidEvent
         | Some accepted \<Rightarrow>
             if mv_user accepted \<noteq> ev_actor e then Inl ErrInvalidEvent
             else let act = \<lparr>act_type = MoveRequested, act_payload = requestedMovePayload (mv_piece accepted)\<rparr> in
               settle_event e
                 (with_legacy (ev_payload e) (Apply sn (ev_actor e) act)
                   (map (applyMove sn (ev_actor e) act) [True, False])))
      else Inl ErrInvalidEvent)"

definition Rebuild :: "event list \<Rightarrow> game_error + snapshot" where
  "Rebuild events =
     (case encodeSnapshot 0 initialState of
        None \<Rightarrow> Inl ErrInvalidSnapshot
      | Some sn \<Rightarrow> rebuild_loop rebuildBody 0 events sn)"

subsection \<open>States\<close>

definition state_ok :: "snapshotState \<Rightarrow> bool" where
  "state_ok st \<longleftrightarrow> validState st \<and> mok (st_captures st) \<and> mok (st_pieces st)"

lemma colors [simp]: "Black \<noteq> White" "White \<noteq> Black" "Black < White" "opposite Black = White" "opposite White = Black"
  "\<not> White < Black"
  by (simp_all add: Black_def White_def opposite_def)

lemma two_colors:
  assumes "mok m" and "length m = 2" and "mget m Black = Some x" and "mget m White = Some y"
  shows "m = [(Black, x), (White, y)]"
proof -
  obtain k v l w where m: "m = [(k, v), (l, w)]"
    using assms(2) by (cases m; cases "tl m") auto
  have kl: "k < l" using assms(1) m by (simp add: mok_def)
  have "Black \<in> {k, l}" "White \<in> {k, l}" using assms(3,4) unfolding m mget_def by (auto split: if_splits)
  with kl colors(1,3) have "k = Black \<and> l = White" using order.asym [of Black White] by auto
  with assms(3,4) m show ?thesis by (simp add: mget_def)
qed

lemma indexed_all: "list_all (\<lambda>(i, p). P i p) (indexed ps) \<longleftrightarrow> (\<forall>i < length ps. P (int i) (ps ! i))"
  by (auto simp: indexed_def list_all_length)

lemma indexed_filter: "map fst (filter (\<lambda>(i, p). P p) (indexed ps)) = map int (filter (\<lambda>i. P (ps ! i)) [0..<length ps])"
proof -
  have "indexed ps = map (\<lambda>i. (int i, ps ! i)) [0..<length ps]"
    by (rule nth_equalityI) (simp_all add: indexed_def)
  then show ?thesis by (simp add: filter_map comp_def)
qed

definition piece_ok :: "bytes \<Rightarrow> Piece \<Rightarrow> int \<Rightarrow> bool" where
  "piece_ok color p i \<longleftrightarrow> validPiece p i \<and> (Zone p = ''main'' \<longrightarrow> snd (progressForIndex color (Index p)))"

definition pieces_ok :: "bytes \<Rightarrow> Piece list \<Rightarrow> bool" where
  "pieces_ok color ps \<longleftrightarrow> length ps = 4 \<and> (\<forall>i < 4. piece_ok color (ps ! i) (int i))"

lemma valid_pieces_iff: "valid_pieces st color \<longleftrightarrow> (\<exists>ps. mget (st_pieces st) color = Some ps \<and> pieces_ok color ps)"
  by (auto simp: valid_pieces_def pieces_ok_def indexed_all piece_ok_def PieceCount_def split: option.splits)

lemma state_ok_obtain:
  assumes "state_ok st"
  obtains a b pb pw where "st_captures st = [(Black, a), (White, b)]" "0 \<le> a" "a \<le> 2048" "0 \<le> b" "b \<le> 2048"
    "st_pieces st = [(Black, pb), (White, pw)]" "pieces_ok Black pb" "pieces_ok White pw"
    "pieces_of st Black = pb" "pieces_of st White = pw"
proof -
  have v: "length (st_captures st) = 2" "valid_count st Black" "valid_count st White" "length (st_pieces st) = 2"
    "valid_pieces st Black" "valid_pieces st White" and m: "mok (st_captures st)" "mok (st_pieces st)"
    using assms by (simp_all add: state_ok_def validState_def)
  from v(2,3) obtain a b where ab: "mget (st_captures st) Black = Some a" "mget (st_captures st) White = Some b"
    "0 \<le> a" "a \<le> 2048" "0 \<le> b" "b \<le> 2048"
    by (auto simp: valid_count_def split: option.splits)
  from v(5,6) obtain pb pw where p: "mget (st_pieces st) Black = Some pb" "mget (st_pieces st) White = Some pw"
    "pieces_ok Black pb" "pieces_ok White pw" unfolding valid_pieces_iff by blast
  show thesis
    using that [OF two_colors [OF m(1) v(1) ab(1,2)] ab(3-6) two_colors [OF m(2) v(4) p(1,2)] p(3,4)] p(1,2)
    by (simp add: pieces_of_def)
qed

lemma piece_range:
  assumes "piece_ok color p i" and "0 \<le> i" and "i < 4"
  shows "Zone p \<in> {''hangar'', ''launch'', ''finished'', ''main'', ''home''}" "0 \<le> Index p" "Index p < 52"
  using assms by (auto simp: piece_ok_def validPiece_def MainCellCount_def HomeCellCount_def split: if_splits)

lemma pieces_range:
  assumes "pieces_ok color ps" and "p \<in> set ps"
  shows "Zone p \<in> {''hangar'', ''launch'', ''finished'', ''main'', ''home''}" "0 \<le> Index p" "Index p < 52"
proof -
  obtain i where "i < 4" "p = ps ! i" using assms by (auto simp: pieces_ok_def in_set_conv_nth)
  then have "piece_ok color p (int i)" "0 \<le> int i" "int i < 4" using assms(1) by (simp_all add: pieces_ok_def)
  from piece_range [OF this] show "Zone p \<in> {''hangar'', ''launch'', ''finished'', ''main'', ''home''}" "0 \<le> Index p" "Index p < 52"
    by blast+
qed

subsection \<open>The codec\<close>

definition zones :: "bytes list" where
  "zones = [''hangar'', ''launch'', ''finished'', ''main'', ''home'']"

lemma zone_utf8: "z \<in> set zones \<Longrightarrow> utf8_valid z" "z \<in> set zones \<Longrightarrow> length z \<le> 8"
  by (auto simp: zones_def utf8_valid_ascii)

lemma piece_fields [json_simps]:
  "dec_field piece_names (piece_members p) ''zone'' dec_string z = Some (Zone p)"
  "is_i64 (Index p) \<Longrightarrow> dec_field piece_names (piece_members p) ''index'' dec_int n = Some (Index p)"
proof -
  have k: "set (map fst (piece_members p)) \<subseteq> set piece_names" "distinct (map fst (piece_members p))"
    "map_of (piece_members p) ''zone'' = Some (JStr (Zone p))" "map_of (piece_members p) ''index'' = Some (jint (Index p))"
    by (simp_all add: piece_members_def piece_names_def)
  show "dec_field piece_names (piece_members p) ''zone'' dec_string z = Some (Zone p)"
    by (subst dec_field_exact [OF k(1,2,3)]) simp
  show "is_i64 (Index p) \<Longrightarrow> dec_field piece_names (piece_members p) ''index'' dec_int n = Some (Index p)"
    by (subst dec_field_exact [OF k(1,2,4)]) (simp add: dec_int_jint)
qed

lemma dec_piece_json [json_simps]: "is_i64 (Index p) \<Longrightarrow> dec_piece (piece_json p) z = Some p"
  by (simp add: dec_piece_def piece_json_def json_simps)

lemma pieces_json_codec:
  assumes "pieces_ok color ps"
  shows "dec_slice dec_piece zero_piece (pieces_json ps) [] = Some ps" and "wf_json (pieces_json ps)"
    and "length (render (pieces_json ps)) \<le> 500"
proof -
  have r: "is_i64 (Index p)" "Zone p \<in> set zones" "length (show_int (Index p)) \<le> 2" if "p \<in> set ps" for p
    using pieces_range [OF assms that] length_show_int_pos [of "Index p" 2] by (auto simp: zones_def intro!: is_i64_small)
  show "dec_slice dec_piece zero_piece (pieces_json ps) [] = Some ps"
    unfolding pieces_json_def by (rule dec_slice_map) (simp add: dec_piece_json r)
  show "wf_json (pieces_json ps)"
    using r(2) zone_utf8(1) by (auto simp: pieces_json_def piece_json_def piece_members_def utf8_valid_ascii)
  have "length (render (piece_json p)) \<le> 122" if "p \<in> set ps" for p
  proof -
    have "length (render (JStr (Zone p))) \<le> 50"
      using length_render_jstr [of "Zone p"] zone_utf8(2) [OF r(2) [OF that]] by simp
    moreover have "length (render (jint (Index p))) \<le> 2" using r(3) [OF that] by (simp add: jint_def)
    ultimately show ?thesis
      using length_render_obj_le [of "piece_members p"]
      by (simp add: piece_json_def piece_members_def del: render.simps)
  qed
  then have "length (render_elems (map piece_json ps)) \<le> (122 + 1) * length (map piece_json ps)"
    by (intro length_render_elems) simp
  then show "length (render (pieces_json ps)) \<le> 500" using assms by (simp add: pieces_json_def pieces_ok_def)
qed

lemma winner_cases:
  assumes "validState st"
  shows "st_winner st \<in> {None, Some '''', st_black st, st_white st}" "st_result st \<in> {None, Some ''goal''}"
    "st_status st \<in> {''active'', ''finished''}" "st_phase st \<in> {''awaiting_roll'', ''awaiting_move''}"
    "st_next st \<in> {Black, White}" "0 \<le> st_dice st" "st_dice st \<le> 6"
  using assms by (auto simp: validState_def valid_outcome_def valid_phase_def valueOrEmpty_def split: option.splits if_splits)

lemma small_utf8:
  "s \<in> {''active'', ''finished'', ''awaiting_roll'', ''awaiting_move'', Black, White} \<Longrightarrow> utf8_valid s \<and> length s \<le> 13"
  by (auto simp: Black_def White_def utf8_valid_ascii)

lemma fc_members_keys [json_simps]: "map fst (state_members st) = state_names" "distinct state_names"
  by (simp_all add: state_members_def state_names_def)

lemma fc_members_of [json_simps]:
  "map_of (state_members st) ''captureCounts'' = Some (jmap jint (st_captures st))"
  "map_of (state_members st) ''status'' = Some (JStr (st_status st))"
  "map_of (state_members st) ''phase'' = Some (JStr (st_phase st))"
  "map_of (state_members st) ''blackUserId'' = Some (jptr JStr (st_black st))"
  "map_of (state_members st) ''whiteUserId'' = Some (jptr JStr (st_white st))"
  "map_of (state_members st) ''nextColor'' = Some (JStr (st_next st))"
  "map_of (state_members st) ''dice'' = Some (jint (st_dice st))"
  "map_of (state_members st) ''pieces'' = Some (jmap pieces_json (st_pieces st))"
  "map_of (state_members st) ''winnerUserId'' = Some (jptr JStr (st_winner st))"
  "map_of (state_members st) ''result'' = Some (jptr JStr (st_result st))"
  by (simp_all add: state_members_def)

lemma fc_member_field [json_simps]:
  "map_of (state_members st) n = Some j \<Longrightarrow> dec_field state_names (state_members st) n d z = d j z"
  by (intro dec_field_exact) (simp_all add: json_simps)

lemma state_actors:
  assumes "validState st"
  shows "wf_json (jptr JStr (st_black st))" "wf_json (jptr JStr (st_white st))" "wf_json (jptr JStr (st_winner st))"
    "wf_json (jptr JStr (st_result st))"
    "length (render (jptr JStr (st_black st))) \<le> 770" "length (render (jptr JStr (st_white st))) \<le> 770"
    "length (render (jptr JStr (st_winner st))) \<le> 770" "length (render (jptr JStr (st_result st))) \<le> 770"
proof -
  have v: "validOptionalActor (st_black st)" "validOptionalActor (st_white st)" using assms by (simp_all add: validState_def)
  note w = winner_cases(1,2) [OF assms] length_quote [of "''goal''"]
  show "wf_json (jptr JStr (st_black st))" "wf_json (jptr JStr (st_white st))"
    using wf_opt_actor v by blast+
  show "length (render (jptr JStr (st_black st))) \<le> 770" "length (render (jptr JStr (st_white st))) \<le> 770"
    using length_render_opt_actor v by blast+
  show "wf_json (jptr JStr (st_winner st))" "length (render (jptr JStr (st_winner st))) \<le> 770"
    using w(1) wf_opt_actor [OF v(1)] wf_opt_actor [OF v(2)] length_render_opt_actor [OF v(1)] length_render_opt_actor [OF v(2)]
    by (auto simp: jptr_def quote_def)
  show "wf_json (jptr JStr (st_result st))" "length (render (jptr JStr (st_result st))) \<le> 770"
    using w(2,3) by (auto simp: jptr_def utf8_valid_ascii)
qed

lemma maps_codec:
  assumes "state_ok st"
  shows "wf_json (jmap jint (st_captures st))" "dec_map dec_int 0 (jmap jint (st_captures st)) None = Some (Some (st_captures st))"
    "length (render (jmap jint (st_captures st))) \<le> 100"
    "wf_json (jmap pieces_json (st_pieces st))"
    "dec_map (dec_slice dec_piece zero_piece) [] (jmap pieces_json (st_pieces st)) None = Some (Some (st_pieces st))"
    "length (render (jmap pieces_json (st_pieces st))) \<le> 1100"
proof -
  from assms have mk: "mok (st_captures st)" "mok (st_pieces st)" by (simp_all add: state_ok_def)
  from assms obtain a b pb pw where s: "st_captures st = [(Black, a), (White, b)]" "0 \<le> a" "a \<le> 2048" "0 \<le> b" "b \<le> 2048"
    "st_pieces st = [(Black, pb), (White, pw)]" "pieces_ok Black pb" "pieces_ok White pw" by (rule state_ok_obtain)
  note u = small_utf8 [of Black] small_utf8 [of White]
  have len: "length Black = 5" "length White = 5" by (simp_all add: Black_def White_def)
  have i: "is_i64 a" "is_i64 b" using s by (auto intro: is_i64_small)
  show "wf_json (jmap jint (st_captures st))" by (rule wf_jmap) (use s u in auto)
  show "dec_map dec_int 0 (jmap jint (st_captures st)) None = Some (Some (st_captures st))"
    by (rule dec_map_jmap [OF _ mk(1)]) (use s i in \<open>auto simp: dec_int_jint\<close>)
  have "length (render (jint a)) \<le> 4" "length (render (jint b)) \<le> 4"
    using s length_show_int_pos [of a 4] length_show_int_pos [of b 4] by (simp_all add: jint_def)
  then have "length (render (jmap jint (st_captures st))) \<le> 2 + (6 * 5 + 4 + 4) * length (st_captures st)"
    by (intro length_jmap) (use s len in auto)
  then show "length (render (jmap jint (st_captures st))) \<le> 100" by (simp add: s)
  note pj = pieces_json_codec [OF s(7)] pieces_json_codec [OF s(8)]
  show "wf_json (jmap pieces_json (st_pieces st))" by (rule wf_jmap) (use s u pj in auto)
  show "dec_map (dec_slice dec_piece zero_piece) [] (jmap pieces_json (st_pieces st)) None = Some (Some (st_pieces st))"
    by (rule dec_map_jmap [OF _ mk(2)]) (use s pj in auto)
  have "length (render (jmap pieces_json (st_pieces st))) \<le> 2 + (6 * 5 + 4 + 500) * length (st_pieces st)"
    by (intro length_jmap) (use s len pj in auto)
  then show "length (render (jmap pieces_json (st_pieces st))) \<le> 1100" by (simp add: s)
qed

lemma fc_members_wf:
  assumes "state_ok st"
  shows "\<forall>kv\<in>set (state_members st). utf8_valid (fst kv) \<and> wf_json (snd kv)"
proof -
  have v: "validState st" using assms by (simp add: state_ok_def)
  note w = winner_cases [OF v]
  have "utf8_valid (st_status st)" "utf8_valid (st_phase st)" "utf8_valid (st_next st)"
    using w small_utf8 [of "st_status st"] small_utf8 [of "st_phase st"] small_utf8 [of "st_next st"] by auto
  then show ?thesis
    using state_actors(1-4) [OF v] maps_codec(1,4) [OF assms]
    by (auto simp: state_members_def utf8_valid_ascii)
qed

lemma length_marshal:
  assumes "state_ok st"
  shows "length (marshalState st) \<le> 8192"
proof -
  have v: "validState st" using assms by (simp add: state_ok_def)
  note w = winner_cases [OF v]
  have "length (render (JStr (st_status st))) \<le> 80" "length (render (JStr (st_phase st))) \<le> 80" "length (render (JStr (st_next st))) \<le> 80"
    using w length_render_jstr [of "st_status st"] length_render_jstr [of "st_phase st"] length_render_jstr [of "st_next st"]
      small_utf8 [of "st_status st"] small_utf8 [of "st_phase st"] small_utf8 [of "st_next st"] by auto
  moreover have "length (render (jint (st_dice st))) \<le> 1"
    using w length_show_int_pos [of "st_dice st" 1] by (simp add: jint_def)
  moreover note state_actors(5-8) [OF v] maps_codec(3,6) [OF assms]
  moreover have "length (marshalState st) \<le> 2 + (\<Sum>kv\<leftarrow>state_members st. 6 * length (fst kv) + 4 + length (render (snd kv)))"
    unfolding marshalState_def by (rule length_render_obj_le)
  ultimately show ?thesis by (simp add: state_members_def del: render.simps)
qed

lemma dec_state_marshal:
  assumes "state_ok st"
  shows "dec_state (marshalState st) = Some st"
proof -
  have wf: "wf_json (JObj (state_members st))" using fc_members_wf [OF assms] by simp
  have "is_i64 (st_dice st)" using winner_cases(6,7) assms unfolding state_ok_def by (intro is_i64_small) force+
  then show ?thesis
    unfolding dec_state_def marshalState_def json_parse_render [OF wf]
    by (simp add: json_simps maps_codec [OF assms] dec_int_jint)
qed

lemma strict_counts_render: 
  assumes "state_ok st"
  shows "strict_counts (render (jmap jint (st_captures st)))"
proof -
  from assms obtain a b pb pw where s: "st_captures st = [(Black, a), (White, b)]" "0 \<le> a" "a \<le> 2048" "0 \<le> b" "b \<le> 2048"
    by (rule state_ok_obtain)
  have i: "is_i64 a" "is_i64 b" using s by (auto intro: is_i64_small)
  let ?m = "[(Black, jint a), (White, jint b)]"
  have wf: "\<forall>kv\<in>set ?m. utf8_valid (fst kv) \<and> wf_json (snd kv)"
    using small_utf8 [of Black] small_utf8 [of White] by simp
  have u: "unmarshal (dec_ptr dec_int 0) None (render (jint x)) = Some (Some x)" if "is_i64 x" for x
    using that by (subst unmarshal_render) (simp_all add: dec_ptr_def dec_int_jint, simp add: jint_def)
  have j: "jmap jint (st_captures st) = JObj ?m" by (simp add: s jmap_def)
  have so: "strict_object [Black, White] (render (JObj ?m)) = Some (raw_members ?m)"
    using wf by (intro strict_object_render) simp_all
  have "length (render (JObj ?m)) \<le> 8192" using maps_codec(3) [OF assms] by (simp add: j)
  moreover have "utf8_valid (render (JObj ?m))" using wf by (rule utf8_valid_render_obj)
  ultimately have "strictObject (render (JObj ?m)) [Black, White] = Some (raw_members ?m)"
    using so by (simp add: strictObject_def del: render.simps)
  then show ?thesis
    by (simp add: strict_counts_def j raw_members_def u i del: render.simps)
qed

lemma decode_encode:
  assumes "state_ok st" and "0 \<le> rv"
  shows "decodeSnapshot \<lparr>sn_revision = rv, sn_state = marshalState st\<rparr> = Inr st"
proof -
  have u: "utf8_valid (marshalState st)"
    unfolding marshalState_def using fc_members_wf [OF assms(1)] by (intro utf8_valid_render_obj) auto
  have "strict_object state_names (marshalState st) = Some (raw_members (state_members st))"
    unfolding marshalState_def using fc_members_wf [OF assms(1)]
    by (intro strict_object_render) (simp_all add: json_simps)
  then have so: "strictObject (marshalState st) state_names = Some (raw_members (state_members st))"
    using u length_marshal [OF assms(1)] by (auto simp: strictObject_def marshalState_def simp del: render.simps)
  have ne: "marshalState st \<noteq> []" by (simp add: marshalState_def)
  have "length (state_members st) = length state_names" by (simp add: state_members_def state_names_def)
  then show ?thesis
    using assms length_marshal [OF assms(1)] u ne strict_counts_render [OF assms(1)]
    by (simp add: decodeSnapshot_def so json_simps dec_state_marshal state_ok_def del: render.simps)
qed

lemma decode_valid:
  assumes "decodeSnapshot sn = Inr st"
  shows "state_ok st" and "sn_state sn \<noteq> []" and "0 \<le> sn_revision sn"
proof -
  obtain st0 where d: "dec_state (sn_state sn) = Some st0" and v: "validState st" "sn_state sn \<noteq> []" "0 \<le> sn_revision sn"
    and c: "st = st0 \<or> st = st0\<lparr>st_captures := mput White 0 (mput Black 0 [])\<rparr>"
    using assms by (auto simp: decodeSnapshot_def split: if_splits bind_splits option.splits)
  have "mok (st_captures st0)" "mok (st_pieces st0)"
    using d by (auto simp: dec_state_def valueOr_def mok_def split: bind_splits option.splits
        dest!: dec_field_map_mok [unfolded mok_def])
  moreover have "mok (mput White 0 (mput Black 0 []) :: int gomap)" by (intro mok_mput) (simp add: mok_def)
  ultimately show "state_ok st" using v(1) c by (auto simp: state_ok_def)
qed (use assms in \<open>auto simp: decodeSnapshot_def split: if_splits\<close>)

subsection \<open>The course\<close>

lemma startIndices_simps [simp]: "startIndices Black = Some 26" "startIndices White = Some 0"
  by (simp_all add: startIndices_def)

lemma progress_index:
  assumes "color \<in> {Black, White}" and "1 \<le> q" and "q \<le> 52"
  shows "progressForIndex color (indexForProgress color q) = (q, q \<le> 50)"
    and "0 \<le> indexForProgress color q" and "indexForProgress color q < 52"
proof -
  obtain s where s: "startIndices color = Some s" using assms(1) by auto
  have "((s + q - 1) mod 52 - s + 52) mod 52 = ((s + q - 1) mod 52 + (52 - s)) mod 52" by (simp add: algebra_simps)
  also have "\<dots> = (s + q - 1 + (52 - s)) mod 52" by (rule mod_add_left_eq)
  also have "\<dots> = (q - 1) mod 52" using mod_add_self2 [of "q - 1" 52] by (simp add: algebra_simps)
  also have "\<dots> = q - 1" using assms by (intro mod_pos_pos_trivial) auto
  finally have "((s + q - 1) mod 52 - s + 52) mod 52 = q - 1" .
  moreover show "0 \<le> indexForProgress color q" "indexForProgress color q < 52"
    by (simp_all add: indexForProgress_def MainCellCount_def)
  ultimately show "progressForIndex color (indexForProgress color q) = (q, q \<le> 50)"
    using assms by (auto simp: progressForIndex_def indexForProgress_def s MainCellCount_def Let_def not_less)
qed

lemma index_progress:
  assumes "color \<in> {Black, White}" and "0 \<le> n" and "n < 52"
  shows "indexForProgress color (fst (progressForIndex color n)) = n"
    and "1 \<le> fst (progressForIndex color n)" and "fst (progressForIndex color n) \<le> 52"
    and "snd (progressForIndex color n) \<longleftrightarrow> fst (progressForIndex color n) \<le> 50"
proof -
  obtain s where s: "startIndices color = Some s" using assms(1) by auto
  have f: "fst (progressForIndex color n) = (n - s + 52) mod 52 + 1"
    using assms by (simp add: progressForIndex_def s MainCellCount_def Let_def)
  have "(s + ((n - s + 52) mod 52 + 1) - 1) mod 52 = (s + (n - s + 52)) mod 52" by (simp add: mod_simps)
  also have "\<dots> = n mod 52" by simp
  also have "\<dots> = n" using assms by (intro mod_pos_pos_trivial) auto
  finally show "indexForProgress color (fst (progressForIndex color n)) = n"
    by (simp add: f indexForProgress_def s MainCellCount_def)
  show "1 \<le> fst (progressForIndex color n)" by (simp add: f)
  have "(n - s + 52) mod 52 < 52" by simp
  then show "fst (progressForIndex color n) \<le> 52" unfolding f by linarith
  show "snd (progressForIndex color n) \<longleftrightarrow> fst (progressForIndex color n) \<le> 50"
    using assms by (simp add: progressForIndex_def s MainCellCount_def Let_def)
qed

text \<open>
  The distance of a piece from the start: -1 in the hangar, 0 on the launch cell, 1 to 50 on the
  ring, 51 to 55 on the home row, 56 at the goal.
\<close>

definition track :: "bytes \<Rightarrow> Piece \<Rightarrow> int" where
  "track color p =
     (if Zone p = ''hangar'' then -1
      else if Zone p = ''launch'' then 0
      else if Zone p = ''main'' then fst (progressForIndex color (Index p))
      else if Zone p = ''home'' then 51 + Index p
      else 56)"

text \<open>
  The rule of the game on distances: a five or six leaves the hangar, an overshoot bounces back from
  the goal, every fourth cell from the second on jumps to the next of its colour, and the
  eighteenth, reached by the die or by a jump, flies to the thirtieth.
\<close>

definition course :: "int \<Rightarrow> int \<Rightarrow> int option" where
  "course d roll =
     (if d = 56 then None
      else if d = -1 then (if roll \<ge> 5 then Some 0 else None)
      else let t = d + roll; t = (if t > 56 then 112 - t else t) in
        Some (if t = 14 \<or> t = 18 then 30 else if t < 50 \<and> t mod 4 = 2 then t + 4 else t))"

lemma track_main:
  assumes "color \<in> {Black, White}" and "1 \<le> q" and "q \<le> 50"
  shows "track color \<lparr>Zone = ''main'', Index = indexForProgress color q\<rparr> = q"
    and "piece_ok color \<lparr>Zone = ''main'', Index = indexForProgress color q\<rparr> i"
  using progress_index [of color q] assms by (simp_all add: track_def piece_ok_def validPiece_def MainCellCount_def)

lemma mainResolution_track:
  assumes "color \<in> {Black, White}" and "1 \<le> q" and "q \<le> 50"
  shows "track color (fst (mainResolution color q)) = (if q = 14 \<or> q = 18 then 30 else if q < 50 \<and> q mod 4 = 2 then q + 4 else q)"
    and "piece_ok color (fst (mainResolution color q)) i" and "Zone (fst (mainResolution color q)) = ''main''"
proof -
  have "q \<noteq> 47" "q \<noteq> 48" "q \<noteq> 49" if "q mod 4 = 2" using that by auto
  then have b: "q + 4 \<le> 50" if "q mod 4 = 2" "q < 50" using that by presburger
  define z where "z = (if q = 14 \<or> q = 18 then 30 else if q < 50 \<and> q mod 4 = 2 then q + 4 else q)"
  have f: "fst (mainResolution color q) = \<lparr>Zone = ''main'', Index = indexForProgress color z\<rparr>"
    by (auto simp: mainResolution_def z_def)
  have "1 \<le> z" "z \<le> 50" using assms b by (auto simp: z_def)
  from track_main(1) [OF assms(1) this] track_main(2) [OF assms(1) this, of i] f z_def
  show "track color (fst (mainResolution color q)) = (if q = 14 \<or> q = 18 then 30 else if q < 50 \<and> q mod 4 = 2 then q + 4 else q)"
    and "piece_ok color (fst (mainResolution color q)) i" and "Zone (fst (mainResolution color q)) = ''main''" by simp_all
qed

lemma piece_ok_simple:
  "0 \<le> n \<Longrightarrow> n < 5 \<Longrightarrow> piece_ok color \<lparr>Zone = ''home'', Index = n\<rparr> i"
  "piece_ok color \<lparr>Zone = ''finished'', Index = 0\<rparr> i" "piece_ok color \<lparr>Zone = ''launch'', Index = 0\<rparr> i"
  "piece_ok color \<lparr>Zone = ''hangar'', Index = i\<rparr> i"
  by (simp_all add: piece_ok_def validPiece_def HomeCellCount_def)

lemma track_simple:
  "track color \<lparr>Zone = ''home'', Index = n\<rparr> = 51 + n" "track color \<lparr>Zone = ''finished'', Index = n\<rparr> = 56"
  "track color \<lparr>Zone = ''launch'', Index = n\<rparr> = 0" "track color \<lparr>Zone = ''hangar'', Index = n\<rparr> = -1"
  by (simp_all add: track_def)

lemma resolveProgress_course:
  assumes "color \<in> {Black, White}" and "0 \<le> d" and "d \<le> 50" and "1 \<le> roll" and "roll \<le> 6"
  shows "\<exists>r. resolveProgress color (d + roll) = Some r \<and> course d roll = Some (track color (fst r)) \<and>
    piece_ok color (fst r) i \<and> Zone (fst r) \<in> {''main'', ''home'', ''finished''}"
proof -
  consider "d + roll \<le> 50" | "50 < d + roll" "d + roll \<le> 55" | "d + roll = 56" using assms by linarith
  then show ?thesis
  proof cases
    case 1
    then have "resolveProgress color (d + roll) = Some (mainResolution color (d + roll))"
      using assms by (simp add: resolveProgress_def)
    moreover have "course d roll = Some (track color (fst (mainResolution color (d + roll))))"
      using 1 assms mainResolution_track(1) [OF assms(1), of "d + roll"] by (simp add: course_def Let_def)
    ultimately show ?thesis using 1 assms mainResolution_track(2,3) [OF assms(1), of "d + roll"] by auto
  next
    case 2
    then show ?thesis
      using assms piece_ok_simple(1) [of "d + roll - 51" color i]
      by (auto simp: resolveProgress_def HomeCellCount_def course_def Let_def track_simple)
  next
    case 3
    then show ?thesis
      using assms by (auto simp: resolveProgress_def HomeCellCount_def course_def Let_def track_simple piece_ok_simple)
  qed
qed

lemma track_range:
  assumes "piece_ok color p i" and "color \<in> {Black, White}"
  shows "-1 \<le> track color p" "track color p \<le> 56"
    "Zone p = ''main'' \<longleftrightarrow> 1 \<le> track color p \<and> track color p \<le> 50"
    "Zone p = ''home'' \<longleftrightarrow> 51 \<le> track color p \<and> track color p \<le> 55"
    "Zone p = ''hangar'' \<longleftrightarrow> track color p = -1" "Zone p = ''launch'' \<longleftrightarrow> track color p = 0"
    "Zone p = ''finished'' \<longleftrightarrow> track color p = 56"
proof -
  have m: "1 \<le> fst (progressForIndex color (Index p)) \<and> fst (progressForIndex color (Index p)) \<le> 50"
    if "Zone p = ''main''"
    using that assms index_progress(2,4) [OF assms(2), of "Index p"]
    by (auto simp: piece_ok_def validPiece_def MainCellCount_def)
  have z: "Zone p \<in> {''hangar'', ''launch'', ''main'', ''home'', ''finished''}"
    and h: "Zone p = ''home'' \<longrightarrow> 0 \<le> Index p \<and> Index p < 5"
    using assms(1) by (auto simp: piece_ok_def validPiece_def HomeCellCount_def split: if_splits)
  show "-1 \<le> track color p" "track color p \<le> 56"
    "Zone p = ''main'' \<longleftrightarrow> 1 \<le> track color p \<and> track color p \<le> 50"
    "Zone p = ''home'' \<longleftrightarrow> 51 \<le> track color p \<and> track color p \<le> 55"
    "Zone p = ''hangar'' \<longleftrightarrow> track color p = -1" "Zone p = ''launch'' \<longleftrightarrow> track color p = 0"
    "Zone p = ''finished'' \<longleftrightarrow> track color p = 56"
    using m z h by (auto simp: track_def)
qed

lemma resolveMove_course:
  assumes ok: "piece_ok color p i" and c: "color \<in> {Black, White}" and r: "1 \<le> roll" "roll \<le> 6"
  shows "case resolveMove color p roll of
      None \<Rightarrow> course (track color p) roll = None
    | Some r \<Rightarrow> course (track color p) roll = Some (track color (fst r)) \<and> piece_ok color (fst r) i \<and>
        Zone (fst r) \<in> {''launch'', ''main'', ''home'', ''finished''}"
proof -
  note t = track_range [OF ok c]
  have z: "Zone p \<in> {''hangar'', ''launch'', ''main'', ''home'', ''finished''}"
    using ok by (auto simp: piece_ok_def validPiece_def split: if_splits)
  then consider "Zone p = ''hangar''" | "Zone p = ''launch''" | "Zone p = ''main''" | "Zone p = ''home''" | "Zone p = ''finished''"
    by blast
  then show ?thesis
  proof cases
    case 1
    then show ?thesis using r by (auto simp: resolveMove_def course_def track_simple track_def piece_ok_simple)
  next
    case 2
    have "resolveMove color p roll = resolveProgress color (0 + roll)"
      using 2 r by (simp add: resolveMove_def resolveMainProgress_def resolveProgress_def)
    with resolveProgress_course [OF c _ _ r, of 0 i] 2 t(6) show ?thesis by (auto split: option.splits)
  next
    case 3
    have s: "snd (progressForIndex color (Index p))" using ok 3 by (simp add: piece_ok_def)
    have "resolveMove color p roll = resolveProgress color (track color p + roll)"
      using 3 r s by (cases "progressForIndex color (Index p)") (simp add: resolveMove_def track_def Let_def)
    with resolveProgress_course [OF c _ _ r, of "track color p" i] 3 t(3) show ?thesis by (auto split: option.splits)
  next
    case 4
    then have h: "0 \<le> Index p" "Index p < 5" using ok by (simp_all add: piece_ok_def validPiece_def HomeCellCount_def)
    let ?t = "if Index p + roll > 5 then 10 - (Index p + roll) else Index p + roll"
    have rm: "resolveMove color p roll = (if ?t < 5 then Some (\<lparr>Zone = ''home'', Index = ?t\<rparr>, ''none'')
        else if ?t = 5 then Some (\<lparr>Zone = ''finished'', Index = 0\<rparr>, ''none'') else None)"
      using 4 r by (simp add: resolveMove_def HomeCellCount_def Let_def)
    have tr: "track color p = 51 + Index p" using 4 by (simp add: track_def)
    have tt: "0 \<le> ?t" "?t \<le> 5" using h r by auto
    have co: "course (track color p) roll = Some (51 + ?t)"
      using h r unfolding tr course_def Let_def by auto
    show ?thesis
      unfolding rm co using tt by (auto simp: track_simple piece_ok_simple)
  next
    case 5
    then show ?thesis using r t(7) by (simp add: resolveMove_def course_def)
  qed
qed

subsection \<open>Operations on states\<close>

definition initialSnapshot :: snapshot where
  "initialSnapshot = \<lparr>sn_revision = 0, sn_state = marshalState initialState\<rparr>"

lemma hangar_ok: "pieces_ok color hangar"
  by (auto simp: pieces_ok_def hangar_def PieceCount_def piece_ok_def validPiece_def)

lemma fc_initial_ok: "state_ok initialState"
proof -
  have m: "mok (mput White x (mput Black y []))" for x y :: 'v by (intro mok_mput) (simp add: mok_def)
  have g: "mput White x (mput Black y []) = [(Black, y), (White, x)]" for x y :: 'v
    using colors(3) order.asym [of Black White] by auto
  have "\<not> allFinished hangar" by (simp add: allFinished_def hangar_def PieceCount_def list_ex_iff upt_rec)
  then have "validState initialState"
    using hangar_ok
    by (simp add: validState_def initialState_def g valid_count_def mget_def valid_pieces_iff validOptionalActor_def
        valid_phase_def valid_outcome_def pieces_of_def)
  moreover have "mok (st_captures initialState)" "mok (st_pieces initialState)"
    unfolding initialState_def snapshotState.simps by (rule m)+
  ultimately show ?thesis by (simp add: state_ok_def)
qed

lemma encode_initial: "encodeSnapshot 0 initialState = Some initialSnapshot"
  using fc_initial_ok by (simp add: encodeSnapshot_def state_ok_def initialSnapshot_def)

lemma encode_Some: "encodeSnapshot rv st = Some sn \<longleftrightarrow> 0 \<le> rv \<and> validState st \<and> sn = \<lparr>sn_revision = rv, sn_state = marshalState st\<rparr>"
  by (auto simp: encodeSnapshot_def)

lemma state_from:
  assumes "stateFromSnapshot sn = Inr (st, sn1)"
  shows "state_ok st" and "sn_revision sn1 = sn_revision sn" and "0 \<le> sn_revision sn"
  using assms fc_initial_ok decode_valid [of sn]
  by (auto simp: stateFromSnapshot_def encode_initial initialSnapshot_def split: if_splits)

lemma state_from_marshal:
  assumes "state_ok st" and "0 \<le> rv"
  shows "stateFromSnapshot \<lparr>sn_revision = rv, sn_state = marshalState st\<rparr> = Inr (st, \<lparr>sn_revision = rv, sn_state = marshalState st\<rparr>)"
  using decode_encode [OF assms] by (simp add: stateFromSnapshot_def marshalState_def)

text \<open>The player who moves next, and a state in which that player is known.\<close>

definition mover :: "snapshotState \<Rightarrow> bytes option" where
  "mover st = (if st_next st = White then st_white st else st_black st)"

definition rival :: "snapshotState \<Rightarrow> bytes option" where
  "rival st = (if st_next st = White then st_black st else st_white st)"

definition seated :: "snapshotState \<Rightarrow> bytes \<Rightarrow> snapshotState" where
  "seated st actor = (if st_next st = White then st\<lparr>st_white := Some actor\<rparr> else st\<lparr>st_black := Some actor\<rparr>)"

definition may_act :: "snapshotState \<Rightarrow> bytes \<Rightarrow> bool" where
  "may_act st actor \<longleftrightarrow> mover st = Some actor \<or> mover st = None \<and> rival st \<noteq> Some actor"

lemma bind_iff:
  "bindAndValidateActor st actor = (if may_act st actor then Inr (seated st actor) else Inl FlightNotYourTurn)"
  by (cases st) (auto simp: bindAndValidateActor_def may_act_def mover_def rival_def seated_def Let_def split: option.split)

lemma seated_sel [simp]:
  "st_captures (seated st a) = st_captures st" "st_status (seated st a) = st_status st" "st_phase (seated st a) = st_phase st"
  "st_next (seated st a) = st_next st" "st_dice (seated st a) = st_dice st" "st_pieces (seated st a) = st_pieces st"
  "st_winner (seated st a) = st_winner st" "st_result (seated st a) = st_result st" "pieces_of (seated st a) c = pieces_of st c"
  by (simp_all add: seated_def pieces_of_def)

lemma seated_ok:
  assumes "state_ok st" and "may_act st actor" and "validActorID actor" and "st_status st = ''active''"
  shows "state_ok (seated st actor)"
proof -
  have a: "validOptionalActor (Some actor)" using assms(3) by (simp add: validOptionalActor_def)
  have same: "valid_count (seated st actor) c = valid_count st c" "valid_pieces (seated st actor) c = valid_pieces st c"
    "valid_phase (seated st actor) = valid_phase st" "valid_outcome (seated st actor) = valid_outcome st" for c
    using assms(4) by (simp_all add: valid_count_def valid_pieces_def valid_phase_def valid_outcome_def)
  have v: "validOptionalActor (st_black (seated st actor)) \<and> validOptionalActor (st_white (seated st actor)) \<and>
      \<not> (st_black (seated st actor) \<noteq> None \<and> st_white (seated st actor) \<noteq> None \<and> st_black (seated st actor) = st_white (seated st actor))"
    using a assms(1,2) by (auto simp: state_ok_def validState_def seated_def may_act_def mover_def rival_def)
  with assms(1) show ?thesis
    unfolding state_ok_def validState_def same seated_sel by blast
qed

text \<open>What a roll and a move make of a state whose mover is seated.\<close>

definition rolled :: "snapshotState \<Rightarrow> int \<Rightarrow> int list \<Rightarrow> snapshotState" where
  "rolled st value movable =
     (if movable \<noteq> [] then st\<lparr>st_phase := ''awaiting_move'', st_dice := value\<rparr>
      else if value \<noteq> 6 then st\<lparr>st_next := opposite (st_next st)\<rparr> else st)"

definition moved :: "snapshotState \<Rightarrow> bytes \<Rightarrow> int \<Rightarrow> resolution \<Rightarrow> Piece list \<Rightarrow> int list \<times> snapshotState" where
  "moved st actor i r destinations =
     (let (st2, captured) = captureAt (move_piece st i r) (st_next st) destinations in
      (captured, finish_move st2 actor (length captured)))"

definition roll_event :: "snapshotState \<Rightarrow> bytes \<Rightarrow> int \<Rightarrow> int \<Rightarrow> int list \<Rightarrow> event" where
  "roll_event st actor rv value movable =
     \<lparr>ev_revision = rv, ev_type = RollAccepted, ev_actor = actor,
      ev_payload = marshalRoll \<lparr>ro_color = st_next st, ro_user = actor, ro_value = value, ro_movable = Some movable\<rparr>\<rparr>"

definition move_event :: "snapshotState \<Rightarrow> bytes \<Rightarrow> int \<Rightarrow> int \<Rightarrow> resolution \<Rightarrow> int list \<Rightarrow> event" where
  "move_event st actor rv i r captured =
     \<lparr>ev_revision = rv, ev_type = MoveAccepted, ev_actor = actor,
      ev_payload = marshalMove \<lparr>mv_color = st_next st, mv_user = actor, mv_piece = i, mv_roll = st_dice st,
        mv_from = pieces_of st (st_next st) ! nat i, mv_to = fst r, mv_effect = snd r, mv_captured = Some captured\<rparr>\<rparr>"

lemma captureAt_next: "captureAt st c d = (st2, cap) \<Longrightarrow> st_next st2 = st_next st \<and> st_dice st2 = st_dice st"
  by (auto simp: captureAt_def Let_def)

lemma roll_eq:
  "applyRollValueWithOptions sn actor value bounce five =
     (if value < 1 \<or> value > 6 \<or> \<not> validActorID actor then Inl ErrInvalidAction
      else and_then (stateFromSnapshot sn) (\<lambda>(st, sn1).
        if st_status st \<noteq> ''active'' \<or> st_phase st \<noteq> ''awaiting_roll'' then Inl FlightInvalidPhase
        else if \<not> may_act st actor then Inl FlightNotYourTurn
        else let movable = rollMovable (st_next st) (pieces_of st (st_next st)) value bounce five in
          (case encodeSnapshot (i64 (sn_revision sn1 + 1)) (rolled (seated st actor) value movable) of
             None \<Rightarrow> Inl ErrInvalidSnapshot
           | Some nxt \<Rightarrow> Inr (roll_event st actor (i64 (sn_revision sn1 + 1)) value movable, nxt))))"
proof (cases "stateFromSnapshot sn")
  case (Inr x)
  obtain st sn1 where x: "x = (st, sn1)" by (cases x)
  show ?thesis
    by (simp add: applyRollValueWithOptions_def Inr x bind_iff rolled_def roll_event_def Let_def split: option.split)
qed (simp add: applyRollValueWithOptions_def)

lemma roll_iff:
  "applyRollValueWithOptions sn actor value bounce five = Inr (e, sn') \<longleftrightarrow>
     1 \<le> value \<and> value \<le> 6 \<and> validActorID actor \<and>
     (\<exists>st sn1. stateFromSnapshot sn = Inr (st, sn1) \<and> st_status st = ''active'' \<and> st_phase st = ''awaiting_roll'' \<and>
       may_act st actor \<and>
       encodeSnapshot (i64 (sn_revision sn1 + 1)) (rolled (seated st actor) value
         (rollMovable (st_next st) (pieces_of st (st_next st)) value bounce five)) = Some sn' \<and>
       e = roll_event st actor (i64 (sn_revision sn1 + 1)) value
         (rollMovable (st_next st) (pieces_of st (st_next st)) value bounce five))"
  unfolding roll_eq by (cases "stateFromSnapshot sn") (auto simp: Let_def split: option.splits if_splits)

lemma move_eq:
  "applyMoveWithCrossing sn actor act landings crossing =
     (if act_type act \<noteq> MoveRequested \<or> \<not> validActorID actor then Inl ErrInvalidAction
      else case decodeRequestedMove (act_payload act) of
        None \<Rightarrow> Inl ErrInvalidAction
      | Some i \<Rightarrow> and_then (stateFromSnapshot sn) (\<lambda>(st, sn1).
          if st_status st \<noteq> ''active'' \<or> st_phase st \<noteq> ''awaiting_move'' then Inl FlightInvalidPhase
          else if \<not> may_act st actor then Inl FlightNotYourTurn
          else if i < 0 \<or> i \<ge> 4 then Inl FlightInvalidMove
          else case resolveMove (st_next st) (pieces_of st (st_next st) ! nat i) (st_dice st) of
            None \<Rightarrow> Inl FlightInvalidMove
          | Some r \<Rightarrow>
              let m = moved (seated st actor) actor i r (destinations_of r landings crossing) in
              (case encodeSnapshot (i64 (sn_revision sn1 + 1)) (snd m) of
                 None \<Rightarrow> Inl ErrInvalidSnapshot
               | Some nxt \<Rightarrow> Inr (move_event st actor (i64 (sn_revision sn1 + 1)) i r (fst m), nxt))))"
proof (cases "decodeRequestedMove (act_payload act)")
  case (Some i)
  note i = this
  show ?thesis
  proof (cases "stateFromSnapshot sn")
    case (Inr x)
    obtain st sn1 where x: "x = (st, sn1)" by (cases x)
    show ?thesis
    proof (cases "resolveMove (st_next st) (pieces_of st (st_next st) ! nat i) (st_dice st)")
      case None
      then show ?thesis by (simp add: applyMoveWithCrossing_def i Inr x bind_iff PieceCount_def)
    next
      case (Some r)
      obtain st2 cap where c: "captureAt (move_piece (seated st actor) i r) (st_next st) (destinations_of r landings crossing) = (st2, cap)"
        by (cases "captureAt (move_piece (seated st actor) i r) (st_next st) (destinations_of r landings crossing)")
      have m: "moved (seated st actor) actor i r (destinations_of r landings crossing) = (cap, finish_move st2 actor (length cap))"
        by (simp add: moved_def c)
      show ?thesis
        by (simp add: applyMoveWithCrossing_def i Inr x bind_iff PieceCount_def Some c m move_event_def Let_def split: option.split)
    qed
  qed (simp add: applyMoveWithCrossing_def i)
qed (simp add: applyMoveWithCrossing_def)

lemma move_iff:
  "applyMoveWithCrossing sn actor act landings crossing = Inr (e, sn') \<longleftrightarrow>
     act_type act = MoveRequested \<and> validActorID actor \<and>
     (\<exists>i st sn1 r. decodeRequestedMove (act_payload act) = Some i \<and> stateFromSnapshot sn = Inr (st, sn1) \<and>
       st_status st = ''active'' \<and> st_phase st = ''awaiting_move'' \<and> may_act st actor \<and> 0 \<le> i \<and> i < 4 \<and>
       resolveMove (st_next st) (pieces_of st (st_next st) ! nat i) (st_dice st) = Some r \<and>
       encodeSnapshot (i64 (sn_revision sn1 + 1))
         (snd (moved (seated st actor) actor i r (destinations_of r landings crossing))) = Some sn' \<and>
       e = move_event st actor (i64 (sn_revision sn1 + 1)) i r
         (fst (moved (seated st actor) actor i r (destinations_of r landings crossing))))"
  unfolding move_eq
  by (cases "decodeRequestedMove (act_payload act)"; cases "stateFromSnapshot sn")
    (auto simp: Let_def split: option.splits if_splits prod.splits)

lemma movable_subset: "set (rollMovable c ps v bounce five) \<subseteq> set (movablePieces c ps v)"
  "rollMovable c ps v True True = movablePieces c ps v"
  by (auto simp: rollMovable_def Let_def)

lemma rolled_ok:
  assumes "state_ok st" and "st_status st = ''active''" and "st_phase st = ''awaiting_roll''" and "1 \<le> value" "value \<le> 6"
    and "set movable \<subseteq> set (movablePieces (st_next st) (pieces_of st (st_next st)) value)"
  shows "state_ok (rolled st value movable)"
proof -
  have "movable \<noteq> [] \<Longrightarrow> movablePieces (st_next st) (pieces_of st (st_next st)) value \<noteq> []" using assms(6) by auto
  then show ?thesis
    using assms(1-5) unfolding state_ok_def validState_def rolled_def
    by (simp add: valid_count_def valid_pieces_def valid_phase_def valid_outcome_def pieces_of_def)
      (auto simp: opposite_def)
qed

lemma pieces_of_put:
  "mok (st_pieces st) \<Longrightarrow>
    pieces_of (st\<lparr>st_pieces := mput c ps (st_pieces st)\<rparr>) c' = (if c' = c then ps else pieces_of st c')"
  by (simp add: pieces_of_def mget_mput)

text \<open>The pieces that a move leaves, and the indices it captures.\<close>

definition hits :: "Piece list \<Rightarrow> Piece list \<Rightarrow> int list" where
  "hits destinations ps = map int (filter (\<lambda>j. hit_by destinations (ps ! j)) [0..<length ps])"

definition after_hits :: "Piece list \<Rightarrow> Piece list \<Rightarrow> Piece list" where
  "after_hits destinations ps =
     map (\<lambda>j. if hit_by destinations (ps ! j) then \<lparr>Zone = ''hangar'', Index = int j\<rparr> else ps ! j) [0..<length ps]"

lemma captureAt_eq:
  "captureAt st color d =
     (st\<lparr>st_pieces := mput (opposite color) (after_hits d (pieces_of st (opposite color))) (st_pieces st)\<rparr>,
      hits d (pieces_of st (opposite color)))"
proof -
  have i: "indexed ps = map (\<lambda>j. (int j, ps ! j)) [0..<length ps]" for ps :: "Piece list"
    by (rule nth_equalityI) (simp_all add: indexed_def)
  show ?thesis
    unfolding captureAt_def Let_def hits_def after_hits_def i by (simp add: filter_map comp_def)
qed

lemma opposite_simps [simp]: "opposite (opposite c) = c \<longleftrightarrow> c \<in> {Black, White}" "opposite c \<noteq> c" "c \<noteq> opposite c"
  "opposite c \<in> {Black, White}"
  by (auto simp: opposite_def)

lemma hits_length: "length (hits d ps) \<le> length ps"
  using length_filter_le [of "\<lambda>j. hit_by d (ps ! j)" "[0..<length ps]"] by (simp add: hits_def)

lemma hits_range: "j \<in> set (hits d ps) \<Longrightarrow> 0 \<le> j \<and> j < int (length ps)" "distinct (hits d ps)"
  by (auto simp: hits_def distinct_map inj_on_def)

lemma hits_after: "hits d ps = hits d' ps \<Longrightarrow> after_hits d ps = after_hits d' ps"
proof -
  assume "hits d ps = hits d' ps"
  then have "filter (\<lambda>j. hit_by d (ps ! j)) [0..<length ps] = filter (\<lambda>j. hit_by d' (ps ! j)) [0..<length ps]"
    unfolding hits_def by (rule map_injective) (auto intro: injI)
  then have "{j \<in> set [0..<length ps]. hit_by d (ps ! j)} = {j \<in> set [0..<length ps]. hit_by d' (ps ! j)}"
    by (metis set_filter)
  then have "hit_by d (ps ! j) = hit_by d' (ps ! j)" if "j < length ps" for j using that by auto
  then show ?thesis by (simp add: after_hits_def)
qed

lemma after_hits_ok: "pieces_ok c ps \<Longrightarrow> pieces_ok c (after_hits d ps)"
  using piece_ok_simple(4) by (auto simp: pieces_ok_def after_hits_def)

lemma after_hits_unfinished: "\<not> allFinished ps \<Longrightarrow> length ps = 4 \<Longrightarrow> \<not> allFinished (after_hits d ps)"
  by (auto simp: allFinished_def after_hits_def PieceCount_def list_all_length)

text \<open>The result of a move, field by field.\<close>

definition own_after :: "snapshotState \<Rightarrow> int \<Rightarrow> resolution \<Rightarrow> Piece list" where
  "own_after st i r = (pieces_of st (st_next st))[nat i := fst r]"

lemma moved_eq:
  assumes "mok (st_pieces st)"
  shows "moved st actor i r d =
    (let opp = opposite (st_next st); cap = hits d (pieces_of st opp) in
     (cap, st\<lparr>st_pieces := mput opp (after_hits d (pieces_of st opp)) (mput (st_next st) (own_after st i r) (st_pieces st)),
        st_captures := mput (st_next st) (valueOr 0 (mget (st_captures st) (st_next st)) + int (length cap)) (st_captures st),
        st_dice := 0, st_phase := ''awaiting_roll'',
        st_status := if allFinished (own_after st i r) then ''finished'' else st_status st,
        st_winner := if allFinished (own_after st i r) then Some actor else st_winner st,
        st_result := if allFinished (own_after st i r) then Some ''goal'' else st_result st,
        st_next := if \<not> allFinished (own_after st i r) \<and> st_dice st \<noteq> 6 then opp else st_next st\<rparr>))"
  using assms
  by (cases st) (simp add: moved_def captureAt_eq move_piece_def finish_move_def own_after_def Let_def pieces_of_def mget_mput mok_mput)

lemma moved_pieces:
  assumes "mok (st_pieces st)" and "moved st actor i r d = (cap, nst)"
  shows "pieces_of nst c = (if c = opposite (st_next st) then after_hits d (pieces_of st c)
      else if c = st_next st then own_after st i r else pieces_of st c)"
    and "mok (st_pieces nst)" and "cap = hits d (pieces_of st (opposite (st_next st)))"
  using assms(2) unfolding moved_eq [OF assms(1)] Let_def
  by (auto simp: pieces_of_def mget_mput mok_mput assms(1))

lemma own_ok:
  assumes "pieces_ok c ps" and "c \<in> {Black, White}" and "0 \<le> i" and "i < 4" and "1 \<le> dice" "dice \<le> 6"
    and "resolveMove c (ps ! nat i) dice = Some r"
  shows "pieces_ok c (ps[nat i := fst r])"
proof -
  have p: "piece_ok c (ps ! nat i) (int (nat i))" using assms(1,4) by (auto simp: pieces_ok_def simp del: int_nat_eq)
  have "piece_ok c (fst r) (int (nat i))" using resolveMove_course [OF p assms(2,5,6)] assms(7) by simp
  then show ?thesis using assms(1,4) by (auto simp: pieces_ok_def nth_list_update)
qed

lemma fc_moved_ok:
  assumes ok: "state_ok st" and a: "st_status st = ''active''" and ph: "st_phase st = ''awaiting_move''"
    and i: "0 \<le> i" "i < 4" and r: "resolveMove (st_next st) (pieces_of st (st_next st) ! nat i) (st_dice st) = Some r"
    and m: "mover st = Some actor" and mv: "moved st actor i r d = (cap, nst)"
  shows "validState nst \<longleftrightarrow> valueOr 0 (mget (st_captures st) (st_next st)) + int (length cap) \<le> 2048"
    and "mok (st_captures nst)" and "mok (st_pieces nst)"
proof -
  from ok obtain x y pb pw where s: "st_captures st = [(Black, x), (White, y)]" "0 \<le> x" "x \<le> 2048" "0 \<le> y" "y \<le> 2048"
    "st_pieces st = [(Black, pb), (White, pw)]" "pieces_ok Black pb" "pieces_ok White pw"
    "pieces_of st Black = pb" "pieces_of st White = pw" by (rule state_ok_obtain)
  have v: "validState st" and mk: "mok (st_captures st)" "mok (st_pieces st)" using ok by (simp_all add: state_ok_def)
  have nx: "st_next st \<in> {Black, White}" using winner_cases(5) [OF v] .
  have dice: "1 \<le> st_dice st" "st_dice st \<le> 6" using v ph by (auto simp: validState_def valid_phase_def)
  have fin: "\<not> allFinished pb" "\<not> allFinished pw" "st_winner st = None" "st_result st = None"
    using v a s by (simp_all add: validState_def valid_outcome_def)
  have len: "length pb = 4" "length pw = 4" using s by (simp_all add: pieces_ok_def)
  have own: "pieces_ok (st_next st) (own_after st i r)"
    unfolding own_after_def by (rule own_ok [OF _ nx i dice r]) (use nx s in auto)
  note mp = moved_pieces [OF mk(2) mv]
  note me = mv [unfolded moved_eq [OF mk(2)] Let_def]
  have caps: "st_captures nst = mput (st_next st) (valueOr 0 (mget (st_captures st) (st_next st)) + int (length cap)) (st_captures st)"
    using me by auto
  show "mok (st_captures nst)" unfolding caps by (rule mok_mput [OF mk(1)])
  show "mok (st_pieces nst)" by (rule mp(2))
  have l: "length (st_captures nst) = 2"
    unfolding caps using nx s(1) by (auto dest: order.asym [of Black White])
  have pcs: "st_pieces nst = mput (opposite (st_next st)) (after_hits d (pieces_of st (opposite (st_next st))))
      (mput (st_next st) (own_after st i r) (st_pieces st))" using me by auto
  have l2: "length (st_pieces nst) = 2"
    unfolding pcs using nx s(6) by (auto dest: order.asym [of Black White])
  have counts: "valid_count nst Black \<and> valid_count nst White \<longleftrightarrow> valueOr 0 (mget (st_captures st) (st_next st)) + int (length cap) \<le> 2048"
    unfolding valid_count_def caps mget_mput [OF mk(1)] using nx s(1-5) by (auto simp: mget_def)
  have vp: "valid_pieces nst Black" "valid_pieces nst White"
    unfolding valid_pieces_iff pcs using nx own after_hits_ok [OF s(7), of d] after_hits_ok [OF s(8), of d] s(9,10)
    by (auto simp: mget_mput mk mok_mput)
  have po: "pieces_of nst Black = (if st_next st = Black then own_after st i r else after_hits d pb)"
    "pieces_of nst White = (if st_next st = White then own_after st i r else after_hits d pw)"
    using mp(1) nx s(9,10) by (auto simp: opposite_def)
  have sel: "st_black nst = st_black st" "st_white nst = st_white st" "st_phase nst = ''awaiting_roll''" "st_dice nst = 0"
    "st_next nst = (if \<not> allFinished (own_after st i r) \<and> st_dice st \<noteq> 6 then opposite (st_next st) else st_next st)"
    "st_status nst = (if allFinished (own_after st i r) then ''finished'' else ''active'')"
    "st_winner nst = (if allFinished (own_after st i r) then Some actor else None)"
    "st_result nst = (if allFinished (own_after st i r) then Some ''goal'' else None)"
    using me a fin by auto
  have snx: "st_next nst \<in> {Black, White}" using nx opposite_simps(4) [of "st_next st"] by (simp add: sel(5))
  have out: "valid_outcome nst"
    using m nx after_hits_unfinished [OF fin(1) len(1), of d] after_hits_unfinished [OF fin(2) len(2), of d]
    by (auto simp: valid_outcome_def sel po mover_def valueOrEmpty_def)
  have ph: "valid_phase nst" by (simp add: valid_phase_def sel)
  have act: "validOptionalActor (st_black nst)" "validOptionalActor (st_white nst)"
    "\<not> (st_black nst \<noteq> None \<and> st_white nst \<noteq> None \<and> st_black nst = st_white nst)"
    unfolding sel using v unfolding validState_def by blast+
  show "validState nst \<longleftrightarrow> valueOr 0 (mget (st_captures st) (st_next st)) + int (length cap) \<le> 2048"
    unfolding validState_def using l l2 counts vp out ph act snx by blast
qed

lemma seated_mover [simp]: "mover (seated st actor) = Some actor"
  by (simp add: mover_def seated_def)

subsection \<open>Payloads\<close>

definition roll_ok :: "acceptedRoll \<Rightarrow> bool" where
  "roll_ok r \<longleftrightarrow> ro_color r \<in> {Black, White} \<and> validActorID (ro_user r) \<and> 1 \<le> ro_value r \<and> ro_value r \<le> 6 \<and>
     validIndices (valueOr [] (ro_movable r))"

definition move_ok :: "acceptedMove \<Rightarrow> bool" where
  "move_ok m \<longleftrightarrow> mv_color m \<in> {Black, White} \<and> validActorID (mv_user m) \<and> 0 \<le> mv_piece m \<and> mv_piece m < 4 \<and>
     1 \<le> mv_roll m \<and> mv_roll m \<le> 6 \<and> validPiece (mv_from m) (mv_piece m) \<and> validPiece (mv_to m) (mv_piece m) \<and>
     mv_effect m \<in> {''none'', ''jump'', ''shortcut'', ''jump_shortcut''} \<and> validIndices (valueOr [] (mv_captured m))"

lemma indices_codec:
  assumes "validIndices (valueOr [] xs)"
  shows "dec_nslice dec_int 0 (nslice_json jint xs) cur = Some xs" and "wf_json (nslice_json jint xs)"
    and "length (render (nslice_json jint xs)) \<le> 20"
proof -
  have r: "0 \<le> x \<and> x < 4" if "x \<in> set (valueOr [] xs)" for x
    using assms that by (auto simp: validIndices_def list_all_iff PieceCount_def)
  show "dec_nslice dec_int 0 (nslice_json jint xs) cur = Some xs"
    by (rule dec_nslice_json) (use r in \<open>force intro!: dec_int_jint is_i64_small\<close>)
  show "wf_json (nslice_json jint xs)" by (rule wf_nslice) simp
  have "set (valueOr [] xs) \<subseteq> {0..<4}" using r by auto
  then have "card (set (valueOr [] xs)) \<le> 4" using card_mono [of "{0..<4::int}"] by fastforce
  then have n: "length (valueOr [] xs) \<le> 4" using assms by (simp add: validIndices_def distinct_card)
  have "length (render (jint x)) \<le> 1" if "x \<in> set (valueOr [] xs)" for x
    using r [OF that] length_show_int_pos [of x 1] by (simp add: jint_def)
  then have "length (render_elems (map jint (valueOr [] xs))) \<le> (1 + 1) * length (map jint (valueOr [] xs))"
    by (intro length_render_elems) simp
  then show "length (render (nslice_json jint xs)) \<le> 20"
    using n by (cases xs) (simp_all add: nslice_json_def jptr_def)
qed

lemma color_string: "c \<in> {Black, White} \<Longrightarrow> utf8_valid c \<and> length c = 5"
  by (auto simp: Black_def White_def utf8_valid_ascii)

lemma actor_string: "validActorID a \<Longrightarrow> utf8_valid a \<and> length (render (JStr a)) \<le> 770"
  using length_render_actor validActorID_utf8 by blast

lemma roll_members_facts:
  assumes "roll_ok r"
  shows "\<forall>kv\<in>set (roll_members r). utf8_valid (fst kv) \<and> wf_json (snd kv)" "map fst (roll_members r) = roll_names"
    and "length (marshalRoll r) \<le> 8192"
proof -
  note i = indices_codec [of "ro_movable r"]
  have v: "ro_color r \<in> {Black, White}" "validActorID (ro_user r)" "validIndices (valueOr [] (ro_movable r))"
    "0 \<le> ro_value r" "ro_value r < 10" using assms by (auto simp: roll_ok_def)
  show "\<forall>kv\<in>set (roll_members r). utf8_valid (fst kv) \<and> wf_json (snd kv)"
    using i(2) [OF v(3)] color_string [OF v(1)] actor_string [OF v(2)] by (auto simp: roll_members_def utf8_valid_ascii)
  show "map fst (roll_members r) = roll_names" by (simp add: roll_members_def roll_names_def)
  have "length (render (JStr (ro_color r))) \<le> 40" using length_render_jstr [of "ro_color r"] color_string [OF v(1)] by simp
  moreover have "length (render (jint (ro_value r))) \<le> 1" using length_show_int_pos [of "ro_value r" 1] v by (simp add: jint_def)
  moreover note i(3) [OF v(3)] actor_string [OF v(2)]
  ultimately show "length (marshalRoll r) \<le> 8192"
    using length_render_obj_le [of "roll_members r"] by (simp add: marshalRoll_def roll_members_def del: render.simps)
qed

lemma roll_names_distinct: "distinct roll_names" "distinct move_names" by (simp_all add: roll_names_def move_names_def)

lemma roll_field:
  "map_of (roll_members r) n = Some j \<Longrightarrow> dec_field roll_names (roll_members r) n d z = d j z"
  by (rule dec_field_exact) (simp_all add: roll_members_def roll_names_def)

lemma dec_roll_marshal: "roll_ok r \<Longrightarrow> dec_roll (marshalRoll r) = Some r"
proof -
  assume r: "roll_ok r"
  then have wf: "wf_json (JObj (roll_members r))" using roll_members_facts(1) by simp
  have m: "map_of (roll_members r) ''color'' = Some (JStr (ro_color r))" "map_of (roll_members r) ''userId'' = Some (JStr (ro_user r))"
    "map_of (roll_members r) ''value'' = Some (jint (ro_value r))"
    "map_of (roll_members r) ''movablePieceIndices'' = Some (nslice_json jint (ro_movable r))"
    by (simp_all add: roll_members_def)
  have "is_i64 (ro_value r)" "validIndices (valueOr [] (ro_movable r))" using r by (auto simp: roll_ok_def intro: is_i64_small)
  then show ?thesis
    unfolding dec_roll_def marshalRoll_def json_parse_render [OF wf]
    by (simp add: roll_field m dec_int_jint indices_codec)
qed

lemma strictObject_roll:
  assumes "roll_ok r" and "set roll_names \<subseteq> set allowed"
  shows "strictObject (marshalRoll r) allowed = Some (raw_members (roll_members r))"
proof -
  note f = roll_members_facts [OF assms(1)]
  have "strict_object allowed (marshalRoll r) = Some (raw_members (roll_members r))"
    unfolding marshalRoll_def using f(1) assms(2) by (intro strict_object_render) (simp_all add: f(2) roll_names_distinct)
  moreover have "utf8_valid (marshalRoll r)" unfolding marshalRoll_def using f(1) by (rule utf8_valid_render_obj)
  moreover have "marshalRoll r \<noteq> []" by (simp add: marshalRoll_def)
  ultimately show ?thesis using f(3) by (simp add: strictObject_def)
qed

lemma decodeAcceptedRoll_marshal: "roll_ok r \<Longrightarrow> decodeAcceptedRoll (marshalRoll r) = Some r"
proof -
  assume r: "roll_ok r"
  have "length (roll_members r) = length roll_names" by (simp add: roll_members_def roll_names_def)
  then show ?thesis
    using r strictObject_roll [OF r subset_refl] dec_roll_marshal [OF r]
    by (auto simp: decodeAcceptedRoll_def length_raw_members roll_ok_def)
qed

lemma Normalize_marshal: "roll_ok r \<Longrightarrow> NormalizeLegacyRollPayload (marshalRoll r) = Some (marshalRoll r)"
proof -
  assume r: "roll_ok r"
  have sub: "set roll_names \<subseteq> set (roll_names @ [''penalizedPieceIndices''])" by auto
  have "map_of (raw_members (roll_members r)) ''penalizedPieceIndices'' = None"
    by (simp add: map_of_raw_members roll_members_def)
  then show ?thesis
    using strictObject_roll [OF r sub] by (simp add: NormalizeLegacyRollPayload_def)
qed

lemma decodeAcceptedRoll_ok: "decodeAcceptedRoll p = Some r \<Longrightarrow> roll_ok r"
  by (auto simp: decodeAcceptedRoll_def roll_ok_def split: bind_splits if_splits)

lemma move_members_facts:
  assumes "move_ok m"
  shows "\<forall>kv\<in>set (move_members m). utf8_valid (fst kv) \<and> wf_json (snd kv)" "map fst (move_members m) = move_names"
    and "length (marshalMove m) \<le> 8192" "is_i64 (Index (mv_from m))" "is_i64 (Index (mv_to m))"
proof -
  note i = indices_codec [of "mv_captured m"]
  have v: "mv_color m \<in> {Black, White}" "validActorID (mv_user m)" "validIndices (valueOr [] (mv_captured m))"
    "0 \<le> mv_piece m" "mv_piece m < 10" "0 \<le> mv_roll m" "mv_roll m < 10" using assms by (auto simp: move_ok_def)
  have e: "utf8_valid (mv_effect m)" "length (mv_effect m) \<le> 13" using assms by (auto simp: move_ok_def utf8_valid_ascii)
  have p: "Zone p \<in> set zones" "0 \<le> Index p" "Index p < 100" if "validPiece p (mv_piece m)" for p
    using that v by (auto simp: validPiece_def zones_def MainCellCount_def HomeCellCount_def split: if_splits)
  have f: "validPiece (mv_from m) (mv_piece m)" "validPiece (mv_to m) (mv_piece m)" using assms by (simp_all add: move_ok_def)
  show "is_i64 (Index (mv_from m))" "is_i64 (Index (mv_to m))" using p [OF f(1)] p [OF f(2)] by (auto intro: is_i64_small)
  have pj: "wf_json (piece_json p)" "length (render (piece_json p)) \<le> 130" if q: "validPiece p (mv_piece m)" for p
  proof -
    show "wf_json (piece_json p)" using zone_utf8(1) [OF p(1) [OF q]] by (simp add: piece_json_def piece_members_def utf8_valid_ascii)
    have "length (render (JStr (Zone p))) \<le> 50" using length_render_jstr [of "Zone p"] zone_utf8(2) [OF p(1) [OF q]] by simp
    moreover have "length (render (jint (Index p))) \<le> 2" using length_show_int_pos [of "Index p" 2] p [OF q] by (simp add: jint_def)
    ultimately show "length (render (piece_json p)) \<le> 130"
      using length_render_obj_le [of "piece_members p"] by (simp add: piece_json_def piece_members_def del: render.simps)
  qed
  show "\<forall>kv\<in>set (move_members m). utf8_valid (fst kv) \<and> wf_json (snd kv)"
    using i(2) [OF v(3)] color_string [OF v(1)] actor_string [OF v(2)] pj(1) [OF f(1)] pj(1) [OF f(2)] e
    by (auto simp: move_members_def utf8_valid_ascii)
  show "map fst (move_members m) = move_names" by (simp add: move_members_def move_names_def)
  have "length (render (JStr (mv_color m))) \<le> 40" using length_render_jstr [of "mv_color m"] color_string [OF v(1)] by simp
  moreover have "length (render (JStr (mv_effect m))) \<le> 80" using length_render_jstr [of "mv_effect m"] e by simp
  moreover have "length (render (jint (mv_piece m))) \<le> 1" "length (render (jint (mv_roll m))) \<le> 1"
    using length_show_int_pos [of "mv_piece m" 1] length_show_int_pos [of "mv_roll m" 1] v by (simp_all add: jint_def)
  moreover note i(3) [OF v(3)] actor_string [OF v(2)] pj(2) [OF f(1)] pj(2) [OF f(2)]
  ultimately show "length (marshalMove m) \<le> 8192"
    using length_render_obj_le [of "move_members m"] by (simp add: marshalMove_def move_members_def del: render.simps)
qed

lemma move_field:
  "map_of (move_members m) n = Some j \<Longrightarrow> dec_field move_names (move_members m) n d z = d j z"
  by (rule dec_field_exact) (simp_all add: move_members_def move_names_def)

lemma decodeAcceptedMove_marshal: "move_ok m \<Longrightarrow> decodeAcceptedMove (marshalMove m) = Some m"
proof -
  assume r: "move_ok m"
  note f = move_members_facts [OF r]
  have wf: "wf_json (JObj (move_members m))" using f(1) by simp
  have so: "strict_object move_names (marshalMove m) = Some (raw_members (move_members m))"
    unfolding marshalMove_def using f(1) by (intro strict_object_render) (simp_all add: f(2) roll_names_distinct)
  have "utf8_valid (marshalMove m)" unfolding marshalMove_def using f(1) by (rule utf8_valid_render_obj)
  moreover have "marshalMove m \<noteq> []" by (simp add: marshalMove_def)
  ultimately have so: "strictObject (marshalMove m) move_names = Some (raw_members (move_members m))"
    using f(3) so by (simp add: strictObject_def)
  have mo: "map_of (move_members m) ''color'' = Some (JStr (mv_color m))" "map_of (move_members m) ''userId'' = Some (JStr (mv_user m))"
    "map_of (move_members m) ''pieceIndex'' = Some (jint (mv_piece m))" "map_of (move_members m) ''roll'' = Some (jint (mv_roll m))"
    "map_of (move_members m) ''from'' = Some (piece_json (mv_from m))" "map_of (move_members m) ''to'' = Some (piece_json (mv_to m))"
    "map_of (move_members m) ''effect'' = Some (JStr (mv_effect m))"
    "map_of (move_members m) ''capturedPieceIndices'' = Some (nslice_json jint (mv_captured m))"
    by (simp_all add: move_members_def)
  have l: "length (move_members m) = length move_names" by (simp add: move_members_def move_names_def)
  have p: "json_parse (marshalMove m) = Some (JObj (move_members m))"
    unfolding marshalMove_def by (rule json_parse_render [OF wf])
  have i: "is_i64 (mv_piece m)" "is_i64 (mv_roll m)" "validIndices (valueOr [] (mv_captured m))"
    using r by (auto simp: move_ok_def intro: is_i64_small)
  have c: "\<not> (mv_color m \<noteq> Black \<and> mv_color m \<noteq> White \<or> \<not> validActorID (mv_user m) \<or> mv_piece m < 0 \<or> mv_piece m \<ge> PieceCount \<or>
      mv_roll m < 1 \<or> mv_roll m > 6 \<or> \<not> validPiece (mv_from m) (mv_piece m) \<or> \<not> validPiece (mv_to m) (mv_piece m) \<or>
      mv_effect m \<noteq> ''none'' \<and> mv_effect m \<noteq> ''jump'' \<and> mv_effect m \<noteq> ''shortcut'' \<and> mv_effect m \<noteq> ''jump_shortcut'' \<or>
      \<not> validIndices (valueOr [] (mv_captured m)))"
    using r unfolding move_ok_def PieceCount_def by auto
  have "\<lparr>mv_color = mv_color m, mv_user = mv_user m, mv_piece = mv_piece m, mv_roll = mv_roll m, mv_from = mv_from m,
     mv_to = mv_to m, mv_effect = mv_effect m, mv_captured = mv_captured m\<rparr> = m" by simp
  with c show ?thesis
    unfolding decodeAcceptedMove_def so p
    by (simp only: Option.bind.bind_lunit obj_fields.simps length_raw_members l simp_thms if_True if_False refl
        move_field [OF mo(1)] move_field [OF mo(2)] move_field [OF mo(3)] move_field [OF mo(4)] move_field [OF mo(5)]
        move_field [OF mo(6)] move_field [OF mo(7)] move_field [OF mo(8)] dec_string.simps dec_int_jint [OF i(1)]
        dec_int_jint [OF i(2)] indices_codec(1) [OF i(3)] dec_piece_json [OF f(4)] dec_piece_json [OF f(5)])
qed

lemma decodeAcceptedMove_ok: "decodeAcceptedMove p = Some m \<Longrightarrow> move_ok m"
  unfolding decodeAcceptedMove_def move_ok_def PieceCount_def
  by (auto split: bind_splits if_splits)

lemma decodeRequested_payload: "0 \<le> i \<Longrightarrow> i < 4 \<Longrightarrow> decodeRequestedMove (requestedMovePayload i) = Some i"
proof -
  assume i: "0 \<le> i" "i < 4"
  let ?kvs = "[(''pieceIndex'', jint i)]"
  have wf: "\<forall>kv\<in>set ?kvs. utf8_valid (fst kv) \<and> wf_json (snd kv)" by (simp add: utf8_valid_ascii)
  have "length (render (jint i)) \<le> 1" using length_show_int_pos [of i 1] i by (simp add: jint_def)
  then have "length (requestedMovePayload i) \<le> 8192"
    using length_render_obj_le [of ?kvs] by (simp add: requestedMovePayload_def del: render.simps)
  moreover have "strict_object [''pieceIndex''] (requestedMovePayload i) = Some (raw_members ?kvs)"
    unfolding requestedMovePayload_def using wf by (intro strict_object_render) simp_all
  moreover have "utf8_valid (requestedMovePayload i)" unfolding requestedMovePayload_def using wf by (rule utf8_valid_render_obj)
  moreover have "requestedMovePayload i \<noteq> []" by (simp add: requestedMovePayload_def)
  ultimately have so: "strictObject (requestedMovePayload i) [''pieceIndex''] = Some [(''pieceIndex'', show_int i)]"
    by (simp add: strictObject_def raw_members_def jint_def)
  have "is_i64 i" using i by (simp add: is_i64_small)
  then show ?thesis
    using i by (simp add: decodeRequestedMove_def so unmarshal_int plain_integer_show PieceCount_def)
qed

lemma decodeRequested_range: "decodeRequestedMove p = Some i \<Longrightarrow> 0 \<le> i \<and> i < 4"
  by (auto simp: decodeRequestedMove_def PieceCount_def split: bind_splits if_splits)

subsection \<open>Logs\<close>

text \<open>
  The rules a persisted event may have been produced by: the current ones, and the older ones, without
  bounces or launches on a five, with captures on landing cells or on the last cell only.
\<close>

definition roll_rules :: "(bool \<times> bool) list" where
  "roll_rules = [(True, True), (True, False), (False, True), (False, False)]"

definition move_rules :: "(bool \<times> bool) list" where
  "move_rules = [(True, True), (True, False), (False, False)]"

definition roll_accepts :: "snapshot \<Rightarrow> event \<Rightarrow> snapshot \<Rightarrow> bool" where
  "roll_accepts sn e sn' \<longleftrightarrow> ev_type e = RollAccepted \<and>
     (\<exists>payload value bounce five. NormalizeLegacyRollPayload (ev_payload e) = Some payload \<and>
       (bounce, five) \<in> set roll_rules \<and>
       applyRollValueWithOptions sn (ev_actor e) value bounce five = Inr (e\<lparr>ev_payload := payload\<rparr>, sn'))"

definition move_accepts :: "snapshot \<Rightarrow> event \<Rightarrow> snapshot \<Rightarrow> bool" where
  "move_accepts sn e sn' \<longleftrightarrow> ev_type e = MoveAccepted \<and>
     (\<exists>act r landings crossing. Apply sn (ev_actor e) act = Inr r \<and> (landings, crossing) \<in> set move_rules \<and>
       applyMoveWithCrossing sn (ev_actor e) act landings crossing = Inr (e, sn'))"

definition accepts :: "snapshot \<Rightarrow> event \<Rightarrow> snapshot \<Rightarrow> bool" where
  "accepts sn e sn' \<longleftrightarrow> roll_accepts sn e sn' \<or> move_accepts sn e sn'"

lemma replay_found:
  "Inr (e, s) \<in> set attempts \<Longrightarrow> ev_payload e = p \<Longrightarrow>
    \<exists>e' s'. replay p attempts r = Inr (e', s') \<and> ev_payload e' = p \<and> Inr (e', s') \<in> set attempts"
proof (induction attempts arbitrary: r)
  case (Cons a as)
  show ?case
  proof (cases a)
    case (Inl err)
    with Cons show ?thesis by auto
  next
    case (Inr x)
    obtain e1 s1 where x: "x = (e1, s1)" by (cases x)
    show ?thesis
    proof (cases "ev_payload e1 = p")
      case True
      with Inr x show ?thesis by simp
    next
      case False
      then have "Inr (e, s) \<in> set as" using Cons.prems Inr x by auto
      from Cons.IH [OF this Cons.prems(2), of a] False Inr x show ?thesis by auto
    qed
  qed
qed simp

lemma replay_in: "replay p attempts r = x \<Longrightarrow> x \<in> insert r (set attempts)"
  by (induction attempts arbitrary: r) (auto split: sum.splits if_splits)

lemma movable_range:
  assumes "length ps = 4"
  shows "validIndices (movablePieces c ps v)"
proof -
  have "movablePieces c ps v = map int (filter (\<lambda>i. resolveMove c (ps ! i) v \<noteq> None) [0..<length ps])"
    unfolding movablePieces_def by (rule indexed_filter)
  then show ?thesis using assms by (auto simp: validIndices_def list_all_iff PieceCount_def distinct_map inj_on_def)
qed

lemma rollMovable_range: "length ps = 4 \<Longrightarrow> validIndices (rollMovable c ps v bounce five)"
  using movable_range [of ps c v] by (auto simp: rollMovable_def Let_def validIndices_def list_all_iff)

lemma state_next_pieces:
  assumes "state_ok st"
  shows "st_next st \<in> {Black, White}" "c \<in> {Black, White} \<Longrightarrow> pieces_ok c (pieces_of st c)"
  using assms winner_cases(5) [of st] state_ok_obtain [OF assms] by (auto simp: state_ok_def)

lemma roll_event_ok:
  assumes "state_ok st" and "validActorID actor" and "1 \<le> value" "value \<le> 6"
  shows "roll_ok \<lparr>ro_color = st_next st, ro_user = actor, ro_value = value,
    ro_movable = Some (rollMovable (st_next st) (pieces_of st (st_next st)) value bounce five)\<rparr>"
  using assms state_next_pieces [OF assms(1)] by (auto simp: roll_ok_def pieces_ok_def intro!: rollMovable_range)

lemma marshalRoll_inject: "roll_ok r \<Longrightarrow> roll_ok s \<Longrightarrow> marshalRoll r = marshalRoll s \<Longrightarrow> r = s"
  by (metis decodeAcceptedRoll_marshal option.inject)

lemma marshalMove_inject: "move_ok r \<Longrightarrow> move_ok s \<Longrightarrow> marshalMove r = marshalMove s \<Longrightarrow> r = s"
  by (metis decodeAcceptedMove_marshal option.inject)

lemma roll_succeeds:
  assumes "applyRollValueWithOptions sn actor value bounce five = Inr (e, sn')"
  shows "\<exists>e2 s2. applyRollValueWithOptions sn actor value bounce2 five2 = Inr (e2, s2) \<and>
    ev_revision e2 = ev_revision e \<and> ev_type e2 = RollAccepted \<and> ev_actor e2 = actor \<and>
    (ev_payload e2 = ev_payload e \<longrightarrow> s2 = sn')"
    and "\<exists>r. roll_ok r \<and> ev_payload e = marshalRoll r \<and> ro_user r = actor \<and> ro_value r = value"
    and "ev_type e = RollAccepted" "ev_actor e = actor" "ev_revision e = i64 (sn_revision sn + 1)" "validActorID actor"
    "sn_revision sn' = ev_revision e"
proof -
  from assms [unfolded roll_iff] obtain st sn1 where v: "1 \<le> value" "value \<le> 6" "validActorID actor"
    and st: "stateFromSnapshot sn = Inr (st, sn1)" "st_status st = ''active''" "st_phase st = ''awaiting_roll''" "may_act st actor"
    and enc: "encodeSnapshot (i64 (sn_revision sn1 + 1)) (rolled (seated st actor) value
         (rollMovable (st_next st) (pieces_of st (st_next st)) value bounce five)) = Some sn'"
    and e: "e = roll_event st actor (i64 (sn_revision sn1 + 1)) value
         (rollMovable (st_next st) (pieces_of st (st_next st)) value bounce five)" by blast
  note ok = state_from(1) [OF st(1)]
  have ok1: "state_ok (seated st actor)" by (rule seated_ok [OF ok st(4) v(3) st(2)])
  let ?m = "\<lambda>bounce five. rollMovable (st_next st) (pieces_of st (st_next st)) value bounce five"
  have "state_ok (rolled (seated st actor) value (?m bounce2 five2))"
    using movable_subset(1) st by (intro rolled_ok [OF ok1 _ _ v(1,2)]) simp_all
  then have enc2: "encodeSnapshot (i64 (sn_revision sn1 + 1)) (rolled (seated st actor) value (?m bounce2 five2)) =
      Some \<lparr>sn_revision = i64 (sn_revision sn1 + 1), sn_state = marshalState (rolled (seated st actor) value (?m bounce2 five2))\<rparr>"
    using enc by (simp add: encode_Some state_ok_def)
  note re = roll_event_ok [OF ok v(3) v(1,2)]
  have "?m bounce2 five2 = ?m bounce five"
    if "marshalRoll \<lparr>ro_color = st_next st, ro_user = actor, ro_value = value, ro_movable = Some (?m bounce2 five2)\<rparr> =
      marshalRoll \<lparr>ro_color = st_next st, ro_user = actor, ro_value = value, ro_movable = Some (?m bounce five)\<rparr>"
    using marshalRoll_inject [OF re [of bounce2 five2] re [of bounce five] that] by simp
  then have "ev_payload (roll_event st actor (i64 (sn_revision sn1 + 1)) value (?m bounce2 five2)) = ev_payload e \<Longrightarrow>
      \<lparr>sn_revision = i64 (sn_revision sn1 + 1), sn_state = marshalState (rolled (seated st actor) value (?m bounce2 five2))\<rparr> = sn'"
    using enc by (simp add: e roll_event_def encode_Some)
  moreover have "applyRollValueWithOptions sn actor value bounce2 five2 =
      Inr (roll_event st actor (i64 (sn_revision sn1 + 1)) value (?m bounce2 five2),
        \<lparr>sn_revision = i64 (sn_revision sn1 + 1), sn_state = marshalState (rolled (seated st actor) value (?m bounce2 five2))\<rparr>)"
    unfolding roll_iff using v st enc2 by blast
  ultimately show "\<exists>e2 s2. applyRollValueWithOptions sn actor value bounce2 five2 = Inr (e2, s2) \<and>
    ev_revision e2 = ev_revision e \<and> ev_type e2 = RollAccepted \<and> ev_actor e2 = actor \<and>
    (ev_payload e2 = ev_payload e \<longrightarrow> s2 = sn')"
    by (intro exI conjI impI) (assumption, simp_all add: e roll_event_def)
  show "\<exists>r. roll_ok r \<and> ev_payload e = marshalRoll r \<and> ro_user r = actor \<and> ro_value r = value"
    using re [of bounce five] by (intro exI conjI) (assumption, simp_all add: e roll_event_def)
  show "ev_type e = RollAccepted" "ev_actor e = actor" "ev_revision e = i64 (sn_revision sn + 1)"
    using state_from(2) [OF st(1)] by (simp_all add: e roll_event_def)
  show "validActorID actor" by (rule v(3))
  show "sn_revision sn' = ev_revision e" using enc by (simp add: e roll_event_def encode_Some)
qed

lemma roll_complete:
  assumes acc: "roll_accepts sn e sn'" and r: "0 \<le> sn_revision sn" "sn_revision sn < max_i64"
  shows "rebuildBody (sn_revision sn) e sn = Inr sn'"
proof -
  from acc obtain p val b f where t: "ev_type e = RollAccepted" and n: "NormalizeLegacyRollPayload (ev_payload e) = Some p"
    and rule: "(b, f) \<in> set roll_rules" and ap: "applyRollValueWithOptions sn (ev_actor e) val b f = Inr (e\<lparr>ev_payload := p\<rparr>, sn')"
    unfolding roll_accepts_def by blast
  from roll_succeeds(2) [OF ap] obtain ro where ro: "roll_ok ro" "p = marshalRoll ro" "ro_user ro = ev_actor e" "ro_value ro = val"
    by auto
  note d = decodeAcceptedRoll_marshal [OF ro(1)]
  let ?e = "e\<lparr>ev_payload := p\<rparr>"
  have rv: "ev_revision e = i64 (sn_revision sn + 1)" and va: "validActorID (ev_actor e)"
    using roll_succeeds(5,6) [OF ap] by simp_all
  have rv': "ev_revision e = sn_revision sn + 1" using rv r i64_succ by simp
  let ?att = "map (\<lambda>(bounce, five). applyRollValueWithOptions sn (ev_actor e) val bounce five) [(True, False), (False, True), (False, False)]"
  obtain e2 s2 where first: "applyRollValue sn (ev_actor e) val = Inr (e2, s2)"
    and e2: "ev_revision e2 = ev_revision e" "ev_type e2 = RollAccepted" "ev_actor e2 = ev_actor e" "ev_payload e2 = p \<longrightarrow> s2 = sn'"
    using roll_succeeds(1) [OF ap, of True True] by (auto simp: applyRollValue_def)
  have "settle_event ?e (with_legacy p (applyRollValue sn (ev_actor e) val) ?att) = Inr sn'"
  proof (cases "ev_payload e2 = p")
    case True
    then show ?thesis using e2 t by (simp add: settle_event_def with_legacy_def first)
  next
    case False
    have "(b, f) \<noteq> (True, True)" using False ap first by (auto simp: applyRollValue_def)
    then have "Inr (?e, sn') \<in> set ?att" using rule ap by (auto simp: roll_rules_def)
    from replay_found [OF this, of p "applyRollValue sn (ev_actor e) val"]
    obtain e3 s3 where e3: "replay p ?att (applyRollValue sn (ev_actor e) val) = Inr (e3, s3)" "ev_payload e3 = p" "Inr (e3, s3) \<in> set ?att"
      by auto
    then obtain b3 f3 where "applyRollValueWithOptions sn (ev_actor e) val b3 f3 = Inr (e3, s3)" by auto
    with roll_succeeds(1) [OF ap, of b3 f3] e3(2) have "ev_revision e3 = ev_revision e" "ev_type e3 = RollAccepted"
      "ev_actor e3 = ev_actor e" "s3 = sn'" by auto
    with e3 False t show ?thesis by (simp add: settle_event_def with_legacy_def first)
  qed
  then show ?thesis
    using t n va rv' d ro by (simp add: rebuildBody_def RollAccepted_def)
qed

lemma resolve_effect: "resolveMove c p v = Some r \<Longrightarrow> snd r \<in> {''none'', ''jump'', ''shortcut'', ''jump_shortcut''}"
  by (auto simp: resolveMove_def resolveMainProgress_def resolveProgress_def mainResolution_def Let_def
      split: if_splits prod.splits)

lemma piece_ok_slot: "piece_ok c p i \<Longrightarrow> Zone p \<noteq> ''hangar'' \<Longrightarrow> validPiece p j"
  by (auto simp: piece_ok_def validPiece_def split: if_splits)

lemma move_event_ok:
  assumes ok: "state_ok st" and "validActorID actor" and i: "0 \<le> i" "i < 4" and ph: "st_phase st = ''awaiting_move''"
    and r: "resolveMove (st_next st) (pieces_of st (st_next st) ! nat i) (st_dice st) = Some r"
  shows "move_ok \<lparr>mv_color = st_next st, mv_user = actor, mv_piece = i, mv_roll = st_dice st,
        mv_from = pieces_of st (st_next st) ! nat i, mv_to = fst r, mv_effect = snd r,
        mv_captured = Some (hits d (pieces_of st (opposite (st_next st))))\<rparr>"
proof -
  note n = state_next_pieces [OF ok]
  have dice: "1 \<le> st_dice st" "st_dice st \<le> 6" using ok ph by (auto simp: state_ok_def validState_def valid_phase_def)
  have p: "piece_ok (st_next st) (pieces_of st (st_next st) ! nat i) (int (nat i))"
    using n(2) [OF n(1)] i(2) by (auto simp: pieces_ok_def simp del: int_nat_eq)
  have to: "piece_ok (st_next st) (fst r) (int (nat i))" "Zone (fst r) \<noteq> ''hangar''"
    using resolveMove_course [OF p n(1) dice] r by auto
  have "length (pieces_of st (opposite (st_next st))) = 4" using n(2) [OF opposite_simps(4)] by (simp add: pieces_ok_def)
  then have "validIndices (hits d (pieces_of st (opposite (st_next st))))"
    using hits_range(1) [of _ d "pieces_of st (opposite (st_next st))"] hits_range(2) [of d "pieces_of st (opposite (st_next st))"]
    by (force simp: validIndices_def list_all_iff PieceCount_def not_less not_le)
  moreover have "validPiece (pieces_of st (st_next st) ! nat i) i" using p i(1) by (simp add: piece_ok_def)
  ultimately show ?thesis
    using n(1) assms(2) i dice piece_ok_slot [OF to] resolve_effect [OF r] by (simp add: move_ok_def)
qed

lemma move_parts:
  assumes "applyMoveWithCrossing sn actor act landings crossing = Inr (e, sn')"
  obtains i st sn1 r d nst where "decodeRequestedMove (act_payload act) = Some i" "act_type act = MoveRequested"
    "stateFromSnapshot sn = Inr (st, sn1)" "state_ok (seated st actor)" "st_phase st = ''awaiting_move''" "st_status st = ''active''"
    "may_act st actor" "0 \<le> i" "i < 4" "validActorID actor"
    "resolveMove (st_next st) (pieces_of st (st_next st) ! nat i) (st_dice st) = Some r"
    "d = destinations_of r landings crossing"
    "moved (seated st actor) actor i r d = (hits d (pieces_of st (opposite (st_next st))), nst)"
    "encodeSnapshot (i64 (sn_revision sn + 1)) nst = Some sn'"
    "e = move_event st actor (i64 (sn_revision sn + 1)) i r (hits d (pieces_of st (opposite (st_next st))))"
proof -
  from assms [unfolded move_iff] obtain i st sn1 r where p: "act_type act = MoveRequested" "validActorID actor"
    "decodeRequestedMove (act_payload act) = Some i" "stateFromSnapshot sn = Inr (st, sn1)" "st_status st = ''active''"
    "st_phase st = ''awaiting_move''" "may_act st actor" "0 \<le> i" "i < 4"
    "resolveMove (st_next st) (pieces_of st (st_next st) ! nat i) (st_dice st) = Some r"
    and enc: "encodeSnapshot (i64 (sn_revision sn1 + 1))
         (snd (moved (seated st actor) actor i r (destinations_of r landings crossing))) = Some sn'"
    and e: "e = move_event st actor (i64 (sn_revision sn1 + 1)) i r
         (fst (moved (seated st actor) actor i r (destinations_of r landings crossing)))" by blast
  have ok: "state_ok (seated st actor)" by (rule seated_ok [OF state_from(1) [OF p(4)] p(7,2,5)])
  then have mk: "mok (st_pieces (seated st actor))" by (simp add: state_ok_def)
  obtain cap nst where m: "moved (seated st actor) actor i r (destinations_of r landings crossing) = (cap, nst)"
    by (cases "moved (seated st actor) actor i r (destinations_of r landings crossing)")
  have c: "cap = hits (destinations_of r landings crossing) (pieces_of st (opposite (st_next st)))"
    using moved_pieces(3) [OF mk m] by simp
  note rv = state_from(2) [OF p(4)]
  show thesis
    by (rule that [OF p(3,1,4) ok p(6,5,7,8,9,2,10) refl]) (use m enc e c rv in simp_all)
qed

lemma move_same:
  assumes m1: "applyMoveWithCrossing sn actor act l1 c1 = Inr (e1, s1)" and m2: "applyMoveWithCrossing sn actor act l2 c2 = Inr (e2, s2)"
  shows "ev_revision e1 = i64 (sn_revision sn + 1)" "ev_type e1 = MoveAccepted" "ev_actor e1 = actor" "sn_revision s1 = ev_revision e1"
    and "ev_payload e1 = ev_payload e2 \<Longrightarrow> s1 = s2"
proof -
  from m1 obtain i st sn1 r d nst where p: "decodeRequestedMove (act_payload act) = Some i" 
    "stateFromSnapshot sn = Inr (st, sn1)" "state_ok (seated st actor)" "st_phase st = ''awaiting_move''"
    "0 \<le> i" "i < 4" "validActorID actor" "resolveMove (st_next st) (pieces_of st (st_next st) ! nat i) (st_dice st) = Some r"
    "moved (seated st actor) actor i r d = (hits d (pieces_of st (opposite (st_next st))), nst)"
    "encodeSnapshot (i64 (sn_revision sn + 1)) nst = Some s1"
    "e1 = move_event st actor (i64 (sn_revision sn + 1)) i r (hits d (pieces_of st (opposite (st_next st))))"
    by (rule move_parts)
  then show "ev_revision e1 = i64 (sn_revision sn + 1)" "ev_type e1 = MoveAccepted" "ev_actor e1 = actor" "sn_revision s1 = ev_revision e1"
    by (simp_all add: move_event_def encode_Some)
  from m2 obtain i' st' sn1' r' d' nst' where q: "decodeRequestedMove (act_payload act) = Some i'" 
    "stateFromSnapshot sn = Inr (st', sn1')" "resolveMove (st_next st') (pieces_of st' (st_next st') ! nat i') (st_dice st') = Some r'"
    "moved (seated st' actor) actor i' r' d' = (hits d' (pieces_of st' (opposite (st_next st'))), nst')"
    "encodeSnapshot (i64 (sn_revision sn + 1)) nst' = Some s2"
    "e2 = move_event st' actor (i64 (sn_revision sn + 1)) i' r' (hits d' (pieces_of st' (opposite (st_next st'))))"
    by (rule move_parts)
  have eq: "i' = i" "st' = st" using p(1,2) q(1,2) by simp_all
  have r: "r' = r" using p(8) q(3) eq by simp
  assume pay: "ev_payload e1 = ev_payload e2"
  have mk: "mok (st_pieces (seated st actor))" using p(3) by (simp add: state_ok_def)
  note me = move_event_ok [OF p(3,7,5,6), simplified seated_sel, OF p(4,8)]
  have "hits d (pieces_of st (opposite (st_next st))) = hits d' (pieces_of st (opposite (st_next st)))"
    using marshalMove_inject [OF me [of d] me [of d']] pay by (simp add: p(11) q(6) move_event_def eq r)
  then have "moved (seated st actor) actor i r d = moved (seated st actor) actor i r d'"
    using hits_after [of d "pieces_of st (opposite (st_next st))" d'] unfolding moved_eq [OF mk] Let_def by simp
  then have "nst = nst'" using p(9) q(4) eq r by simp
  then show "s1 = s2" using p(10) q(5) by simp
qed

lemma move_cong:
  assumes "decodeRequestedMove (act_payload a) = decodeRequestedMove (act_payload b)" and "act_type a = act_type b"
  shows "applyMoveWithCrossing sn actor a l c = applyMoveWithCrossing sn actor b l c"
  unfolding move_eq using assms by simp

lemma move_complete:
  assumes acc: "move_accepts sn e sn'" and rv: "0 \<le> sn_revision sn" "sn_revision sn < max_i64"
  shows "rebuildBody (sn_revision sn) e sn = Inr sn'"
proof -
  from acc obtain act0 res l c where t: "ev_type e = MoveAccepted" and first0: "Apply sn (ev_actor e) act0 = Inr res"
    and rul: "(l, c) \<in> set move_rules" and ap0: "applyMoveWithCrossing sn (ev_actor e) act0 l c = Inr (e, sn')"
    unfolding move_accepts_def by blast
  from ap0 obtain i st sn1 r d nst where p: "decodeRequestedMove (act_payload act0) = Some i" "act_type act0 = MoveRequested"
    "stateFromSnapshot sn = Inr (st, sn1)" "state_ok (seated st (ev_actor e))" "st_phase st = ''awaiting_move''"
    "0 \<le> i" "i < 4" "validActorID (ev_actor e)" "resolveMove (st_next st) (pieces_of st (st_next st) ! nat i) (st_dice st) = Some r"
    "e = move_event st (ev_actor e) (i64 (sn_revision sn + 1)) i r (hits d (pieces_of st (opposite (st_next st))))"
    by (rule move_parts)
  let ?act = "\<lparr>act_type = MoveRequested, act_payload = requestedMovePayload i\<rparr>"
  have same: "applyMoveWithCrossing sn (ev_actor e) ?act l c = applyMoveWithCrossing sn (ev_actor e) act0 l c" for l c
    by (rule move_cong) (use p decodeRequested_payload in simp_all)
  have ap: "applyMoveWithCrossing sn (ev_actor e) ?act l c = Inr (e, sn')" using ap0 same by simp
  obtain e2 s2 where first: "Apply sn (ev_actor e) ?act = Inr (e2, s2)"
    using first0 same by (cases res) (simp add: Apply_def)
  note me = move_event_ok [OF p(4,8,6,7), simplified seated_sel, OF p(5,9)]
  have pay: "ev_payload e = marshalMove \<lparr>mv_color = st_next st, mv_user = ev_actor e, mv_piece = i, mv_roll = st_dice st,
        mv_from = pieces_of st (st_next st) ! nat i, mv_to = fst r, mv_effect = snd r,
        mv_captured = Some (hits d (pieces_of st (opposite (st_next st))))\<rparr>"
    by (subst p(10)) (simp add: move_event_def)
  note dec = decodeAcceptedMove_marshal [OF me [of d], folded pay]
  note f2 = move_same [OF first [unfolded Apply_def] ap]
  have rv': "ev_revision e = sn_revision sn + 1" using move_same(1) [OF ap ap] rv i64_succ by simp
  let ?att = "map (applyMove sn (ev_actor e) ?act) [True, False]"
  have "settle_event e (with_legacy (ev_payload e) (Apply sn (ev_actor e) ?act) ?att) = Inr sn'"
  proof (cases "ev_payload e2 = ev_payload e")
    case True
    then show ?thesis using f2 t move_same(1) [OF ap ap] by (simp add: settle_event_def with_legacy_def first)
  next
    case False
    have "(l, c) \<noteq> (True, True)" using False ap first by (auto simp: Apply_def)
    then have "Inr (e, sn') \<in> set ?att" using rul ap by (auto simp: move_rules_def applyMove_def)
    from replay_found [OF this refl, of "Apply sn (ev_actor e) ?act"]
    obtain e3 s3 where e3: "replay (ev_payload e) ?att (Apply sn (ev_actor e) ?act) = Inr (e3, s3)"
      "ev_payload e3 = ev_payload e" "Inr (e3, s3) \<in> set ?att" by blast
    then obtain l3 where a3: "applyMoveWithCrossing sn (ev_actor e) ?act l3 False = Inr (e3, s3)"
      by (auto simp: applyMove_def)
    note f3 = move_same [OF a3 ap]
    show ?thesis
      using e3(1,2) f3 False t move_same(1) [OF ap ap] by (simp add: settle_event_def with_legacy_def first)
  qed
  then show ?thesis
    using t p(8) rv' dec by (simp add: rebuildBody_def RollAccepted_def MoveAccepted_def Let_def)
qed

lemma event_eq: "ev_revision a = ev_revision b \<Longrightarrow> ev_type a = ev_type b \<Longrightarrow> ev_actor a = ev_actor b \<Longrightarrow>
    ev_payload a = ev_payload b \<Longrightarrow> a = (b :: event)"
  by (cases a, cases b) simp

lemma settle_iff:
  "settle_event e res = Inr sn' \<longleftrightarrow> res = Inr (e, sn')"
  by (auto simp: settle_event_def intro: event_eq split: sum.splits if_splits)

lemma with_legacy_in: "with_legacy p res attempts = Inr x \<Longrightarrow> Inr x \<in> insert res (set attempts) \<and> (\<exists>y. res = Inr y)"
  using replay_in [of p attempts res "Inr x"] by (auto simp: with_legacy_def split: sum.splits if_splits)

lemma body_sound:
  assumes "rebuildBody i e sn = Inr sn'"
  shows "accepts sn e sn'"
proof (cases "ev_type e = RollAccepted")
  case True
  have h: "ev_revision e = i + 1 \<and> validActorID (ev_actor e)" using assms by (auto simp: rebuildBody_def split: if_splits)
  obtain p where n: "NormalizeLegacyRollPayload (ev_payload e) = Some p"
    using assms True h by (cases "NormalizeLegacyRollPayload (ev_payload e)") (simp_all add: rebuildBody_def)
  obtain ro where d: "decodeAcceptedRoll p = Some ro"
    using assms True h n by (cases "decodeAcceptedRoll p") (simp_all add: rebuildBody_def)
  have u: "ro_user ro = ev_actor e" using assms True h n d by (auto simp: rebuildBody_def split: if_splits)
  have s: "settle_event (e\<lparr>ev_payload := p\<rparr>) (with_legacy p (applyRollValue sn (ev_actor e) (ro_value ro))
        (map (\<lambda>(bounce, five). applyRollValueWithOptions sn (ev_actor e) (ro_value ro) bounce five)
          [(True, False), (False, True), (False, False)])) = Inr sn'"
    using assms True h n d u by (simp add: rebuildBody_def)
  from with_legacy_in [OF s [unfolded settle_iff]]
  have "Inr (e\<lparr>ev_payload := p\<rparr>, sn') \<in> (\<lambda>(b, f). applyRollValueWithOptions sn (ev_actor e) (ro_value ro) b f) ` set roll_rules"
    by (simp add: applyRollValue_def roll_rules_def)
  then obtain b f where "(b, f) \<in> set roll_rules"
    "applyRollValueWithOptions sn (ev_actor e) (ro_value ro) b f = Inr (e\<lparr>ev_payload := p\<rparr>, sn')"
    unfolding image_iff by (metis (no_types, lifting) case_prod_beta prod.collapse)
  with True n show ?thesis unfolding accepts_def roll_accepts_def by blast
next
  case False
  have h: "ev_revision e = i + 1 \<and> validActorID (ev_actor e) \<and> ev_type e = MoveAccepted"
    using assms False by (auto simp: rebuildBody_def split: if_splits)
  then have t: "ev_type e = MoveAccepted" by blast
  have d0: "MoveAccepted \<noteq> RollAccepted" by (simp add: MoveAccepted_def RollAccepted_def)
  obtain m where d: "decodeAcceptedMove (ev_payload e) = Some m"
    using assms h d0 by (cases "decodeAcceptedMove (ev_payload e)") (simp_all add: rebuildBody_def)
  have u: "mv_user m = ev_actor e" using assms h d d0 by (auto simp: rebuildBody_def split: if_splits)
  have s: "settle_event e (with_legacy (ev_payload e)
        (Apply sn (ev_actor e) \<lparr>act_type = MoveRequested, act_payload = requestedMovePayload (mv_piece m)\<rparr>)
        (map (applyMove sn (ev_actor e) \<lparr>act_type = MoveRequested, act_payload = requestedMovePayload (mv_piece m)\<rparr>) [True, False])) = Inr sn'"
    using assms h d u d0 by (simp add: rebuildBody_def Let_def)
  let ?act = "\<lparr>act_type = MoveRequested, act_payload = requestedMovePayload (mv_piece m)\<rparr>"
  from with_legacy_in [OF s [unfolded settle_iff]]
  have "Inr (e, sn') \<in> (\<lambda>(l, c). applyMoveWithCrossing sn (ev_actor e) ?act l c) ` set move_rules"
    and y: "\<exists>y. Apply sn (ev_actor e) ?act = Inr y"
    by (simp_all add: Apply_def applyMove_def move_rules_def)
  then obtain l c where "(l, c) \<in> set move_rules" "applyMoveWithCrossing sn (ev_actor e) ?act l c = Inr (e, sn')"
    unfolding image_iff by (metis (no_types, lifting) case_prod_beta prod.collapse)
  with y t show ?thesis unfolding accepts_def move_accepts_def by blast
qed

lemma accepts_revision:
  assumes "accepts sn e sn'"
  shows "ev_revision e = i64 (sn_revision sn + 1) \<and> sn_revision sn' = ev_revision e"
  using assms unfolding accepts_def
proof
  assume "roll_accepts sn e sn'"
  then obtain p v b f where "applyRollValueWithOptions sn (ev_actor e) v b f = Inr (e\<lparr>ev_payload := p\<rparr>, sn')"
    unfolding roll_accepts_def by blast
  from roll_succeeds(5,7) [OF this] show ?thesis by simp
next
  assume "move_accepts sn e sn'"
  then obtain a l c where "applyMoveWithCrossing sn (ev_actor e) a l c = Inr (e, sn')" unfolding move_accepts_def by blast
  from move_same(1,4) [OF this this] show ?thesis by simp
qed

interpretation flight_log: event_log initialSnapshot rebuildBody accepts
proof
  fix i e s s'
  show "accepts s e s' \<Longrightarrow> ev_revision e = i64 (sn_revision s + 1) \<and> sn_revision s' = ev_revision e"
    by (rule accepts_revision)
  show "accepts s e s' \<Longrightarrow> 0 \<le> sn_revision s \<Longrightarrow> sn_revision s < max_i64 \<Longrightarrow> rebuildBody (sn_revision s) e s = Inr s'"
    unfolding accepts_def using roll_complete move_complete by blast
  show "rebuildBody i e s = Inr s' \<Longrightarrow> sn_revision s = i \<Longrightarrow> 0 \<le> i \<Longrightarrow> accepts s e s'"
    by (rule body_sound)
qed (simp add: initialSnapshot_def)

lemma Rebuild_loop: "Rebuild es = rebuild_loop rebuildBody 0 es initialSnapshot"
  by (simp add: Rebuild_def encode_initial)

subsection \<open>Captures\<close>

text \<open>The distances at which a piece lands when the die brings it to distance \<open>t\<close> on the ring.\<close>

definition visited :: "int \<Rightarrow> int set" where
  "visited t =
     (if t = 14 then {14, 18, 30} else if t = 18 then {18, 30}
      else if t < 50 \<and> t mod 4 = 2 then {t, t + 4} else {t})"

lemma index_back: "0 \<le> k \<Longrightarrow> k \<le> 52 \<Longrightarrow> (indexForProgress c q - k + 52) mod 52 = indexForProgress c (q - k)"
proof -
  let ?s = "valueOr 0 (startIndices c) + q - 1"
  have "(?s mod 52 - k + 52) mod 52 = (?s mod 52 + (52 - k)) mod 52" by (simp add: algebra_simps)
  also have "\<dots> = (?s + (52 - k)) mod 52" by (rule mod_add_left_eq)
  also have "?s + (52 - k) = ?s - k + 52" by simp
  also have "(?s - k + 52) mod 52 = (?s - k) mod 52" by (rule mod_add_self2)
  finally show ?thesis by (simp add: indexForProgress_def MainCellCount_def algebra_simps)
qed

lemma index_zero: "indexForProgress c q mod 52 = indexForProgress c q" "(indexForProgress c q + 52) mod 52 = indexForProgress c q"
  by (simp_all add: indexForProgress_def MainCellCount_def)

lemma ring_hits:
  assumes "1 \<le> t" "t \<le> 50"
  shows "hit_by (destinations_of (mainResolution c t) True True) p \<longleftrightarrow>
    Zone p = ''main'' \<and> (\<exists>q\<in>visited t. Index p = indexForProgress c q) \<or> Zone p = ''home'' \<and> Index p = 2 \<and> (t = 14 \<or> t = 18)"
proof -
  have b: "(indexForProgress c 30 - 12 + 52) mod 52 = indexForProgress c 18"
    "(indexForProgress c 30 - 16 + 52) mod 52 = indexForProgress c 14"
    "(indexForProgress c (t + 4) - 4 + 52) mod 52 = indexForProgress c t"
    by (subst index_back; simp)+
  have b4: "(indexForProgress c 30 - 12) mod 52 = indexForProgress c 18"
    "(indexForProgress c 30 - 16) mod 52 = indexForProgress c 14"
    "(indexForProgress c (t + 4) - 4) mod 52 = indexForProgress c t" using b by (simp_all only: mod_add_self2)
  have piece: "p = \<lparr>Zone = z, Index = i\<rparr> \<longleftrightarrow> Zone p = z \<and> Index p = i" for z i by (cases p) auto
  consider "t = 18" | "t = 14" | "t \<noteq> 14" "t \<noteq> 18" "t < 50" "t mod 4 = 2" | "t \<noteq> 14" "t \<noteq> 18" "\<not> (t < 50 \<and> t mod 4 = 2)" by blast
  then show ?thesis
  proof cases
    case 3
    then have m: "mainResolution c t = (\<lparr>Zone = ''main'', Index = indexForProgress c (t + 4)\<rparr>, ''jump'')"
      by (simp add: mainResolution_def Let_def)
    show ?thesis
      unfolding m using 3 by (auto simp: destinations_of_def landingCells_def MainCellCount_def hit_by_def piece visited_def b4 index_zero)
  next
    case 4
    then have m: "mainResolution c t = (\<lparr>Zone = ''main'', Index = indexForProgress c t\<rparr>, ''none'')"
      by (auto simp: mainResolution_def Let_def)
    show ?thesis
      unfolding m using 4 by (auto simp: destinations_of_def landingCells_def MainCellCount_def hit_by_def piece visited_def index_zero)
  qed (auto simp: mainResolution_def destinations_of_def landingCells_def MainCellCount_def hit_by_def piece visited_def b4 index_zero)
qed

lemma no_hits: "Zone (fst r) \<noteq> ''main'' \<Longrightarrow> snd r = ''none'' \<Longrightarrow> \<not> hit_by (destinations_of r True True) p"
  by (simp add: destinations_of_def landingCells_def hit_by_def)

text \<open>A piece of the other player that a move from distance \<open>d\<close> captures.\<close>

definition captured_by :: "bytes \<Rightarrow> int \<Rightarrow> int \<Rightarrow> Piece \<Rightarrow> bool" where
  "captured_by color d roll p \<longleftrightarrow> 0 \<le> d \<and> d + roll \<le> 50 \<and>
     (Zone p = ''main'' \<and> (\<exists>q\<in>visited (d + roll). Index p = indexForProgress color q) \<or>
      Zone p = ''home'' \<and> Index p = 2 \<and> (d + roll = 14 \<or> d + roll = 18))"

lemma resolve_hits:
  assumes ok: "piece_ok color q i" and c: "color \<in> {Black, White}" and roll: "1 \<le> roll" "roll \<le> 6"
    and r: "resolveMove color q roll = Some r"
  shows "hit_by (destinations_of r True True) p \<longleftrightarrow> captured_by color (track color q) roll p"
proof -
  note t = track_range [OF ok c]
  have z: "Zone q \<in> {''hangar'', ''launch'', ''main'', ''home'', ''finished''}"
    using ok by (auto simp: piece_ok_def validPiece_def split: if_splits)
  have prog: "hit_by (destinations_of r True True) p \<longleftrightarrow> captured_by color d roll p"
    if d: "0 \<le> d" "d \<le> 50" and rp: "resolveProgress color (d + roll) = Some r" for d
  proof (cases "d + roll \<le> 50")
    case True
    then have "r = mainResolution color (d + roll)" using rp d roll by (simp add: resolveProgress_def)
    then show ?thesis using ring_hits [of "d + roll" color p] True d roll by (simp add: captured_by_def)
  next
    case False
    then have "Zone (fst r) \<noteq> ''main''" "snd r = ''none''" using rp d roll by (auto simp: resolveProgress_def split: if_splits)
    from no_hits [OF this] False show ?thesis by (simp add: captured_by_def)
  qed
  consider "Zone q = ''hangar''" | "Zone q = ''launch''" | "Zone q = ''main''" | "Zone q = ''home''" | "Zone q = ''finished''"
    using z by blast
  then show ?thesis
  proof cases
    case 1
    then have "r = (\<lparr>Zone = ''launch'', Index = 0\<rparr>, ''none'')" using r by (auto simp: resolveMove_def split: if_splits)
    with no_hits [of r] t(5) 1 show ?thesis by (simp add: captured_by_def)
  next
    case 2
    have "resolveProgress color (0 + roll) = Some r"
      using 2 r roll by (simp add: resolveMove_def resolveMainProgress_def resolveProgress_def)
    with prog [of 0] 2 t(6) show ?thesis by simp
  next
    case 3
    have "snd (progressForIndex color (Index q))" using ok 3 by (simp add: piece_ok_def)
    then have "resolveProgress color (track color q + roll) = Some r"
      using 3 r roll by (cases "progressForIndex color (Index q)") (simp add: resolveMove_def track_def Let_def)
    with prog [of "track color q"] 3 t(3) show ?thesis by simp
  next
    case 4
    then have "Zone (fst r) \<noteq> ''main''" "snd r = ''none''" using r by (auto simp: resolveMove_def Let_def split: if_splits)
    with no_hits [of r] 4 t(4) roll show ?thesis by (auto simp: captured_by_def)
  next
    case 5
    then have "resolveMove color q roll = None" by (simp add: resolveMove_def)
    with r show ?thesis by simp
  qed
qed

subsection \<open>Properties\<close>

text \<open>C10. The course of aeroplane chess: \<open>resolveMove\<close>, with its zones, cell numbers and starting points
  of the two colours, moves every piece as the rule of the game on distances says, and the piece it
  returns is valid.\<close>

theorem flight_course:
  assumes "piece_ok color p i" and "color \<in> {Black, White}" and "1 \<le> roll" and "roll \<le> 6"
  shows "map_option (\<lambda>r. track color (fst r)) (resolveMove color p roll) = course (track color p) roll \<and>
    (\<forall>r. resolveMove color p roll = Some r \<longrightarrow> piece_ok color (fst r) i)"
  using resolveMove_course [OF assms] by (cases "resolveMove color p roll") simp_all

theorem flight_course_witness:
  "map_option (\<lambda>r. track Black (fst r)) (resolveMove Black \<lparr>Zone = ''home'', Index = 3\<rparr> 5) = Some 53"
proof -
  have ok: "piece_ok Black \<lparr>Zone = ''home'', Index = 3\<rparr> 0" by (simp add: piece_ok_simple)
  show ?thesis
    using flight_course [OF ok, of 5] by (simp add: track_simple course_def)
qed

text \<open>C11. What a move does: when \<open>Apply\<close> succeeds, the player whose turn it is moves one piece as the
  course says, the pieces of the other player that stand where it lands, or on the home cell that a
  flight crosses, return to the hangar and are counted, all other pieces stay, and the turn passes
  unless the die shows a six or the player has brought all pieces home and won.\<close>

theorem flight_move:
  assumes "Apply sn actor act = Inr (e, sn')"
  shows "\<exists>st sn1 i nst. stateFromSnapshot sn = Inr (st, sn1) \<and> decodeRequestedMove (act_payload act) = Some i \<and>
    stateFromSnapshot sn' = Inr (nst, sn') \<and> ev_actor e = actor \<and>
    (let c = st_next st; ps = pieces_of st c; d = track c (ps ! nat i);
         cap = filter (\<lambda>j. captured_by c d (st_dice st) (pieces_of st (opposite c) ! j)) [0..<4] in
     may_act st actor \<and>
     (\<exists>q. course d (st_dice st) = Some (track c q) \<and> pieces_of nst c = ps[nat i := q]) \<and>
     pieces_of nst (opposite c) =
       map (\<lambda>j. if j \<in> set cap then \<lparr>Zone = ''hangar'', Index = int j\<rparr> else pieces_of st (opposite c) ! j) [0..<4] \<and>
     valueOr 0 (mget (st_captures nst) c) = valueOr 0 (mget (st_captures st) c) + int (length cap) \<and>
     (if \<forall>p\<in>set (pieces_of nst c). track c p = 56
      then st_status nst = ''finished'' \<and> st_winner nst = Some actor
      else st_status nst = ''active'' \<and> st_phase nst = ''awaiting_roll'' \<and>
        st_next nst = (if st_dice st = 6 then c else opposite c)))"
proof -
  from assms obtain i st sn1 r d nst where p: "decodeRequestedMove (act_payload act) = Some i" "act_type act = MoveRequested"
    "stateFromSnapshot sn = Inr (st, sn1)" "state_ok (seated st actor)" "st_phase st = ''awaiting_move''" "st_status st = ''active''"
    "may_act st actor" "0 \<le> i" "i < 4" "validActorID actor"
    "resolveMove (st_next st) (pieces_of st (st_next st) ! nat i) (st_dice st) = Some r"
    "d = destinations_of r True True"
    "moved (seated st actor) actor i r d = (hits d (pieces_of st (opposite (st_next st))), nst)"
    "encodeSnapshot (i64 (sn_revision sn + 1)) nst = Some sn'"
    "e = move_event st actor (i64 (sn_revision sn + 1)) i r (hits d (pieces_of st (opposite (st_next st))))"
    unfolding Apply_def by (rule move_parts)
  have mk: "mok (st_pieces (seated st actor))" "mok (st_captures (seated st actor))" using p(4) by (simp_all add: state_ok_def)
  have ok: "state_ok st" by (rule state_from(1) [OF p(3)])
  note n = state_next_pieces [OF ok]
  let ?c = "st_next st" and ?o = "opposite (st_next st)"
  let ?ps = "pieces_of st ?c" and ?os = "pieces_of st ?o"
  have dice: "1 \<le> st_dice st" "st_dice st \<le> 6" using ok p(5) by (auto simp: state_ok_def validState_def valid_phase_def)
  have q: "piece_ok ?c (?ps ! nat i) (int (nat i))"
    using n(2) [OF n(1)] p(9) by (auto simp: pieces_ok_def simp del: int_nat_eq)
  have len: "length ?os = 4" using n(2) [OF opposite_simps(4)] by (simp add: pieces_ok_def)
  let ?cap = "filter (\<lambda>j. captured_by ?c (track ?c (?ps ! nat i)) (st_dice st) (?os ! j)) [0..<4]"
  have hit: "hit_by d x \<longleftrightarrow> captured_by ?c (track ?c (?ps ! nat i)) (st_dice st) x" for x
    unfolding p(12) by (rule resolve_hits [OF q n(1) dice p(11)])
  have hs: "hits d ?os = map int ?cap" by (simp add: hits_def len hit)
  have ah: "after_hits d ?os = map (\<lambda>j. if j \<in> set ?cap then \<lparr>Zone = ''hangar'', Index = int j\<rparr> else ?os ! j) [0..<4]"
    unfolding after_hits_def len hit by (rule map_cong) simp_all
  note mo = fc_moved_ok [OF p(4) _ _ p(8,9) _ _ p(13)]
  have nst_ok: "state_ok nst"
    using mo(2,3) p(5,6,11,14) by (simp add: state_ok_def encode_Some)
  have from': "stateFromSnapshot sn' = Inr (nst, sn')"
    using state_from_marshal [OF nst_ok] p(14) by (auto simp: encode_Some)
  have po: "pieces_of nst ?c = ?ps[nat i := fst r]" "pieces_of nst ?o = after_hits d ?os"
    using moved_pieces(1) [OF mk(1) p(13)] by (simp_all add: own_after_def)
  have co: "course (track ?c (?ps ! nat i)) (st_dice st) = Some (track ?c (fst r))"
    using resolveMove_course [OF q n(1) dice] p(11) by simp
  have own: "pieces_ok ?c (pieces_of nst ?c)"
    unfolding po by (rule own_ok [OF n(2) [OF n(1)] n(1) p(8,9) dice p(11)])
  have fin: "(\<forall>x\<in>set (pieces_of nst ?c). track ?c x = 56) \<longleftrightarrow> allFinished (pieces_of nst ?c)"
  proof -
    have "Zone x = ''finished'' \<longleftrightarrow> track ?c x = 56" if "x \<in> set (pieces_of nst ?c)" for x
    proof -
      from that obtain j where "j < length (pieces_of nst ?c)" "x = pieces_of nst ?c ! j" unfolding in_set_conv_nth by blast
      with own have "j < 4" "x = pieces_of nst ?c ! j" by (simp_all add: pieces_ok_def)
      then have "piece_ok ?c x (int j)" using own by (simp add: pieces_ok_def)
      from track_range(7) [OF this n(1)] show ?thesis .
    qed
    then show ?thesis using own by (auto simp: allFinished_def pieces_ok_def PieceCount_def list_all_iff)
  qed
  note me = p(13) [unfolded moved_eq [OF mk(1)] Let_def]
  have cc: "valueOr 0 (mget (st_captures nst) ?c) = valueOr 0 (mget (st_captures st) ?c) + int (length ?cap)"
    using me mk(2) by (auto simp: mget_mput hs)
  have out: "if allFinished (pieces_of nst ?c) then st_status nst = ''finished'' \<and> st_winner nst = Some actor
      else st_status nst = ''active'' \<and> st_phase nst = ''awaiting_roll'' \<and> st_next nst = (if st_dice st = 6 then ?c else ?o)"
    using me p(6) by (auto simp: po own_after_def)
  have ac: "ev_actor e = actor" by (simp add: p(15) move_event_def)
  show ?thesis
    unfolding Let_def using p(1,3,7) from' ac co po(1) po(2) [unfolded ah] cc out [folded fin] by blast
qed

lemma nonfirst_of:
  assumes "movablePieces c ps v \<noteq> []" and "length ps = 4"
  shows "\<exists>i r. 0 \<le> i \<and> i < 4 \<and> resolveMove c (ps ! nat i) v = Some r"
proof -
  have "movablePieces c ps v = map int (filter (\<lambda>i. resolveMove c (ps ! i) v \<noteq> None) [0..<length ps])"
    unfolding movablePieces_def by (rule indexed_filter)
  then obtain j where "j < 4" "resolveMove c (ps ! j) v \<noteq> None" using assms by (auto simp: filter_empty_conv)
  then show ?thesis by (intro exI [of _ "int j"]) auto
qed

lemma accepts_ok:
  assumes "accepts sn e sn'"
  shows "\<exists>st. state_ok st \<and> stateFromSnapshot sn' = Inr (st, sn') \<and> sn_state sn' \<noteq> []"
proof -
  have enc: "\<exists>st. state_ok st \<and> stateFromSnapshot sn' = Inr (st, sn') \<and> sn_state sn' \<noteq> []"
    if "encodeSnapshot rv st = Some sn'" "mok (st_captures st)" "mok (st_pieces st)" for rv st
  proof -
    have "state_ok st" "0 \<le> rv" "sn' = \<lparr>sn_revision = rv, sn_state = marshalState st\<rparr>" using that by (simp_all add: encode_Some state_ok_def)
    with state_from_marshal [of st rv] show ?thesis by (auto simp: marshalState_def)
  qed
  from assms show ?thesis
    unfolding accepts_def
  proof
    assume "roll_accepts sn e sn'"
    then obtain p v b f where "applyRollValueWithOptions sn (ev_actor e) v b f = Inr (e\<lparr>ev_payload := p\<rparr>, sn')"
      unfolding roll_accepts_def by blast
    then obtain st sn1 m where st: "stateFromSnapshot sn = Inr (st, sn1)" 
      and e: "encodeSnapshot (i64 (sn_revision sn1 + 1)) (rolled (seated st (ev_actor e)) v m) = Some sn'"
      unfolding roll_iff by blast
    have "state_ok st" by (rule state_from(1) [OF st])
    then have "mok (st_captures (rolled (seated st (ev_actor e)) v m))" "mok (st_pieces (rolled (seated st (ev_actor e)) v m))"
      by (simp_all add: state_ok_def rolled_def)
    with enc [OF e] show ?thesis by blast
  next
    assume "move_accepts sn e sn'"
    then obtain a l c where m: "applyMoveWithCrossing sn (ev_actor e) a l c = Inr (e, sn')" unfolding move_accepts_def by blast
    then obtain i st sn1 r d nst where p: "state_ok (seated st (ev_actor e))" "st_phase st = ''awaiting_move''" "st_status st = ''active''"
      "0 \<le> i" "i < 4" "resolveMove (st_next st) (pieces_of st (st_next st) ! nat i) (st_dice st) = Some r"
      "moved (seated st (ev_actor e)) (ev_actor e) i r d = (hits d (pieces_of st (opposite (st_next st))), nst)"
      "encodeSnapshot (i64 (sn_revision sn + 1)) nst = Some sn'" by (rule move_parts)
    from fc_moved_ok(2,3) [OF p(1) _ _ p(4,5) _ _ p(7)] p(2,3,6) have "mok (st_captures nst)" "mok (st_pieces nst)" by simp_all
    with enc [OF p(8)] show ?thesis by blast
  qed
qed

lemma played_ok:
  assumes "played accepts initialSnapshot es sn"
  shows "\<exists>st. state_ok st \<and> stateFromSnapshot sn = Inr (st, sn)"
  using assms
proof (cases rule: played.cases)
  case played_start
  have "stateFromSnapshot initialSnapshot = Inr (initialState, initialSnapshot)"
    using state_from_marshal [OF fc_initial_ok, of 0] by (simp add: initialSnapshot_def)
  with played_start fc_initial_ok show ?thesis by auto
next
  case (played_step es s e)
  from accepts_ok [OF played_step(3)] show ?thesis by blast
qed

text \<open>C12. Replay of logs: \<open>Rebuild\<close> accepts exactly the logs in which every event is produced by the
  current rules or by one of the earlier ones on the snapshot before it, and returns the snapshot
  they lead to; a roll may still carry the empty list of penalties.\<close>

theorem flight_rebuild_iff_played:
  assumes "int (length es) \<le> max_i64"
  shows "Rebuild es = Inr sn \<longleftrightarrow> played accepts initialSnapshot es sn"
  unfolding Rebuild_loop by (rule flight_log.rebuild_iff_played [OF assms])

lemma roll_possible:
  assumes st: "stateFromSnapshot sn = Inr (st, sn1)" "st_status st = ''active''" "st_phase st = ''awaiting_roll''"
    "may_act st actor" "validActorID actor" and v: "1 \<le> roll" "roll \<le> 6" and rv: "0 \<le> i64 (sn_revision sn + 1)"
  shows "\<exists>r. applyRollValue sn actor roll = Inr r"
proof -
  note ok = state_from(1) [OF st(1)] and r1 = state_from(2) [OF st(1)]
  have oks: "state_ok (seated st actor)" by (rule seated_ok [OF ok st(4,5,2)])
  let ?m = "rollMovable (st_next st) (pieces_of st (st_next st)) roll True True"
  have "state_ok (rolled (seated st actor) roll ?m)"
    using v st movable_subset(1) by (intro rolled_ok [OF oks]) simp_all
  then have "encodeSnapshot (i64 (sn_revision sn1 + 1)) (rolled (seated st actor) roll ?m) \<noteq> None"
    using rv r1 by (simp add: encodeSnapshot_def state_ok_def)
  then show ?thesis using v st unfolding applyRollValue_def roll_eq by (auto simp: Let_def)
qed

lemma move_possible:
  assumes st: "stateFromSnapshot sn = Inr (st, sn1)" "st_status st = ''active''" "st_phase st = ''awaiting_move''"
    "may_act st actor" "validActorID actor" and rv: "0 \<le> i64 (sn_revision sn + 1)"
    and room: "valueOr 0 (mget (st_captures st) (st_next st)) \<le> 2044"
  shows "\<exists>i r. Apply sn actor \<lparr>act_type = MoveRequested, act_payload = requestedMovePayload i\<rparr> = Inr r"
proof -
  note ok = state_from(1) [OF st(1)] and r1 = state_from(2) [OF st(1)]
  have oks: "state_ok (seated st actor)" by (rule seated_ok [OF ok st(4,5,2)])
  note n = state_next_pieces [OF ok]
  have "movablePieces (st_next st) (pieces_of st (st_next st)) (st_dice st) \<noteq> []"
    using ok st(3) by (simp add: state_ok_def validState_def valid_phase_def)
  moreover have "length (pieces_of st (st_next st)) = 4" using n(2) [OF n(1)] by (simp add: pieces_ok_def)
  ultimately obtain i r where i: "0 \<le> i" "i < 4" "resolveMove (st_next st) (pieces_of st (st_next st) ! nat i) (st_dice st) = Some r"
    using nonfirst_of by blast
  obtain cap nst where m: "moved (seated st actor) actor i r (destinations_of r True True) = (cap, nst)"
    by (cases "moved (seated st actor) actor i r (destinations_of r True True)")
  have mk: "mok (st_pieces (seated st actor))" using oks by (simp add: state_ok_def)
  have "length cap \<le> 4"
    using moved_pieces(3) [OF mk m] hits_length [of "destinations_of r True True" "pieces_of st (opposite (st_next st))"]
      n(2) [OF opposite_simps(4)] by (simp add: pieces_ok_def)
  then have "validState nst"
    using fc_moved_ok(1) [OF oks _ _ i(1,2) _ _ m] i(3) st room by simp
  then show ?thesis
    using rv r1 st i m unfolding Apply_def move_eq
    by (intro exI [of _ i]) (simp add: decodeRequested_payload encodeSnapshot_def Let_def)
qed

text \<open>C13. Play never stops: after every log that \<open>Rebuild\<close> accepts, in a match that is not finished, a
  player who may act can roll with every value of the die, or, after a roll, has a piece to move, as
  long as the capture counts and the revision have room.\<close>

theorem flight_goes_on:
  assumes "Rebuild es = Inr sn" and "int (length es) < max_i64" and "stateFromSnapshot sn = Inr (st, sn)"
    and "st_status st = ''active''" and "may_act st actor" and "validActorID actor"
    and "valueOr 0 (mget (st_captures st) (st_next st)) \<le> 2044"
  shows "sn_revision sn = int (length es) \<and>
    (st_phase st = ''awaiting_roll'' \<and> (\<forall>roll\<in>{1..6}. \<exists>r. applyRollValue sn actor roll = Inr r) \<or>
     st_phase st = ''awaiting_move'' \<and>
       (\<exists>i r. Apply sn actor \<lparr>act_type = MoveRequested, act_payload = requestedMovePayload i\<rparr> = Inr r))"
proof -
  have pl: "played accepts initialSnapshot es sn" using flight_log.rebuild_sound assms(1,2) by (simp add: Rebuild_loop)
  have rv: "sn_revision sn = int (length es)" using flight_log.played_revision [OF pl] assms(2) by simp
  have rv1: "0 \<le> i64 (sn_revision sn + 1)" using rv assms(2) i64_succ [of "sn_revision sn"] by simp
  have "st_phase st \<in> {''awaiting_roll'', ''awaiting_move''}"
    using winner_cases(4) state_from(1) [OF assms(3)] by (simp add: state_ok_def)
  with rv roll_possible [OF assms(3,4) _ assms(5,6) _ _ rv1] move_possible [OF assms(3,4) _ assms(5,6) rv1 assms(7)]
  show ?thesis by auto
qed

lemma rollDie_iff:
  "rollDie n source = Some v \<longleftrightarrow>
     (\<exists>k<n. k < length source \<and> (\<forall>j<k. source ! j \<ge> 252) \<and> source ! k < 252 \<and> v = int (source ! k mod 6) + 1)"
proof (induction n source rule: rollDie.induct)
  case (3 n b source)
  show ?case
  proof (cases "b < 252")
    case True
    have z: "k = 0" if "\<forall>j<k. (b # source) ! j \<ge> 252" for k using that True by (cases k) auto
    show ?thesis
    proof
      assume "rollDie (Suc n) (b # source) = Some v"
      with True show "\<exists>k<Suc n. k < length (b # source) \<and> (\<forall>j<k. (b # source) ! j \<ge> 252) \<and> (b # source) ! k < 252 \<and>
          v = int ((b # source) ! k mod 6) + 1" by (intro exI [of _ 0]) auto
    next
      assume "\<exists>k<Suc n. k < length (b # source) \<and> (\<forall>j<k. (b # source) ! j \<ge> 252) \<and> (b # source) ! k < 252 \<and>
          v = int ((b # source) ! k mod 6) + 1"
      then obtain k where "\<forall>j<k. (b # source) ! j \<ge> 252" "v = int ((b # source) ! k mod 6) + 1" by blast
      with z [of k] True show "rollDie (Suc n) (b # source) = Some v" by simp
    qed
  next
    case False
    then have "(\<exists>k<Suc n. k < length (b # source) \<and> (\<forall>j<k. (b # source) ! j \<ge> 252) \<and> (b # source) ! k < 252 \<and>
        v = int ((b # source) ! k mod 6) + 1) \<longleftrightarrow>
      (\<exists>k<n. k < length source \<and> (\<forall>j<k. source ! j \<ge> 252) \<and> source ! k < 252 \<and> v = int (source ! k mod 6) + 1)"
      by (subst Ex_less_Suc2) (auto simp: All_less_Suc2)
    with False 3 show ?thesis by simp
  qed
qed simp_all

lemma die_bytes: "f < 6 \<Longrightarrow> card {b::nat. b < 252 \<and> b mod 6 = f} = 42"
proof -
  assume f: "f < 6"
  have "{b::nat. b < 252 \<and> b mod 6 = f} = (\<lambda>k. 6 * k + f) ` {..<42}"
  proof (intro set_eqI iffI)
    fix b assume "b \<in> {b::nat. b < 252 \<and> b mod 6 = f}"
    then have "b = 6 * (b div 6) + f" "b div 6 < 42" by auto
    then show "b \<in> (\<lambda>k. 6 * k + f) ` {..<42}" by blast
  qed (use f in auto)
  moreover have "inj_on (\<lambda>k. 6 * k + f) {..<42}" by (auto intro: inj_onI)
  ultimately show ?thesis by (simp add: card_image)
qed

text \<open>The die: \<open>rollDie\<close> returns a value from 1 to 6 that the first byte below 252 among the first
  128 decides, each value being decided by the same number of bytes, and fails exactly when there is
  no such byte.\<close>

lemma flight_die:
  shows "(rollDie 128 source = Some v \<longleftrightarrow>
      (\<exists>k<128. k < length source \<and> (\<forall>j<k. source ! j \<ge> 252) \<and> source ! k < 252 \<and> v = int (source ! k mod 6) + 1)) \<and>
    (rollDie 128 source = None \<longleftrightarrow> (\<forall>k<min 128 (length source). source ! k \<ge> 252)) \<and>
    (v \<in> {1..6} \<longrightarrow> card {b. b < 252 \<and> rollDie 128 [b] = Some v} = 42)"
proof (intro conjI impI)
  show "rollDie 128 source = Some v \<longleftrightarrow>
      (\<exists>k<128. k < length source \<and> (\<forall>j<k. source ! j \<ge> 252) \<and> source ! k < 252 \<and> v = int (source ! k mod 6) + 1)"
    by (rule rollDie_iff)
  have "rollDie 128 source \<noteq> None \<longleftrightarrow> (\<exists>k<min 128 (length source). source ! k < 252)"
  proof
    assume "rollDie 128 source \<noteq> None"
    then obtain w where "rollDie 128 source = Some w" by blast
    then show "\<exists>k<min 128 (length source). source ! k < 252" unfolding rollDie_iff by auto
  next
    assume ex: "\<exists>k<min 128 (length source). source ! k < 252"
    define k where "k = (LEAST k. k < min 128 (length source) \<and> source ! k < 252)"
    have k: "k < min 128 (length source) \<and> source ! k < 252" unfolding k_def by (rule LeastI_ex [OF ex])
    have "source ! j \<ge> 252" if "j < k" for j
      using not_less_Least [of j "\<lambda>k. k < min 128 (length source) \<and> source ! k < 252"] that k unfolding k_def by auto
    with k have "rollDie 128 source = Some (int (source ! k mod 6) + 1)" unfolding rollDie_iff by auto
    then show "rollDie 128 source \<noteq> None" by simp
  qed
  then show "rollDie 128 source = None \<longleftrightarrow> (\<forall>k<min 128 (length source). source ! k \<ge> 252)"
    using not_le by blast
  assume v: "v \<in> {1..6}"
  have one: "rollDie 128 [b] = Some (int (b mod 6) + 1)" if "b < 252" for b
    using rollDie.simps(3) [of 127 b "[]"] that by simp
  have "int (b mod 6) + 1 = v \<longleftrightarrow> b mod 6 = nat (v - 1)" for b :: nat using v by auto
  then have "{b. b < 252 \<and> rollDie 128 [b] = Some v} = {b. b < 252 \<and> b mod 6 = nat (v - 1)}"
    by (intro Collect_cong conj_cong refl) (simp add: one)
  moreover have "nat (v - 1) < 6" using v by auto
  ultimately show "card {b. b < 252 \<and> rollDie 128 [b] = Some v} = 42"
    using die_bytes by simp
qed

lemma initial_from: "stateFromSnapshot initialSnapshot = Inr (initialState, initialSnapshot)"
  using state_from_marshal [OF fc_initial_ok, of 0] by (simp add: initialSnapshot_def)

lemma initial_sel: "st_status initialState = ''active''" "st_phase initialState = ''awaiting_roll''" "may_act initialState actor"
  "st_next initialState = Black" "0 \<le> i64 (sn_revision initialSnapshot + 1)" "validActorID ''ann''"
  by (simp_all add: initialState_def may_act_def mover_def rival_def initialSnapshot_def i64_def validActorID_def
      utf8_valid_ascii)

lemma first_roll:
  obtains e sn where "applyRollValue initialSnapshot ''ann'' 6 = Inr (e, sn)"
  using roll_possible [OF initial_from initial_sel(1,2,3,6) _ _ initial_sel(5), of 6] by auto

lemma first_roll_accepted:
  assumes "applyRollValue initialSnapshot ''ann'' 6 = Inr (e, sn)"
  shows "played accepts initialSnapshot [e] sn"
proof -
  note rs = roll_succeeds [OF assms [unfolded applyRollValue_def]]
  obtain r where "roll_ok r" "ev_payload e = marshalRoll r" using rs(2) by blast
  then have "NormalizeLegacyRollPayload (ev_payload e) = Some (ev_payload e)" using Normalize_marshal by simp
  then have "roll_accepts initialSnapshot e sn"
    unfolding roll_accepts_def using rs(3,4) assms
    by (intro conjI exI [of _ "ev_payload e"] exI [of _ 6] exI [of _ True]) (simp_all add: applyRollValue_def roll_rules_def)
  then show ?thesis using played_step [OF played_start, of accepts initialSnapshot e sn] by (simp add: accepts_def)
qed

theorem flight_rebuild_iff_played_witness: "\<exists>e sn. Rebuild [e] = Inr sn"
proof -
  obtain e sn where "applyRollValue initialSnapshot ''ann'' 6 = Inr (e, sn)" by (rule first_roll)
  from first_roll_accepted [OF this] flight_rebuild_iff_played [of "[e]" sn] show ?thesis by (auto simp: max_i64_def)
qed

theorem flight_goes_on_witness: "\<exists>r. applyRollValue initialSnapshot ''ann'' 3 = Inr r"
proof -
  have "Rebuild [] = Inr initialSnapshot" by (simp add: Rebuild_loop)
  moreover have "valueOr 0 (mget (st_captures initialState) (st_next initialState)) \<le> 2044"
    by (simp add: initialState_def mget_def)
  ultimately show ?thesis
    using flight_goes_on [OF _ _ initial_from initial_sel(1,3,6)] initial_sel(2) by (auto simp: max_i64_def)
qed

lemma flight_die_witness: "card {b. b < 252 \<and> rollDie 128 [b] = Some 6} = 42"
  using flight_die [of "[]" 6] by simp

theorem flight_move_witness: "\<exists>sn act e sn'. Apply sn ''ann'' act = Inr (e, sn') \<and> ev_actor e = ''ann''"
proof -
  obtain e sn where r: "applyRollValue initialSnapshot ''ann'' 6 = Inr (e, sn)" by (rule first_roll)
  let ?m = "rollMovable Black (pieces_of initialState Black) 6 True True" and ?s = "seated initialState ''ann''"
  have enc: "encodeSnapshot (i64 1) (rolled ?s 6 ?m) = Some sn"
    using r unfolding applyRollValue_def roll_iff initial_from by (auto simp: initial_sel(4) initialSnapshot_def)
  have "pieces_of initialState Black = hangar" by (simp add: pieces_of_def initialState_def mget_def)
  then have m: "?m \<noteq> []"
    by (simp add: movable_subset(2) movablePieces_def indexed_def hangar_def PieceCount_def upt_rec resolveMove_def)
  have ok: "state_ok (rolled ?s 6 ?m)"
    using enc seated_ok [OF fc_initial_ok initial_sel(3,6,1)] by (simp add: state_ok_def encode_Some rolled_def)
  have fr: "stateFromSnapshot sn = Inr (rolled ?s 6 ?m, sn)"
    using state_from_marshal [OF ok, of "i64 1"] enc by (simp add: encode_Some i64_def)
  have sel: "st_status (rolled ?s 6 ?m) = ''active''" "st_phase (rolled ?s 6 ?m) = ''awaiting_move''" "may_act (rolled ?s 6 ?m) ''ann''"
    "0 \<le> i64 (sn_revision sn + 1)" "valueOr 0 (mget (st_captures (rolled ?s 6 ?m)) (st_next (rolled ?s 6 ?m))) \<le> 2044"
    using m enc by (auto simp: rolled_def initial_sel may_act_def mover_def seated_def encode_Some i64_def initialState_def mget_def)
  from move_possible [OF fr sel(1,2,3) initial_sel(6) sel(4,5)] obtain i e2 sn2
    where "Apply sn ''ann'' \<lparr>act_type = MoveRequested, act_payload = requestedMovePayload i\<rparr> = Inr (e2, sn2)" by auto
  with flight_move [OF this] show ?thesis by blast
qed

end
