(* ===== verification/Battleship.thy ===== *)
theory Battleship
  imports GoMap
begin

text \<open>
  Battleship (\<open>server/internal/battleship/rules.go\<close> and \<open>json.go\<close>): fleets, the actions of a match,
  the private view of a player, and the JSON form of states and actions. The arrays of two are
  lists indexed by the player 0 or 1; a Go slice that may be nil is an \<open>option\<close> (nil is written
  as null, an empty slice as []).
\<close>

subsection \<open>Fleets\<close>

datatype battle_error = ErrInvalid | ErrConflict | ErrNotFound | ErrInternal

definition lengths :: "nat list" where
  "lengths = [5, 4, 3, 3, 2]"

record Ship =
  Ship_Cell :: int
  Ship_ID :: int
  Ship_Vertical :: bool

definition cells :: "Ship \<Rightarrow> int list" where
  "cells s =
     (if Ship_ID s < 0 \<or> Ship_ID s \<ge> int (length lengths) then []
      else let step = (if Ship_Vertical s then 10 else 1) in
        map (\<lambda>i. i64 (Ship_Cell s + int i * step)) [0..<lengths ! nat (Ship_ID s)])"

text \<open>The two nested loops of \<open>validFleet\<close>, with the maps \<open>seen\<close> and \<open>occupied\<close> as lists of keys.\<close>

fun claim :: "Ship \<Rightarrow> int list \<Rightarrow> int list \<Rightarrow> int list option" where
  "claim s [] occupied = Some occupied"
| "claim s (c # cs) occupied =
     (if c \<ge> 100 \<or> \<not> Ship_Vertical s \<and> c div 10 \<noteq> Ship_Cell s div 10 \<or> c \<in> set occupied then None
      else claim s cs (c # occupied))"

fun fleet_loop :: "Ship list \<Rightarrow> int list \<Rightarrow> int list \<Rightarrow> bool" where
  "fleet_loop [] seen occupied = True"
| "fleet_loop (s # ships) seen occupied =
     (if Ship_ID s < 0 \<or> Ship_ID s \<ge> 5 \<or> Ship_ID s \<in> set seen \<or> Ship_Cell s < 0 \<or> Ship_Cell s \<ge> 100 then False
      else case claim s (cells s) occupied of
        None \<Rightarrow> False
      | Some occupied' \<Rightarrow> fleet_loop ships (Ship_ID s # seen) occupied')"

definition validFleet :: "Ship list \<Rightarrow> bool \<Rightarrow> bool" where
  "validFleet ships complete =
     (if length ships > 5 \<or> complete \<and> length ships \<noteq> 5 then False else fleet_loop ships [] [])"

subsection \<open>Matches\<close>

record Shot =
  Shot_Cell :: int
  Shot_Hit :: bool

record Action =
  ActionID :: bytes
  Revision :: int
  Kind :: bytes
  Action_Ships :: "Ship list option"
  Action_Cell :: int

record State =
  Players :: "bytes list"
  Ships :: "Ship list option list"
  Ready :: "bool list"
  Shots :: "Shot list option list"
  Phase :: bytes
  First :: int
  Turn :: int
  Winner :: bytes
  EndOffer :: bytes
  Rematch :: "bool list"
  NextMatchID :: bytes

record View =
  V_ID :: bytes
  V_Revision :: int
  V_OpponentID :: bytes
  V_OpponentName :: bytes
  V_Phase :: bytes
  V_YourTurn :: bool
  V_Ready :: bool
  V_EnemyReady :: bool
  V_OwnShips :: "Ship list"
  V_EnemyShips :: "Ship list"
  V_Shots :: "Shot list"
  V_Incoming :: "Shot list"
  V_Winner :: bytes
  V_EndOffer :: bytes
  V_RematchRequested :: bool
  V_EnemyRematchRequested :: bool
  V_NextMatchID :: bytes

definition newState :: "bytes \<Rightarrow> bytes \<Rightarrow> int \<Rightarrow> State" where
  "newState a b first =
     \<lparr>Players = [a, b], Ships = [None, None], Ready = [False, False], Shots = [None, None],
      Phase = ''placement'', First = first, Turn = first, Winner = '''', EndOffer = '''',
      Rematch = [False, False], NextMatchID = ''''\<rparr>"

text \<open>\<open>State.player\<close>: the first index of the user, or -1.\<close>

fun index_of :: "bytes \<Rightarrow> bytes list \<Rightarrow> int \<Rightarrow> int" where
  "index_of user [] i = -1"
| "index_of user (p # ps) i = (if p = user then i else index_of user ps (i + 1))"

definition player :: "State \<Rightarrow> bytes \<Rightarrow> int" where
  "player s user = index_of user (Players s) 0"

definition sunk :: "Ship \<Rightarrow> Shot list \<Rightarrow> bool" where
  "sunk ship shots \<longleftrightarrow> list_all (\<lambda>c. list_ex (\<lambda>shot. Shot_Cell shot = c \<and> Shot_Hit shot) shots) (cells ship)"

definition ships_of :: "State \<Rightarrow> int \<Rightarrow> Ship list" where
  "ships_of s p = valueOr [] (Ships s ! nat p)"

definition shots_of :: "State \<Rightarrow> int \<Rightarrow> Shot list" where
  "shots_of s p = valueOr [] (Shots s ! nat p)"

definition view :: "State \<Rightarrow> int \<Rightarrow> View" where
  "view s p =
     (let enemy = 1 - p;
          visible = filter (\<lambda>ship. Phase s = ''finished'' \<or> Phase s = ''cancelled'' \<or> sunk ship (shots_of s p))
            (ships_of s enemy)
      in \<lparr>V_ID = '''', V_Revision = 0, V_OpponentID = Players s ! nat enemy, V_OpponentName = '''',
          V_Phase = Phase s, V_YourTurn = (Phase s = ''battle'' \<and> Turn s = p),
          V_Ready = Ready s ! nat p, V_EnemyReady = Ready s ! nat enemy,
          V_OwnShips = ships_of s p, V_EnemyShips = visible,
          V_Shots = shots_of s p, V_Incoming = shots_of s enemy,
          V_Winner = Winner s, V_EndOffer = EndOffer s,
          V_RematchRequested = Rematch s ! nat p, V_EnemyRematchRequested = Rematch s ! nat enemy,
          V_NextMatchID = NextMatchID s\<rparr>)"

definition place_fleet :: "State \<Rightarrow> int \<Rightarrow> Action \<Rightarrow> battle_error + State" where
  "place_fleet s p a =
     (if Phase s \<noteq> ''placement'' \<or> Ready s ! nat p \<or>
         \<not> validFleet (valueOr [] (Action_Ships a)) (Kind a = ''ready'') then Inl ErrInvalid
      else
        let s1 = s\<lparr>Ships := (Ships s)[nat p := Some (valueOr [] (Action_Ships a))],
                   Ready := (Ready s)[nat p := (Kind a = ''ready'')]\<rparr> in
        Inr (if Ready s1 ! 0 \<and> Ready s1 ! 1 then s1\<lparr>Phase := ''battle''\<rparr> else s1))"

definition fire :: "State \<Rightarrow> int \<Rightarrow> Action \<Rightarrow> battle_error + State" where
  "fire s p a =
     (if Phase s \<noteq> ''battle'' \<or> Turn s \<noteq> p \<or> Action_Cell a < 0 \<or> Action_Cell a \<ge> 100 then Inl ErrInvalid
      else if list_ex (\<lambda>shot. Shot_Cell shot = Action_Cell a) (shots_of s p) then Inl ErrInvalid
      else
        let hit = list_ex (\<lambda>ship. list_ex (\<lambda>c. c = Action_Cell a) (cells ship)) (ships_of s (1 - p));
            s1 = s\<lparr>Shots := (Shots s)[nat p := Some (shots_of s p @ [\<lparr>Shot_Cell = Action_Cell a, Shot_Hit = hit\<rparr>])],
                   Turn := 1 - p\<rparr>;
            all_sunk = list_all (\<lambda>ship. sunk ship (shots_of s1 p)) (ships_of s1 (1 - p)) in
        Inr (if all_sunk
             then s1\<lparr>Phase := ''finished'', Winner := Players s1 ! nat p, EndOffer := ''''\<rparr>
             else s1))"

definition apply_action :: "State \<Rightarrow> int \<Rightarrow> Action \<Rightarrow> battle_error + State" where
  "apply_action s p a =
     (if p < 0 \<or> p > 1 then Inl ErrNotFound
      else if Kind a \<noteq> ''fire'' \<and> Action_Cell a \<noteq> 0 \<or>
              Kind a \<noteq> ''save'' \<and> Kind a \<noteq> ''ready'' \<and> length (valueOr [] (Action_Ships a)) \<noteq> 0
      then Inl ErrInvalid
      else if Kind a = ''save'' \<or> Kind a = ''ready'' then place_fleet s p a
      else if Kind a = ''fire'' then fire s p a
      else if Kind a = ''cancel'' then
        (if Phase s \<noteq> ''placement'' then Inl ErrInvalid else Inr (s\<lparr>Phase := ''cancelled''\<rparr>))
      else if Kind a = ''resign'' then
        (if Phase s \<noteq> ''battle'' then Inl ErrInvalid
         else Inr (s\<lparr>Phase := ''finished'', Winner := Players s ! nat (1 - p), EndOffer := ''''\<rparr>))
      else if Kind a = ''offer_end'' then
        (if Phase s \<noteq> ''battle'' \<or> EndOffer s = Players s ! nat p then Inl ErrInvalid
         else if EndOffer s \<noteq> '''' then Inr (s\<lparr>Phase := ''cancelled'', EndOffer := ''''\<rparr>)
         else Inr (s\<lparr>EndOffer := Players s ! nat p\<rparr>))
      else if Kind a = ''decline_end'' then
        (if Phase s \<noteq> ''battle'' \<or> EndOffer s = '''' then Inl ErrInvalid
         else Inr (s\<lparr>EndOffer := ''''\<rparr>))
      else if Kind a = ''rematch'' then
        (if Phase s \<noteq> ''finished'' \<and> Phase s \<noteq> ''cancelled'' \<or> Rematch s ! nat p then Inl ErrInvalid
         else Inr (s\<lparr>Rematch := (Rematch s)[nat p := True]\<rparr>))
      else Inl ErrInvalid)"

subsection \<open>The fleet rule\<close>

text \<open>The squares of a ship on the ten by ten grid, as rows and columns.\<close>

definition squares :: "Ship \<Rightarrow> (int \<times> int) set" where
  "squares s =
     {(Ship_Cell s div 10 + (if Ship_Vertical s then i else 0),
       Ship_Cell s mod 10 + (if Ship_Vertical s then 0 else i)) | i.
      0 \<le> i \<and> i < int (lengths ! nat (Ship_ID s))}"

definition fleet_ok :: "Ship list \<Rightarrow> bool" where
  "fleet_ok ships \<longleftrightarrow>
     (\<forall>s\<in>set ships. 0 \<le> Ship_ID s \<and> Ship_ID s < 5 \<and> squares s \<subseteq> {0..9} \<times> {0..9}) \<and>
     distinct (map Ship_ID ships) \<and>
     (\<forall>s\<in>set ships. \<forall>t\<in>set ships. s \<noteq> t \<longrightarrow> squares s \<inter> squares t = {})"

definition on_board :: "Ship \<Rightarrow> bool" where
  "on_board s \<longleftrightarrow> 0 \<le> Ship_ID s \<and> Ship_ID s < 5 \<and> 0 \<le> Ship_Cell s \<and> Ship_Cell s < 100 \<and>
     (\<forall>c\<in>set (cells s). c < 100 \<and> (\<not> Ship_Vertical s \<longrightarrow> c div 10 = Ship_Cell s div 10))"

definition square :: "int \<Rightarrow> int \<times> int" where
  "square c = (c div 10, c mod 10)"

lemma lengths_bounds: "0 \<le> i \<Longrightarrow> i < 5 \<Longrightarrow> 2 \<le> lengths ! nat i \<and> lengths ! nat i \<le> 5"
proof -
  assume "0 \<le> i" "i < 5"
  then have "nat i \<in> {0, 1, 2, 3, 4}" by auto
  then show ?thesis by (auto simp: lengths_def)
qed

lemma cells_eq:
  assumes "0 \<le> Ship_ID s" "Ship_ID s < 5" "0 \<le> Ship_Cell s" "Ship_Cell s < 100"
  shows "cells s = map (\<lambda>i. Ship_Cell s + int i * (if Ship_Vertical s then 10 else 1)) [0..<lengths ! nat (Ship_ID s)]"
proof -
  have "i64 (Ship_Cell s + int i * (if Ship_Vertical s then 10 else 1)) =
      Ship_Cell s + int i * (if Ship_Vertical s then 10 else 1)" if "i < lengths ! nat (Ship_ID s)" for i
    using that lengths_bounds [OF assms(1,2)] assms by (intro i64_id is_i64_small) auto
  then show ?thesis using assms by (simp add: cells_def lengths_def)
qed

lemma cells_range:
  assumes "on_board s" "c \<in> set (cells s)"
  shows "0 \<le> c" and "c < 100"
  using assms cells_eq [of s] by (auto simp: on_board_def)

lemma distinct_cells: "on_board s \<Longrightarrow> distinct (cells s)"
  using cells_eq [of s] by (simp add: on_board_def distinct_map inj_on_def)

lemma cells_nonempty: "on_board s \<Longrightarrow> cells s \<noteq> []"
  using cells_eq [of s] lengths_bounds [of "Ship_ID s"] by (auto simp: on_board_def)

lemma square_inj: "square c = square d \<longleftrightarrow> c = d"
  unfolding square_def by (metis div_mod_decomp_int prod.inject)

lemma squares_cells: "on_board s \<Longrightarrow> squares s = square ` set (cells s)"
proof -
  assume b: "on_board s"
  let ?st = "if Ship_Vertical s then 10 else 1 :: int" and ?n = "lengths ! nat (Ship_ID s)"
  have c: "set (cells s) = (\<lambda>i. Ship_Cell s + int i * ?st) ` {0..<?n}"
    using b cells_eq [of s] by (simp add: on_board_def)
  have sq: "square (Ship_Cell s + int i * ?st) =
      (Ship_Cell s div 10 + (if Ship_Vertical s then int i else 0),
       Ship_Cell s mod 10 + (if Ship_Vertical s then 0 else int i))" if "i < ?n" for i
  proof (cases "Ship_Vertical s")
    case True
    then show ?thesis by (simp add: square_def)
  next
    case False
    with that c have "Ship_Cell s + int i \<in> set (cells s)" by auto
    with b False have "(Ship_Cell s + int i) div 10 = Ship_Cell s div 10" by (auto simp: on_board_def)
    moreover from this have "(Ship_Cell s + int i) mod 10 = Ship_Cell s mod 10 + int i"
      using div_mod_decomp_int [of "Ship_Cell s + int i" 10] div_mod_decomp_int [of "Ship_Cell s" 10] by linarith
    ultimately show ?thesis using False by (simp add: square_def)
  qed
  have "squares s = (\<lambda>i. square (Ship_Cell s + int i * ?st)) ` {0..<?n}"
  proof
    show "squares s \<subseteq> (\<lambda>i. square (Ship_Cell s + int i * ?st)) ` {0..<?n}"
    proof
      fix x assume "x \<in> squares s"
      then obtain i where i: "0 \<le> i" "i < int ?n"
        and x: "x = (Ship_Cell s div 10 + (if Ship_Vertical s then i else 0),
          Ship_Cell s mod 10 + (if Ship_Vertical s then 0 else i))" unfolding squares_def by blast
      then have "nat i < ?n" by simp
      with sq [OF this] x i show "x \<in> (\<lambda>i. square (Ship_Cell s + int i * ?st)) ` {0..<?n}"
        by (intro image_eqI [of _ _ "nat i"]) simp_all
    qed
  next
    show "(\<lambda>i. square (Ship_Cell s + int i * ?st)) ` {0..<?n} \<subseteq> squares s"
    proof
      fix x assume "x \<in> (\<lambda>i. square (Ship_Cell s + int i * ?st)) ` {0..<?n}"
      then obtain i where i: "i < ?n" and x: "x = square (Ship_Cell s + int i * ?st)" by auto
      show "x \<in> squares s"
        unfolding x sq [OF i] squares_def using i by (intro CollectI exI [of _ "int i"]) simp
    qed
  qed
  then show ?thesis unfolding c by (simp add: image_image)
qed

lemma on_board_iff:
  "on_board s \<longleftrightarrow> 0 \<le> Ship_ID s \<and> Ship_ID s < 5 \<and> squares s \<subseteq> {0..9} \<times> {0..9}"
proof
  assume b: "on_board s"
  have "square c \<in> {0..9} \<times> {0..9}" if "c \<in> set (cells s)" for c
    using cells_range [OF b that] by (auto simp: square_def)
  then have "square ` set (cells s) \<subseteq> {0..9} \<times> {0..9}" by blast
  with b show "0 \<le> Ship_ID s \<and> Ship_ID s < 5 \<and> squares s \<subseteq> {0..9} \<times> {0..9}"
    unfolding squares_cells [OF b] on_board_def by blast
next
  assume a: "0 \<le> Ship_ID s \<and> Ship_ID s < 5 \<and> squares s \<subseteq> {0..9} \<times> {0..9}"
  let ?n = "lengths ! nat (Ship_ID s)"
  have n: "2 \<le> ?n" using a lengths_bounds by blast
  have in_sq: "(Ship_Cell s div 10 + (if Ship_Vertical s then i else 0),
       Ship_Cell s mod 10 + (if Ship_Vertical s then 0 else i)) \<in> {0..9} \<times> {0..9}" if "0 \<le> i" "i < int ?n" for i
    using a that unfolding squares_def by blast
  from in_sq [of 0] n have r: "0 \<le> Ship_Cell s div 10" "Ship_Cell s div 10 \<le> 9" by auto
  then have c: "0 \<le> Ship_Cell s" "Ship_Cell s < 100" by linarith+
  have "x < 100 \<and> (\<not> Ship_Vertical s \<longrightarrow> x div 10 = Ship_Cell s div 10)" if x: "x \<in> set (cells s)" for x
  proof -
    from x a c obtain i where i: "i < ?n" "x = Ship_Cell s + int i * (if Ship_Vertical s then 10 else 1)"
      by (auto simp: cells_eq)
    have k: "a mod 10 + k \<le> 9 \<Longrightarrow> a div 10 \<le> 9 \<Longrightarrow> 0 \<le> k \<Longrightarrow> a + k < 100 \<and> (a + k) div 10 = a div 10" for a k :: int
    proof -
      assume a: "a mod 10 + k \<le> 9" "a div 10 \<le> 9" "0 \<le> k"
      have e: "a + k = 10 * (a div 10) + (a mod 10 + k)" by simp
      have "(a + k) div 10 = a div 10" by (rule int_div_pos_eq [OF e]) (use a in simp_all)
      then show ?thesis using e a by linarith
    qed
    show ?thesis
    proof (cases "Ship_Vertical s")
      case True
      with i in_sq [of "int i"] show ?thesis by auto
    next
      case False
      with i in_sq [of "int i"] show ?thesis using k [of "Ship_Cell s" "int i"] by simp
    qed
  qed
  with a c show "on_board s" by (simp add: on_board_def)
qed

lemma claim_iff:
  "claim s cs occ = Some occ' \<longleftrightarrow>
     (\<forall>c\<in>set cs. c < 100 \<and> (\<not> Ship_Vertical s \<longrightarrow> c div 10 = Ship_Cell s div 10)) \<and>
     distinct cs \<and> set cs \<inter> set occ = {} \<and> occ' = rev cs @ occ"
  by (induction cs arbitrary: occ) auto

lemma pairwise_insert:
  assumes "\<And>x y. D x y \<longleftrightarrow> D y x"
  shows "(\<forall>x\<in>insert s S. \<forall>y\<in>insert s S. x \<noteq> y \<longrightarrow> D x y) \<longleftrightarrow>
    (\<forall>t\<in>S. t \<noteq> s \<longrightarrow> D t s) \<and> (\<forall>x\<in>S. \<forall>y\<in>S. x \<noteq> y \<longrightarrow> D x y)"
  using assms by auto

lemma fleet_loop_iff:
  "fleet_loop ships seen occ \<longleftrightarrow>
     (\<forall>s\<in>set ships. on_board s \<and> Ship_ID s \<notin> set seen \<and> set (cells s) \<inter> set occ = {}) \<and>
     distinct (map Ship_ID ships) \<and>
     (\<forall>s\<in>set ships. \<forall>t\<in>set ships. s \<noteq> t \<longrightarrow> set (cells s) \<inter> set (cells t) = {})"
proof (induction ships arbitrary: seen occ)
  case (Cons s ships)
  show ?case
  proof (cases "on_board s \<and> Ship_ID s \<notin> set seen \<and> set (cells s) \<inter> set occ = {}")
    case True
    then have "claim s (cells s) occ = Some (rev (cells s) @ occ)"
      by (auto simp: claim_iff distinct_cells on_board_def)
    moreover have "\<not> (Ship_ID s < 0 \<or> Ship_ID s \<ge> 5 \<or> Ship_ID s \<in> set seen \<or> Ship_Cell s < 0 \<or> Ship_Cell s \<ge> 100)"
      using True by (auto simp: on_board_def)
    ultimately have "fleet_loop (s # ships) seen occ \<longleftrightarrow> fleet_loop ships (Ship_ID s # seen) (rev (cells s) @ occ)"
      by simp
    also have "\<dots> \<longleftrightarrow> (\<forall>t\<in>set ships. on_board t \<and> Ship_ID t \<noteq> Ship_ID s \<and> Ship_ID t \<notin> set seen \<and>
         set (cells t) \<inter> set (cells s) = {} \<and> set (cells t) \<inter> set occ = {}) \<and>
      distinct (map Ship_ID ships) \<and>
      (\<forall>s\<in>set ships. \<forall>t\<in>set ships. s \<noteq> t \<longrightarrow> set (cells s) \<inter> set (cells t) = {})"
      unfolding Cons.IH by auto
    finally have f: "fleet_loop (s # ships) seen occ \<longleftrightarrow> (\<forall>t\<in>set ships. on_board t \<and> Ship_ID t \<noteq> Ship_ID s \<and>
         Ship_ID t \<notin> set seen \<and> set (cells t) \<inter> set (cells s) = {} \<and> set (cells t) \<inter> set occ = {}) \<and>
      distinct (map Ship_ID ships) \<and>
      (\<forall>s\<in>set ships. \<forall>t\<in>set ships. s \<noteq> t \<longrightarrow> set (cells s) \<inter> set (cells t) = {})" .
    have d: "distinct (map Ship_ID (s # ships)) \<longleftrightarrow> (\<forall>t\<in>set ships. Ship_ID t \<noteq> Ship_ID s) \<and> distinct (map Ship_ID ships)"
      by (simp add: image_iff) metis
    have sym: "set (cells x) \<inter> set (cells y) = {} \<longleftrightarrow> set (cells y) \<inter> set (cells x) = {}" for x y by blast
    have ne: "Ship_ID t \<noteq> Ship_ID s \<Longrightarrow> t \<noteq> s" for t by auto
    show ?thesis
      unfolding f d list.set pairwise_insert [of "\<lambda>s t. set (cells s) \<inter> set (cells t) = {}", OF sym]
      using True ne by blast
  next
    case False
    have "\<not> fleet_loop (s # ships) seen occ"
    proof
      assume f: "fleet_loop (s # ships) seen occ"
      then have i: "\<not> (Ship_ID s < 0 \<or> Ship_ID s \<ge> 5 \<or> Ship_ID s \<in> set seen \<or> Ship_Cell s < 0 \<or> Ship_Cell s \<ge> 100)"
        by (simp split: if_splits)
      with f obtain occ' where "claim s (cells s) occ = Some occ'" by (auto split: option.splits)
      with i False show False by (auto simp: claim_iff on_board_def)
    qed
    with False show ?thesis by auto
  qed
qed simp

lemma validFleet_iff: "validFleet ships complete \<longleftrightarrow>
    length ships \<le> 5 \<and> (complete \<longrightarrow> length ships = 5) \<and> fleet_ok ships"
proof -
  have "squares s \<inter> squares t = {} \<longleftrightarrow> set (cells s) \<inter> set (cells t) = {}" if "on_board s" "on_board t" for s t
    using that squares_cells by (auto simp: square_inj)
  then have "(\<forall>s\<in>set ships. \<forall>t\<in>set ships. s \<noteq> t \<longrightarrow> squares s \<inter> squares t = {}) \<longleftrightarrow>
      (\<forall>s\<in>set ships. \<forall>t\<in>set ships. s \<noteq> t \<longrightarrow> set (cells s) \<inter> set (cells t) = {})"
    if "\<forall>s\<in>set ships. on_board s" using that by blast
  then have "fleet_loop ships [] [] \<longleftrightarrow> fleet_ok ships"
    unfolding fleet_loop_iff fleet_ok_def on_board_iff [symmetric] by simp blast
  then show ?thesis by (auto simp: validFleet_def)
qed

subsection \<open>The invariant of a match\<close>

definition fleets_ok :: "State \<Rightarrow> bool" where
  "fleets_ok s \<longleftrightarrow>
     length (Ships s) = 2 \<and> length (Ready s) = 2 \<and> length (Shots s) = 2 \<and> length (Rematch s) = 2 \<and>
     (\<forall>p\<in>{0, 1}. length (ships_of s p) \<le> 5 \<and> fleet_ok (ships_of s p) \<and>
       (Ready s ! nat p \<longrightarrow> length (ships_of s p) = 5))"

definition ship_at :: "Ship list \<Rightarrow> int \<Rightarrow> bool" where
  "ship_at ships c \<longleftrightarrow> (\<exists>ship\<in>set ships. c \<in> set (cells ship))"

definition shots_ok :: "State \<Rightarrow> bool" where
  "shots_ok s \<longleftrightarrow>
     (\<forall>p\<in>{0, 1}. distinct (map Shot_Cell (shots_of s p)) \<and>
       (\<forall>shot\<in>set (shots_of s p). 0 \<le> Shot_Cell shot \<and> Shot_Cell shot < 100 \<and>
          (Shot_Hit shot \<longleftrightarrow> ship_at (ships_of s (1 - p)) (Shot_Cell shot))))"

definition afloat :: "State \<Rightarrow> int \<Rightarrow> bool" where
  "afloat s p \<longleftrightarrow> (\<exists>ship\<in>set (ships_of s p). \<not> sunk ship (shots_of s (1 - p)))"

definition turns_ok :: "State \<Rightarrow> bool" where
  "turns_ok s \<longleftrightarrow>
     First s \<in> {0, 1} \<and> Turn s \<in> {0, 1} \<and>
     int (length (shots_of s (First s))) =
       int (length (shots_of s (1 - First s))) + (if Turn s = First s then 0 else 1) \<and>
     length (shots_of s 0) + length (shots_of s 1) \<le> 199"

definition phase_ok :: "bytes \<Rightarrow> bytes \<Rightarrow> State \<Rightarrow> bool" where
  "phase_ok a b s \<longleftrightarrow>
     Players s = [a, b] \<and>
     (if Phase s = ''placement'' then
        \<not> (Ready s ! 0 \<and> Ready s ! 1) \<and> shots_of s 0 = [] \<and> shots_of s 1 = [] \<and> Winner s = '''' \<and>
        EndOffer s = '''' \<and> Rematch s = [False, False]
      else if Phase s = ''battle'' then
        Ready s ! 0 \<and> Ready s ! 1 \<and> afloat s 0 \<and> afloat s 1 \<and> Winner s = '''' \<and>
        EndOffer s \<in> {'''', a, b} \<and> Rematch s = [False, False]
      else if Phase s = ''finished'' then
        Ready s ! 0 \<and> Ready s ! 1 \<and> Winner s \<in> {a, b} \<and> EndOffer s = ''''
      else Phase s = ''cancelled'' \<and> Winner s = '''' \<and> EndOffer s = '''')"

definition match_ok :: "bytes \<Rightarrow> bytes \<Rightarrow> State \<Rightarrow> bool" where
  "match_ok a b s \<longleftrightarrow> fleets_ok s \<and> shots_ok s \<and> turns_ok s \<and> phase_ok a b s"

lemma of_sel [simp]:
  "ships_of (s\<lparr>Ready := r\<rparr>) p = ships_of s p" "ships_of (s\<lparr>Shots := sh\<rparr>) p = ships_of s p"
  "ships_of (s\<lparr>Phase := ph\<rparr>) p = ships_of s p" "ships_of (s\<lparr>Turn := t\<rparr>) p = ships_of s p"
  "ships_of (s\<lparr>Winner := w\<rparr>) p = ships_of s p" "ships_of (s\<lparr>EndOffer := e\<rparr>) p = ships_of s p"
  "ships_of (s\<lparr>Rematch := rm\<rparr>) p = ships_of s p" "ships_of (s\<lparr>NextMatchID := n\<rparr>) p = ships_of s p"
  "shots_of (s\<lparr>Ready := r\<rparr>) p = shots_of s p" "shots_of (s\<lparr>Ships := shs\<rparr>) p = shots_of s p"
  "shots_of (s\<lparr>Phase := ph\<rparr>) p = shots_of s p" "shots_of (s\<lparr>Turn := t\<rparr>) p = shots_of s p"
  "shots_of (s\<lparr>Winner := w\<rparr>) p = shots_of s p" "shots_of (s\<lparr>EndOffer := e\<rparr>) p = shots_of s p"
  "shots_of (s\<lparr>Rematch := rm\<rparr>) p = shots_of s p" "shots_of (s\<lparr>NextMatchID := n\<rparr>) p = shots_of s p"
  by (simp_all add: ships_of_def shots_of_def)

lemma of_update:
  assumes "p \<in> {0, 1}" "q \<in> {0, 1}"
  shows "length (Ships s) = 2 \<Longrightarrow> ships_of (s\<lparr>Ships := (Ships s)[nat p := Some f]\<rparr>) q = (if q = p then f else ships_of s q)"
    and "length (Shots s) = 2 \<Longrightarrow> shots_of (s\<lparr>Shots := (Shots s)[nat p := Some l]\<rparr>) q = (if q = p then l else shots_of s q)"
  using assms by (auto simp: ships_of_def shots_of_def nth_list_update)

lemma sunk_iff:
  assumes "shots_ok s" "p \<in> {0, 1}" "ship \<in> set (ships_of s (1 - p))"
  shows "sunk ship (shots_of s p) \<longleftrightarrow> set (cells ship) \<subseteq> Shot_Cell ` set (shots_of s p)"
proof
  assume "sunk ship (shots_of s p)"
  then show "set (cells ship) \<subseteq> Shot_Cell ` set (shots_of s p)"
    by (auto simp: sunk_def list_all_iff list_ex_iff image_iff)
next
  assume sub: "set (cells ship) \<subseteq> Shot_Cell ` set (shots_of s p)"
  show "sunk ship (shots_of s p)"
    unfolding sunk_def list_all_iff list_ex_iff
  proof
    fix c assume c: "c \<in> set (cells ship)"
    with sub obtain shot where shot: "shot \<in> set (shots_of s p)" "Shot_Cell shot = c" by auto
    moreover have "Shot_Hit shot" using assms shot c unfolding shots_ok_def ship_at_def by blast
    ultimately show "\<exists>x\<in>set (shots_of s p). Shot_Cell x = c \<and> Shot_Hit x" by blast
  qed
qed

lemma shots_bound:
  assumes "shots_ok s" "p \<in> {0, 1}" "afloat s (1 - p)" "fleets_ok s"
  shows "length (shots_of s p) \<le> 99"
    and "\<exists>c. 0 \<le> c \<and> c < 100 \<and> c \<notin> Shot_Cell ` set (shots_of s p)"
proof -
  obtain ship where ship: "ship \<in> set (ships_of s (1 - p))" and ns: "\<not> sunk ship (shots_of s p)"
    using assms(3) unfolding afloat_def by auto
  then obtain c where c: "c \<in> set (cells ship)" "c \<notin> Shot_Cell ` set (shots_of s p)"
    using sunk_iff [OF assms(1,2) ship] by auto
  have "1 - p \<in> {0, 1}" using assms(2) by auto
  then have "on_board ship" using assms(4) ship unfolding fleets_ok_def fleet_ok_def on_board_iff by blast
  then have r: "0 \<le> c" "c < 100" using cells_range c(1) by blast+
  then show "\<exists>c. 0 \<le> c \<and> c < 100 \<and> c \<notin> Shot_Cell ` set (shots_of s p)" using c(2) by blast
  have d: "distinct (map Shot_Cell (shots_of s p))" and i: "\<forall>x\<in>Shot_Cell ` set (shots_of s p). 0 \<le> x \<and> x < 100"
    using assms(1,2) unfolding shots_ok_def by blast+
  have "length (shots_of s p) = card (Shot_Cell ` set (shots_of s p))"
    using distinct_card [OF d] by simp
  also have "\<dots> \<le> card ({0..<100} - {c})" by (rule card_mono) (use i c in auto)
  also have "\<dots> = 99" using r by simp
  finally show "length (shots_of s p) \<le> 99" .
qed

lemma place_ok:
  assumes ok: "match_ok a b s" and p: "p \<in> {0, 1}" and k: "Kind act \<in> {''save'', ''ready''}"
    and r: "place_fleet s p act = Inr s'"
  shows "match_ok a b s'"
proof -
  let ?f = "valueOr [] (Action_Ships act)" and ?r = "Kind act = ''ready''"
  let ?s1 = "s\<lparr>Ships := (Ships s)[nat p := Some ?f], Ready := (Ready s)[nat p := ?r]\<rparr>"
  have ph: "Phase s = ''placement''" and vf: "validFleet ?f ?r"
    and s': "s' = (if Ready ?s1 ! 0 \<and> Ready ?s1 ! 1 then ?s1\<lparr>Phase := ''battle''\<rparr> else ?s1)"
    using r by (auto simp: place_fleet_def Let_def split: if_splits)
  have fo: "fleets_ok s" and po: "phase_ok a b s" and so: "shots_ok s" and t: "turns_ok s"
    using ok by (simp_all add: match_ok_def)
  have l: "length (Ships s) = 2" "length (Ready s) = 2" using fo by (simp_all add: fleets_ok_def)
  have sh: "ships_of ?s1 q = (if q = p then ?f else ships_of s q)" if "q \<in> {0, 1}" for q
    using of_update(1) [OF p that l(1)] by simp
  have rd: "Ready ?s1 ! nat q = (if q = p then ?r else Ready s ! nat q)" if "q \<in> {0, 1}" for q
    using p that l(2) by (auto simp: nth_list_update)
  have f1: "fleets_ok ?s1"
  proof -
    have "length (ships_of ?s1 q) \<le> 5 \<and> fleet_ok (ships_of ?s1 q) \<and>
       (Ready ?s1 ! nat q \<longrightarrow> length (ships_of ?s1 q) = 5)" if q: "q \<in> {0, 1}" for q
    proof -
      have "length (ships_of s q) \<le> 5 \<and> fleet_ok (ships_of s q) \<and> (Ready s ! nat q \<longrightarrow> length (ships_of s q) = 5)"
        using fo q unfolding fleets_ok_def by blast
      then show ?thesis using vf unfolding sh [OF q] rd [OF q] validFleet_iff by simp
    qed
    moreover have "length (Ships ?s1) = 2 \<and> length (Ready ?s1) = 2 \<and> length (Shots ?s1) = 2 \<and> length (Rematch ?s1) = 2"
      using fo by (simp add: fleets_ok_def)
    ultimately show ?thesis unfolding fleets_ok_def by blast
  qed
  have e: "shots_of s 0 = []" "shots_of s 1 = []" using po ph by (simp_all add: phase_ok_def)
  then have so1: "shots_ok ?s1" and t1: "turns_ok ?s1"
    using t p by (auto simp: shots_ok_def turns_ok_def)
  have float: "afloat ?s1 q" if "Ready ?s1 ! 0 \<and> Ready ?s1 ! 1" "q \<in> {0, 1}" for q
  proof -
    have "Ready ?s1 ! nat q" using that by auto
    then have "length (ships_of ?s1 q) = 5" "fleet_ok (ships_of ?s1 q)"
      using f1 that(2) unfolding fleets_ok_def by blast+
    then obtain ship where ship: "ship \<in> set (ships_of ?s1 q)" "on_board ship"
      unfolding fleet_ok_def on_board_iff [symmetric] by (cases "ships_of ?s1 q") auto
    moreover have "shots_of ?s1 (1 - q) = []" using e that(2) by auto
    ultimately show ?thesis
      using cells_nonempty [OF ship(2)] unfolding afloat_def
      by (intro bexI [of _ ship]) (auto simp: sunk_def list_all_iff neq_Nil_conv)
  qed
  have "match_ok a b ?s1" if "\<not> (Ready ?s1 ! 0 \<and> Ready ?s1 ! 1)"
    using f1 so1 t1 po ph that e unfolding match_ok_def phase_ok_def by simp
  moreover have "match_ok a b (?s1\<lparr>Phase := ''battle''\<rparr>)" if rr: "Ready ?s1 ! 0 \<and> Ready ?s1 ! 1"
    using f1 so1 t1 po ph rr float [OF rr, of 0] float [OF rr, of 1]
    unfolding match_ok_def phase_ok_def fleets_ok_def shots_ok_def turns_ok_def afloat_def by simp
  ultimately show ?thesis unfolding s' by simp
qed

lemma match_ok_cases:
  assumes "p \<in> {0, 1 :: int}"
  shows "1 - p \<in> {0, 1}" and "1 - p \<noteq> p" and "1 - (1 - p) = p"
  using assms by auto

lemma fire_ok:
  assumes ok: "match_ok a b s" and p: "p \<in> {0, 1}" and r: "fire s p act = Inr s'"
  shows "match_ok a b s'"
proof -
  let ?c = "Action_Cell act" and ?q = "1 - p"
  define h where "h = ship_at (ships_of s ?q) ?c"
  define sh where "sh = shots_of s p @ [\<lparr>Shot_Cell = ?c, Shot_Hit = h\<rparr>]"
  define s1 where "s1 = s\<lparr>Shots := (Shots s)[nat p := Some sh], Turn := ?q\<rparr>"
  note q = match_ok_cases [OF p]
  have ph: "Phase s = ''battle''" and tn: "Turn s = p" and c: "0 \<le> ?c" "?c < 100"
    and new: "?c \<notin> Shot_Cell ` set (shots_of s p)"
    using r by (auto simp: fire_def Let_def list_ex_iff split: if_splits)
  have hit: "list_ex (\<lambda>ship. list_ex (\<lambda>c. c = ?c) (cells ship)) (ships_of s ?q) = h"
    by (auto simp: h_def ship_at_def list_ex_iff)
  have s': "s' = (if list_all (\<lambda>ship. sunk ship (shots_of s1 p)) (ships_of s1 ?q)
      then s1\<lparr>Phase := ''finished'', Winner := Players s1 ! nat p, EndOffer := ''''\<rparr> else s1)"
    using r ph tn c new unfolding fire_def hit Let_def s1_def sh_def by (auto simp: list_ex_iff split: if_splits)
  have fo: "fleets_ok s" and po: "phase_ok a b s" and so: "shots_ok s" and t: "turns_ok s"
    using ok by (simp_all add: match_ok_def)
  have l: "length (Shots s) = 2" using fo by (simp add: fleets_ok_def)
  have shs: "shots_of s1 x = (if x = p then sh else shots_of s x)" if "x \<in> {0, 1}" for x
    using of_update(2) [OF p that l] by (simp add: s1_def)
  have ships: "ships_of s1 x = ships_of s x" for x by (simp add: s1_def)
  have fl: "afloat s 0" "afloat s 1" using po ph by (simp_all add: phase_ok_def)
  then have fl2: "afloat s ?q" "afloat s p" using p by auto
  have f1: "fleets_ok s1" using fo l by (simp add: fleets_ok_def ships) (simp add: s1_def)
  have so1: "shots_ok s1"
  proof -
    have "distinct (map Shot_Cell (shots_of s1 x)) \<and>
       (\<forall>shot\<in>set (shots_of s1 x). 0 \<le> Shot_Cell shot \<and> Shot_Cell shot < 100 \<and>
          (Shot_Hit shot \<longleftrightarrow> ship_at (ships_of s1 (1 - x)) (Shot_Cell shot)))" if x: "x \<in> {0, 1}" for x
    proof -
      have old: "distinct (map Shot_Cell (shots_of s x))"
        "\<forall>shot\<in>set (shots_of s x). 0 \<le> Shot_Cell shot \<and> Shot_Cell shot < 100 \<and>
          (Shot_Hit shot \<longleftrightarrow> ship_at (ships_of s (1 - x)) (Shot_Cell shot))"
        using so x unfolding shots_ok_def by blast+
      show ?thesis using old c new unfolding shs [OF x] ships by (cases "x = p") (auto simp: sh_def h_def)
    qed
    then show ?thesis unfolding shots_ok_def by blast
  qed
  have b1: "length (shots_of s p) \<le> 99" by (rule shots_bound(1) [OF so p fl2(1) fo])
  have b2: "length (shots_of s ?q) \<le> 99"
    using shots_bound(1) [OF so q(1) _ fo] fl2(2) by (simp add: q(3))
  have two: "length (shots_of s1 0) + length (shots_of s1 1) = length (shots_of s p) + length (shots_of s ?q) + 1"
    using p by (auto simp: shs sh_def)
  have t1: "turns_ok s1"
  proof -
    have ft: "First s \<in> {0, 1}"
      "int (length (shots_of s (First s))) = int (length (shots_of s (1 - First s))) + (if Turn s = First s then 0 else 1)"
      using t by (simp_all add: turns_ok_def)
    have "int (length (shots_of s1 (First s))) =
       int (length (shots_of s1 (1 - First s))) + (if ?q = First s then 0 else 1)"
    proof (cases "First s = p")
      case True
      then show ?thesis using ft(2) tn p q by (simp add: shs sh_def)
    next
      case False
      then have "First s = ?q" using ft(1) p by auto
      then show ?thesis using ft(2) tn p q by (simp add: shs sh_def)
    qed
    moreover have "First s1 = First s" "Turn s1 = ?q" by (simp_all add: s1_def)
    ultimately show ?thesis using two b1 b2 ft(1) q(1) unfolding turns_ok_def by simp
  qed
  have oth: "afloat s1 p" using fl2(2) q(1,2) by (simp add: afloat_def shs [OF q(1)] ships)
  have pl: "Players s = [a, b]" using po by (simp add: phase_ok_def)
  show ?thesis
  proof (cases "list_all (\<lambda>ship. sunk ship (shots_of s1 p)) (ships_of s1 ?q)")
    case True
    let ?s2 = "s1\<lparr>Phase := ''finished'', Winner := Players s1 ! nat p, EndOffer := ''''\<rparr>"
    have "Players s1 ! nat p \<in> {a, b}" using pl p by (auto simp: s1_def)
    moreover have "Ready s1 = Ready s" "Players s1 = Players s" by (simp_all add: s1_def)
    ultimately have "phase_ok a b ?s2" using po ph by (simp add: phase_ok_def)
    then show ?thesis using f1 so1 t1 unfolding s' if_P [OF True] match_ok_def
      by (simp add: fleets_ok_def shots_ok_def turns_ok_def)
  next
    case False
    then have "afloat s1 ?q" using q(3) by (auto simp: afloat_def list_all_iff)
    with oth p have "afloat s1 0" "afloat s1 1" by auto
    moreover have "Ready s1 = Ready s" "Players s1 = Players s" "Phase s1 = Phase s" "Winner s1 = Winner s"
      "EndOffer s1 = EndOffer s" "Rematch s1 = Rematch s" by (simp_all add: s1_def)
    ultimately have "phase_ok a b s1" using po ph by (simp add: phase_ok_def)
    then show ?thesis using f1 so1 t1 unfolding s' if_not_P [OF False] match_ok_def by simp
  qed
qed

lemma apply_cases:
  assumes "apply_action s p act = Inr s'"
  obtains (place) "p \<in> {0, 1}" "Kind act \<in> {''save'', ''ready''}" "place_fleet s p act = Inr s'"
  | (fire) "p \<in> {0, 1}" "Kind act = ''fire''" "fire s p act = Inr s'"
  | (cancel) "Phase s = ''placement''" "s' = s\<lparr>Phase := ''cancelled''\<rparr>"
  | (resign) "p \<in> {0, 1}" "Phase s = ''battle''"
      "s' = s\<lparr>Phase := ''finished'', Winner := Players s ! nat (1 - p), EndOffer := ''''\<rparr>"
  | (agree) "Phase s = ''battle''" "s' = s\<lparr>Phase := ''cancelled'', EndOffer := ''''\<rparr>"
  | (offer) "p \<in> {0, 1}" "Phase s = ''battle''" "s' = s\<lparr>EndOffer := Players s ! nat p\<rparr>"
  | (decline) "Phase s = ''battle''" "s' = s\<lparr>EndOffer := ''''\<rparr>"
  | (rematch) "Phase s = ''finished'' \<or> Phase s = ''cancelled''" "s' = s\<lparr>Rematch := (Rematch s)[nat p := True]\<rparr>"
proof -
  have p: "p \<in> {0, 1}" using assms by (auto simp: apply_action_def split: if_splits)
  have "Kind act \<in> {''save'', ''ready''} \<or> Kind act = ''fire'' \<or> Kind act = ''cancel'' \<or> Kind act = ''resign'' \<or>
      Kind act = ''offer_end'' \<or> Kind act = ''decline_end'' \<or> Kind act = ''rematch''"
    using assms unfolding apply_action_def by (auto split: if_split_asm)
  then show thesis
  proof (elim disjE)
    assume k: "Kind act \<in> {''save'', ''ready''}"
    then have "apply_action s p act = place_fleet s p act \<or> apply_action s p act = Inl ErrInvalid"
      using p by (auto simp: apply_action_def)
    with k place [OF p k] assms show thesis by auto
  next
    assume k: "Kind act = ''fire''"
    then have "apply_action s p act = fire s p act \<or> apply_action s p act = Inl ErrInvalid"
      using p by (auto simp: apply_action_def)
    with k fire [OF p k] assms show thesis by auto
  next
    assume k: "Kind act = ''cancel''"
    show thesis by (rule cancel) (use assms k p in \<open>simp_all add: apply_action_def split: if_split_asm\<close>)
  next
    assume k: "Kind act = ''resign''"
    show thesis by (rule resign) (use assms k p in \<open>simp_all add: apply_action_def split: if_split_asm\<close>)
  next
    assume k: "Kind act = ''offer_end''"
    show thesis
    proof (cases "EndOffer s = ''''")
      case True
      show thesis by (rule offer) (use assms k p True in \<open>simp_all add: apply_action_def split: if_split_asm\<close>)
    next
      case False
      show thesis by (rule agree) (use assms k p False in \<open>simp_all add: apply_action_def split: if_split_asm\<close>)
    qed
  next
    assume k: "Kind act = ''decline_end''"
    show thesis by (rule decline) (use assms k p in \<open>simp_all add: apply_action_def split: if_split_asm\<close>)
  next
    assume k: "Kind act = ''rematch''"
    show thesis by (rule rematch) (use assms k p in \<open>auto simp add: apply_action_def split: if_split_asm\<close>)
  qed
qed

lemma ok_sel [simp]:
  "fleets_ok (s\<lparr>Phase := ph\<rparr>) = fleets_ok s" "fleets_ok (s\<lparr>Winner := w\<rparr>) = fleets_ok s"
  "fleets_ok (s\<lparr>EndOffer := e\<rparr>) = fleets_ok s" "fleets_ok (s\<lparr>NextMatchID := n\<rparr>) = fleets_ok s"
  "shots_ok (s\<lparr>Phase := ph\<rparr>) = shots_ok s" "shots_ok (s\<lparr>Winner := w\<rparr>) = shots_ok s"
  "shots_ok (s\<lparr>EndOffer := e\<rparr>) = shots_ok s" "shots_ok (s\<lparr>NextMatchID := n\<rparr>) = shots_ok s"
  "shots_ok (s\<lparr>Rematch := rm\<rparr>) = shots_ok s" "turns_ok (s\<lparr>Rematch := rm\<rparr>) = turns_ok s"
  "turns_ok (s\<lparr>Phase := ph\<rparr>) = turns_ok s" "turns_ok (s\<lparr>Winner := w\<rparr>) = turns_ok s"
  "turns_ok (s\<lparr>EndOffer := e\<rparr>) = turns_ok s" "turns_ok (s\<lparr>NextMatchID := n\<rparr>) = turns_ok s"
  "afloat (s\<lparr>Phase := ph\<rparr>) p = afloat s p" "afloat (s\<lparr>Winner := w\<rparr>) p = afloat s p"
  "phase_ok a b (s\<lparr>NextMatchID := n\<rparr>) = phase_ok a b s" "afloat (s\<lparr>EndOffer := e\<rparr>) p = afloat s p" "afloat (s\<lparr>NextMatchID := n\<rparr>) p = afloat s p"
  by (simp_all add: fleets_ok_def shots_ok_def turns_ok_def afloat_def phase_ok_def)

lemma apply_ok:
  assumes ok: "match_ok a b s" and r: "apply_action s p act = Inr s'"
  shows "match_ok a b s'"
  using r
proof (cases rule: apply_cases)
  case place
  then show ?thesis using place_ok [OF ok] by blast
next
  case fire
  then show ?thesis using fire_ok [OF ok] by blast
next
  case cancel
  then show ?thesis
    using ok by (simp add: match_ok_def phase_ok_def)
next
  case resign
  then have "Players s ! nat (1 - p) \<in> {a, b}" using ok by (auto simp: match_ok_def phase_ok_def)
  with resign show ?thesis
    using ok by (simp add: match_ok_def phase_ok_def)
next
  case agree
  then show ?thesis
    using ok by (simp add: match_ok_def phase_ok_def)
next
  case offer
  then have "Players s ! nat p \<in> {a, b}" using ok by (auto simp: match_ok_def phase_ok_def)
  with offer show ?thesis
    using ok by (simp add: match_ok_def phase_ok_def)
next
  case decline
  then show ?thesis
    using ok by (simp add: match_ok_def phase_ok_def)
next
  case rematch
  then have "fleets_ok s' = fleets_ok s" by (simp add: fleets_ok_def)
  moreover have "phase_ok a b s'" using ok rematch by (elim disjE) (simp_all add: match_ok_def phase_ok_def)
  ultimately show ?thesis using ok rematch by (simp add: match_ok_def)
qed

text \<open>
  The states of a match: \<open>apply\<close> runs its actions, and the service fills in the identifier of the
  next match.
\<close>

inductive reachable :: "bytes \<Rightarrow> bytes \<Rightarrow> int \<Rightarrow> State \<Rightarrow> bool" for a b first where
  start: "reachable a b first (newState a b first)"
| act: "reachable a b first s \<Longrightarrow> apply_action s p act = Inr s' \<Longrightarrow> reachable a b first s'"
| link: "reachable a b first s \<Longrightarrow> reachable a b first (s\<lparr>NextMatchID := n\<rparr>)"

lemma new_ok: "first \<in> {0, 1} \<Longrightarrow> match_ok a b (newState a b first)"
  by (auto simp: match_ok_def phase_ok_def fleets_ok_def shots_ok_def turns_ok_def newState_def
      ships_of_def shots_of_def fleet_ok_def)

lemma link_ok: "match_ok a b s \<Longrightarrow> match_ok a b (s\<lparr>NextMatchID := n\<rparr>)"
  by (simp add: match_ok_def)

lemma bs_reachable_ok: "reachable a b first s \<Longrightarrow> first \<in> {0, 1} \<Longrightarrow> match_ok a b s"
  by (induction rule: reachable.induct) (simp_all add: new_ok apply_ok link_ok)

lemma fire_total:
  assumes "fire s p act = Inr s'" and "p \<in> {0, 1}" and "length (Shots s) = 2"
  shows "length (shots_of s' 0) + length (shots_of s' 1) = Suc (length (shots_of s 0) + length (shots_of s 1))"
  using assms of_update(2) [OF assms(2) _ assms(3)]
  by (auto simp: fire_def Let_def split: if_splits)

subsection \<open>Properties\<close>

text \<open>
  C14. The fleet rule: \<open>validFleet\<close>, which walks the cells of the ships with maps of the ids and
  cells seen, accepts exactly the fleets of at most five ships (five when complete) with distinct
  ids 0 to 4 whose squares lie on the ten by ten grid and are pairwise disjoint.
\<close>

theorem battleship_fleet:
  "validFleet ships complete \<longleftrightarrow>
     length ships \<le> 5 \<and> (complete \<longrightarrow> length ships = 5) \<and>
     (\<forall>s\<in>set ships. 0 \<le> Ship_ID s \<and> Ship_ID s < 5 \<and> squares s \<subseteq> {0..9} \<times> {0..9}) \<and>
     distinct (map Ship_ID ships) \<and>
     (\<forall>s\<in>set ships. \<forall>t\<in>set ships. s \<noteq> t \<longrightarrow> squares s \<inter> squares t = {})"
  by (simp add: validFleet_iff fleet_ok_def)

definition sample_fleet :: "Ship list" where
  "sample_fleet = map (\<lambda>i. \<lparr>Ship_Cell = 10 * i, Ship_ID = i, Ship_Vertical = False\<rparr>) [0, 1, 2, 3, 4]"

theorem battleship_fleet_witness: "squares (sample_fleet ! 4) \<subseteq> {0..9} \<times> {0..9}"
proof -
  have "validFleet sample_fleet True" by code_simp
  then have "\<forall>s\<in>set sample_fleet. squares s \<subseteq> {0..9} \<times> {0..9}" unfolding battleship_fleet by blast
  then show ?thesis by (simp add: sample_fleet_def)
qed

text \<open>
  C15. Invariant of all matches: whatever actions are sent, both fleets obey the fleet rule and a
  ready fleet is complete; shots are distinct cells of the grid, marked as hits exactly where the
  other fleet has a ship; the players fire in turns from the first player on; and the phase agrees
  with the rest of the state: no shots and not both ready in placement, both ready and both fleets
  afloat in battle, a winner among the players exactly in a finished match, and a standing offer
  to end only in battle.
\<close>

theorem battleship_invariant:
  "reachable a b first s \<Longrightarrow> first \<in> {0, 1} \<Longrightarrow> match_ok a b s"
  by (rule bs_reachable_ok)

theorem battleship_invariant_witness: "\<exists>s. Phase s = ''cancelled'' \<and> match_ok ''a'' ''b'' s"
proof -
  let ?s = "newState ''a'' ''b'' 0"
  let ?c = "\<lparr>ActionID = '''', Revision = 0, Kind = ''cancel'', Action_Ships = None, Action_Cell = 0\<rparr>"
  have "apply_action ?s 0 ?c = Inr (?s\<lparr>Phase := ''cancelled''\<rparr>)"
    by (simp add: apply_action_def newState_def)
  then have "reachable ''a'' ''b'' 0 (?s\<lparr>Phase := ''cancelled''\<rparr>)" by (rule reachable.act [OF reachable.start])
  from battleship_invariant [OF this] show ?thesis by (intro exI [of _ "?s\<lparr>Phase := ''cancelled''\<rparr>"]) simp
qed

text \<open>
  C16. Hidden information. Until a match has ended, the view of a player shows exactly the enemy ships all of whose cells the
  player has fired at, and is the same for every other fleet of the enemy that agrees on those
  ships. When it is finished or cancelled, the view shows the whole enemy fleet.
\<close>

theorem battleship_view_hides:
  assumes "reachable a b first s" and "first \<in> {0, 1}" and "p \<in> {0, 1}"
  defines "known \<equiv> filter (\<lambda>ship. set (cells ship) \<subseteq> Shot_Cell ` set (shots_of s p)) (ships_of s (1 - p))"
  shows "if Phase s = ''finished'' \<or> Phase s = ''cancelled'' then V_EnemyShips (view s p) = ships_of s (1 - p)
    else V_EnemyShips (view s p) = known \<and>
      (\<forall>fleet. filter (\<lambda>ship. sunk ship (shots_of s p)) fleet = known \<longrightarrow>
         view (s\<lparr>Ships := (Ships s)[nat (1 - p) := Some fleet]\<rparr>) p = view s p)"
proof (cases "Phase s = ''finished'' \<or> Phase s = ''cancelled''")
  case True
  then show ?thesis by (auto simp: view_def Let_def)
next
  case ph: False
  have ok: "fleets_ok s" "shots_ok s" using bs_reachable_ok [OF assms(1,2)] by (simp_all add: match_ok_def)
  note q = match_ok_cases [OF assms(3)]
  have l: "length (Ships s) = 2" using ok(1) by (simp add: fleets_ok_def)
  have k: "filter (\<lambda>ship. sunk ship (shots_of s p)) (ships_of s (1 - p)) = known"
    unfolding known_def by (rule filter_cong [OF refl]) (rule sunk_iff [OF ok(2) assms(3)])
  have v: "V_EnemyShips (view s p) = known" using ph k by (simp add: view_def Let_def)
  have "view (s\<lparr>Ships := (Ships s)[nat (1 - p) := Some fleet]\<rparr>) p = view s p"
    if f: "filter (\<lambda>ship. sunk ship (shots_of s p)) fleet = known" for fleet
  proof -
    let ?s = "s\<lparr>Ships := (Ships s)[nat (1 - p) := Some fleet]\<rparr>"
    have "ships_of ?s (1 - p) = fleet" "ships_of ?s p = ships_of s p"
      using of_update(1) [OF q(1) q(1) l] of_update(1) [OF q(1) assms(3) l] q(2) by simp_all
    then show ?thesis using ph k f by (simp add: view_def Let_def)
  qed
  with v ph show ?thesis by simp
qed

theorem battleship_view_hides_witness:
  "V_EnemyShips (view (newState ''a'' ''b'' 0) 1) = []"
  using battleship_view_hides [OF reachable.start, of 0 1 "''a''" "''b''"]
  by (simp add: newState_def ships_of_def)

text \<open>
  C17. A battle makes progress and ends: in every reachable battle the player whose turn it is has
  a shot that \<open>apply\<close> accepts, every accepted shot adds one to the shots on record, and a match
  never records more than 199, the 200th being impossible since a fleet is sunk before.
\<close>

theorem battleship_progress:
  assumes "reachable a b first s" and "first \<in> {0, 1}" and "Phase s = ''battle''"
  shows "(\<exists>c s'. apply_action s (Turn s)
      \<lparr>ActionID = i, Revision = r, Kind = ''fire'', Action_Ships = None, Action_Cell = c\<rparr> = Inr s') \<and>
    (\<forall>p act s'. apply_action s p act = Inr s' \<and> Kind act = ''fire'' \<longrightarrow>
      length (shots_of s' 0) + length (shots_of s' 1) = Suc (length (shots_of s 0) + length (shots_of s 1)) \<and>
      length (shots_of s' 0) + length (shots_of s' 1) \<le> 199)"
proof
  have ok: "match_ok a b s" by (rule bs_reachable_ok [OF assms(1,2)])
  then have fo: "fleets_ok s" and so: "shots_ok s" and t: "Turn s \<in> {0, 1}" and fl: "afloat s 0" "afloat s 1"
    using assms(3) by (simp_all add: match_ok_def turns_ok_def phase_ok_def)
  have "afloat s (1 - Turn s)" using fl t by auto
  from shots_bound(2) [OF so t this fo] obtain c where c: "0 \<le> c" "c < 100"
    "c \<notin> Shot_Cell ` set (shots_of s (Turn s))" by blast
  let ?a = "\<lparr>ActionID = i, Revision = r, Kind = ''fire'', Action_Ships = None, Action_Cell = c\<rparr>"
  have "\<exists>s'. fire s (Turn s) ?a = Inr s'"
    using assms(3) c by (auto simp: fire_def Let_def list_ex_iff)
  moreover have "apply_action s (Turn s) ?a = fire s (Turn s) ?a"
    using t by (auto simp: apply_action_def)
  ultimately show "\<exists>c s'. apply_action s (Turn s)
      \<lparr>ActionID = i, Revision = r, Kind = ''fire'', Action_Ships = None, Action_Cell = c\<rparr> = Inr s'" by metis
  show "\<forall>p act s'. apply_action s p act = Inr s' \<and> Kind act = ''fire'' \<longrightarrow>
      length (shots_of s' 0) + length (shots_of s' 1) = Suc (length (shots_of s 0) + length (shots_of s 1)) \<and>
      length (shots_of s' 0) + length (shots_of s' 1) \<le> 199"
  proof (intro allI impI)
    fix p act s' assume h: "apply_action s p act = Inr s' \<and> Kind act = ''fire''"
    then have p: "p \<in> {0, 1}" and f: "fire s p act = Inr s'"
      by (auto simp: apply_action_def split: if_splits)
    have "turns_ok s'" using apply_ok [OF ok] h by (auto simp: match_ok_def)
    moreover have "length (Shots s) = 2" using fo by (simp add: fleets_ok_def)
    ultimately show "length (shots_of s' 0) + length (shots_of s' 1) = Suc (length (shots_of s 0) + length (shots_of s 1)) \<and>
      length (shots_of s' 0) + length (shots_of s' 1) \<le> 199"
      using fire_total [OF f p] by (simp add: turns_ok_def)
  qed
qed

text \<open>Both players are ready.\<close>

definition sample_ready :: Action where
  "sample_ready = \<lparr>ActionID = '''', Revision = 0, Kind = ''ready'', Action_Ships = Some sample_fleet, Action_Cell = 0\<rparr>"

lemma sample_battle: "\<exists>s. reachable ''a'' ''b'' 0 s \<and> Phase s = ''battle''"
proof -
  let ?s0 = "newState ''a'' ''b'' 0"
  let ?s1 = "?s0\<lparr>Ships := [Some sample_fleet, None], Ready := [True, False]\<rparr>"
  let ?s2 = "?s1\<lparr>Ships := [Some sample_fleet, Some sample_fleet], Ready := [True, True], Phase := ''battle''\<rparr>"
  have v: "validFleet sample_fleet True" by code_simp
  have "apply_action ?s0 0 sample_ready = Inr ?s1"
    by (simp add: apply_action_def sample_ready_def place_fleet_def v newState_def)
  with reachable.start have "reachable ''a'' ''b'' 0 ?s1" by (rule reachable.act)
  moreover have "apply_action ?s1 1 sample_ready = Inr ?s2"
    by (simp add: apply_action_def sample_ready_def place_fleet_def v newState_def)
  ultimately have "reachable ''a'' ''b'' 0 ?s2" by (rule reachable.act)
  then show ?thesis by (intro exI [of _ ?s2]) simp
qed

theorem battleship_progress_witness:
  "\<exists>s c s'. reachable ''a'' ''b'' 0 s \<and> apply_action s (Turn s)
      \<lparr>ActionID = '''', Revision = 0, Kind = ''fire'', Action_Ships = None, Action_Cell = c\<rparr> = Inr s'"
  using sample_battle battleship_progress [of "''a''" "''b''" 0] by blast

subsection \<open>The JSON form\<close>

text \<open>
  Marshalling writes the struct fields in their order. \<open>exactValues\<close> demands that the keys of an
  object are exactly the given ones and that the last value of each is not null; \<open>Ship\<close> and
  \<open>Action\<close> decode only such objects.
\<close>

definition ship_members :: "Ship \<Rightarrow> (bytes \<times> json) list" where
  "ship_members s = [(''cell'', jint (Ship_Cell s)), (''id'', jint (Ship_ID s)), (''vertical'', JBool (Ship_Vertical s))]"

definition shot_members :: "Shot \<Rightarrow> (bytes \<times> json) list" where
  "shot_members s = [(''cell'', jint (Shot_Cell s)), (''hit'', JBool (Shot_Hit s))]"

definition ship_json :: "Ship \<Rightarrow> json" where "ship_json s = JObj (ship_members s)"
definition shot_json :: "Shot \<Rightarrow> json" where "shot_json s = JObj (shot_members s)"

definition action_members :: "Action \<Rightarrow> (bytes \<times> json) list" where
  "action_members a =
     [(''actionId'', JStr (ActionID a)), (''revision'', jint (Revision a)), (''kind'', JStr (Kind a)),
      (''ships'', nslice_json ship_json (Action_Ships a)), (''cell'', jint (Action_Cell a))]"

definition marshalAction :: "Action \<Rightarrow> bytes" where
  "marshalAction a = render (JObj (action_members a))"

definition state_members :: "State \<Rightarrow> (bytes \<times> json) list" where
  "state_members s =
     [(''players'', JArr (map JStr (Players s))),
      (''ships'', JArr (map (nslice_json ship_json) (Ships s))),
      (''ready'', JArr (map JBool (Ready s))),
      (''shots'', JArr (map (nslice_json shot_json) (Shots s))),
      (''phase'', JStr (Phase s)), (''first'', jint (First s)), (''turn'', jint (Turn s)),
      (''winner'', JStr (Winner s)), (''endOffer'', JStr (EndOffer s)),
      (''rematch'', JArr (map JBool (Rematch s))), (''nextMatchId'', JStr (NextMatchID s))]"

definition marshalState :: "State \<Rightarrow> bytes" where
  "marshalState s = render (JObj (state_members s))"

definition exactValues :: "json \<Rightarrow> bytes list \<Rightarrow> bool" where
  "exactValues j keys \<longleftrightarrow>
     (case obj_fields j of
        None \<Rightarrow> False
      | Some kvs \<Rightarrow> length (remdups (map fst kvs)) = length keys \<and>
          list_all (\<lambda>k. case map_of (rev kvs) k of None \<Rightarrow> False | Some v \<Rightarrow> v \<noteq> JNull) keys)"

definition ship_names :: "bytes list" where "ship_names = [''cell'', ''id'', ''vertical'']"
definition shot_names :: "bytes list" where "shot_names = [''cell'', ''hit'']"
definition action_names :: "bytes list" where
  "action_names = [''actionId'', ''revision'', ''kind'', ''ships'', ''cell'']"
definition state_names :: "bytes list" where
  "state_names = [''players'', ''ships'', ''ready'', ''shots'', ''phase'', ''first'', ''turn'',
     ''winner'', ''endOffer'', ''rematch'', ''nextMatchId'']"

definition zero_ship :: Ship where
  "zero_ship = \<lparr>Ship_Cell = 0, Ship_ID = 0, Ship_Vertical = False\<rparr>"

definition dec_ship :: "json \<Rightarrow> Ship \<Rightarrow> Ship option" where
  "dec_ship j cur = do {
     (if exactValues j [''id'', ''cell'', ''vertical''] then Some () else None);
     kvs \<leftarrow> obj_fields j;
     c \<leftarrow> dec_field ship_names kvs ''cell'' dec_int 0;
     i \<leftarrow> dec_field ship_names kvs ''id'' dec_int 0;
     v \<leftarrow> dec_field ship_names kvs ''vertical'' dec_bool False;
     Some \<lparr>Ship_Cell = c, Ship_ID = i, Ship_Vertical = v\<rparr> }"

definition dec_shot :: "json \<Rightarrow> Shot \<Rightarrow> Shot option" where
  "dec_shot j cur = do {
     kvs \<leftarrow> obj_fields j;
     c \<leftarrow> dec_field shot_names kvs ''cell'' dec_int (Shot_Cell cur);
     h \<leftarrow> dec_field shot_names kvs ''hit'' dec_bool (Shot_Hit cur);
     Some \<lparr>Shot_Cell = c, Shot_Hit = h\<rparr> }"

definition dec_action :: "json \<Rightarrow> Action option" where
  "dec_action j = do {
     (if exactValues j [''actionId'', ''revision'', ''kind'', ''ships'', ''cell''] then Some () else None);
     kvs \<leftarrow> obj_fields j;
     i \<leftarrow> dec_field action_names kvs ''actionId'' dec_string '''';
     r \<leftarrow> dec_field action_names kvs ''revision'' dec_int 0;
     k \<leftarrow> dec_field action_names kvs ''kind'' dec_string '''';
     sh \<leftarrow> dec_field action_names kvs ''ships'' (dec_nslice dec_ship zero_ship) None;
     c \<leftarrow> dec_field action_names kvs ''cell'' dec_int 0;
     Some \<lparr>ActionID = i, Revision = r, Kind = k, Action_Ships = sh, Action_Cell = c\<rparr> }"

definition unmarshalAction :: "bytes \<Rightarrow> Action option" where
  "unmarshalAction data = do { j \<leftarrow> json_parse data; dec_action j }"

definition unmarshalState :: "bytes \<Rightarrow> State option" where
  "unmarshalState data = do {
     j \<leftarrow> json_parse data;
     kvs \<leftarrow> obj_fields j;
     players \<leftarrow> dec_field state_names kvs ''players'' (dec_array 2 dec_string '''') (replicate 2 '''');
     ships \<leftarrow> dec_field state_names kvs ''ships'' (dec_array 2 (dec_nslice dec_ship zero_ship) None) (replicate 2 None);
     ready \<leftarrow> dec_field state_names kvs ''ready'' (dec_array 2 dec_bool False) (replicate 2 False);
     shots \<leftarrow> dec_field state_names kvs ''shots''
       (dec_array 2 (dec_nslice dec_shot \<lparr>Shot_Cell = 0, Shot_Hit = False\<rparr>) None) (replicate 2 None);
     phase \<leftarrow> dec_field state_names kvs ''phase'' dec_string '''';
     first \<leftarrow> dec_field state_names kvs ''first'' dec_int 0;
     turn \<leftarrow> dec_field state_names kvs ''turn'' dec_int 0;
     winner \<leftarrow> dec_field state_names kvs ''winner'' dec_string '''';
     end_offer \<leftarrow> dec_field state_names kvs ''endOffer'' dec_string '''';
     rematch \<leftarrow> dec_field state_names kvs ''rematch'' (dec_array 2 dec_bool False) (replicate 2 False);
     nxt \<leftarrow> dec_field state_names kvs ''nextMatchId'' dec_string '''';
     Some \<lparr>Players = players, Ships = ships, Ready = ready, Shots = shots, Phase = phase, First = first,
       Turn = turn, Winner = winner, EndOffer = end_offer, Rematch = rematch, NextMatchID = nxt\<rparr> }"

subsection \<open>Round trip\<close>

definition ship_i64 :: "Ship \<Rightarrow> bool" where
  "ship_i64 s \<longleftrightarrow> is_i64 (Ship_Cell s) \<and> is_i64 (Ship_ID s)"

text \<open>The values that Go's types can hold: 64-bit integers, arrays of two, and UTF-8 strings.\<close>

definition state_go :: "State \<Rightarrow> bool" where
  "state_go s \<longleftrightarrow>
     length (Players s) = 2 \<and> length (Ships s) = 2 \<and> length (Ready s) = 2 \<and> length (Shots s) = 2 \<and>
     length (Rematch s) = 2 \<and> is_i64 (First s) \<and> is_i64 (Turn s) \<and>
     (\<forall>x\<in>set (Players s) \<union> {Phase s, Winner s, EndOffer s, NextMatchID s}. utf8_valid x) \<and>
     (\<forall>x\<in>set (Ships s). \<forall>ship\<in>set (valueOr [] x). ship_i64 ship) \<and>
     (\<forall>x\<in>set (Shots s). \<forall>shot\<in>set (valueOr [] x). is_i64 (Shot_Cell shot))"

definition action_go :: "Action \<Rightarrow> bool" where
  "action_go a \<longleftrightarrow> utf8_valid (ActionID a) \<and> utf8_valid (Kind a) \<and> is_i64 (Revision a) \<and>
     is_i64 (Action_Cell a) \<and> Action_Ships a \<noteq> None \<and> (\<forall>ship\<in>set (valueOr [] (Action_Ships a)). ship_i64 ship)"

lemma ship_field:
  "map_of (ship_members s) n = Some j \<Longrightarrow> dec_field ship_names (ship_members s) n d z = d j z"
  by (intro dec_field_exact) (simp_all add: ship_members_def ship_names_def)

lemma shot_field:
  "map_of (shot_members s) n = Some j \<Longrightarrow> dec_field shot_names (shot_members s) n d z = d j z"
  by (intro dec_field_exact) (simp_all add: shot_members_def shot_names_def)

lemma state_field:
  "map_of (state_members s) n = Some j \<Longrightarrow> dec_field state_names (state_members s) n d z = d j z"
  by (intro dec_field_exact) (simp_all add: state_members_def state_names_def)

lemma action_field:
  "map_of (action_members s) n = Some j \<Longrightarrow> dec_field action_names (action_members s) n d z = d j z"
  by (intro dec_field_exact) (simp_all add: action_members_def action_names_def)

lemma jint_not_null [simp]: "jint x \<noteq> JNull"
  by (simp add: jint_def)

lemma ship_of:
  "map_of (ship_members s) ''cell'' = Some (jint (Ship_Cell s))"
  "map_of (ship_members s) ''id'' = Some (jint (Ship_ID s))"
  "map_of (ship_members s) ''vertical'' = Some (JBool (Ship_Vertical s))"
  by (simp_all add: ship_members_def)

lemma dec_ship_json: "ship_i64 s \<Longrightarrow> dec_ship (ship_json s) cur = Some s"
proof -
  assume i: "ship_i64 s"
  have "exactValues (ship_json s) [''id'', ''cell'', ''vertical'']"
    by (simp add: exactValues_def ship_json_def ship_members_def)
  then show ?thesis
    using i by (simp add: dec_ship_def ship_field ship_of ship_i64_def dec_int_jint ship_json_def)
qed

lemma shot_of:
  "map_of (shot_members s) ''cell'' = Some (jint (Shot_Cell s))"
  "map_of (shot_members s) ''hit'' = Some (JBool (Shot_Hit s))"
  by (simp_all add: shot_members_def)

lemma dec_shot_json: "is_i64 (Shot_Cell s) \<Longrightarrow> dec_shot (shot_json s) cur = Some s"
  by (simp add: dec_shot_def shot_field shot_of dec_int_jint shot_json_def)

lemma bs_state_of:
  "map_of (state_members s) ''players'' = Some (JArr (map JStr (Players s)))"
  "map_of (state_members s) ''ships'' = Some (JArr (map (nslice_json ship_json) (Ships s)))"
  "map_of (state_members s) ''ready'' = Some (JArr (map JBool (Ready s)))"
  "map_of (state_members s) ''shots'' = Some (JArr (map (nslice_json shot_json) (Shots s)))"
  "map_of (state_members s) ''phase'' = Some (JStr (Phase s))"
  "map_of (state_members s) ''first'' = Some (jint (First s))"
  "map_of (state_members s) ''turn'' = Some (jint (Turn s))"
  "map_of (state_members s) ''winner'' = Some (JStr (Winner s))"
  "map_of (state_members s) ''endOffer'' = Some (JStr (EndOffer s))"
  "map_of (state_members s) ''rematch'' = Some (JArr (map JBool (Rematch s)))"
  "map_of (state_members s) ''nextMatchId'' = Some (JStr (NextMatchID s))"
  by (simp_all add: state_members_def)

lemma wf_ship_json: "wf_json (ship_json s)"
  by (simp add: ship_json_def ship_members_def utf8_valid_ascii)

lemma wf_shot_json: "wf_json (shot_json s)"
  by (simp add: shot_json_def shot_members_def utf8_valid_ascii)

lemma unmarshal_marshal_state:
  assumes "state_go s"
  shows "unmarshalState (marshalState s) = Some s"
proof -
  have wf: "wf_json (JObj (state_members s))"
    using assms wf_nslice [OF wf_ship_json] wf_nslice [OF wf_shot_json]
    by (auto simp: state_members_def state_go_def utf8_valid_ascii)
  have a: "dec_array 2 dec_string '''' (JArr (map JStr (Players s))) (replicate 2 '''') = Some (Players s)"
    "dec_array 2 dec_bool False (JArr (map JBool (Ready s))) (replicate 2 False) = Some (Ready s)"
    "dec_array 2 dec_bool False (JArr (map JBool (Rematch s))) (replicate 2 False) = Some (Rematch s)"
    using assms by (intro dec_array_map; simp add: state_go_def)+
  have b: "dec_array 2 (dec_nslice dec_ship zero_ship) None (JArr (map (nslice_json ship_json) (Ships s)))
      (replicate 2 None) = Some (Ships s)"
    using assms by (intro dec_array_map dec_nslice_json dec_ship_json) (auto simp: state_go_def)
  have c: "dec_array 2 (dec_nslice dec_shot \<lparr>Shot_Cell = 0, Shot_Hit = False\<rparr>) None
      (JArr (map (nslice_json shot_json) (Shots s))) (replicate 2 None) = Some (Shots s)"
    using assms by (intro dec_array_map dec_nslice_json dec_shot_json) (auto simp: state_go_def)
  have "is_i64 (First s)" "is_i64 (Turn s)" using assms by (simp_all add: state_go_def)
  then show ?thesis
    unfolding unmarshalState_def marshalState_def json_parse_render [OF wf]
    by (simp add: state_field bs_state_of a b c dec_int_jint del: dec_array.simps replicate.simps)
qed

lemma action_of:
  "map_of (action_members a) ''actionId'' = Some (JStr (ActionID a))"
  "map_of (action_members a) ''revision'' = Some (jint (Revision a))"
  "map_of (action_members a) ''kind'' = Some (JStr (Kind a))"
  "map_of (action_members a) ''ships'' = Some (nslice_json ship_json (Action_Ships a))"
  "map_of (action_members a) ''cell'' = Some (jint (Action_Cell a))"
  by (simp_all add: action_members_def)

lemma unmarshal_marshal_action:
  assumes "action_go a"
  shows "unmarshalAction (marshalAction a) = Some a"
proof -
  have wf: "wf_json (JObj (action_members a))"
    using assms wf_nslice [OF wf_ship_json] by (auto simp: action_members_def action_go_def utf8_valid_ascii)
  have ne: "nslice_json ship_json (Action_Ships a) \<noteq> JNull"
    using assms by (auto simp: action_go_def nslice_json_def jptr_def)
  have s: "dec_nslice dec_ship zero_ship (nslice_json ship_json (Action_Ships a)) None = Some (Action_Ships a)"
    using assms by (intro dec_nslice_json dec_ship_json) (auto simp: action_go_def)
  have "exactValues (JObj (action_members a)) [''actionId'', ''revision'', ''kind'', ''ships'', ''cell'']"
    using ne by (simp add: exactValues_def action_members_def)
  then show ?thesis
    unfolding unmarshalAction_def marshalAction_def json_parse_render [OF wf]
    using assms by (simp add: dec_action_def action_field action_of s dec_int_jint action_go_def)
qed

lemma marshalAction_inject:
  "action_go a \<Longrightarrow> action_go b \<Longrightarrow> marshalAction a = marshalAction b \<longleftrightarrow> a = b"
  by (metis unmarshal_marshal_action option.inject)

text \<open>Every state of a match between users with UTF-8 identifiers survives the round trip.\<close>

lemma match_state_go:
  assumes "match_ok a b s" and "utf8_valid a" and "utf8_valid b" and "utf8_valid (NextMatchID s)"
  shows "state_go s"
proof -
  have fo: "fleets_ok s" and so: "shots_ok s" and t: "turns_ok s" and po: "phase_ok a b s"
    using assms(1) by (simp_all add: match_ok_def)
  have pl: "Players s = [a, b]" using po by (simp add: phase_ok_def)
  have str: "utf8_valid (Phase s)" "utf8_valid (Winner s)" "utf8_valid (EndOffer s)"
    using po assms(2,3) by (auto simp: phase_ok_def utf8_valid_ascii split: if_split_asm)
  have l: "length (Ships s) = 2" "length (Shots s) = 2" using fo by (simp_all add: fleets_ok_def)
  have e: "xs = [xs ! 0, xs ! 1]" if "length xs = 2" for xs :: "'x list"
    using that by (cases xs; cases "tl xs") auto
  have ships: "valueOr [] x \<in> {ships_of s 0, ships_of s 1}" if "x \<in> set (Ships s)" for x
    using that e [OF l(1)] by (auto simp: ships_of_def in_set_conv_nth l less_2_cases_iff)
  have shots: "valueOr [] x \<in> {shots_of s 0, shots_of s 1}" if "x \<in> set (Shots s)" for x
    using that e [OF l(2)] by (auto simp: shots_of_def in_set_conv_nth l less_2_cases_iff)
  have "ship_i64 ship" if "ship \<in> set (ships_of s p)" "p \<in> {0, 1}" for ship p
  proof -
    have "on_board ship" using fo that unfolding fleets_ok_def fleet_ok_def on_board_iff by blast
    then show ?thesis by (auto simp: ship_i64_def on_board_def intro: is_i64_small)
  qed
  moreover have "is_i64 (Shot_Cell shot)" if "shot \<in> set (shots_of s p)" "p \<in> {0, 1}" for shot p
    using so that is_i64_small [of "Shot_Cell shot"] unfolding shots_ok_def by fastforce
  moreover have "is_i64 (First s)" "is_i64 (Turn s)" using t by (auto simp: turns_ok_def intro: is_i64_small)
  ultimately show ?thesis
    using fo pl str assms ships shots unfolding state_go_def fleets_ok_def by fastforce
qed

end
