(* ===== verification/Uuid.thy ===== *)
theory Uuid
  imports Prelude
begin

text \<open>
  Identifiers. Parsing UUIDs is the work of the package \<open>github.com/google/uuid\<close>, which is not part
  of the repository: every definition that checks an identifier takes its \<open>uuid.Parse\<close> as an
  argument, a function from the text to the canonical text, the variant and the version of the
  parsed value, or \<open>None\<close> when it does not parse.
\<close>

record uuid =
  uu_string :: bytes
  uu_rfc4122 :: bool
  uu_version :: int

type_synonym uuid_parser = "bytes \<Rightarrow> uuid option"

text \<open>A parser for examples, which takes 36 lower-case letters or digits for a canonical UUID.\<close>

definition sample_parser :: uuid_parser where
  "sample_parser s =
     (if length s = 36 \<and> list_all (\<lambda>c. CHR ''0'' \<le> c \<and> c \<le> CHR ''z'') s
      then Some \<lparr>uu_string = s, uu_rfc4122 = True, uu_version = 4\<rparr> else None)"

end
