(* ===== verification/BattleshipService.thy ===== *)
theory BattleshipService
  imports Battleship Uuid
begin

text \<open>
  The battleship service (\<open>server/internal/battleship/service.go\<close>): matches, the ledger of applied
  actions and the queries over them, on the tables of the SQLite database. A table is the list of
  its rows; the definitions check the constraints of the schema that a statement can violate (keys
  and references). A transaction is a function from the database to an error or the new database,
  so that an error rolls back. \<open>flt\<close> says which statements fail for reasons outside the model
  (disk, cancelled request); \<open>coin\<close>, \<open>fresh\<close> and \<open>now\<close> are the results of the random source, of
  \<open>uuid.NewRandom\<close> and of the clock.
\<close>

subsection \<open>Tables\<close>

record user_row =
  us_id :: bytes
  us_nickname :: bytes
  us_enabled :: int

record match_row =
  bm_id :: bytes
  bm_a :: bytes
  bm_b :: bytes
  bm_revision :: int
  bm_state :: bytes
  bm_updated :: int

record ledger_row =
  lg_match :: bytes
  lg_action :: bytes
  lg_actor :: bytes
  lg_request :: bytes

record battle_db =
  b_users :: "user_row list"
  b_matches :: "match_row list"
  b_ledger :: "ledger_row list"

datatype stmt =
    S_User | S_Insert | S_Match | S_Get | S_Begin | S_Action | S_InsertNext | S_Update | S_InsertAction
  | S_Commit | S_List

type_synonym faults = "stmt \<Rightarrow> bool"

definition run_stmt :: "faults \<Rightarrow> stmt \<Rightarrow> 'a \<Rightarrow> battle_error + 'a" where
  "run_stmt flt s x = (if flt s then Inl ErrInternal else Inr x)"

definition find_user :: "battle_db \<Rightarrow> bytes \<Rightarrow> user_row option" where
  "find_user db i = find (\<lambda>u. us_id u = i) (b_users db)"

definition find_match :: "battle_db \<Rightarrow> bytes \<Rightarrow> match_row option" where
  "find_match db i = find (\<lambda>m. bm_id m = i) (b_matches db)"

definition find_action :: "battle_db \<Rightarrow> bytes \<Rightarrow> bytes \<Rightarrow> ledger_row option" where
  "find_action db i a = find (\<lambda>r. lg_match r = i \<and> lg_action r = a) (b_ledger db)"

text \<open>INSERT INTO battleship_matches: primary key, references and the check of different players.\<close>

definition insert_match :: "match_row \<Rightarrow> battle_db \<Rightarrow> battle_error + battle_db" where
  "insert_match m db =
     (if find_match db (bm_id m) \<noteq> None \<or> find_user db (bm_a m) = None \<or> find_user db (bm_b m) = None \<or>
         bm_a m = bm_b m then Inl ErrInternal
      else Inr (db\<lparr>b_matches := b_matches db @ [m]\<rparr>))"

definition insert_match_or_ignore :: "match_row \<Rightarrow> battle_db \<Rightarrow> battle_error + battle_db" where
  "insert_match_or_ignore m db = (if find_match db (bm_id m) \<noteq> None then Inr db else insert_match m db)"

definition insert_action :: "ledger_row \<Rightarrow> battle_db \<Rightarrow> battle_error + battle_db" where
  "insert_action r db =
     (if find_action db (lg_match r) (lg_action r) \<noteq> None \<or> find_match db (lg_match r) = None \<or>
         find_user db (lg_actor r) = None then Inl ErrInternal
      else Inr (db\<lparr>b_ledger := b_ledger db @ [r]\<rparr>))"

definition update_match :: "bytes \<Rightarrow> bytes \<Rightarrow> int \<Rightarrow> battle_db \<Rightarrow> battle_db" where
  "update_match i st now db =
     db\<lparr>b_matches := map (\<lambda>m. if bm_id m = i
       then m\<lparr>bm_state := st, bm_revision := bm_revision m + 1, bm_updated := now\<rparr> else m) (b_matches db)\<rparr>"

subsection \<open>Operations\<close>

definition validID :: "uuid_parser \<Rightarrow> bytes \<Rightarrow> bool" where
  "validID parse i \<longleftrightarrow>
     (case parse i of
        None \<Rightarrow> False
      | Some u \<Rightarrow> uu_string u = i \<and> uu_rfc4122 u \<and> uu_version u \<ge> 1 \<and> uu_version u \<le> 5)"

definition opponent_of :: "match_row \<Rightarrow> bytes \<Rightarrow> bytes" where
  "opponent_of m user = (if bm_a m = user then bm_b m else bm_a m)"

text \<open>The view of one row, as \<open>Get\<close> and \<open>List\<close> build it.\<close>

definition row_view :: "bytes \<Rightarrow> match_row \<Rightarrow> bytes \<Rightarrow> battle_error + View" where
  "row_view user m name =
     (case unmarshalState (bm_state m) of
        None \<Rightarrow> Inl ErrInternal
      | Some st \<Rightarrow>
          let p = player st user in
          if p < 0 then Inl ErrNotFound
          else Inr ((view st p)\<lparr>V_ID := bm_id m, V_Revision := bm_revision m, V_OpponentName := name\<rparr>))"

definition Get :: "uuid_parser \<Rightarrow> faults \<Rightarrow> bytes \<Rightarrow> bytes \<Rightarrow> battle_db \<Rightarrow> battle_error + View" where
  "Get parse flt user i db =
     (if \<not> validID parse i then Inl ErrNotFound
      else and_then (run_stmt flt S_Get (find (\<lambda>m. bm_id m = i \<and> (bm_a m = user \<or> bm_b m = user)) (b_matches db)))
        (\<lambda>row. case row of
           None \<Rightarrow> Inl ErrNotFound
         | Some m \<Rightarrow>
             (case find_user db (opponent_of m user) of
                None \<Rightarrow> Inl ErrNotFound
              | Some u \<Rightarrow> row_view user m (us_nickname u))))"

definition Create ::
  "uuid_parser \<Rightarrow> faults \<Rightarrow> int option \<Rightarrow> int \<Rightarrow> bytes \<Rightarrow> bytes \<Rightarrow> bytes \<Rightarrow> battle_db \<Rightarrow>
   (battle_error + View) \<times> battle_db" where
  "Create parse flt coin now user i opp db =
     (if \<not> validID parse i \<or> \<not> validID parse user \<or> \<not> validID parse opp \<or> user = opp then (Inl ErrInvalid, db)
      else if flt S_User then (Inl ErrInternal, db)
      else if (case find_user db opp of None \<Rightarrow> True | Some u \<Rightarrow> us_enabled u \<noteq> 1) then (Inl ErrInvalid, db)
      else case coin of
        None \<Rightarrow> (Inl ErrInternal, db)
      | Some c \<Rightarrow>
          (case and_then (run_stmt flt S_Insert db) (insert_match_or_ignore
              \<lparr>bm_id = i, bm_a = user, bm_b = opp, bm_revision = 0,
               bm_state = marshalState (newState user opp c), bm_updated = now\<rparr>) of
             Inl e \<Rightarrow> (Inl e, db)
           | Inr db' \<Rightarrow>
               (if flt S_Match then (Inl ErrInternal, db')
                else case find_match db' i of
                  None \<Rightarrow> (Inl ErrInternal, db')
                | Some m \<Rightarrow>
                    if bm_a m \<noteq> user \<or> bm_b m \<noteq> opp then (Inl ErrConflict, db')
                    else (Get parse flt user i db', db'))))"

text \<open>The match that both players asked for again, created with the other player first.\<close>

definition link_next ::
  "faults \<Rightarrow> bytes option \<Rightarrow> int \<Rightarrow> State \<Rightarrow> battle_db \<Rightarrow> battle_error + State \<times> battle_db" where
  "link_next flt fresh now st db =
     (if Rematch st ! 0 \<and> Rematch st ! 1 \<and> NextMatchID st = '''' then
        (case fresh of
           None \<Rightarrow> Inl ErrInternal
         | Some n \<Rightarrow>
             let st' = st\<lparr>NextMatchID := n\<rparr>;
                 nxt = newState (Players st ! 0) (Players st ! 1) (1 - First st) in
             and_then (run_stmt flt S_InsertNext db) (\<lambda>db.
             and_then (insert_match \<lparr>bm_id = n, bm_a = Players st ! 0, bm_b = Players st ! 1, bm_revision = 0,
                 bm_state = marshalState nxt, bm_updated = now\<rparr> db) (\<lambda>db'. Inr (st', db'))))
      else Inr (st, db))"

text \<open>The transaction of \<open>Act\<close>.\<close>

definition act_tx ::
  "uuid_parser \<Rightarrow> faults \<Rightarrow> bytes option \<Rightarrow> int \<Rightarrow> bytes \<Rightarrow> bytes \<Rightarrow> Action \<Rightarrow> battle_db \<Rightarrow>
   battle_error + battle_db" where
  "act_tx parse flt fresh now user i a db =
     (if \<not> validID parse i \<or> \<not> validID parse (ActionID a) \<or> Revision a < 0 then Inl ErrInvalid
      else
        and_then (run_stmt flt S_Begin db) (\<lambda>db.
        and_then (run_stmt flt S_Match (find (\<lambda>m. bm_id m = i \<and> (bm_a m = user \<or> bm_b m = user)) (b_matches db)))
          (\<lambda>row. case row of
             None \<Rightarrow> Inl ErrNotFound
           | Some m \<Rightarrow>
        and_then (run_stmt flt S_Action (find_action db i (ActionID a))) (\<lambda>prior. case prior of
             Some r \<Rightarrow>
               if lg_actor r \<noteq> user \<or> lg_request r \<noteq> marshalAction a then Inl ErrConflict
               else run_stmt flt S_Commit db
           | None \<Rightarrow>
               if bm_revision m \<noteq> Revision a then Inl ErrConflict
               else case unmarshalState (bm_state m) of
                 None \<Rightarrow> Inl ErrInternal
               | Some st \<Rightarrow>
        and_then (apply_action st (player st user) a) (\<lambda>st1.
        and_then (link_next flt fresh now st1 db) (\<lambda>(st2, db1).
        and_then (run_stmt flt S_Update (update_match i (marshalState st2) now db1)) (\<lambda>db2.
        and_then (run_stmt flt S_InsertAction db2) (\<lambda>db2.
        and_then (insert_action \<lparr>lg_match = i, lg_action = ActionID a, lg_actor = user,
            lg_request = marshalAction a\<rparr> db2) (\<lambda>db3.
        run_stmt flt S_Commit db3)))))))))"

definition Act ::
  "uuid_parser \<Rightarrow> faults \<Rightarrow> bytes option \<Rightarrow> int \<Rightarrow> bytes \<Rightarrow> bytes \<Rightarrow> Action \<Rightarrow> battle_db \<Rightarrow>
   (battle_error + View) \<times> battle_db" where
  "Act parse flt fresh now user i a db =
     (case act_tx parse flt fresh now user i a db of
        Inl e \<Rightarrow> (Inl e, db)
      | Inr db' \<Rightarrow> (Get parse flt user i db', db'))"

subsection \<open>Pages\<close>

record Opponent =
  Opp_ID :: bytes
  Opp_Nickname :: bytes

text \<open>At most 30 of the rows, and the id of the last one when there are more.\<close>

definition page :: "('a \<Rightarrow> bytes) \<Rightarrow> 'a list \<Rightarrow> 'a list \<times> bytes" where
  "page key rows = (if length rows > 30 then (take 30 rows, key (rows ! 29)) else (rows, ''''))"

definition Opponents ::
  "uuid_parser \<Rightarrow> faults \<Rightarrow> bytes \<Rightarrow> bytes \<Rightarrow> battle_db \<Rightarrow> battle_error + Opponent list \<times> bytes" where
  "Opponents parse flt user after db =
     (if after \<noteq> '''' \<and> \<not> validID parse after then Inl ErrInvalid
      else and_then (run_stmt flt S_List
          (take 31 (sort_key us_id (filter (\<lambda>u. us_enabled u = 1 \<and> us_id u \<noteq> user \<and> us_id u > after) (b_users db)))))
        (\<lambda>rows. Inr (page Opp_ID (map (\<lambda>u. \<lparr>Opp_ID = us_id u, Opp_Nickname = us_nickname u\<rparr>) rows))))"

fun views :: "battle_db \<Rightarrow> bytes \<Rightarrow> match_row list \<Rightarrow> battle_error + View list" where
  "views db user [] = Inr []"
| "views db user (m # ms) =
     (case find_user db (opponent_of m user) of
        None \<Rightarrow> views db user ms
      | Some u \<Rightarrow>
          and_then (row_view user m (us_nickname u)) (\<lambda>v.
          and_then (views db user ms) (\<lambda>vs. Inr (v # vs))))"

definition List_matches ::
  "uuid_parser \<Rightarrow> faults \<Rightarrow> bytes \<Rightarrow> bytes \<Rightarrow> battle_db \<Rightarrow> battle_error + View list \<times> bytes" where
  "List_matches parse flt user after db =
     (if after \<noteq> '''' \<and> \<not> validID parse after then Inl ErrInvalid
      else and_then (run_stmt flt S_List
          (take 31 (sort_key bm_id (filter (\<lambda>m. (bm_a m = user \<or> bm_b m = user) \<and> bm_id m > after \<and>
              find_user db (opponent_of m user) \<noteq> None) (b_matches db)))))
        (\<lambda>rows. and_then (views db user rows) (\<lambda>vs. Inr (page V_ID vs))))"

subsection \<open>Transactions\<close>

lemma run_stmt_Inr [simp]: "run_stmt flt s x = Inr y \<longleftrightarrow> \<not> flt s \<and> y = x"
  by (auto simp: run_stmt_def)

lemma run_stmt_ok [simp]: "\<not> flt s \<Longrightarrow> run_stmt flt s x = Inr x"
  by (simp add: run_stmt_def)

lemma find_None: "find P xs = None \<longleftrightarrow> (\<forall>x\<in>set xs. \<not> P x)"
  by (auto simp: find_None_iff)

lemma find_append: "find P (xs @ ys) = (case find P xs of None \<Rightarrow> find P ys | Some x \<Rightarrow> Some x)"
  by (induction xs) auto

lemma find_Some: "find P xs = Some x \<Longrightarrow> x \<in> set xs \<and> P x"
  by (induction xs) (auto split: if_splits)

definition next_row :: "bytes \<Rightarrow> int \<Rightarrow> State \<Rightarrow> match_row" where
  "next_row n now st =
     \<lparr>bm_id = n, bm_a = Players st ! 0, bm_b = Players st ! 1, bm_revision = 0,
      bm_state = marshalState (newState (Players st ! 0) (Players st ! 1) (1 - First st)), bm_updated = now\<rparr>"

lemma bv_insert_match_iff:
  "insert_match m db = Inr db' \<longleftrightarrow>
     find_match db (bm_id m) = None \<and> find_user db (bm_a m) \<noteq> None \<and> find_user db (bm_b m) \<noteq> None \<and>
     bm_a m \<noteq> bm_b m \<and> db' = db\<lparr>b_matches := b_matches db @ [m]\<rparr>"
  by (auto simp: insert_match_def)

lemma link_next_iff:
  "link_next flt fresh now st db = Inr (st', db') \<longleftrightarrow>
     (if Rematch st ! 0 \<and> Rematch st ! 1 \<and> NextMatchID st = '''' then
        (\<exists>n. fresh = Some n \<and> st' = st\<lparr>NextMatchID := n\<rparr> \<and> \<not> flt S_InsertNext \<and>
          insert_match (next_row n now st) db = Inr db')
      else st' = st \<and> db' = db)"
  by (auto simp: link_next_def next_row_def Let_def split: option.splits)

definition played_by :: "battle_db \<Rightarrow> bytes \<Rightarrow> bytes \<Rightarrow> match_row option" where
  "played_by db user i = find (\<lambda>m. bm_id m = i \<and> (bm_a m = user \<or> bm_b m = user)) (b_matches db)"

definition ledger_entry :: "bytes \<Rightarrow> bytes \<Rightarrow> Action \<Rightarrow> ledger_row" where
  "ledger_entry user i a =
     \<lparr>lg_match = i, lg_action = ActionID a, lg_actor = user, lg_request = marshalAction a\<rparr>"

definition recorded :: "battle_db \<Rightarrow> bytes \<Rightarrow> bytes \<Rightarrow> Action \<Rightarrow> bool" where
  "recorded db user i a \<longleftrightarrow> played_by db user i \<noteq> None \<and>
     (\<exists>r. find_action db i (ActionID a) = Some r \<and> lg_actor r = user \<and> lg_request r = marshalAction a)"

text \<open>What an applied action does to the tables.\<close>

definition commit_db :: "bytes \<Rightarrow> bytes \<Rightarrow> Action \<Rightarrow> State \<Rightarrow> int \<Rightarrow> battle_db \<Rightarrow> battle_db" where
  "commit_db user i a st now db =
     (let db2 = update_match i (marshalState st) now db in
      db2\<lparr>b_ledger := b_ledger db2 @ [ledger_entry user i a]\<rparr>)"

lemma act_tx_cases:
  assumes "act_tx parse flt fresh now user i a db = Inr db'"
  obtains (retry) "db' = db" "recorded db user i a"
  | (applied) m st st1 st2 db1 where "played_by db user i = Some m" "find_action db i (ActionID a) = None"
      "bm_revision m = Revision a" "unmarshalState (bm_state m) = Some st"
      "apply_action st (player st user) a = Inr st1" "link_next flt fresh now st1 db = Inr (st2, db1)"
      "find_action (update_match i (marshalState st2) now db1) i (ActionID a) = None"
      "db' = commit_db user i a st2 now db1"
proof -
  have v: "\<not> (\<not> validID parse i \<or> \<not> validID parse (ActionID a) \<or> Revision a < 0)"
    using assms by (auto simp: act_tx_def split: if_splits)
  from assms obtain m where m: "played_by db user i = Some m"
    unfolding act_tx_def if_not_P [OF v] played_by_def by (auto split: option.splits)
  show thesis
  proof (cases "find_action db i (ActionID a)")
    case (Some r)
    with assms m have "db' = db" "lg_actor r = user" "lg_request r = marshalAction a"
      unfolding act_tx_def if_not_P [OF v] played_by_def by (auto split: if_splits)
    with Some m retry show thesis by (auto simp: recorded_def)
  next
    case None
    have rest: "bm_revision m = Revision a \<and> (\<exists>st. unmarshalState (bm_state m) = Some st \<and>
       (\<exists>st1. apply_action st (player st user) a = Inr st1 \<and>
       (\<exists>st2 db1. link_next flt fresh now st1 db = Inr (st2, db1) \<and>
         insert_action (ledger_entry user i a) (update_match i (marshalState st2) now db1) = Inr db')))"
      using assms m None unfolding act_tx_def if_not_P [OF v] played_by_def ledger_entry_def
      by (auto split: if_splits option.splits)
    then obtain st st1 st2 db1 where r: "bm_revision m = Revision a" "unmarshalState (bm_state m) = Some st"
      "apply_action st (player st user) a = Inr st1" "link_next flt fresh now st1 db = Inr (st2, db1)"
      and ins: "insert_action (ledger_entry user i a) (update_match i (marshalState st2) now db1) = Inr db'"
      by blast
    have "find_action (update_match i (marshalState st2) now db1) i (ActionID a) = None"
      and "db' = commit_db user i a st2 now db1"
      using ins by (auto simp: insert_action_def ledger_entry_def commit_db_def Let_def split: if_splits)
    with applied [OF m None r] show thesis by blast
  qed
qed

subsection \<open>The invariant of the tables\<close>

definition row_ok :: "battle_db \<Rightarrow> match_row \<Rightarrow> bool" where
  "row_ok db m \<longleftrightarrow> bm_a m \<noteq> bm_b m \<and> find_user db (bm_a m) \<noteq> None \<and> find_user db (bm_b m) \<noteq> None \<and>
     bm_revision m = int (length (filter (\<lambda>r. lg_match r = bm_id m) (b_ledger db))) \<and>
     (\<exists>st. bm_state m = marshalState st \<and> match_ok (bm_a m) (bm_b m) st \<and> utf8_valid (NextMatchID st) \<and>
       (NextMatchID st \<noteq> '''' \<longrightarrow>
         (\<exists>m2\<in>set (b_matches db). bm_id m2 = NextMatchID st \<and> bm_a m2 = bm_a m \<and> bm_b m2 = bm_b m)))"

definition db_ok :: "battle_db \<Rightarrow> bool" where
  "db_ok db \<longleftrightarrow>
     distinct (map us_id (b_users db)) \<and> (\<forall>u\<in>set (b_users db). utf8_valid (us_id u)) \<and>
     distinct (map bm_id (b_matches db)) \<and> (\<forall>m\<in>set (b_matches db). row_ok db m) \<and>
     distinct (map (\<lambda>r. (lg_match r, lg_action r)) (b_ledger db)) \<and>
     (\<forall>r\<in>set (b_ledger db). \<exists>m\<in>set (b_matches db). bm_id m = lg_match r \<and>
        (lg_actor r = bm_a m \<or> lg_actor r = bm_b m))"

text \<open>The rows of matches stay and keep their key and players.\<close>

definition keeps :: "battle_db \<Rightarrow> battle_db \<Rightarrow> bool" where
  "keeps db db' \<longleftrightarrow>
     (\<forall>u. find_user db u \<noteq> None \<longrightarrow> find_user db' u \<noteq> None) \<and>
     (\<forall>m\<in>set (b_matches db). \<exists>m'\<in>set (b_matches db'). bm_id m' = bm_id m \<and> bm_a m' = bm_a m \<and> bm_b m' = bm_b m)"

lemma row_ok_keeps:
  assumes "row_ok db m" and "keeps db db'"
    and "filter (\<lambda>r. lg_match r = bm_id m) (b_ledger db') = filter (\<lambda>r. lg_match r = bm_id m) (b_ledger db)"
  shows "row_ok db' m"
proof -
  from assms(1) obtain st where st: "bm_state m = marshalState st" "match_ok (bm_a m) (bm_b m) st" "utf8_valid (NextMatchID st)"
    and nx: "NextMatchID st \<noteq> '''' \<longrightarrow>
         (\<exists>m2\<in>set (b_matches db). bm_id m2 = NextMatchID st \<and> bm_a m2 = bm_a m \<and> bm_b m2 = bm_b m)"
    unfolding row_ok_def by blast
  have "NextMatchID st \<noteq> '''' \<longrightarrow>
         (\<exists>m2\<in>set (b_matches db'). bm_id m2 = NextMatchID st \<and> bm_a m2 = bm_a m \<and> bm_b m2 = bm_b m)"
    using nx assms(2) unfolding keeps_def by metis
  with st assms show ?thesis unfolding row_ok_def keeps_def by metis
qed

lemma insert_match_ok:
  assumes ok: "db_ok db" and ins: "insert_match m db = Inr db'"
    and m: "bm_revision m = 0" "bm_state m = marshalState (newState (bm_a m) (bm_b m) first)" "first \<in> {0, 1}"
  shows "db_ok db'" and "keeps db db'"
proof -
  from ins have new: "find_match db (bm_id m) = None" and fk: "find_user db (bm_a m) \<noteq> None" "find_user db (bm_b m) \<noteq> None"
    and ne: "bm_a m \<noteq> bm_b m" and db': "db' = db\<lparr>b_matches := b_matches db @ [m]\<rparr>"
    by (simp_all add: bv_insert_match_iff)
  have fu: "find_user db' u = find_user db u" for u by (simp add: db' find_user_def)
  show k: "keeps db db'" using fu by (auto simp: keeps_def db')
  have fresh: "\<forall>x\<in>set (b_matches db). bm_id x \<noteq> bm_id m" using new by (simp add: find_match_def find_None)
  have led: "\<forall>r\<in>set (b_ledger db). lg_match r \<noteq> bm_id m" using ok fresh unfolding db_ok_def by metis
  have "filter (\<lambda>r. lg_match r = bm_id m) (b_ledger db) = []" using led by (simp add: filter_empty_conv)
  then have "row_ok db' m"
    unfolding row_ok_def using ne fk fu m new_ok [OF m(3), of "bm_a m" "bm_b m"]
    by (auto simp: db' newState_def intro!: exI [of _ "newState (bm_a m) (bm_b m) first"])
  moreover have "row_ok db' x" if "x \<in> set (b_matches db)" for x
    using ok that by (intro row_ok_keeps [OF _ k]) (auto simp: db_ok_def db')
  ultimately show "db_ok db'"
    using ok fresh unfolding db_ok_def db' by fastforce
qed

lemma link_next_ok:
  assumes ok: "db_ok db" and r: "link_next flt fresh now st db = Inr (st', db')"
    and st: "match_ok a b st" and nx: "utf8_valid (NextMatchID st)"
    and fr: "\<And>n. fresh = Some n \<Longrightarrow> utf8_valid n"
    and old: "NextMatchID st \<noteq> '''' \<longrightarrow> (\<exists>m2\<in>set (b_matches db). bm_id m2 = NextMatchID st \<and> bm_a m2 = a \<and> bm_b m2 = b)"
  shows "db_ok db'" and "keeps db db'" and "match_ok a b st'" and "utf8_valid (NextMatchID st')"
    and "NextMatchID st' \<noteq> '''' \<longrightarrow> (\<exists>m2\<in>set (b_matches db'). bm_id m2 = NextMatchID st' \<and> bm_a m2 = a \<and> bm_b m2 = b)"
    and "b_ledger db' = b_ledger db"
proof -
  have "db_ok db' \<and> keeps db db' \<and> match_ok a b st' \<and> utf8_valid (NextMatchID st') \<and>
    (NextMatchID st' \<noteq> '''' \<longrightarrow> (\<exists>m2\<in>set (b_matches db'). bm_id m2 = NextMatchID st' \<and> bm_a m2 = a \<and> bm_b m2 = b)) \<and>
    b_ledger db' = b_ledger db"
  proof (cases "Rematch st ! 0 \<and> Rematch st ! 1 \<and> NextMatchID st = ''''")
    case False
    then have "st' = st" "db' = db" using r unfolding link_next_iff by auto
    with ok st nx old show ?thesis by (auto simp: keeps_def)
  next
    case True
    then obtain n where n: "fresh = Some n" "st' = st\<lparr>NextMatchID := n\<rparr>"
      and ins: "insert_match (next_row n now st) db = Inr db'" using r unfolding link_next_iff by auto
    have pl: "Players st = [a, b]" and t: "First st \<in> {0, 1}"
      using st by (simp_all add: match_ok_def phase_ok_def turns_ok_def)
    have row: "bm_revision (next_row n now st) = 0" "1 - First st \<in> {0, 1}"
      "bm_state (next_row n now st) = marshalState (newState (bm_a (next_row n now st)) (bm_b (next_row n now st)) (1 - First st))"
      using t by (auto simp: next_row_def)
    note io = insert_match_ok [OF ok ins row(1,3,2)]
    have db': "db' = db\<lparr>b_matches := b_matches db @ [next_row n now st]\<rparr>"
      using ins by (simp add: bv_insert_match_iff)
    have ids: "bm_id (next_row n now st) = n" "bm_a (next_row n now st) = a" "bm_b (next_row n now st) = b"
      by (simp_all add: next_row_def pl)
    have "match_ok a b st'" unfolding n(2) by (rule link_ok [OF st])
    with io n fr ids show ?thesis by (auto simp: db')
  qed
  then show "db_ok db'" "keeps db db'" "match_ok a b st'" "utf8_valid (NextMatchID st')"
    "NextMatchID st' \<noteq> '''' \<longrightarrow> (\<exists>m2\<in>set (b_matches db'). bm_id m2 = NextMatchID st' \<and> bm_a m2 = a \<and> bm_b m2 = b)"
    "b_ledger db' = b_ledger db" by blast+
qed

lemma commit_sel:
  "b_users (commit_db user i a st now db) = b_users db"
  "b_ledger (commit_db user i a st now db) = b_ledger db @ [ledger_entry user i a]"
  "b_matches (commit_db user i a st now db) = map (\<lambda>m. if bm_id m = i
       then m\<lparr>bm_state := marshalState st, bm_revision := bm_revision m + 1, bm_updated := now\<rparr> else m) (b_matches db)"
  by (simp_all add: commit_db_def update_match_def Let_def)

lemma commit_keeps: "keeps db (commit_db user i a st now db)"
  unfolding keeps_def
proof (intro conjI allI impI ballI)
  fix m assume "m \<in> set (b_matches db)"
  then have "(if bm_id m = i
       then m\<lparr>bm_state := marshalState st, bm_revision := bm_revision m + 1, bm_updated := now\<rparr> else m)
     \<in> set (b_matches (commit_db user i a st now db))" unfolding commit_sel by (simp del: if_split)
  then show "\<exists>m'\<in>set (b_matches (commit_db user i a st now db)). bm_id m' = bm_id m \<and> bm_a m' = bm_a m \<and> bm_b m' = bm_b m"
    by (rule bexI [rotated]) simp
qed (simp add: find_user_def commit_sel)

lemma commit_ok:
  assumes ok: "db_ok db" and m: "m \<in> set (b_matches db)" "bm_id m = i" and u: "user = bm_a m \<or> user = bm_b m"
    and st: "match_ok (bm_a m) (bm_b m) st" "utf8_valid (NextMatchID st)"
    and nx: "NextMatchID st \<noteq> '''' \<longrightarrow>
      (\<exists>m2\<in>set (b_matches db). bm_id m2 = NextMatchID st \<and> bm_a m2 = bm_a m \<and> bm_b m2 = bm_b m)"
    and new: "find_action (update_match i (marshalState st) now db) i (ActionID a) = None"
  shows "db_ok (commit_db user i a st now db)"
proof -
  let ?db = "commit_db user i a st now db"
  let ?f = "\<lambda>m. if bm_id m = i
       then m\<lparr>bm_state := marshalState st, bm_revision := bm_revision m + 1, bm_updated := now\<rparr> else m"
  note k = commit_keeps [of db user i a st now]
  have un: "x = m" if "x \<in> set (b_matches db)" "bm_id x = i" for x
    using find_key [of bm_id "b_matches db" x] find_key [of bm_id "b_matches db" m] ok m that
    by (simp add: db_ok_def)
  have ids: "bm_id (?f x) = bm_id x \<and> bm_a (?f x) = bm_a x \<and> bm_b (?f x) = bm_b x" for x by simp
  have led: "lg_match (ledger_entry user i a) = i" by (simp add: ledger_entry_def)
  have fresh: "(lg_match r, lg_action r) \<noteq> (i, ActionID a)" if "r \<in> set (b_ledger db)" for r
    using new that by (auto simp: find_action_def update_match_def find_None)
  have rows: "row_ok ?db (?f x)" if x: "x \<in> set (b_matches db)" for x
  proof (cases "bm_id x = i")
    case False
    with ok x show ?thesis
      by (intro row_ok_keeps [OF _ k]) (auto simp: db_ok_def commit_sel led)
  next
    case True
    then have xm: "x = m" using un x by blast
    have ro: "row_ok db m" using ok m unfolding db_ok_def by blast
    have "\<exists>m2\<in>set (b_matches ?db). bm_id m2 = NextMatchID st \<and> bm_a m2 = bm_a m \<and> bm_b m2 = bm_b m"
      if "NextMatchID st \<noteq> ''''" using nx that k unfolding keeps_def by metis
    then have nx': "NextMatchID st \<noteq> '''' \<longrightarrow>
        (\<exists>m2\<in>set (b_matches ?db). bm_id m2 = NextMatchID st \<and> bm_a m2 = bm_a m \<and> bm_b m2 = bm_b m)" by blast
    have cnt: "bm_revision m + 1 = int (length (filter (\<lambda>r. lg_match r = bm_id m) (b_ledger ?db)))"
      using ro m(2) by (simp add: row_ok_def commit_sel led)
    have fu: "find_user ?db u = find_user db u" for u by (simp add: find_user_def commit_sel)
    have f: "?f m = m\<lparr>bm_state := marshalState st, bm_revision := bm_revision m + 1, bm_updated := now\<rparr>"
      using m(2) by simp
    show ?thesis
      unfolding xm f row_ok_def using ro cnt st nx' by (auto simp: fu row_ok_def)
  qed
  have "map bm_id (b_matches ?db) = map bm_id (b_matches db)" by (simp add: commit_sel)
  then have d: "distinct (map bm_id (b_matches ?db))" using ok by (simp add: db_ok_def)
  have "(lg_match (ledger_entry user i a), lg_action (ledger_entry user i a))
      \<notin> (\<lambda>r. (lg_match r, lg_action r)) ` set (b_ledger db)"
    using fresh unfolding ledger_entry_def ledger_row.simps by (metis (no_types, lifting) image_iff)
  then have d2: "distinct (map (\<lambda>r. (lg_match r, lg_action r)) (b_ledger ?db))"
    using ok unfolding db_ok_def commit_sel by simp
  have fk: "\<exists>x\<in>set (b_matches ?db). bm_id x = lg_match r \<and> (lg_actor r = bm_a x \<or> lg_actor r = bm_b x)"
    if r: "r \<in> set (b_ledger ?db)" for r
  proof (cases "r \<in> set (b_ledger db)")
    case True
    then obtain x where x: "x \<in> set (b_matches db)" "bm_id x = lg_match r" "lg_actor r = bm_a x \<or> lg_actor r = bm_b x"
      using ok unfolding db_ok_def by blast
    then have "?f x \<in> set (b_matches ?db)" by (auto simp: commit_sel)
    with x ids [of x] show ?thesis by (intro bexI [of _ "?f x"]) simp_all
  next
    case False
    then have "r = ledger_entry user i a" using r by (simp add: commit_sel)
    moreover have "?f m \<in> set (b_matches ?db)" using m by (auto simp: commit_sel)
    ultimately show ?thesis using ids [of m] m(2) u by (intro bexI [of _ "?f m"]) (simp_all add: ledger_entry_def)
  qed
  have rows': "\<forall>x\<in>set (b_matches ?db). row_ok ?db x" using rows unfolding commit_sel(3) set_map by blast
  show ?thesis
    using ok d rows' d2 fk unfolding db_ok_def by (simp add: commit_sel(1))
qed

lemma played_by_Some: "played_by db user i = Some m \<Longrightarrow> m \<in> set (b_matches db) \<and> bm_id m = i \<and> (user = bm_a m \<or> user = bm_b m)"
  unfolding played_by_def by (drule find_Some) auto

lemma row_state:
  assumes "db_ok db" and "m \<in> set (b_matches db)"
  obtains st where "unmarshalState (bm_state m) = Some st" "match_ok (bm_a m) (bm_b m) st" "utf8_valid (NextMatchID st)"
    "NextMatchID st \<noteq> '''' \<longrightarrow>
         (\<exists>m2\<in>set (b_matches db). bm_id m2 = NextMatchID st \<and> bm_a m2 = bm_a m \<and> bm_b m2 = bm_b m)"
    "bm_state m = marshalState st" "state_go st"
proof -
  have ro: "row_ok db m" using assms unfolding db_ok_def by blast
  then obtain st where st: "bm_state m = marshalState st" "match_ok (bm_a m) (bm_b m) st" "utf8_valid (NextMatchID st)"
    "NextMatchID st \<noteq> '''' \<longrightarrow>
         (\<exists>m2\<in>set (b_matches db). bm_id m2 = NextMatchID st \<and> bm_a m2 = bm_a m \<and> bm_b m2 = bm_b m)"
    unfolding row_ok_def by blast
  have "utf8_valid u" if "find_user db u \<noteq> None" for u
  proof -
    obtain x where "find_user db u = Some x" using \<open>find_user db u \<noteq> None\<close> by auto
    then have "x \<in> set (b_users db) \<and> us_id x = u" unfolding find_user_def by (rule find_Some)
    then show ?thesis using assms(1) unfolding db_ok_def by blast
  qed
  then have "state_go st" using ro st by (intro match_state_go [of "bm_a m" "bm_b m"]) (simp_all add: row_ok_def)
  with that st show thesis using unmarshal_marshal_state by metis
qed

lemma act_tx_ok:
  assumes ok: "db_ok db" and r: "act_tx parse flt fresh now user i a db = Inr db'"
    and fr: "\<And>n. fresh = Some n \<Longrightarrow> utf8_valid n"
  shows "db_ok db'" and "keeps db db'"
proof -
  have "db_ok db' \<and> keeps db db'"
    using r
  proof (cases rule: act_tx_cases)
    case retry
    then show ?thesis using ok by (auto simp: keeps_def)
  next
    case (applied m st st1 st2 db1)
    note m = played_by_Some [OF applied(1)]
    from row_state [OF ok] m obtain st' where st': "unmarshalState (bm_state m) = Some st'"
      "match_ok (bm_a m) (bm_b m) st'" "utf8_valid (NextMatchID st')"
      "NextMatchID st' \<noteq> '''' \<longrightarrow>
         (\<exists>m2\<in>set (b_matches db). bm_id m2 = NextMatchID st' \<and> bm_a m2 = bm_a m \<and> bm_b m2 = bm_b m)" by metis
    with applied(4) have s: "st' = st" by simp
    have nid: "NextMatchID st1 = NextMatchID st"
      using applied(5) by (cases rule: apply_cases) (auto simp: place_fleet_def fire_def Let_def split: if_splits)
    have ok1: "match_ok (bm_a m) (bm_b m) st1" using apply_ok [OF _ applied(5)] st'(2) s by blast
    note lk = link_next_ok [OF ok applied(6) ok1, unfolded nid, OF st'(3) [unfolded s] fr st'(4) [unfolded s]]
    obtain m1 where m1: "m1 \<in> set (b_matches db1)" "bm_id m1 = i" "bm_a m1 = bm_a m" "bm_b m1 = bm_b m"
      using lk(2) m unfolding keeps_def by metis
    have "db_ok db'"
      unfolding applied(8)
      by (rule commit_ok [OF lk(1) m1(1,2) _ _ lk(4) _ applied(7)]) (use m m1 lk(3,5) in simp_all)
    moreover have "keeps db db'"
      using lk(2) commit_keeps [of db1 user i a st2 now] unfolding applied(8) keeps_def by metis
    ultimately show ?thesis by blast
  qed
  then show "db_ok db'" "keeps db db'" by blast+
qed

lemma create_cases:
  assumes "Create parse flt coin now user i opp db = (r, db')"
  shows "db' = db \<or> (\<exists>c. coin = Some c \<and> insert_match
      \<lparr>bm_id = i, bm_a = user, bm_b = opp, bm_revision = 0,
       bm_state = marshalState (newState user opp c), bm_updated = now\<rparr> db = Inr db')"
  using assms unfolding Create_def insert_match_or_ignore_def
  by (auto split: if_splits option.splits sum.splits)

text \<open>
  Steps of the service and of the rest of the server, which adds users and changes their names
  and whether they are enabled. \<open>coin\<close> is 0 or 1, and \<open>fresh\<close> is UTF-8 text.
\<close>

inductive bstep :: "uuid_parser \<Rightarrow> battle_db \<Rightarrow> battle_db \<Rightarrow> bool" for parse where
  create: "coin \<in> {None, Some 0, Some 1} \<Longrightarrow> Create parse flt coin now user i opp db = (r, db') \<Longrightarrow> bstep parse db db'"
| act: "(\<And>n. fresh = Some n \<Longrightarrow> utf8_valid n) \<Longrightarrow> Act parse flt fresh now user i a db = (r, db') \<Longrightarrow> bstep parse db db'"
| users: "distinct (map us_id us) \<Longrightarrow> \<forall>u\<in>set us. utf8_valid (us_id u) \<Longrightarrow>
    set (map us_id (b_users db)) \<subseteq> set (map us_id us) \<Longrightarrow> bstep parse db (db\<lparr>b_users := us\<rparr>)"

lemma bstep_ok: "bstep parse db db' \<Longrightarrow> db_ok db \<Longrightarrow> db_ok db' \<and> keeps db db'"
proof (induction rule: bstep.induct)
  case (create coin flt now user i opp db r db')
  from create_cases [OF create(2)] show ?case
  proof
    assume "db' = db"
    with create show ?thesis by (auto simp: keeps_def)
  next
    assume "\<exists>c. coin = Some c \<and> insert_match
      \<lparr>bm_id = i, bm_a = user, bm_b = opp, bm_revision = 0,
       bm_state = marshalState (newState user opp c), bm_updated = now\<rparr> db = Inr db'"
    then obtain c where c: "coin = Some c" and ins: "insert_match
      \<lparr>bm_id = i, bm_a = user, bm_b = opp, bm_revision = 0,
       bm_state = marshalState (newState user opp c), bm_updated = now\<rparr> db = Inr db'" by blast
    have "c \<in> {0, 1}" using c create(1) by auto
    from insert_match_ok [OF create(3) ins _ _ this] show ?thesis by simp
  qed
next
  case (act fresh flt now user i a db r db')
  show ?case
  proof (cases "act_tx parse flt fresh now user i a db")
    case (Inl e)
    with act show ?thesis by (auto simp: Act_def keeps_def)
  next
    case (Inr d)
    with act have "d = db'" by (simp add: Act_def)
    with act_tx_ok [OF act(3) Inr] act(1) show ?thesis by blast
  qed
next
  case (users us db)
  have fu: "find_user (db\<lparr>b_users := us\<rparr>) u \<noteq> None" if "find_user db u \<noteq> None" for u
  proof -
    obtain x where "find_user db u = Some x" using \<open>find_user db u \<noteq> None\<close> by auto
    then have "x \<in> set (b_users db) \<and> us_id x = u" unfolding find_user_def by (rule find_Some)
    then have "u \<in> set (map us_id us)" using users(3) by auto
    then show ?thesis by (auto simp: find_user_def find_None)
  qed
  then have k: "keeps db (db\<lparr>b_users := us\<rparr>)" by (auto simp: keeps_def)
  have "row_ok (db\<lparr>b_users := us\<rparr>) m" if "m \<in> set (b_matches db)" for m
    using users(4) that by (intro row_ok_keeps [OF _ k]) (auto simp: db_ok_def)
  with users k show ?case by (simp add: db_ok_def)
qed

subsection \<open>Recorded actions\<close>

lemma find_map_same: "(\<And>x. x \<in> set xs \<Longrightarrow> P (f x) = P x) \<Longrightarrow> find P (map f xs) = map_option f (find P xs)"
  by (induction xs) auto

lemma played_by_commit:
  "played_by (commit_db user' i a st now db) user j = None \<longleftrightarrow> played_by db user j = None"
  unfolding played_by_def commit_sel
  by (subst find_map_same) (auto simp del: if_split simp: if_split [of "\<lambda>x. bm_id x = _"] if_split [of "\<lambda>x. bm_a x = _"] if_split [of "\<lambda>x. bm_b x = _"])

lemma recorded_insert:
  "recorded db user i a \<Longrightarrow> insert_match m db = Inr db' \<Longrightarrow> recorded db' user i a"
  by (auto simp: bv_insert_match_iff recorded_def played_by_def find_action_def find_append)

lemma recorded_link:
  "recorded db user i a \<Longrightarrow> link_next flt fresh now st db = Inr (st', db') \<Longrightarrow> recorded db' user i a"
  unfolding link_next_iff using recorded_insert by (auto split: if_splits)

lemma recorded_commit:
  assumes "recorded db user i a"
  shows "recorded (commit_db user' i' a' st now db) user i a"
proof -
  obtain r where r: "find_action db i (ActionID a) = Some r" "lg_actor r = user" "lg_request r = marshalAction a"
    and p: "played_by db user i \<noteq> None" using assms by (auto simp: recorded_def)
  have "played_by (commit_db user' i' a' st now db) user i \<noteq> None"
    using p by (simp add: played_by_commit)
  moreover have "find_action (commit_db user' i' a' st now db) i (ActionID a) = Some r"
    using r(1) by (simp add: find_action_def commit_sel find_append)
  ultimately show ?thesis using r unfolding recorded_def by blast
qed

lemma recorded_act_tx:
  assumes "recorded db user i a" and "act_tx parse flt fresh now user' i' a' db = Inr db'"
  shows "recorded db' user i a"
  using assms(2)
proof (cases rule: act_tx_cases)
  case (applied m st st1 st2 db1)
  show ?thesis unfolding applied(8) by (rule recorded_commit [OF recorded_link [OF assms(1) applied(6)]])
qed (use assms(1) in simp)

lemma recorded_step: "bstep parse db db' \<Longrightarrow> recorded db user i a \<Longrightarrow> recorded db' user i a"
proof (induction rule: bstep.induct)
  case (create coin flt now u i' opp db r db')
  from create_cases [OF create(2)] create(3) recorded_insert show ?case by blast
next
  case (act fresh flt now u i' a' db r db')
  then show ?case
    using recorded_act_tx [OF act(3)] by (cases "act_tx parse flt fresh now u i' a' db") (auto simp: Act_def)
qed (simp add: recorded_def played_by_def find_action_def)

lemma recorded_steps: "(bstep parse)\<^sup>*\<^sup>* db db' \<Longrightarrow> recorded db user i a \<Longrightarrow> recorded db' user i a"
  by (induction rule: rtranclp_induct) (auto intro: recorded_step)

lemma act_tx_valid:
  assumes "act_tx parse flt fresh now user i a db = Inr db'"
  shows "validID parse i" "validID parse (ActionID a)" "Revision a \<ge> 0"
  using assms by (auto simp: act_tx_def split: if_splits)

lemma act_tx_recorded:
  assumes "act_tx parse flt fresh now user i a db = Inr db'"
  shows "recorded db' user i a"
  using assms
proof (cases rule: act_tx_cases)
  case (applied m st st1 st2 db1)
  have p: "played_by db1 user i \<noteq> None"
    using applied(1,6) unfolding link_next_iff
    by (auto simp: bv_insert_match_iff played_by_def find_append split: if_splits)
  then have "played_by db' user i \<noteq> None"
    unfolding applied(8) by (simp add: played_by_commit)
  moreover have "find_action db1 i (ActionID a) = None"
    using applied(7) by (simp add: find_action_def update_match_def)
  then have "find_action db' i (ActionID a) = Some (ledger_entry user i a)"
    unfolding applied(8) by (simp add: find_action_def commit_sel find_append ledger_entry_def)
  ultimately show ?thesis by (simp add: recorded_def ledger_entry_def)
qed auto

lemma recorded_retry:
  assumes "recorded db user i a" and "validID parse i" "validID parse (ActionID a)" "Revision a \<ge> 0"
    and "\<not> flt S_Begin" "\<not> flt S_Match" "\<not> flt S_Action" "\<not> flt S_Commit"
  shows "act_tx parse flt fresh now user i a db = Inr db"
  using assms by (auto simp: act_tx_def recorded_def played_by_def)

lemma steps_ok: "(bstep parse)\<^sup>*\<^sup>* db db' \<Longrightarrow> db_ok db \<Longrightarrow> db_ok db' \<and> keeps db db'"
proof (induction rule: rtranclp_induct)
  case (step d d')
  then show ?case using bstep_ok [OF step(2)] unfolding keeps_def by metis
qed (auto simp: keeps_def)

subsection \<open>Reads of good tables\<close>

lemma player_row:
  assumes "match_ok a b st"
  shows "user = a \<Longrightarrow> player st user = 0" "user = b \<Longrightarrow> a \<noteq> b \<Longrightarrow> player st user = 1"
    "user \<noteq> a \<Longrightarrow> user \<noteq> b \<Longrightarrow> player st user < 0"
  using assms by (auto simp: match_ok_def phase_ok_def player_def)

lemma Get_good:
  assumes ok: "db_ok db" and m: "played_by db user i = Some m" and v: "validID parse i" and f: "\<not> flt S_Get"
  obtains st u where "unmarshalState (bm_state m) = Some st" "match_ok (bm_a m) (bm_b m) st"
    "find_user db (opponent_of m user) = Some u"
    "Get parse flt user i db = Inr ((view st (player st user))\<lparr>V_ID := i, V_Revision := bm_revision m, V_OpponentName := us_nickname u\<rparr>)"
proof -
  note pm = played_by_Some [OF m]
  have ro: "row_ok db m" using ok pm unfolding db_ok_def by blast
  from row_state [OF ok] pm obtain st where st: "unmarshalState (bm_state m) = Some st" "match_ok (bm_a m) (bm_b m) st"
    by metis
  have "find_user db (opponent_of m user) \<noteq> None" using ro unfolding row_ok_def opponent_of_def by simp
  then obtain u where u: "find_user db (opponent_of m user) = Some u" by blast
  have "\<not> player st user < 0"
    using player_row [OF st(2)] pm ro unfolding row_ok_def by (metis less_irrefl zero_less_one not_less_iff_gr_or_eq)
  with st u m v f pm show thesis
    by (intro that [of st u]) (auto simp: Get_def played_by_def row_view_def)
qed

lemma find_row: "find (\<lambda>y. bm_id y = i \<and> P y) xs = Some x \<Longrightarrow> find (\<lambda>y. bm_id y = i) xs = Some m \<Longrightarrow> distinct (map bm_id xs) \<Longrightarrow> x = m"
proof -
  assume "find (\<lambda>y. bm_id y = i \<and> P y) xs = Some x" "find (\<lambda>y. bm_id y = i) xs = Some m" and d: "distinct (map bm_id xs)"
  then have "x \<in> set xs" "m \<in> set xs" "bm_id x = bm_id m" by (auto dest: find_Some)
  with d show "x = m" by (simp add: distinct_map inj_on_def)
qed

lemma played_by_row:
  assumes "db_ok db" and "m \<in> set (b_matches db)" and "user = bm_a m \<or> user = bm_b m"
  shows "played_by db user (bm_id m) = Some m"
proof (cases "played_by db user (bm_id m)")
  case None
  then show ?thesis using assms(2,3) unfolding played_by_def find_None by blast
next
  case (Some x)
  have d: "distinct (map bm_id (b_matches db))" using assms(1) by (simp add: db_ok_def)
  show ?thesis
    using find_row [OF Some [unfolded played_by_def] find_key [OF d assms(2)] d] Some by simp
qed

subsection \<open>Properties\<close>

text \<open>C18. The tables of battleship: in every state that requests can lead to from empty tables, each
  match has two different players, holds a state of the game in which its invariant is true, has the
  number of recorded actions as its revision, and names a next match only when that match exists with
  the same players; both players can read it.\<close>

theorem battleship_tables:
  assumes "(bstep parse)\<^sup>*\<^sup>* db0 db" and "b_matches db0 = []" and "b_ledger db0 = []"
    and "distinct (map us_id (b_users db0))" and "\<forall>u\<in>set (b_users db0). utf8_valid (us_id u)"
    and "m \<in> set (b_matches db)" and "user \<in> {bm_a m, bm_b m}" and "validID parse (bm_id m)" and "\<not> flt S_Get"
  shows "bm_a m \<noteq> bm_b m \<and> bm_revision m = int (length (filter (\<lambda>r. lg_match r = bm_id m) (b_ledger db))) \<and>
    (\<exists>st u. unmarshalState (bm_state m) = Some st \<and> match_ok (bm_a m) (bm_b m) st \<and>
      (NextMatchID st \<noteq> '''' \<longrightarrow>
        (\<exists>m2\<in>set (b_matches db). bm_id m2 = NextMatchID st \<and> bm_a m2 = bm_a m \<and> bm_b m2 = bm_b m)) \<and>
      find_user db (opponent_of m user) = Some u \<and>
      Get parse flt user (bm_id m) db = Inr ((view st (player st user))
        \<lparr>V_ID := bm_id m, V_Revision := bm_revision m, V_OpponentName := us_nickname u\<rparr>))"
proof -
  have "db_ok db0" using assms(2-5) by (simp add: db_ok_def)
  with steps_ok [OF assms(1)] have ok: "db_ok db" by blast
  then have ro: "row_ok db m" using assms(6) unfolding db_ok_def by blast
  have x: "played_by db user (bm_id m) = Some m" using played_by_row [OF ok assms(6)] assms(7) by blast
  from row_state [OF ok assms(6)] obtain st where st: "unmarshalState (bm_state m) = Some st"
    "match_ok (bm_a m) (bm_b m) st"
    "NextMatchID st \<noteq> '''' \<longrightarrow>
      (\<exists>m2\<in>set (b_matches db). bm_id m2 = NextMatchID st \<and> bm_a m2 = bm_a m \<and> bm_b m2 = bm_b m)" by metis
  have "\<exists>u. find_user db (opponent_of m user) = Some u \<and>
      Get parse flt user (bm_id m) db = Inr ((view st (player st user))
        \<lparr>V_ID := bm_id m, V_Revision := bm_revision m, V_OpponentName := us_nickname u\<rparr>)"
    by (rule Get_good [where parse = parse and flt = flt, OF ok x assms(8,9)]) (use st(1) in auto)
  with st ro show ?thesis unfolding row_ok_def by blast
qed

definition sample_users :: "user_row list" where
  "sample_users = [\<lparr>us_id = replicate 36 CHR ''a'', us_nickname = ''Ann'', us_enabled = 1\<rparr>,
     \<lparr>us_id = replicate 36 CHR ''b'', us_nickname = ''Bob'', us_enabled = 1\<rparr>]"

definition sample_row :: match_row where
  "sample_row = \<lparr>bm_id = replicate 36 CHR ''c'', bm_a = replicate 36 CHR ''a'', bm_b = replicate 36 CHR ''b'',
     bm_revision = 0, bm_state = marshalState (newState (replicate 36 CHR ''a'') (replicate 36 CHR ''b'') 0),
     bm_updated = 5\<rparr>"

definition sample_db :: battle_db where
  "sample_db = \<lparr>b_users = sample_users, b_matches = [], b_ledger = []\<rparr>"

lemma sample_create:
  "snd (Create sample_parser (\<lambda>_. False) (Some 0) 5 (bm_a sample_row) (bm_id sample_row) (bm_b sample_row) sample_db) =
     sample_db\<lparr>b_matches := [sample_row]\<rparr>"
  by (simp add: Create_def validID_def sample_parser_def sample_row_def sample_db_def sample_users_def find_user_def
      find_match_def insert_match_or_ignore_def insert_match_def numeral_eq_Suc)

lemma bv_sample_reach: "(bstep sample_parser)\<^sup>*\<^sup>* sample_db (sample_db\<lparr>b_matches := [sample_row]\<rparr>)"
proof -
  obtain r where "Create sample_parser (\<lambda>_. False) (Some 0) 5 (bm_a sample_row) (bm_id sample_row) (bm_b sample_row) sample_db =
     (r, sample_db\<lparr>b_matches := [sample_row]\<rparr>)" using sample_create by (metis prod.collapse)
  then show ?thesis by (intro r_into_rtranclp bstep.create) simp_all
qed

lemma sample_valid: "validID sample_parser (bm_id sample_row)" "validID sample_parser (replicate 36 CHR ''d'')"
  by (simp_all add: validID_def sample_parser_def sample_row_def numeral_eq_Suc)

lemma sample_start: "b_matches sample_db = []" "b_ledger sample_db = []"
  "distinct (map us_id (b_users sample_db))" "\<forall>u\<in>set (b_users sample_db). utf8_valid (us_id u)"
  by (simp_all add: sample_db_def sample_users_def utf8_valid_ascii numeral_eq_Suc)

theorem battleship_tables_witness: "bm_a sample_row \<noteq> bm_b sample_row"
  using battleship_tables [OF bv_sample_reach sample_start _ _ sample_valid(1), of "bm_a sample_row" "\<lambda>_. False"]
  by simp

lemma bv_sample_played: "played_by (sample_db\<lparr>b_matches := [sample_row]\<rparr>) (bm_a sample_row) (bm_id sample_row) = Some sample_row"
  by (simp add: played_by_def)

lemma sample_ok: "db_ok (sample_db\<lparr>b_matches := [sample_row]\<rparr>)"
proof -
  have "db_ok sample_db" using sample_start by (simp add: db_ok_def)
  then show ?thesis using steps_ok [OF bv_sample_reach] by blast
qed

text \<open>Retries: once an action has been applied, the same request of the same player succeeds again
  after any further requests and changes nothing, however often the revision has moved on.\<close>

lemma battleship_retry:
  assumes "db_ok db" and "act_tx parse flt fresh now user i a db = Inr db1" and "\<And>n. fresh = Some n \<Longrightarrow> utf8_valid n"
    and "(bstep parse)\<^sup>*\<^sup>* db1 db2" and "\<And>s. \<not> flt' s"
  shows "\<exists>v. Act parse flt' fresh' now' user i a db2 = (Inr v, db2)"
proof -
  have ok: "db_ok db2" using steps_ok [OF assms(4)] act_tx_ok(1) [OF assms(1-3)] by blast
  have rec: "recorded db2 user i a" using recorded_steps [OF assms(4)] act_tx_recorded [OF assms(2)] by blast
  note v = act_tx_valid [OF assms(2)]
  have tx: "act_tx parse flt' fresh' now' user i a db2 = Inr db2"
    by (rule recorded_retry [OF rec v]) (rule assms(5))+
  obtain m where "played_by db2 user i = Some m" using rec unfolding recorded_def by blast
  from Get_good [where parse = parse and flt = flt', OF ok this v(1) assms(5)]
  obtain w where "Get parse flt' user i db2 = Inr w" by blast
  then show ?thesis using tx by (simp add: Act_def)
qed

text \<open>The rows of matches after an action: the row of the match, and the row of the next match when
  both players have asked for one.\<close>

definition links :: "State \<Rightarrow> bool" where
  "links st \<longleftrightarrow> Rematch st ! 0 \<and> Rematch st ! 1 \<and> NextMatchID st = ''''"

definition acted_db :: "bytes \<Rightarrow> bytes \<Rightarrow> Action \<Rightarrow> State \<Rightarrow> bytes \<Rightarrow> int \<Rightarrow> battle_db \<Rightarrow> battle_db" where
  "acted_db user i a st n now db =
     (let st' = (if links st then st\<lparr>NextMatchID := n\<rparr> else st) in
      db\<lparr>b_matches := map (\<lambda>m. if bm_id m = i
           then m\<lparr>bm_state := marshalState st', bm_revision := bm_revision m + 1, bm_updated := now\<rparr> else m)
           (b_matches db) @ (if links st then [next_row n now st] else []),
         b_ledger := b_ledger db @ [ledger_entry user i a]\<rparr>)"

lemma acted_find:
  assumes "m \<in> set (b_matches db)" and "bm_id m = i"
  shows "find_match (acted_db user j a st n now db) i \<noteq> None"
proof -
  let ?f = "\<lambda>m. if bm_id m = j then m\<lparr>bm_state := marshalState (if links st then st\<lparr>NextMatchID := n\<rparr> else st),
      bm_revision := bm_revision m + 1, bm_updated := now\<rparr> else m"
  have "?f m \<in> set (b_matches (acted_db user j a st n now db))" using assms(1) by (simp add: acted_db_def Let_def del: if_split)
  moreover have "bm_id (?f m) = i" using assms(2) by simp
  ultimately show ?thesis unfolding find_match_def find_None by blast
qed

lemma link_links:
  assumes "match_ok a b st" and "a \<noteq> b" and "find_user db a \<noteq> None" and "find_user db b \<noteq> None"
    and "find_match db n = None" and "\<not> flt S_InsertNext"
  shows "link_next flt (Some n) now st db =
    Inr (if links st then st\<lparr>NextMatchID := n\<rparr> else st,
      if links st then db\<lparr>b_matches := b_matches db @ [next_row n now st]\<rparr> else db)"
proof (cases "links st")
  case True
  have "Players st = [a, b]" using assms(1) by (simp add: match_ok_def phase_ok_def)
  then have "insert_match (next_row n now st) db = Inr (db\<lparr>b_matches := b_matches db @ [next_row n now st]\<rparr>)"
    using assms by (simp add: bv_insert_match_iff next_row_def)
  with True assms(6) show ?thesis
    unfolding link_next_iff by (auto simp: links_def)
next
  case False
  then show ?thesis unfolding link_next_iff by (auto simp: links_def)
qed

text \<open>C19. The transaction of an action: an action that was not applied before is refused when its
  revision is not that of the match, fails with the error of the rules, or moves the match to the next
  revision and records the action, and creates the next match, with the other player first, exactly
  when both players have asked for it. An error changes nothing.\<close>

theorem battleship_act:
  assumes ok: "db_ok db" and p: "played_by db user i = Some m" and new: "find_action db i (ActionID a) = None"
    and v: "validID parse i" "validID parse (ActionID a)" "0 \<le> Revision a"
    and n: "find_match db n = None" "utf8_valid n" and f: "\<And>s. \<not> flt s"
  shows "\<exists>st. unmarshalState (bm_state m) = Some st \<and>
    (if bm_revision m \<noteq> Revision a then Act parse flt (Some n) now user i a db = (Inl ErrConflict, db)
     else case apply_action st (player st user) a of
       Inl e \<Rightarrow> Act parse flt (Some n) now user i a db = (Inl e, db)
     | Inr st1 \<Rightarrow> \<exists>w. V_Revision w = Revision a + 1 \<and>
         Act parse flt (Some n) now user i a db = (Inr w, acted_db user i a st1 n now db))"
proof -
  note pm = played_by_Some [OF p]
  have ro: "row_ok db m" using ok pm unfolding db_ok_def by blast
  from row_state [OF ok] pm obtain st where st: "unmarshalState (bm_state m) = Some st"
    "match_ok (bm_a m) (bm_b m) st" by metis
  have rs: "run_stmt flt s x = Inr x" "and_then y (run_stmt flt s) = y" for s x and y :: "battle_error + battle_db"
    using f by (cases y; simp)+
  have tx: "act_tx parse flt (Some n) now user i a db =
    (if bm_revision m \<noteq> Revision a then Inl ErrConflict
     else and_then (apply_action st (player st user) a) (\<lambda>st1.
       and_then (link_next flt (Some n) now st1 db) (\<lambda>(st2, db1).
       insert_action (ledger_entry user i a) (update_match i (marshalState st2) now db1))))"
    using v p new st(1) by (simp add: act_tx_def played_by_def rs ledger_entry_def)
  show ?thesis
  proof (cases "bm_revision m = Revision a")
    case False
    with tx st(1) show ?thesis by (simp add: Act_def)
  next
    case True
    show ?thesis
    proof (cases "apply_action st (player st user) a")
      case (Inl e)
      with True tx st(1) show ?thesis by (simp add: Act_def)
    next
      case (Inr st1)
      have ok1: "match_ok (bm_a m) (bm_b m) st1" by (rule apply_ok [OF st(2) Inr])
      let ?st2 = "if links st1 then st1\<lparr>NextMatchID := n\<rparr> else st1"
      let ?db1 = "if links st1 then db\<lparr>b_matches := b_matches db @ [next_row n now st1]\<rparr> else db"
      have lk: "link_next flt (Some n) now st1 db = Inr (?st2, ?db1)"
        using ro n f by (intro link_links [OF ok1]) (simp_all add: row_ok_def)
      have ni: "n \<noteq> i" using n pm by (auto simp: find_match_def find_None)
      have upd: "update_match i (marshalState ?st2) now ?db1 =
          acted_db user i a st1 n now db\<lparr>b_ledger := b_ledger db\<rparr>"
        using ni by (simp add: update_match_def acted_db_def next_row_def Let_def)
      have "find_user db user \<noteq> None" using ro pm unfolding row_ok_def by blast
      moreover have "find_match (acted_db user i a st1 n now db) i \<noteq> None"
        by (rule acted_find [OF conjunct1 [OF pm]]) (use pm in blast)
      ultimately have ins: "insert_action (ledger_entry user i a) (update_match i (marshalState ?st2) now ?db1) =
          Inr (acted_db user i a st1 n now db)"
        using new unfolding upd
        by (simp add: insert_action_def ledger_entry_def find_action_def find_user_def find_match_def acted_db_def Let_def)
      have tx': "act_tx parse flt (Some n) now user i a db = Inr (acted_db user i a st1 n now db)"
        unfolding tx using True Inr lk ins by simp
      have ok': "db_ok (acted_db user i a st1 n now db)" using act_tx_ok(1) [OF ok tx'] n(2) by simp
      let ?m' = "m\<lparr>bm_state := marshalState ?st2, bm_revision := bm_revision m + 1, bm_updated := now\<rparr>"
      have "?m' \<in> set (b_matches (acted_db user i a st1 n now db))"
        using pm by (force simp: acted_db_def Let_def)
      then have "played_by (acted_db user i a st1 n now db) user i = Some ?m'"
        using played_by_row [OF ok', of ?m' user] pm by simp
      from Get_good [where parse = parse and flt = flt, OF ok' this v(1) f]
      obtain w where "Get parse flt user i (acted_db user i a st1 n now db) = Inr w" "V_Revision w = Revision a + 1"
        using True by force
      with tx' True Inr st(1) show ?thesis by (simp add: Act_def)
    qed
  qed
qed

definition sample_stale :: Action where
  "sample_stale = \<lparr>ActionID = replicate 36 CHR ''d'', Revision = 7, Kind = ''fire'', Action_Ships = None,
     Action_Cell = 3\<rparr>"

theorem battleship_act_witness:
  "Act sample_parser (\<lambda>_. False) (Some ''n'') 6 (bm_a sample_row) (bm_id sample_row) sample_stale
     (sample_db\<lparr>b_matches := [sample_row]\<rparr>) = (Inl ErrConflict, sample_db\<lparr>b_matches := [sample_row]\<rparr>)"
proof -
  have "find_action (sample_db\<lparr>b_matches := [sample_row]\<rparr>) (bm_id sample_row) (ActionID sample_stale) = None"
    "find_match (sample_db\<lparr>b_matches := [sample_row]\<rparr>) ''n'' = None" "utf8_valid ''n''"
    "0 \<le> Revision sample_stale" "bm_revision sample_row \<noteq> Revision sample_stale"
    "validID sample_parser (ActionID sample_stale)"
    using sample_valid(2) by (simp_all add: find_action_def find_match_def sample_db_def sample_row_def sample_stale_def
        utf8_valid_ascii numeral_eq_Suc)
  then show ?thesis
    using battleship_act [OF sample_ok bv_sample_played, of sample_stale sample_parser "''n''" "\<lambda>_. False" 6] sample_valid(1)
    by simp
qed

text \<open>The first player cancels the match, and asks for that again.\<close>

definition sample_cancel :: Action where
  "sample_cancel = \<lparr>ActionID = replicate 36 CHR ''d'', Revision = 0, Kind = ''cancel'', Action_Ships = None,
     Action_Cell = 0\<rparr>"

lemma sample_cancel_tx:
  "\<exists>db. act_tx sample_parser (\<lambda>_. False) (Some ''n'') 6 (bm_a sample_row) (bm_id sample_row) sample_cancel
     (sample_db\<lparr>b_matches := [sample_row]\<rparr>) = Inr db"
proof -
  let ?st = "newState (replicate 36 CHR ''a'') (replicate 36 CHR ''b'') 0"
  let ?db = "sample_db\<lparr>b_matches := [sample_row]\<rparr>"
  have "state_go ?st"
    by (rule match_state_go [of "replicate 36 CHR ''a''" "replicate 36 CHR ''b''"])
      (simp_all add: new_ok utf8_valid_ascii list_all_iff, simp_all add: newState_def)
  then have st: "unmarshalState (bm_state sample_row) = Some ?st"
    using unmarshal_marshal_state by (simp add: sample_row_def)
  have ap: "apply_action ?st (player ?st (bm_a sample_row)) sample_cancel = Inr (?st\<lparr>Phase := ''cancelled''\<rparr>)"
    by (simp add: apply_action_def sample_cancel_def player_def newState_def sample_row_def)
  have lk: "link_next flt (Some n) 6 (?st\<lparr>Phase := ''cancelled''\<rparr>) ?db = Inr (?st\<lparr>Phase := ''cancelled''\<rparr>, ?db)" for flt n
    by (simp add: link_next_def newState_def)
  have "find_action ?db (bm_id sample_row) (ActionID sample_cancel) = None" "bm_revision sample_row = Revision sample_cancel"
    "validID sample_parser (ActionID sample_cancel)" "0 \<le> Revision sample_cancel"
    using sample_valid(2) by (simp_all add: find_action_def sample_cancel_def sample_row_def sample_db_def)
  then show ?thesis
    using bv_sample_played sample_valid(1)
    by (simp add: act_tx_def played_by_def st ap lk)
      (simp add: insert_action_def find_action_def find_match_def find_user_def
        update_match_def sample_db_def sample_users_def sample_row_def)
qed

lemma battleship_retry_witness:
  "\<exists>v db. Act sample_parser (\<lambda>_. False) None 9 (bm_a sample_row) (bm_id sample_row) sample_cancel db = (Inr v, db)"
proof -
  obtain db where tx: "act_tx sample_parser (\<lambda>_. False) (Some ''n'') 6 (bm_a sample_row) (bm_id sample_row) sample_cancel
     (sample_db\<lparr>b_matches := [sample_row]\<rparr>) = Inr db" using sample_cancel_tx by blast
  have "\<And>n. Some ''n'' = Some n \<Longrightarrow> utf8_valid n" by (auto simp: utf8_valid_ascii)
  from battleship_retry [OF sample_ok tx this rtranclp.rtrancl_refl, of "\<lambda>_. False" None 9] show ?thesis by blast
qed

end
