(* ===== verification/Registry.thy ===== *)
theory Registry
  imports Gomoku Reversi Rps ChineseCheckers FlightChess "HOL-Library.Multiset"
begin

text \<open>
  The registry of games (\<open>server/internal/games/registry.go\<close>, \<open>games/rules.go\<close>). A value of the
  interface \<open>Rules\<close> is its receiver and its methods. The receivers of the engines hold nothing
  but a format, which only \<open>Configure\<close> sets; the optional interfaces \<open>RandomizedRules\<close>,
  \<open>Configurator\<close> and \<open>SingleActiveMatchPolicy\<close> are methods that may be absent. A nil entry of
  the registry is \<open>None\<close>.
\<close>

subsection \<open>Rules\<close>

record rules =
  ru_format :: bytes
  ru_game :: bytes
  ru_limit :: int
  ru_rebuild :: "bytes \<Rightarrow> event list \<Rightarrow> game_error + snapshot"
  ru_apply :: "bytes \<Rightarrow> snapshot \<Rightarrow> bytes \<Rightarrow> action \<Rightarrow> game_error + event \<times> snapshot"
  ru_random :: "(snapshot \<Rightarrow> bytes \<Rightarrow> action \<Rightarrow> nat list option \<Rightarrow> game_error + event \<times> snapshot) option"
  ru_configure :: "(bytes \<Rightarrow> game_error + bytes) option"
  ru_single :: "bool option"

text \<open>Calls of the methods on the receiver.\<close>

definition rules_Rebuild :: "rules \<Rightarrow> event list \<Rightarrow> game_error + snapshot" where
  "rules_Rebuild r events = ru_rebuild r (ru_format r) events"

definition rules_Apply :: "rules \<Rightarrow> snapshot \<Rightarrow> bytes \<Rightarrow> action \<Rightarrow> game_error + event \<times> snapshot" where
  "rules_Apply r sn actor act = ru_apply r (ru_format r) sn actor act"

definition rules_Configure :: "rules \<Rightarrow> bytes \<Rightarrow> (game_error + rules) option" where
  "rules_Configure r config =
     (case ru_configure r of
        None \<Rightarrow> None
      | Some c \<Rightarrow> Some (and_then (c config) (\<lambda>format. Inr (r\<lparr>ru_format := format\<rparr>))))"

text \<open>The rule engines of the server.\<close>

definition fixed_rules ::
  "bytes \<Rightarrow> (event list \<Rightarrow> game_error + snapshot) \<Rightarrow>
   (snapshot \<Rightarrow> bytes \<Rightarrow> action \<Rightarrow> game_error + event \<times> snapshot) \<Rightarrow> rules" where
  "fixed_rules g rebuild apply_rules =
     \<lparr>ru_format = '''', ru_game = g, ru_limit = 2, ru_rebuild = (\<lambda>_. rebuild),
      ru_apply = (\<lambda>_. apply_rules), ru_random = None, ru_configure = None, ru_single = Some True\<rparr>"

definition gomoku_rules :: rules where
  "gomoku_rules = fixed_rules Gomoku.GameID Gomoku.Rebuild Gomoku.Apply"

definition reversi_rules :: rules where
  "reversi_rules = fixed_rules Reversi.GameID Reversi.Rebuild Reversi.Apply"

definition checkers_rules :: rules where
  "checkers_rules = fixed_rules ChineseCheckers.GameID ChineseCheckers.Rebuild ChineseCheckers.Apply"

definition flight_rules :: rules where
  "flight_rules =
     (fixed_rules FlightChess.GameID FlightChess.Rebuild FlightChess.Apply)
       \<lparr>ru_random := Some FlightChess.ApplyRandom\<rparr>"

definition rps_rules :: rules where
  "rps_rules =
     \<lparr>ru_format = '''', ru_game = Rps.GameID, ru_limit = 2, ru_rebuild = Rps.Rebuild, ru_apply = Rps.Apply,
      ru_random = None, ru_configure = Some Rps.Configure, ru_single = Some True\<rparr>"

subsection \<open>The registry\<close>

datatype registry_error = ErrInvalidRules | ErrDuplicateGame

record descriptor =
  de_game :: bytes
  de_limit :: int
  de_single :: bool

record registry =
  rg_rules :: "(bytes \<times> rules) list"
  rg_descriptors :: "descriptor list"

text \<open>The characters after the first are runes; those accepted take one byte each.\<close>

definition validGameID :: "bytes \<Rightarrow> bool" where
  "validGameID g \<longleftrightarrow>
     \<not> (length g < 1 \<or> length g > 32 \<or> g ! 0 < CHR ''a'' \<or> g ! 0 > CHR ''z'') \<and>
     list_all (\<lambda>c. (CHR ''a'' \<le> c \<and> c \<le> CHR ''z'') \<or> (CHR ''0'' \<le> c \<and> c \<le> CHR ''9'') \<or>
       c = CHR ''-'' \<or> c = CHR ''_'') (tl g)"

fun register :: "rules option list \<Rightarrow> registry \<Rightarrow> registry_error + registry" where
  "register [] reg = Inr reg"
| "register (None # rs) reg = Inl ErrInvalidRules"
| "register (Some r # rs) reg =
     (let g = ru_game r; n = ru_limit r in
      if \<not> validGameID g \<or> n < 1 \<or> n > 64 then Inl ErrInvalidRules
      else if map_of (rg_rules reg) g \<noteq> None then Inl ErrDuplicateGame
      else
        let single = (case ru_single r of Some b \<Rightarrow> b | None \<Rightarrow> False) in
        register rs (reg\<lparr>rg_rules := rg_rules reg @ [(g, r)],
          rg_descriptors := rg_descriptors reg @ [\<lparr>de_game = g, de_limit = n, de_single = single\<rparr>]\<rparr>))"

definition NewRegistryFrom :: "rules option list \<Rightarrow> registry_error + registry" where
  "NewRegistryFrom entries =
     and_then (register entries \<lparr>rg_rules = [], rg_descriptors = []\<rparr>)
       (\<lambda>reg. Inr (reg\<lparr>rg_descriptors := sort_key de_game (rg_descriptors reg)\<rparr>))"

definition NewRegistry :: "registry_error + registry" where
  "NewRegistry = NewRegistryFrom
     [Some checkers_rules, Some flight_rules, Some gomoku_rules, Some reversi_rules, Some rps_rules]"

definition Lookup :: "registry \<Rightarrow> bytes \<Rightarrow> rules option" where
  "Lookup reg g = map_of (rg_rules reg) g"

definition Descriptors :: "registry \<Rightarrow> descriptor list" where
  "Descriptors reg = rg_descriptors reg"

definition singleActiveMatch :: "rules \<Rightarrow> bool" where
  "singleActiveMatch r \<longleftrightarrow> (case ru_single r of Some b \<Rightarrow> b | None \<Rightarrow> False)"

subsection \<open>What the registry holds\<close>

lemma map_of_snoc:
  "map_of (xs @ [(k, v)]) g = (case map_of xs g of Some w \<Rightarrow> Some w | None \<Rightarrow> if g = k then Some v else None)"
  by (simp add: map_of_append map_add_def split: option.splits)

definition entry_ok :: "rules \<Rightarrow> bool" where
  "entry_ok r \<longleftrightarrow> validGameID (ru_game r) \<and> 1 \<le> ru_limit r \<and> ru_limit r \<le> 64"

definition descriptor_of :: "rules \<Rightarrow> descriptor" where
  "descriptor_of r = \<lparr>de_game = ru_game r, de_limit = ru_limit r, de_single = singleActiveMatch r\<rparr>"

definition registered :: "rules list \<Rightarrow> registry \<Rightarrow> registry" where
  "registered rs reg =
     reg\<lparr>rg_rules := rg_rules reg @ map (\<lambda>r. (ru_game r, r)) rs,
         rg_descriptors := rg_descriptors reg @ map descriptor_of rs\<rparr>"

lemma register_iff:
  "register es reg = Inr reg' \<longleftrightarrow>
     (\<exists>rs. es = map Some rs \<and> reg' = registered rs reg \<and> list_all entry_ok rs \<and>
        distinct (map ru_game rs) \<and> (\<forall>r\<in>set rs. map_of (rg_rules reg) (ru_game r) = None))"
proof (induction es arbitrary: reg)
  case Nil
  then show ?case by (auto simp: registered_def)
next
  case (Cons e rs)
  show ?case
  proof (cases e)
    case None
    then show ?thesis by (auto simp: Cons_eq_map_conv)
  next
    case (Some r)
    let ?reg = "reg\<lparr>rg_rules := rg_rules reg @ [(ru_game r, r)],
        rg_descriptors := rg_descriptors reg @ [descriptor_of r]\<rparr>"
    show ?thesis
    proof (cases "entry_ok r \<and> map_of (rg_rules reg) (ru_game r) = None")
      case False
      with Some show ?thesis by (auto simp: entry_ok_def Let_def not_le not_less)
    next
      case True
      then have step: "register (Some r # rs) reg = register rs ?reg"
        by (simp add: entry_ok_def Let_def descriptor_of_def singleActiveMatch_def)
      have fresh: "map_of (rg_rules ?reg) (ru_game t) = None \<longleftrightarrow>
          ru_game t \<noteq> ru_game r \<and> map_of (rg_rules reg) (ru_game t) = None" for t
        using True by (auto simp: map_of_snoc split: option.splits)
      have reg: "registered ts ?reg = registered (r # ts) reg" for ts
        by (simp add: registered_def)
      show ?thesis
        unfolding Some step Cons.IH fresh reg using True
        by (auto simp: Cons_eq_map_conv) (metis image_eqI)+
    qed
  qed
qed

lemma Lookup_registered:
  "distinct (map ru_game rs) \<Longrightarrow> rg_rules reg = map (\<lambda>r. (ru_game r, r)) rs \<Longrightarrow>
   Lookup reg g = Some r \<longleftrightarrow> r \<in> set rs \<and> ru_game r = g"
  by (subst Lookup_def, subst map_of_eq_Some_iff) (auto simp: comp_def)

text \<open>
  \<open>NewRegistryFrom\<close> accepts a list of entries exactly when none is nil, every one has a valid
  game id and a limit of 1 to 64 players, and no two have the same id. The registry it returns
  looks up exactly the given rules by their ids, and lists a descriptor of each, sorted by id.
\<close>
lemma registry_contents:
  "NewRegistryFrom entries = Inr reg \<longleftrightarrow>
     (\<exists>rs. entries = map Some rs \<and> list_all entry_ok rs \<and> distinct (map ru_game rs) \<and>
       rg_rules reg = map (\<lambda>r. (ru_game r, r)) rs \<and>
       (\<forall>g r. Lookup reg g = Some r \<longleftrightarrow> r \<in> set rs \<and> ru_game r = g) \<and>
       mset (Descriptors reg) = mset (map descriptor_of rs) \<and>
       sorted_wrt (<) (map de_game (Descriptors reg)))" (is "?L \<longleftrightarrow> ?R")
proof
  assume ?L
  then obtain reg1 where "register entries \<lparr>rg_rules = [], rg_descriptors = []\<rparr> = Inr reg1"
    and reg: "reg = reg1\<lparr>rg_descriptors := sort_key de_game (rg_descriptors reg1)\<rparr>"
    by (auto simp: NewRegistryFrom_def)
  then obtain rs where rs: "entries = map Some rs" "list_all entry_ok rs" "distinct (map ru_game rs)"
    and reg1: "reg1 = registered rs \<lparr>rg_rules = [], rg_descriptors = []\<rparr>"
    by (auto simp: register_iff)
  have rules: "rg_rules reg = map (\<lambda>r. (ru_game r, r)) rs"
    and desc: "Descriptors reg = sort_key de_game (map descriptor_of rs)"
    by (simp_all add: reg reg1 registered_def Descriptors_def)
  have m: "mset (map de_game (Descriptors reg)) = mset (map ru_game rs)"
    unfolding desc mset_map mset_sort by (simp add: multiset.map_comp comp_def descriptor_of_def)
  have "distinct (map de_game (Descriptors reg))"
    using rs(3) mset_eq_imp_distinct_iff [OF m] by simp
  then have "sorted_wrt (<) (map de_game (Descriptors reg))"
    by (simp add: strict_sorted_iff desc)
  with rs rules Lookup_registered [OF rs(3) rules] desc show ?R by (intro exI [of _ rs]) simp
next
  assume ?R
  then obtain rs where rs: "entries = map Some rs" "list_all entry_ok rs" "distinct (map ru_game rs)"
    and rules: "rg_rules reg = map (\<lambda>r. (ru_game r, r)) rs"
    and m: "mset (rg_descriptors reg) = mset (map descriptor_of rs)"
    and s: "sorted_wrt (<) (map de_game (rg_descriptors reg))"
    by (auto simp: Descriptors_def)
  have "sort_key de_game (map descriptor_of rs) = rg_descriptors reg"
  proof (rule sort_key_inj_key_eq)
    show "mset (map descriptor_of rs) = mset (rg_descriptors reg)" by (rule m [symmetric])
    have "distinct (map de_game (map descriptor_of rs))"
      using rs(3) by (simp add: comp_def descriptor_of_def)
    then show "inj_on de_game (set (map descriptor_of rs))" by (simp only: distinct_map)
    show "sorted (map de_game (rg_descriptors reg))" using s by (simp add: strict_sorted_iff)
  qed
  with rs rules show ?L
    by (auto simp: NewRegistryFrom_def register_iff registered_def)
qed

text \<open>The server's own registry.\<close>

lemmas builtin_rules = gomoku_rules_def reversi_rules_def checkers_rules_def flight_rules_def rps_rules_def
  fixed_rules_def

lemmas game_ids = Gomoku.GameID_def Reversi.GameID_def ChineseCheckers.GameID_def FlightChess.GameID_def
  Rps.GameID_def

definition builtin :: "rules list" where
  "builtin = [checkers_rules, flight_rules, gomoku_rules, reversi_rules, rps_rules]"

lemma builtin_ids: "map ru_game builtin =
    [''chinese_checkers'', ''flight_chess'', ''gomoku'', ''reversi'', ''rps'']"
  by (simp add: builtin_def builtin_rules game_ids)

lemma builtin_ok: "list_all entry_ok builtin" "distinct (map ru_game builtin)"
  by (simp_all add: builtin_def entry_ok_def validGameID_def builtin_rules game_ids)

lemma NewRegistry_total:
  obtains reg where "NewRegistry = Inr reg"
    and "\<And>g r. Lookup reg g = Some r \<longleftrightarrow> r \<in> set builtin \<and> ru_game r = g"
proof -
  let ?r = "registered builtin \<lparr>rg_rules = [], rg_descriptors = []\<rparr>"
  let ?reg = "?r\<lparr>rg_descriptors := sort_key de_game (rg_descriptors ?r)\<rparr>"
  have "register (map Some builtin) \<lparr>rg_rules = [], rg_descriptors = []\<rparr> = Inr ?r"
    using builtin_ok by (simp add: register_iff)
  then have "NewRegistry = Inr ?reg"
    by (simp add: NewRegistry_def NewRegistryFrom_def builtin_def)
  moreover have "Lookup ?reg g = Some r \<longleftrightarrow> r \<in> set builtin \<and> ru_game r = g" for g r
    using builtin_ok by (intro Lookup_registered) (simp_all add: registered_def)
  ultimately show thesis by (rule that)
qed

end
