(* ===== verification/Users.thy ===== *)
theory Users
  imports GameApi
begin

text \<open>
  Users: the rows of the table \<open>users\<close>, the session check of write transactions
  (\<open>server/internal/auth/request_identity.go\<close>) and the normalisation of nicknames
  (\<open>server/internal/users/service.go\<close>). Nicknames are checked rune by rune, with the character
  classes of the package \<open>unicode\<close>; the classes whose tables are long are an argument, the
  record \<open>ucd\<close>. The main lemma is that normalising the display form of a nickname gives
  the same display form and key again, which the service relies on when it reads stored users.
\<close>

record user =
  us_id :: bytes
  us_nickname :: bytes
  us_normalized :: bytes
  us_enabled :: int
  us_last_seen :: "int option"
  us_epoch :: bytes

record identity =
  id_user :: bytes
  id_epoch :: bytes

text \<open>\<open>GuardTransaction\<close>: a context without an identity passes; the identity must be current.\<close>

definition GuardTransaction :: "identity option \<Rightarrow> user list \<Rightarrow> bool" where
  "GuardTransaction ctx us =
     (case ctx of
        None \<Rightarrow> True
      | Some who \<Rightarrow> list_ex (\<lambda>u. us_id u = id_user who \<and> us_epoch u = id_epoch who \<and> us_enabled u = 1) us)"

subsection \<open>Runes\<close>

definition rune_val :: "bytes \<Rightarrow> nat" where
  "rune_val s =
     (case map byte s of
        [x] \<Rightarrow> x
      | [x, y] \<Rightarrow> (x - 192) * 64 + (y - 128)
      | [x, y, z] \<Rightarrow> (x - 224) * 4096 + (y - 128) * 64 + (z - 128)
      | [x, y, z, w] \<Rightarrow> (x - 240) * 262144 + (y - 128) * 4096 + (z - 128) * 64 + (w - 128)
      | _ \<Rightarrow> 65533)"

text \<open>The runes of a string, as \<open>range\<close> and \<open>[]rune\<close> decode it; an invalid byte is U+FFFD.\<close>

fun runes :: "bytes \<Rightarrow> nat list" where
  "runes [] = []"
| "runes (a # s) =
     (let w = rune_width (a # s) in
      if w = 0 then 65533 # runes s
      else rune_val (take w (a # s)) # runes (drop (w - 1) s))"

definition encode_runes :: "nat list \<Rightarrow> bytes" where
  "encode_runes rs = concat (map utf8_encode rs)"

definition scalar :: "nat \<Rightarrow> bool" where
  "scalar n \<longleftrightarrow> n < 55296 \<or> 57344 \<le> n \<and> n < 1114112"

text \<open>\<open>unicode.IsSpace\<close>.\<close>

definition is_space :: "nat \<Rightarrow> bool" where
  "is_space r \<longleftrightarrow> r \<in> set [9, 10, 11, 12, 13, 32, 133, 160, 5760, 8232, 8233, 8239, 8287, 12288] \<or>
     8192 \<le> r \<and> r \<le> 8202"

definition trim_space :: "nat list \<Rightarrow> nat list" where
  "trim_space rs = rev (dropWhile is_space (rev (dropWhile is_space rs)))"

text \<open>\<open>strings.TrimSpace(s) == s\<close>.\<close>

definition trimmed :: "bytes \<Rightarrow> bool" where
  "trimmed s \<longleftrightarrow> trim_space (runes s) = runes s"

subsection \<open>Nicknames\<close>

record ucd =
  uc_letter :: "nat \<Rightarrow> bool"
  uc_number :: "nat \<Rightarrow> bool"
  uc_punct :: "nat \<Rightarrow> bool"
  uc_symbol :: "nat \<Rightarrow> bool"
  uc_other_symbol :: "nat \<Rightarrow> bool"
  uc_mark :: "nat \<Rightarrow> bool"
  uc_format :: "nat \<Rightarrow> bool"
  uc_lower :: "nat \<Rightarrow> nat"

definition minimumNicknameRunes :: nat where "minimumNicknameRunes = 2"
definition maximumNicknameRunes :: nat where "maximumNicknameRunes = 16"
definition zeroWidthNonJoiner :: nat where "zeroWidthNonJoiner = 8204"
definition zeroWidthJoiner :: nat where "zeroWidthJoiner = 8205"

text \<open>The categories Cc, Zl and Zp.\<close>

definition isForbiddenControlOrSeparator :: "nat \<Rightarrow> bool" where
  "isForbiddenControlOrSeparator r \<longleftrightarrow> (r < 32 \<or> 127 \<le> r \<and> r < 160) \<or> r = 8232 \<or> r = 8233"

text \<open>The runes before \<open>start\<close>, from the last one down.\<close>

definition precedingBase :: "nat list \<Rightarrow> nat \<Rightarrow> (nat \<Rightarrow> bool) \<Rightarrow> nat option" where
  "precedingBase rs start decoration = find (\<lambda>r. \<not> decoration r) (rev (take start rs))"

definition isEmojiDecoration :: "ucd \<Rightarrow> nat \<Rightarrow> bool" where
  "isEmojiDecoration u r \<longleftrightarrow> uc_mark u r \<or> 127995 \<le> r \<and> r \<le> 127999"

definition validEmojiJoinerContext :: "ucd \<Rightarrow> nat list \<Rightarrow> nat \<Rightarrow> bool" where
  "validEmojiJoinerContext u rs i \<longleftrightarrow>
     (case precedingBase rs i (isEmojiDecoration u) of
        None \<Rightarrow> False
      | Some left \<Rightarrow> uc_other_symbol u left \<and> i + 1 < length rs \<and> uc_other_symbol u (rs ! (i + 1)))"

definition validTextNonJoinerContext :: "ucd \<Rightarrow> nat list \<Rightarrow> nat \<Rightarrow> bool" where
  "validTextNonJoinerContext u rs i \<longleftrightarrow>
     (case precedingBase rs i (uc_mark u) of
        None \<Rightarrow> False
      | Some left \<Rightarrow> uc_letter u left \<and> i + 1 < length rs \<and> uc_letter u (rs ! (i + 1)))"

definition joiner_ok :: "ucd \<Rightarrow> nat list \<Rightarrow> nat \<Rightarrow> bool" where
  "joiner_ok u rs i \<longleftrightarrow>
     (if uc_format u (rs ! i) then
        (if rs ! i = zeroWidthJoiner then validEmojiJoinerContext u rs i
         else if rs ! i = zeroWidthNonJoiner then validTextNonJoinerContext u rs i
         else False)
      else True)"

definition visible_base :: "ucd \<Rightarrow> nat \<Rightarrow> bool" where
  "visible_base u r \<longleftrightarrow> uc_letter u r \<or> uc_number u r \<or> uc_punct u r \<or> uc_symbol u r"

definition normalizedNicknameKey :: "ucd \<Rightarrow> nat list \<Rightarrow> nat list" where
  "normalizedNicknameKey u display =
     filter (\<lambda>r. \<not> (r = zeroWidthJoiner \<or> r = zeroWidthNonJoiner)) (map (uc_lower u) display)"

definition NormalizeNickname :: "ucd \<Rightarrow> bytes \<Rightarrow> (bytes \<times> bytes) option" where
  "NormalizeNickname u raw =
     (if \<not> utf8_valid raw \<or> list_ex isForbiddenControlOrSeparator (runes raw) then None
      else
        let display = trim_space (runes raw) in
        if length display < minimumNicknameRunes \<or> length display > maximumNicknameRunes then None
        else if \<not> list_all (joiner_ok u display) [0..<length display] then None
        else if \<not> list_ex (visible_base u) display then None
        else Some (encode_runes display, encode_runes (normalizedNicknameKey u display)))"

subsection \<open>Decoding what was encoded\<close>

lemma byte_char_of [simp]: "n < 256 \<Longrightarrow> byte (char_of n) = n"
  by (simp add: take_bit_eq_mod)

lemma scalar_split:
  obtains (one) "n < 128" "utf8_encode n = [char_of n]"
  | (two) h l where "2 \<le> h" "h < 32" "l < 64" "n = 64 * h + l"
      "utf8_encode n = [char_of (192 + h), char_of (128 + l)]"
  | (three) h m l where "h < 16" "m < 64" "l < 64" "n = 4096 * h + 64 * m + l" "2048 \<le> n" "n < 65536"
      "utf8_encode n = [char_of (224 + h), char_of (128 + m), char_of (128 + l)]"
  | (four) g h m l where "h < 64" "m < 64" "l < 64" "n = 262144 * g + 4096 * h + 64 * m + l" "65536 \<le> n"
      "utf8_encode n = [char_of (240 + g), char_of (128 + h), char_of (128 + m), char_of (128 + l)]"
proof -
  have d: "n div 64 div 64 = n div 4096" "n div 4096 div 64 = n div 262144"
    by (simp_all add: div_mult2_eq [symmetric])
  have e: "n = 64 * (n div 64) + n mod 64" "n div 64 = 64 * (n div 4096) + n div 64 mod 64"
      "n div 4096 = 64 * (n div 262144) + n div 4096 mod 64"
    using div_mult_mod_eq [of "n div 64" 64] div_mult_mod_eq [of "n div 4096" 64] by (simp_all add: d)
  have lt: "n mod 64 < 64" "n div 64 mod 64 < 64" "n div 4096 mod 64 < 64" by simp_all
  consider "n < 128" | "128 \<le> n" "n < 2048" | "2048 \<le> n" "n < 65536" | "65536 \<le> n"
    by linarith
  then show thesis
  proof cases
    case 1
    then show thesis by (intro one) (simp_all add: utf8_encode_def)
  next
    case 2
    with e lt have "2 \<le> n div 64" "n div 64 < 32" by linarith+
    moreover have "utf8_encode n = [char_of (192 + n div 64), char_of (128 + n mod 64)]"
      using 2 by (simp add: utf8_encode_def)
    ultimately show thesis by (rule two [OF _ _ lt(1) e(1)])
  next
    case 3
    with e lt have "n div 4096 < 16" by linarith
    moreover have "n = 4096 * (n div 4096) + 64 * (n div 64 mod 64) + n mod 64" using e by linarith
    ultimately show thesis
      using 3 lt by (intro three [of "n div 4096" "n div 64 mod 64" "n mod 64"]) (simp_all add: utf8_encode_def)
  next
    case 4
    have "n = 262144 * (n div 262144) + 4096 * (n div 4096 mod 64) + 64 * (n div 64 mod 64) + n mod 64"
      using e by linarith
    then show thesis
      using 4 lt by (intro four [of "n div 4096 mod 64" "n div 64 mod 64" "n mod 64" "n div 262144"])
        (simp_all add: utf8_encode_def)
  qed
qed

lemma utf8_encode_width:
  assumes "scalar n"
  shows "rune_width (utf8_encode n @ s) = length (utf8_encode n)"
proof (cases n rule: scalar_split)
  case one
  then show ?thesis by (simp add: rune_width2_def)
next
  case (two h l)
  then show ?thesis by (simp add: rune_width2_def cont_def)
next
  case (three h m l)
  have s: "n < 55296 \<or> 57344 \<le> n" using assms by (auto simp: scalar_def)
  have "h = 0 \<Longrightarrow> 32 \<le> m" "h = 13 \<Longrightarrow> m \<le> 31" using three(2-5) s by linarith+
  with three show ?thesis by (simp add: rune_width2_def cont_def second_ok_def)
next
  case (four g h m l)
  have s: "n < 1114112" using assms four(5) by (auto simp: scalar_def)
  have "g \<le> 4" "g = 0 \<Longrightarrow> 16 \<le> h" "g = 4 \<Longrightarrow> h \<le> 15" using four(1-5) s by linarith+
  with four show ?thesis by (simp add: rune_width2_def cont_def second_ok_def)
qed

lemma rune_val_encode:
  assumes "scalar n"
  shows "rune_val (utf8_encode n) = n"
proof (cases n rule: scalar_split)
  case (four g h m l)
  have "n < 1114112" using assms four(5) by (auto simp: scalar_def)
  then have "g \<le> 4" using four(4) by linarith
  with four show ?thesis by (simp add: rune_val_def)
qed (simp_all add: rune_val_def)

lemma utf8_encode_nonempty [simp]: "utf8_encode n \<noteq> []"
  by (simp add: utf8_encode_def)

lemma runes_encode_append:
  assumes "scalar n"
  shows "runes (utf8_encode n @ s) = n # runes s"
proof -
  obtain a t where at: "utf8_encode n = a # t" by (cases "utf8_encode n") simp_all
  have w: "rune_width (a # t @ s) = Suc (length t)"
    using utf8_encode_width [OF assms, of s] by (simp add: at)
  have v: "rune_val (a # t) = n" using rune_val_encode [OF assms] by (simp add: at)
  show ?thesis using w v by (simp add: at Let_def)
qed

lemma utf8_valid_encode_append:
  assumes "scalar n"
  shows "utf8_valid (utf8_encode n @ s) \<longleftrightarrow> utf8_valid s"
proof -
  obtain a t where at: "utf8_encode n = a # t" by (cases "utf8_encode n") simp_all
  have w: "rune_width (a # t @ s) = Suc (length t)"
    using utf8_encode_width [OF assms, of s] by (simp add: at)
  show ?thesis
  proof (cases "byte a < 128")
    case True
    with w have "t = []" by (simp add: rune_width2_def)
    with True show ?thesis by (simp add: at)
  next
    case False
    with w show ?thesis by (simp add: at)
  qed
qed

lemma runes_encode: "list_all scalar rs \<Longrightarrow> runes (encode_runes rs) = rs"
  by (induction rs) (simp_all add: encode_runes_def runes_encode_append)

lemma utf8_valid_encode_runes: "list_all scalar rs \<Longrightarrow> utf8_valid (encode_runes rs)"
  by (induction rs) (simp_all add: encode_runes_def utf8_valid_encode_append)

lemma rune_val_scalar:
  assumes "rune_width (a # s) \<noteq> 0"
  shows "scalar (rune_val (take (rune_width (a # s)) (a # s)))"
proof -
  let ?x = "byte a"
  consider (one) "?x < 128" | (two) "194 \<le> ?x" "?x \<le> 223" | (three) "224 \<le> ?x" "?x \<le> 239"
    | (four) "240 \<le> ?x" "?x \<le> 244"
    using assms by (auto simp: rune_width2_def not_less split: if_splits)
  then show ?thesis
  proof cases
    case one
    then show ?thesis by (simp add: rune_width2_def rune_val_def scalar_def)
  next
    case two
    with assms obtain b s' where s: "s = b # s'" and b: "cont b"
      by (cases s) (auto simp: rune_width2_def split: if_splits)
    have "64 * (?x - 192) + (byte b - 128) < 55296" using two b by (auto simp: cont_def)
    with two b show ?thesis by (simp add: s rune_width2_def rune_val_def scalar_def)
  next
    case three
    with assms obtain b c s' where s: "s = b # c # s'" and b: "second_ok ?x (byte b)" and c: "cont c"
      by (cases s; cases "tl s") (auto simp: rune_width2_def split: if_splits)
    define x y z where "x = ?x - 224" and "y = byte b - 128" and "z = byte c - 128"
    have "y < 64" "z < 64" "x < 16" "x = 13 \<longrightarrow> y < 32"
      using three b c by (auto simp: x_def y_def z_def second_ok_def cont_def split: if_splits)
    then have "x * 4096 + y * 64 + z < 55296 \<or> 57344 \<le> x * 4096 + y * 64 + z \<and> x * 4096 + y * 64 + z < 1114112"
      by (cases "x \<le> 12"; cases "x = 13") (auto simp: not_less)
    with three b c show ?thesis
      by (simp add: s rune_width2_def rune_val_def scalar_def x_def y_def z_def)
  next
    case four
    with assms obtain b c d s' where s: "s = b # c # d # s'" and b: "second_ok ?x (byte b)"
        and c: "cont c" "cont d"
      by (cases s; cases "tl s"; cases "tl (tl s)") (auto simp: rune_width2_def split: if_splits)
    define x y z w where "x = ?x - 240" and "y = byte b - 128" and "z = byte c - 128" and "w = byte d - 128"
    have "y < 64" "z < 64" "w < 64" "x \<le> 4" "x = 4 \<longrightarrow> y < 16" "x = 0 \<longrightarrow> 16 \<le> y"
      using four b c by (auto simp: x_def y_def z_def w_def second_ok_def cont_def split: if_splits)
    then have "57344 \<le> x * 262144 + y * 4096 + z * 64 + w \<and> x * 262144 + y * 4096 + z * 64 + w < 1114112"
      by (cases "x = 0"; cases "x = 4") auto
    with four b c show ?thesis
      by (simp add: s rune_width2_def rune_val_def scalar_def x_def y_def z_def w_def)
  qed
qed

lemma scalar_replacement: "scalar 65533"
  by (simp add: scalar_def)

lemma runes_scalar: "list_all scalar (runes s)"
  by (induction s rule: runes.induct)
    (simp_all add: Let_def scalar_replacement rune_val_scalar del: rune_width_simps(2))

subsection \<open>Trimming\<close>

lemma set_trim_space: "set (trim_space rs) \<subseteq> set rs"
  by (auto simp: trim_space_def dest!: set_dropWhileD)

lemma hd_dropWhile_not: "dropWhile P xs \<noteq> [] \<Longrightarrow> \<not> P (hd (dropWhile P xs))"
  by (induction xs) auto

lemma dropWhile_idem: "dropWhile P (dropWhile P xs) = dropWhile P xs"
  by (induction xs) auto

lemma trim_space_idem: "trim_space (trim_space rs) = trim_space rs"
proof (cases "trim_space rs = []")
  case True
  show ?thesis unfolding True by (simp add: trim_space_def)
next
  case False
  define xs where "xs = dropWhile is_space rs"
  define ys where "ys = dropWhile is_space (rev xs)"
  have t: "trim_space rs = rev ys" by (simp add: trim_space_def xs_def ys_def)
  with False have ys: "ys \<noteq> []" by simp
  have "\<not> is_space (hd (rev ys))"
  proof -
    obtain zs where "rev xs = zs @ ys" using takeWhile_dropWhile_id [of is_space "rev xs"] ys_def by metis
    then have "xs = rev ys @ rev zs" by (metis rev_append rev_rev_ident)
    with ys have "hd xs = hd (rev ys)" "xs \<noteq> []" by (simp_all add: hd_append)
    then show ?thesis using hd_dropWhile_not [of is_space rs] by (simp add: xs_def)
  qed
  then have "dropWhile is_space (rev ys) = rev ys"
    using ys by (cases "rev ys") simp_all
  moreover have "dropWhile is_space ys = ys" by (simp add: ys_def dropWhile_idem)
  ultimately show ?thesis unfolding t by (simp add: trim_space_def)
qed

lemma trim_space_scalar: "list_all scalar (trim_space (runes s))"
  using runes_scalar [of s] set_trim_space [of "runes s"] by (auto simp: list_all_iff)

text \<open>
  The display form of a nickname is accepted again, with itself as display form and the
  same key: the check \<open>validStoredUser\<close> makes of stored users holds for every nickname that
  registration wrote. It has 2 to 16 runes and neither starts nor ends with white space.
\<close>
lemma nickname_stable:
  assumes "NormalizeNickname u raw = Some (display, key)"
  shows "NormalizeNickname u display = Some (display, key) \<and> trimmed display \<and>
    2 \<le> length (runes display) \<and> length (runes display) \<le> 16"
proof -
  let ?d = "trim_space (runes raw)"
  from assms have no: "\<not> list_ex isForbiddenControlOrSeparator (runes raw)"
    and len: "\<not> (length ?d < minimumNicknameRunes \<or> length ?d > maximumNicknameRunes)"
    and rest: "list_all (joiner_ok u ?d) [0..<length ?d]" "list_ex (visible_base u) ?d"
    and out: "display = encode_runes ?d" "key = encode_runes (normalizedNicknameKey u ?d)"
    by (auto simp: NormalizeNickname_def Let_def split: if_splits)
  have r: "runes display = ?d" unfolding out by (rule runes_encode [OF trim_space_scalar])
  have v: "utf8_valid display" unfolding out by (rule utf8_valid_encode_runes [OF trim_space_scalar])
  have "\<not> list_ex isForbiddenControlOrSeparator ?d"
    using no set_trim_space [of "runes raw"] by (auto simp: list_ex_iff)
  with v len rest have "NormalizeNickname u display = Some (display, key)"
    unfolding NormalizeNickname_def r trim_space_idem by (simp add: Let_def out)
  moreover have "trimmed display" by (simp add: trimmed_def r trim_space_idem)
  moreover have "2 \<le> length (runes display) \<and> length (runes display) \<le> 16"
    using len by (simp add: r minimumNicknameRunes_def maximumNicknameRunes_def)
  ultimately show ?thesis by blast
qed

text \<open>An example with the classes cut down to letters and digits: spaces are trimmed, case folds.\<close>

definition sample_ucd :: ucd where
  "sample_ucd =
     \<lparr>uc_letter = (\<lambda>r. 65 \<le> r \<and> r \<le> 90 \<or> 97 \<le> r \<and> r \<le> 122), uc_number = (\<lambda>r. 48 \<le> r \<and> r \<le> 57),
      uc_punct = (\<lambda>_. False), uc_symbol = (\<lambda>_. False), uc_other_symbol = (\<lambda>_. False),
      uc_mark = (\<lambda>_. False), uc_format = (\<lambda>r. r = 8204 \<or> r = 8205),
      uc_lower = (\<lambda>r. if 65 \<le> r \<and> r \<le> 90 then r + 32 else r)\<rparr>"

lemma sample_nickname: "NormalizeNickname sample_ucd '' Ann B '' = Some (''Ann B'', ''ann b'')"
proof -
  let ?d = "[65, 110, 110, 32, 66]"
  have v: "utf8_valid '' Ann B ''" by (simp add: rune_width2_def)
  have r: "runes '' Ann B '' = [32, 65, 110, 110, 32, 66, 32]"
    by (simp add: rune_width2_def rune_val_def)
  have t: "trim_space [32, 65, 110, 110, 32, 66, 32] = ?d"
    by (simp add: trim_space_def is_space_def)
  have j: "list_all (joiner_ok sample_ucd ?d) [0..<length ?d]"
    by (simp add: joiner_ok_def sample_ucd_def upt_rec)
  show ?thesis
    unfolding NormalizeNickname_def r t Let_def
    by (simp only: v j simp_thms if_False,
        simp add: isForbiddenControlOrSeparator_def visible_base_def normalizedNicknameKey_def encode_runes_def
        utf8_encode_def sample_ucd_def minimumNicknameRunes_def maximumNicknameRunes_def zeroWidthJoiner_def
        zeroWidthNonJoiner_def, code_simp)
qed

lemma nickname_stable_witness:
  "NormalizeNickname sample_ucd ''Ann B'' = Some (''Ann B'', ''ann b'')"
  using nickname_stable [OF sample_nickname] by blast

end
