(* ===== verification/Scratch.thy ===== *)
theory Scratch
  imports Users "HOL-Library.Multiset"
begin

text \<open>
  The collection snapshots of scratch cards (\<open>server/internal/scratch/service.go\<close>): \<open>Publish\<close> and
  \<open>List\<close> over the tables of users and collections. The text column \<open>counts_json\<close> always holds
  a JSON array of integers, written by \<open>json.Marshal\<close> or by SQLite's \<open>json_set\<close>; the model
  keeps its elements. \<open>flt\<close> says which statements fail for reasons outside the model.
\<close>

record collection =
  co_user :: bytes
  co_counts :: "int list"
  co_updated :: int

record scratch_db =
  sc_users :: "user list"
  sc_collections :: "collection list"

datatype scratch_error = ErrInvalid | ErrUnauthorized | ErrDatabase

datatype scratch_stmt = C_Begin | C_Upsert | C_Commit | C_List

definition LegacyCatalogSize :: nat where "LegacyCatalogSize = 24"
definition CatalogSize :: nat where "CatalogSize = 48"

record Player =
  pl_user :: bytes
  pl_nickname :: bytes
  pl_counts :: "int list"
  pl_updated :: int

record Page =
  pg_players :: "Player list"
  pg_cursor :: bytes

text \<open>\<open>make([]int, CatalogSize)\<close> followed by \<open>copy\<close>.\<close>

definition normalized :: "int list \<Rightarrow> int list" where
  "normalized counts = map (\<lambda>i. if i < length counts then counts ! i else 0) [0..<CatalogSize]"

text \<open>\<open>json_extract(counts_json, '$[i]')\<close>: \<open>NULL\<close> beyond the end.\<close>

definition json_extract :: "int list \<Rightarrow> nat \<Rightarrow> int option" where
  "json_extract counts i = (if i < length counts then Some (counts ! i) else None)"

definition coalesce :: "int option \<Rightarrow> int \<Rightarrow> int" where
  "coalesce v d = (case v of Some x \<Rightarrow> x | None \<Rightarrow> d)"

definition find_collection :: "bytes \<Rightarrow> collection list \<Rightarrow> collection option" where
  "find_collection u cs = find (\<lambda>c. co_user c = u) cs"

text \<open>The upsert; the update of a legacy client sets the elements after the first 24 to the stored ones.\<close>

definition merged :: "bool \<Rightarrow> int list \<Rightarrow> int list \<Rightarrow> int list" where
  "merged legacy excluded stored =
     (if legacy then fold (\<lambda>i cs. cs[i := coalesce (json_extract stored i) 0]) [LegacyCatalogSize..<CatalogSize] excluded
      else excluded)"

definition upsert :: "bool \<Rightarrow> collection \<Rightarrow> collection list \<Rightarrow> collection list" where
  "upsert legacy c cs =
     (case find_collection (co_user c) cs of
        None \<Rightarrow> cs @ [c]
      | Some _ \<Rightarrow>
          map (\<lambda>d. if co_user d = co_user c
            then d\<lparr>co_counts := merged legacy (co_counts c) (co_counts d), co_updated := co_updated c\<rparr> else d) cs)"

definition Publish ::
  "(scratch_stmt \<Rightarrow> bool) \<Rightarrow> identity option \<Rightarrow> int \<Rightarrow> bytes \<Rightarrow> int list \<Rightarrow> scratch_db \<Rightarrow>
   scratch_error + scratch_db" where
  "Publish flt ctx now userID counts db =
     (if length counts \<noteq> CatalogSize \<and> length counts \<noteq> LegacyCatalogSize then Inl ErrInvalid
      else if list_ex (\<lambda>c. c < 0 \<or> c > 1000000000) counts then Inl ErrInvalid
      else if flt C_Begin then Inl ErrDatabase
      else if \<not> GuardTransaction ctx (sc_users db) then Inl ErrUnauthorized
      else if flt C_Upsert \<or> \<not> list_ex (\<lambda>u. us_id u = userID) (sc_users db) then Inl ErrDatabase
      else if flt C_Commit then Inl ErrDatabase
      else Inr (db\<lparr>sc_collections := upsert (length counts = LegacyCatalogSize)
          \<lparr>co_user = userID, co_counts = normalized counts, co_updated = now\<rparr> (sc_collections db)\<rparr>))"

text \<open>One row of \<open>List\<close>: the user joined with the collection, if there is one.\<close>

definition player_of :: "scratch_db \<Rightarrow> user \<Rightarrow> Player" where
  "player_of db u =
     (let c = find_collection (us_id u) (sc_collections db) in
      \<lparr>pl_user = us_id u, pl_nickname = us_nickname u,
       pl_counts = normalized (case c of Some r \<Rightarrow> co_counts r | None \<Rightarrow> []),
       pl_updated = (case c of Some r \<Rightarrow> co_updated r | None \<Rightarrow> 0)\<rparr>)"

definition owns_card :: "scratch_db \<Rightarrow> int \<Rightarrow> user \<Rightarrow> bool" where
  "owns_card db slot u =
     (case find_collection (us_id u) (sc_collections db) of
        None \<Rightarrow> False
      | Some c \<Rightarrow> (case json_extract (co_counts c) (nat slot) of None \<Rightarrow> False | Some n \<Rightarrow> n > 0))"

definition List_rows :: "scratch_db \<Rightarrow> bytes \<Rightarrow> int option \<Rightarrow> user list" where
  "List_rows db after slot =
     sort_key us_id (filter (\<lambda>u. us_enabled u = 1 \<and> us_id u > after \<and>
       (case slot of None \<Rightarrow> True | Some c \<Rightarrow> owns_card db c u)) (sc_users db))"

definition List_page :: "(scratch_stmt \<Rightarrow> bool) \<Rightarrow> bytes \<Rightarrow> int option \<Rightarrow> scratch_db \<Rightarrow> scratch_error + Page" where
  "List_page flt after slot db =
     (if (case slot of None \<Rightarrow> False | Some c \<Rightarrow> c < 0 \<or> c \<ge> int CatalogSize) then Inl ErrInvalid
      else if flt C_List then Inl ErrDatabase
      else
        let players = map (player_of db) (take 31 (List_rows db after slot)) in
        if length players > 30
        then Inr \<lparr>pg_players = take 30 players, pg_cursor = pl_user (players ! 29)\<rparr>
        else Inr \<lparr>pg_players = players, pg_cursor = ''''\<rparr>)"

subsection \<open>What is published is what is listed\<close>

lemma length_normalized [simp]: "length (normalized cs) = CatalogSize"
  by (simp add: normalized_def)

lemma nth_normalized: "i < CatalogSize \<Longrightarrow> normalized cs ! i = (if i < length cs then cs ! i else 0)"
  by (simp add: normalized_def)

lemma normalized_full: "length cs = CatalogSize \<Longrightarrow> normalized cs = cs"
  by (rule nth_equalityI) (simp_all add: nth_normalized)

lemma length_fold_update [simp]: "length (fold (\<lambda>i cs. cs[i := f i]) ks cs) = length cs"
  by (induction ks arbitrary: cs) auto

lemma fold_update_nth:
  "length cs = n \<Longrightarrow> i < n \<Longrightarrow>
   fold (\<lambda>i cs. cs[i := f i]) [a..<b] cs ! i = (if a \<le> i \<and> i < b then f i else cs ! i)"
proof (induction b)
  case (Suc b)
  then show ?case by (cases "i = b") auto
qed simp

lemma merged_nth:
  "length new = CatalogSize \<Longrightarrow> i < CatalogSize \<Longrightarrow>
   merged legacy new old ! i =
     (if legacy \<and> LegacyCatalogSize \<le> i then (if i < length old then old ! i else 0) else new ! i)"
  by (simp add: merged_def fold_update_nth coalesce_def json_extract_def)

lemma length_merged [simp]: "length (merged legacy new old) = length new"
  by (simp add: merged_def)

definition counts_ok :: "int list \<Rightarrow> bool" where
  "counts_ok cs \<longleftrightarrow> length cs = CatalogSize \<and> list_all (\<lambda>c. 0 \<le> c \<and> c \<le> 1000000000) cs"

definition collections_ok :: "collection list \<Rightarrow> bool" where
  "collections_ok cs \<longleftrightarrow> distinct (map co_user cs) \<and> list_all (\<lambda>c. counts_ok (co_counts c)) cs"

lemma counts_ok_nth: "counts_ok cs \<longleftrightarrow> length cs = CatalogSize \<and>
    (\<forall>i<CatalogSize. 0 \<le> cs ! i \<and> cs ! i \<le> 1000000000)"
  by (auto simp: counts_ok_def list_all_length)

text \<open>The counts that publishing leaves, given the stored ones (all zero for a new player).\<close>

definition published :: "int list \<Rightarrow> int list \<Rightarrow> int list" where
  "published counts stored =
     (if length counts = CatalogSize then counts else counts @ drop LegacyCatalogSize stored)"

lemma merged_published:
  assumes "length counts = CatalogSize \<or> length counts = LegacyCatalogSize" "length stored = CatalogSize"
  shows "merged (length counts = LegacyCatalogSize) (normalized counts) stored = published counts stored"
proof (rule nth_equalityI)
  show "length (merged (length counts = LegacyCatalogSize) (normalized counts) stored) =
      length (published counts stored)"
    using assms by (auto simp: published_def CatalogSize_def LegacyCatalogSize_def)
next
  fix i
  assume "i < length (merged (length counts = LegacyCatalogSize) (normalized counts) stored)"
  then have i: "i < CatalogSize" by simp
  show "merged (length counts = LegacyCatalogSize) (normalized counts) stored ! i = published counts stored ! i"
    using assms i
    by (auto simp: merged_nth nth_normalized published_def nth_append CatalogSize_def LegacyCatalogSize_def)
qed

lemma normalized_published:
  "length counts = CatalogSize \<or> length counts = LegacyCatalogSize \<Longrightarrow>
   normalized counts = published counts (replicate CatalogSize 0)"
  by (rule nth_equalityI)
    (auto simp: published_def nth_normalized nth_append CatalogSize_def LegacyCatalogSize_def)

lemma find_append1: "find P (xs @ [x]) = (case find P xs of Some y \<Rightarrow> Some y | None \<Rightarrow> if P x then Some x else None)"
  by (induction xs) auto

lemma find_collection_map:
  "(\<And>c. co_user (f c) = co_user c) \<Longrightarrow> find_collection u (map f cs) = map_option f (find_collection u cs)"
  by (induction cs) (auto simp: find_collection_def)

lemma find_collection_Some: "find_collection u cs = Some c \<Longrightarrow> c \<in> set cs \<and> co_user c = u"
  by (auto simp: find_collection_def find_Some_iff)

definition stored_counts :: "scratch_db \<Rightarrow> bytes \<Rightarrow> int list" where
  "stored_counts db u =
     (case find_collection u (sc_collections db) of
        Some c \<Rightarrow> co_counts c | None \<Rightarrow> replicate CatalogSize 0)"

lemma player_of_stored:
  "collections_ok (sc_collections db) \<Longrightarrow> pl_counts (player_of db u) = stored_counts db (us_id u)"
proof -
  assume ok: "collections_ok (sc_collections db)"
  have "counts_ok (co_counts c)" if "find_collection (us_id u) (sc_collections db) = Some c" for c
    using ok that by (auto simp: collections_ok_def find_collection_def find_Some_iff list_all_length)
  then show ?thesis
    using normalized_published [of "replicate CatalogSize 0"]
    by (auto simp: player_of_def stored_counts_def Let_def normalized_full counts_ok_def normalized_def
        split: option.split intro!: nth_equalityI)
qed

lemma published_ok:
  assumes "length counts = CatalogSize \<or> length counts = LegacyCatalogSize"
    and "\<not> list_ex (\<lambda>c. c < 0 \<or> c > 1000000000) counts" and "counts_ok stored"
  shows "counts_ok (published counts stored)"
  using assms
  by (auto simp: published_def counts_ok_def list_all_iff list_ex_iff CatalogSize_def LegacyCatalogSize_def
      dest!: in_set_dropD)

lemma zero_counts_ok: "counts_ok (replicate CatalogSize 0)"
  by (simp add: counts_ok_def list_all_iff)

text \<open>
  C20. \<open>Publish\<close> keeps the table well formed (one row a player, 48 counts of at most a billion
  each), changes no other player's counts, and leaves for the publisher exactly what \<open>List\<close>
  then shows: the 48 counts sent, or the 24 sent by an older client followed by the counts of
  the second half of the catalogue that were stored before.
\<close>
theorem scratch_publish:
  assumes "Publish flt ctx now user counts db = Inr db'" and "collections_ok (sc_collections db)"
  shows "collections_ok (sc_collections db') \<and>
    pl_counts (player_of db' u) =
      (if us_id u = user then published counts (stored_counts db user) else pl_counts (player_of db u))"
proof -
  from assms(1) have len: "length counts = CatalogSize \<or> length counts = LegacyCatalogSize"
    and range: "\<not> list_ex (\<lambda>c. c < 0 \<or> c > 1000000000) counts"
    and db': "db' = db\<lparr>sc_collections := upsert (length counts = LegacyCatalogSize)
        \<lparr>co_user = user, co_counts = normalized counts, co_updated = now\<rparr> (sc_collections db)\<rparr>"
    by (auto simp: Publish_def split: if_splits)
  have "collections_ok (sc_collections db') \<and>
    stored_counts db' v = (if v = user then published counts (stored_counts db user) else stored_counts db v)" for v
  proof (cases "find_collection user (sc_collections db)")
    case None
    then have "user \<notin> set (map co_user (sc_collections db))"
      by (auto simp: find_collection_def find_None_iff)
    moreover have "normalized counts = published counts (replicate CatalogSize 0)"
      using len by (rule normalized_published)
    ultimately show ?thesis
      using None assms(2) published_ok [OF len range zero_counts_ok]
      by (auto simp: db' upsert_def collections_ok_def stored_counts_def find_collection_def find_append1
          split: option.splits)
  next
    case (Some c)
    let ?f = "\<lambda>d. if co_user d = user
        then d\<lparr>co_counts := merged (length counts = LegacyCatalogSize) (normalized counts) (co_counts d),
          co_updated := now\<rparr> else d"
    have cs: "sc_collections db' = map ?f (sc_collections db)"
      using Some by (simp add: db' upsert_def)
    have key: "co_user (?f d) = co_user d" for d by simp
    have ok: "counts_ok (co_counts d)" if "d \<in> set (sc_collections db)" for d
      using assms(2) that by (auto simp: collections_ok_def list_all_iff)
    have "counts_ok (co_counts (?f d))" if "d \<in> set (sc_collections db)" for d
      using ok [OF that] published_ok [OF len range] merged_published [OF len]
      by (auto simp: counts_ok_def)
    then have "list_all (\<lambda>d. counts_ok (co_counts d)) (map ?f (sc_collections db))"
      unfolding list_all_iff set_map ball_simps(9) by blast
    moreover have "map co_user (map ?f (sc_collections db)) = map co_user (sc_collections db)"
      by (simp add: key)
    ultimately have wf: "collections_ok (sc_collections db')"
      using assms(2) by (simp only: collections_ok_def cs)
    have c: "c \<in> set (sc_collections db)" "co_user c = user"
      using find_collection_Some [OF Some] by simp_all
    have "stored_counts db' v = (if v = user then published counts (stored_counts db user) else stored_counts db v)"
    proof (cases "v = user")
      case True
      then show ?thesis
        unfolding stored_counts_def cs find_collection_map [of ?f, OF key]
        using Some c merged_published [OF len] ok [OF c(1)] by (simp add: counts_ok_def)
    next
      case False
      have "?f d = d" if "find_collection v (sc_collections db) = Some d" for d
        using find_collection_Some [OF that] False by simp
      then have "map_option ?f (find_collection v (sc_collections db)) = find_collection v (sc_collections db)"
        by (cases "find_collection v (sc_collections db)") auto
      with False show ?thesis
        unfolding stored_counts_def cs find_collection_map [of ?f, OF key] by simp
    qed
    with wf show ?thesis by blast
  qed
  then show ?thesis by (simp add: player_of_stored assms(2))
qed

text \<open>An older client publishes after a newer one: the dogs stay.\<close>

definition sample_scratch :: scratch_db where
  "sample_scratch =
     \<lparr>sc_users = [\<lparr>us_id = ''u'', us_nickname = ''Ann'', us_normalized = ''ann'', us_enabled = 1,
        us_last_seen = None, us_epoch = ''''\<rparr>],
      sc_collections = [\<lparr>co_user = ''u'', co_counts = replicate 48 7, co_updated = 1\<rparr>]\<rparr>"

theorem scratch_publish_witness:
  "\<exists>db'. Publish (\<lambda>_. False) None 5 ''u'' (replicate 24 1) sample_scratch = Inr db' \<and>
     pl_counts (player_of db' (hd (sc_users sample_scratch))) = replicate 24 1 @ replicate 24 7"
proof -
  have ok: "collections_ok (sc_collections sample_scratch)"
    by (simp add: collections_ok_def sample_scratch_def counts_ok_def CatalogSize_def list_all_iff)
  obtain db' where db': "Publish (\<lambda>_. False) None 5 ''u'' (replicate 24 1) sample_scratch = Inr db'"
    by (simp add: Publish_def GuardTransaction_def sample_scratch_def CatalogSize_def LegacyCatalogSize_def
        list_ex_iff)
  from scratch_publish [OF db' ok, of "hd (sc_users sample_scratch)"] db' show ?thesis
    by (simp add: sample_scratch_def published_def stored_counts_def find_collection_def CatalogSize_def
        LegacyCatalogSize_def)
qed

subsection \<open>Pages\<close>

lemma sort_key_filter_greater:
  assumes "sorted (map k xs)" "distinct (map k xs)" "n < length xs"
  shows "filter (\<lambda>x. k x > k (xs ! n)) xs = drop (Suc n) xs"
proof -
  have s: "sorted_wrt (<) (map k xs)" using assms(1,2) by (simp add: strict_sorted_iff)
  have "k (xs ! i) \<le> k (xs ! n)" if "i \<le> n" for i
    using assms(1,3) that by (simp add: sorted_iff_nth_mono)
  then have "filter (\<lambda>x. k x > k (xs ! n)) (take (Suc n) xs) = []"
    using assms(3) by (auto simp: filter_empty_conv in_set_conv_nth not_less less_Suc_eq_le)
  moreover have "filter (\<lambda>x. k x > k (xs ! n)) (drop (Suc n) xs) = drop (Suc n) xs"
    using assms(3) s by (auto simp: filter_id_conv in_set_conv_nth sorted_wrt_iff_nth_less)
  ultimately show ?thesis by (metis append_take_drop_id filter_append append_Nil)
qed

lemma List_rows_next:
  assumes "distinct (map us_id (sc_users db))" "n < length (List_rows db after slot)"
  shows "List_rows db (us_id (List_rows db after slot ! n)) slot = drop (Suc n) (List_rows db after slot)"
proof -
  let ?L = "List_rows db after slot" and ?c = "us_id (List_rows db after slot ! n)"
  have "after < ?c" using nth_mem [OF assms(2)] by (auto simp: List_rows_def)
  then have "List_rows db ?c slot = filter (\<lambda>u. us_id u > ?c) ?L"
    unfolding List_rows_def filter_sort filter_filter
    by (intro arg_cong [where f = "sort_key us_id"] filter_cong) auto
  also have "\<dots> = drop (Suc n) ?L"
    using assms
    by (intro sort_key_filter_greater)
      (auto simp: List_rows_def distinct_map inj_on_def)
  finally show ?thesis .
qed

text \<open>
  Following the cursor: a page shows the first thirty of the rows after the cursor, and the
  cursor it returns, when it is not empty, stands before exactly the rows that are left.
\<close>

lemma List_page_next:
  assumes "List_page flt after slot db = Inr p" and "distinct (map us_id (sc_users db))"
    and "\<forall>u\<in>set (sc_users db). us_id u \<noteq> ''''"
  shows "pg_players p = map (player_of db) (take 30 (List_rows db after slot)) \<and>
    (if pg_cursor p = '''' then length (List_rows db after slot) \<le> 30
     else List_rows db (pg_cursor p) slot = drop 30 (List_rows db after slot))"
proof (cases "length (List_rows db after slot) > 30")
  case True
  then have p: "pg_players p = map (player_of db) (take 30 (List_rows db after slot))"
      "pg_cursor p = us_id (List_rows db after slot ! 29)"
    using assms(1) by (auto simp: List_page_def Let_def take_map player_of_def split: if_splits)
  have "List_rows db after slot ! 29 \<in> set (sc_users db)"
    using nth_mem [of 29 "List_rows db after slot"] True by (simp add: List_rows_def)
  with assms(3) p(2) have "pg_cursor p \<noteq> ''''" by simp
  with p List_rows_next [OF assms(2), of 29 after slot] True show ?thesis by simp
next
  case False
  then show ?thesis using assms(1) by (auto simp: List_page_def Let_def split: if_splits)
qed

end
