(* ===== verification/Credentials.thy ===== *)
theory Credentials
  imports GameApi "HOL-Library.Word"
begin

text \<open>
  The secrets of the match service (\<open>server/internal/matches/service.go\<close>): launch tickets and
  resume tokens are 32 random bytes in base64, and the tables hold only a SHA-256 hash of them
  with the server's pepper and a domain. The standard library's \<open>crypto/sha256\<close>,
  \<open>encoding/base64\<close> (\<open>RawURLEncoding\<close>) and \<open>encoding/hex\<close> are modelled as far as they are used.
  The lemmas: encoding and decoding round-trip, and the credentials the service accepts are
  exactly those it can issue.
\<close>

subsection \<open>SHA-256\<close>

unbundle bit_operations_syntax

type_synonym w32 = "32 word"

text \<open>
  The constants of the standard: the first 32 bits of the fractional parts of the cube roots of
  the first 64 primes, and of the square roots of the first eight.
\<close>

definition primes_below :: "nat \<Rightarrow> nat list" where
  "primes_below n = filter (\<lambda>p. list_all (\<lambda>d. d * d > p \<or> p mod d \<noteq> 0) [2..<18]) [2..<n]"

definition root_floor :: "nat \<Rightarrow> nat \<Rightarrow> nat" where
  "root_floor k n = fold (\<lambda>b r. if (r + 2 ^ b) ^ k \<le> n then r + 2 ^ b else r) (rev [0..<38]) 0"

definition root_bits :: "nat \<Rightarrow> nat \<Rightarrow> w32" where
  "root_bits k p = of_nat (root_floor k (p * 2 ^ (32 * k)))"

definition sha_K :: "w32 list" where
  "sha_K = map (root_bits 3) (take 64 (primes_below 312))"

record sha_state =
  sh_a :: w32  sh_b :: w32  sh_c :: w32  sh_d :: w32
  sh_e :: w32  sh_f :: w32  sh_g :: w32  sh_h :: w32

definition sha_init :: sha_state where
  "sha_init =
     (let h = map (root_bits 2) (take 8 (primes_below 20)) in
      \<lparr>sh_a = h ! 0, sh_b = h ! 1, sh_c = h ! 2, sh_d = h ! 3,
       sh_e = h ! 4, sh_f = h ! 5, sh_g = h ! 6, sh_h = h ! 7\<rparr>)"

definition rotr :: "nat \<Rightarrow> w32 \<Rightarrow> w32" where
  "rotr n x = drop_bit n x OR push_bit (32 - n) x"

definition sigma0 :: "w32 \<Rightarrow> w32" where "sigma0 x = rotr 7 x XOR rotr 18 x XOR drop_bit 3 x"
definition sigma1 :: "w32 \<Rightarrow> w32" where "sigma1 x = rotr 17 x XOR rotr 19 x XOR drop_bit 10 x"
definition Sigma0 :: "w32 \<Rightarrow> w32" where "Sigma0 x = rotr 2 x XOR rotr 13 x XOR rotr 22 x"
definition Sigma1 :: "w32 \<Rightarrow> w32" where "Sigma1 x = rotr 6 x XOR rotr 11 x XOR rotr 25 x"

definition sha_schedule :: "w32 list \<Rightarrow> w32 list" where
  "sha_schedule block =
     fold (\<lambda>t w. w @ [sigma1 (w ! (t - 2)) + w ! (t - 7) + sigma0 (w ! (t - 15)) + w ! (t - 16)]) [16..<64] block"

definition sha_round :: "w32 \<times> w32 \<Rightarrow> sha_state \<Rightarrow> sha_state" where
  "sha_round kw s =
     (let e = sh_e s; a = sh_a s;
          t1 = sh_h s + Sigma1 e + ((e AND sh_f s) XOR (NOT e AND sh_g s)) + fst kw + snd kw;
          t2 = Sigma0 a + ((a AND sh_b s) XOR (a AND sh_c s) XOR (sh_b s AND sh_c s)) in
      \<lparr>sh_a = t1 + t2, sh_b = a, sh_c = sh_b s, sh_d = sh_c s,
       sh_e = sh_d s + t1, sh_f = e, sh_g = sh_f s, sh_h = sh_g s\<rparr>)"

definition sha_block :: "w32 list \<Rightarrow> sha_state \<Rightarrow> sha_state" where
  "sha_block block s =
     (let r = fold sha_round (zip sha_K (sha_schedule block)) s in
      \<lparr>sh_a = sh_a s + sh_a r, sh_b = sh_b s + sh_b r, sh_c = sh_c s + sh_c r, sh_d = sh_d s + sh_d r,
       sh_e = sh_e s + sh_e r, sh_f = sh_f s + sh_f r, sh_g = sh_g s + sh_g r, sh_h = sh_h s + sh_h r\<rparr>)"

text \<open>Numbers as \<open>n\<close> bytes, the most significant first.\<close>

definition be_bytes :: "nat \<Rightarrow> nat \<Rightarrow> nat list" where
  "be_bytes n x = map (\<lambda>i. x div 256 ^ (n - 1 - i) mod 256) [0..<n]"

fun be_words :: "nat list \<Rightarrow> w32 list" where
  "be_words (a # b # c # d # r) = of_nat (((a * 256 + b) * 256 + c) * 256 + d) # be_words r"
| "be_words _ = []"

fun blocks :: "nat \<Rightarrow> w32 list \<Rightarrow> w32 list list" where
  "blocks 0 ws = []"
| "blocks (Suc n) ws = take 16 ws # blocks n (drop 16 ws)"

definition sha_pad :: "nat list \<Rightarrow> nat list" where
  "sha_pad m = m @ [128] @ replicate ((119 - length m mod 64) mod 64) 0 @ be_bytes 8 (8 * length m)"

definition sha256 :: "bytes \<Rightarrow> nat list" where
  "sha256 m =
     (let ws = be_words (sha_pad (map byte m));
          s = fold sha_block (blocks (length ws div 16) ws) sha_init in
      concat (map (\<lambda>w. be_bytes 4 (unat w))
        [sh_a s, sh_b s, sh_c s, sh_d s, sh_e s, sh_f s, sh_g s, sh_h s]))"

definition hex_encode :: "nat list \<Rightarrow> bytes" where
  "hex_encode bs = concat (map (\<lambda>b. [hex_digit (b div 16), hex_digit (b mod 16)]) bs)"

subsection \<open>Base64\<close>

definition b64_alphabet :: bytes where
  "b64_alphabet = ''ABCDEFGHIJKLMNOPQRSTUVWXYZabcdefghijklmnopqrstuvwxyz0123456789-_''"

definition b64_char :: "nat \<Rightarrow> char" where
  "b64_char d = b64_alphabet ! d"

definition b64_val :: "char \<Rightarrow> nat option" where
  "b64_val c = map_of (zip b64_alphabet [0..<64]) c"

fun b64_digits :: "nat list \<Rightarrow> nat list" where
  "b64_digits (x # y # z # r) =
     x div 4 # (x mod 4 * 16 + y div 16) # (y mod 16 * 4 + z div 64) # z mod 64 # b64_digits r"
| "b64_digits [x, y] = [x div 4, x mod 4 * 16 + y div 16, y mod 16 * 4]"
| "b64_digits [x] = [x div 4, x mod 4 * 16]"
| "b64_digits [] = []"

fun b64_bytes :: "nat list \<Rightarrow> nat list option" where
  "b64_bytes (p # q # r # s # t) =
     (case b64_bytes t of
        None \<Rightarrow> None
      | Some bs \<Rightarrow> Some ((p * 4 + q div 16) # (q mod 16 * 16 + r div 4) # (r mod 4 * 64 + s) # bs))"
| "b64_bytes [p, q, r] = Some [p * 4 + q div 16, q mod 16 * 16 + r div 4]"
| "b64_bytes [p, q] = Some [p * 4 + q div 16]"
| "b64_bytes [p] = None"
| "b64_bytes [] = Some []"

definition b64_encode :: "nat list \<Rightarrow> bytes" where
  "b64_encode bs = map b64_char (b64_digits bs)"

text \<open>\<open>DecodeString\<close> skips carriage returns and line feeds.\<close>

definition b64_decode :: "bytes \<Rightarrow> nat list option" where
  "b64_decode s =
     (case map_partial b64_val (filter (\<lambda>c. c \<noteq> CHR 0x0D \<and> c \<noteq> CHR 0x0A) s) of
        None \<Rightarrow> None
      | Some ds \<Rightarrow> b64_bytes ds)"

subsection \<open>Credentials\<close>

definition launchTicketEntropyBytes :: nat where "launchTicketEntropyBytes = 32"
definition launchTicketHashDomain :: bytes where "launchTicketHashDomain = ''gamebox/launch-ticket-hash/v1''"
definition resumeTokenHashDomain :: bytes where "resumeTokenHashDomain = ''gamebox/resume-token-hash/v1''"

text \<open>\<open>writeCredentialHashField\<close>: the length in eight bytes, then the field.\<close>

definition credentialHashField :: "bytes \<Rightarrow> bytes" where
  "credentialHashField field = map char_of (be_bytes 8 (length field)) @ field"

definition hashCredential :: "bytes \<Rightarrow> bytes \<Rightarrow> bytes \<Rightarrow> bytes option" where
  "hashCredential pepper plaintext domain =
     (if pepper = '''' \<or> plaintext = '''' \<or> domain = '''' then None
      else Some (hex_encode (sha256 (domain @ credentialHashField pepper @ credentialHashField plaintext))))"

definition hashLaunchTicket :: "bytes \<Rightarrow> bytes \<Rightarrow> bytes option" where
  "hashLaunchTicket pepper plaintext =
     (if pepper = '''' \<or> plaintext = '''' then None
      else Some (hex_encode
        (sha256 (launchTicketHashDomain @ credentialHashField pepper @ credentialHashField plaintext))))"

definition validOpaqueCredential :: "bytes \<Rightarrow> bool" where
  "validOpaqueCredential v \<longleftrightarrow>
     \<not> (v = '''' \<or> length v > 256 \<or> list_ex (\<lambda>c. c \<in> set [CHR '' '', CHR 0x09, CHR 0x0D, CHR 0x0A]) v) \<and>
     (case b64_decode v of
        None \<Rightarrow> False
      | Some decoded \<Rightarrow> length decoded = launchTicketEntropyBytes \<and> b64_encode decoded = v)"

text \<open>\<open>randomLaunchTicket\<close>: reads 32 bytes of the random source, and returns what is left of it.\<close>

definition randomLaunchTicket :: "nat list \<Rightarrow> (bytes \<times> nat list) option" where
  "randomLaunchTicket random =
     (if length random < launchTicketEntropyBytes then None
      else Some (b64_encode (take launchTicketEntropyBytes random), drop launchTicketEntropyBytes random))"

subsection \<open>Issued and accepted credentials\<close>

abbreviation is_bytes :: "nat list \<Rightarrow> bool" where
  "is_bytes bs \<equiv> list_all (\<lambda>b. b < 256) bs"

lemma b64_sextets:
  assumes "x < (256::nat)" "y < 256" "z < 256"
  shows "x div 4 * 4 + (x mod 4 * 16 + y div 16) div 16 = x"
    and "(x mod 4 * 16 + y div 16) mod 16 * 16 + (y mod 16 * 4 + z div 64) div 4 = y"
    and "(y mod 16 * 4 + z div 64) mod 4 * 64 + z mod 64 = z"
proof -
  have "y div 16 < 16" "z div 64 < 4" using assms by (auto simp: less_mult_imp_div_less)
  then show "x div 4 * 4 + (x mod 4 * 16 + y div 16) div 16 = x"
    and "(x mod 4 * 16 + y div 16) mod 16 * 16 + (y mod 16 * 4 + z div 64) div 4 = y"
    and "(y mod 16 * 4 + z div 64) mod 4 * 64 + z mod 64 = z"
    by simp_all
qed

lemma b64_bytes_digits: "is_bytes bs \<Longrightarrow> b64_bytes (b64_digits bs) = Some bs"
proof (induction bs rule: b64_digits.induct)
  case (1 x y z r)
  then show ?case using b64_sextets [of x y z] by simp
next
  case (2 x y)
  then show ?case using b64_sextets [of x y 0] by simp
next
  case (3 x)
  then show ?case using b64_sextets [of x 0 0] by simp
qed simp

lemma b64_digits_less: "is_bytes bs \<Longrightarrow> list_all (\<lambda>d. d < 64) (b64_digits bs)"
proof (induction bs rule: b64_digits.induct)
  case (1 x y z r)
  then have "x div 4 < 64" "x mod 4 < 4" "y div 16 < 16" "y mod 16 < 16" "z div 64 < 4"
    by (auto simp: less_mult_imp_div_less)
  then have "x mod 4 * 16 + y div 16 < 64" "y mod 16 * 4 + z div 64 < 64" "x div 4 < 64" by linarith+
  with 1 show ?case by simp
next
  case (2 x y)
  then have "x div 4 < 64" "x mod 4 < 4" "y div 16 < 16" "y mod 16 < 16"
    by (auto simp: less_mult_imp_div_less)
  then have "x mod 4 * 16 + y div 16 < 64" "y mod 16 * 4 < 64" by linarith+
  with \<open>x div 4 < 64\<close> show ?case by simp
next
  case (3 x)
  then have "x div 4 < 64" "x mod 4 < 4" by (auto simp: less_mult_imp_div_less)
  then show ?case by simp
qed simp

lemma length_b64_digits: "length (b64_digits bs) = (4 * length bs + 2) div 3"
  by (induction bs rule: b64_digits.induct) simp_all

definition b64_table :: bool where
  "b64_table \<longleftrightarrow> list_all (\<lambda>d. b64_val (b64_char d) = Some d \<and>
     b64_char d \<notin> set [CHR '' '', CHR 0x09, CHR 0x0D, CHR 0x0A]) [0..<64]"

lemma b64_table: b64_table
  by code_simp

lemma b64_val_char: "d < 64 \<Longrightarrow> b64_val (b64_char d) = Some d"
  and b64_char_ink: "d < 64 \<Longrightarrow> b64_char d \<notin> set [CHR '' '', CHR 0x09, CHR 0x0D, CHR 0x0A]"
  using b64_table by (auto simp: b64_table_def list_all_iff)

lemma b64_val_less: "b64_val c = Some d \<Longrightarrow> d < 64"
  using map_of_SomeD [of "zip b64_alphabet [0..<64]" c d] by (auto simp: b64_val_def dest: set_zip_rightD)

lemma b64_encode_ink:
  "is_bytes bs \<Longrightarrow> list_all (\<lambda>c. c \<notin> set [CHR '' '', CHR 0x09, CHR 0x0D, CHR 0x0A]) (b64_encode bs)"
  unfolding b64_encode_def using b64_digits_less [of bs] b64_char_ink
  by (simp add: list_all_iff)

lemma b64_decode_encode: "is_bytes bs \<Longrightarrow> b64_decode (b64_encode bs) = Some bs"
proof -
  assume bs: "is_bytes bs"
  have "filter (\<lambda>c. c \<noteq> CHR 0x0D \<and> c \<noteq> CHR 0x0A) (b64_encode bs) = b64_encode bs"
    using b64_encode_ink [OF bs] by (simp add: filter_id_conv list_all_iff)
  moreover have "map_partial b64_val (map b64_char (b64_digits bs)) = Some (map (\<lambda>d. d) (b64_digits bs))"
    using b64_digits_less [OF bs] by (intro map_partial_map b64_val_char) (simp add: list_all_iff)
  ultimately show ?thesis using b64_bytes_digits [OF bs] by (simp add: b64_decode_def b64_encode_def)
qed

lemma b64_bytes_range: "b64_bytes ds = Some bs \<Longrightarrow> list_all (\<lambda>d. d < 64) ds \<Longrightarrow> is_bytes bs"
proof (induction ds arbitrary: bs rule: b64_bytes.induct)
  case (1 p q r s t)
  then obtain cs where cs: "b64_bytes t = Some cs"
    and bs: "bs = (p * 4 + q div 16) # (q mod 16 * 16 + r div 4) # (r mod 4 * 64 + s) # cs"
    by (auto split: option.splits)
  have "q div 16 < 4" "q mod 16 < 16" "r div 4 < 16" "r mod 4 < 4" "p < 64" "s < 64"
    using "1.prems"(2) by (auto simp: less_mult_imp_div_less)
  then have "p * 4 + q div 16 < 256" "q mod 16 * 16 + r div 4 < 256" "r mod 4 * 64 + s < 256" by linarith+
  with 1 cs bs show ?case by simp
next
  case (2 p q r)
  have "q div 16 < 4" "q mod 16 < 16" "r div 4 < 16" "p < 64"
    using "2.prems"(2) by (auto simp: less_mult_imp_div_less)
  then have "p * 4 + q div 16 < 256" "q mod 16 * 16 + r div 4 < 256" by linarith+
  with 2 show ?case by auto
next
  case (3 p q)
  have "q div 16 < 4" "p < 64" using "3.prems"(2) by (auto simp: less_mult_imp_div_less)
  then have "p * 4 + q div 16 < 256" by linarith
  with 3 show ?case by auto
qed auto

lemma map_partial_list_all:
  "map_partial f xs = Some ys \<Longrightarrow> (\<And>x y. f x = Some y \<Longrightarrow> P y) \<Longrightarrow> list_all P ys"
  by (induction xs arbitrary: ys) (auto split: option.splits)

lemma b64_decode_range: "b64_decode s = Some bs \<Longrightarrow> is_bytes bs"
  by (auto simp: b64_decode_def split: option.splits
      intro: b64_bytes_range map_partial_list_all [where f = b64_val] b64_val_less)

lemma valid_credential_iff:
  "validOpaqueCredential v \<longleftrightarrow>
     (\<exists>random. is_bytes random \<and> length random = 32 \<and> randomLaunchTicket random = Some (v, []))"
proof
  assume v: "validOpaqueCredential v"
  then obtain bs where bs: "b64_decode v = Some bs" "length bs = 32" "b64_encode bs = v"
    by (auto simp: validOpaqueCredential_def launchTicketEntropyBytes_def split: option.splits)
  then have "randomLaunchTicket bs = Some (v, [])"
    by (simp add: randomLaunchTicket_def launchTicketEntropyBytes_def)
  with bs b64_decode_range [OF bs(1)]
  show "\<exists>random. is_bytes random \<and> length random = 32 \<and> randomLaunchTicket random = Some (v, [])" by blast
next
  assume "\<exists>random. is_bytes random \<and> length random = 32 \<and> randomLaunchTicket random = Some (v, [])"
  then obtain bs where bs: "is_bytes bs" "length bs = 32" "v = b64_encode bs"
    by (auto simp: randomLaunchTicket_def launchTicketEntropyBytes_def)
  have "length v = 43" by (simp add: bs b64_encode_def length_b64_digits)
  moreover have "\<not> list_ex (\<lambda>c. c \<in> set [CHR '' '', CHR 0x09, CHR 0x0D, CHR 0x0A]) v"
    using b64_encode_ink [OF bs(1)] bs(3) by (simp add: list_ex_iff list_all_iff)
  ultimately show "validOpaqueCredential v"
    using b64_decode_encode [OF bs(1)] bs(2,3)
    by (auto simp: validOpaqueCredential_def launchTicketEntropyBytes_def)
qed

text \<open>
  The credentials the service accepts are exactly the ones it can issue: \<open>validOpaqueCredential\<close>
  holds of a string if and only if some 32 bytes of the random source make \<open>randomLaunchTicket\<close>
  return it.
\<close>
lemma credential_format:
  "validOpaqueCredential v \<longleftrightarrow>
     (\<exists>random. is_bytes random \<and> length random = 32 \<and> randomLaunchTicket random = Some (v, []))"
  by (rule valid_credential_iff)

lemma randomLaunchTicket_valid:
  "is_bytes random \<Longrightarrow> randomLaunchTicket random = Some (t, rest) \<Longrightarrow> validOpaqueCredential t"
  by (subst valid_credential_iff, rule exI [of _ "take 32 random"])
    (auto simp: randomLaunchTicket_def launchTicketEntropyBytes_def list_all_iff dest: in_set_takeD
      split: if_splits)

lemma hashCredential_total:
  "pepper \<noteq> '''' \<Longrightarrow> validOpaqueCredential v \<Longrightarrow> domain \<noteq> '''' \<Longrightarrow> \<exists>h. hashCredential pepper v domain = Some h"
  by (simp add: hashCredential_def validOpaqueCredential_def)

lemma hashLaunchTicket_eq: "hashLaunchTicket pepper v = hashCredential pepper v launchTicketHashDomain"
  by (simp add: hashLaunchTicket_def hashCredential_def launchTicketHashDomain_def)

end
