(* ===== verification/Matches.thy ===== *)
theory Matches
  imports Registry Users Uuid Credentials
begin

text \<open>
  The data of the match service (\<open>server/internal/matches/models.go\<close> and the helpers of
  \<open>service.go\<close>): the tables it keeps, the checks of identifiers, requests and payloads, and the
  decoders of the persisted events. A table is the list of its rows. \<open>uuid.Parse\<close> is an argument
  (theory \<open>Uuid\<close>).
\<close>

subsection \<open>Tables\<close>

text \<open>The row of a match; the struct \<open>Match\<close> has the same fields but \<open>both_offline_since\<close>.\<close>

record match_row =
  m_id :: bytes
  m_game :: bytes
  m_status :: bytes
  m_revision :: int
  m_offline :: "int option"
  m_result :: "bytes option"
  m_winner :: "bytes option"
  m_config :: "bytes option"
  m_created :: int
  m_updated :: int
  m_finished :: "int option"

record player_row =
  p_match :: bytes
  p_user :: bytes
  p_seat :: int
  p_color :: bytes

record event_row =
  e_match :: bytes
  e_revision :: int
  e_type :: bytes
  e_action :: "bytes option"
  e_actor :: "bytes option"
  e_payload :: bytes
  e_created :: int

record slot_row =
  s_game :: bytes
  s_user :: bytes
  s_match :: bytes

record ticket_row =
  t_hash :: bytes
  t_match :: bytes
  t_user :: bytes
  t_game :: bytes
  t_expires :: int
  t_consumed :: "int option"
  t_created :: int

record token_row =
  k_hash :: bytes
  k_match :: bytes
  k_user :: bytes
  k_expires :: int
  k_last_used :: int
  k_revoked :: "int option"
  k_created :: int

record limit_row =
  l_match :: bytes
  l_revision :: int
  l_actor :: bytes
  l_action :: bytes
  l_type :: bytes
  l_piece :: int

record db =
  d_users :: "user list"
  d_matches :: "match_row list"
  d_players :: "player_row list"
  d_events :: "event_row list"
  d_slots :: "slot_row list"
  d_tickets :: "ticket_row list"
  d_tokens :: "token_row list"
  d_limits :: "limit_row list"

subsection \<open>Names\<close>

definition StatusActive :: bytes where "StatusActive = ''active''"
definition StatusCancelled :: bytes where "StatusCancelled = ''cancelled''"
definition StatusFinished :: bytes where "StatusFinished = ''finished''"
definition StatusAbandoned :: bytes where "StatusAbandoned = ''abandoned''"
definition ResultMajority :: bytes where "ResultMajority = ''majority''"
definition ResultFive :: bytes where "ResultFive = ''five''"
definition ResultGoal :: bytes where "ResultGoal = ''goal''"
definition ResultResignation :: bytes where "ResultResignation = ''resignation''"
definition ResultDraw :: bytes where "ResultDraw = ''draw''"
definition ResultRounds :: bytes where "ResultRounds = ''rounds''"
definition ColorBlack :: bytes where "ColorBlack = ''black''"
definition ColorWhite :: bytes where "ColorWhite = ''white''"

lemmas status_defs = StatusActive_def StatusCancelled_def StatusFinished_def StatusAbandoned_def
lemmas result_defs = ResultMajority_def ResultFive_def ResultGoal_def ResultResignation_def ResultDraw_def
  ResultRounds_def
lemmas color_defs = ColorBlack_def ColorWhite_def

definition TypeCancelled :: bytes where "TypeCancelled = ''platform.match.cancelled''"
definition TypeAbandoned :: bytes where "TypeAbandoned = ''platform.match.abandoned''"
definition CheckersResignRequested :: bytes where "CheckersResignRequested = ''chinese_checkers.resign.requested''"
definition CheckersResigned :: bytes where "CheckersResigned = ''chinese_checkers.resigned''"
definition FlightResignRequested :: bytes where "FlightResignRequested = ''flight_chess.resign.requested''"
definition FlightResigned :: bytes where "FlightResigned = ''flight_chess.resigned''"
definition ReversiResignRequested :: bytes where "ReversiResignRequested = ''reversi.resign.requested''"
definition ReversiResigned :: bytes where "ReversiResigned = ''reversi.resigned''"
definition GomokuResignRequested :: bytes where "GomokuResignRequested = ''gomoku.resign.requested''"
definition GomokuResigned :: bytes where "GomokuResigned = ''gomoku.resigned''"
definition RpsResignRequested :: bytes where "RpsResignRequested = ''rps.resign.requested''"
definition RpsResigned :: bytes where "RpsResigned = ''rps.resigned''"

lemmas type_defs = TypeCancelled_def TypeAbandoned_def CheckersResignRequested_def CheckersResigned_def
  FlightResignRequested_def FlightResigned_def ReversiResignRequested_def ReversiResigned_def
  GomokuResignRequested_def GomokuResigned_def RpsResignRequested_def RpsResigned_def
  Gomoku.MoveRequested_def Gomoku.MoveAccepted_def Reversi.MoveRequested_def Reversi.MoveAccepted_def
  ChineseCheckers.MoveRequested_def ChineseCheckers.MoveAccepted_def FlightChess.RollRequested_def
  FlightChess.RollAccepted_def FlightChess.MoveRequested_def FlightChess.MoveAccepted_def
  Rps.ChoiceRequested_def Rps.ChoiceLocked_def Rps.RoundRevealed_def

datatype match_error =
    ErrInvalidConfiguration
  | ErrInvalidRequest
  | ErrActiveMatchExists
  | ErrOpponentBusy
  | ErrMatchNotFound
  | ErrMatchNotCancellable
  | ErrStaleRevision
  | ErrActionConflict
  | ErrTicketInvalid
  | ErrResumeExpired
  | ErrInternal
  | ErrUnauthorized
  | RuleError game_error

definition maximumIdentifierBytes :: nat where "maximumIdentifierBytes = 128"
definition maximumActionPayloadBytes :: nat where "maximumActionPayloadBytes = 1024"
definition maximumMatchEvents :: int where "maximumMatchEvents = 226"
definition maximumFlightChessEvents :: int where "maximumFlightChessEvents = 512"
definition cancelledPayloadJSON :: bytes where "cancelledPayloadJSON = ''{}''"
definition fullyOfflineAbandonAfter :: int where "fullyOfflineAbandonAfter = 24 * 60 * 60 * 1000"
definition launchTicketLifetime :: int where "launchTicketLifetime = 60 * 1000"
definition launchTicketCollisionMax :: nat where "launchTicketCollisionMax = 8"
definition minimumTokenPepperBytes :: nat where "minimumTokenPepperBytes = 32"
definition resumeTokenLifetime :: int where "resumeTokenLifetime = 30 * 60 * 1000"

subsection \<open>Time, identifiers and JSON\<close>

text \<open>The comparisons are on \<open>int64\<close> values; the bounds they compare with do not wrap.\<close>

definition safeAddMilliseconds :: "int \<Rightarrow> int \<Rightarrow> int option" where
  "safeAddMilliseconds v delta =
     (if delta < 0 \<or> v > i64 (max_i64 - delta) then None else Some (i64 (v + delta)))"

definition safeSubtractMilliseconds :: "int \<Rightarrow> int \<Rightarrow> int option" where
  "safeSubtractMilliseconds v delta =
     (if delta < 0 \<or> v < i64 (- (2 ^ 63) + delta) then None else Some (i64 (v - delta)))"

definition validIdentifier :: "bytes \<Rightarrow> bool" where
  "validIdentifier v \<longleftrightarrow> v \<noteq> '''' \<and> length v \<le> maximumIdentifierBytes \<and> trimmed v"

definition canonicalUUID :: "uuid_parser \<Rightarrow> bytes \<Rightarrow> bool" where
  "canonicalUUID parse v \<longleftrightarrow> (case parse v of None \<Rightarrow> False | Some u \<Rightarrow> uu_string u = v \<and> uu_rfc4122 u)"

definition validStoredUser :: "uuid_parser \<Rightarrow> ucd \<Rightarrow> user \<Rightarrow> bool" where
  "validStoredUser parse u row \<longleftrightarrow>
     canonicalUUID parse (us_id row) \<and>
     (case NormalizeNickname u (us_nickname row) of
        None \<Rightarrow> False
      | Some (display, normal) \<Rightarrow> display = us_nickname row \<and> normal = us_normalized row)"

definition strictJSONObject :: "bytes \<Rightarrow> bytes list \<Rightarrow> (bytes \<times> bytes) list option" where
  "strictJSONObject payload allowed =
     (if length payload = 0 \<or> length payload > maximumActionPayloadBytes \<or> \<not> utf8_valid payload then None
      else strict_object allowed payload)"

definition strictJSONInteger :: "bytes \<Rightarrow> int option" where
  "strictJSONInteger raw =
     (if length raw = 0 \<or> length raw > 32 \<or> \<not> plain_integer raw then None else parse_i64 raw)"

definition isStrictEmptyObject :: "bytes \<Rightarrow> bool" where
  "isStrictEmptyObject payload \<longleftrightarrow>
     (case strictJSONObject payload [] of None \<Rightarrow> False | Some fs \<Rightarrow> length fs = 0)"

subsection \<open>Players\<close>

definition coloredPlayers :: "player_row list \<Rightarrow> (player_row \<times> player_row) option" where
  "coloredPlayers ps =
     (case ps of
        [p, q] \<Rightarrow>
          if p_color p = ColorBlack \<and> p_color q = ColorWhite then Some (p, q)
          else if p_color q = ColorBlack \<and> p_color p = ColorWhite then Some (q, p)
          else None
      | _ \<Rightarrow> None)"

definition actionPlayers :: "player_row list \<Rightarrow> bytes \<Rightarrow> (player_row \<times> player_row) option" where
  "actionPlayers ps actor =
     (case ps of
        [p, q] \<Rightarrow> if p_user p = actor then Some (p, q) else if p_user q = actor then Some (q, p) else None
      | _ \<Rightarrow> None)"

definition playerMember :: "player_row list \<Rightarrow> bytes \<Rightarrow> bool" where
  "playerMember ps user \<longleftrightarrow> actionPlayers ps user \<noteq> None"

subsection \<open>Requests\<close>

record actionSemantics =
  as_x :: int
  as_y :: int
  as_piece :: int
  as_choice :: bytes
  as_path :: "int list"

definition noSemantics :: actionSemantics where
  "noSemantics = \<lparr>as_x = 0, as_y = 0, as_piece = 0, as_choice = '''', as_path = []\<rparr>"

record ActionRequest =
  rq_match :: bytes
  rq_actor :: bytes
  rq_action :: bytes
  rq_revision :: int
  rq_type :: bytes
  rq_payload :: bytes

definition decodeMoveRequest :: "bytes \<Rightarrow> (int \<times> int) option" where
  "decodeMoveRequest payload = do {
     fs \<leftarrow> strictJSONObject payload [''x'', ''y''];
     (if length fs = 2 then Some () else None);
     rx \<leftarrow> map_of fs ''x'';
     ry \<leftarrow> map_of fs ''y'';
     x \<leftarrow> strictJSONInteger rx;
     y \<leftarrow> strictJSONInteger ry;
     Some (x, y) }"

text \<open>A cell of a path; the loop over the cells refuses a repeated one.\<close>

definition strictCell :: "bytes \<Rightarrow> int option" where
  "strictCell raw =
     (case strictJSONInteger raw of
        None \<Rightarrow> None
      | Some v \<Rightarrow> if v < 0 \<or> v \<ge> ChineseCheckers.BoardCells then None else Some v)"

definition decodeChineseCheckersPath :: "bytes \<Rightarrow> int list option" where
  "decodeChineseCheckersPath raw =
     (case strict_array (nat ChineseCheckers.BoardCells) strictCell raw of
        None \<Rightarrow> None
      | Some path \<Rightarrow> if \<not> distinct path \<or> length path < 2 then None else Some path)"

definition decodeChineseCheckersMoveRequest :: "bytes \<Rightarrow> int list option" where
  "decodeChineseCheckersMoveRequest payload = do {
     fs \<leftarrow> strictJSONObject payload [''path''];
     (if length fs = 1 then Some () else None);
     raw \<leftarrow> map_of fs ''path'';
     decodeChineseCheckersPath raw }"

definition decodePieceRequest :: "bytes \<Rightarrow> int option" where
  "decodePieceRequest payload = do {
     fs \<leftarrow> strictJSONObject payload [''pieceIndex''];
     (if length fs = 1 then Some () else None);
     raw \<leftarrow> map_of fs ''pieceIndex'';
     i \<leftarrow> strictJSONInteger raw;
     (if i < 0 \<or> i \<ge> FlightChess.PieceCount then None else Some i) }"

definition validRpsChoice :: "bytes \<Rightarrow> bool" where
  "validRpsChoice c \<longleftrightarrow> c = Rps.Rock \<or> c = Rps.Paper \<or> c = Rps.Scissors"

definition decodeChoiceRequest :: "bytes \<Rightarrow> bytes option" where
  "decodeChoiceRequest payload = do {
     fs \<leftarrow> strictJSONObject payload [''choice''];
     (if length fs = 1 then Some () else None);
     raw \<leftarrow> map_of fs ''choice'';
     c \<leftarrow> unmarshal dec_string '''' raw;
     (if validRpsChoice c then Some c else None) }"

definition validateActionRequest :: "uuid_parser \<Rightarrow> ActionRequest \<Rightarrow> match_error + actionSemantics" where
  "validateActionRequest parse r =
     (let t = rq_type r; payload = rq_payload r;
          empty = (if isStrictEmptyObject payload then Some noSemantics else None) in
      if \<not> validIdentifier (rq_match r) \<or> \<not> validIdentifier (rq_actor r) \<or> \<not> canonicalUUID parse (rq_action r) \<or>
         rq_revision r < 0 then Inl ErrInvalidRequest
      else or_fail
        (if t = ChineseCheckers.MoveRequested then
           map_option (\<lambda>path. noSemantics\<lparr>as_path := path\<rparr>) (decodeChineseCheckersMoveRequest payload)
         else if t = CheckersResignRequested then empty
         else if t = FlightChess.RollRequested \<or> t = FlightResignRequested then empty
         else if t = FlightChess.MoveRequested then
           map_option (\<lambda>i. noSemantics\<lparr>as_piece := i\<rparr>) (decodePieceRequest payload)
         else if t = Gomoku.MoveRequested \<or> t = Reversi.MoveRequested then
           map_option (\<lambda>(x, y). noSemantics\<lparr>as_x := x, as_y := y\<rparr>) (decodeMoveRequest payload)
         else if t = GomokuResignRequested \<or> t = ReversiResignRequested then empty
         else if t = Rps.ChoiceRequested then
           map_option (\<lambda>c. noSemantics\<lparr>as_choice := c\<rparr>) (decodeChoiceRequest payload)
         else if t = RpsResignRequested then empty
         else None) ErrInvalidRequest)"

subsection \<open>Persisted events\<close>

record acceptedMove =
  am_x :: int
  am_y :: int
  am_color :: bytes
  am_user :: bytes

definition decodeAcceptedMove :: "bytes \<Rightarrow> acceptedMove option" where
  "decodeAcceptedMove payload = do {
     fs \<leftarrow> strictJSONObject payload [''x'', ''y'', ''color'', ''userId''];
     (if length fs = 4 then Some () else None);
     rx \<leftarrow> map_of fs ''x'';
     ry \<leftarrow> map_of fs ''y'';
     rc \<leftarrow> map_of fs ''color'';
     ru \<leftarrow> map_of fs ''userId'';
     x \<leftarrow> strictJSONInteger rx;
     y \<leftarrow> strictJSONInteger ry;
     c \<leftarrow> unmarshal dec_string '''' rc;
     u \<leftarrow> unmarshal dec_string '''' ru;
     (if (c \<noteq> ColorBlack \<and> c \<noteq> ColorWhite) \<or> \<not> validIdentifier u \<or> x < 0 \<or> x \<ge> 15 \<or> y < 0 \<or> y \<ge> 15 then None
      else Some \<lparr>am_x = x, am_y = y, am_color = c, am_user = u\<rparr>) }"

record acceptedChineseCheckersMove =
  ac_path :: "int list"
  ac_color :: bytes
  ac_user :: bytes

definition decodeAcceptedChineseCheckersMove :: "bytes \<Rightarrow> acceptedChineseCheckersMove option" where
  "decodeAcceptedChineseCheckersMove payload = do {
     fs \<leftarrow> strictJSONObject payload [''path'', ''color'', ''userId''];
     (if length fs = 3 then Some () else None);
     rp \<leftarrow> map_of fs ''path'';
     rc \<leftarrow> map_of fs ''color'';
     ru \<leftarrow> map_of fs ''userId'';
     path \<leftarrow> decodeChineseCheckersPath rp;
     c \<leftarrow> unmarshal dec_string '''' rc;
     u \<leftarrow> unmarshal dec_string '''' ru;
     (if (c \<noteq> ColorBlack \<and> c \<noteq> ColorWhite) \<or> \<not> validIdentifier u then None
      else Some \<lparr>ac_path = path, ac_color = c, ac_user = u\<rparr>) }"

text \<open>The structs of rolls and moves have the fields of the structs of the rule engine.\<close>

definition validFlightChessIndices :: "int list \<Rightarrow> bool" where
  "validFlightChessIndices vs \<longleftrightarrow> list_all (\<lambda>v. \<not> (v < 0 \<or> v \<ge> FlightChess.PieceCount)) vs \<and> distinct vs"

definition decodeAcceptedFlightChessRoll :: "bytes \<Rightarrow> FlightChess.acceptedRoll option" where
  "decodeAcceptedFlightChessRoll raw = do {
     payload \<leftarrow> FlightChess.NormalizeLegacyRollPayload raw;
     fs \<leftarrow> strictJSONObject payload [''color'', ''userId'', ''value'', ''movablePieceIndices''];
     (if length fs = 4 then Some () else None);
     v \<leftarrow> FlightChess.dec_roll payload;
     (if FlightChess.ro_color v \<noteq> ColorBlack \<and> FlightChess.ro_color v \<noteq> ColorWhite \<or>
         \<not> validIdentifier (FlightChess.ro_user v) \<or> FlightChess.ro_value v < 1 \<or> FlightChess.ro_value v > 6 \<or>
         \<not> validFlightChessIndices (valueOr [] (FlightChess.ro_movable v)) then None
      else Some v) }"

definition dec_flight_move :: "bytes \<Rightarrow> FlightChess.acceptedMove option" where
  "dec_flight_move payload = do {
     j \<leftarrow> json_parse payload;
     kvs \<leftarrow> obj_fields j;
     c \<leftarrow> dec_field FlightChess.move_names kvs ''color'' dec_string '''';
     u \<leftarrow> dec_field FlightChess.move_names kvs ''userId'' dec_string '''';
     i \<leftarrow> dec_field FlightChess.move_names kvs ''pieceIndex'' dec_int 0;
     v \<leftarrow> dec_field FlightChess.move_names kvs ''roll'' dec_int 0;
     src \<leftarrow> dec_field FlightChess.move_names kvs ''from'' FlightChess.dec_piece FlightChess.zero_piece;
     dst \<leftarrow> dec_field FlightChess.move_names kvs ''to'' FlightChess.dec_piece FlightChess.zero_piece;
     eff \<leftarrow> dec_field FlightChess.move_names kvs ''effect'' dec_string '''';
     cap \<leftarrow> dec_field FlightChess.move_names kvs ''capturedPieceIndices'' (dec_nslice dec_int 0) None;
     Some \<lparr>mv_color = c, mv_user = u, mv_piece = i, mv_roll = v, mv_from = src, mv_to = dst,
       mv_effect = eff, mv_captured = cap\<rparr> }"

definition decodeAcceptedFlightChessMove :: "bytes \<Rightarrow> FlightChess.acceptedMove option" where
  "decodeAcceptedFlightChessMove payload = do {
     fs \<leftarrow> strictJSONObject payload FlightChess.move_names;
     (if length fs = length FlightChess.move_names then Some () else None);
     v \<leftarrow> dec_flight_move payload;
     (if FlightChess.mv_color v \<noteq> ColorBlack \<and> FlightChess.mv_color v \<noteq> ColorWhite \<or>
         \<not> validIdentifier (FlightChess.mv_user v) \<or> FlightChess.mv_piece v < 0 \<or>
         FlightChess.mv_piece v \<ge> FlightChess.PieceCount \<or> FlightChess.mv_roll v < 1 \<or> FlightChess.mv_roll v > 6 \<or>
         \<not> validFlightChessIndices (valueOr [] (FlightChess.mv_captured v)) then None
      else Some v) }"

record resignedPayload =
  rs_user :: bytes
  rs_winner :: bytes

definition marshalResigned :: "resignedPayload \<Rightarrow> bytes" where
  "marshalResigned r = render (JObj [(''userId'', JStr (rs_user r)), (''winnerUserId'', JStr (rs_winner r))])"

definition decodeResignedPayload :: "bytes \<Rightarrow> resignedPayload option" where
  "decodeResignedPayload payload = do {
     fs \<leftarrow> strictJSONObject payload [''userId'', ''winnerUserId''];
     (if length fs = 2 then Some () else None);
     ru \<leftarrow> map_of fs ''userId'';
     rw \<leftarrow> map_of fs ''winnerUserId'';
     u \<leftarrow> unmarshal dec_string '''' ru;
     w \<leftarrow> unmarshal dec_string '''' rw;
     (if \<not> validIdentifier u \<or> \<not> validIdentifier w \<or> u = w then None
      else Some \<lparr>rs_user = u, rs_winner = w\<rparr>) }"

definition decodeRpsLocked :: "bytes \<Rightarrow> Rps.locked option" where
  "decodeRpsLocked payload = do {
     fs \<leftarrow> strictJSONObject payload [''round'', ''userId'', ''choice''];
     (if length fs = 3 then Some () else None);
     j \<leftarrow> json_parse payload;
     kvs \<leftarrow> obj_fields j;
     n \<leftarrow> dec_field Rps.locked_names kvs ''round'' dec_int 0;
     u \<leftarrow> dec_field Rps.locked_names kvs ''userId'' dec_string '''';
     c \<leftarrow> dec_field Rps.locked_names kvs ''choice'' dec_string '''';
     (if n < 1 \<or> \<not> validIdentifier u \<or> \<not> validRpsChoice c then None
      else Some \<lparr>lk_round = n, lk_user = u, lk_choice = c\<rparr>) }"

definition decodeRpsReveal :: "bytes \<Rightarrow> Rps.reveal option" where
  "decodeRpsReveal payload = do {
     fs \<leftarrow> strictJSONObject payload Rps.reveal_names;
     (if length fs = length Rps.reveal_names then Some () else None);
     v \<leftarrow> unmarshal (Rps.dec_reveal False) Rps.zero_reveal payload;
     (if Rps.rv_round v < 1 \<or> length (valueOr [] (Rps.rv_choices v)) \<noteq> 2 \<or>
         length (valueOr [] (Rps.rv_scores v)) > 2 then None
      else if list_all (\<lambda>(u, c). \<not> (\<not> validIdentifier u \<or> \<not> validRpsChoice c)) (valueOr [] (Rps.rv_choices v))
      then Some v else None) }"

text \<open>The choice of a player in a revealed round; a missing key of a map reads as the empty string.\<close>

definition revealed_choice :: "Rps.reveal \<Rightarrow> bytes \<Rightarrow> bytes" where
  "revealed_choice v u = valueOr '''' (mget (valueOr [] (Rps.rv_choices v)) u)"

subsection \<open>The summary of a game state\<close>

record gameStateSummary =
  gs_status :: bytes
  gs_black :: "bytes option"
  gs_white :: "bytes option"
  gs_next :: bytes
  gs_winner :: "bytes option"
  gs_result :: "bytes option"

definition summary_names :: "bytes list" where
  "summary_names = [''status'', ''blackUserId'', ''whiteUserId'', ''nextColor'', ''winnerUserId'', ''result'']"

definition dec_summary :: "json \<Rightarrow> gameStateSummary option" where
  "dec_summary j = do {
     kvs \<leftarrow> obj_fields j;
     st \<leftarrow> dec_field summary_names kvs ''status'' dec_string '''';
     b \<leftarrow> dec_field summary_names kvs ''blackUserId'' (dec_ptr dec_string '''') None;
     w \<leftarrow> dec_field summary_names kvs ''whiteUserId'' (dec_ptr dec_string '''') None;
     n \<leftarrow> dec_field summary_names kvs ''nextColor'' dec_string '''';
     win \<leftarrow> dec_field summary_names kvs ''winnerUserId'' (dec_ptr dec_string '''') None;
     res \<leftarrow> dec_field summary_names kvs ''result'' (dec_ptr dec_string '''') None;
     Some \<lparr>gs_status = st, gs_black = b, gs_white = w, gs_next = n, gs_winner = win, gs_result = res\<rparr> }"

definition readGameStateSummary :: "snapshot \<Rightarrow> gameStateSummary option" where
  "readGameStateSummary sn =
     (if sn_revision sn < 0 \<or> length (sn_state sn) = 0 \<or> length (sn_state sn) > 8192 \<or> \<not> utf8_valid (sn_state sn)
      then None
      else do {
        j \<leftarrow> json_parse (sn_state sn);
        s \<leftarrow> dec_summary j;
        (if gs_status s \<noteq> StatusActive \<and> gs_status s \<noteq> StatusFinished then None else Some s) })"

definition safeActionRuleError :: "game_error \<Rightarrow> match_error" where
  "safeActionRuleError e =
     (case e of
        CheckersNotYourTurn \<Rightarrow> RuleError CheckersNotYourTurn
      | CheckersInvalidPath \<Rightarrow> RuleError CheckersInvalidPath
      | FlightNotYourTurn \<Rightarrow> RuleError FlightNotYourTurn
      | FlightInvalidMove \<Rightarrow> RuleError FlightInvalidMove
      | FlightInvalidPhase \<Rightarrow> RuleError FlightInvalidPhase
      | FlightRandomUnavailable \<Rightarrow> ErrInternal
      | GomokuNotYourTurn \<Rightarrow> RuleError GomokuNotYourTurn
      | ReversiNotYourTurn \<Rightarrow> RuleError GomokuNotYourTurn
      | GomokuCellOccupied \<Rightarrow> RuleError GomokuCellOccupied
      | RpsChoiceLocked \<Rightarrow> RuleError RpsChoiceLocked
      | RpsInvalidChoice \<Rightarrow> ErrInvalidRequest
      | RpsMatchFinished \<Rightarrow> ErrInvalidRequest
      | ErrInvalidAction \<Rightarrow> ErrInvalidRequest
      | _ \<Rightarrow> ErrInternal)"

subsection \<open>Produced events\<close>

definition acceptedMoveType :: "bytes \<Rightarrow> bytes" where
  "acceptedMoveType t = (if t = Reversi.MoveRequested then Reversi.MoveAccepted else Gomoku.MoveAccepted)"

definition resignedEventType :: "bytes \<Rightarrow> bytes" where
  "resignedEventType g = (if g = Reversi.GameID then ReversiResigned else GomokuResigned)"

definition validateProducedMove ::
  "event \<Rightarrow> snapshot \<Rightarrow> ActionRequest \<Rightarrow> actionSemantics \<Rightarrow> bytes \<Rightarrow> int \<Rightarrow> bool" where
  "validateProducedMove e sn r sem color revision \<longleftrightarrow>
     \<not> (ev_revision e \<noteq> revision \<or> sn_revision sn \<noteq> revision \<or> ev_type e \<noteq> acceptedMoveType (rq_type r) \<or>
        ev_actor e \<noteq> rq_actor r) \<and>
     (case decodeAcceptedMove (ev_payload e) of
        None \<Rightarrow> False
      | Some m \<Rightarrow> \<not> (am_x m \<noteq> as_x sem \<or> am_y m \<noteq> as_y sem \<or> am_color m \<noteq> color \<or> am_user m \<noteq> rq_actor r))"

definition validateProducedChineseCheckersMove ::
  "event \<Rightarrow> snapshot \<Rightarrow> ActionRequest \<Rightarrow> actionSemantics \<Rightarrow> bytes \<Rightarrow> int \<Rightarrow> bool" where
  "validateProducedChineseCheckersMove e sn r sem color revision \<longleftrightarrow>
     \<not> (ev_revision e \<noteq> revision \<or> sn_revision sn \<noteq> revision \<or> ev_type e \<noteq> ChineseCheckers.MoveAccepted \<or>
        ev_actor e \<noteq> rq_actor r) \<and>
     (case decodeAcceptedChineseCheckersMove (ev_payload e) of
        None \<Rightarrow> False
      | Some m \<Rightarrow> \<not> (ac_path m \<noteq> as_path sem \<or> ac_color m \<noteq> color \<or> ac_user m \<noteq> rq_actor r))"

definition validateProducedFlightChess ::
  "event \<Rightarrow> snapshot \<Rightarrow> ActionRequest \<Rightarrow> actionSemantics \<Rightarrow> bytes \<Rightarrow> int \<Rightarrow> bool" where
  "validateProducedFlightChess e sn r sem color revision \<longleftrightarrow>
     \<not> (ev_revision e \<noteq> revision \<or> sn_revision sn \<noteq> revision \<or> ev_actor e \<noteq> rq_actor r) \<and>
     (if rq_type r = FlightChess.RollRequested then
        ev_type e = FlightChess.RollAccepted \<and>
        (case decodeAcceptedFlightChessRoll (ev_payload e) of
           None \<Rightarrow> False
         | Some v \<Rightarrow> FlightChess.ro_user v = rq_actor r \<and> FlightChess.ro_color v = color)
      else if rq_type r = FlightChess.MoveRequested then
        ev_type e = FlightChess.MoveAccepted \<and>
        (case decodeAcceptedFlightChessMove (ev_payload e) of
           None \<Rightarrow> False
         | Some v \<Rightarrow> FlightChess.mv_user v = rq_actor r \<and> FlightChess.mv_color v = color \<and>
             FlightChess.mv_piece v = as_piece sem)
      else False)"

definition validateProducedChoice ::
  "event \<Rightarrow> snapshot \<Rightarrow> ActionRequest \<Rightarrow> actionSemantics \<Rightarrow> int \<Rightarrow> bool" where
  "validateProducedChoice e sn r sem revision \<longleftrightarrow>
     \<not> (ev_revision e \<noteq> revision \<or> sn_revision sn \<noteq> revision \<or> ev_actor e \<noteq> rq_actor r) \<and>
     (if ev_type e = Rps.ChoiceLocked then
        (case decodeRpsLocked (ev_payload e) of
           None \<Rightarrow> False
         | Some v \<Rightarrow> Rps.lk_user v = rq_actor r \<and> Rps.lk_choice v = as_choice sem)
      else if ev_type e = Rps.RoundRevealed then
        (case decodeRpsReveal (ev_payload e) of
           None \<Rightarrow> False
         | Some v \<Rightarrow> revealed_choice v (rq_actor r) = as_choice sem)
      else False)"

subsection \<open>Redeemed transfers\<close>

text \<open>The part of a redeemed transfer (\<open>server/internal/auth/transfer.go\<close>) that concerns the service.\<close>

definition revokeUserCredentials :: "int \<Rightarrow> bytes \<Rightarrow> db \<Rightarrow> db" where
  "revokeUserCredentials now user db =
     db\<lparr>d_tokens := map (\<lambda>k. if k_user k = user \<and> k_revoked k = None then k\<lparr>k_revoked := Some (i64 (now * 1000))\<rparr> else k)
          (d_tokens db),
        d_tickets := filter (\<lambda>t. t_user t \<noteq> user) (d_tickets db)\<rparr>"

end
