(* ===== verification/MatchLog.thy ===== *)
theory MatchLog
  imports Matches
begin

text \<open>
  Reading a match back (\<open>server/internal/matches/service.go\<close>): the row and its players, the
  persisted events, the rebuilding of the game from them by the rule engine, and the checks that
  the row, the events, the game and the table of active slots agree. Everything that does not
  agree is an internal error. \<open>flt\<close> says which statements fail for reasons outside the model
  (disk, lock, cancelled request); every such failure is an internal error here.
\<close>

datatype match_stmt =
    Q_Begin | Q_Match | Q_Players | Q_Events | Q_Slots | Q_User | Q_Ticket | Q_Token | Q_Action | Q_Limit
  | Q_Offline | Q_Gameplay | Q_Previous | Q_Expired | Q_Membership | Q_Commit
  | X_Match | X_Player | X_Slot | X_Event | X_Ticket | X_Token | X_Limit
  | U_Match | U_Ticket | U_Token | D_Slots | D_Tickets | D_Tokens

type_synonym faults = "match_stmt \<Rightarrow> bool"

definition run :: "faults \<Rightarrow> match_stmt \<Rightarrow> 'a \<Rightarrow> match_error + 'a" where
  "run flt s x = (if flt s then Inl ErrInternal else Inr x)"

record service =
  sv_games :: registry
  sv_parse :: uuid_parser
  sv_ucd :: ucd
  sv_pepper :: bytes

record match_snapshot =
  ms_match :: match_row
  ms_players :: "player_row list"
  ms_game :: snapshot

subsection \<open>Configured rules\<close>

text \<open>\<open>json.Compact\<close>: valid JSON without the spaces between its tokens.\<close>

fun strip_spaces :: "bool \<Rightarrow> bytes \<Rightarrow> bytes" where
  "strip_spaces quoted [] = []"
| "strip_spaces quoted (c # s) =
     (if quoted then
        (if c = BSL then (case s of [] \<Rightarrow> [c] | d # r \<Rightarrow> c # d # strip_spaces True r)
         else c # strip_spaces (c \<noteq> DQ) s)
      else if is_ws c then strip_spaces False s
      else c # strip_spaces (c = DQ) s)"

definition json_compact :: "bytes \<Rightarrow> bytes option" where
  "json_compact data = (if json_parse data = None then None else Some (strip_spaces False data))"

definition configureRules :: "rules \<Rightarrow> bytes \<Rightarrow> (rules \<times> bytes) option" where
  "configureRules template config =
     (if ru_configure template = None then (if length config \<noteq> 0 then None else Some (template, ''''))
      else if length config = 0 \<or> length config > 1024 \<or> \<not> utf8_valid config then None
      else case json_compact config of
        None \<Rightarrow> None
      | Some normal \<Rightarrow>
          (case rules_Configure template normal of
             Some (Inr configured) \<Rightarrow>
               if ru_game configured \<noteq> ru_game template \<or> ru_limit configured \<noteq> ru_limit template then None
               else Some (configured, normal)
           | _ \<Rightarrow> None))"

definition rulesForMatch :: "rules \<Rightarrow> match_row \<Rightarrow> match_error + rules" where
  "rulesForMatch template m =
     (case configureRules template (valueOrEmpty (m_config m)) of
        None \<Rightarrow> Inl ErrInternal
      | Some (r, _) \<Rightarrow> Inr r)"

definition nullableJSON :: "bytes \<Rightarrow> bytes option" where
  "nullableJSON v = (if length v = 0 then None else Some v)"

subsection \<open>The row and its players\<close>

definition valid_players :: "player_row list \<Rightarrow> bool" where
  "valid_players ps \<longleftrightarrow>
     (case ps of
        [p, q] \<Rightarrow>
          \<not> (p_seat p \<noteq> 0 \<or> p_seat q \<noteq> 1 \<or> p_user p = p_user q \<or> \<not> validIdentifier (p_user p) \<or>
             \<not> validIdentifier (p_user q) \<or> p_color p = p_color q \<or>
             (p_color p \<noteq> ColorBlack \<and> p_color p \<noteq> ColorWhite) \<or>
             (p_color q \<noteq> ColorBlack \<and> p_color q \<noteq> ColorWhite))
      | _ \<Rightarrow> False)"

definition find_match :: "db \<Rightarrow> bytes \<Rightarrow> match_row option" where
  "find_match db i = find (\<lambda>m. m_id m = i) (d_matches db)"

definition players_of :: "db \<Rightarrow> bytes \<Rightarrow> player_row list" where
  "players_of db i = sort_key p_seat (filter (\<lambda>p. p_match p = i) (d_players db))"

definition loadMatchAndPlayers ::
  "service \<Rightarrow> faults \<Rightarrow> db \<Rightarrow> bytes \<Rightarrow> match_error + match_row \<times> player_row list" where
  "loadMatchAndPlayers sv flt db i =
     and_then (run flt Q_Match (find_match db i)) (\<lambda>row. case row of
       None \<Rightarrow> Inl ErrMatchNotFound
     | Some m \<Rightarrow>
         if \<not> canonicalUUID (sv_parse sv) i \<or> m_game m = '''' \<or> m_revision m < 0 \<or> m_created m > m_updated m
         then Inl ErrInternal
         else and_then (run flt Q_Players (players_of db i)) (\<lambda>ps.
           if \<not> valid_players ps then Inl ErrInternal else Inr (m, ps)))"

definition readTwoMatchPlayers :: "faults \<Rightarrow> db \<Rightarrow> bytes \<Rightarrow> match_error + bytes \<times> bytes" where
  "readTwoMatchPlayers flt db i =
     and_then (run flt Q_Players (map p_user (players_of db i))) (\<lambda>us.
       case us of [a, b] \<Rightarrow> if a = b then Inl ErrInternal else Inr (a, b) | _ \<Rightarrow> Inl ErrInternal)"

definition player_ids :: "player_row list \<Rightarrow> bytes \<times> bytes" where
  "player_ids ps = (p_user (ps ! 0), p_user (ps ! 1))"

subsection \<open>Active slots\<close>

fun slot_loop :: "bytes \<Rightarrow> bytes \<Rightarrow> bytes \<times> bytes \<Rightarrow> bytes list \<Rightarrow> slot_row list \<Rightarrow> bytes list option" where
  "slot_loop g i users seen [] = Some seen"
| "slot_loop g i users seen (s # ss) =
     (if (s_user s \<noteq> fst users \<and> s_user s \<noteq> snd users) \<or> s_user s \<in> set seen \<or> s_game s \<noteq> g \<or> s_match s \<noteq> i
      then None else slot_loop g i users (seen @ [s_user s]) ss)"

definition slots_of :: "db \<Rightarrow> bytes \<Rightarrow> slot_row list" where
  "slots_of db i = filter (\<lambda>s. s_match s = i) (d_slots db)"

definition slots_complete :: "db \<Rightarrow> bytes \<Rightarrow> bytes \<Rightarrow> bytes \<times> bytes \<Rightarrow> bool \<Rightarrow> bool" where
  "slots_complete db g i users single \<longleftrightarrow>
     (if \<not> single then length (slots_of db i) = 0
      else length (slots_of db i) = 2 \<and>
        (case slot_loop g i users [] (slots_of db i) of
           None \<Rightarrow> False
         | Some seen \<Rightarrow> fst users \<in> set seen \<and> snd users \<in> set seen))"

definition validateCompleteActiveSlotSet ::
  "faults \<Rightarrow> db \<Rightarrow> bytes \<Rightarrow> bytes \<Rightarrow> bytes \<times> bytes \<Rightarrow> bool \<Rightarrow> match_error + unit" where
  "validateCompleteActiveSlotSet flt db g i users single =
     and_then (run flt Q_Slots ()) (\<lambda>_. if slots_complete db g i users single then Inr () else Inl ErrInternal)"

subsection \<open>The events\<close>

definition maximumMatchEventsFor :: "bytes \<Rightarrow> int" where
  "maximumMatchEventsFor g = (if g = FlightChess.GameID then maximumFlightChessEvents else maximumMatchEvents)"

definition events_of :: "db \<Rightarrow> bytes \<Rightarrow> event_row list" where
  "events_of db i = sort_key e_revision (filter (\<lambda>e. e_match e = i) (d_events db))"

definition readMatchEvents :: "faults \<Rightarrow> db \<Rightarrow> bytes \<Rightarrow> int \<Rightarrow> match_error + event_row list" where
  "readMatchEvents flt db i limit =
     and_then (run flt Q_Events (events_of db i)) (\<lambda>es.
       if int (length es) > limit + 1 then Inl ErrInternal else Inr es)"

definition canonical_action :: "uuid_parser \<Rightarrow> event_row \<Rightarrow> bool" where
  "canonical_action parse e \<longleftrightarrow> (case e_action e of None \<Rightarrow> False | Some a \<Rightarrow> canonicalUUID parse a)"

text \<open>The last event of a match that ended without a winning move.\<close>

definition resignation_ok :: "player_row list \<Rightarrow> event_row \<Rightarrow> bool" where
  "resignation_ok ps e \<longleftrightarrow>
     (case e_actor e of
        None \<Rightarrow> False
      | Some a \<Rightarrow>
          (case actionPlayers ps a of
             None \<Rightarrow> False
           | Some (actor, opponent) \<Rightarrow>
               (case decodeResignedPayload (e_payload e) of
                  None \<Rightarrow> False
                | Some r \<Rightarrow> rs_user r = p_user actor \<and> rs_winner r = p_user opponent)))"

definition terminal_ok ::
  "uuid_parser \<Rightarrow> player_row list \<Rightarrow> bytes list \<Rightarrow> bool \<Rightarrow> event list \<Rightarrow> event_row \<Rightarrow> bool" where
  "terminal_ok parse ps resigned is_last accepted e \<longleftrightarrow>
     (if e_type e \<in> set resigned then is_last \<and> canonical_action parse e \<and> resignation_ok ps e
      else if e_type e = TypeCancelled then
        is_last \<and> accepted = [] \<and> e_action e = None \<and>
        (case e_actor e of None \<Rightarrow> False | Some a \<Rightarrow> playerMember ps a) \<and> isStrictEmptyObject (e_payload e)
      else if e_type e = TypeAbandoned then
        is_last \<and> e_action e = None \<and> e_actor e = None \<and> isStrictEmptyObject (e_payload e)
      else False)"

text \<open>
  The loop over the events. \<open>gameplay\<close> recognises the accepted moves of the game, and says of a
  move whether its payload, its actor and its place in the log are right.
\<close>

type_synonym gameplay = "event list \<Rightarrow> event_row \<Rightarrow> bool option"

definition game_event :: "event_row \<Rightarrow> event" where
  "game_event e = \<lparr>ev_revision = e_revision e, ev_type = e_type e, ev_actor = valueOrEmpty (e_actor e),
     ev_payload = e_payload e\<rparr>"

fun read_log ::
  "uuid_parser \<Rightarrow> player_row list \<Rightarrow> bytes \<Rightarrow> bytes list \<Rightarrow> gameplay \<Rightarrow> int \<Rightarrow> event list \<Rightarrow> bytes \<Rightarrow>
   event_row list \<Rightarrow> (event list \<times> bytes) option" where
  "read_log parse ps i resigned gameplay n accepted terminal [] = Some (accepted, terminal)"
| "read_log parse ps i resigned gameplay n accepted terminal (e # es) =
     (if e_revision e \<noteq> n + 1 \<or> e_match e \<noteq> i then None
      else case gameplay accepted e of
        Some ok \<Rightarrow>
          if terminal \<noteq> '''' \<or> \<not> canonical_action parse e \<or> e_actor e = None \<or> \<not> ok then None
          else read_log parse ps i resigned gameplay (n + 1) (accepted @ [game_event e]) terminal es
      | None \<Rightarrow>
          if terminal_ok parse ps resigned (es = []) accepted e
          then read_log parse ps i resigned gameplay (n + 1) accepted (e_type e) es
          else None)"

text \<open>Gomoku and Reversi.\<close>

definition board_gameplay :: "bytes \<Rightarrow> player_row \<Rightarrow> player_row \<Rightarrow> gameplay" where
  "board_gameplay g black white accepted e =
     (if e_type e = Gomoku.MoveAccepted \<or> e_type e = Reversi.MoveAccepted then
        Some (case decodeAcceptedMove (e_payload e) of
            None \<Rightarrow> False
          | Some m \<Rightarrow>
              let expected =
                (if g = Reversi.GameID then (if am_color m = ''white'' then white else black)
                 else if length accepted mod 2 = 1 then white else black) in
              Some (am_user m) = e_actor e \<and>
              (g = Reversi.GameID \<longrightarrow> e_type e = Reversi.MoveAccepted) \<and>
              (g = Gomoku.GameID \<longrightarrow> e_type e = Gomoku.MoveAccepted) \<and>
              Some (p_user expected) = e_actor e \<and> p_color expected = am_color m)
      else None)"

definition checkers_gameplay :: "player_row \<Rightarrow> player_row \<Rightarrow> gameplay" where
  "checkers_gameplay black white accepted e =
     (if e_type e = ChineseCheckers.MoveAccepted then
        Some (case decodeAcceptedChineseCheckersMove (e_payload e) of
            None \<Rightarrow> False
          | Some m \<Rightarrow>
              let expected = (if length accepted mod 2 = 1 then white else black) in
              Some (ac_user m) = e_actor e \<and> Some (p_user expected) = e_actor e \<and>
              p_color expected = ac_color m)
      else None)"

text \<open>A member of the match, with the colour that the payload names.\<close>

definition member_color :: "player_row list \<Rightarrow> bytes \<Rightarrow> bytes \<Rightarrow> bool" where
  "member_color ps user color \<longleftrightarrow>
     (case actionPlayers ps user of None \<Rightarrow> False | Some (actor, _) \<Rightarrow> color = p_color actor)"

definition flight_gameplay :: "player_row list \<Rightarrow> gameplay" where
  "flight_gameplay ps accepted e =
     (if e_type e = FlightChess.RollAccepted then
        Some (case decodeAcceptedFlightChessRoll (e_payload e) of
            None \<Rightarrow> False
          | Some v \<Rightarrow> Some (FlightChess.ro_user v) = e_actor e \<and>
              member_color ps (FlightChess.ro_user v) (FlightChess.ro_color v))
      else if e_type e = FlightChess.MoveAccepted then
        Some (case decodeAcceptedFlightChessMove (e_payload e) of
            None \<Rightarrow> False
          | Some v \<Rightarrow> Some (FlightChess.mv_user v) = e_actor e \<and>
              member_color ps (FlightChess.mv_user v) (FlightChess.mv_color v))
      else None)"

definition rps_gameplay :: "player_row list \<Rightarrow> gameplay" where
  "rps_gameplay ps accepted e =
     (let member = (case e_actor e of None \<Rightarrow> False | Some a \<Rightarrow> playerMember ps a) in
      if e_type e = Rps.ChoiceLocked then
        Some (member \<and> (case decodeRpsLocked (e_payload e) of
            None \<Rightarrow> False | Some v \<Rightarrow> Some (Rps.lk_user v) = e_actor e))
      else if e_type e = Rps.RoundRevealed then
        Some (member \<and> (case decodeRpsReveal (e_payload e) of
            None \<Rightarrow> False | Some v \<Rightarrow> revealed_choice v (valueOrEmpty (e_actor e)) \<noteq> ''''))
      else None)"

subsection \<open>The life of a match\<close>

definition agreed_winner :: "match_row \<Rightarrow> gameStateSummary \<Rightarrow> player_row list \<Rightarrow> bool" where
  "agreed_winner m game ps \<longleftrightarrow>
     (case (m_winner m, gs_winner game) of
        (Some w, Some v) \<Rightarrow> w = v \<and> playerMember ps w
      | _ \<Rightarrow> False)"

definition open_game :: "gameStateSummary \<Rightarrow> bool" where
  "open_game game \<longleftrightarrow> gs_status game = StatusActive \<and> gs_result game = None \<and> gs_winner game = None"

definition resigned_for :: "bytes \<Rightarrow> bytes" where
  "resigned_for g =
     (if g = ChineseCheckers.GameID then CheckersResigned
      else if g = FlightChess.GameID then FlightResigned
      else resignedEventType g)"

definition finished_lifecycle ::
  "match_row \<Rightarrow> gameStateSummary \<Rightarrow> bytes \<Rightarrow> player_row list \<Rightarrow> event_row list \<Rightarrow> bytes \<Rightarrow> bool" where
  "finished_lifecycle m game terminal ps events res \<longleftrightarrow>
     (if res = ResultFive \<or> res = ResultMajority then
        terminal = '''' \<and> gs_status game = StatusFinished \<and> gs_result game = Some res \<and>
        (res \<noteq> ResultMajority \<or> m_game m = Reversi.GameID) \<and> agreed_winner m game ps
      else if res = ResultGoal then
        (m_game m = ChineseCheckers.GameID \<or> m_game m = FlightChess.GameID) \<and> terminal = '''' \<and>
        gs_status game = StatusFinished \<and> gs_result game = Some ResultGoal \<and> agreed_winner m game ps
      else if res = ResultDraw then
        terminal = '''' \<and> gs_status game = StatusFinished \<and> gs_result game = Some ResultDraw \<and>
        m_winner m = None \<and> gs_winner game = None
      else if res = ResultResignation then
        terminal = resigned_for (m_game m) \<and> open_game game \<and> events \<noteq> [] \<and>
        (case m_winner m of
           None \<Rightarrow> False
         | Some w \<Rightarrow> playerMember ps w \<and>
             (case decodeResignedPayload (e_payload (last events)) of
                None \<Rightarrow> False
              | Some r \<Rightarrow> rs_winner r = w))
      else False)"

definition validateLifecycle ::
  "match_row \<Rightarrow> gameStateSummary \<Rightarrow> bytes \<Rightarrow> player_row list \<Rightarrow> event_row list \<Rightarrow> bool" where
  "validateLifecycle m game terminal ps events \<longleftrightarrow>
     m_revision m \<le> maximumMatchEventsFor (m_game m) \<and>
     (if m_status m = StatusActive then
        terminal = '''' \<and> m_result m = None \<and> m_winner m = None \<and> m_finished m = None \<and> open_game game
      else if m_status m = StatusFinished then
        m_finished m \<noteq> None \<and> terminal \<noteq> TypeCancelled \<and> terminal \<noteq> TypeAbandoned \<and>
        (case m_result m of None \<Rightarrow> False | Some res \<Rightarrow> finished_lifecycle m game terminal ps events res)
      else if m_status m = StatusCancelled then
        terminal = TypeCancelled \<and> m_finished m \<noteq> None \<and> m_result m = None \<and> m_winner m = None \<and> open_game game
      else if m_status m = StatusAbandoned then
        terminal = TypeAbandoned \<and> m_finished m \<noteq> None \<and> m_result m = None \<and> m_winner m = None \<and> open_game game
      else False)"

text \<open>The checks of \<open>rebuildRpsSnapshot\<close>, which are slightly weaker.\<close>

definition rps_lifecycle :: "match_row \<Rightarrow> gameStateSummary \<Rightarrow> bytes \<Rightarrow> player_row list \<Rightarrow> bool" where
  "rps_lifecycle m game terminal ps \<longleftrightarrow>
     (if m_status m = StatusActive then
        terminal = '''' \<and> m_result m = None \<and> m_winner m = None \<and> m_finished m = None \<and> open_game game
      else if m_status m = StatusFinished then
        m_finished m \<noteq> None \<and>
        (case m_result m of
           None \<Rightarrow> False
         | Some res \<Rightarrow>
             if res = ResultRounds then
               terminal = '''' \<and> gs_status game = StatusFinished \<and> gs_result game = Some ResultRounds \<and>
               agreed_winner m game ps
             else if res = ResultResignation then
               terminal = RpsResigned \<and> open_game game \<and>
               (case m_winner m of None \<Rightarrow> False | Some w \<Rightarrow> playerMember ps w)
             else False)
      else if m_status m = StatusCancelled then
        terminal = TypeCancelled \<and> m_finished m \<noteq> None \<and> m_result m = None \<and> m_winner m = None \<and>
        gs_status game = StatusActive
      else if m_status m = StatusAbandoned then
        terminal = TypeAbandoned \<and> m_finished m \<noteq> None \<and> m_result m = None \<and> m_winner m = None \<and>
        gs_status game = StatusActive
      else False)"

subsection \<open>Rebuilding\<close>

text \<open>The seats of a game in which the players alternate: black moves first, white second.\<close>

definition seats_agree :: "bool \<Rightarrow> player_row \<Rightarrow> player_row \<Rightarrow> nat \<Rightarrow> gameStateSummary \<Rightarrow> bool" where
  "seats_agree alternate black white n game \<longleftrightarrow>
     (if n = 0 then gs_black game = None \<and> gs_white game = None \<and> gs_next game = ColorBlack
      else
        gs_black game = Some (p_user black) \<and>
        (if n \<ge> 2 then gs_white game = Some (p_user white) else gs_white game = None) \<and>
        (alternate \<longrightarrow> gs_next game = (if n mod 2 = 1 then ColorWhite else ColorBlack)))"

definition flight_seats_agree :: "player_row \<Rightarrow> player_row \<Rightarrow> nat \<Rightarrow> gameStateSummary \<Rightarrow> bool" where
  "flight_seats_agree black white n game \<longleftrightarrow>
     (gs_next game = ColorBlack \<or> gs_next game = ColorWhite) \<and>
     (if n = 0 then gs_black game = None \<and> gs_white game = None \<and> gs_next game = ColorBlack
      else gs_black game = Some (p_user black)) \<and>
     (case gs_white game of None \<Rightarrow> True | Some w \<Rightarrow> w = p_user white)"

text \<open>
  What the four functions have in common after the loop: the game is rebuilt, has one revision per
  accepted event, its summary agrees with the seats and the row, and the slots are those expected.
\<close>

definition finish_rebuild ::
  "faults \<Rightarrow> db \<Rightarrow> match_row \<Rightarrow> player_row list \<Rightarrow> rules \<Rightarrow> (event list \<times> bytes) option \<Rightarrow>
   (nat \<Rightarrow> gameStateSummary \<Rightarrow> bytes \<Rightarrow> bool) \<Rightarrow> match_error + match_snapshot" where
  "finish_rebuild flt db m ps r logs agree =
     (case logs of
        None \<Rightarrow> Inl ErrInternal
      | Some (accepted, terminal) \<Rightarrow>
          (case rules_Rebuild r accepted of
             Inl _ \<Rightarrow> Inl ErrInternal
           | Inr game \<Rightarrow>
               if sn_revision game \<noteq> int (length accepted) then Inl ErrInternal
               else case readGameStateSummary game of
                 None \<Rightarrow> Inl ErrInternal
               | Some summary \<Rightarrow>
                   if \<not> agree (length accepted) summary terminal then Inl ErrInternal
                   else and_then (validateCompleteActiveSlotSet flt db (m_game m) (m_id m) (player_ids ps)
                       (m_status m = StatusActive \<and> singleActiveMatch r))
                     (\<lambda>_. Inr \<lparr>ms_match = m, ms_players = ps, ms_game = game\<rparr>)))"

definition rebuildRpsSnapshot ::
  "service \<Rightarrow> faults \<Rightarrow> db \<Rightarrow> match_row \<Rightarrow> player_row list \<Rightarrow> rules \<Rightarrow> event_row list \<Rightarrow>
   match_error + match_snapshot" where
  "rebuildRpsSnapshot sv flt db m ps r events =
     finish_rebuild flt db m ps r
       (read_log (sv_parse sv) ps (m_id m) [RpsResigned] (rps_gameplay ps) 0 [] '''' events)
       (\<lambda>n summary terminal. rps_lifecycle m summary terminal ps)"

definition rebuildFlightChessSnapshot ::
  "service \<Rightarrow> faults \<Rightarrow> db \<Rightarrow> match_row \<Rightarrow> player_row list \<Rightarrow> rules \<Rightarrow> event_row list \<Rightarrow>
   match_error + match_snapshot" where
  "rebuildFlightChessSnapshot sv flt db m ps r events =
     (case coloredPlayers ps of
        None \<Rightarrow> Inl ErrInternal
      | Some (black, white) \<Rightarrow>
          finish_rebuild flt db m ps r
            (read_log (sv_parse sv) ps (m_id m) [FlightResigned] (flight_gameplay ps) 0 [] '''' events)
            (\<lambda>n summary terminal. flight_seats_agree black white n summary \<and>
               validateLifecycle m summary terminal ps events))"

definition rebuildChineseCheckersSnapshot ::
  "service \<Rightarrow> faults \<Rightarrow> db \<Rightarrow> match_row \<Rightarrow> player_row list \<Rightarrow> rules \<Rightarrow> event_row list \<Rightarrow>
   match_error + match_snapshot" where
  "rebuildChineseCheckersSnapshot sv flt db m ps r events =
     (case coloredPlayers ps of
        None \<Rightarrow> Inl ErrInternal
      | Some (black, white) \<Rightarrow>
          finish_rebuild flt db m ps r
            (read_log (sv_parse sv) ps (m_id m) [CheckersResigned] (checkers_gameplay black white) 0 [] '''' events)
            (\<lambda>n summary terminal. seats_agree True black white n summary \<and>
               validateLifecycle m summary terminal ps events))"

definition rebuildBoardSnapshot ::
  "service \<Rightarrow> faults \<Rightarrow> db \<Rightarrow> match_row \<Rightarrow> player_row list \<Rightarrow> rules \<Rightarrow> event_row list \<Rightarrow>
   match_error + match_snapshot" where
  "rebuildBoardSnapshot sv flt db m ps r events =
     (case coloredPlayers ps of
        None \<Rightarrow> Inl ErrInternal
      | Some (black, white) \<Rightarrow>
          finish_rebuild flt db m ps r
            (read_log (sv_parse sv) ps (m_id m) [GomokuResigned, ReversiResigned]
              (board_gameplay (m_game m) black white) 0 [] '''' events)
            (\<lambda>n summary terminal. seats_agree (m_game m = Gomoku.GameID) black white n summary \<and>
               validateLifecycle m summary terminal ps events))"

definition rebuildSnapshot ::
  "service \<Rightarrow> faults \<Rightarrow> db \<Rightarrow> match_row \<Rightarrow> player_row list \<Rightarrow> match_error + match_snapshot" where
  "rebuildSnapshot sv flt db m ps =
     (case Lookup (sv_games sv) (m_game m) of
        None \<Rightarrow> Inl ErrInternal
      | Some template \<Rightarrow>
          if ru_limit template \<noteq> 2 then Inl ErrInternal
          else and_then (rulesForMatch template m) (\<lambda>r.
            let limit = maximumMatchEventsFor (m_game m) in
            and_then (readMatchEvents flt db (m_id m) limit) (\<lambda>events.
              if m_revision m \<noteq> int (length events) \<or> int (length events) > limit then Inl ErrInternal
              else if m_game m = Rps.GameID then rebuildRpsSnapshot sv flt db m ps r events
              else if m_game m = ChineseCheckers.GameID then rebuildChineseCheckersSnapshot sv flt db m ps r events
              else if m_game m = FlightChess.GameID then rebuildFlightChessSnapshot sv flt db m ps r events
              else if m_game m \<noteq> Gomoku.GameID \<and> m_game m \<noteq> Reversi.GameID then Inl ErrInternal
              else rebuildBoardSnapshot sv flt db m ps r events)))"

end
