(* ===== verification/MatchService.thy ===== *)
theory MatchService
  imports MatchLog "HOL-Library.Product_Lexorder"
begin

text \<open>
  The operations of the match service but \<open>ApplyAction\<close>
  (\<open>server/internal/matches/service.go\<close>): creating, cancelling and abandoning matches, the
  presence timer, launch tickets and connection credentials, and the lobby queries. An operation
  that writes is one transaction, a function from the database to an error or a result with the
  new database, so that an error rolls back. Constraints of the schema that a statement can
  violate are checked where it runs. \<open>now\<close>, \<open>random\<close> and \<open>fresh\<close> are the values of the clock, the
  random source and \<open>uuid.NewRandom\<close>; \<open>ctx\<close> is the identity of the request.
\<close>

subsection \<open>Statements\<close>

definition beginWriteTransaction :: "faults \<Rightarrow> identity option \<Rightarrow> db \<Rightarrow> match_error + unit" where
  "beginWriteTransaction flt ctx db =
     (if flt Q_Begin then Inl ErrInternal
      else if \<not> GuardTransaction ctx (d_users db) then Inl ErrUnauthorized
      else Inr ())"

definition find_user :: "db \<Rightarrow> bytes \<Rightarrow> user option" where
  "find_user db i = find (\<lambda>u. us_id u = i) (d_users db)"

text \<open>\<open>enabledUser\<close>, with both ways a user is not usable as the same error.\<close>

definition enabledUser :: "faults \<Rightarrow> db \<Rightarrow> bytes \<Rightarrow> match_error + unit" where
  "enabledUser flt db i =
     and_then (run flt Q_User (find_user db i)) (\<lambda>row. case row of
       None \<Rightarrow> Inl ErrInvalidRequest
     | Some u \<Rightarrow> if us_enabled u = 1 then Inr () else Inl ErrInvalidRequest)"

definition insert_match :: "faults \<Rightarrow> match_row \<Rightarrow> db \<Rightarrow> match_error + db" where
  "insert_match flt m db =
     (if flt X_Match \<or> find_match db (m_id m) \<noteq> None then Inl ErrInternal
      else Inr (db\<lparr>d_matches := d_matches db @ [m]\<rparr>))"

definition insert_player :: "faults \<Rightarrow> player_row \<Rightarrow> db \<Rightarrow> match_error + db" where
  "insert_player flt p db =
     (if flt X_Player \<or> find_match db (p_match p) = None \<or> find_user db (p_user p) = None \<or>
         list_ex (\<lambda>q. p_match q = p_match p \<and>
           (p_user q = p_user p \<or> p_seat q = p_seat p \<or> p_color q = p_color p)) (d_players db)
      then Inl ErrInternal
      else Inr (db\<lparr>d_players := d_players db @ [p]\<rparr>))"

text \<open>A taken slot is the conflict that \<open>isActiveSlotConflict\<close> recognises.\<close>

definition insert_slot :: "faults \<Rightarrow> match_error \<Rightarrow> slot_row \<Rightarrow> db \<Rightarrow> match_error + db" where
  "insert_slot flt conflict s db =
     (if flt X_Slot then Inl ErrInternal
      else if list_ex (\<lambda>r. s_game r = s_game s \<and> s_user r = s_user s) (d_slots db) then Inl conflict
      else if find_match db (s_match s) = None \<or> find_user db (s_user s) = None then Inl ErrInternal
      else Inr (db\<lparr>d_slots := d_slots db @ [s]\<rparr>))"

definition insert_event :: "faults \<Rightarrow> event_row \<Rightarrow> db \<Rightarrow> match_error + db" where
  "insert_event flt e db =
     (if flt X_Event \<or> find_match db (e_match e) = None \<or>
         (case e_actor e of None \<Rightarrow> False | Some u \<Rightarrow> find_user db u = None) \<or>
         list_ex (\<lambda>r. e_match r = e_match e \<and>
           (e_revision r = e_revision e \<or>
            e_actor r \<noteq> None \<and> e_actor r = e_actor e \<and> e_action r \<noteq> None \<and> e_action r = e_action e)) (d_events db)
      then Inl ErrInternal
      else Inr (db\<lparr>d_events := d_events db @ [e]\<rparr>))"

text \<open>An update of the match rows that satisfy \<open>P\<close>, of which there must be exactly one.\<close>

definition update_one_match ::
  "faults \<Rightarrow> (match_row \<Rightarrow> bool) \<Rightarrow> (match_row \<Rightarrow> match_row) \<Rightarrow> db \<Rightarrow> match_error + db" where
  "update_one_match flt P f db =
     (if flt U_Match \<or> length (filter P (d_matches db)) \<noteq> 1 then Inl ErrInternal
      else Inr (db\<lparr>d_matches := map (\<lambda>m. if P m then f m else m) (d_matches db)\<rparr>))"

text \<open>The slots of both players of a match, and how many of them there must be.\<close>

definition delete_slots :: "faults \<Rightarrow> bytes \<Rightarrow> bytes \<Rightarrow> bytes \<times> bytes \<Rightarrow> bool \<Rightarrow> db \<Rightarrow> match_error + db" where
  "delete_slots flt g i users single db =
     (let hit = (\<lambda>s. s_game s = g \<and> s_match s = i \<and> (s_user s = fst users \<or> s_user s = snd users)) in
      if flt D_Slots \<or> length (filter hit (d_slots db)) \<noteq> (if single then 2 else 0) then Inl ErrInternal
      else Inr (db\<lparr>d_slots := filter (\<lambda>s. \<not> hit s) (d_slots db)\<rparr>))"

definition deleteMatchCredentials :: "service \<Rightarrow> faults \<Rightarrow> bytes \<Rightarrow> db \<Rightarrow> match_error + db" where
  "deleteMatchCredentials sv flt i db =
     (if \<not> canonicalUUID (sv_parse sv) i \<or> flt D_Tickets \<or> flt D_Tokens then Inl ErrInternal
      else Inr (db\<lparr>d_tickets := filter (\<lambda>t. t_match t \<noteq> i) (d_tickets db),
                   d_tokens := filter (\<lambda>k. k_match k \<noteq> i) (d_tokens db)\<rparr>))"

definition commit :: "faults \<Rightarrow> 'a \<Rightarrow> db \<Rightarrow> match_error + 'a \<times> db" where
  "commit flt x db = run flt Q_Commit (x, db)"

subsection \<open>Creating a match\<close>

definition randomColors :: "nat list \<Rightarrow> (bytes \<times> bytes) option" where
  "randomColors random =
     (case random of
        [] \<Rightarrow> None
      | b # _ \<Rightarrow> Some (if b mod 2 = 0 then (ColorBlack, ColorWhite) else (ColorWhite, ColorBlack)))"

definition new_match :: "bytes \<Rightarrow> bytes \<Rightarrow> bytes \<Rightarrow> int \<Rightarrow> match_row" where
  "new_match i g config now =
     \<lparr>m_id = i, m_game = g, m_status = StatusActive, m_revision = 0, m_offline = None, m_result = None,
      m_winner = None, m_config = nullableJSON config, m_created = now, m_updated = now, m_finished = None\<rparr>"

definition CreateWithConfig ::
  "service \<Rightarrow> faults \<Rightarrow> identity option \<Rightarrow> int \<Rightarrow> nat list \<Rightarrow> bytes option \<Rightarrow> bytes \<Rightarrow> bytes \<Rightarrow> bytes \<Rightarrow> bytes \<Rightarrow>
   db \<Rightarrow> match_error + match_row \<times> db" where
  "CreateWithConfig sv flt ctx now random fresh g initiator opponent config db =
     (if \<not> validIdentifier initiator \<or> \<not> validIdentifier opponent \<or> initiator = opponent then Inl ErrInvalidRequest
      else case Lookup (sv_games sv) g of
        None \<Rightarrow> Inl ErrInvalidRequest
      | Some template \<Rightarrow>
          if ru_limit template \<noteq> 2 then Inl ErrInvalidRequest
          else case configureRules template config of
            None \<Rightarrow> Inl ErrInvalidRequest
          | Some (r, normal) \<Rightarrow>
              and_then (beginWriteTransaction flt ctx db) (\<lambda>_.
              and_then (enabledUser flt db initiator) (\<lambda>_.
              and_then (enabledUser flt db opponent) (\<lambda>_.
              and_then (or_fail (randomColors random) ErrInternal) (\<lambda>colors.
              and_then (or_fail fresh ErrInternal) (\<lambda>i.
              and_then (insert_match flt (new_match i g normal now) db) (\<lambda>db.
              and_then (insert_player flt
                  \<lparr>p_match = i, p_user = initiator, p_seat = 0, p_color = fst colors\<rparr> db) (\<lambda>db.
              and_then (insert_player flt
                  \<lparr>p_match = i, p_user = opponent, p_seat = 1, p_color = snd colors\<rparr> db) (\<lambda>db.
              and_then
                (if singleActiveMatch r then
                   and_then (insert_slot flt ErrActiveMatchExists
                       \<lparr>s_game = g, s_user = initiator, s_match = i\<rparr> db)
                     (insert_slot flt ErrOpponentBusy \<lparr>s_game = g, s_user = opponent, s_match = i\<rparr>)
                 else Inr db) (\<lambda>db.
              commit flt (new_match i g normal now) db))))))))))"

definition Create ::
  "service \<Rightarrow> faults \<Rightarrow> identity option \<Rightarrow> int \<Rightarrow> nat list \<Rightarrow> bytes option \<Rightarrow> bytes \<Rightarrow> bytes \<Rightarrow> bytes \<Rightarrow>
   db \<Rightarrow> match_error + match_row \<times> db" where
  "Create sv flt ctx now random fresh g initiator opponent db =
     CreateWithConfig sv flt ctx now random fresh g initiator opponent '''' db"

subsection \<open>Ending a match without a game result\<close>

definition gameplay_types :: "bytes list" where
  "gameplay_types = [ChineseCheckers.MoveAccepted, Gomoku.MoveAccepted, Rps.ChoiceLocked, Rps.RoundRevealed,
     FlightChess.RollAccepted, FlightChess.MoveAccepted, Reversi.MoveAccepted]"

definition has_gameplay :: "db \<Rightarrow> bytes \<Rightarrow> bool" where
  "has_gameplay db i \<longleftrightarrow> list_ex (\<lambda>e. e_match e = i \<and> e_type e \<in> set gameplay_types) (d_events db)"

definition platform_event :: "bytes \<Rightarrow> int \<Rightarrow> bytes \<Rightarrow> bytes option \<Rightarrow> int \<Rightarrow> event_row" where
  "platform_event i revision t actor now =
     \<lparr>e_match = i, e_revision = revision, e_type = t, e_action = None, e_actor = actor,
      e_payload = cancelledPayloadJSON, e_created = now\<rparr>"

definition Cancel ::
  "service \<Rightarrow> faults \<Rightarrow> identity option \<Rightarrow> int \<Rightarrow> bytes \<Rightarrow> bytes \<Rightarrow> db \<Rightarrow> match_error + event_row \<times> db" where
  "Cancel sv flt ctx now i actor db =
     (if \<not> validIdentifier i \<or> \<not> validIdentifier actor then Inl ErrInvalidRequest
      else
        and_then (beginWriteTransaction flt ctx db) (\<lambda>_.
        and_then (run flt Q_Match (find_match db i)) (\<lambda>row. case row of
          None \<Rightarrow> Inl ErrMatchNotFound
        | Some m \<Rightarrow>
        and_then (readTwoMatchPlayers flt db i) (\<lambda>users.
          if actor \<noteq> fst users \<and> actor \<noteq> snd users then Inl ErrMatchNotCancellable
          else if m_status m \<noteq> StatusActive then Inl ErrMatchNotCancellable
          else
        and_then (run flt Q_Gameplay (has_gameplay db i)) (\<lambda>played.
          if played then Inl ErrMatchNotCancellable
          else case Lookup (sv_games sv) (m_game m) of
            None \<Rightarrow> Inl ErrInternal
          | Some r \<Rightarrow>
              if ru_limit r \<noteq> 2 then Inl ErrInternal
              else
        and_then (validateCompleteActiveSlotSet flt db (m_game m) i users (singleActiveMatch r)) (\<lambda>_.
          let revision = i64 (m_revision m + 1) in
          if revision \<le> 0 then Inl ErrInternal
          else
        and_then (insert_event flt (platform_event i revision TypeCancelled (Some actor) now) db) (\<lambda>db.
        and_then (update_one_match flt
            (\<lambda>n. m_id n = i \<and> m_status n = StatusActive \<and> m_revision n = m_revision m)
            (\<lambda>n. n\<lparr>m_status := StatusCancelled, m_revision := revision, m_updated := now,
              m_finished := Some now, m_winner := None, m_result := None\<rparr>) db) (\<lambda>db.
        and_then (delete_slots flt (m_game m) i users (singleActiveMatch r) db) (\<lambda>db.
        and_then (deleteMatchCredentials sv flt i db) (\<lambda>db.
        commit flt (platform_event i revision TypeCancelled (Some actor) now) db))))))))))"

definition Snapshot :: "service \<Rightarrow> faults \<Rightarrow> bytes \<Rightarrow> db \<Rightarrow> match_error + match_snapshot" where
  "Snapshot sv flt i db =
     (if \<not> validIdentifier i then Inl ErrInvalidRequest
      else if flt Q_Begin then Inl ErrInternal
      else
        and_then (loadMatchAndPlayers sv flt db i) (\<lambda>(m, ps).
        and_then (rebuildSnapshot sv flt db m ps) (\<lambda>snap. run flt Q_Commit snap)))"

text \<open>The timer of a match whose players are both offline.\<close>

definition setPlayerPresence ::
  "service \<Rightarrow> faults \<Rightarrow> identity option \<Rightarrow> int \<Rightarrow> bytes \<Rightarrow> bytes \<Rightarrow> bool \<Rightarrow> db \<Rightarrow> match_error + unit \<times> db" where
  "setPlayerPresence sv flt ctx now i user online db =
     (if \<not> canonicalUUID (sv_parse sv) i \<or> \<not> canonicalUUID (sv_parse sv) user then Inl ErrInvalidRequest
      else
        and_then (beginWriteTransaction flt ctx db) (\<lambda>_.
        and_then (loadMatchAndPlayers sv flt db i) (\<lambda>(m, ps).
          if user \<noteq> p_user (ps ! 0) \<and> user \<noteq> p_user (ps ! 1) then Inl ErrInvalidRequest
          else if m_status m \<noteq> StatusActive then commit flt () db
          else
        and_then (update_one_match flt (\<lambda>n. m_id n = i \<and> m_status n = StatusActive)
            (\<lambda>n. n\<lparr>m_offline := (if online then None
               else Some (case m_offline n of None \<Rightarrow> now | Some since \<Rightarrow> since))\<rparr>) db) (\<lambda>db.
        commit flt () db))))"

definition SetPlayerOnline ::
  "service \<Rightarrow> faults \<Rightarrow> identity option \<Rightarrow> int \<Rightarrow> bytes \<Rightarrow> bytes \<Rightarrow> db \<Rightarrow> match_error + unit \<times> db" where
  "SetPlayerOnline sv flt ctx now i user db = setPlayerPresence sv flt ctx now i user True db"

definition SetPlayerOffline ::
  "service \<Rightarrow> faults \<Rightarrow> identity option \<Rightarrow> int \<Rightarrow> bytes \<Rightarrow> bytes \<Rightarrow> db \<Rightarrow> match_error + unit \<times> db" where
  "SetPlayerOffline sv flt ctx now i user db = setPlayerPresence sv flt ctx now i user False db"

definition offline_since :: "int \<Rightarrow> match_row \<Rightarrow> bool" where
  "offline_since cutoff m \<longleftrightarrow> (case m_offline m of None \<Rightarrow> False | Some since \<Rightarrow> since \<le> cutoff)"

definition abandonIfExpired ::
  "service \<Rightarrow> faults \<Rightarrow> identity option \<Rightarrow> bytes \<Rightarrow> int \<Rightarrow> int \<Rightarrow> db \<Rightarrow> match_error + event_row option \<times> db" where
  "abandonIfExpired sv flt ctx i cutoff now db =
     and_then (beginWriteTransaction flt ctx db) (\<lambda>_.
     (case loadMatchAndPlayers sv flt db i of
        Inl e \<Rightarrow> if e = ErrMatchNotFound then commit flt None db else Inl e
      | Inr (m, ps) \<Rightarrow>
          and_then (run flt Q_Offline (offline_since cutoff m)) (\<lambda>expired.
            if m_status m \<noteq> StatusActive \<or> \<not> expired then commit flt None db
            else
          and_then (rebuildSnapshot sv flt db m ps) (\<lambda>_.
            if m_revision m = max_i64 then Inl ErrInternal
            else case Lookup (sv_games sv) (m_game m) of
              None \<Rightarrow> Inl ErrInternal
            | Some r \<Rightarrow>
                if ru_limit r \<noteq> 2 then Inl ErrInternal
                else
                  let revision = m_revision m + 1;
                      e = platform_event (m_id m) revision TypeAbandoned None now in
          and_then (insert_event flt e db) (\<lambda>db.
          and_then (update_one_match flt
              (\<lambda>n. m_id n = m_id m \<and> m_status n = StatusActive \<and> m_revision n = m_revision m \<and>
                offline_since cutoff n)
              (\<lambda>n. n\<lparr>m_status := StatusAbandoned, m_revision := revision, m_updated := now,
                m_finished := Some now, m_winner := None, m_result := None, m_offline := None\<rparr>) db) (\<lambda>db.
          and_then (delete_slots flt (m_game m) (m_id m) (player_ids ps) (singleActiveMatch r) db) (\<lambda>db.
          and_then (deleteMatchCredentials sv flt (m_id m) db) (\<lambda>db.
          commit flt (Some e) db))))))))"

text \<open>The loop stops at the first error, with the events that are committed by then.\<close>

fun abandon_loop ::
  "service \<Rightarrow> (bytes \<Rightarrow> faults) \<Rightarrow> identity option \<Rightarrow> int \<Rightarrow> int \<Rightarrow> bytes list \<Rightarrow> event_row list \<Rightarrow> db \<Rightarrow>
   match_error option \<times> event_row list \<times> db" where
  "abandon_loop sv flts ctx cutoff now [] published db = (None, published, db)"
| "abandon_loop sv flts ctx cutoff now (i # ids) published db =
     (case abandonIfExpired sv (flts i) ctx i cutoff now db of
        Inl e \<Rightarrow> (Some e, published, db)
      | Inr (ev, db') \<Rightarrow>
          abandon_loop sv flts ctx cutoff now ids (case ev of None \<Rightarrow> published | Some e \<Rightarrow> published @ [e]) db')"

definition AbandonExpired ::
  "service \<Rightarrow> faults \<Rightarrow> (bytes \<Rightarrow> faults) \<Rightarrow> identity option \<Rightarrow> int \<Rightarrow> db \<Rightarrow> match_error option \<times> event_row list \<times> db" where
  "AbandonExpired sv flt flts ctx now db =
     (let cutoff = i64 (now - fullyOfflineAbandonAfter);
          ids = sort (map m_id (filter (\<lambda>m. m_status m = StatusActive \<and> offline_since cutoff m) (d_matches db))) in
      if flt Q_Expired \<or> \<not> list_all (canonicalUUID (sv_parse sv)) ids then (Some ErrInternal, [], db)
      else abandon_loop sv flts ctx cutoff now ids [] db)"

definition MarkActiveMatchesOfflineOnBoot :: "faults \<Rightarrow> identity option \<Rightarrow> int \<Rightarrow> db \<Rightarrow> match_error + unit \<times> db" where
  "MarkActiveMatchesOfflineOnBoot flt ctx now db =
     and_then (beginWriteTransaction flt ctx db) (\<lambda>_.
     and_then (run flt U_Match ()) (\<lambda>_.
     commit flt () (db\<lparr>d_matches := map (\<lambda>m. if m_status m = StatusActive \<and> m_offline m = None
       then m\<lparr>m_offline := Some now\<rparr> else m) (d_matches db)\<rparr>)))"

subsection \<open>Launch tickets and connections\<close>

definition complete_config :: "service \<Rightarrow> bool" where
  "complete_config sv \<longleftrightarrow> \<not> length (sv_pepper sv) < minimumTokenPepperBytes"

text \<open>
  The loop over random secrets: a secret whose hash is already stored is dropped, at most eight
  times. It returns the secret and its hash.
\<close>

fun fresh_secret :: "nat \<Rightarrow> (bytes \<Rightarrow> bytes option) \<Rightarrow> (bytes \<Rightarrow> bool) \<Rightarrow> nat list \<Rightarrow> (bytes \<times> bytes) option" where
  "fresh_secret 0 hash taken random = None"
| "fresh_secret (Suc n) hash taken random =
     (case randomLaunchTicket random of
        None \<Rightarrow> None
      | Some (plaintext, rest) \<Rightarrow>
          (case hash plaintext of
             None \<Rightarrow> None
           | Some h \<Rightarrow> if taken h then fresh_secret n hash taken rest else Some (plaintext, h)))"

definition find_ticket :: "db \<Rightarrow> bytes \<Rightarrow> ticket_row option" where
  "find_ticket db h = find (\<lambda>t. t_hash t = h) (d_tickets db)"

definition find_token :: "db \<Rightarrow> bytes \<Rightarrow> token_row option" where
  "find_token db h = find (\<lambda>k. k_hash k = h) (d_tokens db)"

definition insert_ticket :: "faults \<Rightarrow> ticket_row \<Rightarrow> db \<Rightarrow> match_error + db" where
  "insert_ticket flt t db =
     (if flt X_Ticket \<or> find_match db (t_match t) = None \<or> find_user db (t_user t) = None then Inl ErrInternal
      else Inr (db\<lparr>d_tickets := d_tickets db @ [t]\<rparr>))"

definition insert_token :: "faults \<Rightarrow> token_row \<Rightarrow> db \<Rightarrow> match_error + db" where
  "insert_token flt k db =
     (if flt X_Token \<or> find_match db (k_match k) = None \<or> find_user db (k_user k) = None then Inl ErrInternal
      else Inr (db\<lparr>d_tokens := d_tokens db @ [k]\<rparr>))"

record LaunchTicket =
  lt_match :: bytes
  lt_game :: bytes
  lt_token :: bytes
  lt_expires :: int

definition CreateLaunchTicket ::
  "service \<Rightarrow> faults \<Rightarrow> identity option \<Rightarrow> int \<Rightarrow> nat list \<Rightarrow> bytes \<Rightarrow> bytes \<Rightarrow> db \<Rightarrow> match_error + LaunchTicket \<times> db" where
  "CreateLaunchTicket sv flt ctx now random i user db =
     (if \<not> complete_config sv then Inl ErrInvalidConfiguration
      else if \<not> canonicalUUID (sv_parse sv) i \<or> \<not> canonicalUUID (sv_parse sv) user then Inl ErrInvalidRequest
      else
        and_then (beginWriteTransaction flt ctx db) (\<lambda>_.
        and_then (loadMatchAndPlayers sv flt db i) (\<lambda>(m, ps).
          if m_status m \<noteq> StatusActive \<or> \<not> playerMember ps user then Inl ErrMatchNotFound
          else
        and_then (rebuildSnapshot sv flt db m ps) (\<lambda>_.
          case Lookup (sv_games sv) (m_game m) of
            None \<Rightarrow> Inl ErrInternal
          | Some r \<Rightarrow>
              if ru_limit r \<noteq> 2 then Inl ErrInternal
              else
        and_then (validateCompleteActiveSlotSet flt db (m_game m) (m_id m) (player_ids ps) (singleActiveMatch r)) (\<lambda>_.
        and_then (or_fail (safeAddMilliseconds now launchTicketLifetime) ErrInternal) (\<lambda>expires.
        and_then (or_fail (fresh_secret launchTicketCollisionMax (hashLaunchTicket (sv_pepper sv))
            (\<lambda>h. find_ticket db h \<noteq> None) random) ErrInternal) (\<lambda>(plaintext, h).
        and_then (insert_ticket flt \<lparr>t_hash = h, t_match = m_id m, t_user = user, t_game = m_game m,
            t_expires = expires, t_consumed = None, t_created = now\<rparr> db) (\<lambda>db.
        and_then (run flt D_Tickets (db\<lparr>d_tickets := filter (\<lambda>t. \<not> (t_match t = m_id m \<and> t_user t = user \<and>
            t_game t = m_game m \<and> t_hash t \<noteq> h)) (d_tickets db)\<rparr>)) (\<lambda>db.
        commit flt \<lparr>lt_match = m_id m, lt_game = m_game m, lt_token = plaintext, lt_expires = expires\<rparr> db)))))))))"

record CredentialRequest =
  cr_ticket :: bytes
  cr_token :: bytes

record ConnectionCredential =
  cc_epoch :: bytes
  cc_user :: bytes
  cc_match :: bytes
  cc_game :: bytes
  cc_token :: bytes
  cc_expires :: int

text \<open>The owner of a live credential: the match, the user and, for a ticket, the game stored with it.\<close>

definition ticket_owner :: "faults \<Rightarrow> int \<Rightarrow> db \<Rightarrow> bytes \<Rightarrow> match_error + bytes \<times> bytes \<times> bytes option" where
  "ticket_owner flt now db h =
     and_then (run flt Q_Ticket (find_ticket db h)) (\<lambda>row. case row of
       None \<Rightarrow> Inl ErrTicketInvalid
     | Some t \<Rightarrow>
         if t_consumed t \<noteq> None \<or> t_expires t \<le> now then Inl ErrTicketInvalid
         else Inr (t_match t, t_user t, Some (t_game t)))"

definition token_owner :: "faults \<Rightarrow> int \<Rightarrow> db \<Rightarrow> bytes \<Rightarrow> match_error + bytes \<times> bytes \<times> bytes option" where
  "token_owner flt now db h =
     and_then (run flt Q_Token (find_token db h)) (\<lambda>row. case row of
       None \<Rightarrow> Inl ErrResumeExpired
     | Some k \<Rightarrow>
         if k_revoked k \<noteq> None \<or> k_expires k \<le> now \<or> k_last_used k > k_expires k then Inl ErrResumeExpired
         else Inr (k_match k, k_user k, None))"

text \<open>Consuming a ticket, and the resume token that replaces all others of the player in the match.\<close>

definition consume_ticket :: "faults \<Rightarrow> int \<Rightarrow> bytes \<Rightarrow> db \<Rightarrow> match_error + db" where
  "consume_ticket flt now h db =
     (let hit = (\<lambda>t. t_hash t = h \<and> t_consumed t = None \<and> t_expires t > now) in
      if flt U_Ticket then Inl ErrInternal
      else if length (filter hit (d_tickets db)) \<noteq> 1 then Inl ErrTicketInvalid
      else Inr (db\<lparr>d_tickets := map (\<lambda>t. if hit t then t\<lparr>t_consumed := Some now\<rparr> else t) (d_tickets db)\<rparr>))"

definition issue_token ::
  "service \<Rightarrow> faults \<Rightarrow> int \<Rightarrow> int \<Rightarrow> nat list \<Rightarrow> bytes \<Rightarrow> bytes \<Rightarrow> db \<Rightarrow> match_error + bytes \<times> db" where
  "issue_token sv flt now expires random i user db =
     and_then (or_fail (fresh_secret launchTicketCollisionMax
         (\<lambda>p. hashCredential (sv_pepper sv) p resumeTokenHashDomain) (\<lambda>h. find_token db h \<noteq> None) random) ErrInternal)
       (\<lambda>(plaintext, h).
     and_then (insert_token flt \<lparr>k_hash = h, k_match = i, k_user = user, k_expires = expires, k_last_used = now,
         k_revoked = None, k_created = now\<rparr> db) (\<lambda>db.
     and_then (run flt D_Tokens (db\<lparr>d_tokens := filter (\<lambda>k. \<not> (k_match k = i \<and> k_user k = user \<and> k_hash k \<noteq> h))
         (d_tokens db)\<rparr>)) (\<lambda>db.
     Inr (plaintext, db))))"

definition slide_token :: "faults \<Rightarrow> int \<Rightarrow> int \<Rightarrow> bytes \<Rightarrow> db \<Rightarrow> match_error + db" where
  "slide_token flt now expires h db =
     (let hit = (\<lambda>k. k_hash k = h \<and> k_revoked k = None \<and> k_expires k > now) in
      if flt U_Token then Inl ErrInternal
      else if length (filter hit (d_tokens db)) \<noteq> 1 then Inl ErrResumeExpired
      else Inr (db\<lparr>d_tokens := map (\<lambda>k. if hit k then k\<lparr>k_last_used := now, k_expires := expires\<rparr> else k)
        (d_tokens db)\<rparr>))"

definition ConnectCredential ::
  "service \<Rightarrow> faults \<Rightarrow> identity option \<Rightarrow> int \<Rightarrow> nat list \<Rightarrow> CredentialRequest \<Rightarrow> db \<Rightarrow>
   match_error + ConnectionCredential \<times> db" where
  "ConnectCredential sv flt ctx now random rq db =
     (let launch = cr_ticket rq \<noteq> ''''; resume = cr_token rq \<noteq> '''';
          plaintext = (if resume then cr_token rq else cr_ticket rq);
          domain = (if resume then resumeTokenHashDomain else launchTicketHashDomain);
          failure = (if resume then ErrResumeExpired else ErrTicketInvalid) in
      if \<not> complete_config sv then Inl ErrInvalidConfiguration
      else if launch = resume then Inl ErrInvalidRequest
      else if \<not> validOpaqueCredential plaintext then Inl failure
      else
        and_then (or_fail (hashCredential (sv_pepper sv) plaintext domain) failure) (\<lambda>h.
        and_then (beginWriteTransaction flt ctx db) (\<lambda>_.
        and_then (or_fail (safeAddMilliseconds now resumeTokenLifetime) ErrInternal) (\<lambda>expires.
        and_then (if launch then ticket_owner flt now db h else token_owner flt now db h) (\<lambda>(i, user, game).
          if \<not> canonicalUUID (sv_parse sv) i \<or> \<not> canonicalUUID (sv_parse sv) user then Inl failure
          else case loadMatchAndPlayers sv flt db i of
            Inl e \<Rightarrow> if e = ErrMatchNotFound then Inl failure else Inl e
          | Inr (m, ps) \<Rightarrow>
              if m_status m \<noteq> StatusActive \<or> \<not> playerMember ps user \<or> (launch \<and> game \<noteq> Some (m_game m)) then Inl failure
              else
        and_then (run flt Q_User (find_user db user)) (\<lambda>row. case row of
            None \<Rightarrow> Inl failure
          | Some u \<Rightarrow>
              if us_enabled u \<noteq> 1 then Inl failure
              else
        and_then (rebuildSnapshot sv flt db m ps) (\<lambda>_.
        and_then
          (if launch then
             and_then (consume_ticket flt now h db) (issue_token sv flt now expires random i user)
           else and_then (slide_token flt now expires h db) (\<lambda>db. Inr (plaintext, db))) (\<lambda>(token, db).
        commit flt \<lparr>cc_epoch = us_epoch u, cc_user = user, cc_match = i, cc_game = m_game m, cc_token = token,
          cc_expires = expires\<rparr> db))))))))"

subsection \<open>The lobby\<close>

record ActiveMatch =
  av_id :: bytes
  av_game :: bytes
  av_opponent :: bytes
  av_nickname :: bytes
  av_color :: bytes
  av_revision :: int
  av_config :: bytes

definition slot_match :: "db \<Rightarrow> bytes \<Rightarrow> bytes \<Rightarrow> bytes option" where
  "slot_match db g user = map_option s_match (find (\<lambda>s. s_game s = g \<and> s_user s = user) (d_slots db))"

definition active_membership :: "db \<Rightarrow> bytes \<Rightarrow> bytes \<Rightarrow> bool" where
  "active_membership db g user \<longleftrightarrow>
     list_ex (\<lambda>p. p_user p = user \<and>
       (case find_match db (p_match p) of None \<Rightarrow> False | Some m \<Rightarrow> m_game m = g \<and> m_status m = StatusActive))
       (d_players db)"

definition CurrentMatch :: "service \<Rightarrow> faults \<Rightarrow> bytes \<Rightarrow> bytes \<Rightarrow> db \<Rightarrow> match_error + ActiveMatch option" where
  "CurrentMatch sv flt g user db =
     (if \<not> canonicalUUID (sv_parse sv) user then Inl ErrInvalidRequest
      else case Lookup (sv_games sv) g of
        None \<Rightarrow> Inl ErrInvalidRequest
      | Some r \<Rightarrow>
          if ru_limit r \<noteq> 2 \<or> \<not> singleActiveMatch r then Inl ErrInvalidRequest
          else
        and_then (run flt Q_Begin ()) (\<lambda>_.
        and_then (run flt Q_Slots (slot_match db g user)) (\<lambda>slot. case slot of
          None \<Rightarrow>
        and_then (run flt Q_Membership (active_membership db g user)) (\<lambda>orphaned.
            if orphaned then Inl ErrInternal else run flt Q_Commit None)
        | Some i \<Rightarrow>
            if \<not> canonicalUUID (sv_parse sv) i then Inl ErrInternal
            else
        and_then (loadMatchAndPlayers sv flt db i) (\<lambda>(m, ps).
            if m_game m \<noteq> g \<or> m_status m \<noteq> StatusActive then Inl ErrInternal
            else
        and_then (rebuildSnapshot sv flt db m ps) (\<lambda>_. case actionPlayers ps user of
              None \<Rightarrow> Inl ErrInternal
            | Some (player, opponent) \<Rightarrow>
        and_then (validateCompleteActiveSlotSet flt db g i (player_ids ps) True) (\<lambda>_.
        and_then (run flt Q_User (find_user db (p_user opponent))) (\<lambda>row. case row of
              None \<Rightarrow> Inl ErrInternal
            | Some u \<Rightarrow>
                if \<not> validStoredUser (sv_parse sv) (sv_ucd sv) u \<or> (us_enabled u \<noteq> 0 \<and> us_enabled u \<noteq> 1)
                then Inl ErrInternal
                else run flt Q_Commit (Some \<lparr>av_id = m_id m, av_game = m_game m, av_opponent = p_user opponent,
                  av_nickname = us_nickname u, av_color = p_color player, av_revision = m_revision m,
                  av_config = valueOrEmpty (m_config m)\<rparr>))))))))"

record Opponent =
  op_id :: bytes
  op_nickname :: bytes
  op_availability :: bytes
  op_presence :: bytes

definition opponent_of_row :: "db \<Rightarrow> bytes \<Rightarrow> int \<Rightarrow> user \<Rightarrow> Opponent" where
  "opponent_of_row db g cutoff u =
     \<lparr>op_id = us_id u, op_nickname = us_nickname u,
      op_availability = (if slot_match db g (us_id u) = None then ''idle'' else ''busy''),
      op_presence = (case us_last_seen u of
          None \<Rightarrow> ''offline'' | Some seen \<Rightarrow> if seen \<ge> cutoff then ''online'' else ''offline'')\<rparr>"

definition folded :: "ucd \<Rightarrow> bytes \<Rightarrow> bytes" where
  "folded u s = encode_runes (map (uc_lower u) (runes s))"

definition ListOpponents :: "service \<Rightarrow> faults \<Rightarrow> int \<Rightarrow> bytes \<Rightarrow> bytes \<Rightarrow> db \<Rightarrow> match_error + Opponent list" where
  "ListOpponents sv flt now g user db =
     (if \<not> canonicalUUID (sv_parse sv) user then Inl ErrInvalidRequest
      else case Lookup (sv_games sv) g of
        None \<Rightarrow> Inl ErrInvalidRequest
      | Some r \<Rightarrow>
          if \<not> singleActiveMatch r then Inl ErrInvalidRequest
          else
        and_then (or_fail (safeSubtractMilliseconds now (90 * 1000)) ErrInternal) (\<lambda>cutoff.
        and_then (run flt Q_Begin ()) (\<lambda>_.
        and_then (enabledUser flt db user) (\<lambda>_.
        and_then (run flt Q_Slots (filter (\<lambda>u. us_enabled u = 1 \<and> us_id u \<noteq> user) (d_users db))) (\<lambda>rows.
          if \<not> list_all (validStoredUser (sv_parse sv) (sv_ucd sv)) rows then Inl ErrInternal
          else run flt Q_Commit
            (sort_key (\<lambda>o'. (folded (sv_ucd sv) (op_nickname o'), op_nickname o', op_id o'))
              (map (opponent_of_row db g cutoff) rows)))))))"

end
