(* ===== verification/MatchPlay.thy ===== *)
theory MatchPlay
  imports MatchService
begin

text \<open>
  \<open>ApplyAction\<close> of the match service (\<open>server/internal/matches/service.go\<close>): one request of a
  player, checked, applied by the rule engine of the match, checked again, and written with
  everything that follows from it in one transaction. A request that was applied before is
  answered from the log.
\<close>

subsection \<open>Requests that were applied before\<close>

definition readActionEvent :: "faults \<Rightarrow> db \<Rightarrow> bytes \<Rightarrow> bytes \<Rightarrow> bytes \<Rightarrow> match_error + event_row option" where
  "readActionEvent flt db i actor act =
     run flt Q_Action (find (\<lambda>e. e_match e = i \<and> e_actor e = Some actor \<and> e_action e = Some act) (d_events db))"

definition limit_entry :: "db \<Rightarrow> ActionRequest \<Rightarrow> (limit_row \<times> event_row) option" where
  "limit_entry db r =
     (case find (\<lambda>l. l_match l = rq_match r \<and> l_actor l = rq_actor r \<and> l_action l = rq_action r) (d_limits db) of
        None \<Rightarrow> None
      | Some l \<Rightarrow>
          map_option (Pair l) (find (\<lambda>e. e_match e = l_match l \<and> e_revision e = l_revision l) (d_events db)))"

definition readFlightChessLimitAction ::
  "faults \<Rightarrow> db \<Rightarrow> ActionRequest \<Rightarrow> actionSemantics \<Rightarrow> match_error + event_row option" where
  "readFlightChessLimitAction flt db r sem =
     and_then (run flt Q_Limit (limit_entry db r)) (\<lambda>row. case row of
       None \<Rightarrow> Inr None
     | Some (l, e) \<Rightarrow>
         if e_type e \<noteq> TypeAbandoned \<or> e_revision e \<noteq> maximumFlightChessEvents \<or> e_action e \<noteq> None \<or>
            e_actor e \<noteq> None \<or> \<not> isStrictEmptyObject (e_payload e) then Inl ErrInternal
         else if l_type l \<noteq> rq_type r \<or> (l_type l = FlightChess.MoveRequested \<and> l_piece l \<noteq> as_piece sem)
         then Inl ErrActionConflict
         else Inr (Some e))"

definition game_prefix :: "bytes \<Rightarrow> bytes" where
  "game_prefix t = takeWhile (\<lambda>c. c \<noteq> CHR ''.'') t"

text \<open>The actor of the request, when it plays in the match with this colour.\<close>

definition actor_color :: "player_row list \<Rightarrow> ActionRequest \<Rightarrow> bytes \<Rightarrow> bool" where
  "actor_color ps r color \<longleftrightarrow>
     (case actionPlayers ps (rq_actor r) of None \<Rightarrow> False | Some (actor, _) \<Rightarrow> color = p_color actor)"

definition same_resignation :: "event_row \<Rightarrow> ActionRequest \<Rightarrow> player_row list \<Rightarrow> bytes \<Rightarrow> match_error + bool" where
  "same_resignation e r ps t =
     (if e_type e \<noteq> t then Inr False
      else case decodeResignedPayload (e_payload e) of
        None \<Rightarrow> Inl ErrInternal
      | Some p \<Rightarrow>
          (case actionPlayers ps (rq_actor r) of
             None \<Rightarrow> Inl ErrInternal
           | Some (actor, opponent) \<Rightarrow>
               if rs_user p \<noteq> p_user actor \<or> rs_winner p \<noteq> p_user opponent then Inl ErrInternal else Inr True))"

definition committedActionMatches ::
  "uuid_parser \<Rightarrow> event_row \<Rightarrow> ActionRequest \<Rightarrow> actionSemantics \<Rightarrow> player_row list \<Rightarrow> match_error + bool" where
  "committedActionMatches parse e r sem ps =
     (let t = rq_type r in
      if e_action e \<noteq> Some (rq_action r) \<or> e_actor e \<noteq> Some (rq_actor r) \<or> \<not> canonicalUUID parse (rq_action r)
      then Inl ErrInternal
      else if t = ChineseCheckers.MoveRequested then
        (if e_type e \<noteq> ChineseCheckers.MoveAccepted then Inr False
         else case decodeAcceptedChineseCheckersMove (e_payload e) of
           None \<Rightarrow> Inl ErrInternal
         | Some m \<Rightarrow>
             if ac_user m \<noteq> rq_actor r \<or> \<not> actor_color ps r (ac_color m) then Inl ErrInternal
             else Inr (ac_path m = as_path sem))
      else if t = CheckersResignRequested then same_resignation e r ps CheckersResigned
      else if t = FlightChess.RollRequested then
        (if e_type e \<noteq> FlightChess.RollAccepted then Inr False
         else case decodeAcceptedFlightChessRoll (e_payload e) of
           None \<Rightarrow> Inl ErrInternal
         | Some v \<Rightarrow>
             if FlightChess.ro_user v \<noteq> rq_actor r \<or> \<not> actor_color ps r (FlightChess.ro_color v) then Inl ErrInternal
             else Inr True)
      else if t = FlightChess.MoveRequested then
        (if e_type e \<noteq> FlightChess.MoveAccepted then Inr False
         else case decodeAcceptedFlightChessMove (e_payload e) of
           None \<Rightarrow> Inl ErrInternal
         | Some v \<Rightarrow>
             if FlightChess.mv_user v \<noteq> rq_actor r \<or> \<not> actor_color ps r (FlightChess.mv_color v) then Inl ErrInternal
             else Inr (FlightChess.mv_piece v = as_piece sem))
      else if t = FlightResignRequested then same_resignation e r ps FlightResigned
      else if t = Gomoku.MoveRequested \<or> t = Reversi.MoveRequested then
        (if e_type e \<noteq> acceptedMoveType t then Inr False
         else case decodeAcceptedMove (e_payload e) of
           None \<Rightarrow> Inl ErrInternal
         | Some m \<Rightarrow>
             if am_user m \<noteq> rq_actor r \<or> \<not> actor_color ps r (am_color m) then Inl ErrInternal
             else Inr (am_x m = as_x sem \<and> am_y m = as_y sem))
      else if t = GomokuResignRequested \<or> t = ReversiResignRequested then
        same_resignation e r ps (resignedEventType (game_prefix t))
      else if t = Rps.ChoiceRequested then
        (if e_type e = Rps.ChoiceLocked then
           (case decodeRpsLocked (e_payload e) of
              None \<Rightarrow> Inl ErrInternal
            | Some v \<Rightarrow> if Rps.lk_user v \<noteq> rq_actor r then Inl ErrInternal else Inr (Rps.lk_choice v = as_choice sem))
         else if e_type e = Rps.RoundRevealed then
           (case decodeRpsReveal (e_payload e) of
              None \<Rightarrow> Inl ErrInternal
            | Some v \<Rightarrow> Inr (revealed_choice v (rq_actor r) = as_choice sem))
         else Inr False)
      else if t = RpsResignRequested then same_resignation e r ps RpsResigned
      else Inl ErrInvalidRequest)"

definition acceptsPreviousRpsChoiceRevision :: "faults \<Rightarrow> db \<Rightarrow> match_row \<Rightarrow> ActionRequest \<Rightarrow> match_error + bool" where
  "acceptsPreviousRpsChoiceRevision flt db m r =
     (if m_game m \<noteq> Rps.GameID \<or> rq_type r \<noteq> Rps.ChoiceRequested \<or> m_revision m \<le> 0 \<or>
         rq_revision r \<noteq> m_revision m - 1 then Inr False
      else and_then (run flt Q_Previous
          (find (\<lambda>e. e_match e = m_id m \<and> e_revision e = m_revision m) (d_events db))) (\<lambda>row. case row of
        None \<Rightarrow> Inl ErrInternal
      | Some e \<Rightarrow>
          (case e_actor e of
             None \<Rightarrow> Inl ErrInternal
           | Some a \<Rightarrow> Inr (e_type e = Rps.ChoiceLocked \<and> a \<noteq> rq_actor r))))"

subsection \<open>What an action produces\<close>

record outcome =
  oc_event :: event
  oc_game :: snapshot
  oc_result :: "bytes option"
  oc_winner :: "bytes option"
  oc_terminal :: bool
  oc_status :: bytes

definition goes_on :: "event \<Rightarrow> snapshot \<Rightarrow> outcome" where
  "goes_on e sn = \<lparr>oc_event = e, oc_game = sn, oc_result = None, oc_winner = None, oc_terminal = False,
     oc_status = StatusFinished\<rparr>"

definition game_over :: "event \<Rightarrow> snapshot \<Rightarrow> gameStateSummary \<Rightarrow> outcome" where
  "game_over e sn s = \<lparr>oc_event = e, oc_game = sn, oc_result = gs_result s, oc_winner = gs_winner s,
     oc_terminal = True, oc_status = StatusFinished\<rparr>"

definition request_action :: "ActionRequest \<Rightarrow> action" where
  "request_action r = \<lparr>act_type = rq_type r, act_payload = rq_payload r\<rparr>"

text \<open>Applying the rules: their errors as the client sees them, and the check of what they produced.\<close>

definition applied ::
  "game_error + event \<times> snapshot \<Rightarrow> (event \<Rightarrow> snapshot \<Rightarrow> bool) \<Rightarrow>
   match_error + event \<times> snapshot \<times> gameStateSummary" where
  "applied res valid =
     (case res of
        Inl e \<Rightarrow> Inl (safeActionRuleError e)
      | Inr (ev, sn) \<Rightarrow>
          if \<not> valid ev sn then Inl ErrInternal
          else (case readGameStateSummary sn of None \<Rightarrow> Inl ErrInternal | Some s \<Rightarrow> Inr (ev, sn, s)))"

definition checkers_action ::
  "rules \<Rightarrow> match_row \<Rightarrow> player_row \<Rightarrow> snapshot \<Rightarrow> ActionRequest \<Rightarrow> actionSemantics \<Rightarrow> match_error + outcome" where
  "checkers_action rules m actor game r sem =
     (if m_revision m \<ge> maximumMatchEvents - 1 then Inl ErrInvalidRequest
      else if p_color actor \<noteq> (if sn_revision game mod 2 = 1 then ColorWhite else ColorBlack)
      then Inl (RuleError CheckersNotYourTurn)
      else and_then (applied (rules_Apply rules game (rq_actor r) (request_action r))
          (\<lambda>ev sn. validateProducedChineseCheckersMove ev sn r sem (p_color actor) (m_revision m + 1)))
        (\<lambda>(ev, sn, s).
          if gs_status s = StatusFinished then
            (if gs_result s \<noteq> Some ResultGoal \<or> gs_winner s \<noteq> Some (rq_actor r) then Inl ErrInternal
             else Inr (game_over ev sn s))
          else Inr (goes_on ev sn)))"

text \<open>The last event a match may have is kept for the end of the match.\<close>

definition flight_action ::
  "rules \<Rightarrow> nat list \<Rightarrow> match_row \<Rightarrow> player_row \<Rightarrow> snapshot \<Rightarrow> ActionRequest \<Rightarrow> actionSemantics \<Rightarrow>
   match_error + outcome" where
  "flight_action rules random m actor game r sem =
     (case readGameStateSummary game of
        None \<Rightarrow> Inl ErrInternal
      | Some current \<Rightarrow>
          if p_color actor \<noteq> gs_next current then Inl (RuleError FlightNotYourTurn)
          else if rq_type r = FlightChess.RollRequested \<and> ru_random rules = None then Inl ErrInternal
          else and_then (applied
              (if rq_type r = FlightChess.RollRequested
               then the (ru_random rules) game (rq_actor r) (request_action r) (Some random)
               else rules_Apply rules game (rq_actor r) (request_action r))
              (\<lambda>ev sn. validateProducedFlightChess ev sn r sem (p_color actor) (m_revision m + 1)))
            (\<lambda>(ev, sn, s).
              if gs_status s = StatusFinished then
                (if rq_type r \<noteq> FlightChess.MoveRequested \<or> gs_result s \<noteq> Some ResultGoal \<or>
                    gs_winner s \<noteq> Some (rq_actor r) then Inl ErrInternal
                 else Inr (game_over ev sn s))
              else if m_revision m + 1 = maximumFlightChessEvents then
                Inr \<lparr>oc_event = \<lparr>ev_revision = m_revision m + 1, ev_type = TypeAbandoned, ev_actor = '''',
                      ev_payload = cancelledPayloadJSON\<rparr>,
                  oc_game = game, oc_result = None, oc_winner = None, oc_terminal = True,
                  oc_status = StatusAbandoned\<rparr>
              else Inr (goes_on ev sn)))"

definition board_action ::
  "rules \<Rightarrow> match_row \<Rightarrow> player_row \<Rightarrow> snapshot \<Rightarrow> ActionRequest \<Rightarrow> actionSemantics \<Rightarrow> match_error + outcome" where
  "board_action rules m actor game r sem =
     (case readGameStateSummary game of
        None \<Rightarrow> Inl ErrInternal
      | Some current \<Rightarrow>
          if p_color actor \<noteq> gs_next current then Inl (RuleError GomokuNotYourTurn)
          else and_then (applied (rules_Apply rules game (rq_actor r) (request_action r))
              (\<lambda>ev sn. validateProducedMove ev sn r sem (p_color actor) (m_revision m + 1)))
            (\<lambda>(ev, sn, s).
              if gs_status s = StatusFinished then
                (if gs_result s \<noteq> Some ResultFive \<and> gs_result s \<noteq> Some ResultDraw \<and>
                    \<not> (m_game m = Reversi.GameID \<and> gs_result s = Some ResultMajority) then Inl ErrInternal
                 else if gs_result s = Some ResultDraw \<and> gs_winner s \<noteq> None \<or>
                    gs_result s = Some ResultFive \<and> gs_winner s \<noteq> Some (rq_actor r) then Inl ErrInternal
                 else Inr (game_over ev sn s))
              else Inr (goes_on ev sn)))"

definition rps_action ::
  "rules \<Rightarrow> match_row \<Rightarrow> player_row list \<Rightarrow> snapshot \<Rightarrow> ActionRequest \<Rightarrow> actionSemantics \<Rightarrow> match_error + outcome" where
  "rps_action rules m ps game r sem =
     (if m_revision m \<ge> maximumMatchEvents - 2 then Inl ErrInvalidRequest
      else and_then (applied (rules_Apply rules game (rq_actor r) (request_action r))
          (\<lambda>ev sn. validateProducedChoice ev sn r sem (m_revision m + 1)))
        (\<lambda>(ev, sn, s).
          if gs_status s = StatusFinished then
            (if gs_result s \<noteq> Some ResultRounds \<or>
                (case gs_winner s of None \<Rightarrow> True | Some w \<Rightarrow> \<not> playerMember ps w) then Inl ErrInternal
             else Inr (game_over ev sn s))
          else Inr (goes_on ev sn)))"

definition resign_action ::
  "bytes \<Rightarrow> match_row \<Rightarrow> player_row \<Rightarrow> player_row \<Rightarrow> snapshot \<Rightarrow> match_error + outcome" where
  "resign_action t m actor opponent game =
     (if sn_revision game = 0 then Inl ErrInvalidRequest
      else Inr \<lparr>oc_event = \<lparr>ev_revision = m_revision m + 1, ev_type = t, ev_actor = p_user actor,
             ev_payload = marshalResigned \<lparr>rs_user = p_user actor, rs_winner = p_user opponent\<rparr>\<rparr>,
           oc_game = game, oc_result = Some ResultResignation, oc_winner = Some (p_user opponent),
           oc_terminal = True, oc_status = StatusFinished\<rparr>)"

definition produce ::
  "rules \<Rightarrow> nat list \<Rightarrow> match_row \<Rightarrow> player_row list \<Rightarrow> player_row \<Rightarrow> player_row \<Rightarrow> snapshot \<Rightarrow> ActionRequest \<Rightarrow>
   actionSemantics \<Rightarrow> match_error + outcome" where
  "produce rules random m ps actor opponent game r sem =
     (let t = rq_type r in
      if t = ChineseCheckers.MoveRequested then checkers_action rules m actor game r sem
      else if t = FlightChess.RollRequested \<or> t = FlightChess.MoveRequested then
        flight_action rules random m actor game r sem
      else if t = Gomoku.MoveRequested \<or> t = Reversi.MoveRequested then board_action rules m actor game r sem
      else if t = Rps.ChoiceRequested then rps_action rules m ps game r sem
      else if t = GomokuResignRequested \<or> t = ReversiResignRequested then
        resign_action (resignedEventType (m_game m)) m actor opponent game
      else if t = CheckersResignRequested then resign_action CheckersResigned m actor opponent game
      else if t = FlightResignRequested then resign_action FlightResigned m actor opponent game
      else if t = RpsResignRequested then resign_action RpsResigned m actor opponent game
      else Inl ErrInvalidRequest)"

subsection \<open>Writing it\<close>

definition insert_limit :: "faults \<Rightarrow> limit_row \<Rightarrow> db \<Rightarrow> match_error + db" where
  "insert_limit flt l db =
     (if flt X_Limit \<or> list_ex (\<lambda>k. l_match k = l_match l) (d_limits db) \<or> find_user db (l_actor l) = None \<or>
         \<not> list_ex (\<lambda>e. e_match e = l_match l \<and> e_revision e = l_revision l) (d_events db) \<or>
         l_revision l \<le> 0 \<or>
         \<not> (l_type l = FlightChess.RollRequested \<and> l_piece l = -1 \<or>
            l_type l = FlightChess.MoveRequested \<and> 0 \<le> l_piece l \<and> l_piece l \<le> 3)
      then Inl ErrInternal
      else Inr (db\<lparr>d_limits := d_limits db @ [l]\<rparr>))"

definition outcome_event :: "match_row \<Rightarrow> ActionRequest \<Rightarrow> outcome \<Rightarrow> int \<Rightarrow> event_row" where
  "outcome_event m r oc now =
     \<lparr>e_match = m_id m, e_revision = m_revision m + 1, e_type = ev_type (oc_event oc),
      e_action = (if oc_status oc = StatusAbandoned then None else Some (rq_action r)),
      e_actor = (if oc_status oc = StatusAbandoned then None else Some (rq_actor r)),
      e_payload = ev_payload (oc_event oc), e_created = now\<rparr>"

definition outcome_match :: "outcome \<Rightarrow> int \<Rightarrow> int \<Rightarrow> match_row \<Rightarrow> match_row" where
  "outcome_match oc revision now n =
     (if oc_terminal oc then
        n\<lparr>m_status := oc_status oc, m_revision := revision, m_updated := now, m_finished := Some now,
          m_result := oc_result oc, m_winner := oc_winner oc, m_offline := None\<rparr>
      else n\<lparr>m_revision := revision, m_updated := now\<rparr>)"

definition record_outcome ::
  "service \<Rightarrow> faults \<Rightarrow> int \<Rightarrow> rules \<Rightarrow> match_row \<Rightarrow> player_row list \<Rightarrow> ActionRequest \<Rightarrow> actionSemantics \<Rightarrow>
   outcome \<Rightarrow> db \<Rightarrow> match_error + db" where
  "record_outcome sv flt now rules m ps r sem oc db =
     and_then (if oc_terminal oc
         then validateCompleteActiveSlotSet flt db (m_game m) (m_id m) (player_ids ps) (singleActiveMatch rules)
         else Inr ()) (\<lambda>_.
     and_then (insert_event flt (outcome_event m r oc now) db) (\<lambda>db.
     and_then
       (if oc_status oc = StatusAbandoned then
          insert_limit flt \<lparr>l_match = m_id m, l_revision = m_revision m + 1, l_actor = rq_actor r,
            l_action = rq_action r, l_type = rq_type r,
            l_piece = (if rq_type r = FlightChess.MoveRequested then as_piece sem else -1)\<rparr> db
        else Inr db) (\<lambda>db.
     and_then (update_one_match flt
         (\<lambda>n. m_id n = m_id m \<and> m_status n = StatusActive \<and> m_revision n = m_revision m)
         (outcome_match oc (m_revision m + 1) now) db) (\<lambda>db.
     if oc_terminal oc then
       and_then (delete_slots flt (m_game m) (m_id m) (player_ids ps) (singleActiveMatch rules) db)
         (deleteMatchCredentials sv flt (m_id m))
     else Inr db))))"

definition has_prefix :: "bytes \<Rightarrow> bytes \<Rightarrow> bool" where
  "has_prefix s pre \<longleftrightarrow> take (length pre) s = pre"

text \<open>The connection's credential, when the request comes over one.\<close>

definition validConnectionCredential :: "identity \<Rightarrow> db \<Rightarrow> bool" where
  "validConnectionCredential c db \<longleftrightarrow>
     list_ex (\<lambda>u. us_epoch u = id_epoch c \<and> us_id u = id_user c \<and> us_enabled u = 1) (d_users db)"

text \<open>The event found for a request that was applied before, and whether it is a reserved end.\<close>

definition committed_event ::
  "faults \<Rightarrow> db \<Rightarrow> match_row \<Rightarrow> ActionRequest \<Rightarrow> actionSemantics \<Rightarrow> match_error + (event_row \<times> bool) option" where
  "committed_event flt db m r sem =
     and_then (readActionEvent flt db (rq_match r) (rq_actor r) (rq_action r)) (\<lambda>found. case found of
       Some e \<Rightarrow> Inr (Some (e, False))
     | None \<Rightarrow>
         if m_game m = FlightChess.GameID \<and> m_status m = StatusAbandoned
         then and_then (readFlightChessLimitAction flt db r sem) (\<lambda>e. Inr (map_option (\<lambda>e. (e, True)) e))
         else Inr None)"

definition answer_retry ::
  "service \<Rightarrow> faults \<Rightarrow> db \<Rightarrow> match_row \<Rightarrow> player_row list \<Rightarrow> ActionRequest \<Rightarrow> actionSemantics \<Rightarrow> event_row \<times> bool \<Rightarrow>
   match_error + (event_row \<times> match_snapshot) \<times> db" where
  "answer_retry sv flt db m ps r sem found =
     and_then
       (if snd found then Inr (playerMember ps (rq_actor r), ErrInternal)
        else and_then (committedActionMatches (sv_parse sv) (fst found) r sem ps) (\<lambda>ok. Inr (ok, ErrActionConflict)))
       (\<lambda>(ok, err).
     if \<not> ok then Inl err
     else and_then (rebuildSnapshot sv flt db m ps) (\<lambda>snap. commit flt (fst found, snap) db))"

definition apply_new ::
  "service \<Rightarrow> faults \<Rightarrow> int \<Rightarrow> nat list \<Rightarrow> db \<Rightarrow> rules \<Rightarrow> match_row \<Rightarrow> player_row list \<Rightarrow> ActionRequest \<Rightarrow>
   actionSemantics \<Rightarrow> match_error + (event_row \<times> match_snapshot) \<times> db" where
  "apply_new sv flt now random db rules m ps r sem =
     (if m_status m \<noteq> StatusActive then Inl ErrInvalidRequest
      else case actionPlayers ps (rq_actor r) of
        None \<Rightarrow> Inl ErrInvalidRequest
      | Some (actor, opponent) \<Rightarrow>
          and_then (if rq_revision r \<noteq> m_revision m then acceptsPreviousRpsChoiceRevision flt db m r else Inr True)
            (\<lambda>accepted.
          if \<not> accepted then Inl ErrStaleRevision
          else
          and_then (rebuildSnapshot sv flt db m ps) (\<lambda>current.
          if m_revision m = max_i64 then Inl ErrInternal
          else
          and_then (produce rules random m ps actor opponent (ms_game current) r sem) (\<lambda>oc.
          and_then (record_outcome sv flt now rules m ps r sem oc db) (\<lambda>db.
          commit flt (outcome_event m r oc now,
            \<lparr>ms_match = outcome_match oc (m_revision m + 1) now m, ms_players = ps, ms_game = oc_game oc\<rparr>) db)))))"

definition ApplyAction ::
  "service \<Rightarrow> faults \<Rightarrow> identity option \<Rightarrow> identity option \<Rightarrow> int \<Rightarrow> nat list \<Rightarrow> ActionRequest \<Rightarrow> db \<Rightarrow>
   match_error + (event_row \<times> match_snapshot) \<times> db" where
  "ApplyAction sv flt ctx conn now random r db =
     and_then (validateActionRequest (sv_parse sv) r) (\<lambda>sem.
     and_then (beginWriteTransaction flt ctx db) (\<lambda>_.
     if (case conn of None \<Rightarrow> False | Some c \<Rightarrow> \<not> validConnectionCredential c db) then Inl ErrResumeExpired
     else
     and_then (loadMatchAndPlayers sv flt db (rq_match r)) (\<lambda>(m, ps).
     if \<not> has_prefix (rq_type r) (m_game m @ ''.'') then Inl ErrInvalidRequest
     else case Lookup (sv_games sv) (m_game m) of
       None \<Rightarrow> Inl ErrInternal
     | Some template \<Rightarrow>
         if ru_limit template \<noteq> 2 then Inl ErrInternal
         else
     and_then (rulesForMatch template m) (\<lambda>rules.
     and_then (committed_event flt db m r sem) (\<lambda>found. case found of
       Some f \<Rightarrow> answer_retry sv flt db m ps r sem f
     | None \<Rightarrow> apply_new sv flt now random db rules m ps r sem)))))"

end
