(* ===== verification/MatchTables.thy ===== *)
theory MatchTables
  imports MatchPlay
begin

text \<open>
  The tables of the match service as the operations change them: the effect of every operation
  that succeeds, the invariant \<open>tables_ok\<close> of the tables, and its preservation by each of them.
  An operation that moves a match on appends one event to its log; one that ends it also removes
  its slots and credentials (\<open>stepped_db\<close>).
\<close>

subsection \<open>What the statements do\<close>

lemma run_Inr [simp]: "run flt s x = Inr y \<longleftrightarrow> \<not> flt s \<and> y = x"
  by (auto simp: run_def)

lemma commit_Inr [simp]: "commit flt x db = Inr (y, db') \<longleftrightarrow> \<not> flt Q_Commit \<and> y = x \<and> db' = db"
  by (auto simp: commit_def)

lemma begin_Inr [simp]:
  "beginWriteTransaction flt ctx db = Inr u \<longleftrightarrow> \<not> flt Q_Begin \<and> GuardTransaction ctx (d_users db)"
  by (auto simp: beginWriteTransaction_def)

lemma insert_event_iff [simp]:
  "insert_event flt e db = Inr db' \<longleftrightarrow>
     \<not> (flt X_Event \<or> find_match db (e_match e) = None \<or>
         (case e_actor e of None \<Rightarrow> False | Some u \<Rightarrow> find_user db u = None) \<or>
         list_ex (\<lambda>r. e_match r = e_match e \<and>
           (e_revision r = e_revision e \<or>
            e_actor r \<noteq> None \<and> e_actor r = e_actor e \<and> e_action r \<noteq> None \<and> e_action r = e_action e)) (d_events db)) \<and>
     db' = db\<lparr>d_events := d_events db @ [e]\<rparr>"
  by (auto simp: insert_event_def)

lemma update_one_match_iff [simp]:
  "update_one_match flt P f db = Inr db' \<longleftrightarrow>
     \<not> flt U_Match \<and> length (filter P (d_matches db)) = 1 \<and>
     db' = db\<lparr>d_matches := map (\<lambda>m. if P m then f m else m) (d_matches db)\<rparr>"
  by (auto simp: update_one_match_def)

definition slot_hit :: "bytes \<Rightarrow> bytes \<Rightarrow> bytes \<times> bytes \<Rightarrow> slot_row \<Rightarrow> bool" where
  "slot_hit g i users s \<longleftrightarrow> s_game s = g \<and> s_match s = i \<and> (s_user s = fst users \<or> s_user s = snd users)"

lemma delete_slots_iff [simp]:
  "delete_slots flt g i users single db = Inr db' \<longleftrightarrow>
     \<not> flt D_Slots \<and> length (filter (slot_hit g i users) (d_slots db)) = (if single then 2 else 0) \<and>
     db' = db\<lparr>d_slots := filter (\<lambda>s. \<not> slot_hit g i users s) (d_slots db)\<rparr>"
  by (auto simp: delete_slots_def Let_def slot_hit_def [abs_def])

lemma deleteMatchCredentials_iff [simp]:
  "deleteMatchCredentials sv flt i db = Inr db' \<longleftrightarrow>
     canonicalUUID (sv_parse sv) i \<and> \<not> flt D_Tickets \<and> \<not> flt D_Tokens \<and>
     db' = db\<lparr>d_tickets := filter (\<lambda>t. t_match t \<noteq> i) (d_tickets db),
              d_tokens := filter (\<lambda>k. k_match k \<noteq> i) (d_tokens db)\<rparr>"
  by (auto simp: deleteMatchCredentials_def)

lemma validateSlots_iff [simp]:
  "validateCompleteActiveSlotSet flt db g i users single = Inr u \<longleftrightarrow>
     \<not> flt Q_Slots \<and> slots_complete db g i users single"
  by (auto simp: validateCompleteActiveSlotSet_def)

lemma loadMatchAndPlayers_Inr:
  "loadMatchAndPlayers sv flt db i = Inr (m, ps) \<Longrightarrow>
     find_match db i = Some m \<and> ps = players_of db i \<and> valid_players ps \<and> canonicalUUID (sv_parse sv) i \<and>
     m_game m \<noteq> '''' \<and> 0 \<le> m_revision m"
  by (auto simp: loadMatchAndPlayers_def split: option.splits if_splits)

lemma find_match_Some: "find_match db i = Some m \<Longrightarrow> m \<in> set (d_matches db) \<and> m_id m = i"
  by (auto simp: find_match_def find_Some_iff)

lemma find_match_key:
  "distinct (map m_id (d_matches db)) \<Longrightarrow> m \<in> set (d_matches db) \<Longrightarrow> find_match db (m_id m) = Some m"
proof -
  have "find (\<lambda>n. m_id n = m_id m) ms = Some m" if "distinct (map m_id ms)" "m \<in> set ms" for ms
    using that by (induction ms) (auto simp: image_iff)
  then show "distinct (map m_id (d_matches db)) \<Longrightarrow> m \<in> set (d_matches db) \<Longrightarrow> ?thesis"
    by (simp add: find_match_def)
qed

subsection \<open>The invariant\<close>

definition single_game :: "service \<Rightarrow> bytes \<Rightarrow> bool" where
  "single_game sv g \<longleftrightarrow> (case Lookup (sv_games sv) g of None \<Rightarrow> False | Some r \<Rightarrow> singleActiveMatch r)"

definition users_of :: "db \<Rightarrow> bytes \<Rightarrow> bytes list" where
  "users_of db i = map p_user (players_of db i)"

definition playing :: "db \<Rightarrow> bytes \<Rightarrow> bytes \<Rightarrow> bytes \<Rightarrow> bool" where
  "playing db i g user \<longleftrightarrow>
     (\<exists>m\<in>set (d_matches db). m_id m = i \<and> m_game m = g \<and> m_status m = StatusActive) \<and> user \<in> set (users_of db i)"

definition row_ok :: "service \<Rightarrow> db \<Rightarrow> match_row \<Rightarrow> bool" where
  "row_ok sv db m \<longleftrightarrow>
     0 \<le> m_revision m \<and> m_revision m \<le> max_i64 \<and> valid_players (players_of db (m_id m)) \<and>
     map e_revision (filter (\<lambda>e. e_match e = m_id m) (d_events db)) = map int [1..<Suc (nat (m_revision m))] \<and>
     (m_status m = StatusActive \<and> single_game sv (m_game m) \<longrightarrow>
       (\<forall>u\<in>set (users_of db (m_id m)). \<lparr>s_game = m_game m, s_user = u, s_match = m_id m\<rparr> \<in> set (d_slots db)))"

definition tables_ok :: "service \<Rightarrow> db \<Rightarrow> bool" where
  "tables_ok sv db \<longleftrightarrow>
     distinct (map m_id (d_matches db)) \<and> (\<forall>m\<in>set (d_matches db). row_ok sv db m) \<and>
     (\<forall>p\<in>set (d_players db). p_match p \<in> m_id ` set (d_matches db)) \<and>
     (\<forall>e\<in>set (d_events db). e_match e \<in> m_id ` set (d_matches db)) \<and>
     distinct (map (\<lambda>s. (s_game s, s_user s)) (d_slots db)) \<and>
     (\<forall>s\<in>set (d_slots db). single_game sv (s_game s) \<and> playing db (s_match s) (s_game s) (s_user s)) \<and>
     distinct (map t_hash (d_tickets db)) \<and> distinct (map (\<lambda>t. (t_match t, t_user t)) (d_tickets db)) \<and>
     (\<forall>t\<in>set (d_tickets db). playing db (t_match t) (t_game t) (t_user t)) \<and>
     distinct (map k_hash (d_tokens db)) \<and> distinct (map (\<lambda>k. (k_match k, k_user k)) (d_tokens db)) \<and>
     (\<forall>k\<in>set (d_tokens db). \<exists>g. playing db (k_match k) g (k_user k))"

lemma users_of_players: "d_players db' = d_players db \<Longrightarrow> users_of db' i = users_of db i"
  by (simp add: users_of_def players_of_def)

lemma tables_ok_row: "tables_ok sv db \<Longrightarrow> m \<in> set (d_matches db) \<Longrightarrow> row_ok sv db m"
  by (simp add: tables_ok_def)

lemma playing_iff:
  "distinct (map m_id (d_matches db)) \<Longrightarrow> m \<in> set (d_matches db) \<Longrightarrow>
   playing db (m_id m) g u \<longleftrightarrow> m_game m = g \<and> m_status m = StatusActive \<and> u \<in> set (users_of db (m_id m))"
  unfolding playing_def by (metis distinct_map inj_onD)

subsection \<open>Preservation\<close>

lemma slot_hit_match:
  assumes "tables_ok sv db" "m \<in> set (d_matches db)" "users_of db (m_id m) = [fst us, snd us]" "s \<in> set (d_slots db)"
  shows "slot_hit (m_game m) (m_id m) us s \<longleftrightarrow> s_match s = m_id m"
proof
  assume i: "s_match s = m_id m"
  have "playing db (m_id m) (s_game s) (s_user s)" using assms(1,4) i by (auto simp: tables_ok_def)
  then have "m_game m = s_game s" "s_user s \<in> set (users_of db (m_id m))"
    using playing_iff [of db m] assms(1,2) by (auto simp: tables_ok_def)
  with i assms(3) show "slot_hit (m_game m) (m_id m) us s" by (auto simp: slot_hit_def)
qed (simp add: slot_hit_def)

text \<open>
  What an event does to the tables: it is appended to the log of its match, the row moves on, and
  when the match ends with it the slots and credentials of the match go.
\<close>

definition stepped_db :: "match_row \<Rightarrow> event_row \<Rightarrow> (match_row \<Rightarrow> match_row) \<Rightarrow> limit_row list \<Rightarrow> db \<Rightarrow> db" where
  "stepped_db m e f ls db = db\<lparr>
     d_events := d_events db @ [e], d_limits := d_limits db @ ls,
     d_matches := map f (d_matches db),
     d_slots := filter (\<lambda>s. m_status (f m) = StatusActive \<or> s_match s \<noteq> m_id m) (d_slots db),
     d_tickets := filter (\<lambda>t. m_status (f m) = StatusActive \<or> t_match t \<noteq> m_id m) (d_tickets db),
     d_tokens := filter (\<lambda>k. m_status (f m) = StatusActive \<or> k_match k \<noteq> m_id m) (d_tokens db)\<rparr>"

definition moves_on :: "db \<Rightarrow> match_row \<Rightarrow> (match_row \<Rightarrow> match_row) \<Rightarrow> bool" where
  "moves_on db m f \<longleftrightarrow>
     (\<forall>n\<in>set (d_matches db). m_id n \<noteq> m_id m \<longrightarrow> f n = n) \<and>
     m_id (f m) = m_id m \<and> m_game (f m) = m_game m \<and> m_revision (f m) = m_revision m + 1"

lemma configured_single: "configureRules r c = Some (r', c') \<Longrightarrow> singleActiveMatch r' = singleActiveMatch r"
  by (auto simp: configureRules_def rules_Configure_def singleActiveMatch_def
      split: if_splits option.splits sum.splits)

lemma moves_on_id: "moves_on db m f \<Longrightarrow> distinct (map m_id (d_matches db)) \<Longrightarrow> m \<in> set (d_matches db) \<Longrightarrow>
   n \<in> set (d_matches db) \<Longrightarrow> m_id (f n) = m_id n \<and> (m_id n = m_id m \<longrightarrow> n = m)"
  unfolding moves_on_def by (metis distinct_map inj_onD)

lemma stepped_simps [simp]:
  "d_players (stepped_db m e f ls db) = d_players db" "d_users (stepped_db m e f ls db) = d_users db"
  "players_of (stepped_db m e f ls db) i = players_of db i" "users_of (stepped_db m e f ls db) i = users_of db i"
  "d_matches (stepped_db m e f ls db) = map f (d_matches db)"
  "d_events (stepped_db m e f ls db) = d_events db @ [e]"
  "d_slots (stepped_db m e f ls db) =
     filter (\<lambda>s. m_status (f m) = StatusActive \<or> s_match s \<noteq> m_id m) (d_slots db)"
  "d_tickets (stepped_db m e f ls db) =
     filter (\<lambda>t. m_status (f m) = StatusActive \<or> t_match t \<noteq> m_id m) (d_tickets db)"
  "d_tokens (stepped_db m e f ls db) =
     filter (\<lambda>k. m_status (f m) = StatusActive \<or> k_match k \<noteq> m_id m) (d_tokens db)"
  by (simp_all add: stepped_db_def players_of_def users_of_def)

lemma playing_stepped:
  assumes d: "distinct (map m_id (d_matches db))" and m: "m \<in> set (d_matches db)" "m_status m = StatusActive"
    and f: "moves_on db m f"
  shows "playing (stepped_db m e f ls db) i g u \<longleftrightarrow>
    playing db i g u \<and> (i \<noteq> m_id m \<or> m_status (f m) = StatusActive)"
proof -
  note same = moves_on_id [OF f d m(1)]
  have fm: "m_game (f m) = m_game m" "m_id (f m) = m_id m" using f by (simp_all add: moves_on_def)
  have other: "f n = n" if "n \<in> set (d_matches db)" "m_id n \<noteq> m_id m" for n
    using f that by (simp add: moves_on_def)
  show ?thesis
  proof (cases "i = m_id m")
    case True
    let ?Q = "\<lambda>n. m_game n = g \<and> m_status n = StatusActive"
    have "(\<exists>n\<in>set (d_matches db). m_id (f n) = m_id m \<and> ?Q (f n)) \<longleftrightarrow> ?Q (f m)"
      using same m(1) fm by metis
    moreover have "(\<exists>n\<in>set (d_matches db). m_id n = m_id m \<and> ?Q n) \<longleftrightarrow> ?Q m" using same m(1) by metis
    ultimately show ?thesis using m(2) fm unfolding playing_def True by auto
  next
    case False
    let ?Q = "\<lambda>n. m_game n = g \<and> m_status n = StatusActive"
    have "(\<exists>n\<in>set (d_matches db). m_id (f n) = i \<and> ?Q (f n)) \<longleftrightarrow> (\<exists>n\<in>set (d_matches db). m_id n = i \<and> ?Q n)"
      using same other False by metis
    then show ?thesis using False unfolding playing_def by simp
  qed
qed

lemma row_ok_stepped:
  assumes r: "row_ok sv db m" and m: "m_status m = StatusActive"
    and f: "moves_on db m f" "m_revision m < max_i64" and e: "e_match e = m_id m" "e_revision e = m_revision m + 1"
  shows "row_ok sv (stepped_db m e f ls db) (f m)"
proof -
  have "int (Suc (nat (m_revision m))) = m_revision m + 1" "nat (m_revision m + 1) = Suc (nat (m_revision m))"
    using r by (auto simp: row_ok_def nat_add_distrib)
  then show ?thesis using r m f e
    by (auto simp: row_ok_def moves_on_def)
qed

lemma row_ok_stepped_other:
  "row_ok sv db n \<Longrightarrow> m_id n \<noteq> m_id m \<Longrightarrow> e_match e = m_id m \<Longrightarrow> row_ok sv (stepped_db m e f ls db) n"
  by (simp add: row_ok_def)

lemma tables_ok_stepped:
  assumes ok: "tables_ok sv db" and m: "m \<in> set (d_matches db)" "m_status m = StatusActive"
    and f: "moves_on db m f" "m_revision m < max_i64" and e: "e_match e = m_id m" "e_revision e = m_revision m + 1"
  shows "tables_ok sv (stepped_db m e f ls db)"
proof -
  let ?db = "stepped_db m e f ls db"
  have d: "distinct (map m_id (d_matches db))" using ok by (simp add: tables_ok_def)
  note same = moves_on_id [OF f(1) d m(1)] and play = playing_stepped [OF d m f(1)]
  have ids: "map m_id (map f (d_matches db)) = map m_id (d_matches db)" using same by simp
  have idset: "m_id ` set (map f (d_matches db)) = m_id ` set (d_matches db)"
    using arg_cong [OF ids, of set] by (simp only: set_map)
  have rows: "row_ok sv ?db (f n)" if n: "n \<in> set (d_matches db)" for n
  proof (cases "m_id n = m_id m")
    case True
    then show ?thesis using same n row_ok_stepped [OF tables_ok_row [OF ok m(1)] m(2) f e] by metis
  next
    case False
    then show ?thesis using f n row_ok_stepped_other [OF tables_ok_row [OF ok n]] e by (simp add: moves_on_def)
  qed
  show ?thesis
    unfolding tables_ok_def
  proof (intro conjI)
    show "distinct (map m_id (d_matches ?db))" using d ids by (simp only: stepped_simps)
    show "\<forall>n\<in>set (d_matches ?db). row_ok sv ?db n" using rows by simp
    show "\<forall>p\<in>set (d_players ?db). p_match p \<in> m_id ` set (d_matches ?db)"
      using ok unfolding tables_ok_def stepped_simps idset by blast
    show "\<forall>e\<in>set (d_events ?db). e_match e \<in> m_id ` set (d_matches ?db)"
      using ok m e(1) unfolding tables_ok_def stepped_simps idset by auto
    show "distinct (map (\<lambda>s. (s_game s, s_user s)) (d_slots ?db))"
      using ok by (simp add: tables_ok_def distinct_map_filter)
    show "\<forall>s\<in>set (d_slots ?db). single_game sv (s_game s) \<and> playing ?db (s_match s) (s_game s) (s_user s)"
      using ok unfolding play by (auto simp: tables_ok_def)
    show "distinct (map t_hash (d_tickets ?db))" "distinct (map (\<lambda>t. (t_match t, t_user t)) (d_tickets ?db))"
      using ok by (simp_all add: tables_ok_def distinct_map_filter)
    show "\<forall>t\<in>set (d_tickets ?db). playing ?db (t_match t) (t_game t) (t_user t)"
      using ok unfolding play by (auto simp: tables_ok_def)
    show "distinct (map k_hash (d_tokens ?db))" "distinct (map (\<lambda>k. (k_match k, k_user k)) (d_tokens ?db))"
      using ok by (simp_all add: tables_ok_def distinct_map_filter)
    show "\<forall>k\<in>set (d_tokens ?db). \<exists>g. playing ?db (k_match k) g (k_user k)"
      using ok unfolding play by (auto simp: tables_ok_def)
  qed
qed

text \<open>Changes that leave the logs and the active matches alone.\<close>

definition same_row :: "match_row \<Rightarrow> match_row \<Rightarrow> bool" where
  "same_row n n' \<longleftrightarrow> m_id n' = m_id n \<and> m_game n' = m_game n \<and> m_status n' = m_status n \<and> m_revision n' = m_revision n"

lemma tables_ok_touched:
  assumes ok: "tables_ok sv db" and f: "\<And>n. same_row n (f n)"
  shows "tables_ok sv (db\<lparr>d_matches := map f (d_matches db)\<rparr>)" (is "tables_ok sv ?db")
proof -
  have f: "m_id (f n) = m_id n" "m_game (f n) = m_game n" "m_status (f n) = m_status n"
    "m_revision (f n) = m_revision n" for n using f by (simp_all add: same_row_def)
  have us: "users_of ?db i = users_of db i" "players_of ?db i = players_of db i" for i
    by (simp_all add: users_of_def players_of_def)
  have play: "playing ?db i g u = playing db i g u" for i g u by (simp add: playing_def us f)
  have rows: "row_ok sv ?db (f n) = row_ok sv db n" for n by (simp add: row_ok_def us f)
  have ids: "map m_id (map f ms) = map m_id ms" for ms by (simp add: f)
  show ?thesis using ok by (simp add: tables_ok_def play rows ids f image_image comp_def)
qed

lemma tables_ok_tickets:
  assumes ok: "tables_ok sv db" and ts: "distinct (map t_hash ts)" "distinct (map (\<lambda>t. (t_match t, t_user t)) ts)"
    and p: "\<forall>t\<in>set ts. playing db (t_match t) (t_game t) (t_user t)"
  shows "tables_ok sv (db\<lparr>d_tickets := ts\<rparr>)" (is "tables_ok sv ?db")
proof -
  have us: "users_of ?db i = users_of db i" "players_of ?db i = players_of db i" for i
    by (simp_all add: users_of_def players_of_def)
  have play: "playing ?db i g u = playing db i g u" for i g u by (simp add: playing_def us)
  have rows: "row_ok sv ?db n = row_ok sv db n" for n by (simp add: row_ok_def us)
  show ?thesis using ok ts p by (simp add: tables_ok_def play rows)
qed

lemma tables_ok_tokens:
  assumes ok: "tables_ok sv db" and ks: "distinct (map k_hash ks)" "distinct (map (\<lambda>k. (k_match k, k_user k)) ks)"
    and p: "\<forall>k\<in>set ks. \<exists>g. playing db (k_match k) g (k_user k)"
  shows "tables_ok sv (db\<lparr>d_tokens := ks\<rparr>)" (is "tables_ok sv ?db")
proof -
  have us: "users_of ?db i = users_of db i" "players_of ?db i = players_of db i" for i
    by (simp_all add: users_of_def players_of_def)
  have play: "playing ?db i g u = playing db i g u" for i g u by (simp add: playing_def us)
  have rows: "row_ok sv ?db n = row_ok sv db n" for n by (simp add: row_ok_def us)
  show ?thesis using ok ks p by (simp add: tables_ok_def play rows)
qed

lemma tables_ok_users: "tables_ok sv db \<Longrightarrow> tables_ok sv (db\<lparr>d_users := us\<rparr>)"
  by (simp add: tables_ok_def row_ok_def playing_def users_of_def players_of_def)

text \<open>A new match: its row, its two players and, when the game allows one match a player, its slots.\<close>

definition created_db :: "match_row \<Rightarrow> player_row \<Rightarrow> player_row \<Rightarrow> bool \<Rightarrow> db \<Rightarrow> db" where
  "created_db m p q single db = db\<lparr>
     d_matches := d_matches db @ [m], d_players := d_players db @ [p, q],
     d_slots := d_slots db @ (if single then [\<lparr>s_game = m_game m, s_user = p_user p, s_match = m_id m\<rparr>,
        \<lparr>s_game = m_game m, s_user = p_user q, s_match = m_id m\<rparr>] else [])\<rparr>"

lemma created_simps [simp]:
  "d_matches (created_db m p q single db) = d_matches db @ [m]"
  "d_players (created_db m p q single db) = d_players db @ [p, q]"
  "d_slots (created_db m p q single db) =
     d_slots db @ (if single then [\<lparr>s_game = m_game m, s_user = p_user p, s_match = m_id m\<rparr>,
        \<lparr>s_game = m_game m, s_user = p_user q, s_match = m_id m\<rparr>] else [])"
  "d_events (created_db m p q single db) = d_events db" "d_tickets (created_db m p q single db) = d_tickets db"
  "d_tokens (created_db m p q single db) = d_tokens db" "d_users (created_db m p q single db) = d_users db"
  by (simp_all add: created_db_def)

lemma tables_ok_created:
  assumes ok: "tables_ok sv db" and m: "find_match db (m_id m) = None" "m_status m = StatusActive" "m_revision m = 0"
    and ps: "valid_players [p, q]" "p_match p = m_id m" "p_match q = m_id m"
    and single: "single = single_game sv (m_game m)"
    and free: "single \<Longrightarrow> \<forall>s\<in>set (d_slots db). \<not> (s_game s = m_game m \<and> (s_user s = p_user p \<or> s_user s = p_user q))"
  shows "tables_ok sv (created_db m p q single db)" (is "tables_ok sv ?db")
proof -
  have new: "m_id m \<notin> m_id ` set (d_matches db)"
    using m(1) by (auto simp: find_match_def find_None_iff)
  then have fresh: "\<forall>n\<in>set (d_matches db). m_id n \<noteq> m_id m" by (metis image_eqI)
  have seats: "p_seat p = 0" "p_seat q = 1" "p_user p \<noteq> p_user q" using ps(1) by (auto simp: valid_players_def)
  have none: "filter (\<lambda>r. p_match r = m_id m) (d_players db) = []"
  proof -
    have "\<forall>r\<in>set (d_players db). p_match r \<in> m_id ` set (d_matches db)" using ok by (simp add: tables_ok_def)
    then show ?thesis using new by (metis (mono_tags, lifting) filter_False)
  qed
  have pm: "players_of (created_db m p q b db) (m_id m) = [p, q]" for b
    using seats ps none by (simp add: players_of_def)
  have po: "players_of (created_db m p q b db) i = players_of db i" if "i \<noteq> m_id m" for i b
    using that ps by (simp add: players_of_def)
  have play: "playing ?db i g u \<longleftrightarrow>
      (if i = m_id m then m_game m = g \<and> (u = p_user p \<or> u = p_user q) else playing db i g u)" for i g u
  proof (cases "i = m_id m")
    case True
    have "(\<exists>n\<in>set (d_matches ?db). m_id n = m_id m \<and> m_game n = g \<and> m_status n = StatusActive) \<longleftrightarrow> m_game m = g"
      using fresh m(2) by auto
    then show ?thesis by (simp add: playing_def users_of_def pm True)
  next
    case False
    then show ?thesis by (simp add: playing_def users_of_def po)
  qed
  have noevents: "filter (\<lambda>e. e_match e = m_id m) (d_events db) = []"
  proof -
    have "\<forall>e\<in>set (d_events db). e_match e \<in> m_id ` set (d_matches db)" using ok by (simp add: tables_ok_def)
    then show ?thesis using new by (metis (mono_tags, lifting) filter_False)
  qed
  have rows: "row_ok sv ?db n" if n: "n \<in> set (d_matches ?db)" for n
  proof (cases "n = m")
    case True
    then show ?thesis using m ps(1) noevents single
      by (auto simp: row_ok_def pm users_of_def max_i64_def)
  next
    case False
    then have nm: "n \<in> set (d_matches db)" "m_id n \<noteq> m_id m" using n fresh by auto
    then show ?thesis using tables_ok_row [OF ok nm(1)]
      by (auto simp: row_ok_def po users_of_def)
  qed
  have keep: "playing ?db i g u" if "playing db i g u" for i g u
  proof -
    have "i \<noteq> m_id m" using that fresh by (auto simp: playing_def)
    then show ?thesis using that by (simp add: play)
  qed
  have new2: "playing ?db (m_id m) (m_game m) (p_user p)" "playing ?db (m_id m) (m_game m) (p_user q)"
    by (simp_all add: play)
  have olds: "\<forall>s\<in>set (d_slots db). single_game sv (s_game s) \<and> playing db (s_match s) (s_game s) (s_user s)"
    "\<forall>t\<in>set (d_tickets db). playing db (t_match t) (t_game t) (t_user t)"
    "\<forall>k\<in>set (d_tokens db). \<exists>g. playing db (k_match k) g (k_user k)"
    using ok by (simp_all add: tables_ok_def)
  show ?thesis
    unfolding tables_ok_def
  proof (intro conjI)
    show "distinct (map m_id (d_matches ?db))" using ok new by (simp add: tables_ok_def)
    show "\<forall>n\<in>set (d_matches ?db). row_ok sv ?db n" using rows by blast
    show "\<forall>r\<in>set (d_players ?db). p_match r \<in> m_id ` set (d_matches ?db)"
      using ok ps by (auto simp: tables_ok_def)
    show "\<forall>e\<in>set (d_events ?db). e_match e \<in> m_id ` set (d_matches ?db)"
      using ok by (auto simp: tables_ok_def)
    show "distinct (map (\<lambda>s. (s_game s, s_user s)) (d_slots ?db))"
      using ok free seats by (auto simp: tables_ok_def)
    show "\<forall>s\<in>set (d_slots ?db). single_game sv (s_game s) \<and> playing ?db (s_match s) (s_game s) (s_user s)"
      using olds(1) single new2 keep by auto
    show "distinct (map t_hash (d_tickets ?db))" "distinct (map (\<lambda>t. (t_match t, t_user t)) (d_tickets ?db))"
      using ok by (simp_all add: tables_ok_def)
    show "\<forall>t\<in>set (d_tickets ?db). playing ?db (t_match t) (t_game t) (t_user t)"
      using olds(2) keep by auto
    show "distinct (map k_hash (d_tokens ?db))" "distinct (map (\<lambda>k. (k_match k, k_user k)) (d_tokens ?db))"
      using ok by (simp_all add: tables_ok_def)
    show "\<forall>k\<in>set (d_tokens ?db). \<exists>g. playing ?db (k_match k) g (k_user k)"
      using olds(3) keep unfolding created_simps by blast
  qed
qed

subsection \<open>The operations\<close>

lemma mb_insert_match_iff [simp]:
  "insert_match flt m db = Inr db' \<longleftrightarrow>
     \<not> flt X_Match \<and> find_match db (m_id m) = None \<and> db' = db\<lparr>d_matches := d_matches db @ [m]\<rparr>"
  by (auto simp: insert_match_def)

lemma insert_player_Inr:
  "insert_player flt p db = Inr db' \<Longrightarrow> db' = db\<lparr>d_players := d_players db @ [p]\<rparr>"
  by (auto simp: insert_player_def split: if_splits)

lemma insert_slot_Inr:
  "insert_slot flt conflict s db = Inr db' \<Longrightarrow>
     db' = db\<lparr>d_slots := d_slots db @ [s]\<rparr> \<and> (\<forall>r\<in>set (d_slots db). \<not> (s_game r = s_game s \<and> s_user r = s_user s))"
  by (auto simp: insert_slot_def list_ex_iff split: if_splits)

lemma randomColors_Some:
  "randomColors random = Some c \<Longrightarrow> c = (ColorBlack, ColorWhite) \<or> c = (ColorWhite, ColorBlack)"
  by (auto simp: randomColors_def split: list.splits if_splits)

definition new_player :: "bytes \<Rightarrow> bytes \<Rightarrow> int \<Rightarrow> bytes \<Rightarrow> player_row" where
  "new_player i user n color = \<lparr>p_match = i, p_user = user, p_seat = n, p_color = color\<rparr>"

lemma create_effect:
  assumes "CreateWithConfig sv flt ctx now random fresh g a b config db = Inr (m, db')"
  shows "\<exists>i normal c d. m = new_match i g normal now \<and> fresh = Some i \<and> find_match db i = None \<and>
    valid_players [new_player i a 0 c, new_player i b 1 d] \<and>
    db' = created_db m (new_player i a 0 c) (new_player i b 1 d) (single_game sv g) db \<and>
    (single_game sv g \<longrightarrow> (\<forall>s\<in>set (d_slots db). \<not> (s_game s = g \<and> (s_user s = a \<or> s_user s = b))))"
  using assms unfolding CreateWithConfig_def
proof (clarsimp split del: if_split split: if_split_asm option.split_asm, goal_cases)
  case (1 template r normal c d i db2 db3)
  have s: "single_game sv g = singleActiveMatch r"
    using 1(4) configured_single [OF 1(6)] by (simp add: single_game_def)
  have colors: "valid_players [new_player i a 0 c, new_player i b 1 d]"
    using 1(1-3) randomColors_Some [OF 1(11)]
    by (auto simp: valid_players_def new_player_def color_defs)
  have fresh: "find_match db i = None" using 1(14) by (simp add: new_match_def)
  show ?case
  proof (cases "singleActiveMatch r")
    case True
    then obtain db4 where db4: "insert_slot flt ErrActiveMatchExists \<lparr>s_game = g, s_user = a, s_match = i\<rparr> db3 = Inr db4"
      "insert_slot flt ErrOpponentBusy \<lparr>s_game = g, s_user = b, s_match = i\<rparr> db4 = Inr db'"
      and db3: "insert_player flt \<lparr>p_match = i, p_user = b, p_seat = 1, p_color = d\<rparr> db2 = Inr db3"
      "m = new_match i g normal now"
      using 1(16) by auto
    have "db' = created_db m (new_player i a 0 c) (new_player i b 1 d) (single_game sv g) db"
      "\<forall>s\<in>set (d_slots db). \<not> (s_game s = g \<and> (s_user s = a \<or> s_user s = b))"
      using True db3 insert_player_Inr [OF 1(15)] insert_player_Inr [OF db3(1)]
        insert_slot_Inr [OF db4(1)] insert_slot_Inr [OF db4(2)]
      by (auto simp: created_db_def new_player_def new_match_def s)
    then show ?thesis using colors db3(2) fresh by blast
  next
    case False
    then have db3: "insert_player flt \<lparr>p_match = i, p_user = b, p_seat = 1, p_color = d\<rparr> db2 = Inr db'"
      "m = new_match i g normal now"
      using 1(17) by auto
    have "db' = created_db m (new_player i a 0 c) (new_player i b 1 d) (single_game sv g) db" "\<not> single_game sv g"
      using False db3 insert_player_Inr [OF 1(15)] insert_player_Inr [OF db3(1)]
      by (auto simp: created_db_def new_player_def new_match_def s)
    then show ?thesis using colors db3(2) fresh by blast
  qed
qed

lemma tables_ok_create:
  assumes "CreateWithConfig sv flt ctx now random fresh g a b config db = Inr (m, db')" "tables_ok sv db"
  shows "tables_ok sv db'"
proof -
  obtain i normal c d where m: "m = new_match i g normal now" "find_match db i = None"
    "valid_players [new_player i a 0 c, new_player i b 1 d]"
    "db' = created_db m (new_player i a 0 c) (new_player i b 1 d) (single_game sv g) db"
    "single_game sv g \<longrightarrow> (\<forall>s\<in>set (d_slots db). \<not> (s_game s = g \<and> (s_user s = a \<or> s_user s = b)))"
    using create_effect [OF assms(1)] by blast
  show ?thesis unfolding m(4)
    using assms(2) m by (intro tables_ok_created) (simp_all add: new_match_def new_player_def)
qed

lemma moves_on_if:
  assumes "\<And>n. P n \<Longrightarrow> m_id n = m_id m" "P m"
    "m_id (f m) = m_id m" "m_game (f m) = m_game m" "m_revision (f m) = m_revision m + 1"
  shows "moves_on db m (\<lambda>n. if P n then f n else n)"
proof -
  have "(if P n then f n else n) = n" if "m_id n \<noteq> m_id m" for n
    using assms(1) [of n] that by (cases "P n") simp_all
  then show ?thesis using assms(2-) by (simp add: moves_on_def)
qed

lemma filter_match_slots:
  assumes "tables_ok sv db" "m \<in> set (d_matches db)" "users_of db (m_id m) = [fst us, snd us]"
  shows "filter (\<lambda>s. \<not> slot_hit (m_game m) (m_id m) us s) (d_slots db) = filter (\<lambda>s. s_match s \<noteq> m_id m) (d_slots db)"
  by (rule filter_cong [OF refl]) (simp add: slot_hit_match [OF assms])

lemma readTwoMatchPlayers_iff [simp]:
  "readTwoMatchPlayers flt db i = Inr (a, b) \<longleftrightarrow> \<not> flt Q_Players \<and> users_of db i = [a, b] \<and> a \<noteq> b"
  by (auto simp: readTwoMatchPlayers_def users_of_def split: list.splits if_splits)

lemma next_revision:
  assumes "0 \<le> r" "r \<le> max_i64" "\<not> i64 (r + 1) \<le> 0"
  shows "i64 (r + 1) = r + 1 \<and> r < max_i64"
proof (cases "r = max_i64")
  case True
  then show ?thesis using assms i64_succ_max by simp
next
  case False
  then show ?thesis using assms i64_succ [of r] by simp
qed

text \<open>Reading an operation that succeeded from its first statement to its last.\<close>

lemma and_thenE: "and_then x f = Inr y \<Longrightarrow> (\<And>z. x = Inr z \<Longrightarrow> f z = Inr y \<Longrightarrow> P) \<Longrightarrow> P"
  by auto

lemma guardE: "(if b then Inl e else x) = Inr y \<Longrightarrow> (\<not> b \<Longrightarrow> x = Inr y \<Longrightarrow> P) \<Longrightarrow> P"
  by (auto split: if_splits)

lemma foundE: "(case x of None \<Rightarrow> Inl e | Some v \<Rightarrow> f v) = Inr y \<Longrightarrow> (\<And>v. x = Some v \<Longrightarrow> f v = Inr y \<Longrightarrow> P) \<Longrightarrow> P"
  by (auto split: option.splits)

lemma pairE: "(case p of (a, b) \<Rightarrow> f a b) = Inr y \<Longrightarrow> (\<And>a b. p = (a, b) \<Longrightarrow> f a b = Inr y \<Longrightarrow> P) \<Longrightarrow> P"
  by (auto split: prod.splits)

lemma branchE: "(if b then x else y) = Inr z \<Longrightarrow> (b \<Longrightarrow> x = Inr z \<Longrightarrow> P) \<Longrightarrow> (\<not> b \<Longrightarrow> y = Inr z \<Longrightarrow> P) \<Longrightarrow> P"
  by (auto split: if_splits)

lemma loadE: "(case x of Inl e \<Rightarrow> if e = n then Inl a else Inl e | Inr p \<Rightarrow> f p) = Inr y \<Longrightarrow>
   (\<And>p. x = Inr p \<Longrightarrow> f p = Inr y \<Longrightarrow> P) \<Longrightarrow> P"
  by (auto split: sum.splits if_splits)

lemmas runE = and_thenE guardE foundE pairE loadE

text \<open>The statements that end a match.\<close>

lemma ended_stepped:
  assumes ok: "tables_ok sv db" and m: "m \<in> set (d_matches db)" "users_of db (m_id m) = [fst us, snd us]"
    and P: "P m" "m_status (g m) \<noteq> StatusActive"
    and d: "d1 = db\<lparr>d_events := d_events db @ [e], d_limits := d_limits db @ ls\<rparr>"
      "update_one_match flt P g d1 = Inr d2"
      "delete_slots flt (m_game m) (m_id m) us single d2 = Inr d3"
      "deleteMatchCredentials sv flt (m_id m) d3 = Inr d4"
  shows "d4 = stepped_db m e (\<lambda>n. if P n then g n else n) ls db"
  using d(2-) P filter_match_slots [OF ok m] unfolding d(1)
  by (simp add: stepped_db_def)

lemma find_match_row: "find_match db i = Some m \<Longrightarrow> tables_ok sv db \<Longrightarrow>
   m \<in> set (d_matches db) \<and> m_id m = i \<and> 0 \<le> m_revision m \<and> m_revision m \<le> max_i64"
  using find_match_Some tables_ok_row by (fastforce simp: row_ok_def)

lemma cancel_effect:
  assumes "Cancel sv flt ctx now i actor db = Inr (e, db')" "tables_ok sv db"
  shows "\<exists>m f. m \<in> set (d_matches db) \<and> m_id m = i \<and> m_status m = StatusActive \<and> m_revision m < max_i64 \<and>
    moves_on db m f \<and> m_status (f m) = StatusCancelled \<and> \<not> has_gameplay db i \<and> actor \<in> set (users_of db i) \<and>
    e = platform_event i (m_revision m + 1) TypeCancelled (Some actor) now \<and> db' = stepped_db m e f [] db"
  using assms(1) unfolding Cancel_def Let_def
proof (elim runE, goal_cases)
  case (1 _ row m users played r _ d1 d2 d3 d4)
  have m: "m \<in> set (d_matches db)" "m_id m = i" "m_status m = StatusActive"
    and rev: "i64 (m_revision m + 1) = m_revision m + 1 \<and> m_revision m < max_i64"
    using find_match_row [of db i m sv] next_revision [of "m_revision m"] 1(3,4,7,13) assms(2) by auto
  let ?P = "\<lambda>n. m_id n = i \<and> m_status n = StatusActive \<and> m_revision n = m_revision m"
  let ?g = "\<lambda>n. n\<lparr>m_status := StatusCancelled, m_revision := m_revision m + 1, m_updated := now,
    m_finished := Some now, m_winner := None, m_result := None\<rparr>"
  let ?e = "platform_event i (m_revision m + 1) TypeCancelled (Some actor) now"
  have st: "insert_event flt ?e db = Inr d1" "update_one_match flt ?P ?g d1 = Inr d2"
    "delete_slots flt (m_game m) (m_id m) users (singleActiveMatch r) d2 = Inr d3"
    "deleteMatchCredentials sv flt (m_id m) d3 = Inr d4"
    using 1(14-17) unfolding m(2) conjunct1 [OF rev] by - assumption+
  have us: "users_of db (m_id m) = [fst users, snd users]" using 1(5) m(2) by (cases users) simp
  have f: "moves_on db m (\<lambda>n. if ?P n then ?g n else n)" by (rule moves_on_if) (simp_all add: m)
  let ?f = "\<lambda>n. if ?P n then ?g n else n"
  have d4: "d4 = stepped_db m ?e ?f [] db"
    by (rule ended_stepped [OF assms(2) m(1) us _ _ _ st(2-4)]) (use st(1) m in \<open>simp_all add: status_defs\<close>)
  have "m_status (?f m) = StatusCancelled" "actor \<in> set (users_of db i)" "\<not> has_gameplay db i"
    "e = ?e" "db' = stepped_db m ?e ?f [] db"
    using 1(6,8,9,18) m us rev d4 by auto
  then show ?case using m rev f by blast
qed

lemma valid_player_ids: "valid_players ps \<Longrightarrow> map p_user ps = [fst (player_ids ps), snd (player_ids ps)]"
  by (auto simp: valid_players_def player_ids_def split: list.splits)

lemma load_row:
  assumes "loadMatchAndPlayers sv flt db i = Inr (m, ps)"
  shows "find_match db i = Some m" "m_id m = i" "users_of db i = [fst (player_ids ps), snd (player_ids ps)]"
    "ps = players_of db i"
  using loadMatchAndPlayers_Inr [OF assms] find_match_Some valid_player_ids [of ps] by (auto simp: users_of_def)

definition abandoned :: "int \<Rightarrow> match_row \<Rightarrow> match_row" where
  "abandoned now m = m\<lparr>m_status := StatusAbandoned, m_revision := m_revision m + 1, m_updated := now,
     m_finished := Some now, m_winner := None, m_result := None, m_offline := None\<rparr>"

lemma abandon_effect:
  assumes "abandonIfExpired sv flt ctx i cutoff now db = Inr (ev, db')" "tables_ok sv db"
  shows "ev = None \<and> db' = db \<and>
      (case find_match db i of None \<Rightarrow> True | Some m \<Rightarrow> m_status m \<noteq> StatusActive \<or> \<not> offline_since cutoff m) \<or>
    (\<exists>m f. m \<in> set (d_matches db) \<and> m_id m = i \<and> m_status m = StatusActive \<and> m_revision m < max_i64 \<and>
      moves_on db m f \<and> f m = abandoned now m \<and> offline_since cutoff m \<and>
      ev = Some (platform_event i (m_revision m + 1) TypeAbandoned None now) \<and> db' = stepped_db m (the ev) f [] db)"
proof (cases "loadMatchAndPlayers sv flt db i")
  case (Inl e)
  then have "e = ErrMatchNotFound" "ev = None" "db' = db"
    using assms(1) by (auto simp: abandonIfExpired_def split: if_splits)
  moreover have "find_match db i = None" using Inl \<open>e = ErrMatchNotFound\<close>
    by (auto simp: loadMatchAndPlayers_def run_def split: if_splits option.splits)
  ultimately show ?thesis by simp
next
  case (Inr mps)
  obtain m ps where mps: "mps = (m, ps)" by (cases mps)
  note row = load_row [OF Inr [unfolded mps]]
  have m: "m \<in> set (d_matches db)" "m_revision m \<le> max_i64" using find_match_row [OF row(1) assms(2)] by auto
  from assms(1) [unfolded abandonIfExpired_def Let_def Inr mps sum.case prod.case]
  show ?thesis
  proof (elim runE branchE, goal_cases)
    case (1 _ expired)
    then show ?case using row by auto
  next
    case (2 _ expired snap r d1 d2 d3 d4)
    then have active: "m_status m = StatusActive" "offline_since cutoff m" by auto
    let ?P = "\<lambda>n. m_id n = m_id m \<and> m_status n = StatusActive \<and> m_revision n = m_revision m \<and> offline_since cutoff n"
    let ?g = "\<lambda>n. n\<lparr>m_status := StatusAbandoned, m_revision := m_revision m + 1, m_updated := now,
        m_finished := Some now, m_winner := None, m_result := None, m_offline := None\<rparr>"
    let ?e = "platform_event (m_id m) (m_revision m + 1) TypeAbandoned None now"
    let ?f = "\<lambda>n. if ?P n then ?g n else n"
    have d4: "d4 = stepped_db m ?e ?f [] db"
      by (rule ended_stepped [OF assms(2) m(1) row(3) [folded row(2)] _ _ _ 2(9) 2(10) 2(11)])
        (use 2(8) active in \<open>simp_all add: status_defs\<close>)
    have "moves_on db m ?f" by (rule moves_on_if) (simp_all add: active)
    moreover have "?f m = abandoned now m" using active by (simp add: abandoned_def)
    moreover have "ev = Some ?e" "db' = stepped_db m (the ev) ?f [] db" using 2(12) d4 by simp_all
    moreover have "m_revision m < max_i64" using 2(5) m(2) by simp
    ultimately show ?thesis using m(1) row(2) active by blast
  qed
qed

lemma tables_ok_cancel:
  assumes "Cancel sv flt ctx now i actor db = Inr (e, db')" "tables_ok sv db"
  shows "tables_ok sv db'"
proof -
  obtain m f where m: "m \<in> set (d_matches db)" "m_id m = i" "m_status m = StatusActive" "m_revision m < max_i64"
      "moves_on db m f" and e: "e = platform_event i (m_revision m + 1) TypeCancelled (Some actor) now"
      and db': "db' = stepped_db m e f [] db"
    using cancel_effect [OF assms] by blast
  show ?thesis unfolding db' by (rule tables_ok_stepped [OF assms(2) m(1,3,5,4)]) (simp_all add: e m platform_event_def)
qed

lemma tables_ok_abandon:
  assumes "abandonIfExpired sv flt ctx i cutoff now db = Inr (ev, db')" "tables_ok sv db"
  shows "tables_ok sv db'"
  using abandon_effect [OF assms]
proof (elim disjE exE conjE)
  fix m f
  assume m: "m \<in> set (d_matches db)" "m_id m = i" "m_status m = StatusActive" "m_revision m < max_i64"
      "moves_on db m f" and ev: "ev = Some (platform_event i (m_revision m + 1) TypeAbandoned None now)"
      and db': "db' = stepped_db m (the ev) f [] db"
  show ?thesis unfolding db'
    by (rule tables_ok_stepped [OF assms(2) m(1,3,5,4)]) (simp_all add: ev m platform_event_def)
qed (use assms(2) in simp)

lemma tables_ok_abandon_loop:
  "tables_ok sv db \<Longrightarrow> abandon_loop sv flts ctx cutoff now ids es db = (err, es', db') \<Longrightarrow> tables_ok sv db'"
proof (induction sv flts ctx cutoff now ids es db rule: abandon_loop.induct)
  case (2 sv flts ctx cutoff now i ids es db)
  then show ?case by (auto split: sum.splits dest: tables_ok_abandon)
qed simp

lemma tables_ok_expired:
  "tables_ok sv db \<Longrightarrow> AbandonExpired sv flt flts ctx now db = (err, es, db') \<Longrightarrow> tables_ok sv db'"
  by (auto simp: AbandonExpired_def Let_def split: if_splits dest: tables_ok_abandon_loop)

lemma tables_ok_presence:
  assumes "setPlayerPresence sv flt ctx now i user online db = Inr (u, db')" "tables_ok sv db"
  shows "tables_ok sv db'"
  using assms(1) unfolding setPlayerPresence_def
proof (elim runE branchE, goal_cases)
  case 1
  then show ?case using assms(2) by simp
next
  case (2 z mps m ps d1)
  then have db': "db' = db\<lparr>d_matches := map (\<lambda>n. if m_id n = i \<and> m_status n = StatusActive
      then n\<lparr>m_offline := (if online then None
        else Some (case m_offline n of None \<Rightarrow> now | Some since \<Rightarrow> since))\<rparr> else n) (d_matches db)\<rparr>"
    by simp
  show ?case unfolding db' by (rule tables_ok_touched [OF assms(2)]) (simp add: same_row_def)
qed

lemma tables_ok_boot:
  assumes "MarkActiveMatchesOfflineOnBoot flt ctx now db = Inr (u, db')" "tables_ok sv db"
  shows "tables_ok sv db'"
proof -
  have db': "db' = db\<lparr>d_matches := map (\<lambda>m. if m_status m = StatusActive \<and> m_offline m = None
      then m\<lparr>m_offline := Some now\<rparr> else m) (d_matches db)\<rparr>"
    using assms(1) by (simp add: MarkActiveMatchesOfflineOnBoot_def)
  show ?thesis unfolding db' by (rule tables_ok_touched [OF assms(2)]) (simp add: same_row_def)
qed

lemma fresh_secret_Some: "fresh_secret n hash taken random = Some (p, h) \<Longrightarrow> hash p = Some h \<and> \<not> taken h"
  by (induction n hash taken random rule: fresh_secret.induct) (auto split: option.splits prod.splits if_splits)

lemma insert_ticket_Inr: "insert_ticket flt t db = Inr db' \<Longrightarrow> db' = db\<lparr>d_tickets := d_tickets db @ [t]\<rparr>"
  by (auto simp: insert_ticket_def split: if_splits)

lemma insert_token_Inr: "insert_token flt k db = Inr db' \<Longrightarrow> db' = db\<lparr>d_tokens := d_tokens db @ [k]\<rparr>"
  by (auto simp: insert_token_def split: if_splits)

lemma find_ticket_None: "find_ticket db h = None \<longleftrightarrow> h \<notin> t_hash ` set (d_tickets db)"
  by (auto simp: find_ticket_def find_None_iff)

lemma find_token_None: "find_token db h = None \<longleftrightarrow> h \<notin> k_hash ` set (d_tokens db)"
  by (auto simp: find_token_def find_None_iff)

lemma playerMember_iff: "valid_players ps \<Longrightarrow> playerMember ps u \<longleftrightarrow> u \<in> set (map p_user ps)"
  by (auto simp: valid_players_def playerMember_def actionPlayers_def split: list.splits)

lemma load_member:
  assumes "loadMatchAndPlayers sv flt db i = Inr (m, ps)"
  shows "playerMember ps u \<longleftrightarrow> u \<in> set (users_of db i)"
proof -
  have "ps = players_of db i" "valid_players ps" using loadMatchAndPlayers_Inr [OF assms] by blast+
  then show ?thesis using playerMember_iff [of ps u] by (simp add: users_of_def)
qed

lemma load_playing:
  assumes "loadMatchAndPlayers sv flt db i = Inr (m, ps)" "m_status m = StatusActive" "playerMember ps u"
  shows "playing db i (m_game m) u"
proof -
  note row = loadMatchAndPlayers_Inr [OF assms(1)]
  have "m \<in> set (d_matches db)" "m_id m = i" using row find_match_Some by blast+
  moreover have "u \<in> set (users_of db i)" using load_member [OF assms(1)] assms(3) by simp
  ultimately show ?thesis using assms(2) unfolding playing_def by blast
qed

lemma playing_game: "tables_ok sv db \<Longrightarrow> playing db i g u \<Longrightarrow> playing db i g' v \<Longrightarrow> g' = g"
proof -
  assume ok: "tables_ok sv db" and "playing db i g u" "playing db i g' v"
  then obtain m m' where m: "m \<in> set (d_matches db)" "m_id m = i" "m_game m = g"
    "m' \<in> set (d_matches db)" "m_id m' = i" "m_game m' = g'"
    unfolding playing_def by blast
  have d: "distinct (map m_id (d_matches db))" using ok by (simp add: tables_ok_def)
  show "g' = g" using find_match_key [OF d m(1)] find_match_key [OF d m(4)] m by simp
qed

lemma ticket_effect:
  assumes "CreateLaunchTicket sv flt ctx now random i user db = Inr (lt, db')"
  shows "\<exists>g h. playing db i g user \<and> hashLaunchTicket (sv_pepper sv) (lt_token lt) = Some h \<and>
    h \<notin> t_hash ` set (d_tickets db) \<and> safeAddMilliseconds now launchTicketLifetime = Some (lt_expires lt) \<and>
    lt_match lt = i \<and> lt_game lt = g \<and>
    db' = db\<lparr>d_tickets := filter (\<lambda>t. \<not> (t_match t = i \<and> t_user t = user \<and> t_game t = g)) (d_tickets db) @
      [\<lparr>t_hash = h, t_match = i, t_user = user, t_game = g, t_expires = lt_expires lt, t_consumed = None,
        t_created = now\<rparr>]\<rparr>"
  using assms unfolding CreateLaunchTicket_def
proof (elim runE, goal_cases)
  case (1 _ mps m ps snap r _ expires ph p h d1 d2)
  have load: "loadMatchAndPlayers sv flt db i = Inr (m, ps)" using 1(4,5) by simp
  have play: "playing db i (m_game m) user" using load_playing [OF load] 1(6) by simp
  have h: "hashLaunchTicket (sv_pepper sv) p = Some h" "h \<notin> t_hash ` set (d_tickets db)"
    using fresh_secret_Some [of _ _ _ _ p h] 1(12,13) by (force simp: find_ticket_None)+
  have "filter (\<lambda>t. \<not> (t_match t = i \<and> t_user t = user \<and> t_game t = m_game m \<and> t_hash t \<noteq> h)) (d_tickets db) =
      filter (\<lambda>t. \<not> (t_match t = i \<and> t_user t = user \<and> t_game t = m_game m)) (d_tickets db)"
    using h(2) by (intro filter_cong) auto
  then show ?case using play h 1(11,15,16) insert_ticket_Inr [OF 1(14)] load_row(2) [OF load] by auto
qed

lemma distinct_map_snoc_filter:
  assumes "distinct (map f xs)" "\<forall>x\<in>set xs. P x \<longrightarrow> f x \<noteq> f y"
  shows "distinct (map f (filter P xs @ [y]))"
proof -
  have "f y \<notin> f ` set (filter P xs)" using assms(2) by fastforce
  then show ?thesis using distinct_map_filter [OF assms(1)] by simp
qed

lemma tables_ok_ticket:
  assumes "CreateLaunchTicket sv flt ctx now random i user db = Inr (lt, db')" "tables_ok sv db"
  shows "tables_ok sv db'"
proof -
  obtain g h where play: "playing db i g user" and h: "h \<notin> t_hash ` set (d_tickets db)"
    and eff: "db' = db\<lparr>d_tickets := filter (\<lambda>t. \<not> (t_match t = i \<and> t_user t = user \<and> t_game t = g)) (d_tickets db) @
      [\<lparr>t_hash = h, t_match = i, t_user = user, t_game = g, t_expires = lt_expires lt, t_consumed = None,
        t_created = now\<rparr>]\<rparr>"
    using ticket_effect [OF assms(1)] by blast
  define t where "t = \<lparr>t_hash = h, t_match = i, t_user = user, t_game = g, t_expires = lt_expires lt,
    t_consumed = None, t_created = now\<rparr>"
  then have t: "t_hash t = h" "t_match t = i" "t_user t = user" "t_game t = g" by simp_all
  have db': "db' = db\<lparr>d_tickets := filter (\<lambda>t. \<not> (t_match t = i \<and> t_user t = user \<and> t_game t = g)) (d_tickets db) @ [t]\<rparr>"
    unfolding eff t_def ..
  have old: "\<forall>t\<in>set (d_tickets db). playing db (t_match t) (t_game t) (t_user t)"
    "distinct (map t_hash (d_tickets db))" "distinct (map (\<lambda>t. (t_match t, t_user t)) (d_tickets db))"
    using assms(2) by (simp_all add: tables_ok_def)
  have games: "t_game s = g" if "s \<in> set (d_tickets db)" "t_match s = i" for s
    using playing_game [OF assms(2) play] old(1) that by auto
  show ?thesis unfolding db'
  proof (rule tables_ok_tickets [OF assms(2)])
    show "distinct (map t_hash (filter (\<lambda>t. \<not> (t_match t = i \<and> t_user t = user \<and> t_game t = g)) (d_tickets db) @ [t]))"
      by (rule distinct_map_snoc_filter [OF old(2)]) (use h t in \<open>force simp: image_iff\<close>)
    show "distinct (map (\<lambda>t. (t_match t, t_user t))
        (filter (\<lambda>t. \<not> (t_match t = i \<and> t_user t = user \<and> t_game t = g)) (d_tickets db) @ [t]))"
      using games t by (intro distinct_map_snoc_filter old) auto
  qed (use old(1) play t in auto)
qed

text \<open>A new credential of a player replaces the ones stored before.\<close>

definition token_of :: "int \<Rightarrow> int \<Rightarrow> bytes \<Rightarrow> bytes \<Rightarrow> bytes \<Rightarrow> token_row" where
  "token_of now expires i user h = \<lparr>k_hash = h, k_match = i, k_user = user, k_expires = expires, k_last_used = now,
     k_revoked = None, k_created = now\<rparr>"

lemma issue_effect:
  assumes "issue_token sv flt now expires random i user db = Inr (p, db')"
  shows "\<exists>h. hashCredential (sv_pepper sv) p resumeTokenHashDomain = Some h \<and> h \<notin> k_hash ` set (d_tokens db) \<and>
    db' = db\<lparr>d_tokens := filter (\<lambda>k. \<not> (k_match k = i \<and> k_user k = user)) (d_tokens db) @
      [token_of now expires i user h]\<rparr>"
  using assms unfolding issue_token_def
proof (elim runE, goal_cases)
  case (1 ph p' h d1 d2)
  have h: "hashCredential (sv_pepper sv) p' resumeTokenHashDomain = Some h" "h \<notin> k_hash ` set (d_tokens db)"
    using fresh_secret_Some [of _ _ _ _ p' h] 1(1,2) by (force simp: find_token_None)+
  have "filter (\<lambda>k. \<not> (k_match k = i \<and> k_user k = user \<and> k_hash k \<noteq> h)) (d_tokens db) =
      filter (\<lambda>k. \<not> (k_match k = i \<and> k_user k = user)) (d_tokens db)"
    using h(2) by (intro filter_cong) auto
  then show ?case using h 1(4,5) insert_token_Inr [OF 1(3)] by (auto simp: token_of_def)
qed

definition consumed :: "int \<Rightarrow> bytes \<Rightarrow> ticket_row \<Rightarrow> ticket_row" where
  "consumed now h t = (if t_hash t = h \<and> t_consumed t = None \<and> t_expires t > now then t\<lparr>t_consumed := Some now\<rparr> else t)"

definition slid :: "int \<Rightarrow> int \<Rightarrow> bytes \<Rightarrow> token_row \<Rightarrow> token_row" where
  "slid now expires h k = (if k_hash k = h \<and> k_revoked k = None \<and> k_expires k > now
     then k\<lparr>k_last_used := now, k_expires := expires\<rparr> else k)"

lemma connect_effect:
  assumes "ConnectCredential sv flt ctx now random rq db = Inr (cc, db')"
  shows "\<exists>g. playing db (cc_match cc) g (cc_user cc) \<and> cc_game cc = g \<and>
    (if cr_token rq = '''' then
      (\<exists>h t k. hashCredential (sv_pepper sv) (cr_ticket rq) launchTicketHashDomain = Some h \<and>
        find_ticket db h = Some t \<and> t_consumed t = None \<and> now < t_expires t \<and>
        t_match t = cc_match cc \<and> t_user t = cc_user cc \<and> k \<notin> k_hash ` set (d_tokens db) \<and>
        db' = db\<lparr>d_tickets := map (consumed now h) (d_tickets db),
          d_tokens := filter (\<lambda>k. \<not> (k_match k = cc_match cc \<and> k_user k = cc_user cc)) (d_tokens db) @
            [token_of now (cc_expires cc) (cc_match cc) (cc_user cc) k]\<rparr>)
     else (\<exists>h. hashCredential (sv_pepper sv) (cr_token rq) resumeTokenHashDomain = Some h \<and>
        db' = db\<lparr>d_tokens := map (slid now (cc_expires cc) h) (d_tokens db)\<rparr>))"
  using assms unfolding ConnectCredential_def Let_def
proof (elim runE, goal_cases)
  case (1 h _ expires owner i b user game p m ps row u snap td token d)
  have load: "loadMatchAndPlayers sv flt db i = Inr (m, ps)" using 1(11,12) by simp
  have play: "playing db i (m_game m) user" using load_playing [OF load] 1(13) by simp
  have cc: "cc_user cc = user" "cc_match cc = i" "cc_game cc = m_game m" "cc_expires cc = expires" "db' = d"
    using 1(20) by auto
  show ?case
  proof (cases "cr_token rq = ''''")
    case True
    then have launch: "cr_ticket rq \<noteq> ''''" using 1(2) by auto
    have hash: "hashCredential (sv_pepper sv) (cr_ticket rq) launchTicketHashDomain = Some h"
      using 1(4) True by simp
    obtain t where t: "find_ticket db h = Some t" "t_consumed t = None" "now < t_expires t" "t_match t = i"
      "t_user t = user"
      using 1(7-9) launch by (auto simp: ticket_owner_def split: option.splits if_splits)
    obtain d1 where d1: "consume_ticket flt now h db = Inr d1"
      and it: "issue_token sv flt now expires random i user d1 = Inr (token, d)"
      using 1(18,19) launch by auto
    have d1: "d1 = db\<lparr>d_tickets := map (consumed now h) (d_tickets db)\<rparr>"
      using d1 by (auto simp: consume_ticket_def consumed_def [abs_def] Let_def split: if_splits)
    obtain k where "k \<notin> k_hash ` set (d_tokens d1)"
      "d = d1\<lparr>d_tokens := filter (\<lambda>k. \<not> (k_match k = i \<and> k_user k = user)) (d_tokens d1) @
        [token_of now expires i user k]\<rparr>"
      using issue_effect [OF it] by blast
    then show ?thesis using True play cc hash t d1 by auto
  next
    case False
    then have launch: "cr_ticket rq = ''''" using 1(2) by auto
    have "hashCredential (sv_pepper sv) (cr_token rq) resumeTokenHashDomain = Some h" using 1(4) False by simp
    moreover have "d = db\<lparr>d_tokens := map (slid now expires h) (d_tokens db)\<rparr>"
      using 1(18,19) launch by (auto simp: slide_token_def slid_def [abs_def] Let_def split: if_splits)
    ultimately show ?thesis using False play cc by auto
  qed
qed

lemma tables_ok_connect:
  assumes "ConnectCredential sv flt ctx now random rq db = Inr (cc, db')" and ok: "tables_ok sv db"
  shows "tables_ok sv db'"
proof -
  let ?i = "cc_match cc" and ?u = "cc_user cc"
  obtain g where play: "playing db ?i g ?u" using connect_effect [OF assms(1)] by blast
  have old: "\<forall>k\<in>set (d_tokens db). \<exists>g. playing db (k_match k) g (k_user k)"
    "distinct (map k_hash (d_tokens db))" "distinct (map (\<lambda>k. (k_match k, k_user k)) (d_tokens db))"
    using ok by (simp_all add: tables_ok_def)
  show ?thesis
  proof (cases "cr_token rq = ''''")
    case True
    then obtain h k where k: "k \<notin> k_hash ` set (d_tokens db)"
      and db': "db' = db\<lparr>d_tickets := map (consumed now h) (d_tickets db),
          d_tokens := filter (\<lambda>k. \<not> (k_match k = ?i \<and> k_user k = ?u)) (d_tokens db) @
            [token_of now (cc_expires cc) ?i ?u k]\<rparr>"
      using connect_effect [OF assms(1)] by auto
    let ?d = "db\<lparr>d_tickets := map (consumed now h) (d_tickets db)\<rparr>"
    have same: "t_hash (consumed now h t) = t_hash t" "t_match (consumed now h t) = t_match t"
      "t_user (consumed now h t) = t_user t" "t_game (consumed now h t) = t_game t" for t
      by (simp_all add: consumed_def)
    have d: "tables_ok sv ?d"
      using ok by (intro tables_ok_tickets) (simp_all add: tables_ok_def same comp_def)
    have play': "playing ?d i g u = playing db i g u" for i g u
      by (simp add: playing_def users_of_def players_of_def)
    have "tables_ok sv (?d\<lparr>d_tokens := filter (\<lambda>k. \<not> (k_match k = ?i \<and> k_user k = ?u)) (d_tokens db) @
            [token_of now (cc_expires cc) ?i ?u k]\<rparr>)"
    proof (rule tables_ok_tokens [OF d])
      show "distinct (map k_hash (filter (\<lambda>k. \<not> (k_match k = ?i \<and> k_user k = ?u)) (d_tokens db) @
            [token_of now (cc_expires cc) ?i ?u k]))"
        by (rule distinct_map_snoc_filter [OF old(2)]) (use k in \<open>force simp: token_of_def\<close>)
      show "distinct (map (\<lambda>k. (k_match k, k_user k)) (filter (\<lambda>k. \<not> (k_match k = ?i \<and> k_user k = ?u)) (d_tokens db) @
            [token_of now (cc_expires cc) ?i ?u k]))"
        by (rule distinct_map_snoc_filter [OF old(3)]) (simp add: token_of_def)
    qed (use old(1) play play' in \<open>auto simp: token_of_def\<close>)
    then show ?thesis by (simp add: db')
  next
    case False
    then obtain h where db': "db' = db\<lparr>d_tokens := map (slid now (cc_expires cc) h) (d_tokens db)\<rparr>"
      using connect_effect [OF assms(1)] by auto
    have same: "k_hash (slid now e h k) = k_hash k" "k_match (slid now e h k) = k_match k"
      "k_user (slid now e h k) = k_user k" for e k by (simp_all add: slid_def)
    show ?thesis unfolding db'
      by (rule tables_ok_tokens [OF ok]) (use old in \<open>simp_all add: same comp_def\<close>)
  qed
qed

subsection \<open>An action\<close>

definition outcome_ok :: "outcome \<Rightarrow> bool" where
  "outcome_ok oc \<longleftrightarrow> oc_status oc = StatusFinished \<or>
     oc_status oc = StatusAbandoned \<and> oc_terminal oc \<and> ev_type (oc_event oc) = TypeAbandoned"

lemma outcome_ok_simps [simp]: "outcome_ok (goes_on ev sn)" "outcome_ok (game_over ev sn s)"
  by (simp_all add: outcome_ok_def goes_on_def game_over_def)

lemma produced_ok:
  "checkers_action rules m actor game r sem = Inr oc \<Longrightarrow> outcome_ok oc"
  "board_action rules m actor game r sem = Inr oc \<Longrightarrow> outcome_ok oc"
  "rps_action rules m ps game r sem = Inr oc \<Longrightarrow> outcome_ok oc"
  "flight_action rules random m actor game r sem = Inr oc \<Longrightarrow> outcome_ok oc"
  "resign_action t m actor opponent game = Inr oc \<Longrightarrow> outcome_ok oc"
  unfolding checkers_action_def board_action_def rps_action_def flight_action_def resign_action_def
  by (elim runE branchE; (auto simp: outcome_ok_def [of "outcome.make _ _ _ _ _ _", unfolded outcome.defs]); fail)+

lemma produce_ok: "produce rules random m ps actor opponent game r sem = Inr oc \<Longrightarrow> outcome_ok oc"
  unfolding produce_def Let_def by (elim branchE; (erule produced_ok; fail)?) simp

lemma record_effect:
  assumes "record_outcome sv flt now rules m ps r sem oc db = Inr db'" "tables_ok sv db" "outcome_ok oc"
    and m: "m \<in> set (d_matches db)" "m_status m = StatusActive" "users_of db (m_id m) = [fst (player_ids ps), snd (player_ids ps)]"
  shows "\<exists>f ls. moves_on db m f \<and> f m = outcome_match oc (m_revision m + 1) now m \<and>
    db' = stepped_db m (outcome_event m r oc now) f ls db"
proof -
  let ?P = "\<lambda>n. m_id n = m_id m \<and> m_status n = StatusActive \<and> m_revision n = m_revision m"
  let ?g = "outcome_match oc (m_revision m + 1) now" and ?e = "outcome_event m r oc now"
  let ?f = "\<lambda>n. if ?P n then ?g n else n"
  from assms(1) obtain d1 d2 d3 where d1: "insert_event flt ?e db = Inr d1"
    and d2: "(if oc_status oc = StatusAbandoned then
          insert_limit flt \<lparr>l_match = m_id m, l_revision = m_revision m + 1, l_actor = rq_actor r,
            l_action = rq_action r, l_type = rq_type r,
            l_piece = (if rq_type r = FlightChess.MoveRequested then as_piece sem else -1)\<rparr> d1
        else Inr d1) = Inr d2"
    and d3: "update_one_match flt ?P ?g d2 = Inr d3"
    and d4: "(if oc_terminal oc then
       and_then (delete_slots flt (m_game m) (m_id m) (player_ids ps) (singleActiveMatch rules) d3)
         (deleteMatchCredentials sv flt (m_id m))
     else Inr d3) = Inr db'"
    unfolding record_outcome_def by (elim and_thenE) blast
  obtain ls where d2': "d2 = db\<lparr>d_events := d_events db @ [?e], d_limits := d_limits db @ ls\<rparr>"
  proof (cases "oc_status oc = StatusAbandoned")
    case True
    then show thesis using d1 d2 that by (auto simp: insert_limit_def split: if_splits)
  next
    case False
    then have "d2 = db\<lparr>d_events := d_events db @ [?e]\<rparr>" using d1 d2 by simp
    then show thesis by (intro that [of "[]"]) simp
  qed
  have f: "moves_on db m ?f" by (rule moves_on_if) (simp_all add: m outcome_match_def)
  have fm: "?f m = ?g m" using m by simp
  have "db' = stepped_db m ?e ?f ls db"
  proof (cases "oc_terminal oc")
    case True
    then obtain d where d: "delete_slots flt (m_game m) (m_id m) (player_ids ps) (singleActiveMatch rules) d3 = Inr d"
      "deleteMatchCredentials sv flt (m_id m) d = Inr db'" using d4 by auto
    have "m_status (?g m) \<noteq> StatusActive"
      using True assms(3) by (auto simp: outcome_match_def outcome_ok_def status_defs)
    then show ?thesis using m by (intro ended_stepped [OF assms(2) m(1,3) _ _ d2' d3 d]) simp_all
  next
    case False
    then have "m_status (?g m) = StatusActive" using m by (simp add: outcome_match_def)
    then show ?thesis using False d4 d3 d2' m by (simp add: stepped_db_def)
  qed
  then show ?thesis using f fm by blast
qed

definition same_request :: "ActionRequest \<Rightarrow> event_row \<Rightarrow> bool" where
  "same_request r e \<longleftrightarrow> e_match e = rq_match r \<and> e_actor e = Some (rq_actor r) \<and> e_action e = Some (rq_action r)"

text \<open>The revision a new request must carry.\<close>

definition current_revision :: "db \<Rightarrow> match_row \<Rightarrow> ActionRequest \<Rightarrow> bool" where
  "current_revision db m r \<longleftrightarrow>
     rq_revision r = m_revision m \<or>
     m_game m = Rps.GameID \<and> rq_type r = Rps.ChoiceRequested \<and> rq_revision r = m_revision m - 1 \<and>
     (\<exists>e\<in>set (d_events db). e_match e = m_id m \<and> e_revision e = m_revision m \<and>
       e_type e = Rps.ChoiceLocked \<and> e_actor e \<noteq> Some (rq_actor r))"

lemma rebuild_row:
  assumes "rebuildSnapshot sv flt db m ps = Inr snap"
  shows "ms_match snap = m \<and> ms_players snap = ps"
  using assms
  unfolding rebuildSnapshot_def Let_def rebuildRpsSnapshot_def rebuildFlightChessSnapshot_def
    rebuildChineseCheckersSnapshot_def rebuildBoardSnapshot_def finish_rebuild_def
  by (elim runE branchE) (auto split: option.splits sum.splits if_splits)

lemma committed_None:
  "committed_event flt db m r sem = Inr None \<Longrightarrow> find (same_request r) (d_events db) = None"
  by (auto simp: committed_event_def readActionEvent_def same_request_def [abs_def] split: option.splits)

lemma limit_entry_Some:
  "limit_entry db r = Some (l, e) \<Longrightarrow> e \<in> set (d_events db) \<and> e_match e = rq_match r"
  by (auto simp: limit_entry_def find_Some_iff split: option.splits dest!: nth_mem)

lemma committed_Some:
  assumes "committed_event flt db m r sem = Inr (Some f)"
  shows "if snd f then find (same_request r) (d_events db) = None \<and> m_game m = FlightChess.GameID \<and>
      m_status m = StatusAbandoned \<and> fst f \<in> set (d_events db) \<and> e_match (fst f) = rq_match r \<and>
      e_type (fst f) = TypeAbandoned
    else find (same_request r) (d_events db) = Some (fst f)"
  using assms limit_entry_Some [of db r]
  by (auto simp: committed_event_def readActionEvent_def same_request_def [abs_def] readFlightChessLimitAction_def
      split: option.splits if_splits prod.splits)

lemma apply_new_effect:
  assumes "apply_new sv flt now random db rules m ps r sem = Inr ((e, snap), db')" "tables_ok sv db"
    and load: "loadMatchAndPlayers sv flt db (rq_match r) = Inr (m, ps)"
  shows "m_status m = StatusActive \<and> rq_actor r \<in> set (users_of db (m_id m)) \<and> current_revision db m r \<and>
    m_revision m < max_i64 \<and>
    (\<exists>oc f ls. outcome_ok oc \<and> moves_on db m f \<and> f m = outcome_match oc (m_revision m + 1) now m \<and>
       e = outcome_event m r oc now \<and> ms_match snap = f m \<and> db' = stepped_db m e f ls db)"
  using assms(1) unfolding apply_new_def
proof (elim runE, goal_cases)
  case (1 v actor opponent accepted current oc d)
  note row = load_row [OF load]
  have m: "m \<in> set (d_matches db)" "m_revision m \<le> max_i64" using find_match_row [OF row(1) assms(2)] by auto
  have oc: "outcome_ok oc" using produce_ok [OF 1(8)] .
  have active: "m_status m = StatusActive" using 1(1) by simp
  obtain f ls where f: "moves_on db m f" "f m = outcome_match oc (m_revision m + 1) now m"
    "d = stepped_db m (outcome_event m r oc now) f ls db"
    using record_effect [OF 1(9) assms(2) oc m(1) active row(3) [folded row(2)]] by blast
  have "rq_actor r \<in> set (users_of db (m_id m))"
    using load_member [OF load, of "rq_actor r"] row(2) by (simp add: playerMember_def 1(2))
  moreover have "current_revision db m r"
    using 1(4,5)
    by (auto simp: current_revision_def acceptsPreviousRpsChoiceRevision_def find_Some_iff
        split: if_splits option.splits dest: nth_mem)
  moreover have "e = outcome_event m r oc now" "ms_match snap = f m" "db' = d" using 1(10) f(2) by auto
  ultimately show ?case using f(1,2) f(3) oc active 1(7) m(2) by (metis order_le_imp_less_or_eq)
qed

lemma apply_effect:
  assumes "ApplyAction sv flt ctx conn now random r db = Inr ((e, snap), db')" "tables_ok sv db"
  shows "\<exists>m. m \<in> set (d_matches db) \<and> m_id m = rq_match r \<and>
    (case find (same_request r) (d_events db) of
       Some e0 \<Rightarrow> e = e0 \<and> db' = db \<and> ms_match snap = m
     | None \<Rightarrow>
         db' = db \<and> ms_match snap = m \<and> m_status m = StatusAbandoned \<and> m_game m = FlightChess.GameID \<and>
           e \<in> set (d_events db) \<and> e_match e = rq_match r \<and> e_type e = TypeAbandoned \<or>
         m_status m = StatusActive \<and> rq_actor r \<in> set (users_of db (m_id m)) \<and> current_revision db m r \<and>
           m_revision m < max_i64 \<and>
           (\<exists>oc f ls. outcome_ok oc \<and> moves_on db m f \<and> f m = outcome_match oc (m_revision m + 1) now m \<and>
             e = outcome_event m r oc now \<and> ms_match snap = f m \<and> db' = stepped_db m e f ls db))"
  using assms(1) unfolding ApplyAction_def
proof (elim runE, goal_cases)
  case (1 sem _ mps m ps template rules found)
  have load: "loadMatchAndPlayers sv flt db (rq_match r) = Inr (m, ps)" using 1(4,5) by simp
  note row = load_row [OF load]
  have m: "m \<in> set (d_matches db)" "m_id m = rq_match r" using find_match_row [OF row(1) assms(2)] by auto
  show ?case
  proof (cases found)
    case None
    have none: "find (same_request r) (d_events db) = None" using 1(10) None committed_None by blast
    have "apply_new sv flt now random db rules m ps r sem = Inr ((e, snap), db')" using 1(11) None by simp
    from apply_new_effect [OF this assms(2) load] show ?thesis using m unfolding none option.case by blast
  next
    case (Some f)
    then have "answer_retry sv flt db m ps r sem f = Inr ((e, snap), db')" using 1(11) by simp
    then have e: "e = fst f \<and> db' = db \<and> ms_match snap = m"
      unfolding answer_retry_def by (elim runE) (auto dest: rebuild_row)
    show ?thesis using committed_Some [OF 1(10) [unfolded Some]] e m by (auto split: if_splits)
  qed
qed

lemma tables_ok_apply:
  assumes "ApplyAction sv flt ctx conn now random r db = Inr ((e, snap), db')" "tables_ok sv db"
  shows "tables_ok sv db'"
proof -
  obtain m where m: "m \<in> set (d_matches db)" and "db' = db \<or>
      m_status m = StatusActive \<and> m_revision m < max_i64 \<and>
           (\<exists>oc f ls. moves_on db m f \<and> e = outcome_event m r oc now \<and> db' = stepped_db m e f ls db)"
    using apply_effect [OF assms] by (auto split: option.splits)
  then show ?thesis
    using assms(2) by (auto simp: outcome_event_def intro: tables_ok_stepped)
qed

end
