(* ===== verification/MatchRebuild.thy ===== *)
theory MatchRebuild
  imports MatchTables
begin

text \<open>
  Reading a match back from its log. The theory has the lemmas that tie the summary of a game
  state, which \<open>rebuildSnapshot\<close> compares with the row of the match, to the state of the rule
  engine.
\<close>

subsection \<open>Summaries of Gomoku states\<close>

lemma fold_ascii: "byte a < 128 \<Longrightarrow> fold_name (a # s) = upper a # fold_name s"
  by (auto simp: utf8_encode_def)

lemma summary_keys:
  "match_field summary_names ''board'' = None" "match_field summary_names ''boardSize'' = None"
  by (simp_all add: match_field_def summary_names_def fold_ascii upper_def del: fold_name.simps)

lemma dec_field_among:
  assumes "\<forall>k\<in>set (map fst kvs). k \<in> set names \<or> match_field names k = None" "distinct (map fst kvs)"
    and "n \<in> set names" "map_of kvs n = Some j"
  shows "dec_field names kvs n d z = d j z"
proof -
  have "filter (\<lambda>kv. match_field names (fst kv) = Some n) kvs = filter (\<lambda>kv. fst kv = n) kvs"
    using assms(1,3) by (intro filter_cong) (auto simp: match_field_def split: if_splits)
  then show ?thesis using filter_fst_unique [OF assms(2,4)] by (simp add: dec_field_def field_vals_def split: option.splits)
qed

lemma gomoku_field:
  "n \<in> set summary_names \<Longrightarrow> map_of (Gomoku.state_members st) n = Some j \<Longrightarrow>
   dec_field summary_names (Gomoku.state_members st) n d z = d j z"
  by (rule dec_field_among)
    (auto simp: go_members_keys Gomoku.state_names_def summary_names_def summary_keys [unfolded summary_names_def])

definition gomoku_summary :: "Gomoku.snapshotState \<Rightarrow> gameStateSummary" where
  "gomoku_summary st = \<lparr>gs_status = Gomoku.st_status st, gs_black = Gomoku.st_black st, gs_white = Gomoku.st_white st,
     gs_next = Gomoku.st_next st, gs_winner = Gomoku.st_winner st, gs_result = Gomoku.st_result st\<rparr>"

lemma dec_ptr_jptr: "dec_ptr dec_string z (jptr JStr p) None = Some p"
  by (cases p) (simp_all add: dec_ptr_def jptr_def)

lemma read_gomoku_summary:
  assumes "Gomoku.valid_state rv st" "Gomoku.st_status st = ''active'' \<or> Gomoku.st_status st = ''finished''"
  shows "readGameStateSummary \<lparr>sn_revision = rv, sn_state = Gomoku.marshalState st\<rparr> = Some (gomoku_summary st)"
proof -
  let ?m = "Gomoku.state_members st"
  have u: "utf8_valid (Gomoku.marshalState st)"
    unfolding Gomoku.marshalState_def using go_members_wf [OF assms(1)] by (intro utf8_valid_render_obj) auto
  have p: "json_parse (Gomoku.marshalState st) = Some (JObj ?m)"
    unfolding Gomoku.marshalState_def using go_members_wf [OF assms(1)] by (intro json_parse_render) simp
  have ne: "Gomoku.marshalState st \<noteq> []" by (simp add: Gomoku.marshalState_def)
  have names: "\<forall>n\<in>{''status'', ''blackUserId'', ''whiteUserId'', ''nextColor'', ''winnerUserId'', ''result''}.
      n \<in> set summary_names" by (simp add: summary_names_def)
  have "map_of ?m ''status'' = Some (JStr (Gomoku.st_status st))" "map_of ?m ''blackUserId'' = Some (jptr JStr (Gomoku.st_black st))"
    "map_of ?m ''whiteUserId'' = Some (jptr JStr (Gomoku.st_white st))" "map_of ?m ''nextColor'' = Some (JStr (Gomoku.st_next st))"
    "map_of ?m ''winnerUserId'' = Some (jptr JStr (Gomoku.st_winner st))" "map_of ?m ''result'' = Some (jptr JStr (Gomoku.st_result st))"
    by (simp_all add: Gomoku.state_members_def)
  then have "dec_summary (JObj ?m) = Some (gomoku_summary st)"
    using names by (simp add: dec_summary_def gomoku_field dec_ptr_jptr gomoku_summary_def)
  moreover have "0 \<le> rv" "length (Gomoku.marshalState st) \<le> 8192"
    using assms(1) go_length_marshal [OF assms(1)] by (simp_all add: Gomoku.valid_state_def)
  ultimately show ?thesis
    using u p ne assms(2) by (auto simp: readGameStateSummary_def gomoku_summary_def status_defs)
qed

subsection \<open>New matches\<close>

lemma gomoku_rules_simps [simp]:
  "ru_limit gomoku_rules = 2" "ru_game gomoku_rules = Gomoku.GameID" "ru_configure gomoku_rules = None"
  "rules_Rebuild gomoku_rules = Gomoku.Rebuild" "singleActiveMatch gomoku_rules"
  by (simp_all add: gomoku_rules_def fixed_rules_def rules_Rebuild_def [abs_def] singleActiveMatch_def)

lemma coloredPlayers_valid: "valid_players ps \<Longrightarrow> coloredPlayers ps \<noteq> None"
  by (auto simp: valid_players_def coloredPlayers_def split: list.splits)

lemma rebuild_new_gomoku:
  assumes "Lookup (sv_games sv) Gomoku.GameID = Some gomoku_rules"
    and "m = (new_match i Gomoku.GameID '''' now)\<lparr>m_offline := offline\<rparr>"
    and "valid_players ps" "\<forall>e\<in>set (d_events db). e_match e \<noteq> i" "slots_complete db Gomoku.GameID i (player_ids ps) True"
  shows "rebuildSnapshot sv (\<lambda>_. False) db m ps =
    Inr \<lparr>ms_match = m, ms_players = ps, ms_game = Gomoku.initialSnapshot\<rparr>"
proof -
  have m: "m_game m = Gomoku.GameID" "m_id m = i" "m_revision m = 0" "m_config m = None" "m_status m = StatusActive"
    "m_result m = None" "m_winner m = None" "m_finished m = None"
    by (simp_all add: assms(2) new_match_def nullableJSON_def)
  have events: "events_of db i = []" using assms(4) by (simp add: events_of_def)
  have ids: "Gomoku.GameID \<noteq> Rps.GameID" "Gomoku.GameID \<noteq> ChineseCheckers.GameID" "Gomoku.GameID \<noteq> FlightChess.GameID"
    by (simp_all add: game_ids)
  obtain b w where bw: "coloredPlayers ps = Some (b, w)" using coloredPlayers_valid [OF assms(3)] by auto
  have rules: "rulesForMatch gomoku_rules m = Inr gomoku_rules"
    by (simp add: rulesForMatch_def configureRules_def m valueOrEmpty_def)
  have sum: "readGameStateSummary Gomoku.initialSnapshot = Some (gomoku_summary Gomoku.initialState)"
    unfolding Gomoku.initialSnapshot_def
    by (rule read_gomoku_summary [OF go_valid_initial]) (simp add: Gomoku.initialState_def)
  have "open_game (gomoku_summary Gomoku.initialState)" "seats_agree True b w 0 (gomoku_summary Gomoku.initialState)"
    by (simp_all add: open_game_def seats_agree_def gomoku_summary_def Gomoku.initialState_def status_defs color_defs
        Gomoku.colorString_def)
  then have "finish_rebuild (\<lambda>_. False) db m ps gomoku_rules (Some ([], ''''))
      (\<lambda>n summary terminal. seats_agree True b w n summary \<and> validateLifecycle m summary terminal ps []) =
    Inr \<lparr>ms_match = m, ms_players = ps, ms_game = Gomoku.initialSnapshot\<rparr>"
    using sum assms(5)
    by (simp add: finish_rebuild_def Gomoku.Rebuild_def m validateLifecycle_def maximumMatchEventsFor_def ids
        maximumMatchEvents_def Gomoku.initialSnapshot_def validateCompleteActiveSlotSet_def run_def)
  then show ?thesis
    using assms(1) bw ids
    by (simp add: rebuildSnapshot_def m rules Let_def readMatchEvents_def run_def events maximumMatchEventsFor_def
        maximumMatchEvents_def rebuildBoardSnapshot_def)
qed

subsection \<open>Moves of Gomoku\<close>

lemma strictJSONInteger_render: "is_i64 n \<Longrightarrow> length (show_int n) \<le> 32 \<Longrightarrow> strictJSONInteger (render (jint n)) = Some n"
  using plain_integer_show [of n] by (auto simp: strictJSONInteger_def jint_def parse_show_int plain_integer_def)

lemma strict_coord:
  assumes "Gomoku.point_valid p"
  shows "strictJSONInteger (render (jint (Gomoku.X p))) = Some (Gomoku.X p)" "strictJSONInteger (render (jint (Gomoku.Y p))) = Some (Gomoku.Y p)"
proof -
  have *: "strictJSONInteger (render (jint n)) = Some n" if "0 \<le> n" "n < 15" for n
    using that length_show_int_pos [of n 2] is_i64_small [of n] by (intro strictJSONInteger_render) auto
  show "strictJSONInteger (render (jint (Gomoku.X p))) = Some (Gomoku.X p)"
    "strictJSONInteger (render (jint (Gomoku.Y p))) = Some (Gomoku.Y p)"
    using assms * [of "Gomoku.X p"] * [of "Gomoku.Y p"] by (simp_all add: Gomoku.point_valid_def Gomoku.BoardSize_def)
qed

lemma strictJSONObject_render:
  assumes "\<forall>kv\<in>set kvs. utf8_valid (fst kv) \<and> wf_json (snd kv)" "distinct (map fst kvs)" "set (map fst kvs) \<subseteq> set allowed"
    and "length (render (JObj kvs)) \<le> 1024"
  shows "strictJSONObject (render (JObj kvs)) allowed = Some (raw_members kvs)"
  using strict_object_render [OF assms(1-3)] utf8_valid_render_obj [OF assms(1)] assms(4)
  by (simp add: strictJSONObject_def maximumActionPayloadBytes_def)

lemma decodeMoveRequest_members:
  assumes "Gomoku.point_valid p"
  shows "decodeMoveRequest (render (JObj (Gomoku.move_members p))) = Some (Gomoku.X p, Gomoku.Y p)"
proof -
  have "strictJSONObject (render (JObj (Gomoku.move_members p))) [''x'', ''y''] = Some (raw_members (Gomoku.move_members p))"
    using length_render_members_le [of "Gomoku.move_members p"] Gomoku.length_coord [OF assms]
    by (intro strictJSONObject_render) (auto simp: Gomoku.move_members_def utf8_valid_ascii)
  then show ?thesis using strict_coord [OF assms]
    by (simp add: decodeMoveRequest_def json_simps del: render.simps) (simp add: Gomoku.move_members_def json_simps del: render.simps)
qed

lemma gomoku_accepted:
  assumes "Gomoku.point_valid p" "c = Gomoku.Black \<or> c = Gomoku.White" "validActorID a" "validIdentifier a"
  shows "Matches.decodeAcceptedMove (Gomoku.acceptedMovePayload p c a) =
    Some \<lparr>am_x = Gomoku.X p, am_y = Gomoku.Y p, am_color = Gomoku.colorString c, am_user = a\<rparr>"
proof -
  let ?m = "Gomoku.accepted_members p c a"
  have cs: "utf8_valid (Gomoku.colorString c)" "length (Gomoku.colorString c) = 5"
    "Gomoku.colorString c = ColorBlack \<or> Gomoku.colorString c = ColorWhite"
    using assms(2) by (auto simp: Gomoku.colorString_def color_defs intro: utf8_valid_ascii)
  have wf: "\<forall>kv\<in>set ?m. utf8_valid (fst kv) \<and> wf_json (snd kv)"
    using cs assms(3) by (auto simp: Gomoku.accepted_members_def utf8_valid_ascii validActorID_utf8)
  have "length (render (JObj ?m)) \<le> 1024"
    using length_render_members_le [of ?m] Gomoku.length_coord [OF assms(1)]
      length_render_jstr [of "Gomoku.colorString c"] cs(2) length_render_actor [OF assms(3)]
    by (simp add: Gomoku.accepted_members_def del: render.simps(4))
  then have "strictJSONObject (render (JObj ?m)) [''x'', ''y'', ''color'', ''userId''] = Some (raw_members ?m)"
    using wf by (intro strictJSONObject_render) (auto simp: Gomoku.accepted_members_def)
  moreover have "map_of ?m ''x'' = Some (jint (Gomoku.X p))" "map_of ?m ''y'' = Some (jint (Gomoku.Y p))"
    "map_of ?m ''color'' = Some (JStr (Gomoku.colorString c))" "map_of ?m ''userId'' = Some (JStr a)" "length ?m = 4"
    by (simp_all add: Gomoku.accepted_members_def)
  ultimately show ?thesis
    using strict_coord [OF assms(1)] cs assms validActorID_utf8 [OF assms(3)]
    by (auto simp add: Matches.decodeAcceptedMove_def Gomoku.acceptedMovePayload_def json_simps Gomoku.point_valid_def Gomoku.BoardSize_def
        simp del: render.simps)
qed

lemma gomoku_produce:
  assumes "Gomoku.valid_state rv st" "Gomoku.moveState st a p = Inr (c, st')" "Gomoku.st_status st' = ''active''"
    and "m_revision m = rv" "rq_type r = Gomoku.MoveRequested" "rq_payload r = render (JObj (Gomoku.move_members p))" "rq_actor r = a"
    and "validActorID a" "validIdentifier a" "as_x sem = Gomoku.X p" "as_y sem = Gomoku.Y p" "p_color actor = Gomoku.st_next st"
  shows "produce gomoku_rules random m ps actor opponent \<lparr>sn_revision = rv, sn_state = Gomoku.marshalState st\<rparr> r sem =
    Inr (goes_on \<lparr>ev_revision = rv + 1, ev_type = Gomoku.MoveAccepted, ev_actor = a, ev_payload = Gomoku.acceptedMovePayload p c a\<rparr>
      \<lparr>sn_revision = rv + 1, sn_state = Gomoku.marshalState st'\<rparr>)"
proof -
  note v = Gomoku.moveState_valid [OF assms(1,2,8)]
  let ?sn = "\<lparr>sn_revision = rv, sn_state = Gomoku.marshalState st\<rparr>"
  let ?e = "\<lparr>ev_revision = rv + 1, ev_type = Gomoku.MoveAccepted, ev_actor = a, ev_payload = Gomoku.acceptedMovePayload p c a\<rparr>"
  have "rv + 1 \<le> 225" "0 \<le> rv" using Gomoku.valid_state_revision [OF v(1)] Gomoku.valid_state_revision [OF assms(1)] by auto
  then have "i64 (rv + 1) = rv + 1" by (intro i64_id is_i64_small) auto
  then have "Gomoku.applyMove ?sn a p = Inr (?e, \<lparr>sn_revision = rv + 1, sn_state = Gomoku.marshalState st'\<rparr>)"
    using go_decode_encode [OF assms(1)] assms(2) by (simp add: Gomoku.applyMove_def Let_def)
  then have ap: "Gomoku.Apply ?sn a (request_action r) = Inr (?e, \<lparr>sn_revision = rv + 1, sn_state = Gomoku.marshalState st'\<rparr>)"
    using Gomoku.decodeMove_members [OF v(4)] assms(5,6,8) v(4)
    by (subst go_Apply_applyMove) (simp_all add: request_action_def Gomoku.marshalState_def del: render.simps(6))
  have rule: "rules_Apply gomoku_rules = Gomoku.Apply"
    by (simp add: gomoku_rules_def fixed_rules_def rules_Apply_def [abs_def])
  have ids: "Gomoku.MoveRequested \<noteq> ChineseCheckers.MoveRequested" "Gomoku.MoveRequested \<noteq> FlightChess.RollRequested"
    "Gomoku.MoveRequested \<noteq> FlightChess.MoveRequested" "Gomoku.MoveRequested \<noteq> Reversi.MoveRequested"
    by (simp_all add: type_defs)
  show ?thesis
    using read_gomoku_summary [OF assms(1)] read_gomoku_summary [OF v(1)] v(5) assms(3-12)
      gomoku_accepted [OF v(4,2) assms(8,9)] v(3) ap
    by (simp add: produce_def ids board_action_def applied_def rule validateProducedMove_def acceptedMoveType_def
        gomoku_summary_def status_defs)
qed



text \<open>The first move: one stone is no line of five.\<close>


lemma gomoku_first:
  assumes "Gomoku.point_valid p"
  shows "\<exists>st'. Gomoku.moveState Gomoku.initialState a p = Inr (Gomoku.Black, st') \<and> Gomoku.st_status st' = ''active''"
proof -
  let ?cs = "(replicate 225 Gomoku.Empty)[nat (board_index p) := Gomoku.Black]"
  let ?b = "\<lparr>cells = ?cs, stones = 1\<rparr>"
  note i = board_index_bounds [OF assms]
  have occ: "occupiedCells (replicate 225 Gomoku.Empty) = 0" by (subst occupiedCells_count) simp_all
  have empty: "Gomoku.color_at \<lparr>cells = replicate 225 Gomoku.Empty, stones = 0\<rparr> p = Gomoku.Empty"
    using assms i by (simp add: color_at_state nat_less_iff)
  have pl: "Gomoku.place \<lparr>cells = replicate 225 Gomoku.Empty, stones = 0\<rparr> p Gomoku.Black = (True, ?b)"
    using empty assms by (simp add: place_iff)
  have only: "q = p" if "Gomoku.stone ?b Gomoku.Black q" for q
  proof (rule ccontr)
    assume "q \<noteq> p"
    have q: "Gomoku.point_valid q" using that by (simp add: Gomoku.stone_def)
    with \<open>q \<noteq> p\<close> index_point [OF assms] index_point [OF q] have "board_index q \<noteq> board_index p" by metis
    with i board_index_bounds [OF q] have "nat (board_index p) \<noteq> nat (board_index q)" "nat (board_index q) < 225"
      by (auto simp: nat_less_iff)
    with that q show False by (simp add: Gomoku.stone_def color_at_state)
  qed
  have s: "Gomoku.stone ?b Gomoku.Black p" using assms i by (simp add: Gomoku.stone_def color_at_state nat_less_iff)
  have "\<not> Gomoku.wins ?b p Gomoku.Black"
  proof
    assume "Gomoku.wins ?b p Gomoku.Black"
    then obtain d j where d: "d \<in> set Gomoku.directions" "\<And>k. k \<in> {0..4} \<Longrightarrow> Gomoku.stone ?b Gomoku.Black (Gomoku.shift p (k - j) d)"
      unfolding Gomoku.wins_iff [OF s] by blast
    from only [OF d(2) [of 0]] only [OF d(2) [of 1]] have "Gomoku.shift p (0 - j) d = Gomoku.shift p (1 - j) d" by simp
    with d(1) show False by (auto simp: Gomoku.directions_def Gomoku.shift_def Gomoku.pt_def)
  qed
  then show ?thesis using pl empty occ
    by (simp add: Gomoku.moveState_def Gomoku.initialState_def Gomoku.bindActor_def Gomoku.actorForColor_def Gomoku.colorNamed_def
        Gomoku.colorString_def Gomoku.occupied_iff Gomoku.settle_def boardCells_def Gomoku.BoardSize_def Let_def Gomoku.opposite_def)
qed

end
