(* ===== verification/MatchHistory.thy ===== *)
theory MatchHistory
  imports MatchRebuild
begin

text \<open>
  What the match service guarantees over its whole life. A step is one transaction that commits;
  a database is reachable when a sequence of steps leads to it from empty match tables. The
  properties of reachable databases rest on the invariant of theory \<open>MatchTables\<close>.
\<close>

subsection \<open>Histories of the service\<close>

text \<open>
  A transaction of the service, with the hash of the launch ticket it issues. The table of users
  belongs to other parts of the server and may change in any way. A failed operation changes
  nothing.
\<close>

inductive service_step :: "service \<Rightarrow> bytes option \<Rightarrow> db \<Rightarrow> db \<Rightarrow> bool" for sv where
  users: "service_step sv None db (db\<lparr>d_users := us\<rparr>)"
| create: "CreateWithConfig sv flt ctx now random fresh g a b config db = Inr (m, db') \<Longrightarrow> service_step sv None db db'"
| cancel: "Cancel sv flt ctx now i actor db = Inr (e, db') \<Longrightarrow> service_step sv None db db'"
| presence: "setPlayerPresence sv flt ctx now i user online db = Inr (u, db') \<Longrightarrow> service_step sv None db db'"
| expired: "AbandonExpired sv flt flts ctx now db = (err, es, db') \<Longrightarrow> service_step sv None db db'"
| boot: "MarkActiveMatchesOfflineOnBoot flt ctx now db = Inr (u, db') \<Longrightarrow> service_step sv None db db'"
| revoke: "service_step sv None db (revokeUserCredentials now user db)"
| ticket: "CreateLaunchTicket sv flt ctx now random i user db = Inr (lt, db') \<Longrightarrow>
    hashLaunchTicket (sv_pepper sv) (lt_token lt) = h \<Longrightarrow> service_step sv h db db'"
| connect: "ConnectCredential sv flt ctx now random rq db = Inr (cc, db') \<Longrightarrow> service_step sv None db db'"
| action: "ApplyAction sv flt ctx conn now random r db = Inr (es, db') \<Longrightarrow> service_step sv None db db'"

inductive service_run :: "service \<Rightarrow> bytes list \<Rightarrow> db \<Rightarrow> db \<Rightarrow> bool" for sv where
  run_nil: "service_run sv [] db db"
| run_step: "service_run sv hs db db1 \<Longrightarrow> service_step sv h db1 db2 \<Longrightarrow>
    service_run sv (case h of None \<Rightarrow> hs | Some x \<Rightarrow> hs @ [x]) db db2"

definition empty_db :: "user list \<Rightarrow> db" where
  "empty_db us = \<lparr>d_users = us, d_matches = [], d_players = [], d_events = [], d_slots = [], d_tickets = [],
     d_tokens = [], d_limits = []\<rparr>"

definition reachable :: "service \<Rightarrow> db \<Rightarrow> bool" where
  "reachable sv db \<longleftrightarrow> (\<exists>us hs. service_run sv hs (empty_db us) db)"

lemma tables_ok_revoke:
  assumes "tables_ok sv db"
  shows "tables_ok sv (revokeUserCredentials now user db)"
proof -
  let ?ks = "map (\<lambda>k. if k_user k = user \<and> k_revoked k = None then k\<lparr>k_revoked := Some (i64 (now * 1000))\<rparr> else k)
      (d_tokens db)"
  have d: "tables_ok sv (db\<lparr>d_tokens := ?ks\<rparr>)" (is "tables_ok sv ?d")
  proof (rule tables_ok_tokens [OF assms])
    have "map k_hash ?ks = map k_hash (d_tokens db)"
      "map (\<lambda>k. (k_match k, k_user k)) ?ks = map (\<lambda>k. (k_match k, k_user k)) (d_tokens db)" by simp_all
    then show "distinct (map k_hash ?ks)" "distinct (map (\<lambda>k. (k_match k, k_user k)) ?ks)"
      using assms by (simp_all only: tables_ok_def)
    have "\<forall>k\<in>set (d_tokens db). \<exists>g. playing db (k_match k) g (k_user k)" using assms by (simp add: tables_ok_def)
    then show "\<forall>k\<in>set ?ks. \<exists>g. playing db (k_match k) g (k_user k)" by auto
  qed
  have "tables_ok sv (?d\<lparr>d_tickets := filter (\<lambda>t. t_user t \<noteq> user) (d_tickets ?d)\<rparr>)"
    using d by (intro tables_ok_tickets) (auto simp: tables_ok_def distinct_map_filter)
  then show ?thesis by (simp add: revokeUserCredentials_def)
qed

lemma tables_ok_step: "service_step sv h db db' \<Longrightarrow> tables_ok sv db \<Longrightarrow> tables_ok sv db'"
proof (induction rule: service_step.induct)
  case (action flt ctx conn now random r db es db')
  then show ?case by (cases es) (auto intro: tables_ok_apply)
qed (auto intro: tables_ok_users tables_ok_create tables_ok_cancel tables_ok_presence tables_ok_expired tables_ok_boot
      tables_ok_revoke tables_ok_ticket tables_ok_connect)

lemma tables_ok_run: "service_run sv hs db db' \<Longrightarrow> tables_ok sv db \<Longrightarrow> tables_ok sv db'"
  by (induction rule: service_run.induct) (auto intro: tables_ok_step)

lemma tables_ok_empty: "tables_ok sv (empty_db us)"
  by (simp add: empty_db_def tables_ok_def)

lemma mh_reachable_ok: "reachable sv db \<Longrightarrow> tables_ok sv db"
  unfolding reachable_def using tables_ok_run tables_ok_empty by blast

lemma active_slots:
  assumes ok: "tables_ok sv db" and m: "m \<in> set (d_matches db)" "users_of db (m_id m) = [fst us, snd us]" "fst us \<noteq> snd us"
  shows "slots_complete db (m_game m) (m_id m) us (m_status m = StatusActive \<and> single_game sv (m_game m))"
proof -
  have play: "single_game sv (m_game m) \<and> m_status m = StatusActive \<and> s_game s = m_game m \<and> (s_user s = fst us \<or> s_user s = snd us)"
    if "s \<in> set (d_slots db)" "s_match s = m_id m" for s
    using ok that playing_iff [OF _ m(1), of "s_game s" "s_user s"] m(2) by (auto simp: tables_ok_def)
  show ?thesis
  proof (cases "m_status m = StatusActive \<and> single_game sv (m_game m)")
    case False
    then have "slots_of db (m_id m) = []" using play by (auto simp: slots_of_def filter_empty_conv)
    then show ?thesis using False by (simp add: slots_complete_def)
  next
    case True
    let ?s = "\<lambda>u. \<lparr>s_game = m_game m, s_user = u, s_match = m_id m\<rparr>" and ?ss = "slots_of db (m_id m)"
    have d: "distinct (map (\<lambda>s. (s_game s, s_user s)) (d_slots db))" using ok by (simp add: tables_ok_def)
    have eq: "s = ?s (s_user s)" if "s \<in> set (d_slots db)" "s_match s = m_id m" for s
      using play [OF that] that by (cases s) simp
    have "?s (fst us) \<in> set ?ss" "?s (snd us) \<in> set ?ss"
      using True tables_ok_row [OF ok m(1)] m(2) by (simp_all add: slots_of_def row_ok_def)
    moreover have "s = ?s (fst us) \<or> s = ?s (snd us)" if "s \<in> set ?ss" for s
      using eq [of s] play [of s] that by (auto simp: slots_of_def)
    ultimately have set: "set ?ss = {?s (fst us), ?s (snd us)}" by blast
    moreover have "distinct ?ss" using d by (auto simp: slots_of_def distinct_map)
    ultimately have "length ?ss = card {?s (fst us), ?s (snd us)}" by (metis distinct_card)
    then have "length ?ss = 2" using m(3) by simp
    then obtain s1 s2 where ss: "?ss = [s1, s2]" by (auto simp: numeral_2_eq_2 length_Suc_conv)
    have "s1 = ?s (fst us) \<and> s2 = ?s (snd us) \<or> s1 = ?s (snd us) \<and> s2 = ?s (fst us)"
      using set m(3) unfolding ss by (auto simp: doubleton_eq_iff)
    then show ?thesis using True m(3) by (auto simp: slots_complete_def ss)
  qed
qed

subsection \<open>Players and matches\<close>

lemma one_match:
  assumes ok: "tables_ok sv db"
    and m: "m \<in> set (d_matches db)" "m_status m = StatusActive" "u \<in> set (users_of db (m_id m))"
    and n: "n \<in> set (d_matches db)" "m_status n = StatusActive" "u \<in> set (users_of db (m_id n))"
    and g: "m_game m = m_game n" "single_game sv (m_game n)"
  shows "m = n"
proof -
  let ?s = "\<lambda>m. \<lparr>s_game = m_game m, s_user = u, s_match = m_id m\<rparr>"
  have "?s m \<in> set (d_slots db)" "?s n \<in> set (d_slots db)"
    using tables_ok_row [OF ok m(1)] tables_ok_row [OF ok n(1)] m n g by (simp_all add: row_ok_def)
  moreover have "distinct (map (\<lambda>s. (s_game s, s_user s)) (d_slots db))" using ok by (simp add: tables_ok_def)
  ultimately have "?s m = ?s n" using g(1) by (intro inj_onD [of "\<lambda>s. (s_game s, s_user s)" "set (d_slots db)"])
    (simp_all add: distinct_map)
  then have "m_id m = m_id n" by simp
  moreover have "distinct (map m_id (d_matches db))" using ok by (simp add: tables_ok_def)
  ultimately show ?thesis using m(1) n(1) find_match_key [of db] by (metis option.inject)
qed

lemma two_users:
  assumes "tables_ok sv db" "m \<in> set (d_matches db)"
  shows "users_of db (m_id m) = [fst (player_ids (players_of db (m_id m))), snd (player_ids (players_of db (m_id m)))]"
    "fst (player_ids (players_of db (m_id m))) \<noteq> snd (player_ids (players_of db (m_id m)))"
proof -
  have v: "valid_players (players_of db (m_id m))" using tables_ok_row [OF assms] by (simp add: row_ok_def)
  then show "users_of db (m_id m) = [fst (player_ids (players_of db (m_id m))), snd (player_ids (players_of db (m_id m)))]"
    unfolding users_of_def by (rule valid_player_ids)
  show "fst (player_ids (players_of db (m_id m))) \<noteq> snd (player_ids (players_of db (m_id m)))"
    using v by (auto simp: valid_players_def player_ids_def split: list.splits)
qed

text \<open>
  C21. In every reachable database the log of a match has the revisions 1, 2, 3 and so on up to the
  revision of its row; a match has two different players, and the slots that \<open>rebuildSnapshot\<close>
  checks are complete: both players' slots when the match is active and its game allows one match a
  player, and none otherwise. So a user plays in at most one active match of such a game. Launch
  tickets and resume tokens belong to players of active matches, at most one a player and match.
\<close>
theorem match_tables:
  assumes "reachable sv db"
  shows "(\<forall>m\<in>set (d_matches db).
      map e_revision (filter (\<lambda>e. e_match e = m_id m) (d_events db)) = map int [1..<Suc (nat (m_revision m))] \<and>
      (\<exists>a b. users_of db (m_id m) = [a, b] \<and> a \<noteq> b \<and>
        slots_complete db (m_game m) (m_id m) (a, b) (m_status m = StatusActive \<and> single_game sv (m_game m)))) \<and>
    (\<forall>u m n. m \<in> set (d_matches db) \<and> n \<in> set (d_matches db) \<and> m_status m = StatusActive \<and>
      m_status n = StatusActive \<and> m_game m = m_game n \<and> single_game sv (m_game n) \<and>
      u \<in> set (users_of db (m_id m)) \<and> u \<in> set (users_of db (m_id n)) \<longrightarrow> m = n) \<and>
    (\<forall>t\<in>set (d_tickets db). playing db (t_match t) (t_game t) (t_user t)) \<and>
    distinct (map (\<lambda>t. (t_match t, t_user t)) (d_tickets db)) \<and>
    (\<forall>k\<in>set (d_tokens db). \<exists>g. playing db (k_match k) g (k_user k)) \<and>
    distinct (map (\<lambda>k. (k_match k, k_user k)) (d_tokens db))"
proof -
  note ok = mh_reachable_ok [OF assms]
  have "map e_revision (filter (\<lambda>e. e_match e = m_id m) (d_events db)) = map int [1..<Suc (nat (m_revision m))]"
    if "m \<in> set (d_matches db)" for m
    using tables_ok_row [OF ok that] by (simp only: row_ok_def)
  moreover have "\<exists>a b. users_of db (m_id m) = [a, b] \<and> a \<noteq> b \<and>
      slots_complete db (m_game m) (m_id m) (a, b) (m_status m = StatusActive \<and> single_game sv (m_game m))"
    if m: "m \<in> set (d_matches db)" for m
    using two_users [OF ok m] active_slots [OF ok m two_users [OF ok m]] by (metis surjective_pairing)
  moreover have "m = n" if "m \<in> set (d_matches db)" "n \<in> set (d_matches db)" "m_status m = StatusActive"
      "m_status n = StatusActive" "m_game m = m_game n" "single_game sv (m_game n)"
      "u \<in> set (users_of db (m_id m))" "u \<in> set (users_of db (m_id n))" for u m n
    using one_match [OF ok] that by blast
  moreover have "\<forall>t\<in>set (d_tickets db). playing db (t_match t) (t_game t) (t_user t)"
    "distinct (map (\<lambda>t. (t_match t, t_user t)) (d_tickets db))"
    "\<forall>k\<in>set (d_tokens db). \<exists>g. playing db (k_match k) g (k_user k)"
    "distinct (map (\<lambda>k. (k_match k, k_user k)) (d_tokens db))"
    using ok unfolding tables_ok_def by blast+
  ultimately show ?thesis by blast
qed

text \<open>The outcome of creating a match.\<close>

definition busy :: "db \<Rightarrow> bytes \<Rightarrow> bytes \<Rightarrow> bool" where
  "busy db g u \<longleftrightarrow>
     list_ex (\<lambda>m. m_game m = g \<and> m_status m = StatusActive \<and> u \<in> set (users_of db (m_id m))) (d_matches db)"

lemma slot_busy:
  assumes ok: "tables_ok sv db" and "single_game sv g"
  shows "list_ex (\<lambda>s. s_game s = g \<and> s_user s = u) (d_slots db) \<longleftrightarrow> busy db g u"
proof
  assume "list_ex (\<lambda>s. s_game s = g \<and> s_user s = u) (d_slots db)"
  then obtain s where "s \<in> set (d_slots db)" "s_game s = g" "s_user s = u" by (auto simp: list_ex_iff)
  then have "playing db (s_match s) g u" using ok by (auto simp: tables_ok_def)
  then show "busy db g u" by (auto simp: playing_def busy_def list_ex_iff)
next
  assume "busy db g u"
  then obtain m where m: "m \<in> set (d_matches db)" "m_game m = g" "m_status m = StatusActive"
    "u \<in> set (users_of db (m_id m))" by (auto simp: busy_def list_ex_iff)
  then have "\<lparr>s_game = g, s_user = u, s_match = m_id m\<rparr> \<in> set (d_slots db)"
    using tables_ok_row [OF ok m(1)] assms(2) by (simp add: row_ok_def)
  then show "list_ex (\<lambda>s. s_game s = g \<and> s_user s = u) (d_slots db)" by (force simp: list_ex_iff)
qed

definition colors_of :: "nat \<Rightarrow> bytes \<times> bytes" where
  "colors_of c = (if c mod 2 = 0 then (ColorBlack, ColorWhite) else (ColorWhite, ColorBlack))"

lemma no_players:
  assumes "tables_ok sv db" "find_match db i = None"
  shows "\<not> list_ex (\<lambda>q. p_match q = i \<and> P q) (d_players db)"
proof -
  have "i \<notin> m_id ` set (d_matches db)" using assms(2) by (auto simp: find_match_def find_None_iff)
  then show ?thesis using assms(1) unfolding tables_ok_def list_ex_iff by metis
qed

lemma and_then_assoc: "and_then (and_then x f) h = and_then x (\<lambda>y. and_then (f y) h)"
  by (cases x) simp_all

lemma find_snoc: "find P (xs @ [x]) = (case find P xs of None \<Rightarrow> if P x then Some x else None | Some y \<Rightarrow> Some y)"
  by (induction xs) auto

lemma create_players:
  assumes ok: "tables_ok sv db" and i: "find_match db i = None" "m_id m = i" and flt: "\<forall>q. \<not> flt q"
    and us: "find_user db a \<noteq> None" "find_user db b \<noteq> None" "a \<noteq> b" "c \<noteq> d"
  shows "and_then (insert_match flt m db) (\<lambda>db.
      and_then (insert_player flt (new_player i a 0 c) db) (insert_player flt (new_player i b 1 d))) =
    Inr (created_db m (new_player i a 0 c) (new_player i b 1 d) False db)"
proof -
  let ?d = "db\<lparr>d_matches := d_matches db @ [m]\<rparr>"
  have row: "find_match ?d i = Some m" "find_match (?d\<lparr>d_players := ps\<rparr>) i = Some m" for ps
    using i by (auto simp: find_match_def find_snoc split: option.splits)
  have user: "find_user ?d u = find_user db u" "find_user (?d\<lparr>d_players := ps\<rparr>) u = find_user db u" for u ps
    by (simp_all add: find_user_def)
  have none: "\<not> list_ex (\<lambda>q. p_match q = i \<and> P q) (d_players db)" for P by (rule no_players [OF ok i(1)])
  have "insert_match flt m db = Inr ?d" using flt i by (simp add: insert_match_def)
  moreover have "insert_player flt (new_player i a 0 c) ?d = Inr (?d\<lparr>d_players := d_players db @ [new_player i a 0 c]\<rparr>)"
    using flt us none by (simp add: insert_player_def row user new_player_def)
  moreover have "insert_player flt (new_player i b 1 d) (?d\<lparr>d_players := d_players db @ [new_player i a 0 c]\<rparr>) =
      Inr (?d\<lparr>d_players := d_players db @ [new_player i a 0 c, new_player i b 1 d]\<rparr>)"
    using flt us none by (simp add: insert_player_def row user new_player_def)
  ultimately show ?thesis by (simp add: created_db_def)
qed

lemma create_slots:
  assumes flt: "\<forall>q. \<not> flt q" and ab: "a \<noteq> b" and db: "d = created_db m p q False db" "p_user p = a" "p_user q = b"
    "m_id m = i" "m_game m = g" "find_user db a \<noteq> None" "find_user db b \<noteq> None"
  shows "and_then (insert_slot flt ErrActiveMatchExists \<lparr>s_game = g, s_user = a, s_match = i\<rparr> d)
      (insert_slot flt ErrOpponentBusy \<lparr>s_game = g, s_user = b, s_match = i\<rparr>) =
    (if list_ex (\<lambda>s. s_game s = g \<and> s_user s = a) (d_slots db) then Inl ErrActiveMatchExists
     else if list_ex (\<lambda>s. s_game s = g \<and> s_user s = b) (d_slots db) then Inl ErrOpponentBusy
     else Inr (created_db m p q True db))"
proof -
  have row: "find_match (d\<lparr>d_slots := ss\<rparr>) i \<noteq> None" "find_match d i \<noteq> None" for ss
    using db by (auto simp: find_match_def find_snoc split: option.splits)
  have user: "find_user d u = find_user db u" "find_user (d\<lparr>d_slots := ss\<rparr>) u = find_user db u" for u ss
    using db by (simp_all add: find_user_def)
  have u: "find_user db a \<noteq> None" "find_user db b \<noteq> None" by (fact db)+
  have slots: "d_slots d = d_slots db" and limit: "created_db m p q True db = d\<lparr>d_slots := d_slots db @
      [\<lparr>s_game = g, s_user = a, s_match = i\<rparr>, \<lparr>s_game = g, s_user = b, s_match = i\<rparr>]\<rparr>"
    using db by (simp_all add: created_db_def)
  show ?thesis using flt ab by (simp add: insert_slot_def row user u slots limit del: not_None_eq)
qed

lemma create_result:
  assumes ok: "tables_ok sv db" and "\<forall>q. \<not> flt q" "GuardTransaction ctx (d_users db)"
    and "validIdentifier a" "validIdentifier b" "a \<noteq> b"
    and "Lookup (sv_games sv) g = Some template" "ru_limit template = 2"
    and "configureRules template config = Some (r, normal)"
    and "find_user db a = Some ua" "us_enabled ua = 1" "find_user db b = Some ub" "us_enabled ub = 1"
    and "find_match db i = None"
  shows "CreateWithConfig sv flt ctx now (c # random) (Some i) g a b config db =
    (let m = new_match i g normal now; p = new_player i a 0 (fst (colors_of c)); q = new_player i b 1 (snd (colors_of c)) in
     if single_game sv g \<and> busy db g a then Inl ErrActiveMatchExists
     else if single_game sv g \<and> busy db g b then Inl ErrOpponentBusy
     else Inr (m, created_db m p q (single_game sv g) db))"
proof -
  let ?m = "new_match i g normal now" and ?p = "new_player i a 0 (fst (colors_of c))"
    and ?q = "new_player i b 1 (snd (colors_of c))"
  have m: "m_id ?m = i" "m_game ?m = g" by (simp_all add: new_match_def)
  have colors: "randomColors (c # random) = Some (colors_of c)" "fst (colors_of c) \<noteq> snd (colors_of c)"
    by (simp_all add: randomColors_def colors_of_def color_defs)
  have single: "single_game sv g = singleActiveMatch r"
    using assms(7) configured_single [OF assms(9)] by (simp add: single_game_def)
  have users: "enabledUser flt db a = Inr ()" "enabledUser flt db b = Inr ()"
    using assms by (simp_all add: enabledUser_def run_def)
  have found: "find_user db a \<noteq> None" "find_user db b \<noteq> None" using assms by simp_all
  note players = create_players [OF ok assms(14) m(1) assms(2) found assms(6) colors(2)]
  have slots: "and_then (insert_slot flt ErrActiveMatchExists \<lparr>s_game = g, s_user = a, s_match = i\<rparr> (created_db ?m ?p ?q False db))
      (insert_slot flt ErrOpponentBusy \<lparr>s_game = g, s_user = b, s_match = i\<rparr>) =
    (if list_ex (\<lambda>s. s_game s = g \<and> s_user s = a) (d_slots db) then Inl ErrActiveMatchExists
     else if list_ex (\<lambda>s. s_game s = g \<and> s_user s = b) (d_slots db) then Inl ErrOpponentBusy
     else Inr (created_db ?m ?p ?q True db))"
    using m found assms(2,6) by (intro create_slots) (simp_all add: new_player_def)
  have commit: "commit flt ?m d = Inr (?m, d)" for d using assms(2) by (simp add: commit_def run_def)
  have "CreateWithConfig sv flt ctx now (c # random) (Some i) g a b config db =
      and_then (and_then (insert_match flt ?m db) (\<lambda>db. and_then (insert_player flt ?p db) (insert_player flt ?q))) (\<lambda>d.
      and_then (if singleActiveMatch r then
          and_then (insert_slot flt ErrActiveMatchExists \<lparr>s_game = g, s_user = a, s_match = i\<rparr> d)
            (insert_slot flt ErrOpponentBusy \<lparr>s_game = g, s_user = b, s_match = i\<rparr>)
        else Inr d) (commit flt ?m))"
    using assms users colors
    by (simp add: CreateWithConfig_def beginWriteTransaction_def and_then_assoc new_player_def)
  also have "\<dots> = and_then (if singleActiveMatch r then
          and_then (insert_slot flt ErrActiveMatchExists \<lparr>s_game = g, s_user = a, s_match = i\<rparr> (created_db ?m ?p ?q False db))
            (insert_slot flt ErrOpponentBusy \<lparr>s_game = g, s_user = b, s_match = i\<rparr>)
        else Inr (created_db ?m ?p ?q False db)) (commit flt ?m)"
    by (simp add: players)
  finally show ?thesis
    using slot_busy [OF ok, of g a] slot_busy [OF ok, of g b] by (simp add: slots single commit Let_def)
qed

text \<open>
  C22. Creating a match between two different enabled users whose request is valid, when no
  statement fails, has one of three outcomes. If the game allows one match a player and the
  initiator plays an active one, it is \<open>ErrActiveMatchExists\<close>; if the opponent does,
  \<open>ErrOpponentBusy\<close>; otherwise the match is stored, active at revision 0, with the initiator in
  seat 0, the opponent in seat 1, the colours drawn, and their slots.
\<close>
theorem create_outcome:
  assumes "reachable sv db" "\<forall>q. \<not> flt q" "GuardTransaction ctx (d_users db)"
    and "validIdentifier a" "validIdentifier b" "a \<noteq> b"
    and "Lookup (sv_games sv) g = Some template" "ru_limit template = 2"
    and "configureRules template config = Some (r, normal)"
    and "find_user db a = Some ua" "us_enabled ua = 1" "find_user db b = Some ub" "us_enabled ub = 1"
    and "find_match db i = None"
  shows "CreateWithConfig sv flt ctx now (c # random) (Some i) g a b config db =
    (let m = new_match i g normal now; p = new_player i a 0 (fst (colors_of c)); q = new_player i b 1 (snd (colors_of c)) in
     if single_game sv g \<and> busy db g a then Inl ErrActiveMatchExists
     else if single_game sv g \<and> busy db g b then Inl ErrOpponentBusy
     else Inr (m, created_db m p q (single_game sv g) db))"
  using create_result [OF mh_reachable_ok [OF assms(1)] assms(2-)] .

subsection \<open>Launch tickets\<close>

text \<open>No step makes a stored ticket usable again: every ticket after it was there before, and stays consumed.\<close>

definition tickets_from :: "bytes option \<Rightarrow> db \<Rightarrow> db \<Rightarrow> bool" where
  "tickets_from k db db' \<longleftrightarrow>
     (\<forall>t'\<in>set (d_tickets db'). k = Some (t_hash t') \<or>
       (\<exists>t\<in>set (d_tickets db). t_hash t = t_hash t' \<and> (t_consumed t \<noteq> None \<longrightarrow> t_consumed t' \<noteq> None)))"

lemma tickets_subset: "set (d_tickets db') \<subseteq> set (d_tickets db) \<Longrightarrow> tickets_from k db db'"
  unfolding tickets_from_def by blast

lemma tickets_insert:
  "k = Some (t_hash t) \<Longrightarrow> set (d_tickets db') \<subseteq> insert t (set (d_tickets db)) \<Longrightarrow> tickets_from k db db'"
  unfolding tickets_from_def by blast

lemma tickets_consumed: "d_tickets db' = map (consumed n h) (d_tickets db) \<Longrightarrow> tickets_from k db db'"
  by (auto simp: tickets_from_def consumed_def)

lemma tickets_stepped: "tickets_from k db (stepped_db m e f ls db)"
  by (rule tickets_subset) auto

lemma tickets_trans: "tickets_from None db db1 \<Longrightarrow> tickets_from None db1 db2 \<Longrightarrow> tickets_from None db db2"
  unfolding tickets_from_def by (metis option.distinct(1))

lemma tickets_abandon:
  assumes "abandonIfExpired sv flt ctx i cutoff now db = Inr (ev, db')" "tables_ok sv db"
  shows "tickets_from None db db'"
  using abandon_effect [OF assms] tickets_stepped tickets_subset [of db db] by blast

lemma tickets_loop:
  "abandon_loop sv flts ctx cutoff now ids es db = (err, es', db') \<Longrightarrow> tables_ok sv db \<Longrightarrow> tickets_from None db db'"
proof (induction sv flts ctx cutoff now ids es db rule: abandon_loop.induct)
  case (1 sv flts ctx cutoff now es db)
  then show ?case using tickets_subset [of db db] by simp
next
  case (2 sv flts ctx cutoff now i ids es db)
  show ?case
  proof (cases "abandonIfExpired sv (flts i) ctx i cutoff now db")
    case (Inl e)
    then show ?thesis using 2(2) tickets_subset [of db db] by simp
  next
    case (Inr r)
    obtain ev d where r: "r = (ev, d)" by (cases r)
    note eq = Inr [unfolded r]
    have "tickets_from None d db'"
      using 2(1) [OF eq refl] 2(2) eq tables_ok_abandon [OF eq 2(3)] by simp
    then show ?thesis using tickets_abandon [OF eq 2(3)] tickets_trans by blast
  qed
qed

lemma step_tickets: "service_step sv k db db' \<Longrightarrow> tables_ok sv db \<Longrightarrow> tickets_from k db db'"
proof (induction rule: service_step.induct)
  case (users db us)
  show ?case by (rule tickets_subset) simp
next
  case (create flt ctx now random fresh g a b config db m db')
  then obtain i normal c d where "db' = created_db m (new_player i a 0 c) (new_player i b 1 d) (single_game sv g) db"
    using create_effect [OF create(1)] by blast
  then show ?case by (intro tickets_subset) simp
next
  case (cancel flt ctx now i actor db e db')
  then show ?case using cancel_effect tickets_stepped by blast
next
  case (presence flt ctx now i user online db u db')
  from presence(1) have "d_tickets db' = d_tickets db" unfolding setPlayerPresence_def
    by (elim runE branchE) auto
  then show ?case by (intro tickets_subset) simp
next
  case (expired flt flts ctx now db err es db')
  then show ?case using tickets_subset [of db db]
    by (auto simp: AbandonExpired_def Let_def split: if_splits dest: tickets_loop)
next
  case (boot flt ctx now db u db')
  then show ?case by (intro tickets_subset) (auto simp: MarkActiveMatchesOfflineOnBoot_def)
next
  case (revoke db now user)
  show ?case by (rule tickets_subset) (auto simp: revokeUserCredentials_def)
next
  case (ticket flt ctx now random i user db lt db' h)
  obtain g x where h: "h = Some x" and db': "db' = db\<lparr>d_tickets :=
      filter (\<lambda>t. \<not> (t_match t = i \<and> t_user t = user \<and> t_game t = g)) (d_tickets db) @
      [\<lparr>t_hash = x, t_match = i, t_user = user, t_game = g, t_expires = lt_expires lt, t_consumed = None,
        t_created = now\<rparr>]\<rparr>"
    using ticket_effect [OF ticket(1)] ticket(2) by auto
  show ?case unfolding h db'
    by (rule tickets_insert [where t = "\<lparr>t_hash = x, t_match = i, t_user = user, t_game = g,
        t_expires = lt_expires lt, t_consumed = None, t_created = now\<rparr>"]) auto
next
  case (connect flt ctx now random rq db cc db')
  show ?case
  proof (cases "cr_token rq = ''''")
    case True
    then obtain h k where "db' = db\<lparr>d_tickets := map (consumed now h) (d_tickets db),
          d_tokens := filter (\<lambda>k. \<not> (k_match k = cc_match cc \<and> k_user k = cc_user cc)) (d_tokens db) @
            [token_of now (cc_expires cc) (cc_match cc) (cc_user cc) k]\<rparr>"
      using connect_effect [OF connect(1)] by auto
    then have "d_tickets db' = map (consumed now h) (d_tickets db)" by simp
    then show ?thesis by (rule tickets_consumed)
  next
    case False
    then have "d_tickets db' = d_tickets db" using connect_effect [OF connect(1)] by auto
    then show ?thesis by (intro tickets_subset) simp
  qed
next
  case (action flt ctx conn now random r db es db')
  obtain e snap where es: "es = (e, snap)" by (cases es)
  show ?case using apply_effect [OF action(1) [unfolded es] action(2)] tickets_stepped tickets_subset [of db db]
    by (auto split: option.splits)
qed

definition spent :: "bytes \<Rightarrow> db \<Rightarrow> bool" where
  "spent h db \<longleftrightarrow> (\<forall>t\<in>set (d_tickets db). t_hash t = h \<longrightarrow> t_consumed t \<noteq> None)"

lemma spent_run: "service_run sv hs db db' \<Longrightarrow> tables_ok sv db \<Longrightarrow> h \<notin> set hs \<Longrightarrow> spent h db \<Longrightarrow> spent h db'"
proof (induction rule: service_run.induct)
  case (run_step hs db db1 k db2)
  have h: "h \<notin> set hs" "k \<noteq> Some h" using run_step(5) by (auto split: option.splits)
  have ok: "tables_ok sv db1" using tables_ok_run [OF run_step(1,4)] .
  have "spent h db1" using run_step.IH run_step.prems h by blast
  moreover have "tickets_from k db1 db2" using step_tickets [OF run_step(2) ok] .
  ultimately show ?case using h(2) unfolding spent_def tickets_from_def by metis
qed simp

lemma connect_spent:
  assumes "ConnectCredential sv flt ctx now random rq db = Inr (cc, db')" "cr_token rq = ''''" "tables_ok sv db"
  shows "\<exists>h. hashCredential (sv_pepper sv) (cr_ticket rq) launchTicketHashDomain = Some h \<and> \<not> spent h db \<and> spent h db'"
proof -
  obtain h t k where h: "hashCredential (sv_pepper sv) (cr_ticket rq) launchTicketHashDomain = Some h"
    and t: "find_ticket db h = Some t" "t_consumed t = None" "now < t_expires t"
    and db': "db' = db\<lparr>d_tickets := map (consumed now h) (d_tickets db),
          d_tokens := filter (\<lambda>k. \<not> (k_match k = cc_match cc \<and> k_user k = cc_user cc)) (d_tokens db) @
            [token_of now (cc_expires cc) (cc_match cc) (cc_user cc) k]\<rparr>"
    using connect_effect [OF assms(1)] assms(2) by auto
  have m: "t \<in> set (d_tickets db)" "t_hash t = h" using t(1) by (auto simp: find_ticket_def find_Some_iff)
  have d: "distinct (map t_hash (d_tickets db))" using assms(3) by (simp add: tables_ok_def)
  have "s = t" if "s \<in> set (d_tickets db)" "t_hash s = h" for s
    using that m by (intro inj_onD [of t_hash "set (d_tickets db)" s t]) (use d in \<open>simp_all add: distinct_map\<close>)
  then have all: "\<forall>s\<in>set (d_tickets db). t_hash s = h \<longrightarrow> s = t" by blast
  have "t_consumed (consumed now h s) \<noteq> None" if "s \<in> set (d_tickets db)" "t_hash (consumed now h s) = h" for s
  proof -
    have "t_hash s = h" using that(2) by (simp add: consumed_def split: if_splits)
    then have "s = t" using all that(1) by blast
    then show ?thesis using t m by (simp add: consumed_def)
  qed
  then have "spent h db'" unfolding spent_def db' by simp
  moreover have "\<not> spent h db" using m t(2) unfolding spent_def by blast
  ultimately show ?thesis using h by blast
qed

text \<open>
  C23. A launch ticket connects once. After \<open>ConnectCredential\<close> accepted a ticket, no later request
  with that ticket succeeds, whatever the service did in between, unless a ticket with the same hash
  was issued again.
\<close>
theorem ticket_once:
  assumes "reachable sv db" "cr_token rq = ''''"
    and "ConnectCredential sv flt ctx now random rq db = Inr (cc, db1)"
    and "hashCredential (sv_pepper sv) (cr_ticket rq) launchTicketHashDomain = Some h"
    and "service_run sv hs db1 db2" "h \<notin> set hs" "cr_ticket rq2 = cr_ticket rq" "cr_token rq2 = ''''"
  shows "\<exists>e. ConnectCredential sv flt2 ctx2 now2 random2 rq2 db2 = Inl e"
proof (cases "ConnectCredential sv flt2 ctx2 now2 random2 rq2 db2")
  case (Inr r)
  note ok = mh_reachable_ok [OF assms(1)]
  have ok1: "tables_ok sv db1" using tables_ok_connect [OF assms(3) ok] .
  have "spent h db1" using connect_spent [OF assms(3,2) ok] assms(4) by simp
  then have "spent h db2" by (rule spent_run [OF assms(5) ok1 assms(6)])
  moreover obtain c d where "r = (c, d)" by (cases r)
  ultimately show ?thesis
    using connect_spent [of sv flt2 ctx2 now2 random2 rq2 db2 c d] Inr assms(4,7,8) tables_ok_run [OF assms(5) ok1] by simp
qed simp

subsection \<open>Abandoned matches\<close>

definition expired :: "int \<Rightarrow> match_row \<Rightarrow> bool" where
  "expired now m \<longleftrightarrow> m_status m = StatusActive \<and>
     (case m_offline m of None \<Rightarrow> False | Some since \<Rightarrow> since + 24 * 60 * 60 * 1000 \<le> now)"

definition abandon_event :: "event_row \<Rightarrow> bool" where
  "abandon_event e \<longleftrightarrow> e_type e = TypeAbandoned \<and> e_actor e = None \<and> e_action e = None"

lemma abandon_one:
  assumes eq: "abandonIfExpired sv flt ctx i cutoff now db = Inr (ev, d)" and ok: "tables_ok sv db"
    and m: "m \<in> set (d_matches db)" "m_id m = i" "m_status m = StatusActive" "offline_since cutoff m"
  shows "\<exists>e. ev = Some e \<and> e_match e = i \<and> abandon_event e \<and> d_events d = d_events db @ [e] \<and>
    d_matches d = map (\<lambda>n. if m_id n = i then abandoned now n else n) (d_matches db)"
proof -
  have d: "distinct (map m_id (d_matches db))" using ok by (simp add: tables_ok_def)
  have "find_match db i = Some m" using find_match_key [OF d m(1)] m(2) by simp
  then obtain m' f where m': "m' \<in> set (d_matches db)" "m_id m' = i" "moves_on db m' f" "f m' = abandoned now m'"
      and ev: "ev = Some (platform_event i (m_revision m' + 1) TypeAbandoned None now)" "d = stepped_db m' (the ev) f [] db"
    using abandon_effect [OF eq ok] m by auto
  have "f n = (if m_id n = i then abandoned now n else n)" if "n \<in> set (d_matches db)" for n
    using m' that moves_on_id [OF m'(3) d m'(1) that] by (auto simp: moves_on_def)
  then have "map f (d_matches db) = map (\<lambda>n. if m_id n = i then abandoned now n else n) (d_matches db)" by simp
  then show ?thesis using ev by (simp add: abandon_event_def platform_event_def)
qed

lemma abandon_all:
  assumes "tables_ok sv db" "distinct ids"
    and "\<forall>i\<in>set ids. \<exists>m\<in>set (d_matches db). m_id m = i \<and> m_status m = StatusActive \<and> offline_since cutoff m"
    and "abandon_loop sv flts ctx cutoff now ids es db = (None, es', db')"
  shows "\<exists>new. es' = es @ new \<and> map e_match new = ids \<and> list_all abandon_event new \<and> d_events db' = d_events db @ new \<and>
    d_matches db' = map (\<lambda>m. if m_id m \<in> set ids then abandoned now m else m) (d_matches db)"
  using assms
proof (induction ids arbitrary: es db)
  case (Cons i ids)
  obtain ev d where eq: "abandonIfExpired sv (flts i) ctx i cutoff now db = Inr (ev, d)"
    using Cons.prems(4) by (auto split: sum.splits)
  obtain m where "m \<in> set (d_matches db)" "m_id m = i" "m_status m = StatusActive" "offline_since cutoff m"
    using Cons.prems(3) by auto
  from abandon_one [OF eq Cons.prems(1) this] obtain e where e: "ev = Some e" "e_match e = i" "abandon_event e"
    "d_events d = d_events db @ [e]"
    and d: "d_matches d = map (\<lambda>n. if m_id n = i then abandoned now n else n) (d_matches db)" by blast
  have rest: "\<forall>j\<in>set ids. \<exists>m\<in>set (d_matches d). m_id m = j \<and> m_status m = StatusActive \<and> offline_since cutoff m"
  proof
    fix j assume j: "j \<in> set ids"
    then obtain m where m: "m \<in> set (d_matches db)" "m_id m = j" "m_status m = StatusActive" "offline_since cutoff m"
      using Cons.prems(3) by auto
    moreover have "j \<noteq> i" using j Cons.prems(2) by auto
    ultimately show "\<exists>m\<in>set (d_matches d). m_id m = j \<and> m_status m = StatusActive \<and> offline_since cutoff m"
      unfolding d by (intro bexI [of _ m]) (auto simp: image_iff)
  qed
  have loop: "abandon_loop sv flts ctx cutoff now ids (es @ [e]) d = (None, es', db')"
    using Cons.prems(4) eq e(1) by simp
  obtain new where new: "es' = (es @ [e]) @ new" "map e_match new = ids" "list_all abandon_event new"
    "d_events db' = d_events d @ new"
    and db': "d_matches db' = map (\<lambda>m. if m_id m \<in> set ids then abandoned now m else m) (d_matches d)"
    using Cons.IH [OF tables_ok_abandon [OF eq Cons.prems(1)] _ rest loop] Cons.prems(2) by auto
  have "m_id (abandoned now n) = m_id n" for n by (simp add: abandoned_def)
  then have "d_matches db' = map (\<lambda>m. if m_id m \<in> set (i # ids) then abandoned now m else m) (d_matches db)"
    using Cons.prems(2) unfolding db' d by auto
  then show ?case using new e by (intro exI [of _ "e # new"]) simp
qed simp

text \<open>
  C24. When \<open>AbandonExpired\<close> completes, it has ended exactly the matches that were active with both
  players offline for 24 hours or more: their rows are abandoned at the next revision, with no
  winner and the timer cleared, every other row is unchanged, and the log has one more event for
  each of them, in the order of their ids.
\<close>
theorem abandon_expired:
  assumes "reachable sv db" "0 \<le> now" "now \<le> max_i64" "AbandonExpired sv flt flts ctx now db = (None, es, db')"
  shows "d_matches db' = map (\<lambda>m. if expired now m then abandoned now m else m) (d_matches db) \<and>
    d_events db' = d_events db @ es \<and> list_all abandon_event es \<and>
    map e_match es = sort (map m_id (filter (expired now) (d_matches db)))"
proof -
  note ok = mh_reachable_ok [OF assms(1)]
  have d: "distinct (map m_id (d_matches db))" using ok by (simp add: tables_ok_def)
  have cutoff: "i64 (now - fullyOfflineAbandonAfter) = now - fullyOfflineAbandonAfter"
    using assms(2,3) by (intro i64_id) (simp add: is_i64_def fullyOfflineAbandonAfter_def)
  have ex: "(\<lambda>m. m_status m = StatusActive \<and> offline_since (now - fullyOfflineAbandonAfter) m) = expired now"
    by (rule ext) (auto simp: expired_def offline_since_def fullyOfflineAbandonAfter_def split: option.splits)
  let ?ids = "sort (map m_id (filter (expired now) (d_matches db)))"
  have loop: "abandon_loop sv flts ctx (now - fullyOfflineAbandonAfter) now ?ids [] db = (None, es, db')"
    using assms(4) by (auto simp: AbandonExpired_def Let_def cutoff ex split: if_splits)
  have ids: "distinct ?ids" using d by (simp add: distinct_map_filter)
  have all: "\<forall>i\<in>set ?ids. \<exists>m\<in>set (d_matches db). m_id m = i \<and> m_status m = StatusActive \<and>
      offline_since (now - fullyOfflineAbandonAfter) m"
    using fun_cong [OF ex] by auto
  obtain new where "es = [] @ new" "map e_match new = ?ids" "list_all abandon_event new" "d_events db' = d_events db @ new"
    and db': "d_matches db' = map (\<lambda>m. if m_id m \<in> set ?ids then abandoned now m else m) (d_matches db)"
    using abandon_all [OF ok ids all loop] by blast
  moreover have "m_id m \<in> set ?ids \<longleftrightarrow> expired now m" if "m \<in> set (d_matches db)" for m
    using d that by (auto simp: distinct_map dest: inj_onD)
  ultimately show ?thesis by simp
qed

subsection \<open>Actions\<close>

text \<open>
  C25. What an accepted action does. If the log already has an event of the same player with the
  same action id, that event is returned and nothing changes; the same holds when the request is the
  one that reached the limit of a flight chess match. Otherwise the match was active, the
  player is in it, and the request carried its revision (or, for a choice of rock, paper, scissors,
  the one before, when only the other player's locked choice came between). Then the log gains
  exactly the returned event, at the next revision, no other match changes, and the row returned is
  the one stored.
\<close>
theorem action_applied:
  assumes "reachable sv db" "ApplyAction sv flt ctx conn now random r db = Inr ((e, snap), db')"
  shows "\<exists>m\<in>set (d_matches db). m_id m = rq_match r \<and>
    (case find (same_request r) (d_events db) of
       Some e0 \<Rightarrow> e = e0 \<and> db' = db \<and> ms_match snap = m
     | None \<Rightarrow>
         db' = db \<and> ms_match snap = m \<and> m_status m = StatusAbandoned \<and> m_game m = FlightChess.GameID \<and>
           e \<in> set (d_events db) \<and> e_match e = rq_match r \<and> e_type e = TypeAbandoned \<or>
         m_status m = StatusActive \<and> rq_actor r \<in> set (users_of db (rq_match r)) \<and> current_revision db m r \<and>
           d_events db' = d_events db @ [e] \<and> e_match e = rq_match r \<and> e_revision e = m_revision m + 1 \<and>
           (same_request r e \<or> abandon_event e) \<and>
           find_match db' (rq_match r) = Some (ms_match snap) \<and> m_revision (ms_match snap) = m_revision m + 1 \<and>
           filter (\<lambda>n. m_id n \<noteq> rq_match r) (d_matches db') = filter (\<lambda>n. m_id n \<noteq> rq_match r) (d_matches db))"
proof -
  note ok = mh_reachable_ok [OF assms(1)]
  obtain m where m: "m \<in> set (d_matches db)" "m_id m = rq_match r"
    and eff: "case find (same_request r) (d_events db) of
       Some e0 \<Rightarrow> e = e0 \<and> db' = db \<and> ms_match snap = m
     | None \<Rightarrow>
         db' = db \<and> ms_match snap = m \<and> m_status m = StatusAbandoned \<and> m_game m = FlightChess.GameID \<and>
           e \<in> set (d_events db) \<and> e_match e = rq_match r \<and> e_type e = TypeAbandoned \<or>
         m_status m = StatusActive \<and> rq_actor r \<in> set (users_of db (m_id m)) \<and> current_revision db m r \<and>
           m_revision m < max_i64 \<and>
           (\<exists>oc f ls. outcome_ok oc \<and> moves_on db m f \<and> f m = outcome_match oc (m_revision m + 1) now m \<and>
             e = outcome_event m r oc now \<and> ms_match snap = f m \<and> db' = stepped_db m e f ls db)"
    using apply_effect [OF assms(2) ok] by blast
  have d: "distinct (map m_id (d_matches db'))"
    using tables_ok_apply [OF assms(2) ok] by (simp add: tables_ok_def)
  have new: "d_events db' = d_events db @ [e] \<and> e_match e = rq_match r \<and> e_revision e = m_revision m + 1 \<and>
      (same_request r e \<or> abandon_event e) \<and>
      find_match db' (rq_match r) = Some (ms_match snap) \<and> m_revision (ms_match snap) = m_revision m + 1 \<and>
      filter (\<lambda>n. m_id n \<noteq> rq_match r) (d_matches db') = filter (\<lambda>n. m_id n \<noteq> rq_match r) (d_matches db)"
    if oc: "outcome_ok oc" and f: "moves_on db m f" "f m = outcome_match oc (m_revision m + 1) now m"
      and e: "e = outcome_event m r oc now" and s: "ms_match snap = f m" and db': "db' = stepped_db m e f ls db"
    for oc f ls
  proof -
    have fm: "m_id (f m) = rq_match r" "m_revision (f m) = m_revision m + 1" using f(1) m(2) by (simp_all add: moves_on_def)
    have "f m \<in> set (d_matches db')" using m(1) by (simp add: db')
    then have "find_match db' (rq_match r) = Some (ms_match snap)" using find_match_key [OF d] fm(1) s by metis
    moreover have "same_request r e \<or> abandon_event e"
      using oc m(2) by (auto simp: e outcome_event_def same_request_def abandon_event_def outcome_ok_def status_defs)
    moreover have "filter (\<lambda>n. m_id n \<noteq> rq_match r) (map f ms) = filter (\<lambda>n. m_id n \<noteq> rq_match r) ms"
      if "set ms \<subseteq> set (d_matches db)" for ms
      using that
    proof (induction ms)
      case (Cons n ms)
      have "distinct (map m_id (d_matches db))" using ok by (simp add: tables_ok_def)
      then have "m_id (f n) = m_id n" using moves_on_id [OF f(1) _ m(1), of n] Cons.prems by simp
      moreover have "m_id n \<noteq> rq_match r \<longrightarrow> f n = n" using f(1) Cons.prems m(2) by (simp add: moves_on_def)
      ultimately show ?case using Cons by simp
    qed simp
    ultimately show ?thesis using fm s m(2) by (simp add: db' e) (simp add: outcome_event_def)
  qed
  show ?thesis
  proof (cases "find (same_request r) (d_events db)")
    case None
    then show ?thesis using eff [unfolded None option.case m(2)] new m unfolding None option.case by blast
  next
    case (Some e0)
    then show ?thesis using eff m unfolding Some option.case by blast
  qed
qed

text \<open>Logs only grow.\<close>

definition log_grows :: "db \<Rightarrow> db \<Rightarrow> bool" where
  "log_grows db db' \<longleftrightarrow> (\<exists>new. d_events db' = d_events db @ new)"

lemma log_same: "d_events db' = d_events db \<Longrightarrow> log_grows db db'"
  by (simp add: log_grows_def)

lemma log_stepped: "log_grows db (stepped_db m e f ls db)"
  by (simp add: log_grows_def)

lemma log_trans: "log_grows db db1 \<Longrightarrow> log_grows db1 db2 \<Longrightarrow> log_grows db db2"
  by (auto simp: log_grows_def)

lemma log_loop:
  "abandon_loop sv flts ctx cutoff now ids es db = (err, es', db') \<Longrightarrow> tables_ok sv db \<Longrightarrow> log_grows db db'"
proof (induction sv flts ctx cutoff now ids es db rule: abandon_loop.induct)
  case (1 sv flts ctx cutoff now es db)
  then show ?case using log_same [of db db] by simp
next
  case (2 sv flts ctx cutoff now i ids es db)
  show ?case
  proof (cases "abandonIfExpired sv (flts i) ctx i cutoff now db")
    case (Inl e)
    then show ?thesis using 2(2) log_same [of db db] by simp
  next
    case (Inr r)
    obtain ev d where r: "r = (ev, d)" by (cases r)
    note eq = Inr [unfolded r]
    have "log_grows d db'" using 2(1) [OF eq refl] 2(2) eq tables_ok_abandon [OF eq 2(3)] by simp
    moreover have "log_grows db d" using abandon_effect [OF eq 2(3)] log_stepped log_same [of db db] by blast
    ultimately show ?thesis using log_trans by blast
  qed
qed

lemma log_step: "service_step sv k db db' \<Longrightarrow> tables_ok sv db \<Longrightarrow> log_grows db db'"
proof (induction rule: service_step.induct)
  case (create flt ctx now random fresh g a b config db m db')
  then obtain i normal c d where "db' = created_db m (new_player i a 0 c) (new_player i b 1 d) (single_game sv g) db"
    using create_effect [OF create(1)] by blast
  then show ?case by (intro log_same) simp
next
  case (cancel flt ctx now i actor db e db')
  then show ?case using cancel_effect log_stepped by blast
next
  case (presence flt ctx now i user online db u db')
  from presence(1) have "d_events db' = d_events db" unfolding setPlayerPresence_def
    by (elim runE branchE) auto
  then show ?case by (rule log_same)
next
  case (expired flt flts ctx now db err es db')
  then show ?case using log_same [of db db]
    by (auto simp: AbandonExpired_def Let_def split: if_splits dest: log_loop)
next
  case (boot flt ctx now db u db')
  then show ?case by (intro log_same) (auto simp: MarkActiveMatchesOfflineOnBoot_def)
next
  case (ticket flt ctx now random i user db lt db' h)
  then show ?case using ticket_effect [OF ticket(1)] by (intro log_same) auto
next
  case (connect flt ctx now random rq db cc db')
  have "d_events db' = d_events db" using connect_effect [OF connect(1)] by (auto split: if_splits)
  then show ?case by (rule log_same)
next
  case (action flt ctx conn now random r db es db')
  obtain e snap where es: "es = (e, snap)" by (cases es)
  show ?case using apply_effect [OF action(1) [unfolded es] action(2)] log_stepped log_same [of db db]
    by (auto split: option.splits)
qed (simp_all add: log_grows_def revokeUserCredentials_def)

lemma log_run: "service_run sv hs db db' \<Longrightarrow> tables_ok sv db \<Longrightarrow> log_grows db db'"
proof (induction rule: service_run.induct)
  case (run_step hs db db1 k db2)
  then show ?case using log_trans log_step tables_ok_run by blast
qed (simp add: log_grows_def)

text \<open>
  C26. A request is applied at most once. After \<open>ApplyAction\<close> applied a request of a player, every
  later request with the same match, player and action id that is accepted, whatever happened in
  between, is answered with the same event and changes nothing.
\<close>
theorem action_once:
  assumes "reachable sv db" "ApplyAction sv flt ctx conn now random r db = Inr ((e, snap), db1)" "same_request r e"
    and "service_run sv hs db1 db2" "rq_match r2 = rq_match r" "rq_actor r2 = rq_actor r" "rq_action r2 = rq_action r"
  shows "case ApplyAction sv flt2 ctx2 conn2 now2 random2 r2 db2 of
      Inl _ \<Rightarrow> True
    | Inr ((e2, snap2), db3) \<Rightarrow> e2 = e \<and> db3 = db2"
proof (clarsimp split: sum.split)
  fix e2 snap2 db3
  assume again: "ApplyAction sv flt2 ctx2 conn2 now2 random2 r2 db2 = Inr ((e2, snap2), db3)"
  note ok = mh_reachable_ok [OF assms(1)]
  note ok1 = tables_ok_apply [OF assms(2) ok]
  note ok2 = tables_ok_run [OF assms(4) ok1]
  have "find (same_request r) (d_events db1) = Some e"
  proof (cases "find (same_request r) (d_events db)")
    case None
    from apply_effect [OF assms(2) ok] obtain m where
      "db1 = db \<and> e \<in> set (d_events db) \<or> (\<exists>f ls. db1 = stepped_db m e f ls db)" unfolding None option.case by blast
    moreover have "e \<notin> set (d_events db)" using None assms(3) by (auto simp: find_None_iff)
    ultimately obtain f ls where "db1 = stepped_db m e f ls db" by blast
    then show ?thesis using None assms(3) by (simp add: find_snoc)
  next
    case (Some e0)
    then show ?thesis using apply_effect [OF assms(2) ok] by auto
  qed
  moreover obtain new where "d_events db2 = d_events db1 @ new"
    using log_run [OF assms(4) ok1] by (auto simp: log_grows_def)
  moreover have "find P xs = Some x \<Longrightarrow> find P (xs @ ys) = Some x" for P and xs :: "event_row list" and x ys
    by (induction xs) (auto split: if_splits)
  ultimately have "find (same_request r) (d_events db2) = Some e" by metis
  moreover have "same_request r2 = same_request r" using assms(5-7) by (simp add: same_request_def [abs_def])
  ultimately show "e2 = e \<and> db3 = db2" using apply_effect [OF again ok2] by auto
qed

subsection \<open>An example\<close>

text \<open>Two players of a server with all its games, and a match of Gomoku between them.\<close>

definition sample_games :: registry where
  "sample_games = (case NewRegistry of Inr reg \<Rightarrow> reg | Inl _ \<Rightarrow> \<lparr>rg_rules = [], rg_descriptors = []\<rparr>)"

definition sample_service :: service where
  "sample_service = \<lparr>sv_games = sample_games, sv_parse = sample_parser, sv_ucd = sample_ucd,
     sv_pepper = replicate 32 CHR ''p''\<rparr>"

definition ann :: bytes where "ann = replicate 36 CHR ''a''"
definition bob :: bytes where "bob = replicate 36 CHR ''b''"
definition first_match :: bytes where "first_match = replicate 36 CHR ''c''"

definition sample_user :: "bytes \<Rightarrow> user" where
  "sample_user i = \<lparr>us_id = i, us_nickname = ''Ann B'', us_normalized = ''ann b'', us_enabled = 1, us_last_seen = None,
     us_epoch = ''e''\<rparr>"

definition sample_db :: db where
  "sample_db = empty_db [sample_user ann, sample_user bob]"

definition sample_match :: match_row where
  "sample_match = new_match first_match Gomoku.GameID '''' 5"

definition played_db :: db where
  "played_db = created_db sample_match (new_player first_match ann 0 ColorBlack) (new_player first_match bob 1 ColorWhite)
     True sample_db"

lemma sample_ids: "ann \<noteq> bob" "ann \<noteq> ''''" "bob \<noteq> ''''" "length ann = 36" "length bob = 36"
  by (simp_all add: ann_def bob_def numeral_eq_Suc)

lemma sample_uuids: "canonicalUUID sample_parser ann" "canonicalUUID sample_parser bob"
  "canonicalUUID sample_parser first_match" "canonicalUUID sample_parser (replicate 36 CHR ''d'')"
  by (simp_all add: canonicalUUID_def sample_parser_def ann_def bob_def first_match_def list_all_iff)

lemma runes_plain: "runes (replicate n CHR ''a'') = replicate n 97" "runes (replicate n CHR ''b'') = replicate n 98"
  "runes (replicate n CHR ''c'') = replicate n 99"
  by (induction n) (simp_all add: rune_width2_def rune_val_def Let_def)

lemma sample_valid_ids: "validIdentifier ann" "validIdentifier bob" "validIdentifier first_match"
  by (simp_all add: validIdentifier_def ann_def bob_def first_match_def maximumIdentifierBytes_def trimmed_def
      trim_space_def is_space_def runes_plain dropWhile_replicate)

lemma sample_lookup: "Lookup (sv_games sample_service) Gomoku.GameID = Some gomoku_rules"
  "single_game sample_service Gomoku.GameID"
proof -
  obtain reg where reg: "NewRegistry = Inr reg"
    "\<And>g r. Lookup reg g = Some r \<longleftrightarrow> r \<in> set builtin \<and> ru_game r = g" using NewRegistry_total by blast
  show "Lookup (sv_games sample_service) Gomoku.GameID = Some gomoku_rules"
    by (simp add: sample_service_def sample_games_def reg builtin_def)
  then show "single_game sample_service Gomoku.GameID" by (simp add: single_game_def)
qed

lemma sample_config: "configureRules gomoku_rules '''' = Some (gomoku_rules, '''')"
  by (simp add: configureRules_def)

lemma sample_rows: "find_match sample_db i = None" "find_user sample_db ann = Some (sample_user ann)"
  "find_user sample_db bob = Some (sample_user bob)" "\<not> busy sample_db g u"
  using sample_ids by (simp_all add: sample_db_def empty_db_def find_match_def find_user_def sample_user_def busy_def)

lemma sample_reach0: "reachable sample_service sample_db"
  unfolding reachable_def sample_db_def by (blast intro: run_nil)

lemma sample_created:
  "CreateWithConfig sample_service (\<lambda>_. False) None 5 [0] (Some first_match) Gomoku.GameID ann bob '''' sample_db =
     Inr (sample_match, played_db)"
proof -
  have c: "colors_of 0 = (ColorBlack, ColorWhite)" by (simp add: colors_of_def)
  have "tables_ok sample_service sample_db" using mh_reachable_ok [OF sample_reach0] .
  from create_result [OF this _ _ sample_valid_ids(1,2) sample_ids(1) sample_lookup(1) _ sample_config
      sample_rows(2) _ sample_rows(3) _ sample_rows(1), of "\<lambda>_. False" None 5 0 "[]" first_match]
  show ?thesis
    by (simp add: GuardTransaction_def sample_user_def sample_rows(4) sample_lookup(2) Let_def c sample_match_def played_db_def)
qed

lemma mh_sample_reach: "reachable sample_service played_db"
proof -
  have "service_run sample_service [] sample_db sample_db" by (rule run_nil)
  from run_step [OF this service_step.create [OF sample_created]]
  have "service_run sample_service [] sample_db played_db" by simp
  then show ?thesis unfolding reachable_def sample_db_def by blast
qed

lemma mh_sample_played: "d_matches played_db = [sample_match]" "d_events played_db = []" "d_tickets played_db = []"
  "d_tokens played_db = []" "d_limits played_db = []" "d_users played_db = [sample_user ann, sample_user bob]"
  "players_of played_db first_match = [new_player first_match ann 0 ColorBlack, new_player first_match bob 1 ColorWhite]"
  "users_of played_db first_match = [ann, bob]"
  by (simp_all add: played_db_def sample_db_def empty_db_def players_of_def users_of_def new_player_def created_db_def)

lemma sample_match_sel: "m_id sample_match = first_match" "m_game sample_match = Gomoku.GameID"
  "m_status sample_match = StatusActive" "m_revision sample_match = 0" "m_offline sample_match = None"
  "m_config sample_match = None" "m_created sample_match = 5" "m_updated sample_match = 5"
  by (simp_all add: sample_match_def new_match_def nullableJSON_def)

theorem match_tables_witness: "slots_complete played_db Gomoku.GameID first_match (ann, bob) True"
  using match_tables [OF mh_sample_reach] sample_lookup(2)
  by (simp add: mh_sample_played sample_match_sel)

theorem create_outcome_witness:
  "CreateWithConfig sample_service (\<lambda>_. False) None 6 [1] (Some (replicate 36 CHR ''d'')) Gomoku.GameID ann bob '''' played_db =
     Inl ErrActiveMatchExists"
proof -
  have "busy played_db Gomoku.GameID ann" by (simp add: busy_def mh_sample_played sample_match_sel)
  moreover have "find_match played_db (replicate 36 CHR ''d'') = None"
    by (simp add: find_match_def mh_sample_played sample_match_sel first_match_def numeral_eq_Suc)
  moreover have "find_user played_db ann = Some (sample_user ann)" "find_user played_db bob = Some (sample_user bob)"
    using sample_ids by (simp_all add: find_user_def mh_sample_played sample_user_def)
  ultimately show ?thesis
    using create_outcome [OF mh_sample_reach _ _ sample_valid_ids(1,2) sample_ids(1) sample_lookup(1) _ sample_config,
        of "\<lambda>_. False" None "sample_user ann" "sample_user bob" "replicate 36 CHR ''d''" 6 1 "[]"] sample_lookup(2)
    by (simp add: GuardTransaction_def sample_user_def Let_def)
qed

text \<open>Reading the match, also with its timer running.\<close>

definition sample_row :: "int option \<Rightarrow> match_row" where
  "sample_row offline = sample_match\<lparr>m_offline := offline\<rparr>"

definition sample_players :: "player_row list" where
  "sample_players = [new_player first_match ann 0 ColorBlack, new_player first_match bob 1 ColorWhite]"

lemma sample_row_sel: "m_id (sample_row t) = first_match" "m_game (sample_row t) = Gomoku.GameID"
  "m_status (sample_row t) = StatusActive" "m_revision (sample_row t) = 0" "m_offline (sample_row t) = t"
  "m_config (sample_row t) = None" "m_created (sample_row t) = 5" "m_updated (sample_row t) = 5" "sample_row None = sample_match"
  by (simp_all add: sample_row_def sample_match_sel sample_match_def new_match_def nullableJSON_def)

lemma sample_players_ok: "valid_players sample_players" "player_ids sample_players = (ann, bob)"
  "playerMember sample_players ann" "playerMember sample_players bob"
  using sample_ids sample_valid_ids
  by (simp_all add: sample_players_def valid_players_def new_player_def color_defs player_ids_def playerMember_def actionPlayers_def)

lemma sample_load:
  assumes "d_matches db = [sample_row t]" "d_players db = d_players played_db"
  shows "loadMatchAndPlayers sample_service (\<lambda>_. False) db first_match = Inr (sample_row t, sample_players)"
proof -
  have "players_of db first_match = sample_players"
    using assms(2) mh_sample_played(7) by (simp add: players_of_def sample_players_def)
  moreover have "Gomoku.GameID \<noteq> ''''" by (simp add: game_ids)
  ultimately show ?thesis using assms(1) sample_uuids(3) sample_players_ok(1)
    by (simp add: loadMatchAndPlayers_def run_def find_match_def sample_row_sel) (simp add: sample_service_def)
qed

lemma sample_slots: "slots_complete played_db Gomoku.GameID first_match (ann, bob) True"
  using sample_ids(1) by (simp add: slots_complete_def slots_of_def played_db_def sample_db_def empty_db_def sample_match_sel new_player_def)

lemma slots_complete_cong: "d_slots db' = d_slots db \<Longrightarrow> slots_complete db' = slots_complete db"
  by (intro ext) (simp add: slots_complete_def slots_of_def)

lemma sample_rebuild:
  assumes "d_events db = []" "d_slots db = d_slots played_db"
  shows "rebuildSnapshot sample_service (\<lambda>_. False) db (sample_row t) sample_players =
    Inr \<lparr>ms_match = sample_row t, ms_players = sample_players, ms_game = Gomoku.initialSnapshot\<rparr>"
  by (rule rebuild_new_gomoku [OF sample_lookup(1) _ sample_players_ok(1), where offline = t and i = first_match and now = 5])
    (use assms sample_slots slots_complete_cong [OF assms(2)] in
      \<open>simp_all add: sample_row_def sample_match_def sample_players_ok(2)\<close>)

definition sample_ticket :: "bytes \<Rightarrow> ticket_row" where
  "sample_ticket h = \<lparr>t_hash = h, t_match = first_match, t_user = ann, t_game = Gomoku.GameID, t_expires = 60006,
     t_consumed = None, t_created = 6\<rparr>"

definition sample_random :: "nat \<Rightarrow> nat list" where
  "sample_random n = replicate 32 n"

lemma sample_secret: "randomLaunchTicket (sample_random n) = Some (b64_encode (sample_random n), [])"
  by (simp add: randomLaunchTicket_def sample_random_def launchTicketEntropyBytes_def)

lemma sample_issue:
  assumes "hashLaunchTicket (sv_pepper sample_service) (b64_encode (sample_random 0)) = Some h"
  shows "CreateLaunchTicket sample_service (\<lambda>_. False) None 6 (sample_random 0) first_match ann played_db =
    Inr (\<lparr>lt_match = first_match, lt_game = Gomoku.GameID, lt_token = b64_encode (sample_random 0), lt_expires = 60006\<rparr>,
      played_db\<lparr>d_tickets := [sample_ticket h]\<rparr>)"
proof -
  have load: "loadMatchAndPlayers sample_service (\<lambda>_. False) played_db first_match = Inr (sample_match, sample_players)"
    using sample_load [of played_db None] mh_sample_played(1) by (simp add: sample_row_sel(9))
  have rebuild: "rebuildSnapshot sample_service (\<lambda>_. False) played_db sample_match sample_players =
      Inr \<lparr>ms_match = sample_match, ms_players = sample_players, ms_game = Gomoku.initialSnapshot\<rparr>"
    using sample_rebuild [of played_db None] mh_sample_played(2) by (simp add: sample_row_sel(9))
  have uuids: "canonicalUUID (sv_parse sample_service) first_match" "canonicalUUID (sv_parse sample_service) ann"
    "complete_config sample_service"
    using sample_uuids by (simp_all add: sample_service_def complete_config_def minimumTokenPepperBytes_def)
  have secret: "fresh_secret launchTicketCollisionMax (hashLaunchTicket (sv_pepper sample_service))
      (\<lambda>h. find_ticket played_db h \<noteq> None) (sample_random 0) = Some (b64_encode (sample_random 0), h)"
    by (simp add: launchTicketCollisionMax_def eval_nat_numeral sample_secret assms find_ticket_def mh_sample_played(3))
  have expires: "safeAddMilliseconds 6 launchTicketLifetime = Some 60006"
    by (simp add: safeAddMilliseconds_def launchTicketLifetime_def i64_def max_i64_def)
  have ins: "insert_ticket (\<lambda>_. False) t played_db = Inr (played_db\<lparr>d_tickets := [t]\<rparr>)" if "t_match t = first_match" "t_user t = ann" for t
    using that sample_ids by (simp add: insert_ticket_def find_match_def find_user_def mh_sample_played sample_match_sel sample_user_def)
  show ?thesis
    by (simp add: CreateLaunchTicket_def uuids beginWriteTransaction_def GuardTransaction_def load sample_match_sel
        sample_players_ok rebuild sample_lookup(1) validateCompleteActiveSlotSet_def run_def sample_slots expires
        secret [unfolded not_None_eq] ins commit_def sample_ticket_def)
qed

lemma sample_opaque: "n < 256 \<Longrightarrow> validOpaqueCredential (b64_encode (sample_random n))"
  by (rule randomLaunchTicket_valid [OF _ sample_secret]) (simp add: sample_random_def list_all_iff)

definition sample_request :: CredentialRequest where
  "sample_request = \<lparr>cr_ticket = b64_encode (sample_random 0), cr_token = ''''\<rparr>"

lemma sample_connect:
  assumes "hashCredential (sv_pepper sample_service) (b64_encode (sample_random 0)) launchTicketHashDomain = Some h"
    and "hashCredential (sv_pepper sample_service) (b64_encode (sample_random 2)) resumeTokenHashDomain = Some k"
  shows "\<exists>cc db'. ConnectCredential sample_service (\<lambda>_. False) None 7 (sample_random 2) sample_request
      (played_db\<lparr>d_tickets := [sample_ticket h]\<rparr>) = Inr (cc, db')"
proof -
  let ?db = "played_db\<lparr>d_tickets := [sample_ticket h]\<rparr>"
  have ne: "b64_encode (sample_random 0) \<noteq> ''''" using sample_opaque [of 0] by (auto simp: validOpaqueCredential_def)
  have load: "loadMatchAndPlayers sample_service (\<lambda>_. False) ?db first_match = Inr (sample_match, sample_players)"
    using sample_load [of ?db None] mh_sample_played(1) by (simp add: sample_row_sel(9))
  have rebuild: "rebuildSnapshot sample_service (\<lambda>_. False) ?db sample_match sample_players =
      Inr \<lparr>ms_match = sample_match, ms_players = sample_players, ms_game = Gomoku.initialSnapshot\<rparr>"
    using sample_rebuild [of ?db None] mh_sample_played(2) by (simp add: sample_row_sel(9))
  have uuids: "canonicalUUID (sv_parse sample_service) first_match" "canonicalUUID (sv_parse sample_service) ann"
    "complete_config sample_service"
    using sample_uuids by (simp_all add: sample_service_def complete_config_def minimumTokenPepperBytes_def)
  have expires: "safeAddMilliseconds 7 resumeTokenLifetime = Some 1800007"
    by (simp add: safeAddMilliseconds_def resumeTokenLifetime_def i64_def max_i64_def)
  have owner: "ticket_owner (\<lambda>_. False) 7 ?db h = Inr (first_match, ann, Some Gomoku.GameID)"
    by (simp add: ticket_owner_def run_def find_ticket_def sample_ticket_def)
  have user: "find_user ?db ann = Some (sample_user ann)" by (simp add: find_user_def mh_sample_played sample_user_def)
  obtain d where d: "consume_ticket (\<lambda>_. False) 7 h ?db = Inr d" "d_matches d = d_matches played_db"
    "d_users d = d_users played_db" "d_tokens d = []"
    by (simp add: consume_ticket_def sample_ticket_def mh_sample_played)
  have ins: "insert_token (\<lambda>_. False) t d = Inr (d\<lparr>d_tokens := [t]\<rparr>)" if "k_match t = first_match" "k_user t = ann" for t
    using that d(2-) by (simp add: insert_token_def find_match_def find_user_def mh_sample_played sample_match_sel sample_user_def)
  have max: "launchTicketCollisionMax = Suc 7" by (simp add: launchTicketCollisionMax_def)
  have secret: "fresh_secret launchTicketCollisionMax
      (\<lambda>p. hashCredential (sv_pepper sample_service) p resumeTokenHashDomain)
      (\<lambda>h. \<exists>y. find_token d h = Some y) (sample_random 2) = Some (b64_encode (sample_random 2), k)"
    unfolding max by (subst fresh_secret.simps(2)) (simp add: sample_secret assms(2) find_token_def d(4))
  have "\<exists>d'. issue_token sample_service (\<lambda>_. False) 7 1800007 (sample_random 2) first_match ann d =
      Inr (b64_encode (sample_random 2), d')"
    by (simp add: issue_token_def secret ins run_def)
  then obtain d' where d': "issue_token sample_service (\<lambda>_. False) 7 1800007 (sample_random 2) first_match ann d =
      Inr (b64_encode (sample_random 2), d')" by blast
  show ?thesis
    by (simp add: ConnectCredential_def Let_def sample_request_def ne uuids sample_opaque assms(1) beginWriteTransaction_def
        GuardTransaction_def expires owner load sample_match_sel sample_players_ok run_def user rebuild d(1) d' commit_def)
      (simp add: sample_user_def)
qed

theorem ticket_once_witness:
  "\<exists>db db1 cc e. ConnectCredential sample_service (\<lambda>_. False) None 7 (sample_random 2) sample_request db = Inr (cc, db1) \<and>
    ConnectCredential sample_service (\<lambda>_. False) None 8 (sample_random 3) sample_request db1 = Inl e"
proof -
  have pepper: "sv_pepper sample_service \<noteq> ''''" by (simp add: sample_service_def)
  obtain h where h: "hashCredential (sv_pepper sample_service) (b64_encode (sample_random 0)) launchTicketHashDomain = Some h"
    using hashCredential_total [OF pepper sample_opaque, of 0 launchTicketHashDomain] by (auto simp: launchTicketHashDomain_def)
  obtain k where k: "hashCredential (sv_pepper sample_service) (b64_encode (sample_random 2)) resumeTokenHashDomain = Some k"
    using hashCredential_total [OF pepper sample_opaque, of 2 resumeTokenHashDomain] by (auto simp: resumeTokenHashDomain_def)
  let ?db = "played_db\<lparr>d_tickets := [sample_ticket h]\<rparr>"
  have issue: "hashLaunchTicket (sv_pepper sample_service) (b64_encode (sample_random 0)) = Some h"
    using h by (simp add: hashLaunchTicket_eq)
  obtain us hs where "service_run sample_service hs (empty_db us) played_db"
    using mh_sample_reach unfolding reachable_def by blast
  from run_step [OF this service_step.ticket [OF sample_issue [OF issue] refl]]
  have reach: "reachable sample_service ?db" unfolding reachable_def by blast
  obtain cc db1 where c: "ConnectCredential sample_service (\<lambda>_. False) None 7 (sample_random 2) sample_request ?db = Inr (cc, db1)"
    using sample_connect [OF h k] by blast
  have "cr_token sample_request = ''''" by (simp add: sample_request_def)
  from ticket_once [OF reach this c _ run_nil, of h sample_request "\<lambda>_. False" None 8 "sample_random 3"] c h
  show ?thesis by (auto simp: sample_request_def)
qed

text \<open>Both players leave, and a day passes.\<close>

lemma sample_offline:
  "setPlayerPresence sample_service (\<lambda>_. False) None 9 first_match ann False played_db =
     Inr ((), played_db\<lparr>d_matches := [sample_row (Some 9)]\<rparr>)"
proof -
  have load: "loadMatchAndPlayers sample_service (\<lambda>_. False) played_db first_match = Inr (sample_match, sample_players)"
    using sample_load [of played_db None] mh_sample_played(1) by (simp add: sample_row_sel(9))
  show ?thesis using sample_uuids
    by (simp add: setPlayerPresence_def sample_service_def [THEN arg_cong [of _ _ sv_parse]] beginWriteTransaction_def
        GuardTransaction_def load sample_match_sel update_one_match_def mh_sample_played commit_def run_def sample_row_def
        sample_players_def new_player_def)
qed

definition offline_db :: db where
  "offline_db = played_db\<lparr>d_matches := [sample_row (Some 9)]\<rparr>"

lemma offline_reach: "reachable sample_service offline_db"
proof -
  obtain us hs where "service_run sample_service hs (empty_db us) played_db"
    using mh_sample_reach unfolding reachable_def by blast
  from run_step [OF this service_step.presence [OF sample_offline]] show ?thesis
    unfolding reachable_def offline_db_def by blast
qed

lemma offline_expired: "\<exists>es db'. AbandonExpired sample_service (\<lambda>_. False) (\<lambda>_ _. False) None 86400009 offline_db = (None, es, db') \<and>
    d_matches db' = [abandoned 86400009 (sample_row (Some 9))] \<and> d_players db' = sample_players \<and> d_users db' = d_users sample_db"
proof -
  have load: "loadMatchAndPlayers sample_service (\<lambda>_. False) offline_db first_match = Inr (sample_row (Some 9), sample_players)"
    by (rule sample_load) (simp_all add: offline_db_def)
  have rebuild: "rebuildSnapshot sample_service (\<lambda>_. False) offline_db (sample_row (Some 9)) sample_players =
      Inr \<lparr>ms_match = sample_row (Some 9), ms_players = sample_players, ms_game = Gomoku.initialSnapshot\<rparr>"
    by (rule sample_rebuild) (simp_all add: offline_db_def mh_sample_played)
  let ?e = "platform_event first_match 1 TypeAbandoned None 86400009"
  have kept: "d_players offline_db = sample_players" "d_users offline_db = d_users sample_db"
    by (simp_all add: offline_db_def played_db_def sample_players_def sample_db_def empty_db_def)
  obtain d1 where d1: "insert_event (\<lambda>_. False) ?e offline_db = Inr d1" "d_matches d1 = [sample_row (Some 9)]"
    "d_slots d1 = d_slots played_db" "d_players d1 = sample_players" "d_users d1 = d_users sample_db"
    by (simp add: insert_event_def platform_event_def find_match_def offline_db_def sample_row_sel mh_sample_played
        kept [unfolded offline_db_def, simplified] sample_db_def empty_db_def)
  obtain d2 where d2: "update_one_match (\<lambda>_. False) (\<lambda>n. m_id n = first_match \<and> m_status n = StatusActive \<and> m_revision n = 0 \<and>
        offline_since 9 n) (\<lambda>n. n\<lparr>m_status := StatusAbandoned, m_revision := 1, m_updated := 86400009,
        m_finished := Some 86400009, m_winner := None, m_result := None, m_offline := None\<rparr>) d1 = Inr d2"
      "d_slots d2 = d_slots played_db" "d_matches d2 = [abandoned 86400009 (sample_row (Some 9))]"
      "d_players d2 = sample_players" "d_users d2 = d_users sample_db"
    by (simp add: update_one_match_def d1(2-) sample_row_sel offline_since_def abandoned_def)
  obtain d3 where d3: "delete_slots (\<lambda>_. False) Gomoku.GameID first_match (ann, bob) True d2 = Inr d3"
    using sample_ids(1)
    by (simp add: delete_slots_def d2(2) played_db_def sample_db_def empty_db_def sample_match_sel new_player_def)
  have uuid: "canonicalUUID (sv_parse sample_service) first_match" using sample_uuids by (simp add: sample_service_def)
  obtain d4 where d4: "deleteMatchCredentials sample_service (\<lambda>_. False) first_match d3 = Inr d4"
    by (simp add: deleteMatchCredentials_def uuid)
  have one: "abandonIfExpired sample_service (\<lambda>_. False) None first_match 9 86400009 offline_db = Inr (Some ?e, d4)"
    by (simp add: abandonIfExpired_def beginWriteTransaction_def GuardTransaction_def load run_def sample_row_sel
        offline_since_def rebuild max_i64_def sample_lookup(1) Let_def sample_players_ok(2)
        d1(1) d2(1) [unfolded offline_since_def] d3 d4 commit_def)
  have cut: "i64 (86400009 - fullyOfflineAbandonAfter) = 9" by (simp add: fullyOfflineAbandonAfter_def i64_def)
  have "map m_id (filter (\<lambda>m. m_status m = StatusActive \<and> offline_since 9 m) (d_matches offline_db)) = [first_match]"
    by (simp add: offline_db_def sample_row_sel offline_since_def)
  moreover have "d_matches d4 = d_matches d2 \<and> d_players d4 = d_players d2 \<and> d_users d4 = d_users d2" using d3 d4 by auto
  ultimately show ?thesis using d2(3-5) by (simp add: AbandonExpired_def cut Let_def uuid one)
qed

theorem abandon_expired_witness:
  "\<exists>es db'. AbandonExpired sample_service (\<lambda>_. False) (\<lambda>_ _. False) None 86400009 offline_db = (None, es, db') \<and>
    d_matches db' = [abandoned 86400009 (sample_row (Some 9))] \<and> map e_match es = [first_match]"
proof -
  obtain es db' where e: "AbandonExpired sample_service (\<lambda>_. False) (\<lambda>_ _. False) None 86400009 offline_db = (None, es, db')"
    using offline_expired by blast
  have "expired 86400009 (sample_row (Some 9))" by (simp add: expired_def sample_row_sel)
  then have "d_matches db' = [abandoned 86400009 (sample_row (Some 9))] \<and> map e_match es = [first_match]"
    using abandon_expired [OF offline_reach _ _ e] by (simp add: offline_db_def sample_row_sel max_i64_def)
  with e show ?thesis by (intro exI conjI) auto
qed


text \<open>The first move of the match.\<close>

definition first_action :: ActionRequest where
  "first_action = \<lparr>rq_match = first_match, rq_actor = ann, rq_action = replicate 36 CHR ''d'', rq_revision = 0,
     rq_type = Gomoku.MoveRequested, rq_payload = render (JObj (Gomoku.move_members (Gomoku.pt 7 7)))\<rparr>"

lemma sample_actor: "validActorID ann"
proof -
  have "\<not> has_control (replicate n CHR ''a'')" for n by (induction n) simp_all
  moreover have "utf8_valid ann" by (intro utf8_valid_ascii) (simp add: ann_def list_all_iff)
  ultimately show ?thesis by (simp add: validActorID_def ann_def)
qed

lemma first_semantics:
  "validateActionRequest (sv_parse sample_service) first_action = Inr (noSemantics\<lparr>as_x := 7, as_y := 7\<rparr>)"
proof -
  have p: "Gomoku.point_valid (Gomoku.pt 7 7)" by (simp add: Gomoku.point_valid_def Gomoku.BoardSize_def)
  have "sv_parse sample_service = sample_parser" by (simp add: sample_service_def)
  then show ?thesis
    using decodeMoveRequest_members [OF p] sample_valid_ids sample_uuids
    by (simp add: validateActionRequest_def Let_def first_action_def type_defs [unfolded type_defs] del: render.simps)
      (simp add: type_defs)
qed

lemma sample_move:
  "\<exists>e snap db'. ApplyAction sample_service (\<lambda>_. False) None None 6 [] first_action played_db = Inr ((e, snap), db') \<and>
    same_request first_action e \<and> d_events db' = [e]"
proof -
  let ?sem = "noSemantics\<lparr>as_x := 7, as_y := 7\<rparr>" and ?r = first_action
  have p: "Gomoku.point_valid (Gomoku.pt 7 7)" by (simp add: Gomoku.point_valid_def Gomoku.BoardSize_def)
  have load: "loadMatchAndPlayers sample_service (\<lambda>_. False) played_db first_match = Inr (sample_match, sample_players)"
    using sample_load [of played_db None] mh_sample_played(1) by (simp add: sample_row_sel(9))
  have rebuild: "rebuildSnapshot sample_service (\<lambda>_. False) played_db sample_match sample_players =
      Inr \<lparr>ms_match = sample_match, ms_players = sample_players, ms_game = Gomoku.initialSnapshot\<rparr>"
    using sample_rebuild [of played_db None] mh_sample_played(2) by (simp add: sample_row_sel(9))
  obtain st' where st': "Gomoku.moveState Gomoku.initialState ann (Gomoku.pt 7 7) = Inr (Gomoku.Black, st')"
    "Gomoku.st_status st' = ''active''"
    using gomoku_first [OF p] by blast
  obtain a b where ab: "actionPlayers sample_players ann = Some (a, b)" "p_color a = ColorBlack"
    by (simp add: actionPlayers_def sample_players_def new_player_def)
  obtain oc where oc: "produce gomoku_rules [] sample_match sample_players a b Gomoku.initialSnapshot ?r ?sem = Inr oc"
    "oc_terminal oc = False" "oc_status oc = StatusFinished"
  proof -
    have "produce gomoku_rules [] sample_match sample_players a b
        \<lparr>sn_revision = 0, sn_state = Gomoku.marshalState Gomoku.initialState\<rparr> ?r ?sem =
      Inr (goes_on \<lparr>ev_revision = 0 + 1, ev_type = Gomoku.MoveAccepted, ev_actor = ann,
          ev_payload = Gomoku.acceptedMovePayload (Gomoku.pt 7 7) Gomoku.Black ann\<rparr>
        \<lparr>sn_revision = 0 + 1, sn_state = Gomoku.marshalState st'\<rparr>)"
      by (rule gomoku_produce [OF go_valid_initial st'(1,2) _ _ _ _ sample_actor sample_valid_ids(1)])
        (simp_all add: sample_match_sel first_action_def ab(2) Gomoku.initialState_def Gomoku.colorString_def color_defs
           del: render.simps)
    then show thesis by (intro that) (auto simp: Gomoku.initialSnapshot_def goes_on_def)
  qed
  let ?e = "outcome_event sample_match ?r oc 6"
  have e: "e_match ?e = first_match" "e_actor ?e = Some ann" "e_action ?e = Some (rq_action ?r)"
    using oc(3) by (simp_all add: outcome_event_def sample_match_sel first_action_def status_defs)
  have ins: "insert_event (\<lambda>_. False) ?e played_db = Inr (played_db\<lparr>d_events := [?e]\<rparr>)"
    using sample_ids by (simp add: insert_event_def e find_match_def find_user_def mh_sample_played sample_match_sel sample_user_def)
  have rec: "record_outcome sample_service (\<lambda>_. False) 6 gomoku_rules sample_match sample_players ?r ?sem oc played_db =
      Inr (played_db\<lparr>d_events := [?e], d_matches := [outcome_match oc 1 6 sample_match]\<rparr>)"
    by (simp add: record_outcome_def oc(2,3) ins update_one_match_def mh_sample_played sample_match_sel status_defs)
  have none: "committed_event (\<lambda>_. False) played_db sample_match ?r ?sem = Inr None"
    by (simp add: committed_event_def readActionEvent_def run_def mh_sample_played sample_match_sel game_ids)
  have new: "apply_new sample_service (\<lambda>_. False) 6 [] played_db gomoku_rules sample_match sample_players ?r ?sem =
      Inr ((?e, \<lparr>ms_match = outcome_match oc 1 6 sample_match, ms_players = sample_players, ms_game = oc_game oc\<rparr>),
        played_db\<lparr>d_events := [?e], d_matches := [outcome_match oc 1 6 sample_match]\<rparr>)"
    using ab oc(1) rec
    by (simp add: apply_new_def sample_match_sel rebuild max_i64_def commit_def first_action_def del: render.simps)
  have "ApplyAction sample_service (\<lambda>_. False) None None 6 [] ?r played_db =
      Inr ((?e, \<lparr>ms_match = outcome_match oc 1 6 sample_match, ms_players = sample_players, ms_game = oc_game oc\<rparr>),
        played_db\<lparr>d_events := [?e], d_matches := [outcome_match oc 1 6 sample_match]\<rparr>)"
  proof -
    have "rq_match ?r = first_match" "has_prefix (rq_type ?r) (Gomoku.GameID @ ''.'')"
      by (simp_all add: first_action_def has_prefix_def type_defs game_ids)
    moreover have "rulesForMatch gomoku_rules sample_match = Inr gomoku_rules"
      by (simp add: rulesForMatch_def configureRules_def sample_match_sel valueOrEmpty_def)
    ultimately show ?thesis
      by (simp add: ApplyAction_def first_semantics beginWriteTransaction_def GuardTransaction_def load sample_match_sel
          sample_lookup(1) none new)
  qed
  then show ?thesis using e by (auto simp: same_request_def first_action_def)
qed

theorem action_applied_witness:
  "\<exists>e snap db'. ApplyAction sample_service (\<lambda>_. False) None None 6 [] first_action played_db = Inr ((e, snap), db') \<and>
    e_revision e = 1 \<and> e_match e = first_match \<and> find_match db' first_match = Some (ms_match snap)"
proof -
  obtain e snap db' where a: "ApplyAction sample_service (\<lambda>_. False) None None 6 [] first_action played_db = Inr ((e, snap), db')"
    using sample_move by blast
  have "rq_match first_action = first_match" by (simp add: first_action_def)
  with action_applied [OF mh_sample_reach a] have "e_revision e = 1 \<and> e_match e = first_match \<and> find_match db' first_match = Some (ms_match snap)"
    by (simp add: mh_sample_played sample_match_sel status_defs)
  with a show ?thesis by blast
qed

theorem action_once_witness:
  "\<exists>e snap db'. ApplyAction sample_service (\<lambda>_. False) None None 6 [] first_action played_db = Inr ((e, snap), db') \<and>
    (case ApplyAction sample_service (\<lambda>_. False) None None 7 [] first_action db' of
       Inl _ \<Rightarrow> True | Inr ((e2, snap2), db3) \<Rightarrow> e2 = e \<and> db3 = db')"
proof -
  obtain e snap db' where a: "ApplyAction sample_service (\<lambda>_. False) None None 6 [] first_action played_db = Inr ((e, snap), db')"
    "same_request first_action e" using sample_move by blast
  from action_once [OF mh_sample_reach a run_nil refl refl refl] a(1) show ?thesis by blast
qed

end
