(* ===== verification/Presence.thy ===== *)
theory Presence
  imports MatchHistory
begin

text \<open>
  Who is connected (\<open>server/internal/matches/presence.go\<close>). \<open>Presence\<close> keeps the time of the last
  activity of every connection. When the last connection of a match goes, it tells the store, which
  starts the timer of the match; when a player comes it tells the store to stop the timer. The calls of the
  store happen outside the lock on the connections: an operation that calls the store has a part
  before and a part after the call, and only operations on other matches, and activity on other
  connections, come between. The lock of a match is here the operation that waits for the store.
  The store is an interface of the code, and the locale \<open>presence_store\<close> here, which the match
  service interprets.
\<close>

subsection \<open>Connections\<close>

record presenceConnectionKey =
  pk_match :: bytes
  pk_user :: bytes
  pk_connection :: bytes

type_synonym connections = "(presenceConnectionKey \<times> int) list"

datatype presence_wait =
    ConnectWaits presenceConnectionKey
  | DisconnectWaits presenceConnectionKey int
  | SweepWaits connections "bytes list"

text \<open>
  \<open>pr_waiting\<close> has the operations that wait for the store, by match, and \<open>pr_notes\<close> the notifications in the
  order in which their places are reserved.
\<close>

record presence =
  pr_connections :: connections
  pr_waiting :: "(bytes \<times> presence_wait) list"
  pr_notes :: "(bytes \<times> bytes \<times> bool) list"

definition presenceConnectionTimeout :: int where "presenceConnectionTimeout = 45 * 10 ^ 9"

definition NewPresence :: presence where
  "NewPresence = \<lparr>pr_connections = [], pr_waiting = [], pr_notes = []\<rparr>"

definition conn_del :: "presenceConnectionKey \<Rightarrow> connections \<Rightarrow> connections" where
  "conn_del k cs = filter (\<lambda>p. fst p \<noteq> k) cs"

definition conn_put :: "presenceConnectionKey \<Rightarrow> int \<Rightarrow> connections \<Rightarrow> connections" where
  "conn_put k t cs = conn_del k cs @ [(k, t)]"

definition playerOnlineLocked :: "connections \<Rightarrow> bytes \<Rightarrow> bytes \<Rightarrow> bool" where
  "playerOnlineLocked cs m u \<longleftrightarrow> list_ex (\<lambda>p. pk_match (fst p) = m \<and> pk_user (fst p) = u) cs"

definition matchOnlineLocked :: "connections \<Rightarrow> bytes \<Rightarrow> bool" where
  "matchOnlineLocked cs m \<longleftrightarrow> list_ex (\<lambda>p. pk_match (fst p) = m) cs"

definition waiting :: "presence \<Rightarrow> bytes \<Rightarrow> presence_wait option" where
  "waiting p m = map_of (pr_waiting p) m"

definition wait_for :: "bytes \<Rightarrow> presence_wait \<Rightarrow> presence \<Rightarrow> presence" where
  "wait_for m w p = p\<lparr>pr_waiting := (m, w) # filter (\<lambda>x. fst x \<noteq> m) (pr_waiting p)\<rparr>"

definition release :: "bytes \<Rightarrow> presence \<Rightarrow> presence" where
  "release m p = p\<lparr>pr_waiting := filter (\<lambda>x. fst x \<noteq> m) (pr_waiting p)\<rparr>"

definition prepareNotification :: "bytes \<Rightarrow> bytes \<Rightarrow> bool \<Rightarrow> presence \<Rightarrow> presence" where
  "prepareNotification m u online p = p\<lparr>pr_notes := pr_notes p @ [(m, u, online)]\<rparr>"

definition sanitizePresenceError :: "match_error \<Rightarrow> match_error" where
  "sanitizePresenceError e =
     (if e = ErrInvalidConfiguration \<or> e = ErrInvalidRequest \<or> e = ErrMatchNotFound then e else ErrInternal)"

definition valid_key :: "uuid_parser \<Rightarrow> presenceConnectionKey \<Rightarrow> bool" where
  "valid_key parse k \<longleftrightarrow> canonicalUUID parse (pk_match k) \<and> canonicalUUID parse (pk_user k) \<and> canonicalUUID parse (pk_connection k)"

subsection \<open>Connecting\<close>

definition start_connect :: "int \<Rightarrow> presenceConnectionKey \<Rightarrow> presence \<Rightarrow> presence" where
  "start_connect now k p =
     (let p' = p\<lparr>pr_connections := conn_put k now (pr_connections p)\<rparr> in
      if map_of (pr_connections p) k \<noteq> None then p'
      else if playerOnlineLocked (pr_connections p) (pk_match k) (pk_user k) then p'
      else wait_for (pk_match k) (ConnectWaits k) p')"

definition finish_connect :: "presenceConnectionKey \<Rightarrow> bool \<Rightarrow> presence \<Rightarrow> presence" where
  "finish_connect k stored p =
     release (pk_match k)
       (if stored then prepareNotification (pk_match k) (pk_user k) True p
        else p\<lparr>pr_connections := conn_del k (pr_connections p)\<rparr>)"

definition Touch :: "int \<Rightarrow> presenceConnectionKey \<Rightarrow> presence \<Rightarrow> bool \<times> presence" where
  "Touch now k p =
     (if map_of (pr_connections p) k = None then (False, p)
      else (True, p\<lparr>pr_connections := conn_put k now (pr_connections p)\<rparr>))"

subsection \<open>Disconnecting\<close>

definition start_disconnect :: "presenceConnectionKey \<Rightarrow> presence \<Rightarrow> presence" where
  "start_disconnect k p =
     (case map_of (pr_connections p) k of
        None \<Rightarrow> p
      | Some lastSeen \<Rightarrow>
          let cs = conn_del k (pr_connections p); p' = p\<lparr>pr_connections := cs\<rparr> in
          if playerOnlineLocked cs (pk_match k) (pk_user k) then p'
          else if matchOnlineLocked cs (pk_match k) then prepareNotification (pk_match k) (pk_user k) False p'
          else wait_for (pk_match k) (DisconnectWaits k lastSeen) p')"

definition finish_disconnect :: "presenceConnectionKey \<Rightarrow> int \<Rightarrow> bool \<Rightarrow> presence \<Rightarrow> presence" where
  "finish_disconnect k lastSeen stored p =
     release (pk_match k)
       (if stored then prepareNotification (pk_match k) (pk_user k) False p
        else p\<lparr>pr_connections := conn_put k lastSeen (pr_connections p)\<rparr>)"

definition IsOnline :: "presence \<Rightarrow> bytes \<Rightarrow> bytes \<Rightarrow> bool" where
  "IsOnline p m u = playerOnlineLocked (pr_connections p) m u"

definition onlineStates :: "presence \<Rightarrow> bytes \<Rightarrow> bytes list \<Rightarrow> bytes \<Rightarrow> bool option" where
  "onlineStates p m us u = (if u \<in> set us then Some (playerOnlineLocked (pr_connections p) m u) else None)"

subsection \<open>Sweeping\<close>

text \<open>The difference of two times is a \<open>time.Duration\<close>, which saturates.\<close>

definition elapsed :: "int \<Rightarrow> int \<Rightarrow> int" where
  "elapsed now t = max (- (2 ^ 63)) (min max_i64 (now - t))"

definition expired_conns :: "int \<Rightarrow> presenceConnectionKey list \<Rightarrow> connections \<Rightarrow> connections" where
  "expired_conns now candidates cs =
     filter (\<lambda>p. fst p \<in> set candidates \<and> elapsed now (snd p) > presenceConnectionTimeout) cs"

definition offline_users :: "bytes \<Rightarrow> connections \<Rightarrow> connections \<Rightarrow> bytes list" where
  "offline_users m ex cs = sort (filter (\<lambda>u. \<not> playerOnlineLocked cs m u) (remdups (map (pk_user \<circ> fst) ex)))"

definition notify_offline :: "bytes \<Rightarrow> bytes list \<Rightarrow> presence \<Rightarrow> presence" where
  "notify_offline m us p = fold (\<lambda>u. prepareNotification m u False) us p"

definition start_sweep :: "bytes \<Rightarrow> presenceConnectionKey list \<Rightarrow> int \<Rightarrow> presence \<Rightarrow> presence" where
  "start_sweep m candidates now p =
     (let ex = expired_conns now candidates (pr_connections p);
          cs = filter (\<lambda>c. c \<notin> set ex) (pr_connections p);
          us = offline_users m ex cs;
          p' = p\<lparr>pr_connections := cs\<rparr> in
      if ex = [] then p
      else if matchOnlineLocked cs m then notify_offline m us p'
      else wait_for m (SweepWaits ex us) p')"

definition finish_sweep :: "bytes \<Rightarrow> connections \<Rightarrow> bytes list \<Rightarrow> bool \<Rightarrow> presence \<Rightarrow> presence" where
  "finish_sweep m ex us stored p =
     release m
       (if stored then notify_offline m us p
        else p\<lparr>pr_connections := fold (\<lambda>(k, t). conn_put k t) ex (pr_connections p)\<rparr>)"

text \<open>The user for whom the store is called, the first of the sorted list.\<close>

definition sweep_user :: "bytes list \<Rightarrow> bytes" where
  "sweep_user us = us ! 0"

subsection \<open>Whole operations\<close>

text \<open>
  \<open>store\<close> is a call of the store with the match and the user: an error, or its new state. The result
  is the error of the operation, if any, and both states.
\<close>

type_synonym 's call = "bytes \<Rightarrow> bytes \<Rightarrow> 's \<Rightarrow> match_error + 's"

definition answered :: "(match_error + 's) \<Rightarrow> 's \<Rightarrow> (bool \<Rightarrow> presence) \<Rightarrow> match_error option \<times> presence \<times> 's" where
  "answered r s f = (case r of Inl e \<Rightarrow> (Some (sanitizePresenceError e), f False, s) | Inr s' \<Rightarrow> (None, f True, s'))"

definition Connect ::
  "uuid_parser \<Rightarrow> 's call \<Rightarrow> int \<Rightarrow> presenceConnectionKey \<Rightarrow> presence \<Rightarrow> 's \<Rightarrow> match_error option \<times> presence \<times> 's" where
  "Connect parse setOnline now k p s =
     (if \<not> valid_key parse k then (Some ErrInvalidRequest, p, s)
      else
        let p' = start_connect now k p in
        case waiting p' (pk_match k) of
          None \<Rightarrow> (None, p', s)
        | Some _ \<Rightarrow> answered (setOnline (pk_match k) (pk_user k) s) s (\<lambda>stored. finish_connect k stored p'))"

definition Disconnect ::
  "uuid_parser \<Rightarrow> 's call \<Rightarrow> presenceConnectionKey \<Rightarrow> presence \<Rightarrow> 's \<Rightarrow> match_error option \<times> presence \<times> 's" where
  "Disconnect parse setOffline k p s =
     (if \<not> valid_key parse k then (Some ErrInvalidRequest, p, s)
      else
        let p' = start_disconnect k p in
        case waiting p' (pk_match k) of
          Some (DisconnectWaits _ lastSeen) \<Rightarrow>
            answered (setOffline (pk_match k) (pk_user k) s) s (\<lambda>stored. finish_disconnect k lastSeen stored p')
        | _ \<Rightarrow> (None, p', s))"

definition sweepMatch ::
  "'s call \<Rightarrow> bytes \<Rightarrow> presenceConnectionKey list \<Rightarrow> int \<Rightarrow> presence \<Rightarrow> 's \<Rightarrow> match_error option \<times> presence \<times> 's" where
  "sweepMatch setOffline m candidates now p s =
     (let p' = start_sweep m candidates now p in
      case waiting p' m of
        Some (SweepWaits ex us) \<Rightarrow> answered (setOffline m (sweep_user us) s) s (\<lambda>stored. finish_sweep m ex us stored p')
      | _ \<Rightarrow> (None, p', s))"

text \<open>
  The matches are swept concurrently; here in the order of their ids. The error is that of the first
  match that has one.
\<close>

fun sweep_loop ::
  "'s call \<Rightarrow> int \<Rightarrow> (bytes \<Rightarrow> presenceConnectionKey list) \<Rightarrow> bytes list \<Rightarrow> presence \<Rightarrow> 's \<Rightarrow> match_error option \<times> presence \<times> 's" where
  "sweep_loop setOffline now keys [] p s = (None, p, s)"
| "sweep_loop setOffline now keys (m # ms) p s =
     (case sweepMatch setOffline m (keys m) now p s of
        (err, p1, s1) \<Rightarrow>
          (case sweep_loop setOffline now keys ms p1 s1 of
             (err', p2, s2) \<Rightarrow> (if err = None then err' else err, p2, s2)))"

definition Sweep :: "'s call \<Rightarrow> int \<Rightarrow> presence \<Rightarrow> 's \<Rightarrow> match_error option \<times> presence \<times> 's" where
  "Sweep setOffline now p s =
     (let keys = map fst (pr_connections p) in
      sweep_loop setOffline now (\<lambda>m. filter (\<lambda>k. pk_match k = m) keys) (sort (remdups (map pk_match keys))) p s)"

subsection \<open>The store\<close>

locale presence_store =
  fixes setOnline setOffline :: "'e \<Rightarrow> bytes \<Rightarrow> bytes \<Rightarrow> 's \<Rightarrow> match_error + 's"
    and other :: "'s \<Rightarrow> 's \<Rightarrow> bool" and good :: "'s \<Rightarrow> bool" and timer :: "'s \<Rightarrow> bytes \<Rightarrow> bool"
  assumes online_law: "good s \<Longrightarrow> setOnline e m u s = Inr s' \<Longrightarrow> good s' \<and> \<not> timer s' m \<and> (timer s' n \<longrightarrow> timer s n)"
    and offline_law: "good s \<Longrightarrow> setOffline e m u s = Inr s' \<Longrightarrow> good s' \<and> (n \<noteq> m \<longrightarrow> timer s' n \<longrightarrow> timer s n)"
    and other_law: "good s \<Longrightarrow> other s s' \<Longrightarrow> good s' \<and> (timer s' n \<longrightarrow> timer s n)"

text \<open>
  One step of \<open>Presence\<close> with its store: an operation up to its call of the store, a call and the
  rest of the operation, activity on a connection, or a step of others on the store.
\<close>

inductive presence_step ::
  "('e \<Rightarrow> bytes \<Rightarrow> bytes \<Rightarrow> 's \<Rightarrow> match_error + 's) \<Rightarrow> ('e \<Rightarrow> bytes \<Rightarrow> bytes \<Rightarrow> 's \<Rightarrow> match_error + 's) \<Rightarrow> ('s \<Rightarrow> 's \<Rightarrow> bool) \<Rightarrow>
   presence \<times> 's \<Rightarrow> presence \<times> 's \<Rightarrow> bool" for setOnline setOffline other where
  connect: "waiting p (pk_match k) = None \<Longrightarrow> presence_step setOnline setOffline other (p, s) (start_connect now k p, s)"
| connected: "waiting p m = Some (ConnectWaits k) \<Longrightarrow> setOnline e m (pk_user k) s = Inr s' \<Longrightarrow>
    presence_step setOnline setOffline other (p, s) (finish_connect k True p, s')"
| not_connected: "waiting p m = Some (ConnectWaits k) \<Longrightarrow>
    presence_step setOnline setOffline other (p, s) (finish_connect k False p, s)"
| touch: "Touch now k p = (b, p') \<Longrightarrow> presence_step setOnline setOffline other (p, s) (p', s)"
| disconnect: "waiting p (pk_match k) = None \<Longrightarrow> presence_step setOnline setOffline other (p, s) (start_disconnect k p, s)"
| disconnected: "waiting p m = Some (DisconnectWaits k t) \<Longrightarrow> setOffline e m (pk_user k) s = Inr s' \<Longrightarrow>
    presence_step setOnline setOffline other (p, s) (finish_disconnect k t True p, s')"
| not_disconnected: "waiting p m = Some (DisconnectWaits k t) \<Longrightarrow>
    presence_step setOnline setOffline other (p, s) (finish_disconnect k t False p, s)"
| sweep: "waiting p m = None \<Longrightarrow> \<forall>k\<in>set candidates. pk_match k = m \<Longrightarrow>
    presence_step setOnline setOffline other (p, s) (start_sweep m candidates now p, s)"
| swept: "waiting p m = Some (SweepWaits ex us) \<Longrightarrow> setOffline e m (sweep_user us) s = Inr s' \<Longrightarrow>
    presence_step setOnline setOffline other (p, s) (finish_sweep m ex us True p, s')"
| not_swept: "waiting p m = Some (SweepWaits ex us) \<Longrightarrow>
    presence_step setOnline setOffline other (p, s) (finish_sweep m ex us False p, s)"
| others: "other s s' \<Longrightarrow> presence_step setOnline setOffline other (p, s) (p, s')"

inductive presence_run ::
  "('e \<Rightarrow> bytes \<Rightarrow> bytes \<Rightarrow> 's \<Rightarrow> match_error + 's) \<Rightarrow> ('e \<Rightarrow> bytes \<Rightarrow> bytes \<Rightarrow> 's \<Rightarrow> match_error + 's) \<Rightarrow> ('s \<Rightarrow> 's \<Rightarrow> bool) \<Rightarrow>
   presence \<times> 's \<Rightarrow> presence \<times> 's \<Rightarrow> bool" for setOnline setOffline other where
  here: "presence_run setOnline setOffline other x x"
| onwards: "presence_run setOnline setOffline other x y \<Longrightarrow> presence_step setOnline setOffline other y z \<Longrightarrow>
    presence_run setOnline setOffline other x z"

subsection \<open>The invariant\<close>

definition of_match :: "bytes \<Rightarrow> connections \<Rightarrow> connections" where
  "of_match m cs = filter (\<lambda>p. pk_match (fst p) = m) cs"

definition online :: "connections \<Rightarrow> bytes \<Rightarrow> bool" where
  "online cs u \<longleftrightarrow> (\<exists>p\<in>set cs. pk_user (fst p) = u)"

text \<open>The connections of a match as the store and the observer know them: the operation that waits has not happened.\<close>

definition settled :: "connections \<Rightarrow> presence_wait option \<Rightarrow> connections" where
  "settled cs w =
     (case w of
        None \<Rightarrow> cs
      | Some (ConnectWaits k) \<Rightarrow> conn_del k cs
      | Some (DisconnectWaits k t) \<Rightarrow> cs @ [(k, t)]
      | Some (SweepWaits ex us) \<Rightarrow> cs @ ex)"

definition wait_ok :: "bytes \<Rightarrow> connections \<Rightarrow> presence_wait option \<Rightarrow> bool" where
  "wait_ok m cs w =
     (case w of
        None \<Rightarrow> True
      | Some (ConnectWaits k) \<Rightarrow> pk_match k = m \<and> k \<in> fst ` set cs \<and> \<not> online (conn_del k cs) (pk_user k)
      | Some (DisconnectWaits k t) \<Rightarrow> pk_match k = m \<and> cs = []
      | Some (SweepWaits ex us) \<Rightarrow> (\<forall>c\<in>set ex. pk_match (fst c) = m) \<and> distinct (map fst ex) \<and> ex \<noteq> [] \<and> cs = [] \<and>
          us = sort (remdups (map (pk_user \<circ> fst) ex)))"

text \<open>The last notification about a player, and that every notification is a change.\<close>

definition announced :: "(bytes \<times> bytes \<times> bool) list \<Rightarrow> bytes \<Rightarrow> bytes \<Rightarrow> bool" where
  "announced ns m u = fold (\<lambda>(m', u', b) a. if m' = m \<and> u' = u then b else a) ns False"

definition changes :: "(bytes \<times> bytes \<times> bool) list \<Rightarrow> bool" where
  "changes ns \<longleftrightarrow> (\<forall>i<length ns. case ns ! i of (m, u, b) \<Rightarrow> announced (take i ns) m u \<noteq> b)"

definition match_ok :: "bytes \<Rightarrow> connections \<Rightarrow> presence_wait option \<Rightarrow> (bytes \<Rightarrow> bool) \<Rightarrow> bool \<Rightarrow> bool" where
  "match_ok m cs w noted running \<longleftrightarrow>
     wait_ok m cs w \<and> (settled cs w \<noteq> [] \<longrightarrow> \<not> running) \<and> (\<forall>u. noted u = online (settled cs w) u)"

definition presence_ok :: "('s \<Rightarrow> bytes \<Rightarrow> bool) \<Rightarrow> presence \<times> 's \<Rightarrow> bool" where
  "presence_ok timer x \<longleftrightarrow>
     (case x of (p, s) \<Rightarrow>
        distinct (map fst (pr_connections p)) \<and> changes (pr_notes p) \<and>
        (\<forall>m. match_ok m (of_match m (pr_connections p)) (waiting p m) (announced (pr_notes p) m) (timer s m)))"

subsection \<open>Lemmas on connections, operations that wait and notifications\<close>

lemma online_simps [simp]: "online [] u = False" "online (c # cs) u \<longleftrightarrow> pk_user (fst c) = u \<or> online cs u"
  "online (cs @ ds) u \<longleftrightarrow> online cs u \<or> online ds u"
  by (auto simp: online_def)

lemma online_image: "online cs u \<longleftrightarrow> u \<in> (\<lambda>p. pk_user (fst p)) ` set cs"
  by (auto simp: online_def simp flip: image_iff)

lemma player_online: "playerOnlineLocked cs m u = online (of_match m cs) u"
  by (induction cs) (auto simp: playerOnlineLocked_def of_match_def)

lemma match_online: "matchOnlineLocked cs m \<longleftrightarrow> of_match m cs \<noteq> []"
  by (auto simp: matchOnlineLocked_def of_match_def list_ex_iff filter_empty_conv)

lemma of_match_simps [simp]: "of_match m [] = []" "of_match m (cs @ ds) = of_match m cs @ of_match m ds"
  "of_match m (c # cs) = (if pk_match (fst c) = m then [c] else []) @ of_match m cs"
  by (simp_all add: of_match_def)

lemma of_match_del: "of_match m (conn_del k cs) = conn_del k (of_match m cs)"
  by (simp add: of_match_def conn_del_def conj_commute)

lemma conn_del_other: "pk_match k \<noteq> m \<Longrightarrow> conn_del k (of_match m cs) = of_match m cs"
  by (auto simp: conn_del_def of_match_def intro!: filter_cong)

lemma of_match_put: "of_match m (conn_put k t cs) = (if pk_match k = m then conn_put k t (of_match m cs) else of_match m cs)"
  by (simp add: conn_put_def of_match_del conn_del_other)

lemma conn_del_simps [simp]: "conn_del k [] = []" "conn_del k (cs @ ds) = conn_del k cs @ conn_del k ds"
  "conn_del k (c # cs) = (if fst c = k then conn_del k cs else c # conn_del k cs)"
  by (simp_all add: conn_del_def)

lemma conn_del_new: "k \<notin> fst ` set cs \<Longrightarrow> conn_del k cs = cs"
  by (auto simp: conn_del_def filter_id_conv)

lemma distinct_put: "distinct (map fst cs) \<Longrightarrow> distinct (map fst (conn_put k t cs))"
  by (auto simp: conn_put_def conn_del_def distinct_map_filter)

lemma distinct_del: "distinct (map fst cs) \<Longrightarrow> distinct (map fst (conn_del k cs))"
  by (simp add: conn_del_def distinct_map_filter)

lemma conn_get: "map_of cs k = None \<longleftrightarrow> k \<notin> fst ` set cs"
  by (simp add: map_of_eq_None_iff)

lemma waiting_simps [simp]: "waiting (p\<lparr>pr_connections := cs\<rparr>) m = waiting p m" "waiting (p\<lparr>pr_notes := ns\<rparr>) m = waiting p m"
  "waiting (prepareNotification m' u b p) m = waiting p m"
  "waiting (wait_for m' w p) m = (if m = m' then Some w else waiting p m)"
  "waiting (release m' p) m = (if m = m' then None else waiting p m)"
proof -
  have f: "map_of (filter (\<lambda>x. fst x \<noteq> m') ws) m = (if m = m' then None else map_of ws m)" for ws :: "(bytes \<times> presence_wait) list"
    by (induction ws) auto
  show "waiting (wait_for m' w p) m = (if m = m' then Some w else waiting p m)"
    "waiting (release m' p) m = (if m = m' then None else waiting p m)"
    by (simp_all add: waiting_def wait_for_def release_def f)
qed (simp_all add: waiting_def prepareNotification_def)

lemma presence_sel [simp]: "pr_connections (wait_for m w p) = pr_connections p" "pr_notes (wait_for m w p) = pr_notes p"
  "pr_connections (release m p) = pr_connections p" "pr_notes (release m p) = pr_notes p"
  "pr_connections (prepareNotification m u b p) = pr_connections p" "pr_notes (prepareNotification m u b p) = pr_notes p @ [(m, u, b)]"
  by (simp_all add: wait_for_def release_def prepareNotification_def)

lemma announced_snoc: "announced (ns @ [(m', u', b)]) m u = (if m' = m \<and> u' = u then b else announced ns m u)"
  by (simp add: announced_def)

lemma changes_snoc: "changes (ns @ [(m, u, b)]) \<longleftrightarrow> changes ns \<and> announced ns m u \<noteq> b"
  by (auto simp: changes_def nth_append less_Suc_eq all_conj_distrib)

lemma online_del: "online (conn_del k cs) u \<longleftrightarrow> (\<exists>p\<in>set cs. fst p \<noteq> k \<and> pk_user (fst p) = u)"
  by (induction cs) auto

lemma online_put: "online (conn_put k t cs) u \<longleftrightarrow> u = pk_user k \<or> online cs u"
  by (induction cs) (auto simp: conn_put_def)

lemma online_key: "k \<in> fst ` set cs \<Longrightarrow> online cs (pk_user k)"
  by (auto simp: online_def)

lemma online_split: "online cs u \<longleftrightarrow> (k \<in> fst ` set cs \<and> u = pk_user k) \<or> online (conn_del k cs) u"
  by (induction cs) auto

lemma online_put_old: "k \<in> fst ` set cs \<Longrightarrow> online (conn_del k0 (conn_put k t cs)) u \<longleftrightarrow> online (conn_del k0 cs) u"
  by (force simp: conn_put_def online_del online_def conn_del_def)

lemma keys_put: "fst ` set (conn_put k t cs) = insert k (fst ` set cs)"
  by (auto simp: conn_put_def conn_del_def image_iff)

lemma keys_of_match: "k \<in> fst ` set (of_match m cs) \<longleftrightarrow> k \<in> fst ` set cs \<and> pk_match k = m"
  by (auto simp: of_match_def)

subsection \<open>Every step keeps the invariant\<close>

lemma presence_okI:
  assumes "presence_ok timer (p, s)" "distinct (map fst (pr_connections p'))" "changes (pr_notes p')"
    and "match_ok m (of_match m (pr_connections p')) (waiting p' m) (announced (pr_notes p') m) (timer s' m)"
    and "\<And>n. n \<noteq> m \<Longrightarrow> of_match n (pr_connections p') = of_match n (pr_connections p) \<and> waiting p' n = waiting p n \<and>
      announced (pr_notes p') n = announced (pr_notes p) n \<and> (timer s' n \<longrightarrow> timer s n)"
  shows "presence_ok timer (p', s')"
  unfolding presence_ok_def
proof (clarsimp simp: assms(2,3))
  fix n
  show "match_ok n (of_match n (pr_connections p')) (waiting p' n) (announced (pr_notes p') n) (timer s' n)"
  proof (cases "n = m")
    case False
    have "match_ok n (of_match n (pr_connections p)) (waiting p n) (announced (pr_notes p) n) (timer s n)"
      using assms(1) by (simp add: presence_ok_def)
    with assms(5) [OF False] show ?thesis by (auto simp: match_ok_def)
  qed (use assms(4) in simp)
qed

lemma presence_ok_keys:
  "presence_ok timer (p, s) \<Longrightarrow> distinct (map fst (pr_connections p)) \<and> changes (pr_notes p)"
  by (simp add: presence_ok_def)

lemma presence_okD:
  assumes "presence_ok timer (p, s)"
  shows "wait_ok m (of_match m (pr_connections p)) (waiting p m)"
    "settled (of_match m (pr_connections p)) (waiting p m) \<noteq> [] \<Longrightarrow> \<not> timer s m"
    "announced (pr_notes p) m u = online (settled (of_match m (pr_connections p)) (waiting p m)) u"
  using assms by (auto simp: presence_ok_def match_ok_def)

lemma connect_ok:
  assumes ok: "presence_ok timer (p, s)" and w: "waiting p (pk_match k) = None"
  shows "presence_ok timer (start_connect now k p, s)"
proof -
  let ?m = "pk_match k" and ?cs = "of_match (pk_match k) (pr_connections p)"
  note b = presence_ok_keys [OF ok]
  note d = presence_okD [OF ok, of ?m, unfolded w settled_def, simplified]
  show ?thesis
  proof (rule presence_okI [OF ok, of _ ?m])
    show "distinct (map fst (pr_connections (start_connect now k p)))" "changes (pr_notes (start_connect now k p))"
      using b by (simp_all add: start_connect_def Let_def distinct_put)
    show "match_ok ?m (of_match ?m (pr_connections (start_connect now k p))) (waiting (start_connect now k p) ?m)
        (announced (pr_notes (start_connect now k p)) ?m) (timer s ?m)"
    proof (cases "k \<in> fst ` set (pr_connections p) \<or> online ?cs (pk_user k)")
      case True
      then have on: "online ?cs (pk_user k)" using online_key [of k ?cs] by (auto simp: keys_of_match)
      then have ne: "?cs \<noteq> []" by auto
      have eq: "start_connect now k p = p\<lparr>pr_connections := conn_put k now (pr_connections p)\<rparr>"
        using True on by (auto simp: start_connect_def Let_def conn_get player_online)
      show ?thesis
        unfolding eq using ne on d w by (auto simp: match_ok_def wait_ok_def settled_def of_match_put online_put)
    next
      case False
      then have new: "k \<notin> fst ` set ?cs" by (simp add: keys_of_match)
      have eq: "start_connect now k p = wait_for ?m (ConnectWaits k) (p\<lparr>pr_connections := conn_put k now (pr_connections p)\<rparr>)"
        using False by (simp add: start_connect_def Let_def conn_get player_online)
      have put: "conn_put k now ?cs = ?cs @ [(k, now)]" "conn_del k ?cs = ?cs" using new by (simp_all add: conn_put_def conn_del_new)
      show ?thesis
        unfolding eq using False d w by (simp add: match_ok_def wait_ok_def settled_def of_match_put put)
    qed
    fix n
    assume "n \<noteq> ?m"
    then show "of_match n (pr_connections (start_connect now k p)) = of_match n (pr_connections p) \<and>
        waiting (start_connect now k p) n = waiting p n \<and>
        announced (pr_notes (start_connect now k p)) n = announced (pr_notes p) n \<and> (timer s n \<longrightarrow> timer s n)"
      by (auto simp: start_connect_def Let_def of_match_put)
  qed
qed

lemma connected_ok:
  assumes ok: "presence_ok timer (p, s)" and w: "waiting p m = Some (ConnectWaits k)"
    and timer: "\<And>n. timer s' n \<longrightarrow> timer s n" "stored \<Longrightarrow> \<not> timer s' m"
  shows "presence_ok timer (finish_connect k stored p, s')"
proof -
  let ?cs = "of_match m (pr_connections p)"
  note b = presence_ok_keys [OF ok]
  note d = presence_okD [OF ok, of m, unfolded w settled_def wait_ok_def, simplified]
  have k: "pk_match k = m" "k \<in> fst ` set ?cs" "\<not> online (conn_del k ?cs) (pk_user k)" using d(1) by auto
  have on: "online ?cs u \<longleftrightarrow> u = pk_user k \<or> online (conn_del k ?cs) u" for u
    using online_split [of ?cs u k] k(2) by auto
  show ?thesis
  proof (rule presence_okI [OF ok, of _ m])
    show "distinct (map fst (pr_connections (finish_connect k stored p)))"
      using b by (simp add: finish_connect_def distinct_del)
    show "changes (pr_notes (finish_connect k stored p))" using b d(3) k by (simp add: finish_connect_def changes_snoc)
    show "match_ok m (of_match m (pr_connections (finish_connect k stored p))) (waiting (finish_connect k stored p) m)
        (announced (pr_notes (finish_connect k stored p)) m) (timer s' m)"
      using d k on timer by (auto simp: finish_connect_def match_ok_def wait_ok_def settled_def announced_snoc of_match_del)
    fix n
    assume "n \<noteq> m"
    then show "of_match n (pr_connections (finish_connect k stored p)) = of_match n (pr_connections p) \<and>
        waiting (finish_connect k stored p) n = waiting p n \<and>
        announced (pr_notes (finish_connect k stored p)) n = announced (pr_notes p) n \<and> (timer s' n \<longrightarrow> timer s n)"
      using k(1) timer(1) by (auto simp: finish_connect_def of_match_del conn_del_other announced_snoc fun_eq_iff)
  qed
qed

lemma touch_ok:
  assumes ok: "presence_ok timer (p, s)" and t: "Touch now k p = (b, p')"
  shows "presence_ok timer (p', s)"
proof (cases "k \<in> fst ` set (pr_connections p)")
  case True
  then have p': "p' = p\<lparr>pr_connections := conn_put k now (pr_connections p)\<rparr>"
    using t by (auto simp: Touch_def conn_get split: if_splits)
  let ?m = "pk_match k" and ?cs = "of_match (pk_match k) (pr_connections p)"
  note d = presence_okD [OF ok, of ?m]
  have k: "k \<in> fst ` set ?cs" using True by (simp add: keys_of_match)
  show ?thesis
    unfolding p'
  proof (rule presence_okI [OF ok, of _ ?m])
    have ne: "?cs \<noteq> []" using k by auto
    show "match_ok ?m (of_match ?m (pr_connections (p\<lparr>pr_connections := conn_put k now (pr_connections p)\<rparr>)))
        (waiting (p\<lparr>pr_connections := conn_put k now (pr_connections p)\<rparr>) ?m)
        (announced (pr_notes (p\<lparr>pr_connections := conn_put k now (pr_connections p)\<rparr>)) ?m) (timer s ?m)"
    proof (cases "waiting p ?m")
      case None
      with d k ne online_key [OF k] show ?thesis
        by (auto simp: match_ok_def wait_ok_def settled_def of_match_put online_put)
    next
      case (Some w)
      then obtain k0 where w: "w = ConnectWaits k0" using d(1) ne by (cases w) (auto simp: wait_ok_def)
      have "conn_del k0 (conn_put k now ?cs) \<noteq> [] \<Longrightarrow> conn_del k0 ?cs \<noteq> []"
        using k by (auto simp: conn_put_def conn_del_def filter_empty_conv split: if_splits)
      with d k Some w show ?thesis
        by (auto simp: match_ok_def wait_ok_def settled_def of_match_put online_put_old keys_put)
    qed
  qed (use presence_ok_keys [OF ok] in \<open>simp_all add: distinct_put of_match_put\<close>)
next
  case False
  then show ?thesis using ok t by (auto simp: Touch_def conn_get split: if_splits)
qed

lemma disconnect_ok:
  assumes ok: "presence_ok timer (p, s)" and w: "waiting p (pk_match k) = None"
  shows "presence_ok timer (start_disconnect k p, s)"
proof (cases "map_of (pr_connections p) k")
  case None
  then show ?thesis using ok by (simp add: start_disconnect_def)
next
  case (Some t)
  let ?m = "pk_match k" and ?cs = "of_match (pk_match k) (pr_connections p)"
  let ?p = "p\<lparr>pr_connections := conn_del k (pr_connections p)\<rparr>"
  note b = presence_ok_keys [OF ok]
  note d = presence_okD [OF ok, of ?m, unfolded w settled_def, simplified]
  have "k \<in> fst ` set (pr_connections p)" using conn_get [of "pr_connections p" k] Some by auto
  then have k: "k \<in> fst ` set ?cs" by (simp add: keys_of_match)
  then have ne: "?cs \<noteq> []" by auto
  note on = online_split [of ?cs _ k]
  have eq: "start_disconnect k p =
      (if online (conn_del k ?cs) (pk_user k) then ?p
       else if conn_del k ?cs \<noteq> [] then prepareNotification ?m (pk_user k) False ?p
       else wait_for ?m (DisconnectWaits k t) ?p)"
    by (simp add: start_disconnect_def Some Let_def player_online match_online of_match_del)
  show ?thesis
  proof (rule presence_okI [OF ok, of _ ?m])
    show "distinct (map fst (pr_connections (start_disconnect k p)))" using b by (simp add: eq distinct_del)
    show "changes (pr_notes (start_disconnect k p))"
      using b d(2) [OF ne] d(3) [of "pk_user k"] online_key [OF k] by (simp add: eq changes_snoc)
    show "match_ok ?m (of_match ?m (pr_connections (start_disconnect k p))) (waiting (start_disconnect k p) ?m)
        (announced (pr_notes (start_disconnect k p)) ?m) (timer s ?m)"
      using w d(2) [OF ne] d(3) k on
      by (auto simp: eq match_ok_def wait_ok_def settled_def announced_snoc of_match_del)
    fix n
    assume "n \<noteq> ?m"
    then show "of_match n (pr_connections (start_disconnect k p)) = of_match n (pr_connections p) \<and>
        waiting (start_disconnect k p) n = waiting p n \<and>
        announced (pr_notes (start_disconnect k p)) n = announced (pr_notes p) n \<and> (timer s n \<longrightarrow> timer s n)"
      by (auto simp: eq of_match_del conn_del_other announced_snoc fun_eq_iff)
  qed
qed

lemma disconnected_ok:
  assumes ok: "presence_ok timer (p, s)" and w: "waiting p m = Some (DisconnectWaits k t)"
    and timer: "\<And>n. n \<noteq> m \<or> \<not> stored \<Longrightarrow> timer s' n \<longrightarrow> timer s n"
  shows "presence_ok timer (finish_disconnect k t stored p, s')"
proof -
  let ?cs = "of_match m (pr_connections p)"
  note b = presence_ok_keys [OF ok]
  note d = presence_okD [OF ok, of m, unfolded w settled_def wait_ok_def, simplified]
  have k: "pk_match k = m" "?cs = []" using d(1) by auto
  show ?thesis
  proof (rule presence_okI [OF ok, of _ m])
    show "distinct (map fst (pr_connections (finish_disconnect k t stored p)))"
      using b by (simp add: finish_disconnect_def distinct_put)
    show "changes (pr_notes (finish_disconnect k t stored p))"
      using b d(3) k by (simp add: finish_disconnect_def changes_snoc)
    show "match_ok m (of_match m (pr_connections (finish_disconnect k t stored p))) (waiting (finish_disconnect k t stored p) m)
        (announced (pr_notes (finish_disconnect k t stored p)) m) (timer s' m)"
      using d(2,3) k timer [of m]
      by (cases stored) (simp_all add: finish_disconnect_def match_ok_def wait_ok_def settled_def announced_snoc of_match_put of_match_del conn_put_def)
    fix n
    assume "n \<noteq> m"
    then show "of_match n (pr_connections (finish_disconnect k t stored p)) = of_match n (pr_connections p) \<and>
        waiting (finish_disconnect k t stored p) n = waiting p n \<and>
        announced (pr_notes (finish_disconnect k t stored p)) n = announced (pr_notes p) n \<and> (timer s' n \<longrightarrow> timer s n)"
      using k(1) timer [of n] by (auto simp: finish_disconnect_def of_match_put announced_snoc fun_eq_iff)
  qed
qed

lemma notify_sel [simp]: "pr_connections (notify_offline m us p) = pr_connections p"
  "pr_notes (notify_offline m us p) = pr_notes p @ map (\<lambda>u. (m, u, False)) us"
  "waiting (notify_offline m us p) n = waiting p n"
  unfolding notify_offline_def by (induction us arbitrary: p) simp_all

lemma announced_offline:
  "announced (ns @ map (\<lambda>u. (m, u, False)) us) n v \<longleftrightarrow> announced ns n v \<and> \<not> (n = m \<and> v \<in> set us)"
proof (induction us rule: rev_induct)
  case (snoc u us)
  then show ?case using announced_snoc [of "ns @ map (\<lambda>u. (m, u, False)) us" m u False n v] by auto
qed simp

lemma changes_offline:
  "changes ns \<Longrightarrow> distinct us \<Longrightarrow> \<forall>u\<in>set us. announced ns m u \<Longrightarrow> changes (ns @ map (\<lambda>u. (m, u, False)) us)"
proof (induction us rule: rev_induct)
  case (snoc u us)
  then show ?case using changes_snoc [of "ns @ map (\<lambda>u. (m, u, False)) us" m u False] by (simp add: announced_offline)
qed simp

lemma offline_users_set: "set (offline_users m ex cs) = {u. online ex u \<and> \<not> online (of_match m cs) u}"
  by (simp add: offline_users_def player_online online_image comp_def set_eq_iff conj_commute)

lemma offline_users_distinct: "distinct (offline_users m ex cs)"
  by (simp add: offline_users_def)

lemma sweep_ok:
  assumes ok: "presence_ok timer (p, s)" and w: "waiting p m = None" and ks: "\<forall>k\<in>set candidates. pk_match k = m"
  shows "presence_ok timer (start_sweep m candidates now p, s)"
proof -
  let ?ex = "expired_conns now candidates (pr_connections p)" and ?D = "of_match m (pr_connections p)"
  let ?cs = "filter (\<lambda>c. c \<notin> set ?ex) (pr_connections p)"
  let ?us = "offline_users m ?ex ?cs" and ?p = "p\<lparr>pr_connections := ?cs\<rparr>"
  note b = presence_ok_keys [OF ok]
  note d = presence_okD [OF ok, of m, unfolded w settled_def, simplified]
  have exm: "\<forall>c\<in>set ?ex. pk_match (fst c) = m" using ks by (auto simp: expired_conns_def)
  have ex: "set ?ex \<subseteq> set ?D" using ks by (auto simp: expired_conns_def of_match_def)
  have cs: "of_match m ?cs = filter (\<lambda>c. c \<notin> set ?ex) ?D" by (simp add: of_match_def conj_commute)
  have "set ?D = set (of_match m ?cs) \<union> set ?ex" using ex unfolding cs by auto
  then have on: "online ?D u \<longleftrightarrow> online (of_match m ?cs) u \<or> online ?ex u" for u
    by (simp add: online_image image_Un)
  have dex: "distinct (map fst ?ex)" using b by (simp add: expired_conns_def distinct_map_filter)
  have other: "of_match n ?cs = of_match n (pr_connections p)" if "n \<noteq> m" for n
    using exm that by (auto simp: of_match_def intro!: filter_cong)
  have all: "?us = sort (remdups (map (pk_user \<circ> fst) ?ex))" if "of_match m ?cs = []"
    by (simp add: offline_users_def player_online that)
  show ?thesis
  proof (cases "?ex = []")
    case True
    then show ?thesis using ok by (simp add: start_sweep_def)
  next
    case False
    then have ne: "?D \<noteq> []" using ex by auto
    have eq: "start_sweep m candidates now p =
        (if of_match m ?cs \<noteq> [] then notify_offline m ?us ?p else wait_for m (SweepWaits ?ex ?us) ?p)"
      using False by (simp add: start_sweep_def Let_def match_online)
    show ?thesis
    proof (rule presence_okI [OF ok, of _ m])
      show "distinct (map fst (pr_connections (start_sweep m candidates now p)))"
        using b by (simp add: eq distinct_map_filter)
      have "\<forall>u\<in>set ?us. announced (pr_notes p) m u" using d(3) on by (simp add: offline_users_set)
      then show "changes (pr_notes (start_sweep m candidates now p))"
        using b changes_offline [OF _ offline_users_distinct] by (simp add: eq)
      show "match_ok m (of_match m (pr_connections (start_sweep m candidates now p))) (waiting (start_sweep m candidates now p) m)
          (announced (pr_notes (start_sweep m candidates now p)) m) (timer s m)"
      proof (cases "of_match m ?cs = []")
        case True
        have "online ?D u = online ?ex u" for u using on True by simp
        with True all [OF True] d(2) [OF ne] d(3) exm dex False show ?thesis
          unfolding eq by (simp add: match_ok_def wait_ok_def settled_def)
      next
        case 2: False
        have "announced (pr_notes p @ map (\<lambda>u. (m, u, False)) ?us) m u = online (of_match m ?cs) u" for u
          unfolding announced_offline d(3) using on [of u] by (auto simp: offline_users_set)
        with 2 w d(2) [OF ne] show ?thesis
          unfolding eq by (simp add: match_ok_def wait_ok_def settled_def)
      qed
      fix n
      assume "n \<noteq> m"
      then show "of_match n (pr_connections (start_sweep m candidates now p)) = of_match n (pr_connections p) \<and>
          waiting (start_sweep m candidates now p) n = waiting p n \<and>
          announced (pr_notes (start_sweep m candidates now p)) n = announced (pr_notes p) n \<and> (timer s n \<longrightarrow> timer s n)"
        by (simp add: eq other announced_offline fun_eq_iff)
    qed
  qed
qed

lemma restored: "distinct (map fst ex) \<Longrightarrow> \<forall>c\<in>set ex. pk_match (fst c) = m \<Longrightarrow> distinct (map fst cs) \<Longrightarrow>
   distinct (map fst (fold (\<lambda>(k, t). conn_put k t) ex cs)) \<and>
   (n \<noteq> m \<longrightarrow> of_match n (fold (\<lambda>(k, t). conn_put k t) ex cs) = of_match n cs) \<and>
   (fst ` set ex \<inter> fst ` set (of_match m cs) = {} \<longrightarrow> of_match m (fold (\<lambda>(k, t). conn_put k t) ex cs) = of_match m cs @ ex)"
proof (induction ex arbitrary: cs)
  case (Cons c ex)
  obtain k t where c: "c = (k, t)" by (cases c)
  have put: "of_match m (conn_put k t cs) = of_match m cs @ [c]" if "k \<notin> fst ` set (of_match m cs)"
    using that Cons.prems(2) by (simp add: conn_put_def of_match_del conn_del_new c)
  have km: "pk_match k = m" using Cons.prems(2) by (simp add: c)
  have IH: "distinct (map fst (fold (\<lambda>(k, t). conn_put k t) ex (conn_put k t cs))) \<and>
     (n \<noteq> m \<longrightarrow> of_match n (fold (\<lambda>(k, t). conn_put k t) ex (conn_put k t cs)) = of_match n (conn_put k t cs)) \<and>
     (fst ` set ex \<inter> fst ` set (of_match m (conn_put k t cs)) = {} \<longrightarrow>
        of_match m (fold (\<lambda>(k, t). conn_put k t) ex (conn_put k t cs)) = of_match m (conn_put k t cs) @ ex)"
    using Cons.prems by (intro Cons.IH) (simp_all add: c distinct_put)
  have 3: "of_match m (fold (\<lambda>(k, t). conn_put k t) ex (conn_put k t cs)) = of_match m cs @ c # ex"
    if "fst ` set (c # ex) \<inter> fst ` set (of_match m cs) = {}"
  proof -
    have "k \<notin> fst ` set (of_match m cs)" using that by (auto simp: c)
    from put [OF this] that Cons.prems(1) have "of_match m (conn_put k t cs) = of_match m cs @ [c]"
      "fst ` set ex \<inter> fst ` set (of_match m (conn_put k t cs)) = {}" by (auto simp: c)
    with IH show ?thesis by simp
  qed
  have 2: "n \<noteq> m \<longrightarrow> of_match n (fold (\<lambda>(k, t). conn_put k t) ex (conn_put k t cs)) = of_match n cs"
    using IH km by (simp add: of_match_put)
  show ?case using IH 2 3 by (simp add: c)
qed simp

lemma swept_ok:
  assumes ok: "presence_ok timer (p, s)" and w: "waiting p m = Some (SweepWaits ex us)"
    and timer: "\<And>n. n \<noteq> m \<or> \<not> stored \<Longrightarrow> timer s' n \<longrightarrow> timer s n"
  shows "presence_ok timer (finish_sweep m ex us stored p, s')"
proof -
  note b = presence_ok_keys [OF ok]
  note d = presence_okD [OF ok, of m, unfolded w settled_def wait_ok_def, simplified]
  have cs: "of_match m (pr_connections p) = []" and exm: "\<forall>c\<in>set ex. pk_match (fst c) = m" and dex: "distinct (map fst ex)"
    and us: "us = sort (remdups (map (pk_user \<circ> fst) ex))" using d(1) by auto
  have set_us: "u \<in> set us \<longleftrightarrow> online ex u" for u by (auto simp: us online_def)
  let ?cs = "fold (\<lambda>(k, t). conn_put k t) ex (pr_connections p)"
  have r: "distinct (map fst ?cs)" "n \<noteq> m \<longrightarrow> of_match n ?cs = of_match n (pr_connections p)" "of_match m ?cs = ex" for n
    using restored [OF dex exm, of "pr_connections p" n] b cs by simp_all
  show ?thesis
  proof (rule presence_okI [OF ok, of _ m])
    show "distinct (map fst (pr_connections (finish_sweep m ex us stored p)))" using b r(1) by (simp add: finish_sweep_def)
    have "\<forall>u\<in>set us. announced (pr_notes p) m u" using d(3) cs by (simp add: set_us)
    moreover have "distinct us" by (simp add: us)
    ultimately show "changes (pr_notes (finish_sweep m ex us stored p))" using b changes_offline by (simp add: finish_sweep_def)
    show "match_ok m (of_match m (pr_connections (finish_sweep m ex us stored p))) (waiting (finish_sweep m ex us stored p) m)
        (announced (pr_notes (finish_sweep m ex us stored p)) m) (timer s' m)"
      using d(2,3) cs r(3) timer [of m] exm
      by (auto simp: finish_sweep_def match_ok_def wait_ok_def settled_def announced_offline set_us)
    fix n
    assume "n \<noteq> m"
    then show "of_match n (pr_connections (finish_sweep m ex us stored p)) = of_match n (pr_connections p) \<and>
        waiting (finish_sweep m ex us stored p) n = waiting p n \<and>
        announced (pr_notes (finish_sweep m ex us stored p)) n = announced (pr_notes p) n \<and> (timer s' n \<longrightarrow> timer s n)"
      using r(2) [of n] timer [of n] by (simp add: finish_sweep_def announced_offline fun_eq_iff)
  qed
qed

context presence_store
begin

lemma pr_step_keeps: "presence_step setOnline setOffline other x y \<Longrightarrow> good (snd x) \<Longrightarrow> presence_ok timer x \<Longrightarrow>
   good (snd y) \<and> presence_ok timer y"
proof (induction rule: presence_step.induct)
  case (connect p k s now)
  then show ?case by (simp add: connect_ok)
next
  case (connected p m k e s s')
  then have "pk_match k = m" using presence_okD(1) [of timer p s m] by (simp add: wait_ok_def)
  with connected online_law [of s e m "pk_user k" s'] show ?case
    by (auto intro!: connected_ok)
next
  case (not_connected p m k s)
  then show ?case by (auto intro!: connected_ok)
next
  case (touch now k p b p' s)
  then show ?case by (auto intro: touch_ok)
next
  case (disconnect p k s)
  then show ?case by (simp add: disconnect_ok)
next
  case (disconnected p m k t e s s')
  with offline_law [of s e m "pk_user k" s'] show ?case by (auto intro!: disconnected_ok)
next
  case (not_disconnected p m k t s)
  then show ?case by (auto intro!: disconnected_ok)
next
  case (sweep p m candidates s now)
  then show ?case by (simp add: sweep_ok)
next
  case (swept p m ex us e s s')
  with offline_law [of s e m "sweep_user us" s'] show ?case by (auto intro!: swept_ok)
next
  case (not_swept p m ex us s)
  then show ?case by (auto intro!: swept_ok)
next
  case (others s s' p)
  have "presence_ok timer (p, s')" if "\<And>n. timer s' n \<longrightarrow> timer s n"
    using others.prems(2) that by (auto simp: presence_ok_def match_ok_def)
  with others other_law [of s s'] show ?case by auto
qed

lemma run_keeps: "presence_run setOnline setOffline other x y \<Longrightarrow> good (snd x) \<Longrightarrow> presence_ok timer x \<Longrightarrow>
   good (snd y) \<and> presence_ok timer y"
  by (induction rule: presence_run.induct) (auto dest: pr_step_keeps)

lemma starts_ok: "presence_ok timer (NewPresence, s)"
  by (simp add: presence_ok_def NewPresence_def changes_def match_ok_def wait_ok_def settled_def waiting_def announced_def)

end

end
