(* ===== verification/PresenceService.thy ===== *)
theory PresenceService
  imports Presence
begin

text \<open>
  The match service as the store of \<open>Presence\<close>: it interprets the locale \<open>presence_store\<close>, where the
  other steps are those of the service that do not concern presence. The properties: what is
  announced of a player is what is true, a match with an established connection is not abandoned, and a sweep removes
  exactly the connections that were silent.
\<close>

subsection \<open>The match service as the store\<close>

text \<open>A match whose timer runs, and the steps of the service that are not about presence.\<close>

definition running :: "db \<Rightarrow> bytes \<Rightarrow> bool" where
  "running db i \<longleftrightarrow> (\<exists>m\<in>set (d_matches db). m_id m = i \<and> m_status m = StatusActive \<and> m_offline m \<noteq> None)"

inductive quiet_step :: "service \<Rightarrow> db \<Rightarrow> db \<Rightarrow> bool" for sv where
  quiet_users: "quiet_step sv db (db\<lparr>d_users := us\<rparr>)"
| quiet_create: "CreateWithConfig sv flt ctx now random fresh g a b config db = Inr (m, db') \<Longrightarrow> quiet_step sv db db'"
| quiet_cancel: "Cancel sv flt ctx now i actor db = Inr (e, db') \<Longrightarrow> quiet_step sv db db'"
| quiet_expired: "AbandonExpired sv flt flts ctx now db = (err, es, db') \<Longrightarrow> quiet_step sv db db'"
| quiet_revoke: "quiet_step sv db (revokeUserCredentials now user db)"
| quiet_ticket: "CreateLaunchTicket sv flt ctx now random i user db = Inr (lt, db') \<Longrightarrow> quiet_step sv db db'"
| quiet_connect: "ConnectCredential sv flt ctx now random rq db = Inr (cc, db') \<Longrightarrow> quiet_step sv db db'"
| quiet_action: "ApplyAction sv flt ctx conn now random r db = Inr (es, db') \<Longrightarrow> quiet_step sv db db'"

lemma quiet_service: "quiet_step sv db db' \<Longrightarrow> \<exists>h. service_step sv h db db'"
  by (induction rule: quiet_step.induct) (blast intro: service_step.intros)+

lemma quiet_tables: "quiet_step sv db db' \<Longrightarrow> tables_ok sv db \<Longrightarrow> tables_ok sv db'"
  using quiet_service tables_ok_step by blast

lemma running_same: "d_matches db' = d_matches db \<Longrightarrow> running db' i = running db i"
  by (simp add: running_def)

lemma running_stepped:
  assumes "moves_on db m f" "distinct (map m_id (d_matches db))" "m \<in> set (d_matches db)"
    and "m_status (f m) = StatusActive \<Longrightarrow> m_offline (f m) = m_offline m \<and> m_status m = StatusActive"
  shows "running (stepped_db m e f ls db) i \<Longrightarrow> running db i"
proof -
  assume "running (stepped_db m e f ls db) i"
  then obtain n where n: "n \<in> set (d_matches db)" "m_id (f n) = i" "m_status (f n) = StatusActive" "m_offline (f n) \<noteq> None"
    by (auto simp: running_def)
  show "running db i"
  proof (cases "m_id n = m_id m")
    case True
    then have "n = m" using moves_on_id [OF assms(1,2,3) n(1)] by simp
    with n assms(3,4) moves_on_id [OF assms(1,2,3,3)] show ?thesis by (auto simp: running_def)
  next
    case False
    then have "f n = n" using assms(1) n(1) by (simp add: moves_on_def)
    with n show ?thesis by (auto simp: running_def)
  qed
qed

lemma running_abandoned:
  assumes "abandonIfExpired sv flt ctx i cutoff now db = Inr (ev, db')" "tables_ok sv db" "running db' n"
  shows "running db n"
proof -
  have d: "distinct (map m_id (d_matches db))" using assms(2) by (simp add: tables_ok_def)
  from abandon_effect [OF assms(1,2)] show ?thesis
  proof (elim disjE exE conjE)
    assume "db' = db"
    with assms(3) show ?thesis by simp
  next
    fix m f
    assume m: "m \<in> set (d_matches db)" "moves_on db m f" "f m = abandoned now m" "db' = stepped_db m (the ev) f [] db"
    have "m_status (abandoned now m) \<noteq> StatusActive" by (simp add: abandoned_def StatusAbandoned_def StatusActive_def)
    with running_stepped [OF m(2) d m(1)] m assms(3) show ?thesis by metis
  qed
qed

lemma running_loop: "abandon_loop sv flts ctx cutoff now ids es db = (err, es', db') \<Longrightarrow> tables_ok sv db \<Longrightarrow>
   running db' n \<Longrightarrow> running db n"
proof (induction ids arbitrary: es db)
  case (Cons i ids)
  show ?case
  proof (cases "abandonIfExpired sv (flts i) ctx i cutoff now db")
    case (Inl e)
    with Cons.prems show ?thesis by simp
  next
    case (Inr x)
    obtain ev d where x: "x = (ev, d)" by (cases x)
    have "running d n"
      using Cons.IH [of "case ev of None \<Rightarrow> es | Some e \<Rightarrow> es @ [e]" d] Cons.prems tables_ok_abandon [OF Inr [unfolded x] Cons.prems(2)] Inr x
      by simp
    with running_abandoned [OF Inr [unfolded x] Cons.prems(2)] show ?thesis by blast
  qed
qed simp

lemma quiet_running: "quiet_step sv db db' \<Longrightarrow> tables_ok sv db \<Longrightarrow> running db' n \<Longrightarrow> running db n"
proof (induction rule: quiet_step.induct)
  case (quiet_users db us)
  then show ?case by (simp add: running_def)
next
  case (quiet_create flt ctx now random fresh g a b config db m db')
  from create_effect [OF this(1)] obtain i normal p q where "m = new_match i g normal now"
    "db' = created_db m p q (single_game sv g) db" by blast
  with quiet_create.prems(2) show ?case by (auto simp: running_def new_match_def)
next
  case (quiet_cancel flt ctx now i actor db e db')
  have d: "distinct (map m_id (d_matches db))" using quiet_cancel.prems(1) by (simp add: tables_ok_def)
  from cancel_effect [OF quiet_cancel(1,2)] obtain m f where m: "m \<in> set (d_matches db)" "moves_on db m f"
    "m_status (f m) = StatusCancelled" "db' = stepped_db m e f [] db" by blast
  have "m_status (f m) \<noteq> StatusActive" using m(3) by (simp add: StatusCancelled_def StatusActive_def)
  with running_stepped [OF m(2) d m(1)] m(4) quiet_cancel.prems(2) show ?case by metis
next
  case (quiet_expired flt flts ctx now db err es db')
  show ?case
  proof (cases "db' = db")
    case True
    then show ?thesis using quiet_expired.prems by simp
  next
    case False
    with quiet_expired.hyps obtain cutoff ids where "abandon_loop sv flts ctx cutoff now ids [] db = (err, es, db')"
      by (auto simp: AbandonExpired_def Let_def split: if_splits)
    from running_loop [OF this quiet_expired.prems] show ?thesis .
  qed
next
  case (quiet_revoke db now user)
  then show ?case by (simp add: running_def revokeUserCredentials_def)
next
  case (quiet_ticket flt ctx now random i user db lt db')
  from ticket_effect [OF this(1)] quiet_ticket.prems(2) show ?case by (auto simp: running_def)
next
  case (quiet_connect flt ctx now random rq db cc db')
  from connect_effect [OF this(1)] quiet_connect.prems(2) show ?case by (auto simp: running_def split: if_splits)
next
  case (quiet_action flt ctx conn now random r db es db')
  have d: "distinct (map m_id (d_matches db))" using quiet_action.prems(1) by (simp add: tables_ok_def)
  obtain e snap where es: "es = (e, snap)" by (cases es)
  show ?case
  proof (cases "db' = db")
    case True
    then show ?thesis using quiet_action.prems by simp
  next
    case False
    with apply_effect [OF quiet_action(1) [unfolded es] quiet_action(2)] obtain m oc f ls where
      m: "m \<in> set (d_matches db)" "m_status m = StatusActive" "outcome_ok oc" "moves_on db m f"
        "f m = outcome_match oc (m_revision m + 1) now m" "db' = stepped_db m e f ls db"
      by (auto split: option.splits)
    have "m_status (f m) = StatusActive \<Longrightarrow> m_offline (f m) = m_offline m"
      using m(3) by (auto simp: m(5) outcome_match_def outcome_ok_def StatusActive_def StatusFinished_def StatusAbandoned_def)
    with running_stepped [OF m(4) d m(1)] m(2,6) quiet_action.prems(2) show ?thesis by blast
  qed
qed

text \<open>The calls of the store; the environment has the faults, the caller's session and the time.\<close>

type_synonym store_env = "faults \<times> identity option \<times> int"

definition store_online :: "service \<Rightarrow> store_env \<Rightarrow> bytes \<Rightarrow> bytes \<Rightarrow> db \<Rightarrow> match_error + db" where
  "store_online sv e i user db =
     (case e of (flt, ctx, now) \<Rightarrow> and_then (SetPlayerOnline sv flt ctx now i user db) (\<lambda>(_, db'). Inr db'))"

definition store_offline :: "service \<Rightarrow> store_env \<Rightarrow> bytes \<Rightarrow> bytes \<Rightarrow> db \<Rightarrow> match_error + db" where
  "store_offline sv e i user db =
     (case e of (flt, ctx, now) \<Rightarrow> and_then (SetPlayerOffline sv flt ctx now i user db) (\<lambda>(_, db'). Inr db'))"

lemma presence_effect:
  assumes "setPlayerPresence sv flt ctx now i user on db = Inr (u, db')" "tables_ok sv db"
  shows "db' = db \<and> (\<forall>m\<in>set (d_matches db). m_id m = i \<longrightarrow> m_status m \<noteq> StatusActive) \<or>
    db' = db\<lparr>d_matches := map (\<lambda>n. if m_id n = i \<and> m_status n = StatusActive
      then n\<lparr>m_offline := (if on then None else Some (case m_offline n of None \<Rightarrow> now | Some since \<Rightarrow> since))\<rparr> else n)
      (d_matches db)\<rparr>"
  using assms(1) unfolding setPlayerPresence_def
proof (elim runE branchE, goal_cases)
  case (1 z mps m ps)
  then have "find_match db i = Some m" by (auto simp: loadMatchAndPlayers_def run_def split: if_splits option.splits)
  moreover have "inj_on m_id (set (d_matches db))" using assms(2) by (simp add: tables_ok_def distinct_map)
  ultimately have "\<forall>n\<in>set (d_matches db). m_id n = i \<longrightarrow> n = m" by (auto dest!: find_match_Some dest: inj_onD)
  moreover have "db' = db" using 1 by simp
  ultimately show ?case using 1(6) by blast
next
  case (2 z mps m ps d1)
  then show ?case by simp
qed

lemma presence_running:
  assumes "setPlayerPresence sv flt ctx now i user on db = Inr (u, db')" "tables_ok sv db"
  shows "n \<noteq> i \<Longrightarrow> running db' n \<Longrightarrow> running db n" and "on \<Longrightarrow> \<not> running db' i"
proof -
  let ?f = "\<lambda>n. if m_id n = i \<and> m_status n = StatusActive
      then n\<lparr>m_offline := (if on then None else Some (case m_offline n of None \<Rightarrow> now | Some since \<Rightarrow> since))\<rparr> else n"
  have id: "m_id (?f q) = m_id q" "m_status (?f q) = m_status q" for q by simp_all
  from presence_effect [OF assms] have "(n \<noteq> i \<longrightarrow> running db' n \<longrightarrow> running db n) \<and> (on \<longrightarrow> \<not> running db' i)"
  proof (elim disjE conjE)
    assume "db' = db" "\<forall>m\<in>set (d_matches db). m_id m = i \<longrightarrow> m_status m \<noteq> StatusActive"
    then show ?thesis unfolding running_def by blast
  next
    assume db': "db' = db\<lparr>d_matches := map ?f (d_matches db)\<rparr>"
    have ms: "d_matches (db\<lparr>d_matches := rs\<rparr>) = rs" for rs by simp
    have row: "\<exists>q\<in>set (d_matches db). r = ?f q" if "r \<in> set (d_matches db')" for r
    proof -
      have "set (d_matches db') = ?f ` set (d_matches db)" unfolding db' ms set_map ..
      with that show ?thesis by (simp only: image_iff)
    qed
    have "running db n" if ni: "n \<noteq> i" "running db' n"
    proof -
      obtain r where r: "r \<in> set (d_matches db')" "m_id r = n" "m_status r = StatusActive" "m_offline r \<noteq> None"
        using ni(2) unfolding running_def by blast
      obtain q where q: "q \<in> set (d_matches db)" "r = ?f q" using row [OF r(1)] by blast
      have "r = q" using q(2) r(2) ni(1) by (simp split: if_splits)
      with q(1) r show ?thesis unfolding running_def by blast
    qed
    moreover have "\<not> running db' i" if on
    proof
      assume "running db' i"
      then obtain r where r: "r \<in> set (d_matches db')" "m_id r = i" "m_status r = StatusActive" "m_offline r \<noteq> None"
        unfolding running_def by blast
      obtain q where "q \<in> set (d_matches db)" "r = ?f q" using row [OF r(1)] by blast
      with r that show False by (simp split: if_splits)
    qed
    ultimately show ?thesis by blast
  qed
  then show "n \<noteq> i \<Longrightarrow> running db' n \<Longrightarrow> running db n" "on \<Longrightarrow> \<not> running db' i" by blast+
qed

lemma store_online_law:
  assumes "tables_ok sv db" "store_online sv e i user db = Inr db'"
  shows "tables_ok sv db' \<and> \<not> running db' i \<and> (running db' n \<longrightarrow> running db n)"
proof -
  obtain flt ctx now where e: "e = (flt, ctx, now)" by (cases e)
  have p: "setPlayerPresence sv flt ctx now i user True db = Inr ((), db')"
    using assms(2) by (auto simp: store_online_def e SetPlayerOnline_def)
  show ?thesis using tables_ok_presence [OF p assms(1)] presence_running [OF p assms(1)] by (cases "n = i") blast+
qed

lemma store_offline_law:
  assumes "tables_ok sv db" "store_offline sv e i user db = Inr db'"
  shows "tables_ok sv db' \<and> (n \<noteq> i \<longrightarrow> running db' n \<longrightarrow> running db n)"
proof -
  obtain flt ctx now where e: "e = (flt, ctx, now)" by (cases e)
  have p: "setPlayerPresence sv flt ctx now i user False db = Inr ((), db')"
    using assms(2) by (auto simp: store_offline_def e SetPlayerOffline_def)
  show ?thesis using tables_ok_presence [OF p assms(1)] presence_running [OF p assms(1)] by blast
qed

interpretation service_store: presence_store "store_online sv" "store_offline sv" "quiet_step sv" "tables_ok sv" running for sv
proof
  show "tables_ok sv s' \<and> \<not> running s' m \<and> (running s' n \<longrightarrow> running s n)"
    if "tables_ok sv s" "store_online sv e m u s = Inr s'" for s e m u s' n
    by (rule store_online_law [OF that])
  show "tables_ok sv s' \<and> (n \<noteq> m \<longrightarrow> running s' n \<longrightarrow> running s n)"
    if "tables_ok sv s" "store_offline sv e m u s = Inr s'" for s e m u s' n
    by (rule store_offline_law [OF that])
  show "tables_ok sv s' \<and> (running s' n \<longrightarrow> running s n)" if "tables_ok sv s" "quiet_step sv s s'" for s s' n
    using quiet_tables [OF that(2,1)] quiet_running [OF that(2,1)] by blast
qed

subsection \<open>Properties\<close>

lemma presence_reached:
  assumes "presence_run (store_online sv) (store_offline sv) (quiet_step sv) (NewPresence, db0) (p, db)" "reachable sv db0"
  shows "tables_ok sv db" "presence_ok running (p, db)"
  using service_store.run_keeps [OF assms(1)] mh_reachable_ok [OF assms(2)] service_store.starts_ok by simp_all

text \<open>
  C31. Whatever operations, store calls, failures and activity interleave: when no operation on a match
  waits for the store, the last notification about each of its players says whether the player is
  connected, and every notification reports a change.
\<close>
theorem presence_announced:
  assumes "presence_run (store_online sv) (store_offline sv) (quiet_step sv) (NewPresence, db0) (p, db)"
    and "reachable sv db0" "waiting p m = None"
  shows "IsOnline p m u = announced (pr_notes p) m u \<and> changes (pr_notes p)"
proof -
  note ok = presence_reached(2) [OF assms(1,2)]
  show ?thesis
    using presence_okD(3) [OF ok, of m u] presence_ok_keys [OF ok] assms(3)
    by (simp add: IsOnline_def player_online settled_def)
qed

lemma kept_abandoned:
  assumes "abandonIfExpired sv flt ctx i cutoff now db = Inr (ev, db')" "tables_ok sv db" "\<not> running db n"
  shows "filter (\<lambda>r. m_id r = n) (d_matches db') = filter (\<lambda>r. m_id r = n) (d_matches db)"
proof -
  have d: "distinct (map m_id (d_matches db))" using assms(2) by (simp add: tables_ok_def)
  from abandon_effect [OF assms(1,2)] show ?thesis
  proof (elim disjE exE conjE)
    fix m f
    assume m: "m \<in> set (d_matches db)" "m_status m = StatusActive" "moves_on db m f" "offline_since cutoff m" "db' = stepped_db m (the ev) f [] db"
    then have "running db (m_id m)" by (auto simp: running_def offline_since_def split: option.splits)
    then have n: "m_id m \<noteq> n" using assms(3) by auto
    have "filter (\<lambda>r. m_id r = n) (map f rs) = filter (\<lambda>r. m_id r = n) rs" if "set rs \<subseteq> set (d_matches db)" for rs
      using that
    proof (induction rs)
      case (Cons r rs)
      then have r: "r \<in> set (d_matches db)" by simp
      have "m_id (f r) = m_id r" using moves_on_id [OF m(3) d m(1) r] by simp
      moreover have "m_id r = n \<Longrightarrow> f r = r" using m(3) r n by (auto simp: moves_on_def)
      ultimately show ?case using Cons by simp
    qed simp
    then show ?thesis using m(5) by simp
  qed simp
qed

lemma kept_loop: "abandon_loop sv flts ctx cutoff now ids es db = (err, es', db') \<Longrightarrow> tables_ok sv db \<Longrightarrow> \<not> running db n \<Longrightarrow>
   filter (\<lambda>r. m_id r = n) (d_matches db') = filter (\<lambda>r. m_id r = n) (d_matches db)"
proof (induction ids arbitrary: es db)
  case (Cons i ids)
  show ?case
  proof (cases "abandonIfExpired sv (flts i) ctx i cutoff now db")
    case (Inl e)
    with Cons.prems show ?thesis by simp
  next
    case (Inr x)
    obtain ev d where x: "x = (ev, d)" by (cases x)
    note ab = Inr [unfolded x]
    have "\<not> running d n" using running_abandoned [OF ab Cons.prems(2)] Cons.prems(3) by blast
    then show ?thesis
      using Cons.IH [of "case ev of None \<Rightarrow> es | Some e \<Rightarrow> es @ [e]" d] Cons.prems(1) tables_ok_abandon [OF ab Cons.prems(2)] ab
        kept_abandoned [OF ab Cons.prems(2,3)] by simp
  qed
qed simp

lemma established_settled:
  assumes "k \<in> fst ` set (pr_connections p)" "waiting p (pk_match k) \<noteq> Some (ConnectWaits k)"
  shows "settled (of_match (pk_match k) (pr_connections p)) (waiting p (pk_match k)) \<noteq> []"
proof -
  obtain t where t: "(k, t) \<in> set (of_match (pk_match k) (pr_connections p))" using assms(1) by (auto simp: of_match_def)
  then have "(k, t) \<in> set (settled (of_match (pk_match k) (pr_connections p)) (waiting p (pk_match k)))"
    using assms(2) by (auto simp: settled_def conn_del_def split: option.splits presence_wait.splits)
  then show ?thesis by auto
qed

text \<open>
  C32. While a match has an established connection, that is one whose \<open>Connect\<close> does not wait for the
  store any more, its timer does not run, and \<open>AbandonExpired\<close> leaves its row alone, at any time, whatever
  fails, and whatever other operation on the match waits for the store. The condition is needed: a connection is
  already in the map while \<open>Connect\<close> waits for the store to stop the timer, and until then the match can
  still be abandoned.
\<close>
theorem presence_protects:
  assumes "presence_run (store_online sv) (store_offline sv) (quiet_step sv) (NewPresence, db0) (p, db)"
    and "reachable sv db0" "k \<in> fst ` set (pr_connections p)" "waiting p (pk_match k) \<noteq> Some (ConnectWaits k)"
  shows "\<not> running db (pk_match k) \<and>
    (\<forall>flt flts ctx now err es db'. AbandonExpired sv flt flts ctx now db = (err, es, db') \<longrightarrow>
       filter (\<lambda>r. m_id r = pk_match k) (d_matches db') = filter (\<lambda>r. m_id r = pk_match k) (d_matches db))"
proof -
  let ?m = "pk_match k"
  note ok = presence_reached [OF assms(1,2)]
  have n: "\<not> running db ?m"
    by (rule presence_okD(2) [OF ok(2), of ?m]) (rule established_settled [OF assms(3,4)])
  have "filter (\<lambda>r. m_id r = ?m) (d_matches db') = filter (\<lambda>r. m_id r = ?m) (d_matches db)"
    if "AbandonExpired sv flt flts ctx now db = (err, es, db')" for flt flts ctx now err es db'
  proof (cases "db' = db")
    case False
    with that obtain cutoff ids where "abandon_loop sv flts ctx cutoff now ids [] db = (err, es, db')"
      by (auto simp: AbandonExpired_def Let_def split: if_splits)
    from kept_loop [OF this ok(1) n] show ?thesis .
  qed simp
  with n show ?thesis by blast
qed

text \<open>The first connection of a player to a match that waits to be abandoned.\<close>

definition sample_key :: presenceConnectionKey where
  "sample_key = \<lparr>pk_match = first_match, pk_user = ann, pk_connection = bob\<rparr>"

lemma sample_online:
  "store_online sample_service (\<lambda>_. False, None, 20) first_match ann offline_db = Inr (offline_db\<lparr>d_matches := [sample_row None]\<rparr>)"
proof -
  have load: "loadMatchAndPlayers sample_service (\<lambda>_. False) offline_db first_match = Inr (sample_row (Some 9), sample_players)"
    by (rule sample_load) (simp_all add: offline_db_def)
  have ms: "d_matches offline_db = [sample_row (Some 9)]" by (simp add: offline_db_def)
  have none: "(sample_row (Some 9))\<lparr>m_offline := None\<rparr> = sample_row None" by (simp add: sample_row_def)
  have parse: "sv_parse sample_service = sample_parser" by (simp add: sample_service_def)
  have seat: "p_user (sample_players ! 0) = ann" by (simp add: sample_players_def new_player_def)
  have "setPlayerPresence sample_service (\<lambda>_. False) None 20 first_match ann True offline_db =
      Inr ((), offline_db\<lparr>d_matches := [sample_row None]\<rparr>)"
    unfolding setPlayerPresence_def load
    by (simp add: parse sample_uuids beginWriteTransaction_def GuardTransaction_def sample_row_sel seat update_one_match_def ms none
        commit_def run_def)
  then show ?thesis by (simp add: store_online_def SetPlayerOnline_def)
qed

lemma sample_connected:
  "presence_run (store_online sample_service) (store_offline sample_service) (quiet_step sample_service)
     (NewPresence, offline_db) (finish_connect sample_key True (start_connect 20 sample_key NewPresence),
        offline_db\<lparr>d_matches := [sample_row None]\<rparr>)"
proof -
  have 1: "waiting NewPresence (pk_match sample_key) = None" by (simp add: NewPresence_def waiting_def)
  have 2: "waiting (start_connect 20 sample_key NewPresence) first_match = Some (ConnectWaits sample_key)"
    by (simp add: start_connect_def Let_def NewPresence_def playerOnlineLocked_def sample_key_def)
  have "store_online sample_service (\<lambda>_. False, None, 20) first_match (pk_user sample_key) offline_db =
      Inr (offline_db\<lparr>d_matches := [sample_row None]\<rparr>)" using sample_online by (simp add: sample_key_def)
  with 2 have 3: "presence_step (store_online sample_service) (store_offline sample_service) (quiet_step sample_service)
     (start_connect 20 sample_key NewPresence, offline_db)
     (finish_connect sample_key True (start_connect 20 sample_key NewPresence), offline_db\<lparr>d_matches := [sample_row None]\<rparr>)"
    by (rule presence_step.connected)
  show ?thesis by (rule presence_run.onwards [OF presence_run.onwards [OF presence_run.here presence_step.connect [OF 1]] 3])
qed

lemma sample_present:
  "waiting (finish_connect sample_key True (start_connect 20 sample_key NewPresence)) first_match = None"
  "IsOnline (finish_connect sample_key True (start_connect 20 sample_key NewPresence)) first_match ann"
  by (simp_all add: start_connect_def Let_def NewPresence_def playerOnlineLocked_def sample_key_def finish_connect_def IsOnline_def conn_put_def)

lemma sample_established:
  "sample_key \<in> fst ` set (pr_connections (finish_connect sample_key True (start_connect 20 sample_key NewPresence)))"
  by (simp add: start_connect_def Let_def NewPresence_def playerOnlineLocked_def finish_connect_def conn_put_def)

theorem presence_announced_witness:
  "announced (pr_notes (finish_connect sample_key True (start_connect 20 sample_key NewPresence))) first_match ann"
  using presence_announced [OF sample_connected offline_reach sample_present(1), of ann] sample_present(2) by simp

theorem presence_protects_witness:
  "running offline_db first_match \<and> \<not> running (offline_db\<lparr>d_matches := [sample_row None]\<rparr>) first_match"
  using presence_protects [OF sample_connected offline_reach, of sample_key] sample_established sample_present(1)
  by (simp add: running_def offline_db_def sample_row_sel sample_key_def)

subsection \<open>What a sweep does\<close>

text \<open>A store that records its calls and never fails.\<close>

definition recorded :: "bytes \<Rightarrow> bytes \<Rightarrow> (bytes \<times> bytes) list \<Rightarrow> match_error + (bytes \<times> bytes) list" where
  "recorded m u log = Inr (log @ [(m, u)])"

definition alive :: "int \<Rightarrow> presenceConnectionKey \<times> int \<Rightarrow> bool" where
  "alive now c \<longleftrightarrow> elapsed now (snd c) \<le> presenceConnectionTimeout"

definition first_user :: "connections \<Rightarrow> bytes" where
  "first_user cs = sort (remdups (map (pk_user \<circ> fst) cs)) ! 0"

definition sweep_calls :: "int \<Rightarrow> connections \<Rightarrow> bytes \<Rightarrow> (bytes \<times> bytes) list" where
  "sweep_calls now cs m =
     (if of_match m cs \<noteq> [] \<and> filter (alive now) (of_match m cs) = [] then [(m, first_user (of_match m cs))] else [])"

lemma sweepMatch_recorded:
  assumes w: "\<And>n. waiting p n = None"
    and ks: "\<forall>c\<in>set (pr_connections p). pk_match (fst c) = m \<longrightarrow> fst c \<in> set ks" "\<forall>k\<in>set ks. pk_match k = m"
  shows "\<exists>p'. sweepMatch recorded m ks now p log = (None, p', log @ sweep_calls now (pr_connections p) m) \<and>
    pr_connections p' = filter (\<lambda>c. pk_match (fst c) = m \<longrightarrow> alive now c) (pr_connections p) \<and> (\<forall>n. waiting p' n = None)"
proof -
  let ?C = "pr_connections p" and ?D = "of_match m (pr_connections p)"
  let ?E = "expired_conns now ks ?C" and ?C' = "filter (\<lambda>c. pk_match (fst c) = m \<longrightarrow> alive now c) ?C"
  let ?p = "p\<lparr>pr_connections := ?C'\<rparr>"
  have E: "?E = filter (\<lambda>c. \<not> alive now c) ?D"
    unfolding expired_conns_def of_match_def filter_filter
  proof (rule filter_cong [OF refl])
    fix c
    assume "c \<in> set ?C"
    then have "fst c \<in> set ks \<longleftrightarrow> pk_match (fst c) = m" using ks by blast
    then show "(fst c \<in> set ks \<and> presenceConnectionTimeout < elapsed now (snd c)) \<longleftrightarrow> (pk_match (fst c) = m \<and> \<not> alive now c)"
      by (simp add: alive_def not_le)
  qed
  have C: "filter (\<lambda>c. c \<notin> set ?E) ?C = ?C'"
    unfolding E by (intro filter_cong) (auto simp: of_match_def)
  have D: "of_match m ?C' = filter (alive now) ?D" by (auto simp: of_match_def intro!: filter_cong)
  have eq: "start_sweep m ks now p =
      (if ?E = [] then p
       else if filter (alive now) ?D \<noteq> [] then notify_offline m (offline_users m ?E ?C') ?p
       else wait_for m (SweepWaits ?E (offline_users m ?E ?C')) ?p)"
    unfolding start_sweep_def C Let_def match_online D ..
  show ?thesis
  proof (cases "?E = []")
    case True
    then have all: "\<forall>c\<in>set ?D. alive now c" unfolding E by (simp add: filter_empty_conv)
    have 1: "filter (alive now) ?D = ?D" by (rule filter_True [OF all])
    have 2: "?C' = ?C" using all by (intro filter_True) (auto simp: of_match_def)
    from 1 2 show ?thesis using True w by (simp add: sweepMatch_def eq sweep_calls_def)
  next
    case ne: False
    show ?thesis
    proof (cases "filter (alive now) ?D = []")
      case False
      then show ?thesis using ne w by (simp add: sweepMatch_def eq sweep_calls_def)
    next
      case True
      have "?E = ?D" unfolding E using True by (auto simp: filter_empty_conv filter_id_conv)
      then have us: "sweep_user (offline_users m ?E ?C') = first_user ?D"
        by (simp add: sweep_user_def first_user_def offline_users_def player_online D True)
      have "sweep_calls now ?C m = [(m, first_user ?D)]" using ne True \<open>?E = ?D\<close> by (simp add: sweep_calls_def)
      with True ne us w show ?thesis
        by (simp add: sweepMatch_def eq answered_def recorded_def finish_sweep_def)
    qed
  qed
qed

lemma calls_other: "\<forall>c\<in>set cs. pk_match (fst c) = m \<longrightarrow> P c \<Longrightarrow> sweep_calls now (filter P cs) m = sweep_calls now cs m"
proof -
  assume P: "\<forall>c\<in>set cs. pk_match (fst c) = m \<longrightarrow> P c"
  have "of_match m (filter P cs) = of_match m cs" using P by (auto simp: of_match_def intro!: filter_cong)
  then show ?thesis by (simp add: sweep_calls_def)
qed

lemma sweep_loop_recorded:
  assumes "distinct ms" "\<And>n. waiting p n = None"
    and "\<forall>m\<in>set ms. (\<forall>c\<in>set (pr_connections p). pk_match (fst c) = m \<longrightarrow> fst c \<in> set (keys m)) \<and> (\<forall>k\<in>set (keys m). pk_match k = m)"
  shows "\<exists>p'. sweep_loop recorded now keys ms p log = (None, p', log @ concat (map (sweep_calls now (pr_connections p)) ms)) \<and>
    pr_connections p' = filter (\<lambda>c. pk_match (fst c) \<in> set ms \<longrightarrow> alive now c) (pr_connections p)"
  using assms
proof (induction ms arbitrary: p log)
  case (Cons m ms)
  obtain p1 where 1: "sweepMatch recorded m (keys m) now p log = (None, p1, log @ sweep_calls now (pr_connections p) m)"
    "pr_connections p1 = filter (\<lambda>c. pk_match (fst c) = m \<longrightarrow> alive now c) (pr_connections p)" "\<And>n. waiting p1 n = None"
  proof -
    have "\<forall>c\<in>set (pr_connections p). pk_match (fst c) = m \<longrightarrow> fst c \<in> set (keys m)" "\<forall>k\<in>set (keys m). pk_match k = m"
      using Cons.prems(3) by simp_all
    from sweepMatch_recorded [OF Cons.prems(2) this] that show thesis by blast
  qed
  have same: "sweep_calls now (pr_connections p1) n = sweep_calls now (pr_connections p) n" if "n \<in> set ms" for n
    unfolding 1(2) using that Cons.prems(1) by (intro calls_other) auto
  have ih: "distinct ms" "\<forall>n\<in>set ms. (\<forall>c\<in>set (pr_connections p1). pk_match (fst c) = n \<longrightarrow> fst c \<in> set (keys n)) \<and>
        (\<forall>k\<in>set (keys n). pk_match k = n)"
  proof -
    show "distinct ms" using Cons.prems(1) by simp
    have sub: "set (pr_connections p1) \<subseteq> set (pr_connections p)" unfolding 1(2) by (rule filter_is_subset)
    show "\<forall>n\<in>set ms. (\<forall>c\<in>set (pr_connections p1). pk_match (fst c) = n \<longrightarrow> fst c \<in> set (keys n)) \<and>
        (\<forall>k\<in>set (keys n). pk_match k = n)"
    proof (intro ballI conjI impI)
      fix n c
      assume n: "n \<in> set ms" and c: "c \<in> set (pr_connections p1)" and m: "pk_match (fst c) = n"
      from n have n': "n \<in> set (m # ms)" by (rule list.set_intros(2))
      show "fst c \<in> set (keys n)" by (rule bspec [OF Cons.prems(3) n', THEN conjunct1, THEN bspec, OF subsetD [OF sub c], THEN mp, OF m])
    next
      fix n k
      assume n: "n \<in> set ms" and k: "k \<in> set (keys n)"
      from n have n': "n \<in> set (m # ms)" by (rule list.set_intros(2))
      show "pk_match k = n" by (rule bspec [OF Cons.prems(3) n', THEN conjunct2, THEN bspec, OF k])
    qed
  qed
  from Cons.IH [OF ih(1) 1(3) ih(2), of "log @ sweep_calls now (pr_connections p) m"]
  obtain p2 where 2: "sweep_loop recorded now keys ms p1 (log @ sweep_calls now (pr_connections p) m) =
      (None, p2, (log @ sweep_calls now (pr_connections p) m) @ concat (map (sweep_calls now (pr_connections p1)) ms))"
    "pr_connections p2 = filter (\<lambda>c. pk_match (fst c) \<in> set ms \<longrightarrow> alive now c) (pr_connections p1)"
    by (elim exE conjE)
  have m: "map (sweep_calls now (pr_connections p1)) ms = map (sweep_calls now (pr_connections p)) ms"
    by (rule map_cong [OF refl same])
  have "pr_connections p2 = filter (\<lambda>c. pk_match (fst c) \<in> set (m # ms) \<longrightarrow> alive now c) (pr_connections p)"
    unfolding 2(2) 1(2) filter_filter by (intro filter_cong) auto
  with 1(1) 2(1) show ?case unfolding m by simp
qed simp

text \<open>
  C33. A sweep removes exactly the connections that were silent for more than 45 seconds. It tells the store of
  exactly the matches that lose their last connection, once each, in the order of their ids, with
  the first of their players.
\<close>
theorem presence_sweep:
  assumes "\<And>m. waiting p m = None" "Sweep recorded now p [] = (err, p', log)"
  shows "err = None \<and>
    pr_connections p' = filter (\<lambda>c. elapsed now (snd c) \<le> 45 * 10 ^ 9) (pr_connections p) \<and>
    log = map (\<lambda>m. (m, first_user (of_match m (pr_connections p))))
      (filter (\<lambda>m. of_match m (pr_connections p') = []) (sort (remdups (map (pk_match \<circ> fst) (pr_connections p)))))"
proof -
  let ?ms = "sort (remdups (map pk_match (map fst (pr_connections p))))"
  have ms: "set ?ms = (pk_match \<circ> fst) ` set (pr_connections p)" by (simp add: image_comp)
  from sweep_loop_recorded [of ?ms p "\<lambda>m. filter (\<lambda>k. pk_match k = m) (map fst (pr_connections p))" now "[]"]
  obtain p1 where 1: "Sweep recorded now p [] = (None, p1, concat (map (sweep_calls now (pr_connections p)) ?ms))"
    "pr_connections p1 = filter (\<lambda>c. pk_match (fst c) \<in> set ?ms \<longrightarrow> alive now c) (pr_connections p)"
    using assms(1) by (auto simp: Sweep_def Let_def)
  have "pr_connections p1 = filter (alive now) (pr_connections p)"
    unfolding 1(2) ms by (intro filter_cong) auto
  moreover have "sweep_calls now (pr_connections p) m =
      (if of_match m (filter (alive now) (pr_connections p)) = [] then [(m, first_user (of_match m (pr_connections p)))] else [])"
    if "m \<in> set ?ms" for m
  proof -
    have "of_match m (pr_connections p) \<noteq> []" using that unfolding ms by (auto simp: of_match_def filter_empty_conv)
    moreover have "filter (alive now) (of_match m (pr_connections p)) = of_match m (filter (alive now) (pr_connections p))"
      by (simp add: of_match_def conj_commute)
    ultimately show ?thesis by (simp add: sweep_calls_def)
  qed
  then have "concat (map (sweep_calls now (pr_connections p)) ms) =
      map (\<lambda>m. (m, first_user (of_match m (pr_connections p)))) (filter (\<lambda>m. of_match m (filter (alive now) (pr_connections p)) = []) ms)"
    if "set ms \<subseteq> set ?ms" for ms
    using that by (induction ms) auto
  moreover have "alive now = (\<lambda>c. elapsed now (snd c) \<le> 45 * 10 ^ 9)"
    by (rule ext) (simp add: alive_def presenceConnectionTimeout_def)
  ultimately show ?thesis using 1(1) assms(2) by (simp add: comp_def)
qed

theorem presence_sweep_witness:
  "\<exists>p'. Sweep recorded (50 * 10 ^ 9) (NewPresence\<lparr>pr_connections := [(sample_key, 0), (sample_key\<lparr>pk_match := bob\<rparr>, 6 * 10 ^ 9)]\<rparr>) [] =
     (None, p', [(first_match, ann)]) \<and> pr_connections p' = [(sample_key\<lparr>pk_match := bob\<rparr>, 6 * 10 ^ 9)]"
proof -
  let ?p = "NewPresence\<lparr>pr_connections := [(sample_key, 0), (sample_key\<lparr>pk_match := bob\<rparr>, 6 * 10 ^ 9)]\<rparr>"
  have w: "waiting ?p m = None" for m by (simp add: NewPresence_def waiting_def)
  obtain err p' log where s: "Sweep recorded (50 * 10 ^ 9) ?p [] = (err, p', log)" using prod_cases3 .
  have ne: "first_match \<noteq> bob" by (simp add: first_match_def bob_def)
  have ins: "filter (\<lambda>m. bob \<noteq> m) (sort [first_match, bob]) = [first_match]" using ne by simp
  from presence_sweep [OF w s] ne ins have "err = None" "pr_connections p' = [(sample_key\<lparr>pk_match := bob\<rparr>, 6 * 10 ^ 9)]"
    "log = [(first_match, ann)]"
    by (auto simp: elapsed_def max_i64_def sample_key_def first_user_def)
  with s show ?thesis by blast
qed

end
