(* ===== verification/Protocol.thy ===== *)
theory Protocol
  imports MatchHistory Complex_Main
begin

text \<open>
  The messages of a client (\<open>server/internal/protocol/envelope.go\<close> and \<open>messages.go\<close>): a scan of the JSON
  tokens that bounds size, depth and numbers, the envelope and its rules, and the payloads a client
  may send. The tokens are those of \<open>json.Decoder.Token\<close>. The hub hands an accepted action to the match
  service.
\<close>

subsection \<open>Errors\<close>

text \<open>A \<open>ProtocolError\<close> by its code; the message is a function of the code.\<close>

datatype protocol_error =
    InvalidJSON
  | InvalidEnvelope
  | UnsupportedVersion
  | UnsafeNumber
  | MessageTooLarge
  | JSONTooDeep
  | NumberTokenTooLong

fun error_code :: "protocol_error \<Rightarrow> bytes" where
  "error_code InvalidJSON = ''invalid_json''"
| "error_code InvalidEnvelope = ''invalid_envelope''"
| "error_code UnsupportedVersion = ''unsupported_version''"
| "error_code UnsafeNumber = ''unsafe_number''"
| "error_code MessageTooLarge = ''message_too_large''"
| "error_code JSONTooDeep = ''json_too_deep''"
| "error_code NumberTokenTooLong = ''number_token_too_long''"

fun error_message :: "protocol_error \<Rightarrow> bytes" where
  "error_message InvalidJSON = ''Message is not valid JSON''"
| "error_message InvalidEnvelope = ''Message envelope is invalid''"
| "error_message UnsupportedVersion = ''Protocol version is not supported''"
| "error_message UnsafeNumber = ''JSON number is not cross-runtime safe''"
| "error_message MessageTooLarge = ''Message exceeds the size limit''"
| "error_message JSONTooDeep = ''JSON exceeds the nesting limit''"
| "error_message NumberTokenTooLong = ''JSON number token exceeds the size limit''"

definition Version1 :: int where "Version1 = 1"
definition maxSafeJSONInteger :: int where "maxSafeJSONInteger = 9007199254740991"
definition MaxMessageBytes :: nat where "MaxMessageBytes = 64 * 1024"
definition MaxJSONDepth :: int where "MaxJSONDepth = 32"
definition MaxNumberTokenBytes :: nat where "MaxNumberTokenBytes = 128"

subsection \<open>Numbers\<close>

text \<open>
  The value of a number token, and the \<open>float64\<close> next to it (\<open>strconv.ParseFloat\<close>): 53 significant
  bits, ties to even, subnormal below \<open>2^-1022\<close>, and no value from \<open>2^1024\<close> on.
\<close>

definition digits_value :: "bytes \<Rightarrow> int" where
  "digits_value ds = foldl (\<lambda>n c. 10 * n + int (byte c - 48)) 0 ds"

record number_token =
  nt_negative :: bool
  nt_digits :: bytes
  nt_fraction :: nat
  nt_exponent :: int

definition split_number :: "bytes \<Rightarrow> number_token" where
  "split_number raw =
     (let neg = take 1 raw = ''-''; s = (if neg then tl raw else raw);
          whole = takeWhile is_digit s; r = dropWhile is_digit s;
          frac = (if take 1 r = ''.'' then takeWhile is_digit (tl r) else []);
          r' = (if take 1 r = ''.'' then dropWhile is_digit (tl r) else r);
          es = tl r'; down = take 1 es = ''-'';
          e = digits_value (if take 1 es = ''-'' \<or> take 1 es = ''+'' then tl es else es) in
      \<lparr>nt_negative = neg, nt_digits = whole @ frac, nt_fraction = length frac,
       nt_exponent = (if r' = [] then 0 else if down then - e else e)\<rparr>)"

definition ten_power :: "int \<Rightarrow> rat" where
  "ten_power e = (if 0 \<le> e then 10 ^ nat e else 1 / 10 ^ nat (- e))"

definition two_power :: "int \<Rightarrow> rat" where
  "two_power e = (if 0 \<le> e then 2 ^ nat e else 1 / 2 ^ nat (- e))"

definition number_value :: "number_token \<Rightarrow> rat" where
  "number_value t =
     (if nt_negative t then - 1 else 1) * of_int (digits_value (nt_digits t)) * ten_power (nt_exponent t - int (nt_fraction t))"

definition round_even :: "rat \<Rightarrow> int" where
  "round_even q =
     (let f = floor q; d = q - of_int f in if d < 1 / 2 \<or> d = 1 / 2 \<and> even f then f else f + 1)"

definition binade :: "rat \<Rightarrow> int" where
  "binade a = (case find (\<lambda>e. two_power e \<le> a) (rev [-1022..1023]) of None \<Rightarrow> - 1022 | Some e \<Rightarrow> e)"

definition parse_float :: "rat \<Rightarrow> rat option" where
  "parse_float x =
     (let a = \<bar>x\<bar>; u = two_power (binade a - 52); r = of_int (round_even (a / u)) * u in
      if r \<ge> two_power 1024 then None else Some (if x < 0 then - r else r))"

text \<open>\<open>big.Rat.SetString\<close> refuses a decimal exponent beyond a million, except for zero.\<close>

definition parse_rational :: "number_token \<Rightarrow> rat option" where
  "parse_rational t =
     (if digits_value (nt_digits t) = 0 then Some 0
      else if \<bar>nt_exponent t - int (nt_fraction t)\<bar> > 1000000 then None
      else Some (number_value t))"

definition is_integer :: "rat \<Rightarrow> bool" where
  "is_integer q \<longleftrightarrow> of_int (floor q) = q"

definition validateJSONNumber :: "bytes \<Rightarrow> bool" where
  "validateJSONNumber raw =
     (let t = split_number raw in
      case (parse_float (number_value t), parse_rational t) of
        (Some v, Some q) \<Rightarrow>
          if \<not> is_integer q \<and> is_integer v then False
          else \<not> (is_integer q \<and> \<bar>q\<bar> > of_int maxSafeJSONInteger)
      | _ \<Rightarrow> False)"

subsection \<open>Tokens\<close>

datatype token_state =
    TopValue | ArrayStart | ArrayValue | ArrayComma | ObjectStart | ObjectKey | ObjectColon | ObjectValue | ObjectComma

definition value_allowed :: "token_state \<Rightarrow> bool" where
  "value_allowed st \<longleftrightarrow> st \<in> {TopValue, ArrayStart, ArrayValue, ObjectValue}"

definition value_end :: "token_state \<Rightarrow> token_state" where
  "value_end st =
     (if st = ArrayStart \<or> st = ArrayValue then ArrayComma else if st = ObjectValue then ObjectComma else st)"

datatype token_kind = Opening | Closing | Number bytes | Other

text \<open>
  One call of \<open>Token\<close> on input without leading space; a comma or colon is passed over first. The
  result is the token, the state, the stack of states and the rest.
\<close>

definition separator :: "token_state \<Rightarrow> char \<Rightarrow> token_state option" where
  "separator st c =
     (if c = CHR '':'' \<and> st = ObjectColon then Some ObjectValue
      else if c = CHR '','' \<and> st = ArrayComma then Some ArrayValue
      else if c = CHR '','' \<and> st = ObjectComma then Some ObjectKey
      else None)"

definition token ::
  "token_state \<Rightarrow> token_state list \<Rightarrow> char \<Rightarrow> bytes \<Rightarrow> (token_kind \<times> token_state \<times> token_state list \<times> bytes) option" where
  "token st stack c s =
     (if c = CHR ''['' then (if value_allowed st then Some (Opening, ArrayStart, st # stack, s) else None)
      else if c = CHR '']'' then
        (if (st = ArrayStart \<or> st = ArrayComma) \<and> stack \<noteq> [] then Some (Closing, value_end (hd stack), tl stack, s) else None)
      else if c = CHR ''{'' then (if value_allowed st then Some (Opening, ObjectStart, st # stack, s) else None)
      else if c = CHR ''}'' then
        (if (st = ObjectStart \<or> st = ObjectComma) \<and> stack \<noteq> [] then Some (Closing, value_end (hd stack), tl stack, s) else None)
      else if c = DQ \<and> (st = ObjectStart \<or> st = ObjectKey) then
        (case jstr s of None \<Rightarrow> None | Some (_, r) \<Rightarrow> Some (Other, ObjectColon, stack, r))
      else if \<not> value_allowed st then None
      else (case jscalar (c # s) of
          None \<Rightarrow> None
        | Some (JNum n, r) \<Rightarrow> Some (Number n, value_end st, stack, r)
        | Some (_, r) \<Rightarrow> Some (Other, value_end st, stack, r)))"

text \<open>The loop of the bounds; the first argument bounds the number of steps.\<close>

fun bounds_loop :: "nat \<Rightarrow> token_state \<Rightarrow> token_state list \<Rightarrow> int \<Rightarrow> bytes \<Rightarrow> protocol_error + unit" where
  "bounds_loop 0 st stack depth s = Inl InvalidJSON"
| "bounds_loop (Suc n) st stack depth s =
     (case skip_ws s of
        [] \<Rightarrow> if depth \<noteq> 0 then Inl InvalidJSON else Inr ()
      | c # t \<Rightarrow>
          (case separator st c of
             Some st' \<Rightarrow> bounds_loop n st' stack depth t
           | None \<Rightarrow>
               (case token st stack c t of
                  None \<Rightarrow> Inl InvalidJSON
                | Some (Opening, st', stack', r) \<Rightarrow>
                    if depth + 1 > MaxJSONDepth then Inl JSONTooDeep else bounds_loop n st' stack' (depth + 1) r
                | Some (Closing, st', stack', r) \<Rightarrow>
                    if depth - 1 < 0 then Inl InvalidJSON else bounds_loop n st' stack' (depth - 1) r
                | Some (Number x, st', stack', r) \<Rightarrow>
                    if length x > MaxNumberTokenBytes then Inl NumberTokenTooLong
                    else if \<not> validateJSONNumber x then Inl UnsafeNumber
                    else bounds_loop n st' stack' depth r
                | Some (Other, st', stack', r) \<Rightarrow> bounds_loop n st' stack' depth r)))"

definition validateJSONBoundsAndNumbers :: "bytes \<Rightarrow> protocol_error + unit" where
  "validateJSONBoundsAndNumbers data =
     (if length data > MaxMessageBytes then Inl MessageTooLarge
      else bounds_loop (Suc (length data)) TopValue [] 0 data)"

subsection \<open>Keys\<close>

text \<open>The keys of the outermost object as they are written, without decoding escapes.\<close>

datatype raw_mode = Outside | Inside "bytes option" bool

fun raw_keys :: "int \<Rightarrow> bool \<Rightarrow> raw_mode \<Rightarrow> bytes \<Rightarrow> bytes list" where
  "raw_keys depth expecting mode [] = []"
| "raw_keys depth expecting (Inside key escaped) (c # s) =
     (if escaped then raw_keys depth expecting (Inside (map_option (\<lambda>k. k @ [c]) key) False) s
      else if c = BSL then raw_keys depth expecting (Inside (map_option (\<lambda>k. k @ [c]) key) True) s
      else if c = DQ then
        (case key of None \<Rightarrow> raw_keys depth expecting Outside s | Some k \<Rightarrow> k # raw_keys depth expecting Outside s)
      else raw_keys depth expecting (Inside (map_option (\<lambda>k. k @ [c]) key) False) s)"
| "raw_keys depth expecting Outside (c # s) =
     (if c = CHR ''{'' \<or> c = CHR ''['' then
        raw_keys (depth + 1) (if depth + 1 = 1 \<and> c = CHR ''{'' then True else expecting) Outside s
      else if c = CHR ''}'' \<or> c = CHR '']'' then raw_keys (depth - 1) expecting Outside s
      else if c = DQ then
        raw_keys depth expecting (Inside (if depth = 1 \<and> expecting then Some [] else None) False) s
      else if c = CHR '':'' then raw_keys depth (if depth = 1 then False else expecting) Outside s
      else if c = CHR '','' then raw_keys depth (if depth = 1 then True else expecting) Outside s
      else raw_keys depth expecting Outside s)"

definition rawTopLevelKeys :: "bytes \<Rightarrow> bytes list" where
  "rawTopLevelKeys data = raw_keys 0 False Outside data"

definition allowedEnvelopeFields :: "bytes list" where
  "allowedEnvelopeFields =
     [''protocolVersion'', ''gameId'', ''matchId'', ''revision'', ''expectedRevision'', ''type'', ''actionId'', ''payload'']"

text \<open>The members of the envelope, each with its value and the bytes of the value.\<close>

fun inspect_members ::
  "nat \<Rightarrow> (bytes \<times> json \<times> bytes) list \<Rightarrow> bytes \<Rightarrow> protocol_error + (bytes \<times> json \<times> bytes) list \<times> bytes" where
  "inspect_members 0 seen s = Inl InvalidJSON"
| "inspect_members (Suc n) seen s =
     (if take 1 s \<noteq> [DQ] then Inl InvalidJSON
      else case jstr (tl s) of
        None \<Rightarrow> Inl InvalidJSON
      | Some (k, r) \<Rightarrow>
          if k \<notin> set allowedEnvelopeFields \<or> k \<in> set (map fst seen) then Inl InvalidEnvelope
          else if take 1 (skip_ws r) \<noteq> '':'' then Inl InvalidJSON
          else let s' = skip_ws (tl (skip_ws r)) in
            (case jval (2 * length s') s' of
               None \<Rightarrow> Inl InvalidJSON
             | Some (v, r') \<Rightarrow>
                 let seen' = seen @ [(k, v, take (length s' - length r') s')] in
                 if take 1 (skip_ws r') = '','' then inspect_members n seen' (skip_ws (tl (skip_ws r')))
                 else if take 1 (skip_ws r') = ''}'' then Inr (seen', tl (skip_ws r'))
                 else Inl InvalidJSON))"

definition inspectEnvelopeJSON :: "bytes \<Rightarrow> protocol_error + (bytes \<times> json \<times> bytes) list" where
  "inspectEnvelopeJSON data =
     (let s = skip_ws data; t = skip_ws (tl s) in
      if take 1 s = ''{'' then
        and_then (if take 1 t = ''}'' then Inr ([], tl t) else inspect_members (length data) [] t) (\<lambda>(fields, r).
          if skip_ws r \<noteq> [] then Inl InvalidJSON
          else if rawTopLevelKeys data \<noteq> map fst fields then Inl InvalidEnvelope
          else Inr fields)
      else if take 1 s = ''['' \<or> jscalar s \<noteq> None then Inl InvalidEnvelope
      else Inl InvalidJSON)"

subsection \<open>Message types\<close>

definition TypePlatformConnect :: bytes where "TypePlatformConnect = ''platform.connect''"
definition TypePlatformConnected :: bytes where "TypePlatformConnected = ''platform.connected''"
definition TypePlatformPing :: bytes where "TypePlatformPing = ''platform.ping''"
definition TypePlatformPong :: bytes where "TypePlatformPong = ''platform.pong''"
definition TypePlatformPresenceChanged :: bytes where "TypePlatformPresenceChanged = ''platform.presence.changed''"
definition TypePlatformSnapshot :: bytes where "TypePlatformSnapshot = ''platform.snapshot''"
definition TypePlatformSnapshotRequested :: bytes where "TypePlatformSnapshotRequested = ''platform.snapshot.requested''"
definition TypePlatformError :: bytes where "TypePlatformError = ''platform.error''"
definition CapabilityPlayerPresence :: bytes where "CapabilityPlayerPresence = ''player_presence_v1''"
definition CapabilityFlightChessCaptureCounts :: bytes where
  "CapabilityFlightChessCaptureCounts = ''flight_chess_capture_counts_v1''"

lemmas platform_types = TypePlatformConnect_def TypePlatformConnected_def TypePlatformPing_def TypePlatformPong_def
  TypePlatformPresenceChanged_def TypePlatformSnapshot_def TypePlatformSnapshotRequested_def TypePlatformError_def

definition action_types :: "bytes list" where
  "action_types =
     [ChineseCheckers.MoveRequested, CheckersResignRequested, FlightChess.RollRequested, FlightChess.MoveRequested,
      FlightResignRequested, Reversi.MoveRequested, ReversiResignRequested, Gomoku.MoveRequested, GomokuResignRequested,
      Rps.ChoiceRequested, RpsResignRequested]"

definition isClientAction :: "bytes \<Rightarrow> bool" where
  "isClientAction t \<longleftrightarrow> t \<in> set action_types"

definition isRevisionlessControl :: "bytes \<Rightarrow> bool" where
  "isRevisionlessControl t \<longleftrightarrow> t \<in> {TypePlatformConnect, TypePlatformPong, TypePlatformSnapshotRequested}"

definition knownTypes :: "bytes list" where
  "knownTypes =
     [TypePlatformConnect, TypePlatformConnected, TypePlatformPing, TypePlatformPong, TypePlatformPresenceChanged,
      TypePlatformSnapshot, TypePlatformSnapshotRequested, TypePlatformError, TypeCancelled, TypeAbandoned,
      ChineseCheckers.MoveAccepted, CheckersResigned, FlightChess.RollAccepted, FlightChess.MoveAccepted, FlightResigned,
      Reversi.MoveAccepted, Gomoku.MoveAccepted, ReversiResigned, GomokuResigned, Rps.ChoiceLocked, Rps.RoundRevealed,
      RpsResigned] @ action_types"

subsection \<open>Envelopes\<close>

record Envelope =
  en_version :: int
  en_game :: bytes
  en_match :: bytes
  en_revision :: "int option"
  en_expected :: "int option"
  en_type :: bytes
  en_action :: bytes
  en_payload :: bytes

definition fail_unless :: "bool \<Rightarrow> protocol_error \<Rightarrow> protocol_error + unit" where
  "fail_unless b e = (if b then Inr () else Inl e)"

definition Validate :: "Envelope \<Rightarrow> protocol_error + unit" where
  "Validate e =
     (let t = en_type e; bare = en_game e = '''' \<and> en_match e = '''' in
      if en_version e \<noteq> Version1 then Inl UnsupportedVersion
      else if t = '''' then Inl InvalidEnvelope
      else if t \<notin> set knownTypes then Inl InvalidEnvelope
      else if en_revision e \<noteq> None \<and> en_expected e \<noteq> None then Inl InvalidEnvelope
      else if (case en_revision e of None \<Rightarrow> False | Some r \<Rightarrow> r < 0) then Inl InvalidEnvelope
      else if (case en_revision e of None \<Rightarrow> False | Some r \<Rightarrow> r > maxSafeJSONInteger) then Inl UnsafeNumber
      else if (case en_expected e of None \<Rightarrow> False | Some r \<Rightarrow> r < 0) then Inl InvalidEnvelope
      else if (case en_expected e of None \<Rightarrow> False | Some r \<Rightarrow> r > maxSafeJSONInteger) then Inl UnsafeNumber
      else if length (en_payload e) = 0 \<or> json_parse (en_payload e) = Some JNull then Inl InvalidEnvelope
      else if (case json_parse (en_payload e) of Some (JObj _) \<Rightarrow> False | _ \<Rightarrow> True) then Inl InvalidEnvelope
      else if (if t = TypePlatformConnect then en_game e \<noteq> '''' \<or> en_match e \<noteq> ''''
               else if t = TypePlatformError \<and> bare then False
               else en_game e = '''' \<or> en_match e = '''') then Inl InvalidEnvelope
      else if isClientAction t then
        fail_unless (en_action e \<noteq> '''' \<and> en_expected e \<noteq> None \<and> en_revision e = None) InvalidEnvelope
      else if isRevisionlessControl t then
        fail_unless (en_revision e = None \<and> en_expected e = None \<and> en_action e = '''') InvalidEnvelope
      else if t = TypePlatformError \<and> bare then
        fail_unless (en_revision e = None \<and> en_expected e = None \<and> en_action e = '''') InvalidEnvelope
      else fail_unless (en_revision e \<noteq> None \<and> en_expected e = None) InvalidEnvelope)"

text \<open>\<open>json.Unmarshal\<close> into the envelope, whose keys have been inspected.\<close>

definition field_of :: "(bytes \<times> json \<times> bytes) list \<Rightarrow> bytes \<Rightarrow> (json \<Rightarrow> 'a \<Rightarrow> 'a option) \<Rightarrow> 'a \<Rightarrow> 'a option" where
  "field_of kvs k d zero = (case map_of kvs k of None \<Rightarrow> Some zero | Some (v, _) \<Rightarrow> d v zero)"

definition unmarshal_envelope :: "(bytes \<times> json \<times> bytes) list \<Rightarrow> Envelope option" where
  "unmarshal_envelope kvs = do {
     version \<leftarrow> field_of kvs ''protocolVersion'' dec_int 0;
     game \<leftarrow> field_of kvs ''gameId'' dec_string '''';
     mat \<leftarrow> field_of kvs ''matchId'' dec_string '''';
     revision \<leftarrow> field_of kvs ''revision'' (dec_ptr dec_int 0) None;
     expected \<leftarrow> field_of kvs ''expectedRevision'' (dec_ptr dec_int 0) None;
     ty \<leftarrow> field_of kvs ''type'' dec_string '''';
     act \<leftarrow> field_of kvs ''actionId'' dec_string '''';
     Some \<lparr>en_version = version, en_game = game, en_match = mat, en_revision = revision, en_expected = expected,
       en_type = ty, en_action = act,
       en_payload = (case map_of kvs ''payload'' of None \<Rightarrow> '''' | Some (_, raw) \<Rightarrow> raw)\<rparr> }"

definition nonempty_string :: "json \<Rightarrow> bool" where
  "nonempty_string v \<longleftrightarrow> (case v of JStr s \<Rightarrow> s \<noteq> '''' | _ \<Rightarrow> False)"

definition validateEnvelopePresence :: "Envelope \<Rightarrow> (bytes \<times> json \<times> bytes) list \<Rightarrow> protocol_error + unit" where
  "validateEnvelopePresence e kvs =
     (let val = (\<lambda>k. map_option fst (map_of kvs k)) in
      if \<not> list_all (\<lambda>k. val k \<noteq> None) [''protocolVersion'', ''type'', ''payload''] then Inl InvalidEnvelope
      else if list_ex (\<lambda>k. val k = Some JNull) [''gameId'', ''matchId'', ''revision'', ''expectedRevision'', ''actionId'']
      then Inl InvalidEnvelope
      else if \<not> list_all (\<lambda>k. case val k of None \<Rightarrow> True | Some v \<Rightarrow> nonempty_string v) [''gameId'', ''matchId'', ''actionId'']
      then Inl InvalidEnvelope
      else if (val ''gameId'' \<noteq> None) \<noteq> (val ''matchId'' \<noteq> None) then Inl InvalidEnvelope
      else if en_type e = TypePlatformConnect \<and> val ''gameId'' \<noteq> None then Inl InvalidEnvelope
      else Inr ())"

definition Decode :: "bytes \<Rightarrow> protocol_error + Envelope" where
  "Decode data =
     and_then (validateJSONBoundsAndNumbers data) (\<lambda>_.
     and_then (inspectEnvelopeJSON data) (\<lambda>kvs.
     and_then (or_fail (unmarshal_envelope kvs) InvalidJSON) (\<lambda>e.
     and_then (validateEnvelopePresence e kvs) (\<lambda>_.
     and_then (Validate e) (\<lambda>_. Inr e)))))"

subsection \<open>Payloads\<close>

definition exactPayloadFields :: "bytes \<Rightarrow> bytes list \<Rightarrow> (bytes \<times> bytes) list option" where
  "exactPayloadFields data allowed =
     (case strict_object allowed data of
        None \<Rightarrow> None
      | Some kvs \<Rightarrow> if rawTopLevelKeys data \<noteq> map fst kvs then None else Some kvs)"

definition strictInteger :: "bytes \<Rightarrow> int option" where
  "strictInteger raw =
     (if length raw = 0 \<or> length raw > 32 \<or> \<not> plain_integer raw then None
      else case parse_i64 raw of
        None \<Rightarrow> None
      | Some v \<Rightarrow> if v < - maxSafeJSONInteger \<or> v > maxSafeJSONInteger then None else Some v)"

definition strictNonnegativeInt64 :: "bytes \<Rightarrow> int option" where
  "strictNonnegativeInt64 raw =
     (case strictInteger raw of None \<Rightarrow> None | Some v \<Rightarrow> if v < 0 then None else Some v)"

definition chineseCheckersBoardCells :: int where "chineseCheckersBoardCells = 121"

definition path_cell :: "bytes \<Rightarrow> int option" where
  "path_cell raw =
     (case strictInteger raw of
        None \<Rightarrow> None | Some v \<Rightarrow> if v < 0 \<or> v \<ge> chineseCheckersBoardCells then None else Some v)"

definition validateChineseCheckersPath :: "bytes \<Rightarrow> bool" where
  "validateChineseCheckersPath raw \<longleftrightarrow>
     (case strict_array (nat chineseCheckersBoardCells) path_cell raw of
        None \<Rightarrow> False | Some path \<Rightarrow> distinct path \<and> length path \<ge> 2)"

definition game_of_type :: "bytes \<Rightarrow> bytes" where
  "game_of_type t =
     (if t = ChineseCheckers.MoveRequested \<or> t = CheckersResignRequested then ''chinese_checkers''
      else if t = FlightChess.RollRequested \<or> t = FlightChess.MoveRequested \<or> t = FlightResignRequested then ''flight_chess''
      else if t = Reversi.MoveRequested \<or> t = ReversiResignRequested then ''reversi''
      else if t = Gomoku.MoveRequested \<or> t = GomokuResignRequested then ''gomoku''
      else if t = Rps.ChoiceRequested \<or> t = RpsResignRequested then ''rps'' else '''')"

definition validateClientBinding :: "uuid_parser \<Rightarrow> Envelope \<Rightarrow> bool \<Rightarrow> protocol_error + unit" where
  "validateClientBinding parse e action =
     (let g = game_of_type (en_type e) in
      if g \<noteq> '''' \<and> en_game e \<noteq> g \<or>
         g = '''' \<and> en_game e \<notin> {''chinese_checkers'', ''flight_chess'', ''gomoku'', ''rps'', ''reversi''} \<or>
         \<not> canonicalUUID parse (en_match e) then Inl InvalidEnvelope
      else if action \<and> \<not> canonicalUUID parse (en_action e) then Inl InvalidEnvelope
      else Inr ())"

definition valid_token :: "bytes \<Rightarrow> bool" where
  "valid_token raw \<longleftrightarrow>
     (case unmarshal dec_string '''' raw of
        None \<Rightarrow> False | Some s \<Rightarrow> s \<noteq> '''' \<and> length s \<le> 256 \<and> utf8_valid s)"

definition valid_capabilities :: "bytes \<Rightarrow> bool" where
  "valid_capabilities raw \<longleftrightarrow>
     (case unmarshal (dec_slice dec_string '''') [] raw of
        None \<Rightarrow> False
      | Some cs \<Rightarrow> 1 \<le> length cs \<and> length cs \<le> 2 \<and> distinct cs \<and>
          set cs \<subseteq> {CapabilityPlayerPresence, CapabilityFlightChessCaptureCounts})"

definition valid_connect :: "bytes \<Rightarrow> bool" where
  "valid_connect payload \<longleftrightarrow>
     (case exactPayloadFields payload [''launchTicket'', ''resumeToken'', ''capabilities''] of
        None \<Rightarrow> False
      | Some fs \<Rightarrow>
          let secrets = List.map_filter (map_of fs) [''launchTicket'', ''resumeToken''] in
          1 \<le> length fs \<and> length fs \<le> 2 \<and> list_all valid_token secrets \<and> length secrets = 1 \<and>
          (case map_of fs ''capabilities'' of None \<Rightarrow> True | Some raw \<Rightarrow> valid_capabilities raw))"

text \<open>What the payload of each type of a client message must be.\<close>

definition single_field :: "bytes \<Rightarrow> bytes \<Rightarrow> (bytes \<Rightarrow> bool) \<Rightarrow> bool" where
  "single_field payload k ok \<longleftrightarrow>
     (case exactPayloadFields payload [k] of
        None \<Rightarrow> False
      | Some fs \<Rightarrow> length fs = 1 \<and> (case map_of fs k of None \<Rightarrow> False | Some raw \<Rightarrow> ok raw))"

definition valid_payload :: "uuid_parser \<Rightarrow> bytes \<Rightarrow> bytes \<Rightarrow> bool" where
  "valid_payload parse t payload \<longleftrightarrow>
     (if t = TypePlatformPong then
        single_field payload ''nonce''
          (\<lambda>raw. case unmarshal dec_string '''' raw of None \<Rightarrow> False | Some s \<Rightarrow> canonicalUUID parse s)
      else if t = TypePlatformSnapshotRequested then
        single_field payload ''currentRevision'' (\<lambda>raw. strictNonnegativeInt64 raw \<noteq> None)
      else if t = Gomoku.MoveRequested \<or> t = Reversi.MoveRequested then
        (case exactPayloadFields payload [''x'', ''y''] of
           None \<Rightarrow> False
         | Some fs \<Rightarrow> length fs = 2 \<and>
             (case (map_of fs ''x'', map_of fs ''y'') of
                (Some x, Some y) \<Rightarrow> strictInteger x \<noteq> None \<and> strictInteger y \<noteq> None | _ \<Rightarrow> False))
      else if t = ChineseCheckers.MoveRequested then single_field payload ''path'' validateChineseCheckersPath
      else if t = FlightChess.MoveRequested then
        single_field payload ''pieceIndex'' (\<lambda>raw. case strictInteger raw of None \<Rightarrow> False | Some i \<Rightarrow> 0 \<le> i \<and> i < 4)
      else if t = Rps.ChoiceRequested then
        single_field payload ''choice'' (\<lambda>raw. case unmarshal dec_string '''' raw of
            None \<Rightarrow> False | Some c \<Rightarrow> c = ''rock'' \<or> c = ''paper'' \<or> c = ''scissors'')
      else exactPayloadFields payload [] = Some [])"

definition validateClientMessage :: "uuid_parser \<Rightarrow> Envelope \<Rightarrow> protocol_error + unit" where
  "validateClientMessage parse e =
     (let t = en_type e in
      if t = TypePlatformConnect then fail_unless (valid_connect (en_payload e)) InvalidEnvelope
      else if t = TypePlatformPong \<or> t = TypePlatformSnapshotRequested then
        and_then (fail_unless (valid_payload parse t (en_payload e)) InvalidEnvelope) (\<lambda>_. validateClientBinding parse e False)
      else if isClientAction t then
        and_then (validateClientBinding parse e True) (\<lambda>_. fail_unless (valid_payload parse t (en_payload e)) InvalidEnvelope)
      else Inl InvalidEnvelope)"

definition DecodeClient :: "uuid_parser \<Rightarrow> bytes \<Rightarrow> protocol_error + Envelope" where
  "DecodeClient parse data =
     and_then (Decode data) (\<lambda>e. and_then (validateClientMessage parse e) (\<lambda>_. Inr e))"

text \<open>The request that the hub (\<open>matches/hub.go\<close>) makes of an action on a connection.\<close>

definition hub_request :: "bytes \<Rightarrow> bytes \<Rightarrow> Envelope \<Rightarrow> ActionRequest" where
  "hub_request i user e =
     \<lparr>rq_match = i, rq_actor = user, rq_action = en_action e, rq_revision = the (en_expected e), rq_type = en_type e,
      rq_payload = en_payload e\<rparr>"

end
