(* ===== verification/Hub.thy ===== *)
theory Hub
  imports MatchLog
begin

text \<open>
  The fan-out of events to the connections of a match (\<open>server/internal/matches/hub.go\<close>). Events are committed
  in order but published by goroutines that may overtake each other, and connections come and go in
  between. The hub keeps for each match the revision up to which it has published and the events that came too early;
  a connection gets events only after it got a snapshot. Each operation below runs under the lock
  of the hub or the outbound lock of a connection. A match without connections is one that the hub
  does not have. Of a message only its kind and its revision
  are kept, not its JSON. A connection that the code closes after the lock is released is marked as closing.
\<close>

subsection \<open>Connections\<close>

datatype outbound =
    ConnectedMessage int
  | SnapshotMessage int
  | EventMessage int
  | PresenceMessage bytes bool int
  | ErrorMessage bytes bytes int

datatype enqueueStateResult = Queued | Stale | Full | Invalid

definition webSocketSendQueueSize :: nat where "webSocketSendQueueSize = 32"
definition webSocketPendingLimit :: nat where "webSocketPendingLimit = 32"

text \<open>
  \<open>co_out\<close> has all messages that were ever put into the channel \<open>send\<close>, and \<open>co_taken\<close> of them
  have left it.
\<close>

record hubConnection =
  co_id :: nat
  co_user :: bytes
  co_epoch :: bytes
  co_ready :: bool
  co_pending :: "int list"
  co_presence :: "(bytes \<times> bool) list"
  co_presence_enabled :: bool
  co_revision :: int
  co_out :: "outbound list"
  co_taken :: nat
  co_closing :: bool

definition free_slots :: "hubConnection \<Rightarrow> nat" where
  "free_slots c = webSocketSendQueueSize - (length (co_out c) - co_taken c)"

definition enqueue :: "outbound \<Rightarrow> hubConnection \<Rightarrow> hubConnection option" where
  "enqueue m c = (if free_slots c > 0 then Some (c\<lparr>co_out := co_out c @ [m]\<rparr>) else None)"

definition enqueueStateLocked :: "outbound \<Rightarrow> int \<Rightarrow> hubConnection \<Rightarrow> enqueueStateResult \<times> hubConnection" where
  "enqueueStateLocked m r c =
     (if r < 0 then (Invalid, c)
      else if r < co_revision c then (Stale, c)
      else case enqueue m c of
        None \<Rightarrow> (Full, c)
      | Some c' \<Rightarrow> (Queued, if r > co_revision c then c'\<lparr>co_revision := r\<rparr> else c'))"

text \<open>\<open>made\<close> says that the snapshot could be projected for the client.\<close>

definition enqueueState :: "bool \<Rightarrow> int \<Rightarrow> hubConnection \<Rightarrow> enqueueStateResult \<times> hubConnection" where
  "enqueueState made r c = (if \<not> made then (Invalid, c) else enqueueStateLocked (SnapshotMessage r) r c)"

definition enqueueEvent :: "int \<Rightarrow> hubConnection \<Rightarrow> enqueueStateResult \<times> hubConnection" where
  "enqueueEvent r c =
     (if r \<le> 0 then (Invalid, c)
      else if r \<le> co_revision c then (Stale, c)
      else enqueueStateLocked (EventMessage r) r c)"

definition enqueueInitial :: "bool \<Rightarrow> int \<Rightarrow> hubConnection \<Rightarrow> hubConnection option" where
  "enqueueInitial made r c =
     (if \<not> made \<or> r < 0 \<or> free_slots c < 2 then None
      else Some (c\<lparr>co_out := co_out c @ [ConnectedMessage r, SnapshotMessage r], co_revision := r\<rparr>))"

definition enqueueErrorAndSnapshot :: "bool \<Rightarrow> bytes \<Rightarrow> bytes \<Rightarrow> int \<Rightarrow> hubConnection \<Rightarrow> enqueueStateResult \<times> hubConnection" where
  "enqueueErrorAndSnapshot made code act r c =
     (if \<not> made then (Invalid, c)
      else if r < co_revision c then (Stale, c)
      else if free_slots c < 2 then (Full, c)
      else (Queued, c\<lparr>co_out := co_out c @ [ErrorMessage code act r, SnapshotMessage r],
          co_revision := (if r > co_revision c then r else co_revision c)\<rparr>))"

definition enqueuePresence :: "bytes \<Rightarrow> bool \<Rightarrow> hubConnection \<Rightarrow> hubConnection option" where
  "enqueuePresence user online c = enqueue (PresenceMessage user online (co_revision c)) c"

definition enqueueError :: "bytes \<Rightarrow> bytes \<Rightarrow> hubConnection \<Rightarrow> hubConnection" where
  "enqueueError code act c =
     (case enqueue (ErrorMessage code act (co_revision c)) c of None \<Rightarrow> c\<lparr>co_closing := True\<rparr> | Some c' \<Rightarrow> c')"

text \<open>One attempt of \<open>sendLatestSnapshot\<close> and of \<open>sendStaleResponse\<close> with a snapshot of revision \<open>r\<close>.\<close>

definition closed_unless_sent :: "enqueueStateResult \<times> hubConnection \<Rightarrow> hubConnection" where
  "closed_unless_sent p = (if fst p = Queued \<or> fst p = Stale then snd p else (snd p)\<lparr>co_closing := True\<rparr>)"

definition latest_attempt :: "bool \<Rightarrow> int \<Rightarrow> hubConnection \<Rightarrow> hubConnection" where
  "latest_attempt made r c = closed_unless_sent (enqueueState made r c)"

definition stale_attempt :: "bool \<Rightarrow> bytes \<Rightarrow> int \<Rightarrow> hubConnection \<Rightarrow> hubConnection" where
  "stale_attempt made act r c = closed_unless_sent (enqueueErrorAndSnapshot made ''stale_revision'' act r c)"

subsection \<open>Matches\<close>

record hubMatch =
  hm_connections :: "hubConnection list"
  hm_published :: int
  hm_pending :: "int list"

definition new_match :: hubMatch where
  "new_match = \<lparr>hm_connections = [], hm_published = 0, hm_pending = []\<rparr>"

definition new_connection :: "nat \<Rightarrow> bytes \<Rightarrow> bytes \<Rightarrow> bool \<Rightarrow> hubConnection" where
  "new_connection i user epoch presence =
     \<lparr>co_id = i, co_user = user, co_epoch = epoch, co_ready = False, co_pending = [], co_presence = [], co_presence_enabled = presence,
      co_revision = 0, co_out = [], co_taken = 0, co_closing = False\<rparr>"

text \<open>The older connections of the user are closed.\<close>

definition register :: "nat \<Rightarrow> bytes \<Rightarrow> bytes \<Rightarrow> bool \<Rightarrow> hubMatch \<Rightarrow> hubMatch" where
  "register i user epoch presence m =
     m\<lparr>hm_connections := map (\<lambda>c. if co_user c = user then c\<lparr>co_closing := True\<rparr> else c) (hm_connections m) @
        [new_connection i user epoch presence]\<rparr>"

text \<open>With its last connection the match is forgotten.\<close>

definition close_connection :: "nat \<Rightarrow> hubMatch \<Rightarrow> hubMatch" where
  "close_connection i m =
     (let cs = filter (\<lambda>c. co_id c \<noteq> i) (hm_connections m) in
      if cs = [] then new_match else m\<lparr>hm_connections := cs\<rparr>)"

definition deliver :: "int \<Rightarrow> hubConnection \<Rightarrow> hubConnection" where
  "deliver r c =
     (if co_ready c then
        (let (result, c') = enqueueEvent r c in
         if result = Full \<or> result = Invalid then c'\<lparr>co_closing := True\<rparr> else c')
      else if length (co_pending c) \<ge> webSocketPendingLimit then c\<lparr>co_closing := True\<rparr>
      else c\<lparr>co_pending := co_pending c @ [r]\<rparr>)"

definition publish_next :: "hubMatch \<Rightarrow> hubMatch" where
  "publish_next m =
     (let r = hm_published m + 1 in
      m\<lparr>hm_connections := map (deliver r) (hm_connections m), hm_published := r, hm_pending := filter (\<lambda>x. x \<noteq> r) (hm_pending m)\<rparr>)"

function flushPublishedLocked :: "hubMatch \<Rightarrow> hubMatch" where
  "flushPublishedLocked m =
     (if hm_published m + 1 \<in> set (hm_pending m) then flushPublishedLocked (publish_next m) else m)"
  by pat_completeness auto
termination
proof (relation "measure (\<lambda>m. length (hm_pending m))")
  fix m :: hubMatch
  assume "hm_published m + 1 \<in> set (hm_pending m)"
  then have "length (filter (\<lambda>x. x \<noteq> hm_published m + 1) (hm_pending m)) < length (hm_pending m)"
    by (intro length_filter_less [where x = "hm_published m + 1"]) simp_all
  then show "(publish_next m, m) \<in> measure (\<lambda>m. length (hm_pending m))" by (simp add: publish_next_def Let_def)
qed simp

declare flushPublishedLocked.simps [simp del]

definition Publish :: "bytes \<Rightarrow> int \<Rightarrow> hubMatch \<Rightarrow> hubMatch" where
  "Publish g r m =
     (if r \<le> 0 \<or> hm_connections m = [] \<or> r > maximumMatchEventsFor g \<or> r \<le> hm_published m then m
      else flushPublishedLocked (m\<lparr>hm_pending := (if r \<in> set (hm_pending m) then hm_pending m else hm_pending m @ [r])\<rparr>))"

text \<open>The connections that are ready but have not seen the snapshot get it. \<open>made u\<close> says that it was made for \<open>u\<close>.\<close>

definition resnapshot :: "nat \<Rightarrow> int \<Rightarrow> (bytes \<Rightarrow> bool) \<Rightarrow> hubConnection \<Rightarrow> hubConnection" where
  "resnapshot i r made c =
     (if co_id c = i \<or> \<not> co_ready c \<or> co_revision c \<ge> r then c
      else let (result, c') = enqueueState (made (co_user c)) r c in
        if result = Full \<or> result = Invalid then c'\<lparr>co_ready := False, co_closing := True\<rparr> else c')"

fun catch_up :: "int list \<Rightarrow> hubConnection \<Rightarrow> bool \<times> hubConnection" where
  "catch_up [] c = (True, c)"
| "catch_up (r # rs) c =
     (let (result, c') = enqueueEvent r c in
      if result = Full \<or> result = Invalid then (False, c') else catch_up rs c')"

fun send_presences :: "(bytes \<times> bool) list \<Rightarrow> hubConnection \<Rightarrow> bool \<times> hubConnection" where
  "send_presences [] c = (True, c)"
| "send_presences ((u, online) # ps) c =
     (case enqueuePresence u online c of None \<Rightarrow> (False, c) | Some c' \<Rightarrow> send_presences ps c')"

definition become_ready :: "int \<Rightarrow> hubConnection \<Rightarrow> hubConnection" where
  "become_ready r c =
     (let (queued, c1) = catch_up (filter (\<lambda>x. x > r) (co_pending c)) c;
          (queued', c2) = (if queued then send_presences (sort_key fst (co_presence c)) c1 else (False, c1)) in
      c2\<lparr>co_pending := [], co_presence := [], co_ready := queued', co_closing := co_closing c2 \<or> \<not> queued'\<rparr>)"

definition update_connection :: "nat \<Rightarrow> (hubConnection \<Rightarrow> hubConnection) \<Rightarrow> hubMatch \<Rightarrow> hubMatch" where
  "update_connection i f m =
     m\<lparr>hm_connections := map (\<lambda>c. if co_id c = i then f c else c) (hm_connections m)\<rparr>"

text \<open>\<open>None\<close> when the snapshot is older than what was published, and has to be read again.\<close>

definition markReady :: "nat \<Rightarrow> int \<Rightarrow> (bytes \<Rightarrow> bool) \<Rightarrow> hubMatch \<Rightarrow> hubMatch option" where
  "markReady i r made m =
     (if hm_connections m = [] then Some m
      else if r < hm_published m then None
      else let m1 = (if r > hm_published m
                     then m\<lparr>hm_connections := map (resnapshot i r made) (hm_connections m), hm_published := r\<rparr> else m);
               m2 = m1\<lparr>hm_pending := filter (\<lambda>x. x > r) (hm_pending m1)\<rparr> in
        Some (update_connection i (become_ready r) (flushPublishedLocked m2)))"

text \<open>A connection that is not ready keeps the last state of each player.\<close>

definition presence_put :: "bytes \<Rightarrow> bool \<Rightarrow> (bytes \<times> bool) list \<Rightarrow> (bytes \<times> bool) list" where
  "presence_put u online ps = (u, online) # filter (\<lambda>p. fst p \<noteq> u) ps"

definition tell_presence :: "bytes \<Rightarrow> bool \<Rightarrow> hubConnection \<Rightarrow> hubConnection" where
  "tell_presence u online c =
     (if \<not> co_presence_enabled c then c
      else if \<not> co_ready c then c\<lparr>co_presence := presence_put u online (co_presence c)\<rparr>
      else case enqueuePresence u online c of
        None \<Rightarrow> c\<lparr>co_ready := False, co_closing := True\<rparr>
      | Some c' \<Rightarrow> c')"

definition playerPresenceChanged :: "bytes \<Rightarrow> bool \<Rightarrow> hubMatch \<Rightarrow> hubMatch" where
  "playerPresenceChanged u online m =
     (if u = '''' then m else m\<lparr>hm_connections := map (tell_presence u online) (hm_connections m)\<rparr>)"

text \<open>The writer of a connection takes a message out of the channel.\<close>

definition take_message :: "hubConnection \<Rightarrow> hubConnection" where
  "take_message c = (if co_taken c < length (co_out c) then c\<lparr>co_taken := co_taken c + 1\<rparr> else c)"

subsection \<open>Steps\<close>

text \<open>
  A connection is registered, gets its first snapshot, perhaps later ones, and becomes ready with
  the last of them; only then it is read from. A connection that was closed in the meantime may still
  go on to be marked as ready (\<open>ready_late\<close>). The snapshots and the events come in any order.
\<close>

inductive hub_step :: "bytes \<Rightarrow> hubMatch \<Rightarrow> hubMatch \<Rightarrow> bool" for g where
  register: "i \<notin> co_id ` set (hm_connections m) \<Longrightarrow> hub_step g m (register i user epoch presence m)"
| initial: "c \<in> set (hm_connections m) \<Longrightarrow> co_out c = [] \<Longrightarrow> enqueueInitial made r c = Some c' \<Longrightarrow>
    hub_step g m (update_connection (co_id c) (\<lambda>_. c') m)"
| again: "c \<in> set (hm_connections m) \<Longrightarrow> co_out c \<noteq> [] \<Longrightarrow> \<not> co_ready c \<Longrightarrow> enqueueState made r c = (Queued, c') \<Longrightarrow>
    hub_step g m (update_connection (co_id c) (\<lambda>_. c') m)"
| ready: "c \<in> set (hm_connections m) \<Longrightarrow> co_out c \<noteq> [] \<Longrightarrow> \<not> co_ready c \<Longrightarrow> markReady (co_id c) (co_revision c) made' m = Some m' \<Longrightarrow>
    hub_step g m m'"
| ready_late: "i \<notin> co_id ` set (hm_connections m) \<Longrightarrow> markReady i r made' m = Some m' \<Longrightarrow> hub_step g m m'"
| event: "hub_step g m (Publish g r m)"
| latest: "c \<in> set (hm_connections m) \<Longrightarrow> co_ready c \<or> co_closing c \<Longrightarrow>
    hub_step g m (update_connection (co_id c) (latest_attempt made r) m)"
| outdated: "c \<in> set (hm_connections m) \<Longrightarrow> co_ready c \<or> co_closing c \<Longrightarrow>
    hub_step g m (update_connection (co_id c) (stale_attempt made act r) m)"
| refused: "hub_step g m (update_connection i (enqueueError code act) m)"
| presence: "hub_step g m (playerPresenceChanged u online m)"
| written: "hub_step g m (update_connection i take_message m)"
| failed: "hub_step g m (update_connection i (\<lambda>c. c\<lparr>co_closing := True\<rparr>) m)"
| gone: "hub_step g m (close_connection i m)"

inductive hub_run :: "bytes \<Rightarrow> hubMatch \<Rightarrow> bool" for g where
  hub_new: "hub_run g new_match"
| hub_further: "hub_run g m \<Longrightarrow> hub_step g m m' \<Longrightarrow> hub_run g m'"

subsection \<open>What a client sees\<close>

text \<open>
  \<open>follows r ms\<close>: to a client that knows revision \<open>r\<close>, every event in \<open>ms\<close> is the next one, and no
  snapshot takes it back. \<open>known r ms\<close> is the revision that it knows in the end.
\<close>

fun follows :: "int \<Rightarrow> outbound list \<Rightarrow> bool" where
  "follows r [] \<longleftrightarrow> True"
| "follows r (EventMessage n # ms) \<longleftrightarrow> n = r + 1 \<and> follows n ms"
| "follows r (SnapshotMessage n # ms) \<longleftrightarrow> r \<le> n \<and> follows n ms"
| "follows r (_ # ms) \<longleftrightarrow> follows r ms"

fun known :: "int \<Rightarrow> outbound list \<Rightarrow> int" where
  "known r [] = r"
| "known r (EventMessage n # ms) = known n ms"
| "known r (SnapshotMessage n # ms) = known n ms"
| "known r (_ # ms) = known r ms"

end
