(* ===== verification/HubOrder.thy ===== *)
theory HubOrder
  imports Hub
begin

text \<open>
  What the clients of a match see, in every run of the hub: no connection that stays open misses an event, and the
  order in which the events are published does not matter.
\<close>

subsection \<open>Messages\<close>

lemma follows_append [simp]: "follows r (xs @ ys) \<longleftrightarrow> follows r xs \<and> follows (known r xs) ys"
  by (induction r xs rule: follows.induct) auto

lemma known_append [simp]: "known r (xs @ ys) = known (known r xs) ys"
  by (induction r xs rule: follows.induct) auto

text \<open>A connection that stays open: what it sent is in order up to its revision, and once it is ready it is up to date.\<close>

definition sent_ok :: "hubConnection \<Rightarrow> bool" where
  "sent_ok c \<longleftrightarrow> follows 0 (co_out c) \<and> known 0 (co_out c) = co_revision c"

definition conn_ok :: "int \<Rightarrow> hubConnection \<Rightarrow> bool" where
  "conn_ok p c \<longleftrightarrow> (\<forall>r\<in>set (co_pending c). r \<le> p) \<and> (co_closing c \<or> sent_ok c \<and> (co_ready c \<longrightarrow> p \<le> co_revision c))"

definition hub_ok :: "hubMatch \<Rightarrow> bool" where
  "hub_ok m \<longleftrightarrow> distinct (map co_id (hm_connections m)) \<and> 0 \<le> hm_published m \<and>
     (\<forall>c\<in>set (hm_connections m). conn_ok (hm_published m) c)"

lemma hub_okI:
  "distinct (map co_id (hm_connections m)) \<Longrightarrow> 0 \<le> hm_published m \<Longrightarrow>
   (\<And>c. c \<in> set (hm_connections m) \<Longrightarrow> conn_ok (hm_published m) c) \<Longrightarrow> hub_ok m"
  by (simp add: hub_ok_def)

lemma conn_ok_closing: "conn_ok p c \<Longrightarrow> conn_ok p (c\<lparr>co_closing := True\<rparr>)"
  by (simp add: conn_ok_def)

text \<open>A connection moves on without a gap.\<close>

definition moves :: "hubConnection \<Rightarrow> hubConnection \<Rightarrow> bool" where
  "moves c c' \<longleftrightarrow> (sent_ok c \<longrightarrow> sent_ok c') \<and> co_revision c \<le> co_revision c' \<and> co_id c' = co_id c \<and>
     co_ready c' = co_ready c \<and> co_pending c' = co_pending c \<and> co_closing c' = co_closing c \<and> co_presence c' = co_presence c"

lemma moves_refl [simp]: "moves c c"
  by (simp add: moves_def)

lemma moves_trans: "moves a b \<Longrightarrow> moves b c \<Longrightarrow> moves a c"
  by (auto simp: moves_def)

lemma moves_ok: "moves c c' \<Longrightarrow> conn_ok p c \<Longrightarrow> conn_ok p c'"
  by (auto simp: moves_def conn_ok_def)

lemma moves_id: "moves c c' \<Longrightarrow> co_id c' = co_id c"
  by (simp add: moves_def)

lemma moves_state: "enqueueState made r c = (result, c') \<Longrightarrow> moves c c' \<and> (result = Queued \<longrightarrow> co_revision c' = r)"
  by (auto simp: enqueueState_def enqueueStateLocked_def enqueue_def moves_def sent_ok_def split: if_splits option.splits)

lemma state_stale: "enqueueState made r c = (Stale, c') \<Longrightarrow> r < co_revision c"
  by (auto simp: enqueueState_def enqueueStateLocked_def split: if_splits option.splits)

lemma moves_presence: "enqueuePresence u online c = Some c' \<Longrightarrow> moves c c' \<and> co_revision c' = co_revision c"
  by (auto simp: enqueuePresence_def enqueue_def moves_def sent_ok_def split: if_splits)

lemma moves_stale_response: "enqueueErrorAndSnapshot made code act r c = (result, c') \<Longrightarrow> moves c c'"
  by (auto simp: enqueueErrorAndSnapshot_def moves_def sent_ok_def split: if_splits)

text \<open>The next event, to a connection that knows the one before.\<close>

lemma event_next:
  assumes "enqueueEvent (p + 1) c = (result, c')" "p \<le> co_revision c" "0 \<le> p"
  shows "moves c c' \<and> (result = Full \<or> result = Invalid \<or> p + 1 \<le> co_revision c')"
proof (cases "p + 1 \<le> co_revision c")
  case True
  then show ?thesis using assms by (auto simp: enqueueEvent_def)
next
  case False
  then have "co_revision c = p" using assms(2) by simp
  then show ?thesis using assms(1,3)
    by (auto simp: enqueueEvent_def enqueueStateLocked_def enqueue_def moves_def sent_ok_def split: if_splits option.splits)
qed

lemma deliver_fields [simp]: "co_id (deliver r c) = co_id c" "co_ready (deliver r c) = co_ready c"
  "\<not> co_ready c \<Longrightarrow> co_revision (deliver r c) = co_revision c" "\<not> co_ready c \<Longrightarrow> co_out (deliver r c) = co_out c"
  "co_closing c \<Longrightarrow> co_closing (deliver r c)"
  by (auto simp: deliver_def Let_def enqueueEvent_def enqueueStateLocked_def enqueue_def split: prod.splits option.splits)

lemma deliver_ok:
  assumes "conn_ok p c" "0 \<le> p"
  shows "conn_ok (p + 1) (deliver (p + 1) c)"
proof (cases "co_ready c")
  case True
  obtain result c' where e: "enqueueEvent (p + 1) c = (result, c')" by fastforce
  show ?thesis
  proof (cases "co_closing c")
    case closing: True
    have "co_closing c' \<and> co_pending c' = co_pending c" using e closing
      by (auto simp: enqueueEvent_def enqueueStateLocked_def enqueue_def split: if_splits option.splits)
    then show ?thesis using assms(1) True e by (auto simp: conn_ok_def deliver_def Let_def)
  next
    case False
    then have "p \<le> co_revision c" using assms(1) True by (simp add: conn_ok_def)
    from event_next [OF e this assms(2)] show ?thesis
      using assms(1) True False e by (auto simp: conn_ok_def deliver_def Let_def moves_def)
  qed
next
  case False
  then show ?thesis using assms(1) by (auto simp: conn_ok_def deliver_def sent_ok_def)
qed

lemma publish_next_fields [simp]: "hm_published (publish_next m) = hm_published m + 1"
  "hm_connections (publish_next m) = map (deliver (hm_published m + 1)) (hm_connections m)"
  "hm_pending (publish_next m) = filter (\<lambda>x. x \<noteq> hm_published m + 1) (hm_pending m)"
  by (simp_all add: publish_next_def Let_def)

lemma publish_next_ok: "hub_ok m \<Longrightarrow> hub_ok (publish_next m)"
  by (auto simp: hub_ok_def comp_def intro!: deliver_ok)

lemma flush_ok: "hub_ok m \<Longrightarrow> hub_ok (flushPublishedLocked m)"
proof (induction m rule: flushPublishedLocked.induct)
  case (1 m)
  then show ?case by (subst flushPublishedLocked.simps) (simp add: publish_next_ok)
qed

text \<open>What a connection that is not ready collects while the hub publishes.\<close>

definition collected :: "nat \<Rightarrow> int \<Rightarrow> hubMatch \<Rightarrow> bool" where
  "collected i r m \<longleftrightarrow> r \<le> hm_published m \<and>
     (\<forall>c\<in>set (hm_connections m). co_id c = i \<longrightarrow> \<not> co_ready c \<and>
        (co_closing c \<or> co_revision c = r \<and> filter (\<lambda>x. x > r) (co_pending c) = [r + 1..hm_published m]))"

lemma flush_collected: "collected i r m \<Longrightarrow> collected i r (flushPublishedLocked m)"
proof (induction m rule: flushPublishedLocked.induct)
  case (1 m)
  have "collected i r (publish_next m)"
    unfolding collected_def publish_next_fields
  proof (intro conjI ballI impI)
    show "r \<le> hm_published m + 1" using 1(2) by (simp add: collected_def)
    fix d
    assume d: "d \<in> set (map (deliver (hm_published m + 1)) (hm_connections m))" "co_id d = i"
    from d(1) obtain c where c: "d = deliver (hm_published m + 1) c" "c \<in> set (hm_connections m)"
      unfolding set_map by (rule imageE)
    have ci: "co_id c = i" using d(2) by (simp add: c(1))
    have n: "\<not> co_ready c" and o: "co_closing c \<or> co_revision c = r \<and> filter (\<lambda>x. x > r) (co_pending c) = [r + 1..hm_published m]"
      using 1(2) c(2) ci unfolding collected_def by blast+
    show "\<not> co_ready d" using n c(1) by simp
    have "r \<le> hm_published m" using 1(2) by (simp add: collected_def)
    then have up: "[r + 1..hm_published m + 1] = [r + 1..hm_published m] @ [hm_published m + 1]"
      using upto_rec2 [of "r + 1" "hm_published m + 1"] by simp
    show "co_closing d \<or> co_revision d = r \<and> filter (\<lambda>x. x > r) (co_pending d) = [r + 1..hm_published m + 1]"
      using o n \<open>r \<le> hm_published m\<close> unfolding c(1) up by (auto simp: deliver_def)
  qed
  then show ?case using 1 by (subst flushPublishedLocked.simps) simp
qed

lemma catch_up_moves:
  assumes "catch_up [p + 1..q] c = (ok, c')" "co_revision c = p" "0 \<le> p" "p \<le> q"
  shows "moves c c' \<and> (ok \<longrightarrow> q \<le> co_revision c')"
  using assms
proof (induction "nat (q - p)" arbitrary: p c)
  case 0
  then show ?case by simp
next
  case (Suc n)
  then have less: "p < q" by simp
  then have up: "[p + 1..q] = (p + 1) # [p + 1 + 1..q]" by (intro upto_rec1) simp
  obtain result d where e: "enqueueEvent (p + 1) c = (result, d)" by fastforce
  from event_next [OF e] Suc.prems(2,3) have m: "moves c d" "result = Full \<or> result = Invalid \<or> p + 1 \<le> co_revision d" by auto
  show ?case
  proof (cases "result = Full \<or> result = Invalid")
    case True
    then show ?thesis using Suc.prems(1) m(1) by (auto simp: up e)
  next
    case False
    then have "co_revision d = p + 1" using e Suc.prems(2,3)
      by (auto simp: enqueueEvent_def enqueueStateLocked_def enqueue_def split: if_splits option.splits)
    moreover have "catch_up [p + 1 + 1..q] d = (ok, c')" using Suc.prems(1) False by (simp add: up e)
    moreover have "n = nat (q - (p + 1))" using Suc.hyps(2) less by simp
    ultimately have "moves d c' \<and> (ok \<longrightarrow> q \<le> co_revision c')" using Suc.hyps(1) [of "p + 1" d] Suc.prems(3) less by simp
    then show ?thesis using m(1) moves_trans by blast
  qed
qed

lemma presences_move: "send_presences ps c = (ok, c') \<Longrightarrow> moves c c'"
proof (induction ps arbitrary: c)
  case (Cons p ps)
  obtain u online where "p = (u, online)" by fastforce
  with Cons show ?case by (auto split: option.splits dest: moves_presence moves_trans)
qed simp

lemma closing_kept: "catch_up rs c = (ok, c') \<Longrightarrow> co_closing c' = co_closing c \<and> co_id c' = co_id c"
proof (induction rs arbitrary: c)
  case (Cons r rs)
  obtain result d where e: "enqueueEvent r c = (result, d)" by fastforce
  then have "co_closing d = co_closing c \<and> co_id d = co_id c"
    by (auto simp: enqueueEvent_def enqueueStateLocked_def enqueue_def split: if_splits option.splits)
  then show ?case using Cons e by (auto split: if_splits)
qed simp

lemma ready_ok:
  assumes "co_closing c \<or> sent_ok c \<and> co_revision c = r \<and> filter (\<lambda>x. x > r) (co_pending c) = [r + 1..q]" "0 \<le> r" "r \<le> q"
  shows "conn_ok q (become_ready r c) \<and> co_id (become_ready r c) = co_id c"
proof -
  obtain ok c1 where 1: "catch_up (filter (\<lambda>x. x > r) (co_pending c)) c = (ok, c1)" by fastforce
  obtain ok' c2 where 2: "(if ok then send_presences (sort_key fst (co_presence c)) c1 else (False, c1)) = (ok', c2)" by fastforce
  have m2: "moves c1 c2" using 2 by (cases ok) (auto dest: presences_move)
  note k = closing_kept [OF 1]
  have eq: "become_ready r c = c2\<lparr>co_pending := [], co_presence := [], co_ready := ok', co_closing := co_closing c2 \<or> \<not> ok'\<rparr>"
    unfolding become_ready_def 1 by (simp add: 2)
  show ?thesis
  proof (cases "co_closing c")
    case True
    then show ?thesis using k m2 unfolding eq by (simp add: conn_ok_def moves_def)
  next
    case False
    then have c: "sent_ok c" "co_revision c = r" "filter (\<lambda>x. x > r) (co_pending c) = [r + 1..q]" using assms(1) by simp_all
    from catch_up_moves [OF 1 [unfolded c(3)] c(2) assms(2,3)] have m1: "moves c c1" "ok \<longrightarrow> q \<le> co_revision c1" by simp_all
    have "ok' \<longrightarrow> ok" using 2 by (cases ok) auto
    then show ?thesis using m1 m2 c(1) unfolding eq by (auto simp: conn_ok_def moves_def sent_ok_def)
  qed
qed

lemma resnapshot_ok:
  assumes "conn_ok p c" "p \<le> r"
  shows "co_id c \<noteq> i \<Longrightarrow> conn_ok r (resnapshot i r made c)" "co_id (resnapshot i r made c) = co_id c"
    "co_id c = i \<Longrightarrow> resnapshot i r made c = c"
proof -
  obtain result c' where e: "enqueueState (made (co_user c)) r c = (result, c')" by fastforce
  note m = moves_state [OF e]
  show "co_id (resnapshot i r made c) = co_id c" using m by (auto simp: resnapshot_def e moves_def)
  show "co_id c = i \<Longrightarrow> resnapshot i r made c = c" by (simp add: resnapshot_def)
  assume ni: "co_id c \<noteq> i"
  have pend: "\<forall>x\<in>set (co_pending c). x \<le> r" using assms by (auto simp: conn_ok_def)
  consider "\<not> co_ready c" | "co_ready c" "r \<le> co_revision c" | "co_ready c" "co_revision c < r" by linarith
  then show "conn_ok r (resnapshot i r made c)"
  proof cases
    case 3
    have "result \<noteq> Stale" using state_stale [of "made (co_user c)" r c c'] e 3 by auto
    then show ?thesis using 3 ni m assms pend by (cases result) (auto simp: resnapshot_def e conn_ok_def moves_def sent_ok_def)
  qed (use assms pend in \<open>auto simp: resnapshot_def conn_ok_def\<close>)
qed

subsection \<open>Every step\<close>

lemma update_ok:
  assumes "hub_ok m" "\<And>c. c \<in> set (hm_connections m) \<Longrightarrow> co_id c = i \<Longrightarrow> conn_ok (hm_published m) c \<Longrightarrow>
      conn_ok (hm_published m) (f c) \<and> co_id (f c) = co_id c"
  shows "hub_ok (update_connection i f m)"
proof (rule hub_okI)
  have ids: "map co_id (hm_connections (update_connection i f m)) = map co_id (hm_connections m)"
    using assms by (auto simp: hub_ok_def update_connection_def)
  show "distinct (map co_id (hm_connections (update_connection i f m)))"
    unfolding ids using assms(1) by (simp add: hub_ok_def)
  show "0 \<le> hm_published (update_connection i f m)" using assms(1) by (simp add: update_connection_def hub_ok_def)
  fix d
  assume "d \<in> set (hm_connections (update_connection i f m))"
  then show "conn_ok (hm_published (update_connection i f m)) d"
    using assms by (auto simp: update_connection_def hub_ok_def)
qed

lemma one_connection: "hub_ok m \<Longrightarrow> c \<in> set (hm_connections m) \<Longrightarrow> d \<in> set (hm_connections m) \<Longrightarrow> co_id d = co_id c \<Longrightarrow> d = c"
  unfolding hub_ok_def by (metis distinct_map inj_onD)

lemma markReady_ok:
  assumes ok: "hub_ok m" and c: "c \<in> set (hm_connections m)" "\<not> co_ready c"
    and m': "markReady (co_id c) (co_revision c) made m = Some m'"
  shows "hub_ok m'"
proof -
  let ?i = "co_id c" and ?r = "co_revision c" and ?p = "hm_published m"
  define m1 where "m1 = (if ?r > ?p then m\<lparr>hm_connections := map (resnapshot ?i ?r made) (hm_connections m), hm_published := ?r\<rparr> else m)"
  define m2 where "m2 = m1\<lparr>hm_pending := filter (\<lambda>x. x > ?r) (hm_pending m1)\<rparr>"
  have r: "?p \<le> ?r" and eq: "m' = update_connection ?i (become_ready ?r) (flushPublishedLocked m2)"
    using m' c(1) by (auto simp: markReady_def Let_def m1_def m2_def split: if_splits)
  have p0: "0 \<le> ?p" using ok by (simp add: hub_ok_def)
  have all: "\<And>d. d \<in> set (hm_connections m) \<Longrightarrow> conn_ok ?p d" using ok by (simp add: hub_ok_def)
  have cr: "conn_ok ?r c" using all [OF c(1)] r c(2) by (auto simp: conn_ok_def)
  have pub: "hm_published m2 = ?r" using r by (auto simp: m1_def m2_def)
  have conns: "d \<in> set (hm_connections m2) \<Longrightarrow> \<exists>e\<in>set (hm_connections m). co_id d = co_id e \<and> conn_ok ?r d \<and> (co_id e = ?i \<longrightarrow> d = c)" for d
  proof (cases "?r > ?p")
    case True
    assume "d \<in> set (hm_connections m2)"
    then obtain e where e: "d = resnapshot ?i ?r made e" "e \<in> set (hm_connections m)" using True by (auto simp: m1_def m2_def)
    note s = resnapshot_ok [OF all [OF e(2)] r]
    show ?thesis
    proof (cases "co_id e = ?i")
      case True
      then have "e = c" using one_connection [OF ok c(1) e(2)] by simp
      then show ?thesis using s(3) [OF True] e cr by auto
    next
      case False
      then show ?thesis using s(1,2) e by auto
    qed
  next
    case False
    assume "d \<in> set (hm_connections m2)"
    then have d: "d \<in> set (hm_connections m)" using False by (simp add: m1_def m2_def)
    have "?r = ?p" using False r by simp
    with d all [OF d] one_connection [OF ok c(1) d] show ?thesis by auto
  qed
  have ids: "map co_id (hm_connections m2) = map co_id (hm_connections m)"
    using resnapshot_ok(2) [OF all r] by (auto simp: m1_def m2_def)
  have ok2: "hub_ok m2"
  proof (rule hub_okI)
    show "distinct (map co_id (hm_connections m2))" unfolding ids using ok by (simp add: hub_ok_def)
    show "0 \<le> hm_published m2" using pub p0 r by simp
    show "\<And>d. d \<in> set (hm_connections m2) \<Longrightarrow> conn_ok (hm_published m2) d" using conns pub by auto
  qed
  have none: "filter (\<lambda>x. x > ?r) (co_pending c) = []" using cr by (auto simp: conn_ok_def filter_empty_conv)
  have "collected ?i ?r m2"
    unfolding collected_def pub
  proof (intro conjI ballI impI)
    fix d
    assume d: "d \<in> set (hm_connections m2)" "co_id d = ?i"
    then have "d = c" using conns [OF d(1)] by auto
    then show "\<not> co_ready d" "co_closing d \<or> co_revision d = ?r \<and> filter (\<lambda>x. x > ?r) (co_pending d) = [?r + 1..?r]"
      using c(2) none by simp_all
  qed simp
  then have col: "collected ?i ?r (flushPublishedLocked m2)" by (rule flush_collected)
  have ok3: "hub_ok (flushPublishedLocked m2)" by (rule flush_ok [OF ok2])
  show ?thesis unfolding eq
  proof (rule update_ok [OF ok3])
    fix d
    assume d: "d \<in> set (hm_connections (flushPublishedLocked m2))" "co_id d = ?i" "conn_ok (hm_published (flushPublishedLocked m2)) d"
    have "co_closing d \<or> sent_ok d \<and> co_revision d = ?r \<and> filter (\<lambda>x. x > ?r) (co_pending d) = [?r + 1..hm_published (flushPublishedLocked m2)]"
      using col d by (auto simp: collected_def conn_ok_def)
    moreover have "?r \<le> hm_published (flushPublishedLocked m2)" using col by (simp add: collected_def)
    ultimately show "conn_ok (hm_published (flushPublishedLocked m2)) (become_ready ?r d) \<and> co_id (become_ready ?r d) = co_id d"
      using ready_ok p0 r by simp
  qed
qed

lemma flush_ids: "map co_id (hm_connections (flushPublishedLocked m)) = map co_id (hm_connections m)"
proof (induction m rule: flushPublishedLocked.induct)
  case (1 m)
  have "map co_id (hm_connections (publish_next m)) = map co_id (hm_connections m)"
    by (simp add: publish_next_def Let_def)
  with 1 show ?case by (subst flushPublishedLocked.simps) simp
qed

lemma markReady_late:
  assumes ok: "hub_ok m" and i: "i \<notin> co_id ` set (hm_connections m)" and m': "markReady i r made m = Some m'"
  shows "hub_ok m'"
proof (cases "hm_connections m = []")
  case True
  then show ?thesis using ok m' by (simp add: markReady_def)
next
  case False
  define m1 where "m1 = (if r > hm_published m then m\<lparr>hm_connections := map (resnapshot i r made) (hm_connections m), hm_published := r\<rparr> else m)"
  define m2 where "m2 = m1\<lparr>hm_pending := filter (\<lambda>x. x > r) (hm_pending m1)\<rparr>"
  have r: "hm_published m \<le> r" and eq: "m' = update_connection i (become_ready r) (flushPublishedLocked m2)"
    using m' False by (auto simp: markReady_def Let_def m1_def m2_def split: if_splits)
  have all: "\<And>d. d \<in> set (hm_connections m) \<Longrightarrow> conn_ok (hm_published m) d" using ok by (simp add: hub_ok_def)
  note re = resnapshot_ok [OF all r, of _ i made]
  have ids: "map co_id (hm_connections m2) = map co_id (hm_connections m)" using re(2) by (auto simp: m1_def m2_def)
  have "hub_ok m2"
  proof (rule hub_okI)
    show "distinct (map co_id (hm_connections m2))" unfolding ids using ok by (simp add: hub_ok_def)
    show "0 \<le> hm_published m2" using ok r by (auto simp: m1_def m2_def hub_ok_def)
    show "\<And>d. d \<in> set (hm_connections m2) \<Longrightarrow> conn_ok (hm_published m2) d"
      using re(1) i all by (auto simp: m1_def m2_def split: if_splits)
  qed
  then have ok3: "hub_ok (flushPublishedLocked m2)" by (rule flush_ok)
  have "set (map co_id (hm_connections (flushPublishedLocked m2))) = set (map co_id (hm_connections m))"
    unfolding flush_ids ids ..
  then have "i \<notin> co_id ` set (hm_connections (flushPublishedLocked m2))" using i by simp
  then show ?thesis unfolding eq by (intro update_ok [OF ok3]) auto
qed

lemma closed_unless_sent_ok:
  assumes "moves c (snd x)" "conn_ok p c"
  shows "conn_ok p (closed_unless_sent x) \<and> co_id (closed_unless_sent x) = co_id c"
  using moves_ok [OF assms] moves_id [OF assms(1)] by (simp add: closed_unless_sent_def conn_ok_closing)

lemma error_ok: "conn_ok p c \<Longrightarrow> conn_ok p (enqueueError code act c) \<and> co_id (enqueueError code act c) = co_id c"
  by (auto simp: enqueueError_def enqueue_def conn_ok_def sent_ok_def split: option.splits if_splits)

lemma tell_ok: "conn_ok p c \<Longrightarrow> conn_ok p (tell_presence u online c) \<and> co_id (tell_presence u online c) = co_id c"
  by (auto simp: tell_presence_def conn_ok_def sent_ok_def enqueuePresence_def enqueue_def split: option.splits if_splits)

lemma register_ok:
  assumes "hub_ok m" "i \<notin> co_id ` set (hm_connections m)"
  shows "hub_ok (register i user epoch presence m)"
proof (rule hub_okI)
  have ids: "map co_id (hm_connections (register i user epoch presence m)) = map co_id (hm_connections m) @ [i]"
    by (simp add: register_def new_connection_def)
  show "distinct (map co_id (hm_connections (register i user epoch presence m)))"
    unfolding ids using assms by (simp add: hub_ok_def)
  show "0 \<le> hm_published (register i user epoch presence m)" using assms(1) by (simp add: register_def hub_ok_def)
  fix d
  assume "d \<in> set (hm_connections (register i user epoch presence m))"
  then consider c where "c \<in> set (hm_connections m)" "d = (if co_user c = user then c\<lparr>co_closing := True\<rparr> else c)" | "d = new_connection i user epoch presence"
    by (auto simp: register_def)
  then show "conn_ok (hm_published (register i user epoch presence m)) d"
  proof cases
    case 1
    then have "conn_ok (hm_published m) c" using assms(1) by (simp add: hub_ok_def)
    with 1(2) show ?thesis by (simp add: register_def conn_ok_closing)
  qed (simp add: conn_ok_def sent_ok_def new_connection_def)
qed

lemma ho_initial_ok:
  assumes "enqueueInitial made r c = Some c'" "conn_ok p c" "co_out c = []"
  shows "conn_ok p c' \<and> co_id c' = co_id c"
  using assms by (auto simp: enqueueInitial_def conn_ok_def sent_ok_def split: if_splits)

lemma ho_step_ok: "hub_step g m m' \<Longrightarrow> hub_ok m \<Longrightarrow> hub_ok m'"
proof (induction rule: hub_step.induct)
  case (register i m user epoch presence)
  then show ?case by (intro register_ok)
next
  case (initial c m made r c')
  show ?case
  proof (rule update_ok [OF initial.prems])
    fix d
    assume d: "d \<in> set (hm_connections m)" "co_id d = co_id c" "conn_ok (hm_published m) d"
    then have "d = c" using one_connection [OF initial.prems initial.hyps(1)] by simp
    then show "conn_ok (hm_published m) c' \<and> co_id c' = co_id d" using ho_initial_ok [OF initial.hyps(3) _ initial.hyps(2)] d(3) by simp
  qed
next
  case (again c m made r c')
  show ?case
  proof (rule update_ok [OF again.prems])
    fix d
    assume d: "d \<in> set (hm_connections m)" "co_id d = co_id c" "conn_ok (hm_published m) d"
    then have "d = c" using one_connection [OF again.prems again.hyps(1)] by simp
    moreover have "moves c c'" using moves_state [OF again.hyps(4)] by simp
    ultimately show "conn_ok (hm_published m) c' \<and> co_id c' = co_id d" using moves_ok moves_id d(3) by blast
  qed
next
  case (ready c m made' m')
  from markReady_ok [OF ready.prems ready.hyps(1,3,4)] show ?case .
next
  case (ready_late i m r made' m')
  from markReady_late [OF ready_late.prems ready_late.hyps] show ?case .
next
  case (event m r)
  have "hub_ok (m\<lparr>hm_pending := ps\<rparr>)" for ps using event by (simp add: hub_ok_def)
  then show ?case using event flush_ok by (simp add: Publish_def)
next
  case (latest c m made r)
  have "moves d (snd (enqueueState made r d))" for d using moves_state [of made r d] by (metis prod.collapse)
  then show ?case unfolding latest_attempt_def using closed_unless_sent_ok by (intro update_ok [OF latest.prems]) blast
next
  case (outdated c m made act r)
  have "moves d (snd (enqueueErrorAndSnapshot made ''stale_revision'' act r d))" for d
    using moves_stale_response [of made _ act r d] by (metis prod.collapse)
  then show ?case unfolding stale_attempt_def using closed_unless_sent_ok by (intro update_ok [OF outdated.prems]) blast
next
  case (refused m i code act)
  show ?case by (rule update_ok [OF refused.prems]) (rule error_ok)
next
  case (presence m u online)
  have "co_id (tell_presence u online c) = co_id c" for c
    by (auto simp: tell_presence_def enqueuePresence_def enqueue_def split: option.splits)
  then show ?case using presence tell_ok by (auto simp: playerPresenceChanged_def hub_ok_def comp_def)
next
  case (written m i)
  show ?case by (rule update_ok [OF written.prems]) (simp add: take_message_def conn_ok_def sent_ok_def)
next
  case (failed m i)
  show ?case by (rule update_ok [OF failed.prems]) (simp add: conn_ok_closing)
next
  case (gone m i)
  then show ?case by (auto simp: close_connection_def Let_def hub_ok_def new_match_def distinct_map_filter)
qed

lemma ho_run_ok: "hub_run g m \<Longrightarrow> hub_ok m"
proof (induction rule: hub_run.induct)
  case hub_new
  show ?case by (simp add: hub_ok_def new_match_def)
qed (rule ho_step_ok)

text \<open>
  C37. No client that stays connected misses an event. In every run of the hub, whatever the order in which events are
  published and connections come and go, what is sent on a connection that the hub does not close is a sequence in which every
  event is the one after the last revision the client knows and no snapshot goes back; and once the connection is
  ready, its client has been sent all that is published.
\<close>
theorem hub_gapless:
  assumes "hub_run g m" "c \<in> set (hm_connections m)" "\<not> co_closing c"
  shows "follows 0 (co_out c) \<and> (co_ready c \<longrightarrow> hm_published m \<le> known 0 (co_out c))"
  using ho_run_ok [OF assms(1)] assms(2,3) by (auto simp: hub_ok_def conn_ok_def sent_ok_def)

subsection \<open>The order of publishing\<close>

lemma flush_result:
  "hm_published m \<le> hm_published (flushPublishedLocked m) \<and>
   {x. hm_published m < x \<and> x \<le> hm_published (flushPublishedLocked m)} \<union> set (hm_pending (flushPublishedLocked m)) = set (hm_pending m) \<and>
   hm_published (flushPublishedLocked m) + 1 \<notin> set (hm_pending (flushPublishedLocked m)) \<and>
   (\<forall>x\<in>set (hm_pending (flushPublishedLocked m)). hm_published (flushPublishedLocked m) < x) \<and>
   length (hm_connections (flushPublishedLocked m)) = length (hm_connections m)"
  if "\<forall>x\<in>set (hm_pending m). hm_published m < x"
  using that
proof (induction m rule: flushPublishedLocked.induct)
  case (1 m)
  show ?case
  proof (cases "hm_published m + 1 \<in> set (hm_pending m)")
    case True
    let ?n = "publish_next m"
    have pre: "\<forall>x\<in>set (hm_pending ?n). hm_published ?n < x" using 1(2) by fastforce
    note ih = 1(1) [OF True pre]
    have eq: "flushPublishedLocked m = flushPublishedLocked ?n" using True by (subst flushPublishedLocked.simps) simp
    have "set (hm_pending m) = insert (hm_published m + 1) (set (hm_pending ?n))" using True by auto
    moreover have "{x. hm_published m < x \<and> x \<le> q} = insert (hm_published m + 1) {x. hm_published ?n < x \<and> x \<le> q}"
      if "hm_published ?n \<le> q" for q using that by auto
    ultimately show ?thesis unfolding eq using ih by auto
  next
    case False
    then have eq: "flushPublishedLocked m = m" by (subst flushPublishedLocked.simps) simp
    show ?thesis unfolding eq using False 1(2) by auto
  qed
qed

lemma publish_all:
  assumes "\<forall>r\<in>set rs. p < r \<and> r \<le> maximumMatchEventsFor g" "0 \<le> p" "hm_connections m \<noteq> []" "p \<le> hm_published m"
    "\<forall>x\<in>set (hm_pending m). hm_published m < x" "hm_published m + 1 \<notin> set (hm_pending m)"
  shows "let n = fold (Publish g) rs m in
    {x. p < x \<and> x \<le> hm_published n} \<union> set (hm_pending n) = {x. p < x \<and> x \<le> hm_published m} \<union> set (hm_pending m) \<union> set rs \<and>
    p \<le> hm_published n \<and> (\<forall>x\<in>set (hm_pending n). hm_published n < x) \<and> hm_published n + 1 \<notin> set (hm_pending n)"
  using assms
proof (induction rs arbitrary: m)
  case (Cons r rs)
  let ?m = "Publish g r m"
  have "{x. p < x \<and> x \<le> hm_published ?m} \<union> set (hm_pending ?m) = {x. p < x \<and> x \<le> hm_published m} \<union> set (hm_pending m) \<union> {r} \<and>
      p \<le> hm_published ?m \<and> (\<forall>x\<in>set (hm_pending ?m). hm_published ?m < x) \<and> hm_published ?m + 1 \<notin> set (hm_pending ?m) \<and>
      hm_connections ?m \<noteq> []"
  proof (cases "r \<le> hm_published m")
    case True
    then have "?m = m" by (simp add: Publish_def)
    then show ?thesis using True Cons.prems by auto
  next
    case False
    let ?n = "m\<lparr>hm_pending := (if r \<in> set (hm_pending m) then hm_pending m else hm_pending m @ [r])\<rparr>"
    have eq: "?m = flushPublishedLocked ?n" using False Cons.prems by (auto simp: Publish_def)
    have sn: "set (hm_pending ?n) = insert r (set (hm_pending m))" by auto
    have pre: "\<forall>x\<in>set (hm_pending ?n). hm_published ?n < x" using Cons.prems(5) False unfolding sn by auto
    note f = flush_result [OF pre, folded eq]
    have len: "hm_connections ?m \<noteq> []" using f Cons.prems(3) by auto
    have s: "{x. hm_published m < x \<and> x \<le> hm_published ?m} \<union> set (hm_pending ?m) = insert r (set (hm_pending m))" using f sn by simp
    have "hm_published m \<le> hm_published ?m" using f by simp
    then have "{x. p < x \<and> x \<le> hm_published ?m} = {x. p < x \<and> x \<le> hm_published m} \<union> {x. hm_published m < x \<and> x \<le> hm_published ?m}"
      using Cons.prems(4) by auto
    then have u: "{x. p < x \<and> x \<le> hm_published ?m} \<union> set (hm_pending ?m) = {x. p < x \<and> x \<le> hm_published m} \<union> set (hm_pending m) \<union> {r}"
      using s by auto
    show ?thesis using u f len Cons.prems(4) by auto
  qed
  with Cons.IH [of ?m] Cons.prems(1,2) show ?case by (auto simp: Let_def)
qed (simp add: Let_def)

lemma run_publish: "hub_run g m \<Longrightarrow> hub_run g (fold (Publish g) rs m)"
proof (induction rs arbitrary: m)
  case (Cons r rs)
  from hub_further [OF Cons.prems hub_step.event] Cons.IH show ?case by simp
qed simp

text \<open>
  C38. The order in which events are published does not matter. When the events after the last published one are published in
  any order, with repetitions, the hub ends with all of them published and none waiting, and every client that
  is ready and stays connected was sent them, one after the other.
\<close>
theorem hub_any_order:
  assumes "hub_run g m" "hm_connections m \<noteq> []" "hm_pending m = []" "set rs = {hm_published m + 1..k}"
    and "hm_published m \<le> k" "k \<le> maximumMatchEventsFor g"
  shows "hm_published (fold (Publish g) rs m) = k \<and> hm_pending (fold (Publish g) rs m) = [] \<and>
    (\<forall>c\<in>set (hm_connections (fold (Publish g) rs m)). co_ready c \<and> \<not> co_closing c \<longrightarrow>
       follows 0 (co_out c) \<and> k \<le> known 0 (co_out c))"
proof -
  let ?p = "hm_published m" and ?n = "fold (Publish g) rs m"
  have p0: "0 \<le> ?p" using ho_run_ok [OF assms(1)] by (simp add: hub_ok_def)
  have r: "\<forall>r\<in>set rs. ?p < r \<and> r \<le> maximumMatchEventsFor g" using assms(4,6) by auto
  have "{x. ?p < x \<and> x \<le> hm_published ?n} \<union> set (hm_pending ?n) = {x. ?p < x \<and> x \<le> ?p} \<union> set (hm_pending m) \<union> set rs \<and>
    ?p \<le> hm_published ?n \<and> (\<forall>x\<in>set (hm_pending ?n). hm_published ?n < x) \<and> hm_published ?n + 1 \<notin> set (hm_pending ?n)"
    using publish_all [OF r p0 assms(2)] assms(3) by (simp add: Let_def)
  then have s: "{x. ?p < x \<and> x \<le> hm_published ?n} \<union> set (hm_pending ?n) = {?p + 1..k}"
    and n: "?p \<le> hm_published ?n" "\<forall>x\<in>set (hm_pending ?n). hm_published ?n < x" "hm_published ?n + 1 \<notin> set (hm_pending ?n)"
    using assms(3,4) by auto
  have le: "hm_published ?n \<le> k"
  proof (cases "?p < hm_published ?n")
    case True
    then have "hm_published ?n \<in> {?p + 1..k}" using s by auto
    then show ?thesis by simp
  qed (use n(1) assms(5) in simp)
  have eq: "hm_published ?n = k"
  proof (rule ccontr)
    assume "hm_published ?n \<noteq> k"
    then have "hm_published ?n + 1 \<in> {?p + 1..k}" using le n(1) by simp
    then have "hm_published ?n + 1 \<in> {x. ?p < x \<and> x \<le> hm_published ?n} \<union> set (hm_pending ?n)" unfolding s .
    then have "hm_published ?n + 1 \<in> set (hm_pending ?n)" by (rule UnE) simp_all
    then show False using n(3) by simp
  qed
  have "set (hm_pending ?n) = {}"
  proof (rule equals0I)
    fix x
    assume x: "x \<in> set (hm_pending ?n)"
    then have "x \<le> k" using s by auto
    with x n(2) eq show False by auto
  qed
  then have "hm_pending ?n = []" by simp
  moreover have "co_ready c \<and> \<not> co_closing c \<longrightarrow> follows 0 (co_out c) \<and> k \<le> known 0 (co_out c)"
    if "c \<in> set (hm_connections ?n)" for c
  proof -
    have "conn_ok k c" using ho_run_ok [OF run_publish [OF assms(1), of rs]] that eq by (simp add: hub_ok_def)
    then show ?thesis unfolding conn_ok_def sent_ok_def by auto
  qed
  ultimately show ?thesis using eq by blast
qed

text \<open>A player connects and gets the first two events, which are published in the wrong order.\<close>

definition one_client :: "bytes \<Rightarrow> hubMatch" where
  "one_client user = new_match\<lparr>hm_connections := [(new_connection 1 user ''e'' False)\<lparr>co_ready := True,
     co_out := [ConnectedMessage 0, SnapshotMessage 0]\<rparr>]\<rparr>"

lemma one_client_run: "hub_run ''gomoku'' (one_client user)"
proof -
  let ?c = "new_connection 1 user ''e'' False"
  have 1: "hub_run ''gomoku'' (new_match\<lparr>hm_connections := [?c]\<rparr>)"
    using hub_further [OF hub_new hub_step.register [of 1 new_match "''gomoku''" user "''e''" False]] by (simp add: register_def new_match_def)
  let ?d = "?c\<lparr>co_out := [ConnectedMessage 0, SnapshotMessage 0]\<rparr>"
  have i: "enqueueInitial True 0 ?c = Some ?d"
    by (simp add: enqueueInitial_def new_connection_def free_slots_def webSocketSendQueueSize_def)
  have c: "?c \<in> set (hm_connections (new_match\<lparr>hm_connections := [?c]\<rparr>))" "co_out ?c = []" by (simp_all add: new_connection_def)
  have 2: "hub_run ''gomoku'' (new_match\<lparr>hm_connections := [?d]\<rparr>)"
    using hub_further [OF 1 hub_step.initial [OF c i]] by (simp add: update_connection_def)
  have d: "?d \<in> set (hm_connections (new_match\<lparr>hm_connections := [?d]\<rparr>))" "co_out ?d \<noteq> []" "\<not> co_ready ?d"
    by (simp_all add: new_connection_def)
  have "flushPublishedLocked (new_match\<lparr>hm_connections := cs\<rparr>) = new_match\<lparr>hm_connections := cs\<rparr>" for cs
    by (subst flushPublishedLocked.simps) (simp add: new_match_def)
  then have "markReady (co_id ?d) (co_revision ?d) (\<lambda>_. True) (new_match\<lparr>hm_connections := [?d]\<rparr>) = Some (one_client user)"
    by (simp add: markReady_def Let_def new_match_def new_connection_def update_connection_def become_ready_def one_client_def)
  from hub_further [OF 2 hub_step.ready [OF d this]] show ?thesis .
qed

theorem hub_gapless_witness: "follows 0 [ConnectedMessage 0, SnapshotMessage 0]"
  using hub_gapless [OF one_client_run [of "''a''"], of "(new_connection 1 ''a'' ''e'' False)\<lparr>co_ready := True,
     co_out := [ConnectedMessage 0, SnapshotMessage 0]\<rparr>"]
  by (simp add: one_client_def new_connection_def)

theorem hub_any_order_witness:
  "hm_published (fold (Publish ''gomoku'') [2, 1, 2] (one_client ''a'')) = 2 \<and> hm_pending (fold (Publish ''gomoku'') [2, 1, 2] (one_client ''a'')) = []"
proof -
  have "maximumMatchEventsFor ''gomoku'' \<ge> 2"
    by (simp add: maximumMatchEventsFor_def maximumMatchEvents_def maximumFlightChessEvents_def)
  moreover have "set [2, 1, 2] = {hm_published (one_client ''a'') + 1..2}" by (auto simp: one_client_def new_match_def)
  ultimately show ?thesis
    using hub_any_order [OF one_client_run [of "''a''"], of "[2, 1, 2]" 2] by (simp add: one_client_def new_match_def)
qed

text \<open>
  Why the closing connections are excluded: a ready connection whose queue is full misses the event and stays ready
  until it is closed, so the next event may still be queued for it.
\<close>

lemma closing_may_skip:
  assumes "co_ready c" "free_slots c = 0" "co_revision c = 1" "free_slots (take_message c) > 0"
  shows "\<exists>c'. deliver 3 (take_message (deliver 2 c)) = c' \<and> co_closing c' \<and> co_out c' = co_out c @ [EventMessage 3]"
proof -
  have "deliver 2 c = c\<lparr>co_closing := True\<rparr>"
    using assms by (simp add: deliver_def enqueueEvent_def enqueueStateLocked_def enqueue_def)
  then show ?thesis using assms
    by (auto simp: deliver_def enqueueEvent_def enqueueStateLocked_def enqueue_def take_message_def free_slots_def split: if_splits)
qed

end
