(* ===== verification/HubPings.thy ===== *)
theory HubPings
  imports Hub
begin

text \<open>
  The heartbeats of a connection (\<open>server/internal/matches/hub.go\<close>): the writer records the nonce of each ping, and
  a pong counts as activity when its nonce is one of them. The map of the nonces is bounded: pings older than the
  activity timeout go, and beyond the limit the oldest. The property: a client whose pings come at
  the interval of the heartbeat never loses one to the limit.
\<close>

subsection \<open>Pings\<close>

definition webSocketMaximumPingNonces :: int where "webSocketMaximumPingNonces = 4096"

definition outstandingPingLimit :: "int \<Rightarrow> int \<Rightarrow> int" where
  "outstandingPingLimit timeout interval =
     (if timeout \<le> 0 \<or> interval \<le> 0 then 1
      else let n = timeout div interval + (if timeout mod interval \<noteq> 0 then 1 else 0) in
        if n \<ge> webSocketMaximumPingNonces - 1 then webSocketMaximumPingNonces else n + 1)"

text \<open>The map from the nonces to the times of their pings, as an association list.\<close>

definition prunePingsLocked :: "int \<Rightarrow> int \<Rightarrow> (bytes \<times> int) list \<Rightarrow> (bytes \<times> int) list" where
  "prunePingsLocked timeout now ps = filter (\<lambda>(n, t). \<not> (now - t < 0 \<or> now - t > timeout)) ps"

definition older_ping :: "bytes \<times> int \<Rightarrow> bytes \<times> int \<Rightarrow> bytes \<times> int" where
  "older_ping p old =
     (if fst old = '''' \<or> snd p < snd old \<or> snd p = snd old \<and> fst p < fst old then p else old)"

definition oldest_ping :: "(bytes \<times> int) list \<Rightarrow> bytes \<times> int" where
  "oldest_ping ps = fold older_ping ps ('''', 0)"

lemma fold_older: "fold older_ping ps p \<in> insert p (set ps)"
proof (induction ps arbitrary: p)
  case (Cons q ps)
  from Cons.IH [of "older_ping q p"] show ?case by (auto simp: older_ping_def split: if_splits)
qed simp

lemma oldest_in: "ps \<noteq> [] \<Longrightarrow> oldest_ping ps \<in> set ps"
proof (cases ps)
  case (Cons p qs)
  then show ?thesis using fold_older [of qs p] by (simp add: oldest_ping_def older_ping_def)
qed simp

text \<open>The loop that makes room. The limit is never below 1; the code would not stop at 0.\<close>

function evict :: "int \<Rightarrow> (bytes \<times> int) list \<Rightarrow> (bytes \<times> int) list" where
  "evict limit ps =
     (if limit \<ge> 1 \<and> int (length ps) \<ge> limit then evict limit (filter (\<lambda>p. fst p \<noteq> fst (oldest_ping ps)) ps) else ps)"
  by pat_completeness auto
termination
proof (relation "measure (\<lambda>(limit, ps). length ps)")
  fix limit :: int and ps :: "(bytes \<times> int) list"
  assume "limit \<ge> 1 \<and> int (length ps) \<ge> limit"
  then have "oldest_ping ps \<in> set ps" by (intro oldest_in) auto
  then have "length (filter (\<lambda>p. fst p \<noteq> fst (oldest_ping ps)) ps) < length ps"
    by (intro length_filter_less) auto
  then show "((limit, filter (\<lambda>p. fst p \<noteq> fst (oldest_ping ps)) ps), (limit, ps)) \<in> measure (\<lambda>(limit, ps). length ps)"
    by simp
qed simp

declare evict.simps [simp del]

definition recordPing :: "int \<Rightarrow> int \<Rightarrow> int \<Rightarrow> bytes \<Rightarrow> (bytes \<times> int) list \<Rightarrow> (bytes \<times> int) list" where
  "recordPing timeout interval now nonce ps =
     (nonce, now) # filter (\<lambda>p. fst p \<noteq> nonce) (evict (outstandingPingLimit timeout interval) (prunePingsLocked timeout now ps))"

definition validPong :: "int \<Rightarrow> int \<Rightarrow> bytes \<Rightarrow> (bytes \<times> int) list \<Rightarrow> bool \<times> (bytes \<times> int) list" where
  "validPong timeout now nonce ps =
     (if nonce = '''' then (False, ps)
      else let ps' = prunePingsLocked timeout now ps in
        if nonce \<notin> fst ` set ps' then (False, ps') else (True, filter (\<lambda>p. fst p \<noteq> nonce) ps'))"

subsection \<open>The limit\<close>

lemma limit_range: "1 \<le> outstandingPingLimit timeout interval \<and> outstandingPingLimit timeout interval \<le> webSocketMaximumPingNonces"
  by (auto simp: outstandingPingLimit_def webSocketMaximumPingNonces_def Let_def pos_imp_zdiv_nonneg_iff add_nonneg_nonneg)

lemma evict_length: "1 \<le> limit \<Longrightarrow> int (length (evict limit ps)) < limit"
proof (induction limit ps rule: evict.induct)
  case (1 limit ps)
  then show ?case by (subst evict.simps) simp
qed

lemma ping_bound: "int (length (recordPing timeout interval now nonce ps)) \<le> outstandingPingLimit timeout interval"
proof -
  have "int (length (evict (outstandingPingLimit timeout interval) (prunePingsLocked timeout now ps))) < outstandingPingLimit timeout interval"
    by (rule evict_length) (simp add: limit_range)
  moreover have "length (filter (\<lambda>p. fst p \<noteq> nonce) xs) \<le> length xs" for xs :: "(bytes \<times> int) list" by (rule length_filter_le)
  ultimately show ?thesis unfolding recordPing_def
    by (smt (verit) length_Cons of_nat_Suc of_nat_mono)
qed

subsection \<open>Heartbeats\<close>

datatype heartbeat = Ping int bytes | Pong int bytes

fun pong_results :: "int \<Rightarrow> int \<Rightarrow> (bytes \<times> int) list \<Rightarrow> heartbeat list \<Rightarrow> bool list" where
  "pong_results timeout interval ps [] = []"
| "pong_results timeout interval ps (Ping now nonce # hs) =
     pong_results timeout interval (recordPing timeout interval now nonce ps) hs"
| "pong_results timeout interval ps (Pong now nonce # hs) =
     (let (ok, ps') = validPong timeout now nonce ps in ok # pong_results timeout interval ps' hs)"

text \<open>What a pong should give: whether its ping is at most the timeout old and was not answered yet.\<close>

fun pong_answers :: "int \<Rightarrow> (bytes \<times> int) list \<Rightarrow> heartbeat list \<Rightarrow> bool list" where
  "pong_answers timeout ps [] = []"
| "pong_answers timeout ps (Ping now nonce # hs) = pong_answers timeout ((nonce, now) # ps) hs"
| "pong_answers timeout ps (Pong now nonce # hs) =
     (let ok = (\<exists>p\<in>set ps. fst p = nonce \<and> now - snd p \<le> timeout) in
      ok # pong_answers timeout (if ok then filter (\<lambda>p. fst p \<noteq> nonce) ps else ps) hs)"

text \<open>
  Time does not run backwards, pings are at least the interval apart, and their nonces are new.
\<close>

fun timeline :: "int \<Rightarrow> int \<Rightarrow> int \<Rightarrow> bytes list \<Rightarrow> heartbeat list \<Rightarrow> bool" where
  "timeline interval now due used [] \<longleftrightarrow> True"
| "timeline interval now due used (Ping t nonce # hs) \<longleftrightarrow>
     now \<le> t \<and> due \<le> t \<and> nonce \<noteq> '''' \<and> nonce \<notin> set used \<and> timeline interval t (t + interval) (nonce # used) hs"
| "timeline interval now due used (Pong t nonce # hs) \<longleftrightarrow> now \<le> t \<and> timeline interval t due used hs"

fun spaced :: "int \<Rightarrow> int \<Rightarrow> (bytes \<times> int) list \<Rightarrow> bool" where
  "spaced interval due [] \<longleftrightarrow> True"
| "spaced interval due (p # ps) \<longleftrightarrow> snd p + interval \<le> due \<and> spaced interval (snd p) ps"

lemma spaced_later: "spaced interval due ps \<Longrightarrow> due \<le> due' \<Longrightarrow> spaced interval due' ps"
  by (cases ps) auto

lemma spaced_filter: "spaced interval due ps \<Longrightarrow> 0 \<le> interval \<Longrightarrow> spaced interval due (filter P ps)"
proof (induction ps arbitrary: due)
  case (Cons p ps)
  then have "spaced interval (snd p) (filter P ps)" by simp
  with Cons.prems spaced_later [of interval "snd p" "filter P ps" due] show ?case by auto
qed simp

lemma spaced_length: "spaced interval due ps \<Longrightarrow> \<forall>p\<in>set ps. first \<le> snd p \<Longrightarrow> first \<le> due \<Longrightarrow> int (length ps) * interval \<le> due - first"
proof (induction ps arbitrary: due)
  case (Cons p ps)
  have "int (length ps) * interval \<le> snd p - first" using Cons.prems by (intro Cons.IH) auto
  then show ?case using Cons.prems(1) by (simp add: distrib_right)
qed simp

text \<open>At the interval of the heartbeat the limit leaves room.\<close>

lemma room:
  assumes "0 < interval" "0 < timeout" "timeout \<le> 4094 * interval" "spaced interval now ps" "\<forall>p\<in>set ps. now - timeout \<le> snd p"
  shows "evict (outstandingPingLimit timeout interval) ps = ps"
proof -
  let ?n = "timeout div interval + (if timeout mod interval \<noteq> 0 then 1 else 0)"
  have "int (length ps) * interval \<le> timeout" using spaced_length [OF assms(4,5)] assms(2) by simp
  then have "int (length ps) * interval div interval \<le> timeout div interval" using assms(1) by (rule zdiv_mono1)
  then have "int (length ps) \<le> timeout div interval" using assms(1) by simp
  moreover have "?n \<le> 4094"
  proof -
    let ?q = "timeout div interval" and ?m = "timeout mod interval"
    have eq: "interval * ?q + ?m = timeout" by (rule mult_div_mod_eq)
    have m: "0 \<le> ?m" using assms(1) by simp
    show ?thesis
    proof (cases "?m = 0")
      case True
      then have "interval * ?q \<le> interval * 4094" using eq assms(3) by (simp only: mult.commute [of interval 4094])
      then have "?q \<le> 4094" using assms(1) by (simp only: mult_le_cancel_left_pos)
      then show ?thesis using True by simp
    next
      case False
      then have "interval * ?q < interval * 4094" using eq m assms(3) by (simp only: mult.commute [of interval 4094])
      then have "?q < 4094" using assms(1) by (simp only: mult_less_cancel_left_pos)
      then show ?thesis using False by simp
    qed
  qed
  ultimately have "int (length ps) < outstandingPingLimit timeout interval"
    using assms(1,2) by (auto simp: outstandingPingLimit_def webSocketMaximumPingNonces_def Let_def)
  then show ?thesis by (subst evict.simps) simp
qed

text \<open>\<open>ps\<close> is what the connection keeps, \<open>qs\<close> the pings that were not answered.\<close>

definition kept :: "int \<Rightarrow> int \<Rightarrow> int \<Rightarrow> int \<Rightarrow> bytes list \<Rightarrow> (bytes \<times> int) list \<Rightarrow> (bytes \<times> int) list \<Rightarrow> bool" where
  "kept timeout interval now due used ps qs \<longleftrightarrow>
     spaced interval due ps \<and> set ps \<subseteq> set qs \<and> (\<forall>q\<in>set qs. fst q \<in> set used \<and> snd q \<le> now \<and> (now - snd q \<le> timeout \<longrightarrow> q \<in> set ps)) \<and>
     '''' \<notin> set used"

lemma kept_later: "kept timeout interval now due used ps qs \<Longrightarrow> now \<le> t \<Longrightarrow> kept timeout interval t due used ps qs"
  unfolding kept_def by fastforce

lemma kept_prune:
  assumes "kept timeout interval now due used ps qs" "0 \<le> interval"
  shows "kept timeout interval now due used (prunePingsLocked timeout now ps) qs"
proof -
  have "spaced interval due (prunePingsLocked timeout now ps)"
    using assms spaced_filter unfolding kept_def prunePingsLocked_def by blast
  moreover have "q \<in> set (prunePingsLocked timeout now ps)" if "q \<in> set qs" "now - snd q \<le> timeout" for q
  proof -
    have "q \<in> set ps" "snd q \<le> now" using assms(1) that unfolding kept_def by blast+
    then show ?thesis using that(2) by (simp add: prunePingsLocked_def case_prod_beta)
  qed
  moreover have "set (prunePingsLocked timeout now ps) \<subseteq> set qs"
    using assms(1) unfolding kept_def prunePingsLocked_def by (simp add: subset_iff)
  ultimately show ?thesis using assms(1) unfolding kept_def by blast
qed

lemma pongs_kept:
  assumes "0 < interval" "0 < timeout" "timeout \<le> 4094 * interval"
  shows "timeline interval now due used hs \<Longrightarrow> kept timeout interval now due used ps qs \<Longrightarrow>
    pong_results timeout interval ps hs = pong_answers timeout qs hs"
proof (induction hs arbitrary: now due used ps qs)
  case (Cons h hs)
  show ?case
  proof (cases h)
    case (Ping t nonce)
    let ?ps = "prunePingsLocked timeout t ps"
    have tl: "now \<le> t" "due \<le> t" "nonce \<noteq> ''''" "nonce \<notin> set used" "timeline interval t (t + interval) (nonce # used) hs"
      using Cons.prems(1) Ping by simp_all
    have k: "kept timeout interval t due used ?ps qs"
      using kept_prune [OF kept_later [OF Cons.prems(2) tl(1)]] assms(1) by simp
    have sp: "spaced interval t ?ps" using spaced_later [OF _ tl(2)] k by (simp add: kept_def)
    have "\<forall>p\<in>set ?ps. t - timeout \<le> snd p" by (auto simp: prunePingsLocked_def)
    from room [OF assms sp this] have e: "evict (outstandingPingLimit timeout interval) ?ps = ?ps" .
    have "nonce \<notin> fst ` set ?ps" using k tl(4) by (auto simp: kept_def)
    then have r: "recordPing timeout interval t nonce ps = (nonce, t) # ?ps"
      unfolding recordPing_def e by (auto simp: filter_id_conv)
    have "kept timeout interval t (t + interval) (nonce # used) ((nonce, t) # ?ps) ((nonce, t) # qs)"
      using k sp tl(3) by (auto simp: kept_def)
    from Cons.IH [OF tl(5) this] show ?thesis by (simp add: Ping r)
  next
    case (Pong t nonce)
    let ?ps = "prunePingsLocked timeout t ps"
    have tl: "now \<le> t" "timeline interval t due used hs" using Cons.prems(1) Pong by simp_all
    have k0: "kept timeout interval t due used ps qs" by (rule kept_later [OF Cons.prems(2) tl(1)])
    have k: "kept timeout interval t due used ?ps qs" using kept_prune [OF k0] assms(1) by simp
    show ?thesis
    proof (cases "nonce = ''''")
      case True
      have "\<not> (\<exists>q\<in>set qs. fst q = nonce \<and> t - snd q \<le> timeout)" using k0 True by (auto simp: kept_def)
      then have "(\<exists>q\<in>set qs. fst q = nonce \<and> t - snd q \<le> timeout) = False" by blast
      then show ?thesis unfolding Pong pong_results.simps pong_answers.simps Let_def
        using Cons.IH [OF tl(2) k0] True by (auto simp: validPong_def)
    next
      case False
      have iff: "(\<exists>q\<in>set qs. fst q = nonce \<and> t - snd q \<le> timeout) \<longleftrightarrow> nonce \<in> fst ` set ?ps"
      proof
        assume "nonce \<in> fst ` set ?ps"
        then obtain p where p: "p \<in> set ?ps" "fst p = nonce" by auto
        then have "p \<in> set qs" using k by (auto simp: kept_def)
        moreover have "t - snd p \<le> timeout" using p(1) by (auto simp: prunePingsLocked_def)
        ultimately show "\<exists>q\<in>set qs. fst q = nonce \<and> t - snd q \<le> timeout" using p(2) by blast
      next
        assume "\<exists>q\<in>set qs. fst q = nonce \<and> t - snd q \<le> timeout"
        then obtain q where "q \<in> set qs" "fst q = nonce" "t - snd q \<le> timeout" by blast
        then show "nonce \<in> fst ` set ?ps" using k by (force simp: kept_def)
      qed
      have k2: "kept timeout interval t due used (filter (\<lambda>p. fst p \<noteq> nonce) ?ps) (filter (\<lambda>p. fst p \<noteq> nonce) qs)"
        using k spaced_filter [of interval due ?ps] assms(1) by (auto simp: kept_def)
      show ?thesis using False iff Cons.IH [OF tl(2) k] Cons.IH [OF tl(2) k2] by (simp add: Pong validPong_def Let_def)
    qed
  qed
qed simp

text \<open>
  C39. The bound on outstanding pings never costs a client its pong. When the timeout of activity is at most 4094
  intervals of the heartbeat, pings come at least one interval apart and their nonces are fresh, the pongs
  that are accepted are exactly those whose ping is at most the timeout old and was not answered before.
\<close>
theorem hub_pongs:
  assumes "0 < interval" "0 < timeout" "timeout \<le> 4094 * interval" "timeline interval now now [] hs"
  shows "pong_results timeout interval [] hs = pong_answers timeout [] hs"
  by (rule pongs_kept [OF assms]) (simp add: kept_def)

theorem hub_pongs_witness:
  "pong_results 45 15 [] [Ping 0 ''a'', Ping 15 ''b'', Ping 30 ''c'', Ping 45 ''d'', Pong 45 ''a'', Pong 50 ''a'', Pong 61 ''b'', Pong 61 ''d''] =
     [True, False, False, True]"
  using hub_pongs [of 15 45 0 "[Ping 0 ''a'', Ping 15 ''b'', Ping 30 ''c'', Ping 45 ''d'', Pong 45 ''a'', Pong 50 ''a'', Pong 61 ''b'', Pong 61 ''d'']"]
  by simp

end
