(* ===== verification/HubActions.thy ===== *)
theory HubActions
  imports Presence Protocol HubOrder HubPings
begin

text \<open>
  The messages that a client sends over its connection (\<open>readLoop\<close> and \<open>applyAction\<close> of
  \<open>server/internal/matches/hub.go\<close>, and the revocation of connections in \<open>session_revocation.go\<close>): the protocol, the
  match service, presence and the fan-out together. The property: every action keeps
  that what the service stored was published, is pending, or is on its way from its commit to its publication; when nothing is on its
  way, every open connection knows all of it.
\<close>

subsection \<open>Errors\<close>

definition safeActionErrorCode :: "match_error \<Rightarrow> bytes" where
  "safeActionErrorCode err =
     (case err of
        ErrActionConflict \<Rightarrow> ''action_conflict''
      | RuleError GomokuNotYourTurn \<Rightarrow> ''not_your_turn''
      | RuleError GomokuCellOccupied \<Rightarrow> ''cell_occupied''
      | RuleError CheckersNotYourTurn \<Rightarrow> ''not_your_turn''
      | RuleError CheckersInvalidPath \<Rightarrow> ''invalid_move''
      | RuleError FlightNotYourTurn \<Rightarrow> ''not_your_turn''
      | RuleError FlightInvalidMove \<Rightarrow> ''invalid_move''
      | RuleError FlightInvalidPhase \<Rightarrow> ''invalid_move''
      | RuleError RpsChoiceLocked \<Rightarrow> ''choice_locked''
      | ErrInvalidRequest \<Rightarrow> ''invalid_request''
      | ErrMatchNotFound \<Rightarrow> ''match_not_found''
      | _ \<Rightarrow> ''internal_error'')"

subsection \<open>Snapshots on request\<close>

text \<open>
  The attempts of \<open>sendLatestSnapshot\<close> and \<open>sendStaleResponse\<close>. Each reads a snapshot: \<open>None\<close> when that
  fails, else whether a message could be made of it and its revision. A snapshot older than what
  the client has is tried again.
\<close>

fun send_attempts ::
  "(bool \<Rightarrow> int \<Rightarrow> hubConnection \<Rightarrow> enqueueStateResult \<times> hubConnection) \<Rightarrow> bytes \<Rightarrow> nat \<Rightarrow> (bool \<times> int) option list \<Rightarrow>
   hubConnection \<Rightarrow> hubConnection" where
  "send_attempts send act 0 ss c = c\<lparr>co_closing := True\<rparr>"
| "send_attempts send act (Suc n) [] c = enqueueError ''internal_error'' act c"
| "send_attempts send act (Suc n) (None # ss) c = enqueueError ''internal_error'' act c"
| "send_attempts send act (Suc n) (Some (made, r) # ss) c =
     (let (result, c') = send made r c in
      if result = Queued then c'
      else if result = Stale then send_attempts send act n ss c'
      else c'\<lparr>co_closing := True\<rparr>)"

definition sendLatestSnapshot :: "bytes \<Rightarrow> (bool \<times> int) option list \<Rightarrow> hubConnection \<Rightarrow> hubConnection" where
  "sendLatestSnapshot g ss c = send_attempts enqueueState '''' (Suc (nat (maximumMatchEventsFor g))) ss c"

definition sendStaleResponse :: "bytes \<Rightarrow> bytes \<Rightarrow> (bool \<times> int) option list \<Rightarrow> hubConnection \<Rightarrow> hubConnection" where
  "sendStaleResponse g act ss c =
     send_attempts (\<lambda>made. enqueueErrorAndSnapshot made ''stale_revision'' act) act (Suc (nat (maximumMatchEventsFor g))) ss c"

subsection \<open>Messages\<close>

text \<open>
  A connection with the service it uses, and what it reads: the bytes of a message and whether it is a text
  message, the clocks of the hub, of presence and of the service, random bytes, and the snapshots of
  the attempts above. The state is the database, the match in the hub, presence, and the pings of
  the connection.
\<close>

record ws_env =
  we_service :: service
  we_faults :: faults
  we_timeout :: int
  we_game :: bytes
  we_key :: presenceConnectionKey
  we_epoch :: bytes
  we_index :: nat

record ws_input =
  wi_text :: bool
  wi_data :: bytes
  wi_now :: int
  wi_touched :: int
  wi_milli :: int
  wi_random :: "nat list"
  wi_snapshots :: "(bool \<times> int) option list"

record ws_state =
  ws_db :: db
  ws_match :: hubMatch
  ws_presence :: presence
  ws_pings :: "(bytes \<times> int) list"

definition we_identity :: "ws_env \<Rightarrow> identity" where
  "we_identity v = \<lparr>id_user = pk_user (we_key v), id_epoch = we_epoch v\<rparr>"

definition on_connection :: "ws_env \<Rightarrow> (hubConnection \<Rightarrow> hubConnection) \<Rightarrow> ws_state \<Rightarrow> ws_state" where
  "on_connection v f w = w\<lparr>ws_match := update_connection (we_index v) f (ws_match w)\<rparr>"

definition applyAction :: "ws_env \<Rightarrow> ws_input \<Rightarrow> Envelope \<Rightarrow> ws_state \<Rightarrow> ws_state" where
  "applyAction v x e w =
     (case ApplyAction (we_service v) (we_faults v) None (Some (we_identity v)) (wi_milli x) (wi_random x)
         (hub_request (pk_match (we_key v)) (pk_user (we_key v)) e) (ws_db w) of
        Inr ((ev, _), db) \<Rightarrow> w\<lparr>ws_db := db, ws_match := Publish (we_game v) (e_revision ev) (ws_match w)\<rparr>
      | Inl err \<Rightarrow>
          if err = ErrStaleRevision then on_connection v (sendStaleResponse (we_game v) (en_action e) (wi_snapshots x)) w
          else on_connection v (enqueueError (safeActionErrorCode err) (en_action e)) w)"

definition pong_nonce :: "bytes \<Rightarrow> bytes option" where
  "pong_nonce payload =
     do { j \<leftarrow> json_parse payload; kvs \<leftarrow> obj_fields j; dec_field [''nonce''] kvs ''nonce'' dec_string '''' }"

definition snapshot_request :: "bytes \<Rightarrow> int option" where
  "snapshot_request payload =
     do { j \<leftarrow> json_parse payload; kvs \<leftarrow> obj_fields j; dec_field [''currentRevision''] kvs ''currentRevision'' dec_int 0 }"

text \<open>What an iteration of \<open>readLoop\<close> does with the message it read, and whether the loop goes on.\<close>

definition touched :: "ws_env \<Rightarrow> ws_input \<Rightarrow> ws_state \<Rightarrow> bool \<times> ws_state" where
  "touched v x w = (let (present, p) = Touch (wi_touched x) (we_key v) (ws_presence w) in (present, w\<lparr>ws_presence := p\<rparr>))"

definition readMessage :: "ws_env \<Rightarrow> ws_input \<Rightarrow> ws_state \<Rightarrow> bool \<times> ws_state" where
  "readMessage v x w =
     (let refused = (\<lambda>act w. (True, on_connection v (enqueueError ''invalid_request'' act) w)) in
      if \<not> wi_text x then refused '''' w
      else if \<not> validConnectionCredential (we_identity v) (ws_db w) then (False, w)
      else case DecodeClient (sv_parse (we_service v)) (wi_data x) of
        Inl _ \<Rightarrow> refused '''' w
      | Inr e \<Rightarrow>
          if en_type e = TypePlatformConnect \<or> en_match e \<noteq> pk_match (we_key v) \<or> en_game e \<noteq> we_game v then refused '''' w
          else if en_type e = TypePlatformPong then
            (case pong_nonce (en_payload e) of
               None \<Rightarrow> refused '''' w
             | Some nonce \<Rightarrow>
                 let (ok, ps) = validPong (we_timeout v) (wi_now x) nonce (ws_pings w); w1 = w\<lparr>ws_pings := ps\<rparr> in
                 if \<not> ok then refused '''' w1 else touched v x w1)
          else
            let (present, w1) = touched v x w in
            if \<not> present then (False, w1)
            else if en_type e = TypePlatformSnapshotRequested then
              (if snapshot_request (en_payload e) = None then refused '''' w1
               else (True, on_connection v (sendLatestSnapshot (we_game v) (wi_snapshots x)) w1))
            else if isClientAction (en_type e) then (True, applyAction v x e w1)
            else refused (en_action e) w1)"

text \<open>The connections of a user whose credential was revoked are closed.\<close>

definition credentialValid :: "db \<Rightarrow> hubConnection \<Rightarrow> bool" where
  "credentialValid db c = validConnectionCredential \<lparr>id_user = co_user c, id_epoch = co_epoch c\<rparr> db"

definition DisconnectRevokedUser :: "db \<Rightarrow> bytes \<Rightarrow> hubMatch \<Rightarrow> hubMatch" where
  "DisconnectRevokedUser db user m =
     fold close_connection (map co_id (filter (\<lambda>c. co_user c = user \<and> \<not> credentialValid db c) (hm_connections m))) m"

subsection \<open>The match in the hub\<close>

lemma attempts_cases:
  assumes "\<And>made r c'. send made r c = (Stale, c') \<Longrightarrow> c' = c"
  shows "send_attempts send act n ss c = c\<lparr>co_closing := True\<rparr> \<or> send_attempts send act n ss c = enqueueError ''internal_error'' act c \<or>
    (\<exists>made r. send_attempts send act n ss c = closed_unless_sent (send made r c))"
proof (induction n arbitrary: ss)
  case (Suc n)
  show ?case
  proof (cases ss)
    case (Cons s ts)
    show ?thesis
    proof (cases s)
      case (Some p)
      obtain made r where p: "p = (made, r)" by fastforce
      obtain result c' where e: "send made r c = (result, c')" by fastforce
      show ?thesis
      proof (cases "result = Stale")
        case True
        then have "c' = c" using assms e by simp
        then show ?thesis using Suc.IH [of ts] True by (simp add: Cons Some p e)
      next
        case False
        then have "send_attempts send act (Suc n) ss c = closed_unless_sent (send made r c)"
          by (simp add: Cons Some p e closed_unless_sent_def)
        then show ?thesis by blast
      qed
    qed (simp add: Cons)
  qed simp
qed simp

lemma stale_same: "enqueueState made r c = (Stale, c') \<Longrightarrow> c' = c" "enqueueErrorAndSnapshot made code act r c = (Stale, c') \<Longrightarrow> c' = c"
  by (auto simp: enqueueState_def enqueueStateLocked_def enqueueErrorAndSnapshot_def split: if_splits option.splits)

lemma update_cong:
  assumes "hub_ok m" "c \<in> set (hm_connections m)" "f c = g c"
  shows "update_connection (co_id c) f m = update_connection (co_id c) g m"
proof -
  have "(if co_id d = co_id c then f d else d) = (if co_id d = co_id c then g d else d)" if "d \<in> set (hm_connections m)" for d
    using one_connection [OF assms(1,2) that] assms(3) by auto
  then show ?thesis by (simp add: update_connection_def cong: map_cong)
qed

lemma run_sends:
  assumes run: "hub_run g m" and c: "c \<in> set (hm_connections m)" "co_ready c"
  shows "hub_run g (update_connection (co_id c) (sendLatestSnapshot g' ss) m)"
    "hub_run g (update_connection (co_id c) (sendStaleResponse g' act ss) m)"
    "hub_run g (update_connection (co_id c) (enqueueError code act) m)"
proof -
  note ok = ho_run_ok [OF run]
  note further = hub_further [OF run]
  have failed: "hub_run g (update_connection (co_id c) f m)" if "f c = c\<lparr>co_closing := True\<rparr>" for f
    using further [OF hub_step.failed [of g m "co_id c"]] update_cong [OF ok c(1), of f "\<lambda>c. c\<lparr>co_closing := True\<rparr>"] that by simp
  have refused: "hub_run g (update_connection (co_id c) f m)" if "f c = enqueueError code' act' c" for f code' act'
    using further [OF hub_step.refused [of g m "co_id c" code' act']] update_cong [OF ok c(1), of f "enqueueError code' act'"] that by simp
  show "hub_run g (update_connection (co_id c) (enqueueError code act) m)" by (rule refused) simp
  have latest: "hub_run g (update_connection (co_id c) f m)" if "f c = closed_unless_sent (enqueueState made r c)" for f made r
    using further [OF hub_step.latest [OF c(1) disjI1 [OF c(2)], of g made r]] update_cong [OF ok c(1), of f "latest_attempt made r"] that
    by (simp add: latest_attempt_def)
  have outdated: "hub_run g (update_connection (co_id c) f m)"
    if "f c = closed_unless_sent (enqueueErrorAndSnapshot made ''stale_revision'' act r c)" for f made r
    using further [OF hub_step.outdated [OF c(1) disjI1 [OF c(2)], of g made act r]] update_cong [OF ok c(1), of f "stale_attempt made act r"] that
    by (simp add: stale_attempt_def)
  show "hub_run g (update_connection (co_id c) (sendLatestSnapshot g' ss) m)"
    using attempts_cases [of enqueueState c "''''" "Suc (nat (maximumMatchEventsFor g'))" ss] stale_same(1) failed refused latest
    unfolding sendLatestSnapshot_def by blast
  show "hub_run g (update_connection (co_id c) (sendStaleResponse g' act ss) m)"
    using attempts_cases [of "\<lambda>made. enqueueErrorAndSnapshot made ''stale_revision'' act" c act "Suc (nat (maximumMatchEventsFor g'))" ss]
      stale_same(2) failed refused outdated
    unfolding sendStaleResponse_def by blast
qed

lemma update_fields [simp]: "hm_published (update_connection i f m) = hm_published m" "hm_pending (update_connection i f m) = hm_pending m"
  by (simp_all add: update_connection_def)

subsection \<open>The service and the hub\<close>

text \<open>
  The revision that the table of matches has, and how the hub follows it. An event is committed before it is
  published, so events may be on their way: \<open>fl\<close> are the revisions of those. In step means that every other stored event, up to
  the number of events that the hub accepts, was published or is pending, and that what is pending has a predecessor missing.
\<close>

definition stored :: "db \<Rightarrow> bytes \<Rightarrow> int" where
  "stored db i = (case find_match db i of None \<Rightarrow> 0 | Some r \<Rightarrow> m_revision r)"

definition in_step :: "bytes \<Rightarrow> int list \<Rightarrow> db \<Rightarrow> bytes \<Rightarrow> hubMatch \<Rightarrow> bool" where
  "in_step g fl db i m \<longleftrightarrow> find_match db i \<noteq> None \<and>
     hm_published m \<le> stored db i \<and> hm_published m + 1 \<notin> set (hm_pending m) \<and>
     (\<forall>r\<in>set (hm_pending m). hm_published m < r \<and> r \<le> stored db i \<and> r \<le> maximumMatchEventsFor g) \<and>
     {hm_published m + 1..min (stored db i) (maximumMatchEventsFor g)} \<subseteq> set (hm_pending m) \<union> set fl"

text \<open>A commit adds an event that is on its way, and its publication removes it.\<close>

lemma in_step_commit:
  assumes "in_step g fl db i m" "find_match db' i \<noteq> None" "stored db' i = stored db i + 1"
  shows "in_step g (stored db' i # fl) db' i m"
proof -
  have "{hm_published m + 1..min (stored db' i) (maximumMatchEventsFor g)} \<subseteq>
      insert (stored db' i) {hm_published m + 1..min (stored db i) (maximumMatchEventsFor g)}"
    using assms(3) by auto
  also have "\<dots> \<subseteq> insert (stored db' i) (set (hm_pending m) \<union> set fl)" using assms(1) unfolding in_step_def by blast
  finally have "{hm_published m + 1..min (stored db' i) (maximumMatchEventsFor g)} \<subseteq> set (hm_pending m) \<union> set (stored db' i # fl)" by simp
  moreover have "hm_published m \<le> stored db' i" "\<forall>r\<in>set (hm_pending m). r \<le> stored db' i"
    using assms(1,3) by (auto simp: in_step_def)
  ultimately show ?thesis using assms(1,2) unfolding in_step_def by blast
qed

lemma in_step_publish:
  assumes s: "in_step g fl db i m" and m: "hm_connections m \<noteq> []" "0 \<le> hm_published m" and r: "r \<le> stored db i"
  shows "in_step g (removeAll r fl) db i (Publish g r m)"
proof -
  let ?p = "hm_published m" and ?M = "maximumMatchEventsFor g" and ?S = "stored db i"
  have sD: "\<And>x. x \<in> set (hm_pending m) \<Longrightarrow> ?p < x \<and> x \<le> ?S \<and> x \<le> ?M"
    "\<And>x. ?p < x \<Longrightarrow> x \<le> ?S \<Longrightarrow> x \<le> ?M \<Longrightarrow> x \<in> set (hm_pending m) \<or> x \<in> set fl"
    "?p \<le> ?S" "?p + 1 \<notin> set (hm_pending m)" "find_match db i \<noteq> None"
    using s by (auto simp: in_step_def subset_iff)
  show ?thesis
  proof (cases "r \<le> ?p \<or> r > ?M")
    case True
    then have "Publish g r m = m" by (auto simp: Publish_def)
    moreover have "{?p + 1..min ?S ?M} \<subseteq> set (hm_pending m) \<union> (set fl - {r})"
    proof
      fix x
      assume x: "x \<in> {?p + 1..min ?S ?M}"
      then have "x \<noteq> r" using True by auto
      then show "x \<in> set (hm_pending m) \<union> (set fl - {r})" using sD(2) [of x] x by auto
    qed
    ultimately show ?thesis using sD by (simp add: in_step_def)
  next
    case False
    define q where "q = m\<lparr>hm_pending := (if r \<in> set (hm_pending m) then hm_pending m else hm_pending m @ [r])\<rparr>"
    define n where "n = flushPublishedLocked q"
    have pub: "Publish g r m = n" using False m by (simp add: Publish_def n_def q_def)
    have q: "hm_published q = ?p" "set (hm_pending q) = insert r (set (hm_pending m))" by (auto simp: q_def)
    have "\<forall>x\<in>set (hm_pending q). hm_published q < x" unfolding q using sD(1) False by auto
    from flush_result [OF this, folded n_def, unfolded q]
    have n: "?p \<le> hm_published n" "{x. ?p < x \<and> x \<le> hm_published n} \<union> set (hm_pending n) = insert r (set (hm_pending m))"
      "hm_published n + 1 \<notin> set (hm_pending n)" "\<forall>x\<in>set (hm_pending n). hm_published n < x"
      by simp_all
    have ub: "x \<le> ?S \<and> x \<le> ?M" if "x \<in> insert r (set (hm_pending m))" for x
      using that sD(1) [of x] r False by auto
    have le: "hm_published n \<le> ?S"
    proof (cases "?p < hm_published n")
      case True
      then have "hm_published n \<in> insert r (set (hm_pending m))" unfolding n(2) [symmetric] by simp
      then show ?thesis using ub by blast
    qed (use sD(3) n(1) in simp)
    have pend: "hm_published n < x \<and> x \<le> ?S \<and> x \<le> ?M" if "x \<in> set (hm_pending n)" for x
    proof -
      have "x \<in> insert r (set (hm_pending m))" unfolding n(2) [symmetric] using that by simp
      then show ?thesis using ub n(4) that by blast
    qed
    have "x \<in> set (hm_pending n) \<union> set (removeAll r fl)" if x: "x \<in> {hm_published n + 1..min ?S ?M}" for x
    proof -
      have xx: "?p < x" "x \<le> ?S" "x \<le> ?M" "hm_published n < x" using x n(1) by auto
      show ?thesis
      proof (cases "x = r \<or> x \<in> set (hm_pending m)")
        case True
        then have "x \<in> {x. ?p < x \<and> x \<le> hm_published n} \<union> set (hm_pending n)" unfolding n(2) by auto
        then show ?thesis using xx(4) by auto
      next
        case False
        then show ?thesis using sD(2) [OF xx(1-3)] by auto
      qed
    qed
    then show ?thesis unfolding pub in_step_def using le n(3) pend sD(5) by blast
  qed
qed

lemma in_step_more: "in_step g fl db i m \<Longrightarrow> set fl \<subseteq> set fl' \<Longrightarrow> in_step g fl' db i m"
  unfolding in_step_def by blast

text \<open>When nothing is on its way, everything was published.\<close>

lemma in_step_drained:
  assumes "in_step g [] db i m"
  shows "hm_pending m = [] \<and> min (stored db i) (maximumMatchEventsFor g) \<le> hm_published m"
proof -
  have le: "min (stored db i) (maximumMatchEventsFor g) \<le> hm_published m"
  proof (rule ccontr)
    assume "\<not> ?thesis"
    then have "hm_published m + 1 \<in> {hm_published m + 1..min (stored db i) (maximumMatchEventsFor g)}" by auto
    then show False using assms by (auto simp: in_step_def)
  qed
  have "\<not> (x \<in> set (hm_pending m))" for x using assms le by (fastforce simp: in_step_def)
  then have "hm_pending m = []" by (meson last_in_set)
  then show ?thesis using le by simp
qed

lemma event_revision:
  assumes "tables_ok sv db" "m \<in> set (d_matches db)" "e \<in> set (d_events db)" "e_match e = m_id m"
  shows "e_revision e \<le> m_revision m"
proof -
  have "e_revision e \<in> set (map e_revision (filter (\<lambda>e. e_match e = m_id m) (d_events db)))" using assms(3,4) by auto
  also have "\<dots> = int ` {1..<Suc (nat (m_revision m))}"
    using tables_ok_row [OF assms(1,2)] unfolding row_ok_def by (metis list.set_map set_upt)
  finally show ?thesis using tables_ok_row [OF assms(1,2)] by (auto simp: row_ok_def)
qed

lemma stepped_revision:
  assumes ok: "tables_ok sv db'" and m: "m \<in> set (d_matches db)" and f: "moves_on db m f" and db': "db' = stepped_db m e f ls db"
  shows "find_match db' (m_id m) = Some (f m) \<and> m_revision (f m) = m_revision m + 1 \<and> db' \<noteq> db"
proof -
  have fm: "m_id (f m) = m_id m" "m_revision (f m) = m_revision m + 1" using f by (simp_all add: moves_on_def)
  have d: "distinct (map m_id (d_matches db'))" using ok by (simp add: tables_ok_def)
  have "f m \<in> set (d_matches db')" using m by (simp add: db')
  from find_match_key [OF d this] fm have "find_match db' (m_id m) = Some (f m)" by simp
  moreover have "d_events db' \<noteq> d_events db" by (simp add: db')
  ultimately show ?thesis using fm by auto
qed

lemma apply_revision:
  assumes a: "ApplyAction sv flt ctx conn now random r db = Inr ((e, snap), db')" and ok: "tables_ok sv db"
    and row: "find_match db (rq_match r) = Some m"
  shows "db' = db \<and> e_revision e \<le> m_revision m \<or>
    (\<exists>m'. find_match db' (rq_match r) = Some m' \<and> m_revision m' = m_revision m + 1 \<and> e_revision e = m_revision m + 1 \<and> db' \<noteq> db)"
proof -
  obtain n where n: "n \<in> set (d_matches db)" "m_id n = rq_match r"
    and eff: "case find (same_request r) (d_events db) of
       Some e0 \<Rightarrow> e = e0 \<and> db' = db \<and> ms_match snap = n
     | None \<Rightarrow>
         db' = db \<and> ms_match snap = n \<and> m_status n = StatusAbandoned \<and> m_game n = FlightChess.GameID \<and>
           e \<in> set (d_events db) \<and> e_match e = rq_match r \<and> e_type e = TypeAbandoned \<or>
         m_status n = StatusActive \<and> rq_actor r \<in> set (users_of db (m_id n)) \<and> current_revision db n r \<and>
           m_revision n < max_i64 \<and>
           (\<exists>oc f ls. outcome_ok oc \<and> moves_on db n f \<and> f n = outcome_match oc (m_revision n + 1) now n \<and>
             e = outcome_event n r oc now \<and> ms_match snap = f n \<and> db' = stepped_db n e f ls db)"
    using apply_effect [OF a ok] by blast
  have "distinct (map m_id (d_matches db))" using ok by (simp add: tables_ok_def)
  from find_match_key [OF this n(1)] row n(2) have nm: "n = m" by simp
  have old: "e_revision e \<le> m_revision m" if "e \<in> set (d_events db)" "e_match e = rq_match r"
    using event_revision [OF ok n(1) that(1)] that(2) n(2) nm by simp
  show ?thesis
  proof (cases "find (same_request r) (d_events db)")
    case (Some e0)
    have "e0 \<in> set (d_events db)" "same_request r e0" using Some by (auto simp: find_Some_iff)
    moreover have "e = e0" "db' = db" using eff unfolding Some option.case by simp_all
    ultimately have "e \<in> set (d_events db)" "e_match e = rq_match r" "db' = db" by (simp_all add: same_request_def)
    then show ?thesis using old by simp
  next
    case None
    then consider "db' = db" "e \<in> set (d_events db)" "e_match e = rq_match r"
      | oc f ls where "moves_on db n f" "e = outcome_event n r oc now" "db' = stepped_db n e f ls db"
      using eff unfolding None option.case by blast
    then show ?thesis
    proof cases
      case 1
      then show ?thesis using old by simp
    next
      case 2
      have "e_revision e = m_revision m + 1" by (simp add: 2(2) nm outcome_event_def)
      moreover have "find_match db' (rq_match r) = Some (f n) \<and> m_revision (f n) = m_revision n + 1 \<and> db' \<noteq> db"
        using stepped_revision [OF tables_ok_apply [OF a ok] n(1) 2(1,3)] n(2) by simp
      ultimately show ?thesis using nm by blast
    qed
  qed
qed

lemma reachable_apply:
  assumes "reachable sv db" "ApplyAction sv flt ctx conn now random r db = Inr (es, db')"
  shows "reachable sv db'"
proof -
  obtain us hs where "service_run sv hs (empty_db us) db" using assms(1) unfolding reachable_def by blast
  from run_step [OF this service_step.action [OF assms(2)]] show ?thesis unfolding reachable_def by auto
qed

lemma informed:
  assumes "hub_run g m" "d \<in> set (hm_connections m)" "co_ready d" "\<not> co_closing d"
  shows "follows 0 (co_out d) \<and> hm_published m \<le> known 0 (co_out d)"
  using ho_run_ok [OF assms(1)] assms(2-4) unfolding hub_ok_def conn_ok_def sent_ok_def by auto

lemma on_connection_fields [simp]:
  "ws_db (on_connection v f w) = ws_db w" "ws_match (on_connection v f w) = update_connection (we_index v) f (ws_match w)"
  by (simp_all add: on_connection_def)

text \<open>What every message keeps.\<close>

definition served :: "ws_env \<Rightarrow> int list \<Rightarrow> ws_state \<Rightarrow> bool" where
  "served v fl w \<longleftrightarrow> reachable (we_service v) (ws_db w) \<and> hub_run (we_game v) (ws_match w) \<and>
     in_step (we_game v) fl (ws_db w) (pk_match (we_key v)) (ws_match w)"

lemma served_answer:
  assumes "served v fl w" "c \<in> set (hm_connections (ws_match w))" "co_id c = we_index v" "co_ready c"
  shows "served v fl (on_connection v (enqueueError code act) w)" "served v fl (on_connection v (sendLatestSnapshot g ss) w)"
    "served v fl (on_connection v (sendStaleResponse g act ss) w)"
  using assms(1) run_sends [OF _ assms(2,4), unfolded assms(3)] by (simp_all add: served_def in_step_def)

lemma applied:
  assumes s: "served v fl w" and c: "c \<in> set (hm_connections (ws_match w))" "co_id c = we_index v" "co_ready c"
  shows "served v fl (applyAction v x e w) \<and>
    stored (ws_db (applyAction v x e w)) (pk_match (we_key v)) =
      stored (ws_db w) (pk_match (we_key v)) + (if ws_db (applyAction v x e w) = ws_db w then 0 else 1)"
proof -
  let ?i = "pk_match (we_key v)" and ?m = "ws_match w" and ?w = "applyAction v x e w" and ?g = "we_game v"
  let ?r = "hub_request ?i (pk_user (we_key v)) e"
  let ?A = "ApplyAction (we_service v) (we_faults v) None (Some (we_identity v)) (wi_milli x) (wi_random x) ?r (ws_db w)"
  have re: "reachable (we_service v) (ws_db w)" and run: "hub_run ?g ?m" and st: "in_step ?g fl (ws_db w) ?i ?m"
    using s by (simp_all add: served_def)
  obtain m where m: "find_match (ws_db w) ?i = Some m" using st by (auto simp: in_step_def)
  then have stm: "stored (ws_db w) ?i = m_revision m" by (simp add: stored_def)
  have conns: "hm_connections ?m \<noteq> []" and 0: "0 \<le> hm_published ?m" using c(1) ho_run_ok [OF run] by (auto simp: hub_ok_def)
  show ?thesis
  proof (cases ?A)
    case (Inl err)
    then have "?w = on_connection v (sendStaleResponse ?g (en_action e) (wi_snapshots x)) w \<or>
        ?w = on_connection v (enqueueError (safeActionErrorCode err) (en_action e)) w"
      by (simp add: applyAction_def)
    then show ?thesis using served_answer [OF s c] by auto
  next
    case (Inr res)
    obtain ev snap db' where a: "?A = Inr ((ev, snap), db')" using Inr by (metis surj_pair)
    have w: "ws_db ?w = db'" "ws_match ?w = Publish ?g (e_revision ev) ?m" using a by (simp_all add: applyAction_def)
    have mid: "rq_match ?r = ?i" by (simp add: hub_request_def)
    note rev = apply_revision [OF a mh_reachable_ok [OF re], unfolded mid, OF m]
    have "hub_run ?g (ws_match ?w)" unfolding w(2) by (rule hub_further [OF run hub_step.event])
    moreover have "reachable (we_service v) (ws_db ?w)" unfolding w(1) by (rule reachable_apply [OF re a])
    moreover have "in_step ?g fl (ws_db ?w) ?i (ws_match ?w) \<and>
        stored (ws_db ?w) ?i = stored (ws_db w) ?i + (if ws_db ?w = ws_db w then 0 else 1)"
      using rev
    proof
      assume k: "db' = ws_db w \<and> e_revision ev \<le> m_revision m"
      then have "in_step ?g (removeAll (e_revision ev) fl) (ws_db w) ?i (ws_match ?w)"
        unfolding w(2) using in_step_publish [OF st conns 0] stm by simp
      then have "in_step ?g fl (ws_db w) ?i (ws_match ?w)" by (rule in_step_more) auto
      then show ?thesis using k w by simp
    next
      assume "\<exists>m'. find_match db' ?i = Some m' \<and> m_revision m' = m_revision m + 1 \<and> e_revision ev = m_revision m + 1 \<and> db' \<noteq> ws_db w"
      then obtain m' where m': "find_match db' ?i = Some m'" "m_revision m' = m_revision m + 1" "e_revision ev = m_revision m + 1" "db' \<noteq> ws_db w"
        by blast
      then have st': "stored db' ?i = stored (ws_db w) ?i + 1" "e_revision ev = stored db' ?i" using stm by (simp_all add: stored_def)
      have "in_step ?g (stored db' ?i # fl) db' ?i ?m" using in_step_commit [OF st _ st'(1)] m'(1) by simp
      from in_step_publish [OF this conns 0, of "e_revision ev"]
      have "in_step ?g (removeAll (e_revision ev) (stored db' ?i # fl)) db' ?i (ws_match ?w)" unfolding w(2) st'(2) by simp
      then have "in_step ?g fl db' ?i (ws_match ?w)" by (rule in_step_more) (auto simp: st'(2))
      then show ?thesis using m'(4) st'(1) w(1) by simp
    qed
    ultimately show ?thesis by (simp add: served_def)
  qed
qed

lemma served_irrelevant [simp]: "served v fl (w\<lparr>ws_pings := ps\<rparr>) = served v fl w" "served v fl (w\<lparr>ws_presence := p\<rparr>) = served v fl w"
  by (simp_all add: served_def)

text \<open>A message, and the actions among them.\<close>

definition accepts_action :: "ws_env \<Rightarrow> ws_input \<Rightarrow> db \<Rightarrow> db \<Rightarrow> bool" where
  "accepts_action v x db db' \<longleftrightarrow> (\<exists>e es. DecodeClient (sv_parse (we_service v)) (wi_data x) = Inr e \<and> isClientAction (en_type e) \<and>
     en_match e = pk_match (we_key v) \<and> en_game e = we_game v \<and> validConnectionCredential (we_identity v) db \<and>
     ApplyAction (we_service v) (we_faults v) None (Some (we_identity v)) (wi_milli x) (wi_random x)
       (hub_request (pk_match (we_key v)) (pk_user (we_key v)) e) db = Inr (es, db'))"

lemma applied_db:
  "ws_db (applyAction v x e w) = ws_db w \<or>
   (\<exists>es. ApplyAction (we_service v) (we_faults v) None (Some (we_identity v)) (wi_milli x) (wi_random x)
       (hub_request (pk_match (we_key v)) (pk_user (we_key v)) e) (ws_db w) = Inr (es, ws_db (applyAction v x e w)))"
  by (auto simp: applyAction_def split: sum.splits prod.splits)

lemma touched_fields:
  "touched v x w = (ok, w1) \<Longrightarrow> ws_db w1 = ws_db w \<and> ws_match w1 = ws_match w \<and> (served v fl w1 \<longleftrightarrow> served v fl w)"
  by (auto simp: touched_def split: prod.splits)

lemma message_served:
  assumes s: "served v fl w" and c: "c \<in> set (hm_connections (ws_match w))" "co_id c = we_index v" "co_ready c"
    and r: "readMessage v x w = (on, w')"
  shows "served v fl w' \<and> (ws_db w' = ws_db w \<or> accepts_action v x (ws_db w) (ws_db w'))"
proof -
  let ?invalid = "\<lambda>act w. on_connection v (enqueueError ''invalid_request'' act) w"
  have refused: "served v fl (?invalid act w1) \<and> ws_db (?invalid act w1) = ws_db w"
    if "served v fl w1" "ws_match w1 = ws_match w" "ws_db w1 = ws_db w" for act w1
    using served_answer(1) [OF that(1)] c that by simp
  show ?thesis
  proof (cases "wi_text x \<and> validConnectionCredential (we_identity v) (ws_db w)")
    case False
    then have "w' = ?invalid '''' w \<or> w' = w" using r by (auto simp: readMessage_def Let_def split: if_splits)
    then show ?thesis using refused [OF s] s by auto
  next
    case True
    show ?thesis
    proof (cases "DecodeClient (sv_parse (we_service v)) (wi_data x)")
      case (Inl err)
      then have "w' = ?invalid '''' w" using r True by (simp add: readMessage_def Let_def)
      then show ?thesis using refused [OF s] by simp
    next
      case (Inr e)
      let ?bad = "en_type e = TypePlatformConnect \<or> en_match e \<noteq> pk_match (we_key v) \<or> en_game e \<noteq> we_game v"
      consider "?bad" | "\<not> ?bad" "en_type e = TypePlatformPong" | "\<not> ?bad" "en_type e \<noteq> TypePlatformPong" by blast
      then show ?thesis
      proof cases
        case 1
        then have "w' = ?invalid '''' w" using r True Inr by (auto simp: readMessage_def Let_def)
        then show ?thesis using refused [OF s] by simp
      next
        case 2
        have p: "touched v x (w\<lparr>ws_pings := ps\<rparr>) = (ok, w1) \<Longrightarrow> served v fl w1 \<and> ws_db w1 = ws_db w" for ps ok w1
          using touched_fields [of v x "w\<lparr>ws_pings := ps\<rparr>"] s by simp
        have q: "served v fl (?invalid '''' (w\<lparr>ws_pings := ps\<rparr>)) \<and> ws_db (?invalid '''' (w\<lparr>ws_pings := ps\<rparr>)) = ws_db w" for ps
          using refused [of "w\<lparr>ws_pings := ps\<rparr>"] s by simp
        from 2 r True Inr have "w' = ?invalid '''' w \<or> (\<exists>ps. w' = ?invalid '''' (w\<lparr>ws_pings := ps\<rparr>) \<or> touched v x (w\<lparr>ws_pings := ps\<rparr>) = (on, w'))"
          by (auto simp: readMessage_def Let_def split: option.splits prod.splits if_splits)
        then show ?thesis using refused [OF s] p q by auto
      next
        case 3
        obtain present w1 where t: "touched v x w = (present, w1)" by fastforce
        have f: "ws_db w1 = ws_db w" "ws_match w1 = ws_match w" "served v fl w1" using touched_fields [OF t] s by simp_all
        have c1: "c \<in> set (hm_connections (ws_match w1))" using c(1) f(2) by simp
        have "w' = w1 \<or> (\<exists>act. w' = ?invalid act w1) \<or> w' = on_connection v (sendLatestSnapshot (we_game v) (wi_snapshots x)) w1 \<or>
            isClientAction (en_type e) \<and> w' = applyAction v x e w1"
          using r True Inr 3 by (auto simp: readMessage_def Let_def t split: if_splits)
        then consider "w' = w1" | act where "w' = ?invalid act w1"
          | "w' = on_connection v (sendLatestSnapshot (we_game v) (wi_snapshots x)) w1" | "isClientAction (en_type e)" "w' = applyAction v x e w1"
          by blast
        then show ?thesis
        proof cases
          case 4
          have "accepts_action v x (ws_db w) (ws_db w') \<or> ws_db w' = ws_db w"
            using applied_db [of v x e w1] 3 4 f(1) Inr True unfolding accepts_action_def by auto
          then show ?thesis using applied [OF f(3) c1 c(2,3)] 4(2) by auto
        qed (use f served_answer(2) [OF f(3) c1 c(2,3)] refused [OF f(3,2,1)] in auto)
      qed
    qed
  qed
qed

text \<open>
  C40. What a player does reaches both players. Suppose that every event that the service has stored for a match, up to the number
  of events that the hub accepts, was published by the hub, is pending in it, or is still on its way
  to it between its commit and its publication (the revisions \<open>fl\<close>). Any action of a connected client, whether it
  succeeds, fails or is a retry, adds at most one event to what is stored, and leaves no event on its way that was not before. Every connection that is
  ready and stays open was sent all events that were published, in order and without a gap. So when no
  event is on its way, nothing is pending, and each of these connections was sent all that is stored up to that number.
\<close>
theorem hub_action:
  fixes v :: ws_env and fl :: "int list" and x :: ws_input and e :: Envelope and w :: ws_state
  assumes "served v fl w" "c \<in> set (hm_connections (ws_match w))" "co_id c = we_index v" "co_ready c"
  defines "w' \<equiv> applyAction v x e w"
    and "seen \<equiv> min (stored (ws_db (applyAction v x e w)) (pk_match (we_key v))) (maximumMatchEventsFor (we_game v))"
  shows "served v fl w' \<and>
    stored (ws_db w') (pk_match (we_key v)) = stored (ws_db w) (pk_match (we_key v)) + (if ws_db w' = ws_db w then 0 else 1) \<and>
    (fl = [] \<longrightarrow> hm_pending (ws_match w') = [] \<and> seen \<le> hm_published (ws_match w')) \<and>
    (\<forall>d\<in>set (hm_connections (ws_match w')). co_ready d \<and> \<not> co_closing d \<longrightarrow>
       follows 0 (co_out d) \<and> hm_published (ws_match w') \<le> known 0 (co_out d) \<and> (fl = [] \<longrightarrow> seen \<le> known 0 (co_out d)))"
proof -
  have k: "served v fl w'"
    "stored (ws_db w') (pk_match (we_key v)) = stored (ws_db w) (pk_match (we_key v)) + (if ws_db w' = ws_db w then 0 else 1)"
    using applied [OF assms(1-4)] unfolding w'_def by simp_all
  have drained: "fl = [] \<longrightarrow> hm_pending (ws_match w') = [] \<and> seen \<le> hm_published (ws_match w')"
    using k(1) in_step_drained unfolding served_def seen_def w'_def by blast
  have "hub_run (we_game v) (ws_match w')" using k(1) by (simp add: served_def)
  note i = informed [OF this]
  have "follows 0 (co_out d) \<and> hm_published (ws_match w') \<le> known 0 (co_out d) \<and> (fl = [] \<longrightarrow> seen \<le> known 0 (co_out d))"
    if "d \<in> set (hm_connections (ws_match w'))" "co_ready d" "\<not> co_closing d" for d
    using i [OF that] drained by linarith
  with k drained show ?thesis by blast
qed

subsection \<open>Revoked connections\<close>

lemma run_closes: "hub_run g m \<Longrightarrow> hub_run g (fold close_connection js m)"
proof (induction js arbitrary: m)
  case (Cons i js)
  from hub_further [OF Cons.prems hub_step.gone [of g m i]] Cons.IH show ?case by simp
qed simp

lemma close_keeps: "set (hm_connections (close_connection i m)) = {c \<in> set (hm_connections m). co_id c \<noteq> i}"
  by (auto simp: close_connection_def Let_def new_match_def filter_empty_conv)

lemma closes_keep: "set (hm_connections (fold close_connection js m)) = {c \<in> set (hm_connections m). co_id c \<notin> set js}"
proof (induction js arbitrary: m)
  case (Cons i js)
  show ?case by (auto simp: Cons.IH close_keeps)
qed simp

text \<open>After a transfer no connection of the old device is left, and no other is closed.\<close>

lemma revoked_closed:
  assumes "hub_run g m"
  shows "hub_run g (DisconnectRevokedUser db user m) \<and>
    set (hm_connections (DisconnectRevokedUser db user m)) =
      {c \<in> set (hm_connections m). co_user c \<noteq> user \<or> credentialValid db c}"
proof -
  have "co_id c \<notin> co_id ` {d \<in> set (hm_connections m). co_user d = user \<and> \<not> credentialValid db d} \<longleftrightarrow>
      co_user c \<noteq> user \<or> credentialValid db c" if "c \<in> set (hm_connections m)" for c
    using one_connection [OF ho_run_ok [OF assms] that] that by force
  then show ?thesis using run_closes [OF assms] by (auto simp: DisconnectRevokedUser_def closes_keep)
qed

subsection \<open>A first move\<close>

definition first_envelope :: Envelope where
  "first_envelope = \<lparr>en_version = 1, en_game = Gomoku.GameID, en_match = first_match, en_revision = None, en_expected = Some 0,
     en_type = Gomoku.MoveRequested, en_action = replicate 36 CHR ''d'',
     en_payload = render (JObj (Gomoku.move_members (Gomoku.pt 7 7)))\<rparr>"

definition ann_env :: ws_env where
  "ann_env = \<lparr>we_service = sample_service, we_faults = (\<lambda>_. False), we_timeout = presenceConnectionTimeout, we_game = Gomoku.GameID,
     we_key = \<lparr>pk_match = first_match, pk_user = ann, pk_connection = ''k''\<rparr>, we_epoch = ''e'', we_index = 1\<rparr>"

definition ann_input :: ws_input where
  "ann_input = \<lparr>wi_text = True, wi_data = [], wi_now = 0, wi_touched = 0, wi_milli = 6, wi_random = [], wi_snapshots = []\<rparr>"

definition ann_world :: ws_state where
  "ann_world = \<lparr>ws_db = played_db, ws_match = one_client ann, ws_presence = NewPresence, ws_pings = []\<rparr>"

lemma credential_irrelevant:
  "validConnectionCredential c db \<Longrightarrow> ApplyAction sv flt ctx (Some c) now random r db = ApplyAction sv flt ctx None now random r db"
  by (simp add: ApplyAction_def)

lemma ann_moves: "ws_db (applyAction ann_env ann_input first_envelope ann_world) \<noteq> played_db"
proof -
  let ?w = "applyAction ann_env ann_input first_envelope ann_world"
  obtain e snap db' where a: "ApplyAction sample_service (\<lambda>_. False) None None 6 [] first_action played_db = Inr ((e, snap), db')" "d_events db' = [e]"
    using sample_move by blast
  have r: "hub_request first_match ann first_envelope = first_action"
    by (simp add: hub_request_def first_envelope_def first_action_def del: render.simps)
  have "validConnectionCredential \<lparr>id_user = ann, id_epoch = ''e''\<rparr> played_db"
    by (simp add: validConnectionCredential_def mh_sample_played sample_user_def)
  from credential_irrelevant [OF this] have "ws_db ?w = db'"
    by (simp add: applyAction_def ann_env_def ann_input_def ann_world_def we_identity_def r a(1))
  moreover have "db' \<noteq> played_db" using a(2) mh_sample_played(2) by auto
  ultimately show ?thesis by simp
qed

theorem hub_action_witness:
  "hm_published (ws_match (applyAction ann_env ann_input first_envelope ann_world)) = 1 \<and>
   hm_pending (ws_match (applyAction ann_env ann_input first_envelope ann_world)) = []"
proof -
  let ?w = "applyAction ann_env ann_input first_envelope ann_world"
  have find: "find_match played_db first_match = Some sample_match" by (simp add: find_match_def mh_sample_played sample_match_sel)
  then have zero: "stored (ws_db ann_world) first_match = 0" by (simp add: stored_def ann_world_def sample_match_sel)
  have key: "pk_match (we_key ann_env) = first_match" "we_game ann_env = Gomoku.GameID" by (simp_all add: ann_env_def)
  have max: "maximumMatchEventsFor Gomoku.GameID = 226"
    by (simp add: maximumMatchEventsFor_def maximumMatchEvents_def game_ids)
  have "served ann_env [] ann_world"
    using mh_sample_reach one_client_run [of ann] find
    by (simp add: served_def ann_env_def ann_world_def in_step_def stored_def sample_match_sel game_ids one_client_def new_match_def)
  note k = hub_action [OF this, of _ ann_input first_envelope, unfolded key max]
  let ?c = "(new_connection 1 ann ''e'' False)\<lparr>co_ready := True, co_out := [ConnectedMessage 0, SnapshotMessage 0]\<rparr>"
  have "?c \<in> set (hm_connections (ws_match ann_world))" "co_id ?c = we_index ann_env" "co_ready ?c"
    by (simp_all add: ann_world_def one_client_def new_connection_def ann_env_def)
  note k = k [OF this]
  have "stored (ws_db ?w) first_match = 1" using k ann_moves zero by (simp add: ann_world_def)
  moreover have "hm_published (ws_match ?w) \<le> stored (ws_db ?w) first_match" using k key by (simp add: served_def in_step_def)
  moreover have "1 \<le> hm_published (ws_match ?w)" using k calculation(1) by simp
  ultimately show ?thesis using k by simp
qed

end
