(* ===== verification/History.thy ===== *)
theory History
  imports MatchHistory Complex_Main "HOL-Library.Option_ord"
begin

text \<open>
  The history of a player (\<open>server/internal/matches/history.go\<close>): the finished and abandoned matches of
  one game, newest first, in pages that a cursor links, with statistics over all of them. Every row
  is checked before it is shown; one row that does not agree with the rules of its game fails
  the request. The properties: the pages that the cursors link list every match once, and the
  statistics count their entries; the entries of the two players of a match mirror each other.
\<close>

subsection \<open>Requests and results\<close>

definition historyOutcomeWin :: bytes where "historyOutcomeWin = ''win''"
definition historyOutcomeLoss :: bytes where "historyOutcomeLoss = ''loss''"
definition historyOutcomeDraw :: bytes where "historyOutcomeDraw = ''draw''"
definition historyOutcomeAbandoned :: bytes where "historyOutcomeAbandoned = ''abandoned''"

definition maximumHistoryWireMilliseconds :: int where
  "maximumHistoryWireMilliseconds = 8640000000000000"

lemmas outcome_defs = historyOutcomeWin_def historyOutcomeLoss_def historyOutcomeDraw_def historyOutcomeAbandoned_def

text \<open>
  A time of the cursor: nanoseconds since 1970, and whether it is a time in UTC without a reading of
  the monotonic clock, which is what \<open>==\<close> compares besides the instant.
\<close>

record HistoryCursor =
  hc_nanos :: int
  hc_plain :: bool
  hc_match :: bytes

record HistoryPageRequest =
  hq_limit :: int
  hq_cursor :: "HistoryCursor option"

text \<open>\<open>WinRate\<close> is the exact quotient; the code has the \<open>float64\<close> next to it.\<close>

record HistoryStatistics =
  hs_valid :: int
  hs_wins :: int
  hs_losses :: int
  hs_draws :: int
  hs_rate :: rat

record HistoryEntry =
  he_id :: bytes
  he_outcome :: bytes
  he_nickname :: bytes
  he_color :: bytes
  he_finished :: int
  he_moves :: int
  he_format :: bytes

record HistoryPage =
  hp_statistics :: HistoryStatistics
  hp_matches :: "HistoryEntry list"
  hp_next :: "HistoryCursor option"

record historyGameSpec =
  sp_decisive :: bytes
  sp_counted :: bytes
  sp_draw :: bool
  sp_format :: bool

datatype history_error =
    HistoryError match_error
  | HistoryFailure bytes bytes match_error

definition validHistoryPhase :: "bytes \<Rightarrow> bool" where
  "validHistoryPhase v \<longleftrightarrow> v \<in> {''begin'', ''statistics'', ''entries'', ''commit'', ''rollback''}"

definition validHistoryCategory :: "bytes \<Rightarrow> bool" where
  "validHistoryCategory v \<longleftrightarrow> v \<in> {''database'', ''data_integrity'', ''cancelled''}"

definition newHistoryFailure :: "bytes \<Rightarrow> bytes \<Rightarrow> match_error \<Rightarrow> history_error" where
  "newHistoryFailure phase category err =
     HistoryFailure (if validHistoryPhase phase then phase else ''entries'')
       (if validHistoryCategory category then category else ''data_integrity'') err"

definition HistoryFailureMetadata :: "history_error \<Rightarrow> (bytes \<times> bytes) option" where
  "HistoryFailureMetadata e =
     (case e of
        HistoryError _ \<Rightarrow> None
      | HistoryFailure phase category _ \<Rightarrow>
          if validHistoryPhase phase \<and> validHistoryCategory category then Some (phase, category) else None)"

definition matchHistoryGameSpec :: "bytes \<Rightarrow> historyGameSpec option" where
  "matchHistoryGameSpec g =
     (if g = ChineseCheckers.GameID then
        Some \<lparr>sp_decisive = ResultGoal, sp_counted = ChineseCheckers.MoveAccepted, sp_draw = False, sp_format = False\<rparr>
      else if g = FlightChess.GameID then
        Some \<lparr>sp_decisive = ResultGoal, sp_counted = FlightChess.MoveAccepted, sp_draw = False, sp_format = False\<rparr>
      else if g = Reversi.GameID then
        Some \<lparr>sp_decisive = ResultMajority, sp_counted = Reversi.MoveAccepted, sp_draw = True, sp_format = False\<rparr>
      else if g = Gomoku.GameID then
        Some \<lparr>sp_decisive = ResultFive, sp_counted = Gomoku.MoveAccepted, sp_draw = True, sp_format = False\<rparr>
      else if g = Rps.GameID then
        Some \<lparr>sp_decisive = ResultRounds, sp_counted = Rps.RoundRevealed, sp_draw = False, sp_format = True\<rparr>
      else None)"

definition nil_uuid :: bytes where
  "nil_uuid = ''00000000-0000-0000-0000-000000000000''"

definition ValidHistoryWireValues :: "uuid_parser \<Rightarrow> bytes \<Rightarrow> int \<Rightarrow> bool" where
  "ValidHistoryWireValues parse i millis \<longleftrightarrow>
     - maximumHistoryWireMilliseconds \<le> millis \<and> millis \<le> maximumHistoryWireMilliseconds \<and>
     (case parse i of
        None \<Rightarrow> False
      | Some u \<Rightarrow> uu_string u \<noteq> nil_uuid \<and> uu_string u = i \<and> uu_rfc4122 u \<and> 1 \<le> uu_version u \<and> uu_version u \<le> 5)"

text \<open>\<open>time.Time.UnixMilli\<close>, and \<open>time.UnixMilli\<close> in UTC.\<close>

definition unix_milli :: "int \<Rightarrow> int" where
  "unix_milli nanos = i64 (nanos div 10 ^ 6)"

definition milli_time :: "int \<Rightarrow> int" where
  "milli_time millis = millis * 10 ^ 6"

definition zero_time :: int where
  "zero_time = - 62135596800 * 10 ^ 9"

definition validHistoryCursor :: "uuid_parser \<Rightarrow> HistoryCursor option \<Rightarrow> bool" where
  "validHistoryCursor parse cursor \<longleftrightarrow>
     (case cursor of
        None \<Rightarrow> True
      | Some c \<Rightarrow>
          hc_nanos c \<noteq> zero_time \<and> ValidHistoryWireValues parse (hc_match c) (unix_milli (hc_nanos c)) \<and>
          hc_plain c \<and> hc_nanos c = milli_time (unix_milli (hc_nanos c)))"

definition validHistoryColors :: "bytes \<Rightarrow> bytes \<Rightarrow> bool" where
  "validHistoryColors current opponent \<longleftrightarrow>
     current = ColorBlack \<and> opponent = ColorWhite \<or> current = ColorWhite \<and> opponent = ColorBlack"

definition historyEntryFormat :: "historyGameSpec \<Rightarrow> bytes option \<Rightarrow> bytes option" where
  "historyEntryFormat spec config =
     (if \<not> sp_format spec then Some ''''
      else case config of
        None \<Rightarrow> None
      | Some text \<Rightarrow>
          (case configureRules rps_rules text of
             None \<Rightarrow> None
           | Some (_, normal) \<Rightarrow>
               (case Option.bind (json_parse normal) (\<lambda>j. Option.bind (obj_fields j)
                   (\<lambda>kvs. dec_field [''format''] kvs ''format'' dec_string '''')) of
                  None \<Rightarrow> None
                | Some format \<Rightarrow> if format = FormatSingleRound \<or> format = FormatBestOfThree then Some format else None)))"

subsection \<open>Statistics\<close>

datatype history_stmt = H_Begin | H_Caller | H_Wire | H_Statistics | H_Entries | H_Commit

type_synonym history_faults = "history_stmt \<Rightarrow> bool"

definition read_or :: "history_faults \<Rightarrow> history_stmt \<Rightarrow> bytes \<Rightarrow> 'a \<Rightarrow> history_error + 'a" where
  "read_or flt s phase x = (if flt s then Inl (newHistoryFailure phase ''database'' ErrInternal) else Inr x)"

text \<open>The ended matches of a game that the user is a player of, each with the player.\<close>

definition ended :: "bytes \<Rightarrow> match_row \<Rightarrow> bool" where
  "ended g m \<longleftrightarrow> m_game m = g \<and> (m_status m = StatusFinished \<or> m_status m = StatusAbandoned)"

definition history_rows :: "db \<Rightarrow> bytes \<Rightarrow> bytes \<Rightarrow> (player_row \<times> match_row) list" where
  "history_rows db g user =
     concat (map (\<lambda>p. map (Pair p) (filter (\<lambda>m. m_id m = p_match p \<and> ended g m) (d_matches db)))
       (filter (\<lambda>p. p_user p = user) (d_players db)))"

definition decisive :: "historyGameSpec \<Rightarrow> match_row \<Rightarrow> bool" where
  "decisive spec m \<longleftrightarrow> m_status m = StatusFinished \<and>
     (m_result m = Some (sp_decisive spec) \<or> m_result m = Some ResultResignation)"

definition won_by :: "historyGameSpec \<Rightarrow> bytes \<Rightarrow> match_row \<Rightarrow> bool" where
  "won_by spec user m \<longleftrightarrow> decisive spec m \<and> m_winner m = Some user"

definition lost_by :: "historyGameSpec \<Rightarrow> bytes \<Rightarrow> match_row \<Rightarrow> bool" where
  "lost_by spec user m \<longleftrightarrow> decisive spec m \<and> (case m_winner m of None \<Rightarrow> False | Some w \<Rightarrow> w \<noteq> user)"

definition drawn :: "historyGameSpec \<Rightarrow> match_row \<Rightarrow> bool" where
  "drawn spec m \<longleftrightarrow> m_status m = StatusFinished \<and> m_result m = Some ResultDraw \<and> sp_draw spec \<and> m_winner m = None"

definition given_up :: "match_row \<Rightarrow> bool" where
  "given_up m \<longleftrightarrow> m_status m = StatusAbandoned \<and> m_result m = None \<and> m_winner m = None"

definition members :: "db \<Rightarrow> bytes \<Rightarrow> player_row list" where
  "members db i = filter (\<lambda>p. p_match p = i) (d_players db)"

definition distinct_count :: "'a list \<Rightarrow> nat" where
  "distinct_count xs = length (remdups xs)"

definition invalid_row :: "db \<Rightarrow> historyGameSpec \<Rightarrow> match_row \<Rightarrow> bool" where
  "invalid_row db spec m \<longleftrightarrow>
     (let ps = members db (m_id m) in
        m_finished m = None \<or> length ps \<noteq> 2 \<or> distinct_count (map p_user ps) \<noteq> 2 \<or> distinct_count (map p_color ps) \<noteq> 2 \<or>
        list_ex (\<lambda>p. p_seat p \<notin> {0, 1} \<or> p_color p \<notin> {ColorBlack, ColorWhite}) ps \<or>
        \<not> (decisive spec m \<and> (case m_winner m of None \<Rightarrow> False | Some w \<Rightarrow> w \<in> p_user ` set ps) \<or>
           drawn spec m \<or> given_up m))"

definition tally :: "(match_row \<Rightarrow> bool) \<Rightarrow> (player_row \<times> match_row) list \<Rightarrow> int" where
  "tally P rows = int (length (filter (P \<circ> snd) rows))"

definition valid_wire_row :: "uuid_parser \<Rightarrow> historyGameSpec \<Rightarrow> match_row \<Rightarrow> bool" where
  "valid_wire_row parse spec m \<longleftrightarrow>
     (case m_finished m of None \<Rightarrow> False | Some t \<Rightarrow> ValidHistoryWireValues parse (m_id m) t) \<and>
     historyEntryFormat spec (m_config m) \<noteq> None"

definition validateHistoryWireRows ::
  "service \<Rightarrow> history_faults \<Rightarrow> db \<Rightarrow> bytes \<Rightarrow> bytes \<Rightarrow> historyGameSpec \<Rightarrow> history_error + unit" where
  "validateHistoryWireRows sv flt db g user spec =
     and_then (read_or flt H_Wire ''statistics'' (history_rows db g user)) (\<lambda>rows.
       if list_all (valid_wire_row (sv_parse sv) spec \<circ> snd) rows then Inr ()
       else Inl (newHistoryFailure ''statistics'' ''data_integrity'' ErrInternal))"

definition win_rate :: "int \<Rightarrow> int \<Rightarrow> rat" where
  "win_rate w n = (if n \<noteq> 0 then of_int w / of_int n else 0)"

definition readHistoryStatistics ::
  "service \<Rightarrow> history_faults \<Rightarrow> db \<Rightarrow> bytes \<Rightarrow> bytes \<Rightarrow> historyGameSpec \<Rightarrow> history_error + HistoryStatistics" where
  "readHistoryStatistics sv flt db g user spec =
     and_then (read_or flt H_Caller ''statistics'' (find_user db user)) (\<lambda>caller.
       case caller of
         None \<Rightarrow> Inl (HistoryError ErrInvalidRequest)
       | Some u \<Rightarrow>
           if us_enabled u \<noteq> 1 then Inl (HistoryError ErrInvalidRequest)
           else
       and_then (validateHistoryWireRows sv flt db g user spec) (\<lambda>_.
       and_then (read_or flt H_Statistics ''statistics'' (history_rows db g user)) (\<lambda>rows.
         let w = tally (won_by spec user) rows; l = tally (lost_by spec user) rows;
             d = tally (drawn spec) rows; bad = tally (invalid_row db spec) rows in
         if bad \<noteq> 0 \<or> w < 0 \<or> l < 0 \<or> d < 0
         then Inl (newHistoryFailure ''statistics'' ''data_integrity'' ErrInternal)
         else Inr \<lparr>hs_valid = i64 (w + l + d), hs_wins = w, hs_losses = l, hs_draws = d, hs_rate = win_rate w (i64 (w + l + d))\<rparr>)))"

subsection \<open>Entries\<close>

text \<open>A row of the query: the match and its player, the opponent if there is one, and the counts.\<close>

record history_row =
  hr_match :: match_row
  hr_player :: player_row
  hr_opponent :: "player_row option"
  hr_user :: "user option"
  hr_members :: int
  hr_users :: int
  hr_colors :: int
  hr_moves :: int

definition opponents_of :: "db \<Rightarrow> player_row \<Rightarrow> match_row \<Rightarrow> player_row option list" where
  "opponents_of db p m =
     (case filter (\<lambda>q. p_match q = m_id m \<and> p_user q \<noteq> p_user p) (d_players db) of
        [] \<Rightarrow> [None]
      | qs \<Rightarrow> map Some qs)"

definition joined_row :: "db \<Rightarrow> historyGameSpec \<Rightarrow> player_row \<Rightarrow> match_row \<Rightarrow> player_row option \<Rightarrow> history_row" where
  "joined_row db spec p m q =
     \<lparr>hr_match = m, hr_player = p, hr_opponent = q, hr_user = Option.bind q (\<lambda>r. find_user db (p_user r)),
      hr_members = int (length (members db (m_id m))), hr_users = int (distinct_count (map p_user (members db (m_id m)))),
      hr_colors = int (distinct_count (map p_color (members db (m_id m)))),
      hr_moves = int (length (filter (\<lambda>e. e_match e = m_id m \<and> e_type e = sp_counted spec) (d_events db)))\<rparr>"

definition row_key :: "match_row \<Rightarrow> int option \<times> bytes" where
  "row_key m = (m_finished m, m_id m)"

definition before_cursor :: "HistoryCursor option \<Rightarrow> match_row \<Rightarrow> bool" where
  "before_cursor cursor m \<longleftrightarrow>
     (case cursor of
        None \<Rightarrow> True
      | Some c \<Rightarrow>
          (case m_finished m of
             None \<Rightarrow> False
           | Some t \<Rightarrow> t < unix_milli (hc_nanos c) \<or> t = unix_milli (hc_nanos c) \<and> m_id m < hc_match c))"

definition query_rows :: "db \<Rightarrow> bytes \<Rightarrow> bytes \<Rightarrow> HistoryPageRequest \<Rightarrow> historyGameSpec \<Rightarrow> history_row list" where
  "query_rows db g user rq spec =
     take (nat (hq_limit rq + 1))
       (rev (sort_key (row_key \<circ> hr_match)
         (concat (map (\<lambda>(p, m). map (joined_row db spec p m) (opponents_of db p m))
           (filter (before_cursor (hq_cursor rq) \<circ> snd) (history_rows db g user))))))"

definition entry_outcome :: "historyGameSpec \<Rightarrow> match_row \<Rightarrow> bytes \<Rightarrow> bytes \<Rightarrow> bytes option" where
  "entry_outcome spec m user opponent =
     (if won_by spec user m then Some historyOutcomeWin
      else if won_by spec opponent m then Some historyOutcomeLoss
      else if drawn spec m then Some historyOutcomeDraw
      else if given_up m then Some historyOutcomeAbandoned
      else None)"

definition validatedHistoryEntry ::
  "service \<Rightarrow> historyGameSpec \<Rightarrow> bytes \<Rightarrow> history_row \<Rightarrow> HistoryEntry option" where
  "validatedHistoryEntry sv spec user r =
     (case (historyEntryFormat spec (m_config (hr_match r)), m_finished (hr_match r), hr_opponent r, hr_user r) of
        (Some format, Some t, Some q, Some u) \<Rightarrow>
          let m = hr_match r; p = hr_player r in
          if \<not> ValidHistoryWireValues (sv_parse sv) (m_id m) t \<or> p_user p \<noteq> user \<or> \<not> canonicalUUID (sv_parse sv) (p_user p) \<or>
             \<not> canonicalUUID (sv_parse sv) (p_user q) \<or> p_user q = p_user p \<or>
             hr_members r \<noteq> 2 \<or> hr_users r \<noteq> 2 \<or> hr_colors r \<noteq> 2 \<or>
             p_seat p \<notin> {0, 1} \<or> p_seat q \<notin> {0, 1} \<or> p_seat p = p_seat q \<or>
             \<not> validHistoryColors (p_color p) (p_color q) \<or> \<not> validStoredUser (sv_parse sv) (sv_ucd sv) u \<or>
             us_enabled u \<notin> {0, 1} \<or> hr_moves r < 0
          then None
          else (case entry_outcome spec m user (p_user q) of
              None \<Rightarrow> None
            | Some oc \<Rightarrow>
                Some \<lparr>he_id = m_id m, he_outcome = oc, he_nickname = us_nickname u, he_color = p_color p,
                  he_finished = milli_time t, he_moves = hr_moves r, he_format = format\<rparr>)
      | _ \<Rightarrow> None)"

text \<open>The loop over the rows; \<open>None\<close> when a row is not valid, also one beyond the limit.\<close>

fun entry_loop :: "service \<Rightarrow> historyGameSpec \<Rightarrow> bytes \<Rightarrow> int \<Rightarrow> history_row list \<Rightarrow> HistoryEntry list \<Rightarrow> HistoryEntry list option" where
  "entry_loop sv spec user limit [] es = Some es"
| "entry_loop sv spec user limit (r # rs) es =
     (case validatedHistoryEntry sv spec user r of
        None \<Rightarrow> None
      | Some e \<Rightarrow> entry_loop sv spec user limit rs (if int (length es) < limit then es @ [e] else es))"

definition readHistoryEntries ::
  "service \<Rightarrow> history_faults \<Rightarrow> db \<Rightarrow> bytes \<Rightarrow> bytes \<Rightarrow> HistoryPageRequest \<Rightarrow> historyGameSpec \<Rightarrow>
   history_error + HistoryEntry list \<times> HistoryCursor option" where
  "readHistoryEntries sv flt db g user rq spec =
     and_then (read_or flt H_Entries ''entries'' (query_rows db g user rq spec)) (\<lambda>rows.
       case entry_loop sv spec user (hq_limit rq) rows [] of
         None \<Rightarrow> Inl (newHistoryFailure ''entries'' ''data_integrity'' ErrInternal)
       | Some es \<Rightarrow>
           Inr (es, if int (length rows) > hq_limit rq
             then Some \<lparr>hc_nanos = he_finished (last es), hc_plain = True, hc_match = he_id (last es)\<rparr> else None))"

definition ListHistory ::
  "service \<Rightarrow> history_faults \<Rightarrow> bytes \<Rightarrow> bytes \<Rightarrow> HistoryPageRequest \<Rightarrow> db \<Rightarrow> history_error + HistoryPage" where
  "ListHistory sv flt g user rq db =
     (case (Lookup (sv_games sv) g, matchHistoryGameSpec g) of
        (Some rules, Some spec) \<Rightarrow>
          if ru_limit rules \<noteq> 2 \<or> \<not> canonicalUUID (sv_parse sv) user \<or> hq_limit rq < 1 \<or> hq_limit rq > 50 \<or>
             \<not> validHistoryCursor (sv_parse sv) (hq_cursor rq)
          then Inl (HistoryError ErrInvalidRequest)
          else
       and_then (read_or flt H_Begin ''begin'' ()) (\<lambda>_.
       and_then (readHistoryStatistics sv flt db g user spec) (\<lambda>statistics.
       and_then (readHistoryEntries sv flt db g user rq spec) (\<lambda>(entries, cursor).
         read_or flt H_Commit ''commit'' \<lparr>hp_statistics = statistics, hp_matches = entries, hp_next = cursor\<rparr>)))
      | _ \<Rightarrow> Inl (HistoryError ErrInvalidRequest))"

end
