(* ===== verification/HistoryPages.thy ===== *)
theory HistoryPages
  imports History
begin

text \<open>
  What the history shows: the rows of the query, the pages that the cursors link, the statistics, and the
  entries of the two players of a match.
\<close>

subsection \<open>Rows\<close>

lemma distinct_few: "(\<And>i. length (filter (\<lambda>x. f x = i) xs) \<le> 1) \<Longrightarrow> distinct (map f xs)"
proof (induction xs)
  case (Cons x xs)
  have "filter (\<lambda>y. f y = f x) xs = []" using Cons.prems [of "f x"] by simp
  then have "f x \<notin> f ` set xs" by (auto simp: filter_empty_conv)
  moreover have "length (filter (\<lambda>y. f y = i) xs) \<le> 1" for i
    using Cons.prems [of i] by (simp split: if_splits)
  ultimately show ?case using Cons.IH by simp
qed simp

lemma few_members:
  assumes ok: "tables_ok sv db"
  shows "length (filter (\<lambda>p. p_user p = user) (members db i)) \<le> 1"
proof (cases "i \<in> m_id ` set (d_matches db)")
  case True
  then obtain m where "m \<in> set (d_matches db)" "m_id m = i" by blast
  then have v: "valid_players (players_of db i)" using tables_ok_row [OF ok] by (auto simp: row_ok_def)
  then obtain a b where ab: "players_of db i = [a, b]" "p_user a \<noteq> p_user b"
    unfolding valid_players_def by (auto split: list.splits)
  have "length (filter (\<lambda>p. p_user p = user) (members db i)) =
      length (filter (\<lambda>p. p_user p = user) (sort_key p_seat (members db i)))"
    by (simp add: filter_sort)
  moreover have "length (filter (\<lambda>p. p_user p = user) [a, b]) \<le> 1" using ab(2) by auto
  ultimately show ?thesis using ab(1) by (simp add: players_of_def members_def)
next
  case False
  have "\<forall>p\<in>set (d_players db). p_match p \<in> m_id ` set (d_matches db)" using ok by (simp add: tables_ok_def)
  with False have "members db i = []" by (auto simp: members_def filter_empty_conv)
  then show ?thesis by simp
qed

lemma distinct_user_matches:
  assumes "tables_ok sv db"
  shows "distinct (map p_match (filter (\<lambda>p. p_user p = user) (d_players db)))"
proof (rule distinct_few)
  fix i
  have "filter (\<lambda>x. p_match x = i) (filter (\<lambda>p. p_user p = user) (d_players db)) =
      filter (\<lambda>p. p_user p = user) (members db i)"
    by (auto simp: members_def intro!: filter_cong)
  then show "length (filter (\<lambda>x. p_match x = i) (filter (\<lambda>p. p_user p = user) (d_players db))) \<le> 1"
    using few_members [OF assms] by simp
qed

lemma rows_distinct:
  assumes ok: "tables_ok sv db"
  shows "distinct (map (m_id \<circ> snd) (history_rows db g user))"
proof -
  have ids: "distinct (map m_id (d_matches db))" using ok by (simp add: tables_ok_def)
  have "distinct (map (m_id \<circ> snd) (concat (map (\<lambda>p. map (Pair p) (filter (\<lambda>m. m_id m = p_match p \<and> ended g m) (d_matches db))) ps))) \<and>
      set (map (m_id \<circ> snd) (concat (map (\<lambda>p. map (Pair p) (filter (\<lambda>m. m_id m = p_match p \<and> ended g m) (d_matches db))) ps)))
        \<subseteq> p_match ` set ps"
    if "distinct (map p_match ps)" for ps
    using that
  proof (induction ps)
    case (Cons p ps)
    let ?m = "filter (\<lambda>m. m_id m = p_match p \<and> ended g m) (d_matches db)"
    have "distinct (map m_id ?m)" using ids by (rule distinct_map_filter)
    moreover have "set (map m_id ?m) \<subseteq> {p_match p}" by auto
    ultimately show ?case using Cons by (auto simp: comp_def)
  qed simp
  from this [OF distinct_user_matches [OF ok]] show ?thesis unfolding history_rows_def by blast
qed

lemma rows_set: "(p, m) \<in> set (history_rows db g user) \<longleftrightarrow>
    p \<in> set (d_players db) \<and> p_user p = user \<and> m \<in> set (d_matches db) \<and> p_match p = m_id m \<and> ended g m"
  by (auto simp: history_rows_def)

lemma rows_length:
  assumes "tables_ok sv db"
  shows "length (history_rows db g user) \<le> length (d_players db)"
proof -
  have ids: "distinct (map m_id (d_matches db))" using assms by (simp add: tables_ok_def)
  have 1: "length (filter (\<lambda>m. m_id m = i \<and> ended g m) (d_matches db)) \<le> 1" for i
  proof -
    let ?ms = "filter (\<lambda>m. m_id m = i \<and> ended g m) (d_matches db)"
    have "distinct (map m_id ?ms)" using ids by (rule distinct_map_filter)
    then have "length ?ms = card (set (map m_id ?ms))" using distinct_card by fastforce
    also have "\<dots> \<le> card {i}" by (rule card_mono) auto
    finally show ?thesis by simp
  qed
  have "length (concat (map (\<lambda>p. map (Pair p) (filter (\<lambda>m. m_id m = p_match p \<and> ended g m) (d_matches db))) ps)) \<le> length ps" for ps
  proof (induction ps)
    case (Cons p ps)
    then show ?case using 1 [of "p_match p"] by simp
  qed simp
  from le_trans [OF this length_filter_le] show ?thesis unfolding history_rows_def .
qed

lemma two_distinct: "length xs = 2 \<Longrightarrow> distinct_count (map f xs) = 2 \<Longrightarrow> \<exists>a b. xs = [a, b] \<and> f a \<noteq> f b"
  by (auto simp: distinct_count_def numeral_2_eq_2 length_Suc_conv split: if_splits)

definition rival :: "db \<Rightarrow> player_row \<Rightarrow> match_row \<Rightarrow> player_row" where
  "rival db p m = hd (filter (\<lambda>q. p_user q \<noteq> p_user p) (members db (m_id m)))"

lemma valid_row_rival:
  assumes "\<not> invalid_row db spec m" "p \<in> set (d_players db)" "p_match p = m_id m"
  shows "opponents_of db p m = [Some (rival db p m)]" "rival db p m \<in> set (members db (m_id m))"
    "p_user (rival db p m) \<noteq> p_user p" "set (members db (m_id m)) = {p, rival db p m}"
    "p_color (rival db p m) \<noteq> p_color p" "length (members db (m_id m)) = 2"
    "distinct_count (map p_user (members db (m_id m))) = 2" "distinct_count (map p_color (members db (m_id m))) = 2"
proof -
  have two: "length (members db (m_id m)) = 2" "distinct_count (map p_user (members db (m_id m))) = 2"
    "distinct_count (map p_color (members db (m_id m))) = 2"
    using assms(1) by (simp_all add: invalid_row_def Let_def)
  from two_distinct [OF two(1,2)] obtain a b where ab: "members db (m_id m) = [a, b]" "p_user a \<noteq> p_user b" by blast
  from two_distinct [OF two(1,3)] ab(1) have col: "p_color a \<noteq> p_color b" by simp
  have "p \<in> set (members db (m_id m))" using assms(2,3) by (simp add: members_def)
  then have p: "p = a \<or> p = b" using ab by simp
  have f: "filter (\<lambda>q. p_match q = m_id m \<and> p_user q \<noteq> p_user p) (d_players db) =
      filter (\<lambda>q. p_user q \<noteq> p_user p) (members db (m_id m))"
    by (simp add: members_def conj_commute)
  have r: "filter (\<lambda>q. p_user q \<noteq> p_user p) (members db (m_id m)) = [rival db p m]"
    using p ab by (auto simp: rival_def)
  show "opponents_of db p m = [Some (rival db p m)]" by (simp add: opponents_of_def f r)
  show "rival db p m \<in> set (members db (m_id m))" "p_user (rival db p m) \<noteq> p_user p"
    "set (members db (m_id m)) = {p, rival db p m}" "p_color (rival db p m) \<noteq> p_color p"
    using p ab col by (auto simp: rival_def)
  show "length (members db (m_id m)) = 2"
    "distinct_count (map p_user (members db (m_id m))) = 2" "distinct_count (map p_color (members db (m_id m))) = 2"
    by (rule two)+
qed

subsection \<open>The query\<close>

lemma sort_key_of_map: "sort_key f (map h xs) = map h (sort_key (f \<circ> h) xs)"
proof -
  have ins: "insort_key f (h x) (map h ys) = map h (insort_key (\<lambda>a. f (h a)) x ys)" for x ys
    by (induction ys) simp_all
  show ?thesis unfolding comp_def by (induction xs) (simp_all add: ins)
qed

definition newest_first :: "db \<Rightarrow> bytes \<Rightarrow> bytes \<Rightarrow> (player_row \<times> match_row) list" where
  "newest_first db g user = rev (sort_key (row_key \<circ> snd) (history_rows db g user))"

definition full_row :: "db \<Rightarrow> historyGameSpec \<Rightarrow> player_row \<times> match_row \<Rightarrow> history_row" where
  "full_row db spec pm = joined_row db spec (fst pm) (snd pm) (Some (rival db (fst pm) (snd pm)))"

lemma full_row_match [simp]: "hr_match (full_row db spec pm) = snd pm" "hr_player (full_row db spec pm) = fst pm"
  by (simp_all add: full_row_def joined_row_def)

definition rows_ok :: "db \<Rightarrow> bytes \<Rightarrow> bytes \<Rightarrow> uuid_parser \<Rightarrow> historyGameSpec \<Rightarrow> bool" where
  "rows_ok db g user parse spec \<longleftrightarrow>
     (\<forall>pm\<in>set (history_rows db g user). valid_wire_row parse spec (snd pm) \<and> \<not> invalid_row db spec (snd pm))"

lemma query_rows_eq:
  assumes "rows_ok db g user parse spec"
  shows "query_rows db g user rq spec =
    map (full_row db spec) (take (nat (hq_limit rq + 1)) (filter (before_cursor (hq_cursor rq) \<circ> snd) (newest_first db g user)))"
proof -
  let ?rows = "filter (before_cursor (hq_cursor rq) \<circ> snd) (history_rows db g user)"
  have one: "map (joined_row db spec p m) (opponents_of db p m) = [full_row db spec (p, m)]"
    if "(p, m) \<in> set (history_rows db g user)" for p m
  proof -
    have "\<not> invalid_row db spec m" "p \<in> set (d_players db)" "p_match p = m_id m"
      using that assms [unfolded rows_ok_def, THEN bspec, OF that] by (simp_all add: rows_set)
    from valid_row_rival(1) [OF this] show ?thesis by (simp add: full_row_def)
  qed
  have "concat (map (\<lambda>(p, m). map (joined_row db spec p m) (opponents_of db p m)) xs) = map (full_row db spec) xs"
    if "set xs \<subseteq> set (history_rows db g user)" for xs
    using that by (induction xs) (auto simp: one)
  then have "concat (map (\<lambda>(p, m). map (joined_row db spec p m) (opponents_of db p m)) ?rows) = map (full_row db spec) ?rows"
    by auto
  moreover have "(row_key \<circ> hr_match) \<circ> full_row db spec = row_key \<circ> snd" by (simp add: fun_eq_iff)
  ultimately show ?thesis
    by (simp add: query_rows_def sort_key_of_map newest_first_def rev_map take_map rev_filter filter_sort [symmetric])
qed

lemma newest_sorted:
  assumes "tables_ok sv db"
  shows "sorted_wrt (\<lambda>x y. row_key (snd y) < row_key (snd x)) (newest_first db g user)"
proof -
  let ?k = "row_key \<circ> snd" and ?rows = "history_rows db g user"
  have "distinct (map snd (map ?k ?rows))"
    using rows_distinct [OF assms, of g user] by (simp add: row_key_def comp_def)
  then have "distinct (map ?k ?rows)" by (metis distinct_map)
  then have "distinct (map ?k (sort_key ?k ?rows))"
    by (metis mset_map mset_sort mset_eq_imp_distinct_iff)
  then have "sorted_wrt (<) (map ?k (sort_key ?k ?rows))"
    by (simp add: strict_sorted_iff)
  then show ?thesis by (simp add: newest_first_def sorted_wrt_rev sorted_wrt_map)
qed

lemma newest_set: "set (newest_first db g user) = set (history_rows db g user)"
  by (simp add: newest_first_def)

text \<open>The rows after the last row of a page are the rows before its cursor.\<close>

lemma filter_after:
  assumes "sorted_wrt (\<lambda>x y. k y < (k x :: 'b::linorder)) xs" "n < length xs"
  shows "filter (\<lambda>x. k x < k (xs ! n)) xs = drop (Suc n) xs"
proof -
  have "filter (\<lambda>x. k x < k (xs ! n)) (take (Suc n) xs @ drop (Suc n) xs) = drop (Suc n) xs"
  proof -
    have "\<not> k x < k (xs ! n)" if "x \<in> set (take (Suc n) xs)" for x
    proof -
      from that obtain i where i: "i < Suc n" "x = xs ! i" using assms(2) by (auto simp: in_set_conv_nth)
      show ?thesis
      proof (cases "i = n")
        case False
        then have "k (xs ! n) < k x" using i assms sorted_wrt_nth_less [OF assms(1), of i n] by simp
        then show ?thesis by simp
      qed (simp add: i)
    qed
    moreover have "k x < k (xs ! n)" if "x \<in> set (drop (Suc n) xs)" for x
    proof -
      from that obtain i where i: "i < length xs - Suc n" "x = xs ! (Suc n + i)" by (auto simp: in_set_conv_nth)
      then show ?thesis using sorted_wrt_nth_less [OF assms(1), of n "Suc n + i"] by simp
    qed
    ultimately show ?thesis unfolding filter_append by (simp add: filter_empty_conv del: append_take_drop_id)
  qed
  then show ?thesis by simp
qed

subsection \<open>One page\<close>

lemma entry_loop_all:
  "int (length es) \<le> limit \<Longrightarrow> entry_loop sv spec user limit rs es =
     (if list_all (\<lambda>r. validatedHistoryEntry sv spec user r \<noteq> None) rs
      then Some (es @ take (nat limit - length es) (map (the \<circ> validatedHistoryEntry sv spec user) rs)) else None)"
proof (induction rs arbitrary: es)
  case (Cons r rs)
  show ?case
  proof (cases "validatedHistoryEntry sv spec user r")
    case (Some e)
    show ?thesis
    proof (cases "int (length es) < limit")
      case True
      then have "int (length (es @ [e])) \<le> limit" by simp
      note ih = Cons.IH [OF this]
      have "nat limit - length es = Suc (nat limit - length (es @ [e]))" using True by simp
      then show ?thesis using True Some ih by (simp add: comp_def)
    next
      case False
      then have "nat limit - length es = 0" by simp
      with Cons.IH [OF Cons.prems] False Some show ?thesis by simp
    qed
  qed simp
qed simp

definition entry_of :: "service \<Rightarrow> db \<Rightarrow> historyGameSpec \<Rightarrow> bytes \<Rightarrow> player_row \<times> match_row \<Rightarrow> HistoryEntry option" where
  "entry_of sv db spec user pm = validatedHistoryEntry sv spec user (full_row db spec pm)"

definition page_cursor :: "HistoryEntry \<Rightarrow> HistoryCursor" where
  "page_cursor e = \<lparr>hc_nanos = he_finished e, hc_plain = True, hc_match = he_id e\<rparr>"

definition statistics_of :: "db \<Rightarrow> bytes \<Rightarrow> bytes \<Rightarrow> historyGameSpec \<Rightarrow> HistoryStatistics" where
  "statistics_of db g user spec =
     (let rows = history_rows db g user; w = tally (won_by spec user) rows; l = tally (lost_by spec user) rows;
          d = tally (drawn spec) rows in
      \<lparr>hs_valid = i64 (w + l + d), hs_wins = w, hs_losses = l, hs_draws = d, hs_rate = win_rate w (i64 (w + l + d))\<rparr>)"

lemma tally_zero: "tally P rows = 0 \<longleftrightarrow> (\<forall>pm\<in>set rows. \<not> P (snd pm))"
  by (simp add: tally_def filter_empty_conv)

lemma readHistoryStatistics_iff:
  "readHistoryStatistics sv flt db g user spec = Inr st \<longleftrightarrow>
     \<not> flt H_Caller \<and> \<not> flt H_Wire \<and> \<not> flt H_Statistics \<and> (\<exists>u. find_user db user = Some u \<and> us_enabled u = 1) \<and>
     rows_ok db g user (sv_parse sv) spec \<and> st = statistics_of db g user spec"
proof (cases "find_user db user")
  case None
  then show ?thesis by (simp add: readHistoryStatistics_def read_or_def)
next
  case (Some u)
  have r: "rows_ok db g user (sv_parse sv) spec \<longleftrightarrow>
      list_all (valid_wire_row (sv_parse sv) spec \<circ> snd) (history_rows db g user) \<and> tally (invalid_row db spec) (history_rows db g user) = 0"
    unfolding rows_ok_def tally_zero list_all_iff by auto
  have pos: "\<not> tally P (history_rows db g user) < 0" for P by (simp add: tally_def)
  show ?thesis unfolding r
    by (simp add: readHistoryStatistics_def read_or_def Some validateHistoryWireRows_def Let_def pos statistics_of_def) blast
qed

text \<open>The rows that a page starts from, and what it shows of them.\<close>

definition page_rows :: "db \<Rightarrow> bytes \<Rightarrow> bytes \<Rightarrow> HistoryCursor option \<Rightarrow> (player_row \<times> match_row) list" where
  "page_rows db g user cursor = filter (before_cursor cursor \<circ> snd) (newest_first db g user)"

lemma readHistoryEntries_iff:
  assumes "rows_ok db g user (sv_parse sv) spec" "1 \<le> hq_limit rq"
  shows "readHistoryEntries sv flt db g user rq spec = Inr (es, nc) \<longleftrightarrow>
    (let n = nat (hq_limit rq); xs = page_rows db g user (hq_cursor rq) in
     \<not> flt H_Entries \<and> list_all (\<lambda>pm. entry_of sv db spec user pm \<noteq> None) (take (Suc n) xs) \<and>
     es = map (the \<circ> entry_of sv db spec user) (take n xs) \<and>
     nc = (if n < length xs then Some (page_cursor (last es)) else None))"
proof -
  let ?n = "nat (hq_limit rq)" and ?xs = "page_rows db g user (hq_cursor rq)"
  have n: "nat (hq_limit rq + 1) = Suc ?n" "?n \<ge> 1" using assms(2) by simp_all
  have q: "query_rows db g user rq spec = map (full_row db spec) (take (Suc ?n) ?xs)"
    unfolding query_rows_eq [OF assms(1)] n page_rows_def ..
  have l: "entry_loop sv spec user (hq_limit rq) (map (full_row db spec) (take (Suc ?n) ?xs)) [] =
      (if list_all (\<lambda>pm. entry_of sv db spec user pm \<noteq> None) (take (Suc ?n) ?xs)
       then Some (map (the \<circ> entry_of sv db spec user) (take ?n ?xs)) else None)"
    using assms(2) by (simp add: entry_loop_all list_all_iff entry_of_def [abs_def] comp_def take_map)
  have len: "(hq_limit rq < int (min (length ?xs) (Suc ?n))) = (?n < length ?xs)" using assms(2) by linarith
  show ?thesis
  proof -
    have eq: "readHistoryEntries sv flt db g user rq spec =
        (if flt H_Entries then Inl (newHistoryFailure ''entries'' ''database'' ErrInternal)
         else case entry_loop sv spec user (hq_limit rq) (map (full_row db spec) (take (Suc ?n) ?xs)) [] of
            None \<Rightarrow> Inl (newHistoryFailure ''entries'' ''data_integrity'' ErrInternal)
          | Some es \<Rightarrow> Inr (es, if hq_limit rq < int (min (length ?xs) (Suc ?n)) then Some (page_cursor (last es)) else None))"
      unfolding readHistoryEntries_def q read_or_def page_cursor_def
      by (cases "flt H_Entries") (simp_all only: if_True if_False and_then.simps length_map length_take)
    show ?thesis unfolding eq l len Let_def
      by (simp split: if_splits) blast
  qed
qed

lemma ListHistory_iff:
  "ListHistory sv flt g user rq db = Inr page \<longleftrightarrow>
     (\<exists>rules spec u. Lookup (sv_games sv) g = Some rules \<and> ru_limit rules = 2 \<and> matchHistoryGameSpec g = Some spec \<and>
        canonicalUUID (sv_parse sv) user \<and> 1 \<le> hq_limit rq \<and> hq_limit rq \<le> 50 \<and> validHistoryCursor (sv_parse sv) (hq_cursor rq) \<and>
        (\<forall>s. \<not> flt s) \<and> find_user db user = Some u \<and> us_enabled u = 1 \<and> rows_ok db g user (sv_parse sv) spec \<and>
        (let n = nat (hq_limit rq); xs = page_rows db g user (hq_cursor rq); es = map (the \<circ> entry_of sv db spec user) (take n xs) in
         list_all (\<lambda>pm. entry_of sv db spec user pm \<noteq> None) (take (Suc n) xs) \<and>
         page = \<lparr>hp_statistics = statistics_of db g user spec, hp_matches = es,
           hp_next = (if n < length xs then Some (page_cursor (last es)) else None)\<rparr>))"
proof -
  have stmts: "(\<forall>s. \<not> flt s) \<longleftrightarrow> \<not> flt H_Begin \<and> \<not> flt H_Caller \<and> \<not> flt H_Wire \<and> \<not> flt H_Statistics \<and> \<not> flt H_Entries \<and> \<not> flt H_Commit"
    by (metis history_stmt.exhaust)
  show ?thesis
  proof (cases "Lookup (sv_games sv) g")
    case None
    then show ?thesis by (simp add: ListHistory_def)
  next
    case 1: (Some rules)
    show ?thesis
    proof (cases "matchHistoryGameSpec g")
      case None
      then show ?thesis by (simp add: ListHistory_def 1)
    next
      case 2: (Some spec)
      show ?thesis
      proof (cases "ru_limit rules \<noteq> 2 \<or> \<not> canonicalUUID (sv_parse sv) user \<or> hq_limit rq < 1 \<or> hq_limit rq > 50 \<or>
             \<not> validHistoryCursor (sv_parse sv) (hq_cursor rq)")
        case True
        then show ?thesis by (auto simp: ListHistory_def 1 2)
      next
        case 3: False
        have lim: "1 \<le> hq_limit rq" using 3 by simp
        have eq: "ListHistory sv flt g user rq db = Inr page \<longleftrightarrow>
            \<not> flt H_Begin \<and> \<not> flt H_Commit \<and> (\<exists>st. readHistoryStatistics sv flt db g user spec = Inr st \<and>
             (\<exists>es nc. readHistoryEntries sv flt db g user rq spec = Inr (es, nc) \<and>
               page = \<lparr>hp_statistics = st, hp_matches = es, hp_next = nc\<rparr>))"
          using 3 by (auto simp: ListHistory_def 1 2 read_or_def)
        show ?thesis
        proof (cases "rows_ok db g user (sv_parse sv) spec")
          case False
          then show ?thesis using 2 unfolding eq readHistoryStatistics_iff by simp
        next
          case ok: True
          show ?thesis
            unfolding eq readHistoryStatistics_iff readHistoryEntries_iff [OF ok lim] Let_def stmts
            using 3 ok by (simp add: 1 2) blast
        qed
      qed
    qed
  qed
qed

subsection \<open>Entries\<close>

lemma entry_outcome_cases:
  assumes "entry_outcome spec m user q = Some oc" "m_winner m \<noteq> None \<Longrightarrow> m_winner m = Some user \<or> m_winner m = Some q" "q \<noteq> user"
  shows "oc = historyOutcomeWin \<longleftrightarrow> won_by spec user m" "oc = historyOutcomeLoss \<longleftrightarrow> lost_by spec user m"
    "oc = historyOutcomeDraw \<longleftrightarrow> drawn spec m" "oc = historyOutcomeAbandoned \<longleftrightarrow> given_up m"
    "oc = historyOutcomeLoss \<longleftrightarrow> won_by spec q m"
  using assms
  by (auto simp: entry_outcome_def won_by_def lost_by_def drawn_def given_up_def decisive_def status_defs outcome_defs
      split: if_splits option.splits)

lemma winner_member:
  assumes "\<not> invalid_row db spec m"
  shows "decisive spec m \<and> (\<exists>q\<in>set (members db (m_id m)). m_winner m = Some (p_user q)) \<or> drawn spec m \<or> given_up m"
  using assms by (auto simp: invalid_row_def Let_def split: option.splits)

lemma entry_ofD:
  assumes "entry_of sv db spec user (p, m) = Some e"
  shows "he_id e = m_id m" "\<exists>t. m_finished m = Some t \<and> he_finished e = milli_time t \<and> \<bar>t\<bar> \<le> maximumHistoryWireMilliseconds"
    "entry_outcome spec m user (p_user (rival db p m)) = Some (he_outcome e)" "he_color e = p_color p"
    "he_moves e = int (length (filter (\<lambda>v. e_match v = m_id m \<and> e_type v = sp_counted spec) (d_events db)))"
    "historyEntryFormat spec (m_config m) = Some (he_format e)" "p_user p = user"
    "\<exists>w. find_user db (p_user (rival db p m)) = Some w \<and> he_nickname e = us_nickname w"
    "validHistoryColors (p_color p) (p_color (rival db p m))"
  using assms
  by (auto simp: entry_of_def full_row_def joined_row_def validatedHistoryEntry_def Let_def ValidHistoryWireValues_def
      split: option.splits if_splits)

lemma row_outcome:
  assumes "rows_ok db g user parse spec" "(p, m) \<in> set (history_rows db g user)" "entry_of sv db spec user (p, m) = Some e"
  shows "he_outcome e = historyOutcomeWin \<longleftrightarrow> won_by spec user m" "he_outcome e = historyOutcomeLoss \<longleftrightarrow> lost_by spec user m"
    "he_outcome e = historyOutcomeDraw \<longleftrightarrow> drawn spec m" "he_outcome e = historyOutcomeAbandoned \<longleftrightarrow> given_up m"
    "he_outcome e = historyOutcomeLoss \<longleftrightarrow> won_by spec (p_user (rival db p m)) m"
proof -
  have v: "\<not> invalid_row db spec m" using assms(1) [unfolded rows_ok_def, THEN bspec, OF assms(2)] by simp
  have p: "p \<in> set (d_players db)" "p_match p = m_id m" "p_user p = user" using assms(2) by (auto simp: rows_set)
  note r = valid_row_rival [OF v p(1,2)]
  have w: "m_winner m \<noteq> None \<Longrightarrow> m_winner m = Some user \<or> m_winner m = Some (p_user (rival db p m))"
    using winner_member [OF v] unfolding r(4) p(3) [symmetric] by (auto simp: drawn_def given_up_def)
  have "p_user (rival db p m) \<noteq> user" using r(3) p(3) by simp
  from entry_outcome_cases [OF entry_ofD(3) [OF assms(3)] w this] show
    "he_outcome e = historyOutcomeWin \<longleftrightarrow> won_by spec user m" "he_outcome e = historyOutcomeLoss \<longleftrightarrow> lost_by spec user m"
    "he_outcome e = historyOutcomeDraw \<longleftrightarrow> drawn spec m" "he_outcome e = historyOutcomeAbandoned \<longleftrightarrow> given_up m"
    "he_outcome e = historyOutcomeLoss \<longleftrightarrow> won_by spec (p_user (rival db p m)) m"
    by blast+
qed

text \<open>The stored users are those that registration lets in.\<close>

definition users_ok :: "service \<Rightarrow> db \<Rightarrow> bool" where
  "users_ok sv db \<longleftrightarrow>
     (\<forall>p\<in>set (d_players db). \<exists>u. find_user db (p_user p) = Some u \<and> validStoredUser (sv_parse sv) (sv_ucd sv) u \<and>
        (us_enabled u = 0 \<or> us_enabled u = 1))"

lemma find_user_id: "find_user db i = Some u \<Longrightarrow> us_id u = i"
  by (auto simp: find_user_def find_Some_iff)

lemma entry_exists:
  assumes "tables_ok sv db" "users_ok sv db" "rows_ok db g user (sv_parse sv) spec" "canonicalUUID (sv_parse sv) user"
    and row: "(p, m) \<in> set (history_rows db g user)"
  shows "\<exists>e. entry_of sv db spec user (p, m) = Some e"
proof -
  have ok: "valid_wire_row (sv_parse sv) spec m" "\<not> invalid_row db spec m"
    using assms(3) [unfolded rows_ok_def, THEN bspec, OF row] by simp_all
  have p: "p \<in> set (d_players db)" "p_match p = m_id m" "p_user p = user" "m \<in> set (d_matches db)" using row by (auto simp: rows_set)
  let ?q = "rival db p m"
  note r = valid_row_rival [OF ok(2) p(1,2)]
  obtain t format where t: "m_finished m = Some t" "ValidHistoryWireValues (sv_parse sv) (m_id m) t"
    "historyEntryFormat spec (m_config m) = Some format"
    using ok(1) by (auto simp: valid_wire_row_def split: option.splits)
  have q: "?q \<in> set (d_players db)" using r(2) by (simp add: members_def)
  then obtain u where u: "find_user db (p_user ?q) = Some u" "validStoredUser (sv_parse sv) (sv_ucd sv) u" "us_enabled u \<in> {0, 1}"
    using assms(2) by (auto simp: users_ok_def)
  have cq: "canonicalUUID (sv_parse sv) (p_user ?q)"
    using u(2) find_user_id [OF u(1)] by (simp add: validStoredUser_def)
  have ps: "set (players_of db (m_id m)) = {p, ?q}" using r(4) by (simp add: players_of_def members_def)
  have "valid_players (players_of db (m_id m))" using tables_ok_row [OF assms(1) p(4)] by (simp add: row_ok_def)
  then obtain a b where ab: "players_of db (m_id m) = [a, b]" "p_seat a = 0" "p_seat b = 1" "p_color a \<noteq> p_color b"
    "p_color a = ColorBlack \<or> p_color a = ColorWhite" "p_color b = ColorBlack \<or> p_color b = ColorWhite"
    unfolding valid_players_def by (auto split: list.splits)
  have "{p, ?q} = {a, b}" using ps ab(1) by simp
  moreover have "p \<noteq> ?q" using r(3) by auto
  ultimately have pq: "p = a \<and> ?q = b \<or> p = b \<and> ?q = a" by (auto simp: doubleton_eq_iff)
  have seats: "p_seat p \<in> {0, 1}" "p_seat ?q \<in> {0, 1}" "p_seat p \<noteq> p_seat ?q" using pq ab(2,3) by auto
  have colors: "validHistoryColors (p_color p) (p_color ?q)" using pq ab(4-6) by (auto simp: validHistoryColors_def)
  have "entry_outcome spec m user (p_user ?q) \<noteq> None"
    using winner_member [OF ok(2)] unfolding r(4) p(3) [symmetric] by (auto simp: entry_outcome_def won_by_def)
  then obtain oc where oc: "entry_outcome spec m user (p_user ?q) = Some oc" by blast
  show ?thesis
    using t u seats colors cq r(3,6,7,8) p(3) assms(4) oc
    by (simp add: entry_of_def full_row_def joined_row_def validatedHistoryEntry_def Let_def)
qed

subsection \<open>All pages\<close>

fun history_pages ::
  "service \<Rightarrow> bytes \<Rightarrow> bytes \<Rightarrow> int \<Rightarrow> db \<Rightarrow> nat \<Rightarrow> HistoryCursor option \<Rightarrow> (history_error + HistoryEntry list) option" where
  "history_pages sv g user limit db 0 cursor = None"
| "history_pages sv g user limit db (Suc fuel) cursor =
     (case ListHistory sv (\<lambda>_. False) g user \<lparr>hq_limit = limit, hq_cursor = cursor\<rparr> db of
        Inl e \<Rightarrow> Some (Inl e)
      | Inr page \<Rightarrow>
          (case hp_next page of
             None \<Rightarrow> Some (Inr (hp_matches page))
           | Some c \<Rightarrow>
               (case history_pages sv g user limit db fuel (Some c) of
                  Some (Inr es) \<Rightarrow> Some (Inr (hp_matches page @ es))
                | r \<Rightarrow> r)))"

lemma milli_roundtrip: "\<bar>t\<bar> \<le> maximumHistoryWireMilliseconds \<Longrightarrow> unix_milli (milli_time t) = t"
  by (simp add: unix_milli_def milli_time_def maximumHistoryWireMilliseconds_def i64_id is_i64_def max_i64_def abs_le_iff)

lemma cursor_rows:
  assumes ok: "tables_ok sv db" "rows_ok db g user parse spec" and n: "n < length (newest_first db g user)"
    and e: "entry_of sv db spec user (newest_first db g user ! n) = Some e"
  shows "page_rows db g user (Some (page_cursor e)) = drop (Suc n) (newest_first db g user)"
proof -
  let ?xs = "newest_first db g user"
  obtain p m where pm: "?xs ! n = (p, m)" by (cases "?xs ! n")
  note d = entry_ofD [OF e [unfolded pm]]
  obtain t where t: "m_finished m = Some t" "he_finished e = milli_time t" "\<bar>t\<bar> \<le> maximumHistoryWireMilliseconds" using d(2) by blast
  have "before_cursor (Some (page_cursor e)) (snd x) \<longleftrightarrow> row_key (snd x) < row_key (snd (?xs ! n))" if "x \<in> set ?xs" for x
  proof -
    have "valid_wire_row parse spec (snd x)" using ok(2) that by (simp add: rows_ok_def newest_set)
    then obtain s where "m_finished (snd x) = Some s" by (auto simp: valid_wire_row_def split: option.splits)
    then show ?thesis
      by (simp add: before_cursor_def page_cursor_def t milli_roundtrip d(1) pm row_key_def less_prod_def) auto
  qed
  then have "page_rows db g user (Some (page_cursor e)) = filter (\<lambda>x. row_key (snd x) < row_key (snd (?xs ! n))) ?xs"
    unfolding page_rows_def by (intro filter_cong) simp_all
  also have "\<dots> = drop (Suc n) ?xs" by (rule filter_after [OF newest_sorted [OF ok(1)] n])
  finally show ?thesis .
qed

text \<open>No match ends at the zero time of Go, which no cursor may carry.\<close>

definition no_zero_time :: "db \<Rightarrow> bool" where
  "no_zero_time db \<longleftrightarrow> (\<forall>m\<in>set (d_matches db). \<forall>t. m_finished m = Some t \<longrightarrow> milli_time t \<noteq> zero_time)"

lemma cursor_valid:
  assumes "rows_ok db g user (sv_parse sv) spec" "(p, m) \<in> set (history_rows db g user)" "no_zero_time db"
    and e: "entry_of sv db spec user (p, m) = Some e"
  shows "validHistoryCursor (sv_parse sv) (Some (page_cursor e))"
proof -
  have m: "m \<in> set (d_matches db)" using assms(2) by (simp add: rows_set)
  have w: "valid_wire_row (sv_parse sv) spec m" using assms(1) [unfolded rows_ok_def, THEN bspec, OF assms(2)] by simp
  obtain t where t: "m_finished m = Some t" "he_finished e = milli_time t" "\<bar>t\<bar> \<le> maximumHistoryWireMilliseconds"
    using entry_ofD(2) [OF e] by blast
  have "milli_time t \<noteq> zero_time" using assms(3) m t(1) by (auto simp: no_zero_time_def)
  then show ?thesis using w
    by (simp add: validHistoryCursor_def page_cursor_def t milli_roundtrip entry_ofD(1) [OF e] valid_wire_row_def)
qed

lemma pages_from:
  assumes ok: "tables_ok sv db" "users_ok sv db" "rows_ok db g user (sv_parse sv) spec" "no_zero_time db"
    and rq: "Lookup (sv_games sv) g = Some rules" "ru_limit rules = 2" "matchHistoryGameSpec g = Some spec"
      "canonicalUUID (sv_parse sv) user" "1 \<le> limit" "limit \<le> 50" "find_user db user = Some u" "us_enabled u = 1"
  shows "validHistoryCursor (sv_parse sv) cursor \<Longrightarrow> page_rows db g user cursor = drop k (newest_first db g user) \<Longrightarrow>
    length (newest_first db g user) - k < fuel \<Longrightarrow>
    history_pages sv g user limit db fuel cursor =
      Some (Inr (map (the \<circ> entry_of sv db spec user) (drop k (newest_first db g user))))"
proof (induction fuel arbitrary: cursor k)
  case (Suc fuel)
  let ?xs = "newest_first db g user" and ?E = "the \<circ> entry_of sv db spec user" and ?n = "nat limit"
  have all: "\<exists>e. entry_of sv db spec user x = Some e" if "x \<in> set ?xs" for x
    using entry_exists [OF ok(1-3) rq(4), of "fst x" "snd x"] that by (simp add: newest_set)
  have e: "list_all (\<lambda>pm. entry_of sv db spec user pm \<noteq> None) (take (Suc ?n) (drop k ?xs))"
    using all by (auto simp: list_all_iff dest!: in_set_takeD in_set_dropD)
  have n: "1 \<le> ?n" using rq(5) by simp
  let ?es = "map ?E (take ?n (drop k ?xs))"
  have page: "ListHistory sv (\<lambda>_. False) g user \<lparr>hq_limit = limit, hq_cursor = cursor\<rparr> db =
      Inr \<lparr>hp_statistics = statistics_of db g user spec, hp_matches = ?es,
        hp_next = (if ?n < length (drop k ?xs) then Some (page_cursor (last ?es)) else None)\<rparr>"
    unfolding ListHistory_iff using rq ok(3) e Suc.prems(1,2) by (simp add: Let_def)
  show ?case
  proof (cases "?n < length (drop k ?xs)")
    case False
    then show ?thesis using page by simp
  next
    case True
    let ?i = "k + ?n - 1"
    have i: "?i < length ?xs" "Suc ?i = k + ?n" using True n by simp_all
    have len: "length ?es = ?n" using True by simp
    with n have ne: "?es \<noteq> []" by auto
    have "last ?es = ?es ! (?n - 1)" by (rule last_conv_nth [OF ne, unfolded len])
    also have "\<dots> = ?E (drop k ?xs ! (?n - 1))" using n True by simp
    also have "drop k ?xs ! (?n - 1) = ?xs ! ?i" using n True by simp
    finally have "last ?es = ?E (?xs ! ?i)" .
    moreover obtain x where x: "entry_of sv db spec user (?xs ! ?i) = Some x" using all [of "?xs ! ?i"] i(1) by auto
    ultimately have last: "last ?es = x" by simp
    have mem: "?xs ! ?i \<in> set (history_rows db g user)" using i(1) nth_mem [of ?i ?xs] by (simp add: newest_set)
    have "validHistoryCursor (sv_parse sv) (Some (page_cursor x))"
      using cursor_valid [OF ok(3) _ ok(4), of "fst (?xs ! ?i)" "snd (?xs ! ?i)" x] mem x by simp
    moreover have "page_rows db g user (Some (page_cursor x)) = drop (k + ?n) ?xs"
      using cursor_rows [OF ok(1,3) i(1) x] i(2) by simp
    moreover have "length ?xs - (k + ?n) < fuel" using Suc.prems(3) True n by simp
    ultimately have "history_pages sv g user limit db fuel (Some (page_cursor x)) = Some (Inr (map ?E (drop (k + ?n) ?xs)))"
      by (rule Suc.IH)
    moreover have "?es @ map ?E (drop (k + ?n) ?xs) = map ?E (drop k ?xs)"
    proof -
      have "take ?n (drop k ?xs) @ drop (k + ?n) ?xs = drop k ?xs"
        using append_take_drop_id [of ?n "drop k ?xs"] by (simp only: drop_drop add.commute)
      then show ?thesis by (simp only: map_append [symmetric])
    qed
    ultimately show ?thesis using page True last by simp
  qed
qed simp

text \<open>A cursor at the zero time of Go is refused, although the time is one that the history can show.\<close>

lemma zero_time_refused:
  "ValidHistoryWireValues parse i 0 \<Longrightarrow>
     ValidHistoryWireValues parse i (- 62135596800000) \<and>
     \<not> validHistoryCursor parse (Some \<lparr>hc_nanos = milli_time (- 62135596800000), hc_plain = True, hc_match = i\<rparr>)"
  by (simp add: ValidHistoryWireValues_def maximumHistoryWireMilliseconds_def validHistoryCursor_def milli_time_def zero_time_def)

subsection \<open>What the history shows\<close>

lemma newest_tally:
  assumes "rows_ok db g user parse spec" "\<forall>pm\<in>set (newest_first db g user). entry_of sv db spec user pm \<noteq> None"
    and oc: "\<And>p m e. (p, m) \<in> set (history_rows db g user) \<Longrightarrow> entry_of sv db spec user (p, m) = Some e \<Longrightarrow>
      he_outcome e = oc \<longleftrightarrow> P m"
  shows "int (length (filter (\<lambda>e. he_outcome e = oc) (map (the \<circ> entry_of sv db spec user) (newest_first db g user)))) =
    tally P (history_rows db g user)"
proof -
  have "length (filter (\<lambda>e. he_outcome e = oc) (map (the \<circ> entry_of sv db spec user) (newest_first db g user))) =
      length (filter (\<lambda>pm. he_outcome (the (entry_of sv db spec user pm)) = oc) (newest_first db g user))"
    by (simp add: filter_map comp_def)
  also have "filter (\<lambda>pm. he_outcome (the (entry_of sv db spec user pm)) = oc) (newest_first db g user) =
      filter (P \<circ> snd) (newest_first db g user)"
  proof (rule filter_cong [OF refl])
    fix pm
    assume pm: "pm \<in> set (newest_first db g user)"
    then obtain e where "entry_of sv db spec user pm = Some e" using assms(2) by blast
    with oc [of "fst pm" "snd pm" e] pm show "(he_outcome (the (entry_of sv db spec user pm)) = oc) = (P \<circ> snd) pm"
      by (simp add: newest_set)
  qed
  also have "length (filter (P \<circ> snd) (newest_first db g user)) = length (filter (P \<circ> snd) (history_rows db g user))"
    by (simp add: newest_first_def rev_filter [symmetric] filter_sort)
  finally show ?thesis by (simp add: tally_def comp_def)
qed

lemma rows_matches: "he_ids = (m_id \<circ> snd) ` set (history_rows db g user) \<Longrightarrow>
    he_ids = {m_id m |m. m \<in> set (d_matches db) \<and> ended g m \<and> user \<in> set (users_of db (m_id m))}"
proof -
  have "(m_id \<circ> snd) ` set (history_rows db g user) =
      {m_id m |m. m \<in> set (d_matches db) \<and> ended g m \<and> user \<in> set (users_of db (m_id m))}"
    (is "?A = ?B")
  proof
    show "?A \<subseteq> ?B"
    proof
      fix i
      assume "i \<in> ?A"
      then obtain p m where pm: "(p, m) \<in> set (history_rows db g user)" "i = m_id m" by auto
      then have "user \<in> set (users_of db (m_id m))" by (auto simp: rows_set users_of_def players_of_def)
      then show "i \<in> ?B" using pm by (auto simp: rows_set)
    qed
    show "?B \<subseteq> ?A"
    proof
      fix i
      assume "i \<in> ?B"
      then obtain m p where "m \<in> set (d_matches db)" "ended g m" "i = m_id m" "p \<in> set (d_players db)"
        "p_match p = m_id m" "p_user p = user"
        by (auto simp: users_of_def players_of_def)
      then have "(p, m) \<in> set (history_rows db g user)" by (simp add: rows_set)
      then show "i \<in> ?A" using \<open>i = m_id m\<close> by force
    qed
  qed
  then show "he_ids = (m_id \<circ> snd) ` set (history_rows db g user) \<Longrightarrow> ?thesis" by simp
qed

text \<open>
  C34. The pages of the history are complete. In a reachable database whose users registration let in, when the
  first page of a player loads, so do all the pages that the cursors link. Together they list every ended match of the
  player in the game, each once, by descending time and id, and the statistics count the entries by
  outcome. The one case that is excluded is a match that ended at the zero time of Go, in the year 1,
  since no cursor may carry that time.
\<close>
theorem history_complete:
  assumes "reachable sv db" "users_ok sv db" "no_zero_time db"
    and "ListHistory sv (\<lambda>_. False) g user \<lparr>hq_limit = limit, hq_cursor = None\<rparr> db = Inr page"
  shows "\<exists>es. history_pages sv g user limit db (Suc (length (d_players db))) None = Some (Inr es) \<and>
    sorted_wrt (>) (map (\<lambda>e. (he_finished e, he_id e)) es) \<and>
    he_id ` set es = {m_id m |m. m \<in> set (d_matches db) \<and> ended g m \<and> user \<in> set (users_of db (m_id m))} \<and>
    hs_wins (hp_statistics page) = int (length (filter (\<lambda>e. he_outcome e = historyOutcomeWin) es)) \<and>
    hs_losses (hp_statistics page) = int (length (filter (\<lambda>e. he_outcome e = historyOutcomeLoss) es)) \<and>
    hs_draws (hp_statistics page) = int (length (filter (\<lambda>e. he_outcome e = historyOutcomeDraw) es))"
proof -
  have ok: "tables_ok sv db" by (rule mh_reachable_ok [OF assms(1)])
  from assms(4) obtain rules spec u where rq: "Lookup (sv_games sv) g = Some rules" "ru_limit rules = 2"
      "matchHistoryGameSpec g = Some spec" "canonicalUUID (sv_parse sv) user" "1 \<le> limit" "limit \<le> 50"
      "find_user db user = Some u" "us_enabled u = 1" and rows: "rows_ok db g user (sv_parse sv) spec"
    and st: "hp_statistics page = statistics_of db g user spec"
    unfolding ListHistory_iff by (auto simp: Let_def)
  let ?xs = "newest_first db g user" and ?E = "the \<circ> entry_of sv db spec user"
  let ?es = "map ?E ?xs"
  have all: "\<forall>pm\<in>set ?xs. entry_of sv db spec user pm \<noteq> None"
    using entry_exists [OF ok assms(2) rows rq(4)] by (auto simp: newest_set)
  have "page_rows db g user None = drop 0 ?xs" by (simp add: page_rows_def before_cursor_def comp_def)
  moreover have "length ?xs - 0 < Suc (length (d_players db))"
    using rows_length [OF ok, of g user] by (simp add: newest_first_def)
  moreover have "validHistoryCursor (sv_parse sv) None" by (simp add: validHistoryCursor_def)
  ultimately have "history_pages sv g user limit db (Suc (length (d_players db))) None = Some (Inr ?es)"
    using pages_from [OF ok assms(2) rows assms(3) rq, of None 0] by (simp del: history_pages.simps)
  moreover have "sorted_wrt (>) (map (\<lambda>e. (he_finished e, he_id e)) ?es)"
  proof -
    have key: "\<exists>t. m_finished (snd x) = Some t \<and> he_finished (?E x) = milli_time t \<and> he_id (?E x) = m_id (snd x)"
      if x: "x \<in> set ?xs" for x
    proof -
      from all x obtain e where e: "entry_of sv db spec user (fst x, snd x) = Some e" by auto
      from entry_ofD(1,2) [OF e] e show ?thesis by auto
    qed
    have "sorted_wrt (\<lambda>x y. (he_finished (?E y), he_id (?E y)) < (he_finished (?E x), he_id (?E x))) ?xs"
    proof (rule sorted_wrt_mono_rel [OF _ newest_sorted [OF ok]])
      fix x y
      assume "x \<in> set ?xs" "y \<in> set ?xs" "row_key (snd y) < row_key (snd x)"
      with key [of x] key [of y] show "(he_finished (?E y), he_id (?E y)) < (he_finished (?E x), he_id (?E x))"
        by (auto simp: row_key_def less_prod_def milli_time_def)
    qed
    then show ?thesis by (simp add: sorted_wrt_map comp_def)
  qed
  moreover have "he_id ` set ?es = {m_id m |m. m \<in> set (d_matches db) \<and> ended g m \<and> user \<in> set (users_of db (m_id m))}"
  proof (rule rows_matches)
    have "he_id (?E x) = (m_id \<circ> snd) x" if x: "x \<in> set ?xs" for x
    proof -
      from all x obtain e where e: "entry_of sv db spec user (fst x, snd x) = Some e" by auto
      from entry_ofD(1) [OF e] e show ?thesis by simp
    qed
    then have "he_id ` ?E ` set ?xs = (m_id \<circ> snd) ` set ?xs" unfolding image_image by (rule image_cong [OF refl])
    then show "he_id ` set ?es = (m_id \<circ> snd) ` set (history_rows db g user)" by (simp add: newest_set)
  qed
  moreover note newest_tally [OF rows all, of historyOutcomeWin "won_by spec user"] row_outcome(1) [OF rows]
    newest_tally [OF rows all, of historyOutcomeLoss "lost_by spec user"] row_outcome(2) [OF rows]
    newest_tally [OF rows all, of historyOutcomeDraw "drawn spec"] row_outcome(3) [OF rows]
  ultimately show ?thesis unfolding st by (intro exI [of _ ?es]) (simp add: statistics_of_def Let_def)
qed

text \<open>
  C35. Two players see the same match from both sides: when a match is in the history of two players,
  a win of one is the loss of the other and a draw or an abandoned match is the same for both, the colours are opposite, time, moves and
  format agree, and each entry shows the nickname of the other.
\<close>
theorem history_mirror:
  assumes "reachable sv db" "ListHistory sv flt g user rq db = Inr page" "e \<in> set (hp_matches page)"
    and "ListHistory sv flt' g user' rq' db = Inr page'" "e' \<in> set (hp_matches page')" "he_id e' = he_id e" "user' \<noteq> user"
  shows "(he_outcome e = historyOutcomeWin \<longleftrightarrow> he_outcome e' = historyOutcomeLoss) \<and>
    (he_outcome e = historyOutcomeLoss \<longleftrightarrow> he_outcome e' = historyOutcomeWin) \<and>
    (he_outcome e = historyOutcomeDraw \<longleftrightarrow> he_outcome e' = historyOutcomeDraw) \<and>
    (he_outcome e = historyOutcomeAbandoned \<longleftrightarrow> he_outcome e' = historyOutcomeAbandoned) \<and>
    validHistoryColors (he_color e) (he_color e') \<and> he_finished e' = he_finished e \<and> he_moves e' = he_moves e \<and>
    he_format e' = he_format e \<and> (\<exists>w. find_user db user' = Some w \<and> he_nickname e = us_nickname w)"
proof -
  have ok: "tables_ok sv db" by (rule mh_reachable_ok [OF assms(1)])
  have listed: "\<exists>spec p m. matchHistoryGameSpec g = Some spec \<and> rows_ok db g v (sv_parse sv) spec \<and>
      (p, m) \<in> set (history_rows db g v) \<and> entry_of sv db spec v (p, m) = Some x"
    if l: "ListHistory sv f g v r db = Inr pg" "x \<in> set (hp_matches pg)" for f v r pg x
  proof -
    from l(1) obtain spec where s: "matchHistoryGameSpec g = Some spec" "rows_ok db g v (sv_parse sv) spec"
      and a: "list_all (\<lambda>pm. entry_of sv db spec v pm \<noteq> None) (take (Suc (nat (hq_limit r))) (page_rows db g v (hq_cursor r)))"
      and h: "hp_matches pg = map (the \<circ> entry_of sv db spec v) (take (nat (hq_limit r)) (page_rows db g v (hq_cursor r)))"
      unfolding ListHistory_iff by (auto simp: Let_def)
    from l(2) h obtain pm where pm: "pm \<in> set (take (nat (hq_limit r)) (page_rows db g v (hq_cursor r)))" "x = the (entry_of sv db spec v pm)"
      by auto
    have "pm \<in> set (take (Suc (nat (hq_limit r))) (page_rows db g v (hq_cursor r)))"
      by (rule subsetD [OF set_take_subset_set_take pm(1)]) simp
    with a pm(2) have "entry_of sv db spec v pm = Some x" by (auto simp: list_all_iff)
    moreover have "pm \<in> set (history_rows db g v)" using in_set_takeD [OF pm(1)] by (simp add: page_rows_def newest_set)
    ultimately show ?thesis using s by (cases pm) blast
  qed
  from listed [OF assms(2,3)] obtain spec p m where 1: "matchHistoryGameSpec g = Some spec" "rows_ok db g user (sv_parse sv) spec"
    "(p, m) \<in> set (history_rows db g user)" "entry_of sv db spec user (p, m) = Some e" by blast
  from listed [OF assms(4,5)] 1(1) obtain p' m' where 2: "rows_ok db g user' (sv_parse sv) spec"
    "(p', m') \<in> set (history_rows db g user')" "entry_of sv db spec user' (p', m') = Some e'" by auto
  note d = entry_ofD [OF 1(4)] and d' = entry_ofD [OF 2(3)]
  have "m \<in> set (d_matches db)" "m' \<in> set (d_matches db)" using 1(3) 2(2) by (auto simp: rows_set)
  moreover have "m_id m' = m_id m" using d(1) d'(1) assms(6) by simp
  moreover have "distinct (map m_id (d_matches db))" using ok by (simp add: tables_ok_def)
  ultimately have m: "m' = m" by (metis distinct_map inj_onD)
  have v: "\<not> invalid_row db spec m" using 1(2) [unfolded rows_ok_def, THEN bspec, OF 1(3)] by simp
  have p: "p \<in> set (d_players db)" "p_match p = m_id m" "p' \<in> set (d_players db)" "p_match p' = m_id m" using 1(3) 2(2) m by (auto simp: rows_set)
  note r = valid_row_rival [OF v p(1,2)] and r' = valid_row_rival [OF v p(3,4)]
  have "p' \<in> set (members db (m_id m))" using p(3,4) by (simp add: members_def)
  then have q: "rival db p m = p'" using r(4) d(7) d'(7) assms(7) by auto
  have "p \<in> set (members db (m_id m))" using p(1,2) by (simp add: members_def)
  then have q': "rival db p' m = p" using r'(4) d(7) d'(7) assms(7) by auto
  note o1 = row_outcome [OF 1(2,3,4)] and o2 = row_outcome [OF 2(1) 2(2) 2(3), unfolded m]
  have oc: "(he_outcome e = historyOutcomeWin \<longleftrightarrow> he_outcome e' = historyOutcomeLoss) \<and>
    (he_outcome e = historyOutcomeLoss \<longleftrightarrow> he_outcome e' = historyOutcomeWin) \<and>
    (he_outcome e = historyOutcomeDraw \<longleftrightarrow> he_outcome e' = historyOutcomeDraw) \<and>
    (he_outcome e = historyOutcomeAbandoned \<longleftrightarrow> he_outcome e' = historyOutcomeAbandoned)"
    using o1(1,3,4,5) o2(1,3,4,5) d(7) d'(7) unfolding q q' by simp
  have col: "validHistoryColors (he_color e) (he_color e')" using d(4,9) d'(4) unfolding q by simp
  have fin: "he_finished e' = he_finished e" using d(2) d'(2) unfolding m by auto
  have rest: "he_moves e' = he_moves e" "he_format e' = he_format e" using d(5,6) d'(5,6) unfolding m by simp_all
  have nick: "\<exists>w. find_user db user' = Some w \<and> he_nickname e = us_nickname w" using d(8) d'(7) unfolding q by simp
  show ?thesis using oc col fin rest nick by blast
qed

lemma sample_stored: "validStoredUser (sv_parse sample_service) (sv_ucd sample_service) (sample_user ann)"
  "validStoredUser (sv_parse sample_service) (sv_ucd sample_service) (sample_user bob)"
  using sample_uuids
  by (simp_all add: validStoredUser_def sample_user_def sample_service_def nickname_stable_witness)

subsection \<open>An abandoned match in the history of both players\<close>

lemma ended_history:
  "\<exists>db. reachable sample_service db \<and> users_ok sample_service db \<and> no_zero_time db \<and>
     d_matches db = [abandoned 86400009 (sample_row (Some 9))] \<and> d_players db = sample_players \<and>
     (\<forall>user\<in>{ann, bob}. \<exists>e. ListHistory sample_service (\<lambda>_. False) Gomoku.GameID user \<lparr>hq_limit = 20, hq_cursor = None\<rparr> db =
        Inr \<lparr>hp_statistics = statistics_of db Gomoku.GameID user (the (matchHistoryGameSpec Gomoku.GameID)), hp_matches = [e], hp_next = None\<rparr> \<and>
        he_id e = first_match)"
proof -
  let ?m = "abandoned 86400009 (sample_row (Some 9))" and ?g = Gomoku.GameID
  obtain es db where e: "AbandonExpired sample_service (\<lambda>_. False) (\<lambda>_ _. False) None 86400009 offline_db = (None, es, db)"
    and db: "d_matches db = [?m]" "d_players db = sample_players" "d_users db = d_users sample_db" using offline_expired by blast
  obtain us hs where "service_run sample_service hs (empty_db us) offline_db" using offline_reach unfolding reachable_def by blast
  from run_step [OF this service_step.expired [OF e]] have reach: "reachable sample_service db" unfolding reachable_def by blast
  have m: "m_id ?m = first_match" "m_game ?m = ?g" "m_status ?m = StatusAbandoned" "m_finished ?m = Some 86400009"
    "m_result ?m = None" "m_winner ?m = None" "m_config ?m = None"
    by (simp_all add: abandoned_def sample_row_sel)
  have zero: "no_zero_time db" by (simp add: no_zero_time_def db m milli_time_def zero_time_def)
  have user: "find_user db u = Some (sample_user u)" if "u = ann \<or> u = bob" for u
    using that sample_ids(1) by (auto simp: find_user_def db sample_db_def empty_db_def sample_user_def)
  have users: "users_ok sample_service db" unfolding users_ok_def db sample_players_def
    using user sample_stored by (simp add: new_player_def) (simp add: sample_user_def)
  obtain spec where spec: "matchHistoryGameSpec ?g = Some spec" "\<not> sp_format spec"
    by (simp add: matchHistoryGameSpec_def ChineseCheckers.GameID_def FlightChess.GameID_def Reversi.GameID_def Gomoku.GameID_def)
  have rows: "history_rows db ?g ann = [(new_player first_match ann 0 ColorBlack, ?m)]"
      "history_rows db ?g bob = [(new_player first_match bob 1 ColorWhite, ?m)]"
    using sample_ids(1) by (simp_all add: history_rows_def db sample_players_def new_player_def ended_def m)
  have mem: "members db first_match = sample_players" by (simp add: members_def db sample_players_def new_player_def)
  have "\<not> invalid_row db spec ?m" using sample_ids(1)
    by (simp add: invalid_row_def Let_def m mem sample_players_def new_player_def distinct_count_def color_defs given_up_def)
  moreover have nil: "first_match \<noteq> nil_uuid"
  proof
    assume "first_match = nil_uuid"
    then have "hd first_match = hd nil_uuid" by simp
    then show False by (simp add: first_match_def nil_uuid_def hd_replicate)
  qed
  moreover have "valid_wire_row sample_parser spec ?m"
    using sample_uuids(3) nil [unfolded first_match_def]
    by (simp add: valid_wire_row_def m ValidHistoryWireValues_def maximumHistoryWireMilliseconds_def historyEntryFormat_def spec(2)
        sample_parser_def first_match_def canonicalUUID_def list_all_iff)
  ultimately have ok: "rows_ok db ?g u (sv_parse sample_service) spec" if "u = ann \<or> u = bob" for u
    using that by (auto simp: rows_ok_def rows sample_service_def)
  have can: "canonicalUUID (sv_parse sample_service) u" if "u = ann \<or> u = bob" for u
    using that sample_uuids by (auto simp: sample_service_def)
  have tables: "tables_ok sample_service db" by (rule mh_reachable_ok [OF reach])
  have "\<exists>e. ListHistory sample_service (\<lambda>_. False) ?g u \<lparr>hq_limit = 20, hq_cursor = None\<rparr> db =
        Inr \<lparr>hp_statistics = statistics_of db ?g u (the (matchHistoryGameSpec ?g)), hp_matches = [e], hp_next = None\<rparr> \<and> he_id e = first_match"
    if u: "u = ann \<or> u = bob" for u
  proof -
    obtain p where p: "history_rows db ?g u = [(p, ?m)]" using u rows by blast
    then have "(p, ?m) \<in> set (history_rows db ?g u)" by simp
    from entry_exists [OF tables users ok [OF u] can [OF u] this]
    obtain e where e: "entry_of sample_service db spec u (p, ?m) = Some e" by blast
    have pr: "page_rows db ?g u None = [(p, ?m)]" by (simp add: page_rows_def newest_first_def p before_cursor_def)
    have "ListHistory sample_service (\<lambda>_. False) ?g u \<lparr>hq_limit = 20, hq_cursor = None\<rparr> db =
        Inr \<lparr>hp_statistics = statistics_of db ?g u spec, hp_matches = [e], hp_next = None\<rparr>"
      unfolding ListHistory_iff using sample_lookup(1) spec(1) can [OF u] user [OF u] ok [OF u] e pr
      by (simp add: Let_def gomoku_rules_def fixed_rules_def sample_user_def validHistoryCursor_def)
    then show ?thesis using entry_ofD(1) [OF e] m(1) spec(1) by auto
  qed
  with reach users zero db show ?thesis by blast
qed

theorem history_complete_witness:
  "\<exists>db es. reachable sample_service db \<and> history_pages sample_service Gomoku.GameID ann 20 db 3 None = Some (Inr es) \<and>
     he_id ` set es = {first_match}"
proof -
  obtain db page where db: "reachable sample_service db" "users_ok sample_service db" "no_zero_time db"
      "d_matches db = [abandoned 86400009 (sample_row (Some 9))]" "d_players db = sample_players"
    and l: "ListHistory sample_service (\<lambda>_. False) Gomoku.GameID ann \<lparr>hq_limit = 20, hq_cursor = None\<rparr> db = Inr page"
    using ended_history by blast
  have three: "Suc (length (d_players db)) = 3" by (simp add: db(5) sample_players_def)
  have ids: "{m_id m |m. m \<in> set (d_matches db) \<and> ended Gomoku.GameID m \<and> ann \<in> set (users_of db (m_id m))} = {first_match}"
    by (auto simp: db(4,5) abandoned_def sample_row_sel ended_def users_of_def players_of_def sample_players_def new_player_def)
  from history_complete [OF db(1-3) l, unfolded three ids] show ?thesis using db(1) by blast
qed

theorem history_mirror_witness:
  "\<exists>db page page' e e'. ListHistory sample_service (\<lambda>_. False) Gomoku.GameID ann \<lparr>hq_limit = 20, hq_cursor = None\<rparr> db = Inr page \<and>
     ListHistory sample_service (\<lambda>_. False) Gomoku.GameID bob \<lparr>hq_limit = 20, hq_cursor = None\<rparr> db = Inr page' \<and>
     hp_matches page = [e] \<and> hp_matches page' = [e'] \<and> validHistoryColors (he_color e) (he_color e') \<and> he_finished e' = he_finished e"
proof -
  obtain db where db: "reachable sample_service db"
    and l: "\<forall>user\<in>{ann, bob}. \<exists>page e. ListHistory sample_service (\<lambda>_. False) Gomoku.GameID user \<lparr>hq_limit = 20, hq_cursor = None\<rparr> db = Inr page \<and>
      hp_matches page = [e] \<and> he_id e = first_match"
    using ended_history by fastforce
  from l obtain page e page' e' where
    1: "ListHistory sample_service (\<lambda>_. False) Gomoku.GameID ann \<lparr>hq_limit = 20, hq_cursor = None\<rparr> db = Inr page"
      "hp_matches page = [e]" "he_id e = first_match"
    and 2: "ListHistory sample_service (\<lambda>_. False) Gomoku.GameID bob \<lparr>hq_limit = 20, hq_cursor = None\<rparr> db = Inr page'"
      "hp_matches page' = [e']" "he_id e' = first_match" by blast
  have m: "e \<in> set (hp_matches page)" "e' \<in> set (hp_matches page')" "he_id e' = he_id e" using 1(2,3) 2(2,3) by simp_all
  have "validHistoryColors (he_color e) (he_color e') \<and> he_finished e' = he_finished e"
    using history_mirror [OF db 1(1) m(1) 2(1) m(2,3)] sample_ids(1) by simp
  with 1(1,2) 2(1,2) show ?thesis by blast
qed

end
