(* ===== verification/ProtocolActions.thy ===== *)
theory ProtocolActions
  imports Protocol
begin

text \<open>
  The messages that clients may send, and the match service behind them: which envelopes are accepted, and which
  actions among them the service takes.
\<close>

subsection \<open>Payloads of both sides\<close>

lemma arr_elems_mono:
  assumes "\<And>raw x. d raw = Some x \<Longrightarrow> d' raw = Some x"
  shows "arr_elems n limit d acc s = Some r \<Longrightarrow> arr_elems n limit d' acc s = Some r"
proof (induction n arbitrary: acc s)
  case (Suc n)
  from Suc.prems obtain v r' x where 1: "\<not> length acc \<ge> limit" "jval (2 * length s) s = Some (v, r')"
    "d (take (length s - length r') s) = Some x"
    by (auto split: if_splits option.splits)
  have "d' (take (length s - length r') s) = Some x" using assms [OF 1(3)] .
  with Suc.prems 1 Suc.IH show ?case by (auto split: if_splits)
qed simp

lemma strict_array_mono:
  assumes "\<And>raw x. d raw = Some x \<Longrightarrow> d' raw = Some x" "strict_array limit d raw = Some xs"
  shows "strict_array limit d' raw = Some xs"
proof -
  from assms(2) show ?thesis
    unfolding strict_array_def Let_def
    by (auto split: if_splits option.splits dest: arr_elems_mono [OF assms(1), rotated])
qed

lemma strictInteger_service: "strictInteger raw = Some v \<Longrightarrow> strictJSONInteger raw = Some v"
  by (auto simp: strictInteger_def strictJSONInteger_def split: if_splits option.splits)

lemma path_cell_service: "path_cell raw = Some v \<Longrightarrow> strictCell raw = Some v"
  by (auto simp: path_cell_def strictCell_def chineseCheckersBoardCells_def ChineseCheckers.BoardCells_def
      dest!: strictInteger_service split: if_splits option.splits)

lemma path_service: "validateChineseCheckersPath raw \<Longrightarrow> \<exists>path. decodeChineseCheckersPath raw = Some path"
proof -
  assume "validateChineseCheckersPath raw"
  then obtain path where p: "strict_array (nat chineseCheckersBoardCells) path_cell raw = Some path" "distinct path" "2 \<le> length path"
    by (auto simp: validateChineseCheckersPath_def split: option.splits)
  have "strict_array (nat ChineseCheckers.BoardCells) strictCell raw = Some path"
    using strict_array_mono [OF path_cell_service p(1)]
    by (simp add: chineseCheckersBoardCells_def ChineseCheckers.BoardCells_def)
  with p(2,3) show ?thesis by (simp add: decodeChineseCheckersPath_def)
qed

text \<open>A payload that the service reads at all: it has at most 1024 bytes, which are UTF-8.\<close>

definition small_payload :: "bytes \<Rightarrow> bool" where
  "small_payload payload \<longleftrightarrow> length payload \<le> maximumActionPayloadBytes \<and> utf8_valid payload"

lemma exact_service:
  "small_payload payload \<Longrightarrow> exactPayloadFields payload ks = Some fs \<Longrightarrow> strictJSONObject payload ks = Some fs"
proof -
  assume s: "small_payload payload" and e: "exactPayloadFields payload ks = Some fs"
  then have o: "strict_object ks payload = Some fs" by (auto simp: exactPayloadFields_def split: option.splits if_splits)
  then have "payload \<noteq> []" by (auto simp: strict_object_def Let_def skip_ws_def)
  with s o show ?thesis by (simp add: strictJSONObject_def small_payload_def)
qed

lemma single_service:
  assumes "small_payload payload" "single_field payload k ok"
  obtains fs raw where "strictJSONObject payload [k] = Some fs" "length fs = 1" "map_of fs k = Some raw" "ok raw"
  using assms exact_service [OF assms(1), of "[k]"] by (auto simp: single_field_def split: option.splits)

lemma type_differs:
  "t \<in> set action_types \<Longrightarrow> t \<noteq> TypePlatformConnect \<and> t \<noteq> TypePlatformPong \<and> t \<noteq> TypePlatformSnapshotRequested"
  by (auto simp: action_types_def platform_types type_defs)

text \<open>What the service makes of an accepted payload.\<close>

lemma payload_service:
  assumes "isClientAction t" "valid_payload parse t payload" "small_payload payload"
    and "validIdentifier i" "validIdentifier user" "canonicalUUID parse act" "0 \<le> n"
  shows "\<exists>sem. validateActionRequest parse
    \<lparr>rq_match = i, rq_actor = user, rq_action = act, rq_revision = n, rq_type = t, rq_payload = payload\<rparr> = Inr sem"
proof -
  let ?r = "\<lparr>rq_match = i, rq_actor = user, rq_action = act, rq_revision = n, rq_type = t, rq_payload = payload\<rparr>"
  have t: "t \<in> set action_types" using assms(1) by (simp add: isClientAction_def)
  note d = type_differs [OF t]
  have pre: "\<not> (\<not> validIdentifier i \<or> \<not> validIdentifier user \<or> \<not> canonicalUUID parse act \<or> n < 0)" using assms(4-7) by simp
  consider "t = ChineseCheckers.MoveRequested" | "t = FlightChess.MoveRequested"
    | "t = Gomoku.MoveRequested \<or> t = Reversi.MoveRequested" | "t = Rps.ChoiceRequested"
    | "t \<in> {CheckersResignRequested, FlightChess.RollRequested, FlightResignRequested, GomokuResignRequested, ReversiResignRequested,
        RpsResignRequested}"
    using t by (auto simp: action_types_def)
  then show ?thesis
  proof cases
    case 1
    then have "single_field payload ''path'' validateChineseCheckersPath"
      using assms(2) d by (simp add: valid_payload_def type_defs)
    from single_service [OF assms(3) this] obtain fs raw where f: "strictJSONObject payload [''path''] = Some fs" "length fs = 1"
      "map_of fs ''path'' = Some raw" "validateChineseCheckersPath raw" .
    obtain path where "decodeChineseCheckersPath raw = Some path" using path_service [OF f(4)] by blast
    then have "decodeChineseCheckersMoveRequest payload = Some path" using f by (simp add: decodeChineseCheckersMoveRequest_def)
    then show ?thesis using pre by (simp add: validateActionRequest_def Let_def 1)
  next
    case 2
    then have "single_field payload ''pieceIndex'' (\<lambda>raw. case strictInteger raw of None \<Rightarrow> False | Some i \<Rightarrow> 0 \<le> i \<and> i < 4)"
      using assms(2) d by (simp add: valid_payload_def type_defs)
    from single_service [OF assms(3) this] obtain fs raw where f: "strictJSONObject payload [''pieceIndex''] = Some fs" "length fs = 1"
      "map_of fs ''pieceIndex'' = Some raw" "case strictInteger raw of None \<Rightarrow> False | Some i \<Rightarrow> 0 \<le> i \<and> i < 4" .
    then obtain v where v: "strictInteger raw = Some v" "0 \<le> v" "v < 4" by (auto split: option.splits)
    then have "decodePieceRequest payload = Some v" using f strictInteger_service [OF v(1)]
      by (simp add: decodePieceRequest_def FlightChess.PieceCount_def)
    then show ?thesis using pre by (simp add: validateActionRequest_def Let_def 2 type_defs)
  next
    case 3
    have "t \<noteq> ChineseCheckers.MoveRequested" using 3 by (auto simp: type_defs)
    with 3 obtain fs x y where f: "exactPayloadFields payload [''x'', ''y''] = Some fs" "length fs = 2" "map_of fs ''x'' = Some x"
      "map_of fs ''y'' = Some y" "strictInteger x \<noteq> None" "strictInteger y \<noteq> None"
      using assms(2) d by (auto simp: valid_payload_def split: option.splits)
    then obtain a b where "strictJSONInteger x = Some a" "strictJSONInteger y = Some b" using strictInteger_service by blast
    then have m: "decodeMoveRequest payload = Some (a, b)"
      using f exact_service [OF assms(3) f(1)] by (simp add: decodeMoveRequest_def)
    show ?thesis using pre 3 by (elim disjE) (simp_all add: validateActionRequest_def Let_def m type_defs)
  next
    case 4
    then have "single_field payload ''choice'' (\<lambda>raw. case unmarshal dec_string '''' raw of
        None \<Rightarrow> False | Some c \<Rightarrow> c = ''rock'' \<or> c = ''paper'' \<or> c = ''scissors'')"
      using assms(2) d by (simp add: valid_payload_def type_defs)
    from single_service [OF assms(3) this] obtain fs raw where f: "strictJSONObject payload [''choice''] = Some fs" "length fs = 1"
      "map_of fs ''choice'' = Some raw"
      "case unmarshal dec_string '''' raw of None \<Rightarrow> False | Some c \<Rightarrow> c = ''rock'' \<or> c = ''paper'' \<or> c = ''scissors''" .
    then obtain c where c: "unmarshal dec_string '''' raw = Some c" "validRpsChoice c"
      by (auto simp: validRpsChoice_def Rps.Rock_def Rps.Paper_def Rps.Scissors_def split: option.splits)
    then have "decodeChoiceRequest payload = Some c" using f by (simp add: decodeChoiceRequest_def)
    then show ?thesis using pre by (simp add: validateActionRequest_def Let_def 4 type_defs)
  next
    case 5
    then have "exactPayloadFields payload [] = Some []"
      using assms(2) d by (elim insertE emptyE) (simp_all add: valid_payload_def type_defs)
    from exact_service [OF assms(3) this] have e: "isStrictEmptyObject payload" by (simp add: isStrictEmptyObject_def)
    show ?thesis using pre 5 by (elim insertE emptyE) (simp_all add: validateActionRequest_def Let_def e type_defs)
  qed
qed

subsection \<open>Accepted messages\<close>

lemma fail_unless_Inr [simp]: "fail_unless b e = Inr u \<longleftrightarrow> b"
  by (simp add: fail_unless_def)

lemma binding_Inr:
  "validateClientBinding parse e action = Inr u \<longleftrightarrow>
     (let g = game_of_type (en_type e) in
      (g \<noteq> '''' \<longrightarrow> en_game e = g) \<and>
      (g = '''' \<longrightarrow> en_game e \<in> {''chinese_checkers'', ''flight_chess'', ''gomoku'', ''rps'', ''reversi''}) \<and>
      canonicalUUID parse (en_match e) \<and> (action \<longrightarrow> canonicalUUID parse (en_action e)))"
  by (auto simp: validateClientBinding_def Let_def)

lemma game_of_action: "isClientAction t \<Longrightarrow> game_of_type t \<noteq> ''''"
  by (auto simp: isClientAction_def action_types_def game_of_type_def)

lemma games_builtin:
  assumes "NewRegistry = Inr reg" "g \<in> {''chinese_checkers'', ''flight_chess'', ''gomoku'', ''rps'', ''reversi''}"
  shows "\<exists>r. Lookup reg g = Some r \<and> ru_game r = g"
proof -
  obtain reg' where r: "NewRegistry = Inr reg'" "\<And>g r. Lookup reg' g = Some r \<longleftrightarrow> r \<in> set builtin \<and> ru_game r = g"
    using NewRegistry_total by blast
  have "set (map ru_game builtin) = {''chinese_checkers'', ''flight_chess'', ''gomoku'', ''rps'', ''reversi''}"
    unfolding builtin_ids by auto
  with assms(2) have "g \<in> ru_game ` set builtin" by simp
  moreover have "reg' = reg" by (rule Inr_inject [OF trans [OF r(1) [symmetric] assms(1)]])
  ultimately show ?thesis using r(2) by blast
qed

lemma game_of_type_builtin:
  "game_of_type t \<noteq> '''' \<Longrightarrow> game_of_type t \<in> {''chinese_checkers'', ''flight_chess'', ''gomoku'', ''rps'', ''reversi''}"
  by (auto simp: game_of_type_def split: if_splits)

lemma Validate_action:
  assumes "Validate e = Inr ()" "isClientAction (en_type e)"
  shows "\<exists>n. en_expected e = Some n \<and> 0 \<le> n \<and> n \<le> maxSafeJSONInteger" "en_revision e = None"
  using assms by (auto simp: Validate_def Let_def split: if_splits option.splits)

lemma service_bounds_payload:
  assumes "validateActionRequest parse r = Inr sem"
  shows "small_payload (rq_payload r)"
proof (rule ccontr)
  assume "\<not> small_payload (rq_payload r)"
  then have "strictJSONObject (rq_payload r) ks = None" for ks by (auto simp: strictJSONObject_def small_payload_def)
  then have "validateActionRequest parse r = Inl ErrInvalidRequest"
    by (simp add: validateActionRequest_def Let_def isStrictEmptyObject_def decodeMoveRequest_def decodePieceRequest_def
        decodeChoiceRequest_def decodeChineseCheckersMoveRequest_def)
  with assms show False by simp
qed

text \<open>
  C36. Which of the actions that the protocol accepts the match service accepts: when an envelope passes \<open>Validate\<close>
  and \<open>validateClientMessage\<close> and its type is an action, the request that the hub makes of it, for a match and a user with
  valid identifiers, passes \<open>validateActionRequest\<close> if and only if its payload has at most 1024 bytes of
  UTF-8. So the size of the payload is the only thing in which the two disagree, and of a small
  action only the state of the match can still refuse it.
\<close>
theorem protocol_actions:
  assumes "Validate e = Inr ()" "validateClientMessage parse e = Inr ()" "isClientAction (en_type e)"
    and "validIdentifier i" "validIdentifier user"
  shows "(\<exists>sem. validateActionRequest parse (hub_request i user e) = Inr sem) \<longleftrightarrow>
    length (en_payload e) \<le> 1024 \<and> utf8_valid (en_payload e)"
proof -
  obtain n where n: "en_expected e = Some n" "0 \<le> n" using Validate_action(1) [OF assms(1,3)] by blast
  have d: "en_type e \<noteq> TypePlatformConnect \<and> en_type e \<noteq> TypePlatformPong \<and> en_type e \<noteq> TypePlatformSnapshotRequested"
    using assms(3) by (intro type_differs) (simp add: isClientAction_def)
  then have "validateClientBinding parse e True = Inr () \<and> valid_payload parse (en_type e) (en_payload e)"
    using assms(2,3) by (auto simp: validateClientMessage_def Let_def)
  then have v: "valid_payload parse (en_type e) (en_payload e)" "canonicalUUID parse (en_action e)"
    by (auto simp: binding_Inr Let_def)
  have "\<exists>sem. validateActionRequest parse (hub_request i user e) = Inr sem" if "small_payload (en_payload e)"
    using payload_service [OF assms(3) v(1) that assms(4,5) v(2) n(2)] by (simp add: hub_request_def n(1))
  moreover have "small_payload (en_payload e)" if "validateActionRequest parse (hub_request i user e) = Inr sem" for sem
    using service_bounds_payload [OF that] by (simp add: hub_request_def)
  ultimately show ?thesis unfolding small_payload_def maximumActionPayloadBytes_def by blast
qed

text \<open>
  Only client messages come through: the checks of \<open>DecodeClient\<close> after the unmarshalling accept no type
  that the server sends. An accepted message is a connect without identifiers, or it names a game of the server's registry and a
  match; an action belongs to that game, has a canonical action id and the revision it expects, a safe
  integer; nothing else has a revision.
\<close>
lemma protocol_shape:
  assumes "Validate e = Inr ()" "validateClientMessage parse e = Inr ()" "NewRegistry = Inr reg"
  shows "en_version e = 1 \<and> en_revision e = None \<and>
    (en_type e = TypePlatformConnect \<and> en_game e = '''' \<and> en_match e = '''' \<and> en_action e = '''' \<and> en_expected e = None \<or>
     (en_type e = TypePlatformPong \<or> en_type e = TypePlatformSnapshotRequested) \<and>
       (\<exists>r. Lookup reg (en_game e) = Some r) \<and> canonicalUUID parse (en_match e) \<and> en_action e = '''' \<and> en_expected e = None \<or>
     isClientAction (en_type e) \<and> (\<exists>r. Lookup reg (en_game e) = Some r) \<and> en_game e = game_of_type (en_type e) \<and>
       canonicalUUID parse (en_match e) \<and> canonicalUUID parse (en_action e) \<and>
       (\<exists>n. en_expected e = Some n \<and> 0 \<le> n \<and> n < 2 ^ 53))"
proof -
  note v = assms(1,2)
  have ver: "en_version e = 1" using v(1) by (auto simp: Validate_def Let_def Version1_def split: if_splits)
  consider "en_type e = TypePlatformConnect" | "en_type e = TypePlatformPong \<or> en_type e = TypePlatformSnapshotRequested"
    | "isClientAction (en_type e)"
    using v(2) by (auto simp: validateClientMessage_def Let_def split: if_splits)
  then show ?thesis
  proof cases
    case 1
    then have "\<not> isClientAction (en_type e)" using type_differs by (auto simp: isClientAction_def)
    with v(1) 1 have "en_game e = '''' \<and> en_match e = '''' \<and> en_action e = '''' \<and> en_expected e = None \<and> en_revision e = None"
      by (auto simp: Validate_def Let_def isRevisionlessControl_def split: if_splits)
    with 1 ver show ?thesis by blast
  next
    case 2
    then have "\<not> isClientAction (en_type e)" using type_differs by (auto simp: isClientAction_def)
    with v(1) 2 have a: "en_action e = '''' \<and> en_expected e = None \<and> en_revision e = None"
      by (auto simp: Validate_def Let_def isRevisionlessControl_def platform_types split: if_splits)
    have g: "game_of_type (en_type e) = ''''" using 2 by (auto simp: game_of_type_def platform_types type_defs)
    have "validateClientBinding parse e False = Inr ()"
      using v(2) 2 by (auto simp: validateClientMessage_def Let_def platform_types split: if_splits)
    note bind = this [unfolded binding_Inr Let_def g]
    have "en_game e \<in> {''chinese_checkers'', ''flight_chess'', ''gomoku'', ''rps'', ''reversi''}" and c: "canonicalUUID parse (en_match e)"
      using bind by simp_all
    from games_builtin [OF assms(3) this(1)] have r: "\<exists>r. Lookup reg (en_game e) = Some r" by blast
    from a have a': "en_action e = ''''" "en_expected e = None" "en_revision e = None" by simp_all
    show ?thesis
      by (rule conjI [OF ver conjI [OF a'(3) disjI2 [OF disjI1 [OF conjI [OF 2 conjI [OF r conjI [OF c conjI [OF a'(1,2)]]]]]]]])
  next
    case 3
    note n = Validate_action [OF v(1) 3]
    have "en_type e \<noteq> TypePlatformConnect \<and> en_type e \<noteq> TypePlatformPong \<and> en_type e \<noteq> TypePlatformSnapshotRequested"
      using 3 by (intro type_differs) (simp add: isClientAction_def)
    then have "validateClientBinding parse e True = Inr ()" using v(2) 3 by (auto simp: validateClientMessage_def Let_def)
    note bind = this [unfolded binding_Inr Let_def]
    have b: "en_game e = game_of_type (en_type e)" "canonicalUUID parse (en_match e)" "canonicalUUID parse (en_action e)"
      using bind game_of_action [OF 3] by simp_all
    have "\<exists>r. Lookup reg (en_game e) = Some r"
      using games_builtin [OF assms(3) game_of_type_builtin [OF game_of_action [OF 3]]] b(1) by auto
    moreover have "\<exists>n. en_expected e = Some n \<and> 0 \<le> n \<and> n < 2 ^ 53" using n(1) by (auto simp: maxSafeJSONInteger_def)
    ultimately have "isClientAction (en_type e) \<and> (\<exists>r. Lookup reg (en_game e) = Some r) \<and> en_game e = game_of_type (en_type e) \<and>
       canonicalUUID parse (en_match e) \<and> canonicalUUID parse (en_action e) \<and> (\<exists>n. en_expected e = Some n \<and> 0 \<le> n \<and> n < 2 ^ 53)"
      using 3 b by simp
    from conjI [OF ver conjI [OF n(2) disjI2 [OF disjI2 [OF this]]]] show ?thesis .
  qed
qed

lemma decoded_checks:
  "DecodeClient parse data = Inr e \<Longrightarrow> Validate e = Inr () \<and> validateClientMessage parse e = Inr ()"
  by (auto simp: DecodeClient_def Decode_def)

text \<open>A resignation.\<close>

definition sample_resign :: Envelope where
  "sample_resign = \<lparr>en_version = 1, en_game = ''gomoku'', en_match = first_match, en_revision = None, en_expected = Some 0,
     en_type = GomokuResignRequested, en_action = replicate 36 CHR ''d'', en_payload = ''{}''\<rparr>"

lemma empty_object: "json_parse ''{}'' = Some (JObj [])" "exactPayloadFields ''{}'' [] = Some []" "small_payload ''{}''"
  by (simp_all add: json_parse_def json_decode_def skip_ws_def is_ws_def eval_nat_numeral exactPayloadFields_def strict_object_def
      rawTopLevelKeys_def small_payload_def maximumActionPayloadBytes_def utf8_valid_ascii)

lemma resign_accepted: "Validate sample_resign = Inr ()" "validateClientMessage sample_parser sample_resign = Inr ()"
    "isClientAction (en_type sample_resign)" "small_payload (en_payload sample_resign)"
proof -
  have act: "isClientAction GomokuResignRequested" by (simp add: isClientAction_def action_types_def)
  have known: "GomokuResignRequested \<in> set knownTypes" by (simp add: knownTypes_def action_types_def)
  have d: "GomokuResignRequested \<noteq> TypePlatformConnect" "GomokuResignRequested \<noteq> TypePlatformError" "GomokuResignRequested \<noteq> ''''"
    "GomokuResignRequested \<noteq> TypePlatformPong" "GomokuResignRequested \<noteq> TypePlatformSnapshotRequested"
    by (simp_all add: type_defs platform_types)
  have m: "first_match \<noteq> ''''" "(replicate 36 CHR ''d'' :: bytes) \<noteq> ''''" by (simp_all add: first_match_def)
  show "Validate sample_resign = Inr ()"
    using known d act m by (simp add: Validate_def Let_def sample_resign_def Version1_def maxSafeJSONInteger_def empty_object)
  have "game_of_type GomokuResignRequested = ''gomoku''" by (simp add: game_of_type_def type_defs)
  moreover have "valid_payload sample_parser GomokuResignRequested ''{}''"
    by (simp add: valid_payload_def platform_types type_defs empty_object)
  ultimately show "validateClientMessage sample_parser sample_resign = Inr ()"
    using d act sample_uuids
    by (simp add: validateClientMessage_def Let_def sample_resign_def validateClientBinding_def fail_unless_def)
  show "isClientAction (en_type sample_resign)" "small_payload (en_payload sample_resign)"
    using act empty_object by (simp_all add: sample_resign_def)
qed

theorem protocol_actions_witness:
  "\<exists>sem. validateActionRequest sample_parser (hub_request first_match ann sample_resign) = Inr sem"
  using protocol_actions [OF resign_accepted(1-3) sample_valid_ids(3) sample_valid_ids(1)] resign_accepted(4)
  by (simp add: small_payload_def maximumActionPayloadBytes_def)

lemma protocol_shape_witness:
  "\<exists>reg r. NewRegistry = Inr reg \<and> Lookup reg (en_game sample_resign) = Some r"
proof -
  obtain reg where reg: "NewRegistry = Inr reg" by (rule NewRegistry_total)
  have "en_type sample_resign \<noteq> TypePlatformConnect" by (simp add: sample_resign_def type_defs platform_types)
  with protocol_shape [OF resign_accepted(1,2) reg] reg show ?thesis by auto
qed

end
