(* ===== verification/Tokens.thy ===== *)
theory Tokens
  imports Credentials Users
begin

text \<open>
  The secrets of accounts (\<open>server/internal/auth/tokens.go\<close>): random tokens, invitation codes and
  their hashes. \<open>crypto/rand\<close> is the list of bytes it delivers before it fails; a function that
  reads it returns what is left. The lemmas: an invitation code that was generated is accepted in
  upper or lower case, and the refresh tokens that are accepted include those that are issued.
\<close>

subsection \<open>Random tokens\<close>

definition maximumRandomTokenBytes :: int where "maximumRandomTokenBytes = 1024"
definition inviteCodeLength :: nat where "inviteCodeLength = 12"
definition retiredInviteCodeLength :: nat where "retiredInviteCodeLength = 6"
definition inviteCodeAlphabet :: bytes where "inviteCodeAlphabet = ''ABCDEFGHIJKLMNOPQRSTUVWXYZ0123456789''"
definition refreshTokenHashDomain :: bytes where "refreshTokenHashDomain = ''gamebox/refresh-token-hash/v1''"

definition randomToken :: "int \<Rightarrow> nat list \<Rightarrow> (bytes \<times> nat list) option" where
  "randomToken byteCount entropy =
     (if byteCount \<le> 0 \<or> byteCount > maximumRandomTokenBytes then None
      else if length entropy < nat byteCount then None
      else Some (b64_encode (take (nat byteCount) entropy), drop (nat byteCount) entropy))"

text \<open>
  \<open>rand.Int\<close> below the size of the alphabet, 36: one byte at a time, of which the six low bits
  count, until they are small enough.
\<close>

fun rand_index :: "nat list \<Rightarrow> (nat \<times> nat list) option" where
  "rand_index [] = None"
| "rand_index (b # r) = (if b mod 64 < 36 then Some (b mod 64, r) else rand_index r)"

fun invite_letters :: "nat \<Rightarrow> nat list \<Rightarrow> (bytes \<times> nat list) option" where
  "invite_letters 0 entropy = Some ([], entropy)"
| "invite_letters (Suc n) entropy =
     (case rand_index entropy of
        None \<Rightarrow> None
      | Some (i, r) \<Rightarrow>
          (case invite_letters n r of
             None \<Rightarrow> None
           | Some (code, r') \<Rightarrow> Some (inviteCodeAlphabet ! i # code, r')))"

definition randomInviteCode :: "nat list \<Rightarrow> (bytes \<times> nat list) option" where
  "randomInviteCode entropy = invite_letters inviteCodeLength entropy"

subsection \<open>Invitation codes\<close>

definition is_upper :: "char \<Rightarrow> bool" where "is_upper c \<longleftrightarrow> 65 \<le> byte c \<and> byte c \<le> 90"
definition is_lower :: "char \<Rightarrow> bool" where "is_lower c \<longleftrightarrow> 97 \<le> byte c \<and> byte c \<le> 122"

definition inviteCodeUsesUppercaseAlphabet :: "bytes \<Rightarrow> bool" where
  "inviteCodeUsesUppercaseAlphabet code \<longleftrightarrow> list_all (\<lambda>c. is_upper c \<or> is_digit c) code"

text \<open>\<open>None\<close> is the code's \<open>false\<close>. A byte outside the alphabet leaves the code as it is.\<close>

definition normalizeInviteCode :: "bytes \<Rightarrow> bytes option" where
  "normalizeInviteCode code =
     (if length code = retiredInviteCodeLength \<and> inviteCodeUsesUppercaseAlphabet code then None
      else if length code \<noteq> inviteCodeLength then Some code
      else if list_all (\<lambda>c. is_upper c \<or> is_lower c \<or> is_digit c) code
        then Some (map (\<lambda>c. if is_lower c then char_of (byte c - 32) else c) code)
      else Some code)"

subsection \<open>Hashes\<close>

definition hashTokenWithDomain :: "bytes \<Rightarrow> bytes \<Rightarrow> bytes \<Rightarrow> bytes option" where
  "hashTokenWithDomain domain pepper plaintext =
     (if pepper = '''' \<or> plaintext = '''' then None
      else Some (hex_encode (sha256 (domain @ credentialHashField pepper @ credentialHashField plaintext))))"

definition HashToken :: "bytes \<Rightarrow> bytes \<Rightarrow> bytes option" where
  "HashToken pepper plaintext = hashTokenWithDomain ''gamebox/token-hash/v1'' pepper plaintext"

definition HashRefreshToken :: "bytes \<Rightarrow> bytes \<Rightarrow> bytes option" where
  "HashRefreshToken pepper plaintext = hashTokenWithDomain refreshTokenHashDomain pepper plaintext"

subsection \<open>Refresh tokens\<close>

definition refreshTokenEntropyBytes :: nat where "refreshTokenEntropyBytes = 32"
definition maximumRefreshTokenTextBytes :: nat where "maximumRefreshTokenTextBytes = 512"

definition validRefreshTokenText :: "bytes \<Rightarrow> bool" where
  "validRefreshTokenText raw \<longleftrightarrow>
     \<not> (length raw = 0 \<or> length raw > maximumRefreshTokenTextBytes) \<and>
     (case b64_decode raw of None \<Rightarrow> False | Some decoded \<Rightarrow> length decoded = refreshTokenEntropyBytes)"

subsection \<open>What is generated is accepted\<close>

lemma randomToken_valid:
  assumes "is_bytes entropy" "randomToken (int refreshTokenEntropyBytes) entropy = Some (t, rest)"
  shows "validRefreshTokenText t" "is_bytes rest" "length t = 43"
proof -
  have t: "t = b64_encode (take 32 entropy)" "rest = drop 32 entropy" "32 \<le> length entropy"
    using assms(2) by (auto simp: randomToken_def refreshTokenEntropyBytes_def maximumRandomTokenBytes_def split: if_splits)
  have b: "is_bytes (take 32 entropy)" using assms(1) by (auto simp: list_all_iff dest: in_set_takeD)
  show l: "length t = 43" using t by (simp add: b64_encode_def length_b64_digits)
  show "is_bytes rest" using assms(1) t by (auto simp: list_all_iff dest: in_set_dropD)
  show "validRefreshTokenText t"
    using b64_decode_encode [OF b] l t
    by (simp add: validRefreshTokenText_def maximumRefreshTokenTextBytes_def refreshTokenEntropyBytes_def)
qed

lemma hash_total: "pepper \<noteq> '''' \<Longrightarrow> t \<noteq> '''' \<Longrightarrow> \<exists>h. HashToken pepper t = Some h"
  "pepper \<noteq> '''' \<Longrightarrow> t \<noteq> '''' \<Longrightarrow> \<exists>h. HashRefreshToken pepper t = Some h"
  by (simp_all add: HashToken_def HashRefreshToken_def hashTokenWithDomain_def)

lemma rand_index_less: "rand_index e = Some (i, r) \<Longrightarrow> i < 36"
  by (induction e) (auto split: if_splits)

definition alphabet_ok :: bool where
  "alphabet_ok \<longleftrightarrow> length inviteCodeAlphabet = 36 \<and> list_all (\<lambda>c. is_upper c \<or> is_digit c) inviteCodeAlphabet"

lemma alphabet_ok: alphabet_ok
  by code_simp

lemma invite_letters_upper:
  "invite_letters n e = Some (code, r) \<Longrightarrow> length code = n \<and> inviteCodeUsesUppercaseAlphabet code"
proof (induction n arbitrary: e code r)
  case (Suc n)
  then obtain i r1 code1 where i: "rand_index e = Some (i, r1)" "invite_letters n r1 = Some (code1, r)"
    "code = inviteCodeAlphabet ! i # code1" by (auto split: option.splits)
  have "is_upper (inviteCodeAlphabet ! i) \<or> is_digit (inviteCodeAlphabet ! i)"
    using alphabet_ok rand_index_less [OF i(1)] by (simp add: alphabet_ok_def list_all_length)
  with Suc.IH [OF i(2)] show ?case by (simp add: i(3) inviteCodeUsesUppercaseAlphabet_def)
qed (simp add: inviteCodeUsesUppercaseAlphabet_def)

definition lower :: "char \<Rightarrow> char" where
  "lower c = (if is_upper c then char_of (byte c + 32) else c)"

lemma lower_upper:
  assumes "is_upper c \<or> is_digit c"
  shows "is_upper (lower c) \<or> is_lower (lower c) \<or> is_digit (lower c)"
    "(if is_lower (lower c) then char_of (byte (lower c) - 32) else lower c) = c" "\<not> is_lower c"
  using assms by (auto simp: lower_def is_lower_def is_upper_def is_digit_def)

lemma invite_accepted:
  assumes "randomInviteCode e = Some (code, r)" "list_all2 (\<lambda>c d. d = c \<or> d = lower c) code typed"
  shows "normalizeInviteCode typed = Some code"
proof -
  have c: "length code = 12" "list_all (\<lambda>c. is_upper c \<or> is_digit c) code"
    using assms(1) invite_letters_upper [of 12 e code r]
    by (auto simp: randomInviteCode_def inviteCodeLength_def inviteCodeUsesUppercaseAlphabet_def)
  have *: "list_all (\<lambda>c. is_upper c \<or> is_lower c \<or> is_digit c) typed \<and>
      map (\<lambda>c. if is_lower c then char_of (byte c - 32) else c) typed = code"
    using assms(2) c(2)
  proof (induction rule: list_all2_induct)
    case (Cons c cs d ds)
    then show ?case using lower_upper [of c] by auto
  qed simp
  have "length typed = 12" using assms(2) c(1) by (simp add: list_all2_lengthD [symmetric])
  with * show ?thesis
    by (simp add: normalizeInviteCode_def retiredInviteCodeLength_def inviteCodeLength_def)
qed

end
