(* ===== verification/AccessTokens.thy ===== *)
theory AccessTokens
  imports Tokens GoJson Uuid
begin

text \<open>
  Access tokens and sessions (\<open>server/internal/auth/session.go\<close>). Signing and verifying a JSON Web
  Token is the work of the package \<open>golang-jwt\<close>, which is not part of the repository: both are
  fields of the record \<open>auth_config\<close>, and so are the sealing and opening of transfer receipts with
  AES-GCM. Before it verifies a token, the code checks its two JSON documents itself; that check is
  modelled. The clock is its milliseconds; \<open>unix\<close> is its whole seconds.
\<close>

subsection \<open>Claims, sessions and what the service is configured with\<close>

record claims =
  cl_issuer :: bytes
  cl_subject :: bytes
  cl_id :: bytes
  cl_issued :: "int option"
  cl_expires :: "int option"

record account_user =
  ur_id :: bytes
  ur_nickname :: bytes

record Session =
  se_user :: account_user
  se_access :: bytes
  se_access_expires :: int
  se_refresh :: bytes
  se_refresh_expires :: int

record transferReceipt =
  rc_session :: Session
  rc_snapshot :: bytes
  rc_epoch :: bytes

record auth_config =
  au_pepper :: bytes
  au_secret :: bytes
  au_ucd :: ucd
  au_parse :: uuid_parser
  au_sign :: "bytes \<Rightarrow> claims \<Rightarrow> bytes option"
  au_verify :: "bytes \<Rightarrow> int \<Rightarrow> bytes \<Rightarrow> claims option"
  au_seal :: "nat list \<Rightarrow> nat list \<Rightarrow> bytes \<Rightarrow> transferReceipt \<Rightarrow> bytes option"
  au_open :: "nat list \<Rightarrow> bytes \<Rightarrow> bytes \<Rightarrow> transferReceipt option"

definition complete_auth :: "auth_config \<Rightarrow> bool" where
  "complete_auth au \<longleftrightarrow> \<not> (length (au_secret au) < 32 \<or> length (au_pepper au) < 32)"

definition unix :: "int \<Rightarrow> int" where
  "unix now = now div 1000"

definition accessTokenLifetime :: int where "accessTokenLifetime = 15 * 60"
definition accessTokenIssuer :: bytes where "accessTokenIssuer = ''gamebox''"
definition maximumAccessTokenTextBytes :: nat where "maximumAccessTokenTextBytes = 4096"
definition maximumUserIDTextBytes :: nat where "maximumUserIDTextBytes = 128"

text \<open>The last second of the year 9999.\<close>

definition PersistentRefreshExpiresAt :: int where
  "PersistentRefreshExpiresAt = 253402300799"

text \<open>The argument \<open>epochs\<close> has no or one element; without one, the claim is empty.\<close>

definition sessionForRefreshToken ::
  "auth_config \<Rightarrow> account_user \<Rightarrow> int \<Rightarrow> bytes \<Rightarrow> bytes list \<Rightarrow> Session option" where
  "sessionForRefreshToken au user nowUnix refreshToken epochs =
     (case au_sign au (au_secret au)
        \<lparr>cl_issuer = accessTokenIssuer, cl_subject = ur_id user,
         cl_id = (case epochs of [] \<Rightarrow> '''' | e # _ \<Rightarrow> e),
         cl_issued = Some nowUnix, cl_expires = Some (nowUnix + accessTokenLifetime)\<rparr> of
        None \<Rightarrow> None
      | Some access \<Rightarrow>
          Some \<lparr>se_user = user, se_access = access, se_access_expires = nowUnix + accessTokenLifetime,
            se_refresh = refreshToken, se_refresh_expires = PersistentRefreshExpiresAt\<rparr>)"

definition newSessionAt ::
  "auth_config \<Rightarrow> account_user \<Rightarrow> int \<Rightarrow> bytes list \<Rightarrow> nat list \<Rightarrow> (Session \<times> nat list) option" where
  "newSessionAt au user nowUnix epochs entropy =
     (case randomToken (int refreshTokenEntropyBytes) entropy of
        None \<Rightarrow> None
      | Some (refreshToken, rest) \<Rightarrow>
          map_option (\<lambda>s. (s, rest)) (sessionForRefreshToken au user nowUnix refreshToken epochs))"

definition sessionAccessIssuedAt :: "Session \<Rightarrow> int" where
  "sessionAccessIssuedAt s = se_access_expires s - accessTokenLifetime"

subsection \<open>Strict documents\<close>

definition maximumJWTJSONDepth :: nat where "maximumJWTJSONDepth = 32"

datatype jwtJSONDocumentKind = jwtNestedDocument | jwtHeaderDocument | jwtClaimsDocument

text \<open>
  \<open>strings.EqualFold\<close> with an ASCII name: besides the other case of a letter, U+017F folds to \<open>s\<close>
  and U+212A to \<open>k\<close>.
\<close>

definition exactOrUnrelatedKey :: "bytes \<Rightarrow> bytes \<Rightarrow> bool" where
  "exactOrUnrelatedKey key canonical \<longleftrightarrow> key = canonical \<or> fold_name key \<noteq> fold_name canonical"

definition usesCanonicalKnownKey :: "bytes \<Rightarrow> jwtJSONDocumentKind \<Rightarrow> bool" where
  "usesCanonicalKnownKey key kind =
     (case kind of
        jwtHeaderDocument \<Rightarrow> list_all (exactOrUnrelatedKey key) [''alg'', ''typ'', ''kid'']
      | jwtClaimsDocument \<Rightarrow>
          list_all (exactOrUnrelatedKey key) [''iss'', ''sub'', ''aud'', ''exp'', ''nbf'', ''iat'', ''jti'']
      | jwtNestedDocument \<Rightarrow> True)"

text \<open>
  The walk over the tokens of a document, as a recursion on the parsed value, which keeps every
  member of an object in order. \<open>depth\<close> counts the objects and arrays around the value.
\<close>

function consumeUniqueJSONObject :: "(bytes \<times> json) list \<Rightarrow> nat \<Rightarrow> jwtJSONDocumentKind \<Rightarrow> bool"
and consumeUniqueJSONValue :: "json \<Rightarrow> nat \<Rightarrow> bool" where
  "consumeUniqueJSONObject kvs depth kind \<longleftrightarrow>
     \<not> depth > maximumJWTJSONDepth \<and>
     (\<forall>kv\<in>set kvs. usesCanonicalKnownKey (fst kv) kind) \<and> distinct (map fst kvs) \<and>
     (\<forall>kv\<in>set kvs. consumeUniqueJSONValue (snd kv) depth)"
| "consumeUniqueJSONValue (JObj kvs) depth \<longleftrightarrow> consumeUniqueJSONObject kvs (depth + 1) jwtNestedDocument"
| "consumeUniqueJSONValue (JArr js) depth \<longleftrightarrow>
     \<not> depth \<ge> maximumJWTJSONDepth \<and> (\<forall>j\<in>set js. consumeUniqueJSONValue j (depth + 1))"
| "consumeUniqueJSONValue JNull depth \<longleftrightarrow> True"
| "consumeUniqueJSONValue (JBool b) depth \<longleftrightarrow> True"
| "consumeUniqueJSONValue (JNum l) depth \<longleftrightarrow> True"
| "consumeUniqueJSONValue (JStr s) depth \<longleftrightarrow> True"
  by pat_completeness auto
termination
proof (relation "measure (case_sum (\<lambda>(kvs, d, k). 2 * size_list (size_prod (\<lambda>_. 0) size) kvs + 1) (\<lambda>(j, d). 2 * size j))",
    goal_cases)
  case (2 kvs depth kind kv)
  then have "size (snd kv) \<le> size_list (size_prod (\<lambda>_. 0) size) kvs"
    by (intro size_list_estimation' [of kv]) (auto, cases kv, simp)
  then show ?case by simp
next
  case (4 js depth j)
  then have "size j \<le> size_list size js" by (rule size_list_estimation') simp
  then show ?case by simp
qed simp_all

definition uniqueJSONObject :: "bytes \<Rightarrow> jwtJSONDocumentKind \<Rightarrow> bool" where
  "uniqueJSONObject document kind \<longleftrightarrow>
     (case json_parse document of Some (JObj kvs) \<Rightarrow> consumeUniqueJSONObject kvs 1 kind | _ \<Rightarrow> False)"

text \<open>
  Escapes of surrogates come in pairs. The first argument is \<open>inString\<close>.
\<close>

function validJSONSurrogateEscapes :: "bool \<Rightarrow> bytes \<Rightarrow> bool" where
  "validJSONSurrogateEscapes inString [] \<longleftrightarrow> \<not> inString"
| "validJSONSurrogateEscapes False (c # s) \<longleftrightarrow> validJSONSurrogateEscapes (c = DQ) s"
| "validJSONSurrogateEscapes True (c # s) \<longleftrightarrow>
     (if c = DQ then validJSONSurrogateEscapes False s
      else if c = BSL then
        (case s of
           [] \<Rightarrow> False
         | e # r \<Rightarrow>
             if e \<noteq> CHR ''u'' then validJSONSurrogateEscapes True r
             else case hex4 r of
               None \<Rightarrow> False
             | Some (unit, r1) \<Rightarrow>
                 if 0xD800 \<le> unit \<and> unit \<le> 0xDBFF then
                   (if take 2 r1 \<noteq> [BSL, CHR ''u''] then False
                    else case hex4 (drop 2 r1) of
                      None \<Rightarrow> False
                    | Some (low, r2) \<Rightarrow>
                        if low < 0xDC00 \<or> low > 0xDFFF then False else validJSONSurrogateEscapes True r2)
                 else if 0xDC00 \<le> unit \<and> unit \<le> 0xDFFF then False
                 else validJSONSurrogateEscapes True r1)
      else validJSONSurrogateEscapes True s)"
  by pat_completeness auto
termination
  by (relation "measure (\<lambda>(b, s). length s)") (auto dest!: hex4_length)

fun split_dots :: "bytes \<Rightarrow> bytes list" where
  "split_dots [] = [[]]"
| "split_dots (c # s) =
     (if c = CHR ''.'' then [] # split_dots s
      else case split_dots s of w # ws \<Rightarrow> (c # w) # ws | [] \<Rightarrow> [[c]])"

text \<open>\<open>RawURLEncoding.Strict()\<close> also refuses trailing bits that are not zero.\<close>

definition b64_decode_strict :: "bytes \<Rightarrow> nat list option" where
  "b64_decode_strict s =
     (case b64_decode s of
        None \<Rightarrow> None
      | Some bs \<Rightarrow> if b64_encode bs = filter (\<lambda>c. c \<noteq> CHR 0x0D \<and> c \<noteq> CHR 0x0A) s then Some bs else None)"

definition jwtJSONDocumentsAreStrict :: "bytes \<Rightarrow> bool" where
  "jwtJSONDocumentsAreStrict raw \<longleftrightarrow>
     (let segments = split_dots raw in
      length segments = 3 \<and>
      list_all (\<lambda>(segment, kind).
          case b64_decode_strict segment of
            None \<Rightarrow> False
          | Some bs \<Rightarrow>
              let document = map char_of bs in
              utf8_valid document \<and> validJSONSurrogateEscapes False document \<and> uniqueJSONObject document kind)
        (zip segments [jwtHeaderDocument, jwtClaimsDocument]))"

subsection \<open>Reading an access token\<close>

text \<open>Every failure is the same error, \<open>None\<close> here.\<close>

definition ParseAccess :: "auth_config \<Rightarrow> int \<Rightarrow> bytes \<Rightarrow> identity option" where
  "ParseAccess au now raw =
     (if length raw = 0 \<or> length raw > maximumAccessTokenTextBytes then None
      else if \<not> jwtJSONDocumentsAreStrict raw then None
      else case au_verify au (au_secret au) now raw of
        None \<Rightarrow> None
      | Some c \<Rightarrow>
          if cl_subject c = '''' \<or> length (cl_subject c) > maximumUserIDTextBytes then None
          else (case (cl_issued c, cl_expires c) of
             (Some issued, Some expires) \<Rightarrow>
               if i64 (expires - issued) \<noteq> accessTokenLifetime then None
               else Some \<lparr>id_user = cl_subject c, id_epoch = cl_id c\<rparr>
           | _ \<Rightarrow> None))"

end
