(* ===== verification/Accounts.thy ===== *)
theory Accounts
  imports AccessTokens Matches Scratch
begin

text \<open>
  Accounts (\<open>server/internal/auth/service.go\<close> and \<open>session.go\<close>) and the command that creates
  invitations (\<open>server/cmd/gameboxctl/main.go\<close>): registration with an invitation, authentication of
  access tokens, and the refresh credentials that buy new ones. The tables are those of the match
  service, with the users in them, and the tables of invitations, refresh tokens, transfers and
  transfer attempts. An operation is one transaction; \<open>flt\<close> says which statements fail for reasons
  outside the model. \<open>now\<close> is the clock in milliseconds, \<open>entropy\<close> the random source, \<open>fresh\<close> the value
  of \<open>uuid.NewRandom\<close>.
\<close>

subsection \<open>Tables\<close>

record invite_row =
  iv_hash :: bytes
  iv_created :: int
  iv_by :: "bytes option"
  iv_at :: "int option"

record refresh_row =
  rf_hash :: bytes
  rf_user :: bytes
  rf_expires :: int
  rf_created :: int
  rf_revoked :: "int option"
  rf_reason :: "bytes option"

record transfer_row =
  tf_hash :: bytes
  tf_user :: bytes
  tf_snapshot :: bytes
  tf_expires :: int
  tf_receiver :: "bytes option"
  tf_response :: "bytes option"
  tf_redeemed :: "int option"

record attempt_row =
  at_bucket :: bytes
  at_window :: int
  at_attempts :: int

record accounts =
  ac_db :: db
  ac_invites :: "invite_row list"
  ac_refresh :: "refresh_row list"
  ac_transfers :: "transfer_row list"
  ac_attempts :: "attempt_row list"
  ac_collections :: "collection list"

datatype auth_error =
    ErrInvalidRequest
  | ErrInviteInvalid
  | ErrNicknameTaken
  | ErrUnauthorized
  | ErrInternal
  | ErrSessionTransferred
  | ErrTransferInvalid
  | ErrTransferLimited

datatype auth_stmt =
    A_Begin | A_Invite | A_User | A_Refresh | A_Confirm | A_Transfer | A_Revoked | A_Collection | A_Attempts | A_Commit
  | A_InsertUser | A_InsertRefresh | A_InsertTransfer | A_InsertInvite | A_UpsertAttempt
  | A_UpdateInvite | A_UpdateSeen | A_UpdateRefresh | A_UpdateEpoch | A_RevokeRefresh | A_RevokeResume
  | A_UpdateTransfer | A_DeleteTickets | A_DeleteTransfers | A_DeleteAttempts | A_CancelTransfer

type_synonym auth_faults = "auth_stmt \<Rightarrow> bool"

definition exec :: "auth_faults \<Rightarrow> auth_stmt \<Rightarrow> 'a \<Rightarrow> auth_error + 'a" where
  "exec flt s x = (if flt s then Inl ErrInternal else Inr x)"

abbreviation ac_users :: "accounts \<Rightarrow> user list" where
  "ac_users ac \<equiv> d_users (ac_db ac)"

definition set_users :: "user list \<Rightarrow> accounts \<Rightarrow> accounts" where
  "set_users us ac = ac\<lparr>ac_db := (ac_db ac)\<lparr>d_users := us\<rparr>\<rparr>"

definition account_of :: "accounts \<Rightarrow> bytes \<Rightarrow> user option" where
  "account_of ac i = find (\<lambda>u. us_id u = i) (ac_users ac)"

definition refresh_of :: "accounts \<Rightarrow> bytes \<Rightarrow> refresh_row option" where
  "refresh_of ac h = find (\<lambda>r. rf_hash r = h) (ac_refresh ac)"

subsection \<open>Statements\<close>

definition open_invite :: "bytes \<Rightarrow> invite_row \<Rightarrow> bool" where
  "open_invite h i \<longleftrightarrow> iv_hash i = h \<and> iv_at i = None \<and> iv_by i = None"

text \<open>The unique nickname is the conflict that \<open>isNormalizedNicknameConflict\<close> recognises.\<close>

definition insert_user :: "auth_faults \<Rightarrow> user \<Rightarrow> accounts \<Rightarrow> auth_error + accounts" where
  "insert_user flt u ac =
     (if flt A_InsertUser \<or> list_ex (\<lambda>v. us_id v = us_id u) (ac_users ac) then Inl ErrInternal
      else if list_ex (\<lambda>v. us_normalized v = us_normalized u) (ac_users ac) then Inl ErrNicknameTaken
      else Inr (set_users (ac_users ac @ [u]) ac))"

definition consume_invite :: "auth_faults \<Rightarrow> bytes \<Rightarrow> bytes \<Rightarrow> int \<Rightarrow> accounts \<Rightarrow> auth_error + accounts" where
  "consume_invite flt h user at ac =
     (if flt A_UpdateInvite then Inl ErrInternal
      else if length (filter (open_invite h) (ac_invites ac)) \<noteq> 1 then Inl ErrInviteInvalid
      else Inr (ac\<lparr>ac_invites := map (\<lambda>i. if open_invite h i then i\<lparr>iv_by := Some user, iv_at := Some at\<rparr> else i)
             (ac_invites ac)\<rparr>))"

definition insert_refresh :: "auth_faults \<Rightarrow> bytes \<Rightarrow> bytes \<Rightarrow> int \<Rightarrow> int \<Rightarrow> accounts \<Rightarrow> auth_error + accounts" where
  "insert_refresh flt h user expires created ac =
     (if flt A_InsertRefresh \<or> refresh_of ac h \<noteq> None \<or> account_of ac user = None then Inl ErrInternal
      else Inr (ac\<lparr>ac_refresh := ac_refresh ac @
        [\<lparr>rf_hash = h, rf_user = user, rf_expires = expires, rf_created = created, rf_revoked = None, rf_reason = None\<rparr>]\<rparr>))"

definition finish :: "auth_faults \<Rightarrow> 'a \<Rightarrow> accounts \<Rightarrow> auth_error + 'a \<times> accounts" where
  "finish flt x ac = (if flt A_Commit then Inl ErrInternal else Inr (x, ac))"

definition begin_write :: "auth_faults \<Rightarrow> auth_error + unit" where
  "begin_write flt = exec flt A_Begin ()"

subsection \<open>Registration\<close>

definition new_user :: "bytes \<Rightarrow> bytes \<Rightarrow> bytes \<Rightarrow> user" where
  "new_user i display normal =
     \<lparr>us_id = i, us_nickname = display, us_normalized = normal, us_enabled = 1, us_last_seen = None, us_epoch = ''''\<rparr>"

text \<open>The checks at the start of both registrations: the display name, its key and the hash of the code.\<close>

definition check_registration :: "auth_config \<Rightarrow> bytes \<Rightarrow> bytes \<Rightarrow> auth_error + bytes \<times> bytes \<times> bytes" where
  "check_registration au code nickname =
     (if code = '''' then Inl ErrInvalidRequest
      else case NormalizeNickname (au_ucd au) nickname of
        None \<Rightarrow> Inl ErrInvalidRequest
      | Some (display, normal) \<Rightarrow>
          (case normalizeInviteCode code of
             None \<Rightarrow> Inl ErrInviteInvalid
           | Some invite \<Rightarrow>
               (case HashToken (au_pepper au) invite of
                  None \<Rightarrow> Inl ErrInvalidRequest
                | Some h \<Rightarrow> Inr (display, normal, h))))"

definition Register ::
  "auth_config \<Rightarrow> auth_faults \<Rightarrow> int \<Rightarrow> bytes option \<Rightarrow> bytes \<Rightarrow> bytes \<Rightarrow> accounts \<Rightarrow>
   auth_error + account_user \<times> accounts" where
  "Register au flt now fresh code nickname ac =
     and_then (check_registration au code nickname) (\<lambda>(display, normal, h).
     and_then (begin_write flt) (\<lambda>_.
     and_then (exec flt A_Invite (list_ex (open_invite h) (ac_invites ac))) (\<lambda>available.
     if \<not> available then Inl ErrInviteInvalid
     else
     and_then (or_fail fresh ErrInternal) (\<lambda>i.
     and_then (insert_user flt (new_user i display normal) ac) (\<lambda>ac.
     and_then (consume_invite flt h i (unix now) ac) (\<lambda>ac.
     finish flt \<lparr>ur_id = i, ur_nickname = display\<rparr> ac))))))"

definition RegisterAndIssue ::
  "auth_config \<Rightarrow> auth_faults \<Rightarrow> int \<Rightarrow> nat list \<Rightarrow> bytes option \<Rightarrow> bytes \<Rightarrow> bytes \<Rightarrow> accounts \<Rightarrow>
   auth_error + Session \<times> accounts" where
  "RegisterAndIssue au flt now entropy fresh code nickname ac =
     and_then (check_registration au code nickname) (\<lambda>(display, normal, h).
     and_then (begin_write flt) (\<lambda>_.
     and_then (exec flt A_Invite (list_ex (open_invite h) (ac_invites ac))) (\<lambda>available.
     if \<not> available then Inl ErrInviteInvalid
     else
     and_then (or_fail fresh ErrInternal) (\<lambda>i.
     and_then (or_fail (newSessionAt au \<lparr>ur_id = i, ur_nickname = display\<rparr> (unix now) [] entropy) ErrInternal)
       (\<lambda>(session, _).
     and_then (or_fail (HashRefreshToken (au_pepper au) (se_refresh session)) ErrInternal) (\<lambda>rh.
     and_then (insert_user flt (new_user i display normal) ac) (\<lambda>ac.
     and_then (consume_invite flt h i (sessionAccessIssuedAt session) ac) (\<lambda>ac.
     and_then (insert_refresh flt rh i (se_refresh_expires session) (sessionAccessIssuedAt session) ac) (\<lambda>ac.
     finish flt session ac)))))))))"

subsection \<open>Authentication\<close>

definition current_account :: "identity \<Rightarrow> user \<Rightarrow> bool" where
  "current_account who u \<longleftrightarrow> us_id u = id_user who \<and> us_enabled u = 1 \<and> us_epoch u = id_epoch who"

definition Authenticate ::
  "auth_config \<Rightarrow> auth_faults \<Rightarrow> int \<Rightarrow> bytes \<Rightarrow> accounts \<Rightarrow> auth_error + account_user \<times> accounts" where
  "Authenticate au flt now access ac =
     (case ParseAccess au now access of
        None \<Rightarrow> Inl ErrUnauthorized
      | Some who \<Rightarrow>
          and_then (begin_write flt) (\<lambda>_.
          and_then (exec flt A_UpdateSeen ()) (\<lambda>_.
          if length (filter (current_account who) (ac_users ac)) \<noteq> 1 then Inl ErrUnauthorized
          else
            let ac = set_users (map (\<lambda>u. if current_account who u then u\<lparr>us_last_seen := Some now\<rparr> else u)
                (ac_users ac)) ac in
            and_then (exec flt A_User (find (\<lambda>u. us_id u = id_user who \<and> us_enabled u = 1) (ac_users ac))) (\<lambda>row.
            case row of
              None \<Rightarrow> Inl ErrUnauthorized
            | Some u \<Rightarrow>
                if \<not> validStoredUser (au_parse au) (au_ucd au) u then Inl ErrInternal
                else finish flt \<lparr>ur_id = us_id u, ur_nickname = us_nickname u\<rparr> ac))))"

subsection \<open>Sessions\<close>

definition Issue ::
  "auth_config \<Rightarrow> auth_faults \<Rightarrow> int \<Rightarrow> nat list \<Rightarrow> bytes \<Rightarrow> accounts \<Rightarrow> auth_error + Session \<times> accounts" where
  "Issue au flt now entropy userID ac =
     (if userID = '''' \<or> length userID > maximumUserIDTextBytes then Inl ErrUnauthorized
      else
      and_then (begin_write flt) (\<lambda>_.
      and_then (exec flt A_User (find (\<lambda>u. us_id u = userID \<and> us_enabled u = 1) (ac_users ac))) (\<lambda>row.
      case row of
        None \<Rightarrow> Inl ErrUnauthorized
      | Some u \<Rightarrow>
          and_then (or_fail (newSessionAt au \<lparr>ur_id = us_id u, ur_nickname = us_nickname u\<rparr> (unix now) [us_epoch u] entropy)
              ErrInternal) (\<lambda>(session, _).
          and_then (or_fail (HashRefreshToken (au_pepper au) (se_refresh session)) ErrInternal) (\<lambda>rh.
          and_then (insert_refresh flt rh (us_id u) (se_refresh_expires session) (sessionAccessIssuedAt session) ac) (\<lambda>ac.
          finish flt session ac))))))"

definition joined :: "accounts \<Rightarrow> bytes \<Rightarrow> (refresh_row \<times> user) option" where
  "joined ac h =
     (case refresh_of ac h of None \<Rightarrow> None | Some r \<Rightarrow> map_option (Pair r) (account_of ac (rf_user r)))"

definition reusable :: "int \<Rightarrow> refresh_row \<Rightarrow> user \<Rightarrow> bool" where
  "reusable nowUnix r u \<longleftrightarrow> \<not> (rf_revoked r \<noteq> None \<or> us_enabled u \<noteq> 1 \<or> rf_created r > nowUnix)"

definition confirmReusableRefreshToken ::
  "auth_faults \<Rightarrow> accounts \<Rightarrow> bytes \<Rightarrow> bytes \<Rightarrow> bytes \<Rightarrow> int \<Rightarrow> auth_error + unit" where
  "confirmReusableRefreshToken flt ac h userID epoch nowUnix =
     and_then (exec flt A_Confirm (case joined ac h of None \<Rightarrow> None | Some (r, u) \<Rightarrow>
         if rf_user r = userID then Some (r, u) else None)) (\<lambda>row.
     case row of
       None \<Rightarrow> Inl ErrUnauthorized
     | Some (r, u) \<Rightarrow>
         if rf_reason r = Some ''transfer'' then Inl ErrSessionTransferred
         else if \<not> reusable nowUnix r u \<or> us_epoch u \<noteq> epoch then Inl ErrUnauthorized
         else Inr ())"

definition refresh_guard :: "accounts \<Rightarrow> bytes \<Rightarrow> bytes \<Rightarrow> bytes \<Rightarrow> int \<Rightarrow> refresh_row \<Rightarrow> bool" where
  "refresh_guard ac h userID epoch nowUnix r \<longleftrightarrow>
     rf_hash r = h \<and> rf_user r = userID \<and> rf_revoked r = None \<and> rf_created r \<le> nowUnix \<and>
     list_ex (\<lambda>u. us_id u = rf_user r \<and> us_enabled u = 1 \<and> us_epoch u = epoch) (ac_users ac)"

definition Refresh ::
  "auth_config \<Rightarrow> auth_faults \<Rightarrow> int \<Rightarrow> bytes \<Rightarrow> accounts \<Rightarrow> auth_error + Session \<times> accounts" where
  "Refresh au flt now raw ac =
     (if \<not> validRefreshTokenText raw then Inl ErrUnauthorized
      else
      and_then (or_fail (HashRefreshToken (au_pepper au) raw) ErrUnauthorized) (\<lambda>h.
      and_then (begin_write flt) (\<lambda>_.
      and_then (exec flt A_Refresh (joined ac h)) (\<lambda>row.
      case row of
        None \<Rightarrow> Inl ErrUnauthorized
      | Some (r, u) \<Rightarrow>
          if rf_reason r = Some ''transfer'' then Inl ErrSessionTransferred
          else if \<not> reusable (unix now) r u then Inl ErrUnauthorized
          else
          and_then (or_fail (sessionForRefreshToken au \<lparr>ur_id = rf_user r, ur_nickname = us_nickname u\<rparr> (unix now) raw
              [us_epoch u]) ErrInternal) (\<lambda>session.
          and_then (exec flt A_UpdateRefresh ()) (\<lambda>_.
          let hit = refresh_guard ac h (rf_user r) (us_epoch u) (unix now);
              ac' = ac\<lparr>ac_refresh := map (\<lambda>q. if hit q then q\<lparr>rf_expires := PersistentRefreshExpiresAt\<rparr> else q)
                (ac_refresh ac)\<rparr> in
          and_then (if length (filter hit (ac_refresh ac)) \<noteq> 1
              then confirmReusableRefreshToken flt ac' h (rf_user r) (us_epoch u) (unix now)
              else Inr ()) (\<lambda>_.
          finish flt session ac')))))))"

subsection \<open>Creating invitations\<close>

definition maximumInviteCount :: nat where "maximumInviteCount = 1000"
definition maximumInviteGenerationAttempts :: nat where
  "maximumInviteGenerationAttempts = maximumInviteCount * 10"

text \<open>
  \<open>nextInviteCandidate\<close>: the first argument is the number of attempts left; the lists are the seen
  codes and digests. The result has the attempts left, the candidate and the rest of the entropy.
\<close>

fun nextInviteCandidate ::
  "nat \<Rightarrow> bytes \<Rightarrow> bytes list \<Rightarrow> bytes list \<Rightarrow> nat list \<Rightarrow> (nat \<times> (bytes \<times> bytes) \<times> nat list) option" where
  "nextInviteCandidate 0 pepper codes digests entropy = None"
| "nextInviteCandidate (Suc n) pepper codes digests entropy =
     (case randomInviteCode entropy of
        None \<Rightarrow> None
      | Some (code, rest) \<Rightarrow>
          if code = '''' then None
          else if code \<in> set codes then nextInviteCandidate n pepper codes digests rest
          else (case HashToken pepper code of
             None \<Rightarrow> None
           | Some digest \<Rightarrow>
               if digest \<in> set digests then nextInviteCandidate n pepper codes digests rest
               else Some (n, (code, digest), rest)))"

lemma nextInviteCandidate_less: "nextInviteCandidate n pepper codes digests e = Some (n', c, r) \<Longrightarrow> n' < n"
  by (induction n arbitrary: e) (fastforce split: option.splits if_splits simp: less_Suc_eq)+

text \<open>
  Generating and inserting, where a candidate whose digest is in the table already is replaced.
  \<open>done\<close> are the candidates that the loop has passed, \<open>todo\<close> how many are missing; every seen
  code is one of the candidates or was replaced.
\<close>

fun invite_candidates ::
  "nat \<Rightarrow> nat \<Rightarrow> bytes \<Rightarrow> (bytes \<times> bytes) list \<Rightarrow> nat list \<Rightarrow> (nat \<times> (bytes \<times> bytes) list \<times> nat list) option" where
  "invite_candidates 0 n pepper acc entropy = Some (n, acc, entropy)"
| "invite_candidates (Suc k) n pepper acc entropy =
     (case nextInviteCandidate n pepper (map fst acc) (map snd acc) entropy of
        None \<Rightarrow> None
      | Some (n', c, rest) \<Rightarrow> invite_candidates k n' pepper (acc @ [c]) rest)"

definition new_invite :: "int \<Rightarrow> bytes \<Rightarrow> invite_row" where
  "new_invite now digest = \<lparr>iv_hash = digest, iv_created = now, iv_by = None, iv_at = None\<rparr>"

function insert_invites ::
  "auth_faults \<Rightarrow> int \<Rightarrow> bytes \<Rightarrow> nat \<Rightarrow> (bytes \<times> bytes) list \<Rightarrow> (bytes \<times> bytes) list \<Rightarrow> nat list \<Rightarrow> accounts \<Rightarrow>
   bytes list \<Rightarrow> (bytes list \<times> accounts) option" where
  "insert_invites flt now pepper n seen [] entropy ac codes = Some (codes, ac)"
| "insert_invites flt now pepper n seen (c # cs) entropy ac codes =
     (if flt A_InsertInvite then None
      else if list_ex (\<lambda>i. iv_hash i = snd c) (ac_invites ac) then
        (case nextInviteCandidate n pepper (map fst seen) (map snd seen) entropy of
           None \<Rightarrow> None
         | Some (n', c', rest) \<Rightarrow> if n' < n then insert_invites flt now pepper n' (seen @ [c']) (c' # cs) rest ac codes
             else None)
      else insert_invites flt now pepper n seen cs entropy
        (ac\<lparr>ac_invites := ac_invites ac @ [new_invite now (snd c)]\<rparr>) (codes @ [fst c]))"
  by pat_completeness auto
termination
  by (relation "measures [\<lambda>(flt, now, pepper, n, seen, cs, e, ac, codes). length cs,
      \<lambda>(flt, now, pepper, n, seen, cs, e, ac, codes). n]") (auto dest: nextInviteCandidate_less)

definition create_invites ::
  "auth_faults \<Rightarrow> int \<Rightarrow> bytes \<Rightarrow> int \<Rightarrow> nat list \<Rightarrow> accounts \<Rightarrow> (bytes list \<times> accounts) option" where
  "create_invites flt now pepper number entropy ac =
     (if number < 1 \<or> number > int maximumInviteCount \<or> length pepper < 32 then None
      else case invite_candidates (nat number) maximumInviteGenerationAttempts pepper [] entropy of
        None \<Rightarrow> None
      | Some (n, cs, rest) \<Rightarrow>
          if flt A_Begin then None
          else (case insert_invites flt now pepper n cs cs rest ac [] of
             None \<Rightarrow> None
           | Some (codes, ac') \<Rightarrow> if flt A_Commit then None else Some (codes, ac')))"

end
