(* ===== verification/Transfers.thy ===== *)
theory Transfers
  imports Accounts
begin

text \<open>
  Moving an account to another device (\<open>server/internal/auth/transfer.go\<close>). A transfer code is
  created with a snapshot of the local progress, or by an administrator for recovery, and redeemed
  once: the redemption changes the session epoch of the account, revokes every refresh token, resume
  token and launch ticket, issues a new refresh token, and keeps a sealed receipt with which the same
  receiver can repeat it. Redemptions are limited in each minute, for each peer and in all.
  \<open>cipher.AEAD\<close> and the JSON of receipts are fields of \<open>auth_config\<close>; \<open>up\<close> is \<open>unicode.ToUpper\<close>,
  whose table is a parameter.
\<close>

subsection \<open>Snapshots\<close>

text \<open>
  \<open>time.Parse\<close> for the three layouts the code tries. \<open>getnum\<close> reads one or two digits, \<open>fixed\<close> asks
  for two. A layout is read field by field; only whether it parses matters.
\<close>

definition getnum :: "bool \<Rightarrow> bytes \<Rightarrow> (nat \<times> bytes) option" where
  "getnum fixed s =
     (case s of
        [] \<Rightarrow> None
      | c # r \<Rightarrow>
          if \<not> is_digit c then None
          else (case r of
             d # r' \<Rightarrow>
               if is_digit d then Some ((byte c - 48) * 10 + (byte d - 48), r')
               else if fixed then None else Some (byte c - 48, r)
           | [] \<Rightarrow> if fixed then None else Some (byte c - 48, r)))"

definition skip_char :: "char \<Rightarrow> bytes \<Rightarrow> bytes option" where
  "skip_char c s = (case s of [] \<Rightarrow> None | d # r \<Rightarrow> if d = c then Some r else None)"

definition check :: "bool \<Rightarrow> unit option" where
  "check b = (if b then Some () else None)"

definition parse_year :: "bytes \<Rightarrow> (nat \<times> bytes) option" where
  "parse_year s = do {
     check (length s \<ge> 4 \<and> list_all is_digit (take 4 s));
     Some (foldl (\<lambda>n c. 10 * n + (byte c - 48)) 0 (take 4 s), drop 4 s) }"

definition days_in :: "nat \<Rightarrow> nat \<Rightarrow> nat" where
  "days_in month year =
     (if month = 2 then (if year mod 4 = 0 \<and> (year mod 100 \<noteq> 0 \<or> year mod 400 = 0) then 29 else 28)
      else if month \<in> set [4, 6, 9, 11] then 30 else 31)"

definition parse_date :: "bytes \<Rightarrow> ((nat \<times> nat \<times> nat) \<times> bytes) option" where
  "parse_date s = do {
     (year, s) \<leftarrow> parse_year s;
     s \<leftarrow> skip_char CHR ''-'' s;
     (month, s) \<leftarrow> getnum True s;
     check (1 \<le> month \<and> month \<le> 12);
     s \<leftarrow> skip_char CHR ''-'' s;
     (day, s) \<leftarrow> getnum True s;
     Some ((year, month, day), s) }"

text \<open>The layout \<open>15:04:05.999999999\<close>; a fraction is a period or a comma and digits.\<close>

definition parse_clock :: "bytes \<Rightarrow> bytes option" where
  "parse_clock s = do {
     (hour, s) \<leftarrow> getnum False s;
     check (hour < 24);
     s \<leftarrow> skip_char CHR '':'' s;
     (minute, s) \<leftarrow> getnum True s;
     check (minute < 60);
     s \<leftarrow> skip_char CHR '':'' s;
     (sec, s) \<leftarrow> getnum True s;
     check (sec < 60);
     Some (case s of
       c # d # r \<Rightarrow> if (c = CHR ''.'' \<or> c = CHR '','') \<and> is_digit d then dropWhile is_digit (d # r) else s
     | _ \<Rightarrow> s) }"

text \<open>The layout \<open>Z07:00\<close>; offsets of 24 hours and 60 minutes are allowed.\<close>

definition parse_zone :: "bytes \<Rightarrow> bytes option" where
  "parse_zone s =
     (case s of
        CHR ''Z'' # r \<Rightarrow> Some r
      | _ \<Rightarrow> do {
          check (length s \<ge> 6 \<and> s ! 3 = CHR '':'');
          (hr, _) \<leftarrow> getnum True (take 2 (drop 1 s));
          (mm, _) \<leftarrow> getnum True (take 2 (drop 4 s));
          check (hr \<le> 24 \<and> mm \<le> 60 \<and> (s ! 0 = CHR ''+'' \<or> s ! 0 = CHR ''-''));
          Some (drop 6 s) })"

definition valid_day :: "nat \<times> nat \<times> nat \<Rightarrow> bool" where
  "valid_day d = (case d of (year, month, day) \<Rightarrow> 1 \<le> day \<and> day \<le> days_in month year)"

definition parses_RFC3339Nano :: "bytes \<Rightarrow> bool" where
  "parses_RFC3339Nano s \<longleftrightarrow> do {
     (d, s) \<leftarrow> parse_date s;
     s \<leftarrow> skip_char CHR ''T'' s;
     s \<leftarrow> parse_clock s;
     s \<leftarrow> parse_zone s;
     check (s = [] \<and> valid_day d) } = Some ()"

definition parses_local :: "bytes \<Rightarrow> bool" where
  "parses_local s \<longleftrightarrow> do {
     (d, s) \<leftarrow> parse_date s;
     s \<leftarrow> skip_char CHR ''T'' s;
     s \<leftarrow> parse_clock s;
     check (s = [] \<and> valid_day d) } = Some ()"

definition parses_date :: "bytes \<Rightarrow> bool" where
  "parses_date s \<longleftrightarrow> do {
     (d, s) \<leftarrow> parse_date s;
     check (s = [] \<and> valid_day d) } = Some ()"

text \<open>A map of raw messages: the last member of a key owned.\<close>

definition snapshot_value :: "(bytes \<times> json) list \<Rightarrow> bytes \<Rightarrow> json option" where
  "snapshot_value kvs k = map_of (rev kvs) k"

definition snapshot_get :: "(bytes \<times> json) list \<Rightarrow> bytes \<Rightarrow> (json \<Rightarrow> 'a \<Rightarrow> 'a option) \<Rightarrow> 'a \<Rightarrow> 'a option" where
  "snapshot_get kvs k d zero = (case snapshot_value kvs k of None \<Rightarrow> None | Some j \<Rightarrow> d j zero)"

definition snapshot_keys :: "bytes list" where
  "snapshot_keys = [''version'', ''counts'', ''firstFound'', ''favorites'', ''cat'', ''claimed'', ''winning'', ''isNew'', ''serial'']"

definition valid_favorite :: "int list \<Rightarrow> int \<Rightarrow> bool" where
  "valid_favorite owned i \<longleftrightarrow> \<not> (i < 0 \<or> i \<ge> int (length owned)) \<and> owned ! nat i \<noteq> 0"

definition valid_first :: "bool \<Rightarrow> int \<times> bytes option \<Rightarrow> bool" where
  "valid_first recovered p =
     (case p of (n, date) \<Rightarrow>
        if n = 0 then date = None
        else (case date of
           None \<Rightarrow> recovered
         | Some v \<Rightarrow> \<not> (length v < 10 \<or> length v > 40) \<and> (parses_RFC3339Nano v \<or> parses_local v \<or> parses_date v)))"

definition validTransferSnapshot :: "bytes \<Rightarrow> bool" where
  "validTransferSnapshot raw \<longleftrightarrow>
     \<not> length raw > 16384 \<and>
     (case json_parse raw of
        Some (JObj kvs) \<Rightarrow> do {
          version \<leftarrow> snapshot_get kvs ''version'' dec_int 0;
          check (version = 3);
          owned \<leftarrow> snapshot_get kvs ''counts'' (dec_slice dec_int 0) [];
          check (length owned = 24 \<or> length owned = 48);
          serial \<leftarrow> snapshot_get kvs ''serial'' dec_int 0;
          check (serial \<ge> 1);
          cat \<leftarrow> snapshot_get kvs ''cat'' dec_int 0;
          check (0 \<le> cat \<and> cat < int (length owned));
          claimed \<leftarrow> snapshot_get kvs ''claimed'' dec_bool False;
          winning \<leftarrow> snapshot_get kvs ''winning'' dec_bool False;
          recovered \<leftarrow> (if snapshot_value kvs ''recoveredDates'' = None then Some False
            else do { b \<leftarrow> snapshot_get kvs ''recoveredDates'' dec_bool False; check b; Some b });
          check (let n = length (remdups (map fst kvs)) in n = 9 \<or> n = 10 \<and> recovered);
          check (list_all (\<lambda>k. snapshot_value kvs k \<noteq> None \<and> snapshot_value kvs k \<noteq> Some JNull) snapshot_keys);
          first \<leftarrow> snapshot_get kvs ''firstFound'' (dec_slice (dec_ptr dec_string '''') None) [];
          check (length first = length owned);
          favorites \<leftarrow> snapshot_get kvs ''favorites'' (dec_slice dec_int 0) [];
          check (length favorites \<le> 6);
          isNew \<leftarrow> snapshot_get kvs ''isNew'' dec_bool False;
          check (list_all (valid_favorite owned) favorites \<and> distinct favorites);
          check (list_all (valid_first recovered) (zip owned first));
          check (list_all (\<lambda>n. \<not> (n < 0 \<or> n > 1000000000)) owned);
          check (\<not> claimed \<or> \<not> winning \<or> owned ! nat cat > 0) } = Some ()
      | _ \<Rightarrow> False)"

text \<open>\<open>json.Marshal\<close> of a map sorts its keys.\<close>

definition recovery_members :: "int list \<Rightarrow> (bytes \<times> json) list" where
  "recovery_members owned =
     [(''cat'', jint 0), (''claimed'', JBool False), (''counts'', JArr (map jint owned)), (''favorites'', JArr []),
      (''firstFound'', JArr (map (\<lambda>_. JNull) owned)), (''isNew'', JBool False), (''recoveredDates'', JBool True),
      (''serial'', jint 1), (''version'', jint 3), (''winning'', JBool False)]"

definition recoverySnapshot :: "auth_faults \<Rightarrow> accounts \<Rightarrow> bytes \<Rightarrow> auth_error + bytes" where
  "recoverySnapshot flt ac userID =
     and_then (exec flt A_Collection (find_collection userID (ac_collections ac))) (\<lambda>row.
     Inr (render (JObj (recovery_members (case row of None \<Rightarrow> replicate 48 0 | Some c \<Rightarrow> co_counts c)))))"

subsection \<open>Creating a code\<close>

record TransferCode =
  tc_code :: bytes
  tc_expires :: int

record TransferResult =
  tr_session :: Session
  tr_snapshot :: bytes

definition base32_alphabet :: bytes where "base32_alphabet = ''ABCDEFGHIJKLMNOPQRSTUVWXYZ234567''"

text \<open>\<open>base32.StdEncoding\<close> of five bytes is eight letters.\<close>

definition base32_encode :: "nat list \<Rightarrow> bytes" where
  "base32_encode bs =
     (let n = foldl (\<lambda>n b. 256 * n + b) 0 bs in
      map (\<lambda>i. base32_alphabet ! (n div 32 ^ (7 - i) mod 32)) [0..<8])"

definition transfer_hash :: "auth_config \<Rightarrow> bytes \<Rightarrow> bytes" where
  "transfer_hash au code = valueOrEmpty (HashToken (au_pepper au) (''transfer:'' @ code))"

definition receiver_hash :: "auth_config \<Rightarrow> bytes \<Rightarrow> bytes" where
  "receiver_hash au receiver = valueOrEmpty (HashToken (au_pepper au) (''receiver:'' @ receiver))"

definition transfer_of :: "accounts \<Rightarrow> bytes \<Rightarrow> transfer_row option" where
  "transfer_of ac h = find (\<lambda>t. tf_hash t = h) (ac_transfers ac)"

definition insert_transfer :: "auth_faults \<Rightarrow> bytes \<Rightarrow> bytes \<Rightarrow> bytes \<Rightarrow> int \<Rightarrow> accounts \<Rightarrow> auth_error + accounts" where
  "insert_transfer flt h user snap expires ac =
     (if flt A_InsertTransfer \<or> transfer_of ac h \<noteq> None \<or> account_of ac user = None then Inl ErrInternal
      else Inr (ac\<lparr>ac_transfers := ac_transfers ac @
        [\<lparr>tf_hash = h, tf_user = user, tf_snapshot = snap, tf_expires = expires, tf_receiver = None,
          tf_response = None, tf_redeemed = None\<rparr>]\<rparr>))"

definition createTransfer ::
  "auth_config \<Rightarrow> auth_faults \<Rightarrow> int \<Rightarrow> nat list \<Rightarrow> bytes \<Rightarrow> bytes \<Rightarrow> bytes \<Rightarrow> bool \<Rightarrow> accounts \<Rightarrow>
   auth_error + TransferCode \<times> accounts" where
  "createTransfer au flt now entropy userID epoch snap recovery ac =
     (if \<not> recovery \<and> \<not> validTransferSnapshot snap then Inl ErrInvalidRequest
      else
      and_then (begin_write flt) (\<lambda>_.
      case (if flt A_User then None else find (\<lambda>u. us_id u = userID \<and> us_enabled u = 1) (ac_users ac)) of
        None \<Rightarrow> Inl ErrUnauthorized
      | Some u \<Rightarrow>
          if \<not> recovery \<and> us_epoch u \<noteq> epoch then Inl ErrUnauthorized
          else
          and_then (if recovery then recoverySnapshot flt ac userID else Inr snap) (\<lambda>snap.
          if length entropy < 5 then Inl ErrInternal
          else
            let code = base32_encode (take 5 entropy);
                ac = ac\<lparr>ac_transfers := filter (\<lambda>t. \<not> (tf_user t = userID \<and> tf_redeemed t = None \<or>
                  tf_expires t < i64 (unix now - 86400))) (ac_transfers ac)\<rparr>;
                expires = i64 (unix now + 600) in
            if flt A_DeleteTransfers then Inl ErrInternal
            else
            and_then (insert_transfer flt (transfer_hash au code) userID snap expires ac) (\<lambda>ac.
            finish flt \<lparr>tc_code = code, tc_expires = i64 (expires * 1000)\<rparr> ac))))"

definition CreateTransfer ::
  "auth_config \<Rightarrow> auth_faults \<Rightarrow> int \<Rightarrow> nat list \<Rightarrow> bytes \<Rightarrow> bytes \<Rightarrow> accounts \<Rightarrow> auth_error + TransferCode \<times> accounts" where
  "CreateTransfer au flt now entropy access snap ac =
     (case ParseAccess au now access of
        None \<Rightarrow> Inl ErrUnauthorized
      | Some who \<Rightarrow> createTransfer au flt now entropy (id_user who) (id_epoch who) snap False ac)"

definition CreateRecovery ::
  "auth_config \<Rightarrow> auth_faults \<Rightarrow> int \<Rightarrow> nat list \<Rightarrow> bytes \<Rightarrow> accounts \<Rightarrow> auth_error + TransferCode \<times> accounts" where
  "CreateRecovery au flt now entropy userID ac = createTransfer au flt now entropy userID '''' '''' True ac"

text \<open>One statement outside a transaction; a failure is the error of the driver.\<close>

definition CancelTransfer :: "auth_config \<Rightarrow> auth_faults \<Rightarrow> int \<Rightarrow> bytes \<Rightarrow> accounts \<Rightarrow> auth_error + unit \<times> accounts" where
  "CancelTransfer au flt now access ac =
     (case ParseAccess au now access of
        None \<Rightarrow> Inl ErrUnauthorized
      | Some who \<Rightarrow>
          if flt A_CancelTransfer then Inl ErrInternal
          else Inr ((), ac\<lparr>ac_transfers := filter (\<lambda>t. \<not> (tf_user t = id_user who \<and> tf_redeemed t = None \<and>
            list_ex (\<lambda>u. us_id u = id_user who \<and> us_epoch u = id_epoch who) (ac_users ac))) (ac_transfers ac)\<rparr>))"

subsection \<open>Attempts\<close>

text \<open>Integer division of Go truncates towards zero.\<close>

definition minute_window :: "int \<Rightarrow> int" where
  "minute_window now = (let s = unix now in if s < 0 then - ((- s) div 60) else s div 60)"

definition attempts_of :: "accounts \<Rightarrow> bytes \<Rightarrow> int" where
  "attempts_of ac bucket =
     (case find (\<lambda>a. at_bucket a = bucket) (ac_attempts ac) of None \<Rightarrow> 0 | Some a \<Rightarrow> at_attempts a)"

definition upsert_attempt :: "bytes \<Rightarrow> int \<Rightarrow> accounts \<Rightarrow> accounts" where
  "upsert_attempt bucket window ac =
     (case find (\<lambda>a. at_bucket a = bucket) (ac_attempts ac) of
        None \<Rightarrow> ac\<lparr>ac_attempts := ac_attempts ac @ [\<lparr>at_bucket = bucket, at_window = window, at_attempts = 1\<rparr>]\<rparr>
      | Some _ \<Rightarrow> ac\<lparr>ac_attempts := map (\<lambda>a. if at_bucket a = bucket then a\<lparr>at_attempts := at_attempts a + 1\<rparr> else a)
          (ac_attempts ac)\<rparr>)"

definition attempt_limit :: "bytes \<Rightarrow> int" where
  "attempt_limit bucket = (if bucket = ''global'' then 300 else 30)"

text \<open>The loop over the buckets stops at the first one over its limit.\<close>

fun count_attempts :: "auth_faults \<Rightarrow> int \<Rightarrow> bytes list \<Rightarrow> accounts \<Rightarrow> auth_error + bool \<times> accounts" where
  "count_attempts flt window [] ac = Inr (False, ac)"
| "count_attempts flt window (bucket # bs) ac =
     (if flt A_UpsertAttempt \<or> flt A_Attempts then Inl ErrInternal
      else
        let ac = upsert_attempt bucket window ac in
        if attempts_of ac bucket > attempt_limit bucket then Inr (True, ac)
        else count_attempts flt window bs ac)"

text \<open>The attempt is recorded also when it is refused: a result and the new tables.\<close>

definition transferAttempt :: "auth_config \<Rightarrow> auth_faults \<Rightarrow> int \<Rightarrow> bytes \<Rightarrow> accounts \<Rightarrow> (auth_error + unit) \<times> accounts" where
  "transferAttempt au flt now peer ac =
     (let h = valueOrEmpty (HashToken (au_pepper au) (''transfer-peer:'' @ peer));
          window = minute_window now in
      if flt A_Begin \<or> flt A_DeleteAttempts then (Inl ErrInternal, ac)
      else case count_attempts flt window [h, ''global'']
          (ac\<lparr>ac_attempts := filter (\<lambda>a. at_window a = window) (ac_attempts ac)\<rparr>) of
        Inl e \<Rightarrow> (Inl e, ac)
      | Inr (limited, ac') \<Rightarrow>
          if flt A_Commit then (Inl ErrInternal, ac)
          else (if limited then Inl ErrTransferLimited else Inr (), ac'))"

subsection \<open>Redeeming a code\<close>

text \<open>\<open>strings.Fields\<close> joined again: the white space is gone.\<close>

function remove_spaces :: "bytes \<Rightarrow> bytes" where
  "remove_spaces [] = []"
| "remove_spaces (a # s) =
     (let w = rune_width (a # s) in
      if w = 0 then a # remove_spaces s
      else (if is_space (rune_val (take w (a # s))) then [] else take w (a # s)) @ remove_spaces (drop (w - 1) s))"
  by pat_completeness auto
termination
  by (relation "measure length") auto

text \<open>\<open>strings.ToUpper\<close>.\<close>

definition to_upper :: "(nat \<Rightarrow> nat) \<Rightarrow> bytes \<Rightarrow> bytes" where
  "to_upper up s =
     (if list_all (\<lambda>c. byte c < 128) s then map upper s else encode_runes (map up (runes s)))"

definition receipt_key :: "auth_config \<Rightarrow> nat list" where
  "receipt_key au = sha256 (''gamebox-transfer-receipt:'' @ au_secret au)"

definition gcm_nonce_size :: nat where "gcm_nonce_size = 12"

definition sealTransferReceipt ::
  "auth_config \<Rightarrow> transferReceipt \<Rightarrow> bytes \<Rightarrow> nat list \<Rightarrow> bytes option" where
  "sealTransferReceipt au rc aad entropy =
     (if length entropy < gcm_nonce_size then None
      else au_seal au (receipt_key au) (take gcm_nonce_size entropy) aad rc)"

definition openTransferReceipt :: "auth_config \<Rightarrow> bytes \<Rightarrow> bytes \<Rightarrow> transferReceipt option" where
  "openTransferReceipt au data aad =
     (if length data < gcm_nonce_size then None else au_open au (receipt_key au) data aad)"

text \<open>The answer to a receiver that redeemed the code before.\<close>

definition redeem_again ::
  "auth_config \<Rightarrow> auth_faults \<Rightarrow> int \<Rightarrow> nat list \<Rightarrow> bytes \<Rightarrow> bytes \<Rightarrow> transfer_row \<Rightarrow> int \<Rightarrow> user \<Rightarrow> accounts \<Rightarrow>
   auth_error + TransferResult" where
  "redeem_again au flt now entropy h rh t redeemed u ac =
     (if valueOrEmpty (tf_receiver t) \<noteq> rh \<or> unix now \<ge> i64 (redeemed + 86400) then Inl ErrTransferInvalid
      else case openTransferReceipt au (valueOrEmpty (tf_response t)) h of
        None \<Rightarrow> Inl ErrInternal
      | Some saved \<Rightarrow>
          if rc_epoch saved = '''' \<or> us_epoch u \<noteq> rc_epoch saved then Inl ErrTransferInvalid
          else
            let fh = valueOrEmpty (HashRefreshToken (au_pepper au) (se_refresh (rc_session saved))) in
            (case (if flt A_Revoked then None else refresh_of ac fh) of
               None \<Rightarrow> Inl ErrTransferInvalid
             | Some r \<Rightarrow>
                 if rf_revoked r \<noteq> None then Inl ErrTransferInvalid
                 else (case newSessionAt au (se_user (rc_session saved)) (unix now) [us_epoch u] entropy of
                    None \<Rightarrow> Inl ErrInternal
                  | Some (session, _) \<Rightarrow>
                      Inr \<lparr>tr_session = session\<lparr>se_refresh := se_refresh (rc_session saved)\<rparr>,
                        tr_snapshot = rc_snapshot saved\<rparr>)))"

definition revoke_refresh :: "int \<Rightarrow> bytes \<Rightarrow> refresh_row \<Rightarrow> refresh_row" where
  "revoke_refresh nowUnix user r =
     (if rf_user r = user
      then r\<lparr>rf_revoked := Some (case rf_revoked r of None \<Rightarrow> nowUnix | Some t \<Rightarrow> t), rf_reason := Some ''transfer''\<rparr>
      else r)"

text \<open>The statements of a redemption, in their order.\<close>

definition move_account ::
  "auth_config \<Rightarrow> auth_faults \<Rightarrow> int \<Rightarrow> bytes \<Rightarrow> bytes \<Rightarrow> bytes \<Rightarrow> bytes \<Rightarrow> bytes \<Rightarrow> Session \<Rightarrow> accounts \<Rightarrow>
   auth_error + accounts" where
  "move_account au flt nowUnix user epoch h rh receipt session ac =
     and_then (exec flt A_UpdateEpoch
         (set_users (map (\<lambda>u. if us_id u = user then u\<lparr>us_epoch := epoch\<rparr> else u) (ac_users ac)) ac)) (\<lambda>ac.
     and_then (exec flt A_RevokeRefresh (ac\<lparr>ac_refresh := map (revoke_refresh nowUnix user) (ac_refresh ac)\<rparr>)) (\<lambda>ac.
     and_then (if flt A_RevokeResume \<or> flt A_DeleteTickets then Inl ErrInternal
         else Inr (ac\<lparr>ac_db := revokeUserCredentials nowUnix user (ac_db ac)\<rparr>)) (\<lambda>ac.
     and_then (insert_refresh flt (valueOrEmpty (HashRefreshToken (au_pepper au) (se_refresh session))) user
         (se_refresh_expires session) nowUnix ac) (\<lambda>ac.
     and_then (exec flt A_UpdateTransfer (ac\<lparr>ac_transfers := map (\<lambda>t. if tf_hash t = h
           then t\<lparr>tf_receiver := Some rh, tf_redeemed := Some nowUnix, tf_response := Some receipt\<rparr> else t)
         (ac_transfers ac)\<rparr>)) (\<lambda>ac.
     exec flt A_DeleteTransfers
       (ac\<lparr>ac_transfers := filter (\<lambda>t. \<not> (tf_user t = user \<and> tf_hash t \<noteq> h)) (ac_transfers ac)\<rparr>))))))"

definition redeem_first ::
  "auth_config \<Rightarrow> auth_faults \<Rightarrow> int \<Rightarrow> nat list \<Rightarrow> bytes \<Rightarrow> bytes \<Rightarrow> transfer_row \<Rightarrow> user \<Rightarrow> accounts \<Rightarrow>
   auth_error + TransferResult \<times> accounts" where
  "redeem_first au flt now entropy h rh t u ac =
     (if unix now \<ge> tf_expires t then Inl ErrTransferInvalid
      else
      and_then (or_fail (randomToken (int refreshTokenEntropyBytes) entropy) ErrInternal) (\<lambda>(epoch, entropy).
      and_then (or_fail (newSessionAt au \<lparr>ur_id = tf_user t, ur_nickname = us_nickname u\<rparr> (unix now) [epoch] entropy)
          ErrInternal) (\<lambda>(session, entropy).
      and_then (or_fail (sealTransferReceipt au
            \<lparr>rc_session = session, rc_snapshot = tf_snapshot t, rc_epoch = epoch\<rparr> h entropy) ErrInternal) (\<lambda>receipt.
      and_then (move_account au flt (unix now) (tf_user t) epoch h rh receipt session ac) (\<lambda>ac.
      finish flt \<lparr>tr_session = session, tr_snapshot = tf_snapshot t\<rparr> ac)))))"

definition redeem ::
  "auth_config \<Rightarrow> auth_faults \<Rightarrow> int \<Rightarrow> nat list \<Rightarrow> bytes \<Rightarrow> bytes \<Rightarrow> bytes \<Rightarrow> accounts \<Rightarrow>
   auth_error + TransferResult \<times> accounts" where
  "redeem au flt now entropy code receiver expected ac =
     (if length code \<noteq> 8 \<or> \<not> validRefreshTokenText receiver then Inl ErrTransferInvalid
      else
        let h = transfer_hash au code; rh = receiver_hash au receiver in
        and_then (begin_write flt) (\<lambda>_.
        and_then (exec flt A_Transfer (transfer_of ac h)) (\<lambda>row.
        case row of
          None \<Rightarrow> Inl ErrTransferInvalid
        | Some t \<Rightarrow>
            (case find (\<lambda>u. us_id u = tf_user t \<and> us_enabled u = 1) (ac_users ac) of
               None \<Rightarrow> Inl ErrTransferInvalid
             | Some u \<Rightarrow>
                 if expected \<noteq> '''' \<and> tf_user t \<noteq> expected then Inl ErrTransferInvalid
                 else (case tf_redeemed t of
                    Some redeemed \<Rightarrow>
                      and_then (redeem_again au flt now entropy h rh t redeemed u ac) (\<lambda>r. Inr (r, ac))
                  | None \<Rightarrow> redeem_first au flt now entropy h rh t u ac)))))"

text \<open>The attempt is a transaction of its own; the result comes with the tables afterwards.\<close>

definition RedeemTransferForUser ::
  "auth_config \<Rightarrow> (nat \<Rightarrow> nat) \<Rightarrow> auth_faults \<Rightarrow> auth_faults \<Rightarrow> int \<Rightarrow> nat list \<Rightarrow> bytes \<Rightarrow> bytes \<Rightarrow> bytes \<Rightarrow> bytes \<Rightarrow>
   accounts \<Rightarrow> (auth_error + TransferResult) \<times> accounts" where
  "RedeemTransferForUser au up flt1 flt2 now entropy code receiver peer expected ac =
     (case transferAttempt au flt1 now peer ac of
        (Inl e, ac1) \<Rightarrow> (Inl e, ac1)
      | (Inr (), ac1) \<Rightarrow>
          (case redeem au flt2 now entropy (to_upper up (remove_spaces code)) receiver expected ac1 of
             Inl e \<Rightarrow> (Inl e, ac1)
           | Inr (r, ac2) \<Rightarrow> (Inr r, ac2)))"

definition RedeemTransfer ::
  "auth_config \<Rightarrow> (nat \<Rightarrow> nat) \<Rightarrow> auth_faults \<Rightarrow> auth_faults \<Rightarrow> int \<Rightarrow> nat list \<Rightarrow> bytes \<Rightarrow> bytes \<Rightarrow> bytes \<Rightarrow>
   accounts \<Rightarrow> (auth_error + TransferResult) \<times> accounts" where
  "RedeemTransfer au up flt1 flt2 now entropy code receiver peer ac =
     RedeemTransferForUser au up flt1 flt2 now entropy code receiver peer '''' ac"

end
