(* ===== verification/AccountTables.thy ===== *)
theory AccountTables
  imports Transfers
begin

text \<open>
  The tables of accounts: the invariant \<open>accounts_ok\<close>, the effect of every operation of theories
  \<open>Accounts\<close> and \<open>Transfers\<close>, the steps of the account service, and what each step keeps of the rows
  that were there. A step is one call; the match service and the scratch collections may change
  their own tables in any way.
\<close>

subsection \<open>The tables are well formed\<close>

definition accounts_ok :: "accounts \<Rightarrow> bool" where
  "accounts_ok ac \<longleftrightarrow>
     distinct (map us_id (ac_users ac)) \<and> distinct (map us_normalized (ac_users ac)) \<and>
     distinct (map iv_hash (ac_invites ac)) \<and> distinct (map rf_hash (ac_refresh ac)) \<and>
     distinct (map tf_hash (ac_transfers ac)) \<and> distinct (map at_bucket (ac_attempts ac)) \<and>
     (\<forall>i\<in>set (ac_invites ac). (iv_at i = None) = (iv_by i = None)) \<and>
     (\<forall>r\<in>set (ac_refresh ac). rf_user r \<in> us_id ` set (ac_users ac) \<and> (rf_reason r \<noteq> None \<longrightarrow> rf_revoked r \<noteq> None)) \<and>
     (\<forall>t\<in>set (ac_transfers ac). tf_redeemed t \<noteq> None \<longrightarrow> tf_receiver t \<noteq> None)"

text \<open>What a step keeps: the label has the time, the epoch it draws and the hash of the code it issues.\<close>

record label =
  lb_now :: int
  lb_epoch :: "bytes option"
  lb_code :: "bytes option"

definition moved_in :: "label \<Rightarrow> accounts \<Rightarrow> bytes \<Rightarrow> bool" where
  "moved_in k ac user \<longleftrightarrow> (\<exists>u\<in>set (ac_users ac). us_id u = user \<and> lb_epoch k = Some (us_epoch u))"

definition keeps_users :: "label \<Rightarrow> accounts \<Rightarrow> accounts \<Rightarrow> bool" where
  "keeps_users k ac ac' \<longleftrightarrow> (\<forall>u\<in>set (ac_users ac). \<exists>u'\<in>set (ac_users ac').
     us_id u' = us_id u \<and> us_enabled u' = us_enabled u \<and> us_nickname u' = us_nickname u \<and>
     us_normalized u' = us_normalized u \<and> (us_epoch u' = us_epoch u \<or> lb_epoch k = Some (us_epoch u')))"

definition keeps_invites :: "accounts \<Rightarrow> accounts \<Rightarrow> bool" where
  "keeps_invites ac ac' \<longleftrightarrow>
     (\<forall>i\<in>set (ac_invites ac). \<exists>i'\<in>set (ac_invites ac'). iv_hash i' = iv_hash i \<and> (iv_at i \<noteq> None \<longrightarrow> i' = i))"

definition keeps_refresh :: "label \<Rightarrow> accounts \<Rightarrow> accounts \<Rightarrow> bool" where
  "keeps_refresh k ac ac' \<longleftrightarrow> (\<forall>r\<in>set (ac_refresh ac). \<exists>r'\<in>set (ac_refresh ac').
     rf_hash r' = rf_hash r \<and> rf_user r' = rf_user r \<and> rf_created r' = rf_created r \<and>
     (rf_reason r = Some ''transfer'' \<longrightarrow> rf_reason r' = Some ''transfer'') \<and>
     (rf_revoked r' = rf_revoked r \<and> rf_reason r' = rf_reason r \<or> moved_in k ac' (rf_user r)))"

definition keeps_transfers :: "label \<Rightarrow> accounts \<Rightarrow> accounts \<Rightarrow> bool" where
  "keeps_transfers k ac ac' \<longleftrightarrow>
     (\<forall>t'\<in>set (ac_transfers ac'). lb_code k = Some (tf_hash t') \<or>
        (\<exists>t\<in>set (ac_transfers ac). tf_hash t' = tf_hash t \<and> tf_user t' = tf_user t \<and> (tf_redeemed t \<noteq> None \<longrightarrow> t' = t))) \<and>
     (\<forall>t\<in>set (ac_transfers ac). tf_redeemed t \<noteq> None \<longrightarrow> t \<in> set (ac_transfers ac') \<or>
        tf_expires t < i64 (unix (lb_now k) - 86400) \<or> moved_in k ac' (tf_user t))"

definition keeps :: "label \<Rightarrow> accounts \<Rightarrow> accounts \<Rightarrow> bool" where
  "keeps k ac ac' \<longleftrightarrow> keeps_users k ac ac' \<and> keeps_invites ac ac' \<and> keeps_refresh k ac ac' \<and> keeps_transfers k ac ac'"

lemmas keeps_defs = keeps_users_def keeps_invites_def keeps_refresh_def keeps_transfers_def

lemma keeps_same:
  "ac_users ac' = ac_users ac \<Longrightarrow> keeps_users k ac ac'"
  "ac_invites ac' = ac_invites ac \<Longrightarrow> keeps_invites ac ac'"
  "ac_refresh ac' = ac_refresh ac \<Longrightarrow> keeps_refresh k ac ac'"
  "ac_transfers ac' = ac_transfers ac \<Longrightarrow> keeps_transfers k ac ac'"
  by (auto simp: keeps_defs)

subsection \<open>Statements\<close>

lemma set_users_sel [simp]:
  "ac_users (set_users us ac) = us" "ac_invites (set_users us ac) = ac_invites ac"
  "ac_refresh (set_users us ac) = ac_refresh ac" "ac_transfers (set_users us ac) = ac_transfers ac"
  "ac_attempts (set_users us ac) = ac_attempts ac"
  by (simp_all add: set_users_def)

lemma exec_Inr [simp]: "exec flt s x = Inr y \<longleftrightarrow> \<not> flt s \<and> y = x"
  by (auto simp: exec_def)

lemma finish_Inr [simp]: "finish flt x ac = Inr (y, ac') \<longleftrightarrow> \<not> flt A_Commit \<and> y = x \<and> ac' = ac"
  by (auto simp: finish_def)

definition consumed_by :: "bytes \<Rightarrow> bytes \<Rightarrow> int \<Rightarrow> invite_row \<Rightarrow> invite_row" where
  "consumed_by h user at i = (if open_invite h i then i\<lparr>iv_by := Some user, iv_at := Some at\<rparr> else i)"

lemma insert_user_Inr:
  "insert_user flt u ac = Inr ac' \<Longrightarrow> us_id u \<notin> us_id ` set (ac_users ac) \<and>
     us_normalized u \<notin> us_normalized ` set (ac_users ac) \<and> ac' = set_users (ac_users ac @ [u]) ac"
  by (auto simp: insert_user_def list_ex_iff split: if_splits)

lemma consume_invite_Inr:
  "consume_invite flt h user at ac = Inr ac' \<Longrightarrow>
     (\<exists>i\<in>set (ac_invites ac). open_invite h i) \<and> ac' = ac\<lparr>ac_invites := map (consumed_by h user at) (ac_invites ac)\<rparr>"
  by (auto simp: consume_invite_def consumed_by_def [abs_def] length_Suc_conv filter_eq_Cons_iff split: if_splits)

definition fresh_refresh :: "bytes \<Rightarrow> bytes \<Rightarrow> int \<Rightarrow> int \<Rightarrow> refresh_row" where
  "fresh_refresh h user expires created =
     \<lparr>rf_hash = h, rf_user = user, rf_expires = expires, rf_created = created, rf_revoked = None, rf_reason = None\<rparr>"

lemma fresh_refresh_sel [simp]: "rf_hash (fresh_refresh h u e c) = h" "rf_user (fresh_refresh h u e c) = u"
  "rf_revoked (fresh_refresh h u e c) = None" "rf_reason (fresh_refresh h u e c) = None"
  "rf_created (fresh_refresh h u e c) = c" "rf_expires (fresh_refresh h u e c) = e"
  by (simp_all add: fresh_refresh_def)

lemma find_None_image: "find (\<lambda>x. f x = a) xs = None \<longleftrightarrow> a \<notin> f ` set xs"
  by (auto simp: find_None_iff)

lemma insert_refresh_Inr:
  "insert_refresh flt h user expires created ac = Inr ac' \<Longrightarrow>
     h \<notin> rf_hash ` set (ac_refresh ac) \<and> user \<in> us_id ` set (ac_users ac) \<and>
     ac' = ac\<lparr>ac_refresh := ac_refresh ac @ [fresh_refresh h user expires created]\<rparr>"
  unfolding insert_refresh_def refresh_of_def account_of_def
  by (auto simp: find_None_image fresh_refresh_def find_None_iff split: if_splits)

lemma consumed_by_sel [simp]: "iv_hash (consumed_by h u at i) = iv_hash i"
  "iv_at i \<noteq> None \<Longrightarrow> consumed_by h u at i = i"
  by (auto simp: consumed_by_def open_invite_def)

subsection \<open>Registration and sessions\<close>

definition registered :: "bytes \<Rightarrow> user \<Rightarrow> int \<Rightarrow> accounts \<Rightarrow> accounts" where
  "registered h u at ac =
     (set_users (ac_users ac @ [u]) ac)\<lparr>ac_invites := map (consumed_by h (us_id u) at) (ac_invites ac)\<rparr>"

lemma registered_sel [simp]:
  "ac_users (registered h u at ac) = ac_users ac @ [u]"
  "ac_invites (registered h u at ac) = map (consumed_by h (us_id u) at) (ac_invites ac)"
  "ac_refresh (registered h u at ac) = ac_refresh ac" "ac_transfers (registered h u at ac) = ac_transfers ac"
  "ac_attempts (registered h u at ac) = ac_attempts ac"
  by (simp_all add: registered_def)

definition admitted :: "bytes \<Rightarrow> user \<Rightarrow> accounts \<Rightarrow> bool" where
  "admitted h u ac \<longleftrightarrow> us_id u \<notin> us_id ` set (ac_users ac) \<and> us_normalized u \<notin> us_normalized ` set (ac_users ac) \<and>
     (\<exists>i\<in>set (ac_invites ac). open_invite h i)"

lemma new_user_sel [simp]: "us_id (new_user i d n) = i" "us_nickname (new_user i d n) = d"
  "us_normalized (new_user i d n) = n" "us_enabled (new_user i d n) = 1" "us_epoch (new_user i d n) = ''''"
  by (simp_all add: new_user_def)

lemma Register_effect:
  assumes "Register au flt now fresh code nickname ac = Inr (who, ac')"
  shows "\<exists>display normal h. check_registration au code nickname = Inr (display, normal, h) \<and>
    fresh = Some (ur_id who) \<and> ur_nickname who = display \<and>
    admitted h (new_user (ur_id who) display normal) ac \<and>
    ac' = registered h (new_user (ur_id who) display normal) (unix now) ac"
  using assms unfolding Register_def admitted_def registered_def
  by (auto dest!: insert_user_Inr consume_invite_Inr split: if_splits)

lemma issued_at: "sessionForRefreshToken au user n t es = Some s \<Longrightarrow>
   sessionAccessIssuedAt s = n \<and> se_refresh s = t \<and> se_user s = user \<and> se_refresh_expires s = PersistentRefreshExpiresAt"
  by (auto simp: sessionForRefreshToken_def sessionAccessIssuedAt_def split: option.splits)

lemma newSessionAt_Some: "newSessionAt au user n es e = Some (s, rest) \<Longrightarrow>
   \<exists>t. randomToken (int refreshTokenEntropyBytes) e = Some (t, rest) \<and> sessionForRefreshToken au user n t es = Some s"
  by (auto simp: newSessionAt_def split: option.splits)

lemma RegisterAndIssue_effect:
  assumes "RegisterAndIssue au flt now entropy fresh code nickname ac = Inr (s, ac')"
  shows "\<exists>display normal h i rh. check_registration au code nickname = Inr (display, normal, h) \<and>
    fresh = Some i \<and> se_user s = \<lparr>ur_id = i, ur_nickname = display\<rparr> \<and>
    HashRefreshToken (au_pepper au) (se_refresh s) = Some rh \<and> rh \<notin> rf_hash ` set (ac_refresh ac) \<and>
    admitted h (new_user i display normal) ac \<and>
    ac' = (registered h (new_user i display normal) (unix now) ac)\<lparr>ac_refresh := ac_refresh ac @
      [fresh_refresh rh i PersistentRefreshExpiresAt (unix now)]\<rparr>"
  using assms unfolding RegisterAndIssue_def
  by (auto dest!: insert_user_Inr consume_invite_Inr insert_refresh_Inr newSessionAt_Some issued_at
      simp: admitted_def registered_def split: if_splits)

lemma Authenticate_effect:
  assumes "Authenticate au flt now access ac = Inr (who, ac')"
  shows "\<exists>i. ParseAccess au now access = Some i \<and> ur_id who = id_user i \<and> list_ex (current_account i) (ac_users ac) \<and>
    ac' = set_users (map (\<lambda>u. if current_account i u then u\<lparr>us_last_seen := Some now\<rparr> else u) (ac_users ac)) ac"
proof -
  from assms obtain i where i: "ParseAccess au now access = Some i" by (auto simp: Authenticate_def split: option.splits)
  from assms have l: "length (filter (current_account i) (ac_users ac)) = 1"
    by (auto simp: Authenticate_def i Let_def split: option.splits if_splits)
  then have "list_ex (current_account i) (ac_users ac)"
    by (auto simp: list_ex_iff length_Suc_conv filter_eq_Cons_iff)
  with assms i l show ?thesis
    by (auto simp: Authenticate_def Let_def find_Some_iff split: option.splits if_splits)
qed

lemma Issue_effect:
  assumes "Issue au flt now entropy user ac = Inr (s, ac')"
  shows "\<exists>u rh. u \<in> set (ac_users ac) \<and> us_id u = user \<and> us_enabled u = 1 \<and>
    HashRefreshToken (au_pepper au) (se_refresh s) = Some rh \<and> rh \<notin> rf_hash ` set (ac_refresh ac) \<and>
    ac' = ac\<lparr>ac_refresh := ac_refresh ac @ [fresh_refresh rh user PersistentRefreshExpiresAt (unix now)]\<rparr>"
proof -
  obtain u where u: "find (\<lambda>u. us_id u = user \<and> us_enabled u = 1) (ac_users ac) = Some u"
    using assms by (auto simp: Issue_def split: if_splits option.splits)
  then have "u \<in> set (ac_users ac) \<and> us_id u = user \<and> us_enabled u = 1" by (auto simp: find_Some_iff)
  with assms u show ?thesis
    by (auto simp: Issue_def split: if_splits dest!: insert_refresh_Inr newSessionAt_Some issued_at)
qed

definition prolonged :: "accounts \<Rightarrow> bytes \<Rightarrow> refresh_row \<Rightarrow> user \<Rightarrow> int \<Rightarrow> accounts" where
  "prolonged ac h r u n =
     ac\<lparr>ac_refresh := map (\<lambda>q. if refresh_guard ac h (rf_user r) (us_epoch u) n q
        then q\<lparr>rf_expires := PersistentRefreshExpiresAt\<rparr> else q) (ac_refresh ac)\<rparr>"

lemma Refresh_effect:
  assumes "Refresh au flt now raw ac = Inr (s, ac')"
  shows "\<exists>h r u. validRefreshTokenText raw \<and> HashRefreshToken (au_pepper au) raw = Some h \<and> joined ac h = Some (r, u) \<and>
    rf_reason r \<noteq> Some ''transfer'' \<and> reusable (unix now) r u \<and>
    sessionForRefreshToken au \<lparr>ur_id = rf_user r, ur_nickname = us_nickname u\<rparr> (unix now) raw [us_epoch u] = Some s \<and>
    ac' = prolonged ac h r u (unix now)"
proof -
  obtain h where h: "HashRefreshToken (au_pepper au) raw = Some h" "validRefreshTokenText raw"
    using assms by (auto simp: Refresh_def split: if_splits)
  obtain r u where ru: "joined ac h = Some (r, u)"
    using assms h by (auto simp: Refresh_def split: option.splits)
  have "rf_reason r \<noteq> Some ''transfer''" "reusable (unix now) r u"
    using assms h ru by (auto simp: Refresh_def split: if_splits)
  moreover have "sessionForRefreshToken au \<lparr>ur_id = rf_user r, ur_nickname = us_nickname u\<rparr> (unix now) raw [us_epoch u] = Some s \<and>
      ac' = prolonged ac h r u (unix now)"
    using assms h ru by (auto simp: Refresh_def prolonged_def Let_def split: if_splits)
  ultimately show ?thesis using h ru by blast
qed

subsection \<open>Transfers\<close>

definition fresh_transfer :: "bytes \<Rightarrow> bytes \<Rightarrow> bytes \<Rightarrow> int \<Rightarrow> transfer_row" where
  "fresh_transfer h user snap expires =
     \<lparr>tf_hash = h, tf_user = user, tf_snapshot = snap, tf_expires = expires, tf_receiver = None, tf_response = None,
      tf_redeemed = None\<rparr>"

lemma fresh_transfer_sel [simp]: "tf_hash (fresh_transfer h u s e) = h" "tf_user (fresh_transfer h u s e) = u"
  "tf_redeemed (fresh_transfer h u s e) = None" "tf_snapshot (fresh_transfer h u s e) = s"
  "tf_expires (fresh_transfer h u s e) = e"
  by (simp_all add: fresh_transfer_def)

lemma insert_transfer_Inr:
  "insert_transfer flt h user snap expires ac = Inr ac' \<Longrightarrow>
     h \<notin> tf_hash ` set (ac_transfers ac) \<and> user \<in> us_id ` set (ac_users ac) \<and>
     ac' = ac\<lparr>ac_transfers := ac_transfers ac @ [fresh_transfer h user snap expires]\<rparr>"
  unfolding insert_transfer_def transfer_of_def account_of_def
  by (auto simp: find_None_image fresh_transfer_def find_None_iff split: if_splits)

definition purged :: "bytes \<Rightarrow> int \<Rightarrow> accounts \<Rightarrow> transfer_row list" where
  "purged user now ac =
     filter (\<lambda>t. \<not> (tf_user t = user \<and> tf_redeemed t = None \<or> tf_expires t < i64 (unix now - 86400))) (ac_transfers ac)"

lemma createTransfer_effect:
  assumes "createTransfer au flt now entropy user epoch snap recovery ac = Inr (c, ac')"
  shows "\<exists>snap'. transfer_hash au (tc_code c) \<notin> tf_hash ` set (purged user now ac) \<and>
    tc_code c = base32_encode (take 5 entropy) \<and> 5 \<le> length entropy \<and>
    (\<exists>u\<in>set (ac_users ac). us_id u = user \<and> us_enabled u = 1 \<and> (recovery \<or> us_epoch u = epoch)) \<and>
    ac' = ac\<lparr>ac_transfers := purged user now ac @
      [fresh_transfer (transfer_hash au (tc_code c)) user snap' (i64 (unix now + 600))]\<rparr>"
proof -
  obtain u where u: "find (\<lambda>u. us_id u = user \<and> us_enabled u = 1) (ac_users ac) = Some u" "recovery \<or> us_epoch u = epoch"
    using assms by (auto simp: createTransfer_def split: if_splits option.splits)
  then have "\<exists>u\<in>set (ac_users ac). us_id u = user \<and> us_enabled u = 1 \<and> (recovery \<or> us_epoch u = epoch)"
    by (auto simp: find_Some_iff)
  with assms u show ?thesis
    by (auto simp: createTransfer_def Let_def purged_def not_less split: if_splits option.splits dest!: insert_transfer_Inr)
qed

lemma CancelTransfer_effect:
  assumes "CancelTransfer au flt now access ac = Inr (x, ac')"
  shows "\<exists>P. (\<forall>t. P t \<longrightarrow> tf_redeemed t = None) \<and> ac' = ac\<lparr>ac_transfers := filter (\<lambda>t. \<not> P t) (ac_transfers ac)\<rparr>"
proof -
  obtain who where w: "ParseAccess au now access = Some who"
    using assms by (auto simp: CancelTransfer_def split: option.splits)
  let ?P = "\<lambda>t. tf_user t = id_user who \<and> tf_redeemed t = None \<and>
    list_ex (\<lambda>u. us_id u = id_user who \<and> us_epoch u = id_epoch who) (ac_users ac)"
  have "ac' = ac\<lparr>ac_transfers := filter (\<lambda>t. \<not> ?P t) (ac_transfers ac)\<rparr>"
    using assms w by (simp add: CancelTransfer_def split: if_splits)
  then show ?thesis by (intro exI [of _ ?P]) simp
qed

text \<open>Everything that a first redemption changes.\<close>

definition with_epoch :: "bytes \<Rightarrow> bytes \<Rightarrow> user \<Rightarrow> user" where
  "with_epoch user epoch u = (if us_id u = user then u\<lparr>us_epoch := epoch\<rparr> else u)"

lemma with_epoch_sel [simp]: "us_id (with_epoch user e u) = us_id u" "us_enabled (with_epoch user e u) = us_enabled u"
  "us_nickname (with_epoch user e u) = us_nickname u" "us_normalized (with_epoch user e u) = us_normalized u"
  "us_epoch (with_epoch user e u) = (if us_id u = user then e else us_epoch u)"
  by (simp_all add: with_epoch_def)

lemma revoke_refresh_sel [simp]: "rf_hash (revoke_refresh n user r) = rf_hash r" "rf_user (revoke_refresh n user r) = rf_user r"
  "rf_created (revoke_refresh n user r) = rf_created r"
  "rf_reason (revoke_refresh n user r) = (if rf_user r = user then Some ''transfer'' else rf_reason r)"
  "rf_revoked (revoke_refresh n user r) = None \<longleftrightarrow> rf_user r \<noteq> user \<and> rf_revoked r = None"
  "rf_user r \<noteq> user \<Longrightarrow> revoke_refresh n user r = r"
  by (simp_all add: revoke_refresh_def)

definition moved_transfers :: "int \<Rightarrow> bytes \<Rightarrow> bytes \<Rightarrow> bytes \<Rightarrow> bytes \<Rightarrow> transfer_row list \<Rightarrow> transfer_row list" where
  "moved_transfers n user h rh receipt ts =
     filter (\<lambda>t. \<not> (tf_user t = user \<and> tf_hash t \<noteq> h))
       (map (\<lambda>t. if tf_hash t = h then t\<lparr>tf_receiver := Some rh, tf_redeemed := Some n, tf_response := Some receipt\<rparr> else t) ts)"

definition moved_account ::
  "int \<Rightarrow> bytes \<Rightarrow> bytes \<Rightarrow> bytes \<Rightarrow> bytes \<Rightarrow> bytes \<Rightarrow> bytes \<Rightarrow> int \<Rightarrow> accounts \<Rightarrow> accounts" where
  "moved_account n user epoch h rh receipt fh expires ac =
     (set_users (map (with_epoch user epoch) (ac_users ac)) ac)
       \<lparr>ac_db := revokeUserCredentials n user ((ac_db ac)\<lparr>d_users :=
           map (with_epoch user epoch) (ac_users ac)\<rparr>),
        ac_refresh := map (revoke_refresh n user) (ac_refresh ac) @ [fresh_refresh fh user expires n],
        ac_transfers := moved_transfers n user h rh receipt (ac_transfers ac)\<rparr>"

lemma revoke_users [simp]: "d_users (revokeUserCredentials n user d) = d_users d"
  by (simp add: revokeUserCredentials_def)

lemma moved_account_sel [simp]:
  "ac_users (moved_account n user epoch h rh receipt fh e ac) =
     map (with_epoch user epoch) (ac_users ac)"
  "ac_invites (moved_account n user epoch h rh receipt fh e ac) = ac_invites ac"
  "ac_refresh (moved_account n user epoch h rh receipt fh e ac) =
     map (revoke_refresh n user) (ac_refresh ac) @ [fresh_refresh fh user e n]"
  "ac_transfers (moved_account n user epoch h rh receipt fh e ac) = moved_transfers n user h rh receipt (ac_transfers ac)"
  "ac_attempts (moved_account n user epoch h rh receipt fh e ac) = ac_attempts ac"
  "d_tickets (ac_db (moved_account n user epoch h rh receipt fh e ac)) = filter (\<lambda>t. t_user t \<noteq> user) (d_tickets (ac_db ac))"
  by (simp_all add: moved_account_def revokeUserCredentials_def)

lemma move_account_Inr:
  assumes "move_account au flt n user epoch h rh receipt s ac = Inr ac'"
  shows "\<exists>fh. fh = valueOrEmpty (HashRefreshToken (au_pepper au) (se_refresh s)) \<and>
    fh \<notin> rf_hash ` set (ac_refresh ac) \<and> user \<in> us_id ` set (ac_users ac) \<and>
    ac' = moved_account n user epoch h rh receipt fh (se_refresh_expires s) ac"
proof -
  have w: "(\<lambda>u. if us_id u = user then u\<lparr>us_epoch := epoch\<rparr> else u) = with_epoch user epoch"
    by (rule ext) (simp add: with_epoch_def)
  let ?a = "(set_users (map (with_epoch user epoch) (ac_users ac)) ac)
    \<lparr>ac_refresh := map (revoke_refresh n user) (ac_refresh ac),
     ac_db := revokeUserCredentials n user ((ac_db ac)\<lparr>d_users := map (with_epoch user epoch) (ac_users ac)\<rparr>)\<rparr>"
  obtain a1 where a1: "insert_refresh flt (valueOrEmpty (HashRefreshToken (au_pepper au) (se_refresh s))) user
      (se_refresh_expires s) n ?a = Inr a1"
    and rest: "ac' = a1\<lparr>ac_transfers := moved_transfers n user h rh receipt (ac_transfers a1)\<rparr>"
    using assms unfolding move_account_def w by (auto simp: set_users_def moved_transfers_def split: if_splits)
  from insert_refresh_Inr [OF a1] show ?thesis
    by (simp add: rest moved_account_def set_users_def image_image)
qed

lemma redeem_first_effect:
  assumes "redeem_first au flt now entropy h rh t u ac = Inr (r, ac')"
  shows "\<exists>epoch rest receipt fh. randomToken (int refreshTokenEntropyBytes) entropy = Some (epoch, rest) \<and>
    unix now < tf_expires t \<and> tr_snapshot r = tf_snapshot t \<and>
    (\<exists>e2. newSessionAt au \<lparr>ur_id = tf_user t, ur_nickname = us_nickname u\<rparr> (unix now) [epoch] rest = Some (tr_session r, e2) \<and>
      sealTransferReceipt au \<lparr>rc_session = tr_session r, rc_snapshot = tf_snapshot t, rc_epoch = epoch\<rparr> h e2 = Some receipt) \<and>
    fh = valueOrEmpty (HashRefreshToken (au_pepper au) (se_refresh (tr_session r))) \<and>
    fh \<notin> rf_hash ` set (ac_refresh ac) \<and> tf_user t \<in> us_id ` set (ac_users ac) \<and>
    ac' = moved_account (unix now) (tf_user t) epoch h rh receipt fh PersistentRefreshExpiresAt ac"
proof -
  obtain epoch rest where e: "randomToken (int refreshTokenEntropyBytes) entropy = Some (epoch, rest)" "unix now < tf_expires t"
    using assms by (auto simp: redeem_first_def not_le split: if_splits)
  obtain s e2 where s: "newSessionAt au \<lparr>ur_id = tf_user t, ur_nickname = us_nickname u\<rparr> (unix now) [epoch] rest = Some (s, e2)"
    using assms e by (auto simp: redeem_first_def split: if_splits)
  obtain receipt where p: "sealTransferReceipt au \<lparr>rc_session = s, rc_snapshot = tf_snapshot t, rc_epoch = epoch\<rparr> h e2 = Some receipt"
    using assms e s by (auto simp: redeem_first_def split: if_splits)
  have m: "move_account au flt (unix now) (tf_user t) epoch h rh receipt s ac = Inr ac'" "tr_session r = s" "tr_snapshot r = tf_snapshot t"
    using assms e s p by (auto simp: redeem_first_def split: if_splits)
  have "se_refresh_expires s = PersistentRefreshExpiresAt" using newSessionAt_Some [OF s] issued_at by blast
  with move_account_Inr [OF m(1)] e s p m(2,3) show ?thesis by auto
qed

lemma redeem_cases:
  assumes "redeem au flt now entropy code receiver expected ac = Inr (r, ac')"
  obtains t u where "transfer_of ac (transfer_hash au code) = Some t" "u \<in> set (ac_users ac)" "us_id u = tf_user t"
    "us_enabled u = 1" "expected = '''' \<or> expected = tf_user t" "length code = 8" "validRefreshTokenText receiver"
    "(\<exists>d. tf_redeemed t = Some d \<and> ac' = ac \<and>
        redeem_again au flt now entropy (transfer_hash au code) (receiver_hash au receiver) t d u ac = Inr r) \<or>
     tf_redeemed t = None \<and>
        redeem_first au flt now entropy (transfer_hash au code) (receiver_hash au receiver) t u ac = Inr (r, ac')"
proof -
  obtain t where t: "transfer_of ac (transfer_hash au code) = Some t"
    using assms by (auto simp: redeem_def Let_def split: if_splits option.splits)
  obtain u where u: "find (\<lambda>u. us_id u = tf_user t \<and> us_enabled u = 1) (ac_users ac) = Some u"
    using assms t by (auto simp: redeem_def Let_def split: if_splits option.splits)
  then have "u \<in> set (ac_users ac)" "us_id u = tf_user t" "us_enabled u = 1" by (auto simp: find_Some_iff)
  moreover have "expected = '''' \<or> expected = tf_user t" "length code = 8" "validRefreshTokenText receiver"
    "(\<exists>d. tf_redeemed t = Some d \<and> ac' = ac \<and>
        redeem_again au flt now entropy (transfer_hash au code) (receiver_hash au receiver) t d u ac = Inr r) \<or>
     tf_redeemed t = None \<and>
        redeem_first au flt now entropy (transfer_hash au code) (receiver_hash au receiver) t u ac = Inr (r, ac')"
    using assms t u by (auto simp: redeem_def Let_def split: if_splits option.splits)
  ultimately show thesis using that t by blast
qed

lemma upsert_attempt_shape:
  assumes "distinct (map at_bucket (ac_attempts ac))"
  shows "\<exists>as. upsert_attempt b w ac = ac\<lparr>ac_attempts := as\<rparr> \<and> distinct (map at_bucket as)"
proof (cases "find (\<lambda>a. at_bucket a = b) (ac_attempts ac)")
  case None
  then have "b \<notin> at_bucket ` set (ac_attempts ac)" by (simp add: find_None_image)
  then show ?thesis using assms
    by (intro exI [of _ "ac_attempts ac @ [\<lparr>at_bucket = b, at_window = w, at_attempts = 1\<rparr>]"]) (simp add: upsert_attempt_def None)
next
  case (Some a)
  let ?as = "map (\<lambda>a. if at_bucket a = b then a\<lparr>at_attempts := at_attempts a + 1\<rparr> else a) (ac_attempts ac)"
  have "map at_bucket ?as = map at_bucket (ac_attempts ac)" by simp
  then have "distinct (map at_bucket ?as)" using assms by (metis (no_types))
  then show ?thesis by (intro exI [of _ ?as]) (simp add: upsert_attempt_def Some)
qed

lemma count_attempts_shape:
  "count_attempts flt w bs ac = Inr (l, ac') \<Longrightarrow> distinct (map at_bucket (ac_attempts ac)) \<Longrightarrow>
   \<exists>as. ac' = ac\<lparr>ac_attempts := as\<rparr> \<and> distinct (map at_bucket as)"
proof (induction bs arbitrary: ac)
  case Nil
  then show ?case by (intro exI [of _ "ac_attempts ac"]) simp
next
  case (Cons b bs)
  obtain as where as: "upsert_attempt b w ac = ac\<lparr>ac_attempts := as\<rparr>" "distinct (map at_bucket as)"
    using upsert_attempt_shape [OF Cons.prems(2)] by blast
  show ?case
  proof (cases "attempts_of (ac\<lparr>ac_attempts := as\<rparr>) b > attempt_limit b")
    case True
    with Cons.prems(1) as(1) have "ac' = ac\<lparr>ac_attempts := as\<rparr>" by (simp add: Let_def split: if_splits)
    with as(2) show ?thesis by blast
  next
    case False
    with Cons.prems(1) as(1) have "count_attempts flt w bs (ac\<lparr>ac_attempts := as\<rparr>) = Inr (l, ac')"
      by (auto simp: Let_def split: if_splits)
    from Cons.IH [OF this] as(2) show ?thesis by auto
  qed
qed

definition buckets :: "auth_config \<Rightarrow> bytes \<Rightarrow> bytes list" where
  "buckets au peer = [valueOrEmpty (HashToken (au_pepper au) (''transfer-peer:'' @ peer)), ''global'']"

lemma transferAttempt_buckets:
  "transferAttempt au flt now peer ac =
     (if flt A_Begin \<or> flt A_DeleteAttempts then (Inl ErrInternal, ac)
      else case count_attempts flt (minute_window now) (buckets au peer)
          (ac\<lparr>ac_attempts := filter (\<lambda>a. at_window a = minute_window now) (ac_attempts ac)\<rparr>) of
        Inl e \<Rightarrow> (Inl e, ac)
      | Inr (limited, ac') \<Rightarrow>
          if flt A_Commit then (Inl ErrInternal, ac)
          else (if limited then Inl ErrTransferLimited else Inr (), ac'))"
  by (simp only: transferAttempt_def buckets_def Let_def)

lemma transferAttempt_shape:
  assumes "transferAttempt au flt now peer ac = (res, ac')" "distinct (map at_bucket (ac_attempts ac))"
  shows "\<exists>as. ac' = ac\<lparr>ac_attempts := as\<rparr> \<and> distinct (map at_bucket as)"
proof -
  let ?ac = "ac\<lparr>ac_attempts := filter (\<lambda>a. at_window a = minute_window now) (ac_attempts ac)\<rparr>"
  have d: "distinct (map at_bucket (ac_attempts ?ac))" using assms(2) by (simp add: distinct_map_filter)
  have same: "\<exists>as. ac = ac\<lparr>ac_attempts := as\<rparr> \<and> distinct (map at_bucket as)"
    using assms(2) by (intro exI [of _ "ac_attempts ac"]) simp
  show ?thesis
  proof (cases "count_attempts flt (minute_window now) (buckets au peer) ?ac")
    case (Inl e)
    then have "ac' = ac" using assms(1) by (simp add: transferAttempt_buckets split: if_splits)
    with same show ?thesis by simp
  next
    case (Inr r)
    obtain l a where r: "r = (l, a)" by (cases r)
    have "ac' = ac \<or> ac' = a"
      using assms(1) Inr by (simp add: transferAttempt_buckets r split: if_splits)
    with same count_attempts_shape [OF Inr [unfolded r] d] show ?thesis by auto
  qed
qed

subsection \<open>Steps\<close>

abbreviation at_time :: "int \<Rightarrow> label" where
  "at_time now \<equiv> \<lparr>lb_now = now, lb_epoch = None, lb_code = None\<rparr>"

definition drawn :: "nat list \<Rightarrow> bytes option" where
  "drawn entropy = map_option fst (randomToken (int refreshTokenEntropyBytes) entropy)"

definition issued_code :: "auth_config \<Rightarrow> nat list \<Rightarrow> bytes" where
  "issued_code au entropy = transfer_hash au (base32_encode (take 5 entropy))"

inductive account_step :: "auth_config \<Rightarrow> (nat \<Rightarrow> nat) \<Rightarrow> label \<Rightarrow> accounts \<Rightarrow> accounts \<Rightarrow> bool" for au up where
  others: "d_users d = ac_users ac \<Longrightarrow> account_step au up (at_time now) ac (ac\<lparr>ac_db := d, ac_collections := cs\<rparr>)"
| invites: "create_invites flt now (au_pepper au) number entropy ac = Some (codes, ac') \<Longrightarrow> account_step au up (at_time now) ac ac'"
| register: "Register au flt now fresh code nickname ac = Inr (who, ac') \<Longrightarrow> account_step au up (at_time now) ac ac'"
| register_issue: "RegisterAndIssue au flt now entropy fresh code nickname ac = Inr (s, ac') \<Longrightarrow>
    account_step au up (at_time now) ac ac'"
| authenticate: "Authenticate au flt now access ac = Inr (who, ac') \<Longrightarrow> account_step au up (at_time now) ac ac'"
| issue: "Issue au flt now entropy user ac = Inr (s, ac') \<Longrightarrow> account_step au up (at_time now) ac ac'"
| refresh: "Refresh au flt now raw ac = Inr (s, ac') \<Longrightarrow> account_step au up (at_time now) ac ac'"
| create: "CreateTransfer au flt now entropy access snap ac = Inr (c, ac') \<Longrightarrow>
    account_step au up \<lparr>lb_now = now, lb_epoch = None, lb_code = Some (issued_code au entropy)\<rparr> ac ac'"
| recovery: "CreateRecovery au flt now entropy user ac = Inr (c, ac') \<Longrightarrow>
    account_step au up \<lparr>lb_now = now, lb_epoch = None, lb_code = Some (issued_code au entropy)\<rparr> ac ac'"
| cancel: "CancelTransfer au flt now access ac = Inr (x, ac') \<Longrightarrow> account_step au up (at_time now) ac ac'"
| redeem: "RedeemTransferForUser au up flt1 flt2 now entropy code receiver peer expected ac = (res, ac') \<Longrightarrow>
    account_step au up \<lparr>lb_now = now, lb_epoch = drawn entropy, lb_code = None\<rparr> ac ac'"

inductive account_run :: "auth_config \<Rightarrow> (nat \<Rightarrow> nat) \<Rightarrow> label list \<Rightarrow> accounts \<Rightarrow> accounts \<Rightarrow> bool" for au up where
  stop: "account_run au up [] ac ac"
| further: "account_run au up ks ac ac1 \<Longrightarrow> account_step au up k ac1 ac2 \<Longrightarrow> account_run au up (ks @ [k]) ac ac2"

definition no_accounts :: "db \<Rightarrow> accounts" where
  "no_accounts d = \<lparr>ac_db = d\<lparr>d_users := []\<rparr>, ac_invites = [], ac_refresh = [], ac_transfers = [], ac_attempts = [],
     ac_collections = []\<rparr>"

definition account_reachable :: "auth_config \<Rightarrow> (nat \<Rightarrow> nat) \<Rightarrow> accounts \<Rightarrow> bool" where
  "account_reachable au up ac \<longleftrightarrow> (\<exists>d ks. account_run au up ks (no_accounts d) ac)"

subsection \<open>Steps keep the tables well formed\<close>

lemma insert_invites_shape:
  "insert_invites flt now pepper n seen cs e ac codes = Some (codes', ac') \<Longrightarrow>
   \<exists>new. ac' = ac\<lparr>ac_invites := ac_invites ac @ map (new_invite now) new\<rparr> \<and>
     (distinct (map iv_hash (ac_invites ac)) \<longrightarrow> distinct (map iv_hash (ac_invites ac) @ new))"
proof (induction flt now pepper n seen cs e ac codes rule: insert_invites.induct)
  case (1 flt now pepper n seen e ac codes)
  then show ?case by (intro exI [of _ "[]"]) simp
next
  case (2 flt now pepper n seen c cs e ac codes)
  show ?case
  proof (cases "list_ex (\<lambda>i. iv_hash i = snd c) (ac_invites ac)")
    case True
    with 2 show ?thesis by (auto split: if_splits option.splits)
  next
    case False
    let ?ac = "ac\<lparr>ac_invites := ac_invites ac @ [new_invite now (snd c)]\<rparr>"
    from 2(2)[OF _ False] 2(3) False obtain new where new: "ac' = ?ac\<lparr>ac_invites := ac_invites ?ac @ map (new_invite now) new\<rparr>"
      "distinct (map iv_hash (ac_invites ?ac)) \<longrightarrow> distinct (map iv_hash (ac_invites ?ac) @ new)"
      by (auto split: if_splits)
    have "iv_hash (new_invite now (snd c)) = snd c" by (simp add: new_invite_def)
    with new False show ?thesis
      by (intro exI [of _ "snd c # new"]) (auto simp: list_ex_iff)
  qed
qed

lemma create_invites_shape:
  assumes "create_invites flt now pepper number e ac = Some (codes, ac')"
  shows "\<exists>new. ac' = ac\<lparr>ac_invites := ac_invites ac @ map (new_invite now) new\<rparr> \<and>
     (distinct (map iv_hash (ac_invites ac)) \<longrightarrow> distinct (map iv_hash (ac_invites ac) @ new))"
proof -
  from assms obtain n cs rest where "insert_invites flt now pepper n cs cs rest ac [] = Some (codes, ac')"
    by (auto simp: create_invites_def split: if_splits option.splits)
  then show ?thesis by (rule insert_invites_shape)
qed

lemma new_invite_sel [simp]: "iv_hash (new_invite now h) = h" "iv_at (new_invite now h) = None" "iv_by (new_invite now h) = None"
  by (simp_all add: new_invite_def)

lemma new_invite_comp [simp]: "iv_hash \<circ> new_invite now = (\<lambda>h. h)"
  by (simp add: comp_def)

lemma invites_ok: "accounts_ok ac \<Longrightarrow> distinct (map iv_hash (ac_invites ac) @ new) \<Longrightarrow>
   accounts_ok (ac\<lparr>ac_invites := ac_invites ac @ map (new_invite now) new\<rparr>)"
  by (auto simp: accounts_ok_def)

lemma consumed_by_map: "map iv_hash (map (consumed_by h u at) is) = map iv_hash is"
  by simp

lemma registered_ok: "accounts_ok ac \<Longrightarrow> admitted h u ac \<Longrightarrow> accounts_ok (registered h u at ac)"
proof -
  assume ok: "accounts_ok ac" and ad: "admitted h u ac"
  have "distinct (map iv_hash (map (consumed_by h (us_id u) at) (ac_invites ac)))"
    using ok unfolding consumed_by_map by (simp add: accounts_ok_def)
  with ok ad show ?thesis by (auto simp: accounts_ok_def admitted_def consumed_by_def)
qed

lemma append_refresh_ok:
  "accounts_ok ac \<Longrightarrow> h \<notin> rf_hash ` set (ac_refresh ac) \<Longrightarrow> user \<in> us_id ` set (ac_users ac) \<Longrightarrow>
   accounts_ok (ac\<lparr>ac_refresh := ac_refresh ac @ [fresh_refresh h user e c]\<rparr>)"
  by (auto simp: accounts_ok_def)

lemma transfers_ok:
  "accounts_ok ac \<Longrightarrow> distinct (map tf_hash ts) \<Longrightarrow> \<forall>t\<in>set ts. tf_redeemed t \<noteq> None \<longrightarrow> tf_receiver t \<noteq> None \<Longrightarrow>
   accounts_ok (ac\<lparr>ac_transfers := ts\<rparr>)"
  by (simp add: accounts_ok_def)

lemma attempts_ok: "accounts_ok ac \<Longrightarrow> distinct (map at_bucket as) \<Longrightarrow> accounts_ok (ac\<lparr>ac_attempts := as\<rparr>)"
  by (simp add: accounts_ok_def)

lemma users_ok:
  assumes "accounts_ok ac" "\<And>u. us_id (f u) = us_id u" "\<And>u. us_normalized (f u) = us_normalized u"
  shows "accounts_ok (set_users (map f (ac_users ac)) ac)"
  using assms by (auto simp: accounts_ok_def comp_def image_image)

lemma prolonged_ok: "accounts_ok ac \<Longrightarrow> accounts_ok (prolonged ac h r u n)"
proof -
  assume ok: "accounts_ok ac"
  have "map rf_hash (ac_refresh (prolonged ac h r u n)) = map rf_hash (ac_refresh ac)" by (simp add: prolonged_def)
  moreover have "distinct (map rf_hash (ac_refresh ac))" using ok by (simp add: accounts_ok_def)
  ultimately have "distinct (map rf_hash (ac_refresh (prolonged ac h r u n)))" by simp
  with ok show ?thesis by (auto simp: accounts_ok_def prolonged_def)
qed

lemma moved_transfers_hash: "map tf_hash (map (\<lambda>t. if tf_hash t = h
    then t\<lparr>tf_receiver := Some rh, tf_redeemed := Some n, tf_response := Some receipt\<rparr> else t) ts) = map tf_hash ts"
  by simp

lemma moved_transfers_received:
  assumes "\<forall>t\<in>set ts. tf_redeemed t \<noteq> None \<longrightarrow> tf_receiver t \<noteq> None"
  shows "\<forall>t\<in>set (moved_transfers n user h rh receipt ts). tf_redeemed t \<noteq> None \<longrightarrow> tf_receiver t \<noteq> None"
  using assms by (auto simp: moved_transfers_def)

lemma ab_moved_ok:
  assumes "accounts_ok ac" "fh \<notin> rf_hash ` set (ac_refresh ac)" "user \<in> us_id ` set (ac_users ac)"
  shows "accounts_ok (moved_account n user epoch h rh receipt fh e ac)"
proof -
  let ?ac = "moved_account n user epoch h rh receipt fh e ac"
  have users: "us_id ` set (ac_users ?ac) = us_id ` set (ac_users ac)" by (simp add: image_image)
  have "distinct (map us_id (ac_users ?ac))" "distinct (map us_normalized (ac_users ?ac))"
    using assms(1) by (simp_all add: accounts_ok_def comp_def)
  moreover have "distinct (map rf_hash (ac_refresh ?ac))"
    using assms(1,2) by (simp add: accounts_ok_def comp_def image_image)
  moreover have "distinct (map tf_hash (ac_transfers ?ac))"
    using assms(1) unfolding moved_account_sel moved_transfers_def
    by (intro distinct_map_filter) (unfold moved_transfers_hash, simp add: accounts_ok_def)
  moreover have "\<forall>r\<in>set (ac_refresh ?ac). rf_user r \<in> us_id ` set (ac_users ?ac) \<and> (rf_reason r \<noteq> None \<longrightarrow> rf_revoked r \<noteq> None)"
    unfolding users
  proof
    fix r
    assume "r \<in> set (ac_refresh ?ac)"
    then consider q where "q \<in> set (ac_refresh ac)" "r = revoke_refresh n user q" | "r = fresh_refresh fh user e n"
      unfolding moved_account_sel by auto
    then show "rf_user r \<in> us_id ` set (ac_users ac) \<and> (rf_reason r \<noteq> None \<longrightarrow> rf_revoked r \<noteq> None)"
    proof cases
      case 1
      with assms(1) have "rf_user q \<in> us_id ` set (ac_users ac) \<and> (rf_reason q \<noteq> None \<longrightarrow> rf_revoked q \<noteq> None)"
        unfolding accounts_ok_def by blast
      then show ?thesis unfolding 1(2) by (simp only: revoke_refresh_sel) simp
    next
      case 2
      with assms(3) show ?thesis by simp
    qed
  qed
  moreover have "\<forall>t\<in>set (ac_transfers ?ac). tf_redeemed t \<noteq> None \<longrightarrow> tf_receiver t \<noteq> None"
    using assms(1) unfolding moved_account_sel by (intro moved_transfers_received) (simp add: accounts_ok_def)
  ultimately show ?thesis using assms(1) unfolding accounts_ok_def by simp
qed

lemma redeem_ok:
  assumes "redeem au flt now e code rcv expected ac = Inr (r, ac')" "accounts_ok ac"
  shows "accounts_ok ac'"
  using assms(1)
proof (rule redeem_cases)
  fix t u
  assume "(\<exists>d. tf_redeemed t = Some d \<and> ac' = ac \<and>
        redeem_again au flt now e (transfer_hash au code) (receiver_hash au rcv) t d u ac = Inr r) \<or>
     tf_redeemed t = None \<and>
        redeem_first au flt now e (transfer_hash au code) (receiver_hash au rcv) t u ac = Inr (r, ac')"
  then show ?thesis using assms(2) by (auto dest!: redeem_first_effect intro: ab_moved_ok)
qed

lemma redeem_for_user:
  assumes "RedeemTransferForUser au up flt1 flt2 now e code rcv peer expected ac = (res, ac')" "accounts_ok ac"
  obtains as where "distinct (map at_bucket as)" "accounts_ok (ac\<lparr>ac_attempts := as\<rparr>)"
    "ac' = ac\<lparr>ac_attempts := as\<rparr> \<or> (\<exists>r. res = Inr r \<and>
       redeem au flt2 now e (to_upper up (remove_spaces code)) rcv expected (ac\<lparr>ac_attempts := as\<rparr>) = Inr (r, ac'))"
proof -
  obtain a ac1 where a: "transferAttempt au flt1 now peer ac = (a, ac1)" by fastforce
  have "distinct (map at_bucket (ac_attempts ac))" using assms(2) by (simp add: accounts_ok_def)
  from transferAttempt_shape [OF a this] obtain as where as: "ac1 = ac\<lparr>ac_attempts := as\<rparr>" "distinct (map at_bucket as)" by blast
  have "ac' = ac1 \<or> (\<exists>r. res = Inr r \<and>
       redeem au flt2 now e (to_upper up (remove_spaces code)) rcv expected ac1 = Inr (r, ac'))"
  proof (cases a)
    case (Inr x)
    let ?r = "redeem au flt2 now e (to_upper up (remove_spaces code)) rcv expected ac1"
    have eq: "(case ?r of Inl e \<Rightarrow> (Inl e, ac1) | Inr (r, ac2) \<Rightarrow> (Inr r, ac2)) = (res, ac')"
      using assms(1) unfolding RedeemTransferForUser_def a Inr by (simp add: case_unit_Unity)
    show ?thesis
    proof (cases ?r)
      case (Inl x)
      with eq show ?thesis by simp
    next
      case (Inr x)
      obtain r ac2 where x: "x = (r, ac2)" by (cases x)
      with Inr eq show ?thesis by simp
    qed
  next
    case (Inl x)
    then show ?thesis using assms(1) unfolding RedeemTransferForUser_def a by simp
  qed
  then show thesis unfolding as(1) by (rule that [OF as(2) attempts_ok [OF assms(2) as(2)]])
qed

lemma dropped_ok:
  assumes "accounts_ok ac" shows "accounts_ok (ac\<lparr>ac_transfers := filter P (ac_transfers ac)\<rparr>)"
proof (rule transfers_ok [OF assms])
  show "distinct (map tf_hash (filter P (ac_transfers ac)))" using assms by (simp add: accounts_ok_def distinct_map_filter)
  show "\<forall>t\<in>set (filter P (ac_transfers ac)). tf_redeemed t \<noteq> None \<longrightarrow> tf_receiver t \<noteq> None"
    using assms by (simp add: accounts_ok_def)
qed

lemma created_ok:
  assumes "createTransfer au flt now e user epoch snap rec ac = Inr (c, ac')" "accounts_ok ac"
  shows "accounts_ok ac'"
proof -
  from createTransfer_effect [OF assms(1)] obtain snap' where
    new: "transfer_hash au (tc_code c) \<notin> tf_hash ` set (purged user now ac)" and
    ac': "ac' = ac\<lparr>ac_transfers := purged user now ac @
      [fresh_transfer (transfer_hash au (tc_code c)) user snap' (i64 (unix now + 600))]\<rparr>" by blast
  have kept: "accounts_ok (ac\<lparr>ac_transfers := purged user now ac\<rparr>)" unfolding purged_def by (rule dropped_ok [OF assms(2)])
  show ?thesis
    unfolding ac'
  proof (rule transfers_ok [OF assms(2)])
    show "distinct (map tf_hash (purged user now ac @ [fresh_transfer (transfer_hash au (tc_code c)) user snap' (i64 (unix now + 600))]))"
      using kept new by (simp add: accounts_ok_def)
    show "\<forall>t\<in>set (purged user now ac @ [fresh_transfer (transfer_hash au (tc_code c)) user snap' (i64 (unix now + 600))]).
        tf_redeemed t \<noteq> None \<longrightarrow> tf_receiver t \<noteq> None"
      using kept by (simp add: accounts_ok_def)
  qed
qed

lemma ab_step_ok: "account_step au up k ac ac' \<Longrightarrow> accounts_ok ac \<Longrightarrow> accounts_ok ac'"
proof (induction rule: account_step.induct)
  case (others d ac now cs)
  then show ?case by (simp add: accounts_ok_def)
next
  case (invites flt now number entropy ac codes ac')
  from create_invites_shape [OF invites(1)] obtain new where
    "ac' = ac\<lparr>ac_invites := ac_invites ac @ map (new_invite now) new\<rparr>"
    "distinct (map iv_hash (ac_invites ac)) \<longrightarrow> distinct (map iv_hash (ac_invites ac) @ new)" by blast
  moreover have "distinct (map iv_hash (ac_invites ac))" using invites(2) by (simp add: accounts_ok_def)
  ultimately show ?case using invites_ok [OF invites(2)] by simp
next
  case (register flt now fresh code nickname ac who ac')
  then show ?case using Register_effect registered_ok by blast
next
  case (register_issue flt now entropy fresh code nickname ac s ac')
  from RegisterAndIssue_effect [OF this(1)] obtain display normal h i rh where
    "rh \<notin> rf_hash ` set (ac_refresh ac)" "admitted h (new_user i display normal) ac"
    "ac' = (registered h (new_user i display normal) (unix now) ac)\<lparr>ac_refresh := ac_refresh ac @
      [fresh_refresh rh i PersistentRefreshExpiresAt (unix now)]\<rparr>" by blast
  then show ?case using append_refresh_ok [OF registered_ok [OF register_issue(2), of h "new_user i display normal" "unix now"], of rh i]
    by simp
next
  case (authenticate flt now access ac who ac')
  from Authenticate_effect [OF this(1)] show ?case
    by (elim exE conjE, simp only:) (rule users_ok [OF authenticate(2)], simp_all)
next
  case (issue flt now entropy user ac s ac')
  then show ?case using Issue_effect append_refresh_ok by blast
next
  case (refresh flt now raw ac s ac')
  then show ?case using Refresh_effect prolonged_ok by blast
next
  case (create flt now entropy access snap ac c ac')
  then obtain user epoch where "createTransfer au flt now entropy user epoch snap False ac = Inr (c, ac')"
    by (auto simp: CreateTransfer_def split: option.splits)
  from created_ok [OF this create(2)] show ?case .
next
  case (recovery flt now entropy user ac c ac')
  from created_ok [OF recovery(1) [unfolded CreateRecovery_def] recovery(2)] show ?case .
next
  case (cancel flt now access ac x ac')
  from CancelTransfer_effect [OF this(1)] dropped_ok [OF this(2)] show ?case by blast
next
  case (redeem flt1 flt2 now e code rcv peer expected ac res ac')
  then show ?case by (elim redeem_for_user) (auto dest: redeem_ok)
qed

lemma ab_run_ok: "account_run au up ks ac ac' \<Longrightarrow> accounts_ok ac \<Longrightarrow> accounts_ok ac'"
  by (induction rule: account_run.induct) (auto dest: ab_step_ok)

lemma reachable_accounts_ok: "account_reachable au up ac \<Longrightarrow> accounts_ok ac"
proof -
  assume "account_reachable au up ac"
  then obtain d ks where "account_run au up ks (no_accounts d) ac" by (auto simp: account_reachable_def)
  moreover have "accounts_ok (no_accounts d)" by (simp add: accounts_ok_def no_accounts_def)
  ultimately show ?thesis by (rule ab_run_ok)
qed

subsection \<open>What steps keep\<close>

lemma keeps_appended_users: "ac_users ac' = ac_users ac @ us \<Longrightarrow> keeps_users k ac ac'"
  by (auto simp: keeps_users_def)

lemma keeps_consumed: "ac_invites ac' = map (consumed_by h u a) (ac_invites ac) \<Longrightarrow> keeps_invites ac ac'"
  by (auto simp: keeps_invites_def intro!: bexI)

lemma keeps_appended_refresh: "ac_refresh ac' = ac_refresh ac @ rs \<Longrightarrow> keeps_refresh k ac ac'"
  by (auto simp: keeps_refresh_def)

lemma keeps_dropped_transfers:
  assumes "ac_transfers ac' = filter P (ac_transfers ac) @ ts" "\<forall>t\<in>set ts. lb_code k = Some (tf_hash t)"
    and "\<And>t. tf_redeemed t \<noteq> None \<Longrightarrow> \<not> P t \<Longrightarrow> tf_expires t < i64 (unix (lb_now k) - 86400)"
  shows "keeps_transfers k ac ac'"
  using assms by (auto simp: keeps_transfers_def)

lemma keeps_created:
  assumes "createTransfer au flt now e user epoch snap rec ac = Inr (c, ac')"
  shows "keeps \<lparr>lb_now = now, lb_epoch = None, lb_code = Some (issued_code au e)\<rparr> ac ac'"
proof -
  from createTransfer_effect [OF assms] obtain snap' where a: "tc_code c = base32_encode (take 5 e)"
    "ac' = ac\<lparr>ac_transfers := purged user now ac @ [fresh_transfer (transfer_hash au (tc_code c)) user snap' (i64 (unix now + 600))]\<rparr>"
    by blast
  have "keeps_transfers \<lparr>lb_now = now, lb_epoch = None, lb_code = Some (issued_code au e)\<rparr> ac ac'"
    by (rule keeps_dropped_transfers [where P = "\<lambda>t. \<not> (tf_user t = user \<and> tf_redeemed t = None \<or>
        tf_expires t < i64 (unix now - 86400))" and ts = "[fresh_transfer (transfer_hash au (tc_code c)) user snap' (i64 (unix now + 600))]"])
      (auto simp: a purged_def issued_code_def)
  then show ?thesis by (simp add: keeps_def keeps_same a)
qed

lemma moved_in_with_epoch:
  "user \<in> us_id ` set (ac_users ac) \<Longrightarrow> ac_users ac' = map (with_epoch user e) (ac_users ac) \<Longrightarrow> lb_epoch k = Some e \<Longrightarrow>
   moved_in k ac' user"
  by (auto simp: moved_in_def)

lemma keeps_moved:
  assumes "user \<in> us_id ` set (ac_users ac)" "lb_epoch k = Some e" "accounts_ok ac"
    "\<exists>t\<in>set (ac_transfers ac). tf_hash t = h \<and> tf_redeemed t = None"
  shows "keeps k ac (moved_account n user e h rh receipt fh ex ac)"
proof -
  let ?ac = "moved_account n user e h rh receipt fh ex ac"
  have moved: "moved_in k ?ac user" using moved_in_with_epoch [OF assms(1) moved_account_sel(1) assms(2)] .
  have "keeps_users k ac ?ac" using assms(2) by (auto simp: keeps_users_def)
  moreover have "keeps_refresh k ac ?ac"
    unfolding keeps_refresh_def
  proof
    fix r
    assume r: "r \<in> set (ac_refresh ac)"
    show "\<exists>r'\<in>set (ac_refresh ?ac). rf_hash r' = rf_hash r \<and> rf_user r' = rf_user r \<and> rf_created r' = rf_created r \<and>
        (rf_reason r = Some ''transfer'' \<longrightarrow> rf_reason r' = Some ''transfer'') \<and>
        (rf_revoked r' = rf_revoked r \<and> rf_reason r' = rf_reason r \<or> moved_in k ?ac (rf_user r))"
    proof (rule bexI)
      show "revoke_refresh n user r \<in> set (ac_refresh ?ac)" using r by simp
      show "rf_hash (revoke_refresh n user r) = rf_hash r \<and> rf_user (revoke_refresh n user r) = rf_user r \<and>
          rf_created (revoke_refresh n user r) = rf_created r \<and>
          (rf_reason r = Some ''transfer'' \<longrightarrow> rf_reason (revoke_refresh n user r) = Some ''transfer'') \<and>
          (rf_revoked (revoke_refresh n user r) = rf_revoked r \<and> rf_reason (revoke_refresh n user r) = rf_reason r \<or>
           moved_in k ?ac (rf_user r))"
        using moved by (cases "rf_user r = user") simp_all
    qed
  qed
  moreover have "keeps_transfers k ac ?ac"
  proof -
    have open_row: "tf_redeemed t = None" if "t \<in> set (ac_transfers ac)" "tf_hash t = h" for t
    proof -
      have "inj_on tf_hash (set (ac_transfers ac))" using assms(3) by (simp add: accounts_ok_def distinct_map)
      with assms(4) that show ?thesis by (metis inj_onD)
    qed
    then show ?thesis using moved by (auto simp: keeps_transfers_def moved_transfers_def)
  qed
  ultimately show ?thesis by (simp add: keeps_def keeps_same)
qed

lemma keeps_mapped_users:
  assumes "ac_users ac' = map f (ac_users ac)" "\<And>u. us_id (f u) = us_id u" "\<And>u. us_enabled (f u) = us_enabled u"
    "\<And>u. us_nickname (f u) = us_nickname u" "\<And>u. us_normalized (f u) = us_normalized u" "\<And>u. us_epoch (f u) = us_epoch u"
  shows "keeps_users k ac ac'"
  unfolding keeps_users_def
proof
  fix u
  assume "u \<in> set (ac_users ac)"
  then show "\<exists>u'\<in>set (ac_users ac'). us_id u' = us_id u \<and> us_enabled u' = us_enabled u \<and> us_nickname u' = us_nickname u \<and>
     us_normalized u' = us_normalized u \<and> (us_epoch u' = us_epoch u \<or> lb_epoch k = Some (us_epoch u'))"
    by (intro bexI [of _ "f u"]) (simp_all add: assms)
qed

lemma keeps_mapped_refresh:
  assumes "ac_refresh ac' = map f (ac_refresh ac)" "\<And>r. rf_hash (f r) = rf_hash r" "\<And>r. rf_user (f r) = rf_user r"
    "\<And>r. rf_created (f r) = rf_created r" "\<And>r. rf_reason (f r) = rf_reason r" "\<And>r. rf_revoked (f r) = rf_revoked r"
  shows "keeps_refresh k ac ac'"
  unfolding keeps_refresh_def
proof
  fix r
  assume "r \<in> set (ac_refresh ac)"
  then show "\<exists>r'\<in>set (ac_refresh ac'). rf_hash r' = rf_hash r \<and> rf_user r' = rf_user r \<and> rf_created r' = rf_created r \<and>
     (rf_reason r = Some ''transfer'' \<longrightarrow> rf_reason r' = Some ''transfer'') \<and>
     (rf_revoked r' = rf_revoked r \<and> rf_reason r' = rf_reason r \<or> moved_in k ac' (rf_user r))"
    by (intro bexI [of _ "f r"]) (simp_all add: assms)
qed

lemma keeps_redeem:
  assumes "redeem au flt now e code rcv expected ac = Inr (r, ac')" "accounts_ok ac" "lb_epoch k = drawn e"
  shows "keeps k ac ac'"
  using assms(1)
proof (rule redeem_cases)
  fix t u
  assume t: "transfer_of ac (transfer_hash au code) = Some t"
    and "(\<exists>d. tf_redeemed t = Some d \<and> ac' = ac \<and>
        redeem_again au flt now e (transfer_hash au code) (receiver_hash au rcv) t d u ac = Inr r) \<or>
     tf_redeemed t = None \<and>
        redeem_first au flt now e (transfer_hash au code) (receiver_hash au rcv) t u ac = Inr (r, ac')"
  then have d: "ac' = ac \<or> tf_redeemed t = None \<and>
      redeem_first au flt now e (transfer_hash au code) (receiver_hash au rcv) t u ac = Inr (r, ac')" by blast
  show ?thesis
  proof (cases "ac' = ac")
    case True
    then show ?thesis by (simp add: keeps_def keeps_same)
  next
    case False
    with d have 2: "tf_redeemed t = None"
      "redeem_first au flt now e (transfer_hash au code) (receiver_hash au rcv) t u ac = Inr (r, ac')" by auto
    have "t \<in> set (ac_transfers ac) \<and> tf_hash t = transfer_hash au code"
      using t by (auto simp: transfer_of_def find_Some_iff)
    with redeem_first_effect [OF 2(2)] 2(1) assms(2,3) show ?thesis
      by (auto simp: drawn_def intro!: keeps_moved)
  qed
qed

lemma ab_step_keeps: "account_step au up k ac ac' \<Longrightarrow> accounts_ok ac \<Longrightarrow> keeps k ac ac'"
proof (induction rule: account_step.induct)
  case (others d ac now cs)
  then show ?case by (simp add: keeps_def keeps_same)
next
  case (invites flt now number entropy ac codes ac')
  then show ?case using create_invites_shape [OF invites(1)] by (auto simp: keeps_def keeps_same keeps_invites_def)
next
  case (register flt now fresh code nickname ac who ac')
  from Register_effect [OF this(1)] show ?case
    by (auto simp: keeps_def keeps_same intro!: keeps_appended_users keeps_consumed)
next
  case (register_issue flt now entropy fresh code nickname ac s ac')
  from RegisterAndIssue_effect [OF this(1)] show ?case
    by (auto simp: keeps_def keeps_same intro!: keeps_appended_users keeps_consumed keeps_appended_refresh)
next
  case (authenticate flt now access ac who ac')
  from Authenticate_effect [OF this(1)] obtain i where
    "ac' = set_users (map (\<lambda>u. if current_account i u then u\<lparr>us_last_seen := Some now\<rparr> else u) (ac_users ac)) ac" by blast
  moreover from this have "keeps_users (at_time now) ac ac'"
    by (intro keeps_mapped_users [where f = "\<lambda>u. if current_account i u then u\<lparr>us_last_seen := Some now\<rparr> else u"]) simp_all
  ultimately show ?case by (simp add: keeps_def keeps_same)
next
  case (issue flt now entropy user ac s ac')
  from Issue_effect [OF this(1)] show ?case by (auto simp: keeps_def keeps_same intro!: keeps_appended_refresh)
next
  case (refresh flt now raw ac s ac')
  from Refresh_effect [OF this(1)] obtain h r u where "ac' = prolonged ac h r u (unix now)" by blast
  moreover have "keeps_refresh (at_time now) ac (prolonged ac h r u (unix now))"
    by (rule keeps_mapped_refresh [where f = "\<lambda>q. if refresh_guard ac h (rf_user r) (us_epoch u) (unix now) q
        then q\<lparr>rf_expires := PersistentRefreshExpiresAt\<rparr> else q"]) (simp_all add: prolonged_def)
  ultimately show ?case by (simp add: keeps_def keeps_same prolonged_def)
next
  case (create flt now entropy access snap ac c ac')
  then show ?case by (auto simp: CreateTransfer_def split: option.splits intro: keeps_created)
next
  case (recovery flt now entropy user ac c ac')
  then show ?case by (auto simp: CreateRecovery_def intro: keeps_created)
next
  case (cancel flt now access ac x ac')
  from CancelTransfer_effect [OF this(1)] obtain P where P: "\<forall>t. P t \<longrightarrow> tf_redeemed t = None"
    "ac' = ac\<lparr>ac_transfers := filter (\<lambda>t. \<not> P t) (ac_transfers ac)\<rparr>" by blast
  then have "keeps_transfers (at_time now) ac ac'"
    by (intro keeps_dropped_transfers [where P = "\<lambda>t. \<not> P t" and ts = "[]"]) auto
  with P show ?case by (simp add: keeps_def keeps_same)
next
  case (redeem flt1 flt2 now e code rcv peer expected ac res ac')
  let ?k = "\<lparr>lb_now = now, lb_epoch = drawn e, lb_code = None\<rparr>"
  from redeem show ?case
  proof (rule redeem_for_user)
    fix as
    assume ok: "accounts_ok (ac\<lparr>ac_attempts := as\<rparr>)" and
      "ac' = ac\<lparr>ac_attempts := as\<rparr> \<or> (\<exists>r. res = Inr r \<and>
       Transfers.redeem au flt2 now e (to_upper up (remove_spaces code)) rcv expected (ac\<lparr>ac_attempts := as\<rparr>) = Inr (r, ac'))"
    then have "ac' = ac\<lparr>ac_attempts := as\<rparr> \<or> keeps ?k (ac\<lparr>ac_attempts := as\<rparr>) ac'"
      using keeps_redeem [OF _ ok, of au flt2 now e _ rcv expected _ ac' ?k] by fastforce
    then show ?thesis by (auto simp: keeps_def keeps_same) (simp_all add: keeps_defs)
  qed
qed

end
