(* ===== verification/AccountHistory.thy ===== *)
theory AccountHistory
  imports AccountTables
begin

text \<open>
  Runs of the account service: what a redemption, a registration and an attempt mean for every later
  state. A run is a list of labelled steps (theory \<open>AccountTables\<close>); the label of a step has the epoch
  it drew, so that a theorem can say of an old access token that its epoch was not drawn again.
\<close>

subsection \<open>What runs keep\<close>

lemma run_users:
  "account_run au up ks ac ac' \<Longrightarrow> accounts_ok ac \<Longrightarrow> u \<in> set (ac_users ac) \<Longrightarrow>
   \<exists>u'\<in>set (ac_users ac'). us_id u' = us_id u \<and> us_enabled u' = us_enabled u \<and> us_nickname u' = us_nickname u \<and>
     (us_epoch u' = us_epoch u \<or> Some (us_epoch u') \<in> lb_epoch ` set ks)"
proof (induction arbitrary: u rule: account_run.induct)
  case (further ks ac ac1 k ac2)
  then obtain u1 where u1: "u1 \<in> set (ac_users ac1)" "us_id u1 = us_id u" "us_enabled u1 = us_enabled u"
    "us_nickname u1 = us_nickname u" "us_epoch u1 = us_epoch u \<or> Some (us_epoch u1) \<in> lb_epoch ` set ks" by blast
  have "keeps_users k ac1 ac2"
    using ab_step_keeps [OF further.hyps(2) ab_run_ok [OF further.hyps(1) further.prems(1)]] by (simp add: keeps_def)
  with u1(1) obtain u2 where "u2 \<in> set (ac_users ac2)" "us_id u2 = us_id u1" "us_enabled u2 = us_enabled u1"
    "us_nickname u2 = us_nickname u1" "us_epoch u2 = us_epoch u1 \<or> lb_epoch k = Some (us_epoch u2)"
    unfolding keeps_users_def by blast
  with u1 show ?case by (intro bexI [of _ u2]) auto
qed blast

lemma run_invites:
  "account_run au up ks ac ac' \<Longrightarrow> accounts_ok ac \<Longrightarrow> i \<in> set (ac_invites ac) \<Longrightarrow> iv_at i \<noteq> None \<Longrightarrow>
   i \<in> set (ac_invites ac')"
proof (induction rule: account_run.induct)
  case (further ks ac ac1 k ac2)
  have "keeps_invites ac1 ac2"
    using ab_step_keeps [OF further.hyps(2) ab_run_ok [OF further.hyps(1) further.prems(1)]] by (simp add: keeps_def)
  with further show ?case unfolding keeps_invites_def by blast
qed

lemma run_moved:
  "account_run au up ks ac ac' \<Longrightarrow> accounts_ok ac \<Longrightarrow> r \<in> set (ac_refresh ac) \<Longrightarrow> rf_reason r = Some ''transfer'' \<Longrightarrow>
   \<exists>r'\<in>set (ac_refresh ac'). rf_hash r' = rf_hash r \<and> rf_user r' = rf_user r \<and> rf_reason r' = Some ''transfer''"
proof (induction rule: account_run.induct)
  case (further ks ac ac1 k ac2)
  then obtain r1 where r1: "r1 \<in> set (ac_refresh ac1)" "rf_hash r1 = rf_hash r" "rf_user r1 = rf_user r"
    "rf_reason r1 = Some ''transfer''" by blast
  have "keeps_refresh k ac1 ac2"
    using ab_step_keeps [OF further.hyps(2) ab_run_ok [OF further.hyps(1) further.prems(1)]] by (simp add: keeps_def)
  with r1(1,4) obtain r2 where "r2 \<in> set (ac_refresh ac2)" "rf_hash r2 = rf_hash r1" "rf_user r2 = rf_user r1"
    "rf_reason r2 = Some ''transfer''" unfolding keeps_refresh_def by blast
  with r1 show ?case by auto
qed blast

lemma moved_in_drawn: "moved_in k ac u \<Longrightarrow> lb_epoch k \<noteq> None"
  by (auto simp: moved_in_def)

lemma run_live:
  "account_run au up ks ac ac' \<Longrightarrow> accounts_ok ac \<Longrightarrow> \<forall>k\<in>set ks. lb_epoch k = None \<Longrightarrow> r \<in> set (ac_refresh ac) \<Longrightarrow>
   \<exists>r'\<in>set (ac_refresh ac'). rf_hash r' = rf_hash r \<and> rf_user r' = rf_user r \<and> rf_created r' = rf_created r \<and>
     rf_revoked r' = rf_revoked r \<and> rf_reason r' = rf_reason r"
proof (induction rule: account_run.induct)
  case (further ks ac ac1 k ac2)
  then obtain r1 where r1: "r1 \<in> set (ac_refresh ac1)" "rf_hash r1 = rf_hash r" "rf_user r1 = rf_user r"
    "rf_created r1 = rf_created r" "rf_revoked r1 = rf_revoked r" "rf_reason r1 = rf_reason r" by auto
  have k: "\<not> moved_in k ac2 u" for u using further.prems(2) moved_in_drawn [of k ac2 u] by auto
  have "keeps_refresh k ac1 ac2"
    using ab_step_keeps [OF further.hyps(2) ab_run_ok [OF further.hyps(1) further.prems(1)]] by (simp add: keeps_def)
  with r1(1) k obtain r2 where "r2 \<in> set (ac_refresh ac2)" "rf_hash r2 = rf_hash r1" "rf_user r2 = rf_user r1"
    "rf_created r2 = rf_created r1" "rf_revoked r2 = rf_revoked r1" "rf_reason r2 = rf_reason r1"
    unfolding keeps_refresh_def by blast
  with r1 show ?case by auto
qed auto

lemma run_transfers:
  "account_run au up ks ac ac' \<Longrightarrow> accounts_ok ac \<Longrightarrow> \<forall>k\<in>set ks. lb_code k \<noteq> Some h \<Longrightarrow>
   t \<in> set (ac_transfers ac) \<Longrightarrow> tf_hash t = h \<Longrightarrow> tf_redeemed t \<noteq> None \<Longrightarrow> t' \<in> set (ac_transfers ac') \<Longrightarrow> tf_hash t' = h \<Longrightarrow> t' = t"
proof (induction arbitrary: t' rule: account_run.induct)
  case (stop ac)
  have "inj_on tf_hash (set (ac_transfers ac))" using stop(1) by (simp add: accounts_ok_def distinct_map)
  with stop show ?case by (metis inj_onD)
next
  case (further ks ac ac1 k ac2)
  have "keeps_transfers k ac1 ac2"
    using ab_step_keeps [OF further.hyps(2) ab_run_ok [OF further.hyps(1) further.prems(1)]] by (simp add: keeps_def)
  moreover have "lb_code k \<noteq> Some (tf_hash t')" using further.prems(2,7) by auto
  ultimately obtain t1 where t1: "t1 \<in> set (ac_transfers ac1)" "tf_hash t' = tf_hash t1" "tf_redeemed t1 \<noteq> None \<longrightarrow> t' = t1"
    using further.prems(6) unfolding keeps_transfers_def by blast
  have "t1 = t" using further.prems t1 by (intro further.IH) auto
  with t1 further.prems show ?case by auto
qed

lemma run_receipt:
  "account_run au up ks ac ac' \<Longrightarrow> accounts_ok ac \<Longrightarrow> \<forall>k\<in>set ks. lb_epoch k = None \<and> i64 (unix (lb_now k) - 86400) \<le> tf_expires t \<Longrightarrow>
   t \<in> set (ac_transfers ac) \<Longrightarrow> tf_redeemed t \<noteq> None \<Longrightarrow> t \<in> set (ac_transfers ac')"
proof (induction rule: account_run.induct)
  case (further ks ac ac1 k ac2)
  have "keeps_transfers k ac1 ac2"
    using ab_step_keeps [OF further.hyps(2) ab_run_ok [OF further.hyps(1) further.prems(1)]] by (simp add: keeps_def)
  moreover have "\<not> moved_in k ac2 (tf_user t)" using further.prems(2) moved_in_drawn [of k ac2] by auto
  moreover have "\<not> tf_expires t < i64 (unix (lb_now k) - 86400)" using further.prems(2) by auto
  ultimately show ?case using further unfolding keeps_transfers_def by auto
qed

subsection \<open>A redemption that takes place\<close>

lemma transfer_of_attempts [simp]: "transfer_of (ac\<lparr>ac_attempts := as\<rparr>) h = transfer_of ac h"
  by (simp add: transfer_of_def)

lemma redeem_for_user_Inr:
  assumes "RedeemTransferForUser au up flt1 flt2 now e code rcv peer expected ac = (Inr r, ac')" "accounts_ok ac"
  obtains as where "accounts_ok (ac\<lparr>ac_attempts := as\<rparr>)"
    "redeem au flt2 now e (to_upper up (remove_spaces code)) rcv expected (ac\<lparr>ac_attempts := as\<rparr>) = Inr (r, ac')"
proof -
  obtain a ac1 where a: "transferAttempt au flt1 now peer ac = (a, ac1)" by fastforce
  have "distinct (map at_bucket (ac_attempts ac))" using assms(2) by (simp add: accounts_ok_def)
  from transferAttempt_shape [OF a this] obtain as where as: "ac1 = ac\<lparr>ac_attempts := as\<rparr>" "distinct (map at_bucket as)" by blast
  obtain x where x: "a = Inr x" using assms(1) unfolding RedeemTransferForUser_def a by (cases a) simp_all
  let ?r = "redeem au flt2 now e (to_upper up (remove_spaces code)) rcv expected ac1"
  have "(case ?r of Inl e \<Rightarrow> (Inl e, ac1) | Inr (r, ac2) \<Rightarrow> (Inr r, ac2)) = (Inr r, ac')"
    using assms(1) unfolding RedeemTransferForUser_def a x by (simp add: case_unit_Unity)
  then have "?r = Inr (r, ac')" by (auto split: sum.splits)
  then show thesis unfolding as(1) by (rule that [OF attempts_ok [OF assms(2) as(2)]])
qed

text \<open>The facts of a first redemption, with the account tables it leaves.\<close>

definition first_redemption ::
  "auth_config \<Rightarrow> int \<Rightarrow> nat list \<Rightarrow> bytes \<Rightarrow> bytes \<Rightarrow> transfer_row \<Rightarrow> accounts \<Rightarrow> TransferResult \<Rightarrow> accounts \<Rightarrow> bytes \<Rightarrow>
   bytes \<Rightarrow> bytes \<Rightarrow> bool" where
  "first_redemption au now e h rh t ac r ac' epoch receipt fh \<longleftrightarrow>
     (\<exists>as. accounts_ok (ac\<lparr>ac_attempts := as\<rparr>) \<and>
       ac' = moved_account (unix now) (tf_user t) epoch h rh receipt fh PersistentRefreshExpiresAt (ac\<lparr>ac_attempts := as\<rparr>)) \<and>
     drawn e = Some epoch \<and> epoch \<noteq> '''' \<and> unix now < tf_expires t \<and> tr_snapshot r = tf_snapshot t \<and>
     (\<exists>u rest e2. u \<in> set (ac_users ac) \<and> us_id u = tf_user t \<and> us_enabled u = 1 \<and>
       newSessionAt au \<lparr>ur_id = tf_user t, ur_nickname = us_nickname u\<rparr> (unix now) [epoch] rest = Some (tr_session r, e2) \<and>
       sealTransferReceipt au \<lparr>rc_session = tr_session r, rc_snapshot = tf_snapshot t, rc_epoch = epoch\<rparr> h e2 = Some receipt) \<and>
     fh = valueOrEmpty (HashRefreshToken (au_pepper au) (se_refresh (tr_session r))) \<and>
     fh \<notin> rf_hash ` set (ac_refresh ac)"

lemma drawn_nonempty: "randomToken (int refreshTokenEntropyBytes) e = Some (t, rest) \<Longrightarrow> t \<noteq> ''''"
  by (auto simp: randomToken_def b64_encode_def refreshTokenEntropyBytes_def length_b64_digits dest!: arg_cong [where f = length] split: if_splits)

lemma first_redemption:
  assumes "RedeemTransferForUser au up flt1 flt2 now e code rcv peer expected ac = (Inr r, ac')" "accounts_ok ac"
    "transfer_of ac (transfer_hash au (to_upper up (remove_spaces code))) = Some t" "tf_redeemed t = None"
  obtains epoch receipt fh where "first_redemption au now e (transfer_hash au (to_upper up (remove_spaces code)))
      (receiver_hash au rcv) t ac r ac' epoch receipt fh" "validRefreshTokenText rcv"
proof -
  obtain as where ok: "accounts_ok (ac\<lparr>ac_attempts := as\<rparr>)" and
    rd: "redeem au flt2 now e (to_upper up (remove_spaces code)) rcv expected (ac\<lparr>ac_attempts := as\<rparr>) = Inr (r, ac')"
    using redeem_for_user_Inr [OF assms(1,2)] .
  let ?h = "transfer_hash au (to_upper up (remove_spaces code))" and ?ac = "ac\<lparr>ac_attempts := as\<rparr>"
  obtain u where u: "u \<in> set (ac_users ac)" "us_id u = tf_user t" "us_enabled u = 1"
    "validRefreshTokenText rcv" "redeem_first au flt2 now e ?h (receiver_hash au rcv) t u ?ac = Inr (r, ac')"
    by (rule redeem_cases [OF rd]) (use assms(3,4) in auto)
  from redeem_first_effect [OF u(5)] obtain epoch rest receipt fh e2 where
    1: "randomToken (int refreshTokenEntropyBytes) e = Some (epoch, rest)" "unix now < tf_expires t" "tr_snapshot r = tf_snapshot t"
      "newSessionAt au \<lparr>ur_id = tf_user t, ur_nickname = us_nickname u\<rparr> (unix now) [epoch] rest = Some (tr_session r, e2)"
      "sealTransferReceipt au \<lparr>rc_session = tr_session r, rc_snapshot = tf_snapshot t, rc_epoch = epoch\<rparr> ?h e2 = Some receipt"
      "fh = valueOrEmpty (HashRefreshToken (au_pepper au) (se_refresh (tr_session r)))" "fh \<notin> rf_hash ` set (ac_refresh ac)"
      "ac' = moved_account (unix now) (tf_user t) epoch ?h (receiver_hash au rcv) receipt fh PersistentRefreshExpiresAt ?ac"
    by auto
  have "first_redemption au now e ?h (receiver_hash au rcv) t ac r ac' epoch receipt fh"
    unfolding first_redemption_def
    using 1 u ok drawn_nonempty [OF 1(1)] by (auto simp: drawn_def)
  then show thesis using u(4) by (rule that)
qed

lemma Refresh_transferred:
  assumes "accounts_ok ac" "q \<in> set (ac_refresh ac)" "HashRefreshToken (au_pepper au) raw = Some (rf_hash q)"
    "rf_reason q = Some ''transfer''"
  shows "\<exists>x. Refresh au flt now raw ac = Inl x"
    and "validRefreshTokenText raw \<Longrightarrow> Refresh au (\<lambda>_. False) now raw ac = Inl ErrSessionTransferred"
proof -
  have "find (\<lambda>r. rf_hash r = rf_hash q) (ac_refresh ac) = Some q"
    using assms(1,2) by (intro find_key) (simp_all add: accounts_ok_def)
  moreover obtain u where "account_of ac (rf_user q) = Some u"
  proof -
    have "rf_user q \<in> us_id ` set (ac_users ac)" using assms(1,2) by (simp add: accounts_ok_def)
    then have "account_of ac (rf_user q) \<noteq> None" unfolding account_of_def find_None_image by simp
    then show thesis using that by blast
  qed
  ultimately have j: "joined ac (rf_hash q) = Some (q, u)" by (simp add: joined_def refresh_of_def)
  show "\<exists>x. Refresh au flt now raw ac = Inl x"
    using assms(3,4) j by (simp add: Refresh_def exec_def begin_write_def)
  show "validRefreshTokenText raw \<Longrightarrow> Refresh au (\<lambda>_. False) now raw ac = Inl ErrSessionTransferred"
    using assms(3,4) j by (simp add: Refresh_def exec_def begin_write_def)
qed

text \<open>The tables after a first redemption.\<close>

lemma redeemed_tables:
  assumes "RedeemTransferForUser au up flt1 flt2 now e code rcv peer expected ac = (Inr r, ac1)" "accounts_ok ac"
    "transfer_of ac (transfer_hash au (to_upper up (remove_spaces code))) = Some t" "tf_redeemed t = None"
  obtains epoch receipt fh as where
    "first_redemption au now e (transfer_hash au (to_upper up (remove_spaces code))) (receiver_hash au rcv) t ac r ac1 epoch receipt fh"
    "ac1 = moved_account (unix now) (tf_user t) epoch (transfer_hash au (to_upper up (remove_spaces code)))
       (receiver_hash au rcv) receipt fh PersistentRefreshExpiresAt (ac\<lparr>ac_attempts := as\<rparr>)"
    "accounts_ok ac1" "tf_user t \<in> us_id ` set (ac_users ac)" "drawn e = Some epoch"
    "t\<lparr>tf_receiver := Some (receiver_hash au rcv), tf_redeemed := Some (unix now), tf_response := Some receipt\<rparr> \<in> set (ac_transfers ac1)"
    "tf_hash t = transfer_hash au (to_upper up (remove_spaces code))"
proof -
  let ?h = "transfer_hash au (to_upper up (remove_spaces code))"
  obtain epoch receipt fh where f: "first_redemption au now e ?h (receiver_hash au rcv) t ac r ac1 epoch receipt fh"
    using first_redemption [OF assms] .
  from f obtain as where ok: "accounts_ok (ac\<lparr>ac_attempts := as\<rparr>)" and
    ac1: "ac1 = moved_account (unix now) (tf_user t) epoch ?h (receiver_hash au rcv) receipt fh PersistentRefreshExpiresAt (ac\<lparr>ac_attempts := as\<rparr>)"
    unfolding first_redemption_def by blast
  from f have new: "fh \<notin> rf_hash ` set (ac_refresh ac)" "drawn e = Some epoch" unfolding first_redemption_def by blast+
  from f have "\<exists>u\<in>set (ac_users ac). us_id u = tf_user t" unfolding first_redemption_def by blast
  then have user: "tf_user t \<in> us_id ` set (ac_users ac)" by (metis imageI)
  have ok1: "accounts_ok ac1" unfolding ac1 by (rule ab_moved_ok) (use ok new user in simp_all)
  have t: "t \<in> set (ac_transfers ac)" "tf_hash t = ?h" using assms(3) by (auto simp: transfer_of_def find_Some_iff)
  then have "t\<lparr>tf_receiver := Some (receiver_hash au rcv), tf_redeemed := Some (unix now), tf_response := Some receipt\<rparr> \<in> set (ac_transfers ac1)"
    by (force simp: ac1 moved_transfers_def image_iff)
  with f ac1 ok1 user new(2) t(2) show thesis by (intro that)
qed

lemma Authenticate_old:
  assumes "accounts_ok ac" "ParseAccess au now access = Some who" "u \<in> set (ac_users ac)" "us_id u = id_user who"
    "us_epoch u \<noteq> id_epoch who"
  shows "\<exists>x. Authenticate au flt now access ac = Inl x"
proof (cases "Authenticate au flt now access ac")
  case (Inr p)
  then have "Authenticate au flt now access ac = Inr (fst p, snd p)" by simp
  from Authenticate_effect [OF this] assms(2) have "list_ex (current_account who) (ac_users ac)" by auto
  then obtain v where v: "v \<in> set (ac_users ac)" "us_id v = id_user who" "us_epoch v = id_epoch who"
    by (auto simp: list_ex_iff current_account_def)
  have "inj_on us_id (set (ac_users ac))" using assms(1) by (simp add: accounts_ok_def distinct_map)
  with v(1,2) assms(3,4) have "u = v" by (metis inj_onD)
  with v(3) assms(5) show ?thesis by simp
qed blast

text \<open>
  C27. Redeeming a code ends every session of the account that there was. Whatever happens afterwards, a refresh token
  that the account had gets no session, and is told that the account has moved; an access token that
  carries any other epoch than those drawn since is refused; and the launch tickets are gone and
  the resume tokens revoked.
\<close>
theorem transfer_moves:
  assumes "accounts_ok ac"
    and "RedeemTransferForUser au up flt1 flt2 now e code rcv peer expected ac = (Inr r, ac1)"
    and "transfer_of ac (transfer_hash au (to_upper up (remove_spaces code))) = Some t" "tf_redeemed t = None"
    and "account_run au up ks ac1 ac2"
  shows "(\<forall>q raw flt' now'. q \<in> set (ac_refresh ac) \<and> rf_user q = tf_user t \<and>
        HashRefreshToken (au_pepper au) raw = Some (rf_hash q) \<and> validRefreshTokenText raw \<longrightarrow>
        (\<exists>x. Refresh au flt' now' raw ac2 = Inl x) \<and> Refresh au (\<lambda>_. False) now' raw ac2 = Inl ErrSessionTransferred) \<and>
     (\<forall>access who flt' now'. ParseAccess au now' access = Some who \<and> id_user who = tf_user t \<and>
        Some (id_epoch who) \<noteq> drawn e \<and> Some (id_epoch who) \<notin> lb_epoch ` set ks \<longrightarrow>
        (\<exists>x. Authenticate au flt' now' access ac2 = Inl x)) \<and>
     (\<forall>k\<in>set (d_tickets (ac_db ac1)). t_user k \<noteq> tf_user t) \<and>
     (\<forall>k\<in>set (d_tokens (ac_db ac1)). k_user k = tf_user t \<longrightarrow> k_revoked k \<noteq> None)"
proof -
  obtain epoch receipt fh as where
    ac1: "ac1 = moved_account (unix now) (tf_user t) epoch (transfer_hash au (to_upper up (remove_spaces code)))
       (receiver_hash au rcv) receipt fh PersistentRefreshExpiresAt (ac\<lparr>ac_attempts := as\<rparr>)" and
    ok1: "accounts_ok ac1" and user: "tf_user t \<in> us_id ` set (ac_users ac)" and new: "drawn e = Some epoch"
    by (rule redeemed_tables [OF assms(2,1,3,4)])
  have ok2: "accounts_ok ac2" by (rule ab_run_ok [OF assms(5) ok1])
  have "(\<exists>x. Refresh au flt' now' raw ac2 = Inl x) \<and> Refresh au (\<lambda>_. False) now' raw ac2 = Inl ErrSessionTransferred"
    if "q \<in> set (ac_refresh ac)" "rf_user q = tf_user t" "HashRefreshToken (au_pepper au) raw = Some (rf_hash q)"
      "validRefreshTokenText raw" for q raw flt' now'
  proof -
    have "revoke_refresh (unix now) (tf_user t) q \<in> set (ac_refresh ac1)" using that(1) by (simp add: ac1)
    from run_moved [OF assms(5) ok1 this] that(2) obtain q2 where "q2 \<in> set (ac_refresh ac2)" "rf_hash q2 = rf_hash q"
      "rf_reason q2 = Some ''transfer''" by auto
    with Refresh_transferred [OF ok2 this(1)] that(3,4) show ?thesis by auto
  qed
  moreover have "\<exists>x. Authenticate au flt' now' access ac2 = Inl x"
    if "ParseAccess au now' access = Some who" "id_user who = tf_user t" "Some (id_epoch who) \<noteq> drawn e"
      "Some (id_epoch who) \<notin> lb_epoch ` set ks" for access who flt' now'
  proof -
    obtain u where u: "u \<in> set (ac_users ac1)" "us_id u = tf_user t" "us_epoch u = epoch"
    proof -
      obtain v where v: "v \<in> set (ac_users ac)" "us_id v = tf_user t" using user by (auto simp: image_iff)
      show thesis by (rule that [of "with_epoch (tf_user t) epoch v"]) (use v in \<open>simp_all add: ac1\<close>)
    qed
    from run_users [OF assms(5) ok1 u(1)] obtain u2 where "u2 \<in> set (ac_users ac2)" "us_id u2 = us_id u"
      "us_epoch u2 = us_epoch u \<or> Some (us_epoch u2) \<in> lb_epoch ` set ks" by blast
    with that u new show ?thesis by (intro Authenticate_old [OF ok2, of _ _ _ who u2]) auto
  qed
  moreover have "\<forall>k\<in>set (d_tickets (ac_db ac1)). t_user k \<noteq> tf_user t" by (simp add: ac1)
  moreover have "\<forall>k\<in>set (d_tokens (ac_db ac1)). k_user k = tf_user t \<longrightarrow> k_revoked k \<noteq> None"
    by (auto simp: ac1 moved_account_def revokeUserCredentials_def)
  ultimately show ?thesis by blast
qed

text \<open>
  C28. Once a code has been redeemed, only its receiver gets the account with it, as long as the same
  code is not issued again: a later redemption that succeeds is one of the same receiver.
\<close>
theorem transfer_receiver:
  assumes "accounts_ok ac"
    and "RedeemTransferForUser au up flt1 flt2 now e code rcv peer expected ac = (Inr r, ac1)"
    and "transfer_of ac (transfer_hash au (to_upper up (remove_spaces code))) = Some t" "tf_redeemed t = None"
    and "account_run au up ks ac1 ac2"
    and "\<forall>k\<in>set ks. lb_code k \<noteq> Some (transfer_hash au (to_upper up (remove_spaces code)))"
    and "to_upper up (remove_spaces code') = to_upper up (remove_spaces code)"
    and r': "RedeemTransferForUser au up flt1' flt2' now' e' code' rcv' peer' expected' ac2 = (Inr r', ac3)"
  shows "receiver_hash au rcv' = receiver_hash au rcv"
proof -
  let ?h = "transfer_hash au (to_upper up (remove_spaces code))"
  obtain receipt where ok1: "accounts_ok ac1" and t: "tf_hash t = ?h" and
    t1: "t\<lparr>tf_receiver := Some (receiver_hash au rcv), tf_redeemed := Some (unix now), tf_response := Some receipt\<rparr> \<in> set (ac_transfers ac1)"
    by (rule redeemed_tables [OF assms(2,1,3,4)])
  let ?t = "t\<lparr>tf_receiver := Some (receiver_hash au rcv), tf_redeemed := Some (unix now), tf_response := Some receipt\<rparr>"
  have ok2: "accounts_ok ac2" by (rule ab_run_ok [OF assms(5) ok1])
  obtain as2 where rd: "redeem au flt2' now' e' (to_upper up (remove_spaces code')) rcv' expected' (ac2\<lparr>ac_attempts := as2\<rparr>) = Inr (r', ac3)"
    using redeem_for_user_Inr [OF r' ok2] by blast
  show ?thesis
  proof (rule redeem_cases [OF rd])
    fix t2 u
    assume 2: "transfer_of (ac2\<lparr>ac_attempts := as2\<rparr>) (transfer_hash au (to_upper up (remove_spaces code'))) = Some t2"
      "(\<exists>d. tf_redeemed t2 = Some d \<and> ac3 = ac2\<lparr>ac_attempts := as2\<rparr> \<and>
        redeem_again au flt2' now' e' (transfer_hash au (to_upper up (remove_spaces code'))) (receiver_hash au rcv') t2 d u
          (ac2\<lparr>ac_attempts := as2\<rparr>) = Inr r') \<or>
       tf_redeemed t2 = None \<and> redeem_first au flt2' now' e' (transfer_hash au (to_upper up (remove_spaces code')))
          (receiver_hash au rcv') t2 u (ac2\<lparr>ac_attempts := as2\<rparr>) = Inr (r', ac3)"
    have "t2 \<in> set (ac_transfers ac2)" "tf_hash t2 = ?h" using 2(1) assms(7) by (auto simp: transfer_of_def find_Some_iff)
    then have "t2 = ?t" using run_transfers [OF assms(5) ok1 assms(6) t1] t by simp
    with 2(2) show ?thesis by (auto simp: redeem_again_def valueOrEmpty_def split: if_splits)
  qed
qed

subsection \<open>Repeating a redemption\<close>

lemma newSession_total:
  assumes "\<And>key c. \<exists>s. au_sign au key c = Some s" "randomToken (int refreshTokenEntropyBytes) e = Some (tok, rest)"
  shows "\<exists>s. newSessionAt au user n es e = Some (s, rest) \<and> se_user s = user \<and> se_refresh s = tok"
proof -
  let ?c = "\<lparr>cl_issuer = accessTokenIssuer, cl_subject = ur_id user, cl_id = (case es of [] \<Rightarrow> '''' | e # _ \<Rightarrow> e),
    cl_issued = Some n, cl_expires = Some (n + accessTokenLifetime)\<rparr>"
  obtain a where "au_sign au (au_secret au) ?c = Some a" using assms(1) by blast
  then show ?thesis unfolding newSessionAt_def sessionForRefreshToken_def assms(2) by simp
qed

lemma account_found:
  assumes "accounts_ok ac" "u \<in> set (ac_users ac)"
  shows "find (\<lambda>v. us_id v = us_id u \<and> us_enabled v = 1) (ac_users ac) = (if us_enabled u = 1 then Some u else None)"
proof -
  have inj: "inj_on us_id (set (ac_users ac))" and d: "distinct (ac_users ac)"
    using assms(1) by (simp_all add: accounts_ok_def distinct_map)
  show ?thesis
  proof (cases "us_enabled u = 1")
    case True
    have "\<And>v. v \<in> set (ac_users ac) \<Longrightarrow> (us_id v = us_id u \<and> us_enabled v = 1) \<longleftrightarrow> v = u"
      using inj assms(2) True by (auto dest: inj_onD)
    then have "find (\<lambda>v. us_id v = us_id u \<and> us_enabled v = 1) (ac_users ac) = find (\<lambda>v. v = u) (ac_users ac)"
      by (intro find_cong) auto
    also have "\<dots> = Some u" using find_key [of "\<lambda>x. x" "ac_users ac" u] d assms(2) by simp
    finally show ?thesis using True by simp
  next
    case False
    have "\<And>v. v \<in> set (ac_users ac) \<Longrightarrow> \<not> (us_id v = us_id u \<and> us_enabled v = 1)"
      using inj assms(2) False by (auto dest: inj_onD)
    then show ?thesis using False by (simp add: find_None_iff)
  qed
qed

lemma transfer_found: "accounts_ok ac \<Longrightarrow> t \<in> set (ac_transfers ac) \<Longrightarrow> transfer_of ac (tf_hash t) = Some t"
  unfolding transfer_of_def by (rule find_key) (simp_all add: accounts_ok_def)

lemma refresh_found: "accounts_ok ac \<Longrightarrow> r \<in> set (ac_refresh ac) \<Longrightarrow> refresh_of ac (rf_hash r) = Some r"
  unfolding refresh_of_def by (rule find_key) (simp_all add: accounts_ok_def)

text \<open>
  For a day the receiver can repeat the request, for instance because the answer was lost: while the
  account has not moved again, the same refresh token and the same snapshot come back. The hypotheses
  about the configuration are that a receipt that was sealed opens, and that signing succeeds; the
  other ones that the clock does not run back past the request, that the attempt is not one too
  many, and that there is entropy.
\<close>
lemma transfer_retry:
  assumes "accounts_ok ac"
    and "RedeemTransferForUser au up flt1 flt2 now e code rcv peer expected ac = (Inr r, ac1)"
    and "transfer_of ac (transfer_hash au (to_upper up (remove_spaces code))) = Some t" "tf_redeemed t = None"
    and "account_run au up ks ac1 ac2"
    and "\<forall>k\<in>set ks. lb_epoch k = None \<and> i64 (unix (lb_now k) - 86400) \<le> tf_expires t"
    and "\<And>rc h e d. sealTransferReceipt au rc h e = Some d \<Longrightarrow> openTransferReceipt au d h = Some rc"
    and "\<And>key c. \<exists>s. au_sign au key c = Some s"
    and "transferAttempt au (\<lambda>_. False) now' peer' ac2 = (Inr (), ac3)"
    and "unix now' < i64 (unix now + 86400)" "32 \<le> length e'"
    and "length (to_upper up (remove_spaces code)) = 8"
  shows "\<exists>r'. RedeemTransferForUser au up (\<lambda>_. False) (\<lambda>_. False) now' e' code rcv peer' '''' ac2 = (Inr r', ac3) \<and>
    se_refresh (tr_session r') = se_refresh (tr_session r) \<and> tr_snapshot r' = tr_snapshot r \<and>
    ur_id (se_user (tr_session r')) = tf_user t"
proof -
  let ?h = "transfer_hash au (to_upper up (remove_spaces code))" and ?rh = "receiver_hash au rcv"
  obtain epoch receipt fh as where f: "first_redemption au now e ?h ?rh t ac r ac1 epoch receipt fh" and
    ac1: "ac1 = moved_account (unix now) (tf_user t) epoch ?h ?rh receipt fh PersistentRefreshExpiresAt (ac\<lparr>ac_attempts := as\<rparr>)" and
    ok1: "accounts_ok ac1" and
    t1: "t\<lparr>tf_receiver := Some ?rh, tf_redeemed := Some (unix now), tf_response := Some receipt\<rparr> \<in> set (ac_transfers ac1)" and
    h: "tf_hash t = ?h"
    by (rule redeemed_tables [OF assms(2,1,3,4)])
  let ?t = "t\<lparr>tf_receiver := Some ?rh, tf_redeemed := Some (unix now), tf_response := Some receipt\<rparr>"
  have rcv: "validRefreshTokenText rcv" using first_redemption [OF assms(2,1,3,4)] .
  have ok2: "accounts_ok ac2" by (rule ab_run_ok [OF assms(5) ok1])
  from f obtain u rest e2 where epoch: "epoch \<noteq> ''''" "tr_snapshot r = tf_snapshot t"
      "fh = valueOrEmpty (HashRefreshToken (au_pepper au) (se_refresh (tr_session r)))"
    and u: "u \<in> set (ac_users ac)" "us_id u = tf_user t" "us_enabled u = 1"
    and s: "newSessionAt au \<lparr>ur_id = tf_user t, ur_nickname = us_nickname u\<rparr> (unix now) [epoch] rest = Some (tr_session r, e2)"
    and seal: "sealTransferReceipt au \<lparr>rc_session = tr_session r, rc_snapshot = tf_snapshot t, rc_epoch = epoch\<rparr> ?h e2 = Some receipt"
    unfolding first_redemption_def by blast
  have "with_epoch (tf_user t) epoch u \<in> set (ac_users ac1)" using u by (simp add: ac1)
  from run_users [OF assms(5) ok1 this] assms(6) u obtain v where v: "v \<in> set (ac_users ac2)" "us_id v = tf_user t"
    "us_enabled v = 1" "us_epoch v = epoch" by (auto simp: image_iff)
  have "?t \<in> set (ac_transfers ac2)" using run_receipt [OF assms(5) ok1 _ t1] assms(6) by simp
  from transfer_found [OF ok2 this] have t2: "transfer_of ac2 ?h = Some ?t" using h by simp
  have "fresh_refresh fh (tf_user t) PersistentRefreshExpiresAt (unix now) \<in> set (ac_refresh ac1)" by (simp add: ac1)
  from run_live [OF assms(5) ok1 _ this] assms(6) obtain q where q: "q \<in> set (ac_refresh ac2)" "rf_hash q = fh" "rf_revoked q = None"
    by auto
  have rf: "refresh_of ac2 fh = Some q" using refresh_found [OF ok2 q(1)] q(2) by simp
  obtain as3 where ac3: "ac3 = ac2\<lparr>ac_attempts := as3\<rparr>"
    using transferAttempt_shape [OF assms(9)] ok2 by (auto simp: accounts_ok_def)
  obtain tok rest' where tok: "randomToken (int refreshTokenEntropyBytes) e' = Some (tok, rest')"
    using assms(11) by (simp add: randomToken_def refreshTokenEntropyBytes_def maximumRandomTokenBytes_def)
  have user: "se_user (tr_session r) = \<lparr>ur_id = tf_user t, ur_nickname = us_nickname u\<rparr>"
    using newSessionAt_Some [OF s] issued_at by blast
  obtain s' where s': "newSessionAt au (se_user (tr_session r)) (unix now') [epoch] e' = Some (s', rest')" "se_user s' = se_user (tr_session r)"
    using newSession_total [OF assms(8) tok] by blast
  let ?r = "\<lparr>tr_session = s'\<lparr>se_refresh := se_refresh (tr_session r)\<rparr>, tr_snapshot = tf_snapshot t\<rparr>"
  have "redeem_again au (\<lambda>_. False) now' e' ?h ?rh ?t (unix now) v (ac2\<lparr>ac_attempts := as3\<rparr>) = Inr ?r"
    using assms(10) assms(7) [OF seal] epoch v rf q(3) s' by (simp add: redeem_again_def valueOrEmpty_def refresh_of_def)
  moreover have "find (\<lambda>u. us_id u = tf_user t \<and> us_enabled u = 1) (ac_users ac2) = Some v"
    using account_found [OF ok2 v(1)] v by simp
  ultimately have "redeem au (\<lambda>_. False) now' e' (to_upper up (remove_spaces code)) rcv '''' ac3 = Inr (?r, ac3)"
    using t2 rcv assms(12) by (simp add: ac3 redeem_def Let_def begin_write_def exec_def)
  then have "RedeemTransferForUser au up (\<lambda>_. False) (\<lambda>_. False) now' e' code rcv peer' '''' ac2 = (Inr ?r, ac3)"
    unfolding RedeemTransferForUser_def assms(9) by (simp add: case_unit_Unity)
  then show ?thesis using epoch(2) s'(2) user by simp
qed

subsection \<open>Refresh credentials\<close>

text \<open>
  C29. What \<open>Refresh\<close> answers, and all that it changes. The guards of its update hold whenever the
  checks before it have passed, so that the second look at the row never decides; the stored expiry
  is written and never read.
\<close>
theorem refresh_outcome:
  assumes "accounts_ok ac"
  shows "Refresh au (\<lambda>_. False) now raw ac =
    (if \<not> validRefreshTokenText raw then Inl ErrUnauthorized
     else case HashRefreshToken (au_pepper au) raw of
       None \<Rightarrow> Inl ErrUnauthorized
     | Some h \<Rightarrow> (case joined ac h of
         None \<Rightarrow> Inl ErrUnauthorized
       | Some (r, u) \<Rightarrow>
           if rf_reason r = Some ''transfer'' then Inl ErrSessionTransferred
           else if rf_revoked r \<noteq> None \<or> us_enabled u \<noteq> 1 \<or> unix now < rf_created r then Inl ErrUnauthorized
           else (case sessionForRefreshToken au \<lparr>ur_id = rf_user r, ur_nickname = us_nickname u\<rparr> (unix now) raw [us_epoch u] of
             None \<Rightarrow> Inl ErrInternal
           | Some s \<Rightarrow> Inr (s, ac\<lparr>ac_refresh := map (\<lambda>q. if rf_hash q = h then q\<lparr>rf_expires := PersistentRefreshExpiresAt\<rparr> else q)
               (ac_refresh ac)\<rparr>))))"
proof -
  have hit: "refresh_guard ac h (rf_user r) (us_epoch u) (unix now) q \<longleftrightarrow> rf_hash q = h"
    if "joined ac h = Some (r, u)" "rf_revoked r = None" "us_enabled u = 1" "rf_created r \<le> unix now" "q \<in> set (ac_refresh ac)"
    for h r u q
  proof -
    have r: "r \<in> set (ac_refresh ac)" "rf_hash r = h"
      using that(1) by (auto simp: joined_def refresh_of_def find_Some_iff split: option.splits)
    have "account_of ac (rf_user r) = Some u" using that(1) by (auto simp: joined_def split: option.splits)
    then have u: "list_ex (\<lambda>v. us_id v = rf_user r \<and> us_enabled v = 1 \<and> us_epoch v = us_epoch u) (ac_users ac)"
      using that(3) by (auto simp: list_ex_iff account_of_def find_Some_iff)
    have "inj_on rf_hash (set (ac_refresh ac))" using assms by (simp add: accounts_ok_def distinct_map)
    with r that(5) have "rf_hash q = h \<longleftrightarrow> q = r" by (auto dest: inj_onD)
    with u that(2,4) r(2) show ?thesis by (auto simp: refresh_guard_def)
  qed
  have one: "length (filter (\<lambda>q. rf_hash q = h) (ac_refresh ac)) = 1" if "joined ac h = Some (r, u)" for h r u
  proof -
    have r: "r \<in> set (ac_refresh ac)" "rf_hash r = h"
      using that by (auto simp: joined_def refresh_of_def find_Some_iff split: option.splits)
    have inj: "inj_on rf_hash (set (ac_refresh ac))" and d: "distinct (ac_refresh ac)"
      using assms by (simp_all add: accounts_ok_def distinct_map)
    have "set (filter (\<lambda>q. rf_hash q = h) (ac_refresh ac)) = {r}" using r inj by (auto dest: inj_onD)
    moreover have "distinct (filter (\<lambda>q. rf_hash q = h) (ac_refresh ac))" using d by simp
    ultimately show ?thesis by (metis card.empty card.insert distinct_card empty_iff finite.emptyI One_nat_def)
  qed
  have rows: "filter (refresh_guard ac h (rf_user r) (us_epoch u) (unix now)) (ac_refresh ac) = filter (\<lambda>q. rf_hash q = h) (ac_refresh ac)"
    "map (\<lambda>q. if refresh_guard ac h (rf_user r) (us_epoch u) (unix now) q then q\<lparr>rf_expires := PersistentRefreshExpiresAt\<rparr> else q) (ac_refresh ac) =
      map (\<lambda>q. if rf_hash q = h then q\<lparr>rf_expires := PersistentRefreshExpiresAt\<rparr> else q) (ac_refresh ac)"
    if "joined ac h = Some (r, u)" "rf_revoked r = None" "us_enabled u = 1" "rf_created r \<le> unix now" for h r u
    using hit [OF that] by (auto intro: filter_cong)
  show ?thesis
    by (auto simp: Refresh_def begin_write_def exec_def Let_def reusable_def rows one finish_def not_less split: option.splits)
qed

subsection \<open>Invitations\<close>

definition joins :: "auth_config \<Rightarrow> bytes \<Rightarrow> accounts \<Rightarrow> accounts \<Rightarrow> bool" where
  "joins au code ac ac' \<longleftrightarrow>
     (\<exists>flt now fresh nickname who. Register au flt now fresh code nickname ac = Inr (who, ac')) \<or>
     (\<exists>flt now e fresh nickname s. RegisterAndIssue au flt now e fresh code nickname ac = Inr (s, ac'))"

lemma check_registration_Inr:
  "check_registration au code nickname = Inr (d, n, h) \<Longrightarrow>
   \<exists>c. normalizeInviteCode code = Some c \<and> HashToken (au_pepper au) c = Some h"
  by (auto simp: check_registration_def split: if_splits option.splits)

lemma joins_step:
  assumes "joins au code ac ac'"
  shows "(\<exists>k. account_step au up k ac ac') \<and> (\<exists>c h i. normalizeInviteCode code = Some c \<and> HashToken (au_pepper au) c = Some h \<and>
    i \<in> set (ac_invites ac') \<and> iv_hash i = h \<and> iv_at i \<noteq> None)"
proof -
  have used: "\<exists>i\<in>set (ac_invites (registered h u n ac)). iv_hash i = h \<and> iv_at i \<noteq> None" if ad: "admitted h u ac" for h u n
  proof -
    obtain j where j: "j \<in> set (ac_invites ac)" "open_invite h j" using ad by (auto simp: admitted_def)
    then have "consumed_by h (us_id u) n j \<in> set (ac_invites (registered h u n ac))" by simp
    moreover have "iv_hash (consumed_by h (us_id u) n j) = h" "iv_at (consumed_by h (us_id u) n j) \<noteq> None"
      using j(2) by (simp_all add: consumed_by_def open_invite_def)
    ultimately show ?thesis by blast
  qed
  from assms show ?thesis
    unfolding joins_def
  proof (elim disjE exE)
    fix flt now fresh nickname who
    assume r: "Register au flt now fresh code nickname ac = Inr (who, ac')"
    obtain d n h where e: "check_registration au code nickname = Inr (d, n, h)" "admitted h (new_user (ur_id who) d n) ac"
      "ac' = registered h (new_user (ur_id who) d n) (unix now) ac" using Register_effect [OF r] by blast
    show ?thesis
      using account_step.register [OF r] check_registration_Inr [OF e(1)] used [OF e(2), of "unix now"] unfolding e(3) by blast
  next
    fix flt now e fresh nickname s
    assume r: "RegisterAndIssue au flt now e fresh code nickname ac = Inr (s, ac')"
    obtain d n h i rh where e: "check_registration au code nickname = Inr (d, n, h)" "admitted h (new_user i d n) ac"
      "ac' = (registered h (new_user i d n) (unix now) ac)\<lparr>ac_refresh := ac_refresh ac @
        [fresh_refresh rh i PersistentRefreshExpiresAt (unix now)]\<rparr>" using RegisterAndIssue_effect [OF r] by blast
    have "ac_invites ac' = ac_invites (registered h (new_user i d n) (unix now) ac)" by (simp add: e(3))
    then show ?thesis
      using account_step.register_issue [OF r] check_registration_Inr [OF e(1)] used [OF e(2), of "unix now"] by metis
  qed
qed

text \<open>
  C30. An invitation admits one account. After a registration with it, whatever happens, nobody
  registers with the same code, typed in any case, and the answer is that the invitation is invalid.
\<close>
theorem invite_once:
  assumes "accounts_ok ac" "joins au code ac ac1" "account_run au up ks ac1 ac2"
    and "normalizeInviteCode code' = normalizeInviteCode code"
  shows "\<not> joins au code' ac2 ac3 \<and>
    (\<forall>nickname p now fresh. code' \<noteq> '''' \<and> NormalizeNickname (au_ucd au) nickname = Some p \<longrightarrow>
       Register au (\<lambda>_. False) now fresh code' nickname ac2 = Inl ErrInviteInvalid)"
proof -
  obtain k c h i where k: "account_step au up k ac ac1" and c: "normalizeInviteCode code = Some c" "HashToken (au_pepper au) c = Some h"
    and i: "i \<in> set (ac_invites ac1)" "iv_hash i = h" "iv_at i \<noteq> None"
    using joins_step [OF assms(2)] by blast
  have ok1: "accounts_ok ac1" by (rule ab_step_ok [OF k assms(1)])
  have i2: "i \<in> set (ac_invites ac2)" by (rule run_invites [OF assms(3) ok1 i(1,3)])
  have "inj_on iv_hash (set (ac_invites ac2))" using ab_run_ok [OF assms(3) ok1] by (simp add: accounts_ok_def distinct_map)
  with i i2 have none: "\<not> (\<exists>j\<in>set (ac_invites ac2). open_invite h j)" by (auto simp: open_invite_def dest: inj_onD)
  have "\<not> joins au code' ac2 ac3"
  proof
    assume "joins au code' ac2 ac3"
    then show False
      unfolding joins_def using none c assms(4)
      by (auto dest!: Register_effect RegisterAndIssue_effect check_registration_Inr simp: admitted_def)
  qed
  moreover have "Register au (\<lambda>_. False) now fresh code' nickname ac2 = Inl ErrInviteInvalid"
    if "code' \<noteq> ''''" "NormalizeNickname (au_ucd au) nickname = Some p" for nickname p now fresh
    using that none c assms(4)
    by (cases p) (simp add: Register_def check_registration_def begin_write_def exec_def list_ex_iff)
  ultimately show ?thesis by blast
qed

subsection \<open>Attempts\<close>

lemma length_sha256: "length (sha256 m) = 32"
  by (simp add: sha256_def Let_def be_bytes_def)

lemma length_hex: "length (hex_encode bs) = 2 * length bs"
  by (induction bs) (simp_all add: hex_encode_def)

definition bucket_of :: "auth_config \<Rightarrow> bytes \<Rightarrow> bytes" where
  "bucket_of au peer = valueOrEmpty (HashToken (au_pepper au) (''transfer-peer:'' @ peer))"

lemma peer_bucket: "bucket_of au peer \<noteq> ''global''"
proof
  assume "bucket_of au peer = ''global''"
  then have "length (bucket_of au peer) = 6" by simp
  then show False
    by (auto simp: bucket_of_def HashToken_def hashTokenWithDomain_def valueOrEmpty_def length_hex length_sha256 split: if_splits)
qed

lemma attempts_upsert:
  "attempts_of (upsert_attempt b w ac) b' = attempts_of ac b' + (if b' = b then 1 else 0)"
proof -
  have map: "find (\<lambda>a. at_bucket a = c) (map (\<lambda>a. if at_bucket a = b then a\<lparr>at_attempts := at_attempts a + 1\<rparr> else a) as) =
      map_option (\<lambda>a. if at_bucket a = b then a\<lparr>at_attempts := at_attempts a + 1\<rparr> else a) (find (\<lambda>a. at_bucket a = c) as)" for c as
    by (induction as) simp_all
  have app: "find P (as @ [x]) = (case find P as of None \<Rightarrow> if P x then Some x else None | Some y \<Rightarrow> Some y)"
    for P :: "attempt_row \<Rightarrow> bool" and as x by (induction as) simp_all
  show ?thesis
  proof (cases "find (\<lambda>a. at_bucket a = b) (ac_attempts ac)")
    case None
    then show ?thesis by (cases "b' = b") (simp_all add: upsert_attempt_def attempts_of_def app split: option.splits)
  next
    case (Some a)
    have x: "at_bucket x = b'" if "find (\<lambda>a. at_bucket a = b') (ac_attempts ac) = Some x" for x
      using that by (auto simp: find_Some_iff)
    show ?thesis
    proof (cases "b' = b")
      case True
      then show ?thesis using x [of a] Some by (simp add: upsert_attempt_def attempts_of_def map)
    next
      case False
      then show ?thesis using x
        by (cases "find (\<lambda>a. at_bucket a = b') (ac_attempts ac)") (simp_all add: upsert_attempt_def attempts_of_def map Some)
    qed
  qed
qed

lemma window_upsert:
  "\<forall>a\<in>set (ac_attempts ac). at_window a = w \<Longrightarrow> \<forall>a\<in>set (ac_attempts (upsert_attempt b w ac)). at_window a = w"
  by (auto simp: upsert_attempt_def split: option.splits)

text \<open>What the rows of a window count.\<close>

definition counted :: "int \<Rightarrow> accounts \<Rightarrow> bytes \<Rightarrow> int" where
  "counted w ac b = attempts_of (ac\<lparr>ac_attempts := filter (\<lambda>a. at_window a = w) (ac_attempts ac)\<rparr>) b"

lemma counted_window: "\<forall>a\<in>set (ac_attempts ac). at_window a = w \<Longrightarrow> counted w ac b = attempts_of ac b"
  by (simp add: counted_def filter_id_conv attempts_of_def)

lemma attempt_step:
  assumes "transferAttempt au (\<lambda>_. False) now peer ac = (res, ac')"
  defines "w \<equiv> minute_window now" and "h \<equiv> bucket_of au peer"
  shows "counted w ac b \<le> counted w ac' b" and "counted w ac' ''global'' \<le> counted w ac ''global'' + 1"
    and "res = Inr () \<longleftrightarrow> counted w ac h < 30 \<and> counted w ac ''global'' < 300"
    and "res = Inr () \<Longrightarrow> counted w ac' h = counted w ac h + 1 \<and> counted w ac' ''global'' = counted w ac ''global'' + 1"
    and "\<not> counted w ac h < 30 \<Longrightarrow> counted w ac' ''global'' = counted w ac ''global''"
proof -
  let ?ac = "ac\<lparr>ac_attempts := filter (\<lambda>a. at_window a = w) (ac_attempts ac)\<rparr>"
  let ?ac1 = "upsert_attempt h w ?ac" and ?ac2 = "upsert_attempt ''global'' w (upsert_attempt h w ?ac)"
  have ne: "h \<noteq> ''global''" unfolding h_def by (rule peer_bucket)
  have w: "\<forall>a\<in>set (ac_attempts ?ac). at_window a = w" by simp
  have w1: "\<forall>a\<in>set (ac_attempts ?ac1). at_window a = w" by (rule window_upsert [OF w])
  have w2: "\<forall>a\<in>set (ac_attempts ?ac2). at_window a = w" by (rule window_upsert [OF w1])
  have c0: "attempts_of ?ac x = counted w ac x" for x by (simp add: counted_def)
  have c1: "counted w ?ac1 x = counted w ac x + (if x = h then 1 else 0)" for x
    by (simp add: counted_window [OF w1] attempts_upsert c0)
  have c2: "counted w ?ac2 x = counted w ac x + (if x = h then 1 else 0) + (if x = ''global'' then 1 else 0)" for x
    by (simp only: counted_window [OF w2] attempts_upsert c0)
  have a1: "attempts_of ?ac1 h = counted w ac h + 1" by (simp add: attempts_upsert c0)
  have a2: "attempts_of ?ac2 ''global'' = counted w ac ''global'' + 1" using ne by (simp only: attempts_upsert c0) simp
  have l: "attempt_limit h = 30" "attempt_limit ''global'' = 300" using ne by (simp_all add: attempt_limit_def)
  have eq: "(res, ac') = (if counted w ac h \<ge> 30 then (Inl ErrTransferLimited, ?ac1)
      else (if counted w ac ''global'' \<ge> 300 then Inl ErrTransferLimited else Inr (), ?ac2))"
    using assms(1) unfolding transferAttempt_buckets buckets_def bucket_of_def [symmetric] w_def [symmetric] h_def [symmetric] count_attempts.simps Let_def a1 a2 l
    by (auto split: if_splits)
  show "counted w ac b \<le> counted w ac' b" using eq by (auto simp: c1 c2 split: if_splits)
  show "counted w ac' ''global'' \<le> counted w ac ''global'' + 1" using eq ne by (auto simp: c1 c2 split: if_splits)
  show "res = Inr () \<longleftrightarrow> counted w ac h < 30 \<and> counted w ac ''global'' < 300" using eq by (auto split: if_splits)
  show "counted w ac' h = counted w ac h + 1 \<and> counted w ac' ''global'' = counted w ac ''global'' + 1" if "res = Inr ()"
    using eq that ne by (auto simp: c2 split: if_splits)
  show "counted w ac' ''global'' = counted w ac ''global''" if "\<not> counted w ac h < 30"
    using eq that ne by (auto simp: c1 split: if_splits)
qed

lemma attempt_result:
  assumes "transferAttempt au (\<lambda>_. False) now peer ac = (res, ac')"
  shows "res = Inl ErrTransferLimited \<or> res = Inr ()"
proof -
  have "\<exists>p. count_attempts (\<lambda>_. False) w bs x = Inr p" for w bs x
    by (induction bs arbitrary: x) (simp_all only: count_attempts.simps Let_def, simp_all, blast+)
  then obtain l a where "count_attempts (\<lambda>_. False) (minute_window now) (buckets au peer)
      (ac\<lparr>ac_attempts := filter (\<lambda>a. at_window a = minute_window now) (ac_attempts ac)\<rparr>) = Inr (l, a)" by (metis prod.collapse)
  with assms show ?thesis unfolding transferAttempt_buckets by (cases l) simp_all
qed

text \<open>A sequence of attempts, each with its time and peer, and what each is told.\<close>

fun attempts :: "auth_config \<Rightarrow> (int \<times> bytes) list \<Rightarrow> accounts \<Rightarrow> bool list" where
  "attempts au [] ac = []"
| "attempts au ((now, peer) # as) ac =
     (case transferAttempt au (\<lambda>_. False) now peer ac of (res, ac') \<Rightarrow> (res = Inr ()) # attempts au as ac')"

definition accepted :: "(int \<times> bytes) list \<Rightarrow> bool list \<Rightarrow> bytes \<Rightarrow> nat" where
  "accepted as rs peer = length (filter (\<lambda>(a, r). r \<and> snd a = peer) (zip as rs))"

lemma attempts_bound:
  "\<forall>a\<in>set as. minute_window (fst a) = w \<Longrightarrow>
   (0 \<le> counted w ac (bucket_of au peer) \<longrightarrow>
     int (accepted as (attempts au as ac) peer) \<le>
       max 0 (30 - counted w ac (bucket_of au peer))) \<and>
   int (length (filter (\<lambda>r. r) (attempts au as ac))) \<le> max 0 (300 - counted w ac ''global'')"
proof (induction as arbitrary: ac)
  case Nil
  then show ?case by (simp add: accepted_def)
next
  case (Cons a as)
  let ?h = "\<lambda>p. bucket_of au p"
  obtain now p where a: "a = (now, p)" by (cases a)
  have w: "minute_window now = w" using Cons.prems by (simp add: a)
  obtain res ac' where t: "transferAttempt au (\<lambda>_. False) now p ac = (res, ac')" by fastforce
  note s = attempt_step [OF t, unfolded w]
  have IH: "(0 \<le> counted w ac' (?h peer) \<longrightarrow> int (accepted as (attempts au as ac') peer) \<le> max 0 (30 - counted w ac' (?h peer))) \<and>
      int (length (filter (\<lambda>r. r) (attempts au as ac'))) \<le> max 0 (300 - counted w ac' ''global'')"
    using Cons.IH [of ac'] Cons.prems by simp
  have acc: "accepted (a # as) (attempts au (a # as) ac) peer = (if res = Inr () \<and> p = peer then 1 else 0) + accepted as (attempts au as ac') peer"
    by (simp add: a t accepted_def)
  have all: "length (filter (\<lambda>r. r) (attempts au (a # as) ac)) = (if res = Inr () then 1 else 0) + length (filter (\<lambda>r. r) (attempts au as ac'))"
    by (simp add: a t)
  have 1: "int (accepted (a # as) (attempts au (a # as) ac) peer) \<le> max 0 (30 - counted w ac (?h peer))"
    if "0 \<le> counted w ac (?h peer)"
  proof -
    have "0 \<le> counted w ac' (?h peer)" using that s(1) [of "?h peer"] by simp
    with IH have i: "int (accepted as (attempts au as ac') peer) \<le> max 0 (30 - counted w ac' (?h peer))" by simp
    show ?thesis
    proof (cases "res = Inr () \<and> p = peer")
      case True
      with s(3,4) i show ?thesis unfolding acc by auto
    next
      case False
      with s(1) [of "?h peer"] i show ?thesis unfolding acc by auto
    qed
  qed
  have "int (length (filter (\<lambda>r. r) (attempts au (a # as) ac))) \<le> max 0 (300 - counted w ac ''global'')"
  proof (cases "res = Inr ()")
    case True
    with s(3,4) IH show ?thesis unfolding all by auto
  next
    case False
    with s(1) [of "''global''"] IH show ?thesis unfolding all by auto
  qed
  with 1 show ?case by blast
qed

text \<open>
  In one minute at most thirty attempts of a peer and at most 300 attempts in all go ahead, and an attempt
  that a peer makes beyond its own limit takes nothing from the budget of the others.
\<close>
lemma transfer_limit:
  assumes "\<forall>a\<in>set as. minute_window (fst a) = w" and "\<forall>a\<in>set (ac_attempts ac). 0 \<le> at_attempts a"
  shows "accepted as (attempts au as ac) peer \<le> 30 \<and> length (filter (\<lambda>r. r) (attempts au as ac)) \<le> 300 \<and>
    (\<forall>now res ac'. minute_window now = w \<and> transferAttempt au (\<lambda>_. False) now peer ac = (res, ac') \<and>
       30 \<le> counted w ac (bucket_of au peer) \<longrightarrow>
       res = Inl ErrTransferLimited \<and> counted w ac' ''global'' = counted w ac ''global'')"
proof -
  have pos: "0 \<le> counted w ac b" for b
    using assms(2) by (auto simp: counted_def attempts_of_def find_Some_iff split: option.splits dest!: nth_mem)
  have "res = Inl ErrTransferLimited \<and> counted w ac' ''global'' = counted w ac ''global''"
    if "minute_window now = w" "transferAttempt au (\<lambda>_. False) now peer ac = (res, ac')"
      "30 \<le> counted w ac (bucket_of au peer)" for now res ac'
  proof -
    have "\<not> counted w ac (bucket_of au peer) < 30" using that(3) by simp
    with attempt_step(3,5) [OF that(2), unfolded that(1)] have "res \<noteq> Inr ()" "counted w ac' ''global'' = counted w ac ''global''"
      by auto
    moreover have "res = Inl ErrTransferLimited \<or> res = Inr ()" by (rule attempt_result [OF that(2)])
    ultimately show ?thesis by simp
  qed
  moreover have "int (accepted as (attempts au as ac) peer) \<le> max 0 (30 - counted w ac (bucket_of au peer))"
    "int (length (filter (\<lambda>r. r) (attempts au as ac))) \<le> max 0 (300 - counted w ac ''global'')"
    using attempts_bound [OF assms(1), of ac au peer] pos by blast+
  ultimately show ?thesis using pos [of "bucket_of au peer"] pos [of "''global''"] by auto
qed

subsection \<open>An account that moves\<close>

definition sample_token :: bytes where "sample_token = b64_encode (replicate 32 0)"

definition sample_session :: Session where
  "sample_session = \<lparr>se_user = \<lparr>ur_id = ''u1'', ur_nickname = ''Ann''\<rparr>, se_access = ''access'', se_access_expires = 900,
     se_refresh = sample_token, se_refresh_expires = PersistentRefreshExpiresAt\<rparr>"

definition sample_receipt :: transferReceipt where
  "sample_receipt = \<lparr>rc_session = sample_session, rc_snapshot = ''{}'', rc_epoch = sample_token\<rparr>"

definition sample_auth :: auth_config where
  "sample_auth = \<lparr>au_pepper = ''pepper'', au_secret = ''secret'', au_ucd = sample_ucd, au_parse = sample_parser,
     au_sign = (\<lambda>_ _. Some ''access''), au_verify = (\<lambda>_ _ _. None),
     au_seal = (\<lambda>_ _ _ rc. if rc = sample_receipt then Some ''nonce and box'' else None),
     au_open = (\<lambda>_ _ _. Some sample_receipt)\<rparr>"

definition sample_transfer :: transfer_row where
  "sample_transfer = fresh_transfer (transfer_hash sample_auth ''ABCDEFGH'') ''u1'' ''{}'' 600"

definition sample_accounts :: accounts where
  "sample_accounts =
     \<lparr>ac_db = \<lparr>d_users = [new_user ''u1'' ''Ann'' ''ann''], d_matches = [], d_players = [], d_events = [], d_slots = [],
        d_tickets = [], d_tokens = [], d_limits = []\<rparr>,
      ac_invites = [new_invite 0 (valueOrEmpty (HashToken ''pepper'' ''WELCOME''))], ac_refresh = [fresh_refresh ''r'' ''u1'' PersistentRefreshExpiresAt 0],
      ac_transfers = [sample_transfer], ac_attempts = [], ac_collections = []\<rparr>"

lemma sample_au [simp]: "au_pepper sample_auth = ''pepper''" "au_ucd sample_auth = sample_ucd"
  "au_sign sample_auth k c = Some ''access''" "au_open sample_auth k2 d h = Some sample_receipt"
  "au_seal sample_auth k2 n h rc = (if rc = sample_receipt then Some ''nonce and box'' else None)"
  by (simp_all add: sample_auth_def)

lemma sample_accounts_sel [simp]: "ac_users sample_accounts = [new_user ''u1'' ''Ann'' ''ann'']"
  "ac_refresh sample_accounts = [fresh_refresh ''r'' ''u1'' PersistentRefreshExpiresAt 0]"
  "ac_transfers sample_accounts = [sample_transfer]" "ac_attempts sample_accounts = []"
  "ac_invites sample_accounts = [new_invite 0 (valueOrEmpty (HashToken ''pepper'' ''WELCOME''))]"
  by (simp_all add: sample_accounts_def)

lemma sample_transfer_sel [simp]: "tf_redeemed sample_transfer = None" "tf_user sample_transfer = ''u1''"
  "tf_hash sample_transfer = transfer_hash sample_auth ''ABCDEFGH''" "tf_snapshot sample_transfer = ''{}''"
  "tf_expires sample_transfer = 600"
  by (simp_all add: sample_transfer_def fresh_transfer_def)

lemma sample_accounts_ok: "accounts_ok sample_accounts"
  by (simp add: accounts_ok_def)

lemma sample_typed: "to_upper (\<lambda>n. n) (remove_spaces ''ABCDEFGH'') = ''ABCDEFGH''"
  by (simp add: to_upper_def upper_def rune_width2_def is_space_def rune_val_def Let_def)

lemma sample_attempt:
  assumes "ac_attempts ac = []"
  obtains as where "transferAttempt au (\<lambda>_. False) now peer ac = (Inr (), ac\<lparr>ac_attempts := as\<rparr>)"
proof -
  obtain res ac' where t: "transferAttempt au (\<lambda>_. False) now peer ac = (res, ac')" by fastforce
  have "res = Inr ()" using attempt_step(3) [OF t] assms by (simp add: counted_def attempts_of_def)
  with t transferAttempt_shape [OF t] assms that show thesis by auto
qed

lemma sample_token_valid: "validRefreshTokenText sample_token" "length sample_token = 43"
  using randomToken_valid [of "replicate 32 0" sample_token "[]"]
  by (simp_all add: sample_token_def randomToken_def refreshTokenEntropyBytes_def maximumRandomTokenBytes_def list_all_length)

lemma sample_random: "32 \<le> n \<Longrightarrow> randomToken (int refreshTokenEntropyBytes) (replicate n 0) = Some (sample_token, replicate (n - 32) 0)"
  by (simp add: randomToken_def refreshTokenEntropyBytes_def maximumRandomTokenBytes_def sample_token_def min_def)

lemma sample_new_session: "32 \<le> n \<Longrightarrow>
   newSessionAt sample_auth \<lparr>ur_id = ''u1'', ur_nickname = ''Ann''\<rparr> 0 es (replicate n 0) = Some (sample_session, replicate (n - 32) 0)"
  by (simp add: newSessionAt_def sample_random sessionForRefreshToken_def sample_session_def accessTokenLifetime_def)

lemma sample_redeem:
  "\<exists>ac1. RedeemTransferForUser sample_auth (\<lambda>n. n) (\<lambda>_. False) (\<lambda>_. False) 0 (replicate 76 0) ''ABCDEFGH'' sample_token ''peer'' ''''
     sample_accounts = (Inr \<lparr>tr_session = sample_session, tr_snapshot = ''{}''\<rparr>, ac1)"
proof -
  let ?h = "transfer_hash sample_auth ''ABCDEFGH''" and ?rh = "receiver_hash sample_auth sample_token"
  obtain as where a: "transferAttempt sample_auth (\<lambda>_. False) 0 ''peer'' sample_accounts = (Inr (), sample_accounts\<lparr>ac_attempts := as\<rparr>)"
    by (rule sample_attempt [of sample_accounts sample_auth 0 "''peer''"]) simp_all
  let ?ac = "sample_accounts\<lparr>ac_attempts := as\<rparr>"
  have seal: "sealTransferReceipt sample_auth \<lparr>rc_session = sample_session, rc_snapshot = ''{}'', rc_epoch = sample_token\<rparr> ?h (replicate 12 0)
      = Some ''nonce and box''"
    by (simp add: sealTransferReceipt_def gcm_nonce_size_def sample_receipt_def)
  have "sample_token \<noteq> ''''" using sample_token_valid(2) by auto
  then obtain fh where fh: "HashRefreshToken ''pepper'' sample_token = Some fh" "length fh = 64"
    by (auto simp: HashRefreshToken_def hashTokenWithDomain_def length_hex length_sha256)
  then have new: "fh \<noteq> ''r''" by auto
  have "\<exists>ac1. move_account sample_auth (\<lambda>_. False) 0 ''u1'' sample_token ?h ?rh ''nonce and box'' sample_session ?ac = Inr ac1"
    using fh(1) new
    by (simp add: move_account_def exec_def insert_refresh_def refresh_of_def account_of_def set_users_def valueOrEmpty_def
        sample_session_def revoke_refresh_def fresh_refresh_def new_user_def)
  then obtain ac1 where "redeem_first sample_auth (\<lambda>_. False) 0 (replicate 76 0) ?h ?rh sample_transfer (new_user ''u1'' ''Ann'' ''ann'') ?ac =
      Inr (\<lparr>tr_session = sample_session, tr_snapshot = ''{}''\<rparr>, ac1)"
    using seal by (auto simp: redeem_first_def unix_def sample_random sample_new_session finish_def)
  then have "redeem sample_auth (\<lambda>_. False) 0 (replicate 76 0) ''ABCDEFGH'' sample_token '''' ?ac =
      Inr (\<lparr>tr_session = sample_session, tr_snapshot = ''{}''\<rparr>, ac1)"
    using sample_token_valid(1) by (simp add: redeem_def Let_def begin_write_def exec_def transfer_of_def)
  then show ?thesis unfolding RedeemTransferForUser_def a sample_typed by (simp add: case_unit_Unity)
qed

theorem transfer_moves_witness:
  "\<exists>ac1. RedeemTransferForUser sample_auth (\<lambda>n. n) (\<lambda>_. False) (\<lambda>_. False) 0 (replicate 76 0) ''ABCDEFGH'' sample_token ''peer'' ''''
       sample_accounts = (Inr \<lparr>tr_session = sample_session, tr_snapshot = ''{}''\<rparr>, ac1) \<and>
     (\<forall>access who. ParseAccess sample_auth 5 access = Some who \<and> id_user who = ''u1'' \<and> id_epoch who = '''' \<longrightarrow>
        (\<exists>x. Authenticate sample_auth (\<lambda>_. False) 5 access ac1 = Inl x))"
proof -
  obtain ac1 where r: "RedeemTransferForUser sample_auth (\<lambda>n. n) (\<lambda>_. False) (\<lambda>_. False) 0 (replicate 76 0) ''ABCDEFGH'' sample_token
      ''peer'' '''' sample_accounts = (Inr \<lparr>tr_session = sample_session, tr_snapshot = ''{}''\<rparr>, ac1)"
    using sample_redeem by blast
  have t: "transfer_of sample_accounts (transfer_hash sample_auth (to_upper (\<lambda>n. n) (remove_spaces ''ABCDEFGH''))) = Some sample_transfer"
    unfolding sample_typed by (simp add: transfer_of_def)
  have "drawn (replicate 76 0) \<noteq> Some ''''" using sample_token_valid(2) by (auto simp: drawn_def sample_random)
  moreover note transfer_moves [OF sample_accounts_ok r t sample_transfer_sel(1) account_run.stop]
  ultimately have "\<exists>x. Authenticate sample_auth (\<lambda>_. False) 5 access ac1 = Inl x"
    if "ParseAccess sample_auth 5 access = Some who" "id_user who = ''u1''" "id_epoch who = ''''" for access who
    using that by (metis empty_iff empty_set image_is_empty sample_transfer_sel(2))
  with r show ?thesis by blast
qed

lemma sample_of: "transfer_of sample_accounts (transfer_hash sample_auth (to_upper (\<lambda>n. n) (remove_spaces ''ABCDEFGH''))) = Some sample_transfer"
  unfolding sample_typed by (simp add: transfer_of_def)

theorem transfer_receiver_witness:
  "\<exists>ac1. RedeemTransferForUser sample_auth (\<lambda>n. n) (\<lambda>_. False) (\<lambda>_. False) 0 (replicate 76 0) ''ABCDEFGH'' sample_token ''peer'' ''''
       sample_accounts = (Inr \<lparr>tr_session = sample_session, tr_snapshot = ''{}''\<rparr>, ac1) \<and>
     (\<forall>flt1 flt2 now e rcv peer expected r ac2.
        RedeemTransferForUser sample_auth (\<lambda>n. n) flt1 flt2 now e ''ABCDEFGH'' rcv peer expected ac1 = (Inr r, ac2) \<longrightarrow>
        receiver_hash sample_auth rcv = receiver_hash sample_auth sample_token)"
proof -
  obtain ac1 where r: "RedeemTransferForUser sample_auth (\<lambda>n. n) (\<lambda>_. False) (\<lambda>_. False) 0 (replicate 76 0) ''ABCDEFGH'' sample_token
      ''peer'' '''' sample_accounts = (Inr \<lparr>tr_session = sample_session, tr_snapshot = ''{}''\<rparr>, ac1)"
    using sample_redeem by blast
  have "\<forall>k\<in>set []. lb_code k \<noteq> Some (transfer_hash sample_auth (to_upper (\<lambda>n. n) (remove_spaces ''ABCDEFGH'')))" by simp
  from transfer_receiver [OF sample_accounts_ok r sample_of sample_transfer_sel(1) account_run.stop this refl]
  have "receiver_hash sample_auth rcv = receiver_hash sample_auth sample_token"
    if "RedeemTransferForUser sample_auth (\<lambda>n. n) flt1 flt2 now e ''ABCDEFGH'' rcv peer expected ac1 = (Inr r', ac2)"
    for flt1 flt2 now e rcv peer expected r' ac2
    using that .
  with r show ?thesis by (intro exI [of _ ac1]) blast
qed

lemma transfer_retry_witness:
  "\<exists>ac1 ac2 r. RedeemTransferForUser sample_auth (\<lambda>n. n) (\<lambda>_. False) (\<lambda>_. False) 0 (replicate 76 0) ''ABCDEFGH'' sample_token ''peer'' ''''
       sample_accounts = (Inr \<lparr>tr_session = sample_session, tr_snapshot = ''{}''\<rparr>, ac1) \<and>
     RedeemTransferForUser sample_auth (\<lambda>n. n) (\<lambda>_. False) (\<lambda>_. False) 5000 (replicate 32 1) ''ABCDEFGH'' sample_token ''peer'' '''' ac1 =
       (Inr r, ac2) \<and> se_refresh (tr_session r) = sample_token \<and> tr_snapshot r = ''{}''"
proof -
  obtain ac1 where r: "RedeemTransferForUser sample_auth (\<lambda>n. n) (\<lambda>_. False) (\<lambda>_. False) 0 (replicate 76 0) ''ABCDEFGH'' sample_token
      ''peer'' '''' sample_accounts = (Inr \<lparr>tr_session = sample_session, tr_snapshot = ''{}''\<rparr>, ac1)"
    using sample_redeem by blast
  obtain as where t: "transferAttempt sample_auth (\<lambda>_. False) 0 ''peer'' sample_accounts = (Inr (), sample_accounts\<lparr>ac_attempts := as\<rparr>)"
    by (rule sample_attempt [of sample_accounts sample_auth 0 "''peer''"]) simp_all
  have "ac_attempts ac1 = as"
  proof -
    have "redeem sample_auth (\<lambda>_. False) 0 (replicate 76 0) ''ABCDEFGH'' sample_token '''' (sample_accounts\<lparr>ac_attempts := as\<rparr>) =
        Inr (\<lparr>tr_session = sample_session, tr_snapshot = ''{}''\<rparr>, ac1)"
      using r unfolding RedeemTransferForUser_def t sample_typed by (auto simp: case_unit_Unity split: sum.splits)
    then show ?thesis by (rule redeem_cases) (auto dest!: redeem_first_effect)
  qed
  moreover obtain res ac2 where t2: "transferAttempt sample_auth (\<lambda>_. False) 5000 ''peer'' ac1 = (res, ac2)" by fastforce
  moreover have w: "minute_window 0 = 0" "minute_window 5000 = 0" by (simp_all add: minute_window_def unix_def)
  ultimately have "counted 0 ac1 (bucket_of sample_auth ''peer'') = 1" "counted 0 ac1 ''global'' = 1"
    using attempt_step(4) [OF t, unfolded w bucket_of_def [symmetric]] by (simp_all add: counted_def attempts_of_def)
  with attempt_step(3) [OF t2, unfolded w bucket_of_def [symmetric]] have res: "res = Inr ()" by simp
  have law: "openTransferReceipt sample_auth d h = Some rc" if "sealTransferReceipt sample_auth rc h e = Some d" for rc h e d
    using that by (auto simp: sealTransferReceipt_def openTransferReceipt_def gcm_nonce_size_def split: if_splits)
  have sign: "\<exists>s. au_sign sample_auth k c = Some s" for k c by simp
  have day: "i64 86400 = 86400" by (simp add: i64_def)
  have "\<exists>r'. RedeemTransferForUser sample_auth (\<lambda>n. n) (\<lambda>_. False) (\<lambda>_. False) 5000 (replicate 32 1) ''ABCDEFGH'' sample_token ''peer'' '''' ac1 =
       (Inr r', ac2) \<and> se_refresh (tr_session r') = se_refresh (tr_session \<lparr>tr_session = sample_session, tr_snapshot = ''{}''\<rparr>) \<and>
       tr_snapshot r' = tr_snapshot \<lparr>tr_session = sample_session, tr_snapshot = ''{}''\<rparr> \<and>
       ur_id (se_user (tr_session r')) = tf_user sample_transfer"
    by (rule transfer_retry [OF sample_accounts_ok r sample_of sample_transfer_sel(1) account_run.stop _ law sign t2 [unfolded res]])
      (simp_all add: unix_def day sample_typed del: remove_spaces.simps)
  with r show ?thesis by (auto simp: sample_session_def simp del: remove_spaces.simps)
qed

text \<open>An account that refreshes, an invitation and a minute of attempts.\<close>

theorem refresh_outcome_witness:
  "\<exists>h s. HashRefreshToken ''pepper'' sample_token = Some h \<and>
     Refresh sample_auth (\<lambda>_. False) 7000 sample_token (sample_accounts\<lparr>ac_refresh := [fresh_refresh h ''u1'' 9 3]\<rparr>) =
       Inr (s, sample_accounts\<lparr>ac_refresh := [fresh_refresh h ''u1'' PersistentRefreshExpiresAt 3]\<rparr>)"
proof -
  have "sample_token \<noteq> ''''" using sample_token_valid(2) by auto
  then obtain h where h: "HashRefreshToken ''pepper'' sample_token = Some h"
    by (auto simp: HashRefreshToken_def hashTokenWithDomain_def)
  let ?ac = "sample_accounts\<lparr>ac_refresh := [fresh_refresh h ''u1'' 9 3]\<rparr>"
  have ok: "accounts_ok ?ac" by (simp add: accounts_ok_def)
  have j: "joined ?ac h = Some (fresh_refresh h ''u1'' 9 3, new_user ''u1'' ''Ann'' ''ann'')"
    by (simp add: joined_def refresh_of_def account_of_def)
  show ?thesis
    using refresh_outcome [OF ok, of sample_auth 7000 sample_token] h j sample_token_valid(1)
    by (simp add: sessionForRefreshToken_def unix_def fresh_refresh_def)
qed

theorem invite_once_witness:
  "\<exists>ac1. joins sample_auth ''WELCOME'' sample_accounts ac1 \<and>
     Register sample_auth (\<lambda>_. False) 9000 (Some ''u3'') ''WELCOME'' '' Ann B '' ac1 = Inl ErrInviteInvalid"
proof -
  have n: "normalizeInviteCode ''WELCOME'' = Some ''WELCOME''"
    by (simp add: normalizeInviteCode_def retiredInviteCodeLength_def inviteCodeLength_def)
  obtain h where h: "HashToken ''pepper'' ''WELCOME'' = Some h" by (simp add: HashToken_def hashTokenWithDomain_def)
  have "\<exists>who ac1. Register sample_auth (\<lambda>_. False) 0 (Some ''u2'') ''WELCOME'' '' Ann B '' sample_accounts = Inr (who, ac1)"
    by (simp add: Register_def check_registration_def sample_nickname n h begin_write_def exec_def valueOrEmpty_def
        open_invite_def insert_user_def consume_invite_def finish_def set_users_def)
  then obtain who ac1 where "Register sample_auth (\<lambda>_. False) 0 (Some ''u2'') ''WELCOME'' '' Ann B '' sample_accounts = Inr (who, ac1)"
    by blast
  then have j: "joins sample_auth ''WELCOME'' sample_accounts ac1" unfolding joins_def by blast
  from invite_once [OF sample_accounts_ok j account_run.stop refl]
  have "Register sample_auth (\<lambda>_. False) 9000 (Some ''u3'') ''WELCOME'' '' Ann B '' ac1 = Inl ErrInviteInvalid"
    using sample_nickname by simp
  with j show ?thesis by blast
qed

lemma transfer_limit_witness:
  "accepted (replicate 400 (0, ''peer'')) (attempts sample_auth (replicate 400 (0, ''peer'')) sample_accounts) ''peer'' \<le> 30"
  using transfer_limit [of "replicate 400 (0, ''peer'')" "minute_window 0" sample_accounts sample_auth "''peer''"] by simp

end
