(* ===== verification/Spec2Isabelle.thy ===== *)
theory Spec2Isabelle
  imports Gomoku Reversi Rps ChineseCheckers FlightChess BattleshipService Registry Scratch PresenceService HubActions HistoryPages ProtocolActions AccountHistory
begin

text \<open>
  Verification of the gamebox server (\<open>src/server/internal\<close>), a server on which two players play
  board games against each other. The models below are translations of its Go code; the theorems say
  what the code promises to its clients.

  \<^bold>\<open>The program.\<close> Five games are rule engines behind one interface, \<open>games/gameapi\<close>: an engine
  is a pure function from a snapshot (a revision and the JSON of the game state) and an action (a
  type and a JSON payload) to an event and the next snapshot, and a function that rebuilds the
  snapshot from the log of events. A registry (\<open>games/registry.go\<close>) knows the engines by their ids.
  The match service (\<open>matches/service.go\<close>) keeps the matches in tables: a row for each match, its two
  players, its log of events, the slots that keep a user from playing two matches of the same game,
  the tickets and tokens with which a client connects. It never stores a snapshot: it rebuilds it
  from the log, applies the action with the engine, checks what the engine produced and stores the
  event, all in one transaction. Clients talk to it over WebSockets: \<open>protocol/\<close> checks each message,
  the hub (\<open>matches/hub.go\<close>) hands actions to the service and fans the events out to the connections of the
  match, and \<open>matches/presence.go\<close> watches who is connected and has the service start and stop the timer
  after which a match without players is abandoned. \<open>matches/history.go\<close> lists the ended matches of a
  player. Accounts (\<open>auth/\<close>) are opened with an invitation, keep a session by access and refresh tokens, and
  move to another device by a transfer code; with it the sessions, tickets and tokens of the old device end.
  Battleship and the scratch collections are separate services with tables of their own. Nicknames
  are normalised by \<open>users/service.go\<close>.

  \<^bold>\<open>The theories.\<close>
  \<^item> \<open>Prelude\<close>: 64-bit integers (\<open>i64\<close> wraps a value), errors as sums (\<open>and_then\<close>, \<open>or_fail\<close>), lists.
    \<open>GoBytes\<close>: strings as byte lists, UTF-8, decimal numbers. \<open>GoMap\<close>: maps with ordered keys.
    \<open>GoJson\<close>: the parts of \<open>encoding/json\<close> the code uses: the grammar, rendering, field matching,
    decoding into Go values, and the strict object reader that every engine has a copy of; their
    round trips.
  \<^item> \<open>GameApi\<close>: \<open>gameapi/types.go\<close> and the contract of an engine as the locale \<open>event_log\<close>: if
    rebuilding a body accepts what applying produces and nothing else, then the logs that rebuild are
    those that play produces. Each engine interprets it.
  \<^item> \<open>Gomoku\<close>, \<open>Reversi\<close>, \<open>Rps\<close>, \<open>ChineseCheckers\<close>, \<open>FlightChess\<close>: the engines under \<open>games/\<close>. Each has
    the state as a record with the fields of the Go struct, its JSON form, \<open>decodeSnapshot\<close>, \<open>Apply\<close> and
    \<open>Rebuild\<close> with the checks in the order of the code. Each shows that snapshots round trip, what a move
    does and which error it meets, an invariant of the snapshots that play reaches, and that \<open>Rebuild\<close>
    accepts exactly the logs of play.
  \<^item> \<open>Registry\<close>: \<open>games/registry.go\<close>, with the engines as values of the interface \<open>Rules\<close>.
  \<^item> \<open>Users\<close>: \<open>users/service.go\<close> (nicknames) and \<open>auth/request_identity.go\<close> (the check at the start
    of each write). \<open>Uuid\<close>: what is assumed of \<open>uuid.Parse\<close>.
  \<^item> \<open>Scratch\<close>: \<open>scratch/service.go\<close>.
  \<^item> \<open>Battleship\<close>, \<open>BattleshipService\<close>: \<open>battleship/\<close>, the rules and the tables.
  \<^item> \<open>Matches\<close>, \<open>MatchLog\<close>, \<open>MatchService\<close>, \<open>MatchPlay\<close>, \<open>Credentials\<close>: \<open>matches/\<close>. \<open>Matches\<close> has the tables
    and the checks of requests and payloads; \<open>MatchLog\<close> reading a match and rebuilding its snapshot;
    \<open>MatchService\<close> creating, cancelling and abandoning matches, the offline timer, tickets, connecting,
    and the lobby; \<open>MatchPlay\<close> \<open>ApplyAction\<close>; \<open>Credentials\<close> the format and the hashes of credentials.
  \<^item> \<open>Tokens\<close>, \<open>AccessTokens\<close>, \<open>Accounts\<close>, \<open>Transfers\<close>: \<open>auth/tokens.go\<close>, \<open>auth/session.go\<close>, \<open>auth/service.go\<close> and
    \<open>auth/transfer.go\<close>, and from \<open>cmd/gameboxctl/main.go\<close> the creation of an invitation. \<open>AccountTables\<close>: the
    invariant \<open>accounts_ok\<close> of their tables and that every operation keeps it. \<open>AccountHistory\<close>: what
    holds of every history of the accounts: an invitation opens one account, a transfer goes to one receiver and
    ends what the old device had, and the outcome of a refresh.
  \<^item> \<open>MatchTables\<close>: the invariant \<open>tables_ok\<close> of the match tables, and for each operation its effect on
    the tables and that it keeps the invariant. \<open>MatchRebuild\<close>: rebuilding and moving in Gomoku
    matches. \<open>MatchHistory\<close>: the steps of the service (\<open>service_step\<close>), the databases it reaches, and
    the properties that hold in all of them.
  \<^item> \<open>Presence\<close>: \<open>matches/presence.go\<close> over the locale \<open>presence_store\<close>, the interface of the store that it
    calls; each of its operations is split where it calls the store without holding the lock.
    \<open>PresenceService\<close> interprets the locale by the match service and shows that what was announced of a player
    is true, that a match with an established connection, whose \<open>Connect\<close> does not wait for the store any more, is
    not abandoned, and what a sweep removes.
  \<^item> \<open>History\<close>, \<open>HistoryPages\<close>: \<open>matches/history.go\<close>; the pages list every ended match once, and the entries
    of the two players mirror each other.
  \<^item> \<open>Protocol\<close>, \<open>ProtocolActions\<close>: \<open>protocol/envelope.go\<close> and \<open>protocol/messages.go\<close>; the messages that are
    accepted, and that the match service takes those actions among them whose payload has at most 1024 bytes.
  \<^item> \<open>Hub\<close>, \<open>HubOrder\<close>: from \<open>matches/hub.go\<close> the fan-out of events and the handshake that makes a connection
    ready, as the step relation \<open>hub_step\<close>, each step what happens under one lock; no client that stays connected
    misses an event, and the order in which events are published does not matter. \<open>HubPings\<close>: pings and pongs, and
    that the bound on outstanding pings costs no pong. \<open>HubActions\<close>: what is done with each message of a client,
    which brings protocol, service, presence and fan-out together, and the connections that a transfer revokes
    (\<open>matches/session_revocation.go\<close>); every action keeps that what the service stored
    was published, is pending in the hub, or is on its way between its commit and its publication.

  \<^bold>\<open>How the code is rendered.\<close> A Go struct is a record, a constant a definition, a function that
  returns an error a function to a sum whose left side is the error, a pointer that may be nil an
  option. An \<open>int\<close> or \<open>int64\<close> is an \<open>int\<close> that is wrapped by \<open>i64\<close> where arithmetic could leave its
  range. A table is the list of its rows; a SQL statement is an operation on that list that fails on
  the constraints of the schema the code relies on. A transaction that fails returns an error and no
  database, so nothing it wrote remains. Other failures of statements, of a broken disk say, are
  chosen by a parameter (\<open>faults\<close>): the properties hold for all of them, or say that there is none.
  The clock, fresh identifiers and random bytes are arguments.

  \<^bold>\<open>Bounds and fuel.\<close> The scan of Reversi goes at most 8 cells from a disc, which is the size of the
  board; a run of Gomoku at most 15. The JSON parser has fuel twice the length of its input, which
  \<open>GoJson\<close> shows to be enough. \<open>rollDie\<close> and the drawing of fresh credentials stop after as many
  tries as the code allows (128 and 8). The token scan of \<open>Protocol\<close> has one unit of fuel more than its
  input has bytes; each token takes at least one. The theorem on the pages of the history has one unit for each
  page, and says that one more than the number of matches is enough. Every other recursion is structural or has a measure.

  \<^bold>\<open>Not modelled.\<close> The nesting limit of \<open>encoding/json\<close> (10000, out of reach of payloads of at most
  1024 bytes and states of at most 8192); nil receivers; the retries and timeouts of opening a
  transaction and the cancellation of contexts; the tables of Unicode and \<open>uuid.Parse\<close>, which are
  parameters. The win rate of the history is a rational number, without the rounding of
  \<open>float64\<close>. Of the hub, sockets and their timeouts, the JSON of the messages it sends, and shutdown; the loop that calls the
  sweep of presence. Not modelled at all are HTTP routing and handlers (\<open>httpapi/\<close>), opening the store and its
  migrations (\<open>store/\<close>), the start of the server (\<open>cmd/gameboxd\<close>, \<open>config/\<close>, \<open>diagnostics/\<close>, \<open>clock/\<close>), the other
  commands of \<open>cmd/gameboxctl\<close> and the client of the tests (\<open>testutil/\<close>): they move bytes between the network, the file
  system and the parts above.
\<close>

end
